(* ===== verification/Prelude.thy ===== *)
theory Prelude
  imports Main "HOL-Library.Word"
begin

unbundle bit_operations_syntax

text \<open>
  Shared vocabulary of the development: the machine integers of the GD32H759 (a
  little-endian Cortex-M7), byte encodings as \<open>memcpy\<close> performs them on that machine,
  stores into arrays, and the arithmetic of circular indices on which the ring buffer
  and the FreeRTOS stream buffer both rest.

  Conventions used by every component theory:
  \<^item> a C pointer that the code compares with \<open>NULL\<close> is an \<open>option\<close>;
  \<^item> an operation whose execution may be undefined (a call through a null function
    pointer, an access outside an array) or may block for ever returns an
    \<open>option\<close>, with \<open>None\<close> for that case;
  \<^item> a function that updates static data takes the state and returns the new one.
\<close>

section \<open>Machine integers\<close>

type_synonym u8 = "8 word"
type_synonym u16 = "16 word"
type_synonym u32 = "32 word"
type_synonym u64 = "64 word"

named_theorems ring_arith \<open>facts on circular indices\<close>
named_theorems byte_simps \<open>facts on byte encodings and array stores\<close>

lemma unat_succ_less:
  fixes i n :: "'a::len word"
  assumes "i < n"
  shows "unat (i + 1) = unat i + 1"
proof -
  have "unat i + 1 \<le> unat n"
    using assms by (simp add: word_less_nat_alt)
  moreover have "unat n < 2 ^ LENGTH('a)"
    by (rule unsigned_less)
  ultimately have "unat i + 1 < 2 ^ LENGTH('a)"
    by linarith
  then show ?thesis
    by (simp add: unat_word_ariths)
qed

lemma unat_diff_le:
  fixes a b :: "'a::len word"
  assumes "b \<le> a"
  shows "unat (a - b) = unat a - unat b"
  using assms by (simp add: unat_sub)

lemma unat_add_small:
  fixes a b :: "'a::len word"
  assumes "unat a + unat b < 2 ^ LENGTH('a)"
  shows "unat (a + b) = unat a + unat b"
  using assms by (simp add: unat_word_ariths)

lemma word_of_nat_eq_nat_iff:
  assumes "m < 2 ^ LENGTH('a::len)"
  shows "unat (word_of_nat m :: 'a word) = m"
  using assms by (simp add: unsigned_of_nat take_bit_nat_eq_self)

section \<open>Little-endian byte encodings\<close>

text \<open>
  \<open>le_list k n\<close> are the \<open>k\<close> low bytes of \<open>n\<close>, least significant first, and
  \<open>le_nat\<close> reads them back; \<open>memcpy\<close> between an integer object and a byte array
  is \<open>le_bytes\<close> in one direction and \<open>le_word\<close> in the other.
\<close>

fun le_nat :: "u8 list \<Rightarrow> nat" where
  "le_nat [] = 0"
| "le_nat (b # bs) = unat b + 256 * le_nat bs"

fun le_list :: "nat \<Rightarrow> nat \<Rightarrow> u8 list" where
  "le_list 0 n = []"
| "le_list (Suc k) n = word_of_nat (n mod 256) # le_list k (n div 256)"

definition le_word :: "u8 list \<Rightarrow> 'a::len word" where
  "le_word bs = word_of_nat (le_nat bs)"

definition le_bytes :: "nat \<Rightarrow> 'a::len word \<Rightarrow> u8 list" where
  "le_bytes k w = le_list k (unat w)"

lemma length_le_list [simp]: "length (le_list k n) = k"
  by (induction k arbitrary: n) auto

lemma length_le_bytes [simp]: "length (le_bytes k w) = k"
  by (simp add: le_bytes_def)

lemma unat_u8_less [simp]: "unat (b :: u8) < 256"
  using unsigned_less [of b] by simp

lemma unat_u8_of_mod [simp]: "unat (word_of_nat (n mod 256) :: u8) = n mod 256"
  by (rule word_of_nat_eq_nat_iff) simp

lemma le_nat_less: "le_nat bs < 256 ^ length bs"
proof (induction bs)
  case Nil
  then show ?case by simp
next
  case (Cons b bs)
  have "unat b < 256" by simp
  with Cons.IH have "unat b + 256 * le_nat bs < 256 * 256 ^ length bs"
    by linarith
  then show ?case by simp
qed

lemma le_nat_le_list: "le_nat (le_list k n) = n mod 256 ^ k"
proof (induction k arbitrary: n)
  case 0
  then show ?case by simp
next
  case (Suc k)
  then show ?case by (simp add: mod_mult2_eq)
qed

lemma le_list_le_nat: "le_list (length bs) (le_nat bs) = bs"
proof (induction bs)
  case Nil
  then show ?case by simp
next
  case (Cons b bs)
  have "(unat b + 256 * le_nat bs) mod 256 = unat b"
    by (simp add: mod_less)
  moreover have "(unat b + 256 * le_nat bs) div 256 = le_nat bs"
    by (simp add: div_less)
  ultimately show ?case
    using Cons.IH by simp
qed

lemma le_word_le_bytes [byte_simps]:
  assumes "LENGTH('a) = 8 * k"
  shows "le_word (le_bytes k w) = (w :: 'a::len word)"
proof -
  have "unat w < 256 ^ k"
    using unsigned_less [of w] assms by (simp add: power_mult)
  then show ?thesis
    by (simp add: le_word_def le_bytes_def le_nat_le_list)
qed

lemma le_bytes_le_word [byte_simps]:
  assumes "length bs = k" and "LENGTH('a) = 8 * k"
  shows "le_bytes k (le_word bs :: 'a::len word) = bs"
proof -
  have "le_nat bs < 2 ^ LENGTH('a)"
    using le_nat_less [of bs] assms by (simp add: power_mult)
  then show ?thesis
    using le_list_le_nat [of bs] assms(1)
    by (simp add: le_word_def le_bytes_def word_of_nat_eq_nat_iff)
qed

lemma le_word_inject:
  assumes "length bs = k" and "length cs = k" and "LENGTH('a) = 8 * k"
  shows "(le_word bs :: 'a::len word) = le_word cs \<longleftrightarrow> bs = cs"
  using le_bytes_le_word [OF assms(1,3)] le_bytes_le_word [OF assms(2,3)] by metis

section \<open>Stores into arrays\<close>

text \<open>
  \<open>store_at i ys xs\<close> is the array \<open>xs\<close> after \<open>memcpy(xs + i, ys, length ys)\<close>;
  the callers guard it so that the copy stays inside the array.
\<close>

definition store_at :: "nat \<Rightarrow> 'a list \<Rightarrow> 'a list \<Rightarrow> 'a list" where
  "store_at i ys xs = take i xs @ ys @ drop (i + length ys) xs"

definition seg :: "nat \<Rightarrow> nat \<Rightarrow> 'a list \<Rightarrow> 'a list" where
  "seg i n xs = take n (drop i xs)"

lemma length_store_at [simp]:
  "i + length ys \<le> length xs \<Longrightarrow> length (store_at i ys xs) = length xs"
  by (simp add: store_at_def)

lemma length_seg [simp]: "i + n \<le> length xs \<Longrightarrow> length (seg i n xs) = n"
  by (simp add: seg_def)

lemma seg_store_at_same [byte_simps]:
  "i + length ys \<le> length xs \<Longrightarrow> n = length ys \<Longrightarrow> seg i n (store_at i ys xs) = ys"
  by (simp add: seg_def store_at_def)

lemma nth_store_at:
  "i + length ys \<le> length xs \<Longrightarrow> k < length xs \<Longrightarrow>
   store_at i ys xs ! k = (if i \<le> k \<and> k < i + length ys then ys ! (k - i) else xs ! k)"
  by (auto simp: store_at_def nth_append)

lemma seg_store_at_other [byte_simps]:
  assumes "i + length ys \<le> length xs" and "j + n \<le> length xs"
    and "j + n \<le> i \<or> i + length ys \<le> j"
  shows "seg j n (store_at i ys xs) = seg j n xs"
proof (rule nth_equalityI)
  show "length (seg j n (store_at i ys xs)) = length (seg j n xs)"
    using assms by simp
next
  fix k
  assume "k < length (seg j n (store_at i ys xs))"
  then have k: "k < n" using assms by simp
  then show "seg j n (store_at i ys xs) ! k = seg j n xs ! k"
    using assms by (auto simp: seg_def nth_store_at)
qed

lemma take_store_at_end:
  "i + length ys \<le> length xs \<Longrightarrow> take (i + length ys) (store_at i ys xs) = take i xs @ ys"
  by (simp add: store_at_def)

section \<open>Circular indices\<close>

text \<open>
  A circular array of \<open>n\<close> slots holds the elements from index \<open>t\<close> up to, and not
  including, index \<open>h\<close>: \<open>ring_dist n t h\<close> of them, when the indices alone tell how many.
\<close>

definition ring_dist :: "nat \<Rightarrow> nat \<Rightarrow> nat \<Rightarrow> nat" where
  "ring_dist n t h = (if t \<le> h then h - t else n - (t - h))"

definition ring_slice :: "nat \<Rightarrow> 'a list \<Rightarrow> nat \<Rightarrow> nat \<Rightarrow> 'a list" where
  "ring_slice n buf t c = map (\<lambda>k. buf ! ((t + k) mod n)) [0..<c]"

lemma length_ring_slice [simp]: "length (ring_slice n buf t c) = c"
  by (simp add: ring_slice_def)

lemma ring_dist_less [ring_arith]: "t < n \<Longrightarrow> h < n \<Longrightarrow> ring_dist n t h < n"
  by (auto simp: ring_dist_def)

lemma ring_dist_self [simp]: "ring_dist n t t = 0"
  by (simp add: ring_dist_def)

lemma ring_dist_0_iff [ring_arith]: "t < n \<Longrightarrow> h < n \<Longrightarrow> ring_dist n t h = 0 \<longleftrightarrow> t = h"
  by (auto simp: ring_dist_def)

lemma ring_advance [ring_arith]:
  fixes t n k :: nat
  assumes "t < n" and "k \<le> n"
  shows "(t + k) mod n = (if t + k < n then t + k else t + k - n)"
proof (cases "t + k < n")
  case True
  then show ?thesis by simp
next
  case False
  then have "(t + k) mod n = (t + k - n) mod n"
    by (simp add: le_mod_geq)
  also have "\<dots> = t + k - n"
    using assms False by (intro mod_less) linarith
  finally show ?thesis
    using False by simp
qed

lemma ring_dist_reach [ring_arith]: "t < n \<Longrightarrow> h < n \<Longrightarrow> (t + ring_dist n t h) mod n = h"
  using ring_advance [of t n "ring_dist n t h"] by (auto simp: ring_dist_def split: if_splits)

lemma ring_dist_unique [ring_arith]:
  assumes "t < n" and "h < n" and "k < n"
  shows "(t + k) mod n = h \<longleftrightarrow> k = ring_dist n t h"
  using assms ring_advance [of t n k] by (auto simp: ring_dist_def split: if_splits)

lemma ring_dist_advance_head [ring_arith]:
  assumes "t < n" and "h < n" and "ring_dist n t h + c < n"
  shows "ring_dist n t ((h + c) mod n) = ring_dist n t h + c"
  using assms ring_advance [of h n c] by (auto simp: ring_dist_def split: if_splits)

lemma ring_dist_advance_tail [ring_arith]:
  assumes "t < n" and "h < n" and "c \<le> ring_dist n t h"
  shows "ring_dist n ((t + c) mod n) h = ring_dist n t h - c"
  using assms ring_advance [of t n c] ring_dist_less [of t n h]
  by (auto simp: ring_dist_def split: if_splits)

lemma nth_ring_slice: "k < c \<Longrightarrow> ring_slice n buf t c ! k = buf ! ((t + k) mod n)"
  by (simp add: ring_slice_def)

lemma ring_slice_cong:
  "(\<And>k. k < c \<Longrightarrow> buf ! ((t + k) mod n) = buf' ! ((t' + k) mod n)) \<Longrightarrow>
   ring_slice n buf t c = ring_slice n buf' t' c"
  by (simp add: ring_slice_def)

lemma ring_slice_add:
  "ring_slice n buf t (c + d) = ring_slice n buf t c @ ring_slice n buf ((t + c) mod n) d"
proof (rule nth_equalityI)
  show "length (ring_slice n buf t (c + d)) =
      length (ring_slice n buf t c @ ring_slice n buf ((t + c) mod n) d)"
    by simp
next
  fix k
  assume k: "k < length (ring_slice n buf t (c + d))"
  show "ring_slice n buf t (c + d) ! k =
      (ring_slice n buf t c @ ring_slice n buf ((t + c) mod n) d) ! k"
  proof (cases "k < c")
    case True
    then show ?thesis by (simp add: nth_append nth_ring_slice)
  next
    case False
    then have "t + c + (k - c) = t + k"
      by simp
    then have "((t + c) mod n + (k - c)) mod n = (t + k) mod n"
      using mod_add_left_eq [of "t + c" n "k - c"] by simp
    with False k show ?thesis
      by (simp add: nth_append nth_ring_slice del: add_diff_assoc)
  qed
qed

lemma ring_slice_take: "d \<le> c \<Longrightarrow> take d (ring_slice n buf t c) = ring_slice n buf t d"
  using ring_slice_add [of n buf t d "c - d"] by simp

lemma ring_slice_drop:
  "d \<le> c \<Longrightarrow> drop d (ring_slice n buf t c) = ring_slice n buf ((t + d) mod n) (c - d)"
  using ring_slice_add [of n buf t d "c - d"] by simp

lemma ring_slice_Suc:
  "ring_slice n buf t (Suc c) = ring_slice n buf t c @ [buf ! ((t + c) mod n)]"
  by (simp add: ring_slice_def)

text \<open>A store outside the occupied arc of the circle does not change what it holds.\<close>

lemma ring_slice_update_free:
  assumes "t < n" and "h < n" and "length buf = n" and "c \<le> ring_dist n t h"
  shows "ring_slice n (buf[h := b]) t c = ring_slice n buf t c"
proof (rule ring_slice_cong)
  fix k
  assume "k < c"
  with assms ring_dist_less [OF assms(1,2)] have "(t + k) mod n \<noteq> h"
    using ring_dist_unique [of t n h k] by auto
  then show "buf[h := b] ! ((t + k) mod n) = buf ! ((t + k) mod n)"
    by simp
qed

text \<open>The longest wait of the kernel.\<close>

definition portMAX_DELAY :: u32 where
  "portMAX_DELAY = 0xFFFFFFFF"

lemma unat_of_nat32: "m < 2 ^ 32 \<Longrightarrow> unat (of_nat m :: u32) = m"
  by (simp add: unat_of_nat take_bit_eq_mod)

end
