(* ===== verification/Fmc.thy ===== *)
theory Fmc
  imports Prelude
begin

text \<open>
  The part of the flash controller driver the firmware update uses, from
  \<^verbatim>\<open>src/Firmware/GD32H7xx_standard_peripheral/Source/gd32h7xx_fmc.c\<close>. The driver is code
  and is translated; the controller behind its registers is hardware and is a parameter, the
  record \<open>fmc_device\<close>: register reads (which may advance the hardware) and writes by register
  offset, a store into the flash address range, the content of the flash as the bus reads it,
  and the address register. \<open>fmc_hardware\<close> states what the code relies on: polling and writing
  registers does not change the flash, except that a write of the control register that
  changes the start bit may change the sector the address register points into, a store changes at
  most the four bytes it addresses, and setting the lock bit locks. Nothing is assumed on
  what an erase or a store writes: the code checks that by reading back.
\<close>

section \<open>Registers\<close>

definition BIT :: "nat \<Rightarrow> u32" where "BIT x = push_bit x 1"

definition FMC_KEY_REG_OFFSET :: u32 where "FMC_KEY_REG_OFFSET = 0x04"
definition FMC_CTL_REG_OFFSET :: u32 where "FMC_CTL_REG_OFFSET = 0x0C"
definition FMC_STAT_REG_OFFSET :: u32 where "FMC_STAT_REG_OFFSET = 0x10"
definition FMC_ADDR_REG_OFFSET :: u32 where "FMC_ADDR_REG_OFFSET = 0x14"

definition UNLOCK_KEY0 :: u32 where "UNLOCK_KEY0 = 0x45670123"
definition UNLOCK_KEY1 :: u32 where "UNLOCK_KEY1 = 0xCDEF89AB"
definition FMC_TIMEOUT_COUNT :: u32 where "FMC_TIMEOUT_COUNT = 0xFFFFFFFF"

definition FMC_CTL_LK :: u32 where "FMC_CTL_LK = BIT 0"
definition FMC_CTL_PG :: u32 where "FMC_CTL_PG = BIT 1"
definition FMC_CTL_SER :: u32 where "FMC_CTL_SER = BIT 2"
definition FMC_CTL_START :: u32 where "FMC_CTL_START = BIT 7"
definition FMC_STAT_BUSY :: u32 where "FMC_STAT_BUSY = BIT 0"

datatype fmc_state_enum =
  FMC_READY | FMC_BUSY | FMC_WPERR | FMC_PGSERR | FMC_RPERR | FMC_RSERR | FMC_ECCCOR | FMC_ECCDET
| FMC_OBMERR | FMC_TOERR

text \<open>A flag is a register offset and a bit position packed into one word.\<close>

definition FMC_REGIDX_BIT :: "u32 \<Rightarrow> u32 \<Rightarrow> u32" where
  "FMC_REGIDX_BIT regidx bitpos = push_bit 6 regidx OR bitpos"

definition FMC_REG_OFFSET :: "u32 \<Rightarrow> u32" where
  "FMC_REG_OFFSET flag = drop_bit 6 (flag AND 0x0000FFFF)"

definition FMC_BIT_POS :: "u32 \<Rightarrow> u32" where
  "FMC_BIT_POS flag = flag AND 0x0000001F"

definition FMC_FLAG_END :: u32 where "FMC_FLAG_END = FMC_REGIDX_BIT FMC_STAT_REG_OFFSET 16"
definition FMC_FLAG_WPERR :: u32 where "FMC_FLAG_WPERR = FMC_REGIDX_BIT FMC_STAT_REG_OFFSET 17"
definition FMC_FLAG_PGSERR :: u32 where "FMC_FLAG_PGSERR = FMC_REGIDX_BIT FMC_STAT_REG_OFFSET 18"
definition FMC_FLAG_RPERR :: u32 where "FMC_FLAG_RPERR = FMC_REGIDX_BIT FMC_STAT_REG_OFFSET 23"
definition FMC_FLAG_RSERR :: u32 where "FMC_FLAG_RSERR = FMC_REGIDX_BIT FMC_STAT_REG_OFFSET 24"
definition FMC_FLAG_ECCCOR :: u32 where "FMC_FLAG_ECCCOR = FMC_REGIDX_BIT FMC_STAT_REG_OFFSET 25"
definition FMC_FLAG_ECCDET :: u32 where "FMC_FLAG_ECCDET = FMC_REGIDX_BIT FMC_STAT_REG_OFFSET 26"
definition FMC_FLAG_OBMERR :: u32 where "FMC_FLAG_OBMERR = FMC_REGIDX_BIT FMC_STAT_REG_OFFSET 30"

section \<open>The controller\<close>

record 'h fmc_device =
  read_reg :: "u32 \<Rightarrow> 'h \<Rightarrow> u32 \<times> 'h"
  write_reg :: "u32 \<Rightarrow> u32 \<Rightarrow> 'h \<Rightarrow> 'h"
  store32 :: "u32 \<Rightarrow> u32 \<Rightarrow> 'h \<Rightarrow> 'h"
  flash :: "'h \<Rightarrow> u32 \<Rightarrow> u8"
  addr_reg :: "'h \<Rightarrow> u32"

definition flash_sector :: "u32 \<Rightarrow> u32" where
  "flash_sector a = drop_bit 12 a"

definition fmc_hardware :: "'h fmc_device \<Rightarrow> bool" where
  "fmc_hardware dev \<longleftrightarrow>
     (\<forall>off h. flash dev (snd (read_reg dev off h)) = flash dev h) \<and>
     (\<forall>off h. addr_reg dev (snd (read_reg dev off h)) = addr_reg dev h) \<and>
     (\<forall>off v h. off \<noteq> FMC_CTL_REG_OFFSET \<longrightarrow> flash dev (write_reg dev off v h) = flash dev h) \<and>
     (\<forall>v h. v AND FMC_CTL_START = fst (read_reg dev FMC_CTL_REG_OFFSET h) AND FMC_CTL_START \<longrightarrow>
        flash dev (write_reg dev FMC_CTL_REG_OFFSET v (snd (read_reg dev FMC_CTL_REG_OFFSET h))) = flash dev h) \<and>
     (\<forall>v h a. flash_sector a \<noteq> flash_sector (addr_reg dev h) \<longrightarrow>
        flash dev (write_reg dev FMC_CTL_REG_OFFSET v h) a = flash dev h a) \<and>
     (\<forall>v h. addr_reg dev (write_reg dev FMC_ADDR_REG_OFFSET v h) = v) \<and>
     (\<forall>a v h b. 4 \<le> unat (b - a) \<longrightarrow> flash dev (store32 dev a v h) b = flash dev h b) \<and>
     (\<forall>v h. v AND FMC_CTL_LK \<noteq> 0 \<longrightarrow>
        fst (read_reg dev FMC_CTL_REG_OFFSET (write_reg dev FMC_CTL_REG_OFFSET v h)) AND FMC_CTL_LK \<noteq> 0)"

definition fmc_locked :: "'h fmc_device \<Rightarrow> 'h \<Rightarrow> bool" where
  "fmc_locked dev h \<longleftrightarrow> fst (read_reg dev FMC_CTL_REG_OFFSET h) AND FMC_CTL_LK \<noteq> 0"

section \<open>The driver\<close>

definition fmc_ctl_update :: "'h fmc_device \<Rightarrow> (u32 \<Rightarrow> u32) \<Rightarrow> 'h \<Rightarrow> 'h" where
  "fmc_ctl_update dev f h =
     (let (ctl, h1) = read_reg dev FMC_CTL_REG_OFFSET h in write_reg dev FMC_CTL_REG_OFFSET (f ctl) h1)"

definition fmc_unlock :: "'h fmc_device \<Rightarrow> 'h \<Rightarrow> 'h" where
  "fmc_unlock dev h =
     (let (ctl, h1) = read_reg dev FMC_CTL_REG_OFFSET h
      in if ctl AND FMC_CTL_LK \<noteq> 0
         then write_reg dev FMC_KEY_REG_OFFSET UNLOCK_KEY1 (write_reg dev FMC_KEY_REG_OFFSET UNLOCK_KEY0 h1)
         else h1)"

definition fmc_lock :: "'h fmc_device \<Rightarrow> 'h \<Rightarrow> 'h" where
  "fmc_lock dev h = fmc_ctl_update dev (\<lambda>ctl. ctl OR FMC_CTL_LK) h"

definition fmc_flag_clear :: "'h fmc_device \<Rightarrow> u32 \<Rightarrow> 'h \<Rightarrow> 'h" where
  "fmc_flag_clear dev flag h = write_reg dev (FMC_REG_OFFSET flag) (BIT (unat (FMC_BIT_POS flag))) h"

text \<open>The chain of tests of the status register; every test reads it again.\<close>

fun stat_scan :: "'h fmc_device \<Rightarrow> (u32 \<times> fmc_state_enum) list \<Rightarrow> 'h \<Rightarrow> fmc_state_enum \<times> 'h" where
  "stat_scan dev [] h = (FMC_READY, h)"
| "stat_scan dev ((bits, state) # tests) h =
     (let (stat, h1) = read_reg dev FMC_STAT_REG_OFFSET h
      in if stat AND bits \<noteq> 0 then (state, h1) else stat_scan dev tests h1)"

definition fmc_state_get :: "'h fmc_device \<Rightarrow> 'h \<Rightarrow> fmc_state_enum \<times> 'h" where
  "fmc_state_get dev h =
     stat_scan dev [(FMC_STAT_BUSY, FMC_BUSY), (BIT 17, FMC_WPERR), (BIT 18, FMC_PGSERR), (BIT 23, FMC_RPERR),
       (BIT 24, FMC_RSERR), (BIT 25, FMC_ECCCOR), (BIT 26, FMC_ECCDET), (BIT 30, FMC_OBMERR)] h"

function fmc_ready_wait :: "'h fmc_device \<Rightarrow> u32 \<Rightarrow> 'h \<Rightarrow> fmc_state_enum \<times> 'h" where
  "fmc_ready_wait dev timeout h =
     (let (fmc_state, h1) = fmc_state_get dev h; timeout1 = timeout - 1
      in if fmc_state = FMC_BUSY \<and> timeout1 \<noteq> 0 then fmc_ready_wait dev timeout1 h1
         else (if fmc_state = FMC_BUSY then FMC_TOERR else fmc_state, h1))"
  by auto
termination
proof (relation "measure (\<lambda>(dev, timeout, h). unat (timeout - 1))")
  fix dev :: "'h fmc_device" and timeout timeout1 :: u32 and h h1 :: 'h and st p
  assume eq: "timeout1 = timeout - 1" and "st = FMC_BUSY \<and> timeout1 \<noteq> 0"
  then have "timeout1 \<noteq> 0" by blast
  then have "unat (timeout1 - 1) = unat timeout1 - 1" "unat timeout1 \<noteq> 0"
    by (simp_all only: unat_minus_one unat_eq_0 not_False_eq_True)
  then have "unat (timeout1 - 1) < unat timeout1" by linarith
  with eq show "((dev, timeout1, h1), dev, timeout, h) \<in> measure (\<lambda>(dev, timeout, h). unat (timeout - 1))"
    by simp
qed simp

definition fmc_sector_erase :: "'h fmc_device \<Rightarrow> u32 \<Rightarrow> 'h \<Rightarrow> fmc_state_enum \<times> 'h" where
  "fmc_sector_erase dev address h =
     (let (fmc_state, h1) = fmc_ready_wait dev FMC_TIMEOUT_COUNT h
      in if fmc_state = FMC_READY
         then (let h2 = fmc_ctl_update dev (\<lambda>ctl. ctl OR FMC_CTL_SER) h1;
                   h3 = write_reg dev FMC_ADDR_REG_OFFSET address h2;
                   h4 = fmc_ctl_update dev (\<lambda>ctl. ctl OR FMC_CTL_START) h3;
                   (fmc_state2, h5) = fmc_ready_wait dev FMC_TIMEOUT_COUNT h4
               in (fmc_state2, fmc_ctl_update dev (\<lambda>ctl. ctl AND NOT FMC_CTL_SER) h5))
         else (fmc_state, h1))"

definition fmc_doubleword_program :: "'h fmc_device \<Rightarrow> u32 \<Rightarrow> u64 \<Rightarrow> 'h \<Rightarrow> fmc_state_enum \<times> 'h" where
  "fmc_doubleword_program dev address data h =
     (let (fmc_state, h1) = fmc_ready_wait dev FMC_TIMEOUT_COUNT h;
          data0 = ucast (data AND 0xFFFFFFFF);
          data1 = ucast (drop_bit 32 data AND 0xFFFFFFFF)
      in if fmc_state = FMC_READY
         then (let h2 = fmc_ctl_update dev (\<lambda>ctl. ctl OR FMC_CTL_PG) h1;
                   h3 = store32 dev (address + 4) data1 (store32 dev address data0 h2);
                   (fmc_state2, h4) = fmc_ready_wait dev FMC_TIMEOUT_COUNT h3
               in (fmc_state2, fmc_ctl_update dev (\<lambda>ctl. ctl AND NOT FMC_CTL_PG) h4))
         else (fmc_state, h1))"

section \<open>What the driver changes\<close>

lemma stat_scan_flash:
  assumes "fmc_hardware dev"
  shows "flash dev (snd (stat_scan dev tests h)) = flash dev h"
proof (induction tests arbitrary: h)
  case Nil
  then show ?case by simp
next
  case (Cons t tests)
  have "flash dev (snd (read_reg dev FMC_STAT_REG_OFFSET h)) = flash dev h"
    using assms by (simp add: fmc_hardware_def)
  with Cons.IH show ?case by (cases t) (simp add: split_beta)
qed

lemma fmc_state_get_flash: "fmc_hardware dev \<Longrightarrow> flash dev (snd (fmc_state_get dev h)) = flash dev h"
  unfolding fmc_state_get_def by (rule stat_scan_flash)

lemma fmc_ready_wait_flash:
  assumes "fmc_hardware dev"
  shows "flash dev (snd (fmc_ready_wait dev timeout h)) = flash dev h"
  using assms
proof (induction dev timeout h rule: fmc_ready_wait.induct)
  case (1 dev timeout h)
  obtain s h1 where g: "fmc_state_get dev h = (s, h1)" by (cases "fmc_state_get dev h") auto
  have "flash dev h1 = flash dev h" using fmc_state_get_flash [OF 1(2), of h] g by simp
  then show ?case
    using 1(1) [OF g [symmetric] refl refl] 1(2)
    by (subst fmc_ready_wait.simps) (simp add: g del: fmc_ready_wait.simps)
qed

text \<open>The equation of the wait loop is unfolded on demand only.\<close>

declare fmc_ready_wait.simps [simp del]

lemma fmc_ctl_update_flash:
  assumes "fmc_hardware dev" and "\<And>ctl. f ctl AND FMC_CTL_START = ctl AND FMC_CTL_START"
  shows "flash dev (fmc_ctl_update dev f h) = flash dev h"
  using assms by (simp add: fmc_ctl_update_def fmc_hardware_def split_beta)

lemma other_bit_kept:
  assumes "i \<noteq> j"
  shows "(ctl OR BIT i) AND BIT j = ctl AND BIT j" and "(ctl AND NOT (BIT i)) AND BIT j = ctl AND BIT j"
  using assms by (auto intro!: bit_word_eqI simp: BIT_def bit_simps)

lemma ctl_bits_keep_start:
  "(ctl OR FMC_CTL_LK) AND FMC_CTL_START = ctl AND FMC_CTL_START"
  "(ctl OR FMC_CTL_PG) AND FMC_CTL_START = ctl AND FMC_CTL_START"
  "(ctl OR FMC_CTL_SER) AND FMC_CTL_START = ctl AND FMC_CTL_START"
  "(ctl AND NOT FMC_CTL_PG) AND FMC_CTL_START = ctl AND FMC_CTL_START"
  "(ctl AND NOT FMC_CTL_SER) AND FMC_CTL_START = ctl AND FMC_CTL_START"
  by (simp_all only: FMC_CTL_LK_def FMC_CTL_PG_def FMC_CTL_SER_def FMC_CTL_START_def)
    (rule other_bit_kept, simp)+

lemmas fmc_frame = fmc_ready_wait_flash fmc_ctl_update_flash ctl_bits_keep_start

lemma fmc_unlock_flash: "fmc_hardware dev \<Longrightarrow> flash dev (fmc_unlock dev h) = flash dev h"
  by (simp add: fmc_unlock_def fmc_hardware_def split_beta FMC_KEY_REG_OFFSET_def FMC_CTL_REG_OFFSET_def)

lemma fmc_lock_flash: "fmc_hardware dev \<Longrightarrow> flash dev (fmc_lock dev h) = flash dev h"
  by (simp add: fmc_lock_def fmc_frame)

lemma fmc_lock_locks: "fmc_hardware dev \<Longrightarrow> fmc_locked dev (fmc_lock dev h)"
proof -
  assume hw: "fmc_hardware dev"
  have "(ctl OR FMC_CTL_LK) AND FMC_CTL_LK \<noteq> 0" for ctl :: u32
  proof
    assume "(ctl OR FMC_CTL_LK) AND FMC_CTL_LK = 0"
    then have "\<not> bit ((ctl OR FMC_CTL_LK) AND FMC_CTL_LK) 0" by simp
    then show False by (simp add: FMC_CTL_LK_def BIT_def bit_simps)
  qed
  with hw show ?thesis
    by (simp add: fmc_lock_def fmc_locked_def fmc_ctl_update_def fmc_hardware_def split_beta)
qed

text \<open>A program operation touches only its eight bytes, an erase only its sector.\<close>

lemma fmc_doubleword_program_flash:
  assumes hw: "fmc_hardware dev" and far: "8 \<le> unat (b - address)"
  shows "flash dev (snd (fmc_doubleword_program dev address data h)) b = flash dev h b"
proof -
  have far1: "4 \<le> unat (b - address)" using far by simp
  have "(4 :: u32) \<le> b - address" using far1 by (simp add: word_le_nat_alt)
  then have "unat (b - address - 4) = unat (b - address) - 4" by (simp add: unat_diff_le)
  then have far2: "4 \<le> unat (b - (address + 4))" using far by (simp add: algebra_simps)
  have store: "4 \<le> unat (b - a) \<Longrightarrow> flash dev (store32 dev a v h) b = flash dev h b" for a v h
    using hw by (simp add: fmc_hardware_def)
  show ?thesis
    by (simp add: fmc_doubleword_program_def split_beta Let_def fmc_frame hw store far1 far2)
qed

lemma fmc_sector_erase_flash:
  assumes hw: "fmc_hardware dev" and far: "flash_sector b \<noteq> flash_sector address"
  shows "flash dev (snd (fmc_sector_erase dev address h)) b = flash dev h b"
proof -
  have start: "flash dev (fmc_ctl_update dev f (write_reg dev FMC_ADDR_REG_OFFSET address h)) b = flash dev h b" for f h
  proof -
    let ?h = "write_reg dev FMC_ADDR_REG_OFFSET address h"
    have "addr_reg dev (snd (read_reg dev FMC_CTL_REG_OFFSET ?h)) = address"
      using hw by (simp add: fmc_hardware_def)
    then have "flash dev (fmc_ctl_update dev f ?h) b = flash dev (snd (read_reg dev FMC_CTL_REG_OFFSET ?h)) b"
      using hw far by (simp add: fmc_hardware_def fmc_ctl_update_def split_beta)
    moreover have "flash dev ?h = flash dev h"
      using hw by (simp add: fmc_hardware_def FMC_ADDR_REG_OFFSET_def FMC_CTL_REG_OFFSET_def)
    ultimately show ?thesis using hw by (simp add: fmc_hardware_def)
  qed
  show ?thesis
    by (simp add: fmc_sector_erase_def split_beta Let_def fmc_frame hw start)
qed

end
