(* ===== verification/Crc32.thy ===== *)
theory Crc32
  imports Prelude
begin

text \<open>
  The checksum loop of \<^verbatim>\<open>ota_flash_crc32\<close> (\<^verbatim>\<open>src/App/ota/ota_flash.c\<close>), apart from where its bytes
  come from. The reference it is compared with is the bit-serial division register of the
  reflected CRC-32: one message bit at a time, least significant bit of a byte first.
\<close>

section \<open>The loop of the code\<close>

definition CRC_POLY :: u32 where "CRC_POLY = 0xEDB88320"

definition crc32_shift :: "u32 \<Rightarrow> u32" where
  "crc32_shift crc = (if crc AND 1 \<noteq> 0 then drop_bit 1 crc XOR CRC_POLY else drop_bit 1 crc)"

definition crc32_byte :: "u32 \<Rightarrow> u8 \<Rightarrow> u32" where
  "crc32_byte crc b = (crc32_shift ^^ 8) (crc XOR ucast b)"

definition crc32_bytes :: "u8 list \<Rightarrow> u32" where
  "crc32_bytes bs = foldl crc32_byte 0xFFFFFFFF bs XOR 0xFFFFFFFF"

section \<open>The reference: a bit-serial register\<close>

definition crc_serial_bit :: "u32 \<Rightarrow> bool \<Rightarrow> u32" where
  "crc_serial_bit reg m = drop_bit 1 reg XOR (if bit reg 0 \<noteq> m then CRC_POLY else 0)"

definition bits_of_byte :: "u8 \<Rightarrow> bool list" where
  "bits_of_byte b = map (bit b) [0..<8]"

definition crc_serial :: "bool list \<Rightarrow> u32" where
  "crc_serial ms = NOT (foldl crc_serial_bit (NOT 0) ms)"

section \<open>Linearity\<close>

lemma and_1_bit: "(x :: 'a::len word) AND 1 \<noteq> 0 \<longleftrightarrow> bit x 0"
  by (simp add: and_one_eq odd_iff_mod_2_eq_one bit_0)

lemma crc32_shift_alt: "crc32_shift x = drop_bit 1 x XOR (if bit x 0 then CRC_POLY else 0)"
  unfolding crc32_shift_def and_1_bit by simp

lemma drop_bit_xor_word: "drop_bit n (x XOR y) = drop_bit n x XOR drop_bit n (y :: 'a::len word)"
  by (rule bit_word_eqI) (simp add: bit_simps)

lemma crc32_shift_xor: "crc32_shift (x XOR y) = crc32_shift x XOR crc32_shift y"
  by (simp add: crc32_shift_alt drop_bit_xor_word bit_xor_iff ac_simps)

lemma crc32_shift_even: "\<not> bit x 0 \<Longrightarrow> crc32_shift x = drop_bit 1 x"
  by (simp add: crc32_shift_alt)

text \<open>Feeding a bit is shifting the register after adding the bit to its low end.\<close>

lemma crc_serial_bit_shift: "crc_serial_bit reg m = crc32_shift (reg XOR of_bool m)"
proof -
  have "drop_bit 1 (of_bool m :: u32) = 0" by (cases m) simp_all
  then show ?thesis
    by (cases m) (simp_all add: crc_serial_bit_def crc32_shift_alt drop_bit_xor_word bit_xor_iff)
qed

lemma low_bit_split: "(x :: u32) = of_bool (bit x 0) XOR (x AND NOT 1)"
  by (rule bit_word_eqI) (auto simp: bit_simps)

lemma serial_bits_shift:
  fixes x :: u32
  shows "foldl crc_serial_bit reg (map (bit x) [0..<n]) XOR drop_bit n x = (crc32_shift ^^ n) (reg XOR x)"
proof (induction n arbitrary: reg x)
  case 0
  then show ?case by simp
next
  case (Suc n)
  have bits: "map (bit x) [0..<Suc n] = bit x 0 # map (bit (drop_bit 1 x)) [0..<n]"
    by (simp add: upt_conv_Cons map_Suc_upt [symmetric] bit_drop_bit_eq comp_def del: upt_Suc)
  have even: "crc32_shift (x AND NOT 1) = drop_bit 1 x"
  proof -
    have "\<not> bit (x AND NOT 1) 0" by (simp add: bit_simps)
    moreover have "drop_bit 1 (x AND NOT 1) = drop_bit 1 x"
      by (rule bit_word_eqI)
        (simp only: bit_drop_bit_eq comp_def bit_and_iff bit_not_iff bit_1_iff possible_bit_word,
          auto dest: bit_imp_le_length)
    ultimately show ?thesis by (simp only: crc32_shift_even not_False_eq_True)
  qed
  have "crc32_shift (reg XOR x) = crc32_shift ((reg XOR of_bool (bit x 0)) XOR (x AND NOT 1))"
    using low_bit_split [of x] by (metis xor.assoc)
  also have "\<dots> = crc_serial_bit reg (bit x 0) XOR drop_bit 1 x"
    by (simp only: crc32_shift_xor even crc_serial_bit_shift)
  finally have "(crc32_shift ^^ Suc n) (reg XOR x) =
      (crc32_shift ^^ n) (crc_serial_bit reg (bit x 0) XOR drop_bit 1 x)"
    by (simp only: funpow_Suc_right comp_def)
  with Suc.IH [of "crc_serial_bit reg (bit x 0)" "drop_bit 1 x"] show ?case
    by (simp add: bits del: upt_Suc)
qed

lemma crc32_byte_serial: "crc32_byte reg b = foldl crc_serial_bit reg (bits_of_byte b)"
proof -
  have "drop_bit 8 (ucast b :: u32) = 0" by (rule bit_word_eqI) (auto simp: bit_simps dest: bit_imp_le_length)
  moreover have "map (bit (ucast b :: u32)) [0..<8] = bits_of_byte b"
    by (simp add: bits_of_byte_def bit_ucast_iff)
  ultimately show ?thesis
    using serial_bits_shift [of reg "ucast b" 8] by (simp add: crc32_byte_def)
qed

lemma foldl_crc32_serial:
  "foldl crc32_byte reg bs = foldl crc_serial_bit reg (concat (map bits_of_byte bs))"
  by (induction bs arbitrary: reg) (simp_all add: crc32_byte_serial)

text \<open>Claim C25: the byte-wise loop of the checksum computes the reflected CRC-32: on every list of
  bytes it equals the bit-serial division register fed with the bits of the bytes, least
  significant bit first, from the all-ones state and with the result complemented.\<close>

theorem crc32_equals_serial:
  "crc32_bytes bs = crc_serial (concat (map bits_of_byte bs))"
proof -
  have ones: "(0xFFFFFFFF :: u32) = - 1" by simp
  show ?thesis
    unfolding crc32_bytes_def crc_serial_def foldl_crc32_serial ones bit.compl_zero bit.xor_one_right ..
qed

section \<open>Error detection\<close>

lemma xor_cancel:
  fixes x y z :: "'a::len word"
  shows "x XOR z = y XOR z \<longleftrightarrow> x = y" and "z XOR x = z XOR y \<longleftrightarrow> x = y"
proof -
  have "(x XOR z) XOR z = x" "(y XOR z) XOR z = y" by (simp_all add: xor.assoc)
  then show "x XOR z = y XOR z \<longleftrightarrow> x = y" by metis
  then show "z XOR x = z XOR y \<longleftrightarrow> x = y" by (simp add: xor.commute)
qed

text \<open>The shift is invertible, because the polynomial has its top bit set.\<close>

lemma crc32_shift_inj: "inj crc32_shift"
proof (rule injI)
  fix x y :: u32
  assume eq: "crc32_shift x = crc32_shift y"
  have top: "bit (crc32_shift z) 31 = bit z 0" for z
  proof -
    have "bit CRC_POLY 31" by (simp add: CRC_POLY_def)
    moreover have "\<not> bit (drop_bit 1 z) 31" by (auto simp: bit_drop_bit_eq dest: bit_imp_le_length)
    ultimately show ?thesis by (simp add: crc32_shift_alt bit_xor_iff)
  qed
  have low: "bit x 0 = bit y 0" using eq top [of x] top [of y] by simp
  then have "drop_bit 1 x = drop_bit 1 y"
    using eq unfolding crc32_shift_alt by (cases "bit y 0") (simp_all add: xor_cancel)
  then have "bit x (Suc n) = bit y (Suc n)" for n
    by (metis bit_drop_bit_eq comp_apply plus_1_eq_Suc)
  then show "x = y" using low by (intro bit_eqI) (metis not0_implies_Suc)
qed

lemma funpow_shift_inj: "inj (crc32_shift ^^ n)"
  by (rule inj_fn [OF crc32_shift_inj])

lemma crc32_byte_inj_reg: "crc32_byte r b = crc32_byte r' b \<Longrightarrow> r = r'"
  unfolding crc32_byte_def using inj_eq [OF funpow_shift_inj] by (simp add: xor_cancel)

lemma foldl_crc32_inj_reg: "foldl crc32_byte r bs = foldl crc32_byte r' bs \<Longrightarrow> r = r'"
  by (induction bs arbitrary: r r') (auto dest: crc32_byte_inj_reg)

lemma funpow_shift_xor: "(crc32_shift ^^ n) (x XOR y) = (crc32_shift ^^ n) x XOR (crc32_shift ^^ n) y"
  by (induction n) (simp_all add: crc32_shift_xor)

lemma funpow_shift_push:
  assumes "take_bit (32 - n) w = w" and "n \<le> 32"
  shows "(crc32_shift ^^ n) (push_bit n w) = w"
  using assms
proof (induction n)
  case 0
  then show ?case by simp
next
  case (Suc n)
  have fit: "take_bit (32 - n) w = w"
    using Suc.prems by (metis take_bit_take_bit min.absorb2 diff_le_mono2 le_SucI le_refl)
  have "\<not> bit (push_bit (Suc n) w) 0" by (simp only: bit_push_bit_iff) simp
  moreover have high: "j < 31 - n" if "bit w j" for j
    using that Suc.prems(1) bit_take_bit_iff [of "32 - Suc n" w j] by simp
  have "drop_bit 1 (push_bit (Suc n) w) = push_bit n w"
  proof (rule bit_word_eqI)
    fix i
    assume i: "i < LENGTH(32)"
    have "bit (drop_bit 1 (push_bit (Suc n) w)) i \<longleftrightarrow> Suc i < 32 \<and> n \<le> i \<and> bit w (i - n)"
      by (simp only: bit_drop_bit_eq comp_def bit_push_bit_iff possible_bit_word) (auto simp: Suc_le_eq)
    also have "\<dots> \<longleftrightarrow> bit (push_bit n w) i"
      using i high [of "i - n"] by (simp only: bit_push_bit_iff possible_bit_word) auto
    finally show "bit (drop_bit 1 (push_bit (Suc n) w)) i = bit (push_bit n w) i" .
  qed
  ultimately have "crc32_shift (push_bit (Suc n) w) = push_bit n w" by (simp add: crc32_shift_even)
  with Suc.IH fit Suc.prems(2) show ?case by (simp add: funpow_Suc_right del: funpow.simps)
qed

lemma le_word_Cons:
  "(le_word (b # bs) :: u32) = ucast b XOR push_bit 8 (le_word bs)"
proof -
  have "ucast b AND push_bit 8 (le_word bs :: u32) = 0"
    by (rule bit_word_eqI) (auto simp: bit_simps dest: bit_imp_le_length)
  then have "ucast b XOR push_bit 8 (le_word bs :: u32) = ucast b + push_bit 8 (le_word bs)"
    by (simp add: disjunctive_xor_eq_or disjunctive_add_eq_or)
  also have "\<dots> = word_of_nat (unat b) + 256 * word_of_nat (le_nat bs)"
    by (simp add: push_bit_eq_mult le_word_def)
  finally show ?thesis by (simp add: le_word_def)
qed

text \<open>Up to four bytes are absorbed like one word.\<close>

lemma foldl_crc32_word:
  assumes "length bs \<le> 4"
  shows "foldl crc32_byte r bs = (crc32_shift ^^ (8 * length bs)) (r XOR le_word bs)"
  using assms
proof (induction bs arbitrary: r)
  case Nil
  then show ?case by (simp add: le_word_def)
next
  case (Cons b bs)
  have "le_nat bs < 256 ^ length bs" by (rule le_nat_less)
  also have "\<dots> \<le> 256 ^ 3" using Cons.prems by (intro power_increasing) simp_all
  finally have small: "le_nat bs < 2 ^ 24" by simp
  then have fit: "take_bit 24 (le_word bs :: u32) = le_word bs"
    by (simp add: le_word_def take_bit_nat_eq_self flip: of_nat_take_bit)
  have "(crc32_shift ^^ (8 * length (b # bs))) (r XOR le_word (b # bs)) =
      (crc32_shift ^^ (8 * length bs)) ((crc32_shift ^^ 8) ((r XOR ucast b) XOR push_bit 8 (le_word bs)))"
  proof -
    have len: "8 * length (b # bs) = 8 * length bs + 8" by simp
    show ?thesis unfolding len funpow_add comp_def le_word_Cons xor.assoc ..
  qed
  also have "\<dots> = (crc32_shift ^^ (8 * length bs)) (crc32_byte r b XOR le_word bs)"
    using funpow_shift_push [of 8 "le_word bs"] fit by (simp add: funpow_shift_xor crc32_byte_def)
  finally show ?case using Cons by simp
qed

text \<open>The checksum detects every corruption that is confined to four consecutive bytes:
  two images of the same length that differ only inside such a window have different checksums,
  whatever comes before and after the window.\<close>

theorem crc32_detects_burst:
  assumes "length u = length v" and "length u \<le> 4" and "u \<noteq> v"
  shows "crc32_bytes (p @ u @ s) \<noteq> crc32_bytes (p @ v @ s)"
proof
  assume "crc32_bytes (p @ u @ s) = crc32_bytes (p @ v @ s)"
  then have "foldl crc32_byte 0xFFFFFFFF (p @ u @ s) = foldl crc32_byte 0xFFFFFFFF (p @ v @ s)"
    by (simp only: crc32_bytes_def xor_cancel)
  then have "foldl crc32_byte (foldl crc32_byte 0xFFFFFFFF p) u = foldl crc32_byte (foldl crc32_byte 0xFFFFFFFF p) v"
    by (auto dest: foldl_crc32_inj_reg)
  then have eq: "(word_of_nat (le_nat u) :: u32) = word_of_nat (le_nat v)"
    using assms inj_eq [OF funpow_shift_inj] by (simp only: foldl_crc32_word xor_cancel le_word_def)
  have unat_le: "unat (word_of_nat (le_nat w) :: u32) = le_nat w" if "length w \<le> 4" for w
  proof (rule word_of_nat_eq_nat_iff)
    have "le_nat w < 256 ^ length w" by (rule le_nat_less)
    also have "\<dots> \<le> 256 ^ 4" using that by (intro power_increasing) simp_all
    finally show "le_nat w < 2 ^ LENGTH(32)" by simp
  qed
  have "le_nat u = le_nat v"
    using unat_le [of u] unat_le [of v] assms(1,2) unfolding eq by simp
  then show False using assms(1,3) le_list_le_nat [of u] le_list_le_nat [of v] by simp
qed

theorem crc32_detects_burst_witness:
  "crc32_bytes ([1, 2] @ [3, 4, 5, 6] @ [7]) \<noteq> crc32_bytes ([1, 2] @ [0, 4, 5, 0] @ [7])"
  by (rule crc32_detects_burst) simp_all

end
