(* ===== verification/OtaFlash.thy ===== *)
theory OtaFlash
  imports Fmc Crc32
begin

text \<open>
  The flash layer of the firmware update, \<^verbatim>\<open>src/App/ota/ota_flash.c\<close>: erasing a sector of
  the secondary slot, writing bytes at an offset of the slot through aligned double words, and
  the checksum of a range. Addresses are 32-bit words with the wrap-around of the processor.
  The code invalidates the data cache over the range before every read, so a read is the
  content of the flash. A block that is shorter than the length passed for it is \<open>None\<close> as soon
  as the code reads behind its end.
\<close>

section \<open>Definitions\<close>

definition SECONDARY_SLOT_ADDR :: u32 where "SECONDARY_SLOT_ADDR = 0x080C0000"
definition SECONDARY_SLOT_SIZE :: u32 where "SECONDARY_SLOT_SIZE = 0x000A0000"
definition FLASH_SECTOR_SIZE :: u32 where "FLASH_SECTOR_SIZE = 0x00001000"

definition flash_bytes :: "'h fmc_device \<Rightarrow> u32 \<Rightarrow> nat \<Rightarrow> 'h \<Rightarrow> u8 list" where
  "flash_bytes dev a n h = map (\<lambda>i. flash dev h (a + word_of_nat i)) [0..<n]"

definition fmc_clear_all_flags :: "'h fmc_device \<Rightarrow> 'h \<Rightarrow> 'h" where
  "fmc_clear_all_flags dev h =
     fold (fmc_flag_clear dev) [FMC_FLAG_END, FMC_FLAG_WPERR, FMC_FLAG_PGSERR, FMC_FLAG_RPERR,
       FMC_FLAG_RSERR, FMC_FLAG_ECCCOR, FMC_FLAG_ECCDET, FMC_FLAG_OBMERR] h"

definition program_doubleword :: "'h fmc_device \<Rightarrow> u32 \<Rightarrow> u64 \<Rightarrow> 'h \<Rightarrow> int \<times> 'h" where
  "program_doubleword dev addr data h =
     (let (state, h1) = fmc_doubleword_program dev addr data h
      in if state \<noteq> FMC_READY then (-1, h1)
         else if le_word (flash_bytes dev addr 8 h1) \<noteq> data then (-1, h1)
         else (0, h1))"

definition ota_flash_close :: "'h fmc_device \<Rightarrow> 'h \<Rightarrow> 'h" where
  "ota_flash_close dev h = fmc_lock dev (fmc_clear_all_flags dev h)"

definition ota_flash_erase_sector :: "'h fmc_device \<Rightarrow> u32 \<Rightarrow> 'h \<Rightarrow> int \<times> 'h" where
  "ota_flash_erase_sector dev sector_index h =
     (let addr = SECONDARY_SLOT_ADDR + sector_index * FLASH_SECTOR_SIZE
      in if addr \<ge> SECONDARY_SLOT_ADDR + SECONDARY_SLOT_SIZE then (-1, h)
         else (let h1 = fmc_clear_all_flags dev (fmc_unlock dev h);
                   (state, h2) = fmc_sector_erase dev addr h1
               in if state \<noteq> FMC_READY then (-1, ota_flash_close dev h2)
                  else if le_word (flash_bytes dev addr 4 h2) \<noteq> (0xFFFFFFFF :: u32) then (-1, ota_flash_close dev h2)
                  else (0, ota_flash_close dev h2)))"

text \<open>The unaligned bytes before the first double word boundary.\<close>

definition ota_write_head ::
  "'h fmc_device \<Rightarrow> u32 \<Rightarrow> u8 list \<Rightarrow> u32 \<Rightarrow> 'h \<Rightarrow> (int \<times> u32 \<times> u8 list \<times> u32 \<times> 'h) option" where
  "ota_write_head dev addr src remaining h =
     (if addr AND 7 \<noteq> 0
      then (let aligned = addr AND NOT 7;
                head0 = 8 - (addr AND 7);
                head = (if head0 > remaining then remaining else head0);
                buf = le_word (flash_bytes dev aligned 8 h) :: u64
            in if length src < unat head then None
               else (let buf1 = le_word (store_at (unat (addr AND 7)) (take (unat head) src) (le_bytes 8 buf));
                         (rc, h1) = program_doubleword dev aligned buf1 h
                     in Some (rc, addr + head, drop (unat head) src, remaining - head, h1)))
      else Some (0, addr, src, remaining, h))"

text \<open>The loop over whole double words.\<close>

function ota_write_loop ::
  "'h fmc_device \<Rightarrow> u32 \<Rightarrow> u8 list \<Rightarrow> u32 \<Rightarrow> 'h \<Rightarrow> (int \<times> u32 \<times> u8 list \<times> u32 \<times> 'h) option" where
  "ota_write_loop dev addr src remaining h =
     (if 8 \<le> remaining
      then (if length src < 8 then None
            else (let (rc, h1) = program_doubleword dev addr (le_word (take 8 src)) h
                  in if rc \<noteq> 0 then Some (rc, addr, src, remaining, h1)
                     else ota_write_loop dev (addr + 8) (drop 8 src) (remaining - 8) h1))
      else Some (0, addr, src, remaining, h))"
  by auto
termination
  by (relation "measure (\<lambda>(dev, addr, src, remaining, h). unat remaining)")
    (auto simp: unat_diff_le word_le_nat_alt)

declare ota_write_loop.simps [simp del]

text \<open>The bytes behind the last double word boundary.\<close>

definition ota_write_tail :: "'h fmc_device \<Rightarrow> u32 \<Rightarrow> u8 list \<Rightarrow> u32 \<Rightarrow> 'h \<Rightarrow> (int \<times> 'h) option" where
  "ota_write_tail dev addr src remaining h =
     (if remaining > 0
      then (if length src < unat remaining then None
            else (let buf = le_word (flash_bytes dev addr 8 h) :: u64;
                      buf1 = le_word (store_at 0 (take (unat remaining) src) (le_bytes 8 buf))
                  in Some (program_doubleword dev addr buf1 h)))
      else Some (0, h))"

definition ota_flash_write :: "'h fmc_device \<Rightarrow> u32 \<Rightarrow> u8 list \<Rightarrow> u32 \<Rightarrow> 'h \<Rightarrow> (int \<times> 'h) option" where
  "ota_flash_write dev offset data len h =
     (let addr = SECONDARY_SLOT_ADDR + offset
      in if offset + len > SECONDARY_SLOT_SIZE then Some (-1, h)
         else (case ota_write_head dev addr data len (fmc_clear_all_flags dev (fmc_unlock dev h)) of
             None \<Rightarrow> None
           | Some (rc, addr1, src1, remaining1, h1) \<Rightarrow>
               if rc \<noteq> 0 then Some (rc, ota_flash_close dev h1)
               else (case ota_write_loop dev addr1 src1 remaining1 h1 of
                   None \<Rightarrow> None
                 | Some (rc, addr2, src2, remaining2, h2) \<Rightarrow>
                     if rc \<noteq> 0 then Some (rc, ota_flash_close dev h2)
                     else (case ota_write_tail dev addr2 src2 remaining2 h2 of
                         None \<Rightarrow> None
                       | Some (rc, h3) \<Rightarrow> Some (rc, ota_flash_close dev h3)))))"

definition ota_flash_crc32 :: "'h fmc_device \<Rightarrow> u32 \<Rightarrow> u32 \<Rightarrow> 'h \<Rightarrow> u32" where
  "ota_flash_crc32 dev offset len h =
     crc32_bytes (flash_bytes dev (SECONDARY_SLOT_ADDR + offset) (unat len) h)"

section \<open>Content of the flash after a write\<close>

definition flash_written :: "'h fmc_device \<Rightarrow> u32 \<Rightarrow> u8 list \<Rightarrow> 'h \<Rightarrow> 'h \<Rightarrow> bool" where
  "flash_written dev a bs h h' \<longleftrightarrow>
     (\<forall>b. flash dev h' b = (if unat (b - a) < length bs then bs ! unat (b - a) else flash dev h b))"

lemma flash_written_Nil: "flash dev h' = flash dev h \<Longrightarrow> flash_written dev a [] h h'"
  by (simp add: flash_written_def)

text \<open>Distances from a later start, modulo $2^{32}$.\<close>

lemma dist_advance:
  fixes a b :: u32
  assumes "n \<le> unat (b - a)" and "n < 2 ^ 32"
  shows "unat (b - (a + word_of_nat n)) = unat (b - a) - n"
proof -
  have n: "unat (word_of_nat n :: u32) = n" using assms(2) by (intro word_of_nat_eq_nat_iff) simp
  then have "word_of_nat n \<le> b - a" using assms(1) by (simp only: word_le_nat_alt)
  from unat_diff_le [OF this] n show ?thesis by (simp only: diff_diff_eq)
qed

lemma dist_advance_wrap:
  fixes a b :: u32
  assumes "unat (b - a) < n" and "n < 2 ^ 32"
  shows "unat (b - (a + word_of_nat n)) = unat (b - a) + 2 ^ 32 - n"
proof -
  let ?n = "word_of_nat n :: u32"
  have n: "unat ?n = n" using assms(2) by (intro word_of_nat_eq_nat_iff) simp
  have eq: "b - (a + ?n) = (b - a) - ?n" by simp
  have "b - a < ?n" using assms(1) n by (simp add: word_less_nat_alt)
  then show ?thesis unfolding eq using n assms(2) by (simp add: unat_sub_if_size word_size not_le word_less_nat_alt)
qed

lemma flash_written_append:
  assumes "flash_written dev a bs h h1" and "flash_written dev (a + word_of_nat (length bs)) cs h1 h2"
    and "length bs + length cs < 2 ^ 32"
  shows "flash_written dev a (bs @ cs) h h2"
  unfolding flash_written_def
proof
  fix b
  show "flash dev h2 b = (if unat (b - a) < length (bs @ cs) then (bs @ cs) ! unat (b - a) else flash dev h b)"
  proof (cases "unat (b - a) < length bs")
    case True
    then have "length cs \<le> unat (b - (a + word_of_nat (length bs)))"
      using assms(3) dist_advance_wrap [OF True] by simp
    with True show ?thesis using assms(1,2) by (simp add: flash_written_def nth_append)
  next
    case False
    then show ?thesis
      using assms dist_advance [of "length bs" b a] by (auto simp: flash_written_def nth_append)
  qed
qed

lemma length_flash_bytes [simp]: "length (flash_bytes dev a n h) = n"
  by (simp add: flash_bytes_def)

lemma flash_bytes_written:
  assumes "flash_bytes dev a (length bs) h' = bs" and "\<And>b. length bs \<le> unat (b - a) \<Longrightarrow> flash dev h' b = flash dev h b"
  shows "flash_written dev a bs h h'"
  unfolding flash_written_def
proof
  fix b
  have "bs ! unat (b - a) = flash dev h' b" if "unat (b - a) < length bs"
    using that arg_cong [OF assms(1), of "\<lambda>xs. xs ! unat (b - a)"] by (simp add: flash_bytes_def)
  with assms(2) [of b] show "flash dev h' b = (if unat (b - a) < length bs then bs ! unat (b - a) else flash dev h b)"
    by auto
qed

lemma flash_written_bytes:
  assumes "flash_written dev a bs h h'" and "length bs \<le> 2 ^ 32"
  shows "flash_bytes dev a (length bs) h' = bs"
proof (rule nth_equalityI)
  fix i
  assume "i < length (flash_bytes dev a (length bs) h')"
  then have "i < length bs" by simp
  moreover from this have "unat (word_of_nat i :: u32) = i"
    using assms(2) by (intro word_of_nat_eq_nat_iff) simp
  ultimately show "flash_bytes dev a (length bs) h' ! i = bs ! i"
    using assms(1) by (simp add: flash_bytes_def flash_written_def)
qed simp

text \<open>A double word that was programmed and read back.\<close>

lemma program_doubleword_written:
  assumes hw: "fmc_hardware dev" and "program_doubleword dev a w h = (0, h')"
  shows "flash_written dev a (le_bytes 8 w) h h'"
proof (rule flash_bytes_written)
  obtain state where prog: "fmc_doubleword_program dev a w h = (state, h')"
    and read: "le_word (flash_bytes dev a 8 h') = w"
    using assms(2) by (auto simp: program_doubleword_def split: prod.splits if_splits)
  from read have "le_bytes 8 w = le_bytes 8 (le_word (flash_bytes dev a 8 h') :: u64)" by simp
  also have "\<dots> = flash_bytes dev a 8 h'" by (rule le_bytes_le_word) simp_all
  finally show "flash_bytes dev a (length (le_bytes 8 w)) h' = le_bytes 8 w" by simp
  show "flash dev h' b = flash dev h b" if "length (le_bytes 8 w) \<le> unat (b - a)" for b
    using fmc_doubleword_program_flash [OF hw, of b a w h] prog that by simp
qed

text \<open>Reading a double word, replacing some of its bytes and writing it back.\<close>

lemma read_modify_write:
  assumes hw: "fmc_hardware dev" and fits: "k + length xs \<le> 8"
    and prog: "program_doubleword dev a (le_word (store_at k xs (le_bytes 8 (le_word (flash_bytes dev a 8 h) :: u64)))) h = (0, h')"
  shows "flash_written dev (a + word_of_nat k) xs h h'"
proof -
  let ?old = "flash_bytes dev a 8 h"
  let ?new = "store_at k xs ?old"
  have old: "le_bytes 8 (le_word ?old :: u64) = ?old" by (rule le_bytes_le_word) simp_all
  have len: "length ?new = 8" using fits by simp
  then have "le_bytes 8 (le_word ?new :: u64) = ?new" by (intro le_bytes_le_word) simp_all
  then have written: "flash_written dev a ?new h h'"
    using program_doubleword_written [OF hw prog] unfolding old by simp
  show ?thesis unfolding flash_written_def
  proof
    fix b
    let ?j = "unat (b - a)"
    have new: "?new ! ?j = (if k \<le> ?j \<and> ?j < k + length xs then xs ! (?j - k) else flash dev h b)" if "?j < 8"
      using that fits by (simp add: nth_store_at flash_bytes_def)
    have w: "flash dev h' b = (if ?j < 8 then ?new ! ?j else flash dev h b)"
      using written len by (simp add: flash_written_def)
    show "flash dev h' b = (if unat (b - (a + word_of_nat k)) < length xs
        then xs ! unat (b - (a + word_of_nat k)) else flash dev h b)"
    proof (cases "k \<le> ?j")
      case True
      then show ?thesis using w new fits dist_advance [OF True] by auto
    next
      case False
      then have "length xs \<le> unat (b - (a + word_of_nat k))"
        using fits dist_advance_wrap [of b a k] by simp
      then show ?thesis using w new False by auto
    qed
  qed
qed

lemma align_split: "(a AND NOT 7) + (a AND 7) = (a :: u32)"
proof -
  have "(a AND NOT 7) AND (a AND 7) = 0" by (rule bit_word_eqI) (auto simp: bit_simps)
  then have "(a AND NOT 7) + (a AND 7) = (a AND NOT 7) OR (a AND 7)" by (simp add: disjunctive_add_eq_or)
  also have "\<dots> = a" by (rule bit_word_eqI) (auto simp only: bit_or_iff bit_and_iff bit_not_iff possible_bit_word)
  finally show ?thesis .
qed

lemma and_7: "unat (a AND 7 :: u32) = unat a mod 8"
proof -
  have "a AND 7 = take_bit 3 a" by (simp add: take_bit_eq_mask mask_eq_exp_minus_1)
  then show ?thesis by (simp add: unsigned_take_bit_eq take_bit_eq_mod unat_mod)
qed

text \<open>The bytes one stage of a write has taken over, and what it hands to the next.\<close>

definition write_progress ::
  "'h fmc_device \<Rightarrow> u32 \<Rightarrow> u8 list \<Rightarrow> u32 \<Rightarrow> 'h \<Rightarrow> u32 \<Rightarrow> u8 list \<Rightarrow> u32 \<Rightarrow> 'h \<Rightarrow> bool" where
  "write_progress dev addr src remaining h addr' src' remaining' h' \<longleftrightarrow>
     (\<exists>n. n \<le> unat remaining \<and> flash_written dev addr (take n src) h h' \<and> addr' = addr + word_of_nat n \<and>
        src' = drop n src \<and> unat remaining' = unat remaining - n)"

lemma write_progress_trans:
  assumes "write_progress dev addr src remaining h addr1 src1 remaining1 h1"
    and "write_progress dev addr1 src1 remaining1 h1 addr2 src2 remaining2 h2"
    and "unat remaining \<le> length src"
  shows "write_progress dev addr src remaining h addr2 src2 remaining2 h2"
proof -
  obtain n where n: "n \<le> unat remaining" "flash_written dev addr (take n src) h h1"
      "addr1 = addr + word_of_nat n" "src1 = drop n src" "unat remaining1 = unat remaining - n"
    using assms(1) by (auto simp: write_progress_def)
  obtain m where m: "m \<le> unat remaining1" "flash_written dev addr1 (take m src1) h1 h2"
      "addr2 = addr1 + word_of_nat m" "src2 = drop m src1" "unat remaining2 = unat remaining1 - m"
    using assms(2) by (auto simp: write_progress_def)
  have "unat remaining < 2 ^ 32" using unsigned_less [of remaining] by simp
  then have "flash_written dev addr (take n src @ take m (drop n src)) h h2"
    using n m assms(3) by (intro flash_written_append) simp_all
  moreover have "take n src @ take m (drop n src) = take (n + m) src" by (simp add: take_add)
  ultimately show ?thesis unfolding write_progress_def
    using n m by (intro exI [of _ "n + m"]) (simp add: add.commute drop_drop)
qed

lemma ota_write_head_progress:
  assumes hw: "fmc_hardware dev" and run: "ota_write_head dev addr src remaining h = Some (0, addr', src', remaining', h')"
    and len: "unat remaining \<le> length src"
  shows "write_progress dev addr src remaining h addr' src' remaining' h'"
proof (cases "addr AND 7 = 0")
  case True
  with run show ?thesis
    by (auto simp: ota_write_head_def write_progress_def intro!: exI [of _ 0] flash_written_Nil)
next
  case False
  let ?k = "unat (addr AND 7)"
  let ?head = "if 8 - (addr AND 7) > remaining then remaining else 8 - (addr AND 7)"
  have k: "?k < 8" by (simp add: and_7)
  then have h0: "unat (8 - (addr AND 7)) = 8 - ?k" by (simp add: unat_diff_le word_le_nat_alt)
  then have head: "unat ?head = min (8 - ?k) (unat remaining)"
    by (auto simp: word_less_nat_alt min_def)
  from run False obtain prog: "program_doubleword dev (addr AND NOT 7)
      (le_word (store_at ?k (take (unat ?head) src)
        (le_bytes 8 (le_word (flash_bytes dev (addr AND NOT 7) 8 h) :: u64)))) h = (0, h')"
    and out: "addr' = addr + ?head" "src' = drop (unat ?head) src" "remaining' = remaining - ?head"
    by (auto simp: ota_write_head_def Let_def split: prod.splits if_splits)
  have "?k + length (take (unat ?head) src) \<le> 8" using head k by simp
  note written = read_modify_write [OF hw this prog]
  have "(addr AND NOT 7) + word_of_nat ?k = addr" using align_split [of addr] by simp
  with written have "flash_written dev addr (take (unat ?head) src) h h'" by (simp only:)
  moreover have "unat (remaining - ?head) = unat remaining - unat ?head"
    using head by (intro unat_diff_le) (simp add: word_le_nat_alt)
  moreover have "unat ?head \<le> unat remaining" using head by simp
  moreover obtain hd where "?head = hd" by blast
  ultimately show ?thesis unfolding write_progress_def out
    by (intro exI [of _ "unat ?head"]) simp
qed

lemma ota_write_loop_progress:
  assumes "fmc_hardware dev" and "ota_write_loop dev addr src remaining h = Some (0, addr', src', remaining', h')"
    and "unat remaining \<le> length src"
  shows "write_progress dev addr src remaining h addr' src' remaining' h' \<and> unat remaining' < 8"
  using assms
proof (induction dev addr src remaining h rule: ota_write_loop.induct)
  case (1 dev addr src remaining h)
  show ?case
  proof (cases "8 \<le> remaining")
    case False
    with 1(3) show ?thesis
      by (auto simp: ota_write_loop.simps [of dev addr] write_progress_def word_le_nat_alt
          intro!: exI [of _ 0] flash_written_Nil)
  next
    case True
    then have r8: "8 \<le> unat remaining" by (simp add: word_le_nat_alt)
    obtain rc h1 where prog: "program_doubleword dev addr (le_word (take 8 src)) h = (rc, h1)"
      by (cases "program_doubleword dev addr (le_word (take 8 src)) h") auto
    have long: "\<not> length src < 8" using r8 1(4) by simp
    have rem: "unat (remaining - 8) = unat remaining - 8" using True by (simp add: unat_diff_le)
    have rc: "rc = 0" and rest: "ota_write_loop dev (addr + 8) (drop 8 src) (remaining - 8) h1 = Some (0, addr', src', remaining', h')"
      using 1(3) True long prog by (simp_all add: ota_write_loop.simps [of dev addr src remaining h] split: if_splits)
    have "le_bytes 8 (le_word (take 8 src) :: u64) = take 8 src" using long by (intro le_bytes_le_word) simp_all
    then have "flash_written dev addr (take 8 src) h h1"
      using program_doubleword_written [OF 1(2), of addr "le_word (take 8 src)" h h1] prog rc by simp
    then have first: "write_progress dev addr src remaining h (addr + 8) (drop 8 src) (remaining - 8) h1"
      unfolding write_progress_def using r8 rem by (intro exI [of _ 8]) simp
    have "write_progress dev (addr + 8) (drop 8 src) (remaining - 8) h1 addr' src' remaining' h' \<and> unat remaining' < 8"
      using 1(1) [OF True long prog [symmetric] refl _ 1(2) rest] rc rem 1(4) by simp
    with write_progress_trans [OF first _ 1(4)] show ?thesis by simp
  qed
qed

lemma ota_write_tail_written:
  assumes hw: "fmc_hardware dev" and run: "ota_write_tail dev addr src remaining h = Some (0, h')"
    and len: "unat remaining \<le> length src" and small: "unat remaining < 8"
  shows "flash_written dev addr (take (unat remaining) src) h h'"
proof (cases "remaining = 0")
  case True
  with run show ?thesis by (auto simp: ota_write_tail_def intro: flash_written_Nil)
next
  case False
  with run len have prog: "program_doubleword dev addr (le_word (store_at 0 (take (unat remaining) src)
        (le_bytes 8 (le_word (flash_bytes dev addr 8 h) :: u64)))) h = (0, h')"
    by (simp add: ota_write_tail_def word_gt_0)
  have "0 + length (take (unat remaining) src) \<le> 8" using small by simp
  from read_modify_write [OF hw this prog] show ?thesis by simp
qed

section \<open>The whole operations\<close>

lemma program_doubleword_rc: "fst (program_doubleword dev a w h) = 0 \<or> fst (program_doubleword dev a w h) = -1"
  by (simp add: program_doubleword_def split: prod.split)

lemma fmc_flag_clear_flash:
  assumes "fmc_hardware dev" and "FMC_REG_OFFSET flag = FMC_STAT_REG_OFFSET"
  shows "flash dev (fmc_flag_clear dev flag h) = flash dev h"
  using assms by (simp add: fmc_flag_clear_def fmc_hardware_def FMC_STAT_REG_OFFSET_def FMC_CTL_REG_OFFSET_def)

lemma flag_registers:
  "FMC_REG_OFFSET FMC_FLAG_END = FMC_STAT_REG_OFFSET" "FMC_REG_OFFSET FMC_FLAG_WPERR = FMC_STAT_REG_OFFSET"
  "FMC_REG_OFFSET FMC_FLAG_PGSERR = FMC_STAT_REG_OFFSET" "FMC_REG_OFFSET FMC_FLAG_RPERR = FMC_STAT_REG_OFFSET"
  "FMC_REG_OFFSET FMC_FLAG_RSERR = FMC_STAT_REG_OFFSET" "FMC_REG_OFFSET FMC_FLAG_ECCCOR = FMC_STAT_REG_OFFSET"
  "FMC_REG_OFFSET FMC_FLAG_ECCDET = FMC_STAT_REG_OFFSET" "FMC_REG_OFFSET FMC_FLAG_OBMERR = FMC_STAT_REG_OFFSET"
  by (simp_all add: FMC_REG_OFFSET_def FMC_REGIDX_BIT_def FMC_STAT_REG_OFFSET_def FMC_FLAG_END_def FMC_FLAG_WPERR_def
      FMC_FLAG_PGSERR_def FMC_FLAG_RPERR_def FMC_FLAG_RSERR_def FMC_FLAG_ECCCOR_def FMC_FLAG_ECCDET_def FMC_FLAG_OBMERR_def)

lemma fmc_clear_all_flags_flash: "fmc_hardware dev \<Longrightarrow> flash dev (fmc_clear_all_flags dev h) = flash dev h"
  by (simp add: fmc_clear_all_flags_def fmc_flag_clear_flash flag_registers)

lemma ota_flash_close_flash: "fmc_hardware dev \<Longrightarrow> flash dev (ota_flash_close dev h) = flash dev h"
  by (simp add: ota_flash_close_def fmc_lock_flash fmc_clear_all_flags_flash)

lemma ota_flash_close_locks: "fmc_hardware dev \<Longrightarrow> fmc_locked dev (ota_flash_close dev h)"
  by (simp add: ota_flash_close_def fmc_lock_locks)

text \<open>A block as long as announced is never read behind its end, and every stage answers 0 or -1.\<close>

lemma ota_write_head_total:
  assumes "unat remaining \<le> length src"
  shows "\<exists>rc addr' src' remaining' h'. ota_write_head dev addr src remaining h = Some (rc, addr', src', remaining', h') \<and>
    (rc = 0 \<or> rc = -1) \<and> unat remaining' \<le> length src'"
proof (cases "addr AND 7 = 0")
  case True
  with assms show ?thesis by (simp add: ota_write_head_def)
next
  case False
  obtain head where head: "head = (if 8 - (addr AND 7) > remaining then remaining else 8 - (addr AND 7))"
    by blast
  then have "head \<le> remaining" by (simp only: not_less split: if_split) simp
  then have rem: "unat (remaining - head) = unat remaining - unat head" and le: "unat head \<le> unat remaining"
    by (simp_all only: unat_diff_le word_le_nat_alt)
  obtain w :: u64 where w: "w = le_word (store_at (unat (addr AND 7)) (take (unat head) src)
        (le_bytes 8 (le_word (flash_bytes dev (addr AND NOT 7) 8 h) :: u64)))"
    by blast
  obtain rc h1 where prog: "program_doubleword dev (addr AND NOT 7) w h = (rc, h1)"
    by (rule prod.exhaust)
  have run: "ota_write_head dev addr src remaining h = Some (rc, addr + head, drop (unat head) src, remaining - head, h1)"
    unfolding ota_write_head_def Let_def head [symmetric] w [symmetric] prog prod.case
    using False le assms by simp
  moreover have "rc = 0 \<or> rc = -1" using program_doubleword_rc [of dev "addr AND NOT 7" w h] prog by simp
  moreover have "unat (remaining - head) \<le> length (drop (unat head) src)" using rem assms by simp
  ultimately show ?thesis by blast
qed

lemma ota_write_loop_total:
  assumes "unat remaining \<le> length src"
  shows "\<exists>rc addr' src' remaining' h'. ota_write_loop dev addr src remaining h = Some (rc, addr', src', remaining', h') \<and>
    (rc = 0 \<or> rc = -1) \<and> unat remaining' \<le> length src'"
  using assms
proof (induction dev addr src remaining h rule: ota_write_loop.induct)
  case (1 dev addr src remaining h)
  show ?case
  proof (cases "8 \<le> remaining")
    case False
    with 1(2) show ?thesis by (simp add: ota_write_loop.simps [of dev addr])
  next
    case True
    obtain rc h1 where prog: "program_doubleword dev addr (le_word (take 8 src)) h = (rc, h1)"
      by (cases "program_doubleword dev addr (le_word (take 8 src)) h") auto
    have long: "\<not> length src < 8" using True 1(2) by (simp add: word_le_nat_alt)
    have rc: "rc = 0 \<or> rc = -1" using program_doubleword_rc [of dev addr "le_word (take 8 src)" h] prog by simp
    have "unat (remaining - 8) \<le> length (drop 8 src)" using True 1(2) by (simp add: unat_diff_le)
    from 1(1) [OF True long prog [symmetric] refl _ this] show ?thesis
      unfolding ota_write_loop.simps [of dev addr src remaining h]
      using True long prog rc 1(2) by auto
  qed
qed

lemma ota_write_tail_total:
  assumes "unat remaining \<le> length src"
  shows "\<exists>rc h'. ota_write_tail dev addr src remaining h = Some (rc, h') \<and> (rc = 0 \<or> rc = -1)"
proof (cases "remaining = 0")
  case True
  then show ?thesis by (simp add: ota_write_tail_def)
next
  case False
  obtain rc h1 where prog: "program_doubleword dev addr (le_word (store_at 0 (take (unat remaining) src)
        (le_bytes 8 (le_word (flash_bytes dev addr 8 h) :: u64)))) h = (rc, h1)"
    by (rule prod.exhaust)
  moreover have "rc = 0 \<or> rc = -1" using program_doubleword_rc [of dev addr] prog by (metis fst_conv)
  ultimately show ?thesis
    using False assms by (simp add: ota_write_tail_def word_gt_0)
qed

lemma ota_flash_write_written:
  assumes hw: "fmc_hardware dev" and len: "unat len \<le> length data"
    and run: "ota_flash_write dev offset data len h = Some (0, h')"
  shows "flash_written dev (SECONDARY_SLOT_ADDR + offset) (take (unat len) data) h h'"
proof -
  let ?addr = "SECONDARY_SLOT_ADDR + offset" and ?h = "fmc_clear_all_flags dev (fmc_unlock dev h)"
  obtain rc1 a1 s1 r1 h1 where head: "ota_write_head dev ?addr data len ?h = Some (rc1, a1, s1, r1, h1)"
    and l1: "unat r1 \<le> length s1"
    using ota_write_head_total [OF len, of dev ?addr ?h] by blast
  obtain rc2 a2 s2 r2 h2 where loop: "ota_write_loop dev a1 s1 r1 h1 = Some (rc2, a2, s2, r2, h2)"
    and l2: "unat r2 \<le> length s2"
    using ota_write_loop_total [OF l1, of dev a1 h1] by blast
  obtain rc3 h3 where tail: "ota_write_tail dev a2 s2 r2 h2 = Some (rc3, h3)"
    using ota_write_tail_total [OF l2, of dev a2 h2] by blast
  have rcs: "rc1 = 0" "rc2 = 0" "rc3 = 0" "h' = ota_flash_close dev h3"
    using run by (simp_all add: ota_flash_write_def Let_def head loop tail split: if_splits)
  note p1 = ota_write_head_progress [OF hw head [unfolded rcs(1)] len]
    and p2 = ota_write_loop_progress [OF hw loop [unfolded rcs(2)] l1]
  from write_progress_trans [OF p1 conjunct1 [OF p2] len] obtain n where
    n: "n \<le> unat len" "flash_written dev ?addr (take n data) ?h h2" "a2 = ?addr + word_of_nat n"
      "s2 = drop n data" "unat r2 = unat len - n"
    by (auto simp: write_progress_def)
  have "flash_written dev a2 (take (unat r2) s2) h2 h3"
    using ota_write_tail_written [OF hw tail [unfolded rcs(3)] l2] p2 by blast
  moreover have "length (take n data) = n" using n(1) len by simp
  ultimately have "flash_written dev ?addr (take n data @ take (unat len - n) (drop n data)) ?h h3"
    using n len unsigned_less [of len] by (intro flash_written_append) simp_all
  moreover have "take n data @ take (unat len - n) (drop n data) = take (unat len) data"
    using n(1) by (metis le_add_diff_inverse take_add)
  ultimately show ?thesis
    by (simp add: flash_written_def rcs(4) ota_flash_close_flash [OF hw] fmc_clear_all_flags_flash [OF hw]
        fmc_unlock_flash [OF hw])
qed

lemma ota_flash_write_total:
  assumes len: "unat len \<le> length data"
  shows "\<exists>rc h1. ota_flash_write dev offset data len h =
    (if offset + len > SECONDARY_SLOT_SIZE then Some (-1, h) else Some (rc, ota_flash_close dev h1)) \<and> (rc = 0 \<or> rc = -1)"
proof -
  let ?addr = "SECONDARY_SLOT_ADDR + offset" and ?h = "fmc_clear_all_flags dev (fmc_unlock dev h)"
  obtain rc1 a1 s1 r1 h1 where head: "ota_write_head dev ?addr data len ?h = Some (rc1, a1, s1, r1, h1)"
    "rc1 = 0 \<or> rc1 = -1" and l1: "unat r1 \<le> length s1"
    using ota_write_head_total [OF len, of dev ?addr ?h] by blast
  obtain rc2 a2 s2 r2 h2 where loop: "ota_write_loop dev a1 s1 r1 h1 = Some (rc2, a2, s2, r2, h2)"
    "rc2 = 0 \<or> rc2 = -1" and l2: "unat r2 \<le> length s2"
    using ota_write_loop_total [OF l1, of dev a1 h1] by blast
  obtain rc3 h3 where tail: "ota_write_tail dev a2 s2 r2 h2 = Some (rc3, h3)" "rc3 = 0 \<or> rc3 = -1"
    using ota_write_tail_total [OF l2, of dev a2 h2] by blast
  show ?thesis
    unfolding ota_flash_write_def Let_def head(1) loop(1) tail(1) option.case prod.case
    using head(2) loop(2) tail(2) by (auto simp del: not_less)
qed

section \<open>A simulated controller\<close>

text \<open>NOR flash: a store clears bits, an erase sets a sector to 0xFF; the witnesses run on it.\<close>

record sim_fmc =
  s_flash :: "u32 \<Rightarrow> u8"
  s_ctl :: u32
  s_addr :: u32

definition sim_store :: "u32 \<Rightarrow> u32 \<Rightarrow> (u32 \<Rightarrow> u8) \<Rightarrow> u32 \<Rightarrow> u8" where
  "sim_store a v fl = (\<lambda>b. if unat (b - a) < 4 then fl b AND (le_bytes 4 v ! unat (b - a)) else fl b)"

definition sim_write :: "u32 \<Rightarrow> u32 \<Rightarrow> sim_fmc \<Rightarrow> sim_fmc" where
  "sim_write off v h =
     (if off = FMC_CTL_REG_OFFSET
      then h\<lparr>s_ctl := v AND NOT FMC_CTL_START,
             s_flash := (if v AND FMC_CTL_START \<noteq> s_ctl h AND FMC_CTL_START \<and> v AND FMC_CTL_SER \<noteq> 0
                         then (\<lambda>b. if flash_sector b = flash_sector (s_addr h) then 0xFF else s_flash h b)
                         else s_flash h)\<rparr>
      else if off = FMC_ADDR_REG_OFFSET then h\<lparr>s_addr := v\<rparr>
      else if off = FMC_KEY_REG_OFFSET \<and> v = UNLOCK_KEY1 then h\<lparr>s_ctl := s_ctl h AND NOT FMC_CTL_LK\<rparr>
      else h)"

definition sim_dev :: "sim_fmc fmc_device" where
  "sim_dev = \<lparr>read_reg = (\<lambda>off h. (if off = FMC_CTL_REG_OFFSET then s_ctl h else 0, h)), write_reg = sim_write,
     store32 = (\<lambda>a v h. if s_ctl h AND FMC_CTL_PG \<noteq> 0 then h\<lparr>s_flash := sim_store a v (s_flash h)\<rparr> else h),
     flash = s_flash, addr_reg = s_addr\<rparr>"

lemma sim_dev_hardware: "fmc_hardware sim_dev"
proof -
  have lk: "(v AND NOT FMC_CTL_START) AND FMC_CTL_LK = v AND FMC_CTL_LK" for v :: u32
    unfolding FMC_CTL_START_def FMC_CTL_LK_def by (rule other_bit_kept) simp
  show ?thesis
    unfolding fmc_hardware_def sim_dev_def
    by (auto simp: sim_write_def sim_store_def lk FMC_ADDR_REG_OFFSET_def FMC_CTL_REG_OFFSET_def FMC_KEY_REG_OFFSET_def)
qed

definition sim_erased :: sim_fmc where
  "sim_erased = \<lparr>s_flash = (\<lambda>_. 0xFF), s_ctl = FMC_CTL_LK, s_addr = 0\<rparr>"

section \<open>Properties\<close>

text \<open>Claim C18: writing to the slot. Whatever the controller does within its frame rules, and for
  every offset and every block at least as long as announced, the call returns 0 or -1; when it
  returns 0 the flash holds the block at the offset and is unchanged everywhere else, although
  whole double words are programmed; a block that ends behind the slot is refused without
  touching the controller; and whenever the controller was unlocked it is locked again.\<close>

theorem ota_flash_write_correct:
  assumes "fmc_hardware dev" and "unat len \<le> length data"
  shows "\<exists>rc h'. ota_flash_write dev offset data len h = Some (rc, h') \<and> (rc = 0 \<or> rc = -1) \<and>
     (rc = 0 \<longrightarrow> flash_written dev (SECONDARY_SLOT_ADDR + offset) (take (unat len) data) h h') \<and>
     (if offset + len > SECONDARY_SLOT_SIZE then rc = -1 \<and> h' = h else fmc_locked dev h')"
proof -
  obtain rc h1 where run: "ota_flash_write dev offset data len h =
      (if offset + len > SECONDARY_SLOT_SIZE then Some (-1, h) else Some (rc, ota_flash_close dev h1))"
    and rc: "rc = 0 \<or> rc = -1"
    using ota_flash_write_total [OF assms(2), of dev offset h] by blast
  show ?thesis
  proof (cases "offset + len > SECONDARY_SLOT_SIZE")
    case True
    with run show ?thesis by simp
  next
    case False
    with run have eq: "ota_flash_write dev offset data len h = Some (rc, ota_flash_close dev h1)" by simp
    have "rc = 0 \<longrightarrow> flash_written dev (SECONDARY_SLOT_ADDR + offset) (take (unat len) data) h (ota_flash_close dev h1)"
      using ota_flash_write_written [OF assms, of offset h "ota_flash_close dev h1"] eq by simp
    with False rc eq ota_flash_close_locks [OF assms(1), of h1] show ?thesis
      by (intro exI [of _ rc] exI [of _ "ota_flash_close dev h1"]) simp
  qed
qed

lemma sim_ready: "fmc_ready_wait sim_dev timeout h = (FMC_READY, h)"
  by (subst fmc_ready_wait.simps) (simp add: fmc_state_get_def sim_dev_def FMC_STAT_REG_OFFSET_def FMC_CTL_REG_OFFSET_def)

lemma le_list_add: "le_list (j + k) n = le_list j n @ le_list k (n div 256 ^ j)"
  by (induction j arbitrary: n) (simp_all add: div_mult2_eq)

lemma le_bytes_halves:
  fixes w :: u64
  shows "le_bytes 4 (ucast (w AND 0xFFFFFFFF) :: u32) @ le_bytes 4 (ucast (drop_bit 32 w AND 0xFFFFFFFF) :: u32) = le_bytes 8 w"
proof -
  have m: "(x :: u64) AND 0xFFFFFFFF = take_bit 32 x" for x by (simp add: take_bit_eq_mask mask_eq_exp_minus_1)
  have "unat (ucast (take_bit 32 w) :: u32) = unat w mod 256 ^ 4"
    by (simp add: unsigned_ucast_eq unsigned_take_bit_eq take_bit_eq_mod unat_mod)
  moreover have "unat (ucast (take_bit 32 (drop_bit 32 w)) :: u32) = unat w div 256 ^ 4 mod 256 ^ 4"
    by (simp add: unsigned_ucast_eq unsigned_take_bit_eq unsigned_drop_bit_eq take_bit_eq_mod drop_bit_eq_div
        unat_mod unat_div)
  moreover have "le_list k (n mod 256 ^ k) = le_list k n" for k n
    using le_list_le_nat [of "le_list k n"] by (simp add: le_nat_le_list)
  moreover have "le_list 8 (unat w) = le_list 4 (unat w) @ le_list 4 (unat w div 256 ^ 4)"
    using le_list_add [of 4 4 "unat w"] by (simp only: numeral_plus_numeral num.distinct Num.add_num_simps)
  ultimately show ?thesis
    by (simp only: le_bytes_def m)
qed

text \<open>On erased flash the simulated controller programs what it is given.\<close>

lemma sim_doubleword_erased:
  assumes "\<forall>i<8. s_flash h (a + word_of_nat i) = 0xFF"
  shows "\<exists>h'. fmc_doubleword_program sim_dev a w h = (FMC_READY, h') \<and> flash_bytes sim_dev a 8 h' = le_bytes 8 w \<and>
    \<not> bit (s_ctl h') 7"
proof -
  let ?d0 = "ucast (w AND 0xFFFFFFFF) :: u32" and ?d1 = "ucast (drop_bit 32 w AND 0xFFFFFFFF) :: u32"
  have "(0xFF :: u8) = - 1" by simp
  then have ff: "(0xFF :: u8) AND x = x" for x by (simp only: and.left_neutral)
  have pg: "((s_ctl h OR FMC_CTL_PG) AND NOT FMC_CTL_START) AND FMC_CTL_PG \<noteq> 0"
  proof
    assume "((s_ctl h OR FMC_CTL_PG) AND NOT FMC_CTL_START) AND FMC_CTL_PG = 0"
    then have "\<not> bit (((s_ctl h OR FMC_CTL_PG) AND NOT FMC_CTL_START) AND FMC_CTL_PG) 1" by simp
    then show False by (simp add: FMC_CTL_PG_def FMC_CTL_START_def BIT_def bit_simps)
  qed
  obtain h' where prog: "fmc_doubleword_program sim_dev a w h = (FMC_READY, h')"
    and fl: "s_flash h' = sim_store (a + 4) ?d1 (sim_store a ?d0 (s_flash h))"
    and ctl: "s_ctl h' = (((s_ctl h OR FMC_CTL_PG) AND NOT FMC_CTL_START) AND NOT FMC_CTL_PG) AND NOT FMC_CTL_START"
    using pg
    by (simp add: fmc_doubleword_program_def sim_ready fmc_ctl_update_def Let_def)
       (simp add: sim_dev_def sim_write_def FMC_CTL_REG_OFFSET_def ctl_bits_keep_start)
  have "flash_bytes sim_dev a 8 h' = le_bytes 4 ?d0 @ le_bytes 4 ?d1"
  proof (rule nth_equalityI)
    fix i
    assume "i < length (flash_bytes sim_dev a 8 h')"
    then have i: "i < 8" by simp
    then have ui: "unat (word_of_nat i :: u32) = i" by (intro word_of_nat_eq_nat_iff) simp
    have old: "s_flash h (a + word_of_nat i) = 0xFF" using assms i by blast
    have "unat (word_of_nat i - 4 :: u32) = i - 4" if "4 \<le> i"
      using that ui unat_diff_le [of 4 "word_of_nat i :: u32"] by (simp add: word_le_nat_alt)
    moreover have "4 \<le> unat (word_of_nat i - 4 :: u32)" if "i < 4"
      using dist_advance_wrap [of "word_of_nat i" 0 4] that ui by simp
    moreover have "flash_bytes sim_dev a 8 h' ! i = s_flash h' (a + word_of_nat i)"
      using i nth_upt [of 0 i 8] by (simp add: flash_bytes_def sim_dev_def del: upt_conv_Cons nth_upt)
    moreover have "i - 4 < 4" using i by simp
    ultimately show "flash_bytes sim_dev a 8 h' ! i = (le_bytes 4 ?d0 @ le_bytes 4 ?d1) ! i"
      using ui old by (cases "i < 4") (simp_all add: nth_append fl sim_store_def ff)
  qed simp
  moreover have "\<not> bit (s_ctl h') 7" unfolding ctl by (simp add: FMC_CTL_PG_def FMC_CTL_START_def BIT_def bit_simps)
  ultimately show ?thesis using prog by (simp only: le_bytes_halves) blast
qed

lemma sim_program_erased:
  assumes "s_flash h = (\<lambda>_. 0xFF)"
  shows "fst (program_doubleword sim_dev a w h) = 0"
proof -
  obtain h' where "fmc_doubleword_program sim_dev a w h = (FMC_READY, h')" "flash_bytes sim_dev a 8 h' = le_bytes 8 w"
    using sim_doubleword_erased [of h a w] assms by auto
  then show ?thesis by (simp add: program_doubleword_def le_word_le_bytes)
qed

lemma sim_write_runs: "\<exists>h'. ota_flash_write sim_dev 3 [1, 2, 3] 3 sim_erased = Some (0, h')"
proof -
  let ?h = "fmc_clear_all_flags sim_dev (fmc_unlock sim_dev sim_erased)"
  have "s_flash ?h = (\<lambda>_. 0xFF)"
    using fmc_clear_all_flags_flash [OF sim_dev_hardware, of "fmc_unlock sim_dev sim_erased"]
      fmc_unlock_flash [OF sim_dev_hardware, of sim_erased]
    by (simp add: sim_dev_def sim_erased_def)
  note prog = sim_program_erased [OF this]
  obtain h1 where "ota_write_head sim_dev 0x080C0003 [1, 2, 3] 3 ?h = Some (0, 0x080C0006, [], 0, h1)"
    using prog [of "0x080C0000"] by (auto simp: ota_write_head_def Let_def split_beta)
  moreover have "ota_write_loop sim_dev 0x080C0006 [] 0 h1 = Some (0, 0x080C0006, [], 0, h1)"
    by (simp add: ota_write_loop.simps)
  ultimately show ?thesis
    by (simp add: ota_flash_write_def ota_write_tail_def SECONDARY_SLOT_ADDR_def SECONDARY_SLOT_SIZE_def)
qed

theorem ota_flash_write_correct_witness:
  "\<exists>h'. ota_flash_write sim_dev 3 [1, 2, 3] 3 sim_erased = Some (0, h') \<and>
     flash sim_dev h' 0x080C0004 = 2 \<and> flash sim_dev h' 0x080C0002 = 0xFF \<and> fmc_locked sim_dev h'"
proof -
  have len: "unat (3 :: u32) \<le> length [1, 2, 3 :: u8]" and "\<not> (3 + 3 :: u32) > SECONDARY_SLOT_SIZE"
    by (simp_all add: SECONDARY_SLOT_SIZE_def)
  moreover obtain h' where run: "ota_flash_write sim_dev 3 [1, 2, 3] 3 sim_erased = Some (0, h')"
    using sim_write_runs by blast
  ultimately have "flash_written sim_dev (SECONDARY_SLOT_ADDR + 3) (take (unat (3 :: u32)) [1, 2, 3]) sim_erased h'"
    and "fmc_locked sim_dev h'"
    using ota_flash_write_correct [OF sim_dev_hardware len, of 3 sim_erased] by simp_all
  moreover from this(1) have "flash sim_dev h' 0x080C0004 = 2" "flash sim_dev h' 0x080C0002 = 0xFF"
    by (simp_all add: flash_written_def SECONDARY_SLOT_ADDR_def)
      (simp add: sim_dev_def sim_erased_def unsigned_minus_1_eq_mask mask_eq_exp_minus_1)
  ultimately show ?thesis using run by blast
qed

end
