(* ===== verification/OtaSlot.thy ===== *)
theory OtaSlot
  imports OtaFlash
begin

text \<open>
  The boundary of the secondary slot: what \<^verbatim>\<open>ota_flash.c\<close> can change outside it, what an
  erase guarantees, what the checksum covers, and where the range checks of the code wrap.
\<close>

definition slot_addr :: "u32 \<Rightarrow> bool" where
  "slot_addr b \<longleftrightarrow> SECONDARY_SLOT_ADDR \<le> b \<and> b < SECONDARY_SLOT_ADDR + SECONDARY_SLOT_SIZE"

lemma slot_bounds: "slot_addr b \<longleftrightarrow> 0x080C0000 \<le> unat b \<and> unat b < 0x08160000"
  by (simp add: slot_addr_def SECONDARY_SLOT_ADDR_def SECONDARY_SLOT_SIZE_def word_le_nat_alt word_less_nat_alt)

text \<open>A double word of the slot and an address outside are at least eight bytes apart.\<close>

lemma outside_far:
  assumes "8 dvd unat a" and "slot_addr a" and "\<not> slot_addr b"
  shows "8 \<le> unat (b - a)"
proof (cases "a \<le> b")
  case True
  then have le: "unat a \<le> unat b" by (simp add: word_le_nat_alt)
  then have "0x08160000 \<le> unat b" using assms(2,3) by (simp add: slot_bounds)
  moreover obtain k where "unat a = 8 * k" using assms(1) by (auto simp: dvd_def)
  moreover from this have "unat a + 8 \<le> 0x08160000" using assms(2) by (simp add: slot_bounds)
  ultimately show ?thesis using unat_diff_le [OF True] by linarith
next
  case False
  have "unat (b - a) = unat b + 2 ^ 32 - unat a"
    using False by (simp add: unat_sub_if_size word_size word_le_nat_alt)
  moreover have "unat a < 0x08160000" using assms(2) by (simp add: slot_bounds)
  ultimately show ?thesis by simp
qed

lemma program_doubleword_slot:
  assumes "fmc_hardware dev" and "8 dvd unat a" and "slot_addr a" and "\<not> slot_addr b"
  shows "flash dev (snd (program_doubleword dev a w h)) b = flash dev h b"
  using fmc_doubleword_program_flash [OF assms(1) outside_far [OF assms(2-4)]]
  by (simp add: program_doubleword_def split_beta)

text \<open>Where a stage of a write stands: inside the slot, and on a double word boundary if bytes remain.\<close>

definition stage_ok :: "u32 \<Rightarrow> u32 \<Rightarrow> bool" where
  "stage_ok addr remaining \<longleftrightarrow> 0x080C0000 \<le> unat addr \<and> unat addr + unat remaining \<le> 0x08160000 \<and>
     (remaining = 0 \<or> 8 dvd unat addr)"

lemma unat_align: "unat (a AND NOT 7 :: u32) = unat a - unat a mod 8"
proof -
  have "a AND NOT 7 = a - (a AND 7)" using align_split [of a] by (metis add_diff_cancel_right')
  moreover have "a AND 7 \<le> a" by (simp add: word_le_nat_alt and_7)
  ultimately show ?thesis by (simp add: unat_diff_le and_7)
qed

lemma ota_write_head_slot:
  assumes hw: "fmc_hardware dev" and run: "ota_write_head dev addr src remaining h = Some (rc, addr', src', remaining', h')"
    and lo: "0x080C0000 \<le> unat addr" and hi: "unat addr + unat remaining \<le> 0x08160000"
  shows "(\<forall>b. \<not> slot_addr b \<longrightarrow> flash dev h' b = flash dev h b) \<and> stage_ok addr' remaining'"
proof (cases "addr AND 7 = 0")
  case True
  then have "unat addr mod 8 = 0" using and_7 [of addr] by simp
  with True run lo hi show ?thesis by (auto simp: ota_write_head_def stage_ok_def)
next
  case False
  obtain head where head: "head = (if 8 - (addr AND 7) > remaining then remaining else 8 - (addr AND 7))"
    by blast
  have k: "unat (addr AND 7) = unat addr mod 8" by (rule and_7)
  then have k0: "unat addr mod 8 \<noteq> 0" using False by (metis unat_eq_0)
  have h0: "unat (8 - (addr AND 7)) = 8 - unat addr mod 8"
    using k by (simp add: unat_diff_le word_le_nat_alt)
  have cases: "head = remaining \<or> unat head = 8 - unat addr mod 8" using head h0 by metis
  have le: "head \<le> remaining" using head by (simp only: not_less split: if_split) simp
  have addr: "unat (addr + head) = unat addr + unat head"
    using le hi by (intro unat_add_small) (simp add: word_le_nat_alt)
  have rem: "unat (remaining - head) = unat remaining - unat head" by (rule unat_diff_le [OF le])
  obtain w :: u64 where w: "w = le_word (store_at (unat (addr AND 7)) (take (unat head) src)
        (le_bytes 8 (le_word (flash_bytes dev (addr AND NOT 7) 8 h) :: u64)))"
    by blast
  obtain rc1 h1 where prog: "program_doubleword dev (addr AND NOT 7) w h = (rc1, h1)"
    by (rule prod.exhaust)
  have out: "addr' = addr + head" "remaining' = remaining - head"
      "h' = snd (program_doubleword dev (addr AND NOT 7) w h)"
    using run False unfolding ota_write_head_def Let_def head [symmetric] w [symmetric] prog prod.case
    by (cases "length src < unat head", simp, simp)+
  have al: "unat (addr AND NOT 7) = unat addr - unat addr mod 8" by (rule unat_align)
  then have "8 dvd unat (addr AND NOT 7)" by (simp add: minus_mod_eq_mult_div)
  moreover have "slot_addr (addr AND NOT 7)"
  proof -
    have "0x01018000 \<le> unat addr div 8" using div_le_mono [OF lo, of 8] by simp
    moreover have "unat addr - unat addr mod 8 = 8 * (unat addr div 8)" by (rule minus_mod_eq_mult_div)
    moreover have "unat addr mod 8 > 0" using k0 by simp
    moreover have "unat addr mod 8 \<le> unat addr" by simp
    ultimately have "0x080C0000 \<le> unat (addr AND NOT 7)" "unat (addr AND NOT 7) < 0x08160000"
      using al hi by (linarith, linarith)
    then show ?thesis by (simp add: slot_bounds)
  qed
  ultimately have "\<forall>b. \<not> slot_addr b \<longrightarrow> flash dev h' b = flash dev h b"
    using program_doubleword_slot [OF hw] out(3) by simp
  moreover have "stage_ok addr' remaining'"
    using cases
  proof
    assume "head = remaining"
    then show ?thesis using out addr lo hi by (simp add: stage_ok_def)
  next
    assume "unat head = 8 - unat addr mod 8"
    then have "unat (addr + head) = 8 * (unat addr div 8 + 1)"
      using addr by (simp add: minus_mod_eq_mult_div [symmetric])
    then show ?thesis using out addr rem lo hi le by (simp add: stage_ok_def word_le_nat_alt)
  qed
  ultimately show ?thesis by blast
qed

lemma ota_write_loop_slot:
  assumes "fmc_hardware dev" and "ota_write_loop dev addr src remaining h = Some (rc, addr', src', remaining', h')"
    and "stage_ok addr remaining"
  shows "(\<forall>b. \<not> slot_addr b \<longrightarrow> flash dev h' b = flash dev h b) \<and> stage_ok addr' remaining'"
  using assms
proof (induction dev addr src remaining h rule: ota_write_loop.induct)
  case (1 dev addr src remaining h)
  show ?case
  proof (cases "8 \<le> remaining")
    case False
    with 1(3,4) show ?thesis by (simp add: ota_write_loop.simps [of dev addr src remaining h])
  next
    case True
    then have r8: "8 \<le> unat remaining" by (simp add: word_le_nat_alt)
    have a: "8 dvd unat addr" "0x080C0000 \<le> unat addr" "unat addr + unat remaining \<le> 0x08160000"
      using 1(4) r8 by (auto simp: stage_ok_def)
    have addr: "unat (addr + 8) = unat addr + 8" using a r8 by (subst unat_add_small) simp_all
    have rem: "unat (remaining - 8) = unat remaining - 8" using True by (simp add: unat_diff_le)
    obtain rc1 h1 where prog: "program_doubleword dev addr (le_word (take 8 src)) h = (rc1, h1)"
      by (cases "program_doubleword dev addr (le_word (take 8 src)) h") auto
    have long: "\<not> length src < 8" using 1(3) True by (auto simp: ota_write_loop.simps [of dev addr src remaining h])
    have "slot_addr addr" using a r8 by (simp add: slot_bounds)
    then have keep: "\<not> slot_addr b \<Longrightarrow> flash dev h1 b = flash dev h b" for b
      using program_doubleword_slot [OF 1(2) a(1), of b "le_word (take 8 src)" h] prog by simp
    show ?thesis
    proof (cases "rc1 = 0")
      case False
      then have "h' = h1" "addr' = addr" "remaining' = remaining"
        using 1(3) True long prog by (simp_all add: ota_write_loop.simps [of dev addr src remaining h])
      with keep 1(4) show ?thesis by simp
    next
      case rc0: True
      then have rest: "ota_write_loop dev (addr + 8) (drop 8 src) (remaining - 8) h1 = Some (rc, addr', src', remaining', h')"
        using 1(3) True long prog by (simp add: ota_write_loop.simps [of dev addr src remaining h])
      have "stage_ok (addr + 8) (remaining - 8)" using a addr rem r8 by (simp add: stage_ok_def)
      from 1(1) [OF True long prog [symmetric] refl _ 1(2) rest this] rc0 keep show ?thesis by simp
    qed
  qed
qed

lemma ota_write_tail_slot:
  assumes hw: "fmc_hardware dev" and run: "ota_write_tail dev addr src remaining h = Some (rc, h')"
    and ok: "stage_ok addr remaining" and out: "\<not> slot_addr b"
  shows "flash dev h' b = flash dev h b"
proof (cases "remaining = 0")
  case True
  with run show ?thesis by (simp add: ota_write_tail_def)
next
  case False
  then have "8 dvd unat addr" "slot_addr addr"
    using ok unat_gt_0 [of remaining] by (auto simp: stage_ok_def slot_bounds)
  from program_doubleword_slot [OF hw this out] run False show ?thesis
    by (auto simp: ota_write_tail_def word_gt_0 Let_def split: if_splits) (metis snd_conv)
qed

lemma ota_flash_write_slot:
  assumes hw: "fmc_hardware dev" and run: "ota_flash_write dev offset data len h = Some (rc, h')"
    and small: "unat offset + unat len < 2 ^ 32" and out: "\<not> slot_addr b"
  shows "flash dev h' b = flash dev h b"
proof (cases "offset + len > SECONDARY_SLOT_SIZE")
  case True
  with run show ?thesis by (simp add: ota_flash_write_def)
next
  case False
  let ?addr = "SECONDARY_SLOT_ADDR + offset" and ?h = "fmc_clear_all_flags dev (fmc_unlock dev h)"
  have fit: "unat offset + unat len \<le> 0xA0000"
    using False small by (simp add: SECONDARY_SLOT_SIZE_def word_less_nat_alt unat_add_small not_less)
  then have addr: "unat ?addr = 0x080C0000 + unat offset"
    by (subst unat_add_small) (simp_all add: SECONDARY_SLOT_ADDR_def)
  have start: "flash dev ?h = flash dev h" by (simp add: fmc_clear_all_flags_flash fmc_unlock_flash hw)
  obtain rc1 a1 s1 r1 h1 where head: "ota_write_head dev ?addr data len ?h = Some (rc1, a1, s1, r1, h1)"
    using run False by (auto simp: ota_flash_write_def split: option.splits)
  have s1: "\<not> slot_addr b \<Longrightarrow> flash dev h1 b = flash dev h b" "stage_ok a1 r1"
    using ota_write_head_slot [OF hw head] addr fit start by simp_all
  show ?thesis
  proof (cases "rc1 = 0")
    case False
    then have "h' = ota_flash_close dev h1" using run \<open>\<not> offset + len > SECONDARY_SLOT_SIZE\<close> head
      by (simp add: ota_flash_write_def)
    then show ?thesis using s1(1) [OF out] by (simp add: ota_flash_close_flash hw)
  next
    case rc1: True
    obtain rc2 a2 s2 r2 h2 where loop: "ota_write_loop dev a1 s1 r1 h1 = Some (rc2, a2, s2, r2, h2)"
      using run False head rc1 by (auto simp: ota_flash_write_def split: option.splits)
    have l: "flash dev h2 b = flash dev h b" "stage_ok a2 r2"
      using ota_write_loop_slot [OF hw loop s1(2)] s1(1) out by simp_all
    show ?thesis
    proof (cases "rc2 = 0")
      case False
      then have "h' = ota_flash_close dev h2" using run \<open>\<not> offset + len > SECONDARY_SLOT_SIZE\<close> head loop rc1
        by (simp add: ota_flash_write_def)
      then show ?thesis using l(1) by (simp add: ota_flash_close_flash hw)
    next
      case rc2: True
      obtain rc3 h3 where tail: "ota_write_tail dev a2 s2 r2 h2 = Some (rc3, h3)"
        using run False head loop rc1 rc2 by (auto simp: ota_flash_write_def split: option.splits)
      have "h' = ota_flash_close dev h3" using run False head loop tail rc1 rc2 by (simp add: ota_flash_write_def)
      then show ?thesis using ota_write_tail_slot [OF hw tail l(2) out] l(1) by (simp add: ota_flash_close_flash hw)
    qed
  qed
qed

section \<open>Erasing\<close>

lemma ota_flash_erase_cases:
  "\<exists>rc h1. ota_flash_erase_sector dev idx h =
     (if SECONDARY_SLOT_ADDR + SECONDARY_SLOT_SIZE \<le> SECONDARY_SLOT_ADDR + idx * FLASH_SECTOR_SIZE then (-1, h)
      else (rc, ota_flash_close dev h1)) \<and>
     h1 = snd (fmc_sector_erase dev (SECONDARY_SLOT_ADDR + idx * FLASH_SECTOR_SIZE)
       (fmc_clear_all_flags dev (fmc_unlock dev h))) \<and>
     (rc = 0 \<or> rc = -1) \<and>
     (rc = 0 \<longrightarrow> le_word (flash_bytes dev (SECONDARY_SLOT_ADDR + idx * FLASH_SECTOR_SIZE) 4 h1) = (0xFFFFFFFF :: u32))"
proof -
  let ?addr = "SECONDARY_SLOT_ADDR + idx * FLASH_SECTOR_SIZE"
  obtain st h1 where e: "fmc_sector_erase dev ?addr (fmc_clear_all_flags dev (fmc_unlock dev h)) = (st, h1)"
    by (rule prod.exhaust)
  let ?bad = "st \<noteq> FMC_READY \<or> le_word (flash_bytes dev ?addr 4 h1) \<noteq> (0xFFFFFFFF :: u32)"
  show ?thesis
    unfolding ota_flash_erase_sector_def Let_def e prod.case snd_conv
    by (intro exI [of _ "if ?bad then -1 else 0"] exI [of _ h1]) auto
qed

lemma sector_of_index:
  assumes "unat idx < 2 ^ 20"
  shows "unat (SECONDARY_SLOT_ADDR + idx * FLASH_SECTOR_SIZE) = (0x080C0000 + unat idx * 4096) mod 2 ^ 32"
  using assms by (simp add: SECONDARY_SLOT_ADDR_def FLASH_SECTOR_SIZE_def unat_word_ariths)

lemma flash_sector_div: "unat (flash_sector a) = unat a div 4096"
  by (simp add: flash_sector_def drop_bit_eq_div unat_div)

lemma sector_in_slot:
  assumes "unat idx < 160" and "flash_sector b = flash_sector (SECONDARY_SLOT_ADDR + idx * FLASH_SECTOR_SIZE)"
  shows "slot_addr b"
proof -
  have "unat b div 4096 = (0x080C0000 + unat idx * 4096) div 4096"
    using arg_cong [OF assms(2), of unat] sector_of_index [of idx] assms(1) by (simp add: flash_sector_div)
  also have "\<dots> = 0x80C0 + unat idx" by simp
  finally have "unat b div 4096 = 0x80C0 + unat idx" .
  moreover have "unat b = 4096 * (unat b div 4096) + unat b mod 4096" by simp
  moreover have "unat b mod 4096 < 4096" by simp
  ultimately have "0x080C0000 \<le> unat b" "unat b < 0x08160000" using assms(1) by linarith+
  then show ?thesis by (simp add: slot_bounds)
qed

lemma erase_refused:
  assumes "160 \<le> unat idx" and "unat idx < 0xF7F40"
  shows "SECONDARY_SLOT_ADDR + SECONDARY_SLOT_SIZE \<le> SECONDARY_SLOT_ADDR + idx * FLASH_SECTOR_SIZE"
  using sector_of_index [of idx] assms
  by (simp add: word_le_nat_alt SECONDARY_SLOT_SIZE_def) (simp add: SECONDARY_SLOT_ADDR_def)

lemma erase_accepted:
  assumes "unat idx < 160"
  shows "\<not> SECONDARY_SLOT_ADDR + SECONDARY_SLOT_SIZE \<le> SECONDARY_SLOT_ADDR + idx * FLASH_SECTOR_SIZE"
  using sector_of_index [of idx] assms
  by (simp add: word_le_nat_alt SECONDARY_SLOT_SIZE_def) (simp add: SECONDARY_SLOT_ADDR_def)

lemma ota_flash_erase_frame:
  assumes hw: "fmc_hardware dev" and "flash_sector b \<noteq> flash_sector (SECONDARY_SLOT_ADDR + idx * FLASH_SECTOR_SIZE)"
  shows "flash dev (snd (ota_flash_erase_sector dev idx h)) b = flash dev h b"
proof -
  from ota_flash_erase_cases [of dev idx h] obtain rc h1 where
    run: "ota_flash_erase_sector dev idx h =
      (if SECONDARY_SLOT_ADDR + SECONDARY_SLOT_SIZE \<le> SECONDARY_SLOT_ADDR + idx * FLASH_SECTOR_SIZE then (-1, h)
       else (rc, ota_flash_close dev h1))"
    and h1: "h1 = snd (fmc_sector_erase dev (SECONDARY_SLOT_ADDR + idx * FLASH_SECTOR_SIZE)
       (fmc_clear_all_flags dev (fmc_unlock dev h)))"
    by blast
  have "flash dev h1 b = flash dev h b"
    unfolding h1 fmc_sector_erase_flash [OF hw assms(2)] by (simp add: fmc_clear_all_flags_flash fmc_unlock_flash hw)
  then show ?thesis unfolding run by (simp add: ota_flash_close_flash hw)
qed

section \<open>Properties\<close>

text \<open>Containment. Nothing outside the secondary slot is ever changed by a write whose
  offset and length do not add up to $2^{32}$ or more, nor by the erase of a sector index below
  0xF7F40, whether the calls succeed, fail in the middle or are refused, and whatever the
  controller writes into the bytes it is told to change: the running firmware and the boot loader
  survive every failed update.\<close>

theorem ota_slot_containment:
  assumes "fmc_hardware dev" and "\<not> slot_addr b"
    and "unat offset + unat len < 2 ^ 32" and "unat idx < 0xF7F40"
  shows "(\<forall>rc h'. ota_flash_write dev offset data len h = Some (rc, h') \<longrightarrow> flash dev h' b = flash dev h b) \<and>
    flash dev (snd (ota_flash_erase_sector dev idx h)) b = flash dev h b"
proof (intro conjI allI impI)
  fix rc h'
  assume "ota_flash_write dev offset data len h = Some (rc, h')"
  with assms(1) show "flash dev h' b = flash dev h b" using assms(3,2) by (rule ota_flash_write_slot)
next
  show "flash dev (snd (ota_flash_erase_sector dev idx h)) b = flash dev h b"
  proof (cases "unat idx < 160")
    case True
    then have "flash_sector b \<noteq> flash_sector (SECONDARY_SLOT_ADDR + idx * FLASH_SECTOR_SIZE)"
      using assms(2) sector_in_slot by blast
    then show ?thesis by (rule ota_flash_erase_frame [OF assms(1)])
  next
    case False
    with erase_refused [of idx] assms(4) show ?thesis by (simp add: ota_flash_erase_sector_def)
  qed
qed

theorem ota_slot_containment_witness:
  "flash sim_dev (snd (ota_flash_erase_sector sim_dev 159 sim_erased)) 0x08000000 = 0xFF"
proof -
  have "\<not> slot_addr 0x08000000" "unat (0 :: u32) + unat (8 :: u32) < 2 ^ 32" "unat (159 :: u32) < 0xF7F40"
    by (simp_all add: slot_bounds)
  from ota_slot_containment [OF sim_dev_hardware this, of "[]" sim_erased]
  show ?thesis by (simp add: sim_dev_def sim_erased_def)
qed

text \<open>Erasing a sector. For the 160 sectors of the slot the call returns 0 or -1, leaves
  the controller locked, changes no byte of any other sector, and when it returns 0 the first word
  of the sector reads as erased; for an index from 160 up to 0xF7F3F it returns -1 without touching
  the controller.\<close>

theorem ota_erase_sector_correct:
  assumes "fmc_hardware dev" and "unat idx < 0xF7F40"
  shows "\<exists>rc h'. ota_flash_erase_sector dev idx h = (rc, h') \<and> (rc = 0 \<or> rc = -1) \<and>
    (if unat idx < 160
     then fmc_locked dev h' \<and>
       (\<forall>b. flash_sector b \<noteq> flash_sector (SECONDARY_SLOT_ADDR + idx * FLASH_SECTOR_SIZE) \<longrightarrow> flash dev h' b = flash dev h b) \<and>
       (rc = 0 \<longrightarrow> flash_bytes dev (SECONDARY_SLOT_ADDR + idx * FLASH_SECTOR_SIZE) 4 h' = [0xFF, 0xFF, 0xFF, 0xFF])
     else rc = -1 \<and> h' = h)"
proof (cases "unat idx < 160")
  case False
  with erase_refused [of idx] assms(2) show ?thesis by (simp add: ota_flash_erase_sector_def)
next
  case True
  let ?addr = "SECONDARY_SLOT_ADDR + idx * FLASH_SECTOR_SIZE"
  from ota_flash_erase_cases [of dev idx h] erase_accepted [OF True] obtain rc h1 where
    run: "ota_flash_erase_sector dev idx h = (rc, ota_flash_close dev h1)" and rc: "rc = 0 \<or> rc = -1"
    and ff: "rc = 0 \<longrightarrow> le_word (flash_bytes dev ?addr 4 h1) = (0xFFFFFFFF :: u32)"
    by (simp only: if_False) blast
  have same: "flash_bytes dev a n (ota_flash_close dev h1) = flash_bytes dev a n h1" for a n
    by (simp add: flash_bytes_def ota_flash_close_flash assms(1))
  have "flash_bytes dev ?addr 4 h1 = [0xFF, 0xFF, 0xFF, 0xFF]" if "rc = 0"
  proof -
    have "le_bytes 4 (le_word (flash_bytes dev ?addr 4 h1) :: u32) = flash_bytes dev ?addr 4 h1"
      by (rule le_bytes_le_word) simp_all
    moreover have "le_bytes 4 (0xFFFFFFFF :: u32) = [0xFF, 0xFF, 0xFF, 0xFF]"
    proof -
      have four: "(4 :: nat) = Suc (Suc (Suc (Suc 0)))" by simp
      show ?thesis unfolding le_bytes_def four le_list.simps by simp
    qed
    ultimately show ?thesis using ff that by simp
  qed
  with run rc True same ota_flash_close_locks [OF assms(1), of h1] ota_flash_erase_frame [OF assms(1), of _ idx h]
  show ?thesis by simp
qed

text \<open>On the simulated controller an accepted erase succeeds and sets the sector to 0xFF.\<close>

lemma start_cleared: "\<not> bit (x AND NOT FMC_CTL_START) 7"
  by (simp add: FMC_CTL_START_def BIT_def bit_simps)

lemma sim_sector_erase:
  assumes "\<not> bit (s_ctl h) 7"
  shows "\<exists>h'. fmc_sector_erase sim_dev a h = (FMC_READY, h') \<and>
    s_flash h' = (\<lambda>b. if flash_sector b = flash_sector a then 0xFF else s_flash h b) \<and> \<not> bit (s_ctl h') 7"
proof -
  let ?c1 = "(s_ctl h OR FMC_CTL_SER) AND NOT FMC_CTL_START"
  have bits: "x AND BIT n \<noteq> 0 \<longleftrightarrow> bit x n" if "n < 32" for x :: u32 and n
  proof
    assume "bit x n"
    then have "bit (x AND BIT n) n" using that by (simp add: BIT_def bit_simps)
    then show "x AND BIT n \<noteq> 0" by (metis bit_0_eq bot_apply bot_bool_def)
  next
    assume "x AND BIT n \<noteq> 0"
    then obtain m where "bit (x AND BIT n) m" by (metis bit_eqI bit_0_eq bot_apply bot_bool_def)
    then show "bit x n" by (auto simp: BIT_def bit_simps)
  qed
  have c1: "\<not> bit ?c1 7" "bit ?c1 2"
    by (auto simp: FMC_CTL_SER_def FMC_CTL_START_def BIT_def bit_simps)
  have "(?c1 OR FMC_CTL_START) AND FMC_CTL_START \<noteq> ?c1 AND FMC_CTL_START"
    using bits [of 7 "?c1 OR FMC_CTL_START"] bits [of 7 ?c1] c1(1)
    by (auto simp: FMC_CTL_START_def BIT_def bit_simps)
  moreover have "(?c1 OR FMC_CTL_START) AND FMC_CTL_SER \<noteq> 0"
    using bits [of 2 "?c1 OR FMC_CTL_START"] c1(2) by (simp add: FMC_CTL_SER_def bit_or_iff)
  ultimately show ?thesis
    by (simp add: fmc_sector_erase_def sim_ready fmc_ctl_update_def Let_def)
      (simp add: sim_dev_def sim_write_def FMC_CTL_REG_OFFSET_def FMC_ADDR_REG_OFFSET_def ctl_bits_keep_start fun_eq_iff
        start_cleared)
qed

lemma sim_erase_runs:
  assumes "\<not> SECONDARY_SLOT_ADDR + SECONDARY_SLOT_SIZE \<le> SECONDARY_SLOT_ADDR + idx * FLASH_SECTOR_SIZE"
    and "\<not> bit (s_ctl h) 7"
  shows "\<exists>h'. ota_flash_erase_sector sim_dev idx h = (0, h') \<and>
    flash sim_dev h' (SECONDARY_SLOT_ADDR + idx * FLASH_SECTOR_SIZE) = 0xFF"
proof -
  let ?addr = "SECONDARY_SLOT_ADDR + idx * FLASH_SECTOR_SIZE"
  let ?h = "fmc_clear_all_flags sim_dev (fmc_unlock sim_dev h)"
  have clear: "\<not> bit (s_ctl (fmc_flag_clear sim_dev f x)) 7" if "\<not> bit (s_ctl x) 7" for f x
    using that by (simp add: fmc_flag_clear_def sim_dev_def sim_write_def FMC_CTL_START_def BIT_def bit_simps)
  have "\<not> bit (s_ctl (fmc_unlock sim_dev h)) 7"
    using assms(2) by (simp add: fmc_unlock_def sim_dev_def sim_write_def FMC_KEY_REG_OFFSET_def FMC_CTL_REG_OFFSET_def
        FMC_ADDR_REG_OFFSET_def UNLOCK_KEY0_def UNLOCK_KEY1_def bit_simps)
  then have "\<not> bit (s_ctl ?h) 7" by (simp add: fmc_clear_all_flags_def clear)
  from sim_sector_erase [OF this, of ?addr] obtain h1 where
    e: "fmc_sector_erase sim_dev ?addr ?h = (FMC_READY, h1)"
    and fl: "s_flash h1 = (\<lambda>b. if flash_sector b = flash_sector ?addr then 0xFF else s_flash ?h b)"
    by blast
  have word0: "flash_sector (?addr + word_of_nat i) = flash_sector ?addr" if "i < 4" for i
  proof -
    have "(4096 :: nat) dvd (135004160 + unat idx * 4096 mod 2 ^ 32) mod 2 ^ 32"
      by (intro dvd_mod dvd_add dvd_triv_right) simp_all
    then have low: "4096 dvd unat ?addr"
      by (simp add: SECONDARY_SLOT_ADDR_def FLASH_SECTOR_SIZE_def unat_word_ariths)
    have i: "unat (word_of_nat i :: u32) = i" using that by (intro word_of_nat_eq_nat_iff) simp
    obtain q where q: "unat ?addr = 4096 * q" using low by (auto simp: dvd_def)
    moreover have "unat ?addr < 2 ^ 32" by (rule order_less_le_trans [OF unsigned_less]) simp
    ultimately have "q < 2 ^ 20" by simp
    then have "unat (?addr + word_of_nat i) = 4096 * q + i" using q i that by (subst unat_add_small) simp_all
    then have "unat (flash_sector (?addr + word_of_nat i)) = unat (flash_sector ?addr)"
      using q that by (simp add: flash_sector_div)
    then show ?thesis by (simp only: word_unat_eq_iff)
  qed
  have four: "[0..<4] = [0, 1, 2, 3]" by (simp add: upt_rec)
  have "flash_bytes sim_dev ?addr 4 h1 = [0xFF, 0xFF, 0xFF, 0xFF]"
    using word0 [of 0] word0 [of 1] word0 [of 2] word0 [of 3]
    by (simp add: flash_bytes_def four sim_dev_def fl)
  then have "(le_word (flash_bytes sim_dev ?addr 4 h1) :: u32) = 0xFFFFFFFF" by (simp add: le_word_def)
  then have run: "ota_flash_erase_sector sim_dev idx h = (0, ota_flash_close sim_dev h1)"
    using assms(1) by (simp add: ota_flash_erase_sector_def Let_def e)
  have "flash sim_dev (ota_flash_close sim_dev h1) ?addr = 0xFF"
    unfolding ota_flash_close_flash [OF sim_dev_hardware] by (simp add: sim_dev_def fl)
  with run show ?thesis by blast
qed

theorem ota_erase_sector_correct_witness:
  "\<exists>h'. ota_flash_erase_sector sim_dev 2 sim_erased = (0, h') \<and> fmc_locked sim_dev h' \<and>
     flash_bytes sim_dev 0x080C2000 4 h' = [0xFF, 0xFF, 0xFF, 0xFF]"
proof -
  have idx: "unat (2 :: u32) < 0xF7F40" "unat (2 :: u32) < 160" by simp_all
  have "\<not> bit (s_ctl sim_erased) 7" by (simp add: sim_erased_def FMC_CTL_LK_def BIT_def bit_simps)
  then obtain h' where run: "ota_flash_erase_sector sim_dev 2 sim_erased = (0, h')"
    using sim_erase_runs [OF erase_accepted [OF idx(2)]] by blast
  have addr: "SECONDARY_SLOT_ADDR + 2 * FLASH_SECTOR_SIZE = 0x080C2000"
    by (simp add: SECONDARY_SLOT_ADDR_def FLASH_SECTOR_SIZE_def)
  from ota_erase_sector_correct [OF sim_dev_hardware idx(1), of sim_erased] run idx(2)
  show ?thesis unfolding addr by simp
qed

text \<open>Claim C29: the range checks wrap. A sector index from 0xF7F40 to 0xFFFFF is not refused: the
  address computation wraps and the code erases the sector that many steps from address 0, below
  the slot (index 0xFFFFF: the sector before it). An offset and length whose sum wraps past
  $2^{32}$ are not refused either, and a write reported as successful has put its first byte at an
  address outside the slot.\<close>

theorem ota_range_checks_wrap:
  assumes "fmc_hardware dev" and "0xF7F40 \<le> unat idx" and "unat idx < 2 ^ 20"
    and "2 ^ 32 \<le> unat offset + unat len" and "unat offset + unat len \<le> 2 ^ 32 + 0xA0000"
    and "0 < unat len" and "unat len \<le> 0xA0000" and "unat len \<le> length data"
  shows "(\<exists>rc. ota_flash_erase_sector dev idx h = (rc, ota_flash_close dev (snd (fmc_sector_erase dev
       (word_of_nat ((unat idx - 0xF7F40) * 4096)) (fmc_clear_all_flags dev (fmc_unlock dev h)))))) \<and>
    \<not> slot_addr (SECONDARY_SLOT_ADDR + offset) \<and>
    (\<forall>h'. ota_flash_write dev offset data len h = Some (0, h') \<longrightarrow>
       flash dev h' (SECONDARY_SLOT_ADDR + offset) = data ! 0) \<and>
    (\<exists>rc h1. ota_flash_write dev offset data len h = Some (rc, ota_flash_close dev h1))"
proof (intro conjI allI impI)
  let ?addr = "SECONDARY_SLOT_ADDR + idx * FLASH_SECTOR_SIZE"
  have u: "unat ?addr = (unat idx - 0xF7F40) * 4096"
  proof -
    have "0x080C0000 + unat idx * 4096 = (unat idx - 0xF7F40) * 4096 + 2 ^ 32" using assms(2) by simp
    then have "unat ?addr = ((unat idx - 0xF7F40) * 4096 + 2 ^ 32) mod 2 ^ 32" by (simp only: sector_of_index [OF assms(3)])
    also have "\<dots> = (unat idx - 0xF7F40) * 4096 mod 2 ^ 32" by (rule mod_add_self2)
    also have "\<dots> = (unat idx - 0xF7F40) * 4096" using assms(3) by (intro mod_less) simp
    finally show ?thesis .
  qed
  then have addr: "?addr = word_of_nat ((unat idx - 0xF7F40) * 4096)" by (metis of_nat_unat ucast_id)
  have "\<not> SECONDARY_SLOT_ADDR + SECONDARY_SLOT_SIZE \<le> ?addr"
    using u assms(3) by (simp add: word_le_nat_alt SECONDARY_SLOT_SIZE_def) (simp add: SECONDARY_SLOT_ADDR_def)
  with ota_flash_erase_cases [of dev idx h]
  show "\<exists>rc. ota_flash_erase_sector dev idx h = (rc, ota_flash_close dev (snd (fmc_sector_erase dev
       (word_of_nat ((unat idx - 0xF7F40) * 4096)) (fmc_clear_all_flags dev (fmc_unlock dev h)))))"
    unfolding addr by auto
next
  have low: "2 ^ 32 - 0xA0000 \<le> unat offset" using assms(4,7) by simp
  have high: "unat offset < 2 ^ 32" by (rule order_less_le_trans [OF unsigned_less]) simp
  have "0x080C0000 + unat offset = (0x080C0000 + unat offset - 2 ^ 32) + 2 ^ 32" using low by simp
  then have "unat (SECONDARY_SLOT_ADDR + offset) = ((0x080C0000 + unat offset - 2 ^ 32) + 2 ^ 32) mod 2 ^ 32"
    by (simp add: SECONDARY_SLOT_ADDR_def unat_word_ariths)
  also have "\<dots> = (0x080C0000 + unat offset - 2 ^ 32) mod 2 ^ 32" by (rule mod_add_self2)
  also have "\<dots> = 0x080C0000 + unat offset - 2 ^ 32" using high by (intro mod_less) simp
  finally show "\<not> slot_addr (SECONDARY_SLOT_ADDR + offset)" using high by (simp add: slot_bounds)
next
  fix h'
  assume "ota_flash_write dev offset data len h = Some (0, h')"
  from ota_flash_write_written [OF assms(1,8) this] assms(6,8)
  show "flash dev h' (SECONDARY_SLOT_ADDR + offset) = data ! 0" by (simp add: flash_written_def)
next
  have "unat (offset + len) = (unat offset + unat len) mod 2 ^ 32" by (simp add: unat_word_ariths)
  also have "\<dots> = (unat offset + unat len - 2 ^ 32) mod 2 ^ 32" by (rule le_mod_geq [OF assms(4)])
  also have "\<dots> = unat offset + unat len - 2 ^ 32" using assms(5) by (intro mod_less) simp
  finally have "unat (offset + len) = unat offset + unat len - 2 ^ 32" .
  then have "\<not> offset + len > SECONDARY_SLOT_SIZE"
    using assms(5) by (simp add: word_less_nat_alt SECONDARY_SLOT_SIZE_def)
  with ota_flash_write_total [OF assms(8), of dev offset h]
  show "\<exists>rc h1. ota_flash_write dev offset data len h = Some (rc, ota_flash_close dev h1)" by auto
qed

text \<open>Programmed flash on which the witness erases the sector before the slot.\<close>

theorem ota_range_checks_wrap_witness:
  "\<exists>rc. ota_flash_erase_sector sim_dev 0xFFFFF sim_erased = (rc, ota_flash_close sim_dev (snd (fmc_sector_erase sim_dev
       0x080BF000 (fmc_clear_all_flags sim_dev (fmc_unlock sim_dev sim_erased)))))"
proof -
  have h: "0xF7F40 \<le> unat (0xFFFFF :: u32)" "unat (0xFFFFF :: u32) < 2 ^ 20"
    "2 ^ 32 \<le> unat (0xFFFFFFFF :: u32) + unat (1 :: u32)" "unat (0xFFFFFFFF :: u32) + unat (1 :: u32) \<le> 2 ^ 32 + 0xA0000"
    "0 < unat (1 :: u32)" "unat (1 :: u32) \<le> 0xA0000" "unat (1 :: u32) \<le> length [5 :: u8]"
    by simp_all
  from ota_range_checks_wrap [OF sim_dev_hardware h, of sim_erased] show ?thesis by simp
qed

end
