(* ===== verification/ByteFifo.thy ===== *)
theory ByteFifo
  imports Prelude
begin

text \<open>
  The contract that the drivers and the update server rely on when they pass bytes from
  one context to another: a bounded first-in first-out queue of bytes. Two providers
  implement it, the ring buffer (a write is accepted whole or not at all) and the FreeRTOS
  stream buffer (a write is accepted as far as it fits). The ring's laws are a locale of
  conservation, extended by its policy, for lengths below \<open>2 ^ 16\<close>, the width of its length arguments; the stream's
  are a locale of exact results, because its calls may also fail to return.
\<close>

datatype fifo_op = Put "u8 list" | Get nat

definition fifo_op_small :: "fifo_op \<Rightarrow> bool" where
  "fifo_op_small op = (case op of Put bs \<Rightarrow> length bs < 65536 | Get n \<Rightarrow> n < 65536)"

text \<open>
  A run of operations, with the bytes the queue accepted, the bytes it delivered and the
  final queue.
\<close>

fun fifo_run ::
  "('q \<Rightarrow> u8 list \<Rightarrow> nat \<times> 'q) \<Rightarrow> ('q \<Rightarrow> nat \<Rightarrow> u8 list \<times> 'q) \<Rightarrow>
   'q \<Rightarrow> fifo_op list \<Rightarrow> u8 list \<times> u8 list \<times> 'q" where
  "fifo_run put get q [] = ([], [], q)"
| "fifo_run put get q (Put bs # ops) =
     (let (n, q') = put q bs; (acc, del, q'') = fifo_run put get q' ops
      in (take n bs @ acc, del, q''))"
| "fifo_run put get q (Get n # ops) =
     (let (bs, q') = get q n; (acc, del, q'') = fifo_run put get q' ops
      in (acc, bs @ del, q''))"

locale byte_fifo =
  fixes invar :: "'q \<Rightarrow> bool"
    and contents :: "'q \<Rightarrow> u8 list"
    and capacity :: "'q \<Rightarrow> nat"
    and put :: "'q \<Rightarrow> u8 list \<Rightarrow> nat \<times> 'q"
    and get :: "'q \<Rightarrow> nat \<Rightarrow> u8 list \<times> 'q"
  assumes contents_bound: "invar q \<Longrightarrow> length (contents q) \<le> capacity q"
    and put_invar: "invar q \<Longrightarrow> length bs < 65536 \<Longrightarrow> put q bs = (n, q') \<Longrightarrow> invar q'"
    and put_capacity: "invar q \<Longrightarrow> length bs < 65536 \<Longrightarrow> put q bs = (n, q') \<Longrightarrow> capacity q' = capacity q"
    and put_contents: "invar q \<Longrightarrow> length bs < 65536 \<Longrightarrow> put q bs = (n, q') \<Longrightarrow>
      contents q' = contents q @ take n bs"
    and get_invar: "invar q \<Longrightarrow> k < 65536 \<Longrightarrow> get q k = (bs, q') \<Longrightarrow> invar q'"
    and get_capacity: "invar q \<Longrightarrow> k < 65536 \<Longrightarrow> get q k = (bs, q') \<Longrightarrow> capacity q' = capacity q"
    and get_prefix: "invar q \<Longrightarrow> k < 65536 \<Longrightarrow> get q k = (bs, q') \<Longrightarrow> bs = take k (contents q)"
    and get_contents: "invar q \<Longrightarrow> k < 65536 \<Longrightarrow> get q k = (bs, q') \<Longrightarrow>
      contents q' = drop k (contents q)"
begin

lemma get_split:
  assumes "invar q" and "k < 65536" and "get q k = (bs, q')"
  shows "contents q = bs @ contents q'"
  using get_prefix [OF assms] get_contents [OF assms] by simp

text \<open>
  Nothing is lost, duplicated or reordered: over any run, what was delivered and what is
  still queued is what was queued at the start followed by what was accepted.
\<close>

lemma run_conserves:
  assumes "invar q" and "\<forall>op\<in>set ops. fifo_op_small op"
    and "fifo_run put get q ops = (acc, del, q')"
  shows "invar q' \<and> capacity q' = capacity q \<and> contents q @ acc = del @ contents q'"
  using assms
proof (induction ops arbitrary: q acc del q')
  case Nil
  then show ?case by simp
next
  case (Cons op ops)
  show ?case
  proof (cases op)
    case (Put bs)
    obtain n q1 where p: "put q bs = (n, q1)" by fastforce
    obtain acc1 del1 q2 where r: "fifo_run put get q1 ops = (acc1, del1, q2)"
      by (metis prod_cases3)
    have small: "length bs < 65536" using Cons.prems(2) Put by (simp add: fifo_op_small_def)
    have "invar q2 \<and> capacity q2 = capacity q1 \<and> contents q1 @ acc1 = del1 @ contents q2"
      using Cons.IH [OF put_invar [OF Cons.prems(1) small p] _ r] Cons.prems(2) by simp
    then show ?thesis
      using Cons.prems(1,3) Put p r small put_contents put_capacity by auto
  next
    case (Get n)
    obtain bs q1 where g: "get q n = (bs, q1)" by fastforce
    obtain acc1 del1 q2 where r: "fifo_run put get q1 ops = (acc1, del1, q2)"
      by (metis prod_cases3)
    have small: "n < 65536" using Cons.prems(2) Get by (simp add: fifo_op_small_def)
    have "invar q2 \<and> capacity q2 = capacity q1 \<and> contents q1 @ acc1 = del1 @ contents q2"
      using Cons.IH [OF get_invar [OF Cons.prems(1) small g] _ r] Cons.prems(2) by simp
    then show ?thesis
      using Cons.prems(1,3) Get g r small get_split get_capacity by auto
  qed
qed

lemma run_delivers_in_order:
  assumes "invar q" and "contents q = []" and "\<forall>op\<in>set ops. fifo_op_small op"
    and "fifo_run put get q ops = (acc, del, q')"
  shows "del = take (length del) acc"
  using run_conserves [OF assms(1,3,4)] assms(2) by simp

end

text \<open>The ring buffer's policy: a block is accepted whole or not at all.\<close>

locale atomic_fifo = byte_fifo +
  assumes put_fits: "invar q \<Longrightarrow> length (contents q) + length bs \<le> capacity q \<Longrightarrow> bs \<noteq> [] \<Longrightarrow>
      length bs < 65536 \<Longrightarrow> fst (put q bs) = length bs"
    and put_full: "invar q \<Longrightarrow> capacity q < length (contents q) + length bs \<Longrightarrow>
      length bs < 65536 \<Longrightarrow> fst (put q bs) = 0"
begin

text \<open>
  A client that only ever writes and reads records of one length always finds whole
  records: the queue holds a concatenation of them, and a read of one record length
  returns the oldest record or nothing.
\<close>

lemma put_record:
  assumes "invar q" and "contents q = concat recs" and "length r = k" and "0 < k" and "k < 65536"
    and "put q r = (n, q')"
  shows "(n = k \<and> contents q' = concat (recs @ [r])) \<or> (n = 0 \<and> contents q' = concat recs)"
proof (cases "length (contents q) + length r \<le> capacity q")
  case True
  then have "n = k"
    using put_fits [of q r] assms by auto
  then show ?thesis
    using put_contents [of q r n q'] assms by simp
next
  case False
  then have "n = 0"
    using put_full [of q r] assms by simp
  then show ?thesis
    using put_contents [of q r n q'] assms by simp
qed

lemma get_record:
  assumes "invar q" and "contents q = concat recs" and "\<forall>r\<in>set recs. length r = k"
    and "k < 65536" and "get q k = (bs, q')"
  shows "(recs = [] \<and> bs = [] \<and> contents q' = []) \<or>
    (\<exists>r recs'. recs = r # recs' \<and> bs = r \<and> contents q' = concat recs')"
proof (cases recs)
  case Nil
  then show ?thesis
    using get_prefix [OF assms(1,4,5)] get_contents [OF assms(1,4,5)] assms(2) by simp
next
  case (Cons r recs')
  then show ?thesis
    using get_prefix [OF assms(1,4,5)] get_contents [OF assms(1,4,5)] assms(2,3) by simp
qed

end

text \<open>
  The stream buffer's policy: a block is accepted as far as there is room. Its calls may fail to
  return, so that they return is a law of its own, and what they return is fixed exactly: the
  results are those of a list of bytes of bounded length.
\<close>

datatype fifo_result = Accepted nat | Delivered "u8 list"

definition fifo_op_below :: "nat \<Rightarrow> fifo_op \<Rightarrow> bool" where
  "fifo_op_below m op = (case op of Put bs \<Rightarrow> length bs < m | Get n \<Rightarrow> n < m)"

fun fifo_calls ::
  "('q \<Rightarrow> u8 list \<Rightarrow> (nat \<times> 'q) option) \<Rightarrow> ('q \<Rightarrow> nat \<Rightarrow> (u8 list \<times> 'q) option) \<Rightarrow>
   'q \<Rightarrow> fifo_op list \<Rightarrow> (fifo_result list \<times> 'q) option" where
  "fifo_calls put get q [] = Some ([], q)"
| "fifo_calls put get q (Put bs # ops) =
     (case put q bs of
        None \<Rightarrow> None
      | Some (n, q1) \<Rightarrow> (case fifo_calls put get q1 ops of None \<Rightarrow> None | Some (rs, q2) \<Rightarrow> Some (Accepted n # rs, q2)))"
| "fifo_calls put get q (Get n # ops) =
     (case get q n of
        None \<Rightarrow> None
      | Some (bs, q1) \<Rightarrow> (case fifo_calls put get q1 ops of None \<Rightarrow> None | Some (rs, q2) \<Rightarrow> Some (Delivered bs # rs, q2)))"

text \<open>The specification: a list of at most \<open>c\<close> bytes.\<close>

fun bounded_run :: "nat \<Rightarrow> u8 list \<Rightarrow> fifo_op list \<Rightarrow> fifo_result list \<times> u8 list" where
  "bounded_run c q [] = ([], q)"
| "bounded_run c q (Put bs # ops) =
     (let n = min (length bs) (c - length q); (rs, q') = bounded_run c (q @ take n bs) ops in (Accepted n # rs, q'))"
| "bounded_run c q (Get n # ops) = (let (rs, q') = bounded_run c (drop n q) ops in (Delivered (take n q) # rs, q'))"

locale stream_fifo =
  fixes invar :: "'q \<Rightarrow> bool"
    and contents :: "'q \<Rightarrow> u8 list"
    and capacity :: "'q \<Rightarrow> nat"
    and limit :: nat
    and put :: "'q \<Rightarrow> u8 list \<Rightarrow> (nat \<times> 'q) option"
    and get :: "'q \<Rightarrow> nat \<Rightarrow> (u8 list \<times> 'q) option"
  assumes put_returns: "invar q \<Longrightarrow> length bs < limit \<Longrightarrow> n = min (length bs) (capacity q - length (contents q)) \<Longrightarrow>
      \<exists>q'. put q bs = Some (n, q') \<and> invar q' \<and> capacity q' = capacity q \<and> contents q' = contents q @ take n bs"
    and get_returns: "invar q \<Longrightarrow> k < limit \<Longrightarrow>
      \<exists>q'. get q k = Some (take k (contents q), q') \<and> invar q' \<and> capacity q' = capacity q \<and> contents q' = drop k (contents q)"
begin

text \<open>Every run returns, with the results of the bounded list.\<close>

lemma calls_refine:
  assumes "invar q" and "\<forall>op\<in>set ops. fifo_op_below limit op"
  shows "\<exists>q'. fifo_calls put get q ops = Some (fst (bounded_run (capacity q) (contents q) ops), q') \<and> invar q' \<and>
    capacity q' = capacity q \<and> contents q' = snd (bounded_run (capacity q) (contents q) ops)"
  using assms
proof (induction ops arbitrary: q)
  case Nil
  then show ?case by simp
next
  case (Cons op ops)
  show ?case
  proof (cases op)
    case (Put bs)
    obtain q1 where p: "put q bs = Some (min (length bs) (capacity q - length (contents q)), q1)" and q1: "invar q1" "capacity q1 = capacity q"
      "contents q1 = contents q @ take (min (length bs) (capacity q - length (contents q))) bs"
      using put_returns [OF Cons.prems(1) _ refl, of bs] Cons.prems(2) Put by (auto simp: fifo_op_below_def)
    from Cons.IH [OF q1(1)] Cons.prems(2) obtain q2 where
      "fifo_calls put get q1 ops = Some (fst (bounded_run (capacity q1) (contents q1) ops), q2)" "invar q2" "capacity q2 = capacity q1"
      "contents q2 = snd (bounded_run (capacity q1) (contents q1) ops)" by auto
    with p q1 show ?thesis by (simp add: Put Let_def split_beta)
  next
    case (Get k)
    obtain q1 where g: "get q k = Some (take k (contents q), q1)" and q1: "invar q1" "capacity q1 = capacity q" "contents q1 = drop k (contents q)"
      using get_returns [OF Cons.prems(1), of k] Cons.prems(2) Get by (auto simp: fifo_op_below_def)
    from Cons.IH [OF q1(1)] Cons.prems(2) obtain q2 where
      "fifo_calls put get q1 ops = Some (fst (bounded_run (capacity q1) (contents q1) ops), q2)" "invar q2" "capacity q2 = capacity q1"
      "contents q2 = snd (bounded_run (capacity q1) (contents q1) ops)" by auto
    with g q1 show ?thesis by (simp add: Get split_beta)
  qed
qed

end

end
