(* ===== verification/StreamBuffer.thy ===== *)
theory StreamBuffer
  imports ByteFifo
begin

text \<open>
  The stream and message buffers of FreeRTOS, \<^verbatim>\<open>src/FreeRtos/kernel/stream_buffer.c\<close>, through
  which the network callbacks hand received bytes to the update task. Sizes and indices are
  32-bit words. A call that trips a \<open>configASSERT\<close> does not return: \<open>None\<close>, as is a block
  shorter than announced. What other tasks do to the buffer while a caller is blocked is a
  parameter: the state in which it wakes up.
\<close>

section \<open>Definitions\<close>

record StreamBuffer_t =
  xTail :: u32
  xHead :: u32
  xLength :: u32
  xTriggerLevelBytes :: u32
  xTaskWaitingToReceive :: "nat option"
  xTaskWaitingToSend :: "nat option"
  pucBuffer :: "u8 list"
  ucFlags :: u8

definition sbFLAGS_IS_MESSAGE_BUFFER :: u8 where "sbFLAGS_IS_MESSAGE_BUFFER = 1"
definition sbFLAGS_IS_BATCHING_BUFFER :: u8 where "sbFLAGS_IS_BATCHING_BUFFER = 4"
definition sbBYTES_TO_STORE_MESSAGE_LENGTH :: u32 where "sbBYTES_TO_STORE_MESSAGE_LENGTH = 4"

definition is_message_buffer :: "StreamBuffer_t \<Rightarrow> bool" where
  "is_message_buffer sb \<longleftrightarrow> ucFlags sb AND sbFLAGS_IS_MESSAGE_BUFFER \<noteq> 0"

definition prvBytesInBuffer :: "StreamBuffer_t \<Rightarrow> u32" where
  "prvBytesInBuffer sb =
     (let xCount = xLength sb + xHead sb - xTail sb
      in if xCount \<ge> xLength sb then xCount - xLength sb else xCount)"

definition xStreamBufferSpacesAvailable :: "StreamBuffer_t \<Rightarrow> u32" where
  "xStreamBufferSpacesAvailable sb =
     (let xSpace = xLength sb + xTail sb - xHead sb - 1
      in if xSpace \<ge> xLength sb then xSpace - xLength sb else xSpace)"

definition xStreamBufferBytesAvailable :: "StreamBuffer_t \<Rightarrow> u32" where
  "xStreamBufferBytesAvailable sb = prvBytesInBuffer sb"

definition xStreamBufferIsEmpty :: "StreamBuffer_t \<Rightarrow> bool" where
  "xStreamBufferIsEmpty sb \<longleftrightarrow> xHead sb = xTail sb"

definition xStreamBufferIsFull :: "StreamBuffer_t \<Rightarrow> bool" where
  "xStreamBufferIsFull sb \<longleftrightarrow>
     xStreamBufferSpacesAvailable sb \<le> (if is_message_buffer sb then sbBYTES_TO_STORE_MESSAGE_LENGTH else 0)"

definition xStreamBufferSetTriggerLevel :: "StreamBuffer_t \<Rightarrow> u32 \<Rightarrow> bool \<times> StreamBuffer_t" where
  "xStreamBufferSetTriggerLevel sb xTriggerLevel =
     (let level = (if xTriggerLevel = 0 then 1 else xTriggerLevel)
      in if level < xLength sb then (True, sb\<lparr>xTriggerLevelBytes := level\<rparr>) else (False, sb))"

definition prvWriteBytesToBuffer :: "StreamBuffer_t \<Rightarrow> u8 list \<Rightarrow> u32 \<Rightarrow> u32 \<Rightarrow> (u32 \<times> StreamBuffer_t) option" where
  "prvWriteBytesToBuffer sb pucData xCount head =
     (let xFirstLength = min (xLength sb - head) xCount
      in if \<not> xCount > 0 \<or> \<not> head + xFirstLength \<le> xLength sb \<or> length pucData < unat xCount then None
         else (let buf1 = store_at (unat head) (take (unat xFirstLength) pucData) (pucBuffer sb);
                   rest = xCount - xFirstLength;
                   newhead = (if head + xCount \<ge> xLength sb then head + xCount - xLength sb else head + xCount)
               in if xCount > xFirstLength
                  then (if \<not> rest \<le> xLength sb then None
                        else Some (newhead, sb\<lparr>pucBuffer :=
                          store_at 0 (take (unat rest) (drop (unat xFirstLength) pucData)) buf1\<rparr>))
                  else Some (newhead, sb\<lparr>pucBuffer := buf1\<rparr>)))"

definition prvReadBytesFromBuffer :: "StreamBuffer_t \<Rightarrow> u32 \<Rightarrow> u32 \<Rightarrow> (u8 list \<times> u32) option" where
  "prvReadBytesFromBuffer sb xCount tail =
     (let xFirstLength = min (xLength sb - tail) xCount
      in if \<not> xCount \<noteq> 0 \<or> \<not> xFirstLength \<le> xCount \<or> \<not> tail + xFirstLength \<le> xLength sb then None
         else (let first = seg (unat tail) (unat xFirstLength) (pucBuffer sb);
                   pucData = (if xCount > xFirstLength then first @ take (unat (xCount - xFirstLength)) (pucBuffer sb)
                              else first);
                   newtail = (if tail + xCount \<ge> xLength sb then tail + xCount - xLength sb else tail + xCount)
               in Some (pucData, newtail)))"

definition prvWriteMessageToBuffer ::
  "StreamBuffer_t \<Rightarrow> u8 list \<Rightarrow> u32 \<Rightarrow> u32 \<Rightarrow> u32 \<Rightarrow> (u32 \<times> StreamBuffer_t) option" where
  "prvWriteMessageToBuffer sb pvTxData xDataLengthBytes xSpace xRequiredSpace =
     (if is_message_buffer sb
      then (if xSpace \<ge> xRequiredSpace
            then (case prvWriteBytesToBuffer sb (le_bytes 4 xDataLengthBytes) sbBYTES_TO_STORE_MESSAGE_LENGTH (xHead sb) of
                None \<Rightarrow> None
              | Some (xNextHead, sb1) \<Rightarrow>
                  if xDataLengthBytes \<noteq> 0
                  then (case prvWriteBytesToBuffer sb1 pvTxData xDataLengthBytes xNextHead of
                      None \<Rightarrow> None
                    | Some (h, sb2) \<Rightarrow> Some (xDataLengthBytes, sb2\<lparr>xHead := h\<rparr>))
                  else Some (0, sb1))
            else Some (0, sb))
      else (let n = min xDataLengthBytes xSpace
            in if n \<noteq> 0
               then (case prvWriteBytesToBuffer sb pvTxData n (xHead sb) of
                   None \<Rightarrow> None
                 | Some (h, sb1) \<Rightarrow> Some (n, sb1\<lparr>xHead := h\<rparr>))
               else Some (0, sb)))"

definition prvReadMessageFromBuffer ::
  "StreamBuffer_t \<Rightarrow> u32 \<Rightarrow> u32 \<Rightarrow> (u8 list \<times> StreamBuffer_t) option" where
  "prvReadMessageFromBuffer sb xBufferLengthBytes xBytesAvailable =
     (case (if is_message_buffer sb
            then (case prvReadBytesFromBuffer sb sbBYTES_TO_STORE_MESSAGE_LENGTH (xTail sb) of
                None \<Rightarrow> None
              | Some (bs, xNextTail) \<Rightarrow>
                  (let xNextMessageLength = le_word bs
                   in Some (if xNextMessageLength > xBufferLengthBytes then 0 else xNextMessageLength,
                        xBytesAvailable - sbBYTES_TO_STORE_MESSAGE_LENGTH, xNextTail)))
            else Some (xBufferLengthBytes, xBytesAvailable, xTail sb)) of
        None \<Rightarrow> None
      | Some (xNextMessageLength, avail, xNextTail) \<Rightarrow>
          (let xCount = min xNextMessageLength avail
           in if xCount \<noteq> 0
              then (case prvReadBytesFromBuffer sb xCount xNextTail of
                  None \<Rightarrow> None
                | Some (bs, t) \<Rightarrow> Some (bs, sb\<lparr>xTail := t\<rparr>))
              else Some ([], sb)))"

text \<open>Waking the task that waits for data, or for space: the notification itself is the kernel's.\<close>

definition sbSEND_COMPLETED :: "StreamBuffer_t \<Rightarrow> StreamBuffer_t" where
  "sbSEND_COMPLETED sb = (if xTaskWaitingToReceive sb \<noteq> None then sb\<lparr>xTaskWaitingToReceive := None\<rparr> else sb)"

definition sbRECEIVE_COMPLETED :: "StreamBuffer_t \<Rightarrow> StreamBuffer_t" where
  "sbRECEIVE_COMPLETED sb = (if xTaskWaitingToSend sb \<noteq> None then sb\<lparr>xTaskWaitingToSend := None\<rparr> else sb)"

text \<open>
  The wait for space, with one state change per wake-up; the last wake-up is the time-out, and a
  wait without a time-out that is never given the space does not return: \<open>None\<close>. The
  space reported is the one of the last look at the buffer.
\<close>

fun send_wait ::
  "bool \<Rightarrow> nat \<Rightarrow> u32 \<Rightarrow> (StreamBuffer_t \<Rightarrow> StreamBuffer_t) list \<Rightarrow> u32 \<Rightarrow> StreamBuffer_t \<Rightarrow> (u32 \<times> StreamBuffer_t) option" where
  "send_wait forever task xRequiredSpace [] xSpace sb =
     (if forever \<and> xStreamBufferSpacesAvailable sb < xRequiredSpace then None else Some (xSpace, sb))"
| "send_wait forever task xRequiredSpace (wake # wakes) xSpace sb =
     (let xSpace = xStreamBufferSpacesAvailable sb
      in if xSpace < xRequiredSpace
         then (if xTaskWaitingToSend sb \<noteq> None then None
               else send_wait forever task xRequiredSpace wakes xSpace
                 ((wake (sb\<lparr>xTaskWaitingToSend := Some task\<rparr>))\<lparr>xTaskWaitingToSend := None\<rparr>))
         else Some (xSpace, sb))"

definition xStreamBufferSend ::
  "nat \<Rightarrow> (StreamBuffer_t \<Rightarrow> StreamBuffer_t) list \<Rightarrow> StreamBuffer_t \<Rightarrow> u8 list \<Rightarrow> u32 \<Rightarrow> u32 \<Rightarrow> (u32 \<times> StreamBuffer_t) option" where
  "xStreamBufferSend task wakes sb pvTxData xDataLengthBytes xTicksToWait =
     (let xMaxReportedSpace = xLength sb - 1;
          message = is_message_buffer sb;
          need = xDataLengthBytes + sbBYTES_TO_STORE_MESSAGE_LENGTH;
          xRequiredSpace = (if message then need
                            else if xDataLengthBytes > xMaxReportedSpace then xMaxReportedSpace else xDataLengthBytes);
          ticks = (if message \<and> need > xMaxReportedSpace then 0 else xTicksToWait)
      in if message \<and> \<not> need > xDataLengthBytes then None
         else (case (if ticks \<noteq> 0 then send_wait (ticks = portMAX_DELAY) task xRequiredSpace wakes 0 sb else Some (0, sb)) of
             None \<Rightarrow> None
           | Some (xSpace0, sb1) \<Rightarrow>
               (let xSpace = (if xSpace0 = 0 then xStreamBufferSpacesAvailable sb1 else xSpace0)
                in case prvWriteMessageToBuffer sb1 pvTxData xDataLengthBytes xSpace xRequiredSpace of
                     None \<Rightarrow> None
                   | Some (xReturn, sb2) \<Rightarrow>
                       if xReturn > 0 \<and> prvBytesInBuffer sb2 \<ge> xTriggerLevelBytes sb2
                       then Some (xReturn, sbSEND_COMPLETED sb2) else Some (xReturn, sb2))))"

text \<open>
  The read: \<open>wake\<close> is what other tasks do to the buffer while the caller waits. The wait ends when a
  sender notifies the caller, which clears \<^verbatim>\<open>xTaskWaitingToReceive\<close>, or with the time-out; with
  \<open>portMAX_DELAY\<close> there is no time-out, and a caller that nobody has notified is still blocked.
\<close>

datatype sb_receive = Received "u8 list" StreamBuffer_t | Blocked StreamBuffer_t

definition xStreamBufferReceive ::
  "nat \<Rightarrow> (StreamBuffer_t \<Rightarrow> StreamBuffer_t) \<Rightarrow> StreamBuffer_t \<Rightarrow> u32 \<Rightarrow> u32 \<Rightarrow> sb_receive option" where
  "xStreamBufferReceive task wake sb xBufferLengthBytes xTicksToWait =
     (let overhead = (if is_message_buffer sb then sbBYTES_TO_STORE_MESSAGE_LENGTH
                      else if ucFlags sb AND sbFLAGS_IS_BATCHING_BUFFER \<noteq> 0 then xTriggerLevelBytes sb else 0);
          waits = (xTicksToWait \<noteq> 0 \<and> prvBytesInBuffer sb \<le> overhead);
          woken = wake (sb\<lparr>xTaskWaitingToReceive := Some task\<rparr>)
      in if waits \<and> xTaskWaitingToReceive sb \<noteq> None then None
         else if waits \<and> xTicksToWait = portMAX_DELAY \<and> xTaskWaitingToReceive woken \<noteq> None then Some (Blocked woken)
         else (let sb1 = (if waits then woken\<lparr>xTaskWaitingToReceive := None\<rparr> else sb);
                   xBytesAvailable = prvBytesInBuffer sb1
               in if xBytesAvailable > overhead
                  then (case prvReadMessageFromBuffer sb1 xBufferLengthBytes xBytesAvailable of
                      None \<Rightarrow> None
                    | Some (bs, sb2) \<Rightarrow> Some (Received bs (if bs \<noteq> [] then sbRECEIVE_COMPLETED sb2 else sb2)))
                  else Some (Received [] sb1)))"

definition prvInitialiseNewStreamBuffer :: "u8 list \<Rightarrow> u32 \<Rightarrow> u32 \<Rightarrow> u8 \<Rightarrow> StreamBuffer_t" where
  "prvInitialiseNewStreamBuffer buf xBufferSizeBytes trigger flags =
     \<lparr>xTail = 0, xHead = 0, xLength = xBufferSizeBytes, xTriggerLevelBytes = trigger,
      xTaskWaitingToReceive = None, xTaskWaitingToSend = None,
      pucBuffer = store_at 0 (replicate (unat xBufferSizeBytes) 0x55) buf, ucFlags = flags\<rparr>"

definition xStreamBufferReset :: "StreamBuffer_t \<Rightarrow> bool \<times> StreamBuffer_t" where
  "xStreamBufferReset sb =
     (if xTaskWaitingToReceive sb = None \<and> xTaskWaitingToSend sb = None
      then (True, prvInitialiseNewStreamBuffer (pucBuffer sb) (xLength sb) (xTriggerLevelBytes sb) (ucFlags sb))
      else (False, sb))"

text \<open>
  Creation. The allocator is a parameter, from a size to a block of that size or \<open>None\<close>, and
  so is the size of the control structure.
\<close>

datatype sb_type = sbTYPE_STREAM_BUFFER | sbTYPE_MESSAGE_BUFFER | sbTYPE_STREAM_BATCHING_BUFFER

definition xStreamBufferGenericCreate ::
  "u32 \<Rightarrow> (u32 \<Rightarrow> u8 list option) \<Rightarrow> u32 \<Rightarrow> u32 \<Rightarrow> sb_type \<Rightarrow> StreamBuffer_t option option" where
  "xStreamBufferGenericCreate sizeof_StreamBuffer_t pvPortMalloc xBufferSizeBytes trigger xStreamBufferType =
     (let flags = (case xStreamBufferType of sbTYPE_MESSAGE_BUFFER \<Rightarrow> sbFLAGS_IS_MESSAGE_BUFFER
                   | sbTYPE_STREAM_BATCHING_BUFFER \<Rightarrow> sbFLAGS_IS_BATCHING_BUFFER | sbTYPE_STREAM_BUFFER \<Rightarrow> 0);
          minsize = (case xStreamBufferType of sbTYPE_MESSAGE_BUFFER \<Rightarrow> sbBYTES_TO_STORE_MESSAGE_LENGTH | _ \<Rightarrow> 0)
      in if \<not> xBufferSizeBytes > minsize \<or> \<not> trigger \<le> xBufferSizeBytes then None
         else (let level = (if trigger = 0 then 1 else trigger)
               in if xBufferSizeBytes < xBufferSizeBytes + 1 + sizeof_StreamBuffer_t
                  then Some (case pvPortMalloc (xBufferSizeBytes + 1 + sizeof_StreamBuffer_t) of
                      None \<Rightarrow> None
                    | Some block \<Rightarrow> Some (prvInitialiseNewStreamBuffer (drop (unat sizeof_StreamBuffer_t) block)
                        (xBufferSizeBytes + 1) level flags))
                  else Some None))"

definition xStreamBufferNextMessageLengthBytes :: "StreamBuffer_t \<Rightarrow> u32 option" where
  "xStreamBufferNextMessageLengthBytes sb =
     (if is_message_buffer sb
      then (if prvBytesInBuffer sb > sbBYTES_TO_STORE_MESSAGE_LENGTH
            then (case prvReadBytesFromBuffer sb sbBYTES_TO_STORE_MESSAGE_LENGTH (xTail sb) of
                None \<Rightarrow> None | Some (bs, _) \<Rightarrow> Some (le_word bs))
            else if prvBytesInBuffer sb = 0 then Some 0 else None)
      else Some 0)"

section \<open>Invariant and content\<close>

definition sb_wf :: "StreamBuffer_t \<Rightarrow> bool" where
  "sb_wf sb \<longleftrightarrow> length (pucBuffer sb) = unat (xLength sb) \<and> xHead sb < xLength sb \<and> xTail sb < xLength sb \<and>
     unat (xLength sb) \<le> 2 ^ 31"

definition sb_count :: "StreamBuffer_t \<Rightarrow> nat" where
  "sb_count sb = ring_dist (unat (xLength sb)) (unat (xTail sb)) (unat (xHead sb))"

definition sb_contents :: "StreamBuffer_t \<Rightarrow> u8 list" where
  "sb_contents sb = ring_slice (unat (xLength sb)) (pucBuffer sb) (unat (xTail sb)) (sb_count sb)"

lemma sb_wf_nat:
  assumes "sb_wf sb"
  shows "unat (xHead sb) < unat (xLength sb)" "unat (xTail sb) < unat (xLength sb)" "unat (xLength sb) \<le> 2 ^ 31"
    "length (pucBuffer sb) = unat (xLength sb)"
  using assms by (simp_all add: sb_wf_def word_less_nat_alt)

text \<open>Distances on the circle in word arithmetic: no sum of a length and an index overflows.\<close>

lemma word_ring_dist:
  fixes n h t :: u32
  assumes "unat h < unat n" and "unat t < unat n" and "unat n \<le> 2 ^ 31"
  shows "unat (if n + h - t \<ge> n then n + h - t - n else n + h - t) = ring_dist (unat n) (unat t) (unat h)"
proof -
  have s: "unat (n + h) = unat n + unat h" using assms by (intro unat_add_small) simp
  have d: "unat (n + h - t) = unat n + unat h - unat t"
    using assms s by (subst unat_diff_le) (simp_all add: word_le_nat_alt)
  show ?thesis
  proof (cases "unat t \<le> unat h")
    case True
    then have "n \<le> n + h - t" using d by (simp add: word_le_nat_alt)
    moreover from this have "unat (n + h - t - n) = unat (n + h - t) - unat n" by (rule unat_diff_le)
    ultimately show ?thesis using True d by (simp add: ring_dist_def)
  next
    case False
    then have "\<not> n \<le> n + h - t" using d assms by (simp add: word_le_nat_alt)
    then show ?thesis using False d assms by (simp add: ring_dist_def)
  qed
qed

lemma prvBytesInBuffer_count: "sb_wf sb \<Longrightarrow> unat (prvBytesInBuffer sb) = sb_count sb"
  using word_ring_dist [of "xHead sb" "xLength sb" "xTail sb"] sb_wf_nat [of sb]
  by (simp only: prvBytesInBuffer_def Let_def sb_count_def)

lemma sb_count_less: "sb_wf sb \<Longrightarrow> sb_count sb < unat (xLength sb)"
  using sb_wf_nat [of sb] by (simp add: sb_count_def ring_dist_less)

lemma xStreamBufferSpacesAvailable_free:
  assumes "sb_wf sb"
  shows "unat (xStreamBufferSpacesAvailable sb) = unat (xLength sb) - 1 - sb_count sb"
proof -
  let ?n = "xLength sb" and ?h = "xHead sb" and ?t = "xTail sb"
  note w = sb_wf_nat [OF assms]
  have s: "unat (?n + ?t) = unat ?n + unat ?t" using w by (intro unat_add_small) simp
  have d: "unat (?n + ?t - ?h) = unat ?n + unat ?t - unat ?h"
    using w s by (subst unat_diff_le) (simp_all add: word_le_nat_alt)
  have e: "unat (?n + ?t - ?h - 1) = unat ?n + unat ?t - unat ?h - 1"
    using w d by (subst unat_diff_le) (simp_all add: word_le_nat_alt)
  show ?thesis
  proof (cases "unat ?n + unat ?t - unat ?h - 1 \<ge> unat ?n")
    case True
    then have "?n \<le> ?n + ?t - ?h - 1" using e by (simp add: word_le_nat_alt)
    moreover from this have "unat (?n + ?t - ?h - 1 - ?n) = unat (?n + ?t - ?h - 1) - unat ?n" by (rule unat_diff_le)
    ultimately show ?thesis
      using True e w unfolding xStreamBufferSpacesAvailable_def Let_def by (simp add: sb_count_def ring_dist_def)
  next
    case False
    then have "\<not> ?n \<le> ?n + ?t - ?h - 1" using e by (simp add: word_le_nat_alt)
    then show ?thesis
      using False e w unfolding xStreamBufferSpacesAvailable_def Let_def by (simp add: sb_count_def ring_dist_def)
  qed
qed

text \<open>Advancing an index by a count that is at most the length.\<close>

lemma word_advance:
  fixes n i c :: u32
  assumes "unat i < unat n" and "unat c \<le> unat n" and "unat n \<le> 2 ^ 31"
  shows "unat (if i + c \<ge> n then i + c - n else i + c) = (unat i + unat c) mod unat n"
proof -
  have s: "unat (i + c) = unat i + unat c" using assms by (intro unat_add_small) simp
  have "unat (i + c - n) = unat i + unat c - unat n" if "n \<le> i + c" using unat_diff_le [OF that] s by simp
  then show ?thesis using s assms by (simp add: word_le_nat_alt ring_advance)
qed

section \<open>Copying in and out\<close>

text \<open>The array after a circular write: the cell at circular distance \<open>k\<close> from the head holds byte \<open>k\<close>.\<close>

definition circ_written :: "nat \<Rightarrow> nat \<Rightarrow> u8 list \<Rightarrow> u8 list \<Rightarrow> u8 list \<Rightarrow> bool" where
  "circ_written n h xs buf buf' \<longleftrightarrow> length buf' = n \<and>
     (\<forall>i<n. buf' ! i = (if ring_dist n h i < length xs then xs ! ring_dist n h i else buf ! i))"

lemma circ_written_two_parts:
  assumes "length buf = n" and "h < n" and "length xs \<le> n"
  shows "circ_written n h xs buf
    (store_at 0 (drop (n - h) xs) (store_at h (take (n - h) xs) buf))"
  unfolding circ_written_def
proof (intro conjI allI impI)
  have l1: "length (store_at h (take (n - h) xs) buf) = n" using assms by simp
  have fits0: "0 + length (drop (n - h) xs) \<le> n" using assms by simp
  show "length (store_at 0 (drop (n - h) xs) (store_at h (take (n - h) xs) buf)) = n"
    using l1 fits0 by simp
  fix i
  assume i: "i < n"
  have "store_at 0 (drop (n - h) xs) (store_at h (take (n - h) xs) buf) ! i =
      (if i < length xs - (n - h) then drop (n - h) xs ! i
       else if h \<le> i \<and> i < h + min (n - h) (length xs) then take (n - h) xs ! (i - h) else buf ! i)"
    using assms i l1 fits0 by (simp add: nth_store_at min.commute)
  also have "\<dots> = (if ring_dist n h i < length xs then xs ! ring_dist n h i else buf ! i)"
    using assms i by (auto simp: ring_dist_def min_def intro!: arg_cong [of _ _ "nth xs"])
  finally show "store_at 0 (drop (n - h) xs) (store_at h (take (n - h) xs) buf) ! i =
    (if ring_dist n h i < length xs then xs ! ring_dist n h i else buf ! i)" .
qed

lemma prvWriteBytesToBuffer_circ:
  assumes len: "length (pucBuffer sb) = unat (xLength sb)" and h: "unat h < unat (xLength sb)" and n: "unat (xLength sb) \<le> 2 ^ 31"
    and c: "0 < unat c" "unat c \<le> unat (xLength sb)" and data: "unat c \<le> length data"
  shows "\<exists>buf' h'. prvWriteBytesToBuffer sb data c h = Some (h', sb\<lparr>pucBuffer := buf'\<rparr>) \<and>
    unat h' = (unat h + unat c) mod unat (xLength sb) \<and>
    circ_written (unat (xLength sb)) (unat h) (take (unat c) data) (pucBuffer sb) buf'"
proof -
  let ?n = "xLength sb" and ?xs = "take (unat c) data"
  let ?h' = "if h + c \<ge> ?n then h + c - ?n else h + c"
  have room: "unat (?n - h) = unat ?n - unat h" using h by (intro unat_diff_le) (simp add: word_le_nat_alt)
  have first: "unat (min (?n - h) c) = min (unat ?n - unat h) (unat c)"
    using room by (simp add: min_def word_le_nat_alt)
  have sum: "unat (h + min (?n - h) c) = unat h + min (unat ?n - unat h) (unat c)"
    using first h n by (subst unat_add_small) simp_all
  have adv: "unat ?h' = (unat h + unat c) mod unat ?n" by (rule word_advance [OF h c(2) n])
  have pos: "c > 0" using c(1) by (simp add: word_less_nat_alt)
  have fit: "h + min (?n - h) c \<le> ?n" using sum h by (simp add: word_le_nat_alt)
  have circ: "circ_written (unat ?n) (unat h) ?xs (pucBuffer sb)
      (store_at 0 (drop (unat ?n - unat h) ?xs) (store_at (unat h) (take (unat ?n - unat h) ?xs) (pucBuffer sb)))"
    using len h c(2) data by (intro circ_written_two_parts) simp_all
  have take1: "take (unat ?n - unat h) ?xs = take (unat (min (?n - h) c)) data"
    using first by (simp add: min.commute)
  show ?thesis
  proof (cases "c > min (?n - h) c")
    case False
    then have "unat c \<le> unat ?n - unat h" using first by (simp add: word_less_nat_alt)
    then have "drop (unat ?n - unat h) ?xs = []" by simp
    with circ have "circ_written (unat ?n) (unat h) ?xs (pucBuffer sb)
        (store_at (unat h) (take (unat (min (?n - h) c)) data) (pucBuffer sb))"
      unfolding take1 by (simp add: store_at_def)
    with False pos fit data adv show ?thesis
      unfolding prvWriteBytesToBuffer_def Let_def by auto
  next
    case True
    have rest: "unat (c - min (?n - h) c) = unat c - (unat ?n - unat h)"
      using True first unat_diff_le [of "min (?n - h) c" c] by (simp add: word_less_nat_alt min_def split: if_splits)
    then have "c - min (?n - h) c \<le> ?n" using c by (simp add: word_le_nat_alt)
    moreover have "drop (unat ?n - unat h) ?xs =
        take (unat (c - min (?n - h) c)) (drop (unat (min (?n - h) c)) data)"
      using True first rest by (simp add: drop_take word_less_nat_alt min_def split: if_splits)
    ultimately show ?thesis
      using True pos fit data adv circ unfolding take1 prvWriteBytesToBuffer_def Let_def by auto
  qed
qed

lemma ring_slice_straight:
  assumes "length buf = n" and "t + c \<le> n"
  shows "ring_slice n buf t c = seg t c buf"
  using assms by (auto intro!: nth_equalityI simp: seg_def nth_ring_slice)

lemma ring_slice_two_parts:
  assumes "length buf = n" and "t < n" and "n - t \<le> c" and "c \<le> n"
  shows "seg t (n - t) buf @ take (c - (n - t)) buf = ring_slice n buf t c"
proof -
  have "ring_slice n buf t (n - t + (c - (n - t))) =
      ring_slice n buf t (n - t) @ ring_slice n buf ((t + (n - t)) mod n) (c - (n - t))"
    by (rule ring_slice_add)
  moreover have "(t + (n - t)) mod n = 0" using assms(2) by simp
  moreover have "seg 0 (c - (n - t)) buf = take (c - (n - t)) buf" by (simp add: seg_def)
  ultimately show ?thesis using assms by (simp add: ring_slice_straight)
qed

lemma prvReadBytesFromBuffer_circ:
  assumes len: "length (pucBuffer sb) = unat (xLength sb)" and t: "unat t < unat (xLength sb)" and n: "unat (xLength sb) \<le> 2 ^ 31"
    and c: "0 < unat c" "unat c \<le> unat (xLength sb)"
  shows "\<exists>t'. prvReadBytesFromBuffer sb c t = Some (ring_slice (unat (xLength sb)) (pucBuffer sb) (unat t) (unat c), t') \<and>
    unat t' = (unat t + unat c) mod unat (xLength sb)"
proof -
  let ?n = "xLength sb" and ?b = "pucBuffer sb"
  let ?t' = "if t + c \<ge> ?n then t + c - ?n else t + c"
  have room: "unat (?n - t) = unat ?n - unat t" using t by (intro unat_diff_le) (simp add: word_le_nat_alt)
  have first: "unat (min (?n - t) c) = min (unat ?n - unat t) (unat c)"
    using room by (simp add: min_def word_le_nat_alt)
  have sum: "unat (t + min (?n - t) c) = unat t + min (unat ?n - unat t) (unat c)"
    using first t n by (subst unat_add_small) simp_all
  have guards: "\<not> (\<not> c \<noteq> 0 \<or> \<not> min (?n - t) c \<le> c \<or> \<not> t + min (?n - t) c \<le> ?n)"
    using sum first t c(1) by (auto simp: word_le_nat_alt)
  have adv: "unat ?t' = (unat t + unat c) mod unat ?n" by (rule word_advance [OF t c(2) n])
  have out: "(if c > min (?n - t) c then seg (unat t) (unat (min (?n - t) c)) ?b @ take (unat (c - min (?n - t) c)) ?b
        else seg (unat t) (unat (min (?n - t) c)) ?b) = ring_slice (unat ?n) ?b (unat t) (unat c)"
  proof (cases "c > min (?n - t) c")
    case False
    then have "unat c \<le> unat ?n - unat t" "unat (min (?n - t) c) = unat c" using first by (auto simp: word_less_nat_alt)
    then show ?thesis using False len t
      by (auto intro!: nth_equalityI simp: seg_def nth_ring_slice)
  next
    case True
    have f: "unat (min (?n - t) c) = unat ?n - unat t" "unat ?n - unat t < unat c"
      using True first by (auto simp: word_less_nat_alt)
    have rest: "unat (c - min (?n - t) c) = unat c - (unat ?n - unat t)"
      using True f unat_diff_le [of "min (?n - t) c" c] by simp
    have "seg (unat t) (unat ?n - unat t) ?b @ take (unat c - (unat ?n - unat t)) ?b = ring_slice (unat ?n) ?b (unat t) (unat c)"
      using len t c f(2) by (intro ring_slice_two_parts) simp_all
    with True f(1) rest show ?thesis by simp
  qed
  show ?thesis
    unfolding prvReadBytesFromBuffer_def Let_def if_not_P [OF guards] out using adv by blast
qed

text \<open>A circular write behind the occupied arc extends what the circle holds.\<close>

lemma circ_written_extends:
  assumes w: "circ_written n h xs buf buf'" and th: "t < n" "h < n" and room: "ring_dist n t h + length xs < n"
  shows "ring_slice n buf' t (ring_dist n t h + length xs) = ring_slice n buf t (ring_dist n t h) @ xs"
proof (rule nth_equalityI)
  let ?c = "ring_dist n t h"
  fix k
  assume "k < length (ring_slice n buf' t (?c + length xs))"
  then have k: "k < ?c + length xs" by simp
  let ?i = "(t + k) mod n"
  have i: "?i < n" using th by simp
  have cell: "buf' ! ?i = (if ring_dist n h ?i < length xs then xs ! ring_dist n h ?i else buf ! ?i)"
    using w i by (simp add: circ_written_def)
  show "ring_slice n buf' t (?c + length xs) ! k = (ring_slice n buf t ?c @ xs) ! k"
  proof (cases "k < ?c")
    case True
    have reach: "(t + ?c) mod n = h" by (rule ring_dist_reach [OF th])
    have "(h + (n - ?c + k)) mod n = (t + ?c + (n - ?c + k)) mod n"
      using reach by (metis mod_add_left_eq)
    also have "t + ?c + (n - ?c + k) = t + k + n" using ring_dist_less [OF th] by simp
    finally have "(h + (n - ?c + k)) mod n = ?i" by simp
    then have "ring_dist n h ?i = n - ?c + k"
      using ring_dist_unique [OF th(2) i, of "n - ?c + k"] True ring_dist_less [OF th] by simp
    then have "\<not> ring_dist n h ?i < length xs" using room by simp
    with cell True k show ?thesis by (simp add: nth_ring_slice nth_append)
  next
    case False
    have "(h + (k - ?c)) mod n = (t + ?c + (k - ?c)) mod n"
      using ring_dist_reach [OF th] by (metis mod_add_left_eq)
    then have "(h + (k - ?c)) mod n = ?i" using False by simp
    then have "ring_dist n h ?i = k - ?c"
      using ring_dist_unique [OF th(2) i, of "k - ?c"] k room by simp
    moreover have "k - ?c < length xs" using False k by simp
    ultimately have "buf' ! ?i = xs ! (k - ?c)" using cell by simp
    with False k show ?thesis by (simp add: nth_ring_slice nth_append)
  qed
qed simp

text \<open>Appending a block that fits, whatever the block is (the length or the body of a message, or bytes of a stream).\<close>

lemma write_bytes_append:
  assumes wf: "sb_wf sb" and c: "0 < unat c" "unat c \<le> length data" and room: "sb_count sb + unat c < unat (xLength sb)"
  shows "\<exists>buf' h'. prvWriteBytesToBuffer sb data c (xHead sb) = Some (h', sb\<lparr>pucBuffer := buf'\<rparr>) \<and>
    sb_wf (sb\<lparr>pucBuffer := buf', xHead := h'\<rparr>) \<and>
    sb_count (sb\<lparr>pucBuffer := buf', xHead := h'\<rparr>) = sb_count sb + unat c \<and>
    sb_contents (sb\<lparr>pucBuffer := buf', xHead := h'\<rparr>) = sb_contents sb @ take (unat c) data"
proof -
  note n = sb_wf_nat [OF wf]
  obtain buf' h' where run: "prvWriteBytesToBuffer sb data c (xHead sb) = Some (h', sb\<lparr>pucBuffer := buf'\<rparr>)"
    and h': "unat h' = (unat (xHead sb) + unat c) mod unat (xLength sb)"
    and circ: "circ_written (unat (xLength sb)) (unat (xHead sb)) (take (unat c) data) (pucBuffer sb) buf'"
    using prvWriteBytesToBuffer_circ [OF n(4,1,3) c(1) _ c(2)] room by auto
  let ?sb = "sb\<lparr>pucBuffer := buf', xHead := h'\<rparr>"
  have len: "length buf' = unat (xLength sb)" using circ by (simp add: circ_written_def)
  have "unat h' < unat (xLength sb)" unfolding h' using n(1) by (intro mod_less_divisor) simp
  then have wf': "sb_wf ?sb" using wf len by (simp add: sb_wf_def word_less_nat_alt)
  have cnt: "sb_count ?sb = sb_count sb + unat c"
    using ring_dist_advance_head [OF n(2,1)] room by (simp add: sb_count_def h')
  have "length (take (unat c) data) = unat c" using c(2) by simp
  then have "sb_contents ?sb = sb_contents sb @ take (unat c) data"
    using circ_written_extends [OF circ n(2,1)] room cnt by (simp add: sb_contents_def sb_count_def)
  with run wf' cnt show ?thesis by blast
qed

text \<open>Taking bytes from the oldest end.\<close>

lemma read_bytes_prefix:
  assumes wf: "sb_wf sb" and c: "0 < unat c" "unat c \<le> sb_count sb"
  shows "\<exists>t'. prvReadBytesFromBuffer sb c (xTail sb) = Some (take (unat c) (sb_contents sb), t') \<and>
    sb_wf (sb\<lparr>xTail := t'\<rparr>) \<and> sb_count (sb\<lparr>xTail := t'\<rparr>) = sb_count sb - unat c \<and>
    sb_contents (sb\<lparr>xTail := t'\<rparr>) = drop (unat c) (sb_contents sb)"
proof -
  note n = sb_wf_nat [OF wf]
  have "unat c \<le> unat (xLength sb)" using c(2) sb_count_less [OF wf] by simp
  then obtain t' where run: "prvReadBytesFromBuffer sb c (xTail sb) =
      Some (ring_slice (unat (xLength sb)) (pucBuffer sb) (unat (xTail sb)) (unat c), t')"
    and t': "unat t' = (unat (xTail sb) + unat c) mod unat (xLength sb)"
    using prvReadBytesFromBuffer_circ [OF n(4,2,3) c(1)] by blast
  have "unat t' < unat (xLength sb)" unfolding t' using n(1) by (intro mod_less_divisor) simp
  then have "sb_wf (sb\<lparr>xTail := t'\<rparr>)" using wf by (simp add: sb_wf_def word_less_nat_alt)
  moreover have cnt: "sb_count (sb\<lparr>xTail := t'\<rparr>) = sb_count sb - unat c"
    using ring_dist_advance_tail [OF n(2,1)] c(2) by (simp add: sb_count_def t')
  moreover have "sb_contents (sb\<lparr>xTail := t'\<rparr>) = drop (unat c) (sb_contents sb)"
    using cnt c(2) by (simp add: sb_contents_def ring_slice_drop t')
  ultimately show ?thesis using run c(2) by (simp add: sb_contents_def ring_slice_take)
qed

section \<open>Streams\<close>

definition is_stream :: "StreamBuffer_t \<Rightarrow> bool" where
  "is_stream sb \<longleftrightarrow> \<not> is_message_buffer sb \<and> ucFlags sb AND sbFLAGS_IS_BATCHING_BUFFER = 0"

lemma sb_completed_fields:
  "sb_wf (sbSEND_COMPLETED sb) = sb_wf sb" "sb_contents (sbSEND_COMPLETED sb) = sb_contents sb"
  "sb_count (sbSEND_COMPLETED sb) = sb_count sb" "xLength (sbSEND_COMPLETED sb) = xLength sb"
  "ucFlags (sbSEND_COMPLETED sb) = ucFlags sb" "xTriggerLevelBytes (sbSEND_COMPLETED sb) = xTriggerLevelBytes sb"
  "xTaskWaitingToSend (sbSEND_COMPLETED sb) = xTaskWaitingToSend sb"
  "sb_wf (sbRECEIVE_COMPLETED sb) = sb_wf sb" "sb_contents (sbRECEIVE_COMPLETED sb) = sb_contents sb"
  "sb_count (sbRECEIVE_COMPLETED sb) = sb_count sb" "xLength (sbRECEIVE_COMPLETED sb) = xLength sb"
  "ucFlags (sbRECEIVE_COMPLETED sb) = ucFlags sb" "xTriggerLevelBytes (sbRECEIVE_COMPLETED sb) = xTriggerLevelBytes sb"
  "xTaskWaitingToReceive (sbRECEIVE_COMPLETED sb) = xTaskWaitingToReceive sb"
  by (simp_all add: sbSEND_COMPLETED_def sbRECEIVE_COMPLETED_def sb_wf_def sb_contents_def sb_count_def)

lemma length_sb_contents [simp]: "length (sb_contents sb) = sb_count sb"
  by (simp add: sb_contents_def)

lemma stream_send_now:
  assumes wf: "sb_wf sb" and st: "\<not> is_message_buffer sb" and len: "unat len \<le> length data"
  shows "\<exists>n sb'. xStreamBufferSend task wakes sb data len 0 = Some (n, sb') \<and>
    unat n = min (unat len) (unat (xLength sb) - 1 - sb_count sb) \<and>
    sb_wf sb' \<and> sb_contents sb' = sb_contents sb @ take (unat n) data \<and>
    xLength sb' = xLength sb \<and> ucFlags sb' = ucFlags sb \<and> xTriggerLevelBytes sb' = xTriggerLevelBytes sb \<and>
    (xTaskWaitingToReceive sb' = None \<or> xTaskWaitingToReceive sb' = xTaskWaitingToReceive sb) \<and>
    (n > 0 \<longrightarrow> prvBytesInBuffer sb' \<ge> xTriggerLevelBytes sb' \<longrightarrow> xTaskWaitingToReceive sb' = None)"
proof -
  let ?space = "xStreamBufferSpacesAvailable sb"
  let ?n = "min len ?space"
  have n: "unat ?n = min (unat len) (unat (xLength sb) - 1 - sb_count sb)"
    using xStreamBufferSpacesAvailable_free [OF wf] by (simp add: min_def word_le_nat_alt)
  have send: "xStreamBufferSend task wakes sb data len 0 =
      (case prvWriteMessageToBuffer sb data len ?space
          (if len > xLength sb - 1 then xLength sb - 1 else len) of
         None \<Rightarrow> None
       | Some (xReturn, sb2) \<Rightarrow> if xReturn > 0 \<and> prvBytesInBuffer sb2 \<ge> xTriggerLevelBytes sb2
           then Some (xReturn, sbSEND_COMPLETED sb2) else Some (xReturn, sb2))"
    using st by (simp add: xStreamBufferSend_def Let_def)
  show ?thesis
  proof (cases "?n = 0")
    case True
    then show ?thesis
      using n wf unfolding send prvWriteMessageToBuffer_def Let_def by (auto simp: st)
  next
    case False
    then have pos: "0 < unat ?n" by (simp add: unat_gt_0)
    have "unat ?n \<le> length data" "sb_count sb + unat ?n < unat (xLength sb)"
      using n len sb_count_less [OF wf] by (auto simp: min_def)
    from write_bytes_append [OF wf pos this] obtain buf' h' where
      w: "prvWriteBytesToBuffer sb data ?n (xHead sb) = Some (h', sb\<lparr>pucBuffer := buf'\<rparr>)"
      and wf': "sb_wf (sb\<lparr>pucBuffer := buf', xHead := h'\<rparr>)"
      and ct: "sb_contents (sb\<lparr>pucBuffer := buf', xHead := h'\<rparr>) = sb_contents sb @ take (unat ?n) data"
      by blast
    let ?sb = "sb\<lparr>pucBuffer := buf', xHead := h'\<rparr>"
    have msg: "prvWriteMessageToBuffer sb data len ?space r = Some (?n, ?sb)" for r
      using False w unfolding prvWriteMessageToBuffer_def Let_def if_not_P [OF st] by simp
    show ?thesis
      unfolding send msg option.case prod.case using n wf' ct sb_completed_fields [of ?sb]
      by (auto simp: sbSEND_COMPLETED_def split: if_split)
  qed
qed

lemma stream_receive_now:
  assumes wf: "sb_wf sb" and st: "is_stream sb" and avail: "0 < sb_count sb \<or> ticks = 0"
  shows "\<exists>sb'. xStreamBufferReceive task wake sb k ticks = Some (Received (take (unat k) (sb_contents sb)) sb') \<and>
    sb_wf sb' \<and> sb_contents sb' = drop (unat k) (sb_contents sb) \<and>
    xLength sb' = xLength sb \<and> ucFlags sb' = ucFlags sb \<and> xTriggerLevelBytes sb' = xTriggerLevelBytes sb \<and>
    xTaskWaitingToReceive sb' = xTaskWaitingToReceive sb"
proof -
  have nm: "\<not> is_message_buffer sb" "ucFlags sb AND sbFLAGS_IS_BATCHING_BUFFER = 0"
    using st by (simp_all add: is_stream_def)
  have cnt: "unat (prvBytesInBuffer sb) = sb_count sb" by (rule prvBytesInBuffer_count [OF wf])
  have nowait: "\<not> (ticks \<noteq> 0 \<and> prvBytesInBuffer sb \<le> 0)"
    using avail cnt by (auto simp: word_le_nat_alt)
  have rcv: "xStreamBufferReceive task wake sb k ticks =
      (if prvBytesInBuffer sb > 0
       then (case prvReadMessageFromBuffer sb k (prvBytesInBuffer sb) of
           None \<Rightarrow> None
         | Some (bs, sb2) \<Rightarrow> Some (Received bs (if bs \<noteq> [] then sbRECEIVE_COMPLETED sb2 else sb2)))
       else Some (Received [] sb))"
    using nowait nm by (auto simp: xStreamBufferReceive_def Let_def)
  let ?c = "min k (prvBytesInBuffer sb)"
  have c: "unat ?c = min (unat k) (sb_count sb)" using cnt by (simp add: min_def word_le_nat_alt)
  have tk: "take (unat ?c) (sb_contents sb) = take (unat k) (sb_contents sb)"
    "drop (unat ?c) (sb_contents sb) = drop (unat k) (sb_contents sb)"
    using c by (simp_all add: min_def)
  show ?thesis
  proof (cases "?c = 0")
    case True
    then have z: "unat k = 0 \<or> sb_count sb = 0" using c by (simp add: min_def split: if_splits)
    then have "take (unat k) (sb_contents sb) = []" "drop (unat k) (sb_contents sb) = sb_contents sb"
      by (auto simp: sb_contents_def ring_slice_def)
    moreover have "prvReadMessageFromBuffer sb k (prvBytesInBuffer sb) = Some ([], sb)"
      using nm True by (simp add: prvReadMessageFromBuffer_def Let_def)
    ultimately show ?thesis using wf unfolding rcv by simp
  next
    case False
    then have pos: "0 < unat ?c" by (simp add: unat_gt_0)
    have le: "unat ?c \<le> sb_count sb" using c by simp
    from read_bytes_prefix [OF wf pos le] obtain t' where
      r: "prvReadBytesFromBuffer sb ?c (xTail sb) = Some (take (unat ?c) (sb_contents sb), t')"
      and wf': "sb_wf (sb\<lparr>xTail := t'\<rparr>)" and ct: "sb_contents (sb\<lparr>xTail := t'\<rparr>) = drop (unat ?c) (sb_contents sb)"
      by blast
    have msg: "prvReadMessageFromBuffer sb k (prvBytesInBuffer sb) = Some (take (unat k) (sb_contents sb), sb\<lparr>xTail := t'\<rparr>)"
      using False r tk(1) unfolding prvReadMessageFromBuffer_def Let_def if_not_P [OF nm(1)] by simp
    have "prvBytesInBuffer sb > 0" using pos c cnt by (simp add: word_less_nat_alt)
    then show ?thesis
      unfolding rcv msg option.case prod.case using wf' ct tk(2) sb_completed_fields [of "sb\<lparr>xTail := t'\<rparr>"] by simp
  qed
qed

text \<open>
  A reader that finds the stream empty waits until it is notified, and then takes what is there;
  without a notification and without a time-out it goes on waiting.
\<close>

lemma stream_receive_blocked:
  assumes "is_stream sb" and "prvBytesInBuffer sb \<le> 0" and "ticks \<noteq> 0" and "xTaskWaitingToReceive sb = None"
    and "sb1 = wake (sb\<lparr>xTaskWaitingToReceive := Some task\<rparr>)" and "is_stream sb1"
  shows "xStreamBufferReceive task wake sb k ticks =
    (if ticks = portMAX_DELAY \<and> xTaskWaitingToReceive sb1 \<noteq> None then Some (Blocked sb1)
     else xStreamBufferReceive task id (sb1\<lparr>xTaskWaitingToReceive := None\<rparr>) k 0)"
  using assms(1-4,6) unfolding xStreamBufferReceive_def Let_def is_stream_def
  by (auto simp: is_message_buffer_def simp flip: assms(5))

section \<open>A stream as a queue of bytes\<close>

definition stream_ready :: "StreamBuffer_t \<Rightarrow> bool" where
  "stream_ready sb \<longleftrightarrow> sb_wf sb \<and> is_stream sb"

definition stream_capacity :: "StreamBuffer_t \<Rightarrow> nat" where
  "stream_capacity sb = unat (xLength sb) - 1"

lemma is_stream_flags: "ucFlags sb' = ucFlags sb \<Longrightarrow> is_stream sb' = is_stream sb"
  by (simp add: is_stream_def is_message_buffer_def)

lemma sb_ready_queries:
  assumes "stream_ready sb"
  shows "unat (xStreamBufferBytesAvailable sb) = length (sb_contents sb)"
    "unat (xStreamBufferSpacesAvailable sb) = stream_capacity sb - length (sb_contents sb)"
    "xStreamBufferIsEmpty sb \<longleftrightarrow> sb_contents sb = []"
    "xStreamBufferIsFull sb \<longleftrightarrow> length (sb_contents sb) = stream_capacity sb"
proof -
  have wf: "sb_wf sb" and st: "\<not> is_message_buffer sb" using assms by (simp_all add: stream_ready_def is_stream_def)
  note n = sb_wf_nat [OF wf] and sp = xStreamBufferSpacesAvailable_free [OF wf]
  show "unat (xStreamBufferBytesAvailable sb) = length (sb_contents sb)"
    using prvBytesInBuffer_count [OF wf] by (simp add: xStreamBufferBytesAvailable_def)
  show s: "unat (xStreamBufferSpacesAvailable sb) = stream_capacity sb - length (sb_contents sb)"
    using sp by (simp add: stream_capacity_def)
  have "ring_dist (unat (xLength sb)) (unat (xTail sb)) (unat (xHead sb)) = 0 \<longleftrightarrow> unat (xHead sb) = unat (xTail sb)"
    using n(1,2) by (auto simp: ring_dist_def)
  then have "sb_count sb = 0 \<longleftrightarrow> xHead sb = xTail sb" by (simp add: sb_count_def word_unat_eq_iff)
  then show "xStreamBufferIsEmpty sb \<longleftrightarrow> sb_contents sb = []"
    unfolding length_0_conv [symmetric] length_sb_contents xStreamBufferIsEmpty_def by blast
  show "xStreamBufferIsFull sb \<longleftrightarrow> length (sb_contents sb) = stream_capacity sb"
    using s st sb_count_less [OF wf] by (auto simp: xStreamBufferIsFull_def word_le_nat_alt stream_capacity_def)
qed

text \<open>The non-blocking calls, with lengths as numbers.\<close>

definition stream_put :: "StreamBuffer_t \<Rightarrow> u8 list \<Rightarrow> (nat \<times> StreamBuffer_t) option" where
  "stream_put sb bs = map_option (\<lambda>(n, sb'). (unat n, sb')) (xStreamBufferSend 0 [] sb bs (word_of_nat (length bs)) 0)"

definition stream_get :: "StreamBuffer_t \<Rightarrow> nat \<Rightarrow> (u8 list \<times> StreamBuffer_t) option" where
  "stream_get sb k =
     (case xStreamBufferReceive 0 id sb (word_of_nat k) 0 of Some (Received bs sb') \<Rightarrow> Some (bs, sb') | _ \<Rightarrow> None)"

interpretation stream: stream_fifo stream_ready sb_contents stream_capacity "2 ^ 32" stream_put stream_get
proof unfold_locales
  fix sb :: StreamBuffer_t and bs :: "u8 list" and n
  assume a: "stream_ready sb" "length bs < 2 ^ 32" "n = min (length bs) (stream_capacity sb - length (sb_contents sb))"
  have l: "unat (word_of_nat (length bs) :: u32) = length bs" using a(2) by (intro word_of_nat_eq_nat_iff) simp
  have r: "sb_wf sb" "\<not> is_message_buffer sb" "is_stream sb" using a(1) by (simp_all add: stream_ready_def is_stream_def)
  obtain m sb1 where run: "xStreamBufferSend 0 [] sb bs (word_of_nat (length bs)) 0 = Some (m, sb1)"
    and m: "unat m = min (length bs) (unat (xLength sb) - 1 - sb_count sb)"
    and f: "sb_wf sb1" "sb_contents sb1 = sb_contents sb @ take (unat m) bs" "xLength sb1 = xLength sb" "ucFlags sb1 = ucFlags sb"
    using stream_send_now [OF r(1,2), of "word_of_nat (length bs)" bs 0 "[]"] l by auto
  have "unat m = n" using m a(3) by (simp add: stream_capacity_def)
  with run f r is_stream_flags [OF f(4)]
  show "\<exists>q'. stream_put sb bs = Some (n, q') \<and> stream_ready q' \<and> stream_capacity q' = stream_capacity sb \<and>
      sb_contents q' = sb_contents sb @ take n bs"
    by (simp add: stream_put_def stream_ready_def stream_capacity_def)
next
  fix sb :: StreamBuffer_t and k
  assume a: "stream_ready sb" "k < (2 :: nat) ^ 32"
  have k: "unat (word_of_nat k :: u32) = k" using a(2) by (intro word_of_nat_eq_nat_iff) simp
  have r: "sb_wf sb" "is_stream sb" using a(1) by (simp_all add: stream_ready_def)
  obtain sb1 where run: "xStreamBufferReceive 0 id sb (word_of_nat k) 0 = Some (Received (take k (sb_contents sb)) sb1)"
    and f: "sb_wf sb1" "sb_contents sb1 = drop k (sb_contents sb)" "xLength sb1 = xLength sb" "ucFlags sb1 = ucFlags sb"
    using stream_receive_now [OF r, of 0 0 id "word_of_nat k"] k by auto
  then show "\<exists>q'. stream_get sb k = Some (take k (sb_contents sb), q') \<and> stream_ready q' \<and> stream_capacity q' = stream_capacity sb \<and>
      sb_contents q' = drop k (sb_contents sb)"
    using r is_stream_flags [OF f(4)] by (simp add: stream_get_def stream_ready_def stream_capacity_def)
qed

section \<open>Message buffers\<close>

text \<open>A message is stored as its length in four bytes, low byte first, and its body.\<close>

definition msg_frame :: "u8 list \<Rightarrow> u8 list" where
  "msg_frame m = le_bytes 4 (word_of_nat (length m) :: u32) @ m"

definition holds_messages :: "StreamBuffer_t \<Rightarrow> u8 list list \<Rightarrow> bool" where
  "holds_messages sb ms \<longleftrightarrow> sb_wf sb \<and> is_message_buffer sb \<and> sb_contents sb = concat (map msg_frame ms) \<and>
     (\<forall>m\<in>set ms. m \<noteq> [])"

lemma length_msg_frame [simp]: "length (msg_frame m) = 4 + length m"
  by (simp add: msg_frame_def)

lemma write_bytes_xHead:
  "prvWriteBytesToBuffer (sb\<lparr>xHead := h\<rparr>) data c x =
     map_option (\<lambda>(h', s). (h', s\<lparr>xHead := h\<rparr>)) (prvWriteBytesToBuffer sb data c x)"
  by (simp add: prvWriteBytesToBuffer_def Let_def)

lemma read_bytes_xTail: "prvReadBytesFromBuffer (sb\<lparr>xTail := t\<rparr>) c x = prvReadBytesFromBuffer sb c x"
  by (simp add: prvReadBytesFromBuffer_def Let_def)

text \<open>Length and body are written one behind the other, and the head moves once, after both.\<close>

lemma write_message_append:
  assumes wf: "sb_wf sb" and msg: "is_message_buffer sb" and m: "m \<noteq> []"
    and room: "sb_count sb + length m + 4 < unat (xLength sb)"
  shows "\<exists>sb'. prvWriteMessageToBuffer sb m (word_of_nat (length m)) (xStreamBufferSpacesAvailable sb)
      (word_of_nat (length m) + sbBYTES_TO_STORE_MESSAGE_LENGTH) = Some (word_of_nat (length m), sb') \<and>
    sb_wf sb' \<and> sb_contents sb' = sb_contents sb @ msg_frame m \<and> ucFlags sb' = ucFlags sb \<and> xLength sb' = xLength sb"
proof -
  let ?l = "word_of_nat (length m) :: u32"
  note n = sb_wf_nat [OF wf]
  have l: "unat ?l = length m" using room n(3) by (intro word_of_nat_eq_nat_iff) simp
  have four: "unat sbBYTES_TO_STORE_MESSAGE_LENGTH = 4" by (simp add: sbBYTES_TO_STORE_MESSAGE_LENGTH_def)
  have need: "unat (?l + sbBYTES_TO_STORE_MESSAGE_LENGTH) = length m + 4"
    using l four room n(3) by (subst unat_add_small) simp_all
  have enough: "xStreamBufferSpacesAvailable sb \<ge> ?l + sbBYTES_TO_STORE_MESSAGE_LENGTH"
    using need room xStreamBufferSpacesAvailable_free [OF wf] by (simp add: word_le_nat_alt)
  obtain b1 h1 where w1: "prvWriteBytesToBuffer sb (le_bytes 4 ?l) sbBYTES_TO_STORE_MESSAGE_LENGTH (xHead sb) =
      Some (h1, sb\<lparr>pucBuffer := b1\<rparr>)"
    and f1: "sb_wf (sb\<lparr>pucBuffer := b1, xHead := h1\<rparr>)" "sb_count (sb\<lparr>pucBuffer := b1, xHead := h1\<rparr>) = sb_count sb + 4"
      "sb_contents (sb\<lparr>pucBuffer := b1, xHead := h1\<rparr>) = sb_contents sb @ le_bytes 4 ?l"
    using write_bytes_append [OF wf, of sbBYTES_TO_STORE_MESSAGE_LENGTH "le_bytes 4 ?l"] four room by auto
  let ?s1 = "sb\<lparr>pucBuffer := b1, xHead := h1\<rparr>"
  obtain b2 h2 where w2: "prvWriteBytesToBuffer ?s1 m ?l h1 = Some (h2, ?s1\<lparr>pucBuffer := b2\<rparr>)"
    and f2: "sb_wf (?s1\<lparr>pucBuffer := b2, xHead := h2\<rparr>)"
      "sb_contents (?s1\<lparr>pucBuffer := b2, xHead := h2\<rparr>) = sb_contents ?s1 @ m"
    using write_bytes_append [OF f1(1), of ?l m] l m f1(2) room by auto
  obtain s2 where s2: "prvWriteBytesToBuffer (sb\<lparr>pucBuffer := b1\<rparr>) m ?l h1 = Some (h2, s2)"
    and "s2\<lparr>xHead := h1\<rparr> = sb\<lparr>pucBuffer := b2, xHead := h1\<rparr>"
    using w2 unfolding write_bytes_xHead by auto
  from arg_cong [OF this(2), of "xHead_update (\<lambda>_. h2)"] have e: "s2\<lparr>xHead := h2\<rparr> = sb\<lparr>pucBuffer := b2, xHead := h2\<rparr>" by simp
  have ne: "?l \<noteq> 0" using l m by auto
  have "prvWriteMessageToBuffer sb m ?l (xStreamBufferSpacesAvailable sb) (?l + sbBYTES_TO_STORE_MESSAGE_LENGTH) =
      Some (?l, sb\<lparr>pucBuffer := b2, xHead := h2\<rparr>)"
    using msg enough ne w1 s2 e by (simp add: prvWriteMessageToBuffer_def)
  moreover have "sb_wf (sb\<lparr>pucBuffer := b2, xHead := h2\<rparr>)"
    "sb_contents (sb\<lparr>pucBuffer := b2, xHead := h2\<rparr>) = sb_contents sb @ msg_frame m"
    using f2 f1(3) by (simp_all add: msg_frame_def)
  ultimately show ?thesis by simp
qed

text \<open>The length field of the oldest message, and the body behind it.\<close>

lemma holds_messages_Cons:
  assumes "holds_messages sb (m # ms)"
  shows "take 4 (sb_contents sb) = le_bytes 4 (word_of_nat (length m) :: u32)"
    "drop 4 (sb_contents sb) = m @ concat (map msg_frame ms)" "length m + 4 \<le> sb_count sb"
    "unat (word_of_nat (length m) :: u32) = length m" "m \<noteq> []"
proof -
  have c: "sb_contents sb = le_bytes 4 (word_of_nat (length m) :: u32) @ m @ concat (map msg_frame ms)"
    using assms by (simp add: holds_messages_def msg_frame_def)
  then show "take 4 (sb_contents sb) = le_bytes 4 (word_of_nat (length m) :: u32)"
    "drop 4 (sb_contents sb) = m @ concat (map msg_frame ms)" by simp_all
  have "length (sb_contents sb) = 4 + length m + length (concat (map msg_frame ms))" using c by simp
  then show n: "length m + 4 \<le> sb_count sb" by simp
  have wf: "sb_wf sb" using assms by (simp add: holds_messages_def)
  show "unat (word_of_nat (length m) :: u32) = length m"
    using n sb_count_less [OF wf] sb_wf_nat(3) [OF wf] by (intro word_of_nat_eq_nat_iff) simp
  show "m \<noteq> []" using assms by (simp add: holds_messages_def)
qed

lemma read_length_field:
  assumes "holds_messages sb (m # ms)"
  shows "\<exists>t'. prvReadBytesFromBuffer sb sbBYTES_TO_STORE_MESSAGE_LENGTH (xTail sb) =
      Some (le_bytes 4 (word_of_nat (length m) :: u32), t') \<and>
    sb_wf (sb\<lparr>xTail := t'\<rparr>) \<and> sb_count (sb\<lparr>xTail := t'\<rparr>) = sb_count sb - 4 \<and>
    sb_contents (sb\<lparr>xTail := t'\<rparr>) = m @ concat (map msg_frame ms)"
proof -
  have "unat sbBYTES_TO_STORE_MESSAGE_LENGTH = 4" by (simp add: sbBYTES_TO_STORE_MESSAGE_LENGTH_def)
  moreover have "sb_wf sb" using assms by (simp add: holds_messages_def)
  ultimately show ?thesis
    using read_bytes_prefix [of sb sbBYTES_TO_STORE_MESSAGE_LENGTH] holds_messages_Cons [OF assms] by simp
qed

text \<open>A read with room for the oldest message takes exactly that message; with less room it takes nothing.\<close>

lemma read_message:
  assumes h: "holds_messages sb (m # ms)"
  shows "\<exists>sb'. prvReadMessageFromBuffer sb k (prvBytesInBuffer sb) =
      Some (if length m \<le> unat k then m else [], sb') \<and>
    (if length m \<le> unat k then holds_messages sb' ms else sb' = sb) \<and> xLength sb' = xLength sb"
proof -
  note c = holds_messages_Cons [OF h]
  have wf: "sb_wf sb" and mb: "is_message_buffer sb" and ne: "\<forall>x\<in>set ms. x \<noteq> []"
    using h by (simp_all add: holds_messages_def)
  let ?l = "word_of_nat (length m) :: u32"
  obtain t1 where r1: "prvReadBytesFromBuffer sb sbBYTES_TO_STORE_MESSAGE_LENGTH (xTail sb) = Some (le_bytes 4 ?l, t1)"
    and f1: "sb_wf (sb\<lparr>xTail := t1\<rparr>)" "sb_count (sb\<lparr>xTail := t1\<rparr>) = sb_count sb - 4"
      "sb_contents (sb\<lparr>xTail := t1\<rparr>) = m @ concat (map msg_frame ms)"
    using read_length_field [OF h] by blast
  have lw: "le_word (le_bytes 4 ?l) = ?l" by (simp add: le_word_le_bytes)
  have avail: "unat (prvBytesInBuffer sb - sbBYTES_TO_STORE_MESSAGE_LENGTH) = sb_count sb - 4"
    using c(3) prvBytesInBuffer_count [OF wf]
    by (subst unat_diff_le) (simp_all add: word_le_nat_alt sbBYTES_TO_STORE_MESSAGE_LENGTH_def)
  have fits: "?l > k \<longleftrightarrow> \<not> length m \<le> unat k" using c(4) by (simp add: word_less_nat_alt not_le)
  have rd: "prvReadMessageFromBuffer sb k (prvBytesInBuffer sb) =
      (let xCount = min (if ?l > k then 0 else ?l) (prvBytesInBuffer sb - sbBYTES_TO_STORE_MESSAGE_LENGTH)
       in if xCount \<noteq> 0 then (case prvReadBytesFromBuffer sb xCount t1 of None \<Rightarrow> None | Some (bs, t) \<Rightarrow> Some (bs, sb\<lparr>xTail := t\<rparr>))
          else Some ([], sb))"
    unfolding prvReadMessageFromBuffer_def if_P [OF mb] r1 option.case prod.case Let_def lw ..
  show ?thesis
  proof (cases "length m \<le> unat k")
    case False
    then have "min (if ?l > k then 0 else ?l) (prvBytesInBuffer sb - sbBYTES_TO_STORE_MESSAGE_LENGTH) = 0"
      using fits by simp
    with False show ?thesis unfolding rd by simp
  next
    case True
    have cnt: "min (if ?l > k then 0 else ?l) (prvBytesInBuffer sb - sbBYTES_TO_STORE_MESSAGE_LENGTH) = ?l"
      using True fits avail c(3,4) by (auto simp: min_def word_le_nat_alt)
    have l0: "?l \<noteq> 0" using c(4,5) by auto
    have "length m \<le> sb_count sb - 4" using c(3) by simp
    then obtain t2 where r2: "prvReadBytesFromBuffer (sb\<lparr>xTail := t1\<rparr>) ?l t1 = Some (m, t2)"
      and f2: "sb_wf (sb\<lparr>xTail := t1, xTail := t2\<rparr>)" "sb_contents (sb\<lparr>xTail := t1, xTail := t2\<rparr>) = concat (map msg_frame ms)"
      using read_bytes_prefix [OF f1(1), of ?l] c(3,4,5) f1(2,3) by auto
    have "prvReadMessageFromBuffer sb k (prvBytesInBuffer sb) = Some (m, sb\<lparr>xTail := t2\<rparr>)"
      using r2 l0 unfolding rd cnt Let_def read_bytes_xTail by simp
    moreover have "holds_messages (sb\<lparr>xTail := t2\<rparr>) ms"
      using f2 mb ne by (simp add: holds_messages_def is_message_buffer_def)
    ultimately show ?thesis using True by simp
  qed
qed

lemma holds_messages_completed:
  "holds_messages (sbSEND_COMPLETED sb) ms = holds_messages sb ms"
  "holds_messages (sbRECEIVE_COMPLETED sb) ms = holds_messages sb ms"
  by (simp_all add: holds_messages_def sb_completed_fields is_message_buffer_def)

lemma message_send_now:
  assumes h: "holds_messages sb ms" and m: "m \<noteq> []" "length m < 2 ^ 31"
  shows "\<exists>sb'. xStreamBufferSend task wakes sb m (word_of_nat (length m)) 0 =
      Some (if sb_count sb + length m + 4 < unat (xLength sb) then word_of_nat (length m) else 0, sb') \<and>
    holds_messages sb' (if sb_count sb + length m + 4 < unat (xLength sb) then ms @ [m] else ms) \<and> xLength sb' = xLength sb"
proof -
  let ?l = "word_of_nat (length m) :: u32"
  have wf: "sb_wf sb" and mb: "is_message_buffer sb" using h by (simp_all add: holds_messages_def)
  have l: "unat ?l = length m" using m(2) by (intro word_of_nat_eq_nat_iff) simp
  have need: "unat (?l + sbBYTES_TO_STORE_MESSAGE_LENGTH) = length m + 4"
    using l m(2) by (subst unat_add_small) (simp_all add: sbBYTES_TO_STORE_MESSAGE_LENGTH_def)
  have g: "?l + sbBYTES_TO_STORE_MESSAGE_LENGTH > ?l" using need l by (simp add: word_less_nat_alt)
  let ?w = "prvWriteMessageToBuffer sb m ?l (xStreamBufferSpacesAvailable sb) (?l + sbBYTES_TO_STORE_MESSAGE_LENGTH)"
  have send: "xStreamBufferSend task wakes sb m ?l 0 = (case ?w of None \<Rightarrow> None
     | Some (xReturn, sb2) \<Rightarrow> if xReturn > 0 \<and> prvBytesInBuffer sb2 \<ge> xTriggerLevelBytes sb2
           then Some (xReturn, sbSEND_COMPLETED sb2) else Some (xReturn, sb2))"
    using mb g by (simp add: xStreamBufferSend_def Let_def)
  show ?thesis
  proof (cases "sb_count sb + length m + 4 < unat (xLength sb)")
    case True
    obtain sb2 where w: "?w = Some (?l, sb2)" and f: "sb_wf sb2" "sb_contents sb2 = sb_contents sb @ msg_frame m"
      "ucFlags sb2 = ucFlags sb" "xLength sb2 = xLength sb"
      using write_message_append [OF wf mb m(1) True] by blast
    have "holds_messages sb2 (ms @ [m])" using h f m(1) by (simp add: holds_messages_def is_message_buffer_def)
    then show ?thesis
      unfolding send w option.case prod.case using True f(4) by (auto simp: holds_messages_completed sb_completed_fields)
  next
    case False
    then have "\<not> xStreamBufferSpacesAvailable sb \<ge> ?l + sbBYTES_TO_STORE_MESSAGE_LENGTH"
      using need xStreamBufferSpacesAvailable_free [OF wf] sb_count_less [OF wf] by (simp add: word_le_nat_alt)
    then have w: "?w = Some (0, sb)" using mb by (simp add: prvWriteMessageToBuffer_def)
    show ?thesis unfolding send w option.case prod.case using False h by simp
  qed
qed

lemma message_receive_now:
  assumes h: "holds_messages sb (m # ms)"
  shows "\<exists>sb'. xStreamBufferReceive task wake sb k ticks = Some (Received (if length m \<le> unat k then m else []) sb') \<and>
    holds_messages sb' (if length m \<le> unat k then ms else m # ms) \<and> xLength sb' = xLength sb"
proof -
  note c = holds_messages_Cons [OF h]
  have wf: "sb_wf sb" and mb: "is_message_buffer sb" using h by (simp_all add: holds_messages_def)
  have "0 < length m" using c(5) by simp
  then have "4 < sb_count sb" using c(3) by linarith
  then have more: "prvBytesInBuffer sb > sbBYTES_TO_STORE_MESSAGE_LENGTH" using prvBytesInBuffer_count [OF wf]
    by (simp add: word_less_nat_alt sbBYTES_TO_STORE_MESSAGE_LENGTH_def)
  then have le: "\<not> prvBytesInBuffer sb \<le> sbBYTES_TO_STORE_MESSAGE_LENGTH" by simp
  have rcv: "xStreamBufferReceive task wake sb k ticks = (case prvReadMessageFromBuffer sb k (prvBytesInBuffer sb) of
      None \<Rightarrow> None | Some (bs, sb2) \<Rightarrow> Some (Received bs (if bs \<noteq> [] then sbRECEIVE_COMPLETED sb2 else sb2)))"
    using mb more le by (simp add: xStreamBufferReceive_def Let_def)
  obtain sb2 where r: "prvReadMessageFromBuffer sb k (prvBytesInBuffer sb) = Some (if length m \<le> unat k then m else [], sb2)"
    and f: "if length m \<le> unat k then holds_messages sb2 ms else sb2 = sb" "xLength sb2 = xLength sb"
    using read_message [OF h] by blast
  show ?thesis
    unfolding rcv r option.case prod.case using f h c(5) by (auto simp: holds_messages_completed sb_completed_fields)
qed

section \<open>Creation\<close>

lemma create_stream_ready:
  assumes size: "0 < unat n" "unat n < 2 ^ 31" and trig: "trigger \<le> n" and sz: "unat sizeof < 2 ^ 30"
    and mem: "malloc (n + 1 + sizeof) = Some block" "length block = unat n + 1 + unat sizeof"
  shows "\<exists>sb. xStreamBufferGenericCreate sizeof malloc n trigger sbTYPE_STREAM_BUFFER = Some (Some sb) \<and>
    stream_ready sb \<and> sb_contents sb = [] \<and> stream_capacity sb = unat n \<and>
    xTaskWaitingToReceive sb = None \<and> xTaskWaitingToSend sb = None \<and> xTriggerLevelBytes sb = (if trigger = 0 then 1 else trigger)"
proof -
  have n1: "unat (n + 1) = unat n + 1" using size by (subst unat_add_small) simp_all
  have tot: "unat (n + 1 + sizeof) = unat n + 1 + unat sizeof" using size sz n1 by (subst unat_add_small) simp_all
  have g: "n > 0" "n < n + 1 + sizeof" using size tot by (simp_all add: word_less_nat_alt)
  let ?sb = "prvInitialiseNewStreamBuffer (drop (unat sizeof) block) (n + 1) (if trigger = 0 then 1 else trigger) 0"
  have run: "xStreamBufferGenericCreate sizeof malloc n trigger sbTYPE_STREAM_BUFFER = Some (Some ?sb)"
    using g trig mem(1) by (simp add: xStreamBufferGenericCreate_def Let_def)
  have l: "0 + length (replicate (unat (n + 1)) (0x55 :: u8)) \<le> length (drop (unat sizeof) block)" using mem(2) n1 by simp
  have "length (pucBuffer ?sb) = unat (n + 1)"
    using length_store_at [OF l] mem(2) n1 by (simp add: prvInitialiseNewStreamBuffer_def)
  then have "sb_wf ?sb"
    using n1 size by (simp add: sb_wf_def prvInitialiseNewStreamBuffer_def word_less_nat_alt)
  moreover have "is_stream ?sb" by (simp add: is_stream_def is_message_buffer_def prvInitialiseNewStreamBuffer_def)
  moreover have "sb_contents ?sb = []"
    by (simp add: sb_contents_def sb_count_def ring_dist_def ring_slice_def prvInitialiseNewStreamBuffer_def)
  ultimately show ?thesis
    using run n1 by (simp add: stream_ready_def stream_capacity_def prvInitialiseNewStreamBuffer_def)
qed

section \<open>Properties\<close>

text \<open>A small stream buffer of eight bytes, whose block of memory is ninety bytes of which the first eighty are the control structure.\<close>

definition stream_sample :: StreamBuffer_t where
  "stream_sample = prvInitialiseNewStreamBuffer (replicate 9 0) 9 1 0"

definition message_sample :: StreamBuffer_t where
  "message_sample = prvInitialiseNewStreamBuffer (replicate 9 0) 9 1 sbFLAGS_IS_MESSAGE_BUFFER"

lemma sample_wf: "sb_wf (prvInitialiseNewStreamBuffer (replicate 9 0) 9 1 f)"
  by (simp add: sb_wf_def prvInitialiseNewStreamBuffer_def)

lemma stream_sample_ready: "stream_ready stream_sample" "sb_contents stream_sample = []"
  by (simp_all add: stream_ready_def stream_sample_def sample_wf is_stream_def is_message_buffer_def)
    (simp_all add: prvInitialiseNewStreamBuffer_def sb_contents_def sb_count_def ring_dist_def ring_slice_def)

lemma message_sample_holds: "holds_messages message_sample []" "sb_count message_sample = 0" "xLength message_sample = 9"
  by (simp_all add: holds_messages_def message_sample_def sample_wf is_message_buffer_def)
    (simp_all add: prvInitialiseNewStreamBuffer_def sb_contents_def sb_count_def ring_dist_def ring_slice_def
      sbFLAGS_IS_MESSAGE_BUFFER_def)

text \<open>
  Claim C15: a stream buffer is a bounded queue of bytes. Every sequence of sends and receives without a
  time-out returns, no assertion of the module is tripped, and every result is the one of a list of at most
  capacity bytes: a send takes as many bytes as there is room for and reports that number, a receive
  returns the oldest bytes. Afterwards the queries report the length of that list, the room left, and
  whether it is empty or full.
\<close>

theorem stream_buffer_refines_queue:
  assumes "stream_ready sb" and "\<forall>op\<in>set ops. fifo_op_below (2 ^ 32) op"
    and "bounded_run (stream_capacity sb) (sb_contents sb) ops = (results, q)"
  shows "\<exists>sb'. fifo_calls stream_put stream_get sb ops = Some (results, sb') \<and> stream_ready sb' \<and> sb_contents sb' = q \<and>
    unat (xStreamBufferBytesAvailable sb') = length q \<and>
    unat (xStreamBufferSpacesAvailable sb') = stream_capacity sb - length q \<and>
    (xStreamBufferIsEmpty sb' \<longleftrightarrow> q = []) \<and> (xStreamBufferIsFull sb' \<longleftrightarrow> length q = stream_capacity sb)"
proof -
  obtain sb' where s: "fifo_calls stream_put stream_get sb ops = Some (results, sb')" "stream_ready sb'"
    "stream_capacity sb' = stream_capacity sb" "sb_contents sb' = q"
    using stream.calls_refine [OF assms(1,2)] assms(3) by auto
  from sb_ready_queries [OF s(2)] s show ?thesis by auto
qed

theorem stream_buffer_refines_queue_witness:
  "\<exists>sb'. fifo_calls stream_put stream_get stream_sample [Put [1, 2, 3], Get 2, Put [4, 5, 6, 7, 8, 9, 10, 11], Get 9] =
     Some ([Accepted 3, Delivered [1, 2], Accepted 7, Delivered [3, 4, 5, 6, 7, 8, 9, 10]], sb') \<and> sb_contents sb' = []"
proof -
  let ?ops = "[Put [1, 2, 3], Get 2, Put [4, 5, 6, 7, 8, 9, 10, 11], Get 9]"
  have cap: "stream_capacity stream_sample = 8"
    by (simp add: stream_capacity_def stream_sample_def prvInitialiseNewStreamBuffer_def)
  have small: "\<forall>op\<in>set ?ops. fifo_op_below (2 ^ 32) op" by (simp add: fifo_op_below_def)
  have run: "bounded_run (stream_capacity stream_sample) (sb_contents stream_sample) ?ops =
      ([Accepted 3, Delivered [1, 2], Accepted 7, Delivered [3, 4, 5, 6, 7, 8, 9, 10]], [])"
    unfolding cap stream_sample_ready(2) by simp
  show ?thesis using stream_buffer_refines_queue [OF stream_sample_ready(1) small run] by blast
qed

text \<open>
  A non-blocking send to a stream buffer writes as many bytes as there is room for
  and no more: it reports the smaller of the length and the free space, appends exactly that
  prefix of the block, and so drops the rest of a block that does not fit.
\<close>

theorem stream_buffer_send_amount:
  assumes "stream_ready sb" and "unat len \<le> length data"
  shows "\<exists>n sb'. xStreamBufferSend task [] sb data len 0 = Some (n, sb') \<and> stream_ready sb' \<and>
    unat n = min (unat len) (stream_capacity sb - length (sb_contents sb)) \<and>
    sb_contents sb' = sb_contents sb @ take (unat n) data"
proof -
  have r: "sb_wf sb" "\<not> is_message_buffer sb" "is_stream sb" using assms(1) by (simp_all add: stream_ready_def is_stream_def)
  obtain n sb' where run: "xStreamBufferSend task [] sb data len 0 = Some (n, sb')"
    and n: "unat n = min (unat len) (unat (xLength sb) - 1 - sb_count sb)"
    and f: "sb_wf sb'" "sb_contents sb' = sb_contents sb @ take (unat n) data" "ucFlags sb' = ucFlags sb"
    using stream_send_now [OF r(1,2) assms(2), of task "[]"] by blast
  have "stream_ready sb'" using f(1) r(3) is_stream_flags [OF f(3)] by (simp add: stream_ready_def)
  with run n f(2) show ?thesis by (simp add: stream_capacity_def)
qed

theorem stream_buffer_send_amount_witness:
  "\<exists>n sb'. xStreamBufferSend 7 [] stream_sample [1, 2, 3, 4, 5, 6, 7, 8, 9, 10] 10 0 = Some (n, sb') \<and> unat n = 8 \<and>
    sb_contents sb' = [1, 2, 3, 4, 5, 6, 7, 8]"
proof -
  let ?d = "[1, 2, 3, 4, 5, 6, 7, 8, 9, 10] :: u8 list"
  have cap: "stream_capacity stream_sample = 8"
    by (simp add: stream_capacity_def stream_sample_def prvInitialiseNewStreamBuffer_def)
  obtain n sb' where run: "xStreamBufferSend 7 [] stream_sample ?d 10 0 = Some (n, sb')"
    and n: "unat n = min (unat (10 :: u32)) (stream_capacity stream_sample - length (sb_contents stream_sample))"
    and c: "sb_contents sb' = sb_contents stream_sample @ take (unat n) ?d"
    using stream_buffer_send_amount [OF stream_sample_ready(1), of 10 ?d 7] by auto
  have "unat n = 8" using n unfolding cap stream_sample_ready(2) by simp
  with run c show ?thesis by (simp add: stream_sample_ready(2))
qed

text \<open>
  A message buffer is a queue of whole messages. A message sent to a buffer that holds the
  messages \<open>ms\<close> is queued behind them if it and its length field fit, and is not stored at all
  otherwise; the next receive returns the oldest message, whole, if the caller's
  buffer is long enough, and otherwise nothing, leaving the message in place.
\<close>

theorem message_buffer_queue:
  assumes "holds_messages sb ms" and "m \<noteq> []" and "length m < 2 ^ 31"
    and "fits = (sb_count sb + length m + 4 < unat (xLength sb))" and "ms' = (if fits then ms @ [m] else ms)"
  shows "\<exists>sb1. xStreamBufferSend task wakes sb m (word_of_nat (length m)) 0 =
      Some (if fits then word_of_nat (length m) else 0, sb1) \<and> holds_messages sb1 ms' \<and>
    (\<forall>oldest rest. ms' = oldest # rest \<longrightarrow>
      (\<exists>sb2. xStreamBufferReceive task' wake sb1 k ticks = Some (Received (if length oldest \<le> unat k then oldest else []) sb2) \<and>
        holds_messages sb2 (if length oldest \<le> unat k then rest else ms')))"
proof -
  obtain sb1 where s: "xStreamBufferSend task wakes sb m (word_of_nat (length m)) 0 =
      Some (if fits then word_of_nat (length m) else 0, sb1)" and h: "holds_messages sb1 ms'"
    using message_send_now [OF assms(1-3), of task wakes] unfolding assms(4,5) by blast
  have "\<exists>sb2. xStreamBufferReceive task' wake sb1 k ticks = Some (Received (if length oldest \<le> unat k then oldest else []) sb2) \<and>
        holds_messages sb2 (if length oldest \<le> unat k then rest else ms')" if "ms' = oldest # rest" for oldest rest
    using message_receive_now [of sb1 oldest rest task' wake k ticks] h unfolding that by blast
  with s h show ?thesis by blast
qed

theorem message_buffer_queue_witness:
  "\<exists>sb1 sb2. xStreamBufferSend 1 [] message_sample [10, 11, 12] 3 0 = Some (3, sb1) \<and>
     xStreamBufferReceive 2 id sb1 8 0 = Some (Received [10, 11, 12] sb2) \<and> holds_messages sb2 []"
  using message_buffer_queue [of message_sample "[]" "[10, 11, 12]" True "[[10, 11, 12]]" 1 "[]" 2 id 8 0] message_sample_holds
  by auto

end
