(* ===== verification/OtaServer.thy ===== *)
theory OtaServer
  imports OtaSlot StreamBuffer
begin

text \<open>
  The firmware update server, \<^verbatim>\<open>src/App/tcp/ota_server.c\<close>: callbacks that the network stack runs in
  its own thread and a task that takes the bytes they queue, parses the header, collects sectors,
  writes them to the secondary slot, verifies the checksum and restarts. The network stack is a
  parameter: the record \<open>lwip\<close> gives the results of its calls, and the calls made are recorded in
  order. The task's wait for bytes takes as a parameter what the callbacks did meanwhile.
\<close>

section \<open>Definitions\<close>

definition OTA_SERVER_PORT :: u16 where "OTA_SERVER_PORT = 9090"
definition OTA_MAX_FIRMWARE_SIZE :: u32 where "OTA_MAX_FIRMWARE_SIZE = 0xA0000"
definition OTA_FLASH_SECTOR_SIZE :: u32 where "OTA_FLASH_SECTOR_SIZE = 0x1000"
definition OTA_HEADER_SIZE :: u32 where "OTA_HEADER_SIZE = 16"
definition OTA_STATUS_OK :: u8 where "OTA_STATUS_OK = 0"
definition OTA_STATUS_ERROR :: u8 where "OTA_STATUS_ERROR = 1"
definition OTA_STATUS_SIZE_MISMATCH :: u8 where "OTA_STATUS_SIZE_MISMATCH = 2"
definition OTA_STATUS_CRC_FAIL :: u8 where "OTA_STATUS_CRC_FAIL = 3"
definition OTA_STATUS_FLASH_ERROR :: u8 where "OTA_STATUS_FLASH_ERROR = 4"
definition OTA_STREAM_BUF_SIZE :: u32 where "OTA_STREAM_BUF_SIZE = 8192"
definition OTA_STREAM_TRIG_LEVEL :: u32 where "OTA_STREAM_TRIG_LEVEL = 1"

definition ota_magic :: "u8 list" where
  "ota_magic = [0x47, 0x44, 0x33, 0x32, 0x4F, 0x54, 0x41, 0x31]"

definition ota_resp_magic :: u32 where "ota_resp_magic = 0xACACACAC"

definition ERR_OK :: int where "ERR_OK = 0"
definition ERR_VAL :: int where "ERR_VAL = -6"
definition ERR_ABRT :: int where "ERR_ABRT = -13"

text \<open>The calls into the network stack; a control block is a number, a NULL pointer \<open>None\<close>.\<close>

datatype net_call =
  Tcp_arg nat | Tcp_recv nat bool | Tcp_err nat bool | Tcp_abort nat | Tcp_recved nat u16 | Pbuf_free
| Tcp_write "nat option" "u8 list" | Tcp_output "nat option"
| Tcp_bind nat u16 | Memp_free nat | Tcp_listen nat | Tcp_accept nat

record lwip =
  lwip_write :: "net_call list \<Rightarrow> nat option \<Rightarrow> u8 list \<Rightarrow> int"
  lwip_new :: "nat option"
  lwip_bind :: "nat \<Rightarrow> int"
  lwip_listen :: "nat \<Rightarrow> nat option"

record pbuf =
  tot_len :: u16
  segs :: "u8 list list"

text \<open>The globals of the file, the calls made so far, the flash and whether the system was restarted.\<close>

record 'h ota_world =
  g_ota_stream :: StreamBuffer_t
  g_ota_listen_pcb :: "nat option"
  g_ota_data_pcb :: "nat option"
  net_calls :: "net_call list"
  ota_hw :: 'h
  system_reset :: bool

definition lwip_calls :: "net_call list \<Rightarrow> 'h ota_world \<Rightarrow> 'h ota_world" where
  "lwip_calls cs w = w\<lparr>net_calls := net_calls w @ cs\<rparr>"

definition ota_cleanup_connection :: "'h ota_world \<Rightarrow> 'h ota_world" where
  "ota_cleanup_connection w =
     (case g_ota_data_pcb w of
        None \<Rightarrow> w
      | Some pcb \<Rightarrow> (lwip_calls [Tcp_arg pcb, Tcp_recv pcb False, Tcp_err pcb False, Tcp_abort pcb] w)\<lparr>g_ota_data_pcb := None\<rparr>)"

definition ota_response :: "u8 \<Rightarrow> u8 list" where
  "ota_response status = le_bytes 4 ota_resp_magic @ [status, 0, 0, 0]"

definition ota_send_response :: "lwip \<Rightarrow> nat option \<Rightarrow> u8 \<Rightarrow> 'h ota_world \<Rightarrow> int \<times> 'h ota_world" where
  "ota_send_response net pcb status w =
     (let resp = ota_response status;
          err = lwip_write net (net_calls w) pcb resp;
          w1 = lwip_calls [Tcp_write pcb resp] w
      in if err = ERR_OK then (err, lwip_calls [Tcp_output pcb] w1) else (err, w1))"

text \<open>Queueing the segments of a received packet; the number of bytes queued is not looked at.\<close>

fun ota_queue_segments :: "u8 list list \<Rightarrow> 'h ota_world \<Rightarrow> 'h ota_world option" where
  "ota_queue_segments [] w = Some w"
| "ota_queue_segments (q # qs) w =
     (case xStreamBufferSend 0 [] (g_ota_stream w) q (word_of_nat (length q)) 0 of
        None \<Rightarrow> None
      | Some (_, sb) \<Rightarrow> ota_queue_segments qs (w\<lparr>g_ota_stream := sb\<rparr>))"

definition ota_recv :: "nat \<Rightarrow> pbuf option \<Rightarrow> int \<Rightarrow> 'h ota_world \<Rightarrow> (int \<times> 'h ota_world) option" where
  "ota_recv pcb p err w =
     (case p of
        None \<Rightarrow> Some (ERR_OK, ota_cleanup_connection w)
      | Some pb \<Rightarrow>
          if err \<noteq> ERR_OK then Some (err, lwip_calls [Pbuf_free] w)
          else (case ota_queue_segments (segs pb) (lwip_calls [Tcp_recved pcb (tot_len pb)] w) of
              None \<Rightarrow> None
            | Some w1 \<Rightarrow> Some (ERR_OK, lwip_calls [Pbuf_free] w1)))"

definition ota_err :: "int \<Rightarrow> 'h ota_world \<Rightarrow> 'h ota_world" where
  "ota_err err w = w\<lparr>g_ota_data_pcb := None\<rparr>"

definition ota_accept :: "nat option \<Rightarrow> int \<Rightarrow> 'h ota_world \<Rightarrow> int \<times> 'h ota_world" where
  "ota_accept newpcb err w =
     (case newpcb of
        None \<Rightarrow> (ERR_VAL, w)
      | Some pcb \<Rightarrow>
          if err \<noteq> ERR_OK then (ERR_VAL, w)
          else if g_ota_data_pcb w \<noteq> None then (ERR_ABRT, w)
          else (ERR_OK, lwip_calls [Tcp_arg pcb, Tcp_recv pcb True, Tcp_err pcb True]
            (w\<lparr>g_ota_stream := snd (xStreamBufferReset (g_ota_stream w)), g_ota_data_pcb := Some pcb\<rparr>)))"

text \<open>What the network thread may run between two points of the task.\<close>

datatype ota_event = Ev_accept "nat option" int | Ev_recv nat "pbuf option" int | Ev_err int

definition run_event :: "ota_event \<Rightarrow> 'h ota_world \<Rightarrow> 'h ota_world option" where
  "run_event ev w =
     (case ev of
        Ev_accept newpcb err \<Rightarrow> Some (snd (ota_accept newpcb err w))
      | Ev_recv pcb p err \<Rightarrow> map_option snd (ota_recv pcb p err w)
      | Ev_err err \<Rightarrow> Some (ota_err err w))"

fun run_events :: "ota_event list \<Rightarrow> 'h ota_world \<Rightarrow> 'h ota_world option" where
  "run_events [] w = Some w"
| "run_events (ev # evs) w = (case run_event ev w of None \<Rightarrow> None | Some w1 \<Rightarrow> run_events evs w1)"

section \<open>The task\<close>

record ota_task =
  header_buf :: "u8 list"
  header_received :: u32
  sector_buf :: "u8 list"
  sector_buf_pos :: u32
  current_sector :: u32
  received :: u32
  total_size :: u32
  expected_crc :: u32
  header_valid :: bool

definition ota_flush_sector :: "'h fmc_device \<Rightarrow> u8 list \<Rightarrow> u32 \<Rightarrow> u32 \<Rightarrow> 'h \<Rightarrow> (int \<times> 'h) option" where
  "ota_flush_sector dev buf buf_pos sector_idx h =
     (if buf_pos = 0 then Some (0, h)
      else (let (rc, h1) = ota_flash_erase_sector dev sector_idx h
            in if rc \<noteq> 0 then Some (-1, h1)
               else (case ota_flash_write dev (sector_idx * OTA_FLASH_SECTOR_SIZE) buf buf_pos h1 of
                   None \<Rightarrow> None
                 | Some (rc, h2) \<Rightarrow> if rc \<noteq> 0 then Some (-1, h2) else Some (0, h2))))"

text \<open>Setting the server up: the task returns when the stream or the listening control block is not available.\<close>

definition ota_server_setup ::
  "lwip \<Rightarrow> u32 \<Rightarrow> (u32 \<Rightarrow> u8 list option) \<Rightarrow> 'h \<Rightarrow> (net_call list + 'h ota_world) option" where
  "ota_server_setup net sizeof_StreamBuffer_t pvPortMalloc h =
     (case xStreamBufferGenericCreate sizeof_StreamBuffer_t pvPortMalloc OTA_STREAM_BUF_SIZE OTA_STREAM_TRIG_LEVEL
             sbTYPE_STREAM_BUFFER of
        None \<Rightarrow> None
      | Some None \<Rightarrow> Some (Inl [])
      | Some (Some sb) \<Rightarrow> Some
          (case lwip_new net of
             None \<Rightarrow> Inl []
           | Some pcb \<Rightarrow>
               if lwip_bind net pcb \<noteq> ERR_OK then Inl [Tcp_bind pcb OTA_SERVER_PORT, Memp_free pcb]
               else (case lwip_listen net pcb of
                   None \<Rightarrow> Inl [Tcp_bind pcb OTA_SERVER_PORT, Tcp_listen pcb]
                 | Some lpcb \<Rightarrow> Inr \<lparr>g_ota_stream = sb, g_ota_listen_pcb = Some lpcb, g_ota_data_pcb = None,
                     net_calls = [Tcp_bind pcb OTA_SERVER_PORT, Tcp_listen pcb, Tcp_accept lpcb],
                     ota_hw = h, system_reset = False\<rparr>)))"

definition ota_task_init :: "u8 list \<Rightarrow> u8 list \<Rightarrow> ota_task" where
  "ota_task_init header sector =
     \<lparr>header_buf = header, header_received = 0, sector_buf = sector, sector_buf_pos = 0, current_sector = 0,
      received = 0, total_size = 0, expected_crc = 0, header_valid = False\<rparr>"

text \<open>
  The blocking read of the task (task 1): the callbacks \<open>blocked\<close> run while it waits, if it has to wait. If none of
  them has woken it, it is still waiting afterwards: \<open>Inl\<close>, with the world as it is then.
\<close>

definition ota_waiting :: "'h ota_world \<Rightarrow> 'h ota_world" where
  "ota_waiting w = w\<lparr>g_ota_stream := (g_ota_stream w)\<lparr>xTaskWaitingToReceive := Some 1\<rparr>\<rparr>"

definition ota_receive ::
  "ota_event list \<Rightarrow> u32 \<Rightarrow> 'h ota_world \<Rightarrow> ('h ota_world + u8 list \<times> 'h ota_world) option" where
  "ota_receive blocked k w =
     (case (if prvBytesInBuffer (g_ota_stream w) \<le> 0 then run_events blocked (ota_waiting w) else Some w) of
        None \<Rightarrow> None
      | Some w1 \<Rightarrow>
          (case xStreamBufferReceive 1 (\<lambda>_. g_ota_stream w1) (g_ota_stream w) k portMAX_DELAY of
             None \<Rightarrow> None
           | Some (Blocked sb) \<Rightarrow> Some (Inl (w1\<lparr>g_ota_stream := sb\<rparr>))
           | Some (Received bs sb) \<Rightarrow> Some (Inr (bs, w1\<lparr>g_ota_stream := sb\<rparr>))))"

text \<open>The first phase: collecting and checking the header.\<close>

definition ota_header_step :: "lwip \<Rightarrow> u8 list \<Rightarrow> 'h ota_world \<times> ota_task \<Rightarrow> 'h ota_world \<times> ota_task" where
  "ota_header_step net bs wt =
     (let (w, t) = wt;
          buf = store_at (unat (header_received t)) bs (header_buf t);
          got = header_received t + word_of_nat (length bs);
          t1 = t\<lparr>header_buf := buf, header_received := got\<rparr>
      in if got < OTA_HEADER_SIZE then (w, t1)
         else if take 8 buf \<noteq> ota_magic
         then (snd (ota_send_response net (g_ota_data_pcb w) OTA_STATUS_ERROR w), t1\<lparr>header_received := 0\<rparr>)
         else (let size = le_word (seg 8 4 buf); crc = le_word (seg 12 4 buf);
                   t2 = t1\<lparr>total_size := size, expected_crc := crc\<rparr>
               in if size = 0 \<or> size > OTA_MAX_FIRMWARE_SIZE
                  then (snd (ota_send_response net (g_ota_data_pcb w) OTA_STATUS_SIZE_MISMATCH w), t2\<lparr>header_received := 0\<rparr>)
                  else (w, t2\<lparr>header_valid := True, received := 0, sector_buf_pos := 0, current_sector := 0\<rparr>)))"

text \<open>An attempt is given up: reply with the status, forget the header.\<close>

definition ota_abandon :: "lwip \<Rightarrow> u8 \<Rightarrow> 'h ota_world \<times> ota_task \<Rightarrow> 'h ota_world \<times> ota_task" where
  "ota_abandon net status wt =
     (let (w, t) = wt
      in (snd (ota_send_response net (g_ota_data_pcb w) status w),
          t\<lparr>header_valid := False, header_received := 0, sector_buf_pos := 0\<rparr>))"

text \<open>The loop that writes out full sectors; the copy of a remainder would read behind the array.\<close>

function ota_flush_loop :: "'h fmc_device \<Rightarrow> lwip \<Rightarrow> 'h ota_world \<times> ota_task \<Rightarrow> ('h ota_world \<times> ota_task) option" where
  "ota_flush_loop dev net (w, t) =
     (if sector_buf_pos t \<ge> OTA_FLASH_SECTOR_SIZE
      then (case ota_flush_sector dev (sector_buf t) OTA_FLASH_SECTOR_SIZE (current_sector t) (ota_hw w) of
          None \<Rightarrow> None
        | Some (rc, h) \<Rightarrow>
            if rc \<noteq> 0 then Some (ota_abandon net OTA_STATUS_FLASH_ERROR (w\<lparr>ota_hw := h\<rparr>, t))
            else (let t1 = t\<lparr>current_sector := current_sector t + 1, sector_buf_pos := sector_buf_pos t - OTA_FLASH_SECTOR_SIZE\<rparr>
                  in if sector_buf_pos t1 > 0 then None
                     else ota_flush_loop dev net (w\<lparr>ota_hw := h\<rparr>, t1)))
      else Some (w, t))"
  by pat_completeness auto
termination
  by (relation "measure (\<lambda>(dev, net, w, t). unat (sector_buf_pos t))")
    (auto simp: unat_diff_le word_le_nat_alt OTA_FLASH_SECTOR_SIZE_def)

declare ota_flush_loop.simps [simp del]

text \<open>The check of a complete image, with the restart.\<close>

definition ota_finish :: "'h fmc_device \<Rightarrow> lwip \<Rightarrow> 'h ota_world \<times> ota_task \<Rightarrow> ('h ota_world \<times> ota_task) option" where
  "ota_finish dev net wt =
     (let (w, t) = wt
      in case ota_flush_sector dev (sector_buf t) (sector_buf_pos t) (current_sector t) (ota_hw w) of
           None \<Rightarrow> None
         | Some (rc, h) \<Rightarrow>
             (let w1 = w\<lparr>ota_hw := h\<rparr>
              in if rc \<noteq> 0 then Some (ota_abandon net OTA_STATUS_FLASH_ERROR (w1, t))
                 else if ota_flash_crc32 dev 0 (total_size t) h \<noteq> expected_crc t
                 then Some (ota_abandon net OTA_STATUS_CRC_FAIL (w1, t))
                 else Some ((snd (ota_send_response net (g_ota_data_pcb w1) OTA_STATUS_OK w1))\<lparr>system_reset := True\<rparr>, t)))"

text \<open>The second phase: collecting sectors.\<close>

definition ota_data_step ::
  "'h fmc_device \<Rightarrow> lwip \<Rightarrow> u8 list \<Rightarrow> 'h ota_world \<times> ota_task \<Rightarrow> ('h ota_world \<times> ota_task) option" where
  "ota_data_step dev net bs wt =
     (let (w, t) = wt
      in if bs = [] then Some (w, t)
         else (let t1 = t\<lparr>sector_buf := store_at (unat (sector_buf_pos t)) bs (sector_buf t),
                          sector_buf_pos := sector_buf_pos t + word_of_nat (length bs),
                          received := received t + word_of_nat (length bs)\<rparr>
               in case ota_flush_loop dev net (w, t1) of
                    None \<Rightarrow> None
                  | Some (w2, t2) \<Rightarrow>
                      if \<not> header_valid t2 then Some (w2, t2)
                      else if received t2 \<ge> total_size t2 then ota_finish dev net (w2, t2)
                      else Some (w2, t2)))"

text \<open>One iteration: the room asked for depends on the phase. Nothing runs after the restart.\<close>

definition ota_room :: "ota_task \<Rightarrow> u32" where
  "ota_room t = (if header_valid t then OTA_FLASH_SECTOR_SIZE - sector_buf_pos t else OTA_HEADER_SIZE - header_received t)"

definition ota_consume ::
  "'h fmc_device \<Rightarrow> lwip \<Rightarrow> u8 list \<Rightarrow> 'h ota_world \<times> ota_task \<Rightarrow> ('h ota_world \<times> ota_task) option" where
  "ota_consume dev net bs wt =
     (if header_valid (snd wt) then ota_data_step dev net bs wt else Some (ota_header_step net bs wt))"

definition ota_iteration ::
  "'h fmc_device \<Rightarrow> lwip \<Rightarrow> ota_event list \<Rightarrow> 'h ota_world \<times> ota_task \<Rightarrow>
   ('h ota_world + u8 list \<times> 'h ota_world \<times> ota_task) option" where
  "ota_iteration dev net blocked wt =
     (let (w, t) = wt
      in if system_reset w then Some (Inr ([], w, t))
         else (case ota_receive blocked (ota_room t) w of
             None \<Rightarrow> None
           | Some (Inl w1) \<Rightarrow> Some (Inl w1)
           | Some (Inr (bs, w1)) \<Rightarrow>
               (case ota_consume dev net bs (w1, t) of None \<Rightarrow> None | Some (w2, t2) \<Rightarrow> Some (Inr (bs, w2, t2)))))"

text \<open>
  A run: in every round the callbacks \<open>before\<close> run, then one iteration of the task, during whose wait,
  if it waits, the callbacks \<open>blocked\<close> run. A wait that they do not end goes on through the callbacks of the next round;
  if there is none, the run ends with the task waiting. The bytes the task took from the stream are collected.
\<close>

fun ota_run ::
  "'h fmc_device \<Rightarrow> lwip \<Rightarrow> (ota_event list \<times> ota_event list) list \<Rightarrow> 'h ota_world \<times> ota_task \<Rightarrow>
   (u8 list \<times> 'h ota_world \<times> ota_task) option" where
  "ota_run dev net [] wt = Some ([], wt)"
| "ota_run dev net ((before, blocked) # rounds) wt =
     (case run_events before (fst wt) of
        None \<Rightarrow> None
      | Some w1 \<Rightarrow>
          (case ota_iteration dev net blocked (w1, snd wt) of
             None \<Rightarrow> None
           | Some (Inl w2) \<Rightarrow>
               (case rounds of
                  [] \<Rightarrow> Some ([], w2, snd wt)
                | (before', blocked') # rounds' \<Rightarrow> ota_run dev net ((before, blocked @ before' @ blocked') # rounds') wt)
           | Some (Inr (bs, wt2)) \<Rightarrow>
               (case ota_run dev net rounds wt2 of None \<Rightarrow> None | Some (bs2, wt3) \<Rightarrow> Some (bs @ bs2, wt3))))"

section \<open>The contract of the slot\<close>

text \<open>
  What the task relies on when it writes sectors: a sector store of 160 sectors, indexed by the
  byte. A successful write puts the block at the start of its sector and keeps every other
  sector; no write, successful or not, changes anything outside the store.
\<close>

locale sector_store =
  fixes invar :: "'s \<Rightarrow> bool"
    and byte_at :: "'s \<Rightarrow> nat \<Rightarrow> u8"
    and elsewhere :: "'s \<Rightarrow> 'x"
    and put :: "nat \<Rightarrow> u8 list \<Rightarrow> nat \<Rightarrow> 's \<Rightarrow> bool \<times> 's"
  assumes put_invar: "invar s \<Longrightarrow> i < 160 \<Longrightarrow> n \<le> length bs \<Longrightarrow> n \<le> 4096 \<Longrightarrow> put i bs n s = (ok, s') \<Longrightarrow> invar s'"
    and put_written: "invar s \<Longrightarrow> i < 160 \<Longrightarrow> n \<le> length bs \<Longrightarrow> n \<le> 4096 \<Longrightarrow> put i bs n s = (True, s') \<Longrightarrow>
      k < n \<Longrightarrow> byte_at s' (i * 4096 + k) = bs ! k"
    and put_frame: "invar s \<Longrightarrow> i < 160 \<Longrightarrow> n \<le> length bs \<Longrightarrow> n \<le> 4096 \<Longrightarrow> put i bs n s = (True, s') \<Longrightarrow>
      k < 160 * 4096 \<Longrightarrow> k div 4096 \<noteq> i \<Longrightarrow> byte_at s' k = byte_at s k"
    and put_elsewhere: "invar s \<Longrightarrow> i < 160 \<Longrightarrow> n \<le> length bs \<Longrightarrow> n \<le> 4096 \<Longrightarrow> put i bs n s = (ok, s') \<Longrightarrow>
      elsewhere s' = elsewhere s"
begin

text \<open>Writing the sector behind an image of whole sectors extends the image.\<close>

lemma put_extends:
  assumes "invar s" and "i < 160" and "n \<le> length bs" and "n \<le> 4096" and "put i bs n s = (True, s')"
  shows "map (byte_at s') [0..<i * 4096 + n] = map (byte_at s) [0..<i * 4096] @ take n bs"
proof (rule nth_equalityI)
  fix k
  assume "k < length (map (byte_at s') [0..<i * 4096 + n])"
  then have k: "k < i * 4096 + n" by simp
  show "map (byte_at s') [0..<i * 4096 + n] ! k = (map (byte_at s) [0..<i * 4096] @ take n bs) ! k"
  proof (cases "k < i * 4096")
    case True
    then have "k div 4096 < i" by (simp add: less_mult_imp_div_less)
    then have "byte_at s' k = byte_at s k" using put_frame [OF assms, of k] True assms(2) by simp
    then show ?thesis using True k by (simp add: nth_append)
  next
    case False
    then have "byte_at s' (i * 4096 + (k - i * 4096)) = bs ! (k - i * 4096)"
      using put_written [OF assms, of "k - i * 4096"] k by simp
    then show ?thesis using False k by (simp add: nth_append)
  qed
qed (use assms(3) in simp)

end

text \<open>The secondary slot as such a store: a controller together with its state.\<close>

definition slot_byte :: "'h fmc_device \<times> 'h \<Rightarrow> nat \<Rightarrow> u8" where
  "slot_byte s k = flash (fst s) (snd s) (SECONDARY_SLOT_ADDR + word_of_nat k)"

definition slot_elsewhere :: "'h fmc_device \<times> 'h \<Rightarrow> u32 \<Rightarrow> u8" where
  "slot_elsewhere s = (\<lambda>b. if slot_addr b then 0 else flash (fst s) (snd s) b)"

definition slot_put :: "nat \<Rightarrow> u8 list \<Rightarrow> nat \<Rightarrow> 'h fmc_device \<times> 'h \<Rightarrow> bool \<times> 'h fmc_device \<times> 'h" where
  "slot_put i bs n s =
     (case ota_flush_sector (fst s) bs (word_of_nat n) (word_of_nat i) (snd s) of
        None \<Rightarrow> (False, s) | Some (rc, h) \<Rightarrow> (rc = 0, fst s, h))"

definition slot_ok :: "'h fmc_device \<times> 'h \<Rightarrow> bool" where
  "slot_ok s \<longleftrightarrow> fmc_hardware (fst s)"

lemma slot_byte_addr:
  assumes "k < 160 * 4096"
  shows "unat (SECONDARY_SLOT_ADDR + word_of_nat k) = 0x080C0000 + k"
proof -
  have "unat (word_of_nat k :: u32) = k" using assms by (intro word_of_nat_eq_nat_iff) simp
  then show ?thesis using assms by (subst unat_add_small) (simp_all add: SECONDARY_SLOT_ADDR_def)
qed

lemma sector_addr:
  assumes "unat idx < 160"
  shows "SECONDARY_SLOT_ADDR + idx * FLASH_SECTOR_SIZE = SECONDARY_SLOT_ADDR + word_of_nat (unat idx * 4096)"
    "unat (idx * FLASH_SECTOR_SIZE) = unat idx * 4096"
proof -
  have "unat idx * 4096 < 2 ^ 32" using assms by simp
  then show "unat (idx * FLASH_SECTOR_SIZE) = unat idx * 4096"
    by (simp add: FLASH_SECTOR_SIZE_def unat_word_ariths)
  moreover have "unat (word_of_nat (unat idx * 4096) :: u32) = unat idx * 4096"
    using assms by (intro word_of_nat_eq_nat_iff) simp
  ultimately have "idx * FLASH_SECTOR_SIZE = word_of_nat (unat idx * 4096)" by (simp only: word_unat_eq_iff)
  then show "SECONDARY_SLOT_ADDR + idx * FLASH_SECTOR_SIZE = SECONDARY_SLOT_ADDR + word_of_nat (unat idx * 4096)" by simp
qed

lemma slot_byte_sector:
  assumes "k < 160 * 4096" and "unat idx < 160" and "k div 4096 \<noteq> unat idx"
  shows "flash_sector (SECONDARY_SLOT_ADDR + word_of_nat k) \<noteq> flash_sector (SECONDARY_SLOT_ADDR + idx * FLASH_SECTOR_SIZE)"
proof
  assume "flash_sector (SECONDARY_SLOT_ADDR + word_of_nat k) = flash_sector (SECONDARY_SLOT_ADDR + idx * FLASH_SECTOR_SIZE)"
  then have "unat (flash_sector (SECONDARY_SLOT_ADDR + word_of_nat k)) =
      unat (flash_sector (SECONDARY_SLOT_ADDR + word_of_nat (unat idx * 4096)))"
    unfolding sector_addr(1) [OF assms(2)] by simp
  moreover have "unat idx * 4096 < 160 * 4096" using assms(2) by simp
  ultimately have "(0x080C0000 + k) div 4096 = (0x080C0000 + unat idx * 4096) div 4096"
    by (simp only: flash_sector_div slot_byte_addr [OF assms(1)] slot_byte_addr)
  then have "k div 4096 = unat idx" by simp
  with assms(3) show False by simp
qed

lemma flush_total:
  assumes "fmc_hardware dev" and "unat n \<le> length buf" and "unat idx < 160" and "unat n \<le> 4096"
  shows "\<exists>rc h'. ota_flush_sector dev buf n idx h = Some (rc, h') \<and> (rc = 0 \<or> rc = -1) \<and>
    (\<forall>b. \<not> slot_addr b \<longrightarrow> flash dev h' b = flash dev h b) \<and>
    (rc = 0 \<longrightarrow> n \<noteq> 0 \<longrightarrow> (\<exists>h1. h1 = snd (ota_flash_erase_sector dev idx h) \<and>
       flash_written dev (SECONDARY_SLOT_ADDR + idx * FLASH_SECTOR_SIZE) (take (unat n) buf) h1 h'))"
proof (cases "n = 0")
  case True
  then show ?thesis by (simp add: ota_flush_sector_def)
next
  case False
  obtain rc1 h1 where e: "ota_flash_erase_sector dev idx h = (rc1, h1)" by (rule prod.exhaust)
  have fr: "flash dev h1 b = flash dev h b" if "\<not> slot_addr b" for b
  proof -
    have "flash_sector b \<noteq> flash_sector (SECONDARY_SLOT_ADDR + idx * FLASH_SECTOR_SIZE)"
      using sector_in_slot [OF assms(3), of b] that by blast
    from ota_flash_erase_frame [OF assms(1) this, of h] e show ?thesis by simp
  qed
  have sz: "OTA_FLASH_SECTOR_SIZE = FLASH_SECTOR_SIZE" by (simp add: OTA_FLASH_SECTOR_SIZE_def FLASH_SECTOR_SIZE_def)
  obtain rc2 h2 where w: "ota_flash_write dev (idx * FLASH_SECTOR_SIZE) buf n h1 = Some (rc2, h2)" and r: "rc2 = 0 \<or> rc2 = -1"
    and wr: "rc2 = 0 \<longrightarrow> flash_written dev (SECONDARY_SLOT_ADDR + idx * FLASH_SECTOR_SIZE) (take (unat n) buf) h1 h2"
  proof -
    obtain rc0 h0 where run: "ota_flash_write dev (idx * FLASH_SECTOR_SIZE) buf n h1 =
      (if idx * FLASH_SECTOR_SIZE + n > SECONDARY_SLOT_SIZE then Some (-1, h1) else Some (rc0, ota_flash_close dev h0))"
      and "rc0 = 0 \<or> rc0 = -1" using ota_flash_write_total [OF assms(2), of dev "idx * FLASH_SECTOR_SIZE" h1] by blast
    then obtain rc2 h2 where w: "ota_flash_write dev (idx * FLASH_SECTOR_SIZE) buf n h1 = Some (rc2, h2)" "rc2 = 0 \<or> rc2 = -1"
      by (cases "idx * FLASH_SECTOR_SIZE + n > SECONDARY_SLOT_SIZE") auto
    have "rc2 = 0 \<longrightarrow> flash_written dev (SECONDARY_SLOT_ADDR + idx * FLASH_SECTOR_SIZE) (take (unat n) buf) h1 h2"
      using ota_flash_write_written [OF assms(1,2), of "idx * FLASH_SECTOR_SIZE" h1 h2] w(1) by blast
    with that w show ?thesis by blast
  qed
  have "unat (idx * FLASH_SECTOR_SIZE) + unat n < 2 ^ 32" using sector_addr(2) [OF assms(3)] assms(3,4) by simp
  then have fr2: "flash dev h2 b = flash dev h1 b" if "\<not> slot_addr b" for b
    using ota_flash_write_slot [OF assms(1) w] that by blast
  show ?thesis
    unfolding ota_flush_sector_def Let_def e prod.case sz w option.case if_not_P [OF False]
    using fr fr2 r wr by auto
qed

interpretation slot: sector_store slot_ok slot_byte slot_elsewhere slot_put
proof unfold_locales
  fix s :: "'h fmc_device \<times> 'h" and i bs n ok s'
  assume a: "slot_ok s" "i < 160" "n \<le> length bs" "n \<le> 4096" "slot_put i bs n s = (ok, s')"
  have i: "unat (word_of_nat i :: u32) = i" and l: "unat (word_of_nat n :: u32) = n"
    using a(2,4) by (auto intro!: word_of_nat_eq_nat_iff)
  obtain rc h where f: "ota_flush_sector (fst s) bs (word_of_nat n) (word_of_nat i) (snd s) = Some (rc, h)"
    and out: "\<forall>b. \<not> slot_addr b \<longrightarrow> flash (fst s) h b = flash (fst s) (snd s) b"
    and wr: "rc = 0 \<longrightarrow> (word_of_nat n :: u32) \<noteq> 0 \<longrightarrow> (\<exists>h1. h1 = snd (ota_flash_erase_sector (fst s) (word_of_nat i) (snd s)) \<and>
       flash_written (fst s) (SECONDARY_SLOT_ADDR + word_of_nat i * FLASH_SECTOR_SIZE) (take n bs) h1 h)"
    using flush_total [of "fst s" "word_of_nat n" bs "word_of_nat i" "snd s"] a i l by (auto simp: slot_ok_def)
  have s': "s' = (fst s, h)" "ok = (rc = 0)" using a(5) f by (simp_all add: slot_put_def)
  show "slot_ok s'" using a(1) s' by (simp add: slot_ok_def)
  show "slot_elsewhere s' = slot_elsewhere s" using out s' by (auto simp: slot_elsewhere_def)
next
  fix s :: "'h fmc_device \<times> 'h" and i bs n s' k
  assume a: "slot_ok s" "i < 160" "n \<le> length bs" "n \<le> 4096" "slot_put i bs n s = (True, s')"
  have i: "unat (word_of_nat i :: u32) = i" and l: "unat (word_of_nat n :: u32) = n"
    using a(2,4) by (auto intro!: word_of_nat_eq_nat_iff)
  have hw: "fmc_hardware (fst s)" using a(1) by (simp add: slot_ok_def)
  let ?a = "SECONDARY_SLOT_ADDR + word_of_nat i * FLASH_SECTOR_SIZE"
  obtain rc h where f: "ota_flush_sector (fst s) bs (word_of_nat n) (word_of_nat i) (snd s) = Some (rc, h)"
    and wr: "rc = 0 \<longrightarrow> (word_of_nat n :: u32) \<noteq> 0 \<longrightarrow> (\<exists>h1. h1 = snd (ota_flash_erase_sector (fst s) (word_of_nat i) (snd s)) \<and>
       flash_written (fst s) ?a (take n bs) h1 h)"
    using flush_total [of "fst s" "word_of_nat n" bs "word_of_nat i" "snd s"] a i l by (auto simp: slot_ok_def)
  have s': "s' = (fst s, h)" "rc = 0" using a(5) f by (simp_all add: slot_put_def)
  have addr: "?a = SECONDARY_SLOT_ADDR + word_of_nat (i * 4096)" using sector_addr(1) [of "word_of_nat i"] i a(2) by simp
  have dist: "unat (SECONDARY_SLOT_ADDR + word_of_nat m - ?a) = m - i * 4096" if "i * 4096 \<le> m" "m < 160 * 4096" for m
  proof -
    have "unat ?a = 0x080C0000 + i * 4096" unfolding addr using slot_byte_addr [of "i * 4096"] a(2) by simp
    then show ?thesis using slot_byte_addr [OF that(2)] that(1) by (subst unat_diff_le) (simp_all add: word_le_nat_alt)
  qed
  show "slot_byte s' (i * 4096 + k) = bs ! k" if k: "k < n"
  proof -
    have "(word_of_nat n :: u32) \<noteq> 0" using l k by auto
    then obtain h1 where "flash_written (fst s) ?a (take n bs) h1 h" using wr s'(2) by auto
    then show ?thesis
      using dist [of "i * 4096 + k"] k a(2,3,4) by (simp add: slot_byte_def s'(1) flash_written_def)
  qed
  show "slot_byte s' k = slot_byte s k" if k: "k < 160 * 4096" "k div 4096 \<noteq> i"
  proof (cases "n = 0")
    case True
    then show ?thesis using f s' by (simp add: ota_flush_sector_def slot_byte_def)
  next
    case False
    then have "(word_of_nat n :: u32) \<noteq> 0" using l by auto
    then have fw: "flash_written (fst s) ?a (take n bs) (snd (ota_flash_erase_sector (fst s) (word_of_nat i) (snd s))) h" using wr s'(2) by auto
    let ?b = "SECONDARY_SLOT_ADDR + word_of_nat k"
    have far: "\<not> unat (?b - ?a) < length (take n bs)"
    proof (cases "i * 4096 \<le> k")
      case True
      moreover have "\<not> k < i * 4096 + 4096" using True k(2) by (auto simp: div_nat_eqI)
      ultimately show ?thesis using dist [OF True k(1)] a(4) by auto
    next
      case below: False
      have ua: "unat ?a = 0x080C0000 + i * 4096" unfolding addr using slot_byte_addr [of "i * 4096"] a(2) by simp
      have "n \<le> unat (?b - ?a)"
        using below ua slot_byte_addr [OF k(1)] a(2,4) by (subst unat_sub_if') simp
      then show ?thesis by simp
    qed
    have "flash_sector ?b \<noteq> flash_sector ?a" using slot_byte_sector [OF k(1), of "word_of_nat i"] i a(2) k(2) by simp
    from ota_flash_erase_frame [OF hw this, of "snd s"] fw far show ?thesis
      unfolding slot_byte_def s'(1) flash_written_def fst_conv snd_conv by presburger
  qed
qed

section \<open>Invariant of the callbacks\<close>

definition stream_idle :: "'h ota_world \<Rightarrow> bool" where
  "stream_idle w \<longleftrightarrow> stream_ready (g_ota_stream w) \<and> xTaskWaitingToReceive (g_ota_stream w) = None"

text \<open>Nobody forgets to wake the task: with the trigger level of the server it waits only while the stream is empty.\<close>

definition sb_calm :: "StreamBuffer_t \<Rightarrow> bool" where
  "sb_calm sb \<longleftrightarrow> stream_ready sb \<and> xTriggerLevelBytes sb = 1 \<and> (xTaskWaitingToReceive sb \<noteq> None \<longrightarrow> sb_contents sb = [])"

text \<open>
  What a callback keeps: the flash and whether the system restarted, a usable stream of the same length, and that no OK
  reply is sent.
\<close>

definition ok_replied :: "'h ota_world \<Rightarrow> bool" where
  "ok_replied w \<longleftrightarrow> (\<exists>pcb. Tcp_write pcb (ota_response OTA_STATUS_OK) \<in> set (net_calls w))"

definition callback_keeps :: "'h ota_world \<Rightarrow> 'h ota_world \<Rightarrow> bool" where
  "callback_keeps w w' \<longleftrightarrow> ota_hw w' = ota_hw w \<and> system_reset w' = system_reset w \<and> ok_replied w' = ok_replied w \<and>
     (stream_ready (g_ota_stream w) \<longrightarrow> stream_ready (g_ota_stream w')) \<and> (stream_idle w \<longrightarrow> stream_idle w') \<and>
     (sb_calm (g_ota_stream w) \<longrightarrow> sb_calm (g_ota_stream w')) \<and> xLength (g_ota_stream w') = xLength (g_ota_stream w)"

lemma callback_keeps_refl: "callback_keeps w w"
  by (simp add: callback_keeps_def)

lemma callback_keeps_trans: "callback_keeps w w1 \<Longrightarrow> callback_keeps w1 w2 \<Longrightarrow> callback_keeps w w2"
  by (auto simp: callback_keeps_def)

lemma callback_keeps_net:
  "(\<And>pcb. Tcp_write pcb (ota_response OTA_STATUS_OK) \<notin> set cs) \<Longrightarrow> callback_keeps w (lwip_calls cs w)"
  by (auto simp: callback_keeps_def lwip_calls_def stream_idle_def ok_replied_def)

lemma callback_keeps_pcb: "callback_keeps w (w\<lparr>g_ota_data_pcb := p\<rparr>)"
  by (auto simp: callback_keeps_def stream_idle_def ok_replied_def)

lemma callback_keeps_stream:
  assumes "stream_ready (g_ota_stream w) \<Longrightarrow> stream_ready sb"
    and "stream_idle w \<Longrightarrow> xTaskWaitingToReceive sb = None"
    and "sb_calm (g_ota_stream w) \<Longrightarrow> sb_calm sb" and "xLength sb = xLength (g_ota_stream w)"
  shows "callback_keeps w (w\<lparr>g_ota_stream := sb\<rparr>)"
  using assms by (auto simp: callback_keeps_def stream_idle_def ok_replied_def)

lemma queue_segment:
  assumes r: "stream_ready sb" and q: "length q < 65536"
  shows "\<exists>n sb'. xStreamBufferSend 0 [] sb q (word_of_nat (length q)) 0 = Some (n, sb') \<and> stream_ready sb' \<and>
    unat n = min (length q) (stream_capacity sb - length (sb_contents sb)) \<and> sb_contents sb' = sb_contents sb @ take (unat n) q \<and>
    xLength sb' = xLength sb \<and> (xTaskWaitingToReceive sb = None \<longrightarrow> xTaskWaitingToReceive sb' = None) \<and> (sb_calm sb \<longrightarrow> sb_calm sb')"
proof -
  have l: "unat (word_of_nat (length q) :: u32) = length q" using q by (intro word_of_nat_eq_nat_iff) simp
  have st: "sb_wf sb" "\<not> is_message_buffer sb" "is_stream sb" using r by (simp_all add: stream_ready_def is_stream_def)
  obtain n sb' where s: "xStreamBufferSend 0 [] sb q (word_of_nat (length q)) 0 = Some (n, sb')"
    and n: "unat n = min (length q) (unat (xLength sb) - 1 - sb_count sb)"
    and f: "sb_wf sb'" "sb_contents sb' = sb_contents sb @ take (unat n) q" "xLength sb' = xLength sb" "ucFlags sb' = ucFlags sb"
      "xTriggerLevelBytes sb' = xTriggerLevelBytes sb"
    and wt: "xTaskWaitingToReceive sb' = None \<or> xTaskWaitingToReceive sb' = xTaskWaitingToReceive sb"
      "n > 0 \<longrightarrow> prvBytesInBuffer sb' \<ge> xTriggerLevelBytes sb' \<longrightarrow> xTaskWaitingToReceive sb' = None"
    using stream_send_now [OF st(1,2), of "word_of_nat (length q)" q 0 "[]"] l by auto
  have ready: "stream_ready sb'" using f(1) st(3) is_stream_flags [OF f(4)] by (simp add: stream_ready_def)
  have "sb_contents sb' = []" if c: "sb_calm sb" and b: "xTaskWaitingToReceive sb' \<noteq> None"
  proof -
    have "\<not> (n > 0 \<and> prvBytesInBuffer sb' \<ge> 1)" using wt(2) b c f(5) by (auto simp: sb_calm_def)
    then have "n = 0 \<or> length (sb_contents sb') = 0"
      using prvBytesInBuffer_count [OF f(1)] by (auto simp: word_less_nat_alt word_le_nat_alt word_unat_eq_iff)
    then show ?thesis
    proof
      assume "n = 0"
      then show ?thesis using f(2) wt(1) b c by (auto simp: sb_calm_def)
    qed (simp only: length_0_conv)
  qed
  then have "sb_calm sb \<longrightarrow> sb_calm sb'" using ready f(5) by (auto simp: sb_calm_def)
  with s n f(2,3) wt(1) ready show ?thesis by (auto simp: stream_capacity_def)
qed

lemma ota_queue_segments_keeps:
  assumes "stream_ready (g_ota_stream w)" and "\<forall>q\<in>set qs. length q < 65536"
  shows "\<exists>w'. ota_queue_segments qs w = Some w' \<and> callback_keeps w w'"
  using assms
proof (induction qs arbitrary: w)
  case Nil
  then show ?case by (simp add: callback_keeps_refl)
next
  case (Cons q qs)
  obtain n sb where s: "xStreamBufferSend 0 [] (g_ota_stream w) q (word_of_nat (length q)) 0 = Some (n, sb)"
    and ready: "stream_ready sb" and f: "xLength sb = xLength (g_ota_stream w)"
      "xTaskWaitingToReceive (g_ota_stream w) = None \<longrightarrow> xTaskWaitingToReceive sb = None" "sb_calm (g_ota_stream w) \<longrightarrow> sb_calm sb"
    using queue_segment [OF Cons.prems(1), of q] Cons.prems(2) by auto
  have k: "callback_keeps w (w\<lparr>g_ota_stream := sb\<rparr>)"
    using ready f by (intro callback_keeps_stream) (simp_all add: stream_idle_def)
  obtain w' where "ota_queue_segments qs (w\<lparr>g_ota_stream := sb\<rparr>) = Some w'" "callback_keeps (w\<lparr>g_ota_stream := sb\<rparr>) w'"
    using Cons.IH [of "w\<lparr>g_ota_stream := sb\<rparr>"] ready Cons.prems(2) by auto
  with k s show ?case by (auto intro: callback_keeps_trans)
qed

text \<open>A packet of the network stack: no segment is longer than its 16-bit length.\<close>

definition event_ok :: "ota_event \<Rightarrow> bool" where
  "event_ok ev = (case ev of Ev_recv _ (Some pb) _ \<Rightarrow> (\<forall>q\<in>set (segs pb). length q < 65536) | _ \<Rightarrow> True)"

lemma reset_ready: "stream_ready sb \<Longrightarrow> stream_ready (snd (xStreamBufferReset sb))"
proof -
  assume r: "stream_ready sb"
  then have n: "sb_wf sb" "is_stream sb" by (simp_all add: stream_ready_def)
  have l: "0 + length (replicate (unat (xLength sb)) (0x55 :: u8)) \<le> length (pucBuffer sb)"
    using sb_wf_nat(4) [OF n(1)] by simp
  have pos: "0 < xLength sb" using n(1) by (metis sb_wf_def word_neq_0_conv word_not_simps(1))
  show ?thesis
    using r pos n length_store_at [OF l]
    by (simp add: xStreamBufferReset_def prvInitialiseNewStreamBuffer_def stream_ready_def sb_wf_def is_stream_def is_message_buffer_def)
qed

lemma reset_idle: "xTaskWaitingToReceive sb = None \<Longrightarrow> xTaskWaitingToReceive (snd (xStreamBufferReset sb)) = None"
  by (simp add: xStreamBufferReset_def prvInitialiseNewStreamBuffer_def)

lemma reset_length: "xLength (snd (xStreamBufferReset sb)) = xLength sb"
  by (simp add: xStreamBufferReset_def prvInitialiseNewStreamBuffer_def)

lemma reset_calm: "sb_calm sb \<Longrightarrow> sb_calm (snd (xStreamBufferReset sb))"
  using reset_ready [of sb] by (auto simp: sb_calm_def xStreamBufferReset_def prvInitialiseNewStreamBuffer_def)

lemma run_event_keeps:
  assumes "stream_ready (g_ota_stream w)" and "event_ok ev"
  shows "\<exists>w'. run_event ev w = Some w' \<and> callback_keeps w w'"
proof (cases ev)
  case (Ev_accept newpcb err)
  have "callback_keeps w (w\<lparr>g_ota_stream := snd (xStreamBufferReset (g_ota_stream w))\<rparr>)"
    using reset_ready reset_idle reset_calm by (intro callback_keeps_stream) (auto simp: stream_idle_def reset_length)
  then have "callback_keeps w (lwip_calls [Tcp_arg pcb, Tcp_recv pcb True, Tcp_err pcb True]
      (w\<lparr>g_ota_stream := snd (xStreamBufferReset (g_ota_stream w)), g_ota_data_pcb := Some pcb\<rparr>))" for pcb
    by (rule callback_keeps_trans [OF callback_keeps_trans [OF _ callback_keeps_pcb] callback_keeps_net]) simp
  then show ?thesis
    using Ev_accept by (auto simp: run_event_def ota_accept_def callback_keeps_refl split: option.split)
next
  case (Ev_err err)
  then show ?thesis by (simp add: run_event_def ota_err_def callback_keeps_pcb)
next
  case (Ev_recv pcb p err)
  show ?thesis
  proof (cases p)
    case None
    have "callback_keeps w (ota_cleanup_connection w)"
      unfolding ota_cleanup_connection_def
      by (auto simp: callback_keeps_refl split: option.split
          intro!: callback_keeps_trans [OF callback_keeps_net callback_keeps_pcb])
    then show ?thesis using Ev_recv None by (simp add: run_event_def ota_recv_def)
  next
    case (Some pb)
    have k1: "callback_keeps w (lwip_calls [Tcp_recved pcb (tot_len pb)] w)" "callback_keeps w (lwip_calls [Pbuf_free] w)"
      by (intro callback_keeps_net; simp)+
    have "stream_ready (g_ota_stream (lwip_calls [Tcp_recved pcb (tot_len pb)] w))" using assms(1) by (simp add: lwip_calls_def)
    then obtain w1 where q: "ota_queue_segments (segs pb) (lwip_calls [Tcp_recved pcb (tot_len pb)] w) = Some w1"
      "callback_keeps (lwip_calls [Tcp_recved pcb (tot_len pb)] w) w1"
      using ota_queue_segments_keeps [of "lwip_calls [Tcp_recved pcb (tot_len pb)] w" "segs pb"] assms(2) Ev_recv Some
      by (auto simp: event_ok_def)
    have "callback_keeps w1 (lwip_calls [Pbuf_free] w1)" by (intro callback_keeps_net) simp
    from callback_keeps_trans [OF callback_keeps_trans [OF k1(1) q(2)] this]
    have "callback_keeps w (lwip_calls [Pbuf_free] w1)" .
    with q(1) k1(2) show ?thesis using Ev_recv Some by (simp add: run_event_def ota_recv_def)
  qed
qed

lemma run_events_keeps:
  assumes "stream_ready (g_ota_stream w)" and "\<forall>ev\<in>set evs. event_ok ev"
  shows "\<exists>w'. run_events evs w = Some w' \<and> callback_keeps w w'"
  using assms
proof (induction evs arbitrary: w)
  case Nil
  then show ?case by (simp add: callback_keeps_refl)
next
  case (Cons ev evs)
  obtain w1 where e: "run_event ev w = Some w1" "callback_keeps w w1"
    using run_event_keeps [OF Cons.prems(1), of ev] Cons.prems(2) by auto
  then have "stream_ready (g_ota_stream w1)" using Cons.prems(1) by (simp add: callback_keeps_def)
  then obtain w2 where "run_events evs w1 = Some w2" "callback_keeps w1 w2" using Cons.IH Cons.prems(2) by auto
  with e show ?case by (auto intro: callback_keeps_trans)
qed

end
