(* ===== verification/OtaUpdate.thy ===== *)
theory OtaUpdate
  imports OtaServer
begin

text \<open>
  Correctness of the firmware update: an invariant that ties the task's counters and buffers and the
  content of the slot to the bytes taken from the stream, kept by every iteration and by every
  callback, and what follows from it for whole runs: an image is installed only if it arrived
  complete and its checksum is right, and if the flash works it is installed then.
\<close>

section \<open>Invariant of the task\<close>

definition ota_header :: "ota_task \<Rightarrow> u8 list" where
  "ota_header t = ota_magic @ le_bytes 4 (total_size t) @ le_bytes 4 (expected_crc t)"

definition slot_image :: "'h fmc_device \<Rightarrow> 'h \<Rightarrow> nat \<Rightarrow> u8 list" where
  "slot_image dev h n = map (slot_byte (dev, h)) [0..<n]"

text \<open>The bytes of the image held so far: whole sectors in the slot, the rest in the sector buffer.\<close>

definition held :: "'h fmc_device \<Rightarrow> 'h \<Rightarrow> ota_task \<Rightarrow> u8 list \<Rightarrow> bool" where
  "held dev h t payload \<longleftrightarrow> length payload = unat (current_sector t) * 4096 + unat (sector_buf_pos t) \<and>
     payload = slot_image dev h (unat (current_sector t) * 4096) @ take (unat (sector_buf_pos t)) (sector_buf t)"

definition sizes_ok :: "ota_task \<Rightarrow> u8 list \<Rightarrow> bool" where
  "sizes_ok t payload \<longleftrightarrow> 0 < unat (total_size t) \<and> unat (total_size t) \<le> 160 * 4096 \<and> unat (received t) = length payload"

definition installed :: "'h fmc_device \<Rightarrow> 'h \<Rightarrow> ota_task \<Rightarrow> u8 list \<Rightarrow> bool" where
  "installed dev h t payload \<longleftrightarrow> 0 < unat (total_size t) \<and> unat (total_size t) \<le> length payload \<and>
     slot_image dev h (unat (total_size t)) = take (unat (total_size t)) payload \<and>
     crc32_bytes (take (unat (total_size t)) payload) = expected_crc t"

text \<open>The state of the current attempt, whose bytes so far are \<open>cs\<close>: a restart, an image being collected, or a header.\<close>

definition ota_track :: "'h fmc_device \<Rightarrow> 'h ota_world \<times> ota_task \<Rightarrow> u8 list \<Rightarrow> bool" where
  "ota_track dev wt cs \<longleftrightarrow>
     (if system_reset (fst wt) then \<exists>payload. cs = ota_header (snd wt) @ payload \<and> installed dev (ota_hw (fst wt)) (snd wt) payload
      else if header_valid (snd wt)
      then \<exists>payload. cs = ota_header (snd wt) @ payload \<and> sizes_ok (snd wt) payload \<and> length payload < unat (total_size (snd wt)) \<and>
        unat (sector_buf_pos (snd wt)) < 4096 \<and> held dev (ota_hw (fst wt)) (snd wt) payload
      else unat (header_received (snd wt)) < 16 \<and> cs = take (unat (header_received (snd wt))) (header_buf (snd wt)))"

definition ota_base :: "'h ota_world \<times> ota_task \<Rightarrow> bool" where
  "ota_base wt \<longleftrightarrow> length (header_buf (snd wt)) = 16 \<and> length (sector_buf (snd wt)) = 4096 \<and> stream_idle (fst wt) \<and>
     (system_reset (fst wt) \<longleftrightarrow> ok_replied (fst wt))"

text \<open>An upload that has nothing wrong with it so far.\<close>

definition upload_size :: "u8 list \<Rightarrow> u32" where "upload_size us = le_word (seg 8 4 us)"
definition upload_crc :: "u8 list \<Rightarrow> u32" where "upload_crc us = le_word (seg 12 4 us)"

definition valid_upload :: "u8 list \<Rightarrow> bool" where
  "valid_upload us \<longleftrightarrow> take 8 us = ota_magic \<and> upload_size us \<noteq> 0 \<and> upload_size us \<le> OTA_MAX_FIRMWARE_SIZE \<and>
     (16 + unat (upload_size us) \<le> length us \<longrightarrow>
        crc32_bytes (take (unat (upload_size us)) (drop 16 us)) = upload_crc us)"

text \<open>Flash that works: a predicate on its states under which every sector of the slot can be written.\<close>

definition flush_good :: "'h fmc_device \<Rightarrow> ('h \<Rightarrow> bool) \<Rightarrow> bool" where
  "flush_good dev good \<longleftrightarrow> (\<forall>h buf n idx. good h \<longrightarrow> unat n \<le> length buf \<longrightarrow> unat n \<le> 4096 \<longrightarrow> n = 0 \<or> unat idx < 160 \<longrightarrow>
     (\<exists>h'. ota_flush_sector dev buf n idx h = Some (0, h') \<and> good h'))"

lemma flush_good_none: "flush_good dev (\<lambda>_. False)"
  by (simp add: flush_good_def)

lemma length_slot_image [simp]: "length (slot_image dev h n) = n"
  by (simp add: slot_image_def)

lemma take_slot_image: "m \<le> n \<Longrightarrow> take m (slot_image dev h n) = slot_image dev h m"
  by (simp add: slot_image_def take_map)

lemma slot_image_bytes: "slot_image dev h n = flash_bytes dev SECONDARY_SLOT_ADDR n h"
  by (simp add: slot_image_def flash_bytes_def slot_byte_def)

text \<open>The invariant only looks at what callbacks keep.\<close>

lemma ota_track_world:
  "ota_hw w' = ota_hw w \<Longrightarrow> system_reset w' = system_reset w \<Longrightarrow> ota_track dev (w', t) cs = ota_track dev (w, t) cs"
  by (simp add: ota_track_def)

lemma ota_track_keeps: "callback_keeps w w' \<Longrightarrow> ota_track dev (w', t) cs = ota_track dev (w, t) cs"
  by (simp add: ota_track_def callback_keeps_def)

lemma ota_base_keeps: "ota_base (w, t) \<Longrightarrow> callback_keeps w w' \<Longrightarrow> stream_idle w' \<Longrightarrow> ota_base (w', t)"
  by (auto simp: ota_base_def callback_keeps_def)

lemma ota_response_inject: "ota_response a = ota_response b \<longleftrightarrow> a = b"
  by (simp add: ota_response_def)

lemma ota_send_response_keeps:
  assumes "status \<noteq> OTA_STATUS_OK"
  shows "callback_keeps w (snd (ota_send_response net pcb status w))"
proof -
  have "callback_keeps w (lwip_calls [Tcp_write pcb (ota_response status)] w)"
    using assms by (intro callback_keeps_net) (simp add: ota_response_inject)
  moreover have "callback_keeps (lwip_calls [Tcp_write pcb (ota_response status)] w)
      (lwip_calls [Tcp_output pcb] (lwip_calls [Tcp_write pcb (ota_response status)] w))"
    by (intro callback_keeps_net) simp
  ultimately show ?thesis
    by (auto simp: ota_send_response_def Let_def intro: callback_keeps_trans)
qed

lemma ota_send_response_ok: "ok_replied (snd (ota_send_response net pcb OTA_STATUS_OK w))"
  by (auto simp: ota_send_response_def Let_def ok_replied_def lwip_calls_def)

lemmas status_codes = OTA_STATUS_OK_def OTA_STATUS_ERROR_def OTA_STATUS_SIZE_MISMATCH_def OTA_STATUS_FLASH_ERROR_def
  OTA_STATUS_CRC_FAIL_def

text \<open>An abandoned attempt leaves the task waiting for the next header.\<close>

lemma ota_abandon_track:
  assumes "ota_base (w, t)" and "\<not> system_reset w" and "status \<noteq> OTA_STATUS_OK"
  shows "ota_base (ota_abandon net status (w, t))" "ota_track dev (ota_abandon net status (w, t)) []"
    "ota_hw (fst (ota_abandon net status (w, t))) = ota_hw w" "\<not> header_valid (snd (ota_abandon net status (w, t)))"
  using assms(1,2) ota_send_response_keeps [OF assms(3), of w net "g_ota_data_pcb w"]
  by (simp_all add: ota_base_def ota_track_def ota_abandon_def callback_keeps_def)

text \<open>Nothing outside the slot changes.\<close>

definition outside_same :: "'h fmc_device \<Rightarrow> 'h \<Rightarrow> 'h \<Rightarrow> bool" where
  "outside_same dev h h' \<longleftrightarrow> (\<forall>b. \<not> slot_addr b \<longrightarrow> flash dev h' b = flash dev h b)"

lemma outside_same_refl [simp]: "outside_same dev h h"
  by (simp add: outside_same_def)

lemma outside_same_trans: "outside_same dev h h1 \<Longrightarrow> outside_same dev h1 h2 \<Longrightarrow> outside_same dev h h2"
  by (simp add: outside_same_def)

text \<open>What a step of the task promises: it ends, and continues the attempt or, for cause, abandons it.\<close>

definition step_ok ::
  "'h fmc_device \<Rightarrow> ('h \<Rightarrow> bool) \<Rightarrow> 'h \<Rightarrow> u8 list \<Rightarrow> 'h ota_world \<times> ota_task \<Rightarrow> bool" where
  "step_ok dev good h us wt \<longleftrightarrow> ota_base wt \<and> outside_same dev h (ota_hw (fst wt)) \<and> (good h \<longrightarrow> good (ota_hw (fst wt))) \<and>
     (ota_track dev wt us \<or> ota_track dev wt [] \<and> 16 \<le> length us \<and> \<not> (good h \<and> valid_upload us))"

section \<open>The header\<close>

lemma header_split:
  assumes "length buf = 16"
  shows "buf = take 8 buf @ seg 8 4 buf @ seg 12 4 buf"
proof -
  have "take 4 (drop 8 buf) @ drop 4 (drop 8 buf) = drop 8 buf" by (rule append_take_drop_id)
  moreover have "take 4 (drop 12 buf) = drop 12 buf" using assms by simp
  ultimately show ?thesis unfolding seg_def by simp
qed

lemma length_ota_header [simp]: "length (ota_header t) = 16"
  by (simp add: ota_header_def ota_magic_def)

lemma upload_fields:
  "take 8 (ota_header t @ p) = ota_magic" "upload_size (ota_header t @ p) = total_size t" "upload_crc (ota_header t @ p) = expected_crc t"
  by (simp_all add: ota_header_def ota_magic_def upload_size_def upload_crc_def seg_def le_word_le_bytes)

lemma ota_header_step_ok:
  assumes base: "ota_base (w, t)" and track: "ota_track dev (w, t) cs" and st: "\<not> system_reset w" "\<not> header_valid t"
    and len: "length bs \<le> unat (ota_room t)"
  shows "step_ok dev good (ota_hw w) (cs @ bs) (ota_header_step net bs (w, t))"
proof -
  let ?r = "header_received t"
  let ?buf = "store_at (unat ?r) bs (header_buf t)" and ?got = "?r + word_of_nat (length bs)"
  have hb: "length (header_buf t) = 16" "length (sector_buf t) = 4096" "stream_idle w" "\<not> ok_replied w"
    and r: "unat ?r < 16" and cs: "cs = take (unat ?r) (header_buf t)"
    using base track st by (simp_all add: ota_base_def ota_track_def)
  have room: "unat (ota_room t) = 16 - unat ?r"
    using r st by (simp add: ota_room_def OTA_HEADER_SIZE_def) (subst unat_diff_le, simp_all add: word_le_nat_alt)
  have fit: "unat ?r + length bs \<le> 16" using len room r by simp
  have "unat (word_of_nat (length bs) :: u32) = length bs" using fit by (intro word_of_nat_eq_nat_iff) simp
  then have got: "unat ?got = unat ?r + length bs" using fit by (subst unat_add_small) simp_all
  have lb: "length ?buf = 16" using fit hb(1) by simp
  have us: "cs @ bs = take (unat ?got) ?buf"
    unfolding got cs using fit hb(1) by (intro take_store_at_end [symmetric]) simp
  note keeps = ota_send_response_keeps [of _ w net "g_ota_data_pcb w"]
  show ?thesis
  proof (cases "?got < OTA_HEADER_SIZE")
    case True
    then show ?thesis
      using hb lb st us by (simp add: step_ok_def ota_header_step_def ota_base_def ota_track_def Let_def word_less_nat_alt OTA_HEADER_SIZE_def)
  next
    case False
    then have "unat ?got = 16" using got fit by (simp add: word_less_nat_alt OTA_HEADER_SIZE_def)
    then have us16: "cs @ bs = ?buf" using us lb by simp
    consider (magic) "take 8 ?buf \<noteq> ota_magic"
      | (size) "take 8 ?buf = ota_magic" "upload_size ?buf = 0 \<or> upload_size ?buf > OTA_MAX_FIRMWARE_SIZE"
      | (good) "take 8 ?buf = ota_magic" "\<not> (upload_size ?buf = 0 \<or> upload_size ?buf > OTA_MAX_FIRMWARE_SIZE)" by blast
    then show ?thesis
    proof cases
      case magic
      then have "16 \<le> length (cs @ bs)" "\<not> valid_upload (cs @ bs)" unfolding us16 using lb by (simp_all add: valid_upload_def)
      then show ?thesis
        using magic False hb lb st keeps [of OTA_STATUS_ERROR] unfolding step_ok_def
        by (simp add: ota_header_step_def ota_base_def ota_track_def Let_def callback_keeps_def status_codes)
    next
      case size
      then have "16 \<le> length (cs @ bs)" "\<not> valid_upload (cs @ bs)" unfolding us16 using lb by (auto simp: valid_upload_def)
      then show ?thesis
        using size False hb lb st keeps [of OTA_STATUS_SIZE_MISMATCH] unfolding step_ok_def
        by (simp add: ota_header_step_def ota_base_def ota_track_def Let_def callback_keeps_def status_codes upload_size_def)
    next
      case good
      let ?t = "t\<lparr>header_buf := ?buf, header_received := ?got, total_size := upload_size ?buf,
            expected_crc := upload_crc ?buf, header_valid := True, received := 0, sector_buf_pos := 0, current_sector := 0\<rparr>"
      have step: "ota_header_step net bs (w, t) = (w, ?t)"
        using False good by (simp add: ota_header_step_def Let_def upload_size_def upload_crc_def)
      have "ota_header ?t = ?buf"
        using header_split [OF lb] good(1) lb by (simp add: ota_header_def upload_size_def upload_crc_def le_bytes_le_word)
      moreover have "0 < unat (upload_size ?buf)" "unat (upload_size ?buf) \<le> 160 * 4096"
        using good(2) by (simp_all add: OTA_MAX_FIRMWARE_SIZE_def word_less_nat_alt not_less unat_gt_0)
      ultimately show ?thesis
        unfolding step step_ok_def using hb lb st us16
        by (simp add: ota_base_def ota_track_def sizes_ok_def held_def slot_image_def)
    qed
  qed
qed

section \<open>Sectors\<close>

lemma flush_step:
  assumes "fmc_hardware dev" and good: "flush_good dev good"
    and "unat n \<le> length buf" and "unat n \<le> 4096" and "n = 0 \<or> unat idx < 160"
  shows "\<exists>rc h'. ota_flush_sector dev buf n idx h = Some (rc, h') \<and> (good h \<longrightarrow> rc = 0) \<and> (good h \<longrightarrow> good h') \<and>
    outside_same dev h h' \<and>
    (rc = 0 \<longrightarrow> slot_image dev h' (unat idx * 4096 + unat n) = slot_image dev h (unat idx * 4096) @ take (unat n) buf)"
proof (cases "n = 0")
  case True
  then show ?thesis by (simp add: ota_flush_sector_def)
next
  case False
  then have idx: "unat idx < 160" using assms(5) by simp
  obtain rc h' where f: "ota_flush_sector dev buf n idx h = Some (rc, h')"
    and out: "\<forall>b. \<not> slot_addr b \<longrightarrow> flash dev h' b = flash dev h b"
    using flush_total [OF assms(1,3) idx assms(4), of h] by blast
  have "rc = 0 \<and> good h'" if "good h"
    using good [unfolded flush_good_def, rule_format, OF that assms(3-5)] f by auto
  moreover have "slot_image dev h' (unat idx * 4096 + unat n) = slot_image dev h (unat idx * 4096) @ take (unat n) buf" if "rc = 0"
  proof -
    have "slot_put (unat idx) buf (unat n) (dev, h) = (True, dev, h')" using f that by (simp add: slot_put_def)
    from slot.put_extends [OF _ idx assms(3,4) this] assms(1) show ?thesis by (simp add: slot_ok_def slot_image_def)
  qed
  ultimately show ?thesis using f out by (auto simp: outside_same_def)
qed

lemma flush_loop_done: "unat (sector_buf_pos t) < 4096 \<Longrightarrow> ota_flush_loop dev net (w, t) = Some (w, t)"
  by (subst ota_flush_loop.simps) (simp add: OTA_FLASH_SECTOR_SIZE_def word_le_nat_alt)

text \<open>The loop writes at most one sector; the bytes held stay the same.\<close>

definition same_attempt :: "ota_task \<Rightarrow> ota_task \<Rightarrow> bool" where
  "same_attempt t t' \<longleftrightarrow> (\<exists>c p. t' = t\<lparr>current_sector := c, sector_buf_pos := p\<rparr>)"

lemma flush_loop_ok:
  assumes hw: "fmc_hardware dev" and good: "flush_good dev good" and buf: "length (sector_buf t) = 4096"
    and pos: "unat (sector_buf_pos t) \<le> 4096" and cur: "unat (current_sector t) < 160" and held: "held dev (ota_hw w) t payload"
  shows "\<exists>h'. outside_same dev (ota_hw w) h' \<and> (good (ota_hw w) \<longrightarrow> good h') \<and>
    (ota_flush_loop dev net (w, t) = Some (ota_abandon net OTA_STATUS_FLASH_ERROR (w\<lparr>ota_hw := h'\<rparr>, t)) \<and> \<not> good (ota_hw w) \<or>
     (\<exists>t'. ota_flush_loop dev net (w, t) = Some (w\<lparr>ota_hw := h'\<rparr>, t') \<and> same_attempt t t' \<and> held dev h' t' payload \<and>
        unat (sector_buf_pos t') < 4096 \<and> (sector_buf_pos t' = 0 \<or> unat (current_sector t') < 160)))"
proof (cases "unat (sector_buf_pos t) < 4096")
  case True
  have "same_attempt t t" unfolding same_attempt_def by (metis ota_task.surjective ota_task.update_convs(4,5))
  moreover have "ota_flush_loop dev net (w, t) = Some (w\<lparr>ota_hw := ota_hw w\<rparr>, t)" using True by (simp add: flush_loop_done)
  ultimately show ?thesis using True cur held outside_same_refl [of dev "ota_hw w"] by blast
next
  case False
  then have p: "sector_buf_pos t = OTA_FLASH_SECTOR_SIZE"
    using pos by (simp add: word_unat_eq_iff OTA_FLASH_SECTOR_SIZE_def)
  have n: "unat OTA_FLASH_SECTOR_SIZE = 4096" by (simp add: OTA_FLASH_SECTOR_SIZE_def)
  obtain rc h' where f: "ota_flush_sector dev (sector_buf t) OTA_FLASH_SECTOR_SIZE (current_sector t) (ota_hw w) = Some (rc, h')"
    and g: "good (ota_hw w) \<longrightarrow> rc = 0" "good (ota_hw w) \<longrightarrow> good h'" and out: "outside_same dev (ota_hw w) h'"
    and img: "rc = 0 \<longrightarrow> slot_image dev h' (unat (current_sector t) * 4096 + 4096) =
      slot_image dev (ota_hw w) (unat (current_sector t) * 4096) @ take 4096 (sector_buf t)"
    using flush_step [OF hw good, of OTA_FLASH_SECTOR_SIZE "sector_buf t" "current_sector t" "ota_hw w"] cur buf n by auto
  have nxt: "unat (current_sector t + 1) = unat (current_sector t) + 1" using cur by (subst unat_add_small) simp_all
  show ?thesis
  proof (cases "rc = 0")
    case True
    let ?t = "t\<lparr>current_sector := current_sector t + 1, sector_buf_pos := 0\<rparr>"
    have "ota_flush_loop dev net (w, t) = ota_flush_loop dev net (w\<lparr>ota_hw := h'\<rparr>, ?t)"
      using f p True by (subst ota_flush_loop.simps) simp
    also have "\<dots> = Some (w\<lparr>ota_hw := h'\<rparr>, ?t)" by (rule flush_loop_done) simp
    finally have run: "ota_flush_loop dev net (w, t) = Some (w\<lparr>ota_hw := h'\<rparr>, ?t)" .
    have "held dev h' ?t payload" using held img True nxt n p buf by (simp add: held_def add.commute)
    moreover have "same_attempt t ?t" by (auto simp: same_attempt_def)
    moreover have "unat (sector_buf_pos ?t) < 4096" "sector_buf_pos ?t = 0" by simp_all
    ultimately show ?thesis using run out g(2) by blast
  next
    case False
    then have "ota_flush_loop dev net (w, t) = Some (ota_abandon net OTA_STATUS_FLASH_ERROR (w\<lparr>ota_hw := h'\<rparr>, t))"
      using f p by (subst ota_flush_loop.simps) simp
    then show ?thesis using False out g by blast
  qed
qed

section \<open>The end of an image\<close>

lemma ota_finish_ok:
  assumes hw: "fmc_hardware dev" and good: "flush_good dev good" and base: "ota_base (w, t)" and st: "\<not> system_reset w"
    and sizes: "sizes_ok t payload" and held: "held dev (ota_hw w) t payload" and fin: "received t \<ge> total_size t"
    and pos: "unat (sector_buf_pos t) < 4096" "sector_buf_pos t = 0 \<or> unat (current_sector t) < 160"
  shows "\<exists>wt. ota_finish dev net (w, t) = Some wt \<and> step_ok dev good (ota_hw w) (ota_header t @ payload) wt"
proof -
  have b: "length (sector_buf t) = 4096" using base by (simp add: ota_base_def)
  obtain rc h' where f: "ota_flush_sector dev (sector_buf t) (sector_buf_pos t) (current_sector t) (ota_hw w) = Some (rc, h')"
    and g: "good (ota_hw w) \<longrightarrow> rc = 0" "good (ota_hw w) \<longrightarrow> good h'" and out: "outside_same dev (ota_hw w) h'"
    and img: "rc = 0 \<longrightarrow> slot_image dev h' (length payload) = payload"
    using flush_step [OF hw good, of "sector_buf_pos t" "sector_buf t" "current_sector t" "ota_hw w"] pos b held
    unfolding held_def by (metis less_imp_le)
  let ?w = "w\<lparr>ota_hw := h'\<rparr>" and ?n = "unat (total_size t)"
  have base': "ota_base (?w, t)" "\<not> system_reset ?w" using base st by (simp_all add: ota_base_def stream_idle_def ok_replied_def)
  have le: "0 < ?n" "?n \<le> length payload" using fin sizes by (simp_all add: sizes_ok_def word_le_nat_alt)
  have image: "slot_image dev h' ?n = take ?n payload" if "rc = 0" using take_slot_image [OF le(2), of dev h'] img that by simp
  have crc: "ota_flash_crc32 dev 0 (total_size t) h' = crc32_bytes (take ?n payload)" if "rc = 0"
    using image [OF that] by (simp add: ota_flash_crc32_def slot_image_bytes)
  note ab = ota_abandon_track [OF base']
  consider (flash) "rc \<noteq> 0" | (crc_fail) "rc = 0" "ota_flash_crc32 dev 0 (total_size t) h' \<noteq> expected_crc t"
    | (ok) "rc = 0" "ota_flash_crc32 dev 0 (total_size t) h' = expected_crc t" by blast
  then show ?thesis
  proof cases
    case flash
    then have "ota_finish dev net (w, t) = Some (ota_abandon net OTA_STATUS_FLASH_ERROR (?w, t))" by (simp add: ota_finish_def f)
    moreover have "OTA_STATUS_FLASH_ERROR \<noteq> OTA_STATUS_OK" by (simp add: status_codes)
    ultimately show ?thesis using ab out g flash by (simp add: step_ok_def)
  next
    case crc_fail
    then have "ota_finish dev net (w, t) = Some (ota_abandon net OTA_STATUS_CRC_FAIL (?w, t))" by (simp add: ota_finish_def f)
    moreover have "OTA_STATUS_CRC_FAIL \<noteq> OTA_STATUS_OK" by (simp add: status_codes)
    moreover have "\<not> valid_upload (ota_header t @ payload)"
      using crc_fail crc le by (simp add: valid_upload_def upload_fields)
    ultimately show ?thesis using ab out g by (simp add: step_ok_def)
  next
    case ok
    let ?w2 = "(snd (ota_send_response net (g_ota_data_pcb ?w) OTA_STATUS_OK ?w))\<lparr>system_reset := True\<rparr>"
    have run: "ota_finish dev net (w, t) = Some (?w2, t)" using ok by (simp add: ota_finish_def f)
    have h2: "ota_hw ?w2 = h'" "stream_idle ?w2" "ok_replied ?w2"
      using base' ota_send_response_ok [of net "g_ota_data_pcb ?w" ?w]
      by (simp_all add: ota_send_response_def lwip_calls_def Let_def stream_idle_def ota_base_def ok_replied_def)
    have "installed dev h' t payload" using le image ok crc by (simp add: installed_def)
    then have "ota_track dev (?w2, t) (ota_header t @ payload)" using h2(1) by (simp add: ota_track_def)
    moreover have "ota_base (?w2, t)" using base h2 unfolding ota_base_def fst_conv snd_conv by simp
    ultimately show ?thesis using run h2(1) out g(2) by (simp add: step_ok_def)
  qed
qed

section \<open>One iteration\<close>

text \<open>A chunk that fits is appended to the bytes held.\<close>

definition ota_append :: "u8 list \<Rightarrow> ota_task \<Rightarrow> ota_task" where
  "ota_append bs t = t\<lparr>sector_buf := store_at (unat (sector_buf_pos t)) bs (sector_buf t),
     sector_buf_pos := sector_buf_pos t + word_of_nat (length bs), received := received t + word_of_nat (length bs)\<rparr>"

lemma ota_append_held:
  assumes "length (sector_buf t) = 4096" and "unat (sector_buf_pos t) + length bs \<le> 4096"
    and "sizes_ok t payload" and "length payload < unat (total_size t)" and "held dev h t payload"
  shows "sizes_ok (ota_append bs t) (payload @ bs)" "held dev h (ota_append bs t) (payload @ bs)"
    "unat (sector_buf_pos (ota_append bs t)) = unat (sector_buf_pos t) + length bs"
    "length (sector_buf (ota_append bs t)) = 4096"
proof -
  have n: "unat (word_of_nat (length bs) :: u32) = length bs" using assms(2) by (intro word_of_nat_eq_nat_iff) simp
  show pos: "unat (sector_buf_pos (ota_append bs t)) = unat (sector_buf_pos t) + length bs"
    using assms(2) n by (simp add: ota_append_def) (subst unat_add_small, simp_all)
  have "unat (received (ota_append bs t)) = length payload + length bs"
    using assms(2-4) n by (simp add: ota_append_def sizes_ok_def) (subst unat_add_small, simp_all)
  then show "sizes_ok (ota_append bs t) (payload @ bs)" using assms(3) by (simp add: sizes_ok_def ota_append_def)
  show "length (sector_buf (ota_append bs t)) = 4096" using assms(1,2) by (simp add: ota_append_def)
  have "take (unat (sector_buf_pos (ota_append bs t))) (sector_buf (ota_append bs t)) = take (unat (sector_buf_pos t)) (sector_buf t) @ bs"
    unfolding pos using assms(1,2) by (simp add: ota_append_def take_store_at_end)
  moreover have "current_sector (ota_append bs t) = current_sector t" by (simp add: ota_append_def)
  ultimately show "held dev h (ota_append bs t) (payload @ bs)"
    using assms(1,2,5) pos unfolding held_def by simp
qed

lemma ota_data_step_ok:
  assumes hw: "fmc_hardware dev" and good: "flush_good dev good" and base: "ota_base (w, t)" and track: "ota_track dev (w, t) cs"
    and st: "\<not> system_reset w" "header_valid t" and len: "length bs \<le> unat (ota_room t)"
  shows "\<exists>wt. ota_data_step dev net bs (w, t) = Some wt \<and> step_ok dev good (ota_hw w) (cs @ bs) wt"
proof (cases "bs = []")
  case True
  then show ?thesis using base track by (simp add: ota_data_step_def step_ok_def)
next
  case False
  obtain payload where cs: "cs = ota_header t @ payload" and c: "sizes_ok t payload" "length payload < unat (total_size t)"
    "unat (sector_buf_pos t) < 4096" "held dev (ota_hw w) t payload"
    using track st by (auto simp: ota_track_def)
  have b: "length (sector_buf t) = 4096" using base by (simp add: ota_base_def)
  have "unat (ota_room t) = 4096 - unat (sector_buf_pos t)"
    using c(3) st by (simp add: ota_room_def OTA_FLASH_SECTOR_SIZE_def) (subst unat_diff_le, simp_all add: word_le_nat_alt)
  then have fit: "unat (sector_buf_pos t) + length bs \<le> 4096" using len c(3) by simp
  let ?t = "ota_append bs t"
  note app = ota_append_held [OF b fit c(1,2,4)]
  have cur: "unat (current_sector ?t) < 160" using c by (simp add: sizes_ok_def held_def ota_append_def)
  have pos: "unat (sector_buf_pos ?t) \<le> 4096" using app(3) fit by simp
  have base1: "ota_base (w, ?t)" "header_valid ?t" "ota_header ?t = ota_header t"
    using base st(2) app(4) by (simp_all add: ota_base_def ota_append_def ota_header_def)
  obtain h' where h': "outside_same dev (ota_hw w) h'" "good (ota_hw w) \<longrightarrow> good h'" and loop:
    "ota_flush_loop dev net (w, ?t) = Some (ota_abandon net OTA_STATUS_FLASH_ERROR (w\<lparr>ota_hw := h'\<rparr>, ?t)) \<and> \<not> good (ota_hw w) \<or>
     (\<exists>t'. ota_flush_loop dev net (w, ?t) = Some (w\<lparr>ota_hw := h'\<rparr>, t') \<and> same_attempt ?t t' \<and> held dev h' t' (payload @ bs) \<and>
        unat (sector_buf_pos t') < 4096 \<and> (sector_buf_pos t' = 0 \<or> unat (current_sector t') < 160))"
    using flush_loop_ok [OF hw good app(4) pos cur app(2), of net] by blast
  let ?w = "w\<lparr>ota_hw := h'\<rparr>"
  have idle: "ota_base (?w, ?t)" "\<not> system_reset ?w" using base1 st by (simp_all add: ota_base_def stream_idle_def ok_replied_def)
  have step: "ota_data_step dev net bs (w, t) = (case ota_flush_loop dev net (w, ?t) of None \<Rightarrow> None
      | Some (w2, t2) \<Rightarrow> if \<not> header_valid t2 then Some (w2, t2)
          else if received t2 \<ge> total_size t2 then ota_finish dev net (w2, t2) else Some (w2, t2))"
    unfolding ota_data_step_def ota_append_def Let_def prod.case using False by simp
  from loop show ?thesis
  proof
    assume ab: "ota_flush_loop dev net (w, ?t) = Some (ota_abandon net OTA_STATUS_FLASH_ERROR (?w, ?t)) \<and> \<not> good (ota_hw w)"
    have "OTA_STATUS_FLASH_ERROR \<noteq> OTA_STATUS_OK" by (simp add: status_codes)
    note abt = ota_abandon_track [OF idle this, where net = net]
    obtain w' t' where r: "ota_abandon net OTA_STATUS_FLASH_ERROR (?w, ?t) = (w', t')" by (rule prod.exhaust)
    have "16 \<le> length (cs @ bs)" using cs by simp
    then show ?thesis unfolding step using ab abt [unfolded r] h' r by (simp add: step_ok_def)
  next
    assume "\<exists>t'. ota_flush_loop dev net (w, ?t) = Some (?w, t') \<and> same_attempt ?t t' \<and> held dev h' t' (payload @ bs) \<and>
        unat (sector_buf_pos t') < 4096 \<and> (sector_buf_pos t' = 0 \<or> unat (current_sector t') < 160)"
    then obtain t' where l: "ota_flush_loop dev net (w, ?t) = Some (?w, t')" and same: "same_attempt ?t t'"
      and held': "held dev (ota_hw ?w) t' (payload @ bs)"
      and pos': "unat (sector_buf_pos t') < 4096" "sector_buf_pos t' = 0 \<or> unat (current_sector t') < 160" by auto
    have t': "header_valid t'" "ota_header t' = ota_header t" "sizes_ok t' (payload @ bs)" "ota_base (?w, t')"
      using same base1 app(1) idle(1) by (auto simp: same_attempt_def ota_header_def sizes_ok_def ota_base_def)
    show ?thesis
    proof (cases "received t' \<ge> total_size t'")
      case True
      from ota_finish_ok [OF hw good t'(4) idle(2) t'(3) held' True pos', of net] obtain wt where
        "ota_finish dev net (?w, t') = Some wt" "step_ok dev good h' (cs @ bs) wt" unfolding t'(2) cs by auto
      with True l t'(1) h' show ?thesis unfolding step by (auto simp: step_ok_def intro: outside_same_trans)
    next
      case False
      then have "length (payload @ bs) < unat (total_size t')" using t'(3) by (simp add: sizes_ok_def word_le_nat_alt)
      then have "ota_track dev (?w, t') (cs @ bs)"
        unfolding ota_track_def fst_conv snd_conv cs using idle(2) t' held' pos'(1) by auto
      with False l t' h' show ?thesis unfolding step by (simp add: step_ok_def)
    qed
  qed
qed

lemma ota_consume_ok:
  assumes "fmc_hardware dev" and "flush_good dev good" and "ota_base (w, t)" and "ota_track dev (w, t) cs"
    and "\<not> system_reset w" and "length bs \<le> unat (ota_room t)"
  shows "\<exists>wt. ota_consume dev net bs (w, t) = Some wt \<and> step_ok dev good (ota_hw w) (cs @ bs) wt"
proof (cases "header_valid t")
  case True
  then show ?thesis using ota_data_step_ok [OF assms(1-5) True assms(6)] by (simp add: ota_consume_def)
next
  case False
  then show ?thesis using ota_header_step_ok [OF assms(3-5) False assms(6)] by (simp add: ota_consume_def)
qed

text \<open>The task does not write to the stream while it works on a chunk.\<close>

lemma send_response_stream: "g_ota_stream (snd (ota_send_response net pcb s w)) = g_ota_stream w"
  by (simp add: ota_send_response_def lwip_calls_def Let_def)

lemma abandon_stream: "g_ota_stream (fst (ota_abandon net s (w, t))) = g_ota_stream w"
  by (simp add: ota_abandon_def send_response_stream)

lemma flush_loop_stream:
  "ota_flush_loop dev net wt = Some wt' \<Longrightarrow> g_ota_stream (fst wt') = g_ota_stream (fst wt)"
proof (induction dev net wt rule: ota_flush_loop.induct)
  case (1 dev net w t)
  from "1.prems" show ?case
    by (subst (asm) ota_flush_loop.simps)
      (auto simp: Let_def abandon_stream split: if_splits option.splits dest!: "1.IH")
qed

lemma finish_stream: "ota_finish dev net (w, t) = Some wt' \<Longrightarrow> g_ota_stream (fst wt') = g_ota_stream w"
  by (auto simp: ota_finish_def Let_def send_response_stream abandon_stream split: if_splits option.splits)

lemma consume_stream:
  assumes "ota_consume dev net bs (w, t) = Some wt'"
  shows "g_ota_stream (fst wt') = g_ota_stream w"
proof (cases "header_valid t")
  case True
  then show ?thesis using assms
    by (auto simp: ota_consume_def ota_data_step_def Let_def split: if_splits option.splits
        dest!: flush_loop_stream finish_stream)
next
  case False
  then show ?thesis using assms
    by (auto simp: ota_consume_def ota_header_step_def Let_def send_response_stream split: if_splits)
qed

lemma waiting_fields:
  "stream_ready (sb\<lparr>xTaskWaitingToReceive := x\<rparr>) = stream_ready sb" "sb_contents (sb\<lparr>xTaskWaitingToReceive := x\<rparr>) = sb_contents sb"
  by (simp_all add: stream_ready_def sb_wf_def is_stream_def is_message_buffer_def sb_contents_def sb_count_def)

text \<open>What a read leaves of the stream.\<close>

definition sb_taken :: "nat \<Rightarrow> StreamBuffer_t \<Rightarrow> StreamBuffer_t \<Rightarrow> bool" where
  "sb_taken k sb sb' \<longleftrightarrow> stream_ready sb' \<and> xTaskWaitingToReceive sb' = None \<and> sb_contents sb' = drop k (sb_contents sb) \<and>
     xLength sb' = xLength sb \<and> (sb_calm sb \<longrightarrow> sb_calm sb')"

lemma receive_taken:
  assumes r: "stream_ready sb" "xTaskWaitingToReceive sb = None" and now: "0 < length (sb_contents sb) \<or> ticks = 0"
  shows "\<exists>sb'. xStreamBufferReceive task wake sb k ticks = Some (Received (take (unat k) (sb_contents sb)) sb') \<and> sb_taken (unat k) sb sb'"
proof -
  have st: "sb_wf sb" "is_stream sb" using r(1) by (simp_all add: stream_ready_def)
  obtain sb' where "xStreamBufferReceive task wake sb k ticks = Some (Received (take (unat k) (sb_contents sb)) sb')"
    and f: "sb_wf sb'" "sb_contents sb' = drop (unat k) (sb_contents sb)" "xLength sb' = xLength sb" "ucFlags sb' = ucFlags sb"
      "xTriggerLevelBytes sb' = xTriggerLevelBytes sb" "xTaskWaitingToReceive sb' = xTaskWaitingToReceive sb"
    using stream_receive_now [OF st, of ticks task wake k] now by auto
  then show ?thesis using r st(2) is_stream_flags [OF f(4)] by (auto simp: sb_taken_def sb_calm_def stream_ready_def)
qed

text \<open>
  The task's read, whatever the callbacks do while it waits: it takes what is there then, no more than asked for, or the task is
  still waiting.
\<close>

lemma ota_receive_spec:
  assumes idle: "stream_idle w" and evs: "\<forall>ev\<in>set evs. event_ok ev"
    and start: "w0 = (if sb_contents (g_ota_stream w) = [] then ota_waiting w else w)"
  shows "\<exists>w1. (if sb_contents (g_ota_stream w) = [] then run_events evs w0 = Some w1 else w1 = w) \<and> callback_keeps w0 w1 \<and>
    (if xTaskWaitingToReceive (g_ota_stream w1) \<noteq> None then ota_receive evs k w = Some (Inl w1)
     else \<exists>sb. ota_receive evs k w = Some (Inr (take (unat k) (sb_contents (g_ota_stream w1)), w1\<lparr>g_ota_stream := sb\<rparr>)) \<and>
       sb_taken (unat k) (g_ota_stream w1) sb)"
proof -
  let ?sb = "g_ota_stream w"
  have r: "stream_ready ?sb" "xTaskWaitingToReceive ?sb = None" using idle by (simp_all add: stream_idle_def)
  have bytes: "prvBytesInBuffer ?sb \<le> 0 \<longleftrightarrow> sb_contents ?sb = []"
    unfolding length_0_conv [symmetric] length_sb_contents
    using r(1) prvBytesInBuffer_count [of ?sb] by (auto simp: stream_ready_def word_le_nat_alt)
  show ?thesis
  proof (cases "sb_contents ?sb = []")
    case False
    then have "0 < length (sb_contents ?sb)" by (simp only: length_greater_0_conv not_False_eq_True)
    then obtain sb where "xStreamBufferReceive 1 (\<lambda>_. ?sb) ?sb k portMAX_DELAY = Some (Received (take (unat k) (sb_contents ?sb)) sb)"
      "sb_taken (unat k) ?sb sb" using receive_taken [OF r] by blast
    then show ?thesis using False bytes r(2) start by (simp add: ota_receive_def callback_keeps_refl) blast
  next
    case True
    have w0: "w0 = ota_waiting w" "stream_ready (g_ota_stream w0)" using True r(1) start by (simp_all add: ota_waiting_def waiting_fields)
    obtain w1 where run: "run_events evs w0 = Some w1" and k: "callback_keeps w0 w1" using run_events_keeps [OF w0(2) evs] by blast
    let ?sb1 = "g_ota_stream w1"
    have r1: "stream_ready ?sb1" using k w0(2) by (simp add: callback_keeps_def)
    have md: "portMAX_DELAY \<noteq> 0" by (simp add: portMAX_DELAY_def)
    have st: "is_stream ?sb" "is_stream ?sb1" using r(1) r1 by (simp_all add: stream_ready_def)
    have bl: "xStreamBufferReceive 1 (\<lambda>_. ?sb1) ?sb k portMAX_DELAY =
        (if xTaskWaitingToReceive ?sb1 \<noteq> None then Some (Blocked ?sb1)
         else xStreamBufferReceive 1 id (?sb1\<lparr>xTaskWaitingToReceive := None\<rparr>) k 0)"
      using stream_receive_blocked [OF st(1) _ md r(2), of ?sb1 "\<lambda>_. ?sb1" 1 k] bytes True st(2) by simp
    have rcv: "ota_receive evs k w = (case xStreamBufferReceive 1 (\<lambda>_. ?sb1) ?sb k portMAX_DELAY of None \<Rightarrow> None
           | Some (Blocked sb) \<Rightarrow> Some (Inl (w1\<lparr>g_ota_stream := sb\<rparr>)) | Some (Received bs sb) \<Rightarrow> Some (Inr (bs, w1\<lparr>g_ota_stream := sb\<rparr>)))"
      using True bytes run w0(1) by (simp add: ota_receive_def)
    show ?thesis
    proof (cases "xTaskWaitingToReceive ?sb1 = None")
      case False
      then show ?thesis using run k True unfolding rcv bl by auto
    next
      case woken: True
      have same: "?sb1\<lparr>xTaskWaitingToReceive := None\<rparr> = ?sb1" using woken by (metis StreamBuffer_t.surjective StreamBuffer_t.update_convs(5))
      obtain sb where "xStreamBufferReceive 1 id ?sb1 k 0 = Some (Received (take (unat k) (sb_contents ?sb1)) sb)" "sb_taken (unat k) ?sb1 sb"
        using receive_taken [OF r1 woken] by blast
      then show ?thesis using run k True woken unfolding rcv bl same by auto
    qed
  qed
qed

section \<open>Runs\<close>

text \<open>What holds at the end of a run, with the task waiting or not: the bytes taken so far end with those of the current attempt.\<close>

definition ota_inv :: "'h fmc_device \<Rightarrow> 'h ota_world \<times> ota_task \<Rightarrow> u8 list \<Rightarrow> bool" where
  "ota_inv dev wt consumed \<longleftrightarrow> (system_reset (fst wt) \<longleftrightarrow> ok_replied (fst wt)) \<and> (\<exists>pre cs. consumed = pre @ cs \<and> ota_track dev wt cs)"

lemma ota_waiting_fields:
  "ota_hw (ota_waiting w) = ota_hw w" "system_reset (ota_waiting w) = system_reset w" "ok_replied (ota_waiting w) = ok_replied w"
  "sb_contents (g_ota_stream (ota_waiting w)) = sb_contents (g_ota_stream w)" "xLength (g_ota_stream (ota_waiting w)) = xLength (g_ota_stream w)"
  "stream_ready (g_ota_stream (ota_waiting w)) = stream_ready (g_ota_stream w)"
  "g_ota_data_pcb (ota_waiting w) = g_ota_data_pcb w"
  by (simp_all add: ota_waiting_def ok_replied_def waiting_fields)

lemma ota_waiting_calm: "sb_calm (g_ota_stream w) \<Longrightarrow> sb_contents (g_ota_stream w) = [] \<Longrightarrow> sb_calm (g_ota_stream (ota_waiting w))"
  by (simp add: sb_calm_def ota_waiting_def waiting_fields)

text \<open>
  What an iteration that returns took: nothing after the restart; else what was in the stream at its read, as far as there was
  room, after the callbacks that ran while it waited.
\<close>

definition ota_took :: "ota_event list \<Rightarrow> 'h ota_world \<Rightarrow> ota_task \<Rightarrow> u8 list \<Rightarrow> 'h ota_world \<Rightarrow> bool" where
  "ota_took evs w t bs w2 \<longleftrightarrow> (sb_calm (g_ota_stream w) \<longrightarrow> sb_calm (g_ota_stream w2)) \<and> xLength (g_ota_stream w2) = xLength (g_ota_stream w) \<and>
     (if system_reset w then bs = [] \<and> w2 = w
      else \<exists>w1. (if sb_contents (g_ota_stream w) = [] then run_events evs (ota_waiting w) = Some w1 else w1 = w) \<and>
        bs = take (unat (ota_room t)) (sb_contents (g_ota_stream w1)) \<and>
        sb_contents (g_ota_stream w2) = drop (unat (ota_room t)) (sb_contents (g_ota_stream w1)))"

text \<open>
  One iteration: it returns, having handled what it took from the stream, or the task is still waiting, with only
  callbacks having run.
\<close>

lemma ota_iteration_ok:
  assumes hw: "fmc_hardware dev" and good: "flush_good dev good" and base: "ota_base (w, t)" and track: "ota_track dev (w, t) cs"
    and evs: "\<forall>ev\<in>set evs. event_ok ev"
  shows "(\<exists>w1. ota_iteration dev net evs (w, t) = Some (Inl w1) \<and> \<not> system_reset w \<and> sb_contents (g_ota_stream w) = [] \<and>
      callback_keeps (ota_waiting w) w1 \<and> run_events evs (ota_waiting w) = Some w1 \<and> xTaskWaitingToReceive (g_ota_stream w1) \<noteq> None) \<or>
    (\<exists>bs wt. ota_iteration dev net evs (w, t) = Some (Inr (bs, wt)) \<and> step_ok dev good (ota_hw w) (cs @ bs) wt \<and>
      ota_took evs w t bs (fst wt))"
proof (cases "system_reset w")
  case True
  then show ?thesis using base track by (simp add: ota_iteration_def step_ok_def ota_took_def)
next
  case False
  have idle: "stream_idle w" using base by (simp add: ota_base_def)
  define w0 where w0: "w0 = (if sb_contents (g_ota_stream w) = [] then ota_waiting w else w)"
  have w0f: "ota_hw w0 = ota_hw w" "system_reset w0 = system_reset w" "ok_replied w0 = ok_replied w" "xLength (g_ota_stream w0) = xLength (g_ota_stream w)"
    "sb_calm (g_ota_stream w) \<longrightarrow> sb_calm (g_ota_stream w0)" "stream_ready (g_ota_stream w0)"
    using w0 ota_waiting_calm [of w] idle by (simp_all add: ota_waiting_fields stream_idle_def)
  obtain w1 where w1: "if sb_contents (g_ota_stream w) = [] then run_events evs w0 = Some w1 else w1 = w" and k: "callback_keeps w0 w1"
    and out: "if xTaskWaitingToReceive (g_ota_stream w1) \<noteq> None then ota_receive evs (ota_room t) w = Some (Inl w1)
     else \<exists>sb. ota_receive evs (ota_room t) w = Some (Inr (take (unat (ota_room t)) (sb_contents (g_ota_stream w1)), w1\<lparr>g_ota_stream := sb\<rparr>)) \<and>
       sb_taken (unat (ota_room t)) (g_ota_stream w1) sb"
    using ota_receive_spec [OF idle evs w0, of "ota_room t"] by blast
  have empty: "sb_contents (g_ota_stream w) = []" if "xTaskWaitingToReceive (g_ota_stream w1) \<noteq> None"
    using that w1 idle by (auto simp: stream_idle_def split: if_splits)
  show ?thesis
  proof (cases "xTaskWaitingToReceive (g_ota_stream w1) = None")
    case blocked: False
    then have "ota_iteration dev net evs (w, t) = Some (Inl w1)" using out False by (simp add: ota_iteration_def)
    then show ?thesis using False empty [OF blocked] w1 k w0 blocked by auto
  next
    case True
    let ?bs = "take (unat (ota_room t)) (sb_contents (g_ota_stream w1))"
    obtain sb where rc: "ota_receive evs (ota_room t) w = Some (Inr (?bs, w1\<lparr>g_ota_stream := sb\<rparr>))" and sb: "sb_taken (unat (ota_room t)) (g_ota_stream w1) sb"
      using out True by auto
    let ?w = "w1\<lparr>g_ota_stream := sb\<rparr>"
    have f: "ota_hw ?w = ota_hw w" "system_reset ?w = system_reset w" "ok_replied ?w = ok_replied w" "stream_idle ?w"
      using k w0f sb by (simp_all add: callback_keeps_def ok_replied_def stream_idle_def sb_taken_def)
    have "ota_base (?w, t)" using base f by (simp add: ota_base_def)
    moreover have "ota_track dev (?w, t) cs" using track ota_track_world [OF f(1,2)] by simp
    ultimately have "ota_base (?w, t)" "ota_track dev (?w, t) cs" .
    with ota_consume_ok [OF hw good _ _ _ _, of ?w t cs ?bs net] f False obtain wt where
      c: "ota_consume dev net ?bs (?w, t) = Some wt" and s: "step_ok dev good (ota_hw w) (cs @ ?bs) wt" by auto
    have st: "g_ota_stream (fst wt) = sb" using consume_stream [OF c] by simp
    have it: "ota_iteration dev net evs (w, t) = Some (Inr (?bs, wt))" using rc c False by (simp add: ota_iteration_def split: prod.split)
    have "sb_calm (g_ota_stream w) \<longrightarrow> sb_calm sb" "xLength sb = xLength (g_ota_stream w)" "sb_contents sb = drop (unat (ota_room t)) (sb_contents (g_ota_stream w1))"
      using sb k w0f by (auto simp: sb_taken_def callback_keeps_def)
    moreover have "if sb_contents (g_ota_stream w) = [] then run_events evs (ota_waiting w) = Some w1 else w1 = w" using w1 w0 by auto
    ultimately have "ota_took evs w t ?bs (fst wt)" unfolding ota_took_def st using False by auto
    then show ?thesis using it s by blast
  qed
qed

definition rounds_ok :: "(ota_event list \<times> ota_event list) list \<Rightarrow> bool" where
  "rounds_ok rounds \<longleftrightarrow> (\<forall>(before, blocked)\<in>set rounds. (\<forall>ev\<in>set before. event_ok ev) \<and> (\<forall>ev\<in>set blocked. event_ok ev))"

lemma rounds_ok_Cons:
  "rounds_ok ((before, blocked) # rounds) \<longleftrightarrow> (\<forall>ev\<in>set before. event_ok ev) \<and> (\<forall>ev\<in>set blocked. event_ok ev) \<and> rounds_ok rounds"
  by (simp add: rounds_ok_def)

text \<open>Before the iteration of a round only callbacks run.\<close>

lemma ota_before_ok:
  assumes base: "ota_base (w, t)" and track: "ota_track dev (w, t) cs" and ok: "\<forall>ev\<in>set before. event_ok ev"
  shows "\<exists>w1. run_events before w = Some w1 \<and> callback_keeps w w1 \<and> ota_base (w1, t) \<and> ota_track dev (w1, t) cs \<and> ota_hw w1 = ota_hw w"
proof -
  have idle: "stream_idle w" using base by (simp add: ota_base_def)
  then obtain w1 where b: "run_events before w = Some w1" and k: "callback_keeps w w1"
    using run_events_keeps [OF _ ok, of w] by (auto simp: stream_idle_def)
  have "stream_idle w1" "ota_hw w1 = ota_hw w" using k idle by (simp_all add: callback_keeps_def)
  with b k ota_base_keeps [OF base k] track ota_track_keeps [OF k] show ?thesis by blast
qed

text \<open>
  The rounds of a run, as an induction rule: \<open>P\<close> holds of a run if it holds of the empty one, of one that ends with the
  task waiting, and is carried over a wait that goes on and over an iteration.
\<close>

lemma ota_rounds_induct [consumes 5, case_names Nil Wait Join Step]:
  assumes hw: "fmc_hardware dev" and good: "flush_good dev good" and base0: "ota_base (w, t)" and track0: "ota_track dev (w, t) cs" and ok0: "rounds_ok rounds"
    and nil: "\<And>w t cs. ota_base (w, t) \<Longrightarrow> ota_track dev (w, t) cs \<Longrightarrow> P [] w t cs"
    and wait: "\<And>before blocked w t cs w1 w2. ota_base (w, t) \<Longrightarrow> ota_track dev (w, t) cs \<Longrightarrow> run_events before w = Some w1 \<Longrightarrow>
      callback_keeps w w1 \<Longrightarrow> ota_iteration dev net blocked (w1, t) = Some (Inl w2) \<Longrightarrow> \<not> system_reset w1 \<Longrightarrow> sb_contents (g_ota_stream w1) = [] \<Longrightarrow>
      callback_keeps (ota_waiting w1) w2 \<Longrightarrow> run_events blocked (ota_waiting w1) = Some w2 \<Longrightarrow> xTaskWaitingToReceive (g_ota_stream w2) \<noteq> None \<Longrightarrow>
      \<forall>ev\<in>set before. event_ok ev \<Longrightarrow> \<forall>ev\<in>set blocked. event_ok ev \<Longrightarrow> P [(before, blocked)] w t cs"
    and join: "\<And>before blocked before' blocked' rounds w t cs w1 w2. ota_base (w, t) \<Longrightarrow> ota_track dev (w, t) cs \<Longrightarrow> run_events before w = Some w1 \<Longrightarrow>
      ota_iteration dev net blocked (w1, t) = Some (Inl w2) \<Longrightarrow> P ((before, blocked @ before' @ blocked') # rounds) w t cs \<Longrightarrow>
      P ((before, blocked) # (before', blocked') # rounds) w t cs"
    and step: "\<And>before blocked rounds w t cs w1 bs w2 t2 cs'. ota_base (w, t) \<Longrightarrow> ota_track dev (w, t) cs \<Longrightarrow> run_events before w = Some w1 \<Longrightarrow>
      callback_keeps w w1 \<Longrightarrow> ota_iteration dev net blocked (w1, t) = Some (Inr (bs, w2, t2)) \<Longrightarrow> step_ok dev good (ota_hw w) (cs @ bs) (w2, t2) \<Longrightarrow>
      ota_took blocked w1 t bs w2 \<Longrightarrow>
      ota_track dev (w2, t2) cs' \<Longrightarrow> cs' = cs @ bs \<or> cs' = [] \<and> 16 \<le> length (cs @ bs) \<and> \<not> (good (ota_hw w) \<and> valid_upload (cs @ bs)) \<Longrightarrow>
      ota_base (w2, t2) \<Longrightarrow> \<forall>ev\<in>set before. event_ok ev \<Longrightarrow> \<forall>ev\<in>set blocked. event_ok ev \<Longrightarrow> P rounds w2 t2 cs' \<Longrightarrow>
      P ((before, blocked) # rounds) w t cs"
  shows "P rounds w t cs"
  using base0 track0 ok0
proof (induction "length rounds" arbitrary: rounds w t cs rule: less_induct)
  case less
  show ?case
  proof (cases rounds)
    case Nil
    then show ?thesis using nil less.prems by simp
  next
    case (Cons round rest)
    obtain before blocked where r: "round = (before, blocked)" by (rule prod.exhaust)
    have ok: "\<forall>ev\<in>set before. event_ok ev" "\<forall>ev\<in>set blocked. event_ok ev" "rounds_ok rest"
      using less.prems(3) Cons r by (simp_all add: rounds_ok_Cons)
    obtain w1 where b: "run_events before w = Some w1" "callback_keeps w w1" "ota_base (w1, t)" "ota_track dev (w1, t) cs" "ota_hw w1 = ota_hw w"
      using ota_before_ok [OF less.prems(1,2) ok(1)] by blast
    from ota_iteration_ok [OF hw good b(3,4) ok(2), of net] show ?thesis
    proof (elim disjE exE conjE)
      fix w2
      assume i: "ota_iteration dev net blocked (w1, t) = Some (Inl w2)" and rs: "\<not> system_reset w1" "sb_contents (g_ota_stream w1) = []"
        and k: "callback_keeps (ota_waiting w1) w2" "run_events blocked (ota_waiting w1) = Some w2" "xTaskWaitingToReceive (g_ota_stream w2) \<noteq> None"
      show ?thesis
      proof (cases rest)
        case Nil
        then show ?thesis using wait [OF less.prems(1,2) b(1,2) i rs k ok(1,2)] Cons r by simp
      next
        case more: (Cons round' rest')
        obtain before' blocked' where r': "round' = (before', blocked')" by (rule prod.exhaust)
        have "rounds_ok ((before, blocked @ before' @ blocked') # rest')"
          using ok more r' by (auto simp: rounds_ok_Cons)
        from less.hyps [OF _ less.prems(1,2) this] have "P ((before, blocked @ before' @ blocked') # rest') w t cs"
          using Cons more by simp
        from join [OF less.prems(1,2) b(1) i this] show ?thesis using Cons r more r' by simp
      qed
    next
      fix bs wt
      assume i: "ota_iteration dev net blocked (w1, t) = Some (Inr (bs, wt))" and s: "step_ok dev good (ota_hw w1) (cs @ bs) wt"
        and d: "ota_took blocked w1 t bs (fst wt)"
      obtain w2 t2 where wt: "wt = (w2, t2)" by (rule prod.exhaust)
      note i = i [unfolded wt] and s = s [unfolded wt b(5)] and d = d [unfolded wt fst_conv]
      obtain cs' where tr: "ota_track dev (w2, t2) cs'" and cs': "cs' = cs @ bs \<or> cs' = [] \<and> 16 \<le> length (cs @ bs) \<and> \<not> (good (ota_hw w) \<and> valid_upload (cs @ bs))"
        using s unfolding step_ok_def by blast
      have base: "ota_base (w2, t2)" using s by (simp add: step_ok_def)
      have "P rest w2 t2 cs'" using less.hyps [OF _ base tr ok(3)] Cons by simp
      from step [OF less.prems(1,2) b(1,2) i s d tr cs' base ok(1,2) this] show ?thesis using Cons r by simp
    qed
  qed
qed

lemma ota_run_inv:
  assumes hw: "fmc_hardware dev" and good: "flush_good dev good" and base: "ota_base (w, t)" and track: "ota_track dev (w, t) cs" and ok: "rounds_ok rounds"
  shows "\<exists>bs w' t'. ota_run dev net rounds (w, t) = Some (bs, w', t') \<and> ota_inv dev (w', t') (cs @ bs) \<and>
    outside_same dev (ota_hw w) (ota_hw w') \<and> (sb_calm (g_ota_stream w) \<longrightarrow> sb_calm (g_ota_stream w'))"
  using hw good base track ok
proof (induction rule: ota_rounds_induct [where net = net])
  case (Nil w t cs)
  then show ?case by (auto simp: ota_inv_def ota_base_def intro: outside_same_refl)
next
  case (Wait before blocked w t cs w1 w2)
  have "system_reset w2 \<longleftrightarrow> ok_replied w2" and w2: "ota_hw w2 = ota_hw w" "system_reset w2 = system_reset w"
    using Wait(1,4,8) by (simp_all add: ota_base_def callback_keeps_def ota_waiting_fields)
  moreover have "ota_track dev (w2, t) cs" using Wait(2) ota_track_world [OF w2] by simp
  moreover have "sb_calm (g_ota_stream w) \<longrightarrow> sb_calm (g_ota_stream w2)"
    using Wait(4,7,8) ota_waiting_calm [of w1] by (simp add: callback_keeps_def)
  ultimately show ?case using Wait(3,5) by (auto simp: ota_inv_def intro: outside_same_refl)
next
  case (Join before blocked before' blocked' rounds w t cs w1 w2)
  then show ?case by simp
next
  case (Step before blocked rounds w t cs w1 bs w2 t2 cs')
  obtain bs3 w3 t3 where r: "ota_run dev net rounds (w2, t2) = Some (bs3, w3, t3)" "ota_inv dev (w3, t3) (cs' @ bs3)"
    "outside_same dev (ota_hw w2) (ota_hw w3)" "sb_calm (g_ota_stream w2) \<longrightarrow> sb_calm (g_ota_stream w3)"
    using Step.IH by blast
  have "\<exists>pre. cs @ bs = pre @ cs'" using Step(9) by auto
  then have "ota_inv dev (w3, t3) (cs @ bs @ bs3)" using r(2) unfolding ota_inv_def by (metis append.assoc)
  moreover have "outside_same dev (ota_hw w) (ota_hw w3)" using Step(6) r(3) by (auto simp: step_ok_def intro: outside_same_trans)
  moreover have "sb_calm (g_ota_stream w) \<longrightarrow> sb_calm (g_ota_stream w3)" using Step(4,7) r(4) by (auto simp: callback_keeps_def ota_took_def)
  ultimately show ?case using Step(3,5) r(1) by auto
qed

text \<open>With working flash and nothing wrong with the bytes, the attempt goes on through every round.\<close>

lemma valid_upload_prefix:
  assumes "valid_upload (us @ vs)" and "length us \<ge> 16"
  shows "valid_upload us"
proof -
  have e: "take 8 (us @ vs) = take 8 us" "upload_size (us @ vs) = upload_size us" "upload_crc (us @ vs) = upload_crc us"
    using assms(2) by (simp_all add: upload_size_def upload_crc_def seg_def)
  show ?thesis using assms unfolding valid_upload_def e by auto
qed

lemma ota_run_upload:
  assumes hw: "fmc_hardware dev" and good: "flush_good dev good" and base: "ota_base (w, t)" and track: "ota_track dev (w, t) cs" and ok: "rounds_ok rounds"
    and "good (ota_hw w)" and "ota_run dev net rounds (w, t) = Some (bs, w', t')" and "valid_upload (cs @ bs)"
  shows "ota_track dev (w', t') (cs @ bs)"
  using hw good base track ok assms(6-8)
proof (induction arbitrary: bs rule: ota_rounds_induct [where net = net])
  case (Nil w t cs)
  then show ?case by simp
next
  case (Wait before blocked w t cs w1 w2)
  have "bs = []" "w' = w2" "t' = t" using Wait(3,5,14) by simp_all
  moreover have "ota_hw w2 = ota_hw w" "system_reset w2 = system_reset w"
    using Wait(4,8) by (simp_all add: callback_keeps_def ota_waiting_fields)
  ultimately show ?case using Wait(2) ota_track_world [of w2 w dev t cs] by simp
next
  case (Join before blocked before' blocked' rounds w t cs w1 w2)
  then show ?case by simp
next
  case (Step before blocked rounds w t cs w1 bs1 w2 t2 cs')
  obtain bs2 where run: "ota_run dev net rounds (w2, t2) = Some (bs2, w', t')" and bs: "bs = bs1 @ bs2"
    using Step(3,5,15) by (auto split: option.splits)
  have v: "valid_upload ((cs @ bs1) @ bs2)" using Step(16) bs by simp
  have cs': "cs' = cs @ bs1" using Step(9,14) valid_upload_prefix [OF v] by auto
  have "good (ota_hw w2)" using Step(6,14) by (simp add: step_ok_def)
  from Step.IH [OF this run] v show ?case unfolding cs' bs by simp
qed

lemma complete_upload_reset:
  assumes "ota_track dev (w, t) us" and "valid_upload us" and "16 + unat (upload_size us) \<le> length us"
  shows "system_reset w"
proof (rule ccontr)
  assume r: "\<not> system_reset w"
  show False
  proof (cases "header_valid t")
    case True
    then obtain payload where "us = ota_header t @ payload" "length payload < unat (total_size t)"
      using assms(1) r by (auto simp: ota_track_def)
    then show False using assms(3) by (simp add: upload_fields)
  next
    case False
    then show False using assms(1,3) r by (auto simp: ota_track_def)
  qed
qed

text \<open>
  The server after its set-up has succeeded: the allocator returns blocks of the size asked for, the
  two buffers on the task's stack have their declared lengths and hold anything.
\<close>

definition ota_started ::
  "lwip \<Rightarrow> u32 \<Rightarrow> (u32 \<Rightarrow> u8 list option) \<Rightarrow> 'h \<Rightarrow> 'h ota_world \<times> ota_task \<Rightarrow> bool" where
  "ota_started net sz malloc h wt \<longleftrightarrow> ota_server_setup net sz malloc h = Some (Inr (fst wt)) \<and>
     (\<forall>n block. malloc n = Some block \<longrightarrow> length block = unat n) \<and> unat sz < 2 ^ 30 \<and>
     (\<exists>header sector. length header = 16 \<and> length sector = 4096 \<and> snd wt = ota_task_init header sector)"

lemma ota_started_track:
  assumes "ota_started net sz malloc h (w, t)"
  shows "ota_base (w, t)" "ota_track dev (w, t) []" "ota_hw w = h" "sb_contents (g_ota_stream w) = []"
    "stream_capacity (g_ota_stream w) = 8192" "g_ota_data_pcb w = None" "sb_calm (g_ota_stream w)"
proof -
  obtain header sector where t: "t = ota_task_init header sector" "length header = 16" "length sector = 4096"
    and set: "ota_server_setup net sz malloc h = Some (Inr w)" and alloc: "\<forall>n block. malloc n = Some block \<longrightarrow> length block = unat n"
    and sz: "unat sz < 2 ^ 30" using assms by (auto simp: ota_started_def)
  obtain sb where c: "xStreamBufferGenericCreate sz malloc OTA_STREAM_BUF_SIZE OTA_STREAM_TRIG_LEVEL sbTYPE_STREAM_BUFFER = Some (Some sb)"
    and w: "g_ota_stream w = sb" "ota_hw w = h" "\<not> system_reset w" "\<not> ok_replied w" "g_ota_data_pcb w = None"
    using set by (auto simp: ota_server_setup_def ok_replied_def split: option.splits if_splits)
  have tot: "unat (OTA_STREAM_BUF_SIZE + 1 + sz) = 8193 + unat sz"
    using sz by (subst unat_add_small) (simp_all add: OTA_STREAM_BUF_SIZE_def)
  obtain block where m: "malloc (OTA_STREAM_BUF_SIZE + 1 + sz) = Some block"
    using c by (auto simp: xStreamBufferGenericCreate_def Let_def split: option.splits if_splits)
  have "length block = unat OTA_STREAM_BUF_SIZE + 1 + unat sz" using alloc m tot by (simp add: OTA_STREAM_BUF_SIZE_def)
  then have "stream_ready sb \<and> xTaskWaitingToReceive sb = None \<and> sb_contents sb = [] \<and> stream_capacity sb = 8192 \<and> xTriggerLevelBytes sb = 1"
    using create_stream_ready [of OTA_STREAM_BUF_SIZE OTA_STREAM_TRIG_LEVEL sz malloc block] c m sz
    by (auto simp: OTA_STREAM_BUF_SIZE_def OTA_STREAM_TRIG_LEVEL_def)
  then show "ota_base (w, t)" "ota_track dev (w, t) []" "ota_hw w = h" "sb_contents (g_ota_stream w) = []"
    "stream_capacity (g_ota_stream w) = 8192" "g_ota_data_pcb w = None" "sb_calm (g_ota_stream w)"
    using w t by (simp_all add: ota_base_def ota_track_def ota_task_init_def stream_idle_def sb_calm_def)
qed

end
