(* ===== verification/OtaInstall.thy ===== *)
theory OtaInstall
  imports OtaUpdate
begin

text \<open>
  What a flash controller that works gives the update, and the theorems on whole updates. That the
  controller works is a hypothesis on its driver calls: an erase reports ready and leaves the
  sector at 0xFF, programming an erased double word reports ready and leaves it there. The
  simulated controller satisfies it.
\<close>

section \<open>A controller that works\<close>

definition fmc_works :: "'h fmc_device \<Rightarrow> ('h \<Rightarrow> bool) \<Rightarrow> bool" where
  "fmc_works dev good \<longleftrightarrow>
     (\<forall>off h. good h \<longrightarrow> good (snd (read_reg dev off h))) \<and> (\<forall>off v h. good h \<longrightarrow> good (write_reg dev off v h)) \<and>
     (\<forall>a h. good h \<longrightarrow> (\<exists>h'. fmc_sector_erase dev a h = (FMC_READY, h') \<and> good h' \<and>
        (\<forall>b. flash_sector b = flash_sector a \<longrightarrow> flash dev h' b = 0xFF))) \<and>
     (\<forall>a d h. good h \<longrightarrow> (\<forall>i<8. flash dev h (a + word_of_nat i) = 0xFF) \<longrightarrow>
        (\<exists>h'. fmc_doubleword_program dev a d h = (FMC_READY, h') \<and> good h' \<and> flash_bytes dev a 8 h' = le_bytes 8 d))"

lemma works_read: "fmc_works dev good \<Longrightarrow> good h \<Longrightarrow> good (snd (read_reg dev off h))"
  by (simp add: fmc_works_def)

lemma works_write: "fmc_works dev good \<Longrightarrow> good h \<Longrightarrow> good (write_reg dev off v h)"
  by (simp add: fmc_works_def)

lemma works_erase:
  "fmc_works dev good \<Longrightarrow> good h \<Longrightarrow> \<exists>h'. fmc_sector_erase dev a h = (FMC_READY, h') \<and> good h' \<and>
     (\<forall>b. flash_sector b = flash_sector a \<longrightarrow> flash dev h' b = 0xFF)"
  unfolding fmc_works_def by blast

lemma works_clear: "fmc_works dev good \<Longrightarrow> good h \<Longrightarrow> good (fmc_clear_all_flags dev h)"
  by (simp add: fmc_clear_all_flags_def fmc_flag_clear_def works_write)

lemma works_unlock: "fmc_works dev good \<Longrightarrow> good h \<Longrightarrow> good (fmc_unlock dev h)"
  by (simp add: fmc_unlock_def split_beta works_read works_write)

lemma works_close: "fmc_works dev good \<Longrightarrow> good h \<Longrightarrow> good (ota_flash_close dev h)"
  by (simp add: ota_flash_close_def fmc_lock_def fmc_ctl_update_def split_beta works_read works_write works_clear)

lemma works_program:
  assumes "fmc_works dev good" and "good h" and "\<forall>i<8. flash dev h (a + word_of_nat i) = 0xFF"
  shows "\<exists>h'. program_doubleword dev a d h = (0, h') \<and> good h'"
proof -
  obtain h' where "fmc_doubleword_program dev a d h = (FMC_READY, h')" "good h'" "flash_bytes dev a 8 h' = le_bytes 8 d"
    using assms unfolding fmc_works_def by blast
  then show ?thesis by (simp add: program_doubleword_def le_word_le_bytes)
qed

text \<open>The double words of a block, written to erased flash that reaches to the next double word boundary.\<close>

lemma works_loop:
  assumes "fmc_hardware dev" and "fmc_works dev good" and "good h" and "unat remaining \<le> length src"
    and "unat remaining \<le> N" and "8 dvd N" and "N \<le> 4096" and "\<forall>i<N. flash dev h (addr + word_of_nat i) = 0xFF"
  shows "\<exists>addr' src' remaining' h'. ota_write_loop dev addr src remaining h = Some (0, addr', src', remaining', h') \<and> good h' \<and>
    unat remaining' \<le> length src' \<and> unat remaining' < 8 \<and>
    (remaining' \<noteq> 0 \<longrightarrow> (\<forall>i<8. flash dev h' (addr' + word_of_nat i) = 0xFF))"
  using assms
proof (induction dev addr src remaining h arbitrary: N rule: ota_write_loop.induct)
  case (1 dev addr src remaining h)
  note hw = 1(2) and works = 1(3) and good = 1(4) and len = 1(5) and N = 1(6-8) and ff = 1(9)
  show ?case
  proof (cases "8 \<le> remaining")
    case False
    then have r: "unat remaining < 8" by (simp add: word_le_nat_alt)
    have "flash dev h (addr + word_of_nat i) = 0xFF" if "remaining \<noteq> 0" "i < 8" for i
    proof -
      have "0 < unat remaining" using that by (simp add: unat_gt_0)
      then have "8 \<le> N" using N(1,2) by (auto dest: dvd_imp_le)
      then show ?thesis using ff that by simp
    qed
    then show ?thesis using False r good len by (subst ota_write_loop.simps) auto
  next
    case True
    then have r8: "8 \<le> unat remaining" by (simp add: word_le_nat_alt)
    have "\<forall>i<8. flash dev h (addr + word_of_nat i) = 0xFF" using ff r8 N(1) by simp
    then obtain h1 where prog: "program_doubleword dev addr (le_word (take 8 src)) h = (0, h1)" and good1: "good h1"
      using works_program [OF works good] by blast
    have long: "\<not> length src < 8" using r8 len by simp
    have rem: "unat (remaining - 8) = unat remaining - 8" using True by (simp add: unat_diff_le)
    have far: "flash dev h1 (addr + 8 + word_of_nat i) = 0xFF" if "i < N - 8" for i
    proof -
      have e: "addr + 8 + word_of_nat i = addr + word_of_nat (8 + i)" by simp
      have "unat (word_of_nat (8 + i) :: u32) = 8 + i" using that N(3) by (intro word_of_nat_eq_nat_iff) simp
      then have "flash dev h1 (addr + word_of_nat (8 + i)) = flash dev h (addr + word_of_nat (8 + i))"
        using program_doubleword_written [OF hw prog] unfolding flash_written_def by simp
      also have "\<dots> = 0xFF" using ff [rule_format, of "8 + i"] that by linarith
      finally show ?thesis unfolding e .
    qed
    have run: "ota_write_loop dev addr src remaining h = ota_write_loop dev (addr + 8) (drop 8 src) (remaining - 8) h1"
      using True long prog by (subst ota_write_loop.simps) simp
    have "unat (remaining - 8) \<le> length (drop 8 src)" "unat (remaining - 8) \<le> N - 8" "8 dvd N - 8" "N - 8 \<le> 4096"
      using rem len N r8 by (auto intro: dvd_diff_nat)
    from 1(1) [OF True _ prog [symmetric] refl _ hw works good1 this] far show ?thesis
      unfolding run using long by auto
  qed
qed

lemma sector_cells:
  assumes "unat idx < 160" and "i < 4096"
  shows "flash_sector (SECONDARY_SLOT_ADDR + idx * FLASH_SECTOR_SIZE + word_of_nat i) =
    flash_sector (SECONDARY_SLOT_ADDR + idx * FLASH_SECTOR_SIZE)"
proof -
  have e: "SECONDARY_SLOT_ADDR + word_of_nat (unat idx * 4096) + word_of_nat i = SECONDARY_SLOT_ADDR + word_of_nat (unat idx * 4096 + i)"
    by simp
  have b: "unat idx * 4096 + i < 160 * 4096" "unat idx * 4096 < 160 * 4096" using assms by simp_all
  have "(0x080C0000 + (unat idx * 4096 + i)) div 4096 = (0x080C0000 + unat idx * 4096) div 4096"
    using assms(2) by simp
  then have "unat (flash_sector (SECONDARY_SLOT_ADDR + word_of_nat (unat idx * 4096 + i))) =
      unat (flash_sector (SECONDARY_SLOT_ADDR + word_of_nat (unat idx * 4096)))"
    unfolding flash_sector_div slot_byte_addr [OF b(1)] slot_byte_addr [OF b(2)] .
  then show ?thesis unfolding sector_addr(1) [OF assms(1)] e by (simp only: word_unat_eq_iff)
qed

lemma works_erase_sector:
  assumes works: "fmc_works dev good" and "good h" and hw: "fmc_hardware dev" and idx: "unat idx < 160"
  shows "\<exists>h'. ota_flash_erase_sector dev idx h = (0, h') \<and> good h' \<and>
    (\<forall>i<4096. flash dev h' (SECONDARY_SLOT_ADDR + idx * FLASH_SECTOR_SIZE + word_of_nat i) = 0xFF)"
proof -
  let ?a = "SECONDARY_SLOT_ADDR + idx * FLASH_SECTOR_SIZE" and ?h = "fmc_clear_all_flags dev (fmc_unlock dev h)"
  have "good ?h" using works_clear [OF works works_unlock [OF works assms(2)]] .
  then obtain h1 where e: "fmc_sector_erase dev ?a ?h = (FMC_READY, h1)" and g: "good h1"
    and ff: "\<forall>b. flash_sector b = flash_sector ?a \<longrightarrow> flash dev h1 b = 0xFF"
    using works_erase [OF works] by blast
  have cells: "flash dev h1 (?a + word_of_nat i) = 0xFF" if "i < 4096" for i using ff sector_cells [OF idx that] by blast
  have four: "[0..<4] = [0, 1, 2, 3]" by (simp add: upt_rec)
  have "flash_bytes dev ?a 4 h1 = [0xFF, 0xFF, 0xFF, 0xFF]"
    using cells [of 0] cells [of 1] cells [of 2] cells [of 3] by (simp add: flash_bytes_def four)
  then have "(le_word (flash_bytes dev ?a 4 h1) :: u32) = 0xFFFFFFFF" by (simp add: le_word_def)
  then have "ota_flash_erase_sector dev idx h = (0, ota_flash_close dev h1)"
    using erase_accepted [OF idx] by (simp add: ota_flash_erase_sector_def Let_def e)
  then show ?thesis using works_close [OF works g] cells by (simp add: ota_flash_close_flash [OF hw])
qed

lemma works_flush_good:
  assumes hw: "fmc_hardware dev" and works: "fmc_works dev good"
  shows "flush_good dev good"
  unfolding flush_good_def
proof (intro allI impI)
  fix h and n idx :: u32 and buf :: "u8 list"
  assume good: "good h" and len: "unat n \<le> length buf" and n: "unat n \<le> 4096" and "n = 0 \<or> unat idx < 160"
  show "\<exists>h'. ota_flush_sector dev buf n idx h = Some (0, h') \<and> good h'"
  proof (cases "n = 0")
    case True
    then show ?thesis using good by (simp add: ota_flush_sector_def)
  next
    case False
    then have idx: "unat idx < 160" using \<open>n = 0 \<or> unat idx < 160\<close> by simp
    let ?a = "SECONDARY_SLOT_ADDR + idx * FLASH_SECTOR_SIZE"
    obtain h1 where e: "ota_flash_erase_sector dev idx h = (0, h1)" and g1: "good h1"
      and ff: "\<forall>i<4096. flash dev h1 (?a + word_of_nat i) = 0xFF"
      using works_erase_sector [OF works good hw idx] by blast
    let ?h = "fmc_clear_all_flags dev (fmc_unlock dev h1)"
    have g2: "good ?h" using works_clear [OF works works_unlock [OF works g1]] .
    have ff2: "\<forall>i<4096. flash dev ?h (?a + word_of_nat i) = 0xFF"
      using ff by (simp add: fmc_clear_all_flags_flash [OF hw] fmc_unlock_flash [OF hw])
    have "unat ?a = 0x080C0000 + unat idx * 4096" unfolding sector_addr(1) [OF idx] using idx by (intro slot_byte_addr) simp
    then have "unat (?a AND 7) = 0" unfolding and_7 by (simp add: mod_add_eq [symmetric] mod_mult_right_eq [symmetric])
    then have al: "?a AND 7 = 0" by (simp add: unat_eq_0)
    have head: "ota_write_head dev ?a buf n ?h = Some (0, ?a, buf, n, ?h)" using al by (simp add: ota_write_head_def)
    obtain a2 s2 r2 h2 where loop: "ota_write_loop dev ?a buf n ?h = Some (0, a2, s2, r2, h2)" and g3: "good h2"
      and r2: "unat r2 \<le> length s2" "r2 \<noteq> 0 \<longrightarrow> (\<forall>i<8. flash dev h2 (a2 + word_of_nat i) = 0xFF)"
      using works_loop [OF hw works g2 len n _ _ ff2] by auto
    obtain h3 where tail: "ota_write_tail dev a2 s2 r2 h2 = Some (0, h3)" and g4: "good h3"
    proof (cases "r2 = 0")
      case True
      then show ?thesis using that g3 by (simp add: ota_write_tail_def)
    next
      case False
      then show ?thesis using that works_program [OF works g3] r2 by (fastforce simp: ota_write_tail_def Let_def word_gt_0 not_less)
    qed
    have "\<not> idx * FLASH_SECTOR_SIZE + n > SECONDARY_SLOT_SIZE"
      using sector_addr(2) [OF idx] idx n by (simp add: word_less_nat_alt SECONDARY_SLOT_SIZE_def unat_add_small)
    then have "ota_flash_write dev (idx * FLASH_SECTOR_SIZE) buf n h1 = Some (0, ota_flash_close dev h3)"
      by (simp add: ota_flash_write_def head loop tail)
    then show ?thesis using False e works_close [OF works g4]
      by (simp add: ota_flush_sector_def OTA_FLASH_SECTOR_SIZE_def FLASH_SECTOR_SIZE_def)
  qed
qed

section \<open>The simulated controller works\<close>

definition sim_good :: "sim_fmc \<Rightarrow> bool" where "sim_good h \<longleftrightarrow> \<not> bit (s_ctl h) 7"

lemma sim_works: "fmc_works sim_dev sim_good"
proof -
  have w: "sim_good h \<Longrightarrow> sim_good (write_reg sim_dev off v h)" for off v h
    by (simp add: sim_good_def sim_dev_def sim_write_def FMC_CTL_START_def BIT_def bit_simps)
  have e: "\<exists>h'. fmc_sector_erase sim_dev a h = (FMC_READY, h') \<and> sim_good h' \<and>
      (\<forall>b. flash_sector b = flash_sector a \<longrightarrow> flash sim_dev h' b = 0xFF)" if "sim_good h" for a h
    using sim_sector_erase [of h a] that by (auto simp: sim_good_def sim_dev_def)
  have p: "\<exists>h'. fmc_doubleword_program sim_dev a d h = (FMC_READY, h') \<and> sim_good h' \<and> flash_bytes sim_dev a 8 h' = le_bytes 8 d"
    if "\<forall>i<8. flash sim_dev h (a + word_of_nat i) = 0xFF" for a d h
    using sim_doubleword_erased [of h a d] that by (auto simp: sim_good_def sim_dev_def)
  have r: "sim_good h \<Longrightarrow> sim_good (snd (read_reg sim_dev off h))" for off h by (simp add: sim_dev_def)
  show ?thesis unfolding fmc_works_def using w e p r by blast
qed

lemma sim_erased_good: "sim_good sim_erased"
  by (simp add: sim_good_def sim_erased_def FMC_CTL_LK_def BIT_def bit_simps)

section \<open>A delivery\<close>

text \<open>A complete upload.\<close>

definition good_upload :: "u8 list \<Rightarrow> bool" where
  "good_upload us \<longleftrightarrow> valid_upload us \<and> length us = 16 + unat (upload_size us)"

text \<open>
  The bytes that callbacks put into the stream: those of the packets. \<open>None\<close> stands for a loss: a packet for which there is no room, or
  a connection that is accepted, with a reset of the stream, while bytes are still queued.
\<close>

definition event_bytes :: "ota_event \<Rightarrow> 'h ota_world \<Rightarrow> u8 list option" where
  "event_bytes ev w =
     (case ev of
        Ev_recv _ (Some pb) err \<Rightarrow>
          (if err \<noteq> ERR_OK then Some []
           else if length (concat (segs pb)) \<le> stream_capacity (g_ota_stream w) - length (sb_contents (g_ota_stream w))
           then Some (concat (segs pb)) else None)
      | Ev_accept _ _ \<Rightarrow> if sb_contents (g_ota_stream w) = [] then Some [] else None
      | _ \<Rightarrow> Some [])"

fun events_bytes :: "ota_event list \<Rightarrow> 'h ota_world \<Rightarrow> u8 list option" where
  "events_bytes [] w = Some []"
| "events_bytes (ev # evs) w =
     Option.bind (event_bytes ev w) (\<lambda>d. Option.bind (run_event ev w) (\<lambda>w1. map_option ((@) d) (events_bytes evs w1)))"

text \<open>The bytes that the callbacks of a run put into the stream, in the rounds as the run goes through them.\<close>

fun run_bytes ::
  "'h fmc_device \<Rightarrow> lwip \<Rightarrow> (ota_event list \<times> ota_event list) list \<Rightarrow> 'h ota_world \<times> ota_task \<Rightarrow> u8 list option" where
  "run_bytes dev net [] wt = Some []"
| "run_bytes dev net ((before, blocked) # rounds) wt =
     (case run_events before (fst wt) of
        None \<Rightarrow> None
      | Some w1 \<Rightarrow>
          (case ota_iteration dev net blocked (w1, snd wt) of
             None \<Rightarrow> None
           | Some (Inl w2) \<Rightarrow>
               (case rounds of
                  [] \<Rightarrow> Option.bind (events_bytes before (fst wt)) (\<lambda>d. map_option ((@) d) (events_bytes blocked (ota_waiting w1)))
                | (before', blocked') # rounds' \<Rightarrow> run_bytes dev net ((before, blocked @ before' @ blocked') # rounds') wt)
           | Some (Inr (bs, wt2)) \<Rightarrow>
               Option.bind (events_bytes before (fst wt)) (\<lambda>d.
               Option.bind (if \<not> system_reset w1 \<and> sb_contents (g_ota_stream w1) = [] then events_bytes blocked (ota_waiting w1) else Some []) (\<lambda>e.
               map_option ((@) (d @ e)) (run_bytes dev net rounds wt2)))))"

lemma queue_segments_bytes:
  assumes "stream_ready (g_ota_stream w)" and "\<forall>q\<in>set qs. length q < 65536"
    and "length (concat qs) \<le> stream_capacity (g_ota_stream w) - length (sb_contents (g_ota_stream w))" and "ota_queue_segments qs w = Some w'"
  shows "sb_contents (g_ota_stream w') = sb_contents (g_ota_stream w) @ concat qs"
  using assms
proof (induction qs arbitrary: w)
  case Nil
  then show ?case by simp
next
  case (Cons q qs)
  obtain n sb where s: "xStreamBufferSend 0 [] (g_ota_stream w) q (word_of_nat (length q)) 0 = Some (n, sb)" and r: "stream_ready sb"
    and n: "unat n = min (length q) (stream_capacity (g_ota_stream w) - length (sb_contents (g_ota_stream w)))"
    and c: "sb_contents sb = sb_contents (g_ota_stream w) @ take (unat n) q" "xLength sb = xLength (g_ota_stream w)"
    using queue_segment [OF Cons.prems(1), of q] Cons.prems(2) by auto
  have q: "sb_contents sb = sb_contents (g_ota_stream w) @ q" using c(1) n Cons.prems(3) by simp
  have len: "length (sb_contents sb) = length (sb_contents (g_ota_stream w)) + length q" unfolding q length_append ..
  have "length (concat qs) \<le> stream_capacity sb - length (sb_contents sb)"
    using Cons.prems(3) c(2) unfolding len by (simp add: stream_capacity_def)
  with Cons.IH [of "w\<lparr>g_ota_stream := sb\<rparr>"] r Cons.prems(2,4) s q show ?case by simp
qed

lemma run_event_bytes:
  assumes r: "stream_ready (g_ota_stream w)" and ok: "event_ok ev" and b: "event_bytes ev w = Some d" and run: "run_event ev w = Some w'"
  shows "sb_contents (g_ota_stream w') = sb_contents (g_ota_stream w) @ d"
proof (cases ev)
  case (Ev_accept newpcb err)
  have "sb_contents (prvInitialiseNewStreamBuffer b n l f) = []" for b n l f
    by (simp add: prvInitialiseNewStreamBuffer_def sb_contents_def sb_count_def ring_dist_def ring_slice_def)
  moreover have "sb_contents (g_ota_stream w) = []" "d = []" using b Ev_accept by (auto simp: event_bytes_def split: if_splits)
  ultimately show ?thesis
    using run Ev_accept by (auto simp: run_event_def ota_accept_def lwip_calls_def xStreamBufferReset_def split: option.splits if_splits)
next
  case (Ev_err err)
  then show ?thesis using b run by (auto simp: event_bytes_def run_event_def ota_err_def)
next
  case (Ev_recv pcb p err)
  show ?thesis
  proof (cases "p = None \<or> err \<noteq> ERR_OK")
    case True
    then show ?thesis using b run Ev_recv
      by (auto simp: event_bytes_def run_event_def ota_recv_def ota_cleanup_connection_def lwip_calls_def split: option.splits)
  next
    case False
    then obtain pb where pb: "p = Some pb" "err = ERR_OK" by auto
    let ?w = "lwip_calls [Tcp_recved pcb (tot_len pb)] w"
    have w: "g_ota_stream ?w = g_ota_stream w" by (simp add: lwip_calls_def)
    have d: "d = concat (segs pb)" "length (concat (segs pb)) \<le> stream_capacity (g_ota_stream w) - length (sb_contents (g_ota_stream w))"
      using b Ev_recv pb by (simp_all add: event_bytes_def split: if_splits)
    obtain w1 where q: "ota_queue_segments (segs pb) ?w = Some w1" "w' = lwip_calls [Pbuf_free] w1"
      using run Ev_recv pb by (auto simp: run_event_def ota_recv_def split: option.splits)
    have "\<forall>q\<in>set (segs pb). length q < 65536" using ok Ev_recv pb by (simp add: event_ok_def)
    with queue_segments_bytes [of ?w "segs pb" w1] r d q w show ?thesis by (simp add: lwip_calls_def)
  qed
qed

lemma run_events_bytes:
  assumes "stream_ready (g_ota_stream w)" and "\<forall>ev\<in>set evs. event_ok ev" and "events_bytes evs w = Some d" and "run_events evs w = Some w'"
  shows "sb_contents (g_ota_stream w') = sb_contents (g_ota_stream w) @ d"
  using assms
proof (induction evs arbitrary: w d)
  case Nil
  then show ?case by simp
next
  case (Cons ev evs)
  obtain w1 d1 d2 where e: "run_event ev w = Some w1" "event_bytes ev w = Some d1" "events_bytes evs w1 = Some d2" "d = d1 @ d2"
    "run_events evs w1 = Some w'"
    using Cons.prems(3,4) by (auto simp: bind_eq_Some_conv split: option.splits)
  have k: "stream_ready (g_ota_stream w1)" using run_event_keeps [OF Cons.prems(1), of ev] Cons.prems(1,2) e(1) by (auto simp: callback_keeps_def)
  from Cons.IH [OF k _ e(3,5)] run_event_bytes [OF Cons.prems(1) _ e(2,1)] Cons.prems(2) e(4) show ?case by simp
qed

lemma reset_complete:
  assumes "ota_track dev (w, t) cs" and "system_reset w" and "good_upload (cs @ rest)"
  shows "rest = []"
proof -
  obtain payload where "cs = ota_header t @ payload" "unat (total_size t) \<le> length payload"
    using assms(1,2) by (auto simp: ota_track_def installed_def)
  then have "length payload + length rest \<le> length payload" using assms(3) by (auto simp: good_upload_def upload_fields)
  then show ?thesis by simp
qed

lemma room_pos:
  assumes "ota_track dev (w, t) cs" and "\<not> system_reset w"
  shows "0 < unat (ota_room t)"
proof (cases "header_valid t")
  case True
  then have "unat (sector_buf_pos t) < 4096" using assms by (auto simp: ota_track_def)
  then have "unat (OTA_FLASH_SECTOR_SIZE - sector_buf_pos t) = 4096 - unat (sector_buf_pos t)"
    by (subst unat_diff_le) (simp_all add: OTA_FLASH_SECTOR_SIZE_def word_le_nat_alt)
  then show ?thesis using True \<open>unat (sector_buf_pos t) < 4096\<close> by (simp add: ota_room_def)
next
  case False
  then have "unat (header_received t) < 16" using assms by (auto simp: ota_track_def)
  moreover from this have "unat (OTA_HEADER_SIZE - header_received t) = 16 - unat (header_received t)"
    by (subst unat_diff_le) (simp_all add: OTA_HEADER_SIZE_def word_le_nat_alt)
  ultimately show ?thesis using False by (simp add: ota_room_def)
qed

lemma blocked_quiet:
  assumes "run_events before w = Some w1" and "ota_iteration dev net blocked (w1, t) = Some (Inl w2)"
  shows "ota_run dev net ((before, blocked) # replicate m ([], [])) (w, t) = Some ([], w2, t)"
  using assms by (induction m) (simp_all cong: list.case_cong)

text \<open>Iterations with nothing happening empty the stream, unless the system restarts first.\<close>

lemma quiet_drain:
  assumes hw: "fmc_hardware dev" and good: "flush_good dev good" and "ota_base (w, t)" and "ota_track dev (w, t) cs"
    and "length (sb_contents (g_ota_stream w)) \<le> n"
  shows "\<exists>bs w' t'. ota_run dev net (replicate n ([], [])) (w, t) = Some (bs, w', t') \<and>
    bs @ sb_contents (g_ota_stream w') = sb_contents (g_ota_stream w) \<and> (sb_contents (g_ota_stream w') = [] \<or> system_reset w')"
  using assms(3-5)
proof (induction n arbitrary: w t cs)
  case 0
  then have "sb_contents (g_ota_stream w) = []" by (simp only: le_zero_eq length_0_conv)
  then show ?case by simp
next
  case (Suc n)
  let ?c = "sb_contents (g_ota_stream w)"
  have none: "\<forall>ev\<in>set []. event_ok ev" by simp
  from ota_iteration_ok [OF hw good Suc.prems(1,2) none, of net] show ?case
  proof (elim disjE exE conjE)
    fix w1
    assume i: "ota_iteration dev net [] (w, t) = Some (Inl w1)" and c: "?c = []" and w1: "run_events [] (ota_waiting w) = Some w1"
    from blocked_quiet [OF _ i, of "[]" w n] have "ota_run dev net (replicate (Suc n) ([], [])) (w, t) = Some ([], w1, t)" by simp
    with c w1 show ?thesis by (auto simp: ota_waiting_fields)
  next
    fix bs wt
    assume i: "ota_iteration dev net [] (w, t) = Some (Inr (bs, wt))" and s: "step_ok dev good (ota_hw w) (cs @ bs) wt"
      and tk: "ota_took [] w t bs (fst wt)"
    obtain w2 t2 where wt: "wt = (w2, t2)" by (rule prod.exhaust)
    have b2: "ota_base (w2, t2)" using s wt by (simp add: step_ok_def)
    obtain cs' where tr: "ota_track dev (w2, t2) cs'" using s wt by (auto simp: step_ok_def)
    show ?thesis
    proof (cases "system_reset w")
      case True
      then have w2: "bs = []" "w2 = w" "t2 = t" using tk i wt by (simp_all add: ota_took_def ota_iteration_def)
      have "ota_run dev net (replicate m ([], [])) (w, t) = Some ([], w, t)" for m
        using True by (induction m) (simp_all add: ota_iteration_def)
      from this [of "Suc n"] True show ?thesis by (simp del: replicate_Suc)
    next
      case False
      then have sp: "bs = take (unat (ota_room t)) ?c" "sb_contents (g_ota_stream w2) = drop (unat (ota_room t)) ?c"
        using tk wt by (auto simp: ota_took_def ota_waiting_fields split: if_splits)
      have "length (sb_contents (g_ota_stream w2)) \<le> n"
        using Suc.prems(3) room_pos [OF Suc.prems(2) False] unfolding sp(2) length_drop by linarith
      from Suc.IH [OF b2 tr this] obtain bs3 w3 t3 where r: "ota_run dev net (replicate n ([], [])) (w2, t2) = Some (bs3, w3, t3)"
        "bs3 @ sb_contents (g_ota_stream w3) = drop (unat (ota_room t)) ?c" "sb_contents (g_ota_stream w3) = [] \<or> system_reset w3"
        unfolding sp(2) by blast
      have "(bs @ bs3) @ sb_contents (g_ota_stream w3) = ?c" unfolding append_assoc r(2) sp(1) by (rule append_take_drop_id)
      with r(1,3) i wt show ?thesis by auto
    qed
  qed
qed

text \<open>A run followed by enough quiet iterations: what the task took is what was queued at the start and what the callbacks queued.\<close>

lemma run_then_drain:
  assumes hw: "fmc_hardware dev" and good: "flush_good dev good" and base: "ota_base (w, t)" and track: "ota_track dev (w, t) cs" and ok: "rounds_ok rounds"
    and "run_bytes dev net rounds (w, t) = Some d" and "sb_calm (g_ota_stream w)" and "stream_capacity (g_ota_stream w) \<le> n"
  shows "\<exists>bs w' t'. ota_run dev net (rounds @ replicate n ([], [])) (w, t) = Some (bs, w', t') \<and>
    bs @ sb_contents (g_ota_stream w') = sb_contents (g_ota_stream w) @ d \<and> (sb_contents (g_ota_stream w') = [] \<or> system_reset w')"
  using hw good base track ok assms(6-8)
proof (induction arbitrary: d rule: ota_rounds_induct [where net = net])
  case (Nil w t cs)
  have "stream_ready (g_ota_stream w)" using Nil(1) by (simp add: ota_base_def stream_idle_def)
  then have "length (sb_contents (g_ota_stream w)) \<le> n"
    using Nil(5) sb_count_less [of "g_ota_stream w"] by (simp add: stream_ready_def stream_capacity_def)
  from quiet_drain [OF hw good Nil(1,2) this, of net] Nil(3) show ?case by simp
next
  case (Wait before blocked w t cs w1 w2)
  have r: "stream_ready (g_ota_stream w)" using Wait(1) by (simp add: ota_base_def stream_idle_def)
  have r1: "stream_ready (g_ota_stream (ota_waiting w1))" using r Wait(4) by (simp add: callback_keeps_def ota_waiting_fields)
  obtain d1 d2 where d: "events_bytes before w = Some d1" "events_bytes blocked (ota_waiting w1) = Some d2" "d = d1 @ d2"
    using Wait(3,5,13) by (auto simp: bind_eq_Some_conv)
  have c: "sb_contents (g_ota_stream w1) = sb_contents (g_ota_stream w) @ d1"
    "sb_contents (g_ota_stream w2) = sb_contents (g_ota_stream w1) @ d2"
    using run_events_bytes [OF r Wait(11) d(1) Wait(3)] run_events_bytes [OF r1 Wait(12) d(2) Wait(9)] by (simp_all add: ota_waiting_fields)
  have "sb_calm (g_ota_stream w2)" using Wait(4,7,8,14) ota_waiting_calm [of w1] by (simp add: callback_keeps_def)
  then have "sb_contents (g_ota_stream w2) = []" using Wait(10) by (simp add: sb_calm_def)
  then show ?case using blocked_quiet [OF Wait(3,5), of n] c d(3) by simp
next
  case (Join before blocked before' blocked' rounds w t cs w1 w2)
  then show ?case by simp
next
  case (Step before blocked rounds w t cs w1 bs1 w2 t2 cs')
  have r: "stream_ready (g_ota_stream w)" using Step(1) by (simp add: ota_base_def stream_idle_def)
  have r1: "stream_ready (g_ota_stream (ota_waiting w1))" using r Step(4) by (simp add: callback_keeps_def ota_waiting_fields)
  let ?e = "if \<not> system_reset w1 \<and> sb_contents (g_ota_stream w1) = [] then events_bytes blocked (ota_waiting w1) else Some []"
  obtain d1 d2 d3 where d: "events_bytes before w = Some d1" "?e = Some d2" "run_bytes dev net rounds (w2, t2) = Some d3" "d = d1 @ d2 @ d3"
    using Step(3,5,14) by (auto simp: bind_eq_Some_conv)
  have c1: "sb_contents (g_ota_stream w1) = sb_contents (g_ota_stream w) @ d1" using run_events_bytes [OF r Step(11) d(1) Step(3)] .
  have c2: "bs1 @ sb_contents (g_ota_stream w2) = sb_contents (g_ota_stream w1) @ d2"
  proof (cases "system_reset w1")
    case True
    then show ?thesis using Step(7) d(2) by (simp add: ota_took_def)
  next
    case False
    then obtain wb where wb: "if sb_contents (g_ota_stream w1) = [] then run_events blocked (ota_waiting w1) = Some wb else wb = w1"
      and s: "bs1 = take (unat (ota_room t)) (sb_contents (g_ota_stream wb))" "sb_contents (g_ota_stream w2) = drop (unat (ota_room t)) (sb_contents (g_ota_stream wb))"
      using Step(7) by (auto simp: ota_took_def)
    have "sb_contents (g_ota_stream wb) = sb_contents (g_ota_stream w1) @ d2"
      using wb False d(2) run_events_bytes [OF r1 Step(12), of d2 wb] by (auto simp: ota_waiting_fields split: if_splits)
    then show ?thesis unfolding s append_take_drop_id .
  qed
  have "sb_calm (g_ota_stream w2)" "stream_capacity (g_ota_stream w2) \<le> n"
    using Step(4,7,15,16) by (simp_all add: callback_keeps_def ota_took_def stream_capacity_def)
  from Step.IH [OF d(3) this] obtain bs w' t' where run: "ota_run dev net (rounds @ replicate n ([], [])) (w2, t2) = Some (bs, w', t')"
    "bs @ sb_contents (g_ota_stream w') = sb_contents (g_ota_stream w2) @ d3" "sb_contents (g_ota_stream w') = [] \<or> system_reset w'" by blast
  have "(bs1 @ bs) @ sb_contents (g_ota_stream w') = sb_contents (g_ota_stream w) @ d"
    unfolding append_assoc run(2) d(4) using c1 c2 by (metis append.assoc)
  with run(1,3) Step(3,5) show ?case by auto
qed

lemma upload_installed:
  assumes hw: "fmc_hardware dev" and works: "fmc_works dev good" and start: "good h" "ota_started net sz malloc h (w, t)"
    and ok: "rounds_ok rounds" and b: "run_bytes dev net rounds (w, t) = Some us" and us: "good_upload us" and n: "8192 \<le> n"
  shows "\<exists>w' t'. ota_run dev net (rounds @ replicate n ([], [])) (w, t) = Some (us, w', t') \<and> system_reset w' \<and> ok_replied w' \<and>
    (\<exists>payload. us = ota_header t' @ payload \<and> installed dev (ota_hw w') t' payload)"
proof -
  note good = works_flush_good [OF hw works] and s = ota_started_track [OF start(2)]
  let ?rounds = "rounds @ replicate n ([], [])"
  have ok': "rounds_ok ?rounds" using ok by (auto simp: rounds_ok_def)
  obtain bs w' t' where run: "ota_run dev net ?rounds (w, t) = Some (bs, w', t')" and c: "bs @ sb_contents (g_ota_stream w') = us"
    and e: "sb_contents (g_ota_stream w') = [] \<or> system_reset w'"
    using run_then_drain [OF hw good s(1,2) ok b s(7), of n] s(4,5) n by auto
  have "ota_inv dev (w', t') ([] @ bs)" using ota_run_inv [OF hw good s(1,2) ok', of net] run by auto
  then have inv: "system_reset w' = ok_replied w'" "system_reset w' \<longrightarrow> 16 \<le> length bs"
    by (auto simp: ota_inv_def ota_track_def ota_header_def ota_magic_def)
  have v: "valid_upload (bs @ sb_contents (g_ota_stream w'))" using us c by (simp add: good_upload_def)
  have "valid_upload ([] @ bs)" using e v inv(2) valid_upload_prefix [OF v] by auto
  from ota_run_upload [OF hw good s(1,2) ok' _ run this] start(1) s(3) have tr: "ota_track dev (w', t') bs" by simp
  have r: "system_reset w'"
    using e complete_upload_reset [OF tr] us c by (auto simp: good_upload_def)
  then obtain payload where p: "bs = ota_header t' @ payload" "installed dev (ota_hw w') t' payload" using tr by (auto simp: ota_track_def)
  have "sb_contents (g_ota_stream w') = []" using reset_complete [OF tr r, of "sb_contents (g_ota_stream w')"] us c by simp
  with run r inv(1) p c show ?thesis by auto
qed

text \<open>A packet of one segment.\<close>

definition packet :: "nat \<Rightarrow> u8 list \<Rightarrow> ota_event" where
  "packet pcb p = Ev_recv pcb (Some \<lparr>tot_len = word_of_nat (length p), segs = [p]\<rparr>) ERR_OK"

lemma run_bytes_before:
  assumes hw: "fmc_hardware dev" and s: "ota_base (w, t)" "ota_track dev (w, t) cs" and ok: "\<forall>ev\<in>set before. event_ok ev"
  shows "run_bytes dev net [(before, [])] (w, t) = events_bytes before w"
proof -
  obtain w1 where b: "run_events before w = Some w1" "ota_base (w1, t)" "ota_track dev (w1, t) cs" using ota_before_ok [OF s ok] by blast
  have "\<forall>ev\<in>set []. event_ok ev" by simp
  from ota_iteration_ok [OF hw flush_good_none b(2,3) this, of net] show ?thesis
    using b(1) by (auto simp: option.map_ident split: prod.split option.split)
qed

section \<open>Properties\<close>

text \<open>A server on the simulated controller, and an upload of three bytes.\<close>

definition sim_net :: lwip where
  "sim_net = \<lparr>lwip_write = (\<lambda>_ _ _. ERR_OK), lwip_new = Some 1, lwip_bind = (\<lambda>_. ERR_OK), lwip_listen = (\<lambda>p. Some (p + 1))\<rparr>"

definition sim_alloc :: "u32 \<Rightarrow> u8 list option" where
  "sim_alloc n = Some (replicate (unat n) 0)"

definition sim_task :: ota_task where
  "sim_task = ota_task_init (replicate 16 0) (replicate 4096 0)"

definition sim_upload :: "u8 list" where
  "sim_upload = ota_magic @ le_bytes 4 (3 :: u32) @ le_bytes 4 (crc32_bytes [1, 2, 3]) @ [1, 2, 3]"

lemma sim_started: "\<exists>w. ota_started sim_net 80 sim_alloc sim_erased (w, sim_task)"
proof -
  have "OTA_STREAM_BUF_SIZE > 0" "OTA_STREAM_TRIG_LEVEL \<le> OTA_STREAM_BUF_SIZE" "OTA_STREAM_BUF_SIZE < OTA_STREAM_BUF_SIZE + 1 + 80"
    by (simp_all add: OTA_STREAM_BUF_SIZE_def OTA_STREAM_TRIG_LEVEL_def)
  then have "\<exists>w. ota_server_setup sim_net 80 sim_alloc sim_erased = Some (Inr w)"
    by (simp add: ota_server_setup_def xStreamBufferGenericCreate_def sim_net_def sim_alloc_def Let_def)
  moreover have "\<exists>header sector. length header = 16 \<and> length sector = 4096 \<and> sim_task = ota_task_init header sector"
    by (intro exI [of _ "replicate 16 0"] exI [of _ "replicate 4096 0"]) (simp add: sim_task_def)
  ultimately show ?thesis by (simp add: ota_started_def sim_alloc_def)
qed

lemma sim_upload_good: "good_upload sim_upload" "upload_size sim_upload = 3" "drop 16 sim_upload = [1, 2, 3]"
proof -
  have m: "length ota_magic = 8" by (simp add: ota_magic_def)
  show s: "upload_size sim_upload = 3" by (simp add: upload_size_def sim_upload_def seg_def m le_word_le_bytes)
  show d: "drop 16 sim_upload = [1, 2, 3]" by (simp add: sim_upload_def m)
  have c: "upload_crc sim_upload = crc32_bytes [1, 2, 3]" by (simp add: upload_crc_def sim_upload_def seg_def m le_word_le_bytes)
  have "take 8 sim_upload = ota_magic" "length sim_upload = 19" by (simp_all add: sim_upload_def m)
  then show "good_upload sim_upload"
    using s c d by (simp add: good_upload_def valid_upload_def OTA_MAX_FIRMWARE_SIZE_def)
qed

text \<open>
  Claim C1: an update is acknowledged and the system restarted only for an image that arrived
  complete and whose checksum is right. For every sequence of callbacks of the network
  thread, before the task's iterations and while it is blocked, and whatever the flash does: when the
  server has sent the OK reply or restarted the system, the bytes it had taken from the
  stream end with a header (magic, size, checksum) and a payload of at least that size, the slot holds the first
  size bytes of that payload, and their CRC-32 is the announced one.
\<close>

theorem ota_update_sound:
  assumes "fmc_hardware dev" and "ota_started net sz malloc h (w, t)" and "rounds_ok rounds"
    and "ota_run dev net rounds (w, t) = Some (bs, w', t')" and "system_reset w' \<or> ok_replied w'"
  shows "\<exists>pre size crc payload. bs = pre @ ota_magic @ le_bytes 4 size @ le_bytes 4 crc @ payload \<and>
    0 < unat (size :: u32) \<and> unat size \<le> length payload \<and>
    flash_bytes dev SECONDARY_SLOT_ADDR (unat size) (ota_hw w') = take (unat size) payload \<and>
    crc32_bytes (take (unat size) payload) = crc"
proof -
  note s = ota_started_track [OF assms(2)]
  have inv: "ota_inv dev (w', t') ([] @ bs)" using ota_run_inv [OF assms(1) flush_good_none s(1,2) assms(3), of net] assms(4) by auto
  then obtain pre cs where cs: "bs = pre @ cs" "ota_track dev (w', t') cs" by (auto simp: ota_inv_def)
  have "system_reset w'" using inv assms(5) by (auto simp: ota_inv_def)
  then obtain payload where "cs = ota_header t' @ payload" "installed dev (ota_hw w') t' payload"
    using cs(2) by (auto simp: ota_track_def)
  then show ?thesis
    using cs(1) by (intro exI [of _ pre] exI [of _ "total_size t'"] exI [of _ "expected_crc t'"] exI [of _ payload])
      (simp add: ota_header_def installed_def slot_image_bytes)
qed


text \<open>A client connects and sends the upload in two packets.\<close>

definition sim_rounds :: "(ota_event list \<times> ota_event list) list" where
  "sim_rounds = [([Ev_accept (Some 7) ERR_OK, packet 7 (take 10 sim_upload), packet 7 (drop 10 sim_upload)], [])]"

lemma sim_rounds_ok: "rounds_ok (sim_rounds @ replicate n ([], []))" "rounds_ok sim_rounds"
  by (auto simp: rounds_ok_def sim_rounds_def event_ok_def packet_def sim_upload_def ota_magic_def)

lemma sim_rounds_bytes:
  assumes s: "ota_started sim_net 80 sim_alloc sim_erased (w, sim_task)"
  shows "run_bytes sim_dev sim_net sim_rounds (w, sim_task) = Some sim_upload"
proof -
  note st = ota_started_track [OF s]
  have l: "length sim_upload = 19" by (simp add: sim_upload_def ota_magic_def)
  let ?acc = "Ev_accept (Some 7) ERR_OK" and ?p1 = "packet 7 (take 10 sim_upload)" and ?p2 = "packet 7 (drop 10 sim_upload)"
  have ok: "event_ok ?acc" "event_ok ?p1" "event_ok ?p2" using l by (simp_all add: event_ok_def packet_def)
  have r0: "stream_ready (g_ota_stream w)" using st(1) by (simp add: ota_base_def stream_idle_def)
  obtain w1 where w1: "run_event ?acc w = Some w1" and k1: "callback_keeps w w1" using run_event_keeps [OF r0 ok(1)] by blast
  have r1: "stream_ready (g_ota_stream w1)" and len1: "stream_capacity (g_ota_stream w1) = 8192"
    using k1 r0 st(5) by (simp_all add: callback_keeps_def stream_capacity_def)
  have b0: "event_bytes ?acc w = Some []" using st(4) by (simp add: event_bytes_def)
  have c1: "sb_contents (g_ota_stream w1) = []" using run_event_bytes [OF r0 ok(1) b0 w1] st(4) by simp
  have b1: "event_bytes ?p1 w1 = Some (take 10 sim_upload)" unfolding event_bytes_def packet_def c1 len1 using l by simp
  obtain w2 where w2: "run_event ?p1 w1 = Some w2" and k2: "callback_keeps w1 w2" using run_event_keeps [OF r1 ok(2)] by blast
  have r2: "stream_ready (g_ota_stream w2)" and len2: "stream_capacity (g_ota_stream w2) = 8192"
    using k2 r1 len1 by (simp_all add: callback_keeps_def stream_capacity_def)
  have c2: "sb_contents (g_ota_stream w2) = take 10 sim_upload" using run_event_bytes [OF r1 ok(2) b1 w2] c1 by simp
  have b2: "event_bytes ?p2 w2 = Some (drop 10 sim_upload)" unfolding event_bytes_def packet_def c2 len2 using l by simp
  obtain w3 where w3: "run_event ?p2 w2 = Some w3" using run_event_keeps [OF r2 ok(3)] by blast
  have "events_bytes [?acc, ?p1, ?p2] w = Some sim_upload" by (simp add: w1 w2 w3 b0 b1 b2)
  moreover have "\<forall>ev\<in>set [?acc, ?p1, ?p2]. event_ok ev" using ok by simp
  ultimately show ?thesis unfolding sim_rounds_def using run_bytes_before [OF sim_dev_hardware st(1,2)] by metis
qed


lemma sim_run:
  "\<exists>w w' t'. ota_started sim_net 80 sim_alloc sim_erased (w, sim_task) \<and>
     ota_run sim_dev sim_net (sim_rounds @ replicate 8192 ([], [])) (w, sim_task) = Some (sim_upload, w', t') \<and> system_reset w'"
proof -
  obtain w where s: "ota_started sim_net 80 sim_alloc sim_erased (w, sim_task)" using sim_started by blast
  from upload_installed [OF sim_dev_hardware sim_works sim_erased_good s sim_rounds_ok(2) sim_rounds_bytes [OF s] sim_upload_good(1), of 8192] s
  show ?thesis by blast
qed

theorem ota_update_sound_witness:
  "\<exists>w w' t'. ota_started sim_net 80 sim_alloc sim_erased (w, sim_task) \<and>
     ota_run sim_dev sim_net (sim_rounds @ replicate 8192 ([], [])) (w, sim_task) = Some (sim_upload, w', t') \<and> system_reset w' \<and>
     (\<exists>pre size crc payload. sim_upload = pre @ ota_magic @ le_bytes 4 size @ le_bytes 4 crc @ payload \<and> 0 < unat (size :: u32) \<and>
        flash_bytes sim_dev SECONDARY_SLOT_ADDR (unat size) (ota_hw w') = take (unat size) payload \<and>
        crc32_bytes (take (unat size) payload) = crc)"
proof -
  obtain w w' t' where s: "ota_started sim_net 80 sim_alloc sim_erased (w, sim_task)"
    and r: "ota_run sim_dev sim_net (sim_rounds @ replicate 8192 ([], [])) (w, sim_task) = Some (sim_upload, w', t')" "system_reset w'"
    using sim_run by blast
  from ota_update_sound [OF sim_dev_hardware s sim_rounds_ok(1) r(1)] r s show ?thesis by blast
qed

end
