(* ===== verification/OtaBehaviour.thy ===== *)
theory OtaBehaviour
  imports OtaInstall
begin

text \<open>
  Further behaviour of the update server: that every iteration of the task returns or waits for data, and stays in the
  slot, the replies to a header, and two ways in which an upload is lost: a packet that finds the
  stream full, and a second connection after one that ended in the middle of an upload.
\<close>

text \<open>
  Claim C3: the update task never faults, never leaves the slot and never sleeps on data. From the set-up on, for every
  sequence of callbacks and whatever the flash reports, every iteration returns or leaves the task waiting in the blocking read of the
  stream, which has no time-out: no buffer is left and no assertion of the stream buffer is tripped. No byte of the flash outside the secondary slot
  changes; and a task that is waiting waits on an empty stream, so that no wake-up is lost.
\<close>

theorem ota_task_contained:
  assumes "fmc_hardware dev" and "ota_started net sz malloc h (w, t)" and "rounds_ok rounds" and "\<not> slot_addr b"
  shows "\<exists>bs w' t'. ota_run dev net rounds (w, t) = Some (bs, w', t') \<and> flash dev (ota_hw w') b = flash dev h b \<and>
    (xTaskWaitingToReceive (g_ota_stream w') \<noteq> None \<longrightarrow> sb_contents (g_ota_stream w') = [])"
proof -
  note s = ota_started_track [OF assms(2)]
  from ota_run_inv [OF assms(1) flush_good_none s(1,2) assms(3), of net] assms(4) s(3,7) show ?thesis
    by (auto simp: outside_same_def sb_calm_def)
qed

theorem ota_task_contained_witness:
  "\<exists>w bs w' t'. ota_started sim_net 80 sim_alloc sim_erased (w, sim_task) \<and>
     ota_run sim_dev sim_net [([Ev_accept (Some 3) ERR_OK], []), ([], [packet 3 [1, 2, 3]]), ([Ev_err (-14)], [])] (w, sim_task) = Some (bs, w', t') \<and>
     flash sim_dev (ota_hw w') 0x08000000 = 0xFF"
proof -
  obtain w where s: "ota_started sim_net 80 sim_alloc sim_erased (w, sim_task)" using sim_started by blast
  have "rounds_ok [([Ev_accept (Some 3) ERR_OK], []), ([], [packet 3 [1, 2, 3]]), ([Ev_err (-14)], [])]" "\<not> slot_addr 0x08000000"
    by (simp_all add: rounds_ok_def event_ok_def packet_def slot_bounds)
  from ota_task_contained [OF sim_dev_hardware s this] s show ?thesis by (auto simp: sim_dev_def sim_erased_def)
qed

section \<open>Replies to a header\<close>

definition replied :: "nat option \<Rightarrow> u8 \<Rightarrow> 'h ota_world \<Rightarrow> 'h ota_world \<Rightarrow> bool" where
  "replied pcb status w w' \<longleftrightarrow> (\<exists>out. w' = w\<lparr>net_calls := net_calls w @ Tcp_write pcb (ota_response status) # out\<rparr> \<and>
     (out = [] \<or> out = [Tcp_output pcb]))"

lemma ota_send_response_replied: "replied pcb status w (snd (ota_send_response net pcb status w))"
  by (auto simp: replied_def ota_send_response_def lwip_calls_def Let_def)

text \<open>
  The replies to a complete header. A header without the magic is answered with status 1, one with
  size 0 or more than 640 KiB with status 2, and the task then waits for another header; a good header is answered
  with nothing, and the task waits for exactly the announced number of bytes, starting at sector 0.
\<close>

theorem ota_header_replies:
  assumes "header_received t = 0" and "length (header_buf t) = 16" and "length hdr = 16"
    and "ota_header_step net hdr (w, t) = (w', t')"
  shows "if take 8 hdr \<noteq> ota_magic
    then replied (g_ota_data_pcb w) OTA_STATUS_ERROR w w' \<and> header_received t' = 0 \<and> header_valid t' = header_valid t
    else if upload_size hdr = 0 \<or> upload_size hdr > OTA_MAX_FIRMWARE_SIZE
    then replied (g_ota_data_pcb w) OTA_STATUS_SIZE_MISMATCH w w' \<and> header_received t' = 0 \<and> header_valid t' = header_valid t
    else w' = w \<and> header_valid t' \<and> total_size t' = upload_size hdr \<and> expected_crc t' = upload_crc hdr \<and>
      received t' = 0 \<and> sector_buf_pos t' = 0 \<and> current_sector t' = 0"
proof -
  have buf: "store_at 0 hdr (header_buf t) = hdr" using assms(2,3) by (simp add: store_at_def)
  have got: "(word_of_nat (length hdr) :: u32) = 16" "\<not> (16 :: u32) < OTA_HEADER_SIZE" using assms(3) by (simp_all add: OTA_HEADER_SIZE_def)
  consider "take 8 hdr \<noteq> ota_magic" | "take 8 hdr = ota_magic" "upload_size hdr = 0 \<or> upload_size hdr > OTA_MAX_FIRMWARE_SIZE"
    | "take 8 hdr = ota_magic" "\<not> (upload_size hdr = 0 \<or> upload_size hdr > OTA_MAX_FIRMWARE_SIZE)" by blast
  then show ?thesis
    using assms(1,4) ota_send_response_replied [of "g_ota_data_pcb w" _ w net]
    by cases (auto simp: ota_header_step_def Let_def buf got upload_size_def upload_crc_def)
qed

theorem ota_header_replies_witness:
  "replied (Some 5) OTA_STATUS_ERROR \<lparr>g_ota_stream = stream_sample, g_ota_listen_pcb = Some 2, g_ota_data_pcb = Some 5,
      net_calls = [], ota_hw = (), system_reset = False\<rparr>
    (fst (ota_header_step sim_net (replicate 16 0) (\<lparr>g_ota_stream = stream_sample, g_ota_listen_pcb = Some 2, g_ota_data_pcb = Some 5,
      net_calls = [], ota_hw = (), system_reset = False\<rparr>, sim_task)))"
proof -
  let ?w = "\<lparr>g_ota_stream = stream_sample, g_ota_listen_pcb = Some 2, g_ota_data_pcb = Some 5, net_calls = [], ota_hw = (), system_reset = False\<rparr>"
  obtain w' t' where r: "ota_header_step sim_net (replicate 16 0) (?w, sim_task) = (w', t')" by (rule prod.exhaust)
  have "header_received sim_task = 0" "length (header_buf sim_task) = 16" "length (replicate 16 (0 :: u8)) = 16"
    by (simp_all add: sim_task_def ota_task_init_def)
  moreover have "take 8 (replicate 16 0) \<noteq> ota_magic" by code_simp
  ultimately have "replied (Some 5) OTA_STATUS_ERROR ?w w'" using ota_header_replies [OF _ _ _ r] by simp
  with r show ?thesis by simp
qed

section \<open>Lost bytes\<close>

text \<open>
  A packet that does not fit into the stream is cut off without a trace. When a segment is longer than the
  free space of the stream, the callback still reports the whole packet as received to the network
  stack, which acknowledges it and opens the window again, and returns success; only the first bytes of the segment, as
  many as there is room for, reach the task, and the rest is gone.
\<close>

theorem ota_recv_drops:
  assumes "stream_ready (g_ota_stream w)" and "length q < 65536"
    and "free = stream_capacity (g_ota_stream w) - length (sb_contents (g_ota_stream w))" and "free < length q"
  shows "\<exists>w'. ota_recv pcb (Some \<lparr>tot_len = len, segs = [q]\<rparr>) ERR_OK w = Some (ERR_OK, w') \<and>
    net_calls w' = net_calls w @ [Tcp_recved pcb len, Pbuf_free] \<and>
    sb_contents (g_ota_stream w') = sb_contents (g_ota_stream w) @ take free q"
proof -
  let ?sb = "g_ota_stream w"
  have r: "sb_wf ?sb" "\<not> is_message_buffer ?sb" using assms(1) by (simp_all add: stream_ready_def is_stream_def)
  have l: "unat (word_of_nat (length q) :: u32) = length q" using assms(2) by (intro word_of_nat_eq_nat_iff) simp
  obtain n sb where s: "xStreamBufferSend 0 [] ?sb q (word_of_nat (length q)) 0 = Some (n, sb)"
    and n: "unat n = min (length q) (unat (xLength ?sb) - 1 - sb_count ?sb)" and c: "sb_contents sb = sb_contents ?sb @ take (unat n) q"
    using stream_send_now [OF r, of "word_of_nat (length q)" q 0 "[]"] l by auto
  have "unat n = free" using n assms(3,4) by (simp add: stream_capacity_def)
  with s c show ?thesis by (simp add: ota_recv_def lwip_calls_def)
qed

theorem ota_recv_drops_witness:
  "\<exists>w'. ota_recv 5 (Some \<lparr>tot_len = 12, segs = [[1, 2, 3, 4, 5, 6, 7, 8, 9, 10, 11, 12]]\<rparr>) ERR_OK
      \<lparr>g_ota_stream = stream_sample, g_ota_listen_pcb = Some 2, g_ota_data_pcb = Some 5, net_calls = [], ota_hw = (), system_reset = False\<rparr> =
      Some (ERR_OK, w') \<and> sb_contents (g_ota_stream w') = [1, 2, 3, 4, 5, 6, 7, 8]"
proof -
  let ?w = "\<lparr>g_ota_stream = stream_sample, g_ota_listen_pcb = Some 2, g_ota_data_pcb = Some 5, net_calls = [], ota_hw = (), system_reset = False\<rparr>"
  have "stream_capacity stream_sample = 8"
    by (simp add: stream_capacity_def stream_sample_def prvInitialiseNewStreamBuffer_def)
  then have f: "(8 :: nat) = stream_capacity (g_ota_stream ?w) - length (sb_contents (g_ota_stream ?w))"
    using stream_sample_ready(2) by simp
  have r: "stream_ready (g_ota_stream ?w)" using stream_sample_ready(1) by simp
  from ota_recv_drops [OF r _ f, of "[1, 2, 3, 4, 5, 6, 7, 8, 9, 10, 11, 12]" 5 12] show ?thesis
    by (auto simp: stream_sample_ready(2))
qed

text \<open>A client disconnects, another connects and sends bytes that fit.\<close>

definition reconnect :: "nat \<Rightarrow> nat \<Rightarrow> u8 list \<Rightarrow> ota_event list" where
  "reconnect pcb pcb2 d = [Ev_recv pcb None ERR_OK, Ev_accept (Some pcb2) ERR_OK, packet pcb2 d]"

lemma reconnect_queued:
  assumes idle: "stream_idle w" and cap: "stream_capacity (g_ota_stream w) = 8192" and empty: "sb_contents (g_ota_stream w) = []"
    and d: "length d \<le> 8192"
  shows "\<exists>w'. run_events (reconnect pcb pcb2 d) w = Some w' \<and> stream_idle w' \<and> system_reset w' = system_reset w \<and>
    sb_contents (g_ota_stream w') = d \<and> g_ota_data_pcb w' = Some pcb2"
proof -
  let ?w0 = "ota_cleanup_connection w" and ?sb = "g_ota_stream w"
  let ?sb1 = "snd (xStreamBufferReset ?sb)"
  have w0: "g_ota_stream ?w0 = ?sb" "g_ota_data_pcb ?w0 = None" "system_reset ?w0 = system_reset w"
    by (auto simp: ota_cleanup_connection_def lwip_calls_def split: option.split)
  have new: "sb_contents (prvInitialiseNewStreamBuffer b n l f) = []" "xLength (prvInitialiseNewStreamBuffer b n l f) = n" for b n l f
    by (simp_all add: prvInitialiseNewStreamBuffer_def sb_contents_def sb_count_def ring_dist_def ring_slice_def)
  have s1: "stream_ready ?sb1" "xTaskWaitingToReceive ?sb1 = None"
    using idle reset_ready [of ?sb] reset_idle [of ?sb] by (simp_all add: stream_idle_def)
  have s2: "sb_contents ?sb1 = []" "xLength ?sb1 = xLength ?sb" using empty new by (simp_all add: xStreamBufferReset_def)
  have r: "sb_wf ?sb1" "\<not> is_message_buffer ?sb1" "is_stream ?sb1" using s1(1) by (simp_all add: stream_ready_def is_stream_def)
  have l: "unat (word_of_nat (length d) :: u32) = length d" using d by (intro word_of_nat_eq_nat_iff) simp
  have z: "sb_count ?sb1 = 0" using s2(1) length_sb_contents [of ?sb1] by simp
  obtain n sb2 where s: "xStreamBufferSend 0 [] ?sb1 d (word_of_nat (length d)) 0 = Some (n, sb2)"
    and n: "unat n = min (length d) (unat (xLength ?sb) - 1)" and c: "sb_contents sb2 = take (unat n) d"
    and f: "sb_wf sb2" "ucFlags sb2 = ucFlags ?sb1" "xTaskWaitingToReceive sb2 = None"
    using stream_send_now [OF r(1,2), of "word_of_nat (length d)" d 0 "[]"] l s1 s2 z by auto
  have "sb_contents sb2 = d" using n c cap d by (simp add: stream_capacity_def)
  moreover have "stream_ready sb2" using f r(3) is_stream_flags [OF f(2)] by (simp add: stream_ready_def)
  ultimately show ?thesis
    using w0 s f(3) by (simp add: reconnect_def run_event_def ota_recv_def ota_accept_def packet_def lwip_calls_def stream_idle_def)
qed

text \<open>
  Claim C30: the task does not notice that a connection ended. While an image is being collected, and with room for sixteen more bytes
  in the sector buffer and in the image, suppose the client disconnects, another connects and sends the sixteen bytes of
  a header, whatever they are: the task stays in the middle of the old image, with the old size and checksum, and has
  appended the new header to it as payload.
\<close>

theorem ota_stale_session:
  assumes "ota_base (w, t)" and "\<not> system_reset w" and "header_valid t" and "stream_capacity (g_ota_stream w) = 8192"
    and "sb_contents (g_ota_stream w) = []" and "length hdr = 16"
    and "unat (sector_buf_pos t) + 16 < 4096" and "unat (received t) + 16 < unat (total_size t)"
  shows "\<exists>w' t'. ota_run dev net [(reconnect pcb pcb2 hdr, [])] (w, t) = Some (hdr, w', t') \<and>
    header_valid t' \<and> total_size t' = total_size t \<and> expected_crc t' = expected_crc t \<and>
    received t' = received t + 16 \<and> sector_buf t' = store_at (unat (sector_buf_pos t)) hdr (sector_buf t)"
proof -
  have "stream_idle w" using assms(1) by (simp add: ota_base_def)
  then obtain w2 where e: "run_events (reconnect pcb pcb2 hdr) w = Some w2" and idle: "stream_idle w2" "system_reset w2 = system_reset w"
    and c: "sb_contents (g_ota_stream w2) = hdr"
    using reconnect_queued [OF _ assms(4,5), of hdr pcb pcb2] assms(6) by auto
  have "unat (ota_room t) = 4096 - unat (sector_buf_pos t)"
    using assms(3,7) by (simp add: ota_room_def OTA_FLASH_SECTOR_SIZE_def) (subst unat_diff_le, simp_all add: word_le_nat_alt)
  then have "take (unat (ota_room t)) hdr = hdr" using assms(6,7) by simp
  moreover have "hdr \<noteq> []" using assms(6) by auto
  ultimately obtain w3 where rc: "ota_receive [] (ota_room t) w2 = Some (Inr (hdr, w3))"
    using ota_receive_spec [OF idle(1) _ refl, of "[]" "ota_room t"] idle(1) c by (auto simp: stream_idle_def)
  let ?t = "ota_append hdr t"
  have "unat (sector_buf_pos ?t) = unat (sector_buf_pos t) + 16"
    using assms(6,7) by (simp add: ota_append_def) (subst unat_add_small, simp_all)
  then have loop: "ota_flush_loop dev net (w3, ?t) = Some (w3, ?t)" using assms(7) by (intro flush_loop_done) simp
  have "unat (total_size t) < 2 ^ 32" by (rule order_less_le_trans [OF unsigned_less]) simp
  then have "unat (received t) + 16 < 2 ^ 32" using assms(8) by simp
  then have "unat (received ?t) = unat (received t) + 16"
    using assms(6) by (simp add: ota_append_def) (subst unat_add_small, simp_all)
  then have "\<not> received ?t \<ge> total_size ?t" using assms(8) by (simp add: word_le_nat_alt ota_append_def)
  moreover have "hdr \<noteq> []" using assms(6) by auto
  ultimately have "ota_consume dev net hdr (w3, t) = Some (w3, ?t)"
    using loop assms(3) by (simp add: ota_consume_def ota_data_step_def ota_append_def Let_def)
  then have "ota_iteration dev net [] (w2, t) = Some (Inr (hdr, w3, ?t))"
    using rc idle(2) assms(2) by (simp add: ota_iteration_def)
  with e assms(3,6) show ?thesis by (simp add: ota_append_def)
qed

text \<open>A transfer of a hundred bytes of which none has arrived, interrupted.\<close>

definition sim_interrupted :: "sim_fmc ota_world" where
  "sim_interrupted = \<lparr>g_ota_stream = prvInitialiseNewStreamBuffer (replicate 8193 0) 8193 1 0, g_ota_listen_pcb = Some 2,
     g_ota_data_pcb = Some 5, net_calls = [], ota_hw = sim_erased, system_reset = False\<rparr>"

lemma sim_interrupted_stream:
  "stream_ready (g_ota_stream sim_interrupted)" "xTaskWaitingToReceive (g_ota_stream sim_interrupted) = None"
  "sb_contents (g_ota_stream sim_interrupted) = []" "stream_capacity (g_ota_stream sim_interrupted) = 8192"
  "\<not> ok_replied sim_interrupted" "\<not> system_reset sim_interrupted"
proof -
  have "0 + length (replicate (unat (8193 :: u32)) (0x55 :: u8)) \<le> length (replicate 8193 (0 :: u8))" by simp
  from length_store_at [OF this] show "stream_ready (g_ota_stream sim_interrupted)"
    by (simp add: sim_interrupted_def prvInitialiseNewStreamBuffer_def stream_ready_def sb_wf_def is_stream_def is_message_buffer_def)
qed (simp_all add: sim_interrupted_def prvInitialiseNewStreamBuffer_def sb_contents_def sb_count_def ring_dist_def ring_slice_def
    stream_capacity_def ok_replied_def)

theorem ota_stale_session_witness:
  "\<exists>w' t'. ota_run sim_dev sim_net [(reconnect 5 6 (take 16 sim_upload), [])]
      (sim_interrupted, sim_task\<lparr>header_valid := True, total_size := 100\<rparr>) = Some (take 16 sim_upload, w', t') \<and>
     header_valid t' \<and> total_size t' = 100 \<and> received t' = 16"
proof -
  let ?t = "sim_task\<lparr>header_valid := True, total_size := 100\<rparr>"
  note s = sim_interrupted_stream
  have b: "ota_base (sim_interrupted, ?t)"
    using s by (simp add: ota_base_def stream_idle_def sim_task_def ota_task_init_def)
  have "header_valid ?t" "length (take 16 sim_upload) = 16" "unat (sector_buf_pos ?t) + 16 < 4096"
    "unat (received ?t) + 16 < unat (total_size ?t)"
    by (simp_all add: sim_task_def ota_task_init_def sim_upload_def ota_magic_def)
  from ota_stale_session [OF b s(6) this(1) s(4,3) this(2-4), of sim_dev sim_net 5 6] show ?thesis
    by (auto simp: sim_task_def ota_task_init_def)
qed

end
