(* ===== verification/YfyFrame.thy ===== *)
theory YfyFrame
  imports Prelude
begin

text \<open>
  The frame identifiers of the YFY power-module protocol, the macros of
  \<^verbatim>\<open>src/Lib/converter/yfy/yfy_data.h\<close>: a 29-bit CAN identifier packs the error code
  (3 bits), the device number (4), the command (6), the destination and the source
  address (8 each).
\<close>

definition MODULE_NUM :: nat where "MODULE_NUM = 12"
definition GROUP_MODULE_NUM :: nat where "GROUP_MODULE_NUM = MODULE_NUM + 1"
definition BROADCAST_ADDR :: u8 where "BROADCAST_ADDR = 0x3F"
definition DEVICE_ID :: u8 where "DEVICE_ID = 0x0A"
definition GROUP_DEVICE_ID :: u8 where "GROUP_DEVICE_ID = 0x0B"
definition MONITOR_ADDR :: u8 where "MONITOR_ADDR = 0xF0"
definition MODULE_OFFLINE_TIME :: u32 where "MODULE_OFFLINE_TIME = 5000"

definition YFY_SET_ID :: "u32 \<Rightarrow> u32 \<Rightarrow> u32 \<Rightarrow> u32 \<Rightarrow> u32 \<Rightarrow> u32" where
  "YFY_SET_ID error_code device_id cmd dest_addr src_addr =
     push_bit 26 (error_code AND 0x07) OR push_bit 22 (device_id AND 0x0F) OR
     push_bit 16 (cmd AND 0x3F) OR push_bit 8 (dest_addr AND 0xFF) OR (src_addr AND 0xFF)"

definition YFY_EXTRACT_ERROR_CODE :: "u32 \<Rightarrow> u32" where
  "YFY_EXTRACT_ERROR_CODE data = drop_bit 26 data AND 0x07"

definition YFY_EXTRACT_DEVICE_ID :: "u32 \<Rightarrow> u32" where
  "YFY_EXTRACT_DEVICE_ID data = drop_bit 22 data AND 0x0F"

definition YFY_EXTRACT_CMD :: "u32 \<Rightarrow> u32" where
  "YFY_EXTRACT_CMD data = drop_bit 16 data AND 0x3F"

definition YFY_EXTRACT_DEST_ADDR :: "u32 \<Rightarrow> u32" where
  "YFY_EXTRACT_DEST_ADDR data = drop_bit 8 data AND 0xFF"

definition YFY_EXTRACT_SRC_ADDR :: "u32 \<Rightarrow> u32" where
  "YFY_EXTRACT_SRC_ADDR data = data AND 0xFF"

text \<open>The masks of the macros keep the low bits.\<close>

lemma and_masks:
  fixes x :: u32
  shows "x AND 0x07 = take_bit 3 x" "x AND 0x0F = take_bit 4 x" "x AND 0x3F = take_bit 6 x"
    "x AND 0xFF = take_bit 8 x" "x AND 0x1FFFFFFF = take_bit 29 x"
  by (simp_all add: take_bit_eq_mask mask_eq_exp_minus_1)

lemmas yfy_id_defs = YFY_SET_ID_def YFY_EXTRACT_ERROR_CODE_def YFY_EXTRACT_DEVICE_ID_def
  YFY_EXTRACT_CMD_def YFY_EXTRACT_DEST_ADDR_def YFY_EXTRACT_SRC_ADDR_def and_masks

lemma yfy_id_fields:
  "YFY_EXTRACT_ERROR_CODE (YFY_SET_ID e d c t s) = take_bit 3 e \<and>
   YFY_EXTRACT_DEVICE_ID (YFY_SET_ID e d c t s) = take_bit 4 d \<and>
   YFY_EXTRACT_CMD (YFY_SET_ID e d c t s) = take_bit 6 c \<and>
   YFY_EXTRACT_DEST_ADDR (YFY_SET_ID e d c t s) = take_bit 8 t \<and>
   YFY_EXTRACT_SRC_ADDR (YFY_SET_ID e d c t s) = take_bit 8 s"
  unfolding yfy_id_defs
  by (intro conjI bit_word_eqI) (auto simp: bit_simps)

text \<open>Unpacking inverts packing. Each extraction macro recovers its field of a packed
  identifier, reduced to the width the field has, and fields that already fit are recovered
  unchanged.\<close>

theorem yfy_id_roundtrip:
  "YFY_EXTRACT_ERROR_CODE (YFY_SET_ID e d c t s) = take_bit 3 e \<and>
   YFY_EXTRACT_DEVICE_ID (YFY_SET_ID e d c t s) = take_bit 4 d \<and>
   YFY_EXTRACT_CMD (YFY_SET_ID e d c t s) = take_bit 6 c \<and>
   YFY_EXTRACT_DEST_ADDR (YFY_SET_ID e d c t s) = take_bit 8 t \<and>
   YFY_EXTRACT_SRC_ADDR (YFY_SET_ID e d c t s) = take_bit 8 s"
  by (rule yfy_id_fields)

text \<open>Packing inverts unpacking on the 29 bits of an extended CAN identifier: packing
  the five extracted fields of any word gives its low 29 bits back, so a packed identifier
  always fits the mask the CAN driver applies and the fields do not overlap.\<close>

theorem yfy_id_repack:
  "YFY_SET_ID (YFY_EXTRACT_ERROR_CODE w) (YFY_EXTRACT_DEVICE_ID w) (YFY_EXTRACT_CMD w)
     (YFY_EXTRACT_DEST_ADDR w) (YFY_EXTRACT_SRC_ADDR w) = w AND 0x1FFFFFFF"
  unfolding yfy_id_defs
proof (rule bit_word_eqI)
  fix n :: nat
  consider "n < 8" | "8 \<le> n" "n < 16" | "16 \<le> n" "n < 22" | "22 \<le> n" "n < 26" | "26 \<le> n"
    by linarith
  then show "bit (push_bit 26 (take_bit 3 (take_bit 3 (drop_bit 26 w))) OR
      push_bit 22 (take_bit 4 (take_bit 4 (drop_bit 22 w))) OR
      push_bit 16 (take_bit 6 (take_bit 6 (drop_bit 16 w))) OR
      push_bit 8 (take_bit 8 (take_bit 8 (drop_bit 8 w))) OR take_bit 8 (take_bit 8 w)) n =
    bit (take_bit 29 w) n"
    by cases (auto simp: bit_simps)
qed

end
