(* ===== verification/YfyData.thy ===== *)
theory YfyData
  imports YfyFrame
begin

text \<open>
  The receive side of the YFY power-module library, \<^verbatim>\<open>src/Lib/converter/yfy/yfy_data.c\<close>:
  the tables that say which bytes of which reply go to which measurement, the decoder that
  follows them, the online bookkeeping and the two functions that send frames.

  The three static structures \<open>stModuleData\<close>, \<open>stGroupModuleData\<close> and
  \<open>stSysModuleData\<close> are records whose fields are the object representations (byte lists)
  of the C arrays: the decoder writes them byte by byte through \<open>void*\<close> pointers, and only
  the readers give them a type. A \<open>void* pdata\<close> entry of a table is a constructor naming
  the array it points to. The callbacks installed by \<open>yfy_module_handle_init\<close> are
  parameters that act on an environment of any type \<open>'e\<close>. A call through a null callback
  and an access outside an array are \<open>None\<close>.
\<close>

section \<open>Static data\<close>

datatype module_field =
    F_voltage
  | F_current
  | F_group
  | F_temp
  | F_module_limit_power
  | F_module_id_duplicate
  | F_module_severe_unbalanced
  | F_three_phase_input_missing
  | F_three_phase_input_unbalanced
  | F_input_undervoltage
  | F_input_overvoltage
  | F_module_pfc_fault
  | F_module_dc_side_fault
  | F_module_fault
  | F_module_protection
  | F_fan_fault
  | F_over_temp
  | F_output_overvoltage
  | F_walk_in_enable
  | F_module_comm_interrupt
  | F_output_short_circuit
  | F_module_internal_comm_fault
  | F_input_or_bus_abnormal
  | F_module_sleep
  | F_module_discharge_abnormal
  | F_ac_input_voltage_ab
  | F_ac_input_voltage_bc
  | F_ac_input_voltage_ca
  | F_max_voltage
  | F_min_voltage
  | F_max_current
  | F_max_power
  | F_external_voltage
  | F_max_output_current
  | F_addr_modeL

record module_data_t =
  md_voltage :: "u8 list"
  md_current :: "u8 list"
  md_group :: "u8 list"
  md_temp :: "u8 list"
  md_module_limit_power :: "u8 list"
  md_module_id_duplicate :: "u8 list"
  md_module_severe_unbalanced :: "u8 list"
  md_three_phase_input_missing :: "u8 list"
  md_three_phase_input_unbalanced :: "u8 list"
  md_input_undervoltage :: "u8 list"
  md_input_overvoltage :: "u8 list"
  md_module_pfc_fault :: "u8 list"
  md_module_dc_side_fault :: "u8 list"
  md_module_fault :: "u8 list"
  md_module_protection :: "u8 list"
  md_fan_fault :: "u8 list"
  md_over_temp :: "u8 list"
  md_output_overvoltage :: "u8 list"
  md_walk_in_enable :: "u8 list"
  md_module_comm_interrupt :: "u8 list"
  md_output_short_circuit :: "u8 list"
  md_module_internal_comm_fault :: "u8 list"
  md_input_or_bus_abnormal :: "u8 list"
  md_module_sleep :: "u8 list"
  md_module_discharge_abnormal :: "u8 list"
  md_ac_input_voltage_ab :: "u8 list"
  md_ac_input_voltage_bc :: "u8 list"
  md_ac_input_voltage_ca :: "u8 list"
  md_max_voltage :: "u8 list"
  md_min_voltage :: "u8 list"
  md_max_current :: "u8 list"
  md_max_power :: "u8 list"
  md_external_voltage :: "u8 list"
  md_max_output_current :: "u8 list"
  md_addr_modeL :: "u8 list"

fun module_get :: "module_field \<Rightarrow> module_data_t \<Rightarrow> u8 list" where
  "module_get F_voltage d = md_voltage d"
| "module_get F_current d = md_current d"
| "module_get F_group d = md_group d"
| "module_get F_temp d = md_temp d"
| "module_get F_module_limit_power d = md_module_limit_power d"
| "module_get F_module_id_duplicate d = md_module_id_duplicate d"
| "module_get F_module_severe_unbalanced d = md_module_severe_unbalanced d"
| "module_get F_three_phase_input_missing d = md_three_phase_input_missing d"
| "module_get F_three_phase_input_unbalanced d = md_three_phase_input_unbalanced d"
| "module_get F_input_undervoltage d = md_input_undervoltage d"
| "module_get F_input_overvoltage d = md_input_overvoltage d"
| "module_get F_module_pfc_fault d = md_module_pfc_fault d"
| "module_get F_module_dc_side_fault d = md_module_dc_side_fault d"
| "module_get F_module_fault d = md_module_fault d"
| "module_get F_module_protection d = md_module_protection d"
| "module_get F_fan_fault d = md_fan_fault d"
| "module_get F_over_temp d = md_over_temp d"
| "module_get F_output_overvoltage d = md_output_overvoltage d"
| "module_get F_walk_in_enable d = md_walk_in_enable d"
| "module_get F_module_comm_interrupt d = md_module_comm_interrupt d"
| "module_get F_output_short_circuit d = md_output_short_circuit d"
| "module_get F_module_internal_comm_fault d = md_module_internal_comm_fault d"
| "module_get F_input_or_bus_abnormal d = md_input_or_bus_abnormal d"
| "module_get F_module_sleep d = md_module_sleep d"
| "module_get F_module_discharge_abnormal d = md_module_discharge_abnormal d"
| "module_get F_ac_input_voltage_ab d = md_ac_input_voltage_ab d"
| "module_get F_ac_input_voltage_bc d = md_ac_input_voltage_bc d"
| "module_get F_ac_input_voltage_ca d = md_ac_input_voltage_ca d"
| "module_get F_max_voltage d = md_max_voltage d"
| "module_get F_min_voltage d = md_min_voltage d"
| "module_get F_max_current d = md_max_current d"
| "module_get F_max_power d = md_max_power d"
| "module_get F_external_voltage d = md_external_voltage d"
| "module_get F_max_output_current d = md_max_output_current d"
| "module_get F_addr_modeL d = md_addr_modeL d"

fun module_set :: "module_field \<Rightarrow> u8 list \<Rightarrow> module_data_t \<Rightarrow> module_data_t" where
  "module_set F_voltage v d = d\<lparr>md_voltage := v\<rparr>"
| "module_set F_current v d = d\<lparr>md_current := v\<rparr>"
| "module_set F_group v d = d\<lparr>md_group := v\<rparr>"
| "module_set F_temp v d = d\<lparr>md_temp := v\<rparr>"
| "module_set F_module_limit_power v d = d\<lparr>md_module_limit_power := v\<rparr>"
| "module_set F_module_id_duplicate v d = d\<lparr>md_module_id_duplicate := v\<rparr>"
| "module_set F_module_severe_unbalanced v d = d\<lparr>md_module_severe_unbalanced := v\<rparr>"
| "module_set F_three_phase_input_missing v d = d\<lparr>md_three_phase_input_missing := v\<rparr>"
| "module_set F_three_phase_input_unbalanced v d = d\<lparr>md_three_phase_input_unbalanced := v\<rparr>"
| "module_set F_input_undervoltage v d = d\<lparr>md_input_undervoltage := v\<rparr>"
| "module_set F_input_overvoltage v d = d\<lparr>md_input_overvoltage := v\<rparr>"
| "module_set F_module_pfc_fault v d = d\<lparr>md_module_pfc_fault := v\<rparr>"
| "module_set F_module_dc_side_fault v d = d\<lparr>md_module_dc_side_fault := v\<rparr>"
| "module_set F_module_fault v d = d\<lparr>md_module_fault := v\<rparr>"
| "module_set F_module_protection v d = d\<lparr>md_module_protection := v\<rparr>"
| "module_set F_fan_fault v d = d\<lparr>md_fan_fault := v\<rparr>"
| "module_set F_over_temp v d = d\<lparr>md_over_temp := v\<rparr>"
| "module_set F_output_overvoltage v d = d\<lparr>md_output_overvoltage := v\<rparr>"
| "module_set F_walk_in_enable v d = d\<lparr>md_walk_in_enable := v\<rparr>"
| "module_set F_module_comm_interrupt v d = d\<lparr>md_module_comm_interrupt := v\<rparr>"
| "module_set F_output_short_circuit v d = d\<lparr>md_output_short_circuit := v\<rparr>"
| "module_set F_module_internal_comm_fault v d = d\<lparr>md_module_internal_comm_fault := v\<rparr>"
| "module_set F_input_or_bus_abnormal v d = d\<lparr>md_input_or_bus_abnormal := v\<rparr>"
| "module_set F_module_sleep v d = d\<lparr>md_module_sleep := v\<rparr>"
| "module_set F_module_discharge_abnormal v d = d\<lparr>md_module_discharge_abnormal := v\<rparr>"
| "module_set F_ac_input_voltage_ab v d = d\<lparr>md_ac_input_voltage_ab := v\<rparr>"
| "module_set F_ac_input_voltage_bc v d = d\<lparr>md_ac_input_voltage_bc := v\<rparr>"
| "module_set F_ac_input_voltage_ca v d = d\<lparr>md_ac_input_voltage_ca := v\<rparr>"
| "module_set F_max_voltage v d = d\<lparr>md_max_voltage := v\<rparr>"
| "module_set F_min_voltage v d = d\<lparr>md_min_voltage := v\<rparr>"
| "module_set F_max_current v d = d\<lparr>md_max_current := v\<rparr>"
| "module_set F_max_power v d = d\<lparr>md_max_power := v\<rparr>"
| "module_set F_external_voltage v d = d\<lparr>md_external_voltage := v\<rparr>"
| "module_set F_max_output_current v d = d\<lparr>md_max_output_current := v\<rparr>"
| "module_set F_addr_modeL v d = d\<lparr>md_addr_modeL := v\<rparr>"

fun module_width :: "module_field \<Rightarrow> nat" where
  "module_width F_voltage = 4"
| "module_width F_current = 4"
| "module_width F_group = 1"
| "module_width F_temp = 1"
| "module_width F_module_limit_power = 1"
| "module_width F_module_id_duplicate = 1"
| "module_width F_module_severe_unbalanced = 1"
| "module_width F_three_phase_input_missing = 1"
| "module_width F_three_phase_input_unbalanced = 1"
| "module_width F_input_undervoltage = 1"
| "module_width F_input_overvoltage = 1"
| "module_width F_module_pfc_fault = 1"
| "module_width F_module_dc_side_fault = 1"
| "module_width F_module_fault = 1"
| "module_width F_module_protection = 1"
| "module_width F_fan_fault = 1"
| "module_width F_over_temp = 1"
| "module_width F_output_overvoltage = 1"
| "module_width F_walk_in_enable = 1"
| "module_width F_module_comm_interrupt = 1"
| "module_width F_output_short_circuit = 1"
| "module_width F_module_internal_comm_fault = 1"
| "module_width F_input_or_bus_abnormal = 1"
| "module_width F_module_sleep = 1"
| "module_width F_module_discharge_abnormal = 1"
| "module_width F_ac_input_voltage_ab = 2"
| "module_width F_ac_input_voltage_bc = 2"
| "module_width F_ac_input_voltage_ca = 2"
| "module_width F_max_voltage = 2"
| "module_width F_min_voltage = 2"
| "module_width F_max_current = 2"
| "module_width F_max_power = 2"
| "module_width F_external_voltage = 2"
| "module_width F_max_output_current = 2"
| "module_width F_addr_modeL = 1"

datatype group_field = G_voltage | G_current | G_module_num

record group_module_data_t =
  gd_voltage :: "u8 list"
  gd_current :: "u8 list"
  gd_module_num :: "u8 list"

fun group_get :: "group_field \<Rightarrow> group_module_data_t \<Rightarrow> u8 list" where
  "group_get G_voltage d = gd_voltage d"
| "group_get G_current d = gd_current d"
| "group_get G_module_num d = gd_module_num d"

fun group_set :: "group_field \<Rightarrow> u8 list \<Rightarrow> group_module_data_t \<Rightarrow> group_module_data_t" where
  "group_set G_voltage v d = d\<lparr>gd_voltage := v\<rparr>"
| "group_set G_current v d = d\<lparr>gd_current := v\<rparr>"
| "group_set G_module_num v d = d\<lparr>gd_module_num := v\<rparr>"

fun group_width :: "group_field \<Rightarrow> nat" where
  "group_width G_voltage = 4"
| "group_width G_current = 4"
| "group_width G_module_num = 1"

datatype sys_field = S_voltage | S_current | S_module_num

record sys_module_data_t =
  sd_voltage :: "u8 list"
  sd_current :: "u8 list"
  sd_module_num :: "u8 list"

fun sys_get :: "sys_field \<Rightarrow> sys_module_data_t \<Rightarrow> u8 list" where
  "sys_get S_voltage d = sd_voltage d"
| "sys_get S_current d = sd_current d"
| "sys_get S_module_num d = sd_module_num d"

fun sys_set :: "sys_field \<Rightarrow> u8 list \<Rightarrow> sys_module_data_t \<Rightarrow> sys_module_data_t" where
  "sys_set S_voltage v d = d\<lparr>sd_voltage := v\<rparr>"
| "sys_set S_current v d = d\<lparr>sd_current := v\<rparr>"
| "sys_set S_module_num v d = d\<lparr>sd_module_num := v\<rparr>"

fun sys_width :: "sys_field \<Rightarrow> nat" where
  "sys_width S_voltage = 4"
| "sys_width S_current = 4"
| "sys_width S_module_num = 1"

section \<open>Decoding tables\<close>

text \<open>The three table entry types of the code have the same members; only the target differs.\<close>

record 'f info_t =
  info_cmd :: u16
  byte_start :: u16
  byte_end :: u16
  bit_start :: u16
  bit_end :: u16
  info_pdata :: 'f

definition info_entry :: "u16 \<Rightarrow> u16 \<Rightarrow> u16 \<Rightarrow> u16 \<Rightarrow> u16 \<Rightarrow> 'f \<Rightarrow> 'f info_t" where
  "info_entry c bs be b0 b1 f =
     \<lparr>info_cmd = c, byte_start = bs, byte_end = be, bit_start = b0, bit_end = b1, info_pdata = f\<rparr>"

definition stModuleInfo :: "module_field info_t list" where
  "stModuleInfo = [info_entry 0x03 0 4 0 0 F_voltage,
     info_entry 0x03 4 8 0 0 F_current,
     info_entry 0x04 2 3 0 0 F_group,
     info_entry 0x04 4 5 0 0 F_temp,
     info_entry 0x04 5 5 0 1 F_module_limit_power,
     info_entry 0x04 5 5 1 2 F_module_id_duplicate,
     info_entry 0x04 5 5 2 3 F_module_severe_unbalanced,
     info_entry 0x04 5 5 3 4 F_three_phase_input_missing,
     info_entry 0x04 5 5 4 5 F_three_phase_input_unbalanced,
     info_entry 0x04 5 5 5 6 F_input_undervoltage,
     info_entry 0x04 5 5 6 7 F_input_overvoltage,
     info_entry 0x04 5 5 7 8 F_module_pfc_fault,
     info_entry 0x04 6 6 0 1 F_module_dc_side_fault,
     info_entry 0x04 6 6 1 2 F_module_fault,
     info_entry 0x04 6 6 2 3 F_module_protection,
     info_entry 0x04 6 6 3 4 F_fan_fault,
     info_entry 0x04 6 6 4 5 F_over_temp,
     info_entry 0x04 6 6 5 6 F_output_overvoltage,
     info_entry 0x04 6 6 6 7 F_walk_in_enable,
     info_entry 0x04 6 6 7 8 F_module_comm_interrupt,
     info_entry 0x04 7 7 0 1 F_output_short_circuit,
     info_entry 0x04 7 7 2 3 F_module_internal_comm_fault,
     info_entry 0x04 7 7 3 4 F_input_or_bus_abnormal,
     info_entry 0x04 7 7 4 5 F_module_sleep,
     info_entry 0x04 7 7 5 6 F_module_discharge_abnormal,
     info_entry 0x06 0 2 0 0 F_ac_input_voltage_ab,
     info_entry 0x06 2 4 0 0 F_ac_input_voltage_bc,
     info_entry 0x06 4 6 0 0 F_ac_input_voltage_ca,
     info_entry 0x0A 0 2 0 0 F_max_voltage,
     info_entry 0x0A 2 4 0 0 F_min_voltage,
     info_entry 0x0A 4 6 0 0 F_max_current,
     info_entry 0x0A 6 8 0 0 F_max_power,
     info_entry 0x0C 0 2 0 0 F_external_voltage,
     info_entry 0x0C 2 4 0 0 F_max_output_current,
     info_entry 0x1ff 0 1 0 0 F_addr_modeL]"

definition stGroupModuleInfo :: "group_field info_t list" where
  "stGroupModuleInfo = [info_entry 0x01 0 4 0 0 G_voltage,
     info_entry 0x01 4 8 0 0 G_current,
     info_entry 0x02 2 3 0 0 G_module_num]"

definition stSysModuleInf :: "sys_field info_t list" where
  "stSysModuleInf = [info_entry 0x01 0 4 0 0 S_voltage,
     info_entry 0x01 4 8 0 0 S_current,
     info_entry 0x02 2 3 0 0 S_module_num]"

section \<open>Callbacks and the library's state\<close>

record 'e yfy_module_handle_t =
  send :: "(u32 \<Rightarrow> u8 list \<Rightarrow> 'e \<Rightarrow> bool \<times> 'e) option"
  recv :: "(u8 \<Rightarrow> u8 list \<Rightarrow> 'e \<Rightarrow> bool \<times> u8 list \<times> 'e) option"
  time :: "('e \<Rightarrow> u32 \<times> 'e) option"

record module_online_info_t =
  oi_module_addr :: u8
  last_online_time :: u32
  is_online :: bool

record 'e yfy_state =
  stModuleOnlineInfo :: "module_online_info_t list"
  module_handle :: "'e yfy_module_handle_t"
  stModuleData :: module_data_t
  stGroupModuleData :: group_module_data_t
  stSysModuleData :: sys_module_data_t
  last_check_time :: u32
  env :: 'e

text \<open>Static storage: every object starts as zero bytes and null pointers.\<close>

definition stModuleData_zero :: module_data_t where
  "stModuleData_zero = \<lparr>md_voltage = replicate (MODULE_NUM * 4) 0,
     md_current = replicate (MODULE_NUM * 4) 0,
     md_group = replicate (MODULE_NUM * 1) 0,
     md_temp = replicate (MODULE_NUM * 1) 0,
     md_module_limit_power = replicate (MODULE_NUM * 1) 0,
     md_module_id_duplicate = replicate (MODULE_NUM * 1) 0,
     md_module_severe_unbalanced = replicate (MODULE_NUM * 1) 0,
     md_three_phase_input_missing = replicate (MODULE_NUM * 1) 0,
     md_three_phase_input_unbalanced = replicate (MODULE_NUM * 1) 0,
     md_input_undervoltage = replicate (MODULE_NUM * 1) 0,
     md_input_overvoltage = replicate (MODULE_NUM * 1) 0,
     md_module_pfc_fault = replicate (MODULE_NUM * 1) 0,
     md_module_dc_side_fault = replicate (MODULE_NUM * 1) 0,
     md_module_fault = replicate (MODULE_NUM * 1) 0,
     md_module_protection = replicate (MODULE_NUM * 1) 0,
     md_fan_fault = replicate (MODULE_NUM * 1) 0,
     md_over_temp = replicate (MODULE_NUM * 1) 0,
     md_output_overvoltage = replicate (MODULE_NUM * 1) 0,
     md_walk_in_enable = replicate (MODULE_NUM * 1) 0,
     md_module_comm_interrupt = replicate (MODULE_NUM * 1) 0,
     md_output_short_circuit = replicate (MODULE_NUM * 1) 0,
     md_module_internal_comm_fault = replicate (MODULE_NUM * 1) 0,
     md_input_or_bus_abnormal = replicate (MODULE_NUM * 1) 0,
     md_module_sleep = replicate (MODULE_NUM * 1) 0,
     md_module_discharge_abnormal = replicate (MODULE_NUM * 1) 0,
     md_ac_input_voltage_ab = replicate (MODULE_NUM * 2) 0,
     md_ac_input_voltage_bc = replicate (MODULE_NUM * 2) 0,
     md_ac_input_voltage_ca = replicate (MODULE_NUM * 2) 0,
     md_max_voltage = replicate (MODULE_NUM * 2) 0,
     md_min_voltage = replicate (MODULE_NUM * 2) 0,
     md_max_current = replicate (MODULE_NUM * 2) 0,
     md_max_power = replicate (MODULE_NUM * 2) 0,
     md_external_voltage = replicate (MODULE_NUM * 2) 0,
     md_max_output_current = replicate (MODULE_NUM * 2) 0,
     md_addr_modeL = replicate (MODULE_NUM * 1) 0\<rparr>"

definition yfy_static :: "'e \<Rightarrow> 'e yfy_state" where
  "yfy_static e =
     \<lparr>stModuleOnlineInfo = replicate MODULE_NUM \<lparr>oi_module_addr = 0, last_online_time = 0, is_online = False\<rparr>,
      module_handle = \<lparr>send = None, recv = None, time = None\<rparr>,
      stModuleData = stModuleData_zero,
      stGroupModuleData = \<lparr>gd_voltage = replicate (GROUP_MODULE_NUM * 4) 0,
        gd_current = replicate (GROUP_MODULE_NUM * 4) 0, gd_module_num = replicate GROUP_MODULE_NUM 0\<rparr>,
      stSysModuleData = \<lparr>sd_voltage = replicate 4 0, sd_current = replicate 4 0, sd_module_num = replicate 1 0\<rparr>,
      last_check_time = 0,
      env = e\<rparr>"

definition yfy_module_handle_init ::
  "(u32 \<Rightarrow> u8 list \<Rightarrow> 'e \<Rightarrow> bool \<times> 'e) option \<Rightarrow> (u8 \<Rightarrow> u8 list \<Rightarrow> 'e \<Rightarrow> bool \<times> u8 list \<times> 'e) option \<Rightarrow>
   ('e \<Rightarrow> u32 \<times> 'e) option \<Rightarrow> 'e yfy_state \<Rightarrow> 'e yfy_state" where
  "yfy_module_handle_init snd_f rcv_f time_f st =
     st\<lparr>module_handle := \<lparr>send = snd_f, recv = rcv_f, time = time_f\<rparr>\<rparr>"

section \<open>Storing one value\<close>

definition CONVERT_ENDIANNESS :: "u8 list \<Rightarrow> nat \<Rightarrow> u8 list" where
  "CONVERT_ENDIANNESS src_data bytes = map (\<lambda>i. src_data ! (bytes - 1 - i)) [0..<bytes]"

definition yfy_data_store :: "u8 \<Rightarrow> u8 \<Rightarrow> u8 \<Rightarrow> u8 \<Rightarrow> u8 \<Rightarrow> u8 list \<Rightarrow> u8 list \<Rightarrow> u8 list option" where
  "yfy_data_store bytestart byteend bitstart bitend addr pdata pstore_data =
     (if bytestart = byteend
      then (if unat bytestart < length pdata \<and> unat addr < length pstore_data
            then (let data = pdata ! unat bytestart;
                      need_data = drop_bit (unat bitstart) data AND 0x01
                  in Some (pstore_data[unat addr := need_data]))
            else None)
      else (let bytes = unat (byteend - bytestart);
                p_data = unat addr * bytes
            in if length pdata < unat bytestart + bytes \<or> length pstore_data < p_data + bytes then None
               else if 1 < bytes
                 then (if 8 < bytes then None
                       else Some (store_at p_data
                              (CONVERT_ENDIANNESS (seg (unat bytestart) bytes pdata) bytes) pstore_data))
               else Some (store_at p_data (seg (unat bytestart) bytes pdata) pstore_data)))"

section \<open>Decoding one frame\<close>

datatype parse_state = start_parse | on_parse | end_parse

text \<open>
  The loop over a table; the code has it three times, once per table, and the accessors
  of the target structure are its parameters here.
\<close>

fun unpack_loop ::
  "('f \<Rightarrow> 's \<Rightarrow> u8 list) \<Rightarrow> ('f \<Rightarrow> u8 list \<Rightarrow> 's \<Rightarrow> 's) \<Rightarrow> u8 \<Rightarrow> u8 \<Rightarrow> u8 list \<Rightarrow>
   'f info_t list \<Rightarrow> parse_state \<Rightarrow> 's \<Rightarrow> (parse_state \<times> 's) option" where
  "unpack_loop fget fset cmd addr pdata [] ps s = Some (ps, s)"
| "unpack_loop fget fset cmd addr pdata (e # es) ps s =
     (if info_cmd e = ucast cmd
      then (case yfy_data_store (ucast (byte_start e)) (ucast (byte_end e)) (ucast (bit_start e))
                   (ucast (bit_end e)) addr pdata (fget (info_pdata e) s) of
              None \<Rightarrow> None
            | Some v \<Rightarrow> unpack_loop fget fset cmd addr pdata es
                 (if ps = start_parse then on_parse else ps) (fset (info_pdata e) v s))
      else if ps = on_parse then Some (end_parse, s)
      else unpack_loop fget fset cmd addr pdata es ps s)"

datatype module_info_type_t = eModuleInfo | eGroupModuleInfo | eSysModuleInfo

fun yfy_data_unpack ::
  "module_info_type_t \<Rightarrow> u8 \<Rightarrow> u8 \<Rightarrow> u8 list \<Rightarrow> 'e yfy_state \<Rightarrow> (bool \<times> 'e yfy_state) option" where
  "yfy_data_unpack eModuleInfo cmd module_addr pdata st =
     (case unpack_loop module_get module_set cmd module_addr pdata stModuleInfo start_parse (stModuleData st) of
        None \<Rightarrow> None
      | Some (ps, d) \<Rightarrow> Some (ps = end_parse, st\<lparr>stModuleData := d\<rparr>))"
| "yfy_data_unpack eGroupModuleInfo cmd module_addr pdata st =
     (case unpack_loop group_get group_set cmd module_addr pdata stGroupModuleInfo start_parse (stGroupModuleData st) of
        None \<Rightarrow> None
      | Some (ps, d) \<Rightarrow> Some (ps = end_parse, st\<lparr>stGroupModuleData := d\<rparr>))"
| "yfy_data_unpack eSysModuleInfo cmd module_addr pdata st =
     (case unpack_loop sys_get sys_set cmd 0 pdata stSysModuleInf start_parse (stSysModuleData st) of
        None \<Rightarrow> None
      | Some (ps, d) \<Rightarrow> Some (ps = end_parse, st\<lparr>stSysModuleData := d\<rparr>))"

definition yfy_data_parse ::
  "u8 \<Rightarrow> u8 \<Rightarrow> u8 \<Rightarrow> u8 list \<Rightarrow> 'e yfy_state \<Rightarrow> (bool \<times> 'e yfy_state) option" where
  "yfy_data_parse dev_id cmd module_addr pdata st =
     (if cmd = 0x01 \<or> cmd = 0x02
      then (if module_addr = BROADCAST_ADDR
            then yfy_data_unpack eSysModuleInfo cmd module_addr pdata st
            else if dev_id = GROUP_DEVICE_ID
            then (if unat module_addr > GROUP_MODULE_NUM then Some (False, st)
                  else yfy_data_unpack eGroupModuleInfo cmd (module_addr - 1) pdata st)
            else Some (False, st))
      else (if unat module_addr \<ge> MODULE_NUM then Some (False, st)
            else case time (module_handle st) of
                None \<Rightarrow> None
              | Some clock \<Rightarrow>
                  (let (now, e') = clock (env st);
                       online_info = stModuleOnlineInfo st;
                       entry = \<lparr>oi_module_addr = module_addr, last_online_time = now, is_online = True\<rparr>
                   in yfy_data_unpack eModuleInfo cmd module_addr pdata
                        (st\<lparr>env := e', stModuleOnlineInfo := online_info[unat module_addr := entry]\<rparr>))))"

section \<open>Online check\<close>

text \<open>The time difference as the code computes it, with the overflow branch.\<close>

definition time_since :: "u32 \<Rightarrow> u32 \<Rightarrow> u32" where
  "time_since current_time last_time =
     (if last_time \<le> current_time then current_time - last_time
      else (0xFFFFFFFF - last_time) + current_time + 1)"

definition online_refresh :: "u32 \<Rightarrow> module_online_info_t \<Rightarrow> module_online_info_t" where
  "online_refresh current_time info =
     (if is_online info \<and> MODULE_OFFLINE_TIME \<le> time_since current_time (last_online_time info)
      then info\<lparr>is_online := False\<rparr> else info)"

definition module_online_check :: "'e yfy_state \<Rightarrow> 'e yfy_state option" where
  "module_online_check st =
     (case time (module_handle st) of
        None \<Rightarrow> None
      | Some clock \<Rightarrow>
          (let (current_time, e') = clock (env st);
               st1 = st\<lparr>env := e'\<rparr>
           in if 1000 \<le> time_since current_time (last_check_time st1)
              then Some (st1\<lparr>last_check_time := current_time,
                     stModuleOnlineInfo := map (online_refresh current_time) (stModuleOnlineInfo st1)\<rparr>)
              else Some st1))"

section \<open>The receive task and the send functions\<close>

text \<open>
  The receive loop: at most ten frames per call. The local \<open>id\<close> is a \<open>uint8_t\<close> that
  stays 0, since it is passed to \<open>recv\<close> by value.
\<close>

fun process_loop :: "nat \<Rightarrow> (u8 \<Rightarrow> u8 list \<Rightarrow> 'e \<Rightarrow> bool \<times> u8 list \<times> 'e) \<Rightarrow> u8 \<Rightarrow> u8 list \<Rightarrow>
   'e yfy_state \<Rightarrow> 'e yfy_state option" where
  "process_loop 0 rcv ident pdata st = Some st"
| "process_loop (Suc max_handle_count) rcv ident pdata st =
     (let (got, pdata', e') = rcv ident pdata (env st); st1 = st\<lparr>env := e'\<rparr>
      in if got
         then (let dev_id = ucast (YFY_EXTRACT_DEVICE_ID (ucast ident));
                   cmd = ucast (YFY_EXTRACT_CMD (ucast ident));
                   module_addr = ucast (YFY_EXTRACT_SRC_ADDR (ucast ident))
               in case yfy_data_parse dev_id cmd module_addr pdata' st1 of
                    None \<Rightarrow> None
                  | Some (_, st2) \<Rightarrow> process_loop max_handle_count rcv ident pdata' st2)
         else Some st1)"

definition yfy_process_data :: "'e yfy_state \<Rightarrow> 'e yfy_state option" where
  "yfy_process_data st =
     (case recv (module_handle st) of
        None \<Rightarrow> Some st
      | Some rcv \<Rightarrow>
          (case module_online_check st of
             None \<Rightarrow> None
           | Some st1 \<Rightarrow> process_loop 10 rcv 0 (replicate 8 0) st1))"

definition yfy_send_write_cmd :: "u8 \<Rightarrow> u8 \<Rightarrow> u8 \<Rightarrow> u8 list \<Rightarrow> 'e yfy_state \<Rightarrow> 'e yfy_state" where
  "yfy_send_write_cmd dev_id cmd module_addr pdata st =
     (let cmd_data = YFY_SET_ID 0 (ucast dev_id) (ucast cmd) (ucast module_addr) (ucast MONITOR_ADDR)
      in case send (module_handle st) of
           None \<Rightarrow> st
         | Some snd_f \<Rightarrow> st\<lparr>env := snd (snd_f cmd_data pdata (env st))\<rparr>)"

definition yfy_send_read_cmd :: "u8 \<Rightarrow> u8 \<Rightarrow> u8 \<Rightarrow> 'e yfy_state \<Rightarrow> 'e yfy_state" where
  "yfy_send_read_cmd dev_id cmd module_addr st =
     (let cmd_data = YFY_SET_ID 0 (ucast dev_id) (ucast cmd) (ucast module_addr) (ucast MONITOR_ADDR);
          send_data = replicate 8 0
      in case send (module_handle st) of
           None \<Rightarrow> st
         | Some snd_f \<Rightarrow> st\<lparr>env := snd (snd_f cmd_data send_data (env st))\<rparr>)"

section \<open>Well-formedness\<close>

text \<open>Every array has the size its declaration gives it.\<close>

definition module_data_wf :: "module_data_t \<Rightarrow> bool" where
  "module_data_wf d \<longleftrightarrow> (\<forall>f. length (module_get f d) = MODULE_NUM * module_width f)"

definition group_data_wf :: "group_module_data_t \<Rightarrow> bool" where
  "group_data_wf d \<longleftrightarrow> (\<forall>f. length (group_get f d) = GROUP_MODULE_NUM * group_width f)"

definition sys_data_wf :: "sys_module_data_t \<Rightarrow> bool" where
  "sys_data_wf d \<longleftrightarrow> (\<forall>f. length (sys_get f d) = sys_width f)"

definition yfy_wf :: "'e yfy_state \<Rightarrow> bool" where
  "yfy_wf st \<longleftrightarrow> length (stModuleOnlineInfo st) = MODULE_NUM \<and> module_data_wf (stModuleData st) \<and>
     group_data_wf (stGroupModuleData st) \<and> sys_data_wf (stSysModuleData st)"

lemma yfy_static_wf: "yfy_wf (yfy_static e)"
proof -
  have "length (module_get f stModuleData_zero) = MODULE_NUM * module_width f" for f
    by (cases f) (simp_all add: stModuleData_zero_def)
  moreover have "length (group_get f (stGroupModuleData (yfy_static e))) = GROUP_MODULE_NUM * group_width f" for f
    by (cases f) (simp_all add: yfy_static_def)
  moreover have "length (sys_get f (stSysModuleData (yfy_static e))) = sys_width f" for f
    by (cases f) (simp_all add: yfy_static_def)
  moreover have "stModuleData (yfy_static e) = stModuleData_zero"
    "length (stModuleOnlineInfo (yfy_static e)) = MODULE_NUM"
    by (simp_all add: yfy_static_def)
  ultimately show ?thesis
    unfolding yfy_wf_def module_data_wf_def group_data_wf_def sys_data_wf_def by simp
qed

lemma yfy_module_handle_init_wf: "yfy_wf (yfy_module_handle_init snd_f rcv_f time_f st) = yfy_wf st"
  by (simp add: yfy_module_handle_init_def yfy_wf_def)

end
