(* ===== verification/YfyDecode.thy ===== *)
theory YfyDecode
  imports YfyData
begin

text \<open>
  Correctness of the decoder of \<^verbatim>\<open>yfy_data.c\<close>. The three structures it fills offer the same
  interface, a byte array per measurement that can be read and replaced, so the facts on the
  table loop are proved once in a locale and interpreted for the module, the group and the
  system data. What a table row means is \<open>entry_value\<close>: the bytes, least significant first,
  that a frame carries for that row.
\<close>

section \<open>Elements of arrays and the meaning of a row\<close>

definition elem :: "nat \<Rightarrow> nat \<Rightarrow> u8 list \<Rightarrow> u8 list" where
  "elem w j xs = seg (j * w) w xs"

definition entry_value :: "'f info_t \<Rightarrow> u8 list \<Rightarrow> u8 list" where
  "entry_value e pdata =
     (if byte_start e = byte_end e
      then [drop_bit (unat (bit_start e)) (pdata ! unat (byte_start e)) AND 1]
      else rev (seg (unat (byte_start e)) (unat (byte_end e) - unat (byte_start e)) pdata))"

definition entry_fits :: "('f \<Rightarrow> nat) \<Rightarrow> 'f info_t \<Rightarrow> bool" where
  "entry_fits width e \<longleftrightarrow>
     unat (byte_end e) \<le> 8 \<and> unat (bit_start e) < 8 \<and>
     (if byte_start e = byte_end e then unat (byte_start e) < 8 \<and> width (info_pdata e) = 1
      else unat (byte_start e) < unat (byte_end e) \<and>
        unat (byte_end e) - unat (byte_start e) = width (info_pdata e))"

definition target_wf :: "('f \<Rightarrow> 's \<Rightarrow> u8 list) \<Rightarrow> ('f \<Rightarrow> nat) \<Rightarrow> nat \<Rightarrow> 's \<Rightarrow> bool" where
  "target_wf fget width count s \<longleftrightarrow> (\<forall>f. length (fget f s) = count * width f)"

lemma CONVERT_ENDIANNESS_rev: "length src = n \<Longrightarrow> CONVERT_ENDIANNESS src n = rev src"
  by (rule nth_equalityI) (simp_all add: CONVERT_ENDIANNESS_def rev_nth)

lemma index_fits:
  fixes j n w :: nat
  assumes "j < n"
  shows "j * w + w \<le> n * w"
proof -
  have "Suc j * w \<le> n * w" using assms by (intro mult_le_mono1) simp
  then show ?thesis by simp
qed

lemma elem_store_same:
  assumes "j < n" and "length xs = n * w" and "length v = w"
  shows "elem w j (store_at (j * w) v xs) = v"
  using index_fits [OF assms(1), of w] assms(2,3) by (simp add: elem_def seg_store_at_same)

lemma elem_store_other:
  assumes "j < n" and "k < n" and "k \<noteq> j" and "length xs = n * w" and "length v = w"
  shows "elem w k (store_at (j * w) v xs) = elem w k xs"
proof -
  have "k * w + w \<le> j * w \<or> j * w + w \<le> k * w"
    using assms(3) index_fits [of k j w] index_fits [of j k w] by linarith
  then show ?thesis
    using index_fits [OF assms(1), of w] index_fits [OF assms(2), of w] assms(4,5)
    by (simp add: elem_def seg_store_at_other)
qed

lemma store_at_single: "j < length xs \<Longrightarrow> store_at j [v] xs = xs[j := v]"
  by (simp add: store_at_def upd_conv_take_nth_drop)

lemma ucast_u16_u8:
  fixes x :: u16
  assumes "unat x < 256"
  shows "unat (ucast x :: u8) = unat x"
  using assms by (simp add: unsigned_ucast_eq take_bit_nat_eq_self)

lemma length_entry_value:
  assumes "entry_fits width e" and "length pdata = 8"
  shows "length (entry_value e pdata) = width (info_pdata e)"
  using assms by (auto simp: entry_fits_def entry_value_def)

text \<open>A row that fits its target is stored as its meaning says.\<close>

lemma yfy_data_store_entry:
  assumes fits: "entry_fits width e" and len: "length pdata = 8"
    and addr: "unat addr < n" and xs: "length xs = n * width (info_pdata e)"
  shows "yfy_data_store (ucast (byte_start e)) (ucast (byte_end e)) (ucast (bit_start e))
      (ucast (bit_end e)) addr pdata xs =
    Some (store_at (unat addr * width (info_pdata e)) (entry_value e pdata) xs)"
proof (cases "byte_start e = byte_end e")
  case True
  with fits have b: "unat (byte_start e) < 8" "width (info_pdata e) = 1" "unat (bit_start e) < 8"
    by (simp_all add: entry_fits_def)
  then have "unat (ucast (byte_start e) :: u8) = unat (byte_start e)"
    "unat (ucast (bit_start e) :: u8) = unat (bit_start e)"
    by (simp_all add: ucast_u16_u8)
  with b True addr xs len show ?thesis
    by (simp add: yfy_data_store_def entry_value_def store_at_single)
next
  case False
  let ?bs = "unat (byte_start e)" and ?be = "unat (byte_end e)" and ?w = "width (info_pdata e)"
  from fits False have b: "?be \<le> 8" "?bs < ?be" "?be - ?bs = ?w"
    by (simp_all add: entry_fits_def)
  have u: "unat (ucast (byte_start e) :: u8) = ?bs" "unat (ucast (byte_end e) :: u8) = ?be"
    using b by (simp_all add: ucast_u16_u8)
  then have ne: "(ucast (byte_start e) :: u8) \<noteq> ucast (byte_end e)"
    using b by (metis less_irrefl)
  have d: "unat ((ucast (byte_end e) :: u8) - ucast (byte_start e)) = ?w"
    using b u by (simp add: unat_diff_le word_le_nat_alt)
  have l: "length (seg ?bs ?w pdata) = ?w" using b len by simp
  have "unat addr * ?w + ?w \<le> length xs" using index_fits [OF addr, of ?w] xs by simp
  moreover have "?bs + ?w \<le> length pdata" "?w \<le> 8" "?w \<noteq> 0" using b len by linarith+
  moreover have "rev (seg ?bs ?w pdata) = seg ?bs ?w pdata" if "\<not> 1 < ?w"
  proof -
    from that \<open>?w \<noteq> 0\<close> l have "length (seg ?bs ?w pdata) = 1" by linarith
    then show ?thesis by (auto simp: length_Suc_conv)
  qed
  ultimately show ?thesis
    using False b ne u d l
    by (auto simp: yfy_data_store_def entry_value_def Let_def CONVERT_ENDIANNESS_rev)
qed

section \<open>The table loop\<close>

locale table_target =
  fixes fget :: "'f \<Rightarrow> 's \<Rightarrow> u8 list"
    and fset :: "'f \<Rightarrow> u8 list \<Rightarrow> 's \<Rightarrow> 's"
    and width :: "'f \<Rightarrow> nat"
    and count :: nat
  assumes get_set_same: "fget f (fset f v s) = v"
    and get_set_other: "g \<noteq> f \<Longrightarrow> fget g (fset f v s) = fget g s"
begin

lemma set_wf:
  assumes "target_wf fget width count s" and "length v = count * width f"
  shows "target_wf fget width count (fset f v s)"
  unfolding target_wf_def
proof
  fix g
  show "length (fget g (fset f v s)) = count * width g"
    using assms by (cases "g = f") (simp_all add: target_wf_def get_set_same get_set_other)
qed

lemma unpack_skip:
  assumes "\<forall>e\<in>set pre. info_cmd e \<noteq> ucast cmd" and "ps \<noteq> on_parse"
  shows "unpack_loop fget fset cmd addr pdata (pre @ es) ps s = unpack_loop fget fset cmd addr pdata es ps s"
  using assms by (induction pre) auto

lemma unpack_matching:
  assumes "\<forall>e\<in>set es. info_cmd e = ucast cmd \<and> entry_fits width e"
    and "distinct (map info_pdata es)" and "unat addr < count" and "length pdata = 8"
    and "target_wf fget width count s"
  shows "\<exists>s'. unpack_loop fget fset cmd addr pdata (es @ rest) ps s =
        unpack_loop fget fset cmd addr pdata rest (if es \<noteq> [] \<and> ps = start_parse then on_parse else ps) s' \<and>
      target_wf fget width count s' \<and>
      (\<forall>e\<in>set es. elem (width (info_pdata e)) (unat addr) (fget (info_pdata e) s') = entry_value e pdata) \<and>
      (\<forall>f j. j < count \<longrightarrow> f \<notin> info_pdata ` set es \<or> j \<noteq> unat addr \<longrightarrow>
         elem (width f) j (fget f s') = elem (width f) j (fget f s))"
  using assms
proof (induction es arbitrary: ps s)
  case Nil
  then show ?case by auto
next
  case (Cons e es)
  let ?f = "info_pdata e"
  let ?v = "store_at (unat addr * width ?f) (entry_value e pdata) (fget ?f s)"
  let ?s = "fset ?f ?v s" and ?ps = "if ps = start_parse then on_parse else ps"
  have fits: "entry_fits width e" and cmd: "info_cmd e = ucast cmd" using Cons.prems(1) by auto
  have len: "length (fget ?f s) = count * width ?f" using Cons.prems(5) by (simp add: target_wf_def)
  have lv: "length (entry_value e pdata) = width ?f" using fits Cons.prems(4) by (rule length_entry_value)
  have "unat addr * width ?f + width ?f \<le> length (fget ?f s)"
    using index_fits [OF Cons.prems(3), of "width ?f"] len by simp
  then have "length ?v = count * width ?f" using lv len by simp
  then have wf: "target_wf fget width count ?s" by (rule set_wf [OF Cons.prems(5)])
  have step: "unpack_loop fget fset cmd addr pdata ((e # es) @ rest) ps s =
      unpack_loop fget fset cmd addr pdata (es @ rest) ?ps ?s"
    using cmd yfy_data_store_entry [OF fits Cons.prems(4,3) len] by simp
  have prems: "\<forall>e\<in>set es. info_cmd e = ucast cmd \<and> entry_fits width e" "distinct (map info_pdata es)"
    using Cons.prems(1,2) by auto
  from Cons.IH [OF prems Cons.prems(3,4) wf, of ?ps] obtain s' where
    run: "unpack_loop fget fset cmd addr pdata (es @ rest) ?ps ?s =
        unpack_loop fget fset cmd addr pdata rest (if es \<noteq> [] \<and> ?ps = start_parse then on_parse else ?ps) s'"
    and wf': "target_wf fget width count s'"
    and vals: "\<forall>e\<in>set es. elem (width (info_pdata e)) (unat addr) (fget (info_pdata e) s') = entry_value e pdata"
    and frame: "\<forall>f j. j < count \<longrightarrow> f \<notin> info_pdata ` set es \<or> j \<noteq> unat addr \<longrightarrow>
         elem (width f) j (fget f s') = elem (width f) j (fget f ?s)"
    by blast
  have fresh: "?f \<notin> info_pdata ` set es" using Cons.prems(2) by simp
  have own: "elem (width ?f) (unat addr) (fget ?f s') = entry_value e pdata"
    using frame fresh Cons.prems(3) elem_store_same [OF Cons.prems(3) len lv] by (simp add: get_set_same)
  have other: "elem (width g) j (fget g s') = elem (width g) j (fget g s)"
    if "j < count" and "g \<notin> info_pdata ` set (e # es) \<or> j \<noteq> unat addr" for g j
  proof (cases "g = ?f")
    case True
    then show ?thesis
      using that frame fresh elem_store_other [OF Cons.prems(3) that(1) _ len lv]
      by (auto simp: get_set_same)
  next
    case False
    then show ?thesis using that frame by (auto simp: get_set_other)
  qed
  show ?case
    using step run wf' vals own other by (intro exI [of _ s']) auto
qed

text \<open>
  A whole table: the rows of a command, if they stand together, are all stored, and the
  result is that of a match only if a row of another command follows them.
\<close>

lemma unpack_table:
  assumes "table = pre @ es @ rest"
    and "\<forall>e\<in>set pre. info_cmd e \<noteq> ucast cmd" and "\<forall>e\<in>set es. info_cmd e = ucast cmd \<and> entry_fits width e"
    and "\<forall>e\<in>set rest. info_cmd e \<noteq> ucast cmd"
    and "distinct (map info_pdata es)" and "unat addr < count" and "length pdata = 8"
    and "target_wf fget width count s"
  shows "\<exists>s'. unpack_loop fget fset cmd addr pdata table start_parse s =
        Some (if es = [] then start_parse else if rest = [] then on_parse else end_parse, s') \<and>
      target_wf fget width count s' \<and>
      (\<forall>e\<in>set es. elem (width (info_pdata e)) (unat addr) (fget (info_pdata e) s') = entry_value e pdata) \<and>
      (\<forall>f j. j < count \<longrightarrow> f \<notin> info_pdata ` set es \<or> j \<noteq> unat addr \<longrightarrow>
         elem (width f) j (fget f s') = elem (width f) j (fget f s))"
proof -
  obtain s' where run: "unpack_loop fget fset cmd addr pdata (es @ rest) start_parse s =
        unpack_loop fget fset cmd addr pdata rest (if es \<noteq> [] then on_parse else start_parse) s'"
    and facts: "target_wf fget width count s'"
      "\<forall>e\<in>set es. elem (width (info_pdata e)) (unat addr) (fget (info_pdata e) s') = entry_value e pdata"
      "\<forall>f j. j < count \<longrightarrow> f \<notin> info_pdata ` set es \<or> j \<noteq> unat addr \<longrightarrow>
         elem (width f) j (fget f s') = elem (width f) j (fget f s)"
    using unpack_matching [OF assms(3,5,6,7,8), of rest start_parse] by auto
  have skip: "unpack_loop fget fset cmd addr pdata table start_parse s =
      unpack_loop fget fset cmd addr pdata (es @ rest) start_parse s"
    using unpack_skip [OF assms(2), of start_parse] assms(1) by simp
  have "unpack_loop fget fset cmd addr pdata rest (if es \<noteq> [] then on_parse else start_parse) s' =
      Some (if es = [] then start_parse else if rest = [] then on_parse else end_parse, s')"
  proof (cases "es = []")
    case True
    then show ?thesis using unpack_skip [OF assms(4), of start_parse _ _ "[]"] by simp
  next
    case False
    then show ?thesis using assms(4) by (cases rest) auto
  qed
  with skip run facts show ?thesis by metis
qed

end

section \<open>The three structures\<close>

lemma module_get_set_same: "module_get f (module_set f v d) = v"
  by (cases f) simp_all

lemma module_get_set_other: "g \<noteq> f \<Longrightarrow> module_get g (module_set f v d) = module_get g d"
  by (cases f; cases g; simp)

interpretation mod_data: table_target module_get module_set module_width MODULE_NUM
  by unfold_locales (simp_all add: module_get_set_same module_get_set_other)

interpretation grp_data: table_target group_get group_set group_width GROUP_MODULE_NUM
proof (unfold_locales, goal_cases)
  case (1 f v s)
  then show ?case by (cases f) simp_all
next
  case (2 g f v s)
  then show ?case by (cases f; cases g; simp)
qed

interpretation sys_data: table_target sys_get sys_set sys_width 1
proof (unfold_locales, goal_cases)
  case (1 f v s)
  then show ?case by (cases f) simp_all
next
  case (2 g f v s)
  then show ?case by (cases f; cases g; simp)
qed

section \<open>The rows of a command\<close>

definition rows :: "u16 \<Rightarrow> 'f info_t list \<Rightarrow> 'f info_t list" where
  "rows c table = takeWhile (\<lambda>e. info_cmd e = c) (dropWhile (\<lambda>e. info_cmd e \<noteq> c) table)"

definition rows_after :: "u16 \<Rightarrow> 'f info_t list \<Rightarrow> 'f info_t list" where
  "rows_after c table = dropWhile (\<lambda>e. info_cmd e = c) (dropWhile (\<lambda>e. info_cmd e \<noteq> c) table)"

lemma table_split: "table = takeWhile (\<lambda>e. info_cmd e \<noteq> c) table @ rows c table @ rows_after c table"
  by (simp add: rows_def rows_after_def)

text \<open>The tables are sorted by command, so the rows of one command stand together.\<close>

lemma rows_after_other:
  assumes "sorted (map info_cmd table)" and "e \<in> set (rows_after c table)"
  shows "info_cmd e \<noteq> c"
proof -
  let ?ds = "dropWhile (\<lambda>e. info_cmd e \<noteq> c) table"
  have srt: "sorted (map info_cmd ?ds)"
    using assms(1) by (metis sorted_append map_append takeWhile_dropWhile_id)
  show ?thesis
  proof (cases "rows c table")
    case Nil
    have "?ds = []"
    proof (rule ccontr)
      assume ne: "?ds \<noteq> []"
      then have "info_cmd (hd ?ds) = c" using hd_dropWhile [OF ne] by simp
      with Nil ne show False by (cases ?ds) (simp_all add: rows_def)
    qed
    then have "rows_after c table = []" unfolding rows_after_def by (simp only: dropWhile.simps)
    with assms(2) show ?thesis by simp
  next
    case (Cons r rs)
    obtain x xs where after: "rows_after c table = x # xs"
      using assms(2) by (cases "rows_after c table") auto
    have "rows_after c table \<noteq> []" using after by simp
    from hd_dropWhile [OF this [unfolded rows_after_def]] after
    have "info_cmd x \<noteq> c" by (metis rows_after_def list.sel(1))
    moreover have split: "?ds = rows c table @ rows_after c table"
      by (simp add: rows_def rows_after_def)
    moreover have "info_cmd r = c"
      using Cons set_takeWhileD [of r "\<lambda>e. info_cmd e = c" ?ds] by (simp add: rows_def)
    ultimately have "c < info_cmd x"
      using srt Cons after by (auto simp: sorted_append)
    moreover have "info_cmd x \<le> info_cmd e"
      using srt split after assms(2) by (auto simp: sorted_append)
    ultimately show ?thesis by simp
  qed
qed

lemma set_rows:
  assumes "sorted (map info_cmd table)"
  shows "set (rows c table) = {e \<in> set table. info_cmd e = c}"
proof -
  have "e \<in> set (rows c table)" if "e \<in> set table" and "info_cmd e = c" for e
  proof -
    have "e \<in> set (takeWhile (\<lambda>e. info_cmd e \<noteq> c) table) \<union> set (rows c table) \<union> set (rows_after c table)"
      using that(1) by (metis table_split set_append Un_assoc)
    moreover have "e \<notin> set (takeWhile (\<lambda>e. info_cmd e \<noteq> c) table)"
      using that(2) by (blast dest: set_takeWhileD)
    moreover have "e \<notin> set (rows_after c table)"
      using that(2) rows_after_other [OF assms] by blast
    ultimately show ?thesis by blast
  qed
  moreover have "e \<in> set table \<and> info_cmd e = c" if "e \<in> set (rows c table)" for e
    using that unfolding rows_def by (blast dest: set_takeWhileD set_dropWhileD)
  ultimately show ?thesis by auto
qed

lemma rows_empty_iff:
  assumes "sorted (map info_cmd table)"
  shows "rows c table \<noteq> [] \<longleftrightarrow> (\<exists>e\<in>set table. info_cmd e = c)"
proof -
  have "rows c table \<noteq> [] \<longleftrightarrow> (\<exists>e. e \<in> set (rows c table))" by (cases "rows c table") auto
  then show ?thesis unfolding set_rows [OF assms] by blast
qed

lemma distinct_rows:
  assumes "distinct (map info_pdata table)"
  shows "distinct (map info_pdata (rows c table))"
  by (metis assms distinct_append map_append table_split)

context table_target
begin

lemma unpack_sorted_table:
  assumes "sorted (map info_cmd table)" and "distinct (map info_pdata table)"
    and "\<forall>e\<in>set table. entry_fits width e"
    and "unat addr < count" and "length pdata = 8" and "target_wf fget width count s"
  shows "\<exists>s'. unpack_loop fget fset cmd addr pdata table start_parse s =
        Some (if rows (ucast cmd) table = [] then start_parse
              else if rows_after (ucast cmd) table = [] then on_parse else end_parse, s') \<and>
      target_wf fget width count s' \<and>
      (\<forall>e\<in>set table. info_cmd e = ucast cmd \<longrightarrow>
         elem (width (info_pdata e)) (unat addr) (fget (info_pdata e) s') = entry_value e pdata) \<and>
      (\<forall>f j. j < count \<longrightarrow> (\<forall>e\<in>set table. info_cmd e = ucast cmd \<longrightarrow> info_pdata e \<noteq> f) \<or> j \<noteq> unat addr \<longrightarrow>
         elem (width f) j (fget f s') = elem (width f) j (fget f s))"
proof -
  let ?es = "rows (ucast cmd) table"
  have set_es: "set ?es = {e \<in> set table. info_cmd e = ucast cmd}" by (rule set_rows [OF assms(1)])
  have ok: "\<forall>e\<in>set ?es. info_cmd e = ucast cmd \<and> entry_fits width e"
    using set_es assms(3) by auto
  have pre: "\<forall>e\<in>set (takeWhile (\<lambda>e. info_cmd e \<noteq> ucast cmd) table). info_cmd e \<noteq> ucast cmd"
    by (auto dest: set_takeWhileD)
  have post: "\<forall>e\<in>set (rows_after (ucast cmd) table). info_cmd e \<noteq> ucast cmd"
    using rows_after_other [OF assms(1)] by auto
  have fields: "f \<notin> info_pdata ` set ?es \<longleftrightarrow> (\<forall>e\<in>set table. info_cmd e = ucast cmd \<longrightarrow> info_pdata e \<noteq> f)" for f
    using set_es by auto
  have vals: "(\<forall>e\<in>set ?es. P e) \<longleftrightarrow> (\<forall>e\<in>set table. info_cmd e = ucast cmd \<longrightarrow> P e)" for P
    using set_es by blast
  from unpack_table [OF table_split pre ok post distinct_rows [OF assms(2)] assms(4,5,6)]
  show ?thesis unfolding fields vals .
qed

end

section \<open>The tables of the code\<close>

lemma stModuleInfo_sorted: "sorted (map info_cmd stModuleInfo)"
  by (simp add: stModuleInfo_def info_entry_def)

lemma stModuleInfo_distinct: "distinct (map info_pdata stModuleInfo)"
  by (simp add: stModuleInfo_def info_entry_def)

lemma stModuleInfo_fits: "\<forall>e\<in>set stModuleInfo. entry_fits module_width e"
  by (simp add: stModuleInfo_def info_entry_def entry_fits_def)

lemma stGroupModuleInfo_table:
  "sorted (map info_cmd stGroupModuleInfo)" "distinct (map info_pdata stGroupModuleInfo)"
  "\<forall>e\<in>set stGroupModuleInfo. entry_fits group_width e"
  by (simp_all add: stGroupModuleInfo_def info_entry_def entry_fits_def)

lemma stSysModuleInf_table:
  "sorted (map info_cmd stSysModuleInf)" "distinct (map info_pdata stSysModuleInf)"
  "\<forall>e\<in>set stSysModuleInf. entry_fits sys_width e"
  by (simp_all add: stSysModuleInf_def info_entry_def entry_fits_def)

lemma wf_as_target:
  "module_data_wf d = target_wf module_get module_width MODULE_NUM d"
  "group_data_wf g = target_wf group_get group_width GROUP_MODULE_NUM g"
  "sys_data_wf s = target_wf sys_get sys_width 1 s"
  by (simp_all add: module_data_wf_def group_data_wf_def sys_data_wf_def target_wf_def)

text \<open>The last row of the module table carries a command number no frame can have.\<close>

lemma stModuleInfo_last: "\<exists>xs. stModuleInfo = xs @ [info_entry 0x1FF 0 1 0 0 F_addr_modeL]"
  by (simp add: stModuleInfo_def)

lemma ucast_u8_not_1FF: "(ucast (c :: u8) :: u16) \<noteq> 0x1FF"
proof
  assume "(ucast c :: u16) = 0x1FF"
  then have "unat (ucast c :: u16) = 0x1FF" by simp
  moreover have "unat c < 256" using unsigned_less [of c] by simp
  moreover have "unat (ucast c :: u16) \<le> unat c"
    by (simp add: unsigned_ucast_eq take_bit_nat_less_eq_self)
  ultimately show False by simp
qed

lemma rows_after_last:
  assumes "table = xs @ [e]" and "info_cmd e \<noteq> c" and "rows c table \<noteq> []"
  shows "rows_after c table \<noteq> []"
proof
  assume "rows_after c table = []"
  then have "table = takeWhile (\<lambda>e. info_cmd e \<noteq> c) table @ rows c table"
    using table_split [of table c] by simp
  then have "last table \<in> set (rows c table)"
    using assms(3) by (metis last_appendR last_in_set)
  moreover have "last table = e" using assms(1) by simp
  ultimately show False
    using assms(2) set_takeWhileD [of e "\<lambda>e. info_cmd e = c"] by (auto simp: rows_def)
qed


section \<open>Decoding a frame\<close>

lemma module_unpacked:
  assumes "yfy_wf st" and "length pdata = 8" and "unat addr < MODULE_NUM"
  shows "\<exists>d. yfy_data_unpack eModuleInfo cmd addr pdata st =
        Some (\<exists>e\<in>set stModuleInfo. info_cmd e = ucast cmd, st\<lparr>stModuleData := d\<rparr>) \<and>
      module_data_wf d \<and>
      (\<forall>e\<in>set stModuleInfo. info_cmd e = ucast cmd \<longrightarrow>
         elem (module_width (info_pdata e)) (unat addr) (module_get (info_pdata e) d) = entry_value e pdata) \<and>
      (\<forall>f j. j < MODULE_NUM \<longrightarrow>
         (\<forall>e\<in>set stModuleInfo. info_cmd e = ucast cmd \<longrightarrow> info_pdata e \<noteq> f) \<or> j \<noteq> unat addr \<longrightarrow>
         elem (module_width f) j (module_get f d) = elem (module_width f) j (module_get f (stModuleData st)))"
proof -
  let ?c = "ucast cmd :: u16"
  have wf: "target_wf module_get module_width MODULE_NUM (stModuleData st)"
    using assms(1) by (simp add: yfy_wf_def wf_as_target)
  from mod_data.unpack_sorted_table [OF stModuleInfo_sorted stModuleInfo_distinct stModuleInfo_fits
      assms(3,2) wf, of cmd]
  obtain d where run: "unpack_loop module_get module_set cmd addr pdata stModuleInfo start_parse (stModuleData st) =
        Some (if rows ?c stModuleInfo = [] then start_parse
              else if rows_after ?c stModuleInfo = [] then on_parse else end_parse, d)"
    and facts: "target_wf module_get module_width MODULE_NUM d"
      "\<forall>e\<in>set stModuleInfo. info_cmd e = ?c \<longrightarrow>
         elem (module_width (info_pdata e)) (unat addr) (module_get (info_pdata e) d) = entry_value e pdata"
      "\<forall>f j. j < MODULE_NUM \<longrightarrow>
         (\<forall>e\<in>set stModuleInfo. info_cmd e = ?c \<longrightarrow> info_pdata e \<noteq> f) \<or> j \<noteq> unat addr \<longrightarrow>
         elem (module_width f) j (module_get f d) = elem (module_width f) j (module_get f (stModuleData st))"
    by blast
  obtain xs where last: "stModuleInfo = xs @ [info_entry 0x1FF 0 1 0 0 F_addr_modeL]"
    using stModuleInfo_last by blast
  have "info_cmd (info_entry 0x1FF 0 1 0 0 F_addr_modeL) \<noteq> ?c"
    using ucast_u8_not_1FF [of cmd] by (simp add: info_entry_def)
  then have "rows ?c stModuleInfo \<noteq> [] \<Longrightarrow> rows_after ?c stModuleInfo \<noteq> []"
    by (rule rows_after_last [OF last])
  moreover have "rows ?c stModuleInfo \<noteq> [] \<longleftrightarrow> (\<exists>e\<in>set stModuleInfo. info_cmd e = ?c)"
    by (rule rows_empty_iff [OF stModuleInfo_sorted])
  ultimately have "(if rows ?c stModuleInfo = [] then start_parse
      else if rows_after ?c stModuleInfo = [] then on_parse else end_parse) =
      (if \<exists>e\<in>set stModuleInfo. info_cmd e = ?c then end_parse else start_parse)"
    by presburger
  then have "yfy_data_unpack eModuleInfo cmd addr pdata st =
      Some (\<exists>e\<in>set stModuleInfo. info_cmd e = ?c, st\<lparr>stModuleData := d\<rparr>)"
    using run by (simp only: yfy_data_unpack.simps option.case prod.case) simp
  with facts show ?thesis unfolding wf_as_target by blast
qed

text \<open>The group and the system structure have the same shape of table: two rows of command 1,
  then one of command 2, the last.\<close>

lemma small_table_rows:
  fixes cmd :: u8
  assumes "map info_cmd table = [1, 1, 2]" and "cmd = 1 \<or> cmd = 2"
  shows "rows (ucast cmd) table \<noteq> []" and "rows_after (ucast cmd) table = [] \<longleftrightarrow> cmd = 2"
proof -
  from assms(1) obtain a b c where "table = [a, b, c]" "info_cmd a = 1" "info_cmd b = 1" "info_cmd c = 2"
    by auto
  then show "rows (ucast cmd) table \<noteq> []" "rows_after (ucast cmd) table = [] \<longleftrightarrow> cmd = 2"
    using assms(2) by (auto simp: rows_def rows_after_def)
qed

lemma group_unpacked:
  assumes "yfy_wf st" and "length pdata = 8" and "cmd = 1 \<or> cmd = 2" and "unat idx < GROUP_MODULE_NUM"
  shows "\<exists>d. yfy_data_unpack eGroupModuleInfo cmd idx pdata st = Some (cmd = 1, st\<lparr>stGroupModuleData := d\<rparr>) \<and>
      group_data_wf d \<and>
      (\<forall>e\<in>set stGroupModuleInfo. info_cmd e = ucast cmd \<longrightarrow>
         elem (group_width (info_pdata e)) (unat idx) (group_get (info_pdata e) d) = entry_value e pdata) \<and>
      (\<forall>f j. j < GROUP_MODULE_NUM \<longrightarrow>
         (\<forall>e\<in>set stGroupModuleInfo. info_cmd e = ucast cmd \<longrightarrow> info_pdata e \<noteq> f) \<or> j \<noteq> unat idx \<longrightarrow>
         elem (group_width f) j (group_get f d) = elem (group_width f) j (group_get f (stGroupModuleData st)))"
proof -
  have wf: "target_wf group_get group_width GROUP_MODULE_NUM (stGroupModuleData st)"
    using assms(1) by (simp add: yfy_wf_def wf_as_target)
  have "map info_cmd stGroupModuleInfo = [1, 1, 2]" by (simp add: stGroupModuleInfo_def info_entry_def)
  note shape = small_table_rows [OF this assms(3)]
  from grp_data.unpack_sorted_table [OF stGroupModuleInfo_table assms(4,2) wf, of cmd]
  obtain d where run: "unpack_loop group_get group_set cmd idx pdata stGroupModuleInfo start_parse (stGroupModuleData st) =
        Some (if cmd = 2 then on_parse else end_parse, d)"
    and facts: "target_wf group_get group_width GROUP_MODULE_NUM d"
      "\<forall>e\<in>set stGroupModuleInfo. info_cmd e = ucast cmd \<longrightarrow>
         elem (group_width (info_pdata e)) (unat idx) (group_get (info_pdata e) d) = entry_value e pdata"
      "\<forall>f j. j < GROUP_MODULE_NUM \<longrightarrow>
         (\<forall>e\<in>set stGroupModuleInfo. info_cmd e = ucast cmd \<longrightarrow> info_pdata e \<noteq> f) \<or> j \<noteq> unat idx \<longrightarrow>
         elem (group_width f) j (group_get f d) = elem (group_width f) j (group_get f (stGroupModuleData st))"
    unfolding shape(2) using shape(1) by (simp only: if_False) blast
  have "((if cmd = 2 then on_parse else end_parse) = end_parse) = (cmd = 1)" using assms(3) by auto
  then have "yfy_data_unpack eGroupModuleInfo cmd idx pdata st = Some (cmd = 1, st\<lparr>stGroupModuleData := d\<rparr>)"
    using run by (simp only: yfy_data_unpack.simps option.case prod.case)
  with facts show ?thesis unfolding wf_as_target by blast
qed

lemma sys_unpacked:
  assumes "yfy_wf st" and "length pdata = 8" and "cmd = 1 \<or> cmd = 2"
  shows "\<exists>d. yfy_data_unpack eSysModuleInfo cmd addr pdata st = Some (cmd = 1, st\<lparr>stSysModuleData := d\<rparr>) \<and>
      sys_data_wf d \<and>
      (\<forall>e\<in>set stSysModuleInf. info_cmd e = ucast cmd \<longrightarrow>
         elem (sys_width (info_pdata e)) 0 (sys_get (info_pdata e) d) = entry_value e pdata) \<and>
      (\<forall>f. (\<forall>e\<in>set stSysModuleInf. info_cmd e = ucast cmd \<longrightarrow> info_pdata e \<noteq> f) \<longrightarrow>
         elem (sys_width f) 0 (sys_get f d) = elem (sys_width f) 0 (sys_get f (stSysModuleData st)))"
proof -
  have wf: "target_wf sys_get sys_width 1 (stSysModuleData st)"
    using assms(1) by (simp add: yfy_wf_def wf_as_target)
  have "map info_cmd stSysModuleInf = [1, 1, 2]" by (simp add: stSysModuleInf_def info_entry_def)
  note shape = small_table_rows [OF this assms(3)]
  have zero: "unat (0 :: u8) = 0" "(0 :: nat) < 1" by simp_all
  from sys_data.unpack_sorted_table [OF stSysModuleInf_table zero(2) [folded zero(1)] assms(2) wf, of cmd]
  obtain d where run: "unpack_loop sys_get sys_set cmd 0 pdata stSysModuleInf start_parse (stSysModuleData st) =
        Some (if cmd = 2 then on_parse else end_parse, d)"
    and facts: "target_wf sys_get sys_width 1 d"
      "\<forall>e\<in>set stSysModuleInf. info_cmd e = ucast cmd \<longrightarrow>
         elem (sys_width (info_pdata e)) 0 (sys_get (info_pdata e) d) = entry_value e pdata"
      "\<forall>f j. j < 1 \<longrightarrow>
         (\<forall>e\<in>set stSysModuleInf. info_cmd e = ucast cmd \<longrightarrow> info_pdata e \<noteq> f) \<or> j \<noteq> 0 \<longrightarrow>
         elem (sys_width f) j (sys_get f d) = elem (sys_width f) j (sys_get f (stSysModuleData st))"
    unfolding shape(2) zero(1) using shape(1) by (simp only: if_False) blast
  have "((if cmd = 2 then on_parse else end_parse) = end_parse) = (cmd = 1)" using assms(3) by auto
  then have "yfy_data_unpack eSysModuleInfo cmd addr pdata st = Some (cmd = 1, st\<lparr>stSysModuleData := d\<rparr>)"
    using run by (simp only: yfy_data_unpack.simps option.case prod.case)
  with facts show ?thesis unfolding wf_as_target using zero(2) by blast
qed

end
