(* ===== verification/YfyParse.thy ===== *)
theory YfyParse
  imports YfyDecode
begin

text \<open>
  What the receive side of \<^verbatim>\<open>yfy_data.c\<close> guarantees: which bytes of which structure a
  frame changes, when decoding leaves an array, what the online bookkeeping does, and what
  the receive task as it stands makes of the frames it is given.
\<close>

section \<open>Dispatch of a frame\<close>

lemma parse_module:
  assumes "cmd \<noteq> 1" "cmd \<noteq> 2" "unat addr < MODULE_NUM" "time (module_handle st) = Some clock"
  shows "yfy_data_parse dev cmd addr pdata st =
    yfy_data_unpack eModuleInfo cmd addr pdata
      (st\<lparr>env := snd (clock (env st)), stModuleOnlineInfo := (stModuleOnlineInfo st)[unat addr :=
          \<lparr>oi_module_addr = addr, last_online_time = fst (clock (env st)), is_online = True\<rparr>]\<rparr>)"
  using assms by (simp add: yfy_data_parse_def Let_def split_beta)

lemma parse_module_out_of_range:
  assumes "cmd \<noteq> 1" "cmd \<noteq> 2" "MODULE_NUM \<le> unat addr"
  shows "yfy_data_parse dev cmd addr pdata st = Some (False, st)"
  using assms by (simp add: yfy_data_parse_def)

lemma parse_system:
  assumes "cmd = 1 \<or> cmd = 2"
  shows "yfy_data_parse dev cmd BROADCAST_ADDR pdata st = yfy_data_unpack eSysModuleInfo cmd BROADCAST_ADDR pdata st"
  using assms by (auto simp: yfy_data_parse_def)

lemma parse_group:
  assumes "cmd = 1 \<or> cmd = 2" "addr \<noteq> BROADCAST_ADDR" "dev = GROUP_DEVICE_ID"
  shows "yfy_data_parse dev cmd addr pdata st =
    (if GROUP_MODULE_NUM < unat addr then Some (False, st)
     else yfy_data_unpack eGroupModuleInfo cmd (addr - 1) pdata st)"
  using assms by (auto simp: yfy_data_parse_def)

lemma parse_foreign:
  assumes "cmd = 1 \<or> cmd = 2" "addr \<noteq> BROADCAST_ADDR" "dev \<noteq> GROUP_DEVICE_ID"
  shows "yfy_data_parse dev cmd addr pdata st = Some (False, st)"
  using assms by (auto simp: yfy_data_parse_def)

lemma yfy_wf_update:
  "yfy_wf st \<Longrightarrow> yfy_wf (st\<lparr>env := e, stModuleOnlineInfo := (stModuleOnlineInfo st)[i := x]\<rparr>)"
  "yfy_wf st \<Longrightarrow> module_data_wf d \<Longrightarrow> yfy_wf (st\<lparr>stModuleData := d\<rparr>)"
  "yfy_wf st \<Longrightarrow> group_data_wf g \<Longrightarrow> yfy_wf (st\<lparr>stGroupModuleData := g\<rparr>)"
  "yfy_wf st \<Longrightarrow> sys_data_wf s \<Longrightarrow> yfy_wf (st\<lparr>stSysModuleData := s\<rparr>)"
  by (simp_all add: yfy_wf_def)

lemma group_index:
  fixes addr :: u8
  assumes "addr \<noteq> 0"
  shows "unat (addr - 1) = unat addr - 1"
  using assms by (simp add: unat_minus_one)

section \<open>Properties\<close>

text \<open>Claim C5: decoding a frame of a single module. For every command other than 1 and 2, every
  8-byte frame and every module address below 12, \<open>yfy_data_parse\<close> returns true exactly if the
  module table has rows for the command; it stores for each of these rows the value the frame
  carries (multi-byte values reversed into host order, flags as 0 or 1) in that module's element,
  leaves every other element of every array as it was, marks the module online at the time of the
  clock, and touches neither the group nor the system data.\<close>

theorem yfy_module_frame_decoded:
  assumes "yfy_wf st" and "length pdata = 8" and "cmd \<noteq> 1" and "cmd \<noteq> 2"
    and "unat addr < MODULE_NUM" and "time (module_handle st) = Some clock"
  shows "\<exists>st'. yfy_data_parse dev cmd addr pdata st = Some (\<exists>e\<in>set stModuleInfo. info_cmd e = ucast cmd, st') \<and>
      yfy_wf st' \<and>
      (\<forall>e\<in>set stModuleInfo. info_cmd e = ucast cmd \<longrightarrow>
         elem (module_width (info_pdata e)) (unat addr) (module_get (info_pdata e) (stModuleData st')) =
           entry_value e pdata) \<and>
      (\<forall>f j. j < MODULE_NUM \<longrightarrow>
         (\<forall>e\<in>set stModuleInfo. info_cmd e = ucast cmd \<longrightarrow> info_pdata e \<noteq> f) \<or> j \<noteq> unat addr \<longrightarrow>
         elem (module_width f) j (module_get f (stModuleData st')) =
           elem (module_width f) j (module_get f (stModuleData st))) \<and>
      stModuleOnlineInfo st' = (stModuleOnlineInfo st)[unat addr :=
         \<lparr>oi_module_addr = addr, last_online_time = fst (clock (env st)), is_online = True\<rparr>] \<and>
      stGroupModuleData st' = stGroupModuleData st \<and> stSysModuleData st' = stSysModuleData st"
proof -
  let ?st = "st\<lparr>env := snd (clock (env st)), stModuleOnlineInfo := (stModuleOnlineInfo st)[unat addr :=
          \<lparr>oi_module_addr = addr, last_online_time = fst (clock (env st)), is_online = True\<rparr>]\<rparr>"
  have wf: "yfy_wf ?st" by (rule yfy_wf_update(1) [OF assms(1)])
  from module_unpacked [OF wf assms(2,5), of cmd] obtain d where
    run: "yfy_data_unpack eModuleInfo cmd addr pdata ?st =
        Some (\<exists>e\<in>set stModuleInfo. info_cmd e = ucast cmd, ?st\<lparr>stModuleData := d\<rparr>)"
    and dwf: "module_data_wf d"
    and vals: "\<forall>e\<in>set stModuleInfo. info_cmd e = ucast cmd \<longrightarrow>
         elem (module_width (info_pdata e)) (unat addr) (module_get (info_pdata e) d) = entry_value e pdata"
    and frame: "\<forall>f j. j < MODULE_NUM \<longrightarrow>
         (\<forall>e\<in>set stModuleInfo. info_cmd e = ucast cmd \<longrightarrow> info_pdata e \<noteq> f) \<or> j \<noteq> unat addr \<longrightarrow>
         elem (module_width f) j (module_get f d) = elem (module_width f) j (module_get f (stModuleData ?st))"
    by blast
  have fields: "stModuleData (?st\<lparr>stModuleData := d\<rparr>) = d" "stModuleData ?st = stModuleData st" by simp_all
  show ?thesis
    unfolding parse_module [OF assms(3-6)] run
    by (intro exI [of _ "?st\<lparr>stModuleData := d\<rparr>"] conjI refl)
      (use yfy_wf_update(2) [OF wf dwf] vals frame fields in simp_all)
qed

text \<open>A powered-up library with a clock.\<close>

definition yfy_sample :: "u32 yfy_state" where
  "yfy_sample = yfy_module_handle_init None None (Some (\<lambda>e. (e, e + 1))) (yfy_static 7000)"

lemma yfy_sample_facts:
  "yfy_wf yfy_sample" "time (module_handle yfy_sample) = Some (\<lambda>e. (e, e + 1))"
  by (simp_all add: yfy_sample_def yfy_module_handle_init_wf yfy_static_wf)
    (simp add: yfy_module_handle_init_def)

theorem yfy_module_frame_decoded_witness:
  "\<exists>st'. yfy_data_parse 0x0A 0x03 2 [0, 3, 0x0D, 0x40, 0, 0, 0x27, 0x10] yfy_sample = Some (True, st') \<and>
     elem 4 2 (md_voltage (stModuleData st')) = [0x40, 0x0D, 3, 0]"
proof -
  have l: "length [0, 3, 0x0D, 0x40, 0, 0, 0x27, 0x10 :: u8] = 8" "(3 :: u8) \<noteq> 1" "(3 :: u8) \<noteq> 2"
    "unat (2 :: u8) < MODULE_NUM"
    by (simp_all add: MODULE_NUM_def)
  have row: "info_entry 0x03 0 4 0 0 F_voltage \<in> set stModuleInfo" by (simp add: stModuleInfo_def)
  have cmd: "info_cmd (info_entry 0x03 0 4 0 0 F_voltage) = ucast (3 :: u8)" by (simp add: info_entry_def)
  have any: "(\<exists>e\<in>set stModuleInfo. info_cmd e = ucast (3 :: u8)) = True" using row cmd by blast
  from yfy_module_frame_decoded [OF yfy_sample_facts(1) l yfy_sample_facts(2), of "0x0A"] any obtain st' where
    st': "yfy_data_parse 0x0A 0x03 2 [0, 3, 0x0D, 0x40, 0, 0, 0x27, 0x10] yfy_sample = Some (True, st')"
    and vals: "\<forall>e\<in>set stModuleInfo. info_cmd e = ucast (3 :: u8) \<longrightarrow>
         elem (module_width (info_pdata e)) (unat (2 :: u8)) (module_get (info_pdata e) (stModuleData st')) =
           entry_value e [0, 3, 0x0D, 0x40, 0, 0, 0x27, 0x10]"
    by (simp only:) blast
  from vals row cmd have "elem (module_width (info_pdata (info_entry 0x03 0 4 0 0 F_voltage))) (unat (2 :: u8))
      (module_get (info_pdata (info_entry 0x03 0 4 0 0 F_voltage)) (stModuleData st')) =
      entry_value (info_entry 0x03 0 4 0 0 F_voltage) [0, 3, 0x0D, 0x40, 0, 0, 0x27, 0x10]"
    by blast
  then have "elem 4 2 (md_voltage (stModuleData st')) = [0x40, 0x0D, 3, 0]"
    by (simp add: info_entry_def entry_value_def seg_def)
  with st' show ?thesis by blast
qed

text \<open>Decoding a group frame. For commands 1 and 2 from the group device, with a group
  number from 1 to 13, the values of the frame are stored in the element of that group and
  nothing else changes. The answer is true for command 1 only: the row of command 2 is the last
  of its table, so its frames are stored but reported as not decoded.\<close>

theorem yfy_group_frame_decoded:
  assumes "yfy_wf st" and "length pdata = 8" and "cmd = 1 \<or> cmd = 2"
    and "1 \<le> unat addr" and "unat addr \<le> GROUP_MODULE_NUM"
  shows "\<exists>d. yfy_data_parse GROUP_DEVICE_ID cmd addr pdata st = Some (cmd = 1, st\<lparr>stGroupModuleData := d\<rparr>) \<and>
      yfy_wf (st\<lparr>stGroupModuleData := d\<rparr>) \<and>
      (\<forall>e\<in>set stGroupModuleInfo. info_cmd e = ucast cmd \<longrightarrow>
         elem (group_width (info_pdata e)) (unat addr - 1) (group_get (info_pdata e) d) = entry_value e pdata) \<and>
      (\<forall>f j. j < GROUP_MODULE_NUM \<longrightarrow>
         (\<forall>e\<in>set stGroupModuleInfo. info_cmd e = ucast cmd \<longrightarrow> info_pdata e \<noteq> f) \<or> j \<noteq> unat addr - 1 \<longrightarrow>
         elem (group_width f) j (group_get f d) = elem (group_width f) j (group_get f (stGroupModuleData st)))"
proof -
  have nz: "addr \<noteq> 0" using assms(4) by auto
  have nb: "addr \<noteq> BROADCAST_ADDR"
    using assms(5) by (auto simp: BROADCAST_ADDR_def GROUP_MODULE_NUM_def MODULE_NUM_def)
  have idx: "unat (addr - 1) < GROUP_MODULE_NUM"
    using assms(4,5) group_index [OF nz] by simp
  from group_unpacked [OF assms(1-3) idx] show ?thesis
    unfolding parse_group [OF assms(3) nb refl] group_index [OF nz]
    using assms(5) yfy_wf_update(3) [OF assms(1)] by (simp only: not_less [symmetric] if_False) blast
qed

theorem yfy_group_frame_decoded_witness:
  "\<exists>d. yfy_data_parse GROUP_DEVICE_ID 2 13 [0, 0, 5, 0, 0, 0, 0, 0] yfy_sample =
      Some (False, yfy_sample\<lparr>stGroupModuleData := d\<rparr>) \<and> elem 1 12 (gd_module_num d) = [5]"
proof -
  have h: "length [0, 0, 5, 0, 0, 0, 0, 0 :: u8] = 8" "(2 :: u8) = 1 \<or> (2 :: u8) = 2"
    "1 \<le> unat (13 :: u8)" "unat (13 :: u8) \<le> GROUP_MODULE_NUM" "((2 :: u8) = 1) = False"
    by (simp_all add: MODULE_NUM_def GROUP_MODULE_NUM_def)
  have row: "info_entry 0x02 2 3 0 0 G_module_num \<in> set stGroupModuleInfo" by (simp add: stGroupModuleInfo_def)
  have cmd: "info_cmd (info_entry 0x02 2 3 0 0 G_module_num) = ucast (2 :: u8)" by (simp add: info_entry_def)
  from yfy_group_frame_decoded [OF yfy_sample_facts(1) h(1-4)] obtain d where
    d: "yfy_data_parse GROUP_DEVICE_ID 2 13 [0, 0, 5, 0, 0, 0, 0, 0] yfy_sample =
      Some (False, yfy_sample\<lparr>stGroupModuleData := d\<rparr>)"
    and vals: "\<forall>e\<in>set stGroupModuleInfo. info_cmd e = ucast (2 :: u8) \<longrightarrow>
         elem (group_width (info_pdata e)) (unat (13 :: u8) - 1) (group_get (info_pdata e) d) =
           entry_value e [0, 0, 5, 0, 0, 0, 0, 0]"
    unfolding h(5) by blast
  from vals row cmd have "elem (group_width (info_pdata (info_entry 0x02 2 3 0 0 G_module_num))) (unat (13 :: u8) - 1)
      (group_get (info_pdata (info_entry 0x02 2 3 0 0 G_module_num)) d) =
      entry_value (info_entry 0x02 2 3 0 0 G_module_num) [0, 0, 5, 0, 0, 0, 0, 0]"
    by blast
  then have "elem 1 12 (gd_module_num d) = [5]"
    by (simp add: info_entry_def entry_value_def seg_def)
  with d show ?thesis by blast
qed

text \<open>Claim C21: memory safety of the decoder. On a library with a clock, \<open>yfy_data_parse\<close> leaves
  the bounds of an array on exactly one kind of frame: a group frame (command 1 or 2 of the group
  device) that carries group number 0, whose index \<open>module_addr - 1\<close> becomes 255. Every other
  frame, whatever its bytes and addresses, is handled in bounds and keeps the state well formed.\<close>

theorem yfy_parse_fault_iff:
  assumes "yfy_wf st" and "length pdata = 8" and "time (module_handle st) = Some clock"
  shows "(yfy_data_parse dev cmd addr pdata st = None \<longleftrightarrow>
            (cmd = 1 \<or> cmd = 2) \<and> dev = GROUP_DEVICE_ID \<and> addr = 0) \<and>
         (\<forall>r st'. yfy_data_parse dev cmd addr pdata st = Some (r, st') \<longrightarrow> yfy_wf st')"
proof -
  consider (mod) "cmd \<noteq> 1" "cmd \<noteq> 2" "unat addr < MODULE_NUM" | (mod_out) "cmd \<noteq> 1" "cmd \<noteq> 2" "MODULE_NUM \<le> unat addr"
    | (sys) "cmd = 1 \<or> cmd = 2" "addr = BROADCAST_ADDR"
    | (foreign) "cmd = 1 \<or> cmd = 2" "addr \<noteq> BROADCAST_ADDR" "dev \<noteq> GROUP_DEVICE_ID"
    | (grp_out) "cmd = 1 \<or> cmd = 2" "addr \<noteq> BROADCAST_ADDR" "dev = GROUP_DEVICE_ID" "GROUP_MODULE_NUM < unat addr"
    | (grp0) "cmd = 1 \<or> cmd = 2" "addr \<noteq> BROADCAST_ADDR" "dev = GROUP_DEVICE_ID" "addr = 0"
    | (grp) "cmd = 1 \<or> cmd = 2" "addr \<noteq> BROADCAST_ADDR" "dev = GROUP_DEVICE_ID" "addr \<noteq> 0" "unat addr \<le> GROUP_MODULE_NUM"
    by (meson not_le)
  then show ?thesis
  proof cases
    case mod
    from module_unpacked [OF yfy_wf_update(1) [OF assms(1)] assms(2) mod(3), of cmd]
    obtain b d e x where "yfy_data_parse dev cmd addr pdata st =
        Some (b, st\<lparr>env := e, stModuleOnlineInfo := (stModuleOnlineInfo st)[unat addr := x]\<rparr>\<lparr>stModuleData := d\<rparr>)"
      "module_data_wf d"
      unfolding parse_module [OF mod assms(3)] by blast
    with mod(1,2) show ?thesis using yfy_wf_update(2) [OF yfy_wf_update(1) [OF assms(1)]] by simp
  next
    case mod_out
    with assms(1) show ?thesis by (simp add: parse_module_out_of_range)
  next
    case sys
    then have "addr \<noteq> 0" by (simp add: BROADCAST_ADDR_def)
    moreover from sys_unpacked [OF assms(1,2) sys(1)]
    obtain b d where "yfy_data_parse dev cmd addr pdata st = Some (b, st\<lparr>stSysModuleData := d\<rparr>)" "sys_data_wf d"
      unfolding sys(2) parse_system [OF sys(1)] by blast
    ultimately show ?thesis using yfy_wf_update(4) [OF assms(1)] by simp
  next
    case foreign
    with assms(1) show ?thesis by (simp add: parse_foreign)
  next
    case grp_out
    then have "addr \<noteq> 0" by auto
    moreover have "yfy_data_parse dev cmd addr pdata st = Some (False, st)"
      unfolding parse_group [OF grp_out(1-3)] using grp_out(4) by simp
    ultimately show ?thesis using assms(1) by simp
  next
    case grp0
    have "length (group_get f (stGroupModuleData st)) = 13 * group_width f" for f
      using assms(1) by (simp add: yfy_wf_def group_data_wf_def GROUP_MODULE_NUM_def MODULE_NUM_def)
    from this [of G_voltage] this [of G_module_num]
    have "length (gd_voltage (stGroupModuleData st)) = 52" "length (gd_module_num (stGroupModuleData st)) = 13"
      by simp_all
    moreover have "unat (- 1 :: u8) = 255" by (simp add: unsigned_minus_1_eq_mask mask_eq_exp_minus_1)
    ultimately have "yfy_data_unpack eGroupModuleInfo cmd (0 - 1) pdata st = None"
      using grp0(1)
      by (auto simp: stGroupModuleInfo_def info_entry_def yfy_data_store_def Let_def)
    then have "yfy_data_parse dev cmd addr pdata st = None"
      using parse_group [OF grp0(1-3), of pdata st] grp0(4) by simp
    with grp0 show ?thesis by simp
  next
    case grp
    have idx: "unat (addr - 1) < GROUP_MODULE_NUM"
      using grp(5) group_index [OF grp(4)] by (simp add: GROUP_MODULE_NUM_def)
    from group_unpacked [OF assms(1,2) grp(1) idx]
    obtain b d where "yfy_data_parse dev cmd addr pdata st = Some (b, st\<lparr>stGroupModuleData := d\<rparr>)" "group_data_wf d"
      unfolding parse_group [OF grp(1-3)] using grp(5) by (simp only: not_less [symmetric] if_False) blast
    with grp(4) show ?thesis using yfy_wf_update(3) [OF assms(1)] by simp
  qed
qed

theorem yfy_parse_fault_iff_witness:
  "yfy_data_parse GROUP_DEVICE_ID 1 0 [1, 2, 3, 4, 5, 6, 7, 8] yfy_sample = None \<and>
   yfy_data_parse DEVICE_ID 1 0 [1, 2, 3, 4, 5, 6, 7, 8] yfy_sample \<noteq> None"
proof -
  have "length [1, 2, 3, 4, 5, 6, 7, 8 :: u8] = 8" "DEVICE_ID \<noteq> GROUP_DEVICE_ID"
    by (simp_all add: DEVICE_ID_def GROUP_DEVICE_ID_def)
  then show ?thesis
    using yfy_parse_fault_iff [OF yfy_sample_facts(1) _ yfy_sample_facts(2), of "[1, 2, 3, 4, 5, 6, 7, 8]"]
    by (metis)
qed

section \<open>The online check and the receive task\<close>

text \<open>Both branches of the code's time difference are subtraction modulo $2^{32}$.\<close>

lemma time_since_wraps: "time_since now before = now - before"
  by (simp add: time_since_def)

lemma module_online_check_run:
  assumes "time (module_handle st) = Some clock"
  shows "module_online_check st = Some (
     if 1000 \<le> fst (clock (env st)) - last_check_time st
     then st\<lparr>env := snd (clock (env st)), last_check_time := fst (clock (env st)),
            stModuleOnlineInfo := map (online_refresh (fst (clock (env st)))) (stModuleOnlineInfo st)\<rparr>
     else st\<lparr>env := snd (clock (env st))\<rparr>)"
  using assms by (simp add: module_online_check_def Let_def split_beta time_since_wraps)

text \<open>The online check, whatever the wrap-around of the millisecond counter. When at
  least 1000 ms have passed since the last check, measured modulo $2^{32}$, a module is online
  afterwards exactly if it was online and its last frame is less than 5000 ms old (again modulo
  $2^{32}$), and no other member of any entry changes; otherwise the table is not touched.\<close>

theorem module_online_check_correct:
  assumes "time (module_handle st) = Some clock" and "i < length (stModuleOnlineInfo st)"
  shows "\<exists>st'. module_online_check st = Some st' \<and>
     length (stModuleOnlineInfo st') = length (stModuleOnlineInfo st) \<and>
     (let now = fst (clock (env st)); old = stModuleOnlineInfo st ! i
      in stModuleOnlineInfo st' ! i =
           (if 1000 \<le> now - last_check_time st
            then old\<lparr>is_online := is_online old \<and> now - last_online_time old < 5000\<rparr> else old) \<and>
         last_check_time st' = (if 1000 \<le> now - last_check_time st then now else last_check_time st))"
  unfolding module_online_check_run [OF assms(1)]
  using assms(2) by (auto simp: Let_def online_refresh_def time_since_wraps MODULE_OFFLINE_TIME_def not_le not_less)

text \<open>The counter wrapped between the last frame (at $2^{32} - 1000$) and the check (at 4000).\<close>

definition yfy_wrapped :: "u32 yfy_state" where
  "yfy_wrapped = (yfy_module_handle_init None None (Some (\<lambda>e. (e, e))) (yfy_static 4000))
     \<lparr>last_check_time := 0xFFFFFC18,
      stModuleOnlineInfo := [\<lparr>oi_module_addr = 0, last_online_time = 0xFFFFFC18, is_online = True\<rparr>,
        \<lparr>oi_module_addr = 1, last_online_time = 0xFFFFFC19, is_online = True\<rparr>]\<rparr>"

theorem module_online_check_correct_witness:
  "\<exists>st'. module_online_check yfy_wrapped = Some st' \<and>
     \<not> is_online (stModuleOnlineInfo st' ! 0) \<and> last_check_time st' = 4000"
proof -
  have t: "time (module_handle yfy_wrapped) = Some (\<lambda>e. (e, e))" "0 < length (stModuleOnlineInfo yfy_wrapped)"
    "env yfy_wrapped = 4000" "last_check_time yfy_wrapped = 0xFFFFFC18"
    "stModuleOnlineInfo yfy_wrapped ! 0 = \<lparr>oi_module_addr = 0, last_online_time = 0xFFFFFC18, is_online = True\<rparr>"
    by (simp_all add: yfy_wrapped_def yfy_module_handle_init_def yfy_static_def)
  from module_online_check_correct [OF t(1,2)] show ?thesis
    unfolding Let_def t by auto
qed

text \<open>The identifier the receive task passes on is always 0: a frame of a module 0 and a command
  no table has.\<close>

lemma parse_ident_zero:
  assumes "time (module_handle st) = Some clock"
  shows "yfy_data_parse 0 0 0 pdata st = Some (False,
      st\<lparr>env := snd (clock (env st)), stModuleOnlineInfo := (stModuleOnlineInfo st)[0 :=
          \<lparr>oi_module_addr = 0, last_online_time = fst (clock (env st)), is_online = True\<rparr>]\<rparr>)"
  using assms
  by (simp add: yfy_data_parse_def Let_def split_beta MODULE_NUM_def stModuleInfo_def info_entry_def)

lemma ident_zero: "YFY_EXTRACT_DEVICE_ID 0 = 0" "YFY_EXTRACT_CMD 0 = 0" "YFY_EXTRACT_SRC_ADDR 0 = 0"
  by (simp_all add: YFY_EXTRACT_DEVICE_ID_def YFY_EXTRACT_CMD_def YFY_EXTRACT_SRC_ADDR_def)

lemma process_loop_data:
  assumes "time (module_handle st) = Some clock"
  shows "\<exists>st'. process_loop n rcv 0 pdata st = Some st' \<and>
     module_handle st' = module_handle st \<and> stModuleData st' = stModuleData st \<and>
     stGroupModuleData st' = stGroupModuleData st \<and> stSysModuleData st' = stSysModuleData st \<and>
     tl (stModuleOnlineInfo st') = tl (stModuleOnlineInfo st)"
  using assms
proof (induction n arbitrary: pdata st)
  case 0
  then show ?case by simp
next
  case (Suc n)
  obtain got pdata' e' where r: "rcv 0 pdata (env st) = (got, pdata', e')" by (cases "rcv 0 pdata (env st)") auto
  let ?st1 = "st\<lparr>env := e'\<rparr>"
  let ?st2 = "?st1\<lparr>env := snd (clock e'), stModuleOnlineInfo := (stModuleOnlineInfo st)[0 :=
          \<lparr>oi_module_addr = 0, last_online_time = fst (clock e'), is_online = True\<rparr>]\<rparr>"
  have "yfy_data_parse 0 0 0 pdata' ?st1 = Some (False, ?st2)"
    using parse_ident_zero [of ?st1 clock pdata'] Suc.prems by simp
  then have step: "process_loop (Suc n) rcv 0 pdata st =
      (if got then process_loop n rcv 0 pdata' ?st2 else Some ?st1)"
    by (simp add: r ident_zero)
  have "tl ((stModuleOnlineInfo st)[0 := x]) = tl (stModuleOnlineInfo st)" for x
    by (cases "stModuleOnlineInfo st") simp_all
  then show ?case
    using Suc.IH [of ?st2 pdata'] Suc.prems unfolding step by simp
qed

text \<open>Claim C28: the receive task never decodes a frame. Whatever \<open>recv\<close> delivers, the identifier
  is passed to it by value and as a byte, so the task always sees identifier 0: no measurement of
  any module, group or the system ever changes, and of the online table at most entry 0 is
  refreshed, all other entries being those the online check leaves. Without a \<open>recv\<close> callback
  the task does nothing at all, not even the online check: \<^verbatim>\<open>yfy_data.c\<close> returns at once, although
  \<^verbatim>\<open>test/test_overflow_handling.c\<close> installs no \<open>recv\<close> and expects modules to go offline.\<close>

theorem yfy_process_never_decodes:
  assumes "time (module_handle st) = Some clock"
  shows "\<exists>st' st1. yfy_process_data st = Some st' \<and> module_online_check st = Some st1 \<and>
     stModuleData st' = stModuleData st \<and> stGroupModuleData st' = stGroupModuleData st \<and>
     stSysModuleData st' = stSysModuleData st \<and>
     (if recv (module_handle st) = None then st' = st
      else tl (stModuleOnlineInfo st') = tl (stModuleOnlineInfo st1))"
proof (cases "recv (module_handle st)")
  case None
  then show ?thesis
    using module_online_check_run [OF assms] by (simp add: yfy_process_data_def)
next
  case (Some rcv)
  obtain st1 where st1: "module_online_check st = Some st1" "time (module_handle st1) = Some clock"
      "stModuleData st1 = stModuleData st" "stGroupModuleData st1 = stGroupModuleData st"
      "stSysModuleData st1 = stSysModuleData st"
    using module_online_check_run [OF assms] assms by simp
  from process_loop_data [OF st1(2), of 10 rcv "replicate 8 0"] st1 Some
  show ?thesis unfolding yfy_process_data_def by auto
qed

theorem yfy_process_never_decodes_witness:
  "\<exists>st'. yfy_process_data (yfy_module_handle_init None (Some (\<lambda>ident pdata e. (True, replicate 8 0xFF, e)))
       (Some (\<lambda>e. (e, e))) (yfy_static 7)) = Some st' \<and>
     stModuleData st' = stModuleData_zero"
proof -
  let ?st = "yfy_module_handle_init None (Some (\<lambda>ident pdata e. (True, replicate 8 0xFF, e)))
       (Some (\<lambda>e. (e, e))) (yfy_static 7)"
  have "time (module_handle ?st) = Some (\<lambda>e. (e, e))" "stModuleData ?st = stModuleData_zero"
    by (simp_all add: yfy_module_handle_init_def yfy_static_def)
  with yfy_process_never_decodes [OF this(1)] show ?thesis by metis
qed

end
