(* ===== verification/YfyInterface.thy ===== *)
theory YfyInterface
  imports YfyParse
begin

text \<open>
  The client interface of the YFY library, \<^verbatim>\<open>src/Lib/converter/yfy/yfy_interface.c\<close>:
  the getters over the decoded measurements and the functions that send read and set
  commands. A result pointer is an option, \<open>None\<close> for a null pointer and otherwise the object
  it points to; the returned pair is the answer and the object afterwards. A \<open>float\<close> is its
  32-bit representation: the library only copies it. A read outside an array is \<open>None\<close>.
\<close>

section \<open>Getters\<close>

definition is_valid_module_addr :: "u8 \<Rightarrow> bool" where
  "is_valid_module_addr module_addr \<longleftrightarrow> unat module_addr < MODULE_NUM"

definition is_valid_group_num :: "u8 \<Rightarrow> bool" where
  "is_valid_group_num group_num \<longleftrightarrow> group_num \<ge> 1 \<and> unat group_num \<le> GROUP_MODULE_NUM"

text \<open>The body all getters share: the null check, the range check, then the copy.\<close>

definition get_checked :: "bool \<Rightarrow> 'a option \<Rightarrow> 'a option \<Rightarrow> (bool \<times> 'a option) option" where
  "get_checked valid out value =
     (case out of
        None \<Rightarrow> Some (False, None)
      | Some old \<Rightarrow>
          if \<not> valid then Some (False, Some old)
          else (case value of None \<Rightarrow> None | Some v \<Rightarrow> Some (True, Some v)))"

definition array_read :: "nat \<Rightarrow> nat \<Rightarrow> u8 list \<Rightarrow> 'w::len word option" where
  "array_read w i xs = (if i * w + w \<le> length xs then Some (le_word (elem w i xs)) else None)"

definition yfy_get_module_voltage :: "u8 \<Rightarrow> u32 option \<Rightarrow> 'e yfy_state \<Rightarrow> (bool \<times> u32 option) option" where
  "yfy_get_module_voltage module_addr voltage_p st =
     get_checked (is_valid_module_addr module_addr) voltage_p
       (array_read 4 (unat module_addr) (md_voltage (stModuleData st)))"

definition yfy_get_module_current :: "u8 \<Rightarrow> u32 option \<Rightarrow> 'e yfy_state \<Rightarrow> (bool \<times> u32 option) option" where
  "yfy_get_module_current module_addr current_p st =
     get_checked (is_valid_module_addr module_addr) current_p
       (array_read 4 (unat module_addr) (md_current (stModuleData st)))"

definition yfy_get_module_group :: "u8 \<Rightarrow> u8 option \<Rightarrow> 'e yfy_state \<Rightarrow> (bool \<times> u8 option) option" where
  "yfy_get_module_group module_addr group_p st =
     get_checked (is_valid_module_addr module_addr) group_p
       (array_read 1 (unat module_addr) (md_group (stModuleData st)))"

definition yfy_get_module_temp :: "u8 \<Rightarrow> u8 option \<Rightarrow> 'e yfy_state \<Rightarrow> (bool \<times> u8 option) option" where
  "yfy_get_module_temp module_addr temp_p st =
     get_checked (is_valid_module_addr module_addr) temp_p
       (array_read 1 (unat module_addr) (md_temp (stModuleData st)))"

definition yfy_get_module_limit_power :: "u8 \<Rightarrow> u8 option \<Rightarrow> 'e yfy_state \<Rightarrow> (bool \<times> u8 option) option" where
  "yfy_get_module_limit_power module_addr status_p st =
     get_checked (is_valid_module_addr module_addr) status_p
       (array_read 1 (unat module_addr) (md_module_limit_power (stModuleData st)))"

definition yfy_get_module_id_duplicate :: "u8 \<Rightarrow> u8 option \<Rightarrow> 'e yfy_state \<Rightarrow> (bool \<times> u8 option) option" where
  "yfy_get_module_id_duplicate module_addr status_p st =
     get_checked (is_valid_module_addr module_addr) status_p
       (array_read 1 (unat module_addr) (md_module_id_duplicate (stModuleData st)))"

definition yfy_get_module_severe_unbalanced :: "u8 \<Rightarrow> u8 option \<Rightarrow> 'e yfy_state \<Rightarrow> (bool \<times> u8 option) option" where
  "yfy_get_module_severe_unbalanced module_addr status_p st =
     get_checked (is_valid_module_addr module_addr) status_p
       (array_read 1 (unat module_addr) (md_module_severe_unbalanced (stModuleData st)))"

definition yfy_get_three_phase_input_missing :: "u8 \<Rightarrow> u8 option \<Rightarrow> 'e yfy_state \<Rightarrow> (bool \<times> u8 option) option" where
  "yfy_get_three_phase_input_missing module_addr status_p st =
     get_checked (is_valid_module_addr module_addr) status_p
       (array_read 1 (unat module_addr) (md_three_phase_input_missing (stModuleData st)))"

definition yfy_get_three_phase_input_unbalanced :: "u8 \<Rightarrow> u8 option \<Rightarrow> 'e yfy_state \<Rightarrow> (bool \<times> u8 option) option" where
  "yfy_get_three_phase_input_unbalanced module_addr status_p st =
     get_checked (is_valid_module_addr module_addr) status_p
       (array_read 1 (unat module_addr) (md_three_phase_input_unbalanced (stModuleData st)))"

definition yfy_get_input_undervoltage :: "u8 \<Rightarrow> u8 option \<Rightarrow> 'e yfy_state \<Rightarrow> (bool \<times> u8 option) option" where
  "yfy_get_input_undervoltage module_addr status_p st =
     get_checked (is_valid_module_addr module_addr) status_p
       (array_read 1 (unat module_addr) (md_input_undervoltage (stModuleData st)))"

definition yfy_get_input_overvoltage :: "u8 \<Rightarrow> u8 option \<Rightarrow> 'e yfy_state \<Rightarrow> (bool \<times> u8 option) option" where
  "yfy_get_input_overvoltage module_addr status_p st =
     get_checked (is_valid_module_addr module_addr) status_p
       (array_read 1 (unat module_addr) (md_input_overvoltage (stModuleData st)))"

definition yfy_get_module_pfc_fault :: "u8 \<Rightarrow> u8 option \<Rightarrow> 'e yfy_state \<Rightarrow> (bool \<times> u8 option) option" where
  "yfy_get_module_pfc_fault module_addr status_p st =
     get_checked (is_valid_module_addr module_addr) status_p
       (array_read 1 (unat module_addr) (md_module_pfc_fault (stModuleData st)))"

definition yfy_get_module_dc_side_fault :: "u8 \<Rightarrow> u8 option \<Rightarrow> 'e yfy_state \<Rightarrow> (bool \<times> u8 option) option" where
  "yfy_get_module_dc_side_fault module_addr status_p st =
     get_checked (is_valid_module_addr module_addr) status_p
       (array_read 1 (unat module_addr) (md_module_dc_side_fault (stModuleData st)))"

definition yfy_get_module_fault :: "u8 \<Rightarrow> u8 option \<Rightarrow> 'e yfy_state \<Rightarrow> (bool \<times> u8 option) option" where
  "yfy_get_module_fault module_addr status_p st =
     get_checked (is_valid_module_addr module_addr) status_p
       (array_read 1 (unat module_addr) (md_module_fault (stModuleData st)))"

definition yfy_get_module_protection :: "u8 \<Rightarrow> u8 option \<Rightarrow> 'e yfy_state \<Rightarrow> (bool \<times> u8 option) option" where
  "yfy_get_module_protection module_addr status_p st =
     get_checked (is_valid_module_addr module_addr) status_p
       (array_read 1 (unat module_addr) (md_module_protection (stModuleData st)))"

definition yfy_get_fan_fault :: "u8 \<Rightarrow> u8 option \<Rightarrow> 'e yfy_state \<Rightarrow> (bool \<times> u8 option) option" where
  "yfy_get_fan_fault module_addr status_p st =
     get_checked (is_valid_module_addr module_addr) status_p
       (array_read 1 (unat module_addr) (md_fan_fault (stModuleData st)))"

definition yfy_get_over_temp :: "u8 \<Rightarrow> u8 option \<Rightarrow> 'e yfy_state \<Rightarrow> (bool \<times> u8 option) option" where
  "yfy_get_over_temp module_addr status_p st =
     get_checked (is_valid_module_addr module_addr) status_p
       (array_read 1 (unat module_addr) (md_over_temp (stModuleData st)))"

definition yfy_get_output_overvoltage :: "u8 \<Rightarrow> u8 option \<Rightarrow> 'e yfy_state \<Rightarrow> (bool \<times> u8 option) option" where
  "yfy_get_output_overvoltage module_addr status_p st =
     get_checked (is_valid_module_addr module_addr) status_p
       (array_read 1 (unat module_addr) (md_output_overvoltage (stModuleData st)))"

definition yfy_get_walk_in_enable :: "u8 \<Rightarrow> u8 option \<Rightarrow> 'e yfy_state \<Rightarrow> (bool \<times> u8 option) option" where
  "yfy_get_walk_in_enable module_addr status_p st =
     get_checked (is_valid_module_addr module_addr) status_p
       (array_read 1 (unat module_addr) (md_walk_in_enable (stModuleData st)))"

definition yfy_get_module_comm_interrupt :: "u8 \<Rightarrow> u8 option \<Rightarrow> 'e yfy_state \<Rightarrow> (bool \<times> u8 option) option" where
  "yfy_get_module_comm_interrupt module_addr status_p st =
     get_checked (is_valid_module_addr module_addr) status_p
       (array_read 1 (unat module_addr) (md_module_comm_interrupt (stModuleData st)))"

definition yfy_get_output_short_circuit :: "u8 \<Rightarrow> u8 option \<Rightarrow> 'e yfy_state \<Rightarrow> (bool \<times> u8 option) option" where
  "yfy_get_output_short_circuit module_addr status_p st =
     get_checked (is_valid_module_addr module_addr) status_p
       (array_read 1 (unat module_addr) (md_output_short_circuit (stModuleData st)))"

definition yfy_get_module_internal_comm_fault :: "u8 \<Rightarrow> u8 option \<Rightarrow> 'e yfy_state \<Rightarrow> (bool \<times> u8 option) option" where
  "yfy_get_module_internal_comm_fault module_addr status_p st =
     get_checked (is_valid_module_addr module_addr) status_p
       (array_read 1 (unat module_addr) (md_module_internal_comm_fault (stModuleData st)))"

definition yfy_get_input_or_bus_abnormal :: "u8 \<Rightarrow> u8 option \<Rightarrow> 'e yfy_state \<Rightarrow> (bool \<times> u8 option) option" where
  "yfy_get_input_or_bus_abnormal module_addr status_p st =
     get_checked (is_valid_module_addr module_addr) status_p
       (array_read 1 (unat module_addr) (md_input_or_bus_abnormal (stModuleData st)))"

definition yfy_get_module_sleep :: "u8 \<Rightarrow> u8 option \<Rightarrow> 'e yfy_state \<Rightarrow> (bool \<times> u8 option) option" where
  "yfy_get_module_sleep module_addr status_p st =
     get_checked (is_valid_module_addr module_addr) status_p
       (array_read 1 (unat module_addr) (md_module_sleep (stModuleData st)))"

definition yfy_get_module_discharge_abnormal :: "u8 \<Rightarrow> u8 option \<Rightarrow> 'e yfy_state \<Rightarrow> (bool \<times> u8 option) option" where
  "yfy_get_module_discharge_abnormal module_addr status_p st =
     get_checked (is_valid_module_addr module_addr) status_p
       (array_read 1 (unat module_addr) (md_module_discharge_abnormal (stModuleData st)))"

definition yfy_get_ac_input_voltage_ab :: "u8 \<Rightarrow> u16 option \<Rightarrow> 'e yfy_state \<Rightarrow> (bool \<times> u16 option) option" where
  "yfy_get_ac_input_voltage_ab module_addr voltage_p st =
     get_checked (is_valid_module_addr module_addr) voltage_p
       (array_read 2 (unat module_addr) (md_ac_input_voltage_ab (stModuleData st)))"

definition yfy_get_ac_input_voltage_bc :: "u8 \<Rightarrow> u16 option \<Rightarrow> 'e yfy_state \<Rightarrow> (bool \<times> u16 option) option" where
  "yfy_get_ac_input_voltage_bc module_addr voltage_p st =
     get_checked (is_valid_module_addr module_addr) voltage_p
       (array_read 2 (unat module_addr) (md_ac_input_voltage_bc (stModuleData st)))"

definition yfy_get_ac_input_voltage_ca :: "u8 \<Rightarrow> u16 option \<Rightarrow> 'e yfy_state \<Rightarrow> (bool \<times> u16 option) option" where
  "yfy_get_ac_input_voltage_ca module_addr voltage_p st =
     get_checked (is_valid_module_addr module_addr) voltage_p
       (array_read 2 (unat module_addr) (md_ac_input_voltage_ca (stModuleData st)))"

definition yfy_get_max_voltage :: "u8 \<Rightarrow> u16 option \<Rightarrow> 'e yfy_state \<Rightarrow> (bool \<times> u16 option) option" where
  "yfy_get_max_voltage module_addr voltage_p st =
     get_checked (is_valid_module_addr module_addr) voltage_p
       (array_read 2 (unat module_addr) (md_max_voltage (stModuleData st)))"

definition yfy_get_min_voltage :: "u8 \<Rightarrow> u16 option \<Rightarrow> 'e yfy_state \<Rightarrow> (bool \<times> u16 option) option" where
  "yfy_get_min_voltage module_addr voltage_p st =
     get_checked (is_valid_module_addr module_addr) voltage_p
       (array_read 2 (unat module_addr) (md_min_voltage (stModuleData st)))"

definition yfy_get_max_current :: "u8 \<Rightarrow> u16 option \<Rightarrow> 'e yfy_state \<Rightarrow> (bool \<times> u16 option) option" where
  "yfy_get_max_current module_addr current_p st =
     get_checked (is_valid_module_addr module_addr) current_p
       (array_read 2 (unat module_addr) (md_max_current (stModuleData st)))"

definition yfy_get_max_power :: "u8 \<Rightarrow> u16 option \<Rightarrow> 'e yfy_state \<Rightarrow> (bool \<times> u16 option) option" where
  "yfy_get_max_power module_addr power_p st =
     get_checked (is_valid_module_addr module_addr) power_p
       (array_read 2 (unat module_addr) (md_max_power (stModuleData st)))"

definition yfy_get_external_voltage :: "u8 \<Rightarrow> u16 option \<Rightarrow> 'e yfy_state \<Rightarrow> (bool \<times> u16 option) option" where
  "yfy_get_external_voltage module_addr voltage_p st =
     get_checked (is_valid_module_addr module_addr) voltage_p
       (array_read 2 (unat module_addr) (md_external_voltage (stModuleData st)))"

definition yfy_get_max_output_current :: "u8 \<Rightarrow> u16 option \<Rightarrow> 'e yfy_state \<Rightarrow> (bool \<times> u16 option) option" where
  "yfy_get_max_output_current module_addr current_p st =
     get_checked (is_valid_module_addr module_addr) current_p
       (array_read 2 (unat module_addr) (md_max_output_current (stModuleData st)))"

definition yfy_get_group_voltage :: "u8 \<Rightarrow> u32 option \<Rightarrow> 'e yfy_state \<Rightarrow> (bool \<times> u32 option) option" where
  "yfy_get_group_voltage group_num voltage_p st =
     get_checked (is_valid_group_num group_num) voltage_p
       (array_read 4 (unat group_num - 1) (gd_voltage (stGroupModuleData st)))"

definition yfy_get_group_current :: "u8 \<Rightarrow> u32 option \<Rightarrow> 'e yfy_state \<Rightarrow> (bool \<times> u32 option) option" where
  "yfy_get_group_current group_num current_p st =
     get_checked (is_valid_group_num group_num) current_p
       (array_read 4 (unat group_num - 1) (gd_current (stGroupModuleData st)))"

definition yfy_get_group_module_num :: "u8 \<Rightarrow> u8 option \<Rightarrow> 'e yfy_state \<Rightarrow> (bool \<times> u8 option) option" where
  "yfy_get_group_module_num group_num module_num_p st =
     get_checked (is_valid_group_num group_num) module_num_p
       (array_read 1 (unat group_num - 1) (gd_module_num (stGroupModuleData st)))"

definition yfy_get_module_addr_mode :: "u8 \<Rightarrow> u8 option \<Rightarrow> 'e yfy_state \<Rightarrow> (bool \<times> u8 option) option" where
  "yfy_get_module_addr_mode module_addr addr_mode_p st =
     get_checked (is_valid_module_addr module_addr) addr_mode_p
       (array_read 1 (unat module_addr) (md_addr_modeL (stModuleData st)))"

definition yfy_get_sys_voltage :: "u32 option \<Rightarrow> 'e yfy_state \<Rightarrow> (bool \<times> u32 option) option" where
  "yfy_get_sys_voltage voltage_p st = get_checked True voltage_p (array_read 4 0 (sd_voltage (stSysModuleData st)))"

definition yfy_get_sys_current :: "u32 option \<Rightarrow> 'e yfy_state \<Rightarrow> (bool \<times> u32 option) option" where
  "yfy_get_sys_current current_p st = get_checked True current_p (array_read 4 0 (sd_current (stSysModuleData st)))"

definition yfy_get_sys_module_num :: "u8 option \<Rightarrow> 'e yfy_state \<Rightarrow> (bool \<times> u8 option) option" where
  "yfy_get_sys_module_num module_num_p st = get_checked True module_num_p (array_read 1 0 (sd_module_num (stSysModuleData st)))"


definition yfy_module_is_online :: "u8 \<Rightarrow> 'e yfy_state \<Rightarrow> bool option" where
  "yfy_module_is_online module_addr st =
     (if unat module_addr \<ge> MODULE_NUM then Some False
      else if unat module_addr < length (stModuleOnlineInfo st)
      then Some (is_online (stModuleOnlineInfo st ! unat module_addr)) else None)"

section \<open>Commands\<close>

text \<open>The payload \<open>uint8_t pdata[8] = {0}\<close> with its first byte, or its two halves, set.\<close>

definition set_payload :: "u8 \<Rightarrow> u8 list" where
  "set_payload b = (replicate 8 0)[0 := b]"

definition output_payload :: "u32 \<Rightarrow> u32 \<Rightarrow> u8 list" where
  "output_payload volt current = store_at 4 (le_bytes 4 current) (store_at 0 (le_bytes 4 volt) (replicate 8 0))"

definition yfy_send_read_sys_output :: "'e yfy_state \<Rightarrow> 'e yfy_state" where
  "yfy_send_read_sys_output st = yfy_send_read_cmd DEVICE_ID 0x01 BROADCAST_ADDR st"

definition yfy_send_read_sys_module_num :: "'e yfy_state \<Rightarrow> 'e yfy_state" where
  "yfy_send_read_sys_module_num st = yfy_send_read_cmd DEVICE_ID 0x02 BROADCAST_ADDR st"

definition yfy_send_read_group_output :: "u8 \<Rightarrow> 'e yfy_state \<Rightarrow> 'e yfy_state" where
  "yfy_send_read_group_output module_addr st = yfy_send_read_cmd GROUP_DEVICE_ID 0x01 module_addr st"

definition yfy_send_read_group_module_num :: "u8 \<Rightarrow> 'e yfy_state \<Rightarrow> 'e yfy_state" where
  "yfy_send_read_group_module_num module_addr st = yfy_send_read_cmd GROUP_DEVICE_ID 0x02 module_addr st"

definition yfy_send_read_single_output :: "u8 \<Rightarrow> 'e yfy_state \<Rightarrow> 'e yfy_state" where
  "yfy_send_read_single_output module_addr st = yfy_send_read_cmd DEVICE_ID 0x03 module_addr st"

definition yfy_send_read_single_output_by_group :: "u8 \<Rightarrow> 'e yfy_state \<Rightarrow> 'e yfy_state" where
  "yfy_send_read_single_output_by_group group_num st = yfy_send_read_cmd GROUP_DEVICE_ID 0x03 group_num st"

definition yfy_send_read_single_info_1 :: "u8 \<Rightarrow> 'e yfy_state \<Rightarrow> 'e yfy_state" where
  "yfy_send_read_single_info_1 module_addr st = yfy_send_read_cmd DEVICE_ID 0x04 module_addr st"

definition yfy_send_read_single_info_1_by_group :: "u8 \<Rightarrow> 'e yfy_state \<Rightarrow> 'e yfy_state" where
  "yfy_send_read_single_info_1_by_group group_num st = yfy_send_read_cmd GROUP_DEVICE_ID 0x04 group_num st"

definition yfy_send_read_single_info_2 :: "u8 \<Rightarrow> 'e yfy_state \<Rightarrow> 'e yfy_state" where
  "yfy_send_read_single_info_2 module_addr st = yfy_send_read_cmd DEVICE_ID 0x06 module_addr st"

definition yfy_send_read_single_info_2_by_group :: "u8 \<Rightarrow> 'e yfy_state \<Rightarrow> 'e yfy_state" where
  "yfy_send_read_single_info_2_by_group group_num st = yfy_send_read_cmd GROUP_DEVICE_ID 0x06 group_num st"

definition yfy_send_read_single_info_3 :: "u8 \<Rightarrow> 'e yfy_state \<Rightarrow> 'e yfy_state" where
  "yfy_send_read_single_info_3 module_addr st = yfy_send_read_cmd DEVICE_ID 0x0A module_addr st"

definition yfy_send_read_single_info_3_by_group :: "u8 \<Rightarrow> 'e yfy_state \<Rightarrow> 'e yfy_state" where
  "yfy_send_read_single_info_3_by_group group_num st = yfy_send_read_cmd GROUP_DEVICE_ID 0x0A group_num st"

definition yfy_send_read_single_info_4 :: "u8 \<Rightarrow> 'e yfy_state \<Rightarrow> 'e yfy_state" where
  "yfy_send_read_single_info_4 module_addr st = yfy_send_read_cmd DEVICE_ID 0x0B module_addr st"

definition yfy_send_read_single_info_4_by_group :: "u8 \<Rightarrow> 'e yfy_state \<Rightarrow> 'e yfy_state" where
  "yfy_send_read_single_info_4_by_group group_num st = yfy_send_read_cmd GROUP_DEVICE_ID 0x0B group_num st"

definition yfy_send_read_single_info_5 :: "u8 \<Rightarrow> 'e yfy_state \<Rightarrow> 'e yfy_state" where
  "yfy_send_read_single_info_5 module_addr st = yfy_send_read_cmd DEVICE_ID 0x0C module_addr st"

definition yfy_send_read_single_info_5_by_group :: "u8 \<Rightarrow> 'e yfy_state \<Rightarrow> 'e yfy_state" where
  "yfy_send_read_single_info_5_by_group group_num st = yfy_send_read_cmd GROUP_DEVICE_ID 0x0C group_num st"

definition yfy_send_write_sys_WalkIn :: "bool \<Rightarrow> 'e yfy_state \<Rightarrow> 'e yfy_state" where
  "yfy_send_write_sys_WalkIn enable st = yfy_send_write_cmd DEVICE_ID 0x13 BROADCAST_ADDR (set_payload (of_bool enable)) st"

definition yfy_send_write_WalkIn_by_group :: "u8 \<Rightarrow> bool \<Rightarrow> 'e yfy_state \<Rightarrow> 'e yfy_state" where
  "yfy_send_write_WalkIn_by_group group_num enable st = yfy_send_write_cmd GROUP_DEVICE_ID 0x13 group_num (set_payload (of_bool enable)) st"

definition yfy_send_write_single_WalkIn :: "u8 \<Rightarrow> bool \<Rightarrow> 'e yfy_state \<Rightarrow> 'e yfy_state" where
  "yfy_send_write_single_WalkIn module_addr enable st = yfy_send_write_cmd DEVICE_ID 0x13 module_addr (set_payload (of_bool enable)) st"

definition yfy_send_write_sys_green_led_blink :: "bool \<Rightarrow> 'e yfy_state \<Rightarrow> 'e yfy_state" where
  "yfy_send_write_sys_green_led_blink enable st = yfy_send_write_cmd DEVICE_ID 0x14 BROADCAST_ADDR (set_payload (of_bool enable)) st"

definition yfy_send_write_green_led_blink_by_group :: "u8 \<Rightarrow> bool \<Rightarrow> 'e yfy_state \<Rightarrow> 'e yfy_state" where
  "yfy_send_write_green_led_blink_by_group group_num enable st = yfy_send_write_cmd GROUP_DEVICE_ID 0x14 group_num (set_payload (of_bool enable)) st"

definition yfy_send_write_single_green_led_blink :: "u8 \<Rightarrow> bool \<Rightarrow> 'e yfy_state \<Rightarrow> 'e yfy_state" where
  "yfy_send_write_single_green_led_blink module_addr enable st = yfy_send_write_cmd DEVICE_ID 0x14 module_addr (set_payload (of_bool enable)) st"

definition yfy_send_write_sys_group_num :: "u8 \<Rightarrow> 'e yfy_state \<Rightarrow> 'e yfy_state" where
  "yfy_send_write_sys_group_num group_num st = yfy_send_write_cmd DEVICE_ID 0x16 BROADCAST_ADDR (set_payload group_num) st"

definition yfy_send_write_group_num_by_group :: "u8 \<Rightarrow> u8 \<Rightarrow> 'e yfy_state \<Rightarrow> 'e yfy_state" where
  "yfy_send_write_group_num_by_group group_num new_group_num st = yfy_send_write_cmd GROUP_DEVICE_ID 0x16 group_num (set_payload new_group_num) st"

definition yfy_send_write_single_group_num :: "u8 \<Rightarrow> u8 \<Rightarrow> 'e yfy_state \<Rightarrow> 'e yfy_state" where
  "yfy_send_write_single_group_num module_addr group_num st = yfy_send_write_cmd DEVICE_ID 0x16 module_addr (set_payload group_num) st"

definition yfy_send_write_sys_sleep :: "bool \<Rightarrow> 'e yfy_state \<Rightarrow> 'e yfy_state" where
  "yfy_send_write_sys_sleep enable st = yfy_send_write_cmd DEVICE_ID 0x19 BROADCAST_ADDR (set_payload (of_bool enable)) st"

definition yfy_send_write_sleep_by_group :: "u8 \<Rightarrow> bool \<Rightarrow> 'e yfy_state \<Rightarrow> 'e yfy_state" where
  "yfy_send_write_sleep_by_group group_num enable st = yfy_send_write_cmd GROUP_DEVICE_ID 0x19 group_num (set_payload (of_bool enable)) st"

definition yfy_send_write_single_sleep :: "u8 \<Rightarrow> bool \<Rightarrow> 'e yfy_state \<Rightarrow> 'e yfy_state" where
  "yfy_send_write_single_sleep module_addr enable st = yfy_send_write_cmd DEVICE_ID 0x19 module_addr (set_payload (of_bool enable)) st"

definition yfy_send_write_sys_work :: "bool \<Rightarrow> 'e yfy_state \<Rightarrow> 'e yfy_state" where
  "yfy_send_write_sys_work enable st = yfy_send_write_cmd DEVICE_ID 0x1A BROADCAST_ADDR (set_payload (of_bool enable)) st"

definition yfy_send_write_work_by_group :: "u8 \<Rightarrow> bool \<Rightarrow> 'e yfy_state \<Rightarrow> 'e yfy_state" where
  "yfy_send_write_work_by_group group_num enable st = yfy_send_write_cmd GROUP_DEVICE_ID 0x1A group_num (set_payload (of_bool enable)) st"

definition yfy_send_write_single_work :: "u8 \<Rightarrow> bool \<Rightarrow> 'e yfy_state \<Rightarrow> 'e yfy_state" where
  "yfy_send_write_single_work module_addr enable st = yfy_send_write_cmd DEVICE_ID 0x1A module_addr (set_payload (of_bool enable)) st"

definition yfy_send_write_sys_output_all :: "u32 \<Rightarrow> u32 \<Rightarrow> 'e yfy_state \<Rightarrow> 'e yfy_state" where
  "yfy_send_write_sys_output_all volt current st = yfy_send_write_cmd DEVICE_ID 0x1B BROADCAST_ADDR (output_payload volt current) st"

definition yfy_send_write_output_all_by_group :: "u8 \<Rightarrow> u32 \<Rightarrow> u32 \<Rightarrow> 'e yfy_state \<Rightarrow> 'e yfy_state" where
  "yfy_send_write_output_all_by_group group_num volt current st = yfy_send_write_cmd GROUP_DEVICE_ID 0x1B group_num (output_payload volt current) st"

definition yfy_send_write_sys_output :: "u32 \<Rightarrow> u32 \<Rightarrow> 'e yfy_state \<Rightarrow> 'e yfy_state" where
  "yfy_send_write_sys_output volt current st = yfy_send_write_cmd DEVICE_ID 0x1C BROADCAST_ADDR (output_payload volt current) st"

definition yfy_send_write_output_by_group :: "u8 \<Rightarrow> u32 \<Rightarrow> u32 \<Rightarrow> 'e yfy_state \<Rightarrow> 'e yfy_state" where
  "yfy_send_write_output_by_group group_num volt current st = yfy_send_write_cmd GROUP_DEVICE_ID 0x1C group_num (output_payload volt current) st"

definition yfy_send_write_single_output :: "u8 \<Rightarrow> u32 \<Rightarrow> u32 \<Rightarrow> 'e yfy_state \<Rightarrow> 'e yfy_state" where
  "yfy_send_write_single_output module_addr volt current st = yfy_send_write_cmd DEVICE_ID 0x1C module_addr (output_payload volt current) st"

definition yfy_send_write_sys_addr_model :: "u8 \<Rightarrow> 'e yfy_state \<Rightarrow> 'e yfy_state" where
  "yfy_send_write_sys_addr_model model st = yfy_send_write_cmd DEVICE_ID 0x1F BROADCAST_ADDR (set_payload model) st"

definition yfy_send_write_addr_model_by_group :: "u8 \<Rightarrow> u8 \<Rightarrow> 'e yfy_state \<Rightarrow> 'e yfy_state" where
  "yfy_send_write_addr_model_by_group group_num model st = yfy_send_write_cmd GROUP_DEVICE_ID 0x1F group_num (set_payload model) st"

definition yfy_send_write_single_addr_model :: "u8 \<Rightarrow> u8 \<Rightarrow> 'e yfy_state \<Rightarrow> 'e yfy_state" where
  "yfy_send_write_single_addr_model module_addr model st = yfy_send_write_cmd DEVICE_ID 0x1F module_addr (set_payload model) st"

section \<open>The interface as tables\<close>

text \<open>
  The getters of module data by the width of their result, each with the member it is to
  read, and the senders by the shape of their arguments, each with the device number, the
  command and the destination (the argument or the broadcast address) of its frame.
\<close>

definition getters8 :: "(module_field \<times> (u8 \<Rightarrow> u8 option \<Rightarrow> 'e yfy_state \<Rightarrow> (bool \<times> u8 option) option)) list" where
  "getters8 =
    [(F_group, yfy_get_module_group),
     (F_temp, yfy_get_module_temp),
     (F_module_limit_power, yfy_get_module_limit_power),
     (F_module_id_duplicate, yfy_get_module_id_duplicate),
     (F_module_severe_unbalanced, yfy_get_module_severe_unbalanced),
     (F_three_phase_input_missing, yfy_get_three_phase_input_missing),
     (F_three_phase_input_unbalanced, yfy_get_three_phase_input_unbalanced),
     (F_input_undervoltage, yfy_get_input_undervoltage),
     (F_input_overvoltage, yfy_get_input_overvoltage),
     (F_module_pfc_fault, yfy_get_module_pfc_fault),
     (F_module_dc_side_fault, yfy_get_module_dc_side_fault),
     (F_module_fault, yfy_get_module_fault),
     (F_module_protection, yfy_get_module_protection),
     (F_fan_fault, yfy_get_fan_fault),
     (F_over_temp, yfy_get_over_temp),
     (F_output_overvoltage, yfy_get_output_overvoltage),
     (F_walk_in_enable, yfy_get_walk_in_enable),
     (F_module_comm_interrupt, yfy_get_module_comm_interrupt),
     (F_output_short_circuit, yfy_get_output_short_circuit),
     (F_module_internal_comm_fault, yfy_get_module_internal_comm_fault),
     (F_input_or_bus_abnormal, yfy_get_input_or_bus_abnormal),
     (F_module_sleep, yfy_get_module_sleep),
     (F_module_discharge_abnormal, yfy_get_module_discharge_abnormal),
     (F_addr_modeL, yfy_get_module_addr_mode)]"

definition getters16 :: "(module_field \<times> (u8 \<Rightarrow> u16 option \<Rightarrow> 'e yfy_state \<Rightarrow> (bool \<times> u16 option) option)) list" where
  "getters16 =
    [(F_ac_input_voltage_ab, yfy_get_ac_input_voltage_ab),
     (F_ac_input_voltage_bc, yfy_get_ac_input_voltage_bc),
     (F_ac_input_voltage_ca, yfy_get_ac_input_voltage_ca),
     (F_max_voltage, yfy_get_max_voltage),
     (F_min_voltage, yfy_get_min_voltage),
     (F_max_current, yfy_get_max_current),
     (F_max_power, yfy_get_max_power),
     (F_external_voltage, yfy_get_external_voltage),
     (F_max_output_current, yfy_get_max_output_current)]"

definition getters32 :: "(module_field \<times> (u8 \<Rightarrow> u32 option \<Rightarrow> 'e yfy_state \<Rightarrow> (bool \<times> u32 option) option)) list" where
  "getters32 =
    [(F_voltage, yfy_get_module_voltage),
     (F_current, yfy_get_module_current)]"

definition read_senders :: "((u8 \<Rightarrow> 'e yfy_state \<Rightarrow> 'e yfy_state) \<times> u8 \<times> u8 \<times> (u8 \<Rightarrow> u8)) list" where
  "read_senders =
    [(\<lambda>_. yfy_send_read_sys_output, DEVICE_ID, 0x01, \<lambda>_. BROADCAST_ADDR),
     (\<lambda>_. yfy_send_read_sys_module_num, DEVICE_ID, 0x02, \<lambda>_. BROADCAST_ADDR),
     (yfy_send_read_group_output, GROUP_DEVICE_ID, 0x01, \<lambda>a. a),
     (yfy_send_read_group_module_num, GROUP_DEVICE_ID, 0x02, \<lambda>a. a),
     (yfy_send_read_single_output, DEVICE_ID, 0x03, \<lambda>a. a),
     (yfy_send_read_single_output_by_group, GROUP_DEVICE_ID, 0x03, \<lambda>a. a),
     (yfy_send_read_single_info_1, DEVICE_ID, 0x04, \<lambda>a. a),
     (yfy_send_read_single_info_1_by_group, GROUP_DEVICE_ID, 0x04, \<lambda>a. a),
     (yfy_send_read_single_info_2, DEVICE_ID, 0x06, \<lambda>a. a),
     (yfy_send_read_single_info_2_by_group, GROUP_DEVICE_ID, 0x06, \<lambda>a. a),
     (yfy_send_read_single_info_3, DEVICE_ID, 0x0A, \<lambda>a. a),
     (yfy_send_read_single_info_3_by_group, GROUP_DEVICE_ID, 0x0A, \<lambda>a. a),
     (yfy_send_read_single_info_4, DEVICE_ID, 0x0B, \<lambda>a. a),
     (yfy_send_read_single_info_4_by_group, GROUP_DEVICE_ID, 0x0B, \<lambda>a. a),
     (yfy_send_read_single_info_5, DEVICE_ID, 0x0C, \<lambda>a. a),
     (yfy_send_read_single_info_5_by_group, GROUP_DEVICE_ID, 0x0C, \<lambda>a. a)]"

definition flag_senders :: "((u8 \<Rightarrow> bool \<Rightarrow> 'e yfy_state \<Rightarrow> 'e yfy_state) \<times> u8 \<times> u8 \<times> (u8 \<Rightarrow> u8)) list" where
  "flag_senders =
    [(\<lambda>_. yfy_send_write_sys_WalkIn, DEVICE_ID, 0x13, \<lambda>_. BROADCAST_ADDR),
     (yfy_send_write_WalkIn_by_group, GROUP_DEVICE_ID, 0x13, \<lambda>a. a),
     (yfy_send_write_single_WalkIn, DEVICE_ID, 0x13, \<lambda>a. a),
     (\<lambda>_. yfy_send_write_sys_green_led_blink, DEVICE_ID, 0x14, \<lambda>_. BROADCAST_ADDR),
     (yfy_send_write_green_led_blink_by_group, GROUP_DEVICE_ID, 0x14, \<lambda>a. a),
     (yfy_send_write_single_green_led_blink, DEVICE_ID, 0x14, \<lambda>a. a),
     (\<lambda>_. yfy_send_write_sys_sleep, DEVICE_ID, 0x19, \<lambda>_. BROADCAST_ADDR),
     (yfy_send_write_sleep_by_group, GROUP_DEVICE_ID, 0x19, \<lambda>a. a),
     (yfy_send_write_single_sleep, DEVICE_ID, 0x19, \<lambda>a. a),
     (\<lambda>_. yfy_send_write_sys_work, DEVICE_ID, 0x1A, \<lambda>_. BROADCAST_ADDR),
     (yfy_send_write_work_by_group, GROUP_DEVICE_ID, 0x1A, \<lambda>a. a),
     (yfy_send_write_single_work, DEVICE_ID, 0x1A, \<lambda>a. a)]"

definition byte_senders :: "((u8 \<Rightarrow> u8 \<Rightarrow> 'e yfy_state \<Rightarrow> 'e yfy_state) \<times> u8 \<times> u8 \<times> (u8 \<Rightarrow> u8)) list" where
  "byte_senders =
    [(\<lambda>_. yfy_send_write_sys_group_num, DEVICE_ID, 0x16, \<lambda>_. BROADCAST_ADDR),
     (yfy_send_write_group_num_by_group, GROUP_DEVICE_ID, 0x16, \<lambda>a. a),
     (yfy_send_write_single_group_num, DEVICE_ID, 0x16, \<lambda>a. a),
     (\<lambda>_. yfy_send_write_sys_addr_model, DEVICE_ID, 0x1F, \<lambda>_. BROADCAST_ADDR),
     (yfy_send_write_addr_model_by_group, GROUP_DEVICE_ID, 0x1F, \<lambda>a. a),
     (yfy_send_write_single_addr_model, DEVICE_ID, 0x1F, \<lambda>a. a)]"

definition output_senders :: "((u8 \<Rightarrow> u32 \<Rightarrow> u32 \<Rightarrow> 'e yfy_state \<Rightarrow> 'e yfy_state) \<times> u8 \<times> u8 \<times> (u8 \<Rightarrow> u8)) list" where
  "output_senders =
    [(\<lambda>_. yfy_send_write_sys_output_all, DEVICE_ID, 0x1B, \<lambda>_. BROADCAST_ADDR),
     (yfy_send_write_output_all_by_group, GROUP_DEVICE_ID, 0x1B, \<lambda>a. a),
     (\<lambda>_. yfy_send_write_sys_output, DEVICE_ID, 0x1C, \<lambda>_. BROADCAST_ADDR),
     (yfy_send_write_output_by_group, GROUP_DEVICE_ID, 0x1C, \<lambda>a. a),
     (yfy_send_write_single_output, DEVICE_ID, 0x1C, \<lambda>a. a)]"

lemmas getter_defs =
  yfy_get_module_group_def yfy_get_module_temp_def yfy_get_module_limit_power_def
  yfy_get_module_id_duplicate_def yfy_get_module_severe_unbalanced_def
  yfy_get_three_phase_input_missing_def yfy_get_three_phase_input_unbalanced_def
  yfy_get_input_undervoltage_def yfy_get_input_overvoltage_def yfy_get_module_pfc_fault_def
  yfy_get_module_dc_side_fault_def yfy_get_module_fault_def yfy_get_module_protection_def
  yfy_get_fan_fault_def yfy_get_over_temp_def yfy_get_output_overvoltage_def
  yfy_get_walk_in_enable_def yfy_get_module_comm_interrupt_def yfy_get_output_short_circuit_def
  yfy_get_module_internal_comm_fault_def yfy_get_input_or_bus_abnormal_def
  yfy_get_module_sleep_def yfy_get_module_discharge_abnormal_def yfy_get_module_addr_mode_def
  yfy_get_ac_input_voltage_ab_def yfy_get_ac_input_voltage_bc_def
  yfy_get_ac_input_voltage_ca_def yfy_get_max_voltage_def yfy_get_min_voltage_def
  yfy_get_max_current_def yfy_get_max_power_def yfy_get_external_voltage_def
  yfy_get_max_output_current_def yfy_get_module_voltage_def yfy_get_module_current_def

lemmas sender_defs =
  yfy_send_read_sys_output_def yfy_send_read_sys_module_num_def yfy_send_read_group_output_def
  yfy_send_read_group_module_num_def yfy_send_read_single_output_def
  yfy_send_read_single_output_by_group_def yfy_send_read_single_info_1_def
  yfy_send_read_single_info_1_by_group_def yfy_send_read_single_info_2_def
  yfy_send_read_single_info_2_by_group_def yfy_send_read_single_info_3_def
  yfy_send_read_single_info_3_by_group_def yfy_send_read_single_info_4_def
  yfy_send_read_single_info_4_by_group_def yfy_send_read_single_info_5_def
  yfy_send_read_single_info_5_by_group_def yfy_send_write_sys_WalkIn_def
  yfy_send_write_WalkIn_by_group_def yfy_send_write_single_WalkIn_def
  yfy_send_write_sys_green_led_blink_def yfy_send_write_green_led_blink_by_group_def
  yfy_send_write_single_green_led_blink_def yfy_send_write_sys_group_num_def
  yfy_send_write_group_num_by_group_def yfy_send_write_single_group_num_def
  yfy_send_write_sys_sleep_def yfy_send_write_sleep_by_group_def yfy_send_write_single_sleep_def
  yfy_send_write_sys_work_def yfy_send_write_work_by_group_def yfy_send_write_single_work_def
  yfy_send_write_sys_output_all_def yfy_send_write_output_all_by_group_def
  yfy_send_write_sys_output_def yfy_send_write_output_by_group_def
  yfy_send_write_single_output_def yfy_send_write_sys_addr_model_def
  yfy_send_write_addr_model_by_group_def yfy_send_write_single_addr_model_def

section \<open>Getters: library\<close>

lemma array_read_elem:
  assumes "length xs = n * w" and "i < n"
  shows "array_read w i xs = Some (le_word (elem w i xs))"
  using index_fits [OF assms(2), of w] assms(1) by (simp add: array_read_def)

lemma get_checked_cases:
  "get_checked valid None value = Some (False, None)"
  "get_checked False (Some old) value = Some (False, Some old)"
  "get_checked True (Some old) (Some v) = Some (True, Some v)"
  by (simp_all add: get_checked_def)

lemma getters_read_their_member:
  "(f, g8) \<in> set getters8 \<Longrightarrow> module_width f = 1 \<and>
     g8 a o8 st = get_checked (is_valid_module_addr a) o8 (array_read 1 (unat a) (module_get f (stModuleData st)))"
  "(f, g16) \<in> set getters16 \<Longrightarrow> module_width f = 2 \<and>
     g16 a o16 st = get_checked (is_valid_module_addr a) o16 (array_read 2 (unat a) (module_get f (stModuleData st)))"
  "(f, g32) \<in> set getters32 \<Longrightarrow> module_width f = 4 \<and>
     g32 a o32 st = get_checked (is_valid_module_addr a) o32 (array_read 4 (unat a) (module_get f (stModuleData st)))"
  by (auto simp: getters8_def getters16_def getters32_def getter_defs)

text \<open>What a getter of the member \<open>f\<close> is to answer.\<close>

definition module_answer :: "module_field \<Rightarrow> u8 \<Rightarrow> 'w::len word option \<Rightarrow> 'e yfy_state \<Rightarrow> bool \<times> 'w word option" where
  "module_answer f a out st =
     (if out = None \<or> MODULE_NUM \<le> unat a then (False, out)
      else (True, Some (le_word (elem (module_width f) (unat a) (module_get f (stModuleData st))))))"

lemma module_answer_valid:
  assumes "unat a < MODULE_NUM" and "elem (module_width f) (unat a) (module_get f (stModuleData st)) = v"
  shows "module_answer f a (Some old) st = (True, Some (le_word v))"
  using assms by (simp add: module_answer_def)

lemma get_checked_answer:
  fixes out :: "'w::len word option"
  assumes "yfy_wf st"
  shows "get_checked (is_valid_module_addr a) out (array_read (module_width f) (unat a) (module_get f (stModuleData st))) =
    Some (module_answer f a out st)"
proof (cases "unat a < MODULE_NUM")
  case True
  have "length (module_get f (stModuleData st)) = MODULE_NUM * module_width f"
    using assms by (simp add: yfy_wf_def module_data_wf_def)
  from array_read_elem [OF this True, where 'a = 'w] True show ?thesis
    by (cases out) (simp_all add: get_checked_def module_answer_def is_valid_module_addr_def)
next
  case False
  then show ?thesis
    by (cases out) (simp_all add: get_checked_def module_answer_def is_valid_module_addr_def)
qed

lemma getters_answer:
  assumes "yfy_wf st"
  shows "(f, g8) \<in> set getters8 \<Longrightarrow> g8 a o8 st = Some (module_answer f a o8 st)"
    and "(f, g16) \<in> set getters16 \<Longrightarrow> g16 a o16 st = Some (module_answer f a o16 st)"
    and "(f, g32) \<in> set getters32 \<Longrightarrow> g32 a o32 st = Some (module_answer f a o32 st)"
  using getters_read_their_member [of f] get_checked_answer [OF assms, where f = f] by metis+

section \<open>Properties\<close>

text \<open>The getters. On a well-formed library every getter of module data returns, reads
  inside its array, answers false and leaves the result object alone for a null pointer or an
  address of 12 or more, and otherwise answers true and delivers the element of its own member
  for that module; every member has a getter.\<close>

theorem yfy_getters_correct:
  assumes "yfy_wf st"
  shows "(\<forall>(f, g)\<in>set getters8. g a o8 st = Some (module_answer f a o8 st)) \<and>
    (\<forall>(f, g)\<in>set getters16. g a o16 st = Some (module_answer f a o16 st)) \<and>
    (\<forall>(f, g)\<in>set getters32. g a o32 st = Some (module_answer f a o32 st)) \<and>
    set (map fst (getters8 :: (_ \<times> (_ \<Rightarrow> _ \<Rightarrow> 'e yfy_state \<Rightarrow> _)) list)) \<union>
      set (map fst (getters16 :: (_ \<times> (_ \<Rightarrow> _ \<Rightarrow> 'e yfy_state \<Rightarrow> _)) list)) \<union>
      set (map fst (getters32 :: (_ \<times> (_ \<Rightarrow> _ \<Rightarrow> 'e yfy_state \<Rightarrow> _)) list)) = UNIV"
proof (intro conjI)
  show "set (map fst getters8) \<union> set (map fst getters16) \<union> set (map fst getters32) = UNIV"
  proof (rule UNIV_eq_I [symmetric])
    fix f
    show "f \<in> set (map fst getters8) \<union> set (map fst getters16) \<union> set (map fst getters32)"
      by (cases f) (simp_all add: getters8_def getters16_def getters32_def)
  qed
qed (use getters_answer [OF assms] in auto)

theorem yfy_getters_correct_witness:
  "yfy_get_max_power 11 (Some 9) yfy_sample = Some (True, Some 0) \<and>
   yfy_get_max_power 12 (Some 9) yfy_sample = Some (False, Some 9)"
proof -
  have g: "(F_max_power, yfy_get_max_power) \<in> set getters16" by (simp add: getters16_def)
  have "yfy_get_max_power a (Some 9) yfy_sample = Some (module_answer F_max_power a (Some 9) yfy_sample)" for a
    using yfy_getters_correct [OF yfy_sample_facts(1), of a None "Some 9" None] g by blast
  moreover have "module_answer F_max_power 12 (Some (9 :: u16)) yfy_sample = (False, Some 9)"
    by (simp add: module_answer_def MODULE_NUM_def)
  moreover have "le_nat (elem 2 11 (replicate 24 0)) = 0" by (simp add: elem_def seg_def numeral_eq_Suc)
  then have "module_answer F_max_power 11 (Some (9 :: u16)) yfy_sample = (True, Some 0)"
    by (simp add: module_answer_def MODULE_NUM_def yfy_sample_def yfy_module_handle_init_def yfy_static_def
        stModuleData_zero_def le_word_def)
  ultimately show ?thesis by simp
qed

text \<open>From the wire to the caller. After a frame of module \<open>addr\<close> with a command of the
  module table has been parsed, the getter of every member the command carries answers true and
  delivers the value the frame had for it: the big-endian bytes of the row as a number, or the
  flag bit; and the module is reported online.\<close>

theorem yfy_reply_reaches_getter:
  assumes "yfy_wf st" and "length pdata = 8" and "cmd \<noteq> 1" and "cmd \<noteq> 2"
    and "unat addr < MODULE_NUM" and "time (module_handle st) = Some clock"
    and "e \<in> set stModuleInfo" and "info_cmd e = ucast cmd"
  shows "\<exists>st'. yfy_data_parse dev cmd addr pdata st = Some (True, st') \<and>
     yfy_module_is_online addr st' = Some True \<and>
     (\<forall>g. (info_pdata e, g) \<in> set getters8 \<longrightarrow> g addr (Some old8) st' = Some (True, Some (le_word (entry_value e pdata)))) \<and>
     (\<forall>g. (info_pdata e, g) \<in> set getters16 \<longrightarrow> g addr (Some old16) st' = Some (True, Some (le_word (entry_value e pdata)))) \<and>
     (\<forall>g. (info_pdata e, g) \<in> set getters32 \<longrightarrow> g addr (Some old32) st' = Some (True, Some (le_word (entry_value e pdata))))"
proof -
  let ?st = "st\<lparr>env := snd (clock (env st)), stModuleOnlineInfo := (stModuleOnlineInfo st)[unat addr :=
          \<lparr>oi_module_addr = addr, last_online_time = fst (clock (env st)), is_online = True\<rparr>]\<rparr>"
  have wf: "yfy_wf ?st" by (rule yfy_wf_update(1) [OF assms(1)])
  have ex: "(\<exists>e\<in>set stModuleInfo. info_cmd e = ucast cmd) = True" using assms(7,8) by blast
  from module_unpacked [OF wf assms(2,5), of cmd] obtain d where
    run: "yfy_data_unpack eModuleInfo cmd addr pdata ?st = Some (True, ?st\<lparr>stModuleData := d\<rparr>)"
    and dwf: "module_data_wf d"
    and vals: "\<forall>e\<in>set stModuleInfo. info_cmd e = ucast cmd \<longrightarrow>
      elem (module_width (info_pdata e)) (unat addr) (module_get (info_pdata e) d) = entry_value e pdata"
    unfolding ex by blast
  have val: "elem (module_width (info_pdata e)) (unat addr) (module_get (info_pdata e) d) = entry_value e pdata"
    using vals assms(7,8) by blast
  let ?st' = "?st\<lparr>stModuleData := d\<rparr>"
  have wf': "yfy_wf ?st'" by (rule yfy_wf_update(2) [OF wf dwf])
  have parse: "yfy_data_parse dev cmd addr pdata st = Some (True, ?st')"
    using parse_module [OF assms(3-6)] run by simp
  have "length (stModuleOnlineInfo st) = MODULE_NUM" using assms(1) by (simp add: yfy_wf_def)
  then have online: "yfy_module_is_online addr ?st' = Some True"
    using assms(5) by (simp add: yfy_module_is_online_def)
  have "elem (module_width (info_pdata e)) (unat addr) (module_get (info_pdata e) (stModuleData ?st')) = entry_value e pdata"
    using val by simp
  note answer = module_answer_valid [OF assms(5) this]
  show ?thesis
    by (rule exI [of _ ?st'], intro conjI allI impI parse online)
      (simp_all only: getters_answer(1) [OF wf', of "info_pdata e"] getters_answer(2) [OF wf', of "info_pdata e"]
        getters_answer(3) [OF wf', of "info_pdata e"] answer)
qed

theorem yfy_reply_reaches_getter_witness:
  "\<exists>st'. yfy_data_parse DEVICE_ID 0x03 5 [0x43, 0xFA, 0x00, 0x00, 0x41, 0x20, 0, 0] yfy_sample = Some (True, st') \<and>
     yfy_get_module_voltage 5 (Some 0) st' = Some (True, Some 0x43FA0000)"
proof -
  let ?p = "[0x43, 0xFA, 0x00, 0x00, 0x41, 0x20, 0, 0] :: u8 list"
  let ?e = "info_entry 0x03 0 4 0 0 F_voltage"
  have h: "length ?p = 8" "(3 :: u8) \<noteq> 1" "(3 :: u8) \<noteq> 2" "unat (5 :: u8) < MODULE_NUM"
    by (simp_all add: MODULE_NUM_def)
  have e: "?e \<in> set stModuleInfo" "info_cmd ?e = ucast (3 :: u8)"
    by (simp_all add: stModuleInfo_def info_entry_def)
  have g: "(info_pdata ?e, yfy_get_module_voltage) \<in> set getters32"
    by (simp add: getters32_def info_entry_def)
  have v: "le_word (entry_value ?e ?p) = (0x43FA0000 :: u32)"
    by (simp add: entry_value_def info_entry_def seg_def le_word_def)
  from yfy_reply_reaches_getter [OF yfy_sample_facts(1) h yfy_sample_facts(2) e, of DEVICE_ID 0 0 0] g v
  show ?thesis by metis
qed

section \<open>Commands: library\<close>

text \<open>
  A frame has been handed to the send callback: its identifier carries no error, the given
  device, command and destination, the monitor as the source, and nothing above bit 28.
  Without a callback nothing happens.
\<close>

definition frame_sent :: "u8 \<Rightarrow> u8 \<Rightarrow> u8 \<Rightarrow> u8 list \<Rightarrow> 'e yfy_state \<Rightarrow> 'e yfy_state \<Rightarrow> bool" where
  "frame_sent dev cmd dest payload st st' \<longleftrightarrow>
     (case send (module_handle st) of
        None \<Rightarrow> st' = st
      | Some callback \<Rightarrow> \<exists>ident. st' = st\<lparr>env := snd (callback ident payload (env st))\<rparr> \<and>
          YFY_EXTRACT_ERROR_CODE ident = 0 \<and> YFY_EXTRACT_DEVICE_ID ident = ucast dev \<and>
          YFY_EXTRACT_CMD ident = ucast cmd \<and> YFY_EXTRACT_DEST_ADDR ident = ucast dest \<and>
          YFY_EXTRACT_SRC_ADDR ident = ucast MONITOR_ADDR \<and> take_bit 29 ident = ident)"

lemma take_bit_ucast:
  fixes b :: u8
  assumes "take_bit n b = b" and "n \<le> 8"
  shows "take_bit n (ucast b :: u32) = ucast b"
proof -
  have "take_bit n (ucast b :: u32) = ucast (take_bit n b)"
    using assms(2) by (intro bit_word_eqI) (auto simp: bit_simps)
  then show ?thesis using assms(1) by simp
qed

lemma YFY_SET_ID_fields:
  fixes dev cmd dest :: u8
  assumes "take_bit 4 dev = dev" and "take_bit 6 cmd = cmd"
  defines "ident \<equiv> YFY_SET_ID 0 (ucast dev) (ucast cmd) (ucast dest) (ucast MONITOR_ADDR)"
  shows "YFY_EXTRACT_ERROR_CODE ident = 0" "YFY_EXTRACT_DEVICE_ID ident = ucast dev"
    "YFY_EXTRACT_CMD ident = ucast cmd" "YFY_EXTRACT_DEST_ADDR ident = ucast dest"
    "YFY_EXTRACT_SRC_ADDR ident = ucast MONITOR_ADDR" "take_bit 29 ident = ident"
proof -
  have self: "take_bit 8 b = b" for b :: u8 by (rule bit_word_eqI) (auto simp: bit_simps)
  have d: "take_bit 4 (ucast dev :: u32) = ucast dev" by (rule take_bit_ucast [OF assms(1)]) simp
  have c: "take_bit 6 (ucast cmd :: u32) = ucast cmd" by (rule take_bit_ucast [OF assms(2)]) simp
  have t: "take_bit 8 (ucast dest :: u32) = ucast dest" by (rule take_bit_ucast [OF self]) simp
  have m: "take_bit 8 (ucast MONITOR_ADDR :: u32) = ucast MONITOR_ADDR" by (rule take_bit_ucast [OF self]) simp
  show "YFY_EXTRACT_ERROR_CODE ident = 0" "YFY_EXTRACT_DEVICE_ID ident = ucast dev"
    "YFY_EXTRACT_CMD ident = ucast cmd" "YFY_EXTRACT_DEST_ADDR ident = ucast dest"
    "YFY_EXTRACT_SRC_ADDR ident = ucast MONITOR_ADDR"
    using d c t m yfy_id_fields [of 0 "ucast dev" "ucast cmd" "ucast dest" "ucast MONITOR_ADDR"]
    by (simp_all add: ident_def)
  show "take_bit 29 ident = ident"
    unfolding ident_def YFY_SET_ID_def and_masks by (intro bit_word_eqI) (auto simp: bit_simps)
qed

lemma send_cmd_sent:
  assumes "take_bit 4 dev = dev" and "take_bit 6 cmd = cmd"
  shows "frame_sent dev cmd dest payload st (yfy_send_write_cmd dev cmd dest payload st)"
    and "frame_sent dev cmd dest (replicate 8 0) st (yfy_send_read_cmd dev cmd dest st)"
  unfolding frame_sent_def yfy_send_write_cmd_def yfy_send_read_cmd_def Let_def
  using YFY_SET_ID_fields [OF assms, of dest] by (auto split: option.split)

end
