(* ===== verification/YfyCommands.thy ===== *)
theory YfyCommands
  imports YfyInterface
begin

text \<open>
  The command side of \<^verbatim>\<open>yfy_interface.c\<close>: what each of its 39 senders puts on the bus,
  which replies the decoder understands, and in which byte order set points travel.
\<close>

lemma command_numbers_fit:
  "take_bit 4 DEVICE_ID = DEVICE_ID" "take_bit 4 GROUP_DEVICE_ID = GROUP_DEVICE_ID"
  "take_bit 6 (0x01 :: u8) = 0x01" "take_bit 6 (0x02 :: u8) = 0x02" "take_bit 6 (0x03 :: u8) = 0x03"
  "take_bit 6 (0x04 :: u8) = 0x04" "take_bit 6 (0x06 :: u8) = 0x06" "take_bit 6 (0x0A :: u8) = 0x0A"
  "take_bit 6 (0x0B :: u8) = 0x0B" "take_bit 6 (0x0C :: u8) = 0x0C" "take_bit 6 (0x13 :: u8) = 0x13"
  "take_bit 6 (0x14 :: u8) = 0x14" "take_bit 6 (0x16 :: u8) = 0x16" "take_bit 6 (0x19 :: u8) = 0x19"
  "take_bit 6 (0x1A :: u8) = 0x1A" "take_bit 6 (0x1B :: u8) = 0x1B" "take_bit 6 (0x1C :: u8) = 0x1C"
  "take_bit 6 (0x1F :: u8) = 0x1F"
  by (simp_all add: DEVICE_ID_def GROUP_DEVICE_ID_def)

text \<open>Every sender puts the frame on the bus its name promises: the identifier has the
  device number of a module or of a group, the command of the table, the argument (or the
  broadcast address) as destination and the monitor as source, and decodes back to these; read
  requests carry eight zero bytes, switches and numbers travel in the first byte with seven zero
  bytes behind it, set points as two 32-bit values. Without a send callback nothing changes.\<close>

theorem yfy_senders_frame:
  "(\<forall>(f, dev, cmd, dest)\<in>set read_senders. frame_sent dev cmd (dest a) (replicate 8 0) st (f a st)) \<and>
   (\<forall>(f, dev, cmd, dest)\<in>set flag_senders. frame_sent dev cmd (dest a) (of_bool on # replicate 7 0) st (f a on st)) \<and>
   (\<forall>(f, dev, cmd, dest)\<in>set byte_senders. frame_sent dev cmd (dest a) (b # replicate 7 0) st (f a b st)) \<and>
   (\<forall>(f, dev, cmd, dest)\<in>set output_senders.
      frame_sent dev cmd (dest a) (le_bytes 4 volt @ le_bytes 4 current) st (f a volt current st))"
proof -
  have payload: "set_payload x = x # replicate 7 0" for x by (simp add: set_payload_def numeral_eq_Suc)
  have out: "output_payload volt current = le_bytes 4 volt @ le_bytes 4 current"
    by (simp add: output_payload_def store_at_def)
  have "\<forall>(f, dev, cmd, dest)\<in>set read_senders. frame_sent dev cmd (dest a) (replicate 8 0) st (f a st)"
    unfolding read_senders_def list.set ball_simps prod.case sender_defs
    by (intro conjI send_cmd_sent command_numbers_fit TrueI)
  moreover have "\<forall>(f, dev, cmd, dest)\<in>set flag_senders. frame_sent dev cmd (dest a) (of_bool on # replicate 7 0) st (f a on st)"
    unfolding flag_senders_def list.set ball_simps prod.case sender_defs payload
    by (intro conjI send_cmd_sent command_numbers_fit TrueI)
  moreover have "\<forall>(f, dev, cmd, dest)\<in>set byte_senders. frame_sent dev cmd (dest a) (b # replicate 7 0) st (f a b st)"
    unfolding byte_senders_def list.set ball_simps prod.case sender_defs payload
    by (intro conjI send_cmd_sent command_numbers_fit TrueI)
  moreover have "\<forall>(f, dev, cmd, dest)\<in>set output_senders.
      frame_sent dev cmd (dest a) (le_bytes 4 volt @ le_bytes 4 current) st (f a volt current st)"
    unfolding output_senders_def list.set ball_simps prod.case sender_defs out
    by (intro conjI send_cmd_sent command_numbers_fit TrueI)
  ultimately show ?thesis by blast
qed

text \<open>A bus that records what is sent.\<close>

definition yfy_bus :: "(u32 \<times> u8 list) list yfy_state" where
  "yfy_bus = yfy_module_handle_init (Some (\<lambda>ident p log. (True, log @ [(ident, p)]))) None None (yfy_static [])"

theorem yfy_senders_frame_witness:
  "\<exists>ident. env (yfy_send_write_single_sleep 4 True yfy_bus) = [(ident, [1, 0, 0, 0, 0, 0, 0, 0])] \<and>
     YFY_EXTRACT_CMD ident = 0x19 \<and> YFY_EXTRACT_DEST_ADDR ident = 4"
proof -
  have "(yfy_send_write_single_sleep, DEVICE_ID, 0x19, \<lambda>a. a) \<in> set flag_senders"
    by (simp add: flag_senders_def)
  from bspec [OF conjunct1 [OF conjunct2 [OF yfy_senders_frame [of 4 yfy_bus True 0 0 0]]] this]
  have "frame_sent DEVICE_ID 0x19 4 (of_bool True # replicate 7 0) yfy_bus (yfy_send_write_single_sleep 4 True yfy_bus)"
    by (simp only: prod.case)
  moreover have "replicate 7 (0 :: u8) = [0, 0, 0, 0, 0, 0, 0]" by (simp add: numeral_eq_Suc)
  moreover have "send (module_handle yfy_bus) = Some (\<lambda>ident p log. (True, log @ [(ident, p)]))" "env yfy_bus = []"
    by (simp_all add: yfy_bus_def yfy_module_handle_init_def yfy_static_def)
  ultimately show ?thesis by (auto simp: frame_sent_def)
qed

text \<open>The replies the decoder understands. A reply of a module to a read request of the
  library is decoded, except the replies to \<open>yfy_send_read_single_info_4\<close> (command 0x0B), for
  which the table has no row.\<close>

theorem yfy_read_replies_decoded:
  assumes "yfy_wf st" and "length pdata = 8" and "unat addr < MODULE_NUM"
    and "time (module_handle st) = Some clock"
    and "(f, dev, cmd, dest) \<in> set (read_senders :: ((u8 \<Rightarrow> 'e yfy_state \<Rightarrow> 'e yfy_state) \<times> _) list)"
    and "cmd \<noteq> 1" and "cmd \<noteq> 2"
  shows "\<exists>st'. yfy_data_parse dev cmd addr pdata st = Some (cmd \<noteq> 0x0B, st')"
proof -
  from assms(5-7) have "cmd \<in> {0x03, 0x04, 0x06, 0x0A, 0x0B, 0x0C}" by (auto simp: read_senders_def)
  then have "(\<exists>e\<in>set stModuleInfo. info_cmd e = ucast cmd) = (cmd \<noteq> 0x0B)"
    by (auto simp: stModuleInfo_def info_entry_def)
  from module_unpacked [OF yfy_wf_update(1) [OF assms(1)] assms(2,3), of cmd, unfolded this]
  show ?thesis unfolding parse_module [OF assms(6,7,3,4)] by blast
qed

theorem yfy_read_replies_decoded_witness:
  "\<exists>st'. yfy_data_parse DEVICE_ID 0x0B 0 (replicate 8 1) yfy_sample = Some (False, st')"
proof -
  have "(yfy_send_read_single_info_4, DEVICE_ID, 0x0B, \<lambda>a. a) \<in> set read_senders"
    by (simp add: read_senders_def)
  from yfy_read_replies_decoded [OF yfy_sample_facts(1) _ _ yfy_sample_facts(2) this, of "replicate 8 1" 0]
  show ?thesis by (simp add: MODULE_NUM_def)
qed

text \<open>Set points leave in the byte order of the processor. A module that reads the two
  halves of a set-output frame the way this library reads the frames of the modules, most
  significant byte first, obtains the set point with its bytes reversed; it sees the intended
  voltage exactly if the bytes of the voltage form a palindrome.\<close>

theorem yfy_output_byte_order:
  "le_word (rev (seg 0 4 (output_payload volt current))) = volt \<longleftrightarrow>
     rev (le_bytes 4 volt) = le_bytes 4 volt"
proof -
  have half: "seg 0 4 (output_payload volt current) = le_bytes 4 volt"
    by (simp add: output_payload_def store_at_def seg_def)
  have "le_word (rev (le_bytes 4 volt)) = volt \<longleftrightarrow>
      (le_word (rev (le_bytes 4 volt)) :: u32) = le_word (le_bytes 4 volt)"
    by (simp add: le_word_le_bytes)
  also have "\<dots> \<longleftrightarrow> rev (le_bytes 4 volt) = le_bytes 4 volt"
    by (rule le_word_inject [where k = 4]) simp_all
  finally show ?thesis unfolding half .
qed

end
