(* ===== verification/RingBuffer.thy ===== *)
theory RingBuffer
  imports ByteFifo
begin

text \<open>
  The byte ring buffer of \<^verbatim>\<open>src/Lib/ring_buffer/ring_buffer.h\<close>, whose macro
  \<^verbatim>\<open>RING_BUFF_PRE_INIT\<close> generates one static instance and its operations per use (the
  console and the CAN driver each have a receive and a transmit instance). The theory
  holds the instance as a record, one definition per generated function, the
  well-formedness invariant, and the refinement of the interface, call by call, to a bounded queue of
  bytes (through a locale that the CAN and console theories use). A writer and a reader take different mutexes;
  what happens when one preempts the other inside a call is the subject of \<^verbatim>\<open>RingRace\<close>.
\<close>

section \<open>State\<close>

text \<open>
  A mutex is free or held. A take that finds it held either times out or, with
  \<open>portMAX_DELAY\<close>, blocks; a wait during which the holder gives the mutex back is the
  same call issued with the mutex free.
\<close>

datatype mutex = Mutex_Free | Mutex_Held

definition configTICK_RATE_HZ :: nat where
  "configTICK_RATE_HZ = 1000"

definition pdMS_TO_TICKS :: "u32 \<Rightarrow> u32" where
  "pdMS_TO_TICKS xTimeInMs = word_of_nat (unat xTimeInMs * configTICK_RATE_HZ div 1000)"

definition xSemaphoreTake :: "mutex \<Rightarrow> u32 \<Rightarrow> (bool \<times> mutex) option" where
  "xSemaphoreTake m xBlockTime =
     (case m of
        Mutex_Free \<Rightarrow> Some (True, Mutex_Held)
      | Mutex_Held \<Rightarrow> if xBlockTime = portMAX_DELAY then None else Some (False, Mutex_Held))"

record ring_buff_t =
  p_buff :: "u8 list option"
  rb_size :: u16
  head :: u16
  tail :: u16
  is_full_flag :: bool
  read_mutex :: "mutex option"
  write_mutex :: "mutex option"

section \<open>Operations\<close>

text \<open>
  The index arithmetic \<open>(rb->head + 1) % rb->size\<close> is carried out in \<open>int\<close> (integer
  promotion) and stored back into a \<open>uint16_t\<close>.
\<close>

definition ring_next :: "ring_buff_t \<Rightarrow> u16 \<Rightarrow> u16" where
  "ring_next rb i = word_of_nat ((unat i + 1) mod unat (rb_size rb))"

definition ring_free :: "ring_buff_t \<Rightarrow> u16" where
  "ring_free rb =
     (if is_full_flag rb then 0
      else if tail rb \<le> head rb then rb_size rb - (head rb - tail rb)
      else tail rb - head rb)"

definition ring_occupied :: "ring_buff_t \<Rightarrow> u16" where
  "ring_occupied rb =
     (if is_full_flag rb then rb_size rb
      else if tail rb \<le> head rb then head rb - tail rb
      else rb_size rb - (tail rb - head rb))"

text \<open>One turn of the copy loop of the write function, and the loop itself.\<close>

definition ring_push :: "ring_buff_t \<Rightarrow> u8 \<Rightarrow> ring_buff_t" where
  "ring_push rb b =
     (let rb1 = rb\<lparr>p_buff := map_option (\<lambda>buf. buf[unat (head rb) := b]) (p_buff rb)\<rparr>;
          rb2 = rb1\<lparr>head := ring_next rb1 (head rb1)\<rparr>
      in if head rb2 = tail rb2 then rb2\<lparr>is_full_flag := True\<rparr> else rb2)"

function ring_write_loop :: "ring_buff_t \<Rightarrow> u8 list \<Rightarrow> u16 \<Rightarrow> u16 \<Rightarrow> ring_buff_t" where
  "ring_write_loop rb data i len =
     (if i < len then ring_write_loop (ring_push rb (data ! unat i)) data (i + 1) len else rb)"
  by pat_completeness auto
termination
  by (relation "measure (\<lambda>(rb, data, i, len). unat len - unat i)")
    (auto simp: unat_succ_less word_less_nat_alt)

declare ring_write_loop.simps [simp del]

definition ring_timeout_ticks :: "u32 \<Rightarrow> u32" where
  "ring_timeout_ticks timeout_ms =
     (if timeout_ms = portMAX_DELAY then portMAX_DELAY else pdMS_TO_TICKS timeout_ms)"

definition ring_write :: "ring_buff_t \<Rightarrow> u8 list option \<Rightarrow> u16 \<Rightarrow> u32 \<Rightarrow> (int \<times> ring_buff_t) option" where
  "ring_write rb data len timeout_ms =
     (case data of
        None \<Rightarrow> Some (-1, rb)
      | Some bytes \<Rightarrow>
          if len = 0 then Some (-1, rb)
          else case (p_buff rb, write_mutex rb) of
              (Some _, Some m) \<Rightarrow>
                (case xSemaphoreTake m (ring_timeout_ticks timeout_ms) of
                   None \<Rightarrow> None
                 | Some (taken, m') \<Rightarrow>
                     if \<not> taken then Some (-2, rb\<lparr>write_mutex := Some m'\<rparr>)
                     else if ring_free (rb\<lparr>write_mutex := Some m'\<rparr>) < len
                       then Some (-1, rb\<lparr>write_mutex := Some Mutex_Free\<rparr>)
                     else Some (uint len,
                       (ring_write_loop (rb\<lparr>write_mutex := Some m'\<rparr>) bytes 0 len)
                          \<lparr>write_mutex := Some Mutex_Free\<rparr>))
            | _ \<Rightarrow> Some (-1, rb))"

text \<open>
  The read loop copies into the caller's array; the model collects the copied bytes, in
  order, and returns them beside the result.
\<close>

definition ring_peek :: "ring_buff_t \<Rightarrow> u8" where
  "ring_peek rb = the (p_buff rb) ! unat (tail rb)"

definition ring_pop :: "ring_buff_t \<Rightarrow> ring_buff_t" where
  "ring_pop rb = rb\<lparr>tail := ring_next rb (tail rb), is_full_flag := False\<rparr>"

function ring_read_loop :: "ring_buff_t \<Rightarrow> u16 \<Rightarrow> u16 \<Rightarrow> u8 list \<times> ring_buff_t" where
  "ring_read_loop rb i read_len =
     (if i < read_len
      then (let (bs, rb') = ring_read_loop (ring_pop rb) (i + 1) read_len
            in (ring_peek rb # bs, rb'))
      else ([], rb))"
  by pat_completeness auto
termination
  by (relation "measure (\<lambda>(rb, i, read_len). unat read_len - unat i)")
    (auto simp: unat_succ_less word_less_nat_alt)

declare ring_read_loop.simps [simp del]

text \<open>The flag \<open>data_ok\<close> says that the caller's \<open>data\<close> pointer is not null.\<close>

definition ring_read :: "ring_buff_t \<Rightarrow> bool \<Rightarrow> u16 \<Rightarrow> u32 \<Rightarrow> (int \<times> u8 list \<times> ring_buff_t) option" where
  "ring_read rb data_ok len timeout_ms =
     (if \<not> data_ok \<or> len = 0 then Some (0, [], rb)
      else case (p_buff rb, read_mutex rb) of
          (Some _, Some m) \<Rightarrow>
            (case xSemaphoreTake m (ring_timeout_ticks timeout_ms) of
               None \<Rightarrow> None
             | Some (taken, m') \<Rightarrow>
                 if \<not> taken then Some (-2, [], rb\<lparr>read_mutex := Some m'\<rparr>)
                 else (let rb1 = rb\<lparr>read_mutex := Some m'\<rparr>;
                           used = ring_occupied rb1;
                           read_len = (if used < len then used else len)
                       in if read_len = 0 then Some (0, [], rb1\<lparr>read_mutex := Some Mutex_Free\<rparr>)
                          else (let (bs, rb2) = ring_read_loop rb1 0 read_len
                                in Some (uint read_len, bs, rb2\<lparr>read_mutex := Some Mutex_Free\<rparr>))))
        | _ \<Rightarrow> Some (0, [], rb))"

text \<open>
  The query functions take the read mutex, without a time limit, when both mutexes exist;
  they give it back, so the instance they leave is the one they found.
\<close>

definition ring_locked_query :: "ring_buff_t \<Rightarrow> (ring_buff_t \<Rightarrow> 'a) \<Rightarrow> 'a option" where
  "ring_locked_query rb f =
     (case (read_mutex rb, write_mutex rb) of
        (Some m, Some _) \<Rightarrow>
          (case xSemaphoreTake m portMAX_DELAY of None \<Rightarrow> None | Some _ \<Rightarrow> Some (f rb))
      | _ \<Rightarrow> Some (f rb))"

definition ring_available :: "ring_buff_t \<Rightarrow> u16 option" where
  "ring_available rb = ring_locked_query rb ring_free"

definition ring_used :: "ring_buff_t \<Rightarrow> u16 option" where
  "ring_used rb = ring_locked_query rb ring_occupied"

definition ring_is_empty :: "ring_buff_t \<Rightarrow> bool option" where
  "ring_is_empty rb = ring_locked_query rb (\<lambda>rb. \<not> is_full_flag rb \<and> head rb = tail rb)"

definition ring_is_full :: "ring_buff_t \<Rightarrow> bool option" where
  "ring_is_full rb = ring_locked_query rb is_full_flag"

definition ring_clear :: "ring_buff_t \<Rightarrow> ring_buff_t option" where
  "ring_clear rb =
     (case (read_mutex rb, write_mutex rb) of
        (Some mr, Some mw) \<Rightarrow>
          (case (xSemaphoreTake mr portMAX_DELAY, xSemaphoreTake mw portMAX_DELAY) of
             (Some _, Some _) \<Rightarrow>
               Some (rb\<lparr>head := 0, tail := 0, is_full_flag := False,
                        write_mutex := Some Mutex_Free, read_mutex := Some Mutex_Free\<rparr>)
           | _ \<Rightarrow> None)
      | _ \<Rightarrow> Some (rb\<lparr>head := 0, tail := 0, is_full_flag := False\<rparr>))"

definition ring_delete :: "ring_buff_t \<Rightarrow> ring_buff_t" where
  "ring_delete rb =
     rb\<lparr>p_buff := None, read_mutex := None, write_mutex := None,
        rb_size := 0, head := 0, tail := 0, is_full_flag := False\<rparr>"

text \<open>
  The constructor: \<open>buf\<close> is the block \<open>pvPortMalloc(buff_size)\<close> returned, with
  whatever it contains, and \<open>mr\<close>, \<open>mw\<close> what the two calls of
  \<open>xSemaphoreCreateMutex\<close> returned. The result is the pointer the function returns
  (whether it is not null) and the instance.
\<close>

definition ring_buff_init ::
  "u16 \<Rightarrow> ring_buff_t \<Rightarrow> u8 list option \<Rightarrow> mutex option \<Rightarrow> mutex option \<Rightarrow> bool \<times> ring_buff_t" where
  "ring_buff_init buff_size rb buf mr mw =
     (if p_buff rb \<noteq> None then (True, rb)
      else case buf of
          None \<Rightarrow> (False, rb)
        | Some block \<Rightarrow>
            let rb1 = rb\<lparr>p_buff := Some block, read_mutex := mr, write_mutex := mw\<rparr>
            in if mr = None \<or> mw = None then (False, rb1\<lparr>p_buff := None\<rparr>)
               else (True, rb1\<lparr>rb_size := buff_size, head := 0, tail := 0, is_full_flag := False\<rparr>))"

text \<open>The zero-initialised static instance.\<close>

definition ring_instance0 :: ring_buff_t where
  "ring_instance0 = \<lparr>p_buff = None, rb_size = 0, head = 0, tail = 0, is_full_flag = False,
     read_mutex = None, write_mutex = None\<rparr>"

section \<open>Invariant and abstraction\<close>

definition ring_wf :: "ring_buff_t \<Rightarrow> bool" where
  "ring_wf rb \<longleftrightarrow>
     (case p_buff rb of None \<Rightarrow> False | Some buf \<Rightarrow> length buf = unat (rb_size rb)) \<and>
     head rb < rb_size rb \<and> tail rb < rb_size rb \<and> (is_full_flag rb \<longrightarrow> head rb = tail rb) \<and>
     read_mutex rb \<noteq> None \<and> write_mutex rb \<noteq> None"

text \<open>No call is inside the ring: both mutexes are free.\<close>

definition ring_idle :: "ring_buff_t \<Rightarrow> bool" where
  "ring_idle rb \<longleftrightarrow> read_mutex rb = Some Mutex_Free \<and> write_mutex rb = Some Mutex_Free"

definition ring_count :: "ring_buff_t \<Rightarrow> nat" where
  "ring_count rb =
     (if is_full_flag rb then unat (rb_size rb)
      else ring_dist (unat (rb_size rb)) (unat (tail rb)) (unat (head rb)))"

definition ring_contents :: "ring_buff_t \<Rightarrow> u8 list" where
  "ring_contents rb =
     ring_slice (unat (rb_size rb)) (the (p_buff rb)) (unat (tail rb)) (ring_count rb)"

section \<open>The steps of the copy loops\<close>

lemma ring_wfE:
  assumes "ring_wf rb"
  obtains buf where "p_buff rb = Some buf" and "length buf = unat (rb_size rb)"
    and "unat (head rb) < unat (rb_size rb)" and "unat (tail rb) < unat (rb_size rb)"
    and "is_full_flag rb \<Longrightarrow> head rb = tail rb"
  using assms by (auto simp: ring_wf_def word_less_nat_alt split: option.splits)

lemma unat_ring_next:
  assumes "unat i < unat (rb_size rb)"
  shows "unat (ring_next rb i) = (unat i + 1) mod unat (rb_size rb)"
proof -
  have "(unat i + 1) mod unat (rb_size rb) < unat (rb_size rb)"
    using assms by (intro mod_less_divisor) linarith
  then have "(unat i + 1) mod unat (rb_size rb) < 2 ^ LENGTH(16)"
    using unsigned_less [of "rb_size rb", where ?'a = nat] by linarith
  then show ?thesis
    unfolding ring_next_def by (rule word_of_nat_eq_nat_iff)
qed

lemma ring_next_less:
  assumes "unat i < unat (rb_size rb)"
  shows "ring_next rb i < rb_size rb"
  using assms by (simp add: word_less_nat_alt unat_ring_next)

lemma ring_count_le: "ring_wf rb \<Longrightarrow> ring_count rb \<le> unat (rb_size rb)"
  by (elim ring_wfE) (simp add: ring_count_def less_imp_le ring_dist_less)

lemma length_ring_contents [simp]: "length (ring_contents rb) = ring_count rb"
  by (simp add: ring_contents_def)

lemma unat_ring_occupied:
  assumes "ring_wf rb"
  shows "unat (ring_occupied rb) = ring_count rb"
proof -
  from assms obtain "unat (head rb) < unat (rb_size rb)" and "unat (tail rb) < unat (rb_size rb)"
    by (elim ring_wfE)
  moreover from this have "tail rb - head rb \<le> rb_size rb" if "head rb \<le> tail rb"
    using that by (simp add: word_le_nat_alt unat_diff_le)
  ultimately show ?thesis
    by (auto simp: ring_occupied_def ring_count_def ring_dist_def unat_diff_le word_le_nat_alt)
qed

lemma unat_ring_free:
  assumes "ring_wf rb"
  shows "unat (ring_free rb) = unat (rb_size rb) - ring_count rb"
proof -
  from assms obtain "unat (head rb) < unat (rb_size rb)" and "unat (tail rb) < unat (rb_size rb)"
    by (elim ring_wfE)
  moreover from this have "head rb - tail rb \<le> rb_size rb" if "tail rb \<le> head rb"
    using that by (simp add: word_le_nat_alt unat_diff_le)
  ultimately show ?thesis
    by (auto simp: ring_free_def ring_count_def ring_dist_def unat_diff_le word_le_nat_alt)
qed

lemma ring_push_frame [simp]:
  "rb_size (ring_push rb b) = rb_size rb" "tail (ring_push rb b) = tail rb"
  "read_mutex (ring_push rb b) = read_mutex rb" "write_mutex (ring_push rb b) = write_mutex rb"
  "head (ring_push rb b) = ring_next rb (head rb)"
  "p_buff (ring_push rb b) = map_option (\<lambda>buf. buf[unat (head rb) := b]) (p_buff rb)"
  by (simp_all add: ring_push_def ring_next_def Let_def)

lemma ring_push_flag:
  "is_full_flag (ring_push rb b) \<longleftrightarrow> is_full_flag rb \<or> ring_next rb (head rb) = tail rb"
  by (auto simp: ring_push_def ring_next_def Let_def)

lemma ring_not_full_flag:
  "ring_count rb < unat (rb_size rb) \<Longrightarrow> \<not> is_full_flag rb"
  by (auto simp: ring_count_def)

lemma ring_push_count:
  assumes "ring_wf rb" and "ring_count rb < unat (rb_size rb)"
  shows "ring_count (ring_push rb b) = ring_count rb + 1"
proof -
  let ?n = "unat (rb_size rb)" and ?t = "unat (tail rb)" and ?h = "unat (head rb)"
  from assms(1) have b: "?h < ?n" "?t < ?n" by (auto elim: ring_wfE)
  have nf: "\<not> is_full_flag rb" using assms(2) by (rule ring_not_full_flag)
  then have c: "ring_count rb = ring_dist ?n ?t ?h" by (simp add: ring_count_def)
  have h': "unat (ring_next rb (head rb)) = (?h + 1) mod ?n"
    using b by (simp add: unat_ring_next)
  have full_iff: "is_full_flag (ring_push rb b) \<longleftrightarrow> (?h + 1) mod ?n = ?t"
    using nf h' by (simp add: ring_push_flag word_unat_eq_iff)
  show ?thesis
  proof (cases "ring_dist ?n ?t ?h + 1 < ?n")
    case True
    then have "ring_dist ?n ?t ((?h + 1) mod ?n) = ring_dist ?n ?t ?h + 1"
      using b by (intro ring_dist_advance_head)
    moreover from this have "(?h + 1) mod ?n \<noteq> ?t" by auto
    ultimately show ?thesis
      using full_iff c h' by (simp add: ring_count_def)
  next
    case False
    with assms(2) c have d: "ring_dist ?n ?t ?h + 1 = ?n" by simp
    then have "(?h + 1) mod ?n = ?t"
      using b ring_advance [of ?h ?n 1] by (auto simp: ring_dist_def split: if_splits)
    then show ?thesis
      using full_iff c d by (simp add: ring_count_def)
  qed
qed

lemma ring_push_wf:
  assumes "ring_wf rb" and "ring_count rb < unat (rb_size rb)"
  shows "ring_wf (ring_push rb b)"
proof -
  have "\<not> is_full_flag rb" using assms(2) by (rule ring_not_full_flag)
  with assms(1) show ?thesis
    by (auto simp: ring_wf_def ring_push_flag word_less_nat_alt unat_ring_next split: option.splits)
qed

lemma ring_push_contents:
  assumes "ring_wf rb" and "ring_count rb < unat (rb_size rb)"
  shows "ring_contents (ring_push rb b) = ring_contents rb @ [b]"
proof -
  let ?n = "unat (rb_size rb)" and ?t = "unat (tail rb)" and ?h = "unat (head rb)"
  from assms(1) obtain buf where buf: "p_buff rb = Some buf" "length buf = ?n"
    and b: "?h < ?n" "?t < ?n" by (elim ring_wfE)
  have c: "ring_count rb = ring_dist ?n ?t ?h"
    using ring_not_full_flag [OF assms(2)] by (simp add: ring_count_def)
  have "ring_contents (ring_push rb b) = ring_slice ?n (buf[?h := b]) ?t (ring_count rb + 1)"
    by (simp add: ring_contents_def buf ring_push_count [OF assms])
  also have "\<dots> = ring_slice ?n (buf[?h := b]) ?t (ring_count rb) @ [b]"
    using b buf c ring_dist_reach [OF b(2,1)] by (simp add: ring_slice_Suc)
  also have "ring_slice ?n (buf[?h := b]) ?t (ring_count rb) = ring_contents rb"
    using b buf c by (simp add: ring_slice_update_free ring_contents_def)
  finally show ?thesis .
qed

lemma ring_pop_frame [simp]:
  "rb_size (ring_pop rb) = rb_size rb" "head (ring_pop rb) = head rb"
  "p_buff (ring_pop rb) = p_buff rb"
  "read_mutex (ring_pop rb) = read_mutex rb" "write_mutex (ring_pop rb) = write_mutex rb"
  "tail (ring_pop rb) = ring_next rb (tail rb)" "is_full_flag (ring_pop rb) = False"
  by (simp_all add: ring_pop_def)

lemma ring_pop_wf: "ring_wf rb \<Longrightarrow> ring_wf (ring_pop rb)"
  by (auto simp: ring_wf_def word_less_nat_alt unat_ring_next split: option.splits)

lemma ring_pop_count:
  assumes "ring_wf rb" and "0 < ring_count rb"
  shows "ring_count (ring_pop rb) = ring_count rb - 1"
proof -
  let ?n = "unat (rb_size rb)" and ?t = "unat (tail rb)" and ?h = "unat (head rb)"
  from assms(1) have b: "?h < ?n" "?t < ?n" and f: "is_full_flag rb \<Longrightarrow> head rb = tail rb"
    by (auto elim: ring_wfE)
  have t': "unat (ring_next rb (tail rb)) = (?t + 1) mod ?n"
    using b by (simp add: unat_ring_next)
  show ?thesis
  proof (cases "is_full_flag rb")
    case True
    then have "ring_dist ?n ((?t + 1) mod ?n) ?t = ?n - 1"
      using b ring_advance [of ?t ?n 1] by (auto simp: ring_dist_def)
    with True f t' show ?thesis by (simp add: ring_count_def)
  next
    case False
    with assms(2) have "1 \<le> ring_dist ?n ?t ?h" by (simp add: ring_count_def)
    then have "ring_dist ?n ((?t + 1) mod ?n) ?h = ring_dist ?n ?t ?h - 1"
      using b by (intro ring_dist_advance_tail)
    with False t' show ?thesis by (simp add: ring_count_def)
  qed
qed

lemma ring_pop_contents:
  assumes "ring_wf rb" and "0 < ring_count rb"
  shows "ring_contents rb = ring_peek rb # ring_contents (ring_pop rb)"
proof -
  let ?n = "unat (rb_size rb)" and ?t = "unat (tail rb)"
  from assms(1) obtain buf where buf: "p_buff rb = Some buf" and b: "?t < ?n"
    by (elim ring_wfE)
  have "ring_contents rb = ring_slice ?n buf ?t (1 + (ring_count rb - 1))"
    using assms(2) by (simp add: ring_contents_def buf)
  also have "\<dots> = ring_slice ?n buf ?t 1 @ ring_slice ?n buf ((?t + 1) mod ?n) (ring_count rb - 1)"
    by (rule ring_slice_add)
  also have "ring_slice ?n buf ?t 1 = [ring_peek rb]"
    using b buf by (simp add: ring_slice_def ring_peek_def)
  finally show ?thesis
    using b buf by (simp add: ring_contents_def ring_pop_count [OF assms] unat_ring_next)
qed

section \<open>The loops and the two transfer functions\<close>

lemma ring_write_loop_spec:
  assumes "ring_wf rb" and "i \<le> len" and "unat len \<le> length data"
    and "ring_count rb + (unat len - unat i) \<le> unat (rb_size rb)"
  shows "ring_wf (ring_write_loop rb data i len) \<and>
    ring_contents (ring_write_loop rb data i len) =
      ring_contents rb @ drop (unat i) (take (unat len) data) \<and>
    rb_size (ring_write_loop rb data i len) = rb_size rb \<and>
    read_mutex (ring_write_loop rb data i len) = read_mutex rb"
  using assms
proof (induction rb data i len rule: ring_write_loop.induct)
  case (1 rb data i len)
  show ?case
  proof (cases "i < len")
    case True
    let ?rb = "ring_push rb (data ! unat i)"
    from True have i1: "unat (i + 1) = unat i + 1" by (rule unat_succ_less)
    have il: "unat i < unat len" using True by (simp add: word_less_nat_alt)
    have room: "ring_count rb < unat (rb_size rb)"
      using "1.prems"(4) il by linarith
    have "ring_wf ?rb" using "1.prems"(1) room by (rule ring_push_wf)
    moreover have "i + 1 \<le> len" using i1 il by (simp add: word_le_nat_alt)
    moreover have "ring_count ?rb + (unat len - unat (i + 1)) \<le> unat (rb_size ?rb)"
      using "1.prems"(1,4) i1 il room by (simp add: ring_push_count)
    ultimately have IH: "ring_wf (ring_write_loop ?rb data (i + 1) len) \<and>
        ring_contents (ring_write_loop ?rb data (i + 1) len) =
          ring_contents ?rb @ drop (unat (i + 1)) (take (unat len) data) \<and>
        rb_size (ring_write_loop ?rb data (i + 1) len) = rb_size ?rb \<and>
        read_mutex (ring_write_loop ?rb data (i + 1) len) = read_mutex ?rb"
      using "1.IH" True "1.prems"(3) by blast
    have "drop (unat i) (take (unat len) data) =
        data ! unat i # drop (unat i + 1) (take (unat len) data)"
      using il "1.prems"(3) by (simp add: Cons_nth_drop_Suc [symmetric])
    with IH True show ?thesis
      by (simp add: ring_write_loop.simps [of rb data i len] i1
          ring_push_contents [OF "1.prems"(1) room])
  next
    case False
    with "1.prems" show ?thesis
      by (simp add: ring_write_loop.simps [of rb data i len] word_le_nat_alt word_less_nat_alt)
  qed
qed

lemma ring_read_loop_spec:
  assumes "ring_wf rb" and "i \<le> len" and "unat len - unat i \<le> ring_count rb"
    and "ring_read_loop rb i len = (bs, rb')"
  shows "ring_wf rb' \<and> bs = take (unat len - unat i) (ring_contents rb) \<and>
    ring_contents rb' = drop (unat len - unat i) (ring_contents rb) \<and>
    rb_size rb' = rb_size rb \<and> write_mutex rb' = write_mutex rb"
  using assms
proof (induction rb i len arbitrary: bs rb' rule: ring_read_loop.induct)
  case (1 rb i len)
  show ?case
  proof (cases "i < len")
    case True
    from True have i1: "unat (i + 1) = unat i + 1" by (rule unat_succ_less)
    have il: "unat i < unat len" using True by (simp add: word_less_nat_alt)
    obtain cs rb2 where rec: "ring_read_loop (ring_pop rb) (i + 1) len = (cs, rb2)"
      by (cases "ring_read_loop (ring_pop rb) (i + 1) len")
    with True "1.prems"(4) have res: "bs = ring_peek rb # cs" "rb' = rb2"
      by (simp_all add: ring_read_loop.simps [of rb i len])
    have pos: "0 < ring_count rb" using "1.prems"(3) il by linarith
    have "i + 1 \<le> len" using i1 il by (simp add: word_le_nat_alt)
    moreover have "unat len - unat (i + 1) \<le> ring_count (ring_pop rb)"
      using "1.prems"(1,3) i1 pos by (simp add: ring_pop_count)
    ultimately have IH: "ring_wf rb2 \<and>
        cs = take (unat len - unat (i + 1)) (ring_contents (ring_pop rb)) \<and>
        ring_contents rb2 = drop (unat len - unat (i + 1)) (ring_contents (ring_pop rb)) \<and>
        rb_size rb2 = rb_size (ring_pop rb) \<and> write_mutex rb2 = write_mutex (ring_pop rb)"
      using "1.IH" True "1.prems"(1) rec ring_pop_wf by blast
    have "unat len - unat i = Suc (unat len - unat (i + 1))" using i1 il by simp
    with IH res show ?thesis
      by (simp add: ring_pop_contents [OF "1.prems"(1) pos])
  next
    case False
    with "1.prems" show ?thesis
      by (simp add: ring_read_loop.simps [of rb i len] word_le_nat_alt word_less_nat_alt)
  qed
qed

lemma ring_wf_mutex [simp]:
  "ring_wf rb \<Longrightarrow> ring_wf (rb\<lparr>read_mutex := Some m\<rparr>)"
  "ring_wf rb \<Longrightarrow> ring_wf (rb\<lparr>write_mutex := Some m\<rparr>)"
  by (auto simp: ring_wf_def split: option.splits)

lemma ring_abs_mutex [simp]:
  "ring_count (rb\<lparr>read_mutex := r\<rparr>) = ring_count rb"
  "ring_count (rb\<lparr>write_mutex := w\<rparr>) = ring_count rb"
  "ring_contents (rb\<lparr>read_mutex := r\<rparr>) = ring_contents rb"
  "ring_contents (rb\<lparr>write_mutex := w\<rparr>) = ring_contents rb"
  by (simp_all add: ring_count_def ring_contents_def)

lemma ring_wf_p_buff: "ring_wf rb \<Longrightarrow> \<exists>buf. p_buff rb = Some buf"
  by (auto simp: ring_wf_def split: option.splits)

text \<open>
  A write into an idle ring is all or nothing: with room for the whole block it appends
  the block and returns its length, and otherwise it returns -1 and changes nothing.
\<close>

lemma ring_write_accept:
  assumes "ring_wf rb" and "ring_idle rb" and "len \<noteq> 0" and "unat len \<le> length data"
    and "ring_count rb + unat len \<le> unat (rb_size rb)"
  obtains rb' where "ring_write rb (Some data) len t = Some (uint len, rb')"
    and "ring_wf rb'" and "ring_idle rb'" and "rb_size rb' = rb_size rb"
    and "ring_contents rb' = ring_contents rb @ take (unat len) data"
proof -
  let ?rb = "rb\<lparr>write_mutex := Some Mutex_Held\<rparr>"
  let ?rb' = "(ring_write_loop ?rb data 0 len)\<lparr>write_mutex := Some Mutex_Free\<rparr>"
  have wf: "ring_wf ?rb" using assms(1) by simp
  have "\<not> ring_free ?rb < len"
    using assms(5) by (simp add: word_less_nat_alt unat_ring_free [OF wf])
  moreover obtain buf where "p_buff rb = Some buf"
    using ring_wf_p_buff [OF assms(1)] by auto
  ultimately have "ring_write rb (Some data) len t = Some (uint len, ?rb')"
    using assms(2,3) by (simp add: ring_write_def ring_idle_def xSemaphoreTake_def)
  moreover have "ring_wf (ring_write_loop ?rb data 0 len) \<and>
      ring_contents (ring_write_loop ?rb data 0 len) =
        ring_contents ?rb @ drop (unat (0 :: u16)) (take (unat len) data) \<and>
      rb_size (ring_write_loop ?rb data 0 len) = rb_size ?rb \<and>
      read_mutex (ring_write_loop ?rb data 0 len) = read_mutex ?rb"
    using wf assms(4,5) by (intro ring_write_loop_spec) simp_all
  ultimately show ?thesis
    using assms(2) by (intro that [of ?rb']) (simp_all add: ring_idle_def)
qed

lemma ring_write_reject:
  assumes "ring_wf rb" and "ring_idle rb" and "len \<noteq> 0"
    and "unat (rb_size rb) < ring_count rb + unat len"
  shows "ring_write rb (Some data) len t = Some (-1, rb)"
proof -
  let ?rb = "rb\<lparr>write_mutex := Some Mutex_Held\<rparr>"
  have wf: "ring_wf ?rb" using assms(1) by simp
  have "ring_free ?rb < len"
    using assms(4) ring_count_le [OF assms(1)]
    by (simp add: word_less_nat_alt unat_ring_free [OF wf])
  moreover obtain buf where "p_buff rb = Some buf"
    using ring_wf_p_buff [OF assms(1)] by auto
  moreover have "rb\<lparr>write_mutex := Some Mutex_Free\<rparr> = rb"
    using assms(2) by (simp add: ring_idle_def)
  ultimately show ?thesis
    using assms(2,3) by (simp add: ring_write_def ring_idle_def xSemaphoreTake_def)
qed

text \<open>A read from an idle ring returns the oldest bytes, as many as asked for and present.\<close>

lemma ring_read_spec:
  assumes "ring_wf rb" and "ring_idle rb"
  obtains rb' where
    "ring_read rb True len t =
       Some (int (min (unat len) (ring_count rb)), take (unat len) (ring_contents rb), rb')"
    and "ring_wf rb'" and "ring_idle rb'" and "rb_size rb' = rb_size rb"
    and "ring_contents rb' = drop (unat len) (ring_contents rb)"
proof (cases "len = 0")
  case True
  then show ?thesis
    using assms by (intro that [of rb]) (simp_all add: ring_read_def)
next
  case False
  let ?rb = "rb\<lparr>read_mutex := Some Mutex_Held\<rparr>"
  let ?n = "if ring_occupied ?rb < len then ring_occupied ?rb else len"
  have wf: "ring_wf ?rb" using assms(1) by simp
  obtain buf where buf: "p_buff rb = Some buf"
    using ring_wf_p_buff [OF assms(1)] by auto
  have n: "unat ?n = min (unat len) (ring_count rb)"
    by (simp add: word_less_nat_alt unat_ring_occupied [OF wf] min_def)
  show ?thesis
  proof (cases "?n = 0")
    case True
    then have "unat ?n = 0" by simp
    with n False have c: "ring_count rb = 0"
      by (simp add: min_def unat_eq_zero split: if_splits)
    then have "ring_contents rb = []" by (metis length_ring_contents length_0_conv)
    moreover have "rb\<lparr>read_mutex := Some Mutex_Free\<rparr> = rb"
      using assms(2) by (simp add: ring_idle_def)
    ultimately show ?thesis
      using assms False True buf c
      by (intro that [of rb]) (simp_all add: ring_read_def ring_idle_def xSemaphoreTake_def Let_def)
  next
    case ne: False
    obtain bs rb2 where loop: "ring_read_loop ?rb 0 ?n = (bs, rb2)"
      by (cases "ring_read_loop ?rb 0 ?n")
    have "unat ?n - unat (0 :: u16) \<le> ring_count ?rb" using n by simp
    from ring_read_loop_spec [OF wf _ this loop] have sp: "ring_wf rb2"
      "bs = take (unat ?n) (ring_contents rb)" "ring_contents rb2 = drop (unat ?n) (ring_contents rb)"
      "rb_size rb2 = rb_size rb" "write_mutex rb2 = write_mutex rb"
      by simp_all
    have td: "take (unat ?n) (ring_contents rb) = take (unat len) (ring_contents rb)"
      "drop (unat ?n) (ring_contents rb) = drop (unat len) (ring_contents rb)"
      using n by (simp_all add: min_def)
    have "ring_read rb True len t =
        Some (uint ?n, bs, rb2\<lparr>read_mutex := Some Mutex_Free\<rparr>)"
      using False ne assms(2) buf loop
      by (simp add: ring_read_def ring_idle_def xSemaphoreTake_def Let_def split del: if_split)
    moreover have "uint ?n = int (min (unat len) (ring_count rb))"
      using n by (metis uint_nat)
    ultimately show ?thesis
      using sp td assms(2)
      by (intro that [of "rb2\<lparr>read_mutex := Some Mutex_Free\<rparr>"]) (simp_all add: ring_idle_def)
  qed
qed

section \<open>The ring buffer implements the queue contract\<close>

text \<open>
  The interface the clients see: what a call of the instance's \<open>write\<close> accepted, and
  what a call of its \<open>read\<close> delivered.
\<close>

definition ring_send :: "u32 \<Rightarrow> ring_buff_t \<Rightarrow> u8 list \<Rightarrow> nat \<times> ring_buff_t" where
  "ring_send timeout_ms rb bs =
     (case ring_write rb (Some bs) (word_of_nat (length bs)) timeout_ms of
        None \<Rightarrow> (0, rb)
      | Some (ret, rb') \<Rightarrow> (nat ret, rb'))"

definition ring_receive :: "u32 \<Rightarrow> ring_buff_t \<Rightarrow> nat \<Rightarrow> u8 list \<times> ring_buff_t" where
  "ring_receive timeout_ms rb n =
     (case ring_read rb True (word_of_nat n) timeout_ms of
        None \<Rightarrow> ([], rb)
      | Some (_, bs, rb') \<Rightarrow> (bs, rb'))"

definition ring_ready :: "ring_buff_t \<Rightarrow> bool" where
  "ring_ready rb \<longleftrightarrow> ring_wf rb \<and> ring_idle rb"

definition ring_capacity :: "ring_buff_t \<Rightarrow> nat" where
  "ring_capacity rb = unat (rb_size rb)"

lemma unat_u16_of_nat: "n < 65536 \<Longrightarrow> unat (word_of_nat n :: u16) = n"
  by (rule word_of_nat_eq_nat_iff) simp

lemma ring_send_cases:
  assumes "ring_ready rb" and "length bs < 65536" and "ring_send t rb bs = (n, rb')"
  shows "ring_ready rb' \<and> rb_size rb' = rb_size rb \<and>
    (if bs \<noteq> [] \<and> ring_count rb + length bs \<le> unat (rb_size rb)
     then n = length bs \<and> ring_contents rb' = ring_contents rb @ bs
     else n = 0 \<and> rb' = rb)"
proof (cases "bs = []")
  case True
  with assms(1,3) show ?thesis by (simp add: ring_send_def ring_write_def)
next
  case False
  let ?len = "word_of_nat (length bs) :: u16"
  have len: "unat ?len = length bs" using assms(2) by (rule unat_u16_of_nat)
  then have ne: "?len \<noteq> 0" using False by auto
  have wf: "ring_wf rb" "ring_idle rb" using assms(1) by (simp_all add: ring_ready_def)
  show ?thesis
  proof (cases "ring_count rb + length bs \<le> unat (rb_size rb)")
    case True
    then have fits: "unat ?len \<le> length bs" "ring_count rb + unat ?len \<le> unat (rb_size rb)"
      using len by simp_all
    obtain r where "ring_write rb (Some bs) ?len t = Some (uint ?len, r)"
      and "ring_wf r" "ring_idle r" "rb_size r = rb_size rb"
      and "ring_contents r = ring_contents rb @ take (unat ?len) bs"
      by (rule ring_write_accept [OF wf ne fits])
    then show ?thesis
      using assms(3) False True len by (auto simp: ring_send_def ring_ready_def)
  next
    case no: False
    then have "ring_write rb (Some bs) ?len t = Some (-1, rb)"
      using ring_write_reject [OF wf ne] len by simp
    then show ?thesis
      using assms(1,3) no by (auto simp: ring_send_def)
  qed
qed

lemma ring_receive_cases:
  assumes "ring_ready rb" and "n < 65536" and "ring_receive t rb n = (bs, rb')"
  shows "ring_ready rb' \<and> rb_size rb' = rb_size rb \<and>
    bs = take n (ring_contents rb) \<and> ring_contents rb' = drop n (ring_contents rb)"
proof -
  have wf: "ring_wf rb" "ring_idle rb" using assms(1) by (simp_all add: ring_ready_def)
  obtain r where "ring_read rb True (word_of_nat n) t =
      Some (int (min (unat (word_of_nat n :: u16)) (ring_count rb)),
        take (unat (word_of_nat n :: u16)) (ring_contents rb), r)"
    and "ring_wf r" "ring_idle r" "rb_size r = rb_size rb"
    and "ring_contents r = drop (unat (word_of_nat n :: u16)) (ring_contents rb)"
    by (rule ring_read_spec [OF wf])
  then show ?thesis
    using assms(3) by (auto simp: ring_receive_def ring_ready_def unat_u16_of_nat [OF assms(2)])
qed

interpretation ring: atomic_fifo ring_ready ring_contents ring_capacity
  "ring_send timeout_ms" "ring_receive timeout_ms" for timeout_ms
proof (unfold_locales, goal_cases)
  case (1 q)
  then show ?case by (simp add: ring_ready_def ring_capacity_def ring_count_le)
next
  case (2 q bs n q')
  then show ?case by (blast dest: ring_send_cases)
next
  case (3 q bs n q')
  then show ?case by (auto simp: ring_capacity_def dest: ring_send_cases)
next
  case (4 q bs n q')
  then show ?case using ring_send_cases [of q bs timeout_ms n q'] by (auto split: if_splits)
next
  case (5 q k bs q')
  then show ?case by (blast dest: ring_receive_cases)
next
  case (6 q k bs q')
  then show ?case by (auto simp: ring_capacity_def dest: ring_receive_cases)
next
  case (7 q k bs q')
  then show ?case by (blast dest: ring_receive_cases)
next
  case (8 q k bs q')
  then show ?case by (blast dest: ring_receive_cases)
next
  case (9 q bs)
  then show ?case
    using ring_send_cases [of q bs timeout_ms "fst (ring_send timeout_ms q bs)"
        "snd (ring_send timeout_ms q bs)"]
    by (simp add: ring_capacity_def)
next
  case (10 q bs)
  then show ?case
    using ring_send_cases [of q bs timeout_ms "fst (ring_send timeout_ms q bs)"
        "snd (ring_send timeout_ms q bs)"]
    by (simp add: ring_capacity_def)
qed

section \<open>Calls on a ready ring\<close>

text \<open>The form in which the drivers use the facts on single calls.\<close>

lemma ring_empty_iff:
  assumes wf: "ring_wf rb"
  shows "ring_contents rb = [] \<longleftrightarrow> \<not> is_full_flag rb \<and> head rb = tail rb"
proof -
  from wf have b: "unat (head rb) < unat (rb_size rb)" "unat (tail rb) < unat (rb_size rb)"
    by (auto elim: ring_wfE)
  have "(ring_count rb = 0) = (\<not> is_full_flag rb \<and> head rb = tail rb)"
    using b ring_dist_0_iff [OF b(2,1)] by (auto simp: ring_count_def word_unat_eq_iff)
  then show ?thesis by (metis length_0_conv length_ring_contents)
qed

lemma ring_is_empty_ready:
  assumes "ring_ready rb"
  shows "ring_is_empty rb = Some (ring_contents rb = [])"
proof -
  have wf: "ring_wf rb" and id: "ring_idle rb" using assms by (simp_all add: ring_ready_def)
  from ring_empty_iff [OF wf] id show ?thesis
    by (auto simp: ring_is_empty_def ring_locked_query_def ring_idle_def xSemaphoreTake_def)
qed

lemma ring_write_ready:
  assumes "ring_ready rb" and "len \<noteq> 0" and "unat len \<le> length data"
  obtains rb' where
    "ring_write rb (Some data) len t =
       Some (if length (ring_contents rb) + unat len \<le> unat (rb_size rb) then uint len else -1, rb')"
    and "ring_ready rb'" and "rb_size rb' = rb_size rb"
    and "ring_contents rb' = (if length (ring_contents rb) + unat len \<le> unat (rb_size rb)
       then ring_contents rb @ take (unat len) data else ring_contents rb)"
proof (cases "ring_count rb + unat len \<le> unat (rb_size rb)")
  case True
  obtain r where "ring_write rb (Some data) len t = Some (uint len, r)"
    and "ring_wf r" "ring_idle r" "rb_size r = rb_size rb"
    and "ring_contents r = ring_contents rb @ take (unat len) data"
    using assms True by (auto simp: ring_ready_def elim!: ring_write_accept [of rb len data t])
  then show ?thesis using True by (intro that [of r]) (simp_all add: ring_ready_def)
next
  case False
  then have "ring_write rb (Some data) len t = Some (-1, rb)"
    using assms by (intro ring_write_reject) (simp_all add: ring_ready_def)
  then show ?thesis using False assms(1) by (intro that [of rb]) simp_all
qed

lemma ring_read_ready:
  assumes "ring_ready rb"
  obtains rb' where
    "ring_read rb True len t =
       Some (int (length (take (unat len) (ring_contents rb))), take (unat len) (ring_contents rb), rb')"
    and "ring_ready rb'" and "rb_size rb' = rb_size rb"
    and "ring_contents rb' = drop (unat len) (ring_contents rb)"
proof -
  have wf: "ring_wf rb" "ring_idle rb" using assms by (simp_all add: ring_ready_def)
  obtain r where "ring_read rb True len t =
       Some (int (min (unat len) (ring_count rb)), take (unat len) (ring_contents rb), r)"
    and "ring_wf r" and "ring_idle r" and "rb_size r = rb_size rb"
    and "ring_contents r = drop (unat len) (ring_contents rb)"
    by (rule ring_read_spec [OF wf])
  then show ?thesis by (intro that [of r]) (simp_all add: ring_ready_def min.commute)
qed

lemma ring_contents_le: "ring_ready rb \<Longrightarrow> length (ring_contents rb) \<le> unat (rb_size rb)"
  by (simp add: ring_ready_def ring_count_le)

section \<open>Properties\<close>

lemma ring_write_wf_aux:
  assumes "ring_wf rb" and "unat len \<le> length bytes" and "ring_write rb (Some bytes) len t = Some (ret, rb')"
  shows "ring_wf rb'"
proof -
  obtain buf mw where fields: "p_buff rb = Some buf" "write_mutex rb = Some mw"
    using assms(1) by (auto simp: ring_wf_def split: option.splits)
  let ?rb = "rb\<lparr>write_mutex := Some Mutex_Held\<rparr>"
  have wf: "ring_wf ?rb" using assms(1) by simp
  have "ring_wf (ring_write_loop ?rb bytes 0 len)" if "\<not> ring_free ?rb < len"
    using that assms(2) wf ring_count_le [OF wf] ring_write_loop_spec [OF wf, of 0 len bytes]
    by (simp add: word_less_nat_alt unat_ring_free [OF wf])
  then show ?thesis
    using assms(1,3) fields
    by (auto simp: ring_write_def xSemaphoreTake_def split: if_splits mutex.splits)
qed

lemma ring_read_wf_aux:
  assumes "ring_wf rb" and "ring_read rb ok len t = Some (ret, bs, rb')"
  shows "ring_wf rb'"
proof -
  obtain buf mr where fields: "p_buff rb = Some buf" "read_mutex rb = Some mr"
    using assms(1) by (auto simp: ring_wf_def split: option.splits)
  let ?rb = "rb\<lparr>read_mutex := Some Mutex_Held\<rparr>"
  let ?n = "if ring_occupied ?rb < len then ring_occupied ?rb else len"
  have wf: "ring_wf ?rb" using assms(1) by simp
  have "unat ?n \<le> ring_count ?rb"
    by (simp add: word_less_nat_alt unat_ring_occupied [OF wf])
  then have loop: "ring_wf rb2" if "ring_read_loop ?rb 0 ?n = (cs, rb2)" for cs rb2
    using ring_read_loop_spec [OF wf _ _ that] by simp
  show ?thesis
    using assms fields loop
    by (auto simp: ring_read_def xSemaphoreTake_def Let_def
        split: if_splits mutex.splits prod.splits)
qed

text \<open>Claim C4: any sequence of writes and reads on a ready ring, with blocks and requests of
  any 16-bit length, neither loses, duplicates nor reorders bytes: the bytes delivered
  followed by the bytes still held are the bytes held at the start followed by the bytes
  accepted, and the ring stays ready.\<close>

theorem ring_run_conserves:
  assumes "ring_ready rb" and "\<forall>op\<in>set ops. fifo_op_small op"
    and "fifo_run (ring_send timeout_ms) (ring_receive timeout_ms) rb ops = (acc, del, rb')"
  shows "ring_ready rb' \<and> rb_size rb' = rb_size rb \<and>
    ring_contents rb @ acc = del @ ring_contents rb'"
  using ring.run_conserves [OF assms] by (simp add: ring_capacity_def word_unat_eq_iff)

text \<open>A ready ring of four bytes, one of them occupied, for the witnesses.\<close>

definition ring_sample :: ring_buff_t where
  "ring_sample = \<lparr>p_buff = Some [0, 0, 0, 7], rb_size = 4, head = 0, tail = 3, is_full_flag = False,
     read_mutex = Some Mutex_Free, write_mutex = Some Mutex_Free\<rparr>"

lemma ring_sample_ready: "ring_ready ring_sample"
  by (simp add: ring_ready_def ring_wf_def ring_idle_def ring_sample_def)

theorem ring_run_conserves_witness:
  "\<exists>acc del rb'.
     fifo_run (ring_send 100) (ring_receive 100) ring_sample [Put [1, 2], Get 2, Put [3, 4, 5, 6]] = (acc, del, rb') \<and>
     ring_ready rb' \<and> ring_contents ring_sample @ acc = del @ ring_contents rb'"
proof -
  let ?ops = "[Put [1, 2], Get 2, Put [3, 4, 5, 6]]"
  obtain acc del rb' where r: "fifo_run (ring_send 100) (ring_receive 100) ring_sample ?ops = (acc, del, rb')"
    by (metis prod_cases3)
  have "\<forall>op\<in>set ?ops. fifo_op_small op" by (simp add: fifo_op_small_def)
  from ring_run_conserves [OF ring_sample_ready this r] r show ?thesis by blast
qed

text \<open>A write to a ready ring is all or nothing. If the block fits, the call returns
  its length and the block is appended behind what the ring holds; if it does not fit, the
  call returns -1 and the ring is unchanged.\<close>

theorem ring_write_all_or_nothing:
  assumes "ring_ready rb" and "len \<noteq> 0" and "unat len \<le> length data"
  shows "(if length (ring_contents rb) + unat len \<le> unat (rb_size rb)
          then \<exists>rb'. ring_write rb (Some data) len t = Some (uint len, rb') \<and> ring_ready rb' \<and>
            ring_contents rb' = ring_contents rb @ take (unat len) data
          else ring_write rb (Some data) len t = Some (-1, rb))"
proof -
  have wf: "ring_wf rb" "ring_idle rb" using assms(1) by (simp_all add: ring_ready_def)
  show ?thesis
  proof (cases "ring_count rb + unat len \<le> unat (rb_size rb)")
    case True
    obtain rb' where "ring_write rb (Some data) len t = Some (uint len, rb')"
      and "ring_wf rb'" and "ring_idle rb'"
      and "ring_contents rb' = ring_contents rb @ take (unat len) data"
      by (rule ring_write_accept [OF wf assms(2,3) True])
    with True show ?thesis by (auto simp: ring_ready_def)
  next
    case False
    then show ?thesis using ring_write_reject [OF wf assms(2)] by simp
  qed
qed

theorem ring_write_all_or_nothing_witness:
  "(\<exists>rb'. ring_write ring_sample (Some [1, 2, 3]) 3 100 = Some (3, rb') \<and> ring_ready rb' \<and>
      ring_contents rb' = [7, 1, 2, 3]) \<and>
   ring_write ring_sample (Some [1, 2, 3, 4]) 4 100 = Some (-1, ring_sample)"
  using ring_write_all_or_nothing [OF ring_sample_ready, of 3 "[1, 2, 3]" 100]
    ring_write_all_or_nothing [OF ring_sample_ready, of 4 "[1, 2, 3, 4]" 100]
  by (simp add: ring_contents_def ring_count_def ring_dist_def ring_slice_def ring_sample_def)

text \<open>A read from a ready ring returns how many bytes it copied, the smaller of the
  request and the occupancy, copies the oldest bytes in order, and removes exactly those.\<close>

theorem ring_read_oldest_first:
  assumes "ring_ready rb"
  shows "\<exists>rb'. ring_read rb True len t =
      Some (int (min (unat len) (length (ring_contents rb))), take (unat len) (ring_contents rb), rb') \<and>
    ring_ready rb' \<and> ring_contents rb' = drop (unat len) (ring_contents rb)"
proof -
  have wf: "ring_wf rb" "ring_idle rb" using assms by (simp_all add: ring_ready_def)
  show ?thesis
    by (rule ring_read_spec [OF wf, of len t]) (auto simp: ring_ready_def)
qed

theorem ring_read_oldest_first_witness:
  "\<exists>rb'. ring_read ring_sample True 5 100 = Some (1, [7], rb') \<and> ring_ready rb' \<and> ring_contents rb' = []"
  using ring_read_oldest_first [OF ring_sample_ready, of 5 100]
  by (simp add: ring_contents_def ring_count_def ring_dist_def ring_slice_def ring_sample_def)

text \<open>The representation invariant of a constructed ring (buffer of the recorded size, indices inside it, full flag
  only when they meet, both mutexes there) over its whole interface, whatever the state of the two mutexes and whatever the arguments,
  if the caller's block is as long as it says: a write, a read and a clear keep it, a second construction returns the
  instance as it is, the four queries, which only return a value, return it whenever the read mutex is free. Deleting ends the life of the ring: the invariant is given up, every write
  and read is refused without touching the instance, and only a construction with an allocated block and two mutexes
  establishes the invariant again.\<close>

theorem ring_operations_keep_wf:
  assumes "ring_wf rb" and "unat len \<le> length data" and "length block = unat n" and "n \<noteq> 0"
  shows "(\<forall>ret rb'. ring_write rb (Some data) len t = Some (ret, rb') \<longrightarrow> ring_wf rb') \<and>
    (\<forall>ret rb'. ring_write rb None len t = Some (ret, rb') \<longrightarrow> ring_wf rb') \<and>
    (\<forall>ret bs rb'. ring_read rb ok len t = Some (ret, bs, rb') \<longrightarrow> ring_wf rb') \<and>
    (\<forall>rb'. ring_clear rb = Some rb' \<longrightarrow> ring_wf rb' \<and> ring_contents rb' = []) \<and>
    (read_mutex rb = Some Mutex_Free \<longrightarrow>
       ring_available rb = Some (ring_free rb) \<and> ring_used rb = Some (ring_occupied rb) \<and>
       ring_is_empty rb = Some (ring_contents rb = []) \<and> ring_is_full rb = Some (is_full_flag rb)) \<and>
    ring_buff_init n rb buf mr mw = (True, rb) \<and>
    \<not> ring_wf (ring_delete rb) \<and>
    ring_write (ring_delete rb) src len t = Some (-1, ring_delete rb) \<and>
    ring_read (ring_delete rb) ok len t = Some (0, [], ring_delete rb) \<and>
    (let (built, rb') = ring_buff_init n (ring_delete rb) (Some block) (Some Mutex_Free) (Some Mutex_Free)
     in built \<and> ring_wf rb' \<and> ring_contents rb' = [])"
proof (intro conjI allI impI)
  fix ret rb'
  assume "ring_write rb (Some data) len t = Some (ret, rb')"
  with assms(1,2) show "ring_wf rb'" by (rule ring_write_wf_aux)
next
  fix ret rb'
  assume "ring_write rb None len t = Some (ret, rb')"
  with assms show "ring_wf rb'" by (simp add: ring_write_def)
next
  fix ret bs rb'
  assume "ring_read rb ok len t = Some (ret, bs, rb')"
  with assms(1) show "ring_wf rb'" by (rule ring_read_wf_aux)
next
  fix rb'
  assume c: "ring_clear rb = Some rb'"
  have "0 < rb_size rb"
    using assms(1) by (auto simp: ring_wf_def word_less_nat_alt)
  with c assms(1) show "ring_wf rb'"
    by (auto simp: ring_clear_def ring_wf_def split: option.splits)
  from c assms(1) show "ring_contents rb' = []"
    by (auto simp: ring_clear_def ring_wf_def ring_contents_def ring_count_def ring_slice_def
        split: option.splits)
next
  assume m: "read_mutex rb = Some Mutex_Free"
  have w: "write_mutex rb \<noteq> None" using assms(1) by (simp add: ring_wf_def)
  show "ring_available rb = Some (ring_free rb)" "ring_used rb = Some (ring_occupied rb)" "ring_is_full rb = Some (is_full_flag rb)"
    using m w by (auto simp: ring_available_def ring_used_def ring_is_full_def ring_locked_query_def xSemaphoreTake_def)
  show "ring_is_empty rb = Some (ring_contents rb = [])"
    using m w ring_empty_iff [OF assms(1)] by (auto simp: ring_is_empty_def ring_locked_query_def xSemaphoreTake_def)
next
  show "ring_buff_init n rb buf mr mw = (True, rb)" using ring_wf_p_buff [OF assms(1)] by (auto simp: ring_buff_init_def)
  show "\<not> ring_wf (ring_delete rb)" by (simp add: ring_wf_def ring_delete_def)
  show "ring_write (ring_delete rb) src len t = Some (-1, ring_delete rb)"
    by (cases src) (simp_all add: ring_write_def ring_delete_def)
  show "ring_read (ring_delete rb) ok len t = Some (0, [], ring_delete rb)" by (simp add: ring_read_def ring_delete_def)
  show "let (built, rb') = ring_buff_init n (ring_delete rb) (Some block) (Some Mutex_Free) (Some Mutex_Free)
     in built \<and> ring_wf rb' \<and> ring_contents rb' = []"
    using assms(3,4) by (simp add: ring_buff_init_def ring_delete_def ring_wf_def ring_contents_def ring_count_def ring_slice_def
        Let_def word_gt_0)
qed

theorem ring_operations_keep_wf_witness:
  "(\<exists>rb'. ring_clear ring_sample = Some rb' \<and> ring_wf rb' \<and> ring_contents rb' = []) \<and> \<not> ring_wf (ring_delete ring_sample)"
proof -
  have wf: "ring_wf ring_sample" using ring_sample_ready by (simp add: ring_ready_def)
  have len: "unat (1 :: u16) \<le> length [9 :: u8]" "length [0, 0 :: u8] = unat (2 :: u16)" "(2 :: u16) \<noteq> 0" by simp_all
  obtain rb' where "ring_clear ring_sample = Some rb'" by (auto simp: ring_clear_def ring_sample_def xSemaphoreTake_def)
  with ring_operations_keep_wf [OF wf len] show ?thesis by blast
qed

text \<open>The two occupancy queries of a ready ring return, and they add up to the size of
  the ring; the empty and full predicates agree with them.\<close>

theorem ring_queries_consistent:
  assumes "ring_ready rb"
  shows "\<exists>a u. ring_available rb = Some a \<and> ring_used rb = Some u \<and>
    unat a + unat u = unat (rb_size rb) \<and> unat u = length (ring_contents rb) \<and>
    ring_is_empty rb = Some (u = 0) \<and> ring_is_full rb = Some (a = 0)"
proof -
  have wf: "ring_wf rb" and id: "ring_idle rb" using assms by (simp_all add: ring_ready_def)
  have le: "ring_count rb \<le> unat (rb_size rb)" using wf by (rule ring_count_le)
  from wf have b: "unat (head rb) < unat (rb_size rb)" "unat (tail rb) < unat (rb_size rb)"
    and f: "is_full_flag rb \<Longrightarrow> head rb = tail rb" by (auto elim: ring_wfE)
  have "(ring_occupied rb = 0) = (ring_count rb = 0)"
    using unat_ring_occupied [OF wf] by (metis unat_eq_zero)
  moreover have "(ring_count rb = 0) = (\<not> is_full_flag rb \<and> head rb = tail rb)"
    using b ring_dist_0_iff [OF b(2,1)] by (auto simp: ring_count_def word_unat_eq_iff)
  moreover have "(ring_free rb = 0) = (ring_count rb = unat (rb_size rb))"
    using unat_ring_free [OF wf] le by (metis diff_is_0_eq le_antisym order_refl unat_eq_zero)
  moreover have "(ring_count rb = unat (rb_size rb)) = is_full_flag rb"
    using ring_dist_less [OF b(2,1)] by (auto simp: ring_count_def)
  ultimately have "ring_is_empty rb = Some (ring_occupied rb = 0)" "ring_is_full rb = Some (ring_free rb = 0)"
    using id by (simp_all add: ring_is_empty_def ring_is_full_def ring_locked_query_def
        ring_idle_def xSemaphoreTake_def)
  moreover have "ring_available rb = Some (ring_free rb)" "ring_used rb = Some (ring_occupied rb)"
    using id by (simp_all add: ring_available_def ring_used_def ring_locked_query_def
        ring_idle_def xSemaphoreTake_def)
  ultimately show ?thesis
    using le unat_ring_free [OF wf] unat_ring_occupied [OF wf]
    by (intro exI [of _ "ring_free rb"] exI [of _ "ring_occupied rb"]) simp
qed

theorem ring_queries_consistent_witness:
  "\<exists>a u. ring_available ring_sample = Some a \<and> ring_used ring_sample = Some u \<and>
    unat a + unat u = 4 \<and> ring_is_empty ring_sample = Some (u = 0) \<and> ring_is_full ring_sample = Some (a = 0)"
  using ring_queries_consistent [OF ring_sample_ready] by (auto simp: ring_sample_def)

text \<open>The error paths. A null block or a zero length is refused with -1 (a read: with 0),
  an instance without buffer or mutex likewise, and a held mutex with a finite timeout is
  reported as -2; in all of these the ring is unchanged. With \<open>portMAX_DELAY\<close> and a held
  mutex the call does not return.\<close>

theorem ring_error_paths:
  "ring_write rb None len t = Some (-1, rb) \<and>
   ring_write rb data 0 t = Some (-1, rb) \<and>
   ring_read rb ok 0 t = Some (0, [], rb) \<and>
   ring_write (ring_delete rb) data len t = Some (-1, ring_delete rb) \<and>
   ring_read (ring_delete rb) ok len t = Some (0, [], ring_delete rb) \<and>
   (t \<noteq> portMAX_DELAY \<and> len \<noteq> 0 \<and> ring_wf rb \<and> write_mutex rb = Some Mutex_Held \<longrightarrow>
      ring_write rb (Some bytes) len t = Some (-2, rb)) \<and>
   (t \<noteq> portMAX_DELAY \<and> len \<noteq> 0 \<and> ring_wf rb \<and> read_mutex rb = Some Mutex_Held \<longrightarrow>
      ring_read rb True len t = Some (-2, [], rb)) \<and>
   (len \<noteq> 0 \<and> ring_wf rb \<and> write_mutex rb = Some Mutex_Held \<longrightarrow>
      ring_write rb (Some bytes) len portMAX_DELAY = None)"
proof (intro conjI impI)
  show "ring_write rb data 0 t = Some (-1, rb)"
    by (cases data) (simp_all add: ring_write_def)
  show "ring_write (ring_delete rb) data len t = Some (-1, ring_delete rb)"
    by (cases data) (simp_all add: ring_write_def ring_delete_def)
qed (use ring_wf_p_buff in \<open>force simp: ring_write_def ring_read_def ring_delete_def
      xSemaphoreTake_def ring_timeout_ticks_def pdMS_TO_TICKS_def configTICK_RATE_HZ_def\<close>)+

theorem ring_error_paths_witness:
  "ring_write (ring_sample\<lparr>write_mutex := Some Mutex_Held\<rparr>) (Some [1]) 1 100 =
     Some (-2, ring_sample\<lparr>write_mutex := Some Mutex_Held\<rparr>) \<and>
   ring_write (ring_sample\<lparr>write_mutex := Some Mutex_Held\<rparr>) (Some [1]) 1 portMAX_DELAY = None"
  using ring_error_paths [of "ring_sample\<lparr>write_mutex := Some Mutex_Held\<rparr>" 1 100 None True "[1]"]
    ring_sample_ready
  by (simp add: portMAX_DELAY_def ring_ready_def)

text \<open>The life cycle. Building the zero-initialised or a deleted instance with an
  allocated block of the requested, non-zero size and two new mutexes gives a ready, empty
  ring of that size; when an allocation fails the instance stays unusable (its buffer
  pointer is null); building an instance that already exists does not touch it.\<close>

theorem ring_life_cycle:
  assumes "length block = unat n" and "n \<noteq> 0" and "mr = None \<or> mw = None"
  shows "(\<exists>rb. ring_buff_init n (ring_delete old) (Some block) (Some Mutex_Free) (Some Mutex_Free) = (True, rb) \<and>
      ring_ready rb \<and> ring_contents rb = [] \<and> rb_size rb = n \<and>
      ring_buff_init m rb buf mr mw = (True, rb)) \<and>
    ring_buff_init n ring_instance0 None mr mw = (False, ring_instance0) \<and>
    fst (ring_buff_init n ring_instance0 (Some block) mr mw) = False \<and>
    p_buff (snd (ring_buff_init n ring_instance0 (Some block) mr mw)) = None"
  using assms
  by (simp add: ring_buff_init_def ring_delete_def ring_instance0_def ring_ready_def ring_wf_def
      ring_idle_def ring_contents_def ring_count_def ring_slice_def Let_def word_gt_0)

theorem ring_life_cycle_witness:
  "(\<exists>rb. ring_buff_init 2 (ring_delete ring_sample) (Some [5, 6]) (Some Mutex_Free) (Some Mutex_Free) = (True, rb) \<and>
     ring_ready rb \<and> ring_contents rb = [] \<and> rb_size rb = 2) \<and>
   p_buff (snd (ring_buff_init 2 ring_instance0 (Some [5, 6]) None None)) = None"
  using ring_life_cycle [of "[5, 6]" 2 None None ring_sample 0 None] by auto

end
