(* ===== verification/PowerInterface.thy ===== *)
theory PowerInterface
  imports YfyCommands RingBuffer
begin

text \<open>
  The power-module abstraction, \<^verbatim>\<open>src/Lib/converter/power_interface.c\<close>: the table of
  function pointers, the selected entry and the task that runs the YFY library. The tick
  counter and the delay of the kernel act on the environment and are parameters; a task
  handle is an option, \<open>None\<close> for \<open>NULL\<close>. A task function is named by a constructor, and its
  endless loop is a run of \<open>n\<close> iterations for every \<open>n\<close>.
\<close>

section \<open>Definitions\<close>

datatype module_type_t = eModuleTypeYfy | eModuleTypeMax

fun module_type_value :: "module_type_t \<Rightarrow> nat" where
  "module_type_value eModuleTypeYfy = 0"
| "module_type_value eModuleTypeMax = 1"

datatype task_function = yfy_module_task_fn

record 'e power_interface_t =
  xHandle :: "nat option"
  module_task :: "task_function option"
  set_sys_addr_model :: "u8 \<Rightarrow> 'e yfy_state \<Rightarrow> 'e yfy_state"
  set_group_output :: "u8 \<Rightarrow> u32 \<Rightarrow> u32 \<Rightarrow> 'e yfy_state \<Rightarrow> 'e yfy_state"
  set_single_output :: "u8 \<Rightarrow> u32 \<Rightarrow> u32 \<Rightarrow> 'e yfy_state \<Rightarrow> 'e yfy_state"
  get_sys_module_num :: "u8 option \<Rightarrow> 'e yfy_state \<Rightarrow> (bool \<times> u8 option) option"
  get_single_voltage :: "u8 \<Rightarrow> u32 option \<Rightarrow> 'e yfy_state \<Rightarrow> (bool \<times> u32 option) option"
  get_single_current :: "u8 \<Rightarrow> u32 option \<Rightarrow> 'e yfy_state \<Rightarrow> (bool \<times> u32 option) option"
  get_single_is_online :: "u8 \<Rightarrow> 'e yfy_state \<Rightarrow> bool option"

record 'e power_state =
  power_interface :: "'e power_interface_t list"
  power_control :: "nat option"
  yfy_module_task_handle :: "nat option"

definition power_static :: "'e power_state" where
  "power_static =
     \<lparr>power_interface =
        [\<lparr>xHandle = None, module_task = None,
          set_sys_addr_model = yfy_send_write_sys_addr_model,
          set_group_output = yfy_send_write_output_all_by_group,
          set_single_output = yfy_send_write_single_output,
          get_sys_module_num = yfy_get_sys_module_num,
          get_single_voltage = yfy_get_module_voltage,
          get_single_current = yfy_get_module_current,
          get_single_is_online = yfy_module_is_online\<rparr>],
      power_control = None, yfy_module_task_handle = None\<rparr>"

definition power_interface_init :: "module_type_t \<Rightarrow> 'e power_state \<Rightarrow> bool \<times> 'e power_state" where
  "power_interface_init module_type ps =
     (if module_type_value module_type < module_type_value eModuleTypeMax
      then (True, ps\<lparr>power_control := Some (module_type_value module_type)\<rparr>)
      else (False, ps))"

definition power_interface_get :: "'e power_state \<Rightarrow> 'e power_interface_t option" where
  "power_interface_get ps = map_option (\<lambda>i. power_interface ps ! i) (power_control ps)"

definition power_interface_pre_init :: "'e power_state \<Rightarrow> 'e power_state" where
  "power_interface_pre_init ps =
     ps\<lparr>power_interface := (power_interface ps)[module_type_value eModuleTypeYfy :=
          (power_interface ps ! module_type_value eModuleTypeYfy)
            \<lparr>xHandle := yfy_module_task_handle ps, module_task := Some yfy_module_task_fn\<rparr>]\<rparr>"

text \<open>The control task up to its idle loop.\<close>

definition power_control_task :: "'e power_state \<Rightarrow> 'e power_state" where
  "power_control_task ps = snd (power_interface_init eModuleTypeYfy (power_interface_pre_init ps))"

definition module_data_send :: "u32 \<Rightarrow> u8 list \<Rightarrow> 'e \<Rightarrow> bool \<times> 'e" where
  "module_data_send ident pdata e = (True, e)"

definition module_data_recv :: "u8 \<Rightarrow> u8 list \<Rightarrow> 'e \<Rightarrow> bool \<times> u8 list \<times> 'e" where
  "module_data_recv ident pdata e = (True, pdata, e)"

definition module_data_time :: "('e \<Rightarrow> u32 \<times> 'e) \<Rightarrow> 'e \<Rightarrow> u32 \<times> 'e" where
  "module_data_time xTaskGetTickCount e = xTaskGetTickCount e"

text \<open>The loop of the module task, \<open>n\<close> times around.\<close>

fun yfy_module_task_loop :: "(u32 \<Rightarrow> 'e \<Rightarrow> 'e) \<Rightarrow> u32 \<Rightarrow> nat \<Rightarrow> 'e yfy_state \<Rightarrow> 'e yfy_state option" where
  "yfy_module_task_loop vTaskDelay period 0 st = Some st"
| "yfy_module_task_loop vTaskDelay period (Suc n) st =
     (case yfy_process_data st of
        None \<Rightarrow> None
      | Some st1 \<Rightarrow> yfy_module_task_loop vTaskDelay period n
          (st1\<lparr>env := vTaskDelay (pdMS_TO_TICKS period) (env st1)\<rparr>))"

definition yfy_module_task ::
  "('e \<Rightarrow> u32 \<times> 'e) \<Rightarrow> (u32 \<Rightarrow> 'e \<Rightarrow> 'e) \<Rightarrow> u32 \<Rightarrow> nat \<Rightarrow> 'e yfy_state \<Rightarrow> 'e yfy_state option" where
  "yfy_module_task xTaskGetTickCount vTaskDelay period n st =
     yfy_module_task_loop vTaskDelay period n
       (yfy_module_handle_init (Some module_data_send) (Some module_data_recv)
          (Some (module_data_time xTaskGetTickCount)) st)"

section \<open>The module task\<close>

text \<open>One pass of the receive loop on the task's own callbacks: ten frames of identifier 0.\<close>

lemma process_loop_marks_module0:
  assumes "time (module_handle st) = Some clock" and "length (stModuleOnlineInfo st) = MODULE_NUM"
  shows "\<exists>st'. process_loop (Suc n) module_data_recv 0 pdata st = Some st' \<and>
     module_handle st' = module_handle st \<and> stModuleData st' = stModuleData st \<and>
     stGroupModuleData st' = stGroupModuleData st \<and> stSysModuleData st' = stSysModuleData st \<and>
     length (stModuleOnlineInfo st') = MODULE_NUM \<and> is_online (stModuleOnlineInfo st' ! 0) \<and>
     (\<forall>i. 0 < i \<longrightarrow> stModuleOnlineInfo st' ! i = stModuleOnlineInfo st ! i)"
  using assms
proof (induction n arbitrary: st)
  case 0
  have "yfy_data_parse 0 0 0 pdata st = Some (False,
      st\<lparr>env := snd (clock (env st)), stModuleOnlineInfo := (stModuleOnlineInfo st)[0 :=
          \<lparr>oi_module_addr = 0, last_online_time = fst (clock (env st)), is_online = True\<rparr>]\<rparr>)"
    by (rule parse_ident_zero [OF 0(1)])
  with 0 show ?case
    by (simp add: module_data_recv_def ident_zero MODULE_NUM_def)
next
  case (Suc n)
  let ?st = "st\<lparr>env := snd (clock (env st)), stModuleOnlineInfo := (stModuleOnlineInfo st)[0 :=
          \<lparr>oi_module_addr = 0, last_online_time = fst (clock (env st)), is_online = True\<rparr>]\<rparr>"
  have step: "process_loop (Suc (Suc n)) module_data_recv 0 pdata st = process_loop (Suc n) module_data_recv 0 pdata ?st"
    using parse_ident_zero [OF Suc.prems(1), of pdata]
    by (subst process_loop.simps(2)) (simp add: module_data_recv_def ident_zero Let_def del: process_loop.simps)
  have "time (module_handle ?st) = Some clock" "length (stModuleOnlineInfo ?st) = MODULE_NUM"
    using Suc.prems by simp_all
  from Suc.IH [OF this] show ?case unfolding step by (simp del: process_loop.simps)
qed

text \<open>What the task keeps and what it changes, from one state of the library to a later one.\<close>

definition phantom_step :: "'e yfy_state \<Rightarrow> 'e yfy_state \<Rightarrow> bool" where
  "phantom_step st st' \<longleftrightarrow> module_handle st' = module_handle st \<and> stModuleData st' = stModuleData st \<and>
     stGroupModuleData st' = stGroupModuleData st \<and> stSysModuleData st' = stSysModuleData st \<and>
     length (stModuleOnlineInfo st') = MODULE_NUM \<and>
     (\<forall>i. 0 < i \<longrightarrow> i < MODULE_NUM \<longrightarrow> is_online (stModuleOnlineInfo st' ! i) \<longrightarrow> is_online (stModuleOnlineInfo st ! i))"

lemma phantom_step_trans: "phantom_step a b \<Longrightarrow> phantom_step b c \<Longrightarrow> phantom_step a c"
  by (simp add: phantom_step_def)

lemma process_on_own_callbacks:
  assumes "recv (module_handle st) = Some module_data_recv" and "time (module_handle st) = Some clock"
    and "length (stModuleOnlineInfo st) = MODULE_NUM"
  shows "\<exists>st'. yfy_process_data st = Some st' \<and> phantom_step st st' \<and> is_online (stModuleOnlineInfo st' ! 0)"
proof -
  obtain st1 where st1: "module_online_check st = Some st1" "module_handle st1 = module_handle st"
      "length (stModuleOnlineInfo st1) = MODULE_NUM" "stModuleData st1 = stModuleData st"
      "stGroupModuleData st1 = stGroupModuleData st" "stSysModuleData st1 = stSysModuleData st"
    and off: "\<And>i. i < MODULE_NUM \<Longrightarrow> is_online (stModuleOnlineInfo st1 ! i) \<Longrightarrow> is_online (stModuleOnlineInfo st ! i)"
    using module_online_check_run [OF assms(2)] assms(3)
    by (auto simp: online_refresh_def split: if_splits)
  have "yfy_process_data st = process_loop (Suc 9) module_data_recv 0 (replicate 8 0) st1"
    using assms(1) st1(1) by (simp add: yfy_process_data_def del: process_loop.simps)
  with process_loop_marks_module0 [of st1 clock 9 "replicate 8 0"] st1 off assms(2) show ?thesis
    unfolding phantom_step_def by (simp del: process_loop.simps replicate_Suc) metis
qed

lemma module_task_loop_phantom:
  assumes "recv (module_handle st) = Some module_data_recv" and "time (module_handle st) = Some clock"
    and "length (stModuleOnlineInfo st) = MODULE_NUM"
  shows "\<exists>st'. yfy_module_task_loop delay period (Suc n) st = Some st' \<and> phantom_step st st' \<and>
    is_online (stModuleOnlineInfo st' ! 0)"
  using assms
proof (induction n arbitrary: st)
  case 0
  obtain st1 where "yfy_process_data st = Some st1" "phantom_step st st1" "is_online (stModuleOnlineInfo st1 ! 0)"
    using process_on_own_callbacks [OF 0] by blast
  then show ?case by (simp add: phantom_step_def)
next
  case (Suc n)
  obtain st1 where st1: "yfy_process_data st = Some st1" "phantom_step st st1"
    using process_on_own_callbacks [OF Suc.prems] by blast
  let ?st = "st1\<lparr>env := delay (pdMS_TO_TICKS period) (env st1)\<rparr>"
  have "phantom_step st ?st" using st1(2) by (simp add: phantom_step_def)
  moreover have "recv (module_handle ?st) = Some module_data_recv" "time (module_handle ?st) = Some clock"
    "length (stModuleOnlineInfo ?st) = MODULE_NUM"
    using st1(2) Suc.prems by (simp_all add: phantom_step_def)
  moreover have "yfy_module_task_loop delay period (Suc (Suc n)) st = yfy_module_task_loop delay period (Suc n) ?st"
    using st1(1) by simp
  ultimately show ?case using Suc.IH [of ?st] phantom_step_trans by metis
qed

section \<open>Properties\<close>

text \<open>The module task as it is wired. With its placeholder callbacks, and whatever the
  tick counter and the delays do, the task runs for ever (every number of iterations completes
  without leaving an array); from the first iteration on module 0 is reported online although no
  frame was ever received, no other module ever becomes online, and no measurement of any module,
  group or the system ever changes.\<close>

theorem yfy_module_task_phantom:
  assumes "yfy_wf st"
  shows "\<exists>st'. yfy_module_task tick delay period (Suc n) st = Some st' \<and>
     yfy_module_is_online 0 st' = Some True \<and>
     (\<forall>a. a \<noteq> 0 \<longrightarrow> yfy_module_is_online a st' = Some True \<longrightarrow> yfy_module_is_online a st = Some True) \<and>
     stModuleData st' = stModuleData st \<and> stGroupModuleData st' = stGroupModuleData st \<and>
     stSysModuleData st' = stSysModuleData st"
proof -
  let ?st = "yfy_module_handle_init (Some module_data_send) (Some module_data_recv) (Some (module_data_time tick)) st"
  have len: "length (stModuleOnlineInfo st) = MODULE_NUM" using assms by (simp add: yfy_wf_def)
  then have "recv (module_handle ?st) = Some module_data_recv" "time (module_handle ?st) = Some (module_data_time tick)"
    "length (stModuleOnlineInfo ?st) = MODULE_NUM"
    by (simp_all add: yfy_module_handle_init_def)
  from module_task_loop_phantom [OF this, of delay period n] obtain st' where
    run: "yfy_module_task tick delay period (Suc n) st = Some st'"
    and st': "phantom_step ?st st'" "is_online (stModuleOnlineInfo st' ! 0)"
    unfolding yfy_module_task_def by blast
  have fields: "stModuleData ?st = stModuleData st" "stGroupModuleData ?st = stGroupModuleData st"
    "stSysModuleData ?st = stSysModuleData st" "stModuleOnlineInfo ?st = stModuleOnlineInfo st"
    by (simp_all add: yfy_module_handle_init_def)
  have "yfy_module_is_online a st = Some True" if "a \<noteq> 0" "yfy_module_is_online a st' = Some True" for a
    using that st'(1) len unfolding phantom_step_def fields
    by (auto simp: yfy_module_is_online_def unat_gt_0 split: if_splits)
  moreover have "yfy_module_is_online 0 st' = Some True"
    using st' by (simp add: phantom_step_def yfy_module_is_online_def MODULE_NUM_def)
  ultimately show ?thesis
    using run st'(1) unfolding phantom_step_def fields by blast
qed

theorem yfy_module_task_phantom_witness:
  "\<exists>st'. yfy_module_task (\<lambda>e. (e, e)) (\<lambda>d e. e + d) 10 (Suc 2) (yfy_static 1) = Some st' \<and>
     yfy_module_is_online 0 st' = Some True"
  using yfy_module_task_phantom [OF yfy_static_wf [of 1], of "\<lambda>e. (e, e)" "\<lambda>d e. e + d" 10 2] by blast

text \<open>Selecting an interface. Only the YFY type can be selected, an invalid type leaves
  the selection as it was; after the start of the control task the selected entry is the YFY one
  with its operations and its task function, but without a task: its handle is still null.\<close>

theorem power_interface_selection:
  "power_interface_init eModuleTypeMax ps = (False, ps) \<and>
   power_interface_get (power_static :: 'e power_state) = None \<and>
   (\<exists>p. power_interface_get (power_control_task (power_static :: 'e power_state)) = Some p \<and>
      xHandle p = None \<and> module_task p = Some yfy_module_task_fn \<and>
      set_single_output p = yfy_send_write_single_output \<and>
      set_group_output p = yfy_send_write_output_all_by_group \<and>
      get_single_voltage p = yfy_get_module_voltage \<and> get_single_is_online p = yfy_module_is_online)"
  by (simp add: power_interface_init_def power_interface_get_def power_control_task_def
      power_interface_pre_init_def power_static_def)

end
