(* ===== verification/CliParse.thy ===== *)
theory CliParse
  imports Prelude
begin

text \<open>
  The string functions of the command interpreter, from \<^verbatim>\<open>src/Lib/cli/FreeRTOS_CLI.c\<close>: counting and
  finding the parameters of a command line. A C string is the list of its characters before the
  terminator; \<open>cstr_at\<close> reads the terminator behind the last one. Both functions are related to one
  definition of the parameters: the words, separated by runs of spaces, behind the first word.
\<close>

section \<open>Definitions\<close>

abbreviation NUL :: char where "NUL \<equiv> CHR 0x00"
abbreviation SPC :: char where "SPC \<equiv> CHR 0x20"

definition cstr_at :: "string \<Rightarrow> nat \<Rightarrow> char" where
  "cstr_at s i = (if i < length s then s ! i else NUL)"

text \<open>The counter is an \<open>int8_t\<close>.\<close>

fun count_loop :: "string \<Rightarrow> 8 word \<Rightarrow> bool \<Rightarrow> 8 word \<times> bool" where
  "count_loop [] cParameters xLastCharacterWasSpace = (cParameters, xLastCharacterWasSpace)"
| "count_loop (c # s) cParameters xLastCharacterWasSpace =
     (if c = SPC
      then (if \<not> xLastCharacterWasSpace then count_loop s (cParameters + 1) True
            else count_loop s cParameters xLastCharacterWasSpace)
      else count_loop s cParameters False)"

definition prvGetNumberOfParameters :: "string \<Rightarrow> 8 word" where
  "prvGetNumberOfParameters s =
     (let (cParameters, xLastCharacterWasSpace) = count_loop s 0 False
      in if xLastCharacterWasSpace then cParameters - 1 else cParameters)"

text \<open>The two inner loops move the pointer, here an index, over a word and over spaces.\<close>

function skip_word :: "string \<Rightarrow> nat \<Rightarrow> nat" where
  "skip_word s i = (if i < length s \<and> s ! i \<noteq> SPC then skip_word s (i + 1) else i)"
  by auto
termination by (relation "measure (\<lambda>(s, i). length s - i)") auto

function skip_spaces :: "string \<Rightarrow> nat \<Rightarrow> nat" where
  "skip_spaces s i = (if i < length s \<and> s ! i = SPC then skip_spaces s (i + 1) else i)"
  by auto
termination by (relation "measure (\<lambda>(s, i). length s - i)") auto

declare skip_word.simps [simp del] skip_spaces.simps [simp del]

lemma skip_word_ge: "i \<le> skip_word s i"
  by (induction s i rule: skip_word.induct) (subst skip_word.simps, auto)

lemma skip_spaces_ge: "i \<le> skip_spaces s i"
  by (induction s i rule: skip_spaces.induct) (subst skip_spaces.simps, auto)

text \<open>The outer loop. The result is the position of the parameter and its length, \<open>None\<close> for \<open>NULL\<close>.\<close>

function get_parameter_loop :: "string \<Rightarrow> nat \<Rightarrow> nat \<Rightarrow> nat \<Rightarrow> (nat \<times> nat) option" where
  "get_parameter_loop s uxWantedParameter uxParametersFound i =
     (if uxParametersFound < uxWantedParameter
      then (let j = skip_spaces s (skip_word s i)
            in if j < length s
               then (if uxParametersFound + 1 = uxWantedParameter
                     then (let len = skip_word s j - j in if len = 0 then None else Some (j, len))
                     else get_parameter_loop s uxWantedParameter (uxParametersFound + 1) j)
               else None)
      else None)"
  by auto
termination by (relation "measure (\<lambda>(s, n, k, i). n - k)") auto

declare get_parameter_loop.simps [simp del]

definition FreeRTOS_CLIGetParameter :: "string \<Rightarrow> nat \<Rightarrow> (nat \<times> nat) option" where
  "FreeRTOS_CLIGetParameter s uxWantedParameter = get_parameter_loop s uxWantedParameter 0 0"

section \<open>The parameters of a command line\<close>

text \<open>The words behind the first one; \<open>space_words\<close> is also used behind a run of spaces.\<close>

function space_words :: "string \<Rightarrow> string list" where
  "space_words s =
     (case dropWhile (\<lambda>c. c = SPC) s of
        [] \<Rightarrow> []
      | c # cs \<Rightarrow> takeWhile (\<lambda>c. c \<noteq> SPC) (c # cs) # space_words (dropWhile (\<lambda>c. c \<noteq> SPC) (c # cs)))"
  by auto
termination
proof (relation "measure length")
  fix s c cs
  assume eq: "dropWhile (\<lambda>c. c = SPC) s = c # cs"
  then have "c \<noteq> SPC" using hd_dropWhile [of "\<lambda>c. c = SPC" s] by simp
  then have "length (dropWhile (\<lambda>c. c \<noteq> SPC) (c # cs)) \<le> length cs" by (simp add: length_dropWhile_le)
  moreover have "length (c # cs) \<le> length s" using length_dropWhile_le [of "\<lambda>c. c = SPC" s] eq by simp
  ultimately show "(dropWhile (\<lambda>c. c \<noteq> SPC) (c # cs), s) \<in> measure length" by simp
qed simp

declare space_words.simps [simp del]

definition cli_parameters :: "string \<Rightarrow> string list" where
  "cli_parameters s = space_words (dropWhile (\<lambda>c. c \<noteq> SPC) s)"

lemma space_words_Nil: "space_words [] = []"
  by (subst space_words.simps) simp

lemma space_words_space: "space_words (SPC # s) = space_words s"
  by (subst (1 2) space_words.simps) simp

lemma space_words_word: "c \<noteq> SPC \<Longrightarrow> space_words (c # s) = (c # takeWhile (\<lambda>c. c \<noteq> SPC) s) # cli_parameters s"
  by (subst space_words.simps) (simp add: cli_parameters_def)

lemma cli_parameters_simps:
  "cli_parameters [] = []" "cli_parameters (SPC # s) = space_words s"
  "c \<noteq> SPC \<Longrightarrow> cli_parameters (c # s) = cli_parameters s"
  by (simp_all add: cli_parameters_def space_words_Nil space_words_space)

section \<open>Counting\<close>

text \<open>
  In a word the loop adds one per following word, and one more if the line ends in spaces; in a run of spaces it has counted
  the word to come already.
\<close>

definition count_result :: "8 word \<times> bool \<Rightarrow> 8 word" where
  "count_result r = (if snd r then fst r - 1 else fst r)"

lemma count_loop_words:
  "count_result (count_loop s k False) = k + word_of_nat (length (cli_parameters s)) \<and>
   count_result (count_loop s k True) = k - 1 + word_of_nat (length (space_words s))"
proof (induction s arbitrary: k)
  case Nil
  show ?case by (simp add: count_result_def cli_parameters_simps space_words_Nil)
next
  case (Cons c s)
  show ?case using Cons.IH
    by (cases "c = SPC") (simp_all add: cli_parameters_simps space_words_space space_words_word)
qed

lemma prvGetNumberOfParameters_words: "prvGetNumberOfParameters s = word_of_nat (length (cli_parameters s))"
  using count_loop_words [of s 0] by (simp add: prvGetNumberOfParameters_def count_result_def case_prod_beta)

section \<open>Finding\<close>

lemma drop_skip_word: "drop (skip_word s i) s = dropWhile (\<lambda>c. c \<noteq> SPC) (drop i s)"
proof (induction s i rule: skip_word.induct)
  case (1 s i)
  show ?case
  proof (cases "i < length s \<and> s ! i \<noteq> SPC")
    case True
    then have "drop i s = s ! i # drop (i + 1) s" by (simp add: Cons_nth_drop_Suc)
    then show ?thesis using 1 True by (subst skip_word.simps) simp
  next
    case False
    then have "dropWhile (\<lambda>c. c \<noteq> SPC) (drop i s) = drop i s"
      by (cases "i < length s") (auto simp: dropWhile_eq_self_iff hd_drop_conv_nth)
    then show ?thesis using False by (subst skip_word.simps) auto
  qed
qed

lemma drop_skip_spaces: "drop (skip_spaces s i) s = dropWhile (\<lambda>c. c = SPC) (drop i s)"
proof (induction s i rule: skip_spaces.induct)
  case (1 s i)
  show ?case
  proof (cases "i < length s \<and> s ! i = SPC")
    case True
    then obtain cs where cs: "drop i s = SPC # cs" and "drop (i + 1) s = cs"
      using Cons_nth_drop_Suc [of i s] by (metis Suc_eq_plus1)
    then show ?thesis using 1 True by (subst skip_spaces.simps) simp
  next
    case False
    then have "dropWhile (\<lambda>c. c = SPC) (drop i s) = drop i s"
      by (cases "i < length s") (auto simp: dropWhile_eq_self_iff hd_drop_conv_nth)
    then show ?thesis using False by (subst skip_spaces.simps) auto
  qed
qed

lemma skip_word_len: "i \<le> length s \<Longrightarrow> skip_word s i \<le> length s"
  by (induction s i rule: skip_word.induct) (subst skip_word.simps, auto)

lemma skip_word_takeWhile: "i \<le> length s \<Longrightarrow> take (skip_word s i - i) (drop i s) = takeWhile (\<lambda>c. c \<noteq> SPC) (drop i s)"
proof -
  assume i: "i \<le> length s"
  let ?n = "skip_word s i - i"
  have "takeWhile (\<lambda>c. c \<noteq> SPC) (drop i s) @ dropWhile (\<lambda>c. c \<noteq> SPC) (drop i s) = take ?n (drop i s) @ drop ?n (drop i s)"
    by (simp only: takeWhile_dropWhile_id append_take_drop_id)
  moreover have "drop ?n (drop i s) = drop (skip_word s i) s" using skip_word_ge [of i s] by simp
  ultimately have "takeWhile (\<lambda>c. c \<noteq> SPC) (drop i s) @ drop (skip_word s i) s = take ?n (drop i s) @ drop (skip_word s i) s"
    by (simp only: drop_skip_word)
  then show ?thesis by (simp only: append_same_eq)
qed

lemma get_parameter_loop_words:
  assumes "k < n" and "i \<le> length s"
  shows "(case get_parameter_loop s n k i of None \<Rightarrow> n - k > length (cli_parameters (drop i s))
     | Some (j, len) \<Rightarrow> n - k \<le> length (cli_parameters (drop i s)) \<and> j + len \<le> length s \<and>
         take len (drop j s) = cli_parameters (drop i s) ! (n - k - 1))"
  using assms
proof (induction s n k i rule: get_parameter_loop.induct)
  case (1 s n k i)
  let ?j = "skip_spaces s (skip_word s i)"
  have rest: "drop ?j s = dropWhile (\<lambda>c. c = SPC) (dropWhile (\<lambda>c. c \<noteq> SPC) (drop i s))"
    by (simp add: drop_skip_spaces drop_skip_word)
  show ?case
  proof (cases "?j < length s")
    case False
    then have "cli_parameters (drop i s) = []" using rest unfolding cli_parameters_def by (subst space_words.simps) simp
    then show ?thesis using False 1(2) by (subst get_parameter_loop.simps) simp
  next
    case True
    then obtain c cs where c: "drop ?j s = c # cs" by (metis Cons_nth_drop_Suc)
    have ns: "c \<noteq> SPC" using c rest hd_dropWhile [of "\<lambda>c. c = SPC" "dropWhile (\<lambda>c. c \<noteq> SPC) (drop i s)"] by simp
    have par: "cli_parameters (drop i s) = takeWhile (\<lambda>c. c \<noteq> SPC) (c # cs) # cli_parameters (c # cs)"
      unfolding cli_parameters_def by (subst space_words.simps) (simp add: rest [symmetric] c)
    have w: "take (skip_word s ?j - ?j) (drop ?j s) = takeWhile (\<lambda>c. c \<noteq> SPC) (drop ?j s)" using True by (intro skip_word_takeWhile) simp
    have len: "?j + (skip_word s ?j - ?j) \<le> length s" using skip_word_len [of ?j s] skip_word_ge [of ?j s] True by simp
    show ?thesis
    proof (cases "k + 1 = n")
      case kn: True
      have "skip_word s ?j - ?j \<noteq> 0" using w c ns by auto
      then have "get_parameter_loop s n k i = Some (?j, skip_word s ?j - ?j)"
        using True kn by (subst get_parameter_loop.simps) (simp add: Let_def)
      then show ?thesis using kn w len c par by auto
    next
      case False
      have n: "n - k = Suc (n - (k + 1))" "0 < n - (k + 1)" using 1(2) False by auto
      have "get_parameter_loop s n k i = get_parameter_loop s n (k + 1) ?j"
        using 1(2) True False by (subst get_parameter_loop.simps) (simp add: Let_def)
      moreover have "k + 1 < n" "?j \<le> length s" using n True by auto
      ultimately show ?thesis
        using 1(1) [OF 1(2) refl True False] par n unfolding c
        by (auto simp: nth_Cons' split: option.splits)
    qed
  qed
qed

lemma FreeRTOS_CLIGetParameter_words:
  "map_option (\<lambda>(j, len). take len (drop j s)) (FreeRTOS_CLIGetParameter s n) =
     (if 1 \<le> n \<and> n \<le> length (cli_parameters s) then Some (cli_parameters s ! (n - 1)) else None)"
proof (cases "n = 0")
  case True
  then show ?thesis unfolding FreeRTOS_CLIGetParameter_def by (subst get_parameter_loop.simps) simp
next
  case False
  then show ?thesis
    using get_parameter_loop_words [of 0 n 0 s] unfolding FreeRTOS_CLIGetParameter_def
    by (auto split: option.splits)
qed

text \<open>Joining words with single spaces and reading the parameters back.\<close>

lemma cli_parameters_skip: "SPC \<notin> set w \<Longrightarrow> cli_parameters (w @ s) = cli_parameters s"
  by (induction w) (auto simp: cli_parameters_simps)

lemma cli_parameters_join:
  assumes "SPC \<notin> set w" and "\<forall>v\<in>set ws. v \<noteq> [] \<and> SPC \<notin> set v"
  shows "cli_parameters (w @ concat (map (\<lambda>v. SPC # v) ws)) = ws"
  using assms
proof (induction ws arbitrary: w)
  case Nil
  then show ?case using cli_parameters_skip [of w "[]"] by (simp add: cli_parameters_simps)
next
  case (Cons v ws)
  then obtain c cs where v: "v = c # cs" "c \<noteq> SPC" "SPC \<notin> set cs" by (cases v) auto
  let ?rest = "concat (map (\<lambda>v. SPC # v) ws)"
  have stop: "takeWhile (\<lambda>c. c \<noteq> SPC) ?rest = []" by (cases ws) auto
  have "takeWhile (\<lambda>c. c \<noteq> SPC) (cs @ ?rest) = cs @ takeWhile (\<lambda>c. c \<noteq> SPC) ?rest"
    by (rule takeWhile_append2) (use v in auto)
  then have first: "takeWhile (\<lambda>c. c \<noteq> SPC) (cs @ ?rest) = cs" unfolding stop by simp
  have "cli_parameters (w @ concat (map (\<lambda>v. SPC # v) (v # ws))) = space_words (v @ ?rest)"
    using Cons.prems(1) by (simp add: cli_parameters_skip cli_parameters_simps)
  also have "\<dots> = v # cli_parameters (cs @ ?rest)" using v first by (simp add: space_words_word)
  also have "\<dots> = v # ws" using Cons.IH [of cs] Cons.prems(2) v by simp
  finally show ?case .
qed

text \<open>
  The parameters of a command line. For every line the counted number of parameters is the number of
  words behind the first word (in eight bits), and asking for the parameter with number \<open>n\<close> returns exactly the
  \<open>n\<close>-th of these words, and \<open>NULL\<close> for number 0 and for numbers beyond the last; in particular the
  parameters that a caller joins with spaces behind a command word are counted and found as they are.
\<close>

theorem cli_parameters_found:
  "prvGetNumberOfParameters s = word_of_nat (length (cli_parameters s)) \<and>
   map_option (\<lambda>(j, len). take len (drop j s)) (FreeRTOS_CLIGetParameter s n) =
     (if 1 \<le> n \<and> n \<le> length (cli_parameters s) then Some (cli_parameters s ! (n - 1)) else None) \<and>
   (SPC \<notin> set w \<and> (\<forall>v\<in>set ws. v \<noteq> [] \<and> SPC \<notin> set v) \<longrightarrow>
     cli_parameters (w @ concat (map (\<lambda>v. SPC # v) ws)) = ws)"
  using prvGetNumberOfParameters_words [of s] FreeRTOS_CLIGetParameter_words [of s n] cli_parameters_join [of w ws]
  by blast

theorem cli_parameters_found_witness:
  "prvGetNumberOfParameters ''set  on 5 '' = 2 \<and> cli_parameters ''set on 5'' = [''on'', ''5'']"
proof -
  have "cli_parameters (''set'' @ concat (map (\<lambda>v. SPC # v) [''on'', ''5''])) = [''on'', ''5'']"
    using cli_parameters_found [of "''x''" 1 "''set''" "[''on'', ''5'']"] by simp
  moreover have "prvGetNumberOfParameters ''set  on 5 '' = 2" by code_simp
  ultimately show ?thesis by simp
qed

end
