(* ===== verification/CliCommands.thy ===== *)
theory CliCommands
  imports CliParse
begin

text \<open>
  The command interpreter of \<^verbatim>\<open>src/Lib/cli/FreeRTOS_CLI.c\<close>: the linked list of registered commands, the lookup of
  a command line, the calls of the command functions and the built-in help command. The list items are
  objects in a store from addresses to items, so that registration is the pointer surgery the code performs; the
  static cursors of the two functions that are called repeatedly are part of the state. The command functions of
  an application are reached through pointers: their type and the function \<open>call\<close> that runs them are parameters.

  The list refines a list of commands: registration appends, the lookup takes the first command whose name is the first word
  of the line, and the help command prints the help texts in the order of registration.
\<close>

section \<open>Strings in buffers\<close>

text \<open>
  \<open>strncpy\<close> into an array writes exactly \<open>n\<close> characters, padding with terminators, and leaves the string unterminated
  if it has \<open>n\<close> or more characters. Reading a string from an array that has no terminator is undefined.
\<close>

definition strncpy :: "char list \<Rightarrow> string \<Rightarrow> nat \<Rightarrow> char list option" where
  "strncpy dst src n =
     (if n \<le> length dst then Some (take n (src @ replicate n NUL) @ drop n dst) else None)"

definition cstring :: "char list \<Rightarrow> string option" where
  "cstring buf = (if NUL \<in> set buf then Some (takeWhile (\<lambda>c. c \<noteq> NUL) buf) else None)"

text \<open>The test \<open>strncmp(s, t, n) == 0\<close>.\<close>

fun strncmp_eq :: "string \<Rightarrow> string \<Rightarrow> nat \<Rightarrow> bool" where
  "strncmp_eq s t 0 = True"
| "strncmp_eq s t (Suc n) =
     (if cstr_at s 0 \<noteq> cstr_at t 0 then False
      else if cstr_at s 0 = NUL then True
      else strncmp_eq (tl s) (tl t) n)"

section \<open>State\<close>

text \<open>A function pointer of a command: the help command of this file or a function of the application.\<close>

datatype 'f callback = prvHelpCommand_fn | App_fn 'f

record 'f CLI_Command_Definition_t =
  pcCommand :: string
  pcHelpString :: string
  pxCommandInterpreter :: "'f callback"
  cExpectedNumberOfParameters :: u8

record 'f CLI_Definition_List_Item_t =
  pxCommandLineDefinition :: "'f CLI_Command_Definition_t"
  pxNext :: "nat option"

text \<open>
  \<open>cli_items\<close> is the store of list items, with \<open>xRegisteredCommands\<close> at address 0; \<open>process_pxCommand\<close> and
  \<open>help_pxCommand\<close> are the two static variables called \<open>pxCommand\<close>.
\<close>

record 'f cli_state =
  cli_items :: "nat \<Rightarrow> 'f CLI_Definition_List_Item_t option"
  pxLastCommandInList :: nat
  process_pxCommand :: "nat option"
  help_pxCommand :: "nat option"

definition CR_LF :: string where "CR_LF = [CHR 0x0D, CHR 0x0A]"

definition xHelpCommand :: "'f CLI_Command_Definition_t" where
  "xHelpCommand =
     \<lparr>pcCommand = ''help'',
      pcHelpString = CR_LF @ ''help:'' @ CR_LF @ '' Lists all the registered commands'' @ CR_LF @ CR_LF,
      pxCommandInterpreter = prvHelpCommand_fn, cExpectedNumberOfParameters = 0\<rparr>"

definition xRegisteredCommands :: nat where "xRegisteredCommands = 0"

definition cli_state0 :: "'f cli_state" where
  "cli_state0 =
     \<lparr>cli_items = [xRegisteredCommands \<mapsto> \<lparr>pxCommandLineDefinition = xHelpCommand, pxNext = None\<rparr>],
      pxLastCommandInList = xRegisteredCommands, process_pxCommand = None, help_pxCommand = None\<rparr>"

section \<open>Operations\<close>

text \<open>
  Registration writes the new item first and then the last one; if both are the same object the second store wins. The
  address of the new item is what \<open>pvPortMalloc\<close> returned; the assertion stops the system for \<open>NULL\<close>.
\<close>

definition prvRegisterCommand :: "'f CLI_Command_Definition_t \<Rightarrow> nat \<Rightarrow> 'f cli_state \<Rightarrow> 'f cli_state option" where
  "prvRegisterCommand pxCommandToRegister buf st =
     (let items1 = (cli_items st)(buf \<mapsto> \<lparr>pxCommandLineDefinition = pxCommandToRegister, pxNext = None\<rparr>)
      in case items1 (pxLastCommandInList st) of
           None \<Rightarrow> None
         | Some it \<Rightarrow>
             Some (st\<lparr>cli_items := items1(pxLastCommandInList st \<mapsto> it\<lparr>pxNext := Some buf\<rparr>),
                      pxLastCommandInList := buf\<rparr>))"

definition FreeRTOS_CLIRegisterCommand ::
  "'f CLI_Command_Definition_t \<Rightarrow> nat option \<Rightarrow> 'f cli_state \<Rightarrow> 'f cli_state option" where
  "FreeRTOS_CLIRegisterCommand pxCommandToRegister pxNewListItem st =
     (case pxNewListItem of None \<Rightarrow> None | Some buf \<Rightarrow> prvRegisterCommand pxCommandToRegister buf st)"

definition prvHelpCommand ::
  "char list \<Rightarrow> nat \<Rightarrow> 'f cli_state \<Rightarrow> (bool \<times> char list \<times> 'f cli_state) option" where
  "prvHelpCommand pcWriteBuffer xWriteBufferLen st =
     (let pxCommand = (case help_pxCommand st of None \<Rightarrow> xRegisteredCommands | Some p \<Rightarrow> p)
      in case cli_items st pxCommand of
           None \<Rightarrow> None
         | Some it \<Rightarrow>
             (case strncpy pcWriteBuffer (pcHelpString (pxCommandLineDefinition it)) xWriteBufferLen of
                None \<Rightarrow> None
              | Some buf \<Rightarrow> Some (pxNext it \<noteq> None, buf, st\<lparr>help_pxCommand := pxNext it\<rparr>)))"

text \<open>
  The search loop follows the list to the first command that matches, and says whether the number of parameters is right. On a list
  with a cycle it may not end, which is the value \<open>None\<close>, as is a pointer to no item.
\<close>

definition command_matches :: "string \<Rightarrow> 'f CLI_Command_Definition_t \<Rightarrow> bool" where
  "command_matches pcCommandInput cmd =
     (let xCommandStringLength = length (pcCommand cmd)
      in strncmp_eq pcCommandInput (pcCommand cmd) xCommandStringLength \<and>
         (cstr_at pcCommandInput xCommandStringLength = SPC \<or> cstr_at pcCommandInput xCommandStringLength = NUL))"

definition parameters_accepted :: "string \<Rightarrow> 'f CLI_Command_Definition_t \<Rightarrow> bool" where
  "parameters_accepted pcCommandInput cmd =
     (if 0 \<le> sint (cExpectedNumberOfParameters cmd)
      then prvGetNumberOfParameters pcCommandInput = cExpectedNumberOfParameters cmd else True)"

partial_function (option) cli_search ::
  "(nat \<Rightarrow> 'f CLI_Definition_List_Item_t option) \<Rightarrow> string \<Rightarrow> nat option \<Rightarrow> (nat option \<times> bool) option" where
  "cli_search items pcCommandInput pxCommand =
     (case pxCommand of
        None \<Rightarrow> Some (None, True)
      | Some p \<Rightarrow>
          (case items p of
             None \<Rightarrow> None
           | Some it \<Rightarrow>
               if command_matches pcCommandInput (pxCommandLineDefinition it)
               then Some (Some p, parameters_accepted pcCommandInput (pxCommandLineDefinition it))
               else cli_search items pcCommandInput (pxNext it)))"

definition msg_incorrect :: string where
  "msg_incorrect = ''Incorrect command parameter(s).  Enter '' @ [CHR 0x22] @ ''help'' @ [CHR 0x22] @
     '' to view a list of available commands.'' @ CR_LF @ CR_LF"

definition msg_unknown :: string where
  "msg_unknown = ''Command not recognised.  Enter '' @ [CHR 0x27] @ ''help'' @ [CHR 0x27] @
     '' to view a list of available commands.'' @ CR_LF @ CR_LF"

text \<open>
  A command function gets the output buffer, its length and the command line, and may change the application's state. The help
  command changes the state of the interpreter.
\<close>

type_synonym ('f, 'a) app_call = "'f \<Rightarrow> char list \<Rightarrow> nat \<Rightarrow> string \<Rightarrow> 'a \<Rightarrow> (bool \<times> char list \<times> 'a) option"

definition call_interpreter ::
  "('f, 'a) app_call \<Rightarrow> 'f callback \<Rightarrow> char list \<Rightarrow> nat \<Rightarrow> string \<Rightarrow> 'f cli_state \<times> 'a \<Rightarrow>
   (bool \<times> char list \<times> 'f cli_state \<times> 'a) option" where
  "call_interpreter call fn buf len pcCommandInput sa =
     (case fn of
        prvHelpCommand_fn \<Rightarrow> map_option (\<lambda>(r, b, s). (r, b, s, snd sa)) (prvHelpCommand buf len (fst sa))
      | App_fn f \<Rightarrow> map_option (\<lambda>(r, b, a). (r, b, fst sa, a)) (call f buf len pcCommandInput (snd sa)))"

definition FreeRTOS_CLIProcessCommand ::
  "('f, 'a) app_call \<Rightarrow> string \<Rightarrow> char list \<Rightarrow> nat \<Rightarrow> 'f cli_state \<times> 'a \<Rightarrow>
   (bool \<times> char list \<times> 'f cli_state \<times> 'a) option" where
  "FreeRTOS_CLIProcessCommand call pcCommandInput pcWriteBuffer xWriteBufferLen sa =
     (let (st, a) = sa
      in case (case process_pxCommand st of
                 None \<Rightarrow> cli_search (cli_items st) pcCommandInput (Some xRegisteredCommands)
               | Some p \<Rightarrow> Some (Some p, True)) of
           None \<Rightarrow> None
         | Some (pxCommand, xReturn) \<Rightarrow>
             (let st1 = st\<lparr>process_pxCommand := pxCommand\<rparr>
              in case pxCommand of
                   None \<Rightarrow>
                     map_option (\<lambda>buf. (False, buf, st1, a)) (strncpy pcWriteBuffer msg_unknown xWriteBufferLen)
                 | Some p \<Rightarrow>
                     if \<not> xReturn
                     then map_option (\<lambda>buf. (False, buf, st1\<lparr>process_pxCommand := None\<rparr>, a))
                            (strncpy pcWriteBuffer msg_incorrect xWriteBufferLen)
                     else (case cli_items st1 p of
                             None \<Rightarrow> None
                           | Some it \<Rightarrow>
                               (case call_interpreter call (pxCommandInterpreter (pxCommandLineDefinition it))
                                       pcWriteBuffer xWriteBufferLen pcCommandInput (st1, a) of
                                  None \<Rightarrow> None
                                | Some (r, buf, st2, a2) \<Rightarrow>
                                    Some (r, buf, if r then st2 else st2\<lparr>process_pxCommand := None\<rparr>, a2)))))"

text \<open>
  The way the interpreter is driven: the caller repeats the call and prints the buffer until the result is
  \<open>pdFALSE\<close>. The result is the printed strings, the buffer and the states.
\<close>

partial_function (option) cli_execute ::
  "('f, 'a) app_call \<Rightarrow> (string \<Rightarrow> 'a \<Rightarrow> 'a option) \<Rightarrow> string \<Rightarrow> nat \<Rightarrow> char list \<times> 'f cli_state \<times> 'a \<Rightarrow>
   (char list \<times> 'f cli_state \<times> 'a) option" where
  "cli_execute call printf_s pcCommandInput len bsa =
     (let (buf, sa) = bsa
      in case FreeRTOS_CLIProcessCommand call pcCommandInput buf len sa of
           None \<Rightarrow> None
         | Some (xMoreDataToFollow, buf', st', a') \<Rightarrow>
             (case cstring buf' of
                None \<Rightarrow> None
              | Some s \<Rightarrow>
                  (case printf_s s a' of
                     None \<Rightarrow> None
                   | Some a'' \<Rightarrow>
                       if xMoreDataToFollow then cli_execute call printf_s pcCommandInput len (buf', st', a'')
                       else Some (buf', st', a''))))"

declare cli_search.simps [code] cli_execute.simps [code]

section \<open>Strings\<close>

lemma takeWhile_neq_append: "c \<notin> set w \<Longrightarrow> takeWhile (\<lambda>x. x \<noteq> c) (w @ r) = w @ takeWhile (\<lambda>x. x \<noteq> c) r"
  by (rule takeWhile_append2) auto

lemma strncmp_eq_prefix:
  "NUL \<notin> set s \<Longrightarrow> NUL \<notin> set t \<Longrightarrow> strncmp_eq s t (length t) \<longleftrightarrow> take (length t) s = t"
proof (induction t arbitrary: s)
  case Nil
  then show ?case by simp
next
  case (Cons c t)
  then show ?case by (cases s) (auto simp: cstr_at_def)
qed

lemma prefix_word:
  assumes "SPC \<notin> set w" and "NUL \<notin> set s"
  shows "take (length w) s = w \<and> (cstr_at s (length w) = SPC \<or> cstr_at s (length w) = NUL) \<longleftrightarrow>
    takeWhile (\<lambda>c. c \<noteq> SPC) s = w"
proof
  assume l: "take (length w) s = w \<and> (cstr_at s (length w) = SPC \<or> cstr_at s (length w) = NUL)"
  define r where "r = drop (length w) s"
  have s: "s = w @ r" using l append_take_drop_id [of "length w" s] by (simp add: r_def)
  have "r = [] \<or> hd r = SPC"
  proof (cases r)
    case (Cons c cs)
    then have "cstr_at s (length w) = c" "c \<noteq> NUL" using s assms(2) by (auto simp: cstr_at_def)
    then show ?thesis using l Cons by auto
  qed simp
  then have "takeWhile (\<lambda>c. c \<noteq> SPC) r = []" by (cases r) auto
  then show "takeWhile (\<lambda>c. c \<noteq> SPC) s = w" using s assms(1) by (simp add: takeWhile_neq_append)
next
  assume r: "takeWhile (\<lambda>c. c \<noteq> SPC) s = w"
  then have s: "s = w @ dropWhile (\<lambda>c. c \<noteq> SPC) s" using takeWhile_dropWhile_id by metis
  show "take (length w) s = w \<and> (cstr_at s (length w) = SPC \<or> cstr_at s (length w) = NUL)"
  proof (cases "dropWhile (\<lambda>c. c \<noteq> SPC) s")
    case Nil
    have "s = w" using s [unfolded Nil] by simp
    then show ?thesis by (simp add: cstr_at_def)
  next
    case (Cons c cs)
    then have "c = SPC" using hd_dropWhile [of "\<lambda>c. c \<noteq> SPC" s] by simp
    then have "s = w @ SPC # cs" using s [unfolded Cons] by simp
    then show ?thesis by (simp add: cstr_at_def)
  qed
qed

text \<open>A command matches exactly if its name is the first word of the line.\<close>

lemma command_matches_first_word:
  assumes "NUL \<notin> set s" and "NUL \<notin> set (pcCommand c)" and "SPC \<notin> set (pcCommand c)"
  shows "command_matches s c \<longleftrightarrow> takeWhile (\<lambda>c. c \<noteq> SPC) s = pcCommand c"
  using strncmp_eq_prefix [OF assms(1,2)] prefix_word [OF assms(3,1)]
  by (simp add: command_matches_def Let_def)

lemma length_strncpy: "strncpy dst src n = Some buf \<Longrightarrow> length buf = length dst"
  by (auto simp: strncpy_def split: if_splits)

lemma strncpy_cstring:
  assumes "length src < n" and "n \<le> length dst" and "NUL \<notin> set src"
  shows "\<exists>buf. strncpy dst src n = Some buf \<and> length buf = length dst \<and> cstring buf = Some src"
proof -
  let ?buf = "take n (src @ replicate n NUL) @ drop n dst"
  have "take n (src @ replicate n NUL) = src @ replicate (n - length src) NUL"
    using assms(1) by simp
  moreover obtain k where "n - length src = Suc k" using assms(1) by (metis Suc_diff_Suc)
  ultimately have b: "?buf = src @ NUL # replicate k NUL @ drop n dst" by simp
  have "cstring ?buf = Some src" unfolding b cstring_def using assms(3) by (simp add: takeWhile_neq_append)
  then show ?thesis using assms(1,2) by (simp add: strncpy_def)
qed

section \<open>The list of commands\<close>

text \<open>\<open>item_path items p as q\<close>: following \<open>pxNext\<close> from \<open>p\<close> visits the items at \<open>as\<close> and arrives at \<open>q\<close>.\<close>

fun item_path ::
  "(nat \<Rightarrow> 'f CLI_Definition_List_Item_t option) \<Rightarrow> nat option \<Rightarrow> nat list \<Rightarrow> nat option \<Rightarrow> bool" where
  "item_path items p [] q \<longleftrightarrow> p = q"
| "item_path items p (a # as) q \<longleftrightarrow>
     p = Some a \<and> (case items a of None \<Rightarrow> False | Some it \<Rightarrow> item_path items (pxNext it) as q)"

definition command_at :: "'f cli_state \<Rightarrow> nat \<Rightarrow> 'f CLI_Command_Definition_t" where
  "command_at st a = pxCommandLineDefinition (the (cli_items st a))"

text \<open>
  The representation: \<open>cli_list st as cmds\<close> says that the list of items from the head is \<open>as\<close>, without repetition and ending in
  \<open>NULL\<close>, that the static pointer is at its last item, and that the commands of the items are \<open>cmds\<close>.
\<close>

definition cli_list :: "'f cli_state \<Rightarrow> nat list \<Rightarrow> 'f CLI_Command_Definition_t list \<Rightarrow> bool" where
  "cli_list st as cmds \<longleftrightarrow>
     item_path (cli_items st) (Some xRegisteredCommands) as None \<and> distinct as \<and> as \<noteq> [] \<and>
     last as = pxLastCommandInList st \<and> cmds = map (command_at st) as"

lemma item_path_append:
  "item_path items p (as @ bs) q \<longleftrightarrow> (\<exists>r. item_path items p as r \<and> item_path items r bs q)"
  by (induction as arbitrary: p) (auto split: option.splits)

lemma item_path_update_other [simp]:
  "a \<notin> set as \<Longrightarrow> item_path (items(a := v)) p as q = item_path items p as q"
  by (induction as arbitrary: p) (auto split: option.splits)

lemma item_path_items: "item_path items p as q \<Longrightarrow> a \<in> set as \<Longrightarrow> \<exists>it. items a = Some it"
  by (induction as arbitrary: p) (auto split: option.splits)

lemma cli_list_state0: "cli_list cli_state0 [xRegisteredCommands] [xHelpCommand]"
  by (simp add: cli_list_def cli_state0_def command_at_def)

lemma cli_list_cursors [simp]:
  "cli_list (st\<lparr>process_pxCommand := p\<rparr>) as cmds = cli_list st as cmds"
  "cli_list (st\<lparr>help_pxCommand := p\<rparr>) as cmds = cli_list st as cmds"
  by (simp_all add: cli_list_def command_at_def [abs_def])

text \<open>Registering an item that is not in the list appends the command.\<close>

lemma prvRegisterCommand_appends:
  assumes l: "cli_list st as cmds" and fresh: "buf \<notin> set as"
  shows "\<exists>st'. prvRegisterCommand c buf st = Some st' \<and> cli_list st' (as @ [buf]) (cmds @ [c]) \<and>
    process_pxCommand st' = process_pxCommand st \<and> help_pxCommand st' = help_pxCommand st"
proof -
  let ?l = "pxLastCommandInList st"
  obtain bs where as: "as = bs @ [?l]" using l unfolding cli_list_def by (metis append_butlast_last_id)
  then have nl: "?l \<notin> set bs" "buf \<noteq> ?l" "buf \<notin> set bs" using l fresh by (auto simp: cli_list_def)
  obtain it where it: "cli_items st ?l = Some it" and p: "item_path (cli_items st) (Some xRegisteredCommands) bs (Some ?l)"
    using l unfolding cli_list_def as item_path_append by (auto split: option.splits)
  define st' where "st' = st\<lparr>cli_items := (cli_items st)(buf \<mapsto> \<lparr>pxCommandLineDefinition = c, pxNext = None\<rparr>,
    ?l \<mapsto> it\<lparr>pxNext := Some buf\<rparr>), pxLastCommandInList := buf\<rparr>"
  have r: "prvRegisterCommand c buf st = Some st'" using it nl by (simp add: prvRegisterCommand_def st'_def Let_def)
  have path: "item_path (cli_items st') (Some xRegisteredCommands) (bs @ [?l, buf]) None"
    unfolding item_path_append using p nl by (intro exI [of _ "Some ?l"]) (simp add: st'_def)
  have "map (command_at st') bs = map (command_at st) bs" using nl by (intro map_cong refl) (auto simp: command_at_def st'_def)
  then have cmds: "map (command_at st') (as @ [buf]) = cmds @ [c]"
    using l nl it by (simp add: as cli_list_def) (simp add: command_at_def st'_def)
  have "cli_list st' (as @ [buf]) (cmds @ [c])"
    using path cmds l fresh nl unfolding cli_list_def as by (simp add: st'_def)
  then show ?thesis using r by (simp add: st'_def)
qed

text \<open>The search ends and takes the first match.\<close>

lemma cli_search_find:
  assumes "item_path (cli_items st) p as None"
  shows "cli_search (cli_items st) line p =
    Some (case find (\<lambda>a. command_matches line (command_at st a)) as of
        None \<Rightarrow> (None, True) | Some a \<Rightarrow> (Some a, parameters_accepted line (command_at st a)))"
  using assms
proof (induction as arbitrary: p)
  case Nil
  then show ?case by (simp add: cli_search.simps)
next
  case (Cons a as)
  then obtain it where it: "p = Some a" "cli_items st a = Some it" "item_path (cli_items st) (pxNext it) as None"
    by (auto split: option.splits)
  then show ?case using Cons.IH [OF it(3)] by (subst cli_search.simps) (simp add: command_at_def)
qed

section \<open>Processing a line\<close>

definition command_ok :: "nat \<Rightarrow> 'f CLI_Command_Definition_t \<Rightarrow> bool" where
  "command_ok len c \<longleftrightarrow> NUL \<notin> set (pcCommand c) \<and> SPC \<notin> set (pcCommand c) \<and>
     NUL \<notin> set (pcHelpString c) \<and> length (pcHelpString c) < len"

definition first_word :: "string \<Rightarrow> string" where
  "first_word line = takeWhile (\<lambda>c. c \<noteq> SPC) line"

text \<open>The lookup in the list of commands that the interpreter implements.\<close>

definition cli_lookup :: "'f CLI_Command_Definition_t list \<Rightarrow> string \<Rightarrow> 'f CLI_Command_Definition_t option" where
  "cli_lookup cmds line = find (\<lambda>c. pcCommand c = first_word line) cmds"

lemma find_map_option: "find P (map f xs) = map_option f (find (\<lambda>x. P (f x)) xs)"
  by (induction xs) auto

lemma find_in_set: "find P xs = Some x \<Longrightarrow> x \<in> set xs \<and> P x"
  by (induction xs) (auto split: if_splits)

lemma cli_search_lookup:
  assumes l: "cli_list st as cmds" and ok: "\<forall>c\<in>set cmds. command_ok len c" and line: "NUL \<notin> set line"
  shows "(cli_lookup cmds line = None \<and>
      cli_search (cli_items st) line (Some xRegisteredCommands) = Some (None, True)) \<or>
    (\<exists>p\<in>set as. cli_lookup cmds line = Some (command_at st p) \<and>
      cli_search (cli_items st) line (Some xRegisteredCommands) =
        Some (Some p, parameters_accepted line (command_at st p)))"
proof -
  have path: "item_path (cli_items st) (Some xRegisteredCommands) as None" and cmds: "cmds = map (command_at st) as"
    using l by (auto simp: cli_list_def)
  have "\<forall>a\<in>set as. command_matches line (command_at st a) = (pcCommand (command_at st a) = first_word line)"
    using ok line command_matches_first_word unfolding cmds command_ok_def first_word_def by fastforce
  then have "find (\<lambda>a. command_matches line (command_at st a)) as =
      find (\<lambda>a. pcCommand (command_at st a) = first_word line) as" by (intro find_cong refl) blast
  then have s: "cli_search (cli_items st) line (Some xRegisteredCommands) =
      Some (case find (\<lambda>a. pcCommand (command_at st a) = first_word line) as of
        None \<Rightarrow> (None, True) | Some a \<Rightarrow> (Some a, parameters_accepted line (command_at st a)))"
    using cli_search_find [OF path] by simp
  show ?thesis
    using s find_in_set [of _ as] unfolding cmds cli_lookup_def find_map_option
    by (cases "find (\<lambda>a. pcCommand (command_at st a) = first_word line) as") (auto dest: find_in_set)
qed

lemma length_messages: "length msg_unknown < 100" "length msg_incorrect < 100"
  by (simp_all add: msg_unknown_def msg_incorrect_def CR_LF_def)

lemma message_no_NUL: "NUL \<notin> set msg_unknown" "NUL \<notin> set msg_incorrect"
  by (simp_all add: msg_unknown_def msg_incorrect_def CR_LF_def)

lemma process_unknown:
  assumes "cli_search (cli_items st) line (Some xRegisteredCommands) = Some (None, True)"
    and "process_pxCommand st = None" and "100 \<le> len" and "len \<le> length buf"
  shows "\<exists>buf'. FreeRTOS_CLIProcessCommand call line buf len (st, a) = Some (False, buf', st, a) \<and>
    length buf' = length buf \<and> cstring buf' = Some msg_unknown"
proof -
  obtain buf' where "strncpy buf msg_unknown len = Some buf'" "length buf' = length buf" "cstring buf' = Some msg_unknown"
    using strncpy_cstring [of msg_unknown len buf] length_messages message_no_NUL assms by force
  then show ?thesis using assms(1,2) by (simp add: FreeRTOS_CLIProcessCommand_def)
qed

lemma process_incorrect:
  assumes "cli_search (cli_items st) line (Some xRegisteredCommands) = Some (Some p, False)"
    and "process_pxCommand st = None" and "100 \<le> len" and "len \<le> length buf"
  shows "\<exists>buf'. FreeRTOS_CLIProcessCommand call line buf len (st, a) = Some (False, buf', st, a) \<and>
    length buf' = length buf \<and> cstring buf' = Some msg_incorrect"
proof -
  obtain buf' where "strncpy buf msg_incorrect len = Some buf'" "length buf' = length buf" "cstring buf' = Some msg_incorrect"
    using strncpy_cstring [of msg_incorrect len buf] length_messages message_no_NUL assms by force
  then show ?thesis using assms(1,2) by (simp add: FreeRTOS_CLIProcessCommand_def)
qed

lemma process_app:
  assumes "process_pxCommand st = Some p \<or>
      process_pxCommand st = None \<and> cli_search (cli_items st) line (Some xRegisteredCommands) = Some (Some p, True)"
    and "cli_items st p \<noteq> None" and "pxCommandInterpreter (command_at st p) = App_fn f"
  shows "FreeRTOS_CLIProcessCommand call line buf len (st, a) =
    map_option (\<lambda>(r, b, a'). (r, b, st\<lparr>process_pxCommand := if r then Some p else None\<rparr>, a')) (call f buf len line a)"
  using assms
  by (auto simp: FreeRTOS_CLIProcessCommand_def command_at_def call_interpreter_def split: option.splits)

lemma process_help:
  assumes "process_pxCommand st = Some p \<or>
      process_pxCommand st = None \<and> cli_search (cli_items st) line (Some xRegisteredCommands) = Some (Some p, True)"
    and "cli_items st p \<noteq> None" and "pxCommandInterpreter (command_at st p) = prvHelpCommand_fn"
  shows "FreeRTOS_CLIProcessCommand call line buf len (st, a) =
    map_option (\<lambda>(r, b, st'). (r, b, st'\<lparr>process_pxCommand := if r then Some p else None\<rparr>, a))
      (prvHelpCommand buf len st)"
proof -
  obtain it where it: "cli_items st p = Some it" using assms(2) by blast
  let ?st1 = "st\<lparr>process_pxCommand := Some p\<rparr>"
  have start: "(case process_pxCommand st of
        None \<Rightarrow> cli_search (cli_items st) line (Some xRegisteredCommands) | Some p \<Rightarrow> Some (Some p, True)) = Some (Some p, True)"
    using assms(1) by (elim disjE) simp_all
  have same: "prvHelpCommand buf len ?st1 =
      map_option (\<lambda>(r, b, st'). (r, b, st'\<lparr>process_pxCommand := Some p\<rparr>)) (prvHelpCommand buf len st)"
    by (simp add: prvHelpCommand_def Let_def split: option.split)
  have fn: "pxCommandInterpreter (pxCommandLineDefinition it) = prvHelpCommand_fn" using assms(3) it by (simp add: command_at_def)
  show ?thesis
    unfolding FreeRTOS_CLIProcessCommand_def Let_def prod.case start
    by (simp add: it fn call_interpreter_def same split: option.split prod.split)
qed

section \<open>The dialogue\<close>

fun print_all :: "(string \<Rightarrow> 'a \<Rightarrow> 'a option) \<Rightarrow> string list \<Rightarrow> 'a \<Rightarrow> 'a option" where
  "print_all printf_s [] a = Some a"
| "print_all printf_s (s # ss) a = (case printf_s s a of None \<Rightarrow> None | Some a' \<Rightarrow> print_all printf_s ss a')"

lemma help_step:
  assumes l: "cli_list st as cmds" and ok: "\<forall>c\<in>set cmds. command_ok len c" and as: "as = ds @ q # rs"
    and cur: "help_pxCommand st = (if ds = [] then None else Some q)" and len: "len \<le> length buf"
  shows "\<exists>buf'. prvHelpCommand buf len st =
      Some (rs \<noteq> [], buf', st\<lparr>help_pxCommand := (case rs of [] \<Rightarrow> None | r # _ \<Rightarrow> Some r)\<rparr>) \<and>
    length buf' = length buf \<and> cstring buf' = Some (pcHelpString (command_at st q))"
proof -
  obtain it where it: "cli_items st q = Some it" and nxt: "item_path (cli_items st) (pxNext it) rs None"
    using l unfolding cli_list_def as item_path_append by (auto split: option.splits)
  have n: "pxNext it = (case rs of [] \<Rightarrow> None | r # _ \<Rightarrow> Some r)" using nxt by (cases rs) auto
  have start: "(case help_pxCommand st of None \<Rightarrow> xRegisteredCommands | Some p \<Rightarrow> p) = q"
    using l cur unfolding cli_list_def as by (cases ds) auto
  have "command_ok len (command_at st q)" using l ok unfolding cli_list_def as by simp
  then obtain buf' where "strncpy buf (pcHelpString (command_at st q)) len = Some buf'" "length buf' = length buf"
      "cstring buf' = Some (pcHelpString (command_at st q))"
    using strncpy_cstring len unfolding command_ok_def by blast
  then show ?thesis
    using it n start by (cases rs) (simp_all add: prvHelpCommand_def Let_def command_at_def)
qed

lemma help_dialogue:
  assumes "cli_list st as cmds" and "\<forall>c\<in>set cmds. command_ok len c" and "as = ds @ rs" and "rs \<noteq> []"
    and "help_pxCommand st = (if ds = [] then None else Some (hd rs))" and "len \<le> length buf"
    and "process_pxCommand st = Some p \<or>
      process_pxCommand st = None \<and> cli_search (cli_items st) line (Some xRegisteredCommands) = Some (Some p, True)"
    and "cli_items st p \<noteq> None" and "pxCommandInterpreter (command_at st p) = prvHelpCommand_fn"
  shows "map_option snd (cli_execute call printf_s line len (buf, st, a)) =
    map_option (Pair (st\<lparr>process_pxCommand := None, help_pxCommand := None\<rparr>))
      (print_all printf_s (map (\<lambda>q. pcHelpString (command_at st q)) rs) a)"
  using assms
proof (induction rs arbitrary: ds st buf a)
  case Nil
  then show ?case by simp
next
  case (Cons q rs)
  let ?st1 = "st\<lparr>help_pxCommand := (case rs of [] \<Rightarrow> None | r # _ \<Rightarrow> Some r)\<rparr>"
  obtain buf' where h: "prvHelpCommand buf len st = Some (rs \<noteq> [], buf', ?st1)" "length buf' = length buf"
      "cstring buf' = Some (pcHelpString (command_at st q))"
    using help_step [OF Cons.prems(1,2,3) _ Cons.prems(6)] Cons.prems(5) unfolding list.sel by blast
  let ?st2 = "?st1\<lparr>process_pxCommand := if rs \<noteq> [] then Some p else None\<rparr>"
  have proc: "FreeRTOS_CLIProcessCommand call line buf len (st, a) = Some (rs \<noteq> [], buf', ?st2, a)"
    using process_help [OF Cons.prems(7,8,9), of call buf len a] h(1) by simp
  show ?case
  proof (cases "printf_s (pcHelpString (command_at st q)) a")
    case None
    then show ?thesis using proc h(3) by (subst cli_execute.simps) simp
  next
    case (Some a1)
    show ?thesis
    proof (cases rs)
      case Nil
      then show ?thesis using proc h(3) Some by (subst cli_execute.simps) simp
    next
      case (Cons r rs')
      then have ne: "rs \<noteq> []" by simp
      have same: "command_at ?st2 = command_at st" "cli_items ?st2 = cli_items st" by (auto simp: command_at_def)
      have step: "cli_execute call printf_s line len (buf, st, a) = cli_execute call printf_s line len (buf', ?st2, a1)"
        using proc h(3) Some ne by (subst cli_execute.simps) simp
      have "map_option snd (cli_execute call printf_s line len (buf', ?st2, a1)) =
        map_option (Pair (?st2\<lparr>process_pxCommand := None, help_pxCommand := None\<rparr>))
          (print_all printf_s (map (\<lambda>q. pcHelpString (command_at ?st2 q)) rs) a1)"
        by (rule Cons.IH [of ?st2 "ds @ [q]"])
          (use Cons.prems ne \<open>rs = r # rs'\<close> h(2) same in auto)
      then show ?thesis using step Some by (simp add: same)
    qed
  qed
qed

text \<open>
  What a line is answered with, in terms of the list of commands alone, for command functions that answer in one piece.
\<close>

definition cli_answer ::
  "('f, 'a) app_call \<Rightarrow> (string \<Rightarrow> 'a \<Rightarrow> 'a option) \<Rightarrow> 'f CLI_Command_Definition_t list \<Rightarrow> string \<Rightarrow> nat \<Rightarrow>
   char list \<Rightarrow> 'a \<Rightarrow> 'a option" where
  "cli_answer call printf_s cmds line len buf a =
     (case cli_lookup cmds line of
        None \<Rightarrow> printf_s msg_unknown a
      | Some c \<Rightarrow>
          if \<not> parameters_accepted line c then printf_s msg_incorrect a
          else (case pxCommandInterpreter c of
                  prvHelpCommand_fn \<Rightarrow> print_all printf_s (map pcHelpString cmds) a
                | App_fn f \<Rightarrow>
                    (case call f buf len line a of
                       None \<Rightarrow> None
                     | Some (r, b, a') \<Rightarrow> (case cstring b of None \<Rightarrow> None | Some s \<Rightarrow> printf_s s a'))))"

definition one_shot :: "('f, 'a) app_call \<Rightarrow> bool" where
  "one_shot call \<longleftrightarrow> (\<forall>f buf len line a r b a'. call f buf len line a = Some (r, b, a') \<longrightarrow> \<not> r)"

definition cli_idle :: "'f cli_state \<Rightarrow> bool" where
  "cli_idle st \<longleftrightarrow> process_pxCommand st = None \<and> help_pxCommand st = None"

lemma cli_idle_clear: "cli_idle st \<Longrightarrow> st\<lparr>process_pxCommand := None, help_pxCommand := None\<rparr> = st"
  "cli_idle st \<Longrightarrow> st\<lparr>process_pxCommand := None\<rparr> = st"
  by (simp_all add: cli_idle_def)

lemma execute_last:
  assumes "FreeRTOS_CLIProcessCommand call line buf len (st, a) = Some (False, buf', st', a')"
  shows "cli_execute call printf_s line len (buf, st, a) =
    (case cstring buf' of None \<Rightarrow> None | Some s \<Rightarrow>
       (case printf_s s a' of None \<Rightarrow> None | Some a'' \<Rightarrow> Some (buf', st', a'')))"
  using assms by (subst cli_execute.simps) (simp split: option.splits)

lemma cli_execute_answer:
  assumes l: "cli_list st as cmds" and ok: "\<forall>c\<in>set cmds. command_ok len c" and idle: "cli_idle st"
    and line: "NUL \<notin> set line" and len: "100 \<le> len" "len \<le> length buf" and once: "one_shot call"
  shows "map_option snd (cli_execute call printf_s line len (buf, st, a)) =
    map_option (Pair st) (cli_answer call printf_s cmds line len buf a)"
  using cli_search_lookup [OF l ok line]
proof (elim disjE bexE conjE)
  assume "cli_lookup cmds line = None" "cli_search (cli_items st) line (Some xRegisteredCommands) = Some (None, True)"
  then show ?thesis
    using process_unknown [of st line len buf call a] idle len
    by (auto simp: cli_answer_def cli_idle_def execute_last split: option.splits)
next
  fix p
  assume p: "p \<in> set as" "cli_lookup cmds line = Some (command_at st p)"
    "cli_search (cli_items st) line (Some xRegisteredCommands) =
      Some (Some p, parameters_accepted line (command_at st p))"
  have it: "cli_items st p \<noteq> None" using item_path_items [of "cli_items st" _ as None p] l p(1) by (auto simp: cli_list_def)
  have np: "process_pxCommand st = None" using idle by (simp add: cli_idle_def)
  show ?thesis
  proof (cases "parameters_accepted line (command_at st p)")
    case False
    then show ?thesis
      using process_incorrect [of st line p len buf call a] p np len
      by (auto simp: cli_answer_def execute_last split: option.splits)
  next
    case True
    then have found: "process_pxCommand st = Some p \<or>
        process_pxCommand st = None \<and> cli_search (cli_items st) line (Some xRegisteredCommands) = Some (Some p, True)"
      using p np by simp
    show ?thesis
    proof (cases "pxCommandInterpreter (command_at st p)")
      case prvHelpCommand_fn
      have as: "as = [] @ as" "as \<noteq> []" "help_pxCommand st = (if [] = [] then None else Some (hd as))"
        and cmds: "cmds = map (command_at st) as"
        using l idle by (auto simp: cli_list_def cli_idle_def)
      have "map pcHelpString cmds = map (\<lambda>q. pcHelpString (command_at st q)) as" unfolding cmds by simp
      then show ?thesis
        using help_dialogue [OF l ok as len(2) found it prvHelpCommand_fn, of call printf_s a] p(2) True prvHelpCommand_fn
        unfolding cli_idle_clear(1) [OF idle] by (simp add: cli_answer_def)
    next
      case (App_fn f)
      have proc: "FreeRTOS_CLIProcessCommand call line buf len (st, a) =
          map_option (\<lambda>(r, b, a'). (r, b, st\<lparr>process_pxCommand := if r then Some p else None\<rparr>, a')) (call f buf len line a)"
        by (rule process_app [OF found it App_fn])
      show ?thesis
      proof (cases "call f buf len line a")
        case None
        then show ?thesis using proc p(2) True App_fn by (subst cli_execute.simps) (simp add: cli_answer_def)
      next
        case (Some rba)
        then obtain b a' where c: "call f buf len line a = Some (False, b, a')"
          using once unfolding one_shot_def by (metis (full_types) prod_cases3)
        then have "FreeRTOS_CLIProcessCommand call line buf len (st, a) = Some (False, b, st, a')"
          using proc cli_idle_clear [OF idle] by simp
        then show ?thesis using p(2) True App_fn c by (auto simp: cli_answer_def execute_last split: option.splits)
      qed
    qed
  qed
qed

section \<open>Applications\<close>

text \<open>
  What the interpreter needs from an application: its command functions return once, with a terminated string in a buffer of the
  same length, and printing succeeds. Then every line is answered and the interpreter is ready for the next one.
\<close>

locale cli_app =
  fixes call :: "('f, 'a) app_call"
    and printf_s :: "string \<Rightarrow> 'a \<Rightarrow> 'a option"
    and app_ok :: "'a \<Rightarrow> bool"
    and len :: nat
  assumes call_once: "one_shot call"
    and call_returns: "app_ok a \<Longrightarrow> length buf = len \<Longrightarrow>
      \<exists>r b a'. call f buf len line a = Some (r, b, a') \<and> length b = len \<and> NUL \<in> set b \<and> app_ok a'"
    and printf_returns: "app_ok a \<Longrightarrow> \<exists>a'. printf_s s a = Some a' \<and> app_ok a'"
    and len_enough: "100 \<le> len"
begin

lemma print_all_returns: "app_ok a \<Longrightarrow> \<exists>a'. print_all printf_s ss a = Some a' \<and> app_ok a'"
proof (induction ss arbitrary: a)
  case (Cons s ss)
  obtain a1 where "printf_s s a = Some a1" "app_ok a1" using printf_returns [OF Cons.prems] by blast
  then show ?case using Cons.IH [of a1] by auto
qed auto

lemma answer_returns:
  assumes "app_ok a" and "length buf = len"
  shows "\<exists>a'. cli_answer call printf_s cmds line len buf a = Some a' \<and> app_ok a'"
proof (cases "cli_lookup cmds line")
  case None
  then show ?thesis using printf_returns [OF assms(1)] by (simp add: cli_answer_def)
next
  case (Some c)
  have app: "\<exists>a'. (case call f buf len line a of None \<Rightarrow> None
      | Some (r, b, a') \<Rightarrow> (case cstring b of None \<Rightarrow> None | Some s \<Rightarrow> printf_s s a')) = Some a' \<and> app_ok a'" for f
  proof -
    obtain r b a' where c: "call f buf len line a = Some (r, b, a')" "NUL \<in> set b" "app_ok a'"
      using call_returns [OF assms] by blast
    then show ?thesis using printf_returns [OF c(3)] by (simp add: cstring_def)
  qed
  show ?thesis
  proof (cases "pxCommandInterpreter c")
    case prvHelpCommand_fn
    then show ?thesis using Some printf_returns [OF assms(1)] print_all_returns [OF assms(1)] by (simp add: cli_answer_def)
  next
    case (App_fn f)
    then show ?thesis using Some printf_returns [OF assms(1)] app [of f] by (simp add: cli_answer_def)
  qed
qed

text \<open>The buffer keeps its length through a dialogue.\<close>

lemma process_length:
  assumes "length buf = len" and "app_ok a"
    and "FreeRTOS_CLIProcessCommand call line buf len (st, a) = Some (r, buf', st', a')"
  shows "length buf' = len \<and> app_ok a'"
proof -
  have ci: "length b = length buf \<and> app_ok a2"
    if c: "call_interpreter call fn buf (length buf) line (s1, a) = Some (r1, b, s2, a2)" for fn s1 r1 b s2 a2
  proof (cases fn)
    case prvHelpCommand_fn
    then show ?thesis
      using c assms(1,2) by (auto simp: call_interpreter_def prvHelpCommand_def Let_def dest!: length_strncpy split: option.splits)
  next
    case (App_fn f)
    then show ?thesis using c assms(1) call_returns [OF assms(2,1), of f line] by (auto simp: call_interpreter_def)
  qed
  show ?thesis
    using assms unfolding FreeRTOS_CLIProcessCommand_def Let_def prod.case
    by (auto split: option.splits if_splits prod.splits dest!: length_strncpy ci)
qed

lemma execute_keeps:
  assumes "cli_execute call printf_s line len (buf, st, a) = Some (buf', st', a')" and "length buf = len" and "app_ok a"
  shows "length buf' = len \<and> app_ok a'"
proof -
  let ?P = "\<lambda>c p l n bsa r. c = call \<longrightarrow> p = printf_s \<longrightarrow> n = len \<longrightarrow>
      length (fst bsa) = len \<longrightarrow> app_ok (snd (snd bsa)) \<longrightarrow> length (fst r) = len \<and> app_ok (snd (snd r))"
  have "?P call printf_s line len (buf, st, a) (buf', st', a')"
  proof (rule cli_execute.raw_induct [where P = ?P, OF _ assms(1)], goal_cases)
    case (1 ex c p l n bsa r)
    show ?case
    proof (intro impI)
      assume c: "c = call" "p = printf_s" "n = len" "length (fst bsa) = len" "app_ok (snd (snd bsa))"
      obtain buf1 st1 a1 where b: "bsa = (buf1, st1, a1)" by (rule prod_cases3)
      obtain m buf2 st2 a2 s a3 where s: "FreeRTOS_CLIProcessCommand call l buf1 len (st1, a1) = Some (m, buf2, st2, a2)"
          "printf_s s a2 = Some a3" "(if m then ex call printf_s l len (buf2, st2, a3) else Some (buf2, st2, a3)) = Some r"
        using 1(2) c unfolding b by (auto split: option.splits prod.splits)
      have k: "length buf2 = len" "app_ok a2" using process_length [OF _ _ s(1)] c b by auto
      then have "app_ok a3" using printf_returns [OF k(2), of s] s(2) by auto
      then show "length (fst r) = len \<and> app_ok (snd (snd r))"
        using s(3) k 1(1) [of call printf_s l len "(buf2, st2, a3)" r] by (auto split: if_splits)
    qed
  qed
  then show ?thesis using assms by simp
qed

lemma execute_returns:
  assumes "cli_list st as cmds" and "\<forall>c\<in>set cmds. command_ok len c" and "cli_idle st" and "NUL \<notin> set line"
    and "length buf = len" and "app_ok a"
  shows "\<exists>buf' a'. cli_execute call printf_s line len (buf, st, a) = Some (buf', st, a') \<and>
    cli_answer call printf_s cmds line len buf a = Some a' \<and> length buf' = len \<and> app_ok a'"
proof -
  have "map_option snd (cli_execute call printf_s line len (buf, st, a)) =
      map_option (Pair st) (cli_answer call printf_s cmds line len buf a)"
    using assms(5) len_enough by (intro cli_execute_answer [OF assms(1-4) _ _ call_once]) auto
  moreover obtain a' where a': "cli_answer call printf_s cmds line len buf a = Some a'" "app_ok a'"
    using answer_returns [OF assms(6,5)] by blast
  ultimately obtain buf' where "cli_execute call printf_s line len (buf, st, a) = Some (buf', st, a')" by auto
  then show ?thesis using execute_keeps [OF _ assms(5,6)] a' by blast
qed

end

section \<open>Registration\<close>

fun register_all :: "('f CLI_Command_Definition_t \<times> nat) list \<Rightarrow> 'f cli_state \<Rightarrow> 'f cli_state option" where
  "register_all [] st = Some st"
| "register_all ((c, addr) # rest) st =
     (case FreeRTOS_CLIRegisterCommand c (Some addr) st of None \<Rightarrow> None | Some st' \<Rightarrow> register_all rest st')"

lemma register_all_list:
  assumes "cli_list st as cmds" and "cli_idle st" and "distinct (as @ addrs)" and "length addrs = length cs"
  shows "\<exists>st'. register_all (zip cs addrs) st = Some st' \<and> cli_list st' (as @ addrs) (cmds @ cs) \<and> cli_idle st'"
  using assms(4,1-3)
proof (induction addrs cs arbitrary: st as cmds rule: list_induct2)
  case Nil
  then show ?case by simp
next
  case (Cons x addrs c cs)
  obtain st1 where st1: "prvRegisterCommand c x st = Some st1" "cli_list st1 (as @ [x]) (cmds @ [c])" "cli_idle st1"
    using prvRegisterCommand_appends [OF Cons.prems(1), of x c] Cons.prems(2,3) by (auto simp: cli_idle_def)
  then show ?case
    using Cons.IH [OF st1(2,3)] Cons.prems(3) by (simp add: FreeRTOS_CLIRegisterCommand_def)
qed

lemma cli_idle_state0: "cli_idle cli_state0"
  by (simp add: cli_idle_def cli_state0_def)

text \<open>
  Claim C17: the command interpreter implements a lookup in the list of registered commands. When commands are registered with
  items at different addresses, registration succeeds, and from then on every command line is answered
  as the plain list of commands prescribes: the first registered command whose name is the first word of the line is run (the
  help command prints the help texts of all commands in the order of registration, however many there are), a wrong number of
  parameters and an unknown word get their messages, the dialogue ends, and the interpreter is afterwards in the state it was in before.
\<close>

theorem cli_refines_lookup:
  fixes call :: "('f, 'a) app_call"
  assumes "distinct (xRegisteredCommands # addrs)" and "length addrs = length cs"
    and "\<forall>c\<in>set (xHelpCommand # cs). command_ok len c" and "NUL \<notin> set line" and "100 \<le> len" and "len \<le> length buf"
    and "one_shot call"
  shows "\<exists>st. register_all (zip cs addrs) cli_state0 = Some st \<and>
    map_option snd (cli_execute call printf_s line len (buf, st, a)) =
      map_option (Pair st) (cli_answer call printf_s (xHelpCommand # cs) line len buf a)"
proof -
  obtain st where st: "register_all (zip cs addrs) cli_state0 = Some st" "cli_idle st"
      "cli_list st (xRegisteredCommands # addrs) (xHelpCommand # cs)"
    using register_all_list [OF cli_list_state0 cli_idle_state0, of addrs cs] assms(1,2) by auto
  then show ?thesis using cli_execute_answer [OF st(3) assms(3) st(2) assms(4-7)] by blast
qed

definition demo_command :: "unit CLI_Command_Definition_t" where
  "demo_command = \<lparr>pcCommand = ''go'', pcHelpString = ''go: starts'', pxCommandInterpreter = App_fn (), cExpectedNumberOfParameters = 1\<rparr>"

definition demo_call :: "(unit, string) app_call" where
  "demo_call f buf len line a = Some (False, ''done'' @ NUL # buf, a)"

theorem cli_refines_lookup_witness:
  "\<exists>st. register_all [(demo_command, 7)] cli_state0 = Some st \<and>
    map_option snd (cli_execute demo_call (\<lambda>s a. Some (a @ s)) ''go 1'' 100 (replicate 100 NUL, st, [])) = Some (st, ''done'')"
proof -
  have ok: "\<forall>c\<in>set (xHelpCommand # [demo_command]). command_ok 100 c"
    by (simp add: command_ok_def demo_command_def xHelpCommand_def CR_LF_def)
  have one: "one_shot demo_call" by (simp add: one_shot_def demo_call_def)
  have "cli_answer demo_call (\<lambda>s a. Some (a @ s)) [xHelpCommand, demo_command] ''go 1'' 100 (replicate 100 NUL) [] = Some ''done''"
    by code_simp
  then show ?thesis
    using cli_refines_lookup [of "[7]" "[demo_command]" 100 "''go 1''" "replicate 100 NUL" demo_call "\<lambda>s a. Some (a @ s)" "[]"] ok one
    by (simp add: xRegisteredCommands_def)
qed

end
