(* ===== verification/ConsoleUsart.thy ===== *)
theory ConsoleUsart
  imports RingBuffer
begin

text \<open>
  The console driver of \<^verbatim>\<open>src/Driver/usart/console_usart.c\<close>: characters written by \<open>printf\<close> go through a ring
  buffer and a DMA buffer to the line, and characters from the line through a DMA buffer and a ring buffer to
  the readers. The two driver tasks, the redirected \<open>fputc\<close>, the three interrupt handlers and the
  initialisation are operations on one state. Of the two DMA channels and the serial port the state holds what the driver programs and reads
  back: the number of transfers, how many are done, the completion flag, and the enable bits and the flag of the receiver
  timeout; clocks, pins, baud rate and the interrupt controller do not influence the bytes and are left out. What
  the hardware does on its own (a DMA transfer, a received byte, the timeout) are steps of their own, so
  that the theorems quantify over every sequence of such steps with the turns of the tasks, the calls of \<open>fputc\<close> and the handlers. The
  handlers and the hardware do not touch the rings; two tasks that use the same ring are
  not interleaved inside a turn or a call (see \<^verbatim>\<open>RingRace\<close> for what happens then).
\<close>

section \<open>State\<close>

definition CONSOLE_DMA_BUFFER_RX_SIZE :: nat where "CONSOLE_DMA_BUFFER_RX_SIZE = 20"
definition CONSOLE_DMA_BUFFER_TX_SIZE :: nat where "CONSOLE_DMA_BUFFER_TX_SIZE = 200"
definition CONSOLE_RING_BUFFER_RX_SIZE :: u16 where "CONSOLE_RING_BUFFER_RX_SIZE = 200"
definition CONSOLE_RING_BUFFER_TX_SIZE :: u16 where "CONSOLE_RING_BUFFER_TX_SIZE = 400"

lemmas console_sizes = CONSOLE_DMA_BUFFER_RX_SIZE_def CONSOLE_DMA_BUFFER_TX_SIZE_def
  CONSOLE_RING_BUFFER_RX_SIZE_def CONSOLE_RING_BUFFER_TX_SIZE_def

record dma_uart_buffer_t =
  buffer :: "u8 list"
  buffer_size :: u32

record uart_handle_t =
  bReady :: bool
  rx_ring_buffer :: ring_buff_t
  tx_ring_buffer :: ring_buff_t
  rx_dma_buffer :: dma_uart_buffer_t
  tx_dma_buffer :: dma_uart_buffer_t

text \<open>A DMA channel: the programmed number of transfers, those done, and the flag of a finished transfer.\<close>

record dma_channel =
  dma_number :: nat
  dma_done :: nat
  dma_ftf :: bool

text \<open>The bytes that have left on the line, in order, are \<open>line_out\<close>.\<close>

record console_state =
  console :: uart_handle_t
  dma_ch0 :: dma_channel
  dma_ch1 :: dma_channel
  ctl_rtie :: bool
  ctl_rbneie :: bool
  stat_rt :: bool
  line_out :: "u8 list"

section \<open>Operations\<close>

definition console_tx_dma_config :: "console_state \<Rightarrow> console_state" where
  "console_tx_dma_config c =
     c\<lparr>dma_ch0 := \<lparr>dma_number = unat (buffer_size (tx_dma_buffer (console c))), dma_done = 0, dma_ftf = False\<rparr>\<rparr>"

definition console_rx_dma_config :: "console_state \<Rightarrow> console_state" where
  "console_rx_dma_config c =
     c\<lparr>dma_ch1 := \<lparr>dma_number = CONSOLE_DMA_BUFFER_RX_SIZE, dma_done = 0, dma_ftf = False\<rparr>\<rparr>"

definition set_rx_size :: "u32 \<Rightarrow> console_state \<Rightarrow> console_state" where
  "set_rx_size n c = c\<lparr>console := (console c)\<lparr>rx_dma_buffer := (rx_dma_buffer (console c))\<lparr>buffer_size := n\<rparr>\<rparr>\<rparr>"

definition set_tx_size :: "u32 \<Rightarrow> console_state \<Rightarrow> console_state" where
  "set_tx_size n c = c\<lparr>console := (console c)\<lparr>tx_dma_buffer := (tx_dma_buffer (console c))\<lparr>buffer_size := n\<rparr>\<rparr>\<rparr>"

text \<open>
  The redirected output. The result of the ring's write is ignored: a character that does not fit is dropped. Before the driver
  is ready the character goes to the line at once.
\<close>

definition fputc :: "u32 \<Rightarrow> console_state \<Rightarrow> console_state option" where
  "fputc ch c =
     (if bReady (console c)
      then (case ring_write (tx_ring_buffer (console c)) (Some [ucast ch]) 1 100 of
              None \<Rightarrow> None
            | Some (_, rb) \<Rightarrow> Some (c\<lparr>console := (console c)\<lparr>tx_ring_buffer := rb\<rparr>\<rparr>))
      else Some (c\<lparr>line_out := line_out c @ [ucast ch]\<rparr>))"

fun fputs_loop :: "u8 list \<Rightarrow> console_state \<Rightarrow> console_state option" where
  "fputs_loop [] c = Some c"
| "fputs_loop (b # bs) c = (case fputc (ucast b) c of None \<Rightarrow> None | Some c' \<Rightarrow> fputs_loop bs c')"

text \<open>The messages of the receive task.\<close>

definition bytes_of_string :: "string \<Rightarrow> u8 list" where
  "bytes_of_string s = map (\<lambda>ch. of_char ch) s"

definition msg_rx_full :: string where "msg_rx_full = ''console rx ring buffer full'' @ [CHR 0x0A, CHR 0x0D]"
definition msg_rx_timeout :: string where
  "msg_rx_timeout = ''console rx ring buffer write timeout'' @ [CHR 0x0A, CHR 0x0D]"

text \<open>One turn of the loop of each task.\<close>

definition console_rx_task :: "console_state \<Rightarrow> console_state option" where
  "console_rx_task c =
     (let rx = rx_dma_buffer (console c)
      in if buffer_size rx \<noteq> 0
         then (case ring_write (rx_ring_buffer (console c)) (Some (buffer rx)) (ucast (buffer_size rx)) 100 of
                 None \<Rightarrow> None
               | Some (ret, rb) \<Rightarrow>
                   (let c1 = c\<lparr>console := (console c)\<lparr>rx_ring_buffer := rb\<rparr>\<rparr>;
                        c2 = (if ret > 0 then set_rx_size 0 c1 else c1)
                    in map_option console_rx_dma_config
                         (if ret = -1 then fputs_loop (bytes_of_string msg_rx_full) c2
                          else if ret = -2 then fputs_loop (bytes_of_string msg_rx_timeout) c2
                          else Some c2)))
         else Some c)"

definition console_tx_task :: "console_state \<Rightarrow> console_state option" where
  "console_tx_task c =
     (case ring_is_empty (tx_ring_buffer (console c)) of
        None \<Rightarrow> None
      | Some is_empty \<Rightarrow>
          if \<not> is_empty \<and> buffer_size (tx_dma_buffer (console c)) = 0
          then (case ring_read (tx_ring_buffer (console c)) True (word_of_nat CONSOLE_DMA_BUFFER_TX_SIZE) 100 of
                  None \<Rightarrow> None
                | Some (ret, bs, rb) \<Rightarrow>
                    (let tx = tx_dma_buffer (console c);
                         c1 = c\<lparr>console := (console c)\<lparr>tx_ring_buffer := rb, tx_dma_buffer := tx\<lparr>buffer := store_at 0 bs (buffer tx)\<rparr>\<rparr>\<rparr>
                     in if ret > 0 then Some (console_tx_dma_config (set_tx_size (word_of_int ret) c1)) else Some c1))
          else Some c)"

text \<open>The interrupt handlers.\<close>

definition DMA0_Channel0_IRQHandler :: "console_state \<Rightarrow> console_state" where
  "DMA0_Channel0_IRQHandler c =
     (if dma_ftf (dma_ch0 c) then set_tx_size 0 (c\<lparr>dma_ch0 := (dma_ch0 c)\<lparr>dma_ftf := False\<rparr>\<rparr>) else c)"

definition DMA0_Channel1_IRQHandler :: "console_state \<Rightarrow> console_state" where
  "DMA0_Channel1_IRQHandler c =
     (if dma_ftf (dma_ch1 c) then c\<lparr>dma_ch1 := (dma_ch1 c)\<lparr>dma_ftf := False\<rparr>\<rparr> else c)"

definition rx_received :: "console_state \<Rightarrow> u32" where
  "rx_received c =
     word_of_nat CONSOLE_DMA_BUFFER_RX_SIZE - word_of_nat (dma_number (dma_ch1 c) - dma_done (dma_ch1 c))"

text \<open>
  \<open>again\<close> says whether the receiver times out once more between the first clearing of the flag and the second test.
\<close>

definition CONSOLE_USART_IRQ_HANDLER :: "bool \<Rightarrow> console_state \<Rightarrow> console_state" where
  "CONSOLE_USART_IRQ_HANDLER again c =
     (let c1 = (if \<not> ctl_rtie c then c\<lparr>ctl_rtie := True, ctl_rbneie := False\<rparr> else c)
      in if stat_rt c1 \<and> ctl_rtie c1
         then (let c2 = c1\<lparr>stat_rt := False\<rparr>;
                   c3 = (set_rx_size (rx_received c2) c2)\<lparr>stat_rt := again\<rparr>
               in if stat_rt c3 \<and> ctl_rtie c3
                  then (let c4 = c3\<lparr>stat_rt := False\<rparr>
                        in (set_rx_size (rx_received c4) c4)\<lparr>ctl_rtie := False, ctl_rbneie := True\<rparr>)
                  else c3)
         else c1)"

text \<open>
  Initialisation: \<open>rx_ring\<close> and \<open>tx_ring\<close> are what the two constructors of the rings returned; the static arrays of the
  DMA buffers are zero.
\<close>

definition console_init :: "ring_buff_t \<Rightarrow> ring_buff_t \<Rightarrow> console_state \<Rightarrow> console_state" where
  "console_init rx_ring tx_ring c =
     (let h = (console c)\<lparr>rx_ring_buffer := rx_ring, tx_ring_buffer := tx_ring,
                rx_dma_buffer := (rx_dma_buffer (console c))\<lparr>buffer := replicate CONSOLE_DMA_BUFFER_RX_SIZE 0\<rparr>,
                tx_dma_buffer := (tx_dma_buffer (console c))\<lparr>buffer := replicate CONSOLE_DMA_BUFFER_TX_SIZE 0\<rparr>,
                bReady := True\<rparr>
      in console_rx_dma_config (console_tx_dma_config (c\<lparr>console := h, ctl_rbneie := True\<rparr>)))"

section \<open>What the hardware does\<close>

text \<open>Channel 0 moves one byte from the buffer to the line, and raises its flag with the last one.\<close>

definition dma_tx_byte :: "console_state \<Rightarrow> console_state" where
  "dma_tx_byte c =
     (let ch = dma_ch0 c
      in if dma_done ch < dma_number ch
         then c\<lparr>line_out := line_out c @ [buffer (tx_dma_buffer (console c)) ! dma_done ch],
                dma_ch0 := ch\<lparr>dma_done := dma_done ch + 1, dma_ftf := dma_ftf ch \<or> dma_done ch + 1 = dma_number ch\<rparr>\<rparr>
         else c)"

text \<open>Channel 1 stores a byte from the line if it has transfers left; otherwise the byte is lost.\<close>

definition dma_rx_byte :: "u8 \<Rightarrow> console_state \<Rightarrow> console_state" where
  "dma_rx_byte b c =
     (let ch = dma_ch1 c; rx = rx_dma_buffer (console c)
      in if dma_done ch < dma_number ch
         then c\<lparr>console := (console c)\<lparr>rx_dma_buffer := rx\<lparr>buffer := (buffer rx)[dma_done ch := b]\<rparr>\<rparr>,
                dma_ch1 := ch\<lparr>dma_done := dma_done ch + 1, dma_ftf := dma_ftf ch \<or> dma_done ch + 1 = dma_number ch\<rparr>\<rparr>
         else c)"

definition rx_timeout :: "console_state \<Rightarrow> console_state" where
  "rx_timeout c = c\<lparr>stat_rt := True\<rparr>"

section \<open>Invariant\<close>

text \<open>
  The transmit side is idle, with nothing left to transfer, or busy with the first \<open>size\<close> bytes of its buffer, and then the flag is up
  exactly when the last byte is out. The receive channel is always armed for a whole buffer.
\<close>

definition tx_side_ok :: "console_state \<Rightarrow> bool" where
  "tx_side_ok c \<longleftrightarrow>
     ring_ready (tx_ring_buffer (console c)) \<and> rb_size (tx_ring_buffer (console c)) = CONSOLE_RING_BUFFER_TX_SIZE \<and>
     length (buffer (tx_dma_buffer (console c))) = CONSOLE_DMA_BUFFER_TX_SIZE \<and>
     dma_done (dma_ch0 c) \<le> dma_number (dma_ch0 c) \<and>
     dma_number (dma_ch0 c) \<le> CONSOLE_DMA_BUFFER_TX_SIZE \<and>
     (if buffer_size (tx_dma_buffer (console c)) = 0
      then dma_done (dma_ch0 c) = dma_number (dma_ch0 c) \<and> \<not> dma_ftf (dma_ch0 c)
      else dma_number (dma_ch0 c) = unat (buffer_size (tx_dma_buffer (console c))) \<and>
           dma_ftf (dma_ch0 c) = (dma_done (dma_ch0 c) = dma_number (dma_ch0 c)))"

definition rx_side_ok :: "console_state \<Rightarrow> bool" where
  "rx_side_ok c \<longleftrightarrow>
     ring_ready (rx_ring_buffer (console c)) \<and> rb_size (rx_ring_buffer (console c)) = CONSOLE_RING_BUFFER_RX_SIZE \<and>
     length (buffer (rx_dma_buffer (console c))) = CONSOLE_DMA_BUFFER_RX_SIZE \<and>
     dma_number (dma_ch1 c) = CONSOLE_DMA_BUFFER_RX_SIZE \<and> dma_done (dma_ch1 c) \<le> CONSOLE_DMA_BUFFER_RX_SIZE \<and>
     unat (buffer_size (rx_dma_buffer (console c))) \<le> CONSOLE_DMA_BUFFER_RX_SIZE"

definition console_ok :: "console_state \<Rightarrow> bool" where
  "console_ok c \<longleftrightarrow> bReady (console c) \<and> tx_side_ok c \<and> rx_side_ok c"

text \<open>The bytes of the DMA buffer that are still to be sent, and all bytes of the transmit path in the order of sending.\<close>

definition tx_pending :: "console_state \<Rightarrow> u8 list" where
  "tx_pending c = drop (dma_done (dma_ch0 c)) (take (dma_number (dma_ch0 c)) (buffer (tx_dma_buffer (console c))))"

definition tx_path :: "console_state \<Rightarrow> u8 list" where
  "tx_path c = line_out c @ tx_pending c @ ring_contents (tx_ring_buffer (console c))"

definition rx_waiting :: "console_state \<Rightarrow> u8 list" where
  "rx_waiting c = ring_contents (rx_ring_buffer (console c))"

text \<open>The bytes of an output that find room in the ring.\<close>

definition tx_room :: "console_state \<Rightarrow> nat" where
  "tx_room c = unat CONSOLE_RING_BUFFER_TX_SIZE - length (ring_contents (tx_ring_buffer (console c)))"

text \<open>The transmit side and the receive side do not touch each other.\<close>

definition rx_same :: "console_state \<Rightarrow> console_state \<Rightarrow> bool" where
  "rx_same c c' \<longleftrightarrow> rx_ring_buffer (console c') = rx_ring_buffer (console c) \<and>
     rx_dma_buffer (console c') = rx_dma_buffer (console c) \<and> dma_ch1 c' = dma_ch1 c \<and>
     bReady (console c') = bReady (console c)"

definition tx_same :: "console_state \<Rightarrow> console_state \<Rightarrow> bool" where
  "tx_same c c' \<longleftrightarrow> tx_ring_buffer (console c') = tx_ring_buffer (console c) \<and>
     tx_dma_buffer (console c') = tx_dma_buffer (console c) \<and> dma_ch0 c' = dma_ch0 c \<and>
     line_out c' = line_out c \<and> bReady (console c') = bReady (console c)"

lemma rx_same_ok: "rx_same c c' \<Longrightarrow> rx_side_ok c \<Longrightarrow> rx_side_ok c'"
  by (simp add: rx_same_def rx_side_ok_def)

lemma tx_same_ok: "tx_same c c' \<Longrightarrow> tx_side_ok c \<Longrightarrow> tx_side_ok c'"
  by (simp add: tx_same_def tx_side_ok_def)

lemma tx_same_path: "tx_same c c' \<Longrightarrow> tx_path c' = tx_path c"
  by (simp add: tx_same_def tx_path_def tx_pending_def)

section \<open>The transmit side\<close>

lemma fputc_ready:
  assumes "bReady (console c)" and "tx_side_ok c"
  obtains c' where "fputc (ucast b) c = Some c'" and "tx_side_ok c'" and "rx_same c c'"
    and "tx_path c' = tx_path c @ take (tx_room c) [b]"
    and "tx_room c' = tx_room c - 1"
proof -
  let ?rb = "tx_ring_buffer (console c)"
  have r: "ring_ready ?rb" "rb_size ?rb = CONSOLE_RING_BUFFER_TX_SIZE" using assms(2) by (simp_all add: tx_side_ok_def)
  have u: "(ucast (ucast b :: u32) :: u8) = b" by (rule bit_word_eqI) (simp add: bit_unsigned_iff)
  obtain rb' where w: "ring_write ?rb (Some [ucast (ucast b :: u32)]) 1 100 =
        Some (if length (ring_contents ?rb) + unat (1 :: u16) \<le> unat (rb_size ?rb) then uint (1 :: u16) else -1, rb')"
      "ring_ready rb'" "rb_size rb' = rb_size ?rb"
      "ring_contents rb' = (if length (ring_contents ?rb) + unat (1 :: u16) \<le> unat (rb_size ?rb)
        then ring_contents ?rb @ take (unat (1 :: u16)) [ucast (ucast b :: u32)] else ring_contents ?rb)"
    by (rule ring_write_ready [of ?rb 1 "[ucast (ucast b :: u32)]" 100]) (use r in simp_all)
  define c' where "c' = c\<lparr>console := (console c)\<lparr>tx_ring_buffer := rb'\<rparr>\<rparr>"
  have "fputc (ucast b) c = Some c'" using assms(1) w(1) by (simp add: fputc_def c'_def)
  moreover have "tx_side_ok c'" using assms(2) w(2,3) by (simp add: tx_side_ok_def c'_def)
  moreover have "rx_same c c'" by (simp add: rx_same_def c'_def)
  moreover have "ring_contents rb' = ring_contents ?rb @ take (tx_room c) [b]"
    using w(4) u ring_contents_le [OF r(1)] by (auto simp: tx_room_def r(2))
  moreover have "tx_pending c' = tx_pending c" by (simp add: tx_pending_def c'_def)
  ultimately show ?thesis
    by (intro that [of c']) (simp_all add: tx_path_def tx_room_def c'_def)
qed

lemma fputs_ready:
  assumes "bReady (console c)" and "tx_side_ok c"
  shows "\<exists>c'. fputs_loop bs c = Some c' \<and> tx_side_ok c' \<and> rx_same c c' \<and> tx_path c' = tx_path c @ take (tx_room c) bs"
  using assms
proof (induction bs arbitrary: c)
  case Nil
  then show ?case by (simp add: rx_same_def)
next
  case (Cons b bs)
  obtain c1 where c1: "fputc (ucast b) c = Some c1" "tx_side_ok c1" "rx_same c c1"
      "tx_path c1 = tx_path c @ take (tx_room c) [b]" "tx_room c1 = tx_room c - 1"
    by (rule fputc_ready [OF Cons.prems])
  then have "bReady (console c1)" using Cons.prems(1) by (simp add: rx_same_def)
  then obtain c2 where "fputs_loop bs c1 = Some c2" "tx_side_ok c2" "rx_same c1 c2"
      "tx_path c2 = tx_path c1 @ take (tx_room c1) bs" using Cons.IH c1(2) by blast
  moreover have "take (tx_room c) [b] @ take (tx_room c - 1) bs = take (tx_room c) (b # bs)" by (cases "tx_room c") simp_all
  ultimately show ?case using c1 by (auto simp: rx_same_def)
qed

lemma DMA0_Channel0_IRQHandler_ok:
  assumes "tx_side_ok c"
  shows "tx_side_ok (DMA0_Channel0_IRQHandler c)" "rx_same c (DMA0_Channel0_IRQHandler c)"
    "tx_path (DMA0_Channel0_IRQHandler c) = tx_path c"
  using assms
  by (auto simp: DMA0_Channel0_IRQHandler_def tx_side_ok_def rx_same_def tx_path_def tx_pending_def set_tx_size_def split: if_splits)

lemma dma_tx_byte_ok:
  assumes "tx_side_ok c"
  shows "tx_side_ok (dma_tx_byte c)" "rx_same c (dma_tx_byte c)" "tx_path (dma_tx_byte c) = tx_path c"
proof -
  let ?ch = "dma_ch0 c" and ?b = "take (dma_number (dma_ch0 c)) (buffer (tx_dma_buffer (console c)))"
  show "tx_side_ok (dma_tx_byte c)" using assms by (auto simp: dma_tx_byte_def tx_side_ok_def Let_def split: if_splits)
  show "rx_same c (dma_tx_byte c)" by (simp add: rx_same_def dma_tx_byte_def Let_def)
  show "tx_path (dma_tx_byte c) = tx_path c"
  proof (cases "dma_done ?ch < dma_number ?ch")
    case True
    moreover have "length ?b = dma_number ?ch" using assms by (simp add: tx_side_ok_def)
    ultimately have "drop (dma_done ?ch) ?b = buffer (tx_dma_buffer (console c)) ! dma_done ?ch # drop (dma_done ?ch + 1) ?b"
      using Cons_nth_drop_Suc [of "dma_done ?ch" ?b] by simp
    then show ?thesis using True by (simp add: dma_tx_byte_def tx_path_def tx_pending_def Let_def)
  qed (simp add: dma_tx_byte_def Let_def)
qed

lemma console_tx_task_ok:
  assumes "tx_side_ok c"
  obtains c' where "console_tx_task c = Some c'" and "tx_side_ok c'" and "rx_same c c'" and "tx_path c' = tx_path c"
    and "line_out c' = line_out c"
    and "buffer_size (tx_dma_buffer (console c)) = 0 \<Longrightarrow>
      tx_pending c' = take CONSOLE_DMA_BUFFER_TX_SIZE (ring_contents (tx_ring_buffer (console c))) \<and>
      ring_contents (tx_ring_buffer (console c')) = drop CONSOLE_DMA_BUFFER_TX_SIZE (ring_contents (tx_ring_buffer (console c)))"
proof -
  let ?rb = "tx_ring_buffer (console c)" and ?tx = "tx_dma_buffer (console c)"
  have r: "ring_ready ?rb" using assms by (simp add: tx_side_ok_def)
  have empty: "ring_is_empty ?rb = Some (ring_contents ?rb = [])" using r by (rule ring_is_empty_ready)
  show ?thesis
  proof (cases "ring_contents ?rb \<noteq> [] \<and> buffer_size ?tx = 0")
    case False
    then have "console_tx_task c = Some c" using empty by (auto simp: console_tx_task_def)
    moreover have "tx_pending c = []" if "buffer_size ?tx = 0" using assms that by (simp add: tx_side_ok_def tx_pending_def)
    ultimately show ?thesis using assms False by (intro that [of c]) (auto simp: rx_same_def)
  next
    case True
    define bs where "bs = take CONSOLE_DMA_BUFFER_TX_SIZE (ring_contents ?rb)"
    have n: "unat (word_of_nat CONSOLE_DMA_BUFFER_TX_SIZE :: u16) = CONSOLE_DMA_BUFFER_TX_SIZE" by (simp add: console_sizes)
    obtain rb' where rd: "ring_read ?rb True (word_of_nat CONSOLE_DMA_BUFFER_TX_SIZE) 100 = Some (int (length bs), bs, rb')"
        "ring_ready rb'" "rb_size rb' = rb_size ?rb" "ring_contents rb' = drop CONSOLE_DMA_BUFFER_TX_SIZE (ring_contents ?rb)"
      using ring_read_ready [OF r, of "word_of_nat CONSOLE_DMA_BUFFER_TX_SIZE" 100] unfolding n bs_def by blast
    have bs: "bs \<noteq> []" "length bs \<le> CONSOLE_DMA_BUFFER_TX_SIZE" using True by (simp_all add: console_sizes bs_def)
    have s: "unat (word_of_int (int (length bs)) :: u32) = length bs"
      using bs(2) by (simp add: word_of_nat_eq_nat_iff console_sizes)
    define c' where "c' = console_tx_dma_config (set_tx_size (word_of_int (int (length bs)))
      (c\<lparr>console := (console c)\<lparr>tx_ring_buffer := rb', tx_dma_buffer := ?tx\<lparr>buffer := store_at 0 bs (buffer ?tx)\<rparr>\<rparr>\<rparr>))"
    have "console_tx_task c = Some c'" using empty True rd(1) bs(1) by (simp add: console_tx_task_def c'_def Let_def)
    moreover have len: "length (buffer ?tx) = CONSOLE_DMA_BUFFER_TX_SIZE" using assms by (simp add: tx_side_ok_def)
    have st: "store_at 0 bs (buffer ?tx) = bs @ drop (length bs) (buffer ?tx)" by (simp add: store_at_def)
    have pend: "tx_pending c' = bs"
      unfolding c'_def tx_pending_def console_tx_dma_config_def set_tx_size_def using s by (simp add: st)
    have nz: "(word_of_int (int (length bs)) :: u32) \<noteq> 0" using s bs(1) by (metis length_0_conv unat_0)
    have "tx_side_ok c'"
      using assms rd(2,3) len bs s nz
      unfolding c'_def tx_side_ok_def console_tx_dma_config_def set_tx_size_def st by simp
    moreover have "rx_same c c'" by (simp add: rx_same_def c'_def console_tx_dma_config_def set_tx_size_def)
    moreover have lo: "line_out c' = line_out c" "ring_contents (tx_ring_buffer (console c')) = ring_contents rb'"
      by (simp_all add: c'_def console_tx_dma_config_def set_tx_size_def)
    moreover have "tx_pending c = []" using assms True by (simp add: tx_side_ok_def tx_pending_def)
    then have "tx_path c' = tx_path c" using pend lo rd(4) by (simp add: tx_path_def bs_def)
    ultimately show ?thesis using pend rd(4) unfolding bs_def by (intro that [of c']) simp_all
  qed
qed

text \<open>One round of the transmit side: the task, the transfers of the channel, and the completion interrupt.\<close>

definition tx_round :: "console_state \<Rightarrow> console_state option" where
  "tx_round c =
     map_option (\<lambda>c'. DMA0_Channel0_IRQHandler ((dma_tx_byte ^^ CONSOLE_DMA_BUFFER_TX_SIZE) c')) (console_tx_task c)"

lemma dma_tx_byte_pow:
  assumes "tx_side_ok c"
  shows "tx_side_ok ((dma_tx_byte ^^ n) c) \<and> rx_same c ((dma_tx_byte ^^ n) c) \<and>
    tx_path ((dma_tx_byte ^^ n) c) = tx_path c \<and> tx_pending ((dma_tx_byte ^^ n) c) = drop n (tx_pending c) \<and>
    buffer_size (tx_dma_buffer (console ((dma_tx_byte ^^ n) c))) = buffer_size (tx_dma_buffer (console c)) \<and>
    ring_contents (tx_ring_buffer (console ((dma_tx_byte ^^ n) c))) = ring_contents (tx_ring_buffer (console c))"
proof (induction n)
  case 0
  then show ?case using assms by (simp add: rx_same_def)
next
  case (Suc n)
  let ?c = "(dma_tx_byte ^^ n) c"
  have "tx_pending (dma_tx_byte ?c) = drop 1 (tx_pending ?c)"
    using Suc by (auto simp: tx_pending_def dma_tx_byte_def Let_def)
  moreover have "buffer_size (tx_dma_buffer (console (dma_tx_byte ?c))) = buffer_size (tx_dma_buffer (console ?c))"
    "ring_contents (tx_ring_buffer (console (dma_tx_byte ?c))) = ring_contents (tx_ring_buffer (console ?c))"
    by (simp_all add: dma_tx_byte_def Let_def)
  ultimately show ?case using Suc dma_tx_byte_ok [of ?c] by (auto simp: rx_same_def)
qed

lemma tx_round_ok:
  assumes "tx_side_ok c"
  obtains c' where "tx_round c = Some c'" and "tx_side_ok c'" and "rx_same c c'" and "tx_path c' = tx_path c"
    and "tx_pending c' = []" and "buffer_size (tx_dma_buffer (console c')) = 0"
    and "ring_contents (tx_ring_buffer (console c')) =
      (if buffer_size (tx_dma_buffer (console c)) = 0 then drop CONSOLE_DMA_BUFFER_TX_SIZE (ring_contents (tx_ring_buffer (console c)))
       else ring_contents (tx_ring_buffer (console c)))"
proof -
  obtain c1 where c1: "console_tx_task c = Some c1" "tx_side_ok c1" "rx_same c c1" "tx_path c1 = tx_path c"
      "line_out c1 = line_out c"
      "buffer_size (tx_dma_buffer (console c)) = 0 \<Longrightarrow>
      tx_pending c1 = take CONSOLE_DMA_BUFFER_TX_SIZE (ring_contents (tx_ring_buffer (console c))) \<and>
      ring_contents (tx_ring_buffer (console c1)) = drop CONSOLE_DMA_BUFFER_TX_SIZE (ring_contents (tx_ring_buffer (console c)))"
    by (rule console_tx_task_ok [OF assms]) blast
  let ?c2 = "(dma_tx_byte ^^ CONSOLE_DMA_BUFFER_TX_SIZE) c1"
  note p = dma_tx_byte_pow [OF c1(2), of CONSOLE_DMA_BUFFER_TX_SIZE]
  have len: "length (tx_pending c1) \<le> CONSOLE_DMA_BUFFER_TX_SIZE" using c1(2) by (auto simp: tx_side_ok_def tx_pending_def)
  then have out: "tx_pending ?c2 = []" using p by simp
  have ok2: "tx_side_ok ?c2" using p by blast
  then have fin: "dma_done (dma_ch0 ?c2) = dma_number (dma_ch0 ?c2)" using out by (simp add: tx_side_ok_def tx_pending_def)
  have size0: "buffer_size (tx_dma_buffer (console (DMA0_Channel0_IRQHandler ?c2))) = 0"
    using ok2 fin by (auto simp: DMA0_Channel0_IRQHandler_def set_tx_size_def tx_side_ok_def split: if_splits)
  have out3: "tx_pending (DMA0_Channel0_IRQHandler ?c2) = []"
    using out by (simp add: DMA0_Channel0_IRQHandler_def set_tx_size_def tx_pending_def)
  have ring3: "ring_contents (tx_ring_buffer (console (DMA0_Channel0_IRQHandler ?c2))) = ring_contents (tx_ring_buffer (console c1))"
    using p by (simp add: DMA0_Channel0_IRQHandler_def set_tx_size_def)
  have keep: "ring_contents (tx_ring_buffer (console c1)) = ring_contents (tx_ring_buffer (console c))"
    if "buffer_size (tx_dma_buffer (console c)) \<noteq> 0"
    using that c1(1) ring_is_empty_ready [of "tx_ring_buffer (console c)"] assms
    by (simp add: console_tx_task_def tx_side_ok_def)
  show ?thesis
    using c1 p DMA0_Channel0_IRQHandler_ok [OF ok2] size0 out3 ring3 keep
    by (intro that [of "DMA0_Channel0_IRQHandler ?c2"]) (auto simp: tx_round_def rx_same_def)
qed

section \<open>The receive side\<close>

lemma rx_received_done: "rx_side_ok c \<Longrightarrow> unat (rx_received c) = dma_done (dma_ch1 c)"
proof -
  assume "rx_side_ok c"
  then have d: "dma_number (dma_ch1 c) = 20" "dma_done (dma_ch1 c) \<le> 20" by (simp_all add: rx_side_ok_def console_sizes)
  define w :: u32 where "w = word_of_nat (20 - dma_done (dma_ch1 c))"
  have w: "unat w = 20 - dma_done (dma_ch1 c)" unfolding w_def by (rule word_of_nat_eq_nat_iff) simp
  then have "unat (20 - w) = 20 - unat w" by (subst unat_diff_le) (simp_all add: word_le_nat_alt)
  moreover have "rx_received c = 20 - w" unfolding rx_received_def w_def d(1) by (simp add: console_sizes)
  ultimately show ?thesis using d(2) w by simp
qed

lemma rx_side_fields:
  "dma_ch1 (set_rx_size n c) = dma_ch1 c" "rx_ring_buffer (console (set_rx_size n c)) = rx_ring_buffer (console c)"
  "buffer_size (rx_dma_buffer (console (set_rx_size n c))) = n"
  "buffer (rx_dma_buffer (console (set_rx_size n c))) = buffer (rx_dma_buffer (console c))"
  "tx_same c (set_rx_size n c)" "rx_received (set_rx_size n c) = rx_received c"
  by (simp_all add: set_rx_size_def tx_same_def rx_received_def)

lemma CONSOLE_USART_IRQ_HANDLER_ok:
  assumes "rx_side_ok c"
  shows "rx_side_ok (CONSOLE_USART_IRQ_HANDLER again c)" "tx_same c (CONSOLE_USART_IRQ_HANDLER again c)"
  using rx_received_done [OF assms] assms
  by (auto simp: CONSOLE_USART_IRQ_HANDLER_def Let_def rx_side_ok_def tx_same_def set_rx_size_def rx_received_def)

lemma CONSOLE_USART_IRQ_HANDLER_size:
  assumes "rx_side_ok c" and "stat_rt c"
  shows "unat (buffer_size (rx_dma_buffer (console (CONSOLE_USART_IRQ_HANDLER again c)))) = dma_done (dma_ch1 c)"
    "buffer (rx_dma_buffer (console (CONSOLE_USART_IRQ_HANDLER again c))) = buffer (rx_dma_buffer (console c))"
    "dma_ch1 (CONSOLE_USART_IRQ_HANDLER again c) = dma_ch1 c"
    "rx_ring_buffer (console (CONSOLE_USART_IRQ_HANDLER again c)) = rx_ring_buffer (console c)"
  using rx_received_done [OF assms(1)] assms(2)
  by (auto simp: CONSOLE_USART_IRQ_HANDLER_def Let_def set_rx_size_def rx_received_def)

lemma dma_rx_byte_ok:
  assumes "rx_side_ok c"
  shows "rx_side_ok (dma_rx_byte b c)" "tx_same c (dma_rx_byte b c)"
  using assms by (auto simp: dma_rx_byte_def rx_side_ok_def tx_same_def Let_def)

lemma dma_rx_bytes:
  assumes "rx_side_ok c" and "rx_side_ok c \<Longrightarrow> d = dma_done (dma_ch1 c)"
  shows "rx_side_ok (fold dma_rx_byte bs c) \<and> tx_same c (fold dma_rx_byte bs c) \<and>
    rx_ring_buffer (console (fold dma_rx_byte bs c)) = rx_ring_buffer (console c) \<and>
    buffer_size (rx_dma_buffer (console (fold dma_rx_byte bs c))) = buffer_size (rx_dma_buffer (console c)) \<and>
    dma_done (dma_ch1 (fold dma_rx_byte bs c)) = min CONSOLE_DMA_BUFFER_RX_SIZE (d + length bs) \<and>
    take (dma_done (dma_ch1 (fold dma_rx_byte bs c))) (buffer (rx_dma_buffer (console (fold dma_rx_byte bs c)))) =
      take CONSOLE_DMA_BUFFER_RX_SIZE (take d (buffer (rx_dma_buffer (console c))) @ bs)"
  using assms
proof (induction bs arbitrary: c d)
  case Nil
  then show ?case by (auto simp: rx_side_ok_def tx_same_def)
next
  case (Cons b bs)
  let ?c = "dma_rx_byte b c"
  have d: "d = dma_done (dma_ch1 c)" using Cons.prems by blast
  note ok = dma_rx_byte_ok [OF Cons.prems(1), of b]
  note ih = Cons.IH [OF ok(1) refl]
  show ?case
  proof (cases "d < CONSOLE_DMA_BUFFER_RX_SIZE")
    case True
    have c: "dma_done (dma_ch1 ?c) = d + 1" "buffer (rx_dma_buffer (console ?c)) = (buffer (rx_dma_buffer (console c)))[d := b]"
        "rx_ring_buffer (console ?c) = rx_ring_buffer (console c)"
        "buffer_size (rx_dma_buffer (console ?c)) = buffer_size (rx_dma_buffer (console c))"
      using True Cons.prems(1) d by (simp_all add: dma_rx_byte_def rx_side_ok_def Let_def)
    have "d < length (buffer (rx_dma_buffer (console c)))" using True Cons.prems(1) by (simp add: rx_side_ok_def)
    then have "take (d + 1) ((buffer (rx_dma_buffer (console c)))[d := b]) = take d (buffer (rx_dma_buffer (console c))) @ [b]"
      by (simp add: take_Suc_conv_app_nth)
    then show ?thesis using ih ok(2) c by (auto simp: tx_same_def)
  next
    case False
    then have full: "d = CONSOLE_DMA_BUFFER_RX_SIZE" using Cons.prems(1) d by (simp add: rx_side_ok_def)
    then have cc: "?c = c" using Cons.prems(1) d by (simp add: dma_rx_byte_def rx_side_ok_def Let_def)
    have "length (take d (buffer (rx_dma_buffer (console c)))) = CONSOLE_DMA_BUFFER_RX_SIZE"
      using full Cons.prems(1) by (simp add: rx_side_ok_def)
    then have eq: "take CONSOLE_DMA_BUFFER_RX_SIZE (take d (buffer (rx_dma_buffer (console c))) @ b # bs) =
        take CONSOLE_DMA_BUFFER_RX_SIZE (take d (buffer (rx_dma_buffer (console c))) @ bs)"
      "min CONSOLE_DMA_BUFFER_RX_SIZE (d + length (b # bs)) = min CONSOLE_DMA_BUFFER_RX_SIZE (d + length bs)"
      using full by simp_all
    show ?thesis unfolding fold_simps cc eq by (rule ih [unfolded cc, folded d])
  qed
qed

lemma console_rx_task_ok:
  assumes ok: "console_ok c" and n: "n = unat (buffer_size (rx_dma_buffer (console c)))"
  obtains c' where "console_rx_task c = Some c'" and "console_ok c'"
    and "n = 0 \<Longrightarrow> c' = c"
    and "0 < n \<Longrightarrow> dma_done (dma_ch1 c') = 0"
    and "0 < n \<Longrightarrow> length (rx_waiting c) + n \<le> unat CONSOLE_RING_BUFFER_RX_SIZE \<Longrightarrow>
      rx_waiting c' = rx_waiting c @ take n (buffer (rx_dma_buffer (console c))) \<and>
      buffer_size (rx_dma_buffer (console c')) = 0 \<and> tx_path c' = tx_path c"
    and "0 < n \<Longrightarrow> unat CONSOLE_RING_BUFFER_RX_SIZE < length (rx_waiting c) + n \<Longrightarrow>
      rx_waiting c' = rx_waiting c \<and> rx_dma_buffer (console c') = rx_dma_buffer (console c) \<and>
      tx_path c' = tx_path c @ take (tx_room c) (bytes_of_string msg_rx_full)"
proof -
  let ?rx = "rx_dma_buffer (console c)" and ?rb = "rx_ring_buffer (console c)"
  have side: "bReady (console c)" "tx_side_ok c" "rx_side_ok c" using ok by (simp_all add: console_ok_def)
  show ?thesis
  proof (cases "buffer_size ?rx = 0")
    case True
    then show ?thesis using ok n by (intro that [of c]) (simp_all add: console_rx_task_def)
  next
    case False
    have n20: "0 < n" "n \<le> 20" using side(3) n False by (auto simp: rx_side_ok_def console_sizes unat_gt_0)
    have "take_bit 16 n = n" using n20(2) by (intro take_bit_nat_eq_self) simp
    then have u: "unat (ucast (buffer_size ?rx) :: u16) = n" using n by (simp add: unsigned_ucast_eq unsigned_take_bit_eq)
    then have nz: "(ucast (buffer_size ?rx) :: u16) \<noteq> 0" using n20 by auto
    have r: "ring_ready ?rb" "rb_size ?rb = CONSOLE_RING_BUFFER_RX_SIZE" "n \<le> length (buffer ?rx)"
      using side(3) n20 by (simp_all add: rx_side_ok_def console_sizes)
    obtain rb' where w: "ring_write ?rb (Some (buffer ?rx)) (ucast (buffer_size ?rx)) 100 =
        Some (if length (ring_contents ?rb) + n \<le> unat (rb_size ?rb) then uint (ucast (buffer_size ?rx) :: u16) else -1, rb')"
        "ring_ready rb'" "rb_size rb' = rb_size ?rb"
        "ring_contents rb' = (if length (ring_contents ?rb) + n \<le> unat (rb_size ?rb)
          then ring_contents ?rb @ take n (buffer ?rx) else ring_contents ?rb)"
      by (rule ring_write_ready [OF r(1) nz, of "buffer ?rx" 100]) (use u r(3) in simp_all)
    let ?c1 = "c\<lparr>console := (console c)\<lparr>rx_ring_buffer := rb'\<rparr>\<rparr>"
    have txs: "tx_same c ?c1" "tx_same c (set_rx_size 0 ?c1)" by (simp_all add: tx_same_def set_rx_size_def)
    show ?thesis
    proof (cases "length (ring_contents ?rb) + n \<le> unat (rb_size ?rb)")
      case True
      have pos: "uint (ucast (buffer_size ?rx) :: u16) > 0" using nz by (simp add: word_neq_0_conv word_less_def)
      let ?c' = "console_rx_dma_config (set_rx_size 0 ?c1)"
      have "console_rx_task c = Some ?c'" using False w(1) True pos by (simp add: console_rx_task_def Let_def)
      moreover have "tx_same c ?c'" using txs(2) by (simp add: tx_same_def console_rx_dma_config_def)
      moreover have "rx_side_ok ?c'"
        using side(3) w(2,3) by (simp add: rx_side_ok_def console_rx_dma_config_def set_rx_size_def)
      ultimately show ?thesis
        using side n20 True w(4) r(2) tx_same_ok [of c ?c'] tx_same_path [of c ?c']
        by (intro that [of ?c']) (auto simp: console_ok_def rx_waiting_def console_rx_dma_config_def set_rx_size_def)
    next
      case no: False
      have side1: "bReady (console ?c1)" "tx_side_ok ?c1" using side(1) tx_same_ok [OF txs(1) side(2)] by simp_all
      obtain c2 where c2: "fputs_loop (bytes_of_string msg_rx_full) ?c1 = Some c2" "tx_side_ok c2" "rx_same ?c1 c2"
          "tx_path c2 = tx_path ?c1 @ take (tx_room ?c1) (bytes_of_string msg_rx_full)"
        using fputs_ready [OF side1] by blast
      let ?c' = "console_rx_dma_config c2"
      have "console_rx_task c = Some ?c'" using False w(1) no c2(1) by (simp add: console_rx_task_def Let_def)
      moreover have "tx_same c2 ?c'" by (simp add: tx_same_def console_rx_dma_config_def)
      moreover have "rx_side_ok ?c'" "bReady (console ?c')"
        using side(1,3) w(2,3) c2(3) by (simp_all add: rx_side_ok_def console_rx_dma_config_def rx_same_def)
      ultimately show ?thesis
        using side n20 no w(4) r(2) c2 tx_same_ok [of c2 ?c'] tx_same_path [of c2 ?c'] tx_same_path [OF txs(1)]
        by (intro that [of ?c']) (auto simp: console_ok_def rx_waiting_def console_rx_dma_config_def rx_same_def tx_room_def)
    qed
  qed
qed

section \<open>Runs\<close>

text \<open>
  Everything that can happen to the console after its initialisation: output by a task, a turn of either driver task, a read by a
  client, the interrupt handlers, and the steps of the hardware. Each is one step. The code itself does not keep a writer and the
  reader of a ring from preempting each other, since they take different mutexes; the runs are those in which they do not.
\<close>

datatype console_event =
    Print "u8 list" | Tx_turn | Rx_turn | Read nat
  | Tx_complete | Rx_complete | Usart_irq bool
  | Dma_sends | Line_byte u8 | Line_idle

definition console_read :: "nat \<Rightarrow> console_state \<Rightarrow> (u8 list \<times> console_state) option" where
  "console_read n c =
     (case ring_read (rx_ring_buffer (console c)) True (word_of_nat n) 10 of
        None \<Rightarrow> None
      | Some (_, bs, rb) \<Rightarrow> Some (bs, c\<lparr>console := (console c)\<lparr>rx_ring_buffer := rb\<rparr>\<rparr>))"

fun console_step :: "console_event \<Rightarrow> console_state \<Rightarrow> console_state option" where
  "console_step (Print bs) c = fputs_loop bs c"
| "console_step Tx_turn c = console_tx_task c"
| "console_step Rx_turn c = console_rx_task c"
| "console_step (Read n) c = map_option snd (console_read n c)"
| "console_step Tx_complete c = Some (DMA0_Channel0_IRQHandler c)"
| "console_step Rx_complete c = Some (DMA0_Channel1_IRQHandler c)"
| "console_step (Usart_irq again) c = Some (CONSOLE_USART_IRQ_HANDLER again c)"
| "console_step Dma_sends c = Some (dma_tx_byte c)"
| "console_step (Line_byte b) c = Some (dma_rx_byte b c)"
| "console_step Line_idle c = Some (rx_timeout c)"

text \<open>
  The bytes that enter the transmit path in a step: of an output those that find room in the ring, and the report of the
  receive task when its own ring is full.
\<close>

definition console_accepts :: "console_event \<Rightarrow> console_state \<Rightarrow> u8 list" where
  "console_accepts e c =
     (case e of
        Print bs \<Rightarrow> take (tx_room c) bs
      | Rx_turn \<Rightarrow>
          (let n = unat (buffer_size (rx_dma_buffer (console c)))
           in if 0 < n \<and> unat CONSOLE_RING_BUFFER_RX_SIZE < length (rx_waiting c) + n
              then take (tx_room c) (bytes_of_string msg_rx_full) else [])
      | _ \<Rightarrow> [])"

inductive console_runs :: "console_state \<Rightarrow> u8 list \<Rightarrow> console_state \<Rightarrow> bool" for c0 where
  start: "console_runs c0 [] c0"
| step: "console_runs c0 acc c \<Longrightarrow> console_step e c = Some c' \<Longrightarrow> console_runs c0 (acc @ console_accepts e c) c'"

lemma console_read_ok:
  assumes "rx_side_ok c"
  obtains c' where "console_read n c = Some (take (unat (word_of_nat n :: u16)) (rx_waiting c), c')"
    and "rx_side_ok c'" and "tx_same c c'" and "rx_waiting c' = drop (unat (word_of_nat n :: u16)) (rx_waiting c)"
proof -
  let ?rb = "rx_ring_buffer (console c)"
  have r: "ring_ready ?rb" using assms by (simp add: rx_side_ok_def)
  obtain rb' where rd: "ring_read ?rb True (word_of_nat n) 10 =
        Some (int (length (take (unat (word_of_nat n :: u16)) (ring_contents ?rb))), take (unat (word_of_nat n :: u16)) (ring_contents ?rb), rb')"
      "ring_ready rb'" "rb_size rb' = rb_size ?rb" "ring_contents rb' = drop (unat (word_of_nat n :: u16)) (ring_contents ?rb)"
    by (rule ring_read_ready [OF r])
  then show ?thesis
    using assms
    by (intro that [of "c\<lparr>console := (console c)\<lparr>rx_ring_buffer := rb'\<rparr>\<rparr>"])
      (simp_all add: console_read_def rx_side_ok_def tx_same_def rx_waiting_def)
qed

lemma console_step_ok:
  assumes "console_ok c"
  shows "\<exists>c'. console_step e c = Some c' \<and> console_ok c' \<and> tx_path c' = tx_path c @ console_accepts e c"
proof -
  have side: "bReady (console c)" "tx_side_ok c" "rx_side_ok c" using assms by (simp_all add: console_ok_def)
  have tx: ?thesis if "console_step e c = Some c'" "tx_side_ok c'" "rx_same c c'" "tx_path c' = tx_path c @ console_accepts e c" for c'
    using that side rx_same_ok [of c c'] by (auto simp: console_ok_def rx_same_def)
  have rx: ?thesis if "console_step e c = Some c'" "rx_side_ok c'" "tx_same c c'" "console_accepts e c = []" for c'
    using that side tx_same_ok [of c c'] tx_same_path [of c c'] by (auto simp: console_ok_def tx_same_def)
  show ?thesis
  proof (cases e)
    case (Print bs)
    then show ?thesis using fputs_ready [OF side(1,2), of bs] tx by (auto simp: console_accepts_def)
  next
    case Tx_turn
    obtain c' where "console_tx_task c = Some c'" "tx_side_ok c'" "rx_same c c'" "tx_path c' = tx_path c"
      by (rule console_tx_task_ok [OF side(2)])
    then show ?thesis using Tx_turn tx [of c'] by (simp add: console_accepts_def)
  next
    case Rx_turn
    show ?thesis
      by (rule console_rx_task_ok [OF assms refl], unfold Rx_turn console_accepts_def Let_def console_event.case)
        (use Rx_turn in \<open>auto simp: not_less\<close>)
  next
    case (Read n)
    obtain c' where "console_read n c = Some (take (unat (word_of_nat n :: u16)) (rx_waiting c), c')" "rx_side_ok c'" "tx_same c c'"
      by (rule console_read_ok [OF side(3)])
    then show ?thesis using Read rx [of c'] by (simp add: console_accepts_def)
  next
    case Tx_complete
    then show ?thesis using DMA0_Channel0_IRQHandler_ok [OF side(2)] tx by (simp add: console_accepts_def)
  next
    case Rx_complete
    then show ?thesis
      using side rx [of "DMA0_Channel1_IRQHandler c"]
      by (auto simp: console_accepts_def DMA0_Channel1_IRQHandler_def rx_side_ok_def tx_same_def)
  next
    case (Usart_irq again)
    then show ?thesis using CONSOLE_USART_IRQ_HANDLER_ok [OF side(3), of again] rx by (simp add: console_accepts_def)
  next
    case Dma_sends
    then show ?thesis using dma_tx_byte_ok [OF side(2)] tx by (simp add: console_accepts_def)
  next
    case (Line_byte b)
    then show ?thesis using dma_rx_byte_ok [OF side(3), of b] rx by (simp add: console_accepts_def)
  next
    case Line_idle
    then show ?thesis
      using side rx [of "rx_timeout c"] by (simp add: console_accepts_def rx_timeout_def rx_side_ok_def tx_same_def)
  qed
qed

lemma console_runs_ok:
  assumes "console_runs c0 acc c" and "console_ok c0"
  shows "console_ok c \<and> tx_path c = tx_path c0 @ acc"
  using assms
proof induction
  case (step acc c e c')
  then show ?case using console_step_ok [of c e] by auto
qed simp

lemma console_init_ok:
  assumes "ring_ready rx" "rb_size rx = CONSOLE_RING_BUFFER_RX_SIZE" "ring_ready tx" "rb_size tx = CONSOLE_RING_BUFFER_TX_SIZE"
    and "buffer_size (tx_dma_buffer (console c)) = 0" and "buffer_size (rx_dma_buffer (console c)) = 0"
  shows "console_ok (console_init rx tx c)"
    "tx_path (console_init rx tx c) = line_out c @ ring_contents tx"
  using assms
  by (simp_all add: console_ok_def tx_side_ok_def rx_side_ok_def console_init_def Let_def console_rx_dma_config_def
      console_tx_dma_config_def tx_path_def tx_pending_def console_sizes)

section \<open>Properties\<close>

text \<open>The zero-initialised static objects, and the rings as their constructors leave them.\<close>

definition console_boot :: console_state where
  "console_boot =
     \<lparr>console = \<lparr>bReady = False, rx_ring_buffer = ring_instance0, tx_ring_buffer = ring_instance0,
        rx_dma_buffer = \<lparr>buffer = [], buffer_size = 0\<rparr>, tx_dma_buffer = \<lparr>buffer = [], buffer_size = 0\<rparr>\<rparr>,
      dma_ch0 = \<lparr>dma_number = 0, dma_done = 0, dma_ftf = False\<rparr>, dma_ch1 = \<lparr>dma_number = 0, dma_done = 0, dma_ftf = False\<rparr>,
      ctl_rtie = False, ctl_rbneie = False, stat_rt = False, line_out = []\<rparr>"

definition console_ring :: "u16 \<Rightarrow> ring_buff_t" where
  "console_ring n = snd (ring_buff_init n ring_instance0 (Some (replicate (unat n) 0)) (Some Mutex_Free) (Some Mutex_Free))"

definition console_start :: console_state where
  "console_start =
     console_init (console_ring CONSOLE_RING_BUFFER_RX_SIZE) (console_ring CONSOLE_RING_BUFFER_TX_SIZE) console_boot"

lemma console_ring_ready: "n \<noteq> 0 \<Longrightarrow> ring_ready (console_ring n) \<and> rb_size (console_ring n) = n \<and> ring_contents (console_ring n) = []"
  by (simp add: console_ring_def ring_buff_init_def ring_instance0_def ring_ready_def ring_wf_def ring_idle_def
      ring_contents_def ring_count_def ring_slice_def Let_def word_gt_0)

lemma console_start_ok: "console_ok console_start" "tx_path console_start = []"
  using console_init_ok [of "console_ring CONSOLE_RING_BUFFER_RX_SIZE" "console_ring CONSOLE_RING_BUFFER_TX_SIZE" console_boot]
    console_ring_ready [of CONSOLE_RING_BUFFER_RX_SIZE] console_ring_ready [of CONSOLE_RING_BUFFER_TX_SIZE]
  by (simp_all add: console_start_def console_boot_def console_sizes)

lemma console_print_runs:
  assumes "length bs \<le> 400"
  shows "\<exists>c. console_step (Print bs) console_start = Some c \<and> console_runs console_start bs c"
proof -
  obtain c where c: "console_step (Print bs) console_start = Some c"
    using console_step_ok [OF console_start_ok(1)] by blast
  have "ring_contents (tx_ring_buffer (console console_start)) = []" using console_start_ok(2) by (simp add: tx_path_def)
  then have "console_accepts (Print bs) console_start = bs"
    using assms by (simp add: console_accepts_def tx_room_def console_sizes)
  then show ?thesis using console_runs.step [OF console_runs.start c] c by auto
qed

text \<open>
  Claim C16: console output is neither lost, duplicated nor reordered behind the ring, as long as no task preempts another one inside a call of
  the same ring. In every sequence of outputs, turns of the two driver tasks, reads, interrupt handlers and steps of the hardware after the initialisation, each as a
  whole, every step is possible, and the bytes that \<open>fputc\<close> accepted so far are exactly the bytes sent on the line, followed by those
  of the DMA buffer that are not sent yet, followed by those in the ring; in particular the line carries a prefix of what was
  accepted.
\<close>

theorem console_tx_in_order:
  assumes "console_runs console_start acc c"
  shows "acc = line_out c @ tx_pending c @ ring_contents (tx_ring_buffer (console c)) \<and>
    (\<exists>c'. console_step e c = Some c')"
  using console_runs_ok [OF assms console_start_ok(1)] console_start_ok(2) console_step_ok [of c e]
  by (auto simp: tx_path_def)

theorem console_tx_in_order_witness:
  "\<exists>c. console_runs console_start [72, 105] c \<and> [72, 105] = line_out c @ tx_pending c @ ring_contents (tx_ring_buffer (console c))"
proof -
  obtain c where "console_step (Print [72, 105]) console_start = Some c" "console_runs console_start [72, 105] c"
    using console_print_runs [of "[72, 105]"] by auto
  then show ?thesis using console_tx_in_order by blast
qed

text \<open>
  All accepted output reaches the line. From any state the console can be in, three rounds of the transmit task, each
  followed by the transfers of its DMA channel and the completion interrupt, put every accepted byte on the line, in order, and
  leave the ring and the DMA buffer empty; the receive side is not touched.
\<close>

theorem console_tx_drains:
  assumes "console_runs console_start acc c"
  shows "\<exists>c'. Option.bind (tx_round c) (\<lambda>c1. Option.bind (tx_round c1) tx_round) = Some c' \<and>
    line_out c' = acc \<and> tx_pending c' = [] \<and> ring_contents (tx_ring_buffer (console c')) = [] \<and> rx_same c c'"
proof -
  have ok: "console_ok c" "tx_path c = acc" using console_runs_ok [OF assms console_start_ok(1)] console_start_ok(2) by simp_all
  then have ts: "tx_side_ok c" by (simp add: console_ok_def)
  obtain c1 where c1: "tx_round c = Some c1" "tx_side_ok c1" "rx_same c c1" "tx_path c1 = tx_path c"
      "buffer_size (tx_dma_buffer (console c1)) = 0"
    by (rule tx_round_ok [OF ts])
  obtain c2 where c2: "tx_round c1 = Some c2" "tx_side_ok c2" "rx_same c1 c2" "tx_path c2 = tx_path c1"
      "buffer_size (tx_dma_buffer (console c2)) = 0"
      "ring_contents (tx_ring_buffer (console c2)) = (if buffer_size (tx_dma_buffer (console c1)) = 0
        then drop CONSOLE_DMA_BUFFER_TX_SIZE (ring_contents (tx_ring_buffer (console c1))) else ring_contents (tx_ring_buffer (console c1)))"
    by (rule tx_round_ok [OF c1(2)])
  obtain c3 where c3: "tx_round c2 = Some c3" "rx_same c2 c3" "tx_path c3 = tx_path c2" "tx_pending c3 = []"
      "ring_contents (tx_ring_buffer (console c3)) = (if buffer_size (tx_dma_buffer (console c2)) = 0
        then drop CONSOLE_DMA_BUFFER_TX_SIZE (ring_contents (tx_ring_buffer (console c2))) else ring_contents (tx_ring_buffer (console c2)))"
    by (rule tx_round_ok [OF c2(2)])
  have "length (ring_contents (tx_ring_buffer (console c1))) \<le> 400"
    using ring_contents_le [of "tx_ring_buffer (console c1)"] c1(2) by (simp add: tx_side_ok_def console_sizes)
  then have e: "ring_contents (tx_ring_buffer (console c3)) = []" using c2(5,6) c3(5) c1(5) by (simp add: console_sizes)
  then have "line_out c3 = acc" using c1(4) c2(4) c3(3,4) ok(2) by (simp add: tx_path_def)
  then show ?thesis using c1(1,3) c2(1,3) c3(1,2,4) e by (auto simp: rx_same_def)
qed

theorem console_tx_drains_witness:
  "\<exists>c c'. console_step (Print [72, 105]) console_start = Some c \<and>
    Option.bind (tx_round c) (\<lambda>c1. Option.bind (tx_round c1) tx_round) = Some c' \<and> line_out c' = [72, 105]"
proof -
  obtain c where "console_step (Print [72, 105]) console_start = Some c" "console_runs console_start [72, 105] c"
    using console_print_runs [of "[72, 105]"] by auto
  then show ?thesis using console_tx_drains [of "[72, 105]" c] by blast
qed

text \<open>
  What the receive path keeps of a burst. From a state with an empty receive buffer, let a burst arrive, the receiver time
  out and its interrupt be served, further bytes arrive, and then the receive task run. If the ring has room, exactly
  the first twenty bytes of the burst are added to it; the rest of the burst and every byte that arrived between the interrupt and
  the turn of the task are lost, because the task starts the DMA channel afresh. If the ring has no room, nothing is added and the size
  stays set although the channel, started afresh as well, overwrites the buffer from its beginning.
\<close>

theorem console_rx_burst:
  assumes "console_ok c" and "dma_done (dma_ch1 c) = 0" and "bs \<noteq> []" and "n = min CONSOLE_DMA_BUFFER_RX_SIZE (length bs)"
  shows "\<exists>c'. console_rx_task (fold dma_rx_byte late (CONSOLE_USART_IRQ_HANDLER again (rx_timeout (fold dma_rx_byte bs c)))) = Some c' \<and>
    console_ok c' \<and> dma_done (dma_ch1 c') = 0 \<and>
    (if length (rx_waiting c) + n \<le> unat CONSOLE_RING_BUFFER_RX_SIZE
     then rx_waiting c' = rx_waiting c @ take n bs \<and> buffer_size (rx_dma_buffer (console c')) = 0
     else rx_waiting c' = rx_waiting c \<and> unat (buffer_size (rx_dma_buffer (console c'))) = n)"
proof -
  define c1 where "c1 = rx_timeout (fold dma_rx_byte bs c)"
  define c2 where "c2 = CONSOLE_USART_IRQ_HANDLER again c1"
  define c3 where "c3 = fold dma_rx_byte late c2"
  have side: "bReady (console c)" "tx_side_ok c" "rx_side_ok c" using assms(1) by (simp_all add: console_ok_def)
  note b = dma_rx_bytes [OF side(3) refl, of bs, unfolded assms(2)]
  have ok1: "rx_side_ok c1" "tx_same c c1" "stat_rt c1" "dma_done (dma_ch1 c1) = n" "rx_ring_buffer (console c1) = rx_ring_buffer (console c)"
      "take n (buffer (rx_dma_buffer (console c1))) = take n bs"
    using b assms(4) by (auto simp: c1_def rx_timeout_def rx_side_ok_def tx_same_def min_def split: if_splits)
  note h = CONSOLE_USART_IRQ_HANDLER_ok [OF ok1(1), of again] CONSOLE_USART_IRQ_HANDLER_size [OF ok1(1,3), of again]
  have ok2: "rx_side_ok c2" "tx_same c c2" "unat (buffer_size (rx_dma_buffer (console c2))) = n" "dma_done (dma_ch1 c2) = n"
      "rx_ring_buffer (console c2) = rx_ring_buffer (console c)" "take n (buffer (rx_dma_buffer (console c2))) = take n bs"
    using h ok1 by (auto simp: c2_def tx_same_def)
  note l = dma_rx_bytes [OF ok2(1) refl, of late, unfolded ok2(4), folded c3_def]
  have n20: "0 < n" "n \<le> CONSOLE_DMA_BUFFER_RX_SIZE" using assms(3,4) by (simp_all add: console_sizes)
  have "take n (buffer (rx_dma_buffer (console c3))) = take n (take (dma_done (dma_ch1 c3)) (buffer (rx_dma_buffer (console c3))))"
    using l n20 by (simp add: min_def)
  also have "\<dots> = take n (take CONSOLE_DMA_BUFFER_RX_SIZE (take n (buffer (rx_dma_buffer (console c2))) @ late))"
    by (rule arg_cong [of _ _ "take n"]) (use l in blast)
  also have "\<dots> = take n (buffer (rx_dma_buffer (console c2)))"
    using n20(2) ok2(1) by (simp add: rx_side_ok_def min_absorb1)
  also have "\<dots> = take n bs" by (rule ok2(6))
  finally have buf: "take n (buffer (rx_dma_buffer (console c3))) = take n bs" .
  have ok3: "rx_side_ok c3" "tx_same c c3" "unat (buffer_size (rx_dma_buffer (console c3))) = n" "rx_waiting c3 = rx_waiting c"
    using l ok2 by (auto simp: tx_same_def rx_waiting_def)
  have "console_ok c3" using side ok3 tx_same_ok [OF ok3(2)] by (simp add: console_ok_def tx_same_def)
  then obtain c' where c': "console_rx_task c3 = Some c'" "console_ok c'" "0 < n \<Longrightarrow> dma_done (dma_ch1 c') = 0"
      "0 < n \<Longrightarrow> length (rx_waiting c3) + n \<le> unat CONSOLE_RING_BUFFER_RX_SIZE \<Longrightarrow>
      rx_waiting c' = rx_waiting c3 @ take n (buffer (rx_dma_buffer (console c3))) \<and> buffer_size (rx_dma_buffer (console c')) = 0 \<and> tx_path c' = tx_path c3"
      "0 < n \<Longrightarrow> unat CONSOLE_RING_BUFFER_RX_SIZE < length (rx_waiting c3) + n \<Longrightarrow>
      rx_waiting c' = rx_waiting c3 \<and> rx_dma_buffer (console c') = rx_dma_buffer (console c3) \<and>
      tx_path c' = tx_path c3 @ take (tx_room c3) (bytes_of_string msg_rx_full)"
    by (rule console_rx_task_ok [OF _ ok3(3) [symmetric]]) blast
  show ?thesis
    unfolding c1_def [symmetric] c2_def [symmetric] c3_def [symmetric]
  proof (intro exI [of _ c'] conjI)
    show "if length (rx_waiting c) + n \<le> unat CONSOLE_RING_BUFFER_RX_SIZE
      then rx_waiting c' = rx_waiting c @ take n bs \<and> buffer_size (rx_dma_buffer (console c')) = 0
      else rx_waiting c' = rx_waiting c \<and> unat (buffer_size (rx_dma_buffer (console c'))) = n"
      using c'(4,5) [OF n20(1)] ok3(3,4) buf by (simp add: not_le)
  qed (use c' n20 in simp_all)
qed

theorem console_rx_burst_witness:
  "\<exists>c'. console_rx_task (fold dma_rx_byte [9] (CONSOLE_USART_IRQ_HANDLER False (rx_timeout (fold dma_rx_byte [1, 2, 3] console_start)))) = Some c' \<and>
    rx_waiting c' = [1, 2, 3] \<and> dma_done (dma_ch1 c') = 0"
proof -
  have "dma_done (dma_ch1 console_start) = 0"
    by (simp add: console_start_def console_init_def Let_def console_rx_dma_config_def)
  moreover have "rx_waiting console_start = []"
    using console_ring_ready [of CONSOLE_RING_BUFFER_RX_SIZE]
    by (simp add: rx_waiting_def console_start_def console_init_def Let_def console_rx_dma_config_def console_tx_dma_config_def console_sizes)
  ultimately show ?thesis
    using console_rx_burst [OF console_start_ok(1), of "[1, 2, 3]" 3 "[9]" False] by (auto simp: console_sizes)
qed

end
