(* ===== verification/Heap4.thy ===== *)
theory Heap4
  imports Prelude
begin

text \<open>
  The allocator of the kernel, from \<^verbatim>\<open>src/FreeRtos/kernel/portable/MemMang/heap_4.c\<close>: first fit over a list of free blocks in the order
  of their addresses, splitting on allocation and merging on release. Every object that the program creates at run time (queues, stream
  buffers, mutexes, the items of the command list) comes from it.

  Pointers are natural numbers with 0 for \<open>NULL\<close>; the array \<open>ucHeap\<close> and the object \<open>xStart\<close> lie at the
  addresses of a \<open>heap_layout\<close>. The memory is seen as a function from addresses to the link structure that a read at this address would
  give, whoever wrote it. Sizes keep their 32 bits, the top one being the mark of an allocated block. \<open>None\<close> is a failed assertion
  or a loop that does not end. The functions run with the scheduler suspended, so each is one step.
\<close>

section \<open>State\<close>

record BlockLink_t =
  pxNextFreeBlock :: nat
  xBlockSize :: u32

type_synonym heap_mem = "nat \<Rightarrow> BlockLink_t"

record heap_layout =
  ucHeap :: nat
  xStart :: nat

record heap4 =
  hmem :: heap_mem
  pxEnd :: nat
  xFreeBytesRemaining :: u32
  xMinimumEverFreeBytesRemaining :: u32
  xNumberOfSuccessfulAllocations :: u32
  xNumberOfSuccessfulFrees :: u32

definition configTOTAL_HEAP_SIZE :: u32 where "configTOTAL_HEAP_SIZE = 409600"
definition portBYTE_ALIGNMENT :: u32 where "portBYTE_ALIGNMENT = 8"
definition portBYTE_ALIGNMENT_MASK :: u32 where "portBYTE_ALIGNMENT_MASK = 7"
definition sizeof_BlockLink_t :: u32 where "sizeof_BlockLink_t = 8"

definition xHeapStructSize :: u32 where
  "xHeapStructSize = (sizeof_BlockLink_t + (portBYTE_ALIGNMENT - 1)) AND NOT portBYTE_ALIGNMENT_MASK"

definition heapMINIMUM_BLOCK_SIZE :: u32 where "heapMINIMUM_BLOCK_SIZE = push_bit 1 xHeapStructSize"
definition heapBLOCK_ALLOCATED_BITMASK :: u32 where "heapBLOCK_ALLOCATED_BITMASK = push_bit (4 * 8 - 1) 1"

definition heapADD_WILL_OVERFLOW :: "u32 \<Rightarrow> u32 \<Rightarrow> bool" where "heapADD_WILL_OVERFLOW a b \<longleftrightarrow> a > NOT 0 - b"
definition heapBLOCK_SIZE_IS_VALID :: "u32 \<Rightarrow> bool" where
  "heapBLOCK_SIZE_IS_VALID x \<longleftrightarrow> x AND heapBLOCK_ALLOCATED_BITMASK = 0"

text \<open>The addresses that \<open>heapVALIDATE_BLOCK_POINTER\<close> accepts, and the test of an aligned address.\<close>

definition heapVALIDATE_BLOCK_POINTER :: "heap_layout \<Rightarrow> nat \<Rightarrow> bool" where
  "heapVALIDATE_BLOCK_POINTER L p \<longleftrightarrow> ucHeap L \<le> p \<and> p \<le> ucHeap L + (unat configTOTAL_HEAP_SIZE - 1)"

definition aligned :: "nat \<Rightarrow> bool" where
  "aligned p \<longleftrightarrow> p mod unat portBYTE_ALIGNMENT = 0"

definition set_next :: "nat \<Rightarrow> nat \<Rightarrow> heap_mem \<Rightarrow> heap_mem" where
  "set_next p q m = m(p := (m p)\<lparr>pxNextFreeBlock := q\<rparr>)"

definition set_size :: "nat \<Rightarrow> u32 \<Rightarrow> heap_mem \<Rightarrow> heap_mem" where
  "set_size p s m = m(p := (m p)\<lparr>xBlockSize := s\<rparr>)"

section \<open>Operations\<close>

text \<open>
  The initialisation. The array lies in the address space, so the additions do not wrap; clearing the low bits of an address is
  subtracting its remainder.
\<close>

definition align_down :: "nat \<Rightarrow> nat" where
  "align_down p = p - p mod unat portBYTE_ALIGNMENT"

definition prvHeapInit :: "heap_layout \<Rightarrow> heap4 \<Rightarrow> heap4" where
  "prvHeapInit L h =
     (let uxStartAddress = (if \<not> aligned (ucHeap L) then align_down (ucHeap L + (unat portBYTE_ALIGNMENT - 1)) else ucHeap L);
          xTotalHeapSize = unat configTOTAL_HEAP_SIZE - (uxStartAddress - ucHeap L);
          uxEndAddress = align_down (uxStartAddress + xTotalHeapSize - unat xHeapStructSize);
          m1 = set_size (xStart L) 0 (set_next (xStart L) uxStartAddress (hmem h));
          m2 = set_next uxEndAddress 0 (set_size uxEndAddress 0 m1);
          first = word_of_nat (uxEndAddress - uxStartAddress);
          m3 = set_next uxStartAddress uxEndAddress (set_size uxStartAddress first m2)
      in h\<lparr>hmem := m3, pxEnd := uxEndAddress, xMinimumEverFreeBytesRemaining := first, xFreeBytesRemaining := first\<rparr>)"

text \<open>The loop of the release, which looks for the place in the list, and the insertion with its two merges.\<close>

partial_function (option) insert_position :: "heap_mem \<Rightarrow> nat \<Rightarrow> nat \<Rightarrow> nat option" where
  "insert_position m pxBlockToInsert pxIterator =
     (if pxNextFreeBlock (m pxIterator) < pxBlockToInsert
      then insert_position m pxBlockToInsert (pxNextFreeBlock (m pxIterator)) else Some pxIterator)"

definition prvInsertBlockIntoFreeList :: "heap_layout \<Rightarrow> nat \<Rightarrow> nat \<Rightarrow> heap_mem \<Rightarrow> heap_mem option" where
  "prvInsertBlockIntoFreeList L end pxBlock m =
     (case insert_position m pxBlock (xStart L) of
        None \<Rightarrow> None
      | Some pxIterator \<Rightarrow>
          if pxIterator \<noteq> xStart L \<and> \<not> heapVALIDATE_BLOCK_POINTER L pxIterator then None
          else (let (m1, pxBlockToInsert) =
                      (if pxIterator + unat (xBlockSize (m pxIterator)) = pxBlock
                       then (set_size pxIterator (xBlockSize (m pxIterator) + xBlockSize (m pxBlock)) m, pxIterator)
                       else (m, pxBlock));
                    following = pxNextFreeBlock (m1 pxIterator);
                    m2 = (if pxBlockToInsert + unat (xBlockSize (m1 pxBlockToInsert)) = following
                          then (if following \<noteq> end
                                then (let m' = set_size pxBlockToInsert (xBlockSize (m1 pxBlockToInsert) + xBlockSize (m1 following)) m1
                                      in set_next pxBlockToInsert (pxNextFreeBlock (m' following)) m')
                                else set_next pxBlockToInsert end m1)
                          else set_next pxBlockToInsert following m1)
                in Some (if pxIterator \<noteq> pxBlockToInsert then set_next pxIterator pxBlockToInsert m2 else m2)))"

text \<open>The size of the block that a request needs; 0 if it cannot be represented.\<close>

definition required_size :: "u32 \<Rightarrow> u32" where
  "required_size xWantedSize =
     (if xWantedSize > 0
      then if \<not> heapADD_WILL_OVERFLOW xWantedSize xHeapStructSize
           then (let w = xWantedSize + xHeapStructSize
                 in if w AND portBYTE_ALIGNMENT_MASK \<noteq> 0
                    then (let xAdditionalRequiredSize = portBYTE_ALIGNMENT - (w AND portBYTE_ALIGNMENT_MASK)
                          in if \<not> heapADD_WILL_OVERFLOW w xAdditionalRequiredSize then w + xAdditionalRequiredSize else 0)
                    else w)
           else 0
      else xWantedSize)"

partial_function (option) find_block :: "heap_layout \<Rightarrow> heap_mem \<Rightarrow> u32 \<Rightarrow> nat \<Rightarrow> nat \<Rightarrow> (nat \<times> nat) option" where
  "find_block L m w pxPreviousBlock pxBlock =
     (if xBlockSize (m pxBlock) < w \<and> pxNextFreeBlock (m pxBlock) \<noteq> 0
      then if heapVALIDATE_BLOCK_POINTER L (pxNextFreeBlock (m pxBlock))
           then find_block L m w pxBlock (pxNextFreeBlock (m pxBlock)) else None
      else Some (pxPreviousBlock, pxBlock))"

text \<open>Taking the found block out of the list, splitting it if the rest is large enough.\<close>

definition take_block :: "heap_layout \<Rightarrow> u32 \<Rightarrow> nat \<Rightarrow> nat \<Rightarrow> heap4 \<Rightarrow> (nat \<times> heap4) option" where
  "take_block L w prev pxBlock h =
     (let m = hmem h;
          pvReturn = pxNextFreeBlock (m prev) + unat xHeapStructSize;
          m1 = set_next prev (pxNextFreeBlock (m pxBlock)) m
      in if \<not> heapVALIDATE_BLOCK_POINTER L pvReturn \<or> xBlockSize (m1 pxBlock) < w then None
         else (let new = pxBlock + unat w;
                   split = xBlockSize (m1 pxBlock) - w > heapMINIMUM_BLOCK_SIZE
               in if split \<and> \<not> aligned new then None
                  else (let m2 = (if split
                                  then (let ma = set_size new (xBlockSize (m1 pxBlock) - w) m1;
                                            mb = set_size pxBlock w ma;
                                            mc = set_next new (pxNextFreeBlock (mb prev)) mb
                                        in set_next prev new mc)
                                  else m1);
                            xFree = xFreeBytesRemaining h - xBlockSize (m2 pxBlock);
                            m3 = set_size pxBlock (xBlockSize (m2 pxBlock) OR heapBLOCK_ALLOCATED_BITMASK) m2
                        in if aligned pvReturn
                           then Some (pvReturn,
                                  h\<lparr>hmem := set_next pxBlock 0 m3, xFreeBytesRemaining := xFree,
                                    xMinimumEverFreeBytesRemaining := (if xFree < xMinimumEverFreeBytesRemaining h then xFree
                                                                       else xMinimumEverFreeBytesRemaining h),
                                    xNumberOfSuccessfulAllocations := xNumberOfSuccessfulAllocations h + 1\<rparr>)
                           else None)))"

definition pvPortMalloc :: "heap_layout \<Rightarrow> u32 \<Rightarrow> heap4 \<Rightarrow> (nat \<times> heap4) option" where
  "pvPortMalloc L xWantedSize h0 =
     (let w = required_size xWantedSize;
          h = (if pxEnd h0 = 0 then prvHeapInit L h0 else h0)
      in if heapBLOCK_SIZE_IS_VALID w \<and> w > 0 \<and> w \<le> xFreeBytesRemaining h
         then (let first = pxNextFreeBlock (hmem h (xStart L))
               in if \<not> heapVALIDATE_BLOCK_POINTER L first then None
                  else case find_block L (hmem h) w (xStart L) first of
                         None \<Rightarrow> None
                       | Some (prev, pxBlock) \<Rightarrow> if pxBlock \<noteq> pxEnd h then take_block L w prev pxBlock h else Some (0, h))
         else Some (0, h))"

definition vPortFree :: "heap_layout \<Rightarrow> nat \<Rightarrow> heap4 \<Rightarrow> heap4 option" where
  "vPortFree L pv h =
     (if pv = 0 then Some h
      else (let pxLink = pv - unat xHeapStructSize; m = hmem h
            in if heapVALIDATE_BLOCK_POINTER L pxLink \<and> xBlockSize (m pxLink) AND heapBLOCK_ALLOCATED_BITMASK \<noteq> 0 \<and>
                  pxNextFreeBlock (m pxLink) = 0
               then (let m1 = set_size pxLink (xBlockSize (m pxLink) AND NOT heapBLOCK_ALLOCATED_BITMASK) m
                     in case prvInsertBlockIntoFreeList L (pxEnd h) pxLink m1 of
                          None \<Rightarrow> None
                        | Some m2 \<Rightarrow>
                            Some (h\<lparr>hmem := m2, xFreeBytesRemaining := xFreeBytesRemaining h + xBlockSize (m1 pxLink),
                                    xNumberOfSuccessfulFrees := xNumberOfSuccessfulFrees h + 1\<rparr>))
               else None))"

definition xPortGetFreeHeapSize :: "heap4 \<Rightarrow> u32" where
  "xPortGetFreeHeapSize h = xFreeBytesRemaining h"

definition xPortGetMinimumEverFreeHeapSize :: "heap4 \<Rightarrow> u32" where
  "xPortGetMinimumEverFreeHeapSize h = xMinimumEverFreeBytesRemaining h"

definition vPortHeapResetState :: "heap4 \<Rightarrow> heap4" where
  "vPortHeapResetState h = h\<lparr>pxEnd := 0, xFreeBytesRemaining := 0, xMinimumEverFreeBytesRemaining := 0,
     xNumberOfSuccessfulAllocations := 0, xNumberOfSuccessfulFrees := 0\<rparr>"

text \<open>The statistics: number, largest and smallest size of the free blocks.\<close>

record HeapStats_t =
  xAvailableHeapSpaceInBytes :: u32
  xSizeOfLargestFreeBlockInBytes :: u32
  xSizeOfSmallestFreeBlockInBytes :: u32
  xNumberOfFreeBlocks :: u32
  stat_minimum_ever :: u32
  stat_allocations :: u32
  stat_frees :: u32

partial_function (option) stats_loop :: "heap_mem \<Rightarrow> nat \<Rightarrow> nat \<Rightarrow> u32 \<times> u32 \<times> u32 \<Rightarrow> (u32 \<times> u32 \<times> u32) option" where
  "stats_loop m end pxBlock acc =
     (if pxBlock \<noteq> end
      then (let (xBlocks, xMaxSize, xMinSize) = acc; s = xBlockSize (m pxBlock)
            in stats_loop m end (pxNextFreeBlock (m pxBlock))
                 (xBlocks + 1, if s > xMaxSize then s else xMaxSize, if s < xMinSize then s else xMinSize))
      else Some acc)"

definition vPortGetHeapStats :: "heap_layout \<Rightarrow> heap4 \<Rightarrow> HeapStats_t option" where
  "vPortGetHeapStats L h =
     (let pxBlock = pxNextFreeBlock (hmem h (xStart L)); none = (0, 0, 0xFFFFFFFF)
      in map_option (\<lambda>(xBlocks, xMaxSize, xMinSize).
             \<lparr>xAvailableHeapSpaceInBytes = xFreeBytesRemaining h, xSizeOfLargestFreeBlockInBytes = xMaxSize,
              xSizeOfSmallestFreeBlockInBytes = xMinSize, xNumberOfFreeBlocks = xBlocks,
              stat_minimum_ever = xMinimumEverFreeBytesRemaining h, stat_allocations = xNumberOfSuccessfulAllocations h,
              stat_frees = xNumberOfSuccessfulFrees h\<rparr>)
           (if pxBlock \<noteq> 0 then stats_loop (hmem h) (pxEnd h) pxBlock none else Some none))"

declare insert_position.simps [code] find_block.simps [code] stats_loop.simps [code]

end
