(* ===== verification/HeapBlocks.thy ===== *)
theory HeapBlocks
  imports Heap4
begin

text \<open>
  The abstract view of the heap: its array is tiled by blocks, each free or in use, no two neighbours are both free, and the
  linked list goes through the free ones. Allocation and release are operations on the list of blocks; the functions of \<^verbatim>\<open>heap_4.c\<close> are
  shown to implement them without failing an assertion and without writing into a block in use.
\<close>

section \<open>Sizes\<close>

lemma heap_constants [simp]:
  "xHeapStructSize = 8" "heapMINIMUM_BLOCK_SIZE = 16" "portBYTE_ALIGNMENT = 8" "portBYTE_ALIGNMENT_MASK = 7"
  "heapBLOCK_ALLOCATED_BITMASK = 0x80000000" "unat configTOTAL_HEAP_SIZE = 409600"
  by (simp_all add: xHeapStructSize_def sizeof_BlockLink_t_def portBYTE_ALIGNMENT_def portBYTE_ALIGNMENT_MASK_def
      heapMINIMUM_BLOCK_SIZE_def heapBLOCK_ALLOCATED_BITMASK_def configTOTAL_HEAP_SIZE_def)

lemma heap_numbers: "unat configTOTAL_HEAP_SIZE = 409600" "unat xHeapStructSize = 8" "unat portBYTE_ALIGNMENT = 8"
  by simp_all

lemma unat_and_7: "unat ((w :: u32) AND 7) = unat w mod 8"
proof -
  have "w AND 7 = w mod 8" using take_bit_eq_mask [of 3 w] take_bit_eq_mod [of 3 w] by (simp add: mask_eq_exp_minus_1)
  then show ?thesis by (simp add: unat_mod)
qed

lemma add_overflow_nat: "heapADD_WILL_OVERFLOW a b \<longleftrightarrow> 2 ^ 32 \<le> unat a + unat b"
proof -
  have "unat (NOT 0 - b) = 2 ^ 32 - 1 - unat b"
    by (simp add: unat_sub unsigned_minus_1_eq_mask mask_eq_exp_minus_1)
  moreover have "unat b < 2 ^ 32" using unsigned_less [of b] by simp
  ultimately show ?thesis unfolding heapADD_WILL_OVERFLOW_def word_less_nat_alt by linarith
qed

definition block_need :: "nat \<Rightarrow> nat" where
  "block_need n = (n + 15) div 8 * 8"

lemma block_need_bounds: "n + 8 \<le> block_need n" "block_need n \<le> n + 15" "8 dvd block_need n"
  by (simp_all add: block_need_def)

lemma round_up_8: "(k + 7) div 8 * 8 = (if k mod 8 = 0 then k else k + (8 - k mod 8))" for k :: nat
proof -
  obtain q r where k: "k = 8 * q + r" and r: "r < 8" using mult_div_mod_eq [of 8 k] by (metis mod_less_divisor zero_less_numeral)
  then have "k mod 8 = r" by simp
  moreover have "(8 * q + r + 7) div 8 = (if r = 0 then q else q + 1)" using r by auto
  ultimately show ?thesis using k r by auto
qed

lemma required_size_nat:
  "unat (required_size n) = (if n = 0 \<or> 2 ^ 32 \<le> block_need (unat n) then 0 else block_need (unat n))"
proof (cases "n = 0")
  case True
  then show ?thesis by (simp add: required_size_def)
next
  case False
  then have pos: "n > 0" by (simp add: word_gt_0)
  let ?w = "n + 8"
  show ?thesis
  proof (cases "2 ^ 32 \<le> unat n + 8")
    case True
    then have "heapADD_WILL_OVERFLOW n xHeapStructSize" by (simp add: add_overflow_nat)
    moreover have "2 ^ 32 \<le> block_need (unat n)" using True block_need_bounds(1) [of "unat n"] by linarith
    ultimately show ?thesis using pos by (simp add: required_size_def)
  next
    case no: False
    then have w: "unat ?w = unat n + 8" by (intro unat_add_small [of n 8, simplified]) simp
    have nov: "\<not> heapADD_WILL_OVERFLOW n xHeapStructSize" using no by (simp add: add_overflow_nat)
    show ?thesis
    proof (cases "unat ?w mod 8 = 0")
      case True
      then have "?w AND 7 = 0" using unat_and_7 [of ?w] by (simp add: unat_eq_zero)
      moreover have "block_need (unat n) = unat ?w" using True w round_up_8 [of "unat ?w"] by (simp add: block_need_def add.commute)
      ultimately show ?thesis using pos nov no w by (simp add: required_size_def)
    next
      case odd: False
      let ?a = "8 - (?w AND 7)"
      have nz: "?w AND 7 \<noteq> 0" using odd unat_and_7 [of ?w] by (metis unsigned_0)
      have "?w AND 7 \<le> 8" unfolding word_le_nat_alt unat_and_7 by simp
      then have a: "unat ?a = 8 - unat ?w mod 8" by (simp add: unat_sub unat_and_7)
      have bn: "block_need (unat n) = unat ?w + unat ?a"
        using odd a round_up_8 [of "unat ?w"] unfolding block_need_def w by (simp add: add.assoc)
      show ?thesis
      proof (cases "2 ^ 32 \<le> unat ?w + unat ?a")
        case True
        then show ?thesis using pos nov nz bn by (simp add: required_size_def Let_def add_overflow_nat)
      next
        case False
        then have "unat (?w + ?a) = unat ?w + unat ?a" by (intro unat_add_small) simp
        then show ?thesis using False pos nov nz bn by (simp add: required_size_def Let_def add_overflow_nat)
      qed
    qed
  qed
qed

lemma top_bit: "heapBLOCK_SIZE_IS_VALID w \<longleftrightarrow> unat w < 2 ^ 31"
proof -
  have "w AND 0x80000000 = 0 \<longleftrightarrow> \<not> bit w 31"
    using and_exp_eq_0_iff_not_bit [of w 31] by simp
  also have "\<dots> \<longleftrightarrow> even (unat w div 2 ^ 31)" using bit_iff_odd [of "unat w" 31] bit_unsigned_iff [where 'a=nat, of w 31] by simp
  also have "\<dots> \<longleftrightarrow> unat w < 2 ^ 31"
  proof -
    have "unat w < 2 ^ 32" using unsigned_less [of w] by simp
    then have "unat w div 2 ^ 31 < 2" by simp
    then show ?thesis by (auto simp: less_2_cases_iff div_eq_0_iff)
  qed
  finally show ?thesis by (simp add: heapBLOCK_SIZE_IS_VALID_def)
qed

lemma mark_bits:
  fixes w :: u32
  assumes "unat w < 2 ^ 31"
  shows "(w OR 0x80000000) AND 0x80000000 \<noteq> 0" "(w OR 0x80000000) AND NOT 0x80000000 = w"
proof -
  have b: "\<not> bit w 31" using assms top_bit [of w] and_exp_eq_0_iff_not_bit [of w 31] by (simp add: heapBLOCK_SIZE_IS_VALID_def)
  have mask: "bit (0x80000000 :: u32) n \<longleftrightarrow> n = 31" for n
    using bit_exp_iff [where 'a=u32, of 31 n] by auto
  show "(w OR 0x80000000) AND 0x80000000 \<noteq> 0" by (rule notI, drule arg_cong [of _ _ "\<lambda>x. bit x 31"]) (simp add: bit_simps mask)
  show "(w OR 0x80000000) AND NOT 0x80000000 = w"
    by (rule bit_word_eqI) (use b in \<open>auto simp only: bit_and_iff bit_or_iff bit_not_iff mask possible_bit_word\<close>)
qed

lemma set_simps [simp]:
  "xBlockSize (set_next p q m a) = xBlockSize (m a)" "pxNextFreeBlock (set_size p s m a) = pxNextFreeBlock (m a)"
  "pxNextFreeBlock (set_next p q m a) = (if a = p then q else pxNextFreeBlock (m a))"
  "xBlockSize (set_size p s m a) = (if a = p then s else xBlockSize (m a))"
  "a \<noteq> p \<Longrightarrow> set_next p q m a = m a" "a \<noteq> p \<Longrightarrow> set_size p s m a = m a"
  by (simp_all add: set_next_def set_size_def)

section \<open>Blocks\<close>

text \<open>A block is its address, its size with the link structure, and whether it is in use.\<close>

type_synonym heap_block = "nat \<times> nat \<times> bool"

fun tiles :: "nat \<Rightarrow> heap_block list \<Rightarrow> nat \<Rightarrow> bool" where
  "tiles a [] e \<longleftrightarrow> a = e"
| "tiles a ((b, s, u) # gs) e \<longleftrightarrow> b = a \<and> 16 \<le> s \<and> 8 dvd s \<and> tiles (a + s) gs e"

definition frees :: "heap_block list \<Rightarrow> nat list" where
  "frees gs = map fst (filter (\<lambda>(a, s, u). \<not> u) gs)"

definition free_size :: "heap_block list \<Rightarrow> nat" where
  "free_size gs = sum_list (map (\<lambda>(a, s, u). if u then 0 else s) gs)"

definition coalesced :: "heap_block list \<Rightarrow> bool" where
  "coalesced gs = successively (\<lambda>g g'. snd (snd g) \<or> snd (snd g')) gs"

definition chain :: "heap_mem \<Rightarrow> nat list \<Rightarrow> bool" where
  "chain m ps = successively (\<lambda>p q. pxNextFreeBlock (m p) = q) ps"

lemma frees_simps [simp]:
  "frees [] = []" "frees ((a, s, u) # gs) = (if u then frees gs else a # frees gs)" "frees (xs @ ys) = frees xs @ frees ys"
  by (simp_all add: frees_def)

lemma free_size_simps [simp]:
  "free_size [] = 0" "free_size ((a, s, u) # gs) = (if u then 0 else s) + free_size gs"
  "free_size (xs @ ys) = free_size xs + free_size ys"
  by (simp_all add: free_size_def)

lemma chain_simps [simp]: "chain m []" "chain m [p]" "chain m (p # q # ps) \<longleftrightarrow> pxNextFreeBlock (m p) = q \<and> chain m (q # ps)"
  by (simp_all add: chain_def)

lemma chain_append: "chain m (ps @ p # qs) \<longleftrightarrow> chain m (ps @ [p]) \<and> chain m (p # qs)"
  by (induction ps) (auto simp: chain_def successively_Cons successively_append_iff hd_append split: if_splits)

lemma chain_cong: "\<forall>p\<in>set (butlast ps). pxNextFreeBlock (m' p) = pxNextFreeBlock (m p) \<Longrightarrow> chain m' ps = chain m ps"
  by (induction ps rule: induct_list012) (auto simp: chain_def)

lemma tiles_append: "tiles a (xs @ ys) e \<longleftrightarrow> (\<exists>c. tiles a xs c \<and> tiles c ys e)"
  by (induction xs arbitrary: a) auto

lemma tiles_le: "tiles a gs e \<Longrightarrow> a \<le> e"
  by (induction a gs e rule: tiles.induct) auto

lemma tiles_block: "tiles a gs e \<Longrightarrow> (b, s, u) \<in> set gs \<Longrightarrow> a \<le> b \<and> b + s \<le> e \<and> 16 \<le> s \<and> 8 dvd s \<and> 8 dvd (b - a)"
proof (induction a gs e rule: tiles.induct)
  case (2 a b' s' u' gs e)
  show ?case
  proof (cases "(b, s, u) = (b', s', u')")
    case True
    then show ?thesis using 2 tiles_le [of "a + s'" gs e] by auto
  next
    case False
    then have "a + s' \<le> b \<and> b + s \<le> e \<and> 16 \<le> s \<and> 8 dvd s \<and> 8 dvd (b - (a + s'))" using 2 by auto
    moreover from this have "8 dvd (b - (a + s')) + s'" using 2 by (intro dvd_add) auto
    moreover have "b - (a + s') + s' = b - a" using calculation(1) by linarith
    ultimately show ?thesis by auto
  qed
qed simp

lemma frees_block: "p \<in> set (frees gs) \<longleftrightarrow> (\<exists>s. (p, s, False) \<in> set gs)"
  by (force simp: frees_def)

lemma frees_at: "frees gs = as @ x # bs \<Longrightarrow> \<exists>A s B. gs = A @ (x, s, False) # B \<and> frees A = as \<and> frees B = bs"
proof (induction gs arbitrary: as)
  case (Cons g gs)
  obtain a s u where g: "g = (a, s, u)" by (cases g)
  show ?case
  proof (cases "\<not> u \<and> as = []")
    case True
    then show ?thesis using Cons.prems g by (intro exI [of _ "[]"]) auto
  next
    case False
    then obtain as' where "frees gs = as' @ x # bs" "as = (if u then as' else a # as')"
      using Cons.prems g by (cases as) (auto split: if_splits)
    with Cons.IH obtain A s' B where "gs = A @ (x, s', False) # B" "frees A = as'" "frees B = bs" by blast
    then show ?thesis using g \<open>as = _\<close> by (intro exI [of _ "g # A"] exI [of _ s'] exI [of _ B]) auto
  qed
qed simp

text \<open>The addresses of the blocks around a block.\<close>

lemma tiles_around:
  assumes "tiles a (A @ (x, s, u) # B) e"
  shows "tiles a A x" "tiles (x + s) B e" "16 \<le> s" "8 dvd s" "a \<le> x" "x + s \<le> e"
    "(b, t, v) \<in> set A \<Longrightarrow> a \<le> b \<and> b + t \<le> x \<and> 16 \<le> t" "(b, t, v) \<in> set B \<Longrightarrow> x + s \<le> b \<and> b + t \<le> e \<and> 16 \<le> t"
proof -
  show A: "tiles a A x" and B: "tiles (x + s) B e" and s: "16 \<le> s" "8 dvd s" using assms by (auto simp: tiles_append)
  show "a \<le> x" "x + s \<le> e" using A B by (auto dest: tiles_le)
  show "(b, t, v) \<in> set A \<Longrightarrow> a \<le> b \<and> b + t \<le> x \<and> 16 \<le> t" using tiles_block [OF A, of b t v] by auto
  show "(b, t, v) \<in> set B \<Longrightarrow> x + s \<le> b \<and> b + t \<le> e \<and> 16 \<le> t" using tiles_block [OF B, of b t v] by auto
qed

lemma tiles_same_block:
  assumes "tiles a gs e" "(b, s, u) \<in> set gs" "(b, t, v) \<in> set gs"
  shows "s = t \<and> u = v"
proof -
  obtain A B where gs: "gs = A @ (b, s, u) # B" using split_list [OF assms(2)] by blast
  note ar = tiles_around [of a A b s u B e, OF assms(1) [unfolded gs]]
  show ?thesis using assms(3) gs ar(7) [of b t v] ar(8) [of b t v] ar(3) by auto
qed

section \<open>The invariant\<close>

definition heap_start :: "heap_layout \<Rightarrow> nat" where
  "heap_start L = (ucHeap L + 7) div 8 * 8"

definition heap_end :: "heap_layout \<Rightarrow> nat" where
  "heap_end L = (ucHeap L + 409592) div 8 * 8"

text \<open>The array and \<open>xStart\<close> are different objects in the address space.\<close>

definition layout_ok :: "heap_layout \<Rightarrow> bool" where
  "layout_ok L \<longleftrightarrow> 0 < ucHeap L \<and> ucHeap L + 409600 \<le> 2 ^ 32 \<and> 0 < xStart L \<and>
     (xStart L + 8 \<le> ucHeap L \<or> ucHeap L + 409600 \<le> xStart L)"

definition header_ok :: "heap_mem \<Rightarrow> heap_block \<Rightarrow> bool" where
  "header_ok m g = (case g of (a, s, u) \<Rightarrow>
     xBlockSize (m a) = (if u then word_of_nat s OR 0x80000000 else word_of_nat s) \<and> (u \<longrightarrow> pxNextFreeBlock (m a) = 0))"

definition heap_wf :: "heap_layout \<Rightarrow> heap_block list \<Rightarrow> heap4 \<Rightarrow> bool" where
  "heap_wf L gs h \<longleftrightarrow> pxEnd h = heap_end L \<and> tiles (heap_start L) gs (heap_end L) \<and> coalesced gs \<and>
     (\<forall>g\<in>set gs. header_ok (hmem h) g) \<and> chain (hmem h) (xStart L # frees gs @ [heap_end L]) \<and>
     xBlockSize (hmem h (xStart L)) = 0 \<and> hmem h (heap_end L) = \<lparr>pxNextFreeBlock = 0, xBlockSize = 0\<rparr> \<and>
     unat (xFreeBytesRemaining h) = free_size gs"

lemma layout_bounds:
  assumes "layout_ok L"
  shows "8 dvd heap_start L" "8 dvd heap_end L" "ucHeap L \<le> heap_start L" "heap_start L \<le> ucHeap L + 7"
    "ucHeap L + 409585 \<le> heap_end L" "heap_end L + 8 \<le> ucHeap L + 409600" "0 < heap_start L" "heap_end L < 2 ^ 32"
    "heap_end L - heap_start L \<le> 409592"
proof -
  show *: "8 dvd heap_start L" "8 dvd heap_end L" "ucHeap L \<le> heap_start L" "heap_start L \<le> ucHeap L + 7"
    "ucHeap L + 409585 \<le> heap_end L" "heap_end L + 8 \<le> ucHeap L + 409600"
    by (simp_all add: heap_start_def heap_end_def)
  show "0 < heap_start L" "heap_end L < 2 ^ 32" "heap_end L - heap_start L \<le> 409592"
    using assms * by (simp_all add: layout_ok_def)
qed


lemma heap_addresses:
  assumes "layout_ok L" "heap_wf L gs h"
  shows "(a, s, u) \<in> set gs \<Longrightarrow> a < heap_end L \<and> a \<noteq> xStart L \<and> a \<noteq> 0 \<and> 8 dvd a \<and> heapVALIDATE_BLOCK_POINTER L a \<and>
           heapVALIDATE_BLOCK_POINTER L (a + 8) \<and> s \<le> 409592 \<and> 16 \<le> s \<and> 8 dvd s"
    "heap_end L \<noteq> xStart L" "heap_end L \<noteq> 0" "heapVALIDATE_BLOCK_POINTER L (heap_end L)"
proof -
  note lb = layout_bounds [OF assms(1)]
  have t: "tiles (heap_start L) gs (heap_end L)" using assms(2) by (simp add: heap_wf_def)
  show "heap_end L \<noteq> xStart L" "heap_end L \<noteq> 0" "heapVALIDATE_BLOCK_POINTER L (heap_end L)"
    using lb assms(1) by (auto simp: layout_ok_def heapVALIDATE_BLOCK_POINTER_def)
  assume "(a, s, u) \<in> set gs"
  from tiles_block [OF t this] have b: "heap_start L \<le> a" "a + s \<le> heap_end L" "16 \<le> s" "8 dvd s" "8 dvd (a - heap_start L)" by auto
  have "8 dvd a" using dvd_add [OF b(5) lb(1)] b(1) by simp
  then show "a < heap_end L \<and> a \<noteq> xStart L \<and> a \<noteq> 0 \<and> 8 dvd a \<and> heapVALIDATE_BLOCK_POINTER L a \<and>
      heapVALIDATE_BLOCK_POINTER L (a + 8) \<and> s \<le> 409592 \<and> 16 \<le> s \<and> 8 dvd s"
    using b lb assms(1) by (auto simp: layout_ok_def heapVALIDATE_BLOCK_POINTER_def)
qed

lemma header_free_size:
  assumes "header_ok m (a, s, False)" "s \<le> 409592"
  shows "unat (xBlockSize (m a)) = s"
  using assms by (simp add: header_ok_def word_of_nat_eq_nat_iff)

section \<open>Allocation\<close>

lemma find_block_spec:
  assumes "chain m (p # fs @ [e])" and "\<forall>a\<in>set fs. a \<noteq> 0 \<and> heapVALIDATE_BLOCK_POINTER L a"
    and "e \<noteq> 0" "heapVALIDATE_BLOCK_POINTER L e" "pxNextFreeBlock (m e) = 0"
  shows "(\<exists>as x bs. fs = as @ x # bs \<and> (\<forall>a\<in>set as. xBlockSize (m a) < w) \<and> w \<le> xBlockSize (m x) \<and>
             find_block L m w p (hd (fs @ [e])) = Some (last (p # as), x)) \<or>
         (\<forall>a\<in>set fs. xBlockSize (m a) < w) \<and> find_block L m w p (hd (fs @ [e])) = Some (last (p # fs), e)"
  using assms(1,2)
proof (induction fs arbitrary: p)
  case Nil
  then show ?case using assms(5) by (subst find_block.simps) simp
next
  case (Cons x fs)
  show ?case
  proof (cases "xBlockSize (m x) < w")
    case False
    then have "find_block L m w p (hd ((x # fs) @ [e])) = Some (last (p # []), x)" by (subst find_block.simps) simp
    then show ?thesis using False by (intro disjI1 exI [of _ "[]"]) auto
  next
    case True
    have nx: "pxNextFreeBlock (m x) = hd (fs @ [e])" and ch: "chain m (x # fs @ [e])"
      using Cons.prems(1) by (cases fs; simp)+
    have "hd (fs @ [e]) \<noteq> 0" "heapVALIDATE_BLOCK_POINTER L (hd (fs @ [e]))"
      using Cons.prems(2) assms(3,4) by (cases fs; simp)+
    then have step: "find_block L m w p (hd ((x # fs) @ [e])) = find_block L m w x (hd (fs @ [e]))"
      using True nx by (subst find_block.simps) simp
    have "\<forall>a\<in>set fs. a \<noteq> 0 \<and> heapVALIDATE_BLOCK_POINTER L a" using Cons.prems(2) by simp
    from Cons.IH [OF ch this] show ?thesis
    proof (elim disjE exE conjE)
      fix as y bs
      assume "fs = as @ y # bs" "\<forall>a\<in>set as. xBlockSize (m a) < w" "w \<le> xBlockSize (m y)"
        "find_block L m w x (hd (fs @ [e])) = Some (last (x # as), y)"
      then show ?thesis using True step by (intro disjI1 exI [of _ "x # as"] exI [of _ y] exI [of _ bs]) simp
    qed (use True step in simp)
  qed
qed

text \<open>The blocks into which an allocation turns a free block.\<close>

definition split_block :: "nat \<Rightarrow> nat \<Rightarrow> nat \<Rightarrow> heap_block list" where
  "split_block x s k = (if s - k > 16 then [(x, k, True), (x + k, s - k, False)] else [(x, s, True)])"

lemma coalesced_replace:
  assumes "coalesced (A @ (x, s, False) # B)"
  shows "coalesced (A @ split_block x s k @ B)"
  using assms by (auto simp: coalesced_def split_block_def successively_append_iff successively_Cons)

lemma tiles_replace:
  assumes "tiles a (A @ (x, s, False) # B) e" "k \<le> s" "16 \<le> k" "8 dvd k"
  shows "tiles a (A @ split_block x s k @ B) e"
  using assms by (auto simp: tiles_append split_block_def)


lemma frees_sorted: "tiles a gs e \<Longrightarrow> sorted_wrt (<) (frees gs) \<and> (\<forall>p\<in>set (frees gs). a \<le> p \<and> p < e)"
proof (induction a gs e rule: tiles.induct)
  case (2 a b s u gs e)
  then have IH: "sorted_wrt (<) (frees gs)" "\<forall>p\<in>set (frees gs). a + s \<le> p \<and> p < e" "a + s \<le> e" "0 < s" "b = a"
    by (auto dest: tiles_le)
  then show ?case by auto
qed simp

lemma list_distinct:
  assumes "layout_ok L" "tiles (heap_start L) gs (heap_end L)"
  shows "distinct (xStart L # frees gs @ [heap_end L])"
proof -
  have "sorted_wrt (<) (frees gs @ [heap_end L])" using frees_sorted [OF assms(2)] by (auto simp: sorted_wrt_append)
  then have "distinct (frees gs @ [heap_end L])" by (simp add: strict_sorted_iff)
  moreover have "\<forall>p\<in>set (frees gs @ [heap_end L]). heap_start L \<le> p \<and> p \<le> heap_end L"
    using frees_sorted [OF assms(2)] tiles_le [OF assms(2)] by auto
  moreover have "xStart L < heap_start L \<or> heap_end L < xStart L"
    using assms(1) layout_bounds [OF assms(1)] unfolding layout_ok_def by linarith
  ultimately show ?thesis by (auto dest!: bspec [of _ _ "xStart L"])
qed

lemma last_free:
  assumes "p = last (q # frees A)"
  shows "q # frees A = butlast (q # frees A) @ [p]" "p = q \<or> p \<in> set (frees A)"
  using assms by (metis append_butlast_last_id list.distinct(1)) (use assms in \<open>auto split: if_splits\<close>)

text \<open>
  An operation replaces the blocks \<open>D\<close> between the addresses \<open>c\<close> and \<open>d\<close> by the blocks \<open>C\<close>. Apart from that part of the
  array it may only write the link of the free block before it.
\<close>

definition block_change :: "heap_layout \<Rightarrow> heap_block list \<Rightarrow> heap_block list \<Rightarrow> heap_block list \<Rightarrow> nat \<Rightarrow> nat \<Rightarrow> nat \<Rightarrow>
    heap4 \<Rightarrow> heap4 \<Rightarrow> bool" where
  "block_change L A D B c d prev h h' \<longleftrightarrow> layout_ok L \<and> heap_wf L (A @ D @ B) h \<and>
     tiles (heap_start L) A c \<and> tiles d B (heap_end L) \<and> c \<le> d \<and> prev = last (xStart L # frees A) \<and>
     (\<forall>a. a \<noteq> prev \<and> \<not> (c \<le> a \<and> a < d) \<longrightarrow> hmem h' a = hmem h a)"

lemma block_changeD:
  assumes "block_change L A D B c d prev h h'"
  shows "layout_ok L" "heap_wf L (A @ D @ B) h" "tiles (heap_start L) (A @ D @ B) (heap_end L)" "c \<le> d"
    "(b, t, v) \<in> set A \<Longrightarrow> heap_start L \<le> b \<and> b + t \<le> c \<and> 16 \<le> t" "(b, t, v) \<in> set B \<Longrightarrow> d \<le> b \<and> b + t \<le> heap_end L \<and> 16 \<le> t"
    "heap_start L \<le> c" "d \<le> heap_end L" "xStart L < heap_start L \<or> heap_end L < xStart L"
    "xStart L # frees A = butlast (xStart L # frees A) @ [prev]" "prev = xStart L \<or> prev \<in> set (frees A)"
    "a \<noteq> prev \<Longrightarrow> \<not> (c \<le> a \<and> a < d) \<Longrightarrow> hmem h' a = hmem h a"
proof -
  have L: "layout_ok L" and tA: "tiles (heap_start L) A c" and tB: "tiles d B (heap_end L)" and prev: "prev = last (xStart L # frees A)"
    using assms by (simp_all add: block_change_def)
  show "layout_ok L" "heap_wf L (A @ D @ B) h" "c \<le> d" "tiles (heap_start L) (A @ D @ B) (heap_end L)"
    "a \<noteq> prev \<Longrightarrow> \<not> (c \<le> a \<and> a < d) \<Longrightarrow> hmem h' a = hmem h a"
    using assms by (simp_all add: block_change_def heap_wf_def)
  show "(b, t, v) \<in> set A \<Longrightarrow> heap_start L \<le> b \<and> b + t \<le> c \<and> 16 \<le> t" "(b, t, v) \<in> set B \<Longrightarrow> d \<le> b \<and> b + t \<le> heap_end L \<and> 16 \<le> t"
    "heap_start L \<le> c" "d \<le> heap_end L"
    using tiles_block [OF tA, of b t v] tiles_block [OF tB, of b t v] tiles_le [OF tA] tiles_le [OF tB] by auto
  show "xStart L < heap_start L \<or> heap_end L < xStart L" using L layout_bounds [OF L] unfolding layout_ok_def by linarith
  show "xStart L # frees A = butlast (xStart L # frees A) @ [prev]" "prev = xStart L \<or> prev \<in> set (frees A)"
    by (rule last_free [OF prev])+
qed

lemma block_change_wf:
  assumes bc: "block_change L A D B c d prev h h'"
    and t: "tiles (heap_start L) (A @ C @ B) (heap_end L)" and co: "coalesced (A @ C @ B)" and e: "pxEnd h' = pxEnd h"
    and size: "xBlockSize (hmem h' prev) = xBlockSize (hmem h prev)" and hd: "\<forall>g\<in>set C. header_ok (hmem h') g"
    and ch: "chain (hmem h') (prev # frees C @ [hd (frees B @ [heap_end L])])"
    and fr: "unat (xFreeBytesRemaining h') = free_size (A @ C @ B)"
  shows "heap_wf L (A @ C @ B) h'"
proof -
  let ?m = "hmem h" and ?m' = "hmem h'" and ?e = "heap_end L" and ?P = "butlast (xStart L # frees A)" and ?R = "frees B @ [heap_end L]"
  note bd = block_changeD [OF bc]
  note L = bd(1) and wf = bd(2) and old_tiles = bd(3) and block_bounds = bd(5,6,7,8) and start_outside = bd(9) and lf = bd(10,11) and out = bd(12)
  have split: "xStart L # frees (A @ X @ B) @ [?e] = ?P @ prev # frees X @ ?R" for X
    using lf(1) by (metis append.assoc append_Cons append_Nil frees_simps(3))
  obtain r R' where R: "?R = r # R'" by (cases ?R) auto
  have "chain ?m (?P @ prev # frees D @ ?R)" using wf unfolding heap_wf_def split by simp
  then have cm: "chain ?m (?P @ [prev])" "chain ?m ?R"
    using chain_append [of ?m ?P prev "frees D @ ?R"] chain_append [of ?m "prev # frees D" r R'] by (simp_all add: R del: butlast.simps)
  have d': "distinct (?P @ [prev])" using list_distinct [OF L old_tiles] lf(1) by (metis append.assoc append_Cons distinct_append frees_simps(3))
  have inP: "p \<in> set ?P \<Longrightarrow> p = xStart L \<or> p \<in> set (frees A)" for p by (metis in_set_butlastD set_ConsD)
  have fA: "p \<in> set (frees A) \<Longrightarrow> heap_start L \<le> p \<and> p < c" for p using block_bounds(1) by (fastforce simp: frees_block)
  have fB: "p \<in> set (frees B) \<Longrightarrow> d \<le> p \<and> p \<le> heap_end L" for p using block_bounds(2) by (fastforce simp: frees_block)
  have same: "?m' a = ?m a" if "a \<in> set ?P \<union> set ?R" for a
  proof (rule out)
    have "a < c \<or> a = xStart L \<or> d \<le> a" using that inP [of a] fA [of a] fB [of a] block_bounds(4) by (auto simp del: butlast.simps)
    then show "\<not> (c \<le> a \<and> a < d)" using start_outside block_bounds(3,4) by auto
    show "a \<noteq> prev"
      using that d' lf(2) fA [of prev] fB [of prev] block_bounds(3,4) bd(4) start_outside by (auto simp del: butlast.simps)
  qed
  have "chain ?m' (?P @ [prev]) = chain ?m (?P @ [prev])" by (rule chain_cong) (simp add: same del: butlast.simps)
  moreover have "chain ?m' ?R = chain ?m ?R" by (rule chain_cong) (simp add: same)
  ultimately have "chain ?m' (?P @ [prev])" "chain ?m' ?R" using cm by blast+
  moreover have "chain ?m' (prev # frees C @ ?R)"
    using ch \<open>chain ?m' ?R\<close> chain_append [of ?m' "prev # frees C" r R'] by (simp add: R)
  ultimately have c: "chain ?m' (xStart L # frees (A @ C @ B) @ [?e])" unfolding split by (subst chain_append) simp
  have hd': "header_ok ?m' g" if "g \<in> set (A @ C @ B)" for g
  proof (cases "g \<in> set C")
    case False
    then have g: "g \<in> set A \<union> set B" using that by simp
    obtain a t u where gd: "g = (a, t, u)" by (cases g)
    have ok: "header_ok ?m g" using wf g by (auto simp: heap_wf_def)
    have "\<not> (c \<le> a \<and> a < d)" using g gd block_bounds(1) [of a t u] block_bounds(2) [of a t u] by auto
    then have a: "a \<noteq> prev \<Longrightarrow> ?m' a = ?m a" using out by simp
    show ?thesis
    proof (cases "a = prev")
      case True
      have "a \<noteq> xStart L" using heap_addresses(1) [OF L wf, of a t u] g gd by auto
      then obtain t' where "(a, t', False) \<in> set A" using lf(2) True by (auto simp: frees_block)
      then have "u = False" using tiles_same_block [OF old_tiles, of a t' False t u] g gd by auto
      then show ?thesis using ok True size by (simp add: gd header_ok_def)
    qed (use ok a in \<open>simp add: gd header_ok_def\<close>)
  qed (use hd in simp)
  have "?m' ?e = ?m ?e" using same [of ?e] by simp
  moreover have "xStart L \<in> set (?P @ [prev])" using lf(1) by (metis list.set_intros(1))
  then have "xBlockSize (?m' (xStart L)) = xBlockSize (?m (xStart L))"
    using size same [of "xStart L"] by (cases "prev = xStart L") (simp_all del: butlast.simps)
  ultimately show ?thesis using wf t co c hd' fr e unfolding heap_wf_def by auto
qed


text \<open>What an operation does not write: everything outside the array and \<open>xStart\<close>, and the blocks that stay in use.\<close>

definition heap_writes :: "heap_layout \<Rightarrow> heap_block list \<Rightarrow> heap4 \<Rightarrow> heap4 \<Rightarrow> bool" where
  "heap_writes L gs h h' \<longleftrightarrow>
     (\<forall>a. hmem h' a \<noteq> hmem h a \<longrightarrow> (a = xStart L \<or> heap_start L \<le> a \<and> a < heap_end L) \<and>
        (\<forall>(b, s, u)\<in>set gs. u \<longrightarrow> \<not> (b \<le> a \<and> a < b + s)))"

lemma free_outside_used:
  assumes "tiles c gs e" and "(a, r, False) \<in> set gs" and "(b, t, True) \<in> set gs"
  shows "\<not> (b \<le> a \<and> a < b + t)"
proof -
  obtain A B where s: "gs = A @ (a, r, False) # B" using split_list [OF assms(2)] by blast
  note ar = tiles_around [OF assms(1) [unfolded s]]
  have "(b, t, True) \<in> set A \<or> (b, t, True) \<in> set B" using assms(3) unfolding s by auto
  then show ?thesis using ar(3) ar(7) [of b t True] ar(8) [of b t True] by auto
qed

lemma block_change_writes:
  assumes bc: "block_change L A D B c d prev h h'"
  shows "heap_writes L (A @ B) h h'"
  unfolding heap_writes_def
proof (intro allI impI conjI ballI)
  note bd = block_changeD [OF bc]
  fix a assume "hmem h' a \<noteq> hmem h a"
  then have place: "a = prev \<or> c \<le> a \<and> a < d" using bd(12) by blast
  have pr: "\<exists>r. (prev, r, False) \<in> set (A @ D @ B)" if "prev \<noteq> xStart L" using that bd(11) by (auto simp: frees_block)
  show "a = xStart L \<or> heap_start L \<le> a \<and> a < heap_end L"
    using place bd(4,7,8) pr tiles_block [OF bd(3), of prev _ False] by fastforce
  fix g assume g: "g \<in> set (A @ B)"
  obtain b t v where gd: "g = (b, t, v)" by (cases g)
  have gb: "(b, t, v) \<in> set (A @ D @ B)" "b + t \<le> c \<or> d \<le> b" using g gd bd(5,6) [of b t v] by auto
  have "\<not> (b \<le> a \<and> a < b + t)" if v
  proof (cases "a = prev")
    case True
    show ?thesis
    proof (cases "prev = xStart L")
      case xs: True
      then show ?thesis using True tiles_block [OF bd(3) gb(1)] bd(9) by auto
    next
      case False
      then obtain r where "(prev, r, False) \<in> set (A @ D @ B)" using pr by blast
      then show ?thesis using True free_outside_used [OF bd(3), of prev r b t] gb(1) that by auto
    qed
  qed (use place gb(2) in auto)
  then show "case g of (b, s, u) \<Rightarrow> u \<longrightarrow> \<not> (b \<le> a \<and> a < b + s)" by (simp add: gd)
qed

lemma take_block_ok:
  assumes L: "layout_ok L" and wf: "heap_wf L (A @ (x, s, False) # B) h" and k: "unat w \<le> s" "16 \<le> unat w" "8 dvd unat w"
  shows "\<exists>h'. take_block L w (last (xStart L # frees A)) x h = Some (x + 8, h') \<and>
    heap_wf L (A @ split_block x s (unat w) @ B) h' \<and> heap_writes L (A @ B) h h'"
proof -
  let ?m = "hmem h" and ?k = "unat w" and ?C = "split_block x s (unat w)" and ?e = "heap_end L"
  define prev where "prev = last (xStart L # frees A)"
  define nx where "nx = hd (frees B @ [?e])"
  have tg: "tiles (heap_start L) (A @ (x, s, False) # B) ?e" using wf by (simp add: heap_wf_def)
  note ar = tiles_around [OF tg] and lf = last_free [OF prev_def] and ad = heap_addresses(1) [OF L wf, of x s False, simplified]
  have dist: "distinct (xStart L # frees (A @ (x, s, False) # B) @ [?e])" by (rule list_distinct [OF L tg])
  have px: "prev \<noteq> x" using lf(2) dist by auto
  have "chain ?m (butlast (xStart L # frees A) @ prev # x # frees B @ [?e])"
    using wf lf(1) unfolding heap_wf_def by (metis append.assoc append_Cons append_Nil frees_simps(2,3))
  then have "chain ?m (prev # x # frees B @ [?e])"
    using chain_append [of ?m "butlast (xStart L # frees A)" prev "x # frees B @ [?e]"] by blast
  then have c: "pxNextFreeBlock (?m prev) = x" "pxNextFreeBlock (?m x) = nx"
    by (auto simp: nx_def chain_def successively_Cons hd_append)
  have sz: "xBlockSize (?m x) = word_of_nat s" "unat (word_of_nat s :: u32) = s"
    using wf ad by (auto simp: heap_wf_def header_ok_def word_of_nat_eq_nat_iff)
  have le: "w \<le> word_of_nat s" using k(1) sz(2) by (simp add: word_le_nat_alt)
  have rest: "unat (word_of_nat s - w) = s - ?k" using unat_diff_le [OF le] sz(2) by simp
  have spl: "heapMINIMUM_BLOCK_SIZE < word_of_nat s - w \<longleftrightarrow> s - ?k > 16" unfolding word_less_nat_alt rest by simp
  have al: "aligned (x + 8)" "aligned (x + ?k)" using ad k(3) by (auto simp: aligned_def)
  have t': "tiles (heap_start L) (A @ ?C @ B) ?e" by (rule tiles_replace [OF tg k])
  have co: "coalesced (A @ ?C @ B)" by (rule coalesced_replace) (use wf in \<open>simp add: heap_wf_def\<close>)
  have np: "x + ?k \<noteq> prev" if "s - ?k > 16"
    using list_distinct [OF L t'] lf(2) that by (auto simp: split_block_def)
  define m' where "m' = (if s - ?k > 16
    then set_next prev (x + ?k) (set_next (x + ?k) nx (set_size x w (set_size (x + ?k) (word_of_nat s - w) (set_next prev nx ?m))))
    else set_next prev nx ?m)"
  let ?f = "xFreeBytesRemaining h - xBlockSize (m' x)"
  define h' where "h' = h\<lparr>hmem := set_next x 0 (set_size x (xBlockSize (m' x) OR 0x80000000) m'), xFreeBytesRemaining := ?f,
    xMinimumEverFreeBytesRemaining := (if ?f < xMinimumEverFreeBytesRemaining h then ?f else xMinimumEverFreeBytesRemaining h),
    xNumberOfSuccessfulAllocations := xNumberOfSuccessfulAllocations h + 1\<rparr>"
  have run: "take_block L w prev x h = Some (x + 8, h')"
  proof (cases "s - ?k > 16")
    case True
    then show ?thesis using px np spl le ad al
      by (simp add: take_block_def Let_def c sz(1) h'_def m'_def not_less)
  next
    case False
    then show ?thesis using px spl le ad al
      by (simp add: take_block_def Let_def c sz(1) h'_def m'_def not_less)
  qed
  have sx: "xBlockSize (m' x) = (if s - ?k > 16 then w else word_of_nat s)" using sz(1) by (simp add: m'_def)
  have fr: "unat (xFreeBytesRemaining h) = free_size A + s + free_size B" using wf by (simp add: heap_wf_def)
  have "xBlockSize (m' x) \<le> xFreeBytesRemaining h" unfolding word_le_nat_alt fr sx using sz(2) k(1) by simp
  then have fr': "unat (xFreeBytesRemaining h') = free_size (A @ ?C @ B)"
    using fr k(1) sz(2) sx by (auto simp: h'_def unat_diff_le split_block_def)
  have out: "\<forall>a. a \<notin> {prev, x} \<union> set (frees ?C) \<longrightarrow> hmem h' a = hmem h a" by (auto simp: h'_def m'_def split_block_def)
  have inC: "\<forall>p\<in>set (frees ?C). x \<le> p \<and> p < x + s" using k(1) by (auto simp: split_block_def)
  have o2: "hmem h' a = hmem h a" if "a \<noteq> prev" "\<not> (x \<le> a \<and> a < x + s)" for a
  proof -
    have "a \<noteq> x" "a \<notin> set (frees ?C)" using that inC ar(3) by auto
    then show ?thesis using that out by simp
  qed
  have bc: "block_change L A [(x, s, False)] B x (x + s) prev h h'"
    using L wf ar(1,2) prev_def o2 by (simp add: block_change_def)
  have "heap_wf L (A @ ?C @ B) h'"
  proof (rule block_change_wf [OF bc t' co _ _ _ _ fr'])
    show "pxEnd h' = pxEnd h" by (simp add: h'_def)
    show "xBlockSize (hmem h' prev) = xBlockSize (hmem h prev)" using px np by (auto simp: h'_def m'_def)
    show "\<forall>g\<in>set ?C. header_ok (hmem h') g"
    proof (cases "s - ?k > 16")
      case True
      then have "(word_of_nat (s - ?k) :: u32) = word_of_nat s - w" "?k \<noteq> 0" using k by (simp_all add: of_nat_diff)
      then show ?thesis using True px np sx by (simp add: split_block_def header_ok_def h'_def m'_def)
    qed (use px sx in \<open>simp add: split_block_def header_ok_def h'_def\<close>)
    show "chain (hmem h') (prev # frees ?C @ [hd (frees B @ [?e])])" using px np k(2)
      by (auto simp: split_block_def h'_def m'_def nx_def)
  qed
  moreover have "heap_writes L (A @ B) h h'" by (rule block_change_writes [OF bc])
  ultimately show ?thesis using run unfolding prev_def by blast
qed


lemma prvHeapInit_wf:
  assumes L: "layout_ok L"
  shows "heap_wf L [(heap_start L, heap_end L - heap_start L, False)] (prvHeapInit L h)"
proof -
  note lb = layout_bounds [OF L]
  let ?s = "heap_start L" and ?e = "heap_end L" and ?m = "hmem (prvHeapInit L h)"
  have st: "(if \<not> aligned (ucHeap L) then align_down (ucHeap L + (unat portBYTE_ALIGNMENT - 1)) else ucHeap L) = ?s"
    using minus_mod_eq_div_mult [of "ucHeap L + 7" 8] round_up_8 [of "ucHeap L"] by (simp add: aligned_def align_down_def heap_start_def)
  have sum: "?s + (409600 - (?s - ucHeap L)) - 8 = ucHeap L + 409592" using lb(3,4) by linarith
  have en: "align_down (?s + (unat configTOTAL_HEAP_SIZE - (?s - ucHeap L)) - unat xHeapStructSize) = ?e"
    using sum minus_mod_eq_div_mult [of "ucHeap L + 409592" 8] by (simp only: align_down_def heap_end_def heap_numbers)
  have ne: "xStart L \<noteq> ?s" "xStart L \<noteq> ?e" "?s \<noteq> ?e" using L lb by (auto simp: layout_ok_def)
  have pi: "prvHeapInit L h = h\<lparr>hmem := set_next ?s ?e (set_size ?s (word_of_nat (?e - ?s)) (set_next ?e 0 (set_size ?e 0
      (set_size (xStart L) 0 (set_next (xStart L) ?s (hmem h)))))), pxEnd := ?e,
      xMinimumEverFreeBytesRemaining := word_of_nat (?e - ?s), xFreeBytesRemaining := word_of_nat (?e - ?s)\<rparr>"
    by (simp only: prvHeapInit_def Let_def st en)
  have m: "pxNextFreeBlock (?m (xStart L)) = ?s" "xBlockSize (?m (xStart L)) = 0" "?m ?e = \<lparr>pxNextFreeBlock = 0, xBlockSize = 0\<rparr>"
      "pxNextFreeBlock (?m ?s) = ?e" "xBlockSize (?m ?s) = word_of_nat (?e - ?s)" "pxEnd (prvHeapInit L h) = ?e"
      "xFreeBytesRemaining (prvHeapInit L h) = word_of_nat (?e - ?s)"
    using ne by (simp_all add: pi set_next_def set_size_def)
  have sz: "unat (word_of_nat (?e - ?s) :: u32) = ?e - ?s" using lb(9) by (simp add: word_of_nat_eq_nat_iff)
  have "8 dvd ?e - ?s" "16 \<le> ?e - ?s" "?s \<le> ?e" using lb by (auto intro: dvd_diff_nat)
  then show ?thesis using m sz by (simp add: heap_wf_def coalesced_def header_ok_def)
qed

text \<open>
  Allocation on a well-formed heap: the first free block that is large enough is taken, and \<open>NULL\<close> is returned exactly for size 0 and when
  no free block is large enough.
\<close>

definition first_fit :: "nat \<Rightarrow> heap_block list \<Rightarrow> nat \<Rightarrow> nat \<Rightarrow> heap_block list \<Rightarrow> heap_block list \<Rightarrow> bool" where
  "first_fit k A x s B gs \<longleftrightarrow> gs = A @ (x, s, False) # B \<and> k \<le> s \<and> (\<forall>(a, t, u)\<in>set A. u \<or> t < k)"

definition no_fit :: "nat \<Rightarrow> heap_block list \<Rightarrow> bool" where
  "no_fit k gs \<longleftrightarrow> (\<forall>(a, t, u)\<in>set gs. u \<or> t < k)"

lemma free_size_member: "(a, t, False) \<in> set gs \<Longrightarrow> t \<le> free_size gs"
  by (induction gs) auto

lemma malloc_wf:
  assumes L: "layout_ok L" and wf: "heap_wf L gs h" and k: "k = block_need (unat n)"
  shows "(\<exists>A x s B h'. n \<noteq> 0 \<and> first_fit k A x s B gs \<and> pvPortMalloc L n h = Some (x + 8, h') \<and>
            heap_wf L (A @ split_block x s k @ B) h' \<and> heap_writes L (A @ B) h h') \<or>
         (n = 0 \<or> no_fit k gs) \<and> pvPortMalloc L n h = Some (0, h)"
proof -
  let ?w = "required_size n" and ?m = "hmem h" and ?e = "heap_end L"
  note ad = heap_addresses [OF L wf]
  have e: "pxEnd h = ?e" "pxEnd h \<noteq> 0" using wf ad(3) by (simp_all add: heap_wf_def)
  have fsz: "unat (xBlockSize (?m a)) = t" if "(a, t, False) \<in> set gs" for a t
    using that wf ad(1) [OF that] by (intro header_free_size) (auto simp: heap_wf_def)
  show ?thesis
  proof (cases "heapBLOCK_SIZE_IS_VALID ?w \<and> ?w > 0 \<and> ?w \<le> xFreeBytesRemaining h")
    case False
    then have "pvPortMalloc L n h = Some (0, h)" using e by (auto simp: pvPortMalloc_def Let_def)
    moreover have "n = 0 \<or> no_fit k gs"
    proof (rule disjCI)
      assume nf: "\<not> no_fit k gs"
      then obtain a t where "(a, t, False) \<in> set gs" "k \<le> t" by (auto simp: no_fit_def) (metis (full_types) not_less)
      then have kt: "k \<le> free_size gs" "k \<le> 409592" using free_size_member ad(1) by fastforce+
      show "n = 0"
      proof (rule ccontr)
        assume "n \<noteq> 0"
        then have w: "unat ?w = k" using required_size_nat [of n] kt(2) k by simp
        then have "unat ?w < 2 ^ 31" "0 < unat ?w" "unat ?w \<le> unat (xFreeBytesRemaining h)"
          using kt wf block_need_bounds(1) [of "unat n"] k by (auto simp: heap_wf_def)
        then show False using False by (auto simp: top_bit word_less_nat_alt word_le_nat_alt)
      qed
    qed
    ultimately show ?thesis by blast
  next
    case True
    then have n0: "n \<noteq> 0" and w: "unat ?w = k" using required_size_nat [of n] k by (auto simp: word_less_nat_alt split: if_splits)
    have "16 \<le> unat n + 15" using n0 by (simp add: unat_gt_0 Suc_le_eq)
    from div_le_mono [OF this, of 8] have k16: "16 \<le> k" "8 dvd k" using k by (simp_all add: block_need_def)
    have ch: "chain ?m (xStart L # frees gs @ [?e])" "pxNextFreeBlock (?m ?e) = 0" using wf by (simp_all add: heap_wf_def)
    have fs: "\<forall>a\<in>set (frees gs). a \<noteq> 0 \<and> heapVALIDATE_BLOCK_POINTER L a" using ad(1) by (auto simp: frees_block)
    have first: "pxNextFreeBlock (?m (xStart L)) = hd (frees gs @ [?e])" using ch(1) by (cases "frees gs") auto
    have vf: "heapVALIDATE_BLOCK_POINTER L (hd (frees gs @ [?e]))" using fs ad(4) by (cases "frees gs") auto
    have run: "pvPortMalloc L n h = (case find_block L ?m ?w (xStart L) (hd (frees gs @ [?e])) of None \<Rightarrow> None
        | Some (prev, pxBlock) \<Rightarrow> if pxBlock \<noteq> pxEnd h then take_block L ?w prev pxBlock h else Some (0, h))"
      using True vf first e by (simp add: pvPortMalloc_def Let_def)
    from find_block_spec [OF ch(1) fs ad(3,4) ch(2), of ?w] show ?thesis
    proof (elim disjE exE conjE)
      fix as x bs
      assume f: "frees gs = as @ x # bs" "\<forall>a\<in>set as. xBlockSize (?m a) < ?w" "?w \<le> xBlockSize (?m x)"
        "find_block L ?m ?w (xStart L) (hd (frees gs @ [?e])) = Some (last (xStart L # as), x)"
      obtain A s B where gs: "gs = A @ (x, s, False) # B" "frees A = as" using frees_at [OF f(1)] by blast
      have ks: "k \<le> s" using f(3) fsz [of x s] gs(1) w by (simp add: word_le_nat_alt)
      moreover have "u \<or> t < k" if "(a, t, u) \<in> set A" for a t u
        using that f(2) fsz [of a t] gs w by (cases u) (auto simp: word_less_nat_alt frees_block)
      ultimately have ff: "first_fit k A x s B gs" using gs(1) by (auto simp: first_fit_def)
      have "x \<noteq> ?e" using ad(1) [of x s False] gs(1) by auto
      then show ?thesis using take_block_ok [OF L wf [unfolded gs(1)], of ?w] run f(4) ff n0 ks k16 gs(2) e(1) unfolding w by auto
    next
      assume f: "\<forall>a\<in>set (frees gs). xBlockSize (?m a) < ?w"
        "find_block L ?m ?w (xStart L) (hd (frees gs @ [?e])) = Some (last (xStart L # frees gs), ?e)"
      have "u \<or> t < k" if "(a, t, u) \<in> set gs" for a t u
        using that f(1) fsz [of a t] w by (cases u) (auto simp: word_less_nat_alt frees_block)
      then have "no_fit k gs" by (auto simp: no_fit_def)
      then show ?thesis using run f(2) e(1) by simp
    qed
  qed
qed


section \<open>Release\<close>

lemma insert_position_spec:
  assumes "chain m (p # as @ q # bs)" and "\<forall>a\<in>set as. a < x" and "x \<le> q"
  shows "insert_position m x p = Some (last (p # as))"
  using assms(1,2)
proof (induction as arbitrary: p)
  case Nil
  then show ?case using assms(3) by (subst insert_position.simps) simp
next
  case (Cons a as)
  then show ?case by (subst insert_position.simps) simp
qed

text \<open>The second half of the insertion: merging with the free block behind, if there is one.\<close>

definition join_right :: "nat \<Rightarrow> nat \<Rightarrow> nat \<Rightarrow> heap_mem \<Rightarrow> heap_mem" where
  "join_right e y f m =
     (if y + unat (xBlockSize (m y)) = f
      then (if f \<noteq> e
            then (let m' = set_size y (xBlockSize (m y) + xBlockSize (m f)) m in set_next y (pxNextFreeBlock (m' f)) m')
            else set_next y e m)
      else set_next y f m)"

lemma insert_eq:
  assumes "insert_position m x (xStart L) = Some it" and "it = xStart L \<or> heapVALIDATE_BLOCK_POINTER L it"
  shows "prvInsertBlockIntoFreeList L e x m = Some
    (if it + unat (xBlockSize (m it)) = x
     then join_right e it (pxNextFreeBlock (m it)) (set_size it (xBlockSize (m it) + xBlockSize (m x)) m)
     else if it \<noteq> x then set_next it x (join_right e x (pxNextFreeBlock (m it)) m) else join_right e x (pxNextFreeBlock (m it)) m)"
  using assms by (auto simp: prvInsertBlockIntoFreeList_def join_right_def Let_def)

lemma tiles_self:
  assumes "tiles a gs a"
  shows "gs = []"
proof (rule ccontr)
  assume "gs \<noteq> []"
  then obtain b s u where "(b, s, u) \<in> set gs" by (metis hd_in_set prod_cases3)
  from tiles_block [OF assms this] show False by linarith
qed

lemma word_of_nat_add: "(word_of_nat a :: u32) + word_of_nat b = word_of_nat (a + b)"
  by simp

abbreviation block_used :: "heap_block \<Rightarrow> bool" where "block_used g \<equiv> snd (snd g)"

lemma join_right_ok:
  assumes t: "tiles (y + r) B e" and sz: "xBlockSize (m y) = word_of_nat r" "y + r < 2 ^ 32" and co: "coalesced B"
    and hd: "\<forall>g\<in>set B. header_ok m g" and ch: "chain m (frees B @ [e])" and B: "e \<le> y + r + 409592" and r: "0 < r"
  shows "\<exists>m' Y B0. m' = join_right e y (hd (frees B @ [e])) m \<and>
    B = Y @ B0 \<and> filter block_used Y = [] \<and> (B0 = [] \<or> block_used (hd B0)) \<and> tiles (y + (r + free_size Y)) B0 e \<and> 8 dvd free_size Y \<and>
    xBlockSize (m' y) = word_of_nat (r + free_size Y) \<and> pxNextFreeBlock (m' y) = hd (frees B0 @ [e]) \<and> (\<forall>a. a \<noteq> y \<longrightarrow> m' a = m a)"
proof -
  have ur: "unat (xBlockSize (m y)) = r" using sz by (simp add: word_of_nat_eq_nat_iff)
  consider "B = []" | b s B0 where "B = (b, s, False) # B0" | b s B0 where "B = (b, s, True) # B0"
    by (metis (full_types) neq_Nil_conv prod_cases3)
  then show ?thesis
  proof cases
    case 1
    then show ?thesis using t ur sz by (intro exI [of _ "join_right e y e m"] exI [of _ "[]"]) (simp add: join_right_def)
  next
    case 2
    have b: "b = y + r" "tiles (y + r + s) B0 e" "16 \<le> s" "8 dvd s" using t 2 by simp_all
    have s: "s \<le> 409592" using tiles_le [OF b(2)] B by simp
    have ne: "b \<noteq> e" "b \<noteq> y" using tiles_le [OF b(2)] b(1,3) r by auto
    have "B0 = [] \<or> block_used (hd B0)" using co 2 by (cases B0) (auto simp: coalesced_def)
    moreover have "pxNextFreeBlock (m b) = hd (frees B0 @ [e])" using ch 2 by (cases "frees B0") auto
    moreover have "xBlockSize (m b) = word_of_nat s" using hd 2 by (simp add: header_ok_def)
    ultimately show ?thesis using 2 b ne ur sz
      by (intro exI [of _ "join_right e y b m"] exI [of _ "[(b, s, False)]"] exI [of _ B0])
        (simp add: join_right_def Let_def add.assoc)
  next
    case 3
    have b: "b = y + r" "tiles (y + r + s) B0 e" "16 \<le> s" using t 3 by simp_all
    have "hd (frees B0 @ [e]) \<noteq> y + r"
    proof (cases "frees B0")
      case Nil
      then show ?thesis using tiles_le [OF b(2)] b(3) by simp
    next
      case (Cons f fs)
      then show ?thesis using frees_sorted [OF b(2)] b(3) by auto
    qed
    then show ?thesis using 3 t ur sz
      by (intro exI [of _ "join_right e y (hd (frees B @ [e])) m"] exI [of _ "[]"] exI [of _ B]) (simp add: join_right_def)
  qed
qed

text \<open>The block before the released one.\<close>

lemma left_cases:
  assumes t: "tiles a A x" and it: "it = last (q # frees A)"
  obtains A0 s where "A = A0 @ [(it, s, False)]" "it + s = x"
  | "A = [] \<or> block_used (last A)" "it = q \<or> (\<exists>s. (it, s, False) \<in> set A \<and> it + s < x)"
proof (cases "A = [] \<or> block_used (last A)")
  case True
  have "it + s < x" if i: "(it, s, False) \<in> set A" for s
  proof -
    obtain A1 A2 where A: "A = A1 @ (it, s, False) # A2" using split_list [OF i] by blast
    have A2: "tiles (it + s) A2 x" using t A by (auto simp: tiles_append)
    have "A2 \<noteq> []" using True A by auto
    then show ?thesis using A2 tiles_self tiles_le by (metis le_neq_implies_less)
  qed
  moreover have "it = q \<or> it \<in> set (frees A)" using last_free(2) [OF it] .
  ultimately show ?thesis using True that(2) by (auto simp: frees_block)
next
  case False
  then obtain A0 b s where A: "A = A0 @ [(b, s, False)]" by (metis append_butlast_last_id prod.collapse)
  then have "it = b" "b + s = x" using it t by (auto simp: tiles_append)
  then show ?thesis using A that(1) by blast
qed

lemma released_wf:
  assumes bc: "block_change L A0 D B0 y (y + r) prev h h'" and r: "16 \<le> r" "8 dvd r"
    and co: "coalesced A0" "coalesced B0" "A0 = [] \<or> block_used (last A0)" "B0 = [] \<or> block_used (hd B0)"
    and h': "pxEnd h' = pxEnd h" "xBlockSize (hmem h' prev) = xBlockSize (hmem h prev)" "xBlockSize (hmem h' y) = word_of_nat r"
      "pxNextFreeBlock (hmem h' prev) = y" "pxNextFreeBlock (hmem h' y) = hd (frees B0 @ [heap_end L])"
      "unat (xFreeBytesRemaining h') = free_size A0 + r + free_size B0"
  shows "heap_wf L (A0 @ [(y, r, False)] @ B0) h' \<and> heap_writes L (A0 @ [(y, r, False)] @ B0) h h'"
proof
  have "tiles (heap_start L) (A0 @ [(y, r, False)] @ B0) (heap_end L)" using bc r by (auto simp: block_change_def tiles_append)
  moreover have "coalesced (A0 @ [(y, r, False)] @ B0)"
    using co by (auto simp: coalesced_def successively_append_iff successively_Cons)
  ultimately show "heap_wf L (A0 @ [(y, r, False)] @ B0) h'"
    using h' by (intro block_change_wf [OF bc]) (simp_all add: header_ok_def)
  show "heap_writes L (A0 @ [(y, r, False)] @ B0) h h'" using block_change_writes [OF bc] by (simp add: heap_writes_def)
qed

lemma tiles_free_size: "tiles a gs e \<Longrightarrow> free_size gs \<le> e - a"
proof (induction a gs e rule: tiles.induct)
  case (2 a b s u gs e)
  then show ?case using tiles_le [of "a + s" gs e] by auto
qed simp

lemma coalesced_parts: "coalesced (A @ g # B) \<Longrightarrow> coalesced A \<and> coalesced B" "coalesced (A @ B) \<Longrightarrow> coalesced A \<and> coalesced B"
  by (auto simp: coalesced_def successively_append_iff successively_Cons)

lemma header_ok_cong: "m' (fst g) = m (fst g) \<Longrightarrow> header_ok m' g = header_ok m g"
  by (simp add: header_ok_def split_beta)

lemma free_wf:
  assumes L: "layout_ok L" and wf: "heap_wf L (A @ (x, s, True) # B) h"
  shows "\<exists>h' gs'. vPortFree L (x + 8) h = Some h' \<and> heap_wf L gs' h' \<and>
    filter block_used gs' = filter block_used (A @ B) \<and> heap_writes L gs' h h'"
proof -
  let ?e = "heap_end L" and ?m = "hmem h"
  define m1 where "m1 = set_size x (word_of_nat s) ?m"
  define it where "it = last (xStart L # frees A)"
  have tg: "tiles (heap_start L) (A @ (x, s, True) # B) ?e" using wf by (simp add: heap_wf_def)
  note ar = tiles_around [OF tg] and lf = last_free [OF it_def] and ad = heap_addresses(1) [OF L wf] and lb = layout_bounds [OF L]
  have x: "heapVALIDATE_BLOCK_POINTER L x" "x \<noteq> xStart L" "s \<le> 409592" "x \<noteq> 0" using ad [of x s True] by auto
  have hx: "xBlockSize (?m x) = word_of_nat s OR 0x80000000" "pxNextFreeBlock (?m x) = 0" using wf by (auto simp: heap_wf_def header_ok_def)
  have us: "unat (word_of_nat s :: u32) = s" using x(3) by (simp add: word_of_nat_eq_nat_iff)
  have mk: "(word_of_nat s OR 0x80000000 :: u32) AND 0x80000000 \<noteq> 0" "(word_of_nat s OR 0x80000000 :: u32) AND NOT 0x80000000 = word_of_nat s"
    using mark_bits [of "word_of_nat s"] us x(3) by simp_all
  have co: "coalesced A" "coalesced B" using coalesced_parts(1) [of A "(x, s, True)" B] wf by (simp_all add: heap_wf_def)
  obtain q R where q: "frees B @ [?e] = q # R" by (cases "frees B @ [?e]") auto
  have qB: "q = hd (frees B @ [?e])" using q by simp
  have xq: "x + s \<le> q"
    using q frees_sorted [OF ar(2)] ar(6) by (cases "frees B") auto
  have ch: "chain ?m (xStart L # frees A @ q # R)" using wf q unfolding heap_wf_def by simp
  then have ch1: "chain m1 (xStart L # frees A @ q # R)" by (simp add: m1_def chain_def)
  have Ax: "a < x" if "a \<in> set (frees A)" for a using that ar(7) by (fastforce simp: frees_block)
  have pos: "insert_position m1 x (xStart L) = Some it"
    unfolding it_def by (rule insert_position_spec [OF ch1]) (use Ax xq in auto)
  have vit: "it = xStart L \<or> heapVALIDATE_BLOCK_POINTER L it" and itx: "it \<noteq> x"
    using lf(2) ad [of it _ False] x(2) Ax [of it] by (auto simp: frees_block)
  have chit: "chain ?m (it # q # R)" using ch lf(1) chain_append [of ?m "butlast (xStart L # frees A)" it "q # R"]
    by (metis append.assoc append_Cons append_Nil)
  have nit: "pxNextFreeBlock (m1 it) = q" and chB: "chain m1 (frees B @ [?e])" using chit q by (simp_all add: m1_def chain_def successively_Cons)
  have hB: "\<forall>g\<in>set B. header_ok ?m g" using wf by (auto simp: heap_wf_def)
  have Bx: "x + s \<le> fst g" if "g \<in> set B" for g using that ar(8) [of "fst g" "fst (snd g)" "snd (snd g)"] by simp
  have fs: "free_size A + s + free_size B \<le> 409592" using tiles_free_size [OF ar(1)] tiles_free_size [OF ar(2)] ar(5,6) lb(9) by linarith
  have fr: "unat (xFreeBytesRemaining h + word_of_nat s) = free_size A + s + free_size B"
    using wf fs us by (subst unat_add_small) (simp_all add: heap_wf_def)
  have e: "pxEnd h = ?e" using wf by (simp add: heap_wf_def)
  define H where "H m' = h\<lparr>hmem := m', xFreeBytesRemaining := xFreeBytesRemaining h + word_of_nat s,
    xNumberOfSuccessfulFrees := xNumberOfSuccessfulFrees h + 1\<rparr>" for m'
  have H: "hmem (H m') = m'" "pxEnd (H m') = pxEnd h" "unat (xFreeBytesRemaining (H m')) = free_size A + s + free_size B" for m'
    using fr by (simp_all add: H_def)
  have run: "vPortFree L (x + 8) h = map_option H (prvInsertBlockIntoFreeList L ?e x m1)"
    using x hx mk e by (simp add: vPortFree_def Let_def m1_def H_def [abs_def] split: option.split)
  note run' = run [unfolded insert_eq [OF pos vit]]
  have b32: "?e < 2 ^ 32" "?e \<le> x + s + 409592" using lb ar(5,6) L by auto
  show ?thesis
  proof (cases rule: left_cases [OF ar(1) it_def])
    case (1 A0 t)
    let ?m2 = "set_size it (word_of_nat t + word_of_nat s) m1"
    have A0: "tiles (heap_start L) A0 it" and t: "16 \<le> t" "8 dvd t" using ar(1) 1 by (auto simp: tiles_append)
    have st: "xBlockSize (m1 it) = word_of_nat t" "unat (word_of_nat t :: u32) = t"
      using wf 1 itx ad [of it t False] by (auto simp: m1_def heap_wf_def header_ok_def word_of_nat_eq_nat_iff)
    have out: "?m2 (fst g) = ?m (fst g)" if "g \<in> set B" for g using Bx [OF that] ar(3) 1(2) t by (simp add: m1_def)
    have "\<exists>m' Y B0. m' = join_right ?e it (hd (frees B @ [?e])) ?m2 \<and>
      B = Y @ B0 \<and> filter block_used Y = [] \<and> (B0 = [] \<or> block_used (hd B0)) \<and> tiles (it + (t + s + free_size Y)) B0 ?e \<and> 8 dvd free_size Y \<and>
      xBlockSize (m' it) = word_of_nat (t + s + free_size Y) \<and> pxNextFreeBlock (m' it) = hd (frees B0 @ [?e]) \<and> (\<forall>a. a \<noteq> it \<longrightarrow> m' a = ?m2 a)"
    proof (rule join_right_ok)
      show "tiles (it + (t + s)) B ?e" using ar(2) unfolding 1(2) [symmetric] by (simp add: add.assoc)
      show "\<forall>g\<in>set B. header_ok ?m2 g" using hB out header_ok_cong [of ?m2 _ ?m] by blast
      show "chain ?m2 (frees B @ [?e])" using chB by (simp add: chain_def)
    qed (use 1(2) co(2) b32 ar(3,6) in auto)
    then obtain Y B0 m' where Y: "m' = join_right ?e it (hd (frees B @ [?e])) ?m2" "B = Y @ B0" "filter block_used Y = []"
        "B0 = [] \<or> block_used (hd B0)" "tiles (it + (t + s + free_size Y)) B0 ?e" "8 dvd free_size Y"
        "xBlockSize (m' it) = word_of_nat (t + s + free_size Y)" "pxNextFreeBlock (m' it) = hd (frees B0 @ [?e])"
        "\<forall>a. a \<noteq> it \<longrightarrow> m' a = ?m2 a"
      by blast
    let ?prev = "last (xStart L # frees A0)" and ?r = "t + s + free_size Y"
    have m': "m' a = ?m a" if "a \<noteq> it" "a \<noteq> x" for a using Y(9) that by (simp add: m1_def)
    have pA: "?prev = xStart L \<or> ?prev < it" using last_free(2) [OF refl, of "xStart L" A0] frees_sorted [OF A0] by auto
    have pne: "?prev \<noteq> it" "?prev \<noteq> x" using pA x(2) 1 ad [of it t False] by auto
    have "pxNextFreeBlock (?m ?prev) = it"
    proof -
      have "xStart L # frees A @ q # R = (xStart L # frees A0) @ it # q # R" using 1(1) by simp
      also have "\<dots> = butlast (xStart L # frees A0) @ ?prev # it # q # R"
        by (subst last_free(1) [OF refl, of "xStart L" A0]) (simp del: butlast.simps last.simps)
      finally have eq: "xStart L # frees A @ q # R = butlast (xStart L # frees A0) @ ?prev # it # q # R" .
      from ch have "chain ?m (?prev # it # q # R)" unfolding eq chain_append [of ?m _ ?prev "it # q # R"] by (rule conjunct2)
      then show ?thesis by (simp only: chain_simps)
    qed
    then have np: "pxNextFreeBlock (m' ?prev) = it" "xBlockSize (m' ?prev) = xBlockSize (?m ?prev)" using m' [OF pne] by simp_all
    have "block_change L A0 ([(it, t, False), (x, s, True)] @ Y) B0 it (it + ?r) ?prev h (H m')"
      using L wf A0 Y(2,5) m' 1 ar(3) by (auto simp: block_change_def H)
    moreover have "coalesced A0" "coalesced B0" "A0 = [] \<or> block_used (last A0)"
      using co 1(1) Y(2) by (auto simp: coalesced_def successively_append_iff)
    ultimately have "heap_wf L (A0 @ [(it, ?r, False)] @ B0) (H m') \<and> heap_writes L (A0 @ [(it, ?r, False)] @ B0) h (H m')"
      using Y(2-8) np t ar(3,4) 1(1) by (intro released_wf) (simp_all add: H)
    moreover have "vPortFree L (x + 8) h = Some (H m')" using run' st 1(2) nit qB Y(1) m1_def by simp
    ultimately show ?thesis using 1(1) Y(2,3)
      by (intro exI [of _ "H m'"] exI [of _ "A0 @ [(it, ?r, False)] @ B0"]) simp
  next
    case 2
    have nl: "it + unat (xBlockSize (m1 it)) \<noteq> x"
    proof (cases "it = xStart L")
      case True
      then show ?thesis using wf x(2) by (simp add: m1_def heap_wf_def)
    next
      case False
      then obtain t where t: "(it, t, False) \<in> set A" "it + t < x" using 2(2) by blast
      then have "unat (xBlockSize (?m it)) = t" using wf ad [of it t False] by (intro header_free_size) (auto simp: heap_wf_def)
      then show ?thesis using t(2) itx by (simp add: m1_def)
    qed
    have out: "m1 (fst g) = ?m (fst g)" if "g \<in> set B" for g using Bx [OF that] ar(3) by (simp add: m1_def)
    have "\<exists>m' Y B0. m' = join_right ?e x (hd (frees B @ [?e])) m1 \<and>
      B = Y @ B0 \<and> filter block_used Y = [] \<and> (B0 = [] \<or> block_used (hd B0)) \<and> tiles (x + (s + free_size Y)) B0 ?e \<and> 8 dvd free_size Y \<and>
      xBlockSize (m' x) = word_of_nat (s + free_size Y) \<and> pxNextFreeBlock (m' x) = hd (frees B0 @ [?e]) \<and> (\<forall>a. a \<noteq> x \<longrightarrow> m' a = m1 a)"
    proof (rule join_right_ok [OF ar(2)])
      show "\<forall>g\<in>set B. header_ok m1 g" using hB out header_ok_cong [of m1 _ ?m] by blast
    qed (use chB co(2) b32 ar(3,6) in \<open>auto simp: m1_def\<close>)
    then obtain Y B0 m' where Y: "m' = join_right ?e x (hd (frees B @ [?e])) m1" "B = Y @ B0" "filter block_used Y = []"
        "B0 = [] \<or> block_used (hd B0)" "tiles (x + (s + free_size Y)) B0 ?e" "8 dvd free_size Y"
        "xBlockSize (m' x) = word_of_nat (s + free_size Y)" "pxNextFreeBlock (m' x) = hd (frees B0 @ [?e])"
        "\<forall>a. a \<noteq> x \<longrightarrow> m' a = m1 a"
      by blast
    let ?r = "s + free_size Y" and ?h = "H (set_next it x m')"
    have m': "m' a = ?m a" if "a \<noteq> x" for a using Y(9) that by (simp add: m1_def)
    have "block_change L A ((x, s, True) # Y) B0 x (x + ?r) it h ?h"
      using L wf ar(1,3) Y(2,5) m' it_def by (auto simp: block_change_def H)
    moreover have "coalesced B0" using co Y(2) by (auto simp: coalesced_def successively_append_iff)
    ultimately have "heap_wf L (A @ [(x, ?r, False)] @ B0) ?h \<and> heap_writes L (A @ [(x, ?r, False)] @ B0) h ?h"
      using Y(2-8) arg_cong [OF m' [OF itx], of xBlockSize] itx ar(3,4) co 2(1)
      by (intro released_wf [where prev = it]) (simp_all add: H)
    moreover have "vPortFree L (x + 8) h = Some ?h" using run' nl itx nit qB Y(1) by simp
    ultimately show ?thesis using Y(2,3)
      by (intro exI [of _ ?h] exI [of _ "A @ [(x, ?r, False)] @ B0"]) simp
  qed
qed

end
