(* ===== verification/HeapAlloc.thy ===== *)
theory HeapAlloc
  imports HeapBlocks
begin

text \<open>
  What the allocator promises to the program: in every sequence of allocations, releases and writes of the program to its own memory, the
  blocks handed out are disjoint, and no operation fails or touches them. The locale \<open>allocator\<close> is the part of this that a client
  needs which allocates several objects.
\<close>

section \<open>Use of the heap\<close>

lemma unat_word_of_nat_self: "word_of_nat (unat w) = w"
  by simp

text \<open>
  The program may write to the blocks it holds and to memory outside of the array and of \<open>xStart\<close>; a write to a byte changes every
  link structure one could read across it. \<open>live\<close> are the pointers handed out and not yet released, with the sizes asked for.
\<close>

definition app_may_write :: "heap_layout \<Rightarrow> (nat \<times> u32) list \<Rightarrow> nat \<Rightarrow> bool" where
  "app_may_write L live a \<longleftrightarrow>
     (\<exists>(p, n)\<in>set live. p < a + 8 \<and> a < p + unat n) \<or>
     (a + 8 \<le> ucHeap L \<or> ucHeap L + unat configTOTAL_HEAP_SIZE \<le> a) \<and> (a + 8 \<le> xStart L \<or> xStart L + 8 \<le> a)"

inductive heap_runs :: "heap_layout \<Rightarrow> heap4 \<Rightarrow> (nat \<times> u32) list \<Rightarrow> heap4 \<Rightarrow> bool" for L h0 where
  start: "heap_runs L h0 [] h0"
| malloc: "heap_runs L h0 live h \<Longrightarrow> pvPortMalloc L n h = Some (p, h') \<Longrightarrow> heap_runs L h0 (if p = 0 then live else (p, n) # live) h'"
| free: "heap_runs L h0 live h \<Longrightarrow> (p, n) \<in> set live \<Longrightarrow> vPortFree L p h = Some h' \<Longrightarrow> heap_runs L h0 (remove1 (p, n) live) h'"
| app: "heap_runs L h0 live h \<Longrightarrow> (\<And>a. m a \<noteq> hmem h a \<Longrightarrow> app_may_write L live a) \<Longrightarrow> heap_runs L h0 live (h\<lparr>hmem := m\<rparr>)"

text \<open>The blocks in use are the live pointers.\<close>

definition holds :: "(nat \<times> u32) list \<Rightarrow> heap_block list \<Rightarrow> bool" where
  "holds live gs \<longleftrightarrow> distinct (map fst live) \<and>
     (\<forall>(p, n)\<in>set live. \<exists>a s. (a, s, True) \<in> set gs \<and> p = a + 8 \<and> unat n + 8 \<le> s) \<and>
     (\<forall>a s. (a, s, True) \<in> set gs \<longrightarrow> (\<exists>n. (a + 8, n) \<in> set live))"

definition heap_ok :: "heap_layout \<Rightarrow> (nat \<times> u32) list \<Rightarrow> heap4 \<Rightarrow> bool" where
  "heap_ok L live h \<longleftrightarrow> layout_ok L \<and> (pxEnd h = 0 \<and> live = [] \<or> (\<exists>gs. heap_wf L gs h \<and> holds live gs))"

lemma used_filter: "(a, s, True) \<in> set gs \<longleftrightarrow> (a, s, True) \<in> set (filter block_used gs)"
  by simp

lemma holds_used: "filter block_used gs = filter block_used gs' \<Longrightarrow> holds live gs = holds live gs'"
  unfolding holds_def used_filter [of _ _ gs] used_filter [of _ _ gs'] by (rule iffI) simp_all

lemma malloc_uninitialised:
  assumes "layout_ok L" "pxEnd h = 0"
  shows "pvPortMalloc L n h = pvPortMalloc L n (prvHeapInit L h)"
proof -
  have "pxEnd (prvHeapInit L h) \<noteq> 0"
    using prvHeapInit_wf [OF assms(1), of h] layout_bounds [OF assms(1)] by (auto simp: heap_wf_def)
  then show ?thesis using assms(2) by (simp add: pvPortMalloc_def Let_def)
qed

text \<open>An initialised heap that allocates like the given one.\<close>

lemma heap_ready:
  assumes "heap_ok L live h"
  obtains gs h1 where "heap_wf L gs h1" "holds live gs" "\<forall>n. pvPortMalloc L n h = pvPortMalloc L n h1" "pxEnd h \<noteq> 0 \<longrightarrow> h1 = h"
    "pxEnd h = 0 \<longrightarrow> h1 = prvHeapInit L h \<and> live = [] \<and> gs = [(heap_start L, heap_end L - heap_start L, False)]"
proof (cases "pxEnd h = 0")
  case True
  have L: "layout_ok L" and "live = [] \<or> (\<exists>gs. heap_wf L gs h)" using assms by (auto simp: heap_ok_def)
  moreover have "\<not> heap_wf L gs h" for gs using True layout_bounds [OF L] by (auto simp: heap_wf_def)
  ultimately have "live = []" by blast
  then show ?thesis using that [OF prvHeapInit_wf [OF L, of h]] malloc_uninitialised [OF L True] True
    by (simp add: holds_def)
next
  case False
  then show ?thesis using assms that by (auto simp: heap_ok_def)
qed

lemma holds_disjoint:
  assumes wf: "heap_wf L gs h" and hl: "holds live gs" and in1: "(p, n) \<in> set live" and in2: "(q, k) \<in> set live" and ne: "p \<noteq> q"
  shows "p + unat n \<le> q \<or> q + unat k \<le> p"
proof -
  obtain a s where a: "(a, s, True) \<in> set gs" "p = a + 8" "unat n + 8 \<le> s" using hl in1 by (fastforce simp: holds_def)
  obtain b t where b: "(b, t, True) \<in> set gs" "q = b + 8" "unat k + 8 \<le> t" using hl in2 by (fastforce simp: holds_def)
  obtain A B where gs: "gs = A @ (a, s, True) # B" using split_list [OF a(1)] by blast
  have "tiles (heap_start L) gs (heap_end L)" using wf by (simp add: heap_wf_def)
  note ar = tiles_around [OF this [unfolded gs]]
  have "(b, t, True) \<in> set A \<or> (b, t, True) \<in> set B" using b(1,2) a(2) ne unfolding gs by auto
  then show ?thesis using ar(7) [of b t True] ar(8) [of b t True] a b by auto
qed

lemma holds_place:
  assumes L: "layout_ok L" and wf: "heap_wf L gs h" and hl: "holds live gs" and live: "(p, n) \<in> set live"
  shows "p \<noteq> 0" "aligned p" "ucHeap L + 8 \<le> p" "p + unat n \<le> ucHeap L + 409592"
proof -
  obtain a s where a: "(a, s, True) \<in> set gs" "p = a + 8" "unat n + 8 \<le> s" using hl live by (fastforce simp: holds_def)
  have "tiles (heap_start L) gs (heap_end L)" using wf by (simp add: heap_wf_def)
  from tiles_block [OF this a(1)] have "heap_start L \<le> a" "a + s \<le> heap_end L" by simp_all
  moreover have "8 dvd a" using heap_addresses(1) [OF L wf a(1)] by simp
  ultimately show "p \<noteq> 0" "aligned p" "ucHeap L + 8 \<le> p" "p + unat n \<le> ucHeap L + 409592"
    using a layout_bounds [OF L] by (auto simp: aligned_def)
qed

text \<open>Memory of live pointers is not written.\<close>

definition live_kept :: "(nat \<times> u32) list \<Rightarrow> heap4 \<Rightarrow> heap4 \<Rightarrow> bool" where
  "live_kept live h h' \<longleftrightarrow> (\<forall>(p, n)\<in>set live. \<forall>a. p \<le> a \<and> a < p + unat n \<longrightarrow> hmem h' a = hmem h a)"

lemma heap_writes_live:
  assumes "heap_writes L gs h h'" and "\<forall>(p, n)\<in>set live. \<exists>a s. (a, s, True) \<in> set gs \<and> p = a + 8 \<and> unat n + 8 \<le> s"
  shows "live_kept live h h'"
  unfolding live_kept_def
proof (clarify, rule ccontr)
  fix p n a assume "(p, n) \<in> set live" "p \<le> a" "a < p + unat n" "hmem h' a \<noteq> hmem h a"
  moreover then obtain b s where "(b, s, True) \<in> set gs" "p = b + 8" "unat n + 8 \<le> s" using assms(2) by fastforce
  ultimately show False using assms(1) by (fastforce simp: heap_writes_def)
qed

section \<open>The operations keep the heap well formed\<close>

lemma split_block_used: "\<exists>t. filter block_used (split_block x s k) = [(x, t, True)] \<and> min k s \<le> t"
  by (auto simp: split_block_def)

lemma heap_ok_malloc:
  assumes ok: "heap_ok L live h"
  shows "\<exists>p h'. pvPortMalloc L n h = Some (p, h') \<and> heap_ok L (if p = 0 then live else (p, n) # live) h' \<and> live_kept live h h'"
proof -
  have L: "layout_ok L" using ok by (simp add: heap_ok_def)
  obtain gs h1 where wf: "heap_wf L gs h1" "holds live gs" "\<forall>n. pvPortMalloc L n h = pvPortMalloc L n h1" "pxEnd h \<noteq> 0 \<longrightarrow> h1 = h"
      "pxEnd h = 0 \<longrightarrow> h1 = prvHeapInit L h \<and> live = [] \<and> gs = [(heap_start L, heap_end L - heap_start L, False)]"
    by (rule heap_ready [OF ok])
  have kept: "live_kept live h1 h' \<Longrightarrow> live_kept live h h'" for h' using wf(4,5) by (cases "pxEnd h = 0") (auto simp: live_kept_def)
  have null: ?thesis if "pvPortMalloc L n h1 = Some (0, h1)"
  proof -
    have "heap_ok L live h1" using L wf(1,2) by (auto simp: heap_ok_def)
    moreover have "live_kept live h h1" by (rule kept) (simp add: live_kept_def split: prod.split)
    ultimately show ?thesis using that wf(3) by (intro exI [of _ 0] exI [of _ h1]) simp
  qed
  let ?k = "block_need (unat n)"
  from malloc_wf [OF L wf(1) refl, of n] show ?thesis
  proof (elim disjE exE conjE)
    fix A x s B h'
    assume r: "n \<noteq> 0" "first_fit ?k A x s B gs" "pvPortMalloc L n h1 = Some (x + 8, h')" "heap_wf L (A @ split_block x s ?k @ B) h'"
      "heap_writes L (A @ B) h1 h'"
    have gs: "gs = A @ (x, s, False) # B" and ks: "?k \<le> s" using r(2) by (simp_all add: first_fit_def)
    obtain t where t: "filter block_used (split_block x s ?k) = [(x, t, True)]" "?k \<le> t" using split_block_used [of x s ?k] ks by auto
    let ?gs = "A @ (x, t, True) # B"
    have hl: "(a, r, True) \<in> set gs \<longleftrightarrow> (a, r, True) \<in> set A \<union> set B" for a r by (auto simp: gs)
    have nx: "(x + 8, m) \<notin> set live" for m
    proof
      assume "(x + 8, m) \<in> set live"
      then obtain r where "(x, r, True) \<in> set gs" using wf(2) by (fastforce simp: holds_def)
      moreover have "tiles (heap_start L) gs (heap_end L)" using wf(1) by (simp add: heap_wf_def)
      ultimately show False using tiles_same_block [of "heap_start L" gs "heap_end L" x r True s False] by (simp add: gs)
    qed
    have "holds ((x + 8, n) # live) ?gs"
      using wf(2) nx t(2) block_need_bounds(1) [of "unat n"] unfolding holds_def hl by fastforce
    then have "holds ((x + 8, n) # live) (A @ split_block x s ?k @ B)"
      using holds_used [of ?gs "A @ split_block x s ?k @ B"] t(1) by simp
    then have "heap_ok L ((x + 8, n) # live) h'" using L r(4) by (auto simp: heap_ok_def)
    moreover have "live_kept live h1 h'"
      by (rule heap_writes_live [OF r(5)]) (use wf(2) hl in \<open>simp add: holds_def\<close>)
    ultimately show ?thesis using r(3) wf(3) kept by (intro exI [of _ "x + 8"] exI [of _ h']) simp
  qed (rule null, assumption)+
qed

lemma malloc_initialises:
  assumes "heap_ok L live h" and "pvPortMalloc L n h = Some (p, h')"
  shows "pxEnd h' = heap_end L"
proof -
  obtain gs h1 where wf: "heap_wf L gs h1" "\<forall>n. pvPortMalloc L n h = pvPortMalloc L n h1" by (rule heap_ready [OF assms(1)])
  have "layout_ok L" using assms(1) by (simp add: heap_ok_def)
  from malloc_wf [OF this wf(1) refl, of n] assms(2) wf show ?thesis by (auto simp: heap_wf_def)
qed

lemma vPortFree_end: "vPortFree L p h = Some h' \<Longrightarrow> pxEnd h' = pxEnd h"
  by (auto simp: vPortFree_def Let_def split: if_splits option.splits)

lemma heap_ok_free:
  assumes ok: "heap_ok L live h" and live: "(p, n) \<in> set live"
  shows "\<exists>h'. vPortFree L p h = Some h' \<and> heap_ok L (remove1 (p, n) live) h' \<and> live_kept (remove1 (p, n) live) h h'"
proof -
  have L: "layout_ok L" using ok by (simp add: heap_ok_def)
  obtain gs where wf: "heap_wf L gs h" "holds live gs" using ok live by (auto simp: heap_ok_def)
  obtain a s where a: "(a, s, True) \<in> set gs" "p = a + 8" using wf(2) live by (fastforce simp: holds_def)
  obtain A B where gs: "gs = A @ (a, s, True) # B" using split_list [OF a(1)] by blast
  obtain h' gs' where r: "vPortFree L (a + 8) h = Some h'" "heap_wf L gs' h'" "filter block_used gs' = filter block_used (A @ B)"
      "heap_writes L gs' h h'"
    using free_wf [OF L wf(1) [unfolded gs]] by blast
  have t: "tiles (heap_start L) gs (heap_end L)" using wf(1) by (simp add: heap_wf_def)
  note ar = tiles_around [OF t [unfolded gs]]
  have in': "(b, r, True) \<in> set (A @ B) \<longleftrightarrow> (b, r, True) \<in> set gs \<and> b \<noteq> a" for b r
    using ar(3) ar(7) [of b r True] ar(8) [of b r True] tiles_same_block [OF t a(1), of r True] by (auto simp: gs)
  have dl: "distinct (map fst live)" using wf(2) by (simp add: holds_def)
  have other: "(q, k) \<in> set (remove1 (p, n) live) \<longleftrightarrow> (q, k) \<in> set live \<and> q \<noteq> p" for q k
  proof -
    have "k = n" if "(p, k) \<in> set live" using eq_key_imp_eq_value [OF dl live that] by simp
    moreover have "distinct live" using dl by (simp add: distinct_map)
    ultimately show ?thesis by (auto simp: set_remove1_eq)
  qed
  have "distinct (map fst (remove1 (p, n) live))" using dl by (simp add: distinct_map distinct_remove1 inj_on_def set_remove1_eq)
  moreover have "\<exists>b r. (b, r, True) \<in> set (A @ B) \<and> q = b + 8 \<and> unat k + 8 \<le> r" if "(q, k) \<in> set live" "q \<noteq> p" for q k
    using that wf(2) a(2) unfolding holds_def in' by fastforce
  moreover have "\<exists>k. (b + 8, k) \<in> set (remove1 (p, n) live)" if "(b, r, True) \<in> set (A @ B)" for b r
    using that wf(2) a(2) unfolding holds_def in' other by fastforce
  ultimately have hl: "holds (remove1 (p, n) live) (A @ B)" unfolding holds_def using other by fast
  then have hl': "holds (remove1 (p, n) live) gs'" using holds_used [OF r(3)] by simp
  then have "heap_ok L (remove1 (p, n) live) h'" using L r(2) by (auto simp: heap_ok_def)
  moreover have "live_kept (remove1 (p, n) live) h h'"
    by (rule heap_writes_live [OF r(4)]) (use hl' in \<open>simp add: holds_def\<close>)
  ultimately show ?thesis using r(1) a(2) by blast
qed

lemma heap_ok_app:
  assumes ok: "heap_ok L live h" and m: "\<And>a. m a \<noteq> hmem h a \<Longrightarrow> app_may_write L live a"
  shows "heap_ok L live (h\<lparr>hmem := m\<rparr>)"
proof (cases "pxEnd h = 0 \<and> live = []")
  case True
  then show ?thesis using ok by (simp add: heap_ok_def)
next
  case False
  then obtain gs where L: "layout_ok L" and wf: "heap_wf L gs h" "holds live gs" using ok by (auto simp: heap_ok_def)
  have t: "tiles (heap_start L) gs (heap_end L)" using wf(1) by (simp add: heap_wf_def)
  note lb = layout_bounds [OF L]
  have kept: "m a = hmem h a" if "a = xStart L \<or> a = heap_end L \<or> (\<exists>s u. (a, s, u) \<in> set gs)" for a
  proof (rule ccontr)
    assume "m a \<noteq> hmem h a"
    from m [OF this] show False unfolding app_may_write_def
    proof (elim disjE bexE)
      fix x assume x: "x \<in> set live" "case x of (p, n) \<Rightarrow> p < a + 8 \<and> a < p + unat n"
      obtain p n where "(p, n) \<in> set live" "p < a + 8" "a < p + unat n" using x by (cases x) auto
      moreover from this(1) obtain b r where b: "(b, r, True) \<in> set gs" "p = b + 8" "unat n + 8 \<le> r" using wf(2) by (fastforce simp: holds_def)
      ultimately have ab: "b < a" "a < b + r" by auto
      have bb: "heap_start L \<le> b" "b + r \<le> heap_end L" using tiles_block [OF t b(1)] by simp_all
      from that show False
      proof (elim disjE exE)
        fix s u assume "(a, s, u) \<in> set gs"
        then obtain A B where gs: "gs = A @ (a, s, u) # B" using split_list by fast
        note ar = tiles_around [OF t [unfolded gs]]
        have "(b, r, True) \<in> set A \<or> (b, r, True) \<in> set B" using b(1) ab(1) unfolding gs by auto
        then show False using ar(7) [of b r True] ar(8) [of b r True] ab by auto
      qed (use ab bb L lb in \<open>auto simp: layout_ok_def\<close>)
    next
      assume "(a + 8 \<le> ucHeap L \<or> ucHeap L + unat configTOTAL_HEAP_SIZE \<le> a) \<and> (a + 8 \<le> xStart L \<or> xStart L + 8 \<le> a)"
      moreover have "heap_start L \<le> a" if "(a, s, u) \<in> set gs" for s u using tiles_block [OF t that] by simp
      moreover have "a < heap_end L" if "(a, s, u) \<in> set gs" for s u using tiles_block [OF t that] by simp
      ultimately show False using that L lb by (fastforce simp: layout_ok_def)
    qed
  qed
  have "chain m (xStart L # frees gs @ [heap_end L]) = chain (hmem h) (xStart L # frees gs @ [heap_end L])"
  proof (rule chain_cong, rule ballI)
    fix p assume "p \<in> set (butlast (xStart L # frees gs @ [heap_end L]))"
    then have "p = xStart L \<or> p \<in> set (frees gs)" by (auto simp: butlast_append)
    then have "m p = hmem h p" by (intro kept) (auto simp: frees_block)
    then show "pxNextFreeBlock (m p) = pxNextFreeBlock (hmem h p)" by simp
  qed
  moreover have "\<forall>g\<in>set gs. header_ok m g"
  proof
    fix g assume g: "g \<in> set gs"
    then have "m (fst g) = hmem h (fst g)" by (intro kept) (metis prod.collapse)
    then show "header_ok m g" using wf(1) g header_ok_cong [of m g "hmem h"] by (simp add: heap_wf_def)
  qed
  ultimately have "heap_wf L gs (h\<lparr>hmem := m\<rparr>)" using wf(1) kept [of "xStart L"] kept [of "heap_end L"] by (simp add: heap_wf_def)
  then show ?thesis using L wf(2) by (auto simp: heap_ok_def)
qed

theorem heap_runs_ok:
  assumes "heap_runs L h0 live h" and "layout_ok L" and "pxEnd h0 = 0"
  shows "heap_ok L live h"
  using assms(1)
proof induction
  case start
  then show ?case using assms by (simp add: heap_ok_def)
next
  case (malloc live h n p h')
  then show ?case using heap_ok_malloc [OF malloc.IH, of n] by auto
next
  case (free live h p n h')
  then show ?case using heap_ok_free [OF free.IH free.hyps(2)] by auto
next
  case (app live h m)
  then show ?case using heap_ok_app by blast
qed

section \<open>Allocating several objects\<close>

text \<open>
  What a client sees of an allocator that keeps track of the live blocks: it always answers, and a block it returns is a new one. The
  client allocates a list of objects and stops at the first failure.
\<close>

locale allocator =
  fixes malloc :: "u32 \<Rightarrow> 'h \<Rightarrow> (nat \<times> 'h) option" and ok :: "(nat \<times> u32) list \<Rightarrow> 'h \<Rightarrow> bool"
  assumes malloc_ok: "ok live h \<Longrightarrow> \<exists>p h'. malloc n h = Some (p, h') \<and> ok (if p = 0 then live else (p, n) # live) h'"
    and ok_distinct: "ok live h \<Longrightarrow> distinct (map fst live) \<and> 0 \<notin> fst ` set live"
begin

fun malloc_all :: "u32 list \<Rightarrow> 'h \<Rightarrow> (nat list \<times> 'h) option" where
  "malloc_all [] h = Some ([], h)"
| "malloc_all (n # ns) h =
     (case malloc n h of
        None \<Rightarrow> None
      | Some (p, h1) \<Rightarrow> if p = 0 then Some ([], h1) else map_option (\<lambda>(ps, h2). (p # ps, h2)) (malloc_all ns h1))"

lemma malloc_all_ok:
  "ok live h \<Longrightarrow> \<exists>ps h'. malloc_all ns h = Some (ps, h') \<and> length ps \<le> length ns \<and> ok (rev (zip ps ns) @ live) h'"
proof (induction ns arbitrary: live h)
  case (Cons n ns)
  obtain p h1 where p: "malloc n h = Some (p, h1)" "ok (if p = 0 then live else (p, n) # live) h1" using malloc_ok [OF Cons.prems] by blast
  show ?case
  proof (cases "p = 0")
    case False
    then obtain ps h' where "malloc_all ns h1 = Some (ps, h')" "length ps \<le> length ns" "ok (rev (zip ps ns) @ (p, n) # live) h'"
      using Cons.IH [of "(p, n) # live" h1] p(2) by auto
    then show ?thesis using p(1) False by (intro exI [of _ "p # ps"] exI [of _ h']) simp
  qed (use p in simp)
qed simp

lemma malloc_all_distinct:
  assumes "ok live h" and "malloc_all ns h = Some (ps, h')"
  shows "distinct ps \<and> 0 \<notin> set ps \<and> set ps \<inter> fst ` set live = {} \<and> ok (rev (zip ps ns) @ live) h'"
proof -
  from malloc_all_ok [OF assms(1), of ns] assms(2) have l: "length ps \<le> length ns" and ok: "ok (rev (zip ps ns) @ live) h'" by auto
  have fst: "map fst (zip ps ns) = ps" using l by (simp add: map_fst_zip_take)
  then have s: "fst ` set (zip ps ns) = set ps" by (metis list.set_map)
  from ok_distinct [OF ok] have "distinct (map fst (rev (zip ps ns)) @ map fst live)" "0 \<notin> fst ` set (rev (zip ps ns) @ live)" by simp_all
  then show ?thesis using ok fst s by (simp add: rev_map [symmetric] image_Un)
qed

end

interpretation kernel_heap: allocator "pvPortMalloc L" "heap_ok L" for L
proof
  fix live h n
  assume ok: "heap_ok L live h"
  then show "\<exists>p h'. pvPortMalloc L n h = Some (p, h') \<and> heap_ok L (if p = 0 then live else (p, n) # live) h'"
    using heap_ok_malloc [OF ok, of n] by blast
  show "distinct (map fst live) \<and> 0 \<notin> fst ` set live"
  proof (cases "live = []")
    case False
    then obtain gs where "layout_ok L" "heap_wf L gs h" "holds live gs" using ok by (auto simp: heap_ok_def)
    then show ?thesis using holds_place(1) [of L gs h live 0] by (auto simp: holds_def)
  qed simp
qed

section \<open>The statistics\<close>

lemma stats_loop_spec:
  assumes "chain m (fs @ [e])" and "e \<notin> set fs"
  shows "\<exists>big small. stats_loop m e (hd (fs @ [e])) (c, mx, mn) = Some (c + word_of_nat (length fs), big, small) \<and>
    mx \<le> big \<and> (\<forall>f\<in>set fs. xBlockSize (m f) \<le> big) \<and> (big = mx \<or> (\<exists>f\<in>set fs. xBlockSize (m f) = big)) \<and>
    small \<le> mn \<and> (\<forall>f\<in>set fs. small \<le> xBlockSize (m f)) \<and> (small = mn \<or> (\<exists>f\<in>set fs. xBlockSize (m f) = small))"
  using assms
proof (induction fs arbitrary: c mx mn)
  case Nil
  then show ?case by (subst stats_loop.simps) simp
next
  case (Cons f fs)
  let ?s = "xBlockSize (m f)" and ?mx = "if xBlockSize (m f) > mx then xBlockSize (m f) else mx"
    and ?mn = "if xBlockSize (m f) < mn then xBlockSize (m f) else mn"
  have nx: "pxNextFreeBlock (m f) = hd (fs @ [e])" and ch: "chain m (fs @ [e])"
    using Cons.prems(1) by (cases fs; simp)+
  obtain big small where IH: "stats_loop m e (hd (fs @ [e])) (c + 1, ?mx, ?mn) = Some (c + 1 + word_of_nat (length fs), big, small)"
      "?mx \<le> big" "\<forall>f\<in>set fs. xBlockSize (m f) \<le> big" "big = ?mx \<or> (\<exists>f\<in>set fs. xBlockSize (m f) = big)"
      "small \<le> ?mn" "\<forall>f\<in>set fs. small \<le> xBlockSize (m f)" "small = ?mn \<or> (\<exists>f\<in>set fs. xBlockSize (m f) = small)"
    using Cons.IH [OF ch, of "c + 1" ?mx ?mn] Cons.prems(2) by auto
  have "stats_loop m e (hd ((f # fs) @ [e])) (c, mx, mn) = Some (c + word_of_nat (length (f # fs)), big, small)"
    using Cons.prems(2) nx IH(1) by (subst stats_loop.simps) (simp add: Let_def add.assoc)
  moreover have "mx \<le> ?mx" "?s \<le> ?mx" "?mn \<le> mn" "?mn \<le> ?s" by auto
  then have "mx \<le> big" "?s \<le> big" "small \<le> mn" "small \<le> ?s" using IH(2,5) by (metis order_trans)+
  moreover have "?mx = mx \<or> ?mx = ?s" by simp
  then have "big = mx \<or> ?s = big \<or> (\<exists>f\<in>set fs. xBlockSize (m f) = big)" using IH(4) by metis
  moreover have "?mn = mn \<or> ?mn = ?s" by simp
  then have "small = mn \<or> ?s = small \<or> (\<exists>f\<in>set fs. xBlockSize (m f) = small)" using IH(7) by metis
  ultimately show ?case using IH(3,6) by (intro exI [of _ big] exI [of _ small]) simp
qed


lemma no_fit_iff: "no_fit k gs \<longleftrightarrow> (\<forall>a s. (a, s, False) \<in> set gs \<longrightarrow> s < k)"
proof
  assume r: "\<forall>a s. (a, s, False) \<in> set gs \<longrightarrow> s < k"
  have "u \<or> s < k" if "(a, s, u) \<in> set gs" for a s u using r that by (cases u) auto
  then show "no_fit k gs" by (auto simp: no_fit_def)
qed (auto simp: no_fit_def)

lemma free_block_sizes:
  assumes "layout_ok L" "heap_wf L gs h"
  shows "no_fit k gs \<longleftrightarrow> (\<forall>f\<in>set (frees gs). unat (xBlockSize (hmem h f)) < k)"
proof -
  have sz: "unat (xBlockSize (hmem h a)) = s" if "(a, s, False) \<in> set gs" for a s
    using that assms(2) heap_addresses(1) [OF assms that] by (intro header_free_size) (auto simp: heap_wf_def)
  have "no_fit k gs \<longleftrightarrow> (\<forall>a s. (a, s, False) \<in> set gs \<longrightarrow> s < k)" by (rule no_fit_iff)
  also have "\<dots> \<longleftrightarrow> (\<forall>f\<in>set (frees gs). unat (xBlockSize (hmem h f)) < k)"
    using sz by (simp add: Ball_def frees_block) metis
  finally show ?thesis .
qed

lemma heap_stats_wf:
  assumes L: "layout_ok L" and wf: "heap_wf L gs h"
  shows "\<exists>st. vPortGetHeapStats L h = Some st \<and> xNumberOfFreeBlocks st = word_of_nat (length (frees gs)) \<and>
    (0 < k \<longrightarrow> (no_fit k gs \<longleftrightarrow> unat (xSizeOfLargestFreeBlockInBytes st) < k)) \<and> xAvailableHeapSpaceInBytes st = word_of_nat (free_size gs)"
proof -
  let ?m = "hmem h" and ?e = "heap_end L"
  have ch: "chain ?m (xStart L # frees gs @ [?e])" and e: "pxEnd h = ?e" using wf by (simp_all add: heap_wf_def)
  then have ch': "chain ?m (frees gs @ [?e])" and first: "pxNextFreeBlock (?m (xStart L)) = hd (frees gs @ [?e])"
    by (cases "frees gs"; simp)+
  have t: "tiles (heap_start L) gs ?e" using wf by (simp add: heap_wf_def)
  have d: "?e \<notin> set (frees gs)" using frees_sorted [OF t] by auto
  have nz: "hd (frees gs @ [?e]) \<noteq> 0"
  proof (cases "frees gs")
    case (Cons f fs)
    then obtain s where "(f, s, False) \<in> set gs" using frees_block [of f gs] by auto
    then show ?thesis using heap_addresses(1) [OF L wf, of f s False] Cons by simp
  qed (use heap_addresses(3) [OF L wf] in simp)
  obtain big small where s: "stats_loop ?m ?e (hd (frees gs @ [?e])) (0, 0, 0xFFFFFFFF) = Some (0 + word_of_nat (length (frees gs)), big, small)"
      "\<forall>f\<in>set (frees gs). xBlockSize (?m f) \<le> big" "big = 0 \<or> (\<exists>f\<in>set (frees gs). xBlockSize (?m f) = big)"
    using stats_loop_spec [OF ch' d, of 0 0 "0xFFFFFFFF"] by blast
  have "no_fit k gs \<longleftrightarrow> unat big < k" if "0 < k"
    unfolding free_block_sizes [OF L wf] using s(2,3) that by (auto simp: word_le_nat_alt intro: le_less_trans)
  moreover have "xFreeBytesRemaining h = word_of_nat (free_size gs)" using wf by (metis heap_wf_def unat_word_of_nat_self)
  ultimately show ?thesis using s(1) nz e first by (auto simp: vPortGetHeapStats_def Let_def)
qed

section \<open>Properties\<close>

text \<open>
  Claim C9: memory of the heap is handed out once. In every state that any sequence of allocations, releases of live pointers and writes of
  the program to its own memory reaches, from the first use on: the live pointers are different, aligned, inside the array, and their
  blocks, of at least the sizes asked for, do not overlap; every further allocation returns, and every live pointer can be released (no
  assertion fails and no loop runs for ever), and neither writes into a block that stays live.
\<close>

theorem heap_blocks_safe:
  assumes "layout_ok L" and "pxEnd h0 = 0" and "heap_runs L h0 live h"
  shows "distinct (map fst live) \<and>
    (\<forall>(p, n)\<in>set live. aligned p \<and> ucHeap L \<le> p \<and> p + unat n \<le> ucHeap L + unat configTOTAL_HEAP_SIZE) \<and>
    (\<forall>(p, n)\<in>set live. \<forall>(q, k)\<in>set live. p \<noteq> q \<longrightarrow> p + unat n \<le> q \<or> q + unat k \<le> p) \<and>
    (\<forall>n. \<exists>p h'. pvPortMalloc L n h = Some (p, h') \<and> live_kept live h h') \<and>
    (\<forall>(p, n)\<in>set live. \<exists>h'. vPortFree L p h = Some h' \<and> live_kept (remove1 (p, n) live) h h')"
proof (intro conjI)
  have ok: "heap_ok L live h" by (rule heap_runs_ok [OF assms(3,1,2)])
  show "distinct (map fst live)" using kernel_heap.ok_distinct [OF ok] by simp
  show "\<forall>n. \<exists>p h'. pvPortMalloc L n h = Some (p, h') \<and> live_kept live h h'" using heap_ok_malloc [OF ok] by blast
  show "\<forall>(p, n)\<in>set live. \<exists>h'. vPortFree L p h = Some h' \<and> live_kept (remove1 (p, n) live) h h'" using heap_ok_free [OF ok] by blast
  have wf: "\<exists>gs. heap_wf L gs h \<and> holds live gs" if "live \<noteq> []" using ok that by (auto simp: heap_ok_def)
  show "\<forall>(p, n)\<in>set live. aligned p \<and> ucHeap L \<le> p \<and> p + unat n \<le> ucHeap L + unat configTOTAL_HEAP_SIZE"
  proof clarify
    fix p n assume l: "(p, n) \<in> set live"
    then obtain gs where "heap_wf L gs h" "holds live gs" using wf by (metis length_pos_if_in_set length_greater_0_conv)
    from holds_place [OF assms(1) this l] show "aligned p \<and> ucHeap L \<le> p \<and> p + unat n \<le> ucHeap L + unat configTOTAL_HEAP_SIZE" by simp
  qed
  show "\<forall>(p, n)\<in>set live. \<forall>(q, k)\<in>set live. p \<noteq> q \<longrightarrow> p + unat n \<le> q \<or> q + unat k \<le> p"
  proof clarify
    fix p n q k assume l: "(p, n) \<in> set live" "(q, k) \<in> set live" "p \<noteq> q" "\<not> q + unat k \<le> p"
    then obtain gs where "heap_wf L gs h" "holds live gs" using wf by (metis length_pos_if_in_set length_greater_0_conv)
    from holds_disjoint [OF this l(1-3)] l(4) show "p + unat n \<le> q" by simp
  qed
qed

text \<open>The array at the start of the memory, and an uninitialised heap in it.\<close>

definition sample_layout :: heap_layout where
  "sample_layout = \<lparr>ucHeap = 0x24000004, xStart = 0x20000100\<rparr>"

definition sample_heap :: heap4 where
  "sample_heap = \<lparr>hmem = (\<lambda>_. \<lparr>pxNextFreeBlock = 0, xBlockSize = 0\<rparr>), pxEnd = 0, xFreeBytesRemaining = 0,
     xMinimumEverFreeBytesRemaining = 0, xNumberOfSuccessfulAllocations = 0, xNumberOfSuccessfulFrees = 0\<rparr>"

lemma sample_layout_ok: "layout_ok sample_layout" "pxEnd sample_heap = 0"
  by (simp_all add: layout_ok_def sample_layout_def sample_heap_def)

theorem heap_blocks_safe_witness:
  "\<exists>p h1 q h2. pvPortMalloc sample_layout 100 sample_heap = Some (p, h1) \<and> pvPortMalloc sample_layout 20 h1 = Some (q, h2) \<and>
    live_kept (if p = 0 then [] else [(p, 100)]) h1 h2"
proof -
  obtain p h1 where p: "pvPortMalloc sample_layout 100 sample_heap = Some (p, h1)"
    using heap_blocks_safe [OF sample_layout_ok heap_runs.start] by blast
  have "heap_runs sample_layout sample_heap (if p = 0 then [] else [(p, 100)]) h1" by (rule heap_runs.malloc [OF heap_runs.start p])
  from heap_blocks_safe [OF sample_layout_ok this] show ?thesis using p by blast
qed

text \<open>
  The statistics predict the allocator. In every reachable state of an initialised heap the statistics function returns, reports
  the bytes that are free in all, and an allocation returns \<open>NULL\<close> exactly if the size is 0 or the largest free block it reports is
  smaller than the block that the request needs, which is the size with eight bytes for the link, rounded up to a multiple of eight.
\<close>

theorem heap_stats_predict:
  assumes "layout_ok L" and "pxEnd h0 = 0" and "heap_runs L h0 live h" and "pxEnd h \<noteq> 0"
  shows "\<exists>st. vPortGetHeapStats L h = Some st \<and> xAvailableHeapSpaceInBytes st = xPortGetFreeHeapSize h \<and>
    (\<forall>n. (\<exists>h'. pvPortMalloc L n h = Some (0, h')) \<longleftrightarrow>
       n = 0 \<or> unat (xSizeOfLargestFreeBlockInBytes st) < (unat n + 8 + 7) div 8 * 8)"
proof -
  have ok: "heap_ok L live h" by (rule heap_runs_ok [OF assms(3,1,2)])
  then obtain gs where wf: "heap_wf L gs h" using assms(4) by (auto simp: heap_ok_def)
  obtain st where st: "vPortGetHeapStats L h = Some st" "xAvailableHeapSpaceInBytes st = word_of_nat (free_size gs)"
    using heap_stats_wf [OF assms(1) wf, of 0] by blast
  have big: "no_fit k gs \<longleftrightarrow> unat (xSizeOfLargestFreeBlockInBytes st) < k" if "0 < k" for k
    using heap_stats_wf [OF assms(1) wf, of k] st(1) that by auto
  have null: "(\<exists>h'. pvPortMalloc L n h = Some (0, h')) \<longleftrightarrow> n = 0 \<or> no_fit (block_need (unat n)) gs" for n
  proof -
    have "\<not> (n = 0 \<or> no_fit (block_need (unat n)) gs)" if "n \<noteq> 0" "first_fit (block_need (unat n)) A x s B gs" for A x s B
      using that by (auto simp: first_fit_def no_fit_def)
    then show ?thesis using malloc_wf [OF assms(1) wf refl, of n] by auto
  qed
  have need: "(unat n + 8 + 7) div 8 * 8 = block_need (unat n)" for n by (simp add: block_need_def)
  have "0 < block_need (unat n)" for n using block_need_bounds(1) [of "unat n"] by linarith
  then have "\<forall>n. (\<exists>h'. pvPortMalloc L n h = Some (0, h')) \<longleftrightarrow>
      n = 0 \<or> unat (xSizeOfLargestFreeBlockInBytes st) < (unat n + 8 + 7) div 8 * 8"
    unfolding need null using big by blast
  moreover have "xFreeBytesRemaining h = word_of_nat (free_size gs)" using wf by (metis heap_wf_def unat_word_of_nat_self)
  ultimately show ?thesis using st unfolding xPortGetFreeHeapSize_def by metis
qed

theorem heap_stats_predict_witness:
  "\<exists>h st. heap_runs sample_layout sample_heap [] h \<and> vPortGetHeapStats sample_layout h = Some st \<and>
    (\<exists>h'. pvPortMalloc sample_layout 0 h = Some (0, h'))"
proof -
  let ?h = "prvHeapInit sample_layout sample_heap"
  have wf: "heap_wf sample_layout [(heap_start sample_layout, heap_end sample_layout - heap_start sample_layout, False)] ?h"
    by (rule prvHeapInit_wf [OF sample_layout_ok(1)])
  have "pvPortMalloc sample_layout 0 sample_heap = Some (0, ?h)"
    using malloc_wf [OF sample_layout_ok(1) wf refl, of 0] malloc_uninitialised [OF sample_layout_ok, of 0] by auto
  from heap_runs.malloc [OF heap_runs.start this] have run: "heap_runs sample_layout sample_heap [] ?h" by simp
  have "pxEnd ?h \<noteq> 0" using wf heap_addresses(3) [OF sample_layout_ok(1) wf] by (simp add: heap_wf_def)
  from heap_stats_predict [OF sample_layout_ok run this] run show ?thesis by blast
qed

text \<open>
  Claim C23: nothing is lost by using the heap. When everything that was allocated has been released, in whatever order, the free blocks have grown
  together again: every allocation has then the same result as on the heap before its first use, and as many bytes are free as after its initialisation.
\<close>

theorem heap_no_leak:
  assumes "layout_ok L" and "pxEnd h0 = 0" and "heap_runs L h0 [] h" and "pxEnd h \<noteq> 0"
  shows "xPortGetFreeHeapSize h = xPortGetFreeHeapSize (prvHeapInit L h0) \<and>
    (\<exists>p h' h0'. pvPortMalloc L n h = Some (p, h') \<and> pvPortMalloc L n h0 = Some (p, h0'))"
proof -
  let ?all = "[(heap_start L, heap_end L - heap_start L, False)]"
  have "heap_ok L [] h" by (rule heap_runs_ok [OF assms(3,1,2)])
  then obtain gs where wf: "heap_wf L gs h" and hl: "holds [] gs" using assms(4) by (auto simp: heap_ok_def)
  have free: "\<not> u" if "(a, s, u) \<in> set gs" for a s u using hl that by (cases u) (auto simp: holds_def)
  have t: "tiles (heap_start L) gs (heap_end L)" and co: "coalesced gs" using wf by (simp_all add: heap_wf_def)
  have "gs = ?all"
  proof (cases gs rule: remdups_adj.cases)
    case 1
    then show ?thesis using t layout_bounds [OF assms(1)] by simp
  next
    case (2 g)
    then show ?thesis using t free by (cases g) auto
  next
    case (3 g g' gs')
    then show ?thesis using co free [of "fst g" "fst (snd g)" "snd (snd g)"] free [of "fst g'" "fst (snd g')" "snd (snd g')"]
      by (simp add: coalesced_def)
  qed
  then have wf1: "heap_wf L ?all h" and wf2: "heap_wf L ?all (prvHeapInit L h0)" using wf prvHeapInit_wf [OF assms(1)] by simp_all
  have ff: "first_fit k A x s B ?all \<longleftrightarrow> A = [] \<and> B = [] \<and> x = heap_start L \<and> s = heap_end L - heap_start L \<and> k \<le> s" for k A x s B
    by (auto simp: first_fit_def Cons_eq_append_conv)
  have "xFreeBytesRemaining h = xFreeBytesRemaining (prvHeapInit L h0)"
    using wf1 wf2 by (simp add: heap_wf_def word_unat_eq_iff)
  moreover have "\<exists>p h' h0'. pvPortMalloc L n h = Some (p, h') \<and> pvPortMalloc L n (prvHeapInit L h0) = Some (p, h0')"
  proof (cases "n = 0 \<or> no_fit (block_need (unat n)) ?all")
    case True
    then have "\<not> (n \<noteq> 0 \<and> first_fit (block_need (unat n)) A x s B ?all)" for A x s B by (auto simp: ff no_fit_def)
    then show ?thesis using malloc_wf [OF assms(1) wf1 refl, of n] malloc_wf [OF assms(1) wf2 refl, of n] by blast
  next
    case False
    then show ?thesis using malloc_wf [OF assms(1) wf1 refl, of n] malloc_wf [OF assms(1) wf2 refl, of n] unfolding ff by auto
  qed
  ultimately show ?thesis using malloc_uninitialised [OF assms(1,2)] by (simp add: xPortGetFreeHeapSize_def)
qed

theorem heap_no_leak_witness:
  "\<exists>p h1 h2. pvPortMalloc sample_layout 100 sample_heap = Some (p, h1) \<and> vPortFree sample_layout p h1 = Some h2 \<and>
    xPortGetFreeHeapSize h2 = xPortGetFreeHeapSize (prvHeapInit sample_layout sample_heap)"
proof -
  note L = sample_layout_ok
  obtain p h1 where p: "pvPortMalloc sample_layout 100 sample_heap = Some (p, h1)"
      "heap_ok sample_layout (if p = 0 then [] else [(p, 100)]) h1"
    using heap_ok_malloc [of sample_layout "[]" sample_heap 100] L by (auto simp: heap_ok_def)
  note run1 = heap_runs.malloc [OF heap_runs.start p(1)]
  obtain h2 where h2: "vPortFree sample_layout p h1 = Some h2" "heap_runs sample_layout sample_heap [] h2"
  proof (cases "p = 0")
    case True
    then show ?thesis using that [of h1] run1 by (simp add: vPortFree_def)
  next
    case False
    then obtain h2 where "vPortFree sample_layout p h1 = Some h2" using heap_ok_free [OF p(2), of p 100] by auto
    then show ?thesis using that [of h2] heap_runs.free [OF run1, of p 100 h2] False by simp
  qed
  have "pxEnd h1 = heap_end sample_layout" using malloc_initialises [OF _ p(1), of "[]"] L by (simp add: heap_ok_def)
  then have "pxEnd h2 \<noteq> 0" using vPortFree_end [OF h2(1)] layout_bounds [OF L(1)] by simp
  from heap_no_leak [OF L h2(2) this, of 0] p(1) h2(1) show ?thesis by blast
qed

end
