(* ===== verification/CliTask.thy ===== *)
theory CliTask
  imports CliCommands ConsoleUsart HeapAlloc
begin

text \<open>
  The command line task of \<^verbatim>\<open>src/Lib/cli/cli.c\<close>: the four commands of the firmware, their registration, and the task that
  collects characters from the console's receive ring into lines of at most 49 characters and passes them to the interpreter, whose
  answers go through \<open>printf\<close> to the console's transmit ring. The theory composes the interpreter with the
  console driver: the commands and the console together meet the contract of the interpreter's application, so the
  task answers every line and never leaves its buffers, whatever characters arrive.

  What the kernel reports (the tick count, the free heap, the list of tasks) is part of the state and may change at
  any time. A reset ends the run of the program: afterwards nothing changes any more.
\<close>

section \<open>Texts\<close>

text \<open>String literals of the source; bytes outside the ASCII range are the UTF-8 encodings of its Chinese texts.\<close>

definition help_info :: string where
  "help_info =
     CR_LF @ ''info:'' @ CR_LF @ '' '' @
     [CHR 0xE6, CHR 0x98, CHR 0xBE, CHR 0xE7, CHR 0xA4, CHR 0xBA, CHR 0xE7, CHR 0xB3, CHR 0xBB, CHR 0xE7, CHR 0xBB, CHR 0x9F, CHR 0xE4, CHR 0xBF, CHR 0xA1, CHR 0xE6, CHR 0x81, CHR 0xAF] @
     CR_LF"

definition help_memory :: string where
  "help_memory =
     CR_LF @ ''memory:'' @ CR_LF @ '' '' @
     [CHR 0xE6, CHR 0x98, CHR 0xBE, CHR 0xE7, CHR 0xA4, CHR 0xBA, CHR 0xE5, CHR 0x86, CHR 0x85, CHR 0xE5, CHR 0xAD, CHR 0x98, CHR 0xE4, CHR 0xBD, CHR 0xBF, CHR 0xE7, CHR 0x94, CHR 0xA8, CHR 0xE6, CHR 0x83, CHR 0x85, CHR 0xE5, CHR 0x86, CHR 0xB5] @
     CR_LF"

definition help_tasks :: string where
  "help_tasks =
     CR_LF @ ''tasks:'' @ CR_LF @ '' '' @
     [CHR 0xE6, CHR 0x98, CHR 0xBE, CHR 0xE7, CHR 0xA4, CHR 0xBA, CHR 0xE4, CHR 0xBB, CHR 0xBB, CHR 0xE5, CHR 0x8A, CHR 0xA1, CHR 0xE7, CHR 0x8A, CHR 0xB6, CHR 0xE6, CHR 0x80, CHR 0x81, CHR 0xE4, CHR 0xBF, CHR 0xA1, CHR 0xE6, CHR 0x81, CHR 0xAF] @
     CR_LF"

definition help_reset :: string where
  "help_reset =
     CR_LF @ ''reset:'' @ CR_LF @ '' '' @
     [CHR 0xE6, CHR 0x89, CHR 0xA7, CHR 0xE8, CHR 0xA1, CHR 0x8C, CHR 0xE8, CHR 0xBD, CHR 0xAF, CHR 0xE4, CHR 0xBB, CHR 0xB6, CHR 0xE5, CHR 0xA4, CHR 0x8D, CHR 0xE4, CHR 0xBD, CHR 0x8D] @
     CR_LF"

definition txt_info_1 :: string where
  "txt_info_1 =
     [CHR 0xE7, CHR 0xB3, CHR 0xBB, CHR 0xE7, CHR 0xBB, CHR 0x9F, CHR 0xE4, CHR 0xBF, CHR 0xA1, CHR 0xE6, CHR 0x81, CHR 0xAF] @
     '':'' @ CR_LF @ ''  FreeRTOS'' @ [CHR 0xE7, CHR 0x89, CHR 0x88, CHR 0xE6, CHR 0x9C, CHR 0xAC] @ '': ''"

definition txt_info_2 :: string where
  "txt_info_2 =
     CR_LF @ ''  '' @
     [CHR 0xE7, CHR 0xB3, CHR 0xBB, CHR 0xE7, CHR 0xBB, CHR 0x9F, CHR 0xE8, CHR 0xBF, CHR 0x90, CHR 0xE8, CHR 0xA1, CHR 0x8C, CHR 0xE6, CHR 0x97, CHR 0xB6, CHR 0xE9, CHR 0x97, CHR 0xB4] @
     '': ''"

definition txt_info_3 :: string where
  "txt_info_3 =
     '' ms'' @ CR_LF @ ''  CPU'' @ [CHR 0xE9, CHR 0xA2, CHR 0x91, CHR 0xE7, CHR 0x8E, CHR 0x87] @ '': 600 MHz'' @
     CR_LF @ CR_LF"

definition txt_memory_1 :: string where
  "txt_memory_1 =
     [CHR 0xE5, CHR 0x86, CHR 0x85, CHR 0xE5, CHR 0xAD, CHR 0x98, CHR 0xE4, CHR 0xBD, CHR 0xBF, CHR 0xE7, CHR 0x94, CHR 0xA8, CHR 0xE6, CHR 0x83, CHR 0x85, CHR 0xE5, CHR 0x86, CHR 0xB5] @
     '':'' @ CR_LF @ ''  '' @
     [CHR 0xE5, CHR 0xBD, CHR 0x93, CHR 0xE5, CHR 0x89, CHR 0x8D, CHR 0xE5, CHR 0x8F, CHR 0xAF, CHR 0xE7, CHR 0x94, CHR 0xA8, CHR 0xE5, CHR 0xA0, CHR 0x86, CHR 0xE5, CHR 0x86, CHR 0x85, CHR 0xE5, CHR 0xAD, CHR 0x98] @
     '': ''"

definition txt_memory_2 :: string where
  "txt_memory_2 =
     '' '' @ [CHR 0xE5, CHR 0xAD, CHR 0x97, CHR 0xE8, CHR 0x8A, CHR 0x82] @ CR_LF @ ''  '' @
     [CHR 0xE5, CHR 0x8E, CHR 0x86, CHR 0xE5, CHR 0x8F, CHR 0xB2, CHR 0xE6, CHR 0x9C, CHR 0x80, CHR 0xE5, CHR 0xB0, CHR 0x8F, CHR 0xE5, CHR 0x8F, CHR 0xAF, CHR 0xE7, CHR 0x94, CHR 0xA8, CHR 0xE5, CHR 0xA0, CHR 0x86, CHR 0xE5, CHR 0x86, CHR 0x85, CHR 0xE5, CHR 0xAD, CHR 0x98] @
     '': ''"

definition txt_memory_3 :: string where
  "txt_memory_3 =
     '' '' @ [CHR 0xE5, CHR 0xAD, CHR 0x97, CHR 0xE8, CHR 0x8A, CHR 0x82] @ CR_LF @ ''  '' @
     [CHR 0xE5, CHR 0xB7, CHR 0xB2, CHR 0xE4, CHR 0xBD, CHR 0xBF, CHR 0xE7, CHR 0x94, CHR 0xA8, CHR 0xE5, CHR 0xA0, CHR 0x86, CHR 0xE5, CHR 0x86, CHR 0x85, CHR 0xE5, CHR 0xAD, CHR 0x98] @
     '': ''"

definition txt_memory_4 :: string where
  "txt_memory_4 =
     '' '' @ [CHR 0xE5, CHR 0xAD, CHR 0x97, CHR 0xE8, CHR 0x8A, CHR 0x82] @ CR_LF @ CR_LF"

definition txt_tasks_error :: string where
  "txt_tasks_error =
     [CHR 0xE9, CHR 0x94, CHR 0x99, CHR 0xE8, CHR 0xAF, CHR 0xAF] @ '': '' @
     [CHR 0xE6, CHR 0x94, CHR 0xAF, CHR 0xE6, CHR 0x8C, CHR 0x81, CHR 0xE6, CHR 0x89, CHR 0x93, CHR 0xE5, CHR 0x8D, CHR 0xB0, CHR 0xE7, CHR 0x9A, CHR 0x84, CHR 0xE4, CHR 0xBB, CHR 0xBB, CHR 0xE5, CHR 0x8A, CHR 0xA1, CHR 0xE6, CHR 0x80, CHR 0xBB, CHR 0xE6, CHR 0x95, CHR 0xB0, CHR 0xE5, CHR 0xA4, CHR 0xAA, CHR 0xE5, CHR 0xB0, CHR 0x91, CHR 0xE6, CHR 0x88, CHR 0x96, CHR 0xE8, CHR 0x8E, CHR 0xB7, CHR 0xE5, CHR 0x8F, CHR 0x96, CHR 0xE4, CHR 0xBB, CHR 0xBB, CHR 0xE5, CHR 0x8A, CHR 0xA1, CHR 0xE7, CHR 0x8A, CHR 0xB6, CHR 0xE6, CHR 0x80, CHR 0x81, CHR 0xE5, CHR 0xA4, CHR 0xB1, CHR 0xE8, CHR 0xB4, CHR 0xA5] @
     CR_LF @ ''  '' @
     [CHR 0xE6, CHR 0x95, CHR 0xB0, CHR 0xE7, CHR 0xBB, CHR 0x84, CHR 0xE5, CHR 0xA4, CHR 0xA7, CHR 0xE5, CHR 0xB0, CHR 0x8F] @
     '': 10'' @ CR_LF @ ''  '' @
     [CHR 0xE5, CHR 0xAE, CHR 0x9E, CHR 0xE9, CHR 0x99, CHR 0x85, CHR 0xE4, CHR 0xBB, CHR 0xBB, CHR 0xE5, CHR 0x8A, CHR 0xA1, CHR 0xE6, CHR 0x95, CHR 0xB0, CHR 0xE5, CHR 0x8F, CHR 0xAF, CHR 0xE8, CHR 0x83, CHR 0xBD, CHR 0xE8, CHR 0xB6, CHR 0x85, CHR 0xE8, CHR 0xBF, CHR 0x87, CHR 0xE6, CHR 0x95, CHR 0xB0, CHR 0xE7, CHR 0xBB, CHR 0x84, CHR 0xE5, CHR 0xA4, CHR 0xA7, CHR 0xE5, CHR 0xB0, CHR 0x8F] @
     CR_LF @ ''  '' @
     [CHR 0xE6, CHR 0x88, CHR 0x96, CHR 0xE7, CHR 0xB3, CHR 0xBB, CHR 0xE7, CHR 0xBB, CHR 0x9F, CHR 0xE6, CHR 0x9C, CHR 0xAA, CHR 0xE5, CHR 0x90, CHR 0xAF, CHR 0xE7, CHR 0x94, CHR 0xA8, CHR 0xE4, CHR 0xBB, CHR 0xBB, CHR 0xE5, CHR 0x8A, CHR 0xA1, CHR 0xE7, CHR 0xBB, CHR 0x9F, CHR 0xE8, CHR 0xAE, CHR 0xA1, CHR 0xE5, CHR 0x8A, CHR 0x9F, CHR 0xE8, CHR 0x83, CHR 0xBD] @
     ''(configUSE_TRACE_FACILITY)'' @ CR_LF @ CR_LF"

definition txt_reset :: string where
  "txt_reset =
     [CHR 0xE6, CHR 0x89, CHR 0xA7, CHR 0xE8, CHR 0xA1, CHR 0x8C, CHR 0xE8, CHR 0xBD, CHR 0xAF, CHR 0xE4, CHR 0xBB, CHR 0xB6, CHR 0xE5, CHR 0xA4, CHR 0x8D, CHR 0xE4, CHR 0xBD, CHR 0x8D] @
     ''...'' @ CR_LF"

section \<open>Formatting\<close>

fun dec :: "nat \<Rightarrow> string" where
  "dec n = (if n < 10 then [char_of (48 + n)] else dec (n div 10) @ [char_of (48 + n mod 10)])"

declare dec.simps [simp del]

text \<open>
  \<open>snprintf\<close> at offset \<open>off\<close> of a buffer with \<open>n\<close> bytes allowed: it writes at most \<open>n - 1\<close> characters and a terminator.
\<close>

definition snprintf :: "char list \<Rightarrow> nat \<Rightarrow> nat \<Rightarrow> string \<Rightarrow> char list option" where
  "snprintf buf off n s =
     (if off + n \<le> length buf then Some (if n = 0 then buf else store_at off (take (n - 1) s @ [NUL]) buf) else None)"

section \<open>State\<close>

datatype cli_fn = prvInfoCommand_fn | prvMemoryCommand_fn | prvTaskStatsCommand_fn | prvResetCommand_fn

datatype eTaskState = eRunning | eReady | eBlocked | eSuspended | eDeleted | eInvalid

record TaskStatus_t =
  pcTaskName :: string
  eCurrentState :: eTaskState
  uxCurrentPriority :: u32
  usStackHighWaterMark :: u32

record cli_world =
  cw_console :: console_state
  xTaskGetTickCount :: u32
  cw_heap :: heap4
  cw_tasks :: "TaskStatus_t list"
  cw_reset :: bool

definition configCOMMAND_INT_MAX_OUTPUT_SIZE :: nat where "configCOMMAND_INT_MAX_OUTPUT_SIZE = 400"
definition portTICK_PERIOD_MS :: u32 where "portTICK_PERIOD_MS = word_of_nat (1000 div configTICK_RATE_HZ)"
definition tskKERNEL_VERSION_NUMBER :: string where "tskKERNEL_VERSION_NUMBER = ''V11.1.0''"

text \<open>The kernel fills the array only if all tasks fit.\<close>

definition uxTaskGetSystemState :: "nat \<Rightarrow> cli_world \<Rightarrow> TaskStatus_t list" where
  "uxTaskGetSystemState uxArraySize w = (if length (cw_tasks w) \<le> uxArraySize then cw_tasks w else [])"

text \<open>\<open>printf\<close> with the format \<open>%s\<close>, through the redirected \<open>fputc\<close>; after a reset nothing runs.\<close>

definition cli_printf :: "string \<Rightarrow> cli_world \<Rightarrow> cli_world option" where
  "cli_printf s w =
     (if cw_reset w then Some w
      else map_option (\<lambda>c. w\<lparr>cw_console := c\<rparr>) (fputs_loop (bytes_of_string s) (cw_console w)))"

section \<open>Commands\<close>

definition prvInfoCommand :: "char list \<Rightarrow> nat \<Rightarrow> cli_world \<Rightarrow> (bool \<times> char list \<times> cli_world) option" where
  "prvInfoCommand pcWriteBuffer xWriteBufferLen w =
     map_option (\<lambda>buf. (False, buf, w))
       (snprintf pcWriteBuffer 0 xWriteBufferLen
          (txt_info_1 @ tskKERNEL_VERSION_NUMBER @ txt_info_2 @
           dec (unat (xTaskGetTickCount w * portTICK_PERIOD_MS)) @ txt_info_3))"

definition prvMemoryCommand :: "char list \<Rightarrow> nat \<Rightarrow> cli_world \<Rightarrow> (bool \<times> char list \<times> cli_world) option" where
  "prvMemoryCommand pcWriteBuffer xWriteBufferLen w =
     map_option (\<lambda>buf. (False, buf, w))
       (snprintf pcWriteBuffer 0 xWriteBufferLen
          (txt_memory_1 @ dec (unat (xPortGetFreeHeapSize (cw_heap w))) @ txt_memory_2 @
           dec (unat (xPortGetMinimumEverFreeHeapSize (cw_heap w))) @ txt_memory_3 @
           dec (unat (configTOTAL_HEAP_SIZE - xPortGetFreeHeapSize (cw_heap w))) @ txt_memory_4))"

definition task_status_char :: "eTaskState \<Rightarrow> char" where
  "task_status_char s =
     (case s of eRunning \<Rightarrow> CHR ''R'' | eReady \<Rightarrow> CHR ''r'' | eBlocked \<Rightarrow> CHR ''B'' | eSuspended \<Rightarrow> CHR ''S''
      | eDeleted \<Rightarrow> CHR ''D'' | _ \<Rightarrow> CHR 0x3F)"

definition task_line :: "nat \<Rightarrow> TaskStatus_t \<Rightarrow> string" where
  "task_line x t =
     ''Task:'' @ dec (x + 1) @ CR_LF @ ''name:'' @ pcTaskName t @ CR_LF @ ''p:'' @ dec (unat (uxCurrentPriority t)) @ CR_LF @
     ''s:'' @ dec (unat (usStackHighWaterMark t)) @ CR_LF @ ''st:'' @ [task_status_char (eCurrentState t)] @ CR_LF @ CR_LF"

text \<open>The loop over the tasks: \<open>pos\<close> is the offset of \<open>pcPtr\<close> in the buffer.\<close>

fun task_loop :: "TaskStatus_t list \<Rightarrow> nat \<Rightarrow> nat \<Rightarrow> nat \<Rightarrow> char list \<Rightarrow> char list option" where
  "task_loop [] x pos xRemaining buf = Some buf"
| "task_loop (t # ts) x pos xRemaining buf =
     (if xRemaining > 50
      then (case snprintf buf pos xRemaining (task_line x t) of
              None \<Rightarrow> None
            | Some buf' \<Rightarrow>
                (let iLen = length (task_line x t)
                 in if iLen \<ge> xRemaining then Some buf'
                    else task_loop ts (x + 1) (pos + iLen) (xRemaining - iLen) buf'))
      else Some buf)"

definition prvTaskStatsCommand :: "char list \<Rightarrow> nat \<Rightarrow> cli_world \<Rightarrow> (bool \<times> char list \<times> cli_world) option" where
  "prvTaskStatsCommand pcWriteBuffer xWriteBufferLen w =
     (let xTaskArray = uxTaskGetSystemState 10 w
      in map_option (\<lambda>buf. (False, buf, w))
           (if length xTaskArray = 0 then snprintf pcWriteBuffer 0 xWriteBufferLen txt_tasks_error
            else task_loop xTaskArray 0 0 xWriteBufferLen pcWriteBuffer))"

definition prvResetCommand :: "char list \<Rightarrow> nat \<Rightarrow> cli_world \<Rightarrow> (bool \<times> char list \<times> cli_world) option" where
  "prvResetCommand pcWriteBuffer xWriteBufferLen w =
     (case snprintf pcWriteBuffer 0 xWriteBufferLen txt_reset of
        None \<Rightarrow> None
      | Some buf \<Rightarrow>
          (case cstring buf of
             None \<Rightarrow> None
           | Some s \<Rightarrow> map_option (\<lambda>w'. (False, buf, w'\<lparr>cw_reset := True\<rparr>)) (cli_printf s w)))"

definition cli_call :: "(cli_fn, cli_world) app_call" where
  "cli_call f buf len pcCommandString w =
     (case f of
        prvInfoCommand_fn \<Rightarrow> prvInfoCommand buf len w
      | prvMemoryCommand_fn \<Rightarrow> prvMemoryCommand buf len w
      | prvTaskStatsCommand_fn \<Rightarrow> prvTaskStatsCommand buf len w
      | prvResetCommand_fn \<Rightarrow> prvResetCommand buf len w)"

definition xInfoCommand :: "cli_fn CLI_Command_Definition_t" where
  "xInfoCommand = \<lparr>pcCommand = ''info'', pcHelpString = help_info,
     pxCommandInterpreter = App_fn prvInfoCommand_fn, cExpectedNumberOfParameters = 0\<rparr>"

definition xMemoryCommand :: "cli_fn CLI_Command_Definition_t" where
  "xMemoryCommand = \<lparr>pcCommand = ''memory'', pcHelpString = help_memory,
     pxCommandInterpreter = App_fn prvMemoryCommand_fn, cExpectedNumberOfParameters = 0\<rparr>"

definition xTaskStatsCommand :: "cli_fn CLI_Command_Definition_t" where
  "xTaskStatsCommand = \<lparr>pcCommand = ''tasks'', pcHelpString = help_tasks,
     pxCommandInterpreter = App_fn prvTaskStatsCommand_fn, cExpectedNumberOfParameters = 0\<rparr>"

definition xResetCommand :: "cli_fn CLI_Command_Definition_t" where
  "xResetCommand = \<lparr>pcCommand = ''reset'', pcHelpString = help_reset,
     pxCommandInterpreter = App_fn prvResetCommand_fn, cExpectedNumberOfParameters = 0\<rparr>"

text \<open>The four addresses are what the allocator returns for the four items.\<close>

definition CLI_Init :: "nat \<Rightarrow> nat \<Rightarrow> nat \<Rightarrow> nat \<Rightarrow> cli_fn cli_state \<Rightarrow> cli_fn cli_state option" where
  "CLI_Init a1 a2 a3 a4 st =
     register_all [(xInfoCommand, a1), (xMemoryCommand, a2), (xTaskStatsCommand, a3), (xResetCommand, a4)] st"

section \<open>The task\<close>

record cli_task =
  ct_cli :: "cli_fn cli_state"
  pcOutputString :: "char list"
  cInputString :: "char list"
  cInputIndex :: nat

definition cli_task0 :: "cli_fn cli_state \<Rightarrow> cli_task" where
  "cli_task0 st =
     \<lparr>ct_cli = st, pcOutputString = replicate configCOMMAND_INT_MAX_OUTPUT_SIZE NUL,
      cInputString = replicate 50 NUL, cInputIndex = 0\<rparr>"

text \<open>The handling of one received character, and one turn of the loop.\<close>

definition cli_character :: "char \<Rightarrow> cli_task \<times> cli_world \<Rightarrow> (cli_task \<times> cli_world) option" where
  "cli_character cRxedChar tw =
     (let (t, w) = tw
      in if cRxedChar = CHR 0x0D \<or> cRxedChar = CHR 0x0A
         then (if cInputIndex t > 0
               then (if cInputIndex t < length (cInputString t)
                     then (let input = (cInputString t)[cInputIndex t := NUL]
                           in case cstring input of
                                None \<Rightarrow> None
                              | Some s \<Rightarrow>
                                  (case cli_execute cli_call cli_printf s configCOMMAND_INT_MAX_OUTPUT_SIZE
                                          (pcOutputString t, ct_cli t, w) of
                                     None \<Rightarrow> None
                                   | Some (buf, st, w') \<Rightarrow>
                                       Some (t\<lparr>ct_cli := st, pcOutputString := buf, cInputIndex := 0,
                                                cInputString := replicate 50 NUL\<rparr>, w')))
                     else None)
               else Some (t, w))
         else if cInputIndex t < 50 - 1
         then (if cInputIndex t < length (cInputString t)
               then Some (t\<lparr>cInputString := (cInputString t)[cInputIndex t := cRxedChar], cInputIndex := cInputIndex t + 1\<rparr>, w)
               else None)
         else Some (t, w))"

definition CLI_Task :: "cli_task \<times> cli_world \<Rightarrow> (cli_task \<times> cli_world) option" where
  "CLI_Task tw =
     (let (t, w) = tw
      in if cw_reset w then Some (t, w)
         else (case console_read 1 (cw_console w) of
                 None \<Rightarrow> None
               | Some (bs, c) \<Rightarrow>
                   (case bs of
                      [b] \<Rightarrow> cli_character (char_of (unat b)) (t, w\<lparr>cw_console := c\<rparr>)
                    | _ \<Rightarrow> Some (t, w\<lparr>cw_console := c\<rparr>))))"

section \<open>The commands meet the contract of the interpreter\<close>

lemma snprintf_ok:
  assumes "off + n \<le> length buf" and "0 < n"
  shows "\<exists>b. snprintf buf off n s = Some b \<and> length b = length buf \<and> NUL \<in> set b"
proof -
  have "off + length (take (n - 1) s @ [NUL]) \<le> length buf" using assms by simp
  then have "length (store_at off (take (n - 1) s @ [NUL]) buf) = length buf" by (rule length_store_at)
  then show ?thesis using assms by (simp add: snprintf_def store_at_def)
qed

lemma task_loop_ok:
  assumes "pos + r \<le> length buf" and "NUL \<in> set buf \<or> ts \<noteq> [] \<and> r > 50"
  shows "\<exists>b. task_loop ts x pos r buf = Some b \<and> length b = length buf \<and> NUL \<in> set b"
  using assms
proof (induction ts arbitrary: x pos r buf)
  case (Cons t ts)
  show ?case
  proof (cases "r > 50")
    case True
    then obtain b where b: "snprintf buf pos r (task_line x t) = Some b" "length b = length buf" "NUL \<in> set b"
      using snprintf_ok [OF Cons.prems(1)] by auto
    show ?thesis
    proof (cases "length (task_line x t) \<ge> r")
      case False
      then show ?thesis
        using Cons.IH [of "pos + length (task_line x t)" "r - length (task_line x t)" b "x + 1"] Cons.prems(1) b True
        by (simp add: Let_def)
    qed (use b True in \<open>simp add: Let_def\<close>)
  qed (use Cons.prems in simp)
qed simp

definition app_ok :: "cli_world \<Rightarrow> bool" where
  "app_ok w \<longleftrightarrow> console_ok (cw_console w)"

lemma cli_printf_ok:
  assumes "app_ok w"
  shows "\<exists>w'. cli_printf s w = Some w' \<and> app_ok w'"
proof (cases "cw_reset w")
  case False
  obtain c where "fputs_loop (bytes_of_string s) (cw_console w) = Some c" "console_ok c"
    using console_step_ok [of "cw_console w" "Print (bytes_of_string s)"] assms by (auto simp: app_ok_def)
  then show ?thesis using False by (simp add: cli_printf_def app_ok_def)
qed (use assms in \<open>simp add: cli_printf_def\<close>)

lemma cli_call_ok:
  assumes "app_ok w" and "length buf = len" and "50 < len"
  shows "\<exists>r b w'. cli_call f buf len line w = Some (r, b, w') \<and> length b = len \<and> NUL \<in> set b \<and> app_ok w'"
proof -
  have s: "\<exists>b. snprintf buf 0 len s = Some b \<and> length b = len \<and> NUL \<in> set b" for s
    using snprintf_ok [of 0 len buf s] assms by auto
  have fixed: "\<exists>r b w'. map_option (\<lambda>b. (False, b, w)) (snprintf buf 0 len s) = Some (r, b, w') \<and> length b = len \<and> NUL \<in> set b \<and> app_ok w'" for s
    using s [of s] assms(1) by auto
  show ?thesis
  proof (cases f)
    case prvInfoCommand_fn
    then show ?thesis using fixed by (simp add: cli_call_def prvInfoCommand_def)
  next
    case prvMemoryCommand_fn
    then show ?thesis using fixed by (simp add: cli_call_def prvMemoryCommand_def)
  next
    case prvTaskStatsCommand_fn
    then show ?thesis
      using s [of txt_tasks_error] assms task_loop_ok [of 0 len buf "uxTaskGetSystemState 10 w" 0]
      by (auto simp: cli_call_def prvTaskStatsCommand_def Let_def)
  next
    case prvResetCommand_fn
    obtain b where b: "snprintf buf 0 len txt_reset = Some b" "length b = len" "NUL \<in> set b" using s by blast
    obtain w' where "cli_printf (takeWhile (\<lambda>c. c \<noteq> NUL) b) w = Some w'" "app_ok w'" using cli_printf_ok [OF assms(1)] by blast
    then show ?thesis using b prvResetCommand_fn by (auto simp: cli_call_def prvResetCommand_def cstring_def app_ok_def)
  qed
qed

lemma cli_call_once: "one_shot cli_call"
  by (auto simp: one_shot_def cli_call_def prvInfoCommand_def prvMemoryCommand_def prvTaskStatsCommand_def
      prvResetCommand_def Let_def split: cli_fn.splits option.splits)

interpretation cli: cli_app cli_call cli_printf app_ok configCOMMAND_INT_MAX_OUTPUT_SIZE
proof (unfold_locales, goal_cases)
  case 1
  then show ?case by (rule cli_call_once)
next
  case (2 a buf f line)
  then show ?case using cli_call_ok [of a buf] by (simp add: configCOMMAND_INT_MAX_OUTPUT_SIZE_def)
next
  case (3 a s)
  then show ?case by (rule cli_printf_ok)
next
  case 4
  then show ?case by (simp add: configCOMMAND_INT_MAX_OUTPUT_SIZE_def)
qed

section \<open>The task\<close>

definition firmware_commands :: "cli_fn CLI_Command_Definition_t list" where
  "firmware_commands = [xHelpCommand, xInfoCommand, xMemoryCommand, xTaskStatsCommand, xResetCommand]"

lemma firmware_commands_ok: "\<forall>c\<in>set firmware_commands. command_ok configCOMMAND_INT_MAX_OUTPUT_SIZE c"
  by (simp add: firmware_commands_def command_ok_def configCOMMAND_INT_MAX_OUTPUT_SIZE_def xHelpCommand_def xInfoCommand_def
      xMemoryCommand_def xTaskStatsCommand_def xResetCommand_def help_info_def help_memory_def help_tasks_def help_reset_def CR_LF_def)

definition task_ok :: "cli_task \<Rightarrow> bool" where
  "task_ok t \<longleftrightarrow> length (cInputString t) = 50 \<and> cInputIndex t \<le> 49 \<and>
     drop (cInputIndex t) (cInputString t) = replicate (50 - cInputIndex t) NUL \<and>
     length (pcOutputString t) = configCOMMAND_INT_MAX_OUTPUT_SIZE \<and> cli_idle (ct_cli t) \<and>
     (\<exists>as. cli_list (ct_cli t) as firmware_commands)"

lemma CLI_Init_ok:
  assumes "distinct [xRegisteredCommands, a1, a2, a3, a4]"
  shows "\<exists>st. CLI_Init a1 a2 a3 a4 cli_state0 = Some st \<and> task_ok (cli_task0 st)"
  using register_all_list [OF cli_list_state0 cli_idle_state0, of "[a1, a2, a3, a4]"
      "[xInfoCommand, xMemoryCommand, xTaskStatsCommand, xResetCommand]"] assms
  by (auto simp: CLI_Init_def task_ok_def cli_task0_def firmware_commands_def)

text \<open>Storing a character keeps the invariant.\<close>

lemma task_ok_store:
  assumes "task_ok t" and "cInputIndex t < 49"
  shows "task_ok (t\<lparr>cInputString := (cInputString t)[cInputIndex t := ch], cInputIndex := cInputIndex t + 1\<rparr>)"
proof -
  have "drop (cInputIndex t + 1) ((cInputString t)[cInputIndex t := ch]) = drop 1 (drop (cInputIndex t) (cInputString t))" by simp
  also have "\<dots> = replicate (50 - (cInputIndex t + 1)) NUL" using assms by (simp add: task_ok_def)
  finally show ?thesis using assms by (simp add: task_ok_def)
qed

text \<open>A line end runs the collected characters up to the first zero byte and empties the buffer.\<close>

definition input_line :: "cli_task \<Rightarrow> string" where
  "input_line t = takeWhile (\<lambda>c. c \<noteq> NUL) (take (cInputIndex t) (cInputString t))"

lemma input_cstring:
  assumes "task_ok t"
  shows "cstring ((cInputString t)[cInputIndex t := NUL]) = Some (input_line t)"
proof -
  let ?a = "take (cInputIndex t) (cInputString t)" and ?i = "cInputIndex t"
  have s: "(cInputString t)[?i := NUL] = ?a @ NUL # drop (?i + 1) (cInputString t)"
    using assms by (simp add: upd_conv_take_nth_drop task_ok_def)
  have "takeWhile (\<lambda>c. c \<noteq> NUL) (?a @ NUL # r) = takeWhile (\<lambda>c. c \<noteq> NUL) ?a" for r
    unfolding takeWhile_append by (auto simp: takeWhile_eq_all_conv [THEN iffD2])
  then show ?thesis by (simp add: s cstring_def input_line_def)
qed

lemma cli_line_end:
  assumes "task_ok t" and "app_ok w" and "0 < cInputIndex t" and "ch = CHR 0x0D \<or> ch = CHR 0x0A"
  obtains t' w' where "cli_character ch (t, w) = Some (t', w')" and "task_ok t'" and "app_ok w'" and "cInputIndex t' = 0"
    and "cli_answer cli_call cli_printf firmware_commands (input_line t) configCOMMAND_INT_MAX_OUTPUT_SIZE (pcOutputString t) w = Some w'"
proof -
  obtain as where as: "cli_list (ct_cli t) as firmware_commands" using assms(1) by (auto simp: task_ok_def)
  have t: "cli_idle (ct_cli t)" "length (pcOutputString t) = configCOMMAND_INT_MAX_OUTPUT_SIZE" "NUL \<notin> set (input_line t)"
    using assms(1) by (auto simp: task_ok_def input_line_def dest: set_takeWhileD)
  obtain buf w' where e: "cli_execute cli_call cli_printf (input_line t) configCOMMAND_INT_MAX_OUTPUT_SIZE (pcOutputString t, ct_cli t, w) =
        Some (buf, ct_cli t, w')" "length buf = configCOMMAND_INT_MAX_OUTPUT_SIZE" "app_ok w'"
      "cli_answer cli_call cli_printf firmware_commands (input_line t) configCOMMAND_INT_MAX_OUTPUT_SIZE (pcOutputString t) w = Some w'"
    using cli.execute_returns [OF as firmware_commands_ok t(1,3,2) assms(2)] by blast
  let ?t = "t\<lparr>pcOutputString := buf, cInputIndex := 0, cInputString := replicate 50 NUL\<rparr>"
  have "cInputIndex t < length (cInputString t)" using assms(1) by (simp add: task_ok_def)
  then have "cli_character ch (t, w) = Some (?t, w')"
    using assms(3,4) e(1) input_cstring [OF assms(1)] by (simp add: cli_character_def Let_def)
  moreover have "task_ok ?t" using assms(1) e(2) by (auto simp: task_ok_def)
  ultimately show ?thesis using e(3,4) by (intro that [of ?t w']) simp_all
qed

lemma cli_character_ok:
  assumes "task_ok t" and "app_ok w"
  shows "\<exists>t' w'. cli_character ch (t, w) = Some (t', w') \<and> task_ok t' \<and> app_ok w'"
proof (cases "ch = CHR 0x0D \<or> ch = CHR 0x0A")
  case True
  show ?thesis
  proof (cases "cInputIndex t")
    case 0
    then show ?thesis using True assms by (simp add: cli_character_def)
  next
    case (Suc n)
    then show ?thesis using cli_line_end [OF assms _ True] by (metis zero_less_Suc)
  qed
next
  case False
  show ?thesis
  proof (cases "cInputIndex t < 49")
    case True
    then show ?thesis using False assms task_ok_store [OF assms(1) True, of ch] by (simp add: cli_character_def task_ok_def)
  next
    case no: False
    then show ?thesis using False assms by (simp add: cli_character_def)
  qed
qed

lemma CLI_Task_ok:
  assumes "task_ok t" and "app_ok w"
  shows "\<exists>t' w'. CLI_Task (t, w) = Some (t', w') \<and> task_ok t' \<and> app_ok w'"
proof (cases "cw_reset w")
  case False
  have side: "rx_side_ok (cw_console w)" using assms(2) by (simp add: app_ok_def console_ok_def)
  obtain c where c: "console_read 1 (cw_console w) = Some (take 1 (rx_waiting (cw_console w)), c)" "rx_side_ok c" "tx_same (cw_console w) c"
    using console_read_ok [OF side, of 1] by auto
  have w: "app_ok (w\<lparr>cw_console := c\<rparr>)"
    using assms(2) c(2,3) tx_same_ok [OF c(3)] by (simp add: app_ok_def console_ok_def tx_same_def)
  show ?thesis
  proof (cases "rx_waiting (cw_console w)")
    case Nil
    then show ?thesis using False c(1) assms(1) w by (simp add: CLI_Task_def)
  next
    case (Cons b bs)
    then show ?thesis using False c(1) cli_character_ok [OF assms(1) w, of "char_of (unat b)"] by (simp add: CLI_Task_def)
  qed
qed (use assms in \<open>simp add: CLI_Task_def\<close>)

section \<open>Runs\<close>

text \<open>
  The task beside everything else that happens to the console and the kernel: between two turns the
  driver tasks, the interrupts, the line and other tasks' output change the console, and the values the kernel reports change.
\<close>

inductive cli_reaches :: "cli_task \<times> cli_world \<Rightarrow> cli_task \<times> cli_world \<Rightarrow> bool" for s where
  start: "cli_reaches s s"
| turn: "cli_reaches s tw \<Longrightarrow> CLI_Task tw = Some tw' \<Longrightarrow> cli_reaches s tw'"
| other: "cli_reaches s (t, w) \<Longrightarrow> console_step e (cw_console w) = Some c \<Longrightarrow> cli_reaches s (t, w\<lparr>cw_console := c\<rparr>)"
| kernel: "cli_reaches s (t, w) \<Longrightarrow> cw_console w' = cw_console w \<Longrightarrow> cw_reset w' = cw_reset w \<Longrightarrow> cli_reaches s (t, w')"

lemma cli_reaches_ok:
  assumes "cli_reaches s tw" and "task_ok (fst s)" and "app_ok (snd s)"
  shows "task_ok (fst tw) \<and> app_ok (snd tw)"
  using assms
proof induction
  case (turn tw tw')
  then show ?case using CLI_Task_ok [of "fst tw" "snd tw"] by auto
next
  case (other t w e c)
  then show ?case using console_step_ok [of "cw_console w" e] by (auto simp: app_ok_def)
qed (auto simp: app_ok_def)

text \<open>Reading a byte leaves the transmit side alone, and collecting it changes only the input buffer.\<close>

lemma CLI_Task_byte:
  assumes "app_ok w" and "\<not> cw_reset w" and "rx_waiting (cw_console w) = b # bs"
  shows "\<exists>c. CLI_Task (t, w) = cli_character (char_of (unat b)) (t, w\<lparr>cw_console := c\<rparr>) \<and>
    rx_waiting c = bs \<and> tx_same (cw_console w) c \<and> app_ok (w\<lparr>cw_console := c\<rparr>)"
proof -
  have side: "rx_side_ok (cw_console w)" using assms(1) by (simp add: app_ok_def console_ok_def)
  obtain c where c: "console_read 1 (cw_console w) = Some ([b], c)" "rx_side_ok c" "tx_same (cw_console w) c" "rx_waiting c = bs"
    using console_read_ok [OF side, of 1] assms(3) by auto
  moreover have "app_ok (w\<lparr>cw_console := c\<rparr>)"
    using assms(1) c(2,3) tx_same_ok [OF c(3)] by (simp add: app_ok_def console_ok_def tx_same_def)
  ultimately show ?thesis using assms(2) by (auto simp: CLI_Task_def)
qed

fun cli_turns :: "nat \<Rightarrow> cli_task \<times> cli_world \<Rightarrow> (cli_task \<times> cli_world) option" where
  "cli_turns 0 tw = Some tw"
| "cli_turns (Suc n) tw = (case CLI_Task tw of None \<Rightarrow> None | Some tw' \<Rightarrow> cli_turns n tw')"

lemma cli_turns_add: "cli_turns (m + n) tw = Option.bind (cli_turns m tw) (cli_turns n)"
  by (induction m arbitrary: tw) (auto split: option.splits)

definition text_byte :: "u8 \<Rightarrow> bool" where
  "text_byte b \<longleftrightarrow> b \<noteq> 0 \<and> b \<noteq> 10 \<and> b \<noteq> 13"

definition line_of_bytes :: "u8 list \<Rightarrow> string" where
  "line_of_bytes bs = map (\<lambda>b. char_of (unat b)) bs"

lemma char_of_byte_eq: "char_of (unat (b :: u8)) = ch \<longleftrightarrow> unat b = of_char ch"
proof -
  have "of_char (char_of (unat b)) = unat b" using unat_u8_less [of b] by simp
  moreover have "char_of (of_char ch :: nat) = ch" by simp
  ultimately show ?thesis by metis
qed

lemma text_byte_chars:
  assumes "text_byte b"
  shows "char_of (unat b) \<noteq> CHR 0x0D" "char_of (unat b) \<noteq> CHR 0x0A" "char_of (unat b) \<noteq> NUL"
proof -
  have "unat b \<noteq> 13" "unat b \<noteq> 10" "unat b \<noteq> 0"
    using assms by (auto simp: text_byte_def word_unat_eq_iff)
  then show "char_of (unat b) \<noteq> CHR 0x0D" "char_of (unat b) \<noteq> CHR 0x0A" "char_of (unat b) \<noteq> NUL"
    by (simp_all add: char_of_byte_eq)
qed

lemma cli_collects:
  assumes "task_ok t" and "app_ok w" and "\<not> cw_reset w" and "\<forall>b\<in>set bs. text_byte b"
    and "rx_waiting (cw_console w) = bs @ rest"
  shows "\<exists>t' c. cli_turns (length bs) (t, w) = Some (t', w\<lparr>cw_console := c\<rparr>) \<and> task_ok t' \<and> app_ok (w\<lparr>cw_console := c\<rparr>) \<and>
    tx_same (cw_console w) c \<and> rx_waiting c = rest \<and> cInputIndex t' = min 49 (cInputIndex t + length bs) \<and>
    take (cInputIndex t') (cInputString t') = take 49 (take (cInputIndex t) (cInputString t) @ line_of_bytes bs) \<and>
    pcOutputString t' = pcOutputString t"
  using assms
proof (induction bs arbitrary: t w)
  case Nil
  then have "cInputIndex t \<le> 49" by (simp add: task_ok_def)
  then show ?case using Nil
    by (intro exI [of _ t] exI [of _ "cw_console w"]) (simp add: tx_same_def line_of_bytes_def)
next
  case (Cons b bs)
  let ?ch = "char_of (unat b) :: char" and ?i = "cInputIndex t"
  obtain c where c: "CLI_Task (t, w) = cli_character ?ch (t, w\<lparr>cw_console := c\<rparr>)" "rx_waiting c = bs @ rest"
      "tx_same (cw_console w) c" "app_ok (w\<lparr>cw_console := c\<rparr>)"
    using CLI_Task_byte [OF Cons.prems(2,3), of b "bs @ rest" t] Cons.prems(5) by auto
  define t1 where "t1 = (if ?i < 49 then t\<lparr>cInputString := (cInputString t)[?i := ?ch], cInputIndex := ?i + 1\<rparr> else t)"
  have nl: "\<not> (?ch = CHR 0x0D \<or> ?ch = CHR 0x0A)" using text_byte_chars [of b] Cons.prems(4) by simp
  have i: "?i \<le> 49" "length (cInputString t) = 50" using Cons.prems(1) by (simp_all add: task_ok_def)
  have step: "cli_character ?ch (t, w\<lparr>cw_console := c\<rparr>) = Some (t1, w\<lparr>cw_console := c\<rparr>)"
    using nl i by (auto simp: cli_character_def Let_def t1_def)
  have t1: "task_ok t1" using task_ok_store [OF Cons.prems(1)] Cons.prems(1) by (simp add: t1_def)
  have pre: "take 49 (take (cInputIndex t1) (cInputString t1) @ line_of_bytes bs) =
      take 49 (take ?i (cInputString t) @ line_of_bytes (b # bs))" "cInputIndex t1 = min 49 (?i + 1)"
    using i by (auto simp: t1_def line_of_bytes_def take_Suc_conv_app_nth take_Cons')
  obtain t' c' where "cli_turns (length bs) (t1, w\<lparr>cw_console := c\<rparr>) = Some (t', w\<lparr>cw_console := c'\<rparr>)" "task_ok t'"
      "app_ok (w\<lparr>cw_console := c'\<rparr>)" "tx_same c c'" "rx_waiting c' = rest" "cInputIndex t' = min 49 (cInputIndex t1 + length bs)"
      "take (cInputIndex t') (cInputString t') = take 49 (take (cInputIndex t1) (cInputString t1) @ line_of_bytes bs)"
      "pcOutputString t' = pcOutputString t1"
    using Cons.IH [OF t1 c(4)] Cons.prems(3,4) c(2) by auto
  then show ?case
    using c(1,3) step pre by (intro exI [of _ t'] exI [of _ c']) (auto simp: tx_same_def t1_def)
qed

section \<open>Properties\<close>

text \<open>The system after the initialisation of the console and of the interpreter.\<close>

definition cli_start :: "cli_fn cli_state \<Rightarrow> cli_world \<Rightarrow> cli_task \<times> cli_world" where
  "cli_start st w = (cli_task0 st, w\<lparr>cw_console := console_start, cw_reset := False\<rparr>)"

lemma cli_start_ok:
  assumes "distinct [xRegisteredCommands, a1, a2, a3, a4]" and "CLI_Init a1 a2 a3 a4 cli_state0 = Some st"
  shows "task_ok (fst (cli_start st w))" "app_ok (snd (cli_start st w))"
  using CLI_Init_ok [OF assms(1)] assms(2) console_start_ok by (auto simp: cli_start_def app_ok_def)

text \<open>
  Claim C22: the command line task never faults. When the allocator has returned four different items for the commands, then in every
  state that is reached by turns of the task and arbitrary activity of the console and the kernel in between, whatever bytes arrive on the
  line (zero bytes and over-long lines included), the next turn of the task ends (no dialogue runs for ever), the
  write index stays inside the input array behind which there is always a terminator, and the output array keeps its size.
\<close>

theorem cli_task_safe:
  assumes "distinct [xRegisteredCommands, a1, a2, a3, a4]" and "CLI_Init a1 a2 a3 a4 cli_state0 = Some st"
    and "cli_reaches (cli_start st w0) (t, w)"
  shows "(\<exists>tw. CLI_Task (t, w) = Some tw) \<and> cInputIndex t < length (cInputString t) \<and> last (cInputString t) = NUL \<and>
    length (pcOutputString t) = configCOMMAND_INT_MAX_OUTPUT_SIZE"
proof -
  have ok: "task_ok t" "app_ok w"
    using cli_reaches_ok [OF assms(3) cli_start_ok [OF assms(1,2)]] by simp_all
  have r: "drop (cInputIndex t) (cInputString t) = replicate (50 - cInputIndex t) NUL" "50 - cInputIndex t \<noteq> 0"
    using ok(1) by (simp_all add: task_ok_def)
  have "last (cInputString t) = last (drop (cInputIndex t) (cInputString t))" 
    by (rule last_drop [symmetric]) (use ok(1) in \<open>simp add: task_ok_def\<close>)
  also have "\<dots> = NUL" unfolding r(1) using r(2) by (rule last_replicate)
  finally show ?thesis using CLI_Task_ok [OF ok] ok(1) by (auto simp: task_ok_def)
qed

definition cli_world_sample :: cli_world where
  "cli_world_sample =
     \<lparr>cw_console = console_start, xTaskGetTickCount = 1234, cw_heap = sample_heap,
      cw_tasks = [], cw_reset = False\<rparr>"

theorem cli_task_safe_witness:
  "\<exists>st tw. CLI_Init 1 2 3 4 cli_state0 = Some st \<and> CLI_Task (cli_start st cli_world_sample) = Some tw"
proof -
  have d: "distinct [xRegisteredCommands, 1, 2, 3, 4]" by (simp add: xRegisteredCommands_def)
  obtain st where st: "CLI_Init 1 2 3 4 cli_state0 = Some st" using CLI_Init_ok [OF d] by blast
  obtain t w where tw: "cli_start st cli_world_sample = (t, w)" by fastforce
  then have r: "cli_reaches (cli_start st cli_world_sample) (t, w)" using cli_reaches.start [of "(t, w)"] by simp
  show ?thesis using cli_task_safe [OF d st r] st tw by auto
qed

text \<open>
  Claim C8: a typed line is answered. When the receive ring holds the bytes of a line (none of them a line end or zero) followed by a
  carriage return, and the task is at the beginning of a line, then as many turns of the task as there are bytes consume exactly these bytes
  and run the first 49 characters of the line: the output is the one the list of the firmware's commands prescribes (the command
  of that name, a message for a wrong number of parameters or an unknown command, for \<open>help\<close> the five help texts), and the task is again at
  the beginning of a line.
\<close>

theorem cli_line_answered:
  assumes "task_ok t" and "app_ok w" and "\<not> cw_reset w" and "cInputIndex t = 0"
    and "bs \<noteq> []" and "\<forall>b\<in>set bs. text_byte b" and "rx_waiting (cw_console w) = bs @ 13 # rest"
  shows "\<exists>t' c w'. cli_turns (length bs + 1) (t, w) = Some (t', w') \<and> task_ok t' \<and> cInputIndex t' = 0 \<and>
    tx_same (cw_console w) c \<and> rx_waiting c = rest \<and>
    cli_answer cli_call cli_printf firmware_commands (take 49 (line_of_bytes bs)) configCOMMAND_INT_MAX_OUTPUT_SIZE
      (pcOutputString t) (w\<lparr>cw_console := c\<rparr>) = Some w'"
proof -
  obtain t1 c1 where t1: "cli_turns (length bs) (t, w) = Some (t1, w\<lparr>cw_console := c1\<rparr>)" "task_ok t1" "app_ok (w\<lparr>cw_console := c1\<rparr>)"
      "tx_same (cw_console w) c1" "rx_waiting c1 = 13 # rest" "cInputIndex t1 = min 49 (length bs)"
      "take (cInputIndex t1) (cInputString t1) = take 49 (line_of_bytes bs)" "pcOutputString t1 = pcOutputString t"
    using cli_collects [OF assms(1,2,3,6,7)] assms(4) by auto
  have pos: "0 < cInputIndex t1" using t1(6) assms(5) by simp
  obtain c2 where c2: "CLI_Task (t1, w\<lparr>cw_console := c1\<rparr>) = cli_character (char_of (unat (13 :: u8))) (t1, w\<lparr>cw_console := c2\<rparr>)"
      "rx_waiting c2 = rest" "tx_same c1 c2" "app_ok (w\<lparr>cw_console := c2\<rparr>)"
    using CLI_Task_byte [OF t1(3), of 13 rest t1] assms(3) t1(5) by auto
  have cr: "char_of (unat (13 :: u8)) = CHR 0x0D" unfolding char_of_byte_eq by simp
  obtain t' w' where "cli_character (CHR 0x0D) (t1, w\<lparr>cw_console := c2\<rparr>) = Some (t', w')" "task_ok t'" "cInputIndex t' = 0"
      "cli_answer cli_call cli_printf firmware_commands (input_line t1) configCOMMAND_INT_MAX_OUTPUT_SIZE (pcOutputString t1)
        (w\<lparr>cw_console := c2\<rparr>) = Some w'"
    by (rule cli_line_end [OF t1(2) c2(4) pos, of "CHR 0x0D"]) simp_all
  moreover have "NUL \<notin> set (line_of_bytes bs)" unfolding line_of_bytes_def using text_byte_chars(3) assms(6) by (metis (no_types, lifting) imageE list.set_map)
  then have "input_line t1 = take 49 (line_of_bytes bs)"
    unfolding input_line_def t1(7) by (subst takeWhile_eq_all_conv) (auto dest: in_set_takeD)
  moreover have "cli_turns (length bs + 1) (t, w) = CLI_Task (t1, w\<lparr>cw_console := c1\<rparr>)"
    unfolding cli_turns_add t1(1) by (simp split: option.split)
  ultimately show ?thesis
    using c2 cr t1(4,8) by (intro exI [of _ t'] exI [of _ c2] exI [of _ w']) (auto simp: tx_same_def)
qed

theorem cli_line_answered_witness:
  "\<exists>t w t' w' c. rx_waiting (cw_console w) = [104, 105, 13] \<and> cli_turns 3 (t, w) = Some (t', w') \<and> rx_waiting c = [] \<and>
    cli_printf msg_unknown (w\<lparr>cw_console := c\<rparr>) = Some w'"
proof -
  have d: "distinct [xRegisteredCommands, 1, 2, 3, 4]" by (simp add: xRegisteredCommands_def)
  obtain st where st: "CLI_Init 1 2 3 4 cli_state0 = Some st" "task_ok (cli_task0 st)" using CLI_Init_ok [OF d] by blast
  let ?c = "console_start" and ?rb = "rx_ring_buffer (console console_start)"
  have side: "ring_ready ?rb" "rb_size ?rb = 200" using console_start_ok(1) by (simp_all add: console_ok_def rx_side_ok_def console_sizes)
  have empty: "ring_contents ?rb = []"
    using console_ring_ready [of CONSOLE_RING_BUFFER_RX_SIZE]
    by (simp add: console_start_def console_init_def Let_def console_rx_dma_config_def console_tx_dma_config_def console_sizes)
  obtain rb where rb: "ring_ready rb" "rb_size rb = 200" "ring_contents rb = [104, 105, 13]"
    by (rule ring_write_ready [OF side(1), of 3 "[104, 105, 13]" 0]) (use side empty in simp_all)
  let ?w = "cli_world_sample\<lparr>cw_console := ?c\<lparr>console := (console ?c)\<lparr>rx_ring_buffer := rb\<rparr>\<rparr>\<rparr>"
  have w: "app_ok ?w" "rx_waiting (cw_console ?w) = [104, 105] @ 13 # []" "\<not> cw_reset ?w"
    using console_start_ok(1) rb
    by (simp_all add: app_ok_def console_ok_def rx_side_ok_def tx_side_ok_def rx_waiting_def cli_world_sample_def console_sizes)
  have tb: "\<forall>b\<in>set [104, 105 :: u8]. text_byte b" by (simp add: text_byte_def)
  have l: "cli_lookup firmware_commands (take 49 (line_of_bytes [104, 105])) = None"
    by code_simp
  obtain t' c w' where "cli_turns (length [104, 105 :: u8] + 1) (cli_task0 st, ?w) = Some (t', w')" "rx_waiting c = []"
      "cli_answer cli_call cli_printf firmware_commands (take 49 (line_of_bytes [104, 105])) configCOMMAND_INT_MAX_OUTPUT_SIZE
      (pcOutputString (cli_task0 st)) (?w\<lparr>cw_console := c\<rparr>) = Some w'"
    using cli_line_answered [OF st(2) w(1,3) _ _ tb w(2)] by (auto simp: cli_task0_def)
  then show ?thesis using w(2) l
    by (intro exI [of _ "cli_task0 st"] exI [of _ ?w] exI [of _ t'] exI [of _ w'] exI [of _ c]) (simp add: cli_answer_def numeral_3_eq_3)
qed

end
