(* ===== verification/SystemBoot.thy ===== *)
theory SystemBoot
  imports CliTask
begin

text \<open>
  The command list built on the heap: \<open>FreeRTOS_CLIRegisterCommand\<close> with its call of the allocator, and what is left of the hypotheses
  of the command line task when its items come from there.
\<close>

section \<open>Registration with allocation\<close>

definition sizeof_CLI_Definition_List_Item_t :: u32 where "sizeof_CLI_Definition_List_Item_t = 8"

definition register_from_heap ::
  "heap_layout \<Rightarrow> 'f CLI_Command_Definition_t \<Rightarrow> 'f cli_state \<times> heap4 \<Rightarrow> ('f cli_state \<times> heap4) option" where
  "register_from_heap L pxCommandToRegister sh =
     (let (st, h) = sh
      in case pvPortMalloc L sizeof_CLI_Definition_List_Item_t h of
           None \<Rightarrow> None
         | Some (pxNewListItem, h') \<Rightarrow>
             map_option (\<lambda>st'. (st', h'))
               (FreeRTOS_CLIRegisterCommand pxCommandToRegister (if pxNewListItem = 0 then None else Some pxNewListItem) st))"

fun register_list ::
  "heap_layout \<Rightarrow> 'f CLI_Command_Definition_t list \<Rightarrow> 'f cli_state \<times> heap4 \<Rightarrow> ('f cli_state \<times> heap4) option" where
  "register_list L [] sh = Some sh"
| "register_list L (c # cs) sh = Option.bind (register_from_heap L c sh) (register_list L cs)"

definition CLI_Init_from_heap :: "heap_layout \<Rightarrow> cli_fn cli_state \<times> heap4 \<Rightarrow> (cli_fn cli_state \<times> heap4) option" where
  "CLI_Init_from_heap L sh = register_list L [xInfoCommand, xMemoryCommand, xTaskStatsCommand, xResetCommand] sh"

text \<open>Allocating first and registering afterwards is the same, as the two do not share state.\<close>

lemma register_list_split:
  assumes "kernel_heap.malloc_all L (replicate (length cs) 8) h = Some (ps, h')" and "length ps = length cs"
  shows "register_list L cs (st, h) = map_option (\<lambda>st'. (st', h')) (register_all (zip cs ps) st)"
  using assms
proof (induction cs arbitrary: h ps st)
  case (Cons c cs)
  then obtain p h1 where p: "pvPortMalloc L 8 h = Some (p, h1)" "p \<noteq> 0"
    by (auto split: option.splits if_splits)
  with Cons.prems obtain ps' where ps: "kernel_heap.malloc_all L (replicate (length cs) 8) h1 = Some (ps', h')" "ps = p # ps'"
    by auto
  have "register_from_heap L c (st, h) = map_option (\<lambda>st'. (st', h1)) (prvRegisterCommand c p st)"
    using p by (simp add: register_from_heap_def FreeRTOS_CLIRegisterCommand_def sizeof_CLI_Definition_List_Item_t_def)
  then show ?case using Cons.IH [OF ps(1)] Cons.prems(2) ps(2)
    by (cases "prvRegisterCommand c p st") (simp_all add: FreeRTOS_CLIRegisterCommand_def)
qed simp

section \<open>Enough memory\<close>

text \<open>
  An item needs a block of sixteen bytes. A free block of sixteen bytes more than all items need is enough, because the last item may get a
  block that is too small to be split.
\<close>

lemma malloc_item:
  assumes L: "layout_ok L" and wf: "heap_wf L gs h" and big: "\<not> no_fit (16 * k + 32) gs"
  shows "\<exists>p h' gs'. pvPortMalloc L 8 h = Some (p, h') \<and> p \<noteq> 0 \<and> heap_wf L gs' h' \<and> (0 < k \<longrightarrow> \<not> no_fit (16 * k + 16) gs')"
proof -
  have need: "block_need (unat (8 :: u32)) = 16" by (simp add: block_need_def)
  obtain b t where bt: "(b, t, False) \<in> set gs" "16 * k + 32 \<le> t" using big unfolding no_fit_iff by (meson not_less)
  then have "\<not> no_fit 16 gs" unfolding no_fit_iff by force
  then obtain A x s B h' where r: "first_fit 16 A x s B gs" "pvPortMalloc L 8 h = Some (x + 8, h')" "heap_wf L (A @ split_block x s 16 @ B) h'"
    using malloc_wf [OF L wf refl, of 8] unfolding need by auto
  have "\<not> no_fit (16 * k + 16) (A @ split_block x s 16 @ B)" if "0 < k"
  proof -
    have gs: "gs = A @ (x, s, False) # B" using r(1) by (simp add: first_fit_def)
    have "(b, t, False) \<notin> set A" using r(1) bt(2) by (fastforce simp: first_fit_def)
    then have "(b, t, False) \<in> set B \<or> t = s" using bt(1) gs by auto
    then show ?thesis
    proof
      assume "(b, t, False) \<in> set B"
      then show ?thesis using bt(2) unfolding no_fit_iff by force
    next
      assume "t = s"
      then show ?thesis using bt(2) that by (auto simp: no_fit_def split_block_def)
    qed
  qed
  then show ?thesis using r(2,3) by (intro exI [of _ "x + 8"] exI [of _ h'] exI [of _ "A @ split_block x s 16 @ B"]) simp
qed

lemma malloc_items:
  assumes "layout_ok L" and "heap_wf L gs h" and "\<not> no_fit (16 * k + 16) gs"
  shows "\<exists>ps h'. kernel_heap.malloc_all L (replicate k 8) h = Some (ps, h') \<and> length ps = k"
  using assms(2,3)
proof (induction k arbitrary: gs h)
  case (Suc k)
  obtain p h1 gs1 where p: "pvPortMalloc L 8 h = Some (p, h1)" "p \<noteq> 0" "heap_wf L gs1 h1" "0 < k \<longrightarrow> \<not> no_fit (16 * k + 16) gs1"
    using malloc_item [OF assms(1) Suc.prems(1), of k] Suc.prems(2) by (auto simp: add.commute)
  show ?case
  proof (cases k)
    case 0
    then show ?thesis using p by simp
  next
    case (Suc j)
    then obtain ps h' where "kernel_heap.malloc_all L (replicate k 8) h1 = Some (ps, h')" "length ps = k"
      using Suc.IH [OF p(3)] p(4) by auto
    then show ?thesis using p by auto
  qed
qed simp

section \<open>Properties\<close>

text \<open>
  The command line starts on the heap. In any state of the heap that the program's allocations have led to, if the largest free
  block has at least 80 bytes, the initialisation of the command line gets its four items and registers its commands, and from then on every turn of the task ends, whatever
  arrives on the line.
\<close>

theorem cli_starts_on_heap:
  assumes "layout_ok L" and "pxEnd h0 = 0" and "heap_runs L h0 live h" and "pxEnd h \<noteq> 0"
    and "vPortGetHeapStats L h = Some stats" and "80 \<le> xSizeOfLargestFreeBlockInBytes stats"
  shows "\<exists>st h'. CLI_Init_from_heap L (cli_state0, h) = Some (st, h') \<and>
    (\<forall>w0 t w. cli_reaches (cli_start st w0) (t, w) \<longrightarrow> (\<exists>tw. CLI_Task (t, w) = Some tw))"
proof -
  let ?cs = "[xInfoCommand, xMemoryCommand, xTaskStatsCommand, xResetCommand]"
  have ok: "heap_ok L live h" by (rule heap_runs_ok [OF assms(3,1,2)])
  then obtain gs where wf: "heap_wf L gs h" using assms(4) by (auto simp: heap_ok_def)
  have "80 \<le> unat (xSizeOfLargestFreeBlockInBytes stats)" using assms(6) by (simp add: word_le_nat_alt)
  then have "\<not> no_fit (16 * 4 + 16) gs" using heap_stats_wf [OF assms(1) wf, of 80] assms(5) by auto
  moreover have len: "length ?cs = 4" by simp
  ultimately obtain ps h' where ps: "kernel_heap.malloc_all L (replicate (length ?cs) 8) h = Some (ps, h')" "length ps = length ?cs"
    unfolding len using malloc_items [OF assms(1) wf, of 4] by blast
  have d: "distinct ps" "0 \<notin> set ps" using kernel_heap.malloc_all_distinct [OF ok ps(1)] by simp_all
  obtain a1 a2 a3 a4 where a: "ps = [a1, a2, a3, a4]" using ps(2) len by (auto simp: length_Suc_conv numeral_eq_Suc)
  have d': "distinct [xRegisteredCommands, a1, a2, a3, a4]" using d by (auto simp: a xRegisteredCommands_def)
  obtain st where st: "CLI_Init a1 a2 a3 a4 cli_state0 = Some st" using CLI_Init_ok [OF d'] by blast
  have "CLI_Init_from_heap L (cli_state0, h) = Some (st, h')"
    using register_list_split [OF ps, of cli_state0] st unfolding CLI_Init_from_heap_def CLI_Init_def by (simp add: a)
  moreover have "\<exists>tw. CLI_Task (t, w) = Some tw" if "cli_reaches (cli_start st w0) (t, w)" for w0 t w
    using cli_reaches_ok [OF that cli_start_ok [OF d' st]] CLI_Task_ok [of t w] by auto
  ultimately show ?thesis by blast
qed

theorem cli_starts_on_heap_witness:
  "\<exists>h st h'. pvPortMalloc sample_layout 0 sample_heap = Some (0, h) \<and> CLI_Init_from_heap sample_layout (cli_state0, h) = Some (st, h')"
proof -
  note L = sample_layout_ok
  let ?L = sample_layout and ?h = "prvHeapInit sample_layout sample_heap"
  let ?gs = "[(heap_start ?L, heap_end ?L - heap_start ?L, False)]"
  have wf: "heap_wf ?L ?gs ?h" by (rule prvHeapInit_wf [OF L(1)])
  have m: "pvPortMalloc ?L 0 sample_heap = Some (0, ?h)"
    using malloc_wf [OF L(1) wf refl, of 0] malloc_uninitialised [OF L, of 0] by auto
  have run: "heap_runs ?L sample_heap [] ?h" using heap_runs.malloc [OF heap_runs.start m] by simp
  have e: "pxEnd ?h \<noteq> 0" using wf heap_addresses(3) [OF L(1) wf] by (simp add: heap_wf_def)
  obtain st where st: "vPortGetHeapStats ?L ?h = Some st" "no_fit 80 ?gs \<longleftrightarrow> unat (xSizeOfLargestFreeBlockInBytes st) < 80"
    using heap_stats_wf [OF L(1) wf, of 80] by auto
  have "\<not> no_fit 80 ?gs" using layout_bounds [OF L(1)] by (simp add: no_fit_def)
  then have "80 \<le> xSizeOfLargestFreeBlockInBytes st" using st(2) by (simp add: word_le_nat_alt)
  from cli_starts_on_heap [OF L run e st(1) this] m show ?thesis by blast
qed

end
