(* ===== verification/RingRace.thy ===== *)
theory RingRace
  imports RingBuffer
begin

text \<open>
  A writer and a reader inside the same ring of \<^verbatim>\<open>src/Lib/ring_buffer/ring_buffer.h\<close>. The write
  function takes the write mutex and the read function the read mutex, so a task that reads can be preempted by one that writes, and
  the other way round, at every access to the fields they share. The theory has the two functions in steps of
  two sizes. The larger steps are the computation of the room or of the occupancy and the single turns
  of the copy loops: at this size every interleaving conserves the bytes, so a ring whose steps are protected
  that far would be safe. The smaller steps are the single accesses of the code as it is: at this size bytes are lost.
\<close>

section \<open>Turns\<close>

text \<open>
  The state of the ring with the rest of the block the writer is copying and the number of bytes the reader
  is still to copy, and what went in and out so far.
\<close>

record ring_turns =
  t_ring :: ring_buff_t
  t_writing :: "u8 list"
  t_reading :: nat
  t_in :: "u8 list"
  t_out :: "u8 list"

datatype ring_turn = Write_call "u8 list" | Write_turn | Read_call u16 | Read_turn

definition ring_turn_step :: "ring_turn \<Rightarrow> ring_turns \<Rightarrow> ring_turns" where
  "ring_turn_step ev s =
     (case ev of
        Write_call data \<Rightarrow>
          (if t_writing s = [] \<and> length data < 65536 \<and> \<not> ring_free (t_ring s) < word_of_nat (length data)
           then s\<lparr>t_writing := data\<rparr> else s)
      | Write_turn \<Rightarrow>
          (case t_writing s of
             [] \<Rightarrow> s
           | b # rest \<Rightarrow> s\<lparr>t_ring := ring_push (t_ring s) b, t_writing := rest, t_in := t_in s @ [b]\<rparr>)
      | Read_call len \<Rightarrow>
          (if t_reading s = 0
           then s\<lparr>t_reading := unat (if ring_occupied (t_ring s) < len then ring_occupied (t_ring s) else len)\<rparr> else s)
      | Read_turn \<Rightarrow>
          (if t_reading s = 0 then s
           else s\<lparr>t_ring := ring_pop (t_ring s), t_reading := t_reading s - 1, t_out := t_out s @ [ring_peek (t_ring s)]\<rparr>))"

text \<open>There is room for the rest of the block, and as many bytes as the reader still wants.\<close>

definition turns_ok :: "u8 list \<Rightarrow> ring_turns \<Rightarrow> bool" where
  "turns_ok start s \<longleftrightarrow> ring_wf (t_ring s) \<and> ring_count (t_ring s) + length (t_writing s) \<le> unat (rb_size (t_ring s)) \<and>
     t_reading s \<le> ring_count (t_ring s) \<and> start @ t_in s = t_out s @ ring_contents (t_ring s)"

lemma turns_ok_step:
  assumes "turns_ok start s"
  shows "turns_ok start (ring_turn_step ev s)"
proof -
  have wf: "ring_wf (t_ring s)" and room: "ring_count (t_ring s) + length (t_writing s) \<le> unat (rb_size (t_ring s))"
    and have_bytes: "t_reading s \<le> ring_count (t_ring s)" and c: "start @ t_in s = t_out s @ ring_contents (t_ring s)"
    using assms by (simp_all add: turns_ok_def)
  show ?thesis
  proof (cases ev)
    case (Write_call data)
    have "ring_count (t_ring s) + length data \<le> unat (rb_size (t_ring s))"
      if "length data < 65536" "\<not> ring_free (t_ring s) < word_of_nat (length data)"
    proof -
      have "unat (word_of_nat (length data) :: u16) = length data" using that(1) by (rule unat_u16_of_nat)
      then show ?thesis using that(2) unat_ring_free [OF wf] ring_count_le [OF wf] by (simp add: word_less_nat_alt)
    qed
    then show ?thesis using assms Write_call by (auto simp: ring_turn_step_def turns_ok_def)
  next
    case Write_turn
    show ?thesis
    proof (cases "t_writing s")
      case Nil
      then show ?thesis using assms Write_turn by (simp add: ring_turn_step_def)
    next
      case (Cons b rest)
      then have lt: "ring_count (t_ring s) < unat (rb_size (t_ring s))" using room by simp
      from ring_push_wf [OF wf lt] ring_push_count [OF wf lt] ring_push_contents [OF wf lt] show ?thesis
        using Write_turn Cons room have_bytes c by (simp add: ring_turn_step_def turns_ok_def)
    qed
  next
    case (Read_call len)
    then show ?thesis using assms unat_ring_occupied [OF wf] by (auto simp: ring_turn_step_def turns_ok_def word_less_nat_alt)
  next
    case Read_turn
    show ?thesis
    proof (cases "t_reading s = 0")
      case True
      then show ?thesis using assms Read_turn by (simp add: ring_turn_step_def)
    next
      case False
      then have pos: "0 < ring_count (t_ring s)" using have_bytes by simp
      from ring_pop_wf [OF wf] ring_pop_count [OF wf pos] ring_pop_contents [OF wf pos] show ?thesis
        using Read_turn False room have_bytes c by (simp add: ring_turn_step_def turns_ok_def) linarith
    qed
  qed
qed

lemma turns_ok_run: "turns_ok start s \<Longrightarrow> turns_ok start (fold ring_turn_step evs s)"
  by (induction evs arbitrary: s) (simp_all add: turns_ok_step)

text \<open>The turns are those of the copy loop: a call whose turns follow one another is the loop of the function.\<close>

lemma ring_write_loop_fold:
  assumes "i \<le> len" and "unat len \<le> length data"
  shows "ring_write_loop rb data i len = fold (\<lambda>b rb. ring_push rb b) (drop (unat i) (take (unat len) data)) rb"
  using assms
proof (induction rb data i len rule: ring_write_loop.induct)
  case (1 rb data i len)
  show ?case
  proof (cases "i < len")
    case True
    have i1: "unat (i + 1) = unat i + 1" using True by (rule unat_succ_less)
    have il: "unat i < unat len" using True by (simp add: word_less_nat_alt)
    have d: "drop (unat i) (take (unat len) data) = data ! unat i # drop (unat (i + 1)) (take (unat len) data)"
      using il "1.prems"(2) i1 by (simp add: Cons_nth_drop_Suc [symmetric])
    have "i + 1 \<le> len" using il i1 by (simp add: word_le_nat_alt)
    then show ?thesis using "1.IH" [OF True] "1.prems"(2) True by (simp add: d ring_write_loop.simps [of rb data i len])
  next
    case False
    with "1.prems" show ?thesis by (simp add: ring_write_loop.simps [of rb data i len] word_le_nat_alt word_less_nat_alt)
  qed
qed

lemma write_turns_fold:
  "t_writing s = data \<Longrightarrow> fold ring_turn_step (replicate (length data) Write_turn) s =
     s\<lparr>t_ring := fold (\<lambda>b rb. ring_push rb b) data (t_ring s), t_writing := [], t_in := t_in s @ data\<rparr>"
  by (induction data arbitrary: s) (simp_all add: ring_turn_step_def)

lemma write_turns_loop:
  assumes "t_writing s = data" and "length data < 65536"
  shows "fold ring_turn_step (replicate (length data) Write_turn) s =
    s\<lparr>t_ring := ring_write_loop (t_ring s) data 0 (word_of_nat (length data)), t_writing := [], t_in := t_in s @ data\<rparr>"
  using write_turns_fold [OF assms(1)] ring_write_loop_fold [of 0 "word_of_nat (length data)" data "t_ring s"] unat_u16_of_nat [OF assms(2)] by simp

section \<open>Accesses\<close>

text \<open>
  The program points of the two functions between two accesses to the shared fields, after the mutex has been
  taken; a done call has its result.
\<close>

datatype writer =
    W_flag "u8 list"      \<comment> \<open>about to read \<open>is_full_flag\<close>\<close>
  | W_compare "u8 list"   \<comment> \<open>about to compare \<open>head >= tail\<close>\<close>
  | W_above "u8 list"     \<comment> \<open>about to compute \<open>size - (head - tail)\<close>\<close>
  | W_below "u8 list"     \<comment> \<open>about to compute \<open>tail - head\<close>\<close>
  | W_store nat "u8 list" \<comment> \<open>about to store the next byte, so many done\<close>
  | W_head nat "u8 list"
  | W_test nat "u8 list"
  | W_full nat "u8 list"
  | W_done int

datatype reader =
    R_flag u16
  | R_compare u16
  | R_above u16
  | R_below u16
  | R_copy u16 "u8 list"
  | R_tail u16 "u8 list"
  | R_clear u16 "u8 list"
  | R_done int "u8 list"

definition w_room :: "u8 list \<Rightarrow> u16 \<Rightarrow> writer" where
  "w_room data available = (if available < word_of_nat (length data) then W_done (-1) else W_store 0 data)"

definition w_next :: "nat \<Rightarrow> u8 list \<Rightarrow> writer" where
  "w_next n rest = (if rest = [] then W_done (int n) else W_store n rest)"

fun writer_access :: "ring_buff_t \<times> writer \<Rightarrow> ring_buff_t \<times> writer" where
  "writer_access (rb, W_flag data) = (rb, if is_full_flag rb then w_room data 0 else W_compare data)"
| "writer_access (rb, W_compare data) = (rb, if head rb \<ge> tail rb then W_above data else W_below data)"
| "writer_access (rb, W_above data) = (rb, w_room data (rb_size rb - (head rb - tail rb)))"
| "writer_access (rb, W_below data) = (rb, w_room data (tail rb - head rb))"
| "writer_access (rb, W_store n data) =
     (rb\<lparr>p_buff := map_option (\<lambda>buf. buf[unat (head rb) := hd data]) (p_buff rb)\<rparr>, W_head (n + 1) (tl data))"
| "writer_access (rb, W_head n rest) = (rb\<lparr>head := ring_next rb (head rb)\<rparr>, W_test n rest)"
| "writer_access (rb, W_test n rest) = (rb, if head rb = tail rb then W_full n rest else w_next n rest)"
| "writer_access (rb, W_full n rest) = (rb\<lparr>is_full_flag := True\<rparr>, w_next n rest)"
| "writer_access (rb, W_done ret) = (rb, W_done ret)"

definition r_used :: "u16 \<Rightarrow> u16 \<Rightarrow> reader" where
  "r_used len used = (let read_len = (if used < len then used else len) in if read_len = 0 then R_done 0 [] else R_copy read_len [])"

definition r_next :: "u16 \<Rightarrow> u8 list \<Rightarrow> reader" where
  "r_next n out = (if n = 0 then R_done (int (length out)) out else R_copy n out)"

fun reader_access :: "ring_buff_t \<times> reader \<Rightarrow> ring_buff_t \<times> reader" where
  "reader_access (rb, R_flag len) = (rb, if is_full_flag rb then r_used len (rb_size rb) else R_compare len)"
| "reader_access (rb, R_compare len) = (rb, if head rb \<ge> tail rb then R_above len else R_below len)"
| "reader_access (rb, R_above len) = (rb, r_used len (head rb - tail rb))"
| "reader_access (rb, R_below len) = (rb, r_used len (rb_size rb - (tail rb - head rb)))"
| "reader_access (rb, R_copy n out) = (rb, R_tail (n - 1) (out @ [ring_peek rb]))"
| "reader_access (rb, R_tail n out) = (rb\<lparr>tail := ring_next rb (tail rb)\<rparr>, R_clear n out)"
| "reader_access (rb, R_clear n out) = (rb\<lparr>is_full_flag := False\<rparr>, r_next n out)"
| "reader_access (rb, R_done ret out) = (rb, R_done ret out)"

text \<open>A schedule says who makes the next access.\<close>

datatype side = Writer | Reader

definition side_access :: "side \<Rightarrow> ring_buff_t \<times> writer \<times> reader \<Rightarrow> ring_buff_t \<times> writer \<times> reader" where
  "side_access who s =
     (let (rb, w, r) = s
      in case who of
           Writer \<Rightarrow> (let (rb', w') = writer_access (rb, w) in (rb', w', r))
         | Reader \<Rightarrow> (let (rb', r') = reader_access (rb, r) in (rb', w, r')))"

definition ring_race :: "side list \<Rightarrow> ring_buff_t \<times> writer \<times> reader \<Rightarrow> ring_buff_t \<times> writer \<times> reader" where
  "ring_race sched s = fold side_access sched s"

lemma ring_race_append: "ring_race (a @ b) s = ring_race b (ring_race a s)"
  by (simp add: ring_race_def)

lemma ring_race_Writer: "ring_race (replicate n Writer) (rb, w, r) = (let (rb', w') = (writer_access ^^ n) (rb, w) in (rb', w', r))"
proof (induction n arbitrary: rb w)
  case 0
  then show ?case by (simp add: ring_race_def)
next
  case (Suc n)
  obtain rb1 w1 where a: "writer_access (rb, w) = (rb1, w1)" by (rule prod.exhaust)
  have "ring_race (replicate (Suc n) Writer) (rb, w, r) = ring_race (replicate n Writer) (rb1, w1, r)"
    by (simp add: ring_race_def side_access_def a)
  then show ?case unfolding Suc.IH funpow_Suc_right comp_apply a .
qed

text \<open>
  The accesses of a writer that is not preempted are the write function: the turns of its loop, and the call as a whole.
\<close>

lemma writer_turn:
  "\<exists>n. (writer_access ^^ n) (rb, W_store k (b # rest)) = (ring_push rb b, w_next (k + 1) rest)"
proof (cases "ring_next rb (head rb) = tail rb")
  case True
  have "(writer_access ^^ 4) (rb, W_store k (b # rest)) = (ring_push rb b, w_next (k + 1) rest)"
    using True by (simp add: eval_nat_numeral ring_push_def ring_next_def Let_def)
  then show ?thesis by blast
next
  case False
  have "(writer_access ^^ 3) (rb, W_store k (b # rest)) = (ring_push rb b, w_next (k + 1) rest)"
    using False by (simp add: eval_nat_numeral ring_push_def ring_next_def Let_def)
  then show ?thesis by blast
qed

lemma writer_turns:
  "\<exists>n. (writer_access ^^ n) (rb, w_next k data) = (fold (\<lambda>b rb. ring_push rb b) data rb, W_done (int (k + length data)))"
proof (induction data arbitrary: rb k)
  case Nil
  show ?case by (rule exI [of _ 0]) (simp add: w_next_def)
next
  case (Cons b rest)
  obtain m where m: "(writer_access ^^ m) (rb, W_store k (b # rest)) = (ring_push rb b, w_next (k + 1) rest)" using writer_turn by blast
  obtain n where n: "(writer_access ^^ n) (ring_push rb b, w_next (k + 1) rest) =
      (fold (\<lambda>b rb. ring_push rb b) rest (ring_push rb b), W_done (int (k + 1 + length rest)))" using Cons.IH by blast
  have "(writer_access ^^ (n + m)) (rb, w_next k (b # rest)) =
      (fold (\<lambda>b rb. ring_push rb b) (b # rest) rb, W_done (int (k + length (b # rest))))"
    unfolding funpow_add comp_apply w_next_def using m n by (simp add: w_next_def)
  then show ?case by blast
qed

lemma writer_alone:
  assumes "data \<noteq> []" and "length data < 65536"
  shows "\<exists>n. (writer_access ^^ n) (rb, W_flag data) =
    (if ring_free rb < word_of_nat (length data) then (rb, W_done (-1))
     else (ring_write_loop rb data 0 (word_of_nat (length data)), W_done (int (length data))))"
proof -
  have l: "unat (word_of_nat (length data) :: u16) = length data" using assms(2) by (rule unat_u16_of_nat)
  have chk: "\<exists>m. (writer_access ^^ m) (rb, W_flag data) = (rb, w_room data (ring_free rb))"
  proof (cases "is_full_flag rb")
    case True
    then show ?thesis by (intro exI [of _ 1]) (simp add: ring_free_def)
  next
    case False
    then show ?thesis by (intro exI [of _ 3]) (simp add: eval_nat_numeral ring_free_def)
  qed
  then obtain m where m: "(writer_access ^^ m) (rb, W_flag data) = (rb, w_room data (ring_free rb))" by blast
  show ?thesis
  proof (cases "ring_free rb < word_of_nat (length data)")
    case True
    then show ?thesis using m by (intro exI [of _ m]) (simp add: w_room_def)
  next
    case False
    obtain n where n: "(writer_access ^^ n) (rb, w_next 0 data) = (fold (\<lambda>b rb. ring_push rb b) data rb, W_done (int (0 + length data)))"
      using writer_turns by blast
    have "(writer_access ^^ (n + m)) (rb, W_flag data) = (ring_write_loop rb data 0 (word_of_nat (length data)), W_done (int (length data)))"
      unfolding funpow_add comp_apply m using n False assms(1) ring_write_loop_fold [of 0 "word_of_nat (length data)" data rb] l
      by (simp add: w_room_def w_next_def)
    then show ?thesis using False by auto
  qed
qed

lemma reader_turn:
  "n \<noteq> 0 \<Longrightarrow> (reader_access ^^ 3) (rb, r_next n out) = (ring_pop rb, r_next (n - 1) (out @ [ring_peek rb]))"
  by (simp add: eval_nat_numeral r_next_def ring_pop_def)

lemma reader_turns:
  "i \<le> len \<Longrightarrow> \<exists>n. (reader_access ^^ n) (rb, r_next (len - i) out) =
     (let (bs, rb') = ring_read_loop rb i len in (rb', R_done (int (length (out @ bs))) (out @ bs)))"
proof (induction rb i len arbitrary: out rule: ring_read_loop.induct)
  case (1 rb i len)
  show ?case
  proof (cases "i < len")
    case False
    then have "i = len" using "1.prems" by simp
    then show ?thesis by (intro exI [of _ 0]) (simp add: r_next_def ring_read_loop.simps [of rb len len])
  next
    case True
    have i1: "unat (i + 1) = unat i + 1" using True by (rule unat_succ_less)
    have "i + 1 \<le> len" using True i1 by (simp add: word_le_nat_alt word_less_nat_alt)
    from "1.IH" [OF True this, of "out @ [ring_peek rb]"] obtain n where
      n: "(reader_access ^^ n) (ring_pop rb, r_next (len - (i + 1)) (out @ [ring_peek rb])) =
        (let (bs, rb') = ring_read_loop (ring_pop rb) (i + 1) len
         in (rb', R_done (int (length ((out @ [ring_peek rb]) @ bs))) ((out @ [ring_peek rb]) @ bs)))" by blast
    have ne: "len - i \<noteq> 0" using True by auto
    have e: "len - i - 1 = len - (i + 1)" by simp
    have "(reader_access ^^ 3) (rb, r_next (len - i) out) = (ring_pop rb, r_next (len - (i + 1)) (out @ [ring_peek rb]))"
      unfolding reader_turn [OF ne] e ..
    then have "(reader_access ^^ (n + 3)) (rb, r_next (len - i) out) =
        (let (bs, rb') = ring_read_loop (ring_pop rb) (i + 1) len
         in (rb', R_done (int (length ((out @ [ring_peek rb]) @ bs))) ((out @ [ring_peek rb]) @ bs)))"
      unfolding funpow_add comp_apply using n by simp
    then show ?thesis using True by (intro exI [of _ "n + 3"]) (simp add: ring_read_loop.simps [of rb i len] split_beta)
  qed
qed

lemma reader_alone:
  assumes "read_len = (if ring_occupied rb < len then ring_occupied rb else len)"
  shows "\<exists>n. (reader_access ^^ n) (rb, R_flag len) =
    (let (bs, rb') = ring_read_loop rb 0 read_len in (rb', R_done (int (length bs)) bs))"
proof -
  have chk: "\<exists>m. (reader_access ^^ m) (rb, R_flag len) = (rb, r_used len (ring_occupied rb))"
  proof (cases "is_full_flag rb")
    case True
    then show ?thesis by (intro exI [of _ 1]) (simp add: ring_occupied_def)
  next
    case False
    then show ?thesis by (intro exI [of _ 3]) (simp add: eval_nat_numeral ring_occupied_def)
  qed
  moreover have "r_used len (ring_occupied rb) = r_next (read_len - 0) []" using assms by (simp add: r_used_def r_next_def Let_def)
  ultimately obtain m where m: "(reader_access ^^ m) (rb, R_flag len) = (rb, r_next (read_len - 0) [])" by auto
  from reader_turns [of 0 read_len rb "[]"] obtain n where
    n: "(reader_access ^^ n) (rb, r_next (read_len - 0) []) = (let (bs, rb') = ring_read_loop rb 0 read_len in (rb', R_done (int (length ([] @ bs))) ([] @ bs)))"
    by auto
  have "(reader_access ^^ (n + m)) (rb, R_flag len) = (let (bs, rb') = ring_read_loop rb 0 read_len in (rb', R_done (int (length bs)) bs))"
    unfolding funpow_add comp_apply m n by simp
  then show ?thesis by blast
qed

section \<open>Properties\<close>

text \<open>
  A ring with one writer and one reader is safe in turns. Take any interleaving of a writer's and a reader's calls in which
  the computation of the room, the computation of the occupancy, and each turn of the two copy loops are not preempted by the other side; a
  call may be preempted anywhere else, and any number of times. Then the ring stays well formed, every byte of a block that was accepted
  finds room and every byte a reader asked for is there, and the bytes written so far come out
  in order: held at the start plus written is read plus still held.
\<close>

theorem ring_turns_conserve:
  assumes "ring_wf rb" and "s = fold ring_turn_step evs \<lparr>t_ring = rb, t_writing = [], t_reading = 0, t_in = [], t_out = []\<rparr>"
  shows "ring_wf (t_ring s) \<and> ring_contents rb @ t_in s = t_out s @ ring_contents (t_ring s) \<and>
    length (ring_contents (t_ring s)) + length (t_writing s) \<le> unat (rb_size (t_ring s)) \<and>
    t_reading s \<le> length (ring_contents (t_ring s))"
proof -
  have "turns_ok (ring_contents rb) \<lparr>t_ring = rb, t_writing = [], t_reading = 0, t_in = [], t_out = []\<rparr>"
    using assms(1) ring_count_le by (simp add: turns_ok_def)
  from turns_ok_run [OF this, of evs] show ?thesis unfolding assms(2) [symmetric] by (simp add: turns_ok_def)
qed

theorem ring_turns_conserve_witness:
  "ring_wf (t_ring (fold ring_turn_step [Read_call 1, Write_call [1, 2], Write_turn, Read_turn, Write_turn]
     \<lparr>t_ring = ring_sample, t_writing = [], t_reading = 0, t_in = [], t_out = []\<rparr>))"
  using ring_turns_conserve [OF _ refl, of ring_sample "[Read_call 1, Write_call [1, 2], Write_turn, Read_turn, Write_turn]"] ring_sample_ready
  by (simp add: ring_ready_def)

text \<open>
  Claim C40: as the code is, a whole ring of bytes can be lost. Take a ring that is not full and whose oldest byte is \<open>b\<close>, a
  reader that reads one byte, and a writer with a block that exactly fills the ring once that byte is gone. If the reader is preempted by
  the writer after it has moved \<^verbatim>\<open>tail\<close> and before it clears \<^verbatim>\<open>is_full_flag\<close>, the writer
  reports success and marks the ring full, and the reader then removes the mark: the reader has got \<open>b\<close>, and the ring,
  which should hold the other old bytes and the block, is empty.
\<close>

theorem ring_race_loses_bytes:
  assumes "ring_wf rb" and "\<not> is_full_flag rb" and "ring_contents rb = b # rest" and "length rest + length data = unat (rb_size rb)"
  shows "\<exists>n rb'. ring_race (replicate 5 Reader @ replicate n Writer @ [Reader]) (rb, W_flag data, R_flag 1) =
      (rb', W_done (int (length data)), R_done 1 [b]) \<and> ring_wf rb' \<and> ring_contents rb' = []"
proof -
  have cnt: "ring_count rb = Suc (length rest)" using length_ring_contents [of rb] assms(3) by simp
  have occ: "\<not> ring_occupied rb < 1" "ring_occupied rb \<noteq> 0" using unat_ring_occupied [OF assms(1)] cnt by (auto simp: word_less_nat_alt)
  let ?rb = "ring_pop rb"
  have pop: "rb\<lparr>tail := ring_next rb (tail rb)\<rparr> = ?rb" using assms(2) by (simp add: ring_pop_def)
  have c: "ring_peek rb = b" "ring_contents ?rb = rest" using ring_pop_contents [OF assms(1)] cnt assms(3) by simp_all
  have first: "ring_race (replicate 5 Reader) (rb, W_flag data, R_flag 1) = (?rb, W_flag data, R_clear 0 [b])"
    using assms(2) occ pop c(1)
    by (simp add: eval_nat_numeral ring_race_def side_access_def ring_occupied_def r_used_def Let_def split: if_splits)
  have wf: "ring_wf ?rb" using ring_pop_wf [OF assms(1)] .
  have "length rest < unat (rb_size rb)" using cnt ring_count_le [OF assms(1)] by simp
  then have ne: "data \<noteq> []" using assms(4) by auto
  have "unat (rb_size rb) < 65536" using unsigned_less [of "rb_size rb", where ?'a = nat] by simp
  then have len: "length data < 65536" using assms(4) by simp
  let ?len = "word_of_nat (length data) :: u16"
  have l: "unat ?len = length data" using len by (rule unat_u16_of_nat)
  have cr: "ring_count ?rb = length rest" using length_ring_contents [of ?rb] c(2) by simp
  have room: "\<not> ring_free ?rb < ?len" using unat_ring_free [OF wf] cr l assms(4) by (simp add: word_less_nat_alt)
  let ?rb2 = "ring_write_loop ?rb data 0 ?len"
  obtain n where w: "(writer_access ^^ n) (?rb, W_flag data) = (?rb2, W_done (int (length data)))"
    using writer_alone [OF ne len, of ?rb] room by auto
  have wf2: "ring_wf ?rb2" "ring_contents ?rb2 = rest @ data" "rb_size ?rb2 = rb_size rb"
    using ring_write_loop_spec [OF wf, of 0 ?len data] l cr assms(4) c(2) by simp_all
  have "ring_count ?rb2 = unat (rb_size ?rb2)" using length_ring_contents [of ?rb2] wf2(2,3) assms(4) by simp
  moreover have "ring_dist (unat (rb_size ?rb2)) (unat (tail ?rb2)) (unat (head ?rb2)) < unat (rb_size ?rb2)"
    using wf2(1) by (auto elim!: ring_wfE intro: ring_dist_less)
  ultimately have full: "is_full_flag ?rb2" by (auto simp: ring_count_def split: if_splits)
  let ?rb3 = "?rb2\<lparr>is_full_flag := False\<rparr>"
  have "ring_wf ?rb3" "head ?rb3 = tail ?rb3" using wf2(1) full by (auto simp: ring_wf_def split: option.splits)
  then have "ring_wf ?rb3" "ring_contents ?rb3 = []" using ring_empty_iff [of ?rb3] by simp_all
  moreover have "ring_race (replicate 5 Reader @ replicate n Writer @ [Reader]) (rb, W_flag data, R_flag 1) =
      (?rb3, W_done (int (length data)), R_done 1 [b])"
    unfolding ring_race_append first ring_race_Writer w by (simp add: ring_race_def side_access_def r_next_def)
  ultimately show ?thesis by blast
qed

theorem ring_race_loses_bytes_witness:
  "\<exists>n rb'. ring_race (replicate 5 Reader @ replicate n Writer @ [Reader]) (ring_sample, W_flag [1, 2, 3, 4], R_flag 1) =
      (rb', W_done 4, R_done 1 [7]) \<and> ring_contents rb' = []"
proof -
  have "ring_contents ring_sample = 7 # []"
    by (simp add: ring_contents_def ring_count_def ring_dist_def ring_slice_def ring_sample_def)
  moreover have "length [] + length [1, 2, 3, 4 :: u8] = unat (rb_size ring_sample)" by (simp add: ring_sample_def)
  moreover have "ring_wf ring_sample" "\<not> is_full_flag ring_sample" using ring_sample_ready by (simp_all add: ring_ready_def ring_sample_def)
  moreover have "int (length [1, 2, 3, 4 :: u8]) = 4" by simp
  ultimately show ?thesis using ring_race_loses_bytes [of ring_sample 7 "[]" "[1, 2, 3, 4]"] by metis
qed

text \<open>
  The occupancy is computed from two readings of the writer's index, and it need not fit either. A ring of eight bytes holds four; its
  reader has found \<open>head >= tail\<close> and is preempted by a writer whose three bytes take \<^verbatim>\<open>head\<close> past the end. The
  difference it then computes wraps around to 65535, so it copies as many bytes as asked for, eight of the
  seven that are there, and leaves a ring that claims to hold seven old bytes again.
\<close>

definition ring_torn :: ring_buff_t where
  "ring_torn = \<lparr>p_buff = Some [90, 91, 1, 2, 3, 4, 96, 97], rb_size = 8, head = 6, tail = 2, is_full_flag = False,
     read_mutex = Some Mutex_Held, write_mutex = Some Mutex_Held\<rparr>"

lemma ring_race_rereads:
  "\<exists>rb'. ring_race (replicate 2 Reader @ replicate 12 Writer @ replicate 25 Reader) (ring_torn, W_flag [5, 6, 7], R_flag 8) =
     (rb', W_done 3, R_done 8 [1, 2, 3, 4, 5, 6, 7, 91]) \<and> ring_contents rb' = [1, 2, 3, 4, 5, 6, 7]"
proof -
  have "ring_race (replicate 2 Reader @ replicate 12 Writer @ replicate 25 Reader) (ring_torn, W_flag [5, 6, 7], R_flag 8) =
     (\<lparr>p_buff = Some [7, 91, 1, 2, 3, 4, 5, 6], rb_size = 8, head = 1, tail = 2, is_full_flag = False,
       read_mutex = Some Mutex_Held, write_mutex = Some Mutex_Held\<rparr>, W_done 3, R_done 8 [1, 2, 3, 4, 5, 6, 7, 91])"
    by code_simp
  moreover have "ring_contents \<lparr>p_buff = Some [7, 91, 1, 2, 3, 4, 5, 6], rb_size = 8, head = 1, tail = 2, is_full_flag = False,
       read_mutex = Some Mutex_Held, write_mutex = Some Mutex_Held\<rparr> = [1, 2, 3, 4, 5, 6, 7]"
    by code_simp
  ultimately show ?thesis by blast
qed

end
