(* ===== verification/KernelQueue.thy ===== *)
theory KernelQueue
  imports Prelude
begin

text \<open>
  The queues of the kernel, from \<^verbatim>\<open>src/FreeRtos/kernel/queue.c\<close>: creation and reset, sending from tasks and from
  interrupts (to the back, to the front, overwriting), receiving, the queries, and the lock that keeps
  interrupts from touching the lists of waiting tasks. Items are copied byte by byte into a circular storage
  area; the three pointers into it are offsets from its start. The CAN driver passes frames from its interrupt handler to its task through
  such a queue.

  A waiting task is its number and its priority; the lists are in the order in which tasks are unblocked. What the
  queue asks of the scheduler is recorded: the tasks it made ready, and whether it asked for a context switch.
\<close>

section \<open>State\<close>

type_synonym waiting_task = "nat \<times> nat"

record Queue_t =
  q_storage :: "u8 list"
  pcTail :: nat
  pcWriteTo :: nat
  pcReadFrom :: nat
  xTasksWaitingToSend :: "waiting_task list"
  xTasksWaitingToReceive :: "waiting_task list"
  uxMessagesWaiting :: u32
  uxLength :: u32
  uxItemSize :: u32
  cRxLock :: u8
  cTxLock :: u8

record scheduler =
  uxCurrentPriority :: nat
  uxCurrentNumberOfTasks :: u32
  made_ready :: "nat list"
  yield_requested :: bool

definition queueUNLOCKED :: u8 where "queueUNLOCKED = -1"
definition queueLOCKED_UNMODIFIED :: u8 where "queueLOCKED_UNMODIFIED = 0"
definition queueINT8_MAX :: u8 where "queueINT8_MAX = 127"

lemmas queue_lock_defs = queueUNLOCKED_def queueLOCKED_UNMODIFIED_def queueINT8_MAX_def

datatype copy_position = queueSEND_TO_BACK | queueSEND_TO_FRONT | queueOVERWRITE

definition sizeof_Queue_t :: u32 where "sizeof_Queue_t = 80"

text \<open>
  Unblocking the first task of a list; the result says whether its priority is above that of the running task, and
  then a yield is pending too. Whether the task goes to the list of ready tasks at once or, while the scheduler is suspended, to the list of
  tasks to be made ready on its resumption is not distinguished.
\<close>

definition xTaskRemoveFromEventList :: "waiting_task list \<Rightarrow> scheduler \<Rightarrow> bool \<times> waiting_task list \<times> scheduler" where
  "xTaskRemoveFromEventList ts k =
     (case ts of
        [] \<Rightarrow> (False, [], k)
      | (task, prio) # rest \<Rightarrow>
          (uxCurrentPriority k < prio, rest,
           k\<lparr>made_ready := made_ready k @ [task], yield_requested := yield_requested k \<or> uxCurrentPriority k < prio\<rparr>))"

definition request_yield :: "scheduler \<Rightarrow> scheduler" where
  "request_yield k = k\<lparr>yield_requested := True\<rparr>"

section \<open>Operations\<close>

text \<open>Unblocking one waiting task and yielding if it has a higher priority, as three functions of the file do.\<close>

definition unblock_receiver :: "Queue_t \<times> scheduler \<Rightarrow> Queue_t \<times> scheduler" where
  "unblock_receiver qk =
     (let (q, k) = qk
      in if xTasksWaitingToReceive q \<noteq> []
         then (let (higher, ts, k') = xTaskRemoveFromEventList (xTasksWaitingToReceive q) k
               in (q\<lparr>xTasksWaitingToReceive := ts\<rparr>, if higher then request_yield k' else k'))
         else (q, k))"

definition unblock_sender :: "Queue_t \<times> scheduler \<Rightarrow> Queue_t \<times> scheduler" where
  "unblock_sender qk =
     (let (q, k) = qk
      in if xTasksWaitingToSend q \<noteq> []
         then (let (higher, ts, k') = xTaskRemoveFromEventList (xTasksWaitingToSend q) k
               in (q\<lparr>xTasksWaitingToSend := ts\<rparr>, if higher then request_yield k' else k'))
         else (q, k))"

definition xQueueGenericReset :: "bool \<Rightarrow> Queue_t \<times> scheduler \<Rightarrow> (Queue_t \<times> scheduler) option" where
  "xQueueGenericReset xNewQueue qk =
     (let (q, k) = qk
      in if uxLength q \<ge> 1 \<and> (- 1 :: u32) div uxLength q \<ge> uxItemSize q
         then (let q1 = q\<lparr>pcTail := unat (uxLength q * uxItemSize q), uxMessagesWaiting := 0, pcWriteTo := 0,
                          pcReadFrom := unat ((uxLength q - 1) * uxItemSize q),
                          cRxLock := queueUNLOCKED, cTxLock := queueUNLOCKED\<rparr>
               in Some (if \<not> xNewQueue then unblock_sender (q1, k)
                        else (q1\<lparr>xTasksWaitingToSend := [], xTasksWaitingToReceive := []\<rparr>, k)))
         else None)"

definition prvInitialiseNewQueue :: "u32 \<Rightarrow> u32 \<Rightarrow> u8 list \<Rightarrow> Queue_t \<Rightarrow> Queue_t option" where
  "prvInitialiseNewQueue uxQueueLength uxSize pucQueueStorage q =
     map_option fst (xQueueGenericReset True
       (q\<lparr>q_storage := (if uxSize = 0 then [] else pucQueueStorage), uxLength := uxQueueLength, uxItemSize := uxSize\<rparr>,
        \<lparr>uxCurrentPriority = 0, uxCurrentNumberOfTasks = 0, made_ready = [], yield_requested = False\<rparr>))"

text \<open>
  Creation: \<open>block\<close> is what \<open>pvPortMalloc\<close> returned for the storage area behind the structure, with whatever the memory
  held. The outer \<open>None\<close> is a failed assertion, the inner one the returned \<open>NULL\<close>.
\<close>

definition queue_raw :: Queue_t where
  "queue_raw =
     \<lparr>q_storage = [], pcTail = 0, pcWriteTo = 0, pcReadFrom = 0, xTasksWaitingToSend = [], xTasksWaitingToReceive = [],
      uxMessagesWaiting = 0, uxLength = 0, uxItemSize = 0, cRxLock = 0, cTxLock = 0\<rparr>"

definition xQueueGenericCreate :: "u32 \<Rightarrow> u32 \<Rightarrow> u8 list option \<Rightarrow> Queue_t option option" where
  "xQueueGenericCreate uxQueueLength uxSize block =
     (if uxQueueLength > 0 \<and> (- 1 :: u32) div uxQueueLength \<ge> uxSize \<and>
         - 1 - sizeof_Queue_t \<ge> uxQueueLength * uxSize
      then (case block of
              None \<Rightarrow> Some None
            | Some pucQueueStorage \<Rightarrow> map_option Some (prvInitialiseNewQueue uxQueueLength uxSize pucQueueStorage queue_raw))
      else None)"

text \<open>The copy into the queue; a null item is a list of length 0.\<close>

definition prvCopyDataToQueue :: "u8 list \<Rightarrow> copy_position \<Rightarrow> Queue_t \<Rightarrow> Queue_t" where
  "prvCopyDataToQueue pvItemToQueue xPosition q =
     (let sz = unat (uxItemSize q); item = take sz pvItemToQueue
      in if sz = 0 then q\<lparr>uxMessagesWaiting := uxMessagesWaiting q + 1\<rparr>
         else if xPosition = queueSEND_TO_BACK
         then (let q1 = q\<lparr>q_storage := store_at (pcWriteTo q) item (q_storage q), pcWriteTo := pcWriteTo q + sz\<rparr>;
                   q2 = (if pcWriteTo q1 \<ge> pcTail q1 then q1\<lparr>pcWriteTo := 0\<rparr> else q1)
               in q2\<lparr>uxMessagesWaiting := uxMessagesWaiting q + 1\<rparr>)
         else (let q1 = q\<lparr>q_storage := store_at (pcReadFrom q) item (q_storage q)\<rparr>;
                   q2 = (if pcReadFrom q1 < sz then q1\<lparr>pcReadFrom := pcTail q1 - sz\<rparr> else q1\<lparr>pcReadFrom := pcReadFrom q1 - sz\<rparr>);
                   n = (if xPosition = queueOVERWRITE \<and> uxMessagesWaiting q > 0 then uxMessagesWaiting q - 1 else uxMessagesWaiting q)
               in q2\<lparr>uxMessagesWaiting := n + 1\<rparr>))"

definition prvCopyDataFromQueue :: "Queue_t \<Rightarrow> u8 list \<times> Queue_t" where
  "prvCopyDataFromQueue q =
     (let sz = unat (uxItemSize q)
      in if sz \<noteq> 0
         then (let q1 = q\<lparr>pcReadFrom := pcReadFrom q + sz\<rparr>;
                   q2 = (if pcReadFrom q1 \<ge> pcTail q1 then q1\<lparr>pcReadFrom := 0\<rparr> else q1)
               in (seg (pcReadFrom q2) sz (q_storage q2), q2))
         else ([], q))"

text \<open>One pass of the loops of the task functions through their first critical section.\<close>

definition send_attempt :: "u8 list \<Rightarrow> copy_position \<Rightarrow> Queue_t \<times> scheduler \<Rightarrow> (Queue_t \<times> scheduler) option" where
  "send_attempt item xCopyPosition qk =
     (let (q, k) = qk
      in if uxMessagesWaiting q < uxLength q \<or> xCopyPosition = queueOVERWRITE
         then Some (unblock_receiver (prvCopyDataToQueue item xCopyPosition q, k)) else None)"

definition receive_attempt :: "Queue_t \<times> scheduler \<Rightarrow> (u8 list \<times> Queue_t \<times> scheduler) option" where
  "receive_attempt qk =
     (let (q, k) = qk
      in if uxMessagesWaiting q > 0
         then (let (bs, q1) = prvCopyDataFromQueue q
               in Some (bs, unblock_sender (q1\<lparr>uxMessagesWaiting := uxMessagesWaiting q - 1\<rparr>, k)))
         else None)"

text \<open>A peek puts the read pointer back and unblocks a receiver, because the item is still there.\<close>

definition peek_attempt :: "Queue_t \<times> scheduler \<Rightarrow> (u8 list \<times> Queue_t \<times> scheduler) option" where
  "peek_attempt qk =
     (let (q, k) = qk
      in if uxMessagesWaiting q > 0
         then (let pcOriginalReadPosition = pcReadFrom q; (bs, q1) = prvCopyDataFromQueue q
               in Some (bs, unblock_receiver (q1\<lparr>pcReadFrom := pcOriginalReadPosition\<rparr>, k)))
         else None)"

text \<open>
  The task functions, up to the point where the task blocks. Between two passes the task waits; each element of \<open>waits\<close> is what other tasks and interrupts do to the
  queue during a wait that ends before the time limit, and behind the last one the limit expires. Without a limit the task then waits for ever. The blocking itself - the
  lock of the queue, \<open>xTaskCheckForTimeOut\<close> and \<open>vTaskPlaceOnEventList\<close> - is not part of these definitions: the lock is modelled below, the other two with the scheduler
  in \<open>KernelTasks\<close>.
\<close>

fun xQueueGenericSend ::
  "(Queue_t \<times> scheduler \<Rightarrow> Queue_t \<times> scheduler) list \<Rightarrow> u8 list \<Rightarrow> u32 \<Rightarrow> copy_position \<Rightarrow> Queue_t \<times> scheduler \<Rightarrow>
   (bool \<times> Queue_t \<times> scheduler) option" where
  "xQueueGenericSend waits item xTicksToWait xCopyPosition qk =
     (if xCopyPosition = queueOVERWRITE \<and> uxLength (fst qk) \<noteq> 1 then None
      else case send_attempt item xCopyPosition qk of
          Some qk' \<Rightarrow> Some (True, qk')
        | None \<Rightarrow>
            if xTicksToWait = 0 then Some (False, qk)
            else (case waits of
                    [] \<Rightarrow> if xTicksToWait = portMAX_DELAY then None else Some (False, qk)
                  | w # ws \<Rightarrow> xQueueGenericSend ws item xTicksToWait xCopyPosition (w qk)))"

fun xQueueReceive ::
  "(Queue_t \<times> scheduler \<Rightarrow> Queue_t \<times> scheduler) list \<Rightarrow> u32 \<Rightarrow> Queue_t \<times> scheduler \<Rightarrow>
   (u8 list option \<times> Queue_t \<times> scheduler) option" where
  "xQueueReceive waits xTicksToWait qk =
     (case receive_attempt qk of
        Some (bs, qk') \<Rightarrow> Some (Some bs, qk')
      | None \<Rightarrow>
          if xTicksToWait = 0 then Some (None, qk)
          else (case waits of
                  [] \<Rightarrow> if xTicksToWait = portMAX_DELAY then None else Some (None, qk)
                | w # ws \<Rightarrow> xQueueReceive ws xTicksToWait (w qk)))"

fun xQueuePeek ::
  "(Queue_t \<times> scheduler \<Rightarrow> Queue_t \<times> scheduler) list \<Rightarrow> u32 \<Rightarrow> Queue_t \<times> scheduler \<Rightarrow>
   (u8 list option \<times> Queue_t \<times> scheduler) option" where
  "xQueuePeek waits xTicksToWait qk =
     (case peek_attempt qk of
        Some (bs, qk') \<Rightarrow> Some (Some bs, qk')
      | None \<Rightarrow>
          if xTicksToWait = 0 then Some (None, qk)
          else (case waits of
                  [] \<Rightarrow> if xTicksToWait = portMAX_DELAY then None else Some (None, qk)
                | w # ws \<Rightarrow> xQueuePeek ws xTicksToWait (w qk)))"

declare xQueueGenericSend.simps [simp del] xQueueReceive.simps [simp del] xQueuePeek.simps [simp del]

text \<open>The lock, and its counters, which interrupts advance while the queue is locked.\<close>

definition prvLockQueue :: "Queue_t \<Rightarrow> Queue_t" where
  "prvLockQueue q =
     (let q1 = (if cRxLock q = queueUNLOCKED then q\<lparr>cRxLock := queueLOCKED_UNMODIFIED\<rparr> else q)
      in if cTxLock q1 = queueUNLOCKED then q1\<lparr>cTxLock := queueLOCKED_UNMODIFIED\<rparr> else q1)"

definition prvIncrementQueueTxLock :: "u8 \<Rightarrow> Queue_t \<times> scheduler \<Rightarrow> (Queue_t \<times> scheduler) option" where
  "prvIncrementQueueTxLock lock qk =
     (let (q, k) = qk
      in if scast lock < uxCurrentNumberOfTasks k
         then (if lock = queueINT8_MAX then None else Some (q\<lparr>cTxLock := lock + 1\<rparr>, k))
         else Some (q, k))"

definition prvIncrementQueueRxLock :: "u8 \<Rightarrow> Queue_t \<times> scheduler \<Rightarrow> (Queue_t \<times> scheduler) option" where
  "prvIncrementQueueRxLock lock qk =
     (let (q, k) = qk
      in if scast lock < uxCurrentNumberOfTasks k
         then (if lock = queueINT8_MAX then None else Some (q\<lparr>cRxLock := lock + 1\<rparr>, k))
         else Some (q, k))"

text \<open>The loops of the unlock function; the counters are signed.\<close>

function unlock_tx_loop :: "u8 \<Rightarrow> Queue_t \<times> scheduler \<Rightarrow> Queue_t \<times> scheduler" where
  "unlock_tx_loop lock qk =
     (if sint lock > sint queueLOCKED_UNMODIFIED \<and> xTasksWaitingToReceive (fst qk) \<noteq> []
      then unlock_tx_loop (lock - 1) (unblock_receiver qk) else qk)"
  by auto
termination
proof (relation "measure (\<lambda>(lock, qk). length (xTasksWaitingToReceive (fst qk)))")
  fix lock :: u8 and qk :: "Queue_t \<times> scheduler"
  assume "sint lock > sint queueLOCKED_UNMODIFIED \<and> xTasksWaitingToReceive (fst qk) \<noteq> []"
  then show "((lock - 1, unblock_receiver qk), lock, qk) \<in> measure (\<lambda>(lock, qk). length (xTasksWaitingToReceive (fst qk)))"
    by (cases qk; cases "xTasksWaitingToReceive (fst qk)") (auto simp: unblock_receiver_def xTaskRemoveFromEventList_def)
qed simp

function unlock_rx_loop :: "u8 \<Rightarrow> Queue_t \<times> scheduler \<Rightarrow> Queue_t \<times> scheduler" where
  "unlock_rx_loop lock qk =
     (if sint lock > sint queueLOCKED_UNMODIFIED \<and> xTasksWaitingToSend (fst qk) \<noteq> []
      then unlock_rx_loop (lock - 1) (unblock_sender qk) else qk)"
  by auto
termination
proof (relation "measure (\<lambda>(lock, qk). length (xTasksWaitingToSend (fst qk)))")
  fix lock :: u8 and qk :: "Queue_t \<times> scheduler"
  assume "sint lock > sint queueLOCKED_UNMODIFIED \<and> xTasksWaitingToSend (fst qk) \<noteq> []"
  then show "((lock - 1, unblock_sender qk), lock, qk) \<in> measure (\<lambda>(lock, qk). length (xTasksWaitingToSend (fst qk)))"
    by (cases qk; cases "xTasksWaitingToSend (fst qk)") (auto simp: unblock_sender_def xTaskRemoveFromEventList_def)
qed simp

declare unlock_tx_loop.simps [simp del] unlock_rx_loop.simps [simp del]

definition prvUnlockQueue :: "Queue_t \<times> scheduler \<Rightarrow> Queue_t \<times> scheduler" where
  "prvUnlockQueue qk =
     (let (q1, k1) = unlock_tx_loop (cTxLock (fst qk)) qk;
          qk2 = (q1\<lparr>cTxLock := queueUNLOCKED\<rparr>, k1);
          (q3, k3) = unlock_rx_loop (cRxLock (fst qk2)) qk2
      in (q3\<lparr>cRxLock := queueUNLOCKED\<rparr>, k3))"

text \<open>The interrupt versions; the first component says that a context switch is needed.\<close>

definition xQueueGenericSendFromISR ::
  "u8 list \<Rightarrow> copy_position \<Rightarrow> Queue_t \<times> scheduler \<Rightarrow> (bool \<times> Queue_t \<times> scheduler) option" where
  "xQueueGenericSendFromISR item xCopyPosition qk =
     (let (q, k) = qk
      in if xCopyPosition = queueOVERWRITE \<and> uxLength q \<noteq> 1 then None
         else if uxMessagesWaiting q < uxLength q \<or> xCopyPosition = queueOVERWRITE
         then (let lock = cTxLock q; q1 = prvCopyDataToQueue item xCopyPosition q
               in if lock = queueUNLOCKED then Some (True, unblock_receiver (q1, k))
                  else map_option (Pair True) (prvIncrementQueueTxLock lock (q1, k)))
         else Some (False, qk))"

definition xQueueReceiveFromISR :: "Queue_t \<times> scheduler \<Rightarrow> (u8 list option \<times> Queue_t \<times> scheduler) option" where
  "xQueueReceiveFromISR qk =
     (let (q, k) = qk
      in if uxMessagesWaiting q > 0
         then (let lock = cRxLock q; (bs, q1) = prvCopyDataFromQueue q;
                   q2 = q1\<lparr>uxMessagesWaiting := uxMessagesWaiting q - 1\<rparr>
               in if lock = queueUNLOCKED then Some (Some bs, unblock_sender (q2, k))
                  else map_option (Pair (Some bs)) (prvIncrementQueueRxLock lock (q2, k)))
         else Some (None, qk))"

definition prvIsQueueEmpty :: "Queue_t \<Rightarrow> bool" where
  "prvIsQueueEmpty q = (uxMessagesWaiting q = 0)"

definition prvIsQueueFull :: "Queue_t \<Rightarrow> bool" where
  "prvIsQueueFull q = (uxMessagesWaiting q = uxLength q)"

definition uxQueueMessagesWaiting :: "Queue_t \<Rightarrow> u32" where
  "uxQueueMessagesWaiting q = uxMessagesWaiting q"

definition uxQueueSpacesAvailable :: "Queue_t \<Rightarrow> u32" where
  "uxQueueSpacesAvailable q = uxLength q - uxMessagesWaiting q"

section \<open>Invariant and abstraction\<close>

abbreviation q_len :: "Queue_t \<Rightarrow> nat" where "q_len q \<equiv> unat (uxLength q)"
abbreviation q_sz :: "Queue_t \<Rightarrow> nat" where "q_sz q \<equiv> unat (uxItemSize q)"
abbreviation q_count :: "Queue_t \<Rightarrow> nat" where "q_count q \<equiv> unat (uxMessagesWaiting q)"

definition q_slots :: "Queue_t \<Rightarrow> u8 list list" where
  "q_slots q = map (\<lambda>i. seg (i * q_sz q) (q_sz q) (q_storage q)) [0..<q_len q]"

text \<open>\<open>q_write\<close> and \<open>q_read\<close> are the slots the two pointers point to; the oldest item is behind the read pointer.\<close>

definition q_write :: "Queue_t \<Rightarrow> nat" where "q_write q = pcWriteTo q div q_sz q"
definition q_read :: "Queue_t \<Rightarrow> nat" where "q_read q = pcReadFrom q div q_sz q"

definition queue_wf :: "Queue_t \<Rightarrow> bool" where
  "queue_wf q \<longleftrightarrow> 0 < q_len q \<and> 0 < q_sz q \<and> length (q_storage q) = q_len q * q_sz q \<and> pcTail q = q_len q * q_sz q \<and>
     q_count q \<le> q_len q \<and> q_write q < q_len q \<and> q_read q < q_len q \<and>
     pcWriteTo q = q_write q * q_sz q \<and> pcReadFrom q = q_read q * q_sz q \<and>
     q_write q = (q_read q + 1 + q_count q) mod q_len q"

definition queue_items :: "Queue_t \<Rightarrow> u8 list list" where
  "queue_items q = ring_slice (q_len q) (q_slots q) ((q_read q + 1) mod q_len q) (q_count q)"

lemma length_queue_items [simp]: "length (queue_items q) = q_count q"
  by (simp add: queue_items_def)

lemma length_q_slots [simp]: "length (q_slots q) = q_len q"
  by (simp add: q_slots_def)

lemma slot_store:
  assumes "length st = n * sz" and "i < n" and "length item = sz"
  shows "map (\<lambda>j. seg (j * sz) sz (store_at (i * sz) item st)) [0..<n] = (map (\<lambda>j. seg (j * sz) sz st) [0..<n])[i := item]"
proof (rule nth_equalityI)
  fix j
  assume "j < length (map (\<lambda>j. seg (j * sz) sz (store_at (i * sz) item st)) [0..<n])"
  then have j: "j < n" by simp
  have fit: "k * sz + sz \<le> n * sz" if "k < n" for k using that mult_le_mono1 [of "Suc k" n sz] by simp
  show "map (\<lambda>j. seg (j * sz) sz (store_at (i * sz) item st)) [0..<n] ! j = (map (\<lambda>j. seg (j * sz) sz st) [0..<n])[i := item] ! j"
  proof (cases "j = i")
    case True
    then show ?thesis using assms fit [OF assms(2)] j by (simp add: seg_store_at_same)
  next
    case False
    then have "j * sz + sz \<le> i * sz \<or> i * sz + sz \<le> j * sz"
      using mult_le_mono1 [of "Suc j" i sz] mult_le_mono1 [of "Suc i" j sz] by (auto simp: neq_iff)
    then show ?thesis
      using assms fit [OF assms(2)] fit [OF j] j False seg_store_at_other [of "i * sz" item st "j * sz" sz] by simp
  qed
qed simp

lemma pointer_next:
  fixes i n sz :: nat
  assumes "i < n" and "0 < sz"
  shows "(if i * sz + sz \<ge> n * sz then 0 else i * sz + sz) = (i + 1) mod n * sz"
proof (cases "i + 1 = n")
  case True
  then show ?thesis by (auto simp: algebra_simps)
next
  case False
  then have "i + 1 < n" using assms(1) by simp
  moreover from this have "\<not> i * sz + sz \<ge> n * sz" using mult_less_mono1 [of "Suc i" n sz] assms(2) by simp
  ultimately show ?thesis by simp
qed

lemma queue_wf_count:
  assumes "queue_wf q"
  shows "q_count q \<le> q_len q" "0 < q_len q" "0 < q_sz q" "q_read q < q_len q" "q_write q < q_len q"
    "length (q_storage q) = q_len q * q_sz q"
  using assms by (simp_all add: queue_wf_def)

lemma queue_wf_lists [simp]:
  "queue_wf (q\<lparr>xTasksWaitingToReceive := ts\<rparr>) = queue_wf q" "queue_wf (q\<lparr>xTasksWaitingToSend := ts\<rparr>) = queue_wf q"
  "queue_wf (q\<lparr>cTxLock := l\<rparr>) = queue_wf q" "queue_wf (q\<lparr>cRxLock := l\<rparr>) = queue_wf q"
  by (simp_all add: queue_wf_def q_write_def q_read_def)

lemma queue_items_lists [simp]:
  "queue_items (q\<lparr>xTasksWaitingToReceive := ts\<rparr>) = queue_items q" "queue_items (q\<lparr>xTasksWaitingToSend := ts\<rparr>) = queue_items q"
  "queue_items (q\<lparr>cTxLock := l\<rparr>) = queue_items q" "queue_items (q\<lparr>cRxLock := l\<rparr>) = queue_items q"
  by (simp_all add: queue_items_def q_slots_def q_read_def)

section \<open>The copies\<close>

lemma q_count_succ:
  assumes "queue_wf q" and "uxMessagesWaiting q < uxLength q"
  shows "unat (uxMessagesWaiting q + 1) = q_count q + 1"
  using assms(2) by (rule unat_succ_less)

lemma copy_to_back:
  assumes wf: "queue_wf q" and room: "uxMessagesWaiting q < uxLength q" and item: "length item = q_sz q"
  shows "queue_wf (prvCopyDataToQueue item queueSEND_TO_BACK q)"
    "queue_items (prvCopyDataToQueue item queueSEND_TO_BACK q) = queue_items q @ [item]"
proof -
  let ?n = "q_len q" and ?sz = "q_sz q" and ?w = "q_write q" and ?r = "q_read q" and ?c = "q_count q"
  let ?q = "prvCopyDataToQueue item queueSEND_TO_BACK q" and ?t = "(q_read q + 1) mod q_len q"
  note f = queue_wf_count [OF wf]
  have cn: "?c < ?n" using room by (simp add: word_less_nat_alt)
  have ptr: "pcWriteTo q = ?w * ?sz" "pcReadFrom q = ?r * ?sz" "pcTail q = ?n * ?sz" "?w = (?r + 1 + ?c) mod ?n"
    using wf by (simp_all add: queue_wf_def)
  define w' where "w' = (?w + 1) mod ?n"
  have w'n: "w' < ?n" using f(2) by (simp add: w'_def)
  have nx: "(if ?w * ?sz + ?sz \<ge> ?n * ?sz then 0 else ?w * ?sz + ?sz) = w' * ?sz" unfolding w'_def by (rule pointer_next [OF f(5,3)])
  have q: "?q = q\<lparr>q_storage := store_at (?w * ?sz) item (q_storage q), pcWriteTo := w' * ?sz, uxMessagesWaiting := uxMessagesWaiting q + 1\<rparr>"
    using f(3) item ptr nx by (auto simp: prvCopyDataToQueue_def Let_def split: if_splits)
  have len: "length (store_at (?w * ?sz) item (q_storage q)) = ?n * ?sz"
    using f item mult_le_mono1 [of "Suc ?w" ?n ?sz] by simp
  have cnt: "unat (uxMessagesWaiting q + 1) = ?c + 1" using q_count_succ [OF wf room] .
  have rd: "q_read ?q = ?r" "q_write ?q = w'" using f(3) ptr by (simp_all add: q q_read_def q_write_def)
  have "w' = (?r + 1 + (?c + 1)) mod ?n" unfolding w'_def ptr(4) by (simp add: mod_Suc_eq)
  then show "queue_wf ?q" using f cn len w'n rd ptr cnt unfolding queue_wf_def by (simp add: q)
  have slots: "q_slots ?q = (q_slots q)[?w := item]"
    unfolding q q_slots_def using slot_store [OF f(6,5) item] by simp
  have wt: "(?t + ?c) mod ?n = ?w" unfolding ptr(4) by (simp add: mod_add_left_eq)
  have "ring_dist ?n ?t ?w = ?c" using ring_dist_unique [of ?t ?n ?w ?c] cn f(2,5) wt by simp
  then have same: "ring_slice ?n ((q_slots q)[?w := item]) ?t ?c = ring_slice ?n (q_slots q) ?t ?c"
    using f by (intro ring_slice_update_free) simp_all
  have "queue_items ?q = ring_slice ?n ((q_slots q)[?w := item]) ?t (Suc ?c)"
    unfolding queue_items_def rd slots using cnt by (simp add: q)
  also have "\<dots> = queue_items q @ [item]"
    unfolding ring_slice_Suc same wt using f(5) by (simp add: queue_items_def)
  finally show "queue_items ?q = queue_items q @ [item]" .
qed

lemma copy_from:
  assumes wf: "queue_wf q" and some: "uxMessagesWaiting q > 0" and c: "prvCopyDataFromQueue q = (bs, q1)"
  defines "q' \<equiv> q1\<lparr>uxMessagesWaiting := uxMessagesWaiting q - 1\<rparr>"
  shows "queue_wf q'" "queue_items q = bs # queue_items q'" "length bs = q_sz q"
    "queue_items (q1\<lparr>pcReadFrom := pcReadFrom q\<rparr>) = queue_items q" "queue_wf (q1\<lparr>pcReadFrom := pcReadFrom q\<rparr>)"
proof -
  let ?n = "q_len q" and ?sz = "q_sz q" and ?w = "q_write q" and ?r = "q_read q" and ?c = "q_count q"
  let ?t = "(q_read q + 1) mod q_len q"
  note f = queue_wf_count [OF wf]
  have c0: "0 < ?c" using some by (simp add: word_less_nat_alt)
  have ptr: "pcWriteTo q = ?w * ?sz" "pcReadFrom q = ?r * ?sz" "pcTail q = ?n * ?sz" "?w = (?r + 1 + ?c) mod ?n"
    using wf by (simp_all add: queue_wf_def)
  have tn: "?t < ?n" using f(2) by simp
  have nx: "(if ?r * ?sz + ?sz \<ge> ?n * ?sz then 0 else ?r * ?sz + ?sz) = ?t * ?sz" by (rule pointer_next [OF f(4,3)])
  have q1: "q1 = q\<lparr>pcReadFrom := ?t * ?sz\<rparr>" and bs: "bs = seg (?t * ?sz) ?sz (q_storage q)"
    using c f(3) ptr nx by (auto simp: prvCopyDataFromQueue_def Let_def split: if_splits)
  have fit: "?t * ?sz + ?sz \<le> ?n * ?sz" using mult_le_mono1 [of "Suc ?t" ?n ?sz] tn by simp
  show "length bs = ?sz" using fit f(6) by (simp add: bs)
  have cnt: "unat (uxMessagesWaiting q - 1) = ?c - 1"
    using some by (subst unat_diff_le) (simp_all add: word_le_nat_alt word_less_nat_alt)
  have rd: "q_read q' = ?t" "q_write q' = ?w" using f(3) ptr by (simp_all add: q1 q'_def q_read_def q_write_def)
  have "(?t + 1 + (?c - 1)) mod ?n = ?w" unfolding ptr(4) using c0 by (simp add: mod_add_left_eq mod_Suc_eq)
  then show "queue_wf q'" using f tn rd ptr cnt unfolding queue_wf_def by (simp add: q1 q'_def)
  have head: "ring_slice ?n (q_slots q) ?t 1 = [bs]" using tn by (simp add: ring_slice_def q_slots_def bs)
  have "queue_items q = ring_slice ?n (q_slots q) ?t (1 + (?c - 1))" using c0 by (simp add: queue_items_def)
  also have "\<dots> = [bs] @ ring_slice ?n (q_slots q) ((?t + 1) mod ?n) (?c - 1)" unfolding ring_slice_add head ..
  also have "ring_slice ?n (q_slots q) ((?t + 1) mod ?n) (?c - 1) = queue_items q'"
    unfolding queue_items_def rd using cnt by (simp add: q1 q'_def q_slots_def)
  finally show "queue_items q = bs # queue_items q'" by simp
  show "queue_items (q1\<lparr>pcReadFrom := pcReadFrom q\<rparr>) = queue_items q" "queue_wf (q1\<lparr>pcReadFrom := pcReadFrom q\<rparr>)"
    using wf by (simp_all add: q1)
qed

lemma pointer_previous:
  fixes i n sz :: nat
  assumes "i < n" and "0 < sz"
  shows "(if i * sz < sz then n * sz - sz else i * sz - sz) = (i + (n - 1)) mod n * sz" "((i + (n - 1)) mod n + 1) mod n = i"
proof -
  show "(if i * sz < sz then n * sz - sz else i * sz - sz) = (i + (n - 1)) mod n * sz"
  proof (cases i)
    case 0
    then show ?thesis using assms by (simp add: algebra_simps)
  next
    case (Suc j)
    then have "(i + (n - 1)) mod n = j" using assms(1) by simp
    then show ?thesis using Suc assms(2) by simp
  qed
  show "((i + (n - 1)) mod n + 1) mod n = i" using assms(1) by (cases i) (simp_all add: mod_Suc_eq)
qed

text \<open>
  Sending to the front puts the item before the oldest one; overwriting, on a queue of one item, replaces it.
\<close>

lemma copy_to_front:
  assumes wf: "queue_wf q" and item: "length item = q_sz q" and pos: "pos \<noteq> queueSEND_TO_BACK"
    and n: "n = (if pos = queueOVERWRITE \<and> uxMessagesWaiting q > 0 then uxMessagesWaiting q - 1 else uxMessagesWaiting q)"
    and room: "n < uxLength q"
  shows "queue_wf (prvCopyDataToQueue item pos q) \<longleftrightarrow>
      q_write q = (q_read q + 1 + unat n) mod q_len q"
    "queue_items (prvCopyDataToQueue item pos q) = item # take (unat n) (queue_items q)"
proof -
  let ?l = "q_len q" and ?sz = "q_sz q" and ?r = "q_read q" and ?c = "unat n"
  let ?q = "prvCopyDataToQueue item pos q" and ?t = "(q_read q + 1) mod q_len q"
  note f = queue_wf_count [OF wf]
  have cl: "?c < ?l" using room by (simp add: word_less_nat_alt)
  have le: "?c \<le> q_count q"
    unfolding n by (auto simp: word_less_nat_alt unat_diff_le word_le_nat_alt)
  have ptr: "pcWriteTo q = q_write q * ?sz" "pcReadFrom q = ?r * ?sz" "pcTail q = ?l * ?sz" using wf by (simp_all add: queue_wf_def)
  define r' where "r' = (?r + (?l - 1)) mod ?l"
  have r': "r' < ?l" "(r' + 1) mod ?l = ?r" "(if ?r * ?sz < ?sz then ?l * ?sz - ?sz else ?r * ?sz - ?sz) = r' * ?sz"
    using f(2) pointer_previous [OF f(4,3)] by (simp_all add: r'_def)
  have q: "?q = q\<lparr>q_storage := store_at (?r * ?sz) item (q_storage q), pcReadFrom := r' * ?sz, uxMessagesWaiting := n + 1\<rparr>"
    using f(3) item ptr r'(3) pos n by (auto simp: prvCopyDataToQueue_def Let_def split: if_splits)
  have len: "length (store_at (?r * ?sz) item (q_storage q)) = ?l * ?sz"
    using f item mult_le_mono1 [of "Suc ?r" ?l ?sz] by simp
  have cnt: "unat (n + 1) = ?c + 1" using room by (rule unat_succ_less)
  have rd: "q_read ?q = r'" "q_write ?q = q_write q" using f(3) ptr by (simp_all add: q q_read_def q_write_def)
  have "(r' + 1 + (?c + 1)) mod ?l = (?r + 1 + ?c) mod ?l"
    using r'(2) mod_add_left_eq [of "r' + 1" ?l "?c + 1"] by (simp add: add.commute add.left_commute)
  then show "queue_wf ?q \<longleftrightarrow> q_write q = (?r + 1 + ?c) mod ?l"
    using f cl len r' rd ptr cnt unfolding queue_wf_def by (simp add: q)
  have slots: "q_slots ?q = (q_slots q)[?r := item]" unfolding q q_slots_def using slot_store [OF f(6,4) item] by simp
  have "?r = (?t + (?l - 1)) mod ?l" using f(2,4) by (cases "?r + 1 = ?l") simp_all
  then have "ring_dist ?l ?t ?r = ?l - 1" using ring_dist_unique [of ?t ?l ?r "?l - 1"] f(2,4) by simp
  then have same: "ring_slice ?l ((q_slots q)[?r := item]) ?t ?c = ring_slice ?l (q_slots q) ?t ?c"
    using f cl by (intro ring_slice_update_free) simp_all
  have "queue_items ?q = ring_slice ?l ((q_slots q)[?r := item]) ?r (1 + ?c)"
    unfolding queue_items_def rd slots using cnt r'(2) by (simp add: q)
  also have "\<dots> = [item] @ ring_slice ?l (q_slots q) ?t ?c"
    unfolding ring_slice_add same using f(4) by (simp add: ring_slice_def)
  also have "ring_slice ?l (q_slots q) ?t ?c = take ?c (queue_items q)"
    unfolding queue_items_def using le by (simp add: ring_slice_take)
  finally show "queue_items ?q = item # take ?c (queue_items q)" by simp
qed

text \<open>The three positions as operations on the list of items.\<close>

definition put_item :: "copy_position \<Rightarrow> 'a \<Rightarrow> 'a list \<Rightarrow> 'a list" where
  "put_item pos x xs = (case pos of queueSEND_TO_BACK \<Rightarrow> xs @ [x] | queueSEND_TO_FRONT \<Rightarrow> x # xs | queueOVERWRITE \<Rightarrow> [x])"

definition can_put :: "copy_position \<Rightarrow> Queue_t \<Rightarrow> bool" where
  "can_put pos q \<longleftrightarrow> (if pos = queueOVERWRITE then uxLength q = 1 else uxMessagesWaiting q < uxLength q)"

lemma prvCopyDataToQueue_items:
  assumes wf: "queue_wf q" and item: "length item = q_sz q" and room: "can_put pos q"
  shows "queue_wf (prvCopyDataToQueue item pos q)"
    "queue_items (prvCopyDataToQueue item pos q) = put_item pos item (queue_items q)"
proof -
  have "queue_wf (prvCopyDataToQueue item pos q) \<and>
      queue_items (prvCopyDataToQueue item pos q) = put_item pos item (queue_items q)"
  proof (cases pos)
    case queueSEND_TO_BACK
    then show ?thesis using copy_to_back [OF wf _ item] room by (simp add: can_put_def put_item_def)
  next
    case queueSEND_TO_FRONT
    then have pos: "pos \<noteq> queueSEND_TO_BACK" and lt: "uxMessagesWaiting q < uxLength q" using room by (simp_all add: can_put_def)
    have n: "uxMessagesWaiting q = (if pos = queueOVERWRITE \<and> uxMessagesWaiting q > 0 then uxMessagesWaiting q - 1 else uxMessagesWaiting q)"
      using queueSEND_TO_FRONT by simp
    have "q_write q = (q_read q + 1 + q_count q) mod q_len q" using wf by (simp add: queue_wf_def)
    then show ?thesis using copy_to_front [OF wf item pos n lt] queueSEND_TO_FRONT by (simp add: put_item_def)
  next
    case queueOVERWRITE
    then have pos: "pos \<noteq> queueSEND_TO_BACK" and one: "uxLength q = 1" using room by (simp_all add: can_put_def)
    have c: "q_count q \<le> 1" "q_write q = 0" using queue_wf_count [OF wf] one by simp_all
    then have "uxMessagesWaiting q = 0 \<or> uxMessagesWaiting q = 1" by (simp add: word_unat_eq_iff) linarith
    then have n: "0 = (if pos = queueOVERWRITE \<and> uxMessagesWaiting q > 0 then uxMessagesWaiting q - 1 else uxMessagesWaiting q)"
      using queueOVERWRITE by auto
    have "(0 :: u32) < uxLength q" using one by simp
    from copy_to_front [OF wf item pos n this] show ?thesis using c one queueOVERWRITE by (simp add: put_item_def)
  qed
  then show "queue_wf (prvCopyDataToQueue item pos q)"
    "queue_items (prvCopyDataToQueue item pos q) = put_item pos item (queue_items q)" by simp_all
qed

lemma prvCopyDataToQueue_frame [simp]:
  "uxLength (prvCopyDataToQueue item pos q) = uxLength q" "uxItemSize (prvCopyDataToQueue item pos q) = uxItemSize q"
  "xTasksWaitingToReceive (prvCopyDataToQueue item pos q) = xTasksWaitingToReceive q"
  "xTasksWaitingToSend (prvCopyDataToQueue item pos q) = xTasksWaitingToSend q"
  "cTxLock (prvCopyDataToQueue item pos q) = cTxLock q" "cRxLock (prvCopyDataToQueue item pos q) = cRxLock q"
  by (simp_all add: prvCopyDataToQueue_def Let_def)

lemma prvCopyDataFromQueue_frame:
  assumes "prvCopyDataFromQueue q = (bs, q1)"
  shows "uxLength q1 = uxLength q" "uxItemSize q1 = uxItemSize q" "cTxLock q1 = cTxLock q" "cRxLock q1 = cRxLock q"
    "xTasksWaitingToReceive q1 = xTasksWaitingToReceive q" "xTasksWaitingToSend q1 = xTasksWaitingToSend q"
  using assms by (auto simp: prvCopyDataFromQueue_def Let_def split: if_splits)

text \<open>Unblocking a task changes only the lists and the scheduler.\<close>

lemma unblock_receiver_eq:
  "unblock_receiver (q, k) =
     (q\<lparr>xTasksWaitingToReceive := tl (xTasksWaitingToReceive q)\<rparr>,
      k\<lparr>made_ready := made_ready k @ map fst (take 1 (xTasksWaitingToReceive q)),
        yield_requested := (yield_requested k \<or> (\<exists>x\<in>set (take 1 (xTasksWaitingToReceive q)). uxCurrentPriority k < snd x))\<rparr>)"
  by (cases "xTasksWaitingToReceive q") (auto simp: unblock_receiver_def xTaskRemoveFromEventList_def request_yield_def)

lemma unblock_sender_eq:
  "unblock_sender (q, k) =
     (q\<lparr>xTasksWaitingToSend := tl (xTasksWaitingToSend q)\<rparr>,
      k\<lparr>made_ready := made_ready k @ map fst (take 1 (xTasksWaitingToSend q)),
        yield_requested := (yield_requested k \<or> (\<exists>x\<in>set (take 1 (xTasksWaitingToSend q)). uxCurrentPriority k < snd x))\<rparr>)"
  by (cases "xTasksWaitingToSend q") (auto simp: unblock_sender_def xTaskRemoveFromEventList_def request_yield_def)

section \<open>The operations on the list of items\<close>

definition queue_ok :: "Queue_t \<times> scheduler \<Rightarrow> bool" where
  "queue_ok qk \<longleftrightarrow> queue_wf (fst qk) \<and> unat (uxCurrentNumberOfTasks (snd qk)) \<le> 127"

definition item_size :: "Queue_t \<times> scheduler \<Rightarrow> nat" where "item_size qk = q_sz (fst qk)"
definition items_of :: "Queue_t \<times> scheduler \<Rightarrow> u8 list list" where "items_of qk = queue_items (fst qk)"
definition capacity_of :: "Queue_t \<times> scheduler \<Rightarrow> nat" where "capacity_of qk = q_len (fst qk)"

lemmas queue_abs = queue_ok_def item_size_def items_of_def capacity_of_def

lemma room_iff: "uxMessagesWaiting q < uxLength q \<longleftrightarrow> length (queue_items q) < q_len q"
  by (simp add: word_less_nat_alt)

lemma some_iff: "uxMessagesWaiting q > 0 \<longleftrightarrow> queue_items q \<noteq> []"
  by (simp add: word_less_nat_alt flip: length_greater_0_conv)

text \<open>Whether a send finds room, and the list of items after it.\<close>

definition accepts :: "copy_position \<Rightarrow> Queue_t \<times> scheduler \<Rightarrow> bool" where
  "accepts pos qk \<longleftrightarrow> length (items_of qk) < capacity_of qk \<or> pos = queueOVERWRITE"

definition valid_position :: "copy_position \<Rightarrow> Queue_t \<times> scheduler \<Rightarrow> bool" where
  "valid_position pos qk \<longleftrightarrow> (pos = queueOVERWRITE \<longrightarrow> capacity_of qk = 1)"

lemma copy_accepted:
  assumes "queue_ok (q, k)" and "length item = q_sz q" and "valid_position pos (q, k)" and "accepts pos (q, k)"
  shows "queue_wf (prvCopyDataToQueue item pos q)"
    "queue_items (prvCopyDataToQueue item pos q) = put_item pos item (queue_items q)"
proof -
  have put: "can_put pos q"
    using assms(3,4) by (auto simp: can_put_def accepts_def valid_position_def queue_abs word_less_nat_alt word_unat_eq_iff)
  have wf: "queue_wf q" using assms(1) by (simp add: queue_abs)
  show "queue_wf (prvCopyDataToQueue item pos q)"
    "queue_items (prvCopyDataToQueue item pos q) = put_item pos item (queue_items q)"
    using prvCopyDataToQueue_items [OF wf assms(2) put] by simp_all
qed

lemma accepts_iff: "accepts pos (q, k) \<longleftrightarrow> uxMessagesWaiting q < uxLength q \<or> pos = queueOVERWRITE"
  by (simp add: accepts_def queue_abs room_iff)

lemma send_attempt_spec:
  assumes "queue_ok qk" and "length item = item_size qk" and "valid_position pos qk"
  shows "\<not> accepts pos qk \<Longrightarrow> send_attempt item pos qk = None"
    "accepts pos qk \<Longrightarrow> \<exists>qk'. send_attempt item pos qk = Some qk' \<and>
       queue_ok qk' \<and> item_size qk' = item_size qk \<and> capacity_of qk' = capacity_of qk \<and> items_of qk' = put_item pos item (items_of qk)"
proof -
  obtain q k where qk: "qk = (q, k)" by fastforce
  show "send_attempt item pos qk = None" if "\<not> accepts pos qk" using that by (simp add: send_attempt_def qk accepts_iff)
  show "\<exists>qk'. send_attempt item pos qk = Some qk' \<and>
       queue_ok qk' \<and> item_size qk' = item_size qk \<and> capacity_of qk' = capacity_of qk \<and> items_of qk' = put_item pos item (items_of qk)"
    if "accepts pos qk"
    using that copy_accepted [of q k item pos] assms
    by (simp add: send_attempt_def qk accepts_iff unblock_receiver_eq) (simp add: queue_abs)
qed

lemma receive_attempt_spec:
  assumes "queue_ok qk"
  shows "receive_attempt qk = None \<longleftrightarrow> items_of qk = []"
    "receive_attempt qk = Some (bs, qk') \<Longrightarrow>
       queue_ok qk' \<and> item_size qk' = item_size qk \<and> capacity_of qk' = capacity_of qk \<and> items_of qk = bs # items_of qk' \<and>
       length bs = item_size qk"
proof -
  obtain q k where qk: "qk = (q, k)" by fastforce
  have wf: "queue_wf q" using assms by (simp add: qk queue_abs)
  obtain b q1 where c: "prvCopyDataFromQueue q = (b, q1)" by fastforce
  have "receive_attempt qk = (if queue_items q \<noteq> [] then Some (b, unblock_sender (q1\<lparr>uxMessagesWaiting := uxMessagesWaiting q - 1\<rparr>, k)) else None)"
    unfolding receive_attempt_def qk by (simp add: c some_iff)
  then show "receive_attempt qk = None \<longleftrightarrow> items_of qk = []"
    "receive_attempt qk = Some (bs, qk') \<Longrightarrow>
       queue_ok qk' \<and> item_size qk' = item_size qk \<and> capacity_of qk' = capacity_of qk \<and> items_of qk = bs # items_of qk' \<and>
       length bs = item_size qk"
    using copy_from [OF wf _ c] prvCopyDataFromQueue_frame [OF c] assms
    by (auto simp: some_iff qk queue_abs unblock_sender_eq split: if_splits)
qed

lemma xQueueGenericSendFromISR_spec:
  assumes "queue_ok qk" and "length item = item_size qk" and "valid_position pos qk"
  obtains qk' where "xQueueGenericSendFromISR item pos qk = Some (accepts pos qk, qk')"
    and "queue_ok qk'" and "item_size qk' = item_size qk" and "capacity_of qk' = capacity_of qk"
    and "items_of qk' = (if accepts pos qk then put_item pos item (items_of qk) else items_of qk)"
proof -
  obtain q k where qk: "qk = (q, k)" by fastforce
  have nt: "unat (uxCurrentNumberOfTasks k) \<le> 127" and valid: "\<not> (pos = queueOVERWRITE \<and> uxLength q \<noteq> 1)"
    using assms(1,3) by (auto simp: qk queue_abs valid_position_def word_unat_eq_iff)
  let ?q = "prvCopyDataToQueue item pos q"
  have nomax: "\<not> (scast (cTxLock q) < uxCurrentNumberOfTasks k \<and> cTxLock q = queueINT8_MAX)"
    using nt by (auto simp: queue_lock_defs word_less_nat_alt)
  show ?thesis
  proof (cases "accepts pos qk")
    case False
    then show ?thesis
      using assms(1) valid by (intro that [of qk]) (simp_all add: xQueueGenericSendFromISR_def qk accepts_iff)
  next
    case True
    have c: "queue_wf ?q" "queue_items ?q = put_item pos item (queue_items q)"
      using copy_accepted [of q k item pos] assms True by (simp_all add: qk item_size_def)
    have r: "xQueueGenericSendFromISR item pos qk =
        (if cTxLock q = queueUNLOCKED then Some (True, unblock_receiver (?q, k))
         else map_option (Pair True) (prvIncrementQueueTxLock (cTxLock q) (?q, k)))"
      using True valid by (auto simp: xQueueGenericSendFromISR_def qk accepts_iff Let_def)
    show ?thesis
    proof (cases "cTxLock q = queueUNLOCKED")
      case unlocked: True
      then show ?thesis
        using True r c nt by (intro that [of "unblock_receiver (?q, k)"]) (simp_all add: qk queue_abs unblock_receiver_eq)
    next
      case False
      let ?q2 = "if scast (cTxLock q) < uxCurrentNumberOfTasks k then ?q\<lparr>cTxLock := cTxLock q + 1\<rparr> else ?q"
      have "prvIncrementQueueTxLock (cTxLock q) (?q, k) = Some (?q2, k)"
        using nomax by (simp add: prvIncrementQueueTxLock_def)
      then show ?thesis
        using True False r c nt by (intro that [of "(?q2, k)"]) (simp_all add: qk queue_abs)
    qed
  qed
qed

lemma xQueueReceiveFromISR_spec:
  assumes "queue_ok qk"
  obtains qk' where "xQueueReceiveFromISR qk = Some (if items_of qk = [] then None else Some (hd (items_of qk)), qk')"
    and "queue_ok qk'" and "item_size qk' = item_size qk" and "capacity_of qk' = capacity_of qk" and "items_of qk' = tl (items_of qk)"
proof -
  obtain q k where qk: "qk = (q, k)" by fastforce
  have wf: "queue_wf q" and nt: "unat (uxCurrentNumberOfTasks k) \<le> 127" using assms by (simp_all add: qk queue_abs)
  obtain b q1 where c: "prvCopyDataFromQueue q = (b, q1)" by fastforce
  let ?q = "q1\<lparr>uxMessagesWaiting := uxMessagesWaiting q - 1\<rparr>"
  note fr = prvCopyDataFromQueue_frame [OF c]
  have nomax: "\<not> (scast (cRxLock q) < uxCurrentNumberOfTasks k \<and> cRxLock q = queueINT8_MAX)"
    using nt by (auto simp: queue_lock_defs word_less_nat_alt)
  show ?thesis
  proof (cases "queue_items q = []")
    case True
    then show ?thesis using assms some_iff [of q] by (intro that [of qk]) (simp_all add: xQueueReceiveFromISR_def qk queue_abs)
  next
    case False
    then have some: "uxMessagesWaiting q > 0" by (simp add: some_iff)
    note it = copy_from [OF wf some c]
    have r: "xQueueReceiveFromISR qk = (if cRxLock q = queueUNLOCKED then Some (Some b, unblock_sender (?q, k))
        else map_option (Pair (Some b)) (prvIncrementQueueRxLock (cRxLock q) (?q, k)))"
      unfolding xQueueReceiveFromISR_def qk using some by (simp add: c Let_def)
    show ?thesis
    proof (cases "cRxLock q = queueUNLOCKED")
      case unlocked: True
      then show ?thesis
        using r it fr nt by (intro that [of "unblock_sender (?q, k)"]) (simp_all add: qk queue_abs unblock_sender_eq)
    next
      case no: False
      let ?q2 = "if scast (cRxLock q) < uxCurrentNumberOfTasks k then ?q\<lparr>cRxLock := cRxLock q + 1\<rparr> else ?q"
      have "prvIncrementQueueRxLock (cRxLock q) (?q, k) = Some (?q2, k)" using nomax by (simp add: prvIncrementQueueRxLock_def)
      then show ?thesis using no r it fr nt by (intro that [of "(?q2, k)"]) (simp_all add: qk queue_abs)
    qed
  qed
qed

lemma peek_attempt_spec:
  assumes "queue_ok qk"
  shows "items_of qk = [] \<Longrightarrow> peek_attempt qk = None"
    "items_of qk \<noteq> [] \<Longrightarrow> \<exists>qk'. peek_attempt qk = Some (hd (items_of qk), qk') \<and>
       queue_ok qk' \<and> item_size qk' = item_size qk \<and> capacity_of qk' = capacity_of qk \<and> items_of qk' = items_of qk"
proof -
  obtain q k where qk: "qk = (q, k)" by fastforce
  have wf: "queue_wf q" using assms by (simp add: qk queue_abs)
  obtain b q1 where c: "prvCopyDataFromQueue q = (b, q1)" by fastforce
  show "peek_attempt qk = None" if "items_of qk = []"
    using that some_iff [of q] by (simp add: peek_attempt_def qk queue_abs)
  show "\<exists>qk'. peek_attempt qk = Some (hd (items_of qk), qk') \<and>
       queue_ok qk' \<and> item_size qk' = item_size qk \<and> capacity_of qk' = capacity_of qk \<and> items_of qk' = items_of qk"
    if "items_of qk \<noteq> []"
  proof -
    have some: "uxMessagesWaiting q > 0" using that by (simp add: qk queue_abs some_iff)
    note it = copy_from [OF wf some c]
    show ?thesis
      unfolding peek_attempt_def qk using some it(2,4,5) assms prvCopyDataFromQueue_frame [OF c]
      by (simp add: c Let_def unblock_receiver_eq) (simp add: qk queue_abs)
  qed
qed

section \<open>The queue as a list\<close>

text \<open>
  The contract that a client passing items from an interrupt to a task relies on, and what follows from it for any
  interleaving of the two sides.
\<close>

datatype 'i handover = Post 'i | Take

locale item_queue =
  fixes invar :: "'q \<Rightarrow> bool"
    and fits :: "'q \<Rightarrow> 'i \<Rightarrow> bool"
    and items :: "'q \<Rightarrow> 'i list"
    and capacity :: "'q \<Rightarrow> nat"
    and post :: "'i \<Rightarrow> 'q \<Rightarrow> bool \<times> 'q"
    and take_one :: "'q \<Rightarrow> 'i option \<times> 'q"
  assumes post_law: "invar q \<Longrightarrow> fits q x \<Longrightarrow> post x q = (ok, q') \<Longrightarrow>
      invar q' \<and> capacity q' = capacity q \<and> fits q' = fits q \<and> ok = (length (items q) < capacity q) \<and>
      items q' = (if ok then items q @ [x] else items q)"
    and take_law: "invar q \<Longrightarrow> take_one q = (r, q') \<Longrightarrow>
      invar q' \<and> capacity q' = capacity q \<and> fits q' = fits q \<and>
      (case r of None \<Rightarrow> items q = [] \<and> items q' = [] | Some x \<Rightarrow> items q = x # items q')"
begin

fun handovers :: "'i handover list \<Rightarrow> 'q \<Rightarrow> 'i list \<times> 'i list \<times> 'q" where
  "handovers [] q = ([], [], q)"
| "handovers (Post x # hs) q =
     (let (ok, q1) = post x q; (posted, taken, q2) = handovers hs q1 in (if ok then x # posted else posted, taken, q2))"
| "handovers (Take # hs) q =
     (let (r, q1) = take_one q; (posted, taken, q2) = handovers hs q1
      in (posted, (case r of None \<Rightarrow> taken | Some x \<Rightarrow> x # taken), q2))"

lemma handovers_conserve:
  assumes "invar q" and "\<forall>x. Post x \<in> set hs \<longrightarrow> fits q x" and "handovers hs q = (posted, taken, q')"
  shows "invar q' \<and> items q @ posted = taken @ items q'"
  using assms
proof (induction hs arbitrary: q posted taken q')
  case Nil
  then show ?case by simp
next
  case (Cons h hs)
  show ?case
  proof (cases h)
    case (Post x)
    obtain ok q1 where p: "post x q = (ok, q1)" by fastforce
    obtain ps ts q2 where r: "handovers hs q1 = (ps, ts, q2)" by (metis prod_cases3)
    have l: "invar q1 \<and> fits q1 = fits q \<and> items q1 = (if ok then items q @ [x] else items q)"
      using post_law [OF Cons.prems(1) _ p] Cons.prems(2) Post by auto
    then have "invar q2 \<and> items q1 @ ps = ts @ items q2" using Cons.IH [OF _ _ r] Cons.prems(2) by auto
    then show ?thesis using Cons.prems(3) Post p r l by (cases ok) auto
  next
    case Take
    obtain x q1 where p: "take_one q = (x, q1)" by fastforce
    obtain ps ts q2 where r: "handovers hs q1 = (ps, ts, q2)" by (metis prod_cases3)
    have l: "invar q1 \<and> fits q1 = fits q \<and> (case x of None \<Rightarrow> items q = [] \<and> items q1 = [] | Some y \<Rightarrow> items q = y # items q1)"
      using take_law [OF Cons.prems(1) p] by simp
    then have "invar q2 \<and> items q1 @ ps = ts @ items q2" using Cons.IH [OF _ _ r] Cons.prems(2) by auto
    then show ?thesis using Cons.prems(3) Take p r l by (auto split: option.splits)
  qed
qed

end

text \<open>The functions the CAN driver calls: the interrupt's send to the back, and the task's receive.\<close>

definition isr_post :: "u8 list \<Rightarrow> Queue_t \<times> scheduler \<Rightarrow> bool \<times> Queue_t \<times> scheduler" where
  "isr_post item qk = (case xQueueGenericSendFromISR item queueSEND_TO_BACK qk of None \<Rightarrow> (False, qk) | Some r \<Rightarrow> r)"

definition task_take :: "Queue_t \<times> scheduler \<Rightarrow> u8 list option \<times> Queue_t \<times> scheduler" where
  "task_take qk = (case xQueueReceive [] 10 qk of None \<Rightarrow> (None, qk) | Some r \<Rightarrow> r)"

lemma xQueueReceive_no_wait:
  "xQueueReceive [] t qk =
     (case receive_attempt qk of Some (bs, qk') \<Rightarrow> Some (Some bs, qk')
      | None \<Rightarrow> if t = 0 \<or> t \<noteq> portMAX_DELAY then Some (None, qk) else None)"
  by (subst xQueueReceive.simps) (simp split: option.split)

lemma xQueuePeek_no_wait:
  "xQueuePeek [] t qk =
     (case peek_attempt qk of Some (bs, qk') \<Rightarrow> Some (Some bs, qk')
      | None \<Rightarrow> if t = 0 \<or> t \<noteq> portMAX_DELAY then Some (None, qk) else None)"
  by (subst xQueuePeek.simps) (simp split: option.split)

lemma xQueueGenericSend_no_wait:
  "\<not> (pos = queueOVERWRITE \<and> uxLength (fst qk) \<noteq> 1) \<Longrightarrow> xQueueGenericSend [] x t pos qk =
     (case send_attempt x pos qk of Some qk' \<Rightarrow> Some (True, qk')
      | None \<Rightarrow> if t = 0 \<or> t \<noteq> portMAX_DELAY then Some (False, qk) else None)"
  by (subst xQueueGenericSend.simps) (simp split: option.split)

lemma xQueueReceive_spec:
  assumes "queue_ok qk" and "xTicksToWait \<noteq> portMAX_DELAY"
  obtains qk' where "xQueueReceive [] xTicksToWait qk = Some (if items_of qk = [] then None else Some (hd (items_of qk)), qk')"
    and "queue_ok qk'" and "item_size qk' = item_size qk" and "capacity_of qk' = capacity_of qk" and "items_of qk' = tl (items_of qk)"
proof (cases "receive_attempt qk")
  case None
  then show ?thesis
    using assms receive_attempt_spec(1) [OF assms(1)] by (intro that [of qk]) (simp_all add: xQueueReceive_no_wait)
next
  case (Some r)
  then obtain bs qk' where r: "receive_attempt qk = Some (bs, qk')" by (cases r) auto
  then show ?thesis
    using receive_attempt_spec(2) [OF assms(1) r] by (intro that [of qk']) (simp_all add: xQueueReceive_no_wait)
qed

interpretation frames: item_queue queue_ok "\<lambda>qk x. length x = item_size qk" items_of capacity_of isr_post task_take
proof (unfold_locales, goal_cases)
  case (1 qk x ok qk')
  have v: "valid_position queueSEND_TO_BACK qk" by (simp add: valid_position_def)
  obtain r where "xQueueGenericSendFromISR x queueSEND_TO_BACK qk = Some (accepts queueSEND_TO_BACK qk, r)" "queue_ok r"
      "item_size r = item_size qk" "capacity_of r = capacity_of qk"
      "items_of r = (if accepts queueSEND_TO_BACK qk then put_item queueSEND_TO_BACK x (items_of qk) else items_of qk)"
    by (rule xQueueGenericSendFromISR_spec [OF 1(1,2) v])
  then show ?case using 1(3) by (auto simp: isr_post_def put_item_def accepts_def split: if_splits)
next
  case (2 qk r qk')
  have "(10 :: u32) \<noteq> portMAX_DELAY" by (simp add: portMAX_DELAY_def)
  then obtain s where "xQueueReceive [] 10 qk = Some (if items_of qk = [] then None else Some (hd (items_of qk)), s)"
      "queue_ok s" "item_size s = item_size qk" "capacity_of s = capacity_of qk" "items_of s = tl (items_of qk)"
    by (rule xQueueReceive_spec [OF 2(1)])
  then show ?case using 2(2) by (cases "items_of qk") (auto simp: task_take_def)
qed

text \<open>All operations, without waiting, against a list of at most \<open>n\<close> items.\<close>

datatype queue_op = Send bool copy_position "u8 list" | Receive bool | Peek
datatype queue_result = Sent bool | Got "u8 list option"

definition kernel_step :: "queue_op \<Rightarrow> Queue_t \<times> scheduler \<Rightarrow> (queue_result \<times> Queue_t \<times> scheduler) option" where
  "kernel_step op qk =
     (case op of
        Send isr pos x \<Rightarrow>
          map_option (\<lambda>(r, s). (Sent r, s)) (if isr then xQueueGenericSendFromISR x pos qk else xQueueGenericSend [] x 0 pos qk)
      | Receive isr \<Rightarrow> map_option (\<lambda>(r, s). (Got r, s)) (if isr then xQueueReceiveFromISR qk else xQueueReceive [] 0 qk)
      | Peek \<Rightarrow> map_option (\<lambda>(r, s). (Got r, s)) (xQueuePeek [] 0 qk))"

fun list_step :: "nat \<Rightarrow> queue_op \<Rightarrow> u8 list list \<Rightarrow> queue_result \<times> u8 list list" where
  "list_step n (Send isr pos x) xs =
     (if length xs < n \<or> pos = queueOVERWRITE then (Sent True, put_item pos x xs) else (Sent False, xs))"
| "list_step n (Receive isr) xs = (case xs of [] \<Rightarrow> (Got None, []) | x # ys \<Rightarrow> (Got (Some x), ys))"
| "list_step n Peek xs = (case xs of [] \<Rightarrow> (Got None, []) | x # ys \<Rightarrow> (Got (Some x), xs))"

fun kernel_run :: "queue_op list \<Rightarrow> Queue_t \<times> scheduler \<Rightarrow> (queue_result list \<times> Queue_t \<times> scheduler) option" where
  "kernel_run [] qk = Some ([], qk)"
| "kernel_run (op # ops) qk =
     (case kernel_step op qk of
        None \<Rightarrow> None
      | Some (r, qk') \<Rightarrow> (case kernel_run ops qk' of None \<Rightarrow> None | Some (rs, qk'') \<Rightarrow> Some (r # rs, qk'')))"

fun list_run :: "nat \<Rightarrow> queue_op list \<Rightarrow> u8 list list \<Rightarrow> queue_result list \<times> u8 list list" where
  "list_run n [] xs = ([], xs)"
| "list_run n (op # ops) xs =
     (let (r, xs') = list_step n op xs; (rs, xs'') = list_run n ops xs' in (r # rs, xs''))"

definition op_ok :: "nat \<Rightarrow> nat \<Rightarrow> queue_op \<Rightarrow> bool" where
  "op_ok n sz op = (case op of Send isr pos x \<Rightarrow> length x = sz \<and> (pos = queueOVERWRITE \<longrightarrow> n = 1) | _ \<Rightarrow> True)"

lemma kernel_step_list:
  assumes "queue_ok qk" and "op_ok (capacity_of qk) (item_size qk) op"
  shows "\<exists>qk'. kernel_step op qk = Some (fst (list_step (capacity_of qk) op (items_of qk)), qk') \<and>
    queue_ok qk' \<and> capacity_of qk' = capacity_of qk \<and> item_size qk' = item_size qk \<and>
    items_of qk' = snd (list_step (capacity_of qk) op (items_of qk))"
proof (cases op)
  case (Send isr pos x)
  then have len: "length x = item_size qk" and v: "valid_position pos qk"
    using assms(2) by (simp_all add: op_ok_def valid_position_def)
  have pre: "\<not> (pos = queueOVERWRITE \<and> uxLength (fst qk) \<noteq> 1)"
    using v by (auto simp: valid_position_def capacity_of_def word_unat_eq_iff)
  show ?thesis
  proof (cases isr)
    case True
    obtain r where "xQueueGenericSendFromISR x pos qk = Some (accepts pos qk, r)" "queue_ok r" "item_size r = item_size qk"
        "capacity_of r = capacity_of qk" "items_of r = (if accepts pos qk then put_item pos x (items_of qk) else items_of qk)"
      by (rule xQueueGenericSendFromISR_spec [OF assms(1) len v])
    then show ?thesis using Send True by (intro exI [of _ r]) (auto simp: kernel_step_def accepts_def)
  next
    case False
    show ?thesis
    proof (cases "accepts pos qk")
      case acc: True
      then obtain r where "send_attempt x pos qk = Some r" "queue_ok r" "item_size r = item_size qk"
          "capacity_of r = capacity_of qk" "items_of r = put_item pos x (items_of qk)"
        using send_attempt_spec(2) [OF assms(1) len v] by blast
      then show ?thesis using Send False acc
        by (intro exI [of _ r]) (simp add: kernel_step_def accepts_def xQueueGenericSend_no_wait [OF pre])
    next
      case no: False
      then show ?thesis
        using Send False assms(1) send_attempt_spec(1) [OF assms(1) len v]
        by (intro exI [of _ qk]) (simp add: kernel_step_def accepts_def xQueueGenericSend_no_wait [OF pre])
    qed
  qed
next
  case (Receive isr)
  have nw: "(0 :: u32) \<noteq> portMAX_DELAY" by (simp add: portMAX_DELAY_def)
  obtain r where r: "(if isr then xQueueReceiveFromISR qk else xQueueReceive [] 0 qk) =
        Some (if items_of qk = [] then None else Some (hd (items_of qk)), r)"
      "queue_ok r" "item_size r = item_size qk" "capacity_of r = capacity_of qk" "items_of r = tl (items_of qk)"
  proof (cases isr)
    case True
    show thesis by (rule xQueueReceiveFromISR_spec [OF assms(1)]) (rule that; simp add: True)
  next
    case False
    show thesis by (rule xQueueReceive_spec [OF assms(1) nw]) (rule that; simp add: False)
  qed
  then show ?thesis using Receive by (cases "items_of qk") (simp_all add: kernel_step_def)
next
  case Peek
  show ?thesis
  proof (cases "items_of qk")
    case Nil
    then show ?thesis
      using Peek peek_attempt_spec(1) [OF assms(1)] assms(1) by (simp add: kernel_step_def xQueuePeek_no_wait)
  next
    case (Cons x xs)
    then obtain r where "peek_attempt qk = Some (x, r)" "queue_ok r" "item_size r = item_size qk"
        "capacity_of r = capacity_of qk" "items_of r = items_of qk"
      using peek_attempt_spec(2) [OF assms(1)] by auto
    then show ?thesis using Peek Cons by (simp add: kernel_step_def xQueuePeek_no_wait)
  qed
qed

lemma kernel_run_list:
  assumes "queue_ok qk" and "\<forall>op\<in>set ops. op_ok (capacity_of qk) (item_size qk) op"
  shows "\<exists>qk'. kernel_run ops qk = Some (fst (list_run (capacity_of qk) ops (items_of qk)), qk') \<and> queue_ok qk' \<and>
    items_of qk' = snd (list_run (capacity_of qk) ops (items_of qk))"
  using assms
proof (induction ops arbitrary: qk)
  case Nil
  then show ?case by simp
next
  case (Cons op ops)
  obtain q1 where q1: "kernel_step op qk = Some (fst (list_step (capacity_of qk) op (items_of qk)), q1)" "queue_ok q1"
      "capacity_of q1 = capacity_of qk" "item_size q1 = item_size qk"
      "items_of q1 = snd (list_step (capacity_of qk) op (items_of qk))"
    using kernel_step_list [OF Cons.prems(1), of op] Cons.prems(2) by auto
  have "\<forall>op\<in>set ops. op_ok (capacity_of q1) (item_size q1) op" using Cons.prems(2) q1(3,4) by simp
  from Cons.IH [OF q1(2) this] show ?case using q1 by (auto simp: case_prod_beta)
qed

section \<open>Creation and the lock\<close>

lemma xQueueGenericCreate_ok:
  assumes "0 < n" and "0 < sz" and "unat n * unat sz \<le> 2 ^ 32 - 81" and "length block = unat n * unat sz"
  shows "\<exists>q. xQueueGenericCreate n sz (Some block) = Some (Some q) \<and> queue_wf q \<and> queue_items q = [] \<and>
    uxLength q = n \<and> uxItemSize q = sz \<and> xTasksWaitingToReceive q = [] \<and> xTasksWaitingToSend q = [] \<and>
    cTxLock q = queueUNLOCKED \<and> cRxLock q = queueUNLOCKED"
proof -
  have n0: "0 < unat n" "0 < unat sz" using assms(1,2) by (simp_all add: word_less_nat_alt)
  have prod: "unat (n * sz) = unat n * unat sz" using assms(3) by (simp add: unat_word_ariths)
  have prod1: "unat ((n - 1) * sz) = (unat n - 1) * unat sz"
  proof -
    have u: "unat (n - 1) = unat n - 1" using assms(1) by (subst unat_diff_le) (simp_all add: word_le_nat_alt word_less_nat_alt)
    have "(unat n - 1) * unat sz \<le> unat n * unat sz" by simp
    moreover have "unat n * unat sz \<le> 4294967215" using assms(3) by simp
    ultimately have "(unat n - 1) * unat sz < 4294967296" by linarith
    then show ?thesis unfolding unat_word_ariths(2) u by simp
  qed
  have max: "unat (- 1 :: u32) = 2 ^ 32 - 1" by (simp add: unsigned_minus_1_eq_mask mask_eq_exp_minus_1)
  have div1: "(- 1 :: u32) div n \<ge> sz"
    unfolding word_le_nat_alt unat_div max using assms(3) n0 by (simp add: less_eq_div_iff_mult_less_eq mult.commute)
  have add1: "- 1 - sizeof_Queue_t \<ge> n * sz"
    unfolding word_le_nat_alt prod using assms(3) by (simp add: sizeof_Queue_t_def)
  have n1: "n \<ge> 1" using n0(1) by (simp add: word_le_nat_alt)
  define q where "q = queue_raw\<lparr>q_storage := block, uxLength := n, uxItemSize := sz, pcTail := unat (n * sz), uxMessagesWaiting := 0,
    pcWriteTo := 0, pcReadFrom := unat ((n - 1) * sz), cRxLock := queueUNLOCKED, cTxLock := queueUNLOCKED,
    xTasksWaitingToSend := [], xTasksWaitingToReceive := []\<rparr>"
  have sz0: "sz \<noteq> 0" using assms(2) by auto
  have c: "xQueueGenericCreate n sz (Some block) = Some (Some q)"
    using assms(1) div1 add1 n1 sz0
    by (simp add: xQueueGenericCreate_def prvInitialiseNewQueue_def xQueueGenericReset_def q_def Let_def)
  have rw: "q_read q = unat n - 1" "q_write q = 0" using n0(2) prod1 by (simp_all add: q_read_def q_write_def q_def)
  have "queue_wf q" unfolding queue_wf_def rw using n0 prod prod1 assms(4) by (simp add: q_def)
  moreover have "queue_items q = []" by (simp add: queue_items_def q_def ring_slice_def)
  ultimately show ?thesis using c by (simp add: q_def)
qed

text \<open>The loop that unblocks receivers after a lock, for a counter of \<open>m\<close> posts.\<close>

lemma unlock_tx_loop_spec:
  assumes "m \<le> 127"
  shows "\<exists>y. unlock_tx_loop (word_of_nat m) (q, k) =
    (q\<lparr>xTasksWaitingToReceive := drop m (xTasksWaitingToReceive q)\<rparr>,
     k\<lparr>made_ready := made_ready k @ map fst (take m (xTasksWaitingToReceive q)), yield_requested := y\<rparr>)"
  using assms
proof (induction m arbitrary: q k)
  case 0
  then show ?case
    by (intro exI [of _ "yield_requested k"]) (simp add: unlock_tx_loop.simps queue_lock_defs)
next
  case (Suc m)
  have "sint (word_of_nat (Suc m) :: u8) = int (Suc m)"
    using Suc.prems by (simp add: signed_of_nat signed_take_bit_int_eq_self del: of_nat_Suc)
  then have pos: "sint (word_of_nat (Suc m) :: u8) > sint queueLOCKED_UNMODIFIED" by (simp add: queue_lock_defs)
  show ?case
  proof (cases "xTasksWaitingToReceive q")
    case Nil
    then show ?thesis
      by (intro exI [of _ "yield_requested k"]) (subst unlock_tx_loop.simps, simp)
  next
    case (Cons t ts)
    have dec: "(word_of_nat (Suc m) :: u8) - 1 = word_of_nat m" by simp
    define q1 where "q1 = q\<lparr>xTasksWaitingToReceive := ts\<rparr>"
    obtain y1 where u: "unblock_receiver (q, k) = (q1, k\<lparr>made_ready := made_ready k @ [fst t], yield_requested := y1\<rparr>)"
      using Cons by (simp add: unblock_receiver_eq q1_def)
    define k1 where "k1 = k\<lparr>made_ready := made_ready k @ [fst t], yield_requested := y1\<rparr>"
    obtain y where y: "unlock_tx_loop (word_of_nat m) (q1, k1) =
        (q1\<lparr>xTasksWaitingToReceive := drop m (xTasksWaitingToReceive q1)\<rparr>,
         k1\<lparr>made_ready := made_ready k1 @ map fst (take m (xTasksWaitingToReceive q1)), yield_requested := y\<rparr>)"
      using Suc.IH [of q1 k1] Suc.prems by auto
    have "unlock_tx_loop (word_of_nat (Suc m)) (q, k) = unlock_tx_loop (word_of_nat m) (q1, k1)"
      using pos Cons u dec by (subst unlock_tx_loop.simps) (simp add: k1_def)
    then show ?thesis unfolding y using Cons by (intro exI [of _ y]) (simp add: q1_def k1_def)
  qed
qed

text \<open>Posts by interrupts while the queue is locked advance the counter, up to the number of tasks.\<close>

fun isr_sends :: "u8 list list \<Rightarrow> Queue_t \<times> scheduler \<Rightarrow> (Queue_t \<times> scheduler) option" where
  "isr_sends [] qk = Some qk"
| "isr_sends (x # xs) qk =
     (case xQueueGenericSendFromISR x queueSEND_TO_BACK qk of None \<Rightarrow> None | Some (r, qk') \<Rightarrow> isr_sends xs qk')"

lemma scast_less:
  assumes "m \<le> 127"
  shows "scast (word_of_nat m :: u8) < (n :: u32) \<longleftrightarrow> m < unat n"
proof -
  have "sint (word_of_nat m :: u8) = int m" using assms by (simp add: signed_of_nat signed_take_bit_int_eq_self)
  then have "scast (word_of_nat m :: u8) = (word_of_nat m :: u32)" by (metis of_int_of_nat_eq scast_eq)
  then show ?thesis using assms by (simp add: word_less_nat_alt word_of_nat_eq_nat_iff)
qed

lemma locked_sends:
  assumes "queue_ok (q, k)" and "\<forall>x\<in>set xs. length x = q_sz q" and "length (queue_items q) + length xs \<le> q_len q"
    and "cTxLock q = word_of_nat m" and "m \<le> unat (uxCurrentNumberOfTasks k)"
  shows "\<exists>q'. isr_sends xs (q, k) = Some (q', k) \<and> queue_ok (q', k) \<and> queue_items q' = queue_items q @ xs \<and>
    cTxLock q' = word_of_nat (min (m + length xs) (unat (uxCurrentNumberOfTasks k))) \<and> cRxLock q' = cRxLock q \<and>
    xTasksWaitingToReceive q' = xTasksWaitingToReceive q \<and> xTasksWaitingToSend q' = xTasksWaitingToSend q"
  using assms
proof (induction xs arbitrary: q m)
  case Nil
  then show ?case by (simp add: min_absorb1)
next
  case (Cons x xs)
  let ?n = "unat (uxCurrentNumberOfTasks k)" and ?q = "prvCopyDataToQueue x queueSEND_TO_BACK q"
  have n127: "?n \<le> 127" using Cons.prems(1) by (simp add: queue_ok_def)
  have acc: "accepts queueSEND_TO_BACK (q, k)" using Cons.prems(3) by (simp add: accepts_def queue_abs)
  have v: "valid_position queueSEND_TO_BACK (q, k)" by (simp add: valid_position_def)
  have len: "length x = q_sz q" using Cons.prems(2) by simp
  note c = copy_accepted [OF Cons.prems(1) len v acc]
  have "(word_of_nat m :: u8) \<noteq> - 1"
  proof
    assume "(word_of_nat m :: u8) = - 1"
    then have "unat (word_of_nat m :: u8) = 255" by (simp add: unsigned_minus_1_eq_mask mask_eq_exp_minus_1)
    then show False using Cons.prems(5) n127 by (simp add: word_of_nat_eq_nat_iff)
  qed
  then have locked: "cTxLock q \<noteq> queueUNLOCKED" using Cons.prems(4) by (simp add: queue_lock_defs)
  define m' where "m' = min (m + 1) ?n"
  define q1 where "q1 = ?q\<lparr>cTxLock := word_of_nat m'\<rparr>"
  have inc: "prvIncrementQueueTxLock (cTxLock q) (?q, k) = Some (q1, k)"
  proof (cases "m < ?n")
    case True
    then have "unat (word_of_nat m :: u8) \<noteq> 127" using n127 by (simp add: word_of_nat_eq_nat_iff)
    then have "(word_of_nat m :: u8) \<noteq> 127" by auto
    then show ?thesis using True n127 Cons.prems(4) scast_less [of m "uxCurrentNumberOfTasks k"]
      by (simp add: prvIncrementQueueTxLock_def q1_def m'_def queue_lock_defs add.commute)
  next
    case False
    then have "m' = m" using Cons.prems(5) by (simp add: m'_def)
    then show ?thesis using False n127 Cons.prems(4,5) scast_less [of m "uxCurrentNumberOfTasks k"]
      by (simp add: prvIncrementQueueTxLock_def q1_def)
  qed
  have send: "xQueueGenericSendFromISR x queueSEND_TO_BACK (q, k) = Some (True, q1, k)"
    using acc locked inc by (simp add: xQueueGenericSendFromISR_def accepts_iff Let_def)
  have ok1: "queue_ok (q1, k)" "queue_items q1 = queue_items q @ [x]" using c Cons.prems(1) by (simp_all add: q1_def queue_ok_def put_item_def)
  have p1: "\<forall>x\<in>set xs. length x = q_sz q1" using Cons.prems(2) by (simp add: q1_def)
  have p2: "length (queue_items q1) + length xs \<le> q_len q1" unfolding ok1(2) using Cons.prems(3) by (simp add: q1_def)
  have p3: "cTxLock q1 = word_of_nat m'" "m' \<le> ?n" by (simp_all add: q1_def m'_def)
  have mm: "min (m' + length xs) ?n = min (m + length (x # xs)) ?n" by (auto simp: m'_def min_def)
  from Cons.IH [OF ok1(1) p1 p2 p3] show ?case
    unfolding ok1(2) mm by (auto simp: send q1_def)
qed

section \<open>Properties\<close>

text \<open>
  Claim C6: a queue is a list of items. A queue created for \<open>n\<close> items of \<open>sz\<close> bytes answers every sequence of operations
  without waiting, from tasks and interrupts, sending to the back or the front, overwriting, receiving and peeking,
  exactly like a list of at most \<open>n\<close> byte strings, and afterwards holds the items of that list, whatever the memory
  of its storage area held before.
\<close>

theorem queue_refines_list:
  assumes "0 < n" and "0 < sz" and "unat n * unat sz \<le> 2 ^ 32 - 81" and "length block = unat n * unat sz"
    and "\<forall>op\<in>set ops. op_ok (unat n) (unat sz) op" and "unat (uxCurrentNumberOfTasks k) \<le> 127"
  shows "\<exists>q qk'. xQueueGenericCreate n sz (Some block) = Some (Some q) \<and>
    kernel_run ops (q, k) = Some (fst (list_run (unat n) ops []), qk') \<and> queue_items (fst qk') = snd (list_run (unat n) ops [])"
proof -
  obtain q where q: "xQueueGenericCreate n sz (Some block) = Some (Some q)" "queue_wf q" "queue_items q = []" "uxLength q = n" "uxItemSize q = sz"
    using xQueueGenericCreate_ok [OF assms(1-4)] by blast
  have abs: "queue_ok (q, k)" "capacity_of (q, k) = unat n" "item_size (q, k) = unat sz" "items_of (q, k) = []"
    using q assms(6) by (simp_all add: queue_abs)
  then show ?thesis using kernel_run_list [of "(q, k)" ops] assms(5) q(1) by (auto simp: items_of_def)
qed

definition scheduler_sample :: scheduler where
  "scheduler_sample = \<lparr>uxCurrentPriority = 1, uxCurrentNumberOfTasks = 8, made_ready = [], yield_requested = False\<rparr>"

theorem queue_refines_list_witness:
  "\<exists>q qk'. xQueueGenericCreate 2 1 (Some [7, 7]) = Some (Some q) \<and>
    kernel_run [Send True queueSEND_TO_BACK [1], Send False queueSEND_TO_FRONT [2], Send True queueSEND_TO_BACK [3], Receive False, Peek]
      (q, scheduler_sample) = Some ([Sent True, Sent True, Sent False, Got (Some [2]), Got (Some [1])], qk') \<and>
    queue_items (fst qk') = [[1]]"
proof -
  let ?ops = "[Send True queueSEND_TO_BACK [1], Send False queueSEND_TO_FRONT [2], Send True queueSEND_TO_BACK [3], Receive False, Peek]"
  have "\<forall>op\<in>set ?ops. op_ok (unat (2 :: u32)) (unat (1 :: u32)) op" by (simp add: op_ok_def)
  from queue_refines_list [of 2 1 "[7, 7]", OF _ _ _ _ this, of scheduler_sample]
  show ?thesis by (simp add: scheduler_sample_def put_item_def)
qed

text \<open>
  Claim C26: no wake-up is lost while a queue is locked. When a task locks a queue, interrupts then post any number of items that
  fit, and the task unlocks the queue, the items are in the queue in order, as many of the tasks that wait for items are made
  ready as items were posted (all of them, if there are fewer), in the order of the list, the rest stays in the list, tasks
  waiting to send are left alone, and the queue is unlocked. The counter of the lock never overflows.
\<close>

theorem queue_lock_keeps_wakeups:
  assumes "queue_wf q" and "cTxLock q = queueUNLOCKED" and "cRxLock q = queueUNLOCKED"
    and "unat (uxCurrentNumberOfTasks k) \<le> 127" and "length (xTasksWaitingToReceive q) \<le> unat (uxCurrentNumberOfTasks k)"
    and "\<forall>x\<in>set xs. length x = unat (uxItemSize q)" and "length (queue_items q) + length xs \<le> unat (uxLength q)"
  shows "\<exists>q1 q' k'. isr_sends xs (prvLockQueue q, k) = Some (q1, k) \<and> prvUnlockQueue (q1, k) = (q', k') \<and>
    queue_wf q' \<and> queue_items q' = queue_items q @ xs \<and>
    made_ready k' = made_ready k @ map fst (take (length xs) (xTasksWaitingToReceive q)) \<and>
    xTasksWaitingToReceive q' = drop (length xs) (xTasksWaitingToReceive q) \<and>
    xTasksWaitingToSend q' = xTasksWaitingToSend q \<and> cTxLock q' = queueUNLOCKED \<and> cRxLock q' = queueUNLOCKED"
proof -
  let ?n = "unat (uxCurrentNumberOfTasks k)" and ?q = "q\<lparr>cRxLock := 0, cTxLock := 0\<rparr>" and ?ts = "xTasksWaitingToReceive q"
  have lock: "prvLockQueue q = ?q" using assms(2,3) by (simp add: prvLockQueue_def queue_lock_defs)
  have ok: "queue_ok (?q, k)" using assms(1,4) by (simp add: queue_ok_def)
  have l0: "cTxLock ?q = word_of_nat 0" "0 \<le> ?n" by simp_all
  obtain q1 where q1: "isr_sends xs (?q, k) = Some (q1, k)" "queue_ok (q1, k)" "queue_items q1 = queue_items q @ xs"
      "cTxLock q1 = word_of_nat (min (length xs) ?n)" "cRxLock q1 = 0" "xTasksWaitingToReceive q1 = ?ts"
      "xTasksWaitingToSend q1 = xTasksWaitingToSend q"
    using locked_sends [OF ok _ _ l0, of xs] assms(6,7) by auto
  let ?m = "min (length xs) ?n"
  have m: "?m \<le> 127" using assms(4) by simp
  have td: "take ?m ?ts = take (length xs) ?ts" "drop ?m ?ts = drop (length xs) ?ts" using assms(5) by (simp_all add: min_def)
  obtain y where u: "unlock_tx_loop (word_of_nat ?m) (q1, k) =
      (q1\<lparr>xTasksWaitingToReceive := drop ?m (xTasksWaitingToReceive q1)\<rparr>,
       k\<lparr>made_ready := made_ready k @ map fst (take ?m (xTasksWaitingToReceive q1)), yield_requested := y\<rparr>)"
    using unlock_tx_loop_spec [OF m, of q1 k] by blast
  have rx: "unlock_rx_loop 0 qk = qk" for qk by (subst unlock_rx_loop.simps) (simp add: queue_lock_defs)
  have "prvUnlockQueue (q1, k) =
      (q1\<lparr>xTasksWaitingToReceive := drop (length xs) ?ts, cTxLock := queueUNLOCKED, cRxLock := queueUNLOCKED\<rparr>,
       k\<lparr>made_ready := made_ready k @ map fst (take (length xs) ?ts), yield_requested := y\<rparr>)"
    unfolding prvUnlockQueue_def using u q1(4,5,6) by (simp add: rx td)
  then show ?thesis using q1 lock by (simp add: queue_ok_def)
qed

theorem queue_lock_keeps_wakeups_witness:
  "\<exists>q q1 q' k'. xQueueGenericCreate 2 1 (Some [0, 0]) = Some (Some q) \<and>
    isr_sends [[5]] (prvLockQueue (q\<lparr>xTasksWaitingToReceive := [(3, 2), (4, 1)]\<rparr>), scheduler_sample) = Some (q1, scheduler_sample) \<and>
    prvUnlockQueue (q1, scheduler_sample) = (q', k') \<and> made_ready k' = [3] \<and> queue_items q' = [[5]]"
proof -
  obtain q where q: "xQueueGenericCreate 2 1 (Some [0, 0]) = Some (Some q)" "queue_wf q" "queue_items q = []" "uxLength q = 2"
      "uxItemSize q = 1" "cTxLock q = queueUNLOCKED" "cRxLock q = queueUNLOCKED"
    using xQueueGenericCreate_ok [of 2 1 "[0, 0]"] by auto
  from queue_lock_keeps_wakeups [of "q\<lparr>xTasksWaitingToReceive := [(3, 2), (4, 1)]\<rparr>" scheduler_sample "[[5]]"]
  show ?thesis using q by (auto simp: scheduler_sample_def)
qed

end
