(* ===== verification/ModuleCan.thy ===== *)
theory ModuleCan
  imports RingBuffer KernelQueue "HOL-Library.Sublist"
begin

text \<open>
  The CAN driver of \<^verbatim>\<open>src/Driver/can/module_can.c\<close>: frames from the bus go from the controller's receive FIFO
  through the interrupt handler into a kernel queue of ten descriptors, and from there through the receive task into the
  receive ring as records of twelve bytes (identifier and eight data bytes); records in the transmit ring are sent by the
  transmit task, one at a time, through mailbox 8. The two routines of the vendor's driver
  that move a frame between the controller's memory and the program, \<open>can_rx_fifo_read\<close> and \<open>can_mailbox_config\<close> of
  \<^verbatim>\<open>gd32h7xx_can.c\<close>, are modelled word by word, because the identifier and the byte order are decided there. The controller itself is a
  parameter: what its memory shows, its flags, and what writing them does.
\<close>

section \<open>Words and descriptors\<close>

text \<open>The byte swap of a word, as both swap routines of the vendor's driver write it.\<close>

definition swap_word :: "u32 \<Rightarrow> u32" where
  "swap_word w =
     (drop_bit 24 w AND 0x000000FF) OR (drop_bit 8 w AND 0x0000FF00) OR
     (push_bit 8 w AND 0x00FF0000) OR (push_bit 24 w AND 0xFF000000)"

text \<open>The loop over the words; a word outside the array is undefined behaviour.\<close>

fun swap_loop :: "nat \<Rightarrow> nat \<Rightarrow> u32 list \<Rightarrow> u32 list \<Rightarrow> u32 list option" where
  "swap_loop 0 i src dest = Some dest"
| "swap_loop (Suc n) i src dest =
     (if i < length src \<and> i < length dest then swap_loop n (i + 1) src (dest[i := swap_word (src ! i)]) else None)"

definition can_data_to_little_endian_swap :: "u32 list \<Rightarrow> nat \<Rightarrow> u32 list option" where
  "can_data_to_little_endian_swap data len =
     (let cnt = (len + 3) div 4
      in case swap_loop cnt 0 data data of
           None \<Rightarrow> None
         | Some dest \<Rightarrow>
             Some (if len mod 4 \<noteq> 0
                   then dest[cnt - 1 := dest ! (cnt - 1) AND (push_bit (len mod 4 * 8) 1 - 1)] else dest))"

definition can_data_to_big_endian_swap :: "u32 list \<Rightarrow> u32 list \<Rightarrow> nat \<Rightarrow> u32 list option" where
  "can_data_to_big_endian_swap dest src len =
     (let cnt = (len + 3) div 4
      in case swap_loop cnt 0 src dest of
           None \<Rightarrow> None
         | Some dest' \<Rightarrow>
             Some (if len mod 4 \<noteq> 0
                   then dest'[cnt - 1 := dest' ! (cnt - 1) AND NOT (push_bit ((4 - len mod 4) * 8) 1 - 1)] else dest'))"

text \<open>The bit fields of the first word of a receive descriptor, and the two identifier fields of the second.\<close>

definition fdes_dlc :: "u32 \<Rightarrow> nat" where "fdes_dlc w = unat (drop_bit 16 w AND 0xF)"
definition fdes_ide :: "u32 \<Rightarrow> bool" where "fdes_ide w = bit w 21"
definition GET_FDES1_ID_EXD :: "u32 \<Rightarrow> u32" where "GET_FDES1_ID_EXD w = w AND 0x1FFFFFFF"
definition GET_FDES1_ID_STD :: "u32 \<Rightarrow> u32" where "GET_FDES1_ID_STD w = drop_bit 18 (w AND 0x1FFC0000)"

section \<open>The controller and the driver's state\<close>

record 'h can_device =
  can_mb :: "'h \<Rightarrow> nat \<Rightarrow> u32"
  fifo_available :: "'h \<Rightarrow> bool"
  clear_fifo_flag :: "'h \<Rightarrow> 'h"
  clear_mailbox_flag :: "'h \<Rightarrow> 'h"
  store_mailbox :: "u32 list \<Rightarrow> 'h \<Rightarrow> 'h"
  mailbox_flag :: "'h \<Rightarrow> bool"
  delay_1ms :: "'h \<Rightarrow> 'h"

record 'h can_state =
  can_rx_ring :: ring_buff_t
  can_tx_ring :: ring_buff_t
  rx_queue :: "Queue_t \<times> scheduler"
  module_rx_buffer :: "u32 list"
  can_hw :: 'h

definition MODULE_RING_BUFFER_RX_SIZE :: u16 where "MODULE_RING_BUFFER_RX_SIZE = 16 * 10"
definition MODULE_RING_BUFFER_TX_SIZE :: u16 where "MODULE_RING_BUFFER_TX_SIZE = 16 * 10"
definition MODULE_CAN_TIMEOUT_MS :: u32 where "MODULE_CAN_TIMEOUT_MS = 100"
definition MODULE_CAN_DATA_BYTES :: nat where "MODULE_CAN_DATA_BYTES = 8"
definition sizeof_can_rx_fifo_struct :: u32 where "sizeof_can_rx_fifo_struct = 16"
definition CAN_RX_QUEUE_LENGTH :: u32 where "CAN_RX_QUEUE_LENGTH = 10"

lemmas can_sizes = MODULE_RING_BUFFER_RX_SIZE_def MODULE_RING_BUFFER_TX_SIZE_def MODULE_CAN_DATA_BYTES_def
  sizeof_can_rx_fifo_struct_def CAN_RX_QUEUE_LENGTH_def

text \<open>
  Initialisation of the handle: \<open>rx\<close>, \<open>tx\<close> and \<open>block\<close> are what the constructors of the rings and the allocator of the queue's storage
  returned; the program goes on without a queue if the allocation fails.
\<close>

definition module_can_init :: "ring_buff_t \<Rightarrow> ring_buff_t \<Rightarrow> u8 list option \<Rightarrow> scheduler \<Rightarrow> 'h \<Rightarrow> 'h can_state option" where
  "module_can_init rx tx block k h =
     (case xQueueGenericCreate CAN_RX_QUEUE_LENGTH sizeof_can_rx_fifo_struct block of
        Some (Some q) \<Rightarrow>
          Some \<lparr>can_rx_ring = rx, can_tx_ring = tx, rx_queue = (q, k), module_rx_buffer = replicate 4 0, can_hw = h\<rparr>
      | _ \<Rightarrow> None)"

section \<open>Receiving\<close>

text \<open>Reading a descriptor from the controller's FIFO into an array of four words.\<close>

definition can_rx_fifo_read :: "'h can_device \<Rightarrow> u32 list \<Rightarrow> 'h \<Rightarrow> (u32 list \<times> 'h) option" where
  "can_rx_fifo_read dev rx_fifo h =
     (if length rx_fifo < 4 then None
      else (let w0 = can_mb dev h 0; w1 = can_mb dev h 1;
                fifo = rx_fifo[0 := w0, 1 := w1, 2 := can_mb dev h 2, 3 := can_mb dev h 3];
                h' = clear_fifo_flag dev h;
                ident = (if fdes_ide (fifo ! 0) then GET_FDES1_ID_EXD (fifo ! 1) else GET_FDES1_ID_STD (fifo ! 1))
            in case can_data_to_little_endian_swap (drop 2 fifo) (fdes_dlc (fifo ! 0)) of
                 None \<Rightarrow> None
               | Some data \<Rightarrow> Some (take 2 (fifo[1 := ident]) @ data, h')))"

definition words_bytes :: "u32 list \<Rightarrow> u8 list" where
  "words_bytes ws = concat (map (le_bytes 4) ws)"

definition MODULE_CAN_IRQHandler :: "'h can_device \<Rightarrow> 'h can_state \<Rightarrow> 'h can_state option" where
  "MODULE_CAN_IRQHandler dev c =
     (if fifo_available dev (can_hw c)
      then (case can_rx_fifo_read dev (module_rx_buffer c) (can_hw c) of
              None \<Rightarrow> None
            | Some (buf, h) \<Rightarrow>
                (case xQueueGenericSendFromISR (words_bytes buf) queueSEND_TO_BACK (rx_queue c) of
                   None \<Rightarrow> None
                 | Some (_, qk) \<Rightarrow>
                     Some (c\<lparr>module_rx_buffer := buf, rx_queue := qk, can_hw := clear_fifo_flag dev h\<rparr>)))
      else Some c)"

text \<open>
  One pass of the receive task's inner loop: a descriptor is the sixteen bytes of the structure, of which the identifier and the data go on.
  The result says whether the queue had one.
\<close>

definition module_rx_task :: "'h can_state \<Rightarrow> (bool \<times> 'h can_state) option" where
  "module_rx_task c =
     (case xQueueReceive [] (pdMS_TO_TICKS 10) (rx_queue c) of
        None \<Rightarrow> None
      | Some (None, qk) \<Rightarrow> Some (False, c\<lparr>rx_queue := qk\<rparr>)
      | Some (Some rx_fifo, qk) \<Rightarrow>
          (let data = seg 4 4 rx_fifo @ seg 8 4 rx_fifo @ seg 12 4 rx_fifo
           in case ring_write (can_rx_ring c) (Some data) (word_of_nat (length data)) MODULE_CAN_TIMEOUT_MS of
                None \<Rightarrow> None
              | Some (_, rb) \<Rightarrow> Some (True, c\<lparr>rx_queue := qk, can_rx_ring := rb\<rparr>)))"

section \<open>Sending\<close>

record can_mailbox_descriptor_struct =
  md_ide :: bool
  md_rtr :: bool
  md_esi :: bool
  md_fdf :: bool
  md_brs :: bool
  md_code :: u32
  md_id :: u32
  md_prio :: u32
  md_data :: "u32 list"
  md_data_bytes :: nat

definition can_struct_para_init_mdsc :: can_mailbox_descriptor_struct where
  "can_struct_para_init_mdsc =
     \<lparr>md_ide = False, md_rtr = False, md_esi = False, md_fdf = False, md_brs = False, md_code = 0, md_id = 0, md_prio = 0,
      md_data = [], md_data_bytes = 0\<rparr>"

definition CAN_MB_TX_STATUS_DATA :: u32 where "CAN_MB_TX_STATUS_DATA = 12"
definition CAN_MB_RX_STATUS_EMPTY :: u32 where "CAN_MB_RX_STATUS_EMPTY = 4"

definition can_dlc_value_compute :: "nat \<Rightarrow> nat" where
  "can_dlc_value_compute payload_size =
     (if payload_size \<le> 8 then payload_size
      else if payload_size \<le> 24 then (payload_size - 9) div 4 + 9
      else if payload_size \<le> 64 then (payload_size - 17) div 16 + 13
      else 8)"

text \<open>
  The four words of the mailbox; the data size of a mailbox is eight bytes, the reset value of its register, which the driver does not change.
\<close>

definition can_mailbox_words :: "can_mailbox_descriptor_struct \<Rightarrow> u32 list option" where
  "can_mailbox_words md =
     (let m0 = (if md_rtr md then push_bit 20 1 else 0);
          m0 = (if md_ide md then m0 OR push_bit 21 1 OR push_bit 22 1 else m0);
          m1 = (if md_ide md then md_id md AND 0x1FFFFFFF else push_bit 18 (md_id md) AND 0x1FFC0000);
          m0 = m0 OR (push_bit 24 (md_code md) AND 0x0F000000)
      in if md_code md = CAN_MB_RX_STATUS_EMPTY then Some [m0, m1, 0, 0]
         else (let has = md_data_bytes md \<noteq> 0;
                   m0 = (if has then m0 OR (push_bit 16 (word_of_nat (can_dlc_value_compute (md_data_bytes md))) AND 0x000F0000) else m0);
                   data = (if has then can_data_to_big_endian_swap [0, 0] (md_data md) (min (md_data_bytes md) 8) else Some [0, 0]);
                   m0 = (if md_code md = CAN_MB_TX_STATUS_DATA
                         then (let m = (if md_esi md then m0 OR push_bit 29 1 else m0)
                               in if md_fdf md
                                  then (let m' = m OR push_bit 31 1; m'' = (if md_brs md then m' OR push_bit 30 1 else m')
                                        in m'' AND NOT (push_bit 20 1))
                                  else m)
                         else m0);
                   m1 = m1 OR (push_bit 29 (md_prio md) AND 0xE0000000)
               in case data of None \<Rightarrow> None | Some [d0, d1] \<Rightarrow> Some [m0, m1, d0, d1] | _ \<Rightarrow> None))"

definition can_mailbox_config :: "'h can_device \<Rightarrow> can_mailbox_descriptor_struct \<Rightarrow> 'h \<Rightarrow> 'h option" where
  "can_mailbox_config dev md h =
     (case can_mailbox_words md of None \<Rightarrow> None | Some ws \<Rightarrow> Some (store_mailbox dev ws (clear_mailbox_flag dev h)))"

text \<open>The wait for the end of the transmission, which may never end.\<close>

partial_function (option) wait_transmitted :: "'h can_device \<Rightarrow> 'h \<Rightarrow> 'h option" where
  "wait_transmitted dev h = (if mailbox_flag dev h then Some h else wait_transmitted dev (delay_1ms dev h))"

text \<open>The descriptor the transmit task fills in from the three words of a record.\<close>

definition tx_descriptor :: "u32 list \<Rightarrow> can_mailbox_descriptor_struct" where
  "tx_descriptor data =
     can_struct_para_init_mdsc\<lparr>md_ide := True, md_rtr := False, md_esi := False, md_code := CAN_MB_TX_STATUS_DATA,
       md_data_bytes := MODULE_CAN_DATA_BYTES, md_id := data ! 0 AND 0x1FFFFFFF, md_data := drop 1 data\<rparr>"

definition bytes_words :: "u8 list \<Rightarrow> u32 list" where
  "bytes_words bs = map (\<lambda>i. le_word (seg (4 * i) 4 bs)) [0..<length bs div 4]"

text \<open>
  One turn of the transmit task: the loop runs until the ring is empty. \<open>data\<close> is the task's array of three words; a read of
  fewer than twelve bytes leaves the words behind it as they were.
\<close>

partial_function (option) tx_loop :: "'h can_device \<Rightarrow> u8 list \<times> 'h can_state \<Rightarrow> (u8 list \<times> 'h can_state) option" where
  "tx_loop dev dc =
     (let (data, c) = dc
      in case ring_is_empty (can_tx_ring c) of
           None \<Rightarrow> None
         | Some is_empty \<Rightarrow>
             if is_empty then Some (data, c)
             else (case ring_read (can_tx_ring c) True 12 MODULE_CAN_TIMEOUT_MS of
                     None \<Rightarrow> None
                   | Some (ret, bs, rb) \<Rightarrow>
                       (let data' = store_at 0 bs data; c1 = c\<lparr>can_tx_ring := rb\<rparr>
                        in if ret > 0
                           then (case can_mailbox_config dev (tx_descriptor (bytes_words data')) (can_hw c1) of
                                   None \<Rightarrow> None
                                 | Some h \<Rightarrow>
                                     (case wait_transmitted dev h of
                                        None \<Rightarrow> None
                                      | Some h' \<Rightarrow> tx_loop dev (data', c1\<lparr>can_hw := clear_mailbox_flag dev h'\<rparr>)))
                           else tx_loop dev (data', c1))))"

definition module_tx_task :: "'h can_device \<Rightarrow> u8 list \<times> 'h can_state \<Rightarrow> (u8 list \<times> 'h can_state) option" where
  "module_tx_task dev dc = tx_loop dev dc"

declare wait_transmitted.simps [code] tx_loop.simps [code]

section \<open>The byte order\<close>

lemma swap_masks:
  "(0x000000FF :: u32) = mask 8" "(0x0000FF00 :: u32) = push_bit 8 (mask 8)"
  "(0x00FF0000 :: u32) = push_bit 16 (mask 8)" "(0xFF000000 :: u32) = push_bit 24 (mask 8)"
  by (simp_all add: mask_eq_exp_minus_1)

lemma bit_swap_word:
  "bit (swap_word w) i \<longleftrightarrow>
     (if i < 8 then bit w (24 + i) else if i < 16 then bit w (8 + i) else if i < 24 then bit w (i - 8)
      else if i < 32 then bit w (i - 24) else False)"
  unfolding swap_word_def swap_masks
  by (auto simp: bit_or_iff bit_and_iff bit_push_bit_iff bit_drop_bit_eq bit_mask_iff dest: bit_imp_le_length)

lemma swap_word_swap_word [simp]: "swap_word (swap_word w) = w"
proof (rule bit_word_eqI)
  fix i
  assume "i < LENGTH(32)"
  then have i: "i < 32" by simp
  then consider "i < 8" | "8 \<le> i" "i < 16" | "16 \<le> i" "i < 24" | "24 \<le> i" "i < 32" by linarith
  then show "bit (swap_word (swap_word w)) i = bit w i" by cases (auto simp: bit_swap_word)
qed

lemma swap_loop_two:
  assumes "length src = 2" and "length dest = 2"
  shows "swap_loop n 0 src dest =
    (if n = 0 then Some dest else if n = 1 then Some [swap_word (src ! 0), dest ! 1]
     else if n = 2 then Some [swap_word (src ! 0), swap_word (src ! 1)] else None)"
proof -
  obtain s0 s1 d0 d1 where l: "src = [s0, s1]" "dest = [d0, d1]"
    using assms by (metis (no_types, opaque_lifting) One_nat_def Suc_1 length_0_conv length_Suc_conv)
  consider "n = 0" | "n = 1" | "n = 2" | m where "n = Suc (Suc (Suc m))"
    by (metis One_nat_def Suc_1 not0_implies_Suc)
  then show ?thesis
  proof cases
    case 3
    then show ?thesis by (simp add: l numeral_2_eq_2)
  qed (simp_all add: l)
qed

text \<open>The swap of a received frame stays inside the two data words exactly for lengths up to eight.\<close>

lemma little_endian_swap_defined:
  assumes "length data = 2"
  shows "can_data_to_little_endian_swap data len = None \<longleftrightarrow> 8 < len"
    "can_data_to_little_endian_swap data len = Some data' \<Longrightarrow> length data' = 2"
    "can_data_to_little_endian_swap data 8 = Some [swap_word (data ! 0), swap_word (data ! 1)]"
proof -
  have "(len + 3) div 4 \<le> 2 \<longleftrightarrow> len \<le> 8" by auto
  then have "(len + 3) div 4 = 0 \<or> (len + 3) div 4 = 1 \<or> (len + 3) div 4 = 2 \<longleftrightarrow> len \<le> 8" by linarith
  then show "can_data_to_little_endian_swap data len = None \<longleftrightarrow> 8 < len"
    unfolding can_data_to_little_endian_swap_def Let_def swap_loop_two [OF assms assms] by (auto split: if_splits)
  show "length data' = 2" if "can_data_to_little_endian_swap data len = Some data'"
    using that assms unfolding can_data_to_little_endian_swap_def Let_def swap_loop_two [OF assms assms]
    by (auto split: if_splits)
  show "can_data_to_little_endian_swap data 8 = Some [swap_word (data ! 0), swap_word (data ! 1)]"
    unfolding can_data_to_little_endian_swap_def Let_def swap_loop_two [OF assms assms] by simp
qed

section \<open>Frames\<close>

text \<open>The descriptor the controller shows, as the driver sees it after reading.\<close>

definition shown_id :: "'h can_device \<Rightarrow> 'h \<Rightarrow> u32" where
  "shown_id dev h =
     (if fdes_ide (can_mb dev h 0) then GET_FDES1_ID_EXD (can_mb dev h 1) else GET_FDES1_ID_STD (can_mb dev h 1))"

lemma length_4: "length xs = 4 \<Longrightarrow> \<exists>a b c d. xs = [a, b, c, d]"
  by (auto simp: numeral_eq_Suc length_Suc_conv)

lemma can_rx_fifo_read_words:
  assumes "length buf = 4"
  shows "can_rx_fifo_read dev buf h =
    (case can_data_to_little_endian_swap [can_mb dev h 2, can_mb dev h 3] (fdes_dlc (can_mb dev h 0)) of
       None \<Rightarrow> None | Some data \<Rightarrow> Some ([can_mb dev h 0, shown_id dev h] @ data, clear_fifo_flag dev h))"
proof -
  obtain a b c d where "buf = [a, b, c, d]" using length_4 [OF assms] by blast
  then show ?thesis
    by (simp add: can_rx_fifo_read_def Let_def shown_id_def numeral_3_eq_3 numeral_2_eq_2 split: option.split)
qed

definition record_bytes :: "u8 list \<Rightarrow> u8 list" where
  "record_bytes item = seg 4 4 item @ seg 8 4 item @ seg 12 4 item"

lemma length_words_bytes [simp]: "length (words_bytes ws) = 4 * length ws"
  by (induction ws) (simp_all add: words_bytes_def)

lemma words_bytes_4: "words_bytes [a, b, c, d] = le_bytes 4 a @ le_bytes 4 b @ le_bytes 4 c @ le_bytes 4 d"
  by (simp add: words_bytes_def)

lemma record_of_words:
  assumes "length buf = 4"
  shows "record_bytes (words_bytes buf) = words_bytes (drop 1 buf)" "length (words_bytes (drop 1 buf)) = 12"
proof -
  obtain a b c d where l: "buf = [a, b, c, d]" using length_4 [OF assms] by blast
  show "record_bytes (words_bytes buf) = words_bytes (drop 1 buf)"
    by (simp add: l words_bytes_4 record_bytes_def seg_def words_bytes_def)
  show "length (words_bytes (drop 1 buf)) = 12" by (simp add: l)
qed

section \<open>The receive path\<close>

definition can_rx_ok :: "'h can_state \<Rightarrow> bool" where
  "can_rx_ok c \<longleftrightarrow> ring_ready (can_rx_ring c) \<and> rb_size (can_rx_ring c) = MODULE_RING_BUFFER_RX_SIZE \<and>
     queue_ok (rx_queue c) \<and> item_size (rx_queue c) = 16 \<and> capacity_of (rx_queue c) = 10 \<and> length (module_rx_buffer c) = 4"

lemma irq_fault:
  assumes "can_rx_ok c" and "fifo_available dev (can_hw c)"
  shows "MODULE_CAN_IRQHandler dev c = None \<longleftrightarrow> 8 < fdes_dlc (can_mb dev (can_hw c) 0)"
    "\<not> 8 < fdes_dlc (can_mb dev (can_hw c) 0) \<Longrightarrow>
      \<exists>c' data. MODULE_CAN_IRQHandler dev c = Some c' \<and> can_rx_ok c' \<and> can_rx_ring c' = can_rx_ring c \<and>
        can_data_to_little_endian_swap [can_mb dev (can_hw c) 2, can_mb dev (can_hw c) 3] (fdes_dlc (can_mb dev (can_hw c) 0)) = Some data \<and>
        items_of (rx_queue c') = (if length (items_of (rx_queue c)) < 10
          then items_of (rx_queue c) @ [words_bytes ([can_mb dev (can_hw c) 0, shown_id dev (can_hw c)] @ data)]
          else items_of (rx_queue c))"
proof -
  let ?h = "can_hw c" and ?two = "[can_mb dev (can_hw c) 2, can_mb dev (can_hw c) 3]"
  have ok: "length (module_rx_buffer c) = 4" "queue_ok (rx_queue c)" "item_size (rx_queue c) = 16" "capacity_of (rx_queue c) = 10"
    using assms(1) by (simp_all add: can_rx_ok_def)
  have two: "length ?two = 2" by simp
  note rd = can_rx_fifo_read_words [OF ok(1), of dev ?h]
  have send: "\<exists>qk. xQueueGenericSendFromISR (words_bytes ([can_mb dev ?h 0, shown_id dev ?h] @ data)) queueSEND_TO_BACK (rx_queue c) =
        Some (length (items_of (rx_queue c)) < 10, qk) \<and> queue_ok qk \<and> item_size qk = 16 \<and> capacity_of qk = 10 \<and>
      items_of qk = (if length (items_of (rx_queue c)) < 10
        then items_of (rx_queue c) @ [words_bytes ([can_mb dev ?h 0, shown_id dev ?h] @ data)] else items_of (rx_queue c))"
    if "length data = 2" for data
  proof -
    have len: "length (words_bytes ([can_mb dev ?h 0, shown_id dev ?h] @ data)) = item_size (rx_queue c)" using that ok(3) by simp
    have v: "valid_position queueSEND_TO_BACK (rx_queue c)" by (simp add: valid_position_def)
    show ?thesis
      by (rule xQueueGenericSendFromISR_spec [OF ok(2) len v]) (auto simp: accepts_def put_item_def ok)
  qed
  show "MODULE_CAN_IRQHandler dev c = None \<longleftrightarrow> 8 < fdes_dlc (can_mb dev ?h 0)"
  proof (cases "can_data_to_little_endian_swap ?two (fdes_dlc (can_mb dev ?h 0))")
    case None
    then have "8 < fdes_dlc (can_mb dev ?h 0)" using little_endian_swap_defined(1) [OF two] by blast
    moreover have "MODULE_CAN_IRQHandler dev c = None" using assms(2) by (simp add: MODULE_CAN_IRQHandler_def rd None)
    ultimately show ?thesis by simp
  next
    case (Some data)
    then have "length data = 2" using little_endian_swap_defined(2) [OF two] by blast
    from send [OF this] have "MODULE_CAN_IRQHandler dev c \<noteq> None" using assms(2) by (auto simp: MODULE_CAN_IRQHandler_def rd Some)
    moreover have "\<not> 8 < fdes_dlc (can_mb dev ?h 0)" using Some little_endian_swap_defined(1) [OF two] by (metis option.distinct(1))
    ultimately show ?thesis by simp
  qed
  assume "\<not> 8 < fdes_dlc (can_mb dev ?h 0)"
  then obtain data where data: "can_data_to_little_endian_swap ?two (fdes_dlc (can_mb dev ?h 0)) = Some data"
    using little_endian_swap_defined(1) [OF two, of "fdes_dlc (can_mb dev ?h 0)"] by blast
  then have l2: "length data = 2" using little_endian_swap_defined(2) [OF two] by blast
  from send [OF this] obtain qk where qk: "xQueueGenericSendFromISR (words_bytes ([can_mb dev ?h 0, shown_id dev ?h] @ data)) queueSEND_TO_BACK (rx_queue c) =
        Some (length (items_of (rx_queue c)) < 10, qk)" "queue_ok qk" "item_size qk = 16" "capacity_of qk = 10"
      "items_of qk = (if length (items_of (rx_queue c)) < 10
        then items_of (rx_queue c) @ [words_bytes ([can_mb dev ?h 0, shown_id dev ?h] @ data)] else items_of (rx_queue c))" by blast
  show "\<exists>c' data. MODULE_CAN_IRQHandler dev c = Some c' \<and> can_rx_ok c' \<and> can_rx_ring c' = can_rx_ring c \<and>
        can_data_to_little_endian_swap ?two (fdes_dlc (can_mb dev ?h 0)) = Some data \<and>
        items_of (rx_queue c') = (if length (items_of (rx_queue c)) < 10
          then items_of (rx_queue c) @ [words_bytes ([can_mb dev ?h 0, shown_id dev ?h] @ data)] else items_of (rx_queue c))"
    using assms qk data l2
    by (intro exI [of _ "c\<lparr>module_rx_buffer := [can_mb dev ?h 0, shown_id dev ?h] @ data, rx_queue := qk,
        can_hw := clear_fifo_flag dev (clear_fifo_flag dev ?h)\<rparr>"] exI [of _ data])
      (simp add: MODULE_CAN_IRQHandler_def rd can_rx_ok_def)
qed

lemma length_record_bytes: "length item = 16 \<Longrightarrow> length (record_bytes item) = 12"
  by (simp add: record_bytes_def)

lemma module_rx_task_ok:
  assumes "can_rx_ok c"
  obtains (empty) c' where "items_of (rx_queue c) = []" and "module_rx_task c = Some (False, c')" and "can_rx_ok c'"
      and "can_rx_ring c' = can_rx_ring c" and "items_of (rx_queue c') = []"
  | (item) c' x where "module_rx_task c = Some (True, c')" and "can_rx_ok c'"
      and "items_of (rx_queue c) = x # items_of (rx_queue c')" and "length x = 16"
      and "ring_contents (can_rx_ring c') = (if length (ring_contents (can_rx_ring c)) + 12 \<le> 160
        then ring_contents (can_rx_ring c) @ record_bytes x else ring_contents (can_rx_ring c))"
proof -
  have ok: "ring_ready (can_rx_ring c)" "rb_size (can_rx_ring c) = 160" "queue_ok (rx_queue c)" "item_size (rx_queue c) = 16"
      "capacity_of (rx_queue c) = 10" "length (module_rx_buffer c) = 4"
    using assms by (simp_all add: can_rx_ok_def can_sizes)
  have nw: "pdMS_TO_TICKS 10 \<noteq> portMAX_DELAY" by (simp add: pdMS_TO_TICKS_def configTICK_RATE_HZ_def portMAX_DELAY_def)
  have frame: "can_rx_ok (c\<lparr>rx_queue := qk\<rparr>)" if "queue_ok qk" "item_size qk = 16" "capacity_of qk = 10" for qk
    using that assms by (simp add: can_rx_ok_def)
  show thesis
  proof (cases "receive_attempt (rx_queue c)")
    case None
    then have e: "items_of (rx_queue c) = []" using receive_attempt_spec(1) [OF ok(3)] by simp
    have "module_rx_task c = Some (False, c)" using nw None by (simp add: module_rx_task_def xQueueReceive_no_wait)
    then show thesis using e assms by (intro empty [of c]) simp_all
  next
    case (Some r)
    then obtain x qk where r: "receive_attempt (rx_queue c) = Some (x, qk)" by (cases r) auto
    note s = receive_attempt_spec(2) [OF ok(3) r]
    let ?d = "record_bytes x"
    have x: "length x = 16" using s ok(4) by simp
    have d: "length ?d = 12" using length_record_bytes [OF x] .
    have n: "(word_of_nat 12 :: u16) \<noteq> 0" "unat (word_of_nat 12 :: u16) = 12" by simp_all
    obtain rb where w: "ring_write (can_rx_ring c) (Some ?d) (word_of_nat 12) MODULE_CAN_TIMEOUT_MS =
          Some (if length (ring_contents (can_rx_ring c)) + unat (word_of_nat 12 :: u16) \<le> unat (rb_size (can_rx_ring c))
            then uint (word_of_nat 12 :: u16) else -1, rb)" "ring_ready rb" "rb_size rb = rb_size (can_rx_ring c)"
        "ring_contents rb = (if length (ring_contents (can_rx_ring c)) + unat (word_of_nat 12 :: u16) \<le> unat (rb_size (can_rx_ring c))
          then ring_contents (can_rx_ring c) @ take (unat (word_of_nat 12 :: u16)) ?d else ring_contents (can_rx_ring c))"
      by (rule ring_write_ready [OF ok(1) n(1), of ?d MODULE_CAN_TIMEOUT_MS]) (use d n(2) in simp_all)
    have "module_rx_task c = Some (True, c\<lparr>rx_queue := qk, can_rx_ring := rb\<rparr>)"
      using r w(1) d by (simp add: module_rx_task_def xQueueReceive_no_wait record_bytes_def [symmetric] Let_def)
    moreover have "can_rx_ok (c\<lparr>rx_queue := qk, can_rx_ring := rb\<rparr>)"
      using assms s ok w(2,3) by (simp add: can_rx_ok_def)
    ultimately show thesis using s x w(4) ok(2) d n(2) by (intro item [of "c\<lparr>rx_queue := qk, can_rx_ring := rb\<rparr>" x]) simp_all
  qed
qed

text \<open>A client reads a record from the receive ring.\<close>

definition can_read :: "'h can_state \<Rightarrow> (u8 list \<times> 'h can_state) option" where
  "can_read c =
     (case ring_read (can_rx_ring c) True 12 10 of
        None \<Rightarrow> None | Some (_, bs, rb) \<Rightarrow> Some (bs, c\<lparr>can_rx_ring := rb\<rparr>))"

lemma can_read_ok:
  assumes "can_rx_ok c"
  obtains c' where "can_read c = Some (take 12 (ring_contents (can_rx_ring c)), c')" and "can_rx_ok c'"
    and "ring_contents (can_rx_ring c') = drop 12 (ring_contents (can_rx_ring c))" and "rx_queue c' = rx_queue c"
proof -
  have r: "ring_ready (can_rx_ring c)" using assms by (simp add: can_rx_ok_def)
  obtain rb where "ring_read (can_rx_ring c) True 12 10 = Some (int (length (take (unat (12 :: u16)) (ring_contents (can_rx_ring c)))),
        take (unat (12 :: u16)) (ring_contents (can_rx_ring c)), rb)"
      "ring_ready rb" "rb_size rb = rb_size (can_rx_ring c)" "ring_contents rb = drop (unat (12 :: u16)) (ring_contents (can_rx_ring c))"
    by (rule ring_read_ready [OF r])
  then show ?thesis using assms by (intro that [of "c\<lparr>can_rx_ring := rb\<rparr>"]) (simp_all add: can_read_def can_rx_ok_def)
qed

text \<open>
  Runs of the receive path: interrupts, passes of the receive task, reads by a client, and changes of the controller
  in any order. Each is one step. For an interrupt that preempts a task this is no restriction, since it shares only the queue with
  them, which the tasks use in critical sections. A pass of the task and a read by a client share the ring and take
  different mutexes of it, so the runs are those in which neither preempts the other inside a call of the ring. The first list holds the records of the frames the interrupt handler read, the second
  the records delivered to the client; at most \<open>n\<close> are outstanding when an interrupt comes.
\<close>

inductive can_rx_runs :: "'h can_device \<Rightarrow> nat \<Rightarrow> 'h can_state \<Rightarrow> u8 list list \<Rightarrow> u8 list list \<Rightarrow> 'h can_state \<Rightarrow> bool"
  for dev n c0 where
  start: "can_rx_runs dev n c0 [] [] c0"
| irq: "can_rx_runs dev n c0 a d c \<Longrightarrow> fifo_available dev (can_hw c) \<Longrightarrow>
    can_rx_fifo_read dev (module_rx_buffer c) (can_hw c) = Some (buf, h) \<Longrightarrow> MODULE_CAN_IRQHandler dev c = Some c' \<Longrightarrow>
    length a < length d + n \<Longrightarrow> can_rx_runs dev n c0 (a @ [words_bytes (drop 1 buf)]) d c'"
| task: "can_rx_runs dev n c0 a d c \<Longrightarrow> module_rx_task c = Some (r, c') \<Longrightarrow> can_rx_runs dev n c0 a d c'"
| read: "can_rx_runs dev n c0 a d c \<Longrightarrow> can_read c = Some (bs, c') \<Longrightarrow>
    can_rx_runs dev n c0 a (if bs = [] then d else d @ [bs]) c'"
| hardware: "can_rx_runs dev n c0 a d c \<Longrightarrow> can_rx_runs dev n c0 a d (c\<lparr>can_hw := h\<rparr>)"

text \<open>The records on their way: whole records in the ring, then those of the descriptors in the queue.\<close>

definition on_the_way :: "'h can_state \<Rightarrow> u8 list list \<Rightarrow> bool" where
  "on_the_way c recs \<longleftrightarrow> ring_contents (can_rx_ring c) = concat recs \<and> (\<forall>r\<in>set recs. length r = 12)"

definition queued_records :: "'h can_state \<Rightarrow> u8 list list" where
  "queued_records c = map record_bytes (items_of (rx_queue c))"

definition rx_invariant :: "nat \<Rightarrow> u8 list list \<Rightarrow> u8 list list \<Rightarrow> 'h can_state \<Rightarrow> bool" where
  "rx_invariant n a d c \<longleftrightarrow> can_rx_ok c \<and>
     (\<exists>recs. on_the_way c recs \<and> subseq (d @ recs @ queued_records c) a \<and>
        (n \<le> 10 \<longrightarrow> d @ recs @ queued_records c = a \<and> length a \<le> length d + n))"

lemma length_concat_records: "\<forall>r\<in>set recs. length r = 12 \<Longrightarrow> length (concat recs) = 12 * length recs"
  by (induction recs) auto

lemma irq_words:
  assumes "length (module_rx_buffer c) = 4" and "can_rx_fifo_read dev (module_rx_buffer c) (can_hw c) = Some (buf, h)"
    and "can_data_to_little_endian_swap [can_mb dev (can_hw c) 2, can_mb dev (can_hw c) 3] (fdes_dlc (can_mb dev (can_hw c) 0)) = Some data"
  shows "buf = [can_mb dev (can_hw c) 0, shown_id dev (can_hw c)] @ data" "length buf = 4"
  using assms little_endian_swap_defined(2) [OF _ assms(3)] by (auto simp: can_rx_fifo_read_words [OF assms(1)])

lemma rx_invariant_irq:
  assumes inv: "rx_invariant n a d c" and av: "fifo_available dev (can_hw c)"
    and rd: "can_rx_fifo_read dev (module_rx_buffer c) (can_hw c) = Some (buf, h)" and ih: "MODULE_CAN_IRQHandler dev c = Some c'"
    and room: "length a < length d + n"
  shows "rx_invariant n (a @ [words_bytes (drop 1 buf)]) d c'"
proof -
  have ok: "can_rx_ok c" using inv by (simp add: rx_invariant_def)
  have "\<not> 8 < fdes_dlc (can_mb dev (can_hw c) 0)" using irq_fault(1) [OF ok av] ih by simp
  then obtain data where s: "can_rx_ok c'" "can_rx_ring c' = can_rx_ring c"
      "can_data_to_little_endian_swap [can_mb dev (can_hw c) 2, can_mb dev (can_hw c) 3] (fdes_dlc (can_mb dev (can_hw c) 0)) = Some data"
      "items_of (rx_queue c') = (if length (items_of (rx_queue c)) < 10
          then items_of (rx_queue c) @ [words_bytes ([can_mb dev (can_hw c) 0, shown_id dev (can_hw c)] @ data)]
          else items_of (rx_queue c))"
    using irq_fault(2) [OF ok av] ih by auto
  have "length (module_rx_buffer c) = 4" using ok by (simp add: can_rx_ok_def)
  note w = irq_words [OF this rd s(3)]
  have q: "queued_records c' = (if length (items_of (rx_queue c)) < 10 then queued_records c @ [words_bytes (drop 1 buf)] else queued_records c)"
    using s(4) record_of_words(1) [OF w(2)] unfolding queued_records_def w(1) [symmetric] by simp
  obtain recs where r: "on_the_way c recs" "subseq (d @ recs @ queued_records c) a"
      "n \<le> 10 \<Longrightarrow> d @ recs @ queued_records c = a" using inv by (auto simp: rx_invariant_def)
  have "length (items_of (rx_queue c)) < 10" if "n \<le> 10"
    using r(3) [OF that] room that by (auto simp: queued_records_def)
  moreover have "subseq (d @ recs @ queued_records c') (a @ [words_bytes (drop 1 buf)])"
    using r(2) subseq_append_iff by (cases "length (items_of (rx_queue c)) < 10")
      (auto simp: q intro: list_emb_append_mono [of "(=)" "d @ recs @ queued_records c" a "[words_bytes (drop 1 buf)]" "[words_bytes (drop 1 buf)]", simplified]
        subseq_order.trans [OF r(2)])
  ultimately show ?thesis
    using s(1,2) r room unfolding rx_invariant_def on_the_way_def by (intro conjI exI [of _ recs]) (auto simp: q)
qed

lemma rx_invariant_task:
  assumes inv: "rx_invariant n a d c" and tk: "module_rx_task c = Some (r, c')"
  shows "rx_invariant n a d c'"
proof -
  have ok: "can_rx_ok c" using inv by (simp add: rx_invariant_def)
  obtain recs where rc: "on_the_way c recs" "subseq (d @ recs @ queued_records c) a"
      "n \<le> 10 \<Longrightarrow> d @ recs @ queued_records c = a \<and> length a \<le> length d + n" using inv by (auto simp: rx_invariant_def)
  show ?thesis
  proof (rule module_rx_task_ok [OF ok], goal_cases)
    case (1 c1)
    then show ?thesis using rc tk unfolding rx_invariant_def
      by (intro conjI exI [of _ recs]) (auto simp: on_the_way_def queued_records_def)
  next
    case (2 c1 x)
    then have c1: "c1 = c'" using tk by simp
    have q: "queued_records c = record_bytes x # queued_records c'" using 2 c1 by (simp add: queued_records_def)
    have len: "length (ring_contents (can_rx_ring c)) = 12 * length recs"
      using rc(1) length_concat_records [of recs] by (simp add: on_the_way_def)
    show ?thesis
    proof (cases "length (ring_contents (can_rx_ring c)) + 12 \<le> 160")
      case True
      then have "on_the_way c' (recs @ [record_bytes x])"
        using 2 c1 rc(1) length_record_bytes by (auto simp: on_the_way_def)
      then show ?thesis using 2 c1 rc q unfolding rx_invariant_def by (intro conjI exI [of _ "recs @ [record_bytes x]"]) auto
    next
      case False
      then have "13 \<le> length recs" using len by simp
      then have big: "\<not> n \<le> 10" using rc(3) q by auto
      have "subseq (d @ recs @ queued_records c') (d @ recs @ queued_records c)"
        unfolding q by (intro list_emb_append_mono list_emb_Cons) simp_all
      then have "subseq (d @ recs @ queued_records c') a" using rc(2) subseq_order.trans by blast
      moreover have "ring_contents (can_rx_ring c') = ring_contents (can_rx_ring c)" "can_rx_ok c'" using 2 c1 False by simp_all
      ultimately show ?thesis using rc(1) big unfolding rx_invariant_def
        by (intro conjI exI [of _ recs]) (auto simp: on_the_way_def)
    qed
  qed
qed

lemma rx_invariant_read:
  assumes inv: "rx_invariant n a d c" and rd: "can_read c = Some (bs, c')"
  shows "rx_invariant n a (if bs = [] then d else d @ [bs]) c'"
proof -
  have ok: "can_rx_ok c" using inv by (simp add: rx_invariant_def)
  obtain recs where rc: "on_the_way c recs" "subseq (d @ recs @ queued_records c) a"
      "n \<le> 10 \<Longrightarrow> d @ recs @ queued_records c = a \<and> length a \<le> length d + n" using inv by (auto simp: rx_invariant_def)
  obtain c1 where "can_read c = Some (take 12 (ring_contents (can_rx_ring c)), c1)" "can_rx_ok c1"
      "ring_contents (can_rx_ring c1) = drop 12 (ring_contents (can_rx_ring c))" "rx_queue c1 = rx_queue c"
    by (rule can_read_ok [OF ok])
  then have c1: "bs = take 12 (ring_contents (can_rx_ring c))" "can_rx_ok c'"
      "ring_contents (can_rx_ring c') = drop 12 (ring_contents (can_rx_ring c))" "rx_queue c' = rx_queue c" using rd by auto
  then have q: "queued_records c' = queued_records c" by (simp add: queued_records_def)
  show ?thesis
  proof (cases recs)
    case Nil
    then show ?thesis using rc c1 q unfolding rx_invariant_def by (intro conjI exI [of _ "[]"]) (auto simp: on_the_way_def)
  next
    case (Cons r rs)
    then have "length r = 12" using rc(1) by (simp add: on_the_way_def)
    moreover from this have "bs = r" "ring_contents (can_rx_ring c') = concat rs" using rc(1) c1(1,3) Cons by (auto simp: on_the_way_def)
    ultimately show ?thesis using rc c1(2) q Cons unfolding rx_invariant_def by (intro conjI exI [of _ rs]) (auto simp: on_the_way_def)
  qed
qed

lemma rx_invariant_runs:
  assumes "can_rx_runs dev n c0 a d c" and "rx_invariant n [] [] c0"
  shows "rx_invariant n a d c"
  using assms
proof induction
  case (irq a d c buf h c')
  then show ?case by (blast intro: rx_invariant_irq)
next
  case (hardware a d c h)
  then show ?case by (simp add: rx_invariant_def can_rx_ok_def on_the_way_def queued_records_def)
qed (simp_all add: rx_invariant_task rx_invariant_read)

section \<open>The transmit path\<close>

text \<open>The words of the mailbox for a record: an extended data frame of eight bytes, most significant byte first.\<close>

definition frame_words :: "u8 list \<Rightarrow> u32 list" where
  "frame_words r =
     [0x0C680000, le_word (seg 0 4 r) AND 0x1FFFFFFF, swap_word (le_word (seg 4 4 r)), swap_word (le_word (seg 8 4 r))]"

lemma bytes_words_12: "length r = 12 \<Longrightarrow> bytes_words r = [le_word (seg 0 4 r), le_word (seg 4 4 r), le_word (seg 8 4 r)]"
  by (simp add: bytes_words_def numeral_3_eq_3)

lemma mailbox_words_of_record:
  assumes "length r = 12"
  shows "can_mailbox_words (tx_descriptor (bytes_words r)) = Some (frame_words r)"
proof -
  let ?id = "le_word (seg 0 4 r) :: u32" and ?d = "[le_word (seg 4 4 r), le_word (seg 8 4 r)] :: u32 list"
  have "can_data_to_big_endian_swap [0, 0] ?d 8 = Some (map swap_word ?d)"
    by (simp add: can_data_to_big_endian_swap_def swap_loop_two)
  then show ?thesis
    by (simp add: can_mailbox_words_def tx_descriptor_def bytes_words_12 [OF assms] can_struct_para_init_mdsc_def Let_def
        CAN_MB_TX_STATUS_DATA_def CAN_MB_RX_STATUS_EMPTY_def MODULE_CAN_DATA_BYTES_def can_dlc_value_compute_def frame_words_def
        and.assoc)
qed

text \<open>
  What is assumed of the controller for sending. It has the frame in the mailbox that is still to be transmitted, if any, and the frames it
  has put on the bus. Writing the mailbox replaces a frame that has not been transmitted, which is then never sent. While
  the task sleeps a millisecond, the frame in the mailbox may go out, and only then is the flag set; it goes out after some time, however long.
\<close>

definition can_transmits :: "'h can_device \<Rightarrow> ('h \<Rightarrow> u32 list option) \<Rightarrow> ('h \<Rightarrow> u32 list list) \<Rightarrow> bool" where
  "can_transmits dev pending sent \<longleftrightarrow>
     (\<forall>ws h. pending (store_mailbox dev ws h) = Some ws \<and> sent (store_mailbox dev ws h) = sent h \<and>
        mailbox_flag dev (store_mailbox dev ws h) = mailbox_flag dev h) \<and>
     (\<forall>h. pending (clear_mailbox_flag dev h) = pending h \<and> sent (clear_mailbox_flag dev h) = sent h \<and>
        \<not> mailbox_flag dev (clear_mailbox_flag dev h)) \<and>
     (\<forall>h. pending (delay_1ms dev h) = pending h \<and> sent (delay_1ms dev h) = sent h \<and> mailbox_flag dev (delay_1ms dev h) = mailbox_flag dev h \<or>
        (\<exists>ws. pending h = Some ws \<and> pending (delay_1ms dev h) = None \<and> sent (delay_1ms dev h) = sent h @ [ws] \<and>
           mailbox_flag dev (delay_1ms dev h))) \<and>
     (\<forall>h. \<exists>n. pending ((delay_1ms dev ^^ n) h) = None)"

lemma wait_transmitted_sends:
  assumes laws: "can_transmits dev pending sent" and "pending ((delay_1ms dev ^^ n) h) = None" and "pending h = Some ws" and "\<not> mailbox_flag dev h"
  shows "\<exists>h'. wait_transmitted dev h = Some h' \<and> sent h' = sent h @ [ws]"
  using assms(2-4)
proof (induction n arbitrary: h)
  case 0
  then show ?case by simp
next
  case (Suc n)
  let ?h = "delay_1ms dev h"
  have w: "wait_transmitted dev h = wait_transmitted dev ?h" using Suc.prems(3) by (subst wait_transmitted.simps) simp
  consider "pending ?h = Some ws" "sent ?h = sent h" "\<not> mailbox_flag dev ?h" | "sent ?h = sent h @ [ws]" "mailbox_flag dev ?h"
    using laws Suc.prems(2,3) unfolding can_transmits_def by (metis option.inject)
  then show ?case
  proof cases
    case 1
    have "pending ((delay_1ms dev ^^ n) ?h) = None" using Suc.prems(1) by (simp add: funpow_swap1)
    from Suc.IH [OF this 1(1,3)] 1(2) w show ?thesis by simp
  next
    case 2
    then have "wait_transmitted dev ?h = Some ?h" by (subst wait_transmitted.simps) simp
    with 2 w show ?thesis by simp
  qed
qed

definition can_tx_ok :: "'h can_state \<Rightarrow> bool" where
  "can_tx_ok c \<longleftrightarrow> ring_ready (can_tx_ring c)"

lemma tx_loop_sends:
  assumes "can_transmits dev pending sent" and "can_tx_ok c" and "ring_contents (can_tx_ring c) = concat recs" and "\<forall>r\<in>set recs. length r = 12"
    and "length data = 12"
  shows "\<exists>data' c'. tx_loop dev (data, c) = Some (data', c') \<and> can_tx_ok c' \<and> ring_contents (can_tx_ring c') = [] \<and>
    sent (can_hw c') = sent (can_hw c) @ map frame_words recs \<and> length data' = 12 \<and>
    can_rx_ring c' = can_rx_ring c \<and> rx_queue c' = rx_queue c"
  using assms(2-5)
proof (induction recs arbitrary: c data)
  case Nil
  then have "ring_is_empty (can_tx_ring c) = Some True" using ring_is_empty_ready [of "can_tx_ring c"] by (simp add: can_tx_ok_def)
  then show ?case using Nil by (subst tx_loop.simps) simp
next
  case (Cons r recs)
  have rdy: "ring_ready (can_tx_ring c)" using Cons.prems(1) by (simp add: can_tx_ok_def)
  have len: "length r = 12" and rest: "\<forall>r\<in>set recs. length r = 12" using Cons.prems(3) by auto
  have u: "unat (12 :: u16) = 12" by simp
  obtain rb where rd: "ring_read (can_tx_ring c) True 12 MODULE_CAN_TIMEOUT_MS = Some (12, r, rb)" "ring_ready rb" "ring_contents rb = concat recs"
    using ring_read_ready [OF rdy, of 12 MODULE_CAN_TIMEOUT_MS] Cons.prems(2) len unfolding u by auto
  have "ring_contents (can_tx_ring c) \<noteq> []" using Cons.prems(2) len by auto
  then have ne: "ring_is_empty (can_tx_ring c) = Some False" using ring_is_empty_ready [OF rdy] by simp
  have st: "store_at 0 r data = r" using len Cons.prems(4) by (simp add: store_at_def)
  let ?c1 = "c\<lparr>can_tx_ring := rb\<rparr>" and ?h = "store_mailbox dev (frame_words r) (clear_mailbox_flag dev (can_hw c))"
  have cfg: "can_mailbox_config dev (tx_descriptor (bytes_words r)) (can_hw c) = Some ?h"
    by (simp add: can_mailbox_config_def mailbox_words_of_record [OF len])
  have h: "pending ?h = Some (frame_words r)" "sent ?h = sent (can_hw c)" "\<not> mailbox_flag dev ?h" "\<exists>n. pending ((delay_1ms dev ^^ n) ?h) = None"
    and clr: "\<And>h. sent (clear_mailbox_flag dev h) = sent h"
    using assms(1) by (simp_all add: can_transmits_def)
  then obtain h' where h': "wait_transmitted dev ?h = Some h'" "sent h' = sent (can_hw c) @ [frame_words r]"
    using wait_transmitted_sends [OF assms(1), of _ ?h "frame_words r"] by auto
  have lg: "sent (clear_mailbox_flag dev h') = sent (can_hw c) @ [frame_words r]" using h'(2) by (simp add: clr)
  let ?c2 = "c\<lparr>can_tx_ring := rb, can_hw := clear_mailbox_flag dev h'\<rparr>"
  have step: "tx_loop dev (data, c) = tx_loop dev (r, ?c2)"
    using ne rd(1) st cfg h'(1) by (subst tx_loop.simps) (simp add: Let_def)
  have "can_tx_ok ?c2" "ring_contents (can_tx_ring ?c2) = concat recs" using rd(2,3) by (simp_all add: can_tx_ok_def)
  from Cons.IH [OF this rest len] show ?case using step lg by auto
qed

section \<open>Properties\<close>

lemma module_can_init_ok:
  assumes "length block = 160" and "unat (uxCurrentNumberOfTasks k) \<le> 127"
    and "ring_ready rx" "rb_size rx = MODULE_RING_BUFFER_RX_SIZE" "ring_contents rx = []"
  shows "\<exists>c. module_can_init rx tx (Some block) k h = Some c \<and> rx_invariant n [] [] c \<and> can_hw c = h"
proof -
  obtain q where q: "xQueueGenericCreate CAN_RX_QUEUE_LENGTH sizeof_can_rx_fifo_struct (Some block) = Some (Some q)" "queue_wf q"
      "queue_items q = []" "uxLength q = CAN_RX_QUEUE_LENGTH" "uxItemSize q = sizeof_can_rx_fifo_struct"
    using xQueueGenericCreate_ok [of CAN_RX_QUEUE_LENGTH sizeof_can_rx_fifo_struct block] assms(1) by (auto simp: can_sizes)
  let ?c = "\<lparr>can_rx_ring = rx, can_tx_ring = tx, rx_queue = (q, k), module_rx_buffer = replicate 4 0, can_hw = h\<rparr>"
  have "can_rx_ok ?c" using q assms by (simp add: can_rx_ok_def queue_abs can_sizes)
  moreover have "on_the_way ?c []" "queued_records ?c = []" using assms(5) q(3) by (simp_all add: on_the_way_def queued_records_def items_of_def)
  ultimately have "rx_invariant n [] [] ?c" unfolding rx_invariant_def by (intro conjI exI [of _ "[]"]) simp_all
  then show ?thesis using q(1) by (simp add: module_can_init_def)
qed

text \<open>
  Claim C7: the frames that the interrupt handler read reach the client in order, whole and at most once. In every sequence of interrupts,
  passes of the receive task and reads by a client after the initialisation, in which the task and the client do not preempt each other inside a call of the
  ring, the records delivered so far, followed by those in the ring and those of the descriptors in
  the queue, are a subsequence of the records of the frames that the handler read, all of twelve bytes; a frame is only ever dropped as a whole. If there are
  never more than ten of these frames outstanding, none is dropped. (A frame that the controller received and the handler did not read is not
  counted; \<open>can_irq_discards_next\<close> is about those.)
\<close>

theorem can_rx_in_order:
  assumes "length block = 160" and "unat (uxCurrentNumberOfTasks k) \<le> 127"
    and "ring_ready rx" and "rb_size rx = MODULE_RING_BUFFER_RX_SIZE" and "ring_contents rx = []"
    and "module_can_init rx tx (Some block) k h = Some c0" and "can_rx_runs dev n c0 handled delivered c"
  shows "\<exists>recs. ring_contents (can_rx_ring c) = concat recs \<and> (\<forall>r\<in>set recs. length r = 12) \<and>
    subseq (delivered @ recs @ map record_bytes (queue_items (fst (rx_queue c)))) handled \<and>
    (n \<le> 10 \<longrightarrow> delivered @ recs @ map record_bytes (queue_items (fst (rx_queue c))) = handled)"
proof -
  have "rx_invariant n [] [] c0" using module_can_init_ok [OF assms(1-5), of tx h n] assms(6) by auto
  from rx_invariant_runs [OF assms(7) this] show ?thesis
    by (auto simp: rx_invariant_def on_the_way_def queued_records_def items_of_def)
qed

text \<open>A controller that shows one descriptor with identifier 0x123 and four words of memory, for the concrete instances.\<close>

definition sim_can :: "(u32 list \<times> u32 list list) can_device" where
  "sim_can = \<lparr>can_mb = (\<lambda>h i. fst h ! i), fifo_available = (\<lambda>h. fst h \<noteq> []), clear_fifo_flag = id, clear_mailbox_flag = id,
     store_mailbox = (\<lambda>ws h. (fst h, snd h @ [ws])), mailbox_flag = (\<lambda>h. True), delay_1ms = id\<rparr>"

definition sim_frame :: "u32 list" where
  "sim_frame = [0x00280000, 0x123, 0x01020304, 0x05060708]"

definition sim_ring :: ring_buff_t where
  "sim_ring = snd (ring_buff_init (16 * 10) ring_instance0 (Some (replicate 160 0)) (Some Mutex_Free) (Some Mutex_Free))"

lemma sim_ring_ready: "ring_ready sim_ring" "rb_size sim_ring = MODULE_RING_BUFFER_RX_SIZE" "ring_contents sim_ring = []"
  by (simp_all add: sim_ring_def ring_buff_init_def ring_instance0_def ring_ready_def ring_wf_def ring_idle_def
      ring_contents_def ring_count_def ring_slice_def Let_def can_sizes)

lemma sim_frame_read:
  assumes "length buf = 4"
  shows "can_rx_fifo_read sim_can buf (sim_frame, sent) = Some ([0x00280000, 0x123, 0x04030201, 0x08070605], (sim_frame, sent))"
    "fdes_dlc (can_mb sim_can (sim_frame, sent) 0) = 8"
  unfolding can_rx_fifo_read_words [OF assms]
  by (simp_all add: sim_can_def sim_frame_def fdes_dlc_def shown_id_def fdes_ide_def GET_FDES1_ID_EXD_def
      little_endian_swap_defined(3) swap_word_def)

theorem can_rx_in_order_witness:
  "\<exists>c0 c recs. module_can_init sim_ring sim_ring (Some (replicate 160 0)) scheduler_sample (sim_frame, []) = Some c0 \<and>
    can_rx_runs sim_can 10 c0 [words_bytes [0x123, 0x04030201, 0x08070605]] [] c \<and>
    ring_contents (can_rx_ring c) = concat recs \<and>
    recs @ map record_bytes (queue_items (fst (rx_queue c))) = [words_bytes [0x123, 0x04030201, 0x08070605]]"
proof -
  let ?block = "replicate 160 0 :: u8 list" and ?h = "(sim_frame, []) :: u32 list \<times> u32 list list"
  have k: "unat (uxCurrentNumberOfTasks scheduler_sample) \<le> 127" by (simp add: scheduler_sample_def)
  obtain c0 where c0: "module_can_init sim_ring sim_ring (Some ?block) scheduler_sample ?h = Some c0"
      "rx_invariant 10 [] [] c0" "can_hw c0 = ?h"
    using module_can_init_ok [of ?block scheduler_sample sim_ring sim_ring ?h 10] k sim_ring_ready by auto
  have ok: "can_rx_ok c0" "length (module_rx_buffer c0) = 4" using c0(2) by (simp_all add: rx_invariant_def can_rx_ok_def)
  have av: "fifo_available sim_can (can_hw c0)" by (simp add: c0(3) sim_can_def sim_frame_def)
  note rd = sim_frame_read [OF ok(2), of "[]", folded c0(3)]
  obtain c where c: "MODULE_CAN_IRQHandler sim_can c0 = Some c" using irq_fault(2) [OF ok(1) av] rd(2) by auto
  have run: "can_rx_runs sim_can 10 c0 [words_bytes [0x123, 0x04030201, 0x08070605]] [] c"
    using can_rx_runs.irq [OF can_rx_runs.start av rd(1) c] by simp
  from can_rx_in_order [OF _ k sim_ring_ready c0(1) run] show ?thesis using c0(1) run by auto
qed

text \<open>
  The interrupt handler and the data length code. With a frame in the FIFO the handler ends, and keeps the driver's state well
  formed, exactly if the data length code of the frame is at most eight; for the codes nine to fifteen, which CAN allows for frames of
  eight bytes, the byte swap of \<open>can_rx_fifo_read\<close> writes behind the four words of \<open>module_rx_buffer\<close>.
\<close>

theorem can_irq_length_code:
  assumes "can_rx_ok c" and "fifo_available dev (can_hw c)"
  shows "(MODULE_CAN_IRQHandler dev c = None \<longleftrightarrow> 8 < fdes_dlc (can_mb dev (can_hw c) 0)) \<and>
    (\<forall>c'. MODULE_CAN_IRQHandler dev c = Some c' \<longrightarrow> can_rx_ok c')"
  using irq_fault [OF assms] by auto

theorem can_irq_length_code_witness:
  "\<exists>c. module_can_init sim_ring sim_ring (Some (replicate 160 0)) scheduler_sample ([0x00290000, 0x123, 0, 0], []) = Some c \<and>
    MODULE_CAN_IRQHandler sim_can c = None"
proof -
  let ?block = "replicate 160 0 :: u8 list" and ?h = "([0x00290000, 0x123, 0, 0], []) :: u32 list \<times> u32 list list"
  obtain c where c: "module_can_init sim_ring sim_ring (Some ?block) scheduler_sample ?h = Some c" "rx_invariant 10 [] [] c" "can_hw c = ?h"
    using module_can_init_ok [of ?block scheduler_sample sim_ring sim_ring ?h 10] sim_ring_ready by (auto simp: scheduler_sample_def)
  have "can_rx_ok c" "fifo_available sim_can (can_hw c)" "8 < fdes_dlc (can_mb sim_can (can_hw c) 0)"
    using c(2,3) by (simp_all add: rx_invariant_def sim_can_def fdes_dlc_def)
  then show ?thesis using can_irq_length_code [of c sim_can] c(1) by blast
qed

text \<open>
  Claim C27: a turn of the transmit task puts every record of the ring on the bus. If the ring holds records of twelve bytes and the
  controller transmits the frame in its mailbox after some time, however long, unless the mailbox is written again before, then the turn ends, the ring is empty, and the
  controller has transmitted one extended data frame of eight bytes per record, in the order of the ring and none replaced before it was out, with the low 29
  bits of the record's first word as identifier.
\<close>

theorem can_tx_sends_all:
  assumes "can_transmits dev pending sent" and "can_tx_ok c" and "ring_contents (can_tx_ring c) = concat recs" and "\<forall>r\<in>set recs. length r = 12"
    and "length data = 12"
  shows "\<exists>data' c'. module_tx_task dev (data, c) = Some (data', c') \<and> ring_contents (can_tx_ring c') = [] \<and>
    sent (can_hw c') = sent (can_hw c) @ map frame_words recs"
  unfolding module_tx_task_def using tx_loop_sends [OF assms] by blast

text \<open>A controller that needs a millisecond for a frame: the mailbox, the frames on the bus, the flag.\<close>

definition sim_bus :: "(u32 list option \<times> u32 list list \<times> bool) can_device" where
  "sim_bus = \<lparr>can_mb = (\<lambda>_ _. 0), fifo_available = (\<lambda>_. False), clear_fifo_flag = id, clear_mailbox_flag = (\<lambda>(p, s, f). (p, s, False)),
     store_mailbox = (\<lambda>ws (p, s, f). (Some ws, s, f)), mailbox_flag = (\<lambda>(p, s, f). f),
     delay_1ms = (\<lambda>(p, s, f). case p of None \<Rightarrow> (p, s, f) | Some ws \<Rightarrow> (None, s @ [ws], True))\<rparr>"

lemma sim_bus_transmits: "can_transmits sim_bus fst (fst \<circ> snd)"
proof -
  have "fst ((delay_1ms sim_bus ^^ 1) h) = None" for h by (auto simp: sim_bus_def split: prod.split option.split)
  then have "\<exists>n. fst ((delay_1ms sim_bus ^^ n) h) = None" for h by blast
  then show ?thesis unfolding can_transmits_def by (auto simp: sim_bus_def split: prod.split option.split)
qed

theorem can_tx_sends_all_witness:
  "\<exists>rb data' c'. ring_contents rb = replicate 12 1 @ replicate 12 2 \<and>
    module_tx_task sim_bus (replicate 12 0, \<lparr>can_rx_ring = sim_ring, can_tx_ring = rb, rx_queue = (queue_raw, scheduler_sample),
      module_rx_buffer = replicate 4 0, can_hw = (None, [], False)\<rparr>) = Some (data', c') \<and>
    fst (snd (can_hw c')) = [[0x0C680000, 0x01010101, 0x01010101, 0x01010101], [0x0C680000, 0x02020202, 0x02020202, 0x02020202]]"
proof -
  obtain rb where rb: "ring_ready rb" "ring_contents rb = replicate 12 1 @ replicate 12 2"
    by (rule ring_write_ready [OF sim_ring_ready(1), of 24 "replicate 12 1 @ replicate 12 2" 0]) (use sim_ring_ready in \<open>simp_all add: can_sizes\<close>)
  let ?c = "\<lparr>can_rx_ring = sim_ring, can_tx_ring = rb, rx_queue = (queue_raw, scheduler_sample), module_rx_buffer = replicate 4 0,
    can_hw = (None, [], False) :: u32 list option \<times> u32 list list \<times> bool\<rparr>"
  have four: "replicate 4 x = [x, x, x, x :: u8]" for x by (simp add: numeral_eq_Suc)
  have "le_word [1, 1, 1, 1 :: u8] = (0x01010101 :: u32)" "le_word [2, 2, 2, 2 :: u8] = (0x02020202 :: u32)" by (simp_all add: le_word_def)
  then have "frame_words (replicate 12 1) = [0x0C680000, 0x01010101, 0x01010101, 0x01010101]"
    "frame_words (replicate 12 2) = [0x0C680000, 0x02020202, 0x02020202, 0x02020202]"
    by (simp_all add: frame_words_def seg_def swap_word_def four)
  then show ?thesis
    using can_tx_sends_all [OF sim_bus_transmits, of ?c "[replicate 12 1, replicate 12 2]" "replicate 12 0"] rb by (auto simp: can_tx_ok_def)
qed

text \<open>
  The handler clears the flag of the FIFO twice, once in \<open>can_rx_fifo_read\<close> and once itself. On a controller on which clearing it moves on to
  the next frame, as the driver's reading function relies on, the second time discards a frame that nobody has read.
\<close>

lemma can_irq_discards_next:
  assumes "\<And>h. frames (clear_fifo_flag dev h) = tl (frames h)" and "fifo_available dev (can_hw c)"
    and "MODULE_CAN_IRQHandler dev c = Some c'"
  shows "frames (can_hw c') = drop 2 (frames (can_hw c))"
  using assms(2,3)
  by (auto simp: MODULE_CAN_IRQHandler_def can_rx_fifo_read_def Let_def assms(1) drop_Suc numeral_2_eq_2 split: option.splits if_splits)

text \<open>
  Claim C24: what one node sends is what another receives. If the receive FIFO of a controller shows a frame with the identifier and the data words, the
  identifier flag and the length code of the mailbox that the transmit task filled from a record, then the interrupt handler reads it as that
  record, with the upper three bits of its first word cleared.
\<close>

theorem can_link_roundtrip:
  assumes "length r = 12" and "length buf = 4" and sent: "can_mailbox_words (tx_descriptor (bytes_words r)) = Some ws"
    and "fdes_dlc (can_mb dev h 0) = fdes_dlc (ws ! 0)" and "fdes_ide (can_mb dev h 0) = fdes_ide (ws ! 0)"
    and "can_mb dev h 1 = ws ! 1" and "can_mb dev h 2 = ws ! 2" and "can_mb dev h 3 = ws ! 3"
  shows "\<exists>w0 h'. can_rx_fifo_read dev buf h = Some (w0 # bytes_words (le_bytes 4 ((le_word (seg 0 4 r) :: u32) AND 0x1FFFFFFF) @ drop 4 r), h')"
proof -
  let ?id = "(le_word (seg 0 4 r) :: u32) AND 0x1FFFFFFF" and ?r' = "le_bytes 4 ((le_word (seg 0 4 r) :: u32) AND 0x1FFFFFFF) @ drop 4 r"
  have ws: "ws = frame_words r" using sent mailbox_words_of_record [OF assms(1)] by simp
  have w0: "fdes_dlc (frame_words r ! 0) = 8" "fdes_ide (frame_words r ! 0)"
    by (simp_all add: frame_words_def fdes_dlc_def fdes_ide_def)
  have "shown_id dev h = ?id"
    using assms(5,6) w0(2) by (simp add: ws shown_id_def GET_FDES1_ID_EXD_def frame_words_def and.assoc)
  moreover have "can_data_to_little_endian_swap [can_mb dev h 2, can_mb dev h 3] 8 = Some [le_word (seg 4 4 r), le_word (seg 8 4 r)]"
    using assms(7,8) by (simp add: ws little_endian_swap_defined(3) frame_words_def)
  ultimately have "can_rx_fifo_read dev buf h =
      Some ([can_mb dev h 0, ?id, le_word (seg 4 4 r), le_word (seg 8 4 r)], clear_fifo_flag dev h)"
    unfolding can_rx_fifo_read_words [OF assms(2)] assms(4) ws w0(1) by simp
  moreover have "length ?r' = 12" using assms(1) by simp
  then have "bytes_words ?r' = [?id, le_word (seg 4 4 r), le_word (seg 8 4 r)]"
    unfolding bytes_words_12 [OF \<open>length ?r' = 12\<close>] using assms(1) by (simp add: seg_def le_word_le_bytes)
  ultimately show ?thesis by auto
qed

theorem can_link_roundtrip_witness:
  "\<exists>ws w0 h'. can_mailbox_words (tx_descriptor (bytes_words [1, 2, 3, 4, 5, 6, 7, 8, 9, 10, 11, 12])) = Some ws \<and>
    can_rx_fifo_read sim_can (replicate 4 0) (ws, []) =
    Some (w0 # bytes_words (le_bytes 4 ((le_word (seg 0 4 [1, 2, 3, 4, 5, 6, 7, 8, 9, 10, 11, 12]) :: u32) AND 0x1FFFFFFF) @
      [5, 6, 7, 8, 9, 10, 11, 12]), h')"
proof -
  let ?r = "[1, 2, 3, 4, 5, 6, 7, 8, 9, 10, 11, 12] :: u8 list"
  have "can_mailbox_words (tx_descriptor (bytes_words ?r)) = Some (frame_words ?r)" by (rule mailbox_words_of_record) simp
  then show ?thesis using can_link_roundtrip [of ?r "replicate 4 0" "frame_words ?r" sim_can "(frame_words ?r, [])"]
    by (simp add: sim_can_def)
qed

end
