(* ===== verification/TcpClient.thy ===== *)
theory TcpClient
  imports OtaServer CliTask
begin

text \<open>
  The TCP client, \<^verbatim>\<open>src/App/tcp/tcp_client.c\<close>: a task that connects to a server, sends a numbered message every period and reconnects after an
  error, and the callbacks of the connection, which log what the server sends. The network stack is a parameter: the record
  \<open>client_net\<close> gives the results of its calls from the calls made before. The stack's memory for the receive packets is a map from
  addresses to objects; access to an object that was released is undefined.
\<close>

section \<open>State\<close>

definition MAX_BUF_SIZE :: nat where "MAX_BUF_SIZE = 1000"
definition ERR_ARG :: int where "ERR_ARG = -16"
definition IP_S_PORT :: u16 where "IP_S_PORT = 8080"

record recev_packet =
  packet_length :: nat
  packet_bytes :: "u8 list"

datatype client_call =
  Call_recved nat u16 | Call_pbuf_free | Call_arg nat "nat option" | Call_recv nat | Call_err nat
| Call_connect nat u16 | Call_memp_free nat | Call_write nat "u8 list" | Call_output nat | Call_close nat
| Log_received "u8 list" | Log_sent "u8 list" | Log_text string

record client_net =
  net_new :: "client_call list \<Rightarrow> nat option"
  net_connect :: "client_call list \<Rightarrow> int"
  net_write :: "client_call list \<Rightarrow> int"
  net_close :: "client_call list \<Rightarrow> int"
  net_calloc :: "client_call list \<Rightarrow> nat option"

text \<open>The globals of the file, the callback argument that the stack keeps for each control block, the packets and the calls made.\<close>

record tcp_client =
  g_tcp_connected :: bool
  g_send_counter :: u32
  g_pcb :: "nat option"
  pcb_arg :: "nat \<Rightarrow> nat option"
  packets :: "nat \<Rightarrow> recev_packet option"
  client_calls :: "client_call list"

definition calls :: "client_call list \<Rightarrow> tcp_client \<Rightarrow> tcp_client" where
  "calls cs s = s\<lparr>client_calls := client_calls s @ cs\<rparr>"

text \<open>\<open>mem_free\<close> of the stack; a null pointer is ignored.\<close>

definition mem_free :: "nat option \<Rightarrow> tcp_client \<Rightarrow> tcp_client option" where
  "mem_free arg s =
     (case arg of
        None \<Rightarrow> Some s
      | Some a \<Rightarrow> if packets s a = None then None else Some (s\<lparr>packets := (packets s)(a := None)\<rparr>))"

section \<open>The callbacks\<close>

text \<open>One byte, one segment and all segments of a packet buffer; \<open>buf_full\<close> stops the copying.\<close>

definition store_byte :: "u8 \<Rightarrow> bool \<times> recev_packet \<Rightarrow> bool \<times> recev_packet" where
  "store_byte c fr =
     (let (buf_full, r) = fr
      in if buf_full then fr
         else if packet_length r < MAX_BUF_SIZE
         then (False, r\<lparr>packet_bytes := (packet_bytes r)[packet_length r := c], packet_length := packet_length r + 1\<rparr>)
         else (True, r))"

definition store_segments :: "u8 list list \<Rightarrow> recev_packet \<Rightarrow> recev_packet" where
  "store_segments qs r = snd (fold (fold store_byte) qs (False, r))"

definition terminate_packet :: "recev_packet \<Rightarrow> recev_packet" where
  "terminate_packet r =
     (if packet_length r < MAX_BUF_SIZE then r\<lparr>packet_bytes := (packet_bytes r)[packet_length r := 0]\<rparr>
      else r\<lparr>packet_bytes := (packet_bytes r)[MAX_BUF_SIZE - 1 := 0]\<rparr>)"

definition tcp_client_recv :: "client_net \<Rightarrow> nat option \<Rightarrow> nat \<Rightarrow> pbuf option \<Rightarrow> int \<Rightarrow> tcp_client \<Rightarrow> (int \<times> tcp_client) option" where
  "tcp_client_recv net arg pcb p err s =
     (case p of
        Some pb \<Rightarrow>
          (let s1 = calls [Call_recved pcb (tot_len pb)] s
           in case arg of
                None \<Rightarrow> Some (ERR_ARG, calls [Call_pbuf_free] s1)
              | Some a \<Rightarrow>
                  (case packets s1 a of
                     None \<Rightarrow> None
                   | Some r \<Rightarrow>
                       (let r' = terminate_packet (store_segments (segs pb) r)
                        in Some (ERR_OK, calls [Log_received (takeWhile (\<lambda>c. c \<noteq> 0) (packet_bytes r')), Call_pbuf_free]
                             (s1\<lparr>packets := (packets s1)(a \<mapsto> r'\<lparr>packet_length := 0\<rparr>)\<rparr>)))))
      | None \<Rightarrow>
          if err = ERR_OK
          then (let s1 = (calls [Log_text ''TCP connection closed by server''] s)\<lparr>g_tcp_connected := False\<rparr>
                in case mem_free arg s1 of
                     None \<Rightarrow> None
                   | Some s2 \<Rightarrow> Some (net_close net (client_calls s2), calls [Call_close pcb] s2))
          else Some (ERR_OK, s))"

definition tcp_client_err :: "nat option \<Rightarrow> int \<Rightarrow> tcp_client \<Rightarrow> tcp_client option" where
  "tcp_client_err arg err s =
     mem_free arg ((calls [Log_text ''TCP connection error''] s)\<lparr>g_tcp_connected := False, g_pcb := None\<rparr>)"

definition tcp_client_connected :: "client_net \<Rightarrow> nat option \<Rightarrow> nat \<Rightarrow> int \<Rightarrow> tcp_client \<Rightarrow> int \<times> tcp_client" where
  "tcp_client_connected net arg pcb err s =
     (if err = ERR_OK
      then (let s1 = (calls [Log_text ''TCP connected to server successfully''] s)\<lparr>g_pcb := Some pcb, g_tcp_connected := True\<rparr>;
                a = net_calloc net (client_calls s1);
                s2 = (case a of None \<Rightarrow> s1
                      | Some p \<Rightarrow> s1\<lparr>packets := (packets s1)(p \<mapsto> \<lparr>packet_length = 0, packet_bytes = replicate MAX_BUF_SIZE 0\<rparr>)\<rparr>);
                s3 = s2\<lparr>pcb_arg := (pcb_arg s2)(pcb := a)\<rparr>
            in (ERR_OK, calls [Call_arg pcb a, Call_recv pcb, Call_err pcb] s3))
      else (ERR_OK, (calls [Log_text ''TCP connection failed''] s)\<lparr>g_tcp_connected := False\<rparr>))"

section \<open>The task\<close>

text \<open>A new control block has no callback argument.\<close>

definition tcp_client_init :: "client_net \<Rightarrow> tcp_client \<Rightarrow> tcp_client" where
  "tcp_client_init net s =
     (case net_new net (client_calls s) of
        None \<Rightarrow> calls [Log_text ''TCP pcb allocation failed''] (s\<lparr>g_pcb := None\<rparr>)
      | Some pcb \<Rightarrow>
          (let s1 = calls [Call_err pcb] (s\<lparr>g_pcb := Some pcb, pcb_arg := (pcb_arg s)(pcb := None)\<rparr>);
               err = net_connect net (client_calls s1);
               s2 = calls [Call_connect pcb IP_S_PORT, Log_text ''TCP connecting''] s1
           in if err \<noteq> ERR_OK
              then (calls [Log_text ''TCP connect failed immediately'', Call_memp_free pcb] s2)\<lparr>g_pcb := None\<rparr>
              else s2))"

definition test_message :: "u32 \<Rightarrow> string" where
  "test_message n = ''Test message #'' @ dec (unat n) @ [CHR 0x0A]"

text \<open>One turn of the loop; \<open>send_buf\<close> is the array of 64 bytes, and the length is that of the string in it.\<close>

definition tcp_client_task :: "client_net \<Rightarrow> char list \<times> tcp_client \<Rightarrow> (char list \<times> tcp_client) option" where
  "tcp_client_task net bs =
     (let (send_buf, s) = bs
      in case (g_tcp_connected s, g_pcb s) of
           (True, Some pcb) \<Rightarrow>
             (case snprintf send_buf 0 64 (test_message (g_send_counter s)) of
                None \<Rightarrow> None
              | Some buf \<Rightarrow>
                  (case cstring buf of
                     None \<Rightarrow> None
                   | Some str \<Rightarrow>
                       (let data = bytes_of_string str;
                            s1 = s\<lparr>g_send_counter := g_send_counter s + 1\<rparr>;
                            err = net_write net (client_calls s1);
                            s2 = calls [Call_write pcb data] s1
                        in Some (buf, if err = ERR_OK then calls [Call_output pcb, Log_sent data] s2
                                      else calls [Log_text ''TCP send failed''] s2))))
         | (False, None) \<Rightarrow>
             Some (send_buf, tcp_client_init net (calls [Log_text ''TCP not connected, attempting to reconnect...''] s))
         | _ \<Rightarrow> Some (send_buf, s))"

fun client_turns :: "client_net \<Rightarrow> nat \<Rightarrow> char list \<times> tcp_client \<Rightarrow> (char list \<times> tcp_client) option" where
  "client_turns net 0 bs = Some bs"
| "client_turns net (Suc n) bs = Option.bind (tcp_client_task net bs) (client_turns net n)"

section \<open>Received data\<close>

lemma store_full: "fold store_byte q (True, r) = (True, r)"
  by (induction q) (simp_all add: store_byte_def)

lemma store_byte_room:
  "packet_length r < MAX_BUF_SIZE \<Longrightarrow>
    store_byte c (False, r) = (False, r\<lparr>packet_bytes := (packet_bytes r)[packet_length r := c], packet_length := packet_length r + 1\<rparr>)"
  by (simp add: store_byte_def)

lemma store_byte_no_room: "\<not> packet_length r < MAX_BUF_SIZE \<Longrightarrow> store_byte c (False, r) = (True, r)"
  by (simp add: store_byte_def)

lemma store_segments_concat: "fold (fold store_byte) qs fr = fold store_byte (concat qs) fr"
  by (induction qs arbitrary: fr) simp_all

definition stored :: "u8 list \<Rightarrow> recev_packet \<Rightarrow> bool" where
  "stored bs r \<longleftrightarrow> length (packet_bytes r) = MAX_BUF_SIZE \<and> packet_length r = min MAX_BUF_SIZE (length bs) \<and>
     take (packet_length r) (packet_bytes r) = take MAX_BUF_SIZE bs"

lemma store_bytes:
  assumes "stored pre r" and "length pre \<le> MAX_BUF_SIZE"
  shows "stored (pre @ q) (snd (fold store_byte q (False, r)))"
  using assms
proof (induction q arbitrary: r pre)
  case Nil
  then show ?case by simp
next
  case (Cons c q)
  show ?case
  proof (cases "length pre < MAX_BUF_SIZE")
    case True
    let ?r = "r\<lparr>packet_bytes := (packet_bytes r)[packet_length r := c], packet_length := packet_length r + 1\<rparr>"
    have "stored (pre @ [c]) ?r"
      using True Cons.prems(1) by (auto simp: stored_def take_Suc_conv_app_nth)
    then have "stored ((pre @ [c]) @ q) (snd (fold store_byte q (False, ?r)))"
      using True by (intro Cons.IH) simp_all
    moreover have "packet_length r < MAX_BUF_SIZE" using True Cons.prems(1) by (simp add: stored_def)
    ultimately show ?thesis by (simp only: fold_simps store_byte_room append_assoc append.simps)
  next
    case False
    then have n: "length pre = MAX_BUF_SIZE" using Cons.prems(2) by simp
    then have "\<not> packet_length r < MAX_BUF_SIZE" using Cons.prems(1) by (simp add: stored_def)
    then have "store_byte c (False, r) = (True, r)" by (rule store_byte_no_room)
    then have "snd (fold store_byte (c # q) (False, r)) = r" by (simp only: fold_simps store_full snd_conv)
    then show ?thesis using Cons.prems(1) n by (auto simp: stored_def)
  qed
qed

lemma terminated:
  assumes "stored bs r"
  shows "takeWhile (\<lambda>c. c \<noteq> 0) (packet_bytes (terminate_packet r)) = takeWhile (\<lambda>c. c \<noteq> 0) (take (MAX_BUF_SIZE - 1) bs)"
proof -
  let ?n = "min (MAX_BUF_SIZE - 1) (length bs)"
  have pos: "?n < MAX_BUF_SIZE" by (simp add: MAX_BUF_SIZE_def)
  have len: "length (packet_bytes r) = MAX_BUF_SIZE" using assms by (simp add: stored_def)
  have st: "take (packet_length r) (packet_bytes r) = take MAX_BUF_SIZE bs" using assms unfolding stored_def by blast
  have tp: "packet_bytes (terminate_packet r) = (packet_bytes r)[?n := 0]"
  proof (cases "length bs < MAX_BUF_SIZE")
    case True
    then have "min (MAX_BUF_SIZE - 1) (length bs) = length bs" by simp
    then show ?thesis using True assms by (simp add: terminate_packet_def stored_def)
  next
    case False
    then show ?thesis using assms by (simp add: terminate_packet_def stored_def)
  qed
  have n: "?n = min ?n (packet_length r)" "min ?n MAX_BUF_SIZE = ?n" using assms pos by (simp_all add: stored_def)
  have "take ?n (packet_bytes r) = take ?n (take (packet_length r) (packet_bytes r))"
    unfolding take_take n(1) [symmetric] ..
  also have "\<dots> = take ?n (take MAX_BUF_SIZE bs)" using st by simp
  also have "\<dots> = take ?n bs" unfolding take_take n(2) ..
  also have "\<dots> = take (MAX_BUF_SIZE - 1) bs" by (simp add: min_def)
  finally have "(packet_bytes r)[?n := 0] = take (MAX_BUF_SIZE - 1) bs @ 0 # drop (Suc ?n) (packet_bytes r)"
    using pos len by (simp add: upd_conv_take_nth_drop)
  then show ?thesis unfolding tp by (simp add: takeWhile_tail)
qed

text \<open>
  What the server sends is logged up to its first zero byte and up to 999 bytes, whatever the segments of the packet buffer; the
  bytes stay inside the array of the packet, the packet is empty again for the next data, the buffer is released once and the window is
  reopened by the whole length.
\<close>

theorem tcp_recv_logs:
  assumes "packets s a = Some r" and "packet_length r = 0" and "length (packet_bytes r) = MAX_BUF_SIZE"
  shows "\<exists>r' s'. tcp_client_recv net (Some a) pcb (Some pb) err s = Some (ERR_OK, s') \<and>
    client_calls s' = client_calls s @
      [Call_recved pcb (tot_len pb),
       Log_received (takeWhile (\<lambda>c. c \<noteq> 0) (take 999 (concat (segs pb)))),
       Call_pbuf_free] \<and>
    packets s' = (packets s)(a \<mapsto> r') \<and> packet_length r' = 0 \<and> length (packet_bytes r') = MAX_BUF_SIZE \<and>
    g_tcp_connected s' = g_tcp_connected s \<and> g_pcb s' = g_pcb s"
proof -
  let ?r = "store_segments (segs pb) r"
  have nil: "stored [] r" using assms by (simp add: stored_def)
  have st: "stored (concat (segs pb)) ?r"
    unfolding store_segments_def store_segments_concat
    using store_bytes [OF nil, of "concat (segs pb)"] by simp
  then have "length (packet_bytes (terminate_packet ?r)) = MAX_BUF_SIZE" by (simp add: terminate_packet_def stored_def)
  moreover have "takeWhile (\<lambda>c. c \<noteq> 0) (packet_bytes (terminate_packet ?r)) = takeWhile (\<lambda>c. c \<noteq> 0) (take 999 (concat (segs pb)))"
    using terminated [OF st] by (simp add: MAX_BUF_SIZE_def)
  ultimately show ?thesis
    using assms(1) by (intro exI [of _ "(terminate_packet ?r)\<lparr>packet_length := 0\<rparr>"]) (simp add: tcp_client_recv_def calls_def Let_def)
qed

definition example_net :: client_net where
  "example_net = \<lparr>net_new = (\<lambda>_. Some 1), net_connect = (\<lambda>_. ERR_OK), net_write = (\<lambda>_. ERR_OK), net_close = (\<lambda>_. ERR_OK), net_calloc = (\<lambda>_. Some 7)\<rparr>"

definition idle_client :: tcp_client where
  "idle_client = \<lparr>g_tcp_connected = False, g_send_counter = 0, g_pcb = None, pcb_arg = (\<lambda>_. None), packets = (\<lambda>_. None), client_calls = []\<rparr>"

definition example_client :: tcp_client where
  "example_client = snd (tcp_client_connected example_net None 1 ERR_OK (tcp_client_init example_net idle_client))"

lemmas example_client_defs =
  example_client_def example_net_def idle_client_def tcp_client_connected_def tcp_client_init_def calls_def Let_def ERR_OK_def

lemma example_client_simps:
  "g_tcp_connected example_client" "g_pcb example_client = Some 1" "g_send_counter example_client = 0"
  "pcb_arg example_client 1 = Some 7"
  "packets example_client = [7 \<mapsto> \<lparr>packet_length = 0, packet_bytes = replicate MAX_BUF_SIZE 0\<rparr>]"
  by (simp_all add: example_client_defs)

theorem tcp_recv_logs_witness:
  "\<exists>r' s'. tcp_client_recv example_net (Some 7) 1 (Some \<lparr>tot_len = 4, segs = [[72, 105], [0, 33]]\<rparr>) ERR_OK example_client = Some (ERR_OK, s') \<and>
    client_calls s' = client_calls example_client @ [Call_recved 1 4, Log_received [72, 105], Call_pbuf_free] \<and>
    packets s' = (packets example_client)(7 \<mapsto> r') \<and> packet_length r' = 0 \<and> length (packet_bytes r') = MAX_BUF_SIZE \<and>
    g_tcp_connected s' = g_tcp_connected example_client \<and> g_pcb s' = g_pcb example_client"
  using tcp_recv_logs [of example_client 7 "\<lparr>packet_length = 0, packet_bytes = replicate MAX_BUF_SIZE 0\<rparr>" example_net 1
      "\<lparr>tot_len = 4, segs = [[72, 105], [0, 33]]\<rparr>" ERR_OK]
  by (simp add: example_client_simps)

section \<open>The task\<close>

lemma turns_idle: "tcp_client_task net bs = Some bs \<Longrightarrow> client_turns net n bs = Some bs"
  by (induction n) simp_all

text \<open>
  A connection that the server closes is never opened again. The callback clears the connected flag and releases the packet, but
  keeps the control block in \<open>g_pcb\<close>, so that every further turn of the task neither sends nor reconnects; and since the stack still has
  the packet as the argument of the callbacks, an error callback of the closing connection releases it a second time.
\<close>

theorem tcp_remote_close:
  assumes "g_pcb s = Some pcb" and "packets s a = Some r"
  shows "\<exists>s'. tcp_client_recv net (Some a) pcb None ERR_OK s = Some (net_close net (client_calls s @ [Log_text ''TCP connection closed by server'']), s') \<and>
    \<not> g_tcp_connected s' \<and> packets s' a = None \<and> pcb_arg s' = pcb_arg s \<and>
    (\<forall>n buf. client_turns net n (buf, s') = Some (buf, s')) \<and>
    (\<forall>e. tcp_client_err (Some a) e s' = None)"
proof -
  let ?s = "calls [Call_close pcb]
    ((calls [Log_text ''TCP connection closed by server''] s)\<lparr>g_tcp_connected := False, packets := (packets s)(a := None)\<rparr>)"
  have "tcp_client_task net (buf, ?s) = Some (buf, ?s)" for buf
    using assms(1) by (simp add: tcp_client_task_def calls_def)
  then have "\<forall>n buf. client_turns net n (buf, ?s) = Some (buf, ?s)" by (simp add: turns_idle)
  moreover have "tcp_client_err (Some a) e ?s = None" for e
    by (simp add: tcp_client_err_def mem_free_def calls_def)
  moreover have "tcp_client_recv net (Some a) pcb None ERR_OK s =
      Some (net_close net (client_calls s @ [Log_text ''TCP connection closed by server'']), ?s)"
    using assms(2) by (simp add: tcp_client_recv_def mem_free_def calls_def Let_def)
  ultimately show ?thesis by (intro exI [of _ ?s]) (simp add: calls_def)
qed

theorem tcp_remote_close_witness:
  "\<exists>s'. tcp_client_recv example_net (Some 7) 1 None ERR_OK example_client =
      Some (net_close example_net (client_calls example_client @ [Log_text ''TCP connection closed by server'']), s') \<and>
    \<not> g_tcp_connected s' \<and> packets s' 7 = None \<and> pcb_arg s' = pcb_arg example_client \<and>
    (\<forall>n buf. client_turns example_net n (buf, s') = Some (buf, s')) \<and>
    (\<forall>e. tcp_client_err (Some 7) e s' = None)"
  using tcp_remote_close [of example_client 1 7] by (simp add: example_client_simps)

lemma length_dec: "n < 10 ^ Suc k \<Longrightarrow> length (dec n) \<le> Suc k"
proof (induction k arbitrary: n)
  case 0
  then show ?case by (subst dec.simps) simp
next
  case (Suc k)
  show ?case
  proof (cases "n < 10")
    case True
    then show ?thesis by (subst dec.simps) simp
  next
    case False
    have "n div 10 < 10 ^ Suc k" using Suc.prems by (simp add: less_mult_imp_div_less mult.commute)
    then show ?thesis using Suc.IH [of "n div 10"] False by (subst dec.simps) simp
  qed
qed

lemma digit_not_NUL: "d < 10 \<Longrightarrow> (char_of (48 + d :: nat) :: char) \<noteq> NUL"
  by (rule notI, drule arg_cong [of _ _ "of_char :: char \<Rightarrow> nat"]) simp

lemma dec_not_NUL: "NUL \<notin> set (dec n)"
proof (induction n rule: dec.induct)
  case (1 n)
  then show ?case using digit_not_NUL [of n] digit_not_NUL [of "n mod 10"] by (subst dec.simps) auto
qed

lemma test_message_fits: "length (test_message n) \<le> 63" "NUL \<notin> set (test_message n)"
proof -
  have "unat n < 10 ^ Suc 9" using unsigned_less [where w = n and ?'a = nat] by simp
  then have "length (dec (unat n)) \<le> Suc 9" by (rule length_dec)
  then show "length (test_message n) \<le> 63" by (simp add: test_message_def)
  show "NUL \<notin> set (test_message n)" using dec_not_NUL by (simp add: test_message_def)
qed

lemma print_message:
  assumes "length buf = 64"
  shows "\<exists>buf'. snprintf buf 0 64 (test_message n) = Some buf' \<and> length buf' = 64 \<and> cstring buf' = Some (test_message n)"
proof -
  let ?m = "test_message n"
  have "snprintf buf 0 64 ?m = Some (?m @ NUL # drop (Suc (length ?m)) buf)"
    using assms test_message_fits(1) [of n] by (simp add: snprintf_def store_at_def)
  moreover have "takeWhile (\<lambda>c. c \<noteq> NUL) (?m @ NUL # drop (Suc (length ?m)) buf) = ?m"
    using test_message_fits(2) [of n] by (subst takeWhile_append2) auto
  ultimately show ?thesis using assms test_message_fits(1) [of n] by (simp add: cstring_def)
qed

definition written :: "client_call list \<Rightarrow> u8 list list" where
  "written cs = List.map_filter (\<lambda>c. case c of Call_write pcb d \<Rightarrow> Some d | _ \<Rightarrow> None) cs"

lemma written_append [simp]: "written (cs @ ds) = written cs @ written ds"
  by (simp add: written_def map_filter_def)

lemma connected_turn:
  assumes "g_tcp_connected s" and "g_pcb s = Some pcb" and "length buf = 64"
  shows "\<exists>buf' s'. tcp_client_task net (buf, s) = Some (buf', s') \<and> length buf' = 64 \<and>
    g_tcp_connected s' \<and> g_pcb s' = Some pcb \<and> g_send_counter s' = g_send_counter s + 1 \<and>
    written (client_calls s') = written (client_calls s) @ [bytes_of_string (test_message (g_send_counter s))]"
proof -
  obtain buf' where "snprintf buf 0 64 (test_message (g_send_counter s)) = Some buf'" "length buf' = 64"
      "cstring buf' = Some (test_message (g_send_counter s))"
    using print_message [OF assms(3), of "g_send_counter s"] by blast
  then show ?thesis
    using assms by (simp add: tcp_client_task_def Let_def calls_def written_def map_filter_def)
qed

lemma connected_turns:
  assumes "g_tcp_connected s" and "g_pcb s = Some pcb" and "length buf = 64"
  shows "\<exists>buf' s'. client_turns net n (buf, s) = Some (buf', s') \<and> g_send_counter s' = g_send_counter s + of_nat n \<and>
    g_tcp_connected s' \<and> g_pcb s' = Some pcb \<and>
    written (client_calls s') = written (client_calls s) @
      map (\<lambda>i. bytes_of_string (test_message (g_send_counter s + of_nat i))) [0..<n]"
  using assms
proof (induction n arbitrary: s buf)
  case 0
  then show ?case by simp
next
  case (Suc n)
  obtain buf1 s1 where one: "tcp_client_task net (buf, s) = Some (buf1, s1)" "length buf1 = 64" "g_tcp_connected s1" "g_pcb s1 = Some pcb"
      "g_send_counter s1 = g_send_counter s + 1"
      "written (client_calls s1) = written (client_calls s) @ [bytes_of_string (test_message (g_send_counter s))]"
    using connected_turn [OF Suc.prems, of net] by blast
  have sh: "map (\<lambda>i. f (g_send_counter s + 1 + of_nat i)) [0..<n] = map (\<lambda>i. f (g_send_counter s + of_nat i)) [Suc 0..<Suc n]"
    for f :: "u32 \<Rightarrow> u8 list"
    unfolding map_Suc_upt [symmetric] by (simp add: add.assoc)
  show ?case
    using Suc.IH [OF one(3,4,2)] one by (simp add: upt_conv_Cons add.assoc sh [of "\<lambda>x. bytes_of_string (test_message x)", unfolded add.assoc] del: upt_Suc)
qed

text \<open>
  While the connection stands, \<open>n\<close> turns of the task write the \<open>n\<close> messages with consecutive numbers, each of them complete in
  the array of 64 bytes, whether or not the stack accepts them; the counter wraps around with its 32 bits.
\<close>

theorem tcp_messages_numbered:
  assumes "g_tcp_connected s" and "g_pcb s = Some pcb" and "length buf = 64"
  shows "\<exists>buf' s'. client_turns net n (buf, s) = Some (buf', s') \<and> g_send_counter s' = g_send_counter s + of_nat n \<and>
    g_tcp_connected s' \<and> g_pcb s' = Some pcb \<and>
    written (client_calls s') = written (client_calls s) @
      map (\<lambda>i. bytes_of_string (''Test message #'' @ dec (unat (g_send_counter s + of_nat i)) @ [CHR 0x0A])) [0..<n]"
  using connected_turns [OF assms, of net n] by (simp only: test_message_def)

theorem tcp_messages_numbered_witness:
  "\<exists>buf' s'. client_turns example_net 2 (replicate 64 NUL, example_client) = Some (buf', s') \<and>
    g_send_counter s' = g_send_counter example_client + of_nat 2 \<and> g_tcp_connected s' \<and> g_pcb s' = Some 1 \<and>
    written (client_calls s') = written (client_calls example_client) @
      map (\<lambda>i. bytes_of_string (''Test message #'' @ dec (unat (g_send_counter example_client + of_nat i)) @ [CHR 0x0A])) [0..<2]"
  using tcp_messages_numbered [of example_client 1 "replicate 64 NUL" example_net 2] by (simp add: example_client_simps)

text \<open>
  After an error the next turn of the task opens a new connection to the server, and once the stack reports it established the
  task goes on with the number at which it stopped. The packet of the lost connection is released and a new one is registered.
\<close>

theorem tcp_error_recovery:
  assumes "g_pcb s = Some pcb" and "packets s a = Some r" and "net_calloc net = (\<lambda>_. Some b)" and "net_new net = (\<lambda>_. Some pcb')"
    and "net_connect net = (\<lambda>_. ERR_OK)" and "length buf = 64"
  shows "\<exists>s1 s2 s3 s4 buf'. tcp_client_err (Some a) e s = Some s1 \<and> packets s1 a = None \<and>
    tcp_client_task net (buf, s1) = Some (buf, s2) \<and> Call_connect pcb' IP_S_PORT \<in> set (client_calls s2) \<and>
    tcp_client_connected net (pcb_arg s2 pcb') pcb' ERR_OK s2 = (ERR_OK, s3) \<and>
    pcb_arg s3 pcb' = Some b \<and> packets s3 b = Some \<lparr>packet_length = 0, packet_bytes = replicate MAX_BUF_SIZE 0\<rparr> \<and>
    tcp_client_task net (buf, s3) = Some (buf', s4) \<and>
    written (client_calls s4) = written (client_calls s) @ [bytes_of_string (test_message (g_send_counter s))]"
proof -
  let ?s1 = "(calls [Log_text ''TCP connection error''] s)\<lparr>g_tcp_connected := False, g_pcb := None, packets := (packets s)(a := None)\<rparr>"
  let ?s2 = "tcp_client_init net (calls [Log_text ''TCP not connected, attempting to reconnect...''] ?s1)"
  let ?s3 = "snd (tcp_client_connected net (pcb_arg ?s2 pcb') pcb' ERR_OK ?s2)"
  have s2: "g_send_counter ?s2 = g_send_counter s" "written (client_calls ?s2) = written (client_calls s)"
      "Call_connect pcb' IP_S_PORT \<in> set (client_calls ?s2)"
    using assms by (simp_all add: tcp_client_init_def calls_def Let_def written_def map_filter_def)
  have s3: "g_tcp_connected ?s3" "g_pcb ?s3 = Some pcb'" "g_send_counter ?s3 = g_send_counter s" "pcb_arg ?s3 pcb' = Some b"
      "packets ?s3 b = Some \<lparr>packet_length = 0, packet_bytes = replicate MAX_BUF_SIZE 0\<rparr>"
      "written (client_calls ?s3) = written (client_calls s)"
    using assms s2 by (simp_all add: tcp_client_connected_def calls_def Let_def written_def map_filter_def)
  obtain buf' s4 where s4: "tcp_client_task net (buf, ?s3) = Some (buf', s4)"
      "written (client_calls s4) = written (client_calls ?s3) @ [bytes_of_string (test_message (g_send_counter ?s3))]"
    using connected_turn [OF s3(1,2) assms(6), of net] by blast
  have s1: "tcp_client_err (Some a) e s = Some ?s1" "packets ?s1 a = None"
    using assms(2) by (simp_all add: tcp_client_err_def mem_free_def calls_def)
  have turn: "tcp_client_task net (buf, ?s1) = Some (buf, ?s2)" by (simp add: tcp_client_task_def calls_def)
  have conn: "tcp_client_connected net (pcb_arg ?s2 pcb') pcb' ERR_OK ?s2 = (ERR_OK, ?s3)"
    by (simp add: tcp_client_connected_def Let_def)
  show ?thesis
    by (intro exI conjI) (rule s1 turn s2 conn s3 s4(1) | (simp only: s4(2) s3))+
qed

theorem tcp_error_recovery_witness:
  "\<exists>s1 s2 s3 s4 buf'. tcp_client_err (Some 7) (-14) example_client = Some s1 \<and> packets s1 7 = None \<and>
    tcp_client_task example_net (replicate 64 NUL, s1) = Some (replicate 64 NUL, s2) \<and> Call_connect 1 IP_S_PORT \<in> set (client_calls s2) \<and>
    tcp_client_connected example_net (pcb_arg s2 1) 1 ERR_OK s2 = (ERR_OK, s3) \<and>
    pcb_arg s3 1 = Some 7 \<and> packets s3 7 = Some \<lparr>packet_length = 0, packet_bytes = replicate MAX_BUF_SIZE 0\<rparr> \<and>
    tcp_client_task example_net (replicate 64 NUL, s3) = Some (buf', s4) \<and>
    written (client_calls s4) = written (client_calls example_client) @ [bytes_of_string (test_message (g_send_counter example_client))]"
  by (rule tcp_error_recovery [of example_client 1 7 "\<lparr>packet_length = 0, packet_bytes = replicate MAX_BUF_SIZE 0\<rparr>" example_net 7 1])
    (simp_all add: example_client_simps example_net_def)

end
