(* ===== verification/KernelList.thy ===== *)
theory KernelList
  imports Prelude
begin

text \<open>
  The lists of the kernel, \<^verbatim>\<open>src/FreeRtos/kernel/list.c\<close> and \<^verbatim>\<open>include/list.h\<close>: circular doubly linked lists of items that are parts of
  other objects, with an end marker inside the list object and an index that walks through the list. The scheduler keeps
  ready, delayed and waiting tasks in them.

  The first part is the code over a memory of items and list objects, with pointers that are names of items or of the end marker of a list. The second
  part is what a list means, a sequence of items with a current position. The last part relates the two: every program of list
  operations runs on the pointers as it does on the sequences. The integrity check bytes are not configured and the trace macros are empty.
\<close>

section \<open>Items and lists in memory\<close>

datatype ('l, 'i) node = ListEnd 'l | ListItem 'i

record ('l, 'i) ListItem_t =
  xItemValue :: u32
  pxNext :: "('l, 'i) node"
  pxPrevious :: "('l, 'i) node"
  pvOwner :: nat
  pxContainer :: "'l option"

record ('l, 'i) List_t =
  uxNumberOfItems :: u32
  pxIndex :: "('l, 'i) node"

text \<open>
  The member \<open>xListEnd\<close> of the list at \<open>l\<close> is the item at \<open>ListEnd l\<close>; it has neither owner nor container, so those two members of its
  record are never used.
\<close>

record ('l, 'i) list_mem =
  node_at :: "('l, 'i) node \<Rightarrow> ('l, 'i) ListItem_t"
  list_at :: "'l \<Rightarrow> ('l, 'i) List_t"

text \<open>Stores to the members.\<close>

definition upd_node :: "('l, 'i) node \<Rightarrow> (('l, 'i) ListItem_t \<Rightarrow> ('l, 'i) ListItem_t) \<Rightarrow> ('l, 'i) list_mem \<Rightarrow> ('l, 'i) list_mem" where
  "upd_node n f M = M\<lparr>node_at := (node_at M)(n := f (node_at M n))\<rparr>"

definition upd_list :: "'l \<Rightarrow> (('l, 'i) List_t \<Rightarrow> ('l, 'i) List_t) \<Rightarrow> ('l, 'i) list_mem \<Rightarrow> ('l, 'i) list_mem" where
  "upd_list l f M = M\<lparr>list_at := (list_at M)(l := f (list_at M l))\<rparr>"

definition set_pxNext :: "('l, 'i) node \<Rightarrow> ('l, 'i) node \<Rightarrow> ('l, 'i) list_mem \<Rightarrow> ('l, 'i) list_mem" where
  "set_pxNext n v = upd_node n (\<lambda>r. r\<lparr>pxNext := v\<rparr>)"

definition set_pxPrevious :: "('l, 'i) node \<Rightarrow> ('l, 'i) node \<Rightarrow> ('l, 'i) list_mem \<Rightarrow> ('l, 'i) list_mem" where
  "set_pxPrevious n v = upd_node n (\<lambda>r. r\<lparr>pxPrevious := v\<rparr>)"

definition set_pxContainer :: "'i \<Rightarrow> 'l option \<Rightarrow> ('l, 'i) list_mem \<Rightarrow> ('l, 'i) list_mem" where
  "set_pxContainer i v = upd_node (ListItem i) (\<lambda>r. r\<lparr>pxContainer := v\<rparr>)"

definition set_pxIndex :: "'l \<Rightarrow> ('l, 'i) node \<Rightarrow> ('l, 'i) list_mem \<Rightarrow> ('l, 'i) list_mem" where
  "set_pxIndex l v = upd_list l (\<lambda>r. r\<lparr>pxIndex := v\<rparr>)"

section \<open>The functions of the file\<close>

definition vListInitialise :: "'l \<Rightarrow> ('l, 'i) list_mem \<Rightarrow> ('l, 'i) list_mem" where
  "vListInitialise pxList M =
     (let M1 = set_pxIndex pxList (ListEnd pxList) M;
          M2 = upd_node (ListEnd pxList) (\<lambda>r. r\<lparr>xItemValue := portMAX_DELAY\<rparr>) M1;
          M3 = set_pxNext (ListEnd pxList) (ListEnd pxList) M2;
          M4 = set_pxPrevious (ListEnd pxList) (ListEnd pxList) M3
      in upd_list pxList (\<lambda>r. r\<lparr>uxNumberOfItems := 0\<rparr>) M4)"

definition vListInitialiseItem :: "'i \<Rightarrow> ('l, 'i) list_mem \<Rightarrow> ('l, 'i) list_mem" where
  "vListInitialiseItem pxItem M = set_pxContainer pxItem None M"

definition vListInsertEnd :: "'l \<Rightarrow> 'i \<Rightarrow> ('l, 'i) list_mem \<Rightarrow> ('l, 'i) list_mem" where
  "vListInsertEnd pxList pxNewListItem M =
     (let new = ListItem pxNewListItem;
          index = pxIndex (list_at M pxList);
          M1 = set_pxNext new index M;
          M2 = set_pxPrevious new (pxPrevious (node_at M1 index)) M1;
          M3 = set_pxNext (pxPrevious (node_at M2 index)) new M2;
          M4 = set_pxPrevious index new M3;
          M5 = set_pxContainer pxNewListItem (Some pxList) M4
      in upd_list pxList (\<lambda>r. r\<lparr>uxNumberOfItems := uxNumberOfItems r + 1\<rparr>) M5)"

text \<open>The position after which an item with a value below the maximum goes.\<close>

partial_function (option) insert_after :: "('l, 'i) list_mem \<Rightarrow> u32 \<Rightarrow> ('l, 'i) node \<Rightarrow> ('l, 'i) node option" where
  "insert_after M xValueOfInsertion pxIterator =
     (if xItemValue (node_at M (pxNext (node_at M pxIterator))) \<le> xValueOfInsertion
      then insert_after M xValueOfInsertion (pxNext (node_at M pxIterator)) else Some pxIterator)"

definition vListInsert :: "'l \<Rightarrow> 'i \<Rightarrow> ('l, 'i) list_mem \<Rightarrow> ('l, 'i) list_mem option" where
  "vListInsert pxList pxNewListItem M =
     (let new = ListItem pxNewListItem;
          xValueOfInsertion = xItemValue (node_at M new)
      in case (if xValueOfInsertion = portMAX_DELAY then Some (pxPrevious (node_at M (ListEnd pxList)))
               else insert_after M xValueOfInsertion (ListEnd pxList)) of
           None \<Rightarrow> None
         | Some pxIterator \<Rightarrow>
             (let M1 = set_pxNext new (pxNext (node_at M pxIterator)) M;
                  M2 = set_pxPrevious (pxNext (node_at M1 new)) new M1;
                  M3 = set_pxPrevious new pxIterator M2;
                  M4 = set_pxNext pxIterator new M3;
                  M5 = set_pxContainer pxNewListItem (Some pxList) M4
              in Some (upd_list pxList (\<lambda>r. r\<lparr>uxNumberOfItems := uxNumberOfItems r + 1\<rparr>) M5)))"

text \<open>Removal of an item that is in no list would use a null pointer.\<close>

definition uxListRemove :: "'i \<Rightarrow> ('l, 'i) list_mem \<Rightarrow> (u32 \<times> ('l, 'i) list_mem) option" where
  "uxListRemove pxItemToRemove M =
     (let it = ListItem pxItemToRemove
      in case pxContainer (node_at M it) of
           None \<Rightarrow> None
         | Some pxList \<Rightarrow>
             (let M1 = set_pxPrevious (pxNext (node_at M it)) (pxPrevious (node_at M it)) M;
                  M2 = set_pxNext (pxPrevious (node_at M1 it)) (pxNext (node_at M1 it)) M1;
                  M3 = (if pxIndex (list_at M2 pxList) = it then set_pxIndex pxList (pxPrevious (node_at M2 it)) M2 else M2);
                  M4 = set_pxContainer pxItemToRemove None M3;
                  M5 = upd_list pxList (\<lambda>r. r\<lparr>uxNumberOfItems := uxNumberOfItems r - 1\<rparr>) M4
              in Some (uxNumberOfItems (list_at M5 pxList), M5)))"

section \<open>The macros of the header\<close>

text \<open>The owner of the end marker lies behind the list object.\<close>

definition owner_of :: "('l, 'i) list_mem \<Rightarrow> ('l, 'i) node \<Rightarrow> nat option" where
  "owner_of M n = (case n of ListEnd l \<Rightarrow> None | ListItem i \<Rightarrow> Some (pvOwner (node_at M n)))"

definition listSET_LIST_ITEM_OWNER :: "'i \<Rightarrow> nat \<Rightarrow> ('l, 'i) list_mem \<Rightarrow> ('l, 'i) list_mem" where
  "listSET_LIST_ITEM_OWNER i v = upd_node (ListItem i) (\<lambda>r. r\<lparr>pvOwner := v\<rparr>)"

definition listSET_LIST_ITEM_VALUE :: "'i \<Rightarrow> u32 \<Rightarrow> ('l, 'i) list_mem \<Rightarrow> ('l, 'i) list_mem" where
  "listSET_LIST_ITEM_VALUE i v = upd_node (ListItem i) (\<lambda>r. r\<lparr>xItemValue := v\<rparr>)"

definition listGET_LIST_ITEM_VALUE :: "'i \<Rightarrow> ('l, 'i) list_mem \<Rightarrow> u32" where
  "listGET_LIST_ITEM_VALUE i M = xItemValue (node_at M (ListItem i))"

definition listGET_ITEM_VALUE_OF_HEAD_ENTRY :: "'l \<Rightarrow> ('l, 'i) list_mem \<Rightarrow> u32" where
  "listGET_ITEM_VALUE_OF_HEAD_ENTRY l M = xItemValue (node_at M (pxNext (node_at M (ListEnd l))))"

definition listGET_OWNER_OF_HEAD_ENTRY :: "'l \<Rightarrow> ('l, 'i) list_mem \<Rightarrow> nat option" where
  "listGET_OWNER_OF_HEAD_ENTRY l M = owner_of M (pxNext (node_at M (ListEnd l)))"

definition listLIST_IS_EMPTY :: "'l \<Rightarrow> ('l, 'i) list_mem \<Rightarrow> bool" where
  "listLIST_IS_EMPTY l M \<longleftrightarrow> uxNumberOfItems (list_at M l) = 0"

definition listCURRENT_LIST_LENGTH :: "'l \<Rightarrow> ('l, 'i) list_mem \<Rightarrow> u32" where
  "listCURRENT_LIST_LENGTH l M = uxNumberOfItems (list_at M l)"

definition listLIST_ITEM_CONTAINER :: "'i \<Rightarrow> ('l, 'i) list_mem \<Rightarrow> 'l option" where
  "listLIST_ITEM_CONTAINER i M = pxContainer (node_at M (ListItem i))"

definition listIS_CONTAINED_WITHIN :: "'l \<Rightarrow> 'i \<Rightarrow> ('l, 'i) list_mem \<Rightarrow> bool" where
  "listIS_CONTAINED_WITHIN l i M \<longleftrightarrow> pxContainer (node_at M (ListItem i)) = Some l"

definition listGET_OWNER_OF_NEXT_ENTRY :: "'l \<Rightarrow> ('l, 'i) list_mem \<Rightarrow> (nat \<times> ('l, 'i) list_mem) option" where
  "listGET_OWNER_OF_NEXT_ENTRY l M =
     (let M1 = set_pxIndex l (pxNext (node_at M (pxIndex (list_at M l)))) M;
          M2 = (if pxIndex (list_at M1 l) = ListEnd l then set_pxIndex l (pxNext (node_at M1 (ListEnd l))) M1 else M1)
      in case owner_of M2 (pxIndex (list_at M2 l)) of None \<Rightarrow> None | Some t \<Rightarrow> Some (t, M2))"

text \<open>\<open>listINSERT_END\<close> and \<open>listREMOVE_ITEM\<close> are the bodies of the functions without a call; the second has no result.\<close>

definition listINSERT_END :: "'l \<Rightarrow> 'i \<Rightarrow> ('l, 'i) list_mem \<Rightarrow> ('l, 'i) list_mem" where
  "listINSERT_END l i M = vListInsertEnd l i M"

definition listREMOVE_ITEM :: "'i \<Rightarrow> ('l, 'i) list_mem \<Rightarrow> ('l, 'i) list_mem option" where
  "listREMOVE_ITEM i M = map_option snd (uxListRemove i M)"

section \<open>Lists as sequences\<close>

text \<open>
  A list means the sequence of its items and the position of its index, which is an item or the end. The item that was served last is
  at the index, so that insertion at the end goes before it.
\<close>

record 'i klist =
  kl_items :: "'i list"
  kl_index :: "'i option"

definition before :: "'i \<Rightarrow> 'i list \<Rightarrow> 'i list" where "before x xs = takeWhile (\<lambda>y. y \<noteq> x) xs"
definition from_on :: "'i \<Rightarrow> 'i list \<Rightarrow> 'i list" where "from_on x xs = dropWhile (\<lambda>y. y \<noteq> x) xs"

definition kl_insert_end :: "'i \<Rightarrow> 'i klist \<Rightarrow> 'i klist" where
  "kl_insert_end x k =
     k\<lparr>kl_items := (case kl_index k of None \<Rightarrow> kl_items k @ [x] | Some c \<Rightarrow> before c (kl_items k) @ x # from_on c (kl_items k))\<rparr>"

definition kl_insert :: "('i \<Rightarrow> u32) \<Rightarrow> 'i \<Rightarrow> 'i klist \<Rightarrow> 'i klist" where
  "kl_insert val x k =
     k\<lparr>kl_items := takeWhile (\<lambda>y. val y \<le> val x) (kl_items k) @ x # dropWhile (\<lambda>y. val y \<le> val x) (kl_items k)\<rparr>"

definition kl_remove :: "'i \<Rightarrow> 'i klist \<Rightarrow> 'i klist" where
  "kl_remove x k =
     k\<lparr>kl_items := remove1 x (kl_items k),
       kl_index := (if kl_index k = Some x
                    then (if before x (kl_items k) = [] then None else Some (last (before x (kl_items k))))
                    else kl_index k)\<rparr>"

definition kl_next :: "'i klist \<Rightarrow> 'i klist" where
  "kl_next k =
     k\<lparr>kl_index :=
         Some (case kl_index k of
                 None \<Rightarrow> hd (kl_items k)
               | Some c \<Rightarrow> (case from_on c (kl_items k) of x # y # zs \<Rightarrow> y | _ \<Rightarrow> hd (kl_items k)))\<rparr>"

record ('l, 'i) list_abs =
  la_lists :: "'l \<Rightarrow> 'i klist option"
  la_value :: "'i \<Rightarrow> u32"
  la_owner :: "'i \<Rightarrow> nat"
  la_container :: "'i \<Rightarrow> 'l option"

section \<open>Operations on both levels\<close>

datatype ('l, 'i) list_op =
  Op_Initialise 'l | Op_InitialiseItem 'i | Op_InsertEnd 'l 'i | Op_Insert 'l 'i | Op_Remove 'i | Op_SetOwner 'i nat | Op_SetValue 'i u32
| Op_GetValue 'i | Op_HeadValue 'l | Op_HeadOwner 'l | Op_IsEmpty 'l | Op_Length 'l | Op_Container 'i | Op_Within 'l 'i | Op_NextOwner 'l

datatype 'l list_result = Nothing | Num u32 | Owner nat | Truth bool | Place "'l option"

definition mem_step :: "('l, 'i) list_op \<Rightarrow> ('l, 'i) list_mem \<Rightarrow> ('l list_result \<times> ('l, 'i) list_mem) option" where
  "mem_step op M =
     (case op of
        Op_Initialise l \<Rightarrow> Some (Nothing, vListInitialise l M)
      | Op_InitialiseItem i \<Rightarrow> Some (Nothing, vListInitialiseItem i M)
      | Op_InsertEnd l i \<Rightarrow> Some (Nothing, vListInsertEnd l i M)
      | Op_Insert l i \<Rightarrow> map_option (Pair Nothing) (vListInsert l i M)
      | Op_Remove i \<Rightarrow> map_option (map_prod Num id) (uxListRemove i M)
      | Op_SetOwner i v \<Rightarrow> Some (Nothing, listSET_LIST_ITEM_OWNER i v M)
      | Op_SetValue i v \<Rightarrow> Some (Nothing, listSET_LIST_ITEM_VALUE i v M)
      | Op_GetValue i \<Rightarrow> Some (Num (listGET_LIST_ITEM_VALUE i M), M)
      | Op_HeadValue l \<Rightarrow> Some (Num (listGET_ITEM_VALUE_OF_HEAD_ENTRY l M), M)
      | Op_HeadOwner l \<Rightarrow> map_option (\<lambda>t. (Owner t, M)) (listGET_OWNER_OF_HEAD_ENTRY l M)
      | Op_IsEmpty l \<Rightarrow> Some (Truth (listLIST_IS_EMPTY l M), M)
      | Op_Length l \<Rightarrow> Some (Num (listCURRENT_LIST_LENGTH l M), M)
      | Op_Container i \<Rightarrow> Some (Place (listLIST_ITEM_CONTAINER i M), M)
      | Op_Within l i \<Rightarrow> Some (Truth (listIS_CONTAINED_WITHIN l i M), M)
      | Op_NextOwner l \<Rightarrow> map_option (map_prod Owner id) (listGET_OWNER_OF_NEXT_ENTRY l M))"

text \<open>On the sequences an operation outside its contract has no result.\<close>

definition insertable :: "'l \<Rightarrow> 'i \<Rightarrow> ('l, 'i) list_abs \<Rightarrow> bool" where
  "insertable l i A \<longleftrightarrow>
     la_container A i = None \<and> (case la_lists A l of None \<Rightarrow> False | Some k \<Rightarrow> length (kl_items k) + 1 < 2 ^ 32)"

definition put_list :: "'l \<Rightarrow> 'i klist \<Rightarrow> ('l, 'i) list_abs \<Rightarrow> ('l, 'i) list_abs" where
  "put_list l k A = A\<lparr>la_lists := (la_lists A)(l \<mapsto> k)\<rparr>"

definition put_container :: "'i \<Rightarrow> 'l option \<Rightarrow> ('l, 'i) list_abs \<Rightarrow> ('l, 'i) list_abs" where
  "put_container i c A = A\<lparr>la_container := (la_container A)(i := c)\<rparr>"

definition abs_step :: "('l, 'i) list_op \<Rightarrow> ('l, 'i) list_abs \<Rightarrow> ('l list_result \<times> ('l, 'i) list_abs) option" where
  "abs_step op A =
     (case op of
        Op_Initialise l \<Rightarrow>
          (if (case la_lists A l of None \<Rightarrow> True | Some k \<Rightarrow> kl_items k = [])
           then Some (Nothing, put_list l \<lparr>kl_items = [], kl_index = None\<rparr> A) else None)
      | Op_InitialiseItem i \<Rightarrow> if la_container A i = None then Some (Nothing, A) else None
      | Op_InsertEnd l i \<Rightarrow>
          if insertable l i A then Some (Nothing, put_container i (Some l) (put_list l (kl_insert_end i (the (la_lists A l))) A)) else None
      | Op_Insert l i \<Rightarrow>
          if insertable l i A
          then Some (Nothing, put_container i (Some l) (put_list l (kl_insert (la_value A) i (the (la_lists A l))) A)) else None
      | Op_Remove i \<Rightarrow>
          (case la_container A i of
             None \<Rightarrow> None
           | Some l \<Rightarrow>
               (let k = kl_remove i (the (la_lists A l))
                in Some (Num (of_nat (length (kl_items k))), put_container i None (put_list l k A))))
      | Op_SetOwner i v \<Rightarrow> Some (Nothing, A\<lparr>la_owner := (la_owner A)(i := v)\<rparr>)
      | Op_SetValue i v \<Rightarrow> Some (Nothing, A\<lparr>la_value := (la_value A)(i := v)\<rparr>)
      | Op_GetValue i \<Rightarrow> Some (Num (la_value A i), A)
      | Op_HeadValue l \<Rightarrow>
          map_option (\<lambda>k. (Num (case kl_items k of [] \<Rightarrow> portMAX_DELAY | x # xs \<Rightarrow> la_value A x), A)) (la_lists A l)
      | Op_HeadOwner l \<Rightarrow>
          (case la_lists A l of
             None \<Rightarrow> None
           | Some k \<Rightarrow> (case kl_items k of [] \<Rightarrow> None | x # xs \<Rightarrow> Some (Owner (la_owner A x), A)))
      | Op_IsEmpty l \<Rightarrow> map_option (\<lambda>k. (Truth (kl_items k = []), A)) (la_lists A l)
      | Op_Length l \<Rightarrow> map_option (\<lambda>k. (Num (of_nat (length (kl_items k))), A)) (la_lists A l)
      | Op_Container i \<Rightarrow> Some (Place (la_container A i), A)
      | Op_Within l i \<Rightarrow> Some (Truth (la_container A i = Some l), A)
      | Op_NextOwner l \<Rightarrow>
          (case la_lists A l of
             None \<Rightarrow> None
           | Some k \<Rightarrow>
               if kl_items k = [] then None
               else Some (Owner (la_owner A (the (kl_index (kl_next k)))), put_list l (kl_next k) A)))"

section \<open>The representation\<close>

definition linked :: "('l, 'i) list_mem \<Rightarrow> ('l, 'i) node list \<Rightarrow> bool" where
  "linked M ns \<longleftrightarrow> successively (\<lambda>m n. pxNext (node_at M m) = n \<and> pxPrevious (node_at M n) = m) ns"

definition ring_of :: "'l \<Rightarrow> 'i list \<Rightarrow> ('l, 'i) node list" where
  "ring_of l xs = ListEnd l # map ListItem xs @ [ListEnd l]"

definition index_node :: "'l \<Rightarrow> 'i option \<Rightarrow> ('l, 'i) node" where
  "index_node l c = (case c of None \<Rightarrow> ListEnd l | Some x \<Rightarrow> ListItem x)"

definition list_rep :: "('l, 'i) list_mem \<Rightarrow> 'l \<Rightarrow> 'i klist \<Rightarrow> bool" where
  "list_rep M l k \<longleftrightarrow>
     distinct (kl_items k) \<and> length (kl_items k) < 2 ^ 32 \<and> set_option (kl_index k) \<subseteq> set (kl_items k) \<and>
     linked M (ring_of l (kl_items k)) \<and> xItemValue (node_at M (ListEnd l)) = portMAX_DELAY \<and>
     uxNumberOfItems (list_at M l) = of_nat (length (kl_items k)) \<and> pxIndex (list_at M l) = index_node l (kl_index k)"

definition mem_rep :: "('l, 'i) list_mem \<Rightarrow> ('l, 'i) list_abs \<Rightarrow> bool" where
  "mem_rep M A \<longleftrightarrow>
     (\<forall>l k. la_lists A l = Some k \<longrightarrow> list_rep M l k) \<and>
     (\<forall>i. xItemValue (node_at M (ListItem i)) = la_value A i \<and> pvOwner (node_at M (ListItem i)) = la_owner A i \<and>
          pxContainer (node_at M (ListItem i)) = la_container A i) \<and>
     (\<forall>i l. la_container A i = Some l \<longleftrightarrow> (\<exists>k. la_lists A l = Some k \<and> i \<in> set (kl_items k)))"

section \<open>Reading and writing members\<close>

named_theorems link_simps

lemmas store_defs = set_pxNext_def set_pxPrevious_def set_pxContainer_def set_pxIndex_def upd_node_def upd_list_def
  listSET_LIST_ITEM_OWNER_def listSET_LIST_ITEM_VALUE_def

lemma next_simps [link_simps]:
  "pxNext (node_at (set_pxNext n v M) m) = (if m = n then v else pxNext (node_at M m))"
  "pxNext (node_at (set_pxPrevious n v M) m) = pxNext (node_at M m)"
  "pxNext (node_at (set_pxContainer i c M) m) = pxNext (node_at M m)"
  "pxNext (node_at (set_pxIndex l v M) m) = pxNext (node_at M m)"
  "pxNext (node_at (upd_list l f M) m) = pxNext (node_at M m)"
  by (simp_all add: store_defs)

lemma previous_simps [link_simps]:
  "pxPrevious (node_at (set_pxNext n v M) m) = pxPrevious (node_at M m)"
  "pxPrevious (node_at (set_pxPrevious n v M) m) = (if m = n then v else pxPrevious (node_at M m))"
  "pxPrevious (node_at (set_pxContainer i c M) m) = pxPrevious (node_at M m)"
  "pxPrevious (node_at (set_pxIndex l v M) m) = pxPrevious (node_at M m)"
  "pxPrevious (node_at (upd_list l f M) m) = pxPrevious (node_at M m)"
  by (simp_all add: store_defs)

lemma container_simps [link_simps]:
  "pxContainer (node_at (set_pxNext n v M) m) = pxContainer (node_at M m)"
  "pxContainer (node_at (set_pxPrevious n v M) m) = pxContainer (node_at M m)"
  "pxContainer (node_at (set_pxContainer i c M) m) = (if m = ListItem i then c else pxContainer (node_at M m))"
  "pxContainer (node_at (set_pxIndex l v M) m) = pxContainer (node_at M m)"
  "pxContainer (node_at (upd_list l f M) m) = pxContainer (node_at M m)"
  by (simp_all add: store_defs)

lemma data_simps [link_simps]:
  "xItemValue (node_at (set_pxNext n v M) m) = xItemValue (node_at M m)"
  "xItemValue (node_at (set_pxPrevious n v M) m) = xItemValue (node_at M m)"
  "xItemValue (node_at (set_pxContainer i c M) m) = xItemValue (node_at M m)"
  "xItemValue (node_at (set_pxIndex l v M) m) = xItemValue (node_at M m)"
  "xItemValue (node_at (upd_list l f M) m) = xItemValue (node_at M m)"
  "pvOwner (node_at (set_pxNext n v M) m) = pvOwner (node_at M m)"
  "pvOwner (node_at (set_pxPrevious n v M) m) = pvOwner (node_at M m)"
  "pvOwner (node_at (set_pxContainer i c M) m) = pvOwner (node_at M m)"
  "pvOwner (node_at (set_pxIndex l v M) m) = pvOwner (node_at M m)"
  "pvOwner (node_at (upd_list l f M) m) = pvOwner (node_at M m)"
  by (simp_all add: store_defs)

lemma list_simps [link_simps]:
  "list_at (set_pxNext n v M) = list_at M"
  "list_at (set_pxPrevious n v M) = list_at M"
  "list_at (set_pxContainer i c M) = list_at M"
  "list_at (set_pxIndex l v M) = (list_at M)(l := (list_at M l)\<lparr>pxIndex := v\<rparr>)"
  "list_at (upd_list l f M) = (list_at M)(l := f (list_at M l))"
  by (simp_all add: store_defs)

section \<open>Linking and unlinking\<close>

lemma linked_frame:
  assumes "linked M ns" and "\<forall>n\<in>set (butlast ns). pxNext (node_at M' n) = pxNext (node_at M n)"
    and "\<forall>n\<in>set (tl ns). pxPrevious (node_at M' n) = pxPrevious (node_at M n)"
  shows "linked M' ns"
  using assms
proof (induction ns)
  case (Cons n ns)
  then show ?case by (cases ns) (auto simp: linked_def)
qed (simp add: linked_def)

lemma linked_append:
  assumes "us \<noteq> []" and "vs \<noteq> []"
  shows "linked M (us @ vs) \<longleftrightarrow> linked M us \<and> linked M vs \<and>
    pxNext (node_at M (last us)) = hd vs \<and> pxPrevious (node_at M (hd vs)) = last us"
  using assms by (simp add: linked_def successively_append_iff)

text \<open>Cutting the ring of a list open leaves two parts that share no node but the end marker.\<close>

definition cut :: "'l \<Rightarrow> 'i list \<Rightarrow> ('l, 'i) node list \<Rightarrow> ('l, 'i) node list \<Rightarrow> bool" where
  "cut l xs us vs \<longleftrightarrow> (\<exists>ys zs. xs = ys @ zs \<and> us = ListEnd l # map ListItem ys \<and> vs = map ListItem zs @ [ListEnd l])"

lemma cut_facts:
  assumes "cut l xs us vs" and "distinct xs"
  shows "us \<noteq> []" "vs \<noteq> []" "ring_of l xs = us @ vs"
    "last us \<notin> set (butlast us)" "last us \<notin> set (butlast vs)" "hd vs \<notin> set (tl vs)" "hd vs \<notin> set (tl us)"
    "set us \<union> set vs = insert (ListEnd l) (ListItem ` set xs)"
proof -
  obtain ys zs where c: "xs = ys @ zs" "us = ListEnd l # map ListItem ys" "vs = map ListItem zs @ [ListEnd l]"
    using assms(1) by (auto simp: cut_def)
  show "us \<noteq> []" "vs \<noteq> []" "ring_of l xs = us @ vs" using c by (simp_all add: ring_of_def)
  show "set us \<union> set vs = insert (ListEnd l) (ListItem ` set xs)" using c by auto
  have d: "distinct ys" "distinct zs" "set ys \<inter> set zs = {}" using assms(2) c(1) by auto
  show "last us \<notin> set (butlast us)" using c d by (cases ys rule: rev_cases) (auto simp: butlast_append)
  show "last us \<notin> set (butlast vs)" using c d by (cases ys rule: rev_cases) auto
  show "hd vs \<notin> set (tl vs)" using c d by (cases zs) auto
  show "hd vs \<notin> set (tl us)" using c d by (cases zs) auto
qed

lemma link_between:
  assumes c: "cut l xs us vs" and d: "distinct xs" and x: "x \<notin> set xs" and lk: "linked M (ring_of l xs)"
    and new: "pxNext (node_at M' (ListItem x)) = hd vs" "pxPrevious (node_at M' (ListItem x)) = last us"
      "pxNext (node_at M' (last us)) = ListItem x" "pxPrevious (node_at M' (hd vs)) = ListItem x"
    and frame: "\<And>n. n \<noteq> ListItem x \<Longrightarrow> n \<noteq> last us \<Longrightarrow> pxNext (node_at M' n) = pxNext (node_at M n)"
      "\<And>n. n \<noteq> ListItem x \<Longrightarrow> n \<noteq> hd vs \<Longrightarrow> pxPrevious (node_at M' n) = pxPrevious (node_at M n)"
  shows "linked M' (us @ ListItem x # vs)"
proof -
  note f = cut_facts [OF c d]
  have ni: "ListItem x \<notin> set us" "ListItem x \<notin> set vs" using f(8) x by auto
  have lk2: "linked M us" "linked M vs" using lk f(3) linked_append [OF f(1,2)] by auto
  have us: "linked M' us"
    using lk2(1) by (rule linked_frame) (use f ni in \<open>auto intro!: frame dest: in_set_butlastD list.set_sel(2)\<close>)
  have "linked M' vs"
    using lk2(2) by (rule linked_frame) (use f ni in \<open>auto intro!: frame dest: in_set_butlastD list.set_sel(2)\<close>)
  then have "linked M' (ListItem x # vs)"
    using new f(2) linked_append [of "[ListItem x]" vs M'] by (simp add: linked_def)
  then show ?thesis using linked_append [of us "ListItem x # vs" M'] us new f(1) by simp
qed

lemma unlink_between:
  assumes c: "cut l (remove1 x xs) us vs" and d: "distinct xs" and lk: "linked M (us @ ListItem x # vs)"
    and new: "pxNext (node_at M' (last us)) = hd vs" "pxPrevious (node_at M' (hd vs)) = last us"
    and frame: "\<And>n. n \<noteq> last us \<Longrightarrow> pxNext (node_at M' n) = pxNext (node_at M n)"
      "\<And>n. n \<noteq> hd vs \<Longrightarrow> pxPrevious (node_at M' n) = pxPrevious (node_at M n)"
  shows "linked M' (ring_of l (remove1 x xs))"
proof -
  note f = cut_facts [OF c distinct_remove1 [OF d]]
  have "linked M us" "linked M vs"
    using lk f(1,2) linked_append [of us "ListItem x # vs" M] linked_append [of "[ListItem x]" vs M] by auto
  then have "linked M' us" "linked M' vs"
    using f by (auto elim!: linked_frame intro!: frame dest: in_set_butlastD list.set_sel(2))
  then show ?thesis using f(3) new linked_append [OF f(1,2)] by simp
qed

section \<open>Each operation keeps the representation\<close>

lemma list_rep_frame:
  assumes "list_rep M l k" and "\<And>n. n \<in> set (ring_of l (kl_items k)) \<Longrightarrow>
      pxNext (node_at M' n) = pxNext (node_at M n) \<and> pxPrevious (node_at M' n) = pxPrevious (node_at M n) \<and>
      xItemValue (node_at M' n) = xItemValue (node_at M n)"
    and "list_at M' l = list_at M l"
  shows "list_rep M' l k"
proof -
  have "linked M' (ring_of l (kl_items k))"
  proof (rule linked_frame)
    show "linked M (ring_of l (kl_items k))" using assms(1) by (simp add: list_rep_def)
    show "\<forall>n\<in>set (butlast (ring_of l (kl_items k))). pxNext (node_at M' n) = pxNext (node_at M n)"
      using assms(2) in_set_butlastD by fastforce
    show "\<forall>n\<in>set (tl (ring_of l (kl_items k))). pxPrevious (node_at M' n) = pxPrevious (node_at M n)"
      using assms(2) by (simp add: ring_of_def)
  qed
  moreover have "xItemValue (node_at M' (ListEnd l)) = portMAX_DELAY"
    using assms(1) assms(2) [of "ListEnd l"] by (auto simp: list_rep_def ring_of_def)
  ultimately show ?thesis using assms(1,3) by (simp add: list_rep_def)
qed

lemma rep_container: "mem_rep M A \<Longrightarrow> la_container A i = Some l \<longleftrightarrow> (\<exists>k. la_lists A l = Some k \<and> i \<in> set (kl_items k))"
  by (simp add: mem_rep_def)

lemma rep_free: "mem_rep M A \<Longrightarrow> la_container A i = None \<Longrightarrow> la_lists A l = Some k \<Longrightarrow> i \<notin> set (kl_items k)"
  using rep_container [of M A i l] by auto

lemma rep_other_list:
  assumes "mem_rep M A" and "la_lists A l = Some k" and "la_lists A l' = Some k'" and "l \<noteq> l'"
    and "n \<in> set (ring_of l' (kl_items k'))"
  shows "n \<noteq> ListEnd l" "n \<notin> ListItem ` set (kl_items k)"
proof -
  show "n \<noteq> ListEnd l" using assms(4,5) by (auto simp: ring_of_def)
  have "\<not> (i \<in> set (kl_items k) \<and> i \<in> set (kl_items k'))" for i
    using assms(2-4) rep_container [OF assms(1), of i l] rep_container [OF assms(1), of i l'] by auto
  then show "n \<notin> ListItem ` set (kl_items k)" using assms(5) by (auto simp: ring_of_def)
qed

lemma insert_rep:
  assumes rep: "mem_rep M A" and k: "la_lists A l = Some k" and free: "la_container A x = None"
    and len: "length (kl_items k) + 1 < 2 ^ 32" and sp: "kl_items k = ys @ zs"
    and us: "us = ListEnd l # map ListItem ys" and vs: "vs = map ListItem zs @ [ListEnd l]"
    and new: "pxNext (node_at M' (ListItem x)) = hd vs" "pxPrevious (node_at M' (ListItem x)) = last us"
      "pxNext (node_at M' (last us)) = ListItem x" "pxPrevious (node_at M' (hd vs)) = ListItem x"
    and frame: "\<And>n. n \<noteq> ListItem x \<Longrightarrow> n \<noteq> last us \<Longrightarrow> pxNext (node_at M' n) = pxNext (node_at M n)"
      "\<And>n. n \<noteq> ListItem x \<Longrightarrow> n \<noteq> hd vs \<Longrightarrow> pxPrevious (node_at M' n) = pxPrevious (node_at M n)"
    and lists: "list_at M' = (list_at M)(l := (list_at M l)\<lparr>uxNumberOfItems := uxNumberOfItems (list_at M l) + 1\<rparr>)"
    and data: "\<And>n. xItemValue (node_at M' n) = xItemValue (node_at M n)" "\<And>n. pvOwner (node_at M' n) = pvOwner (node_at M n)"
      "\<And>n. pxContainer (node_at M' n) = (if n = ListItem x then Some l else pxContainer (node_at M n))"
  shows "mem_rep M' (put_container x (Some l) (put_list l (k\<lparr>kl_items := ys @ x # zs\<rparr>) A))"
proof -
  have r: "list_rep M l k" using rep k by (simp add: mem_rep_def)
  have xk: "x \<notin> set (kl_items k)" by (rule rep_free [OF rep free k])
  have c: "cut l (kl_items k) us vs" using sp us vs by (auto simp: cut_def)
  have d: "distinct (kl_items k)" using r by (simp add: list_rep_def)
  note f = cut_facts [OF c d]
  have "linked M' (us @ ListItem x # vs)"
    using r by (intro link_between [OF c d xk _ new frame]) (simp_all add: list_rep_def)
  then have "linked M' (ring_of l (ys @ x # zs))" by (simp add: us vs ring_of_def)
  then have own: "list_rep M' l (k\<lparr>kl_items := ys @ x # zs\<rparr>)"
    using r len xk sp by (auto simp: list_rep_def lists data)
  have other: "list_rep M' l' k'" if l': "la_lists A l' = Some k'" "l' \<noteq> l" for l' k'
  proof (rule list_rep_frame)
    show "list_rep M l' k'" using rep l' by (simp add: mem_rep_def)
    fix n assume n: "n \<in> set (ring_of l' (kl_items k'))"
    have "last us \<in> insert (ListEnd l) (ListItem ` set (kl_items k))" "hd vs \<in> insert (ListEnd l) (ListItem ` set (kl_items k))"
      using f(1,2,8) last_in_set [of us] hd_in_set [of vs] by blast+
    then have "n \<noteq> last us" "n \<noteq> hd vs" using rep_other_list [OF rep k l'(1) _ n] l'(2) by auto
    moreover have "n \<noteq> ListItem x" using rep_free [OF rep free l'(1)] n by (auto simp: ring_of_def)
    ultimately show "pxNext (node_at M' n) = pxNext (node_at M n) \<and> pxPrevious (node_at M' n) = pxPrevious (node_at M n) \<and>
        xItemValue (node_at M' n) = xItemValue (node_at M n)" by (simp add: frame data)
  qed (use l' in \<open>simp add: lists\<close>)
  show ?thesis
    using rep own other k sp free rep_free [OF rep free] by (auto simp: mem_rep_def put_container_def put_list_def data)
qed

lemma before_from_on: "before x xs @ from_on x xs = xs"
  by (simp add: before_def from_on_def)

lemma before_not_in: "x \<notin> set (before x xs)"
  by (auto simp: before_def dest: set_takeWhileD)

lemma from_on_Cons: "x \<in> set xs \<Longrightarrow> \<exists>zs. from_on x xs = x # zs"
  by (induction xs) (auto simp: from_on_def)

lemma previous_of_index:
  assumes "list_rep M l k"
  shows "\<exists>ys zs. kl_items k = ys @ zs \<and> kl_items (kl_insert_end x k) = ys @ x # zs \<and>
    hd (map ListItem zs @ [ListEnd l]) = pxIndex (list_at M l) \<and>
    last (ListEnd l # map ListItem ys) = pxPrevious (node_at M (pxIndex (list_at M l)))"
proof -
  have d: "distinct (kl_items k)" and lk: "linked M (ring_of l (kl_items k))" using assms by (simp_all add: list_rep_def)
  obtain ys zs where s: "kl_items k = ys @ zs" "kl_items (kl_insert_end x k) = ys @ x # zs"
      "hd (map ListItem zs @ [ListEnd l]) = pxIndex (list_at M l)"
  proof (cases "kl_index k")
    case None
    then show ?thesis using assms that [of "kl_items k" "[]"] by (simp add: kl_insert_end_def list_rep_def index_node_def)
  next
    case (Some c)
    then have "c \<in> set (kl_items k)" using assms by (simp add: list_rep_def)
    then obtain zs where "from_on c (kl_items k) = c # zs" using from_on_Cons by metis
    then show ?thesis
      using Some assms that [of "before c (kl_items k)" "from_on c (kl_items k)"] before_from_on [of c "kl_items k"]
      by (simp add: kl_insert_end_def list_rep_def index_node_def)
  qed
  have c: "cut l (kl_items k) (ListEnd l # map ListItem ys) (map ListItem zs @ [ListEnd l])" using s(1) by (auto simp: cut_def)
  have "linked M ((ListEnd l # map ListItem ys) @ (map ListItem zs @ [ListEnd l]))"
    using lk cut_facts(3) [OF c d] by simp
  then show ?thesis using linked_append [of "ListEnd l # map ListItem ys" "map ListItem zs @ [ListEnd l]" M] s by auto
qed

lemma index_not_free: "mem_rep M A \<Longrightarrow> la_lists A l = Some k \<Longrightarrow> la_container A x = None \<Longrightarrow> pxIndex (list_at M l) \<noteq> ListItem x"
  using rep_free [of M A x l k] by (cases "kl_index k") (auto simp: mem_rep_def list_rep_def index_node_def)

lemma vListInsertEnd_rep:
  assumes rep: "mem_rep M A" and ins: "insertable l x A"
  shows "mem_rep (vListInsertEnd l x M) (put_container x (Some l) (put_list l (kl_insert_end x (the (la_lists A l))) A))"
proof -
  obtain k where k: "la_lists A l = Some k" and free: "la_container A x = None" and len: "length (kl_items k) + 1 < 2 ^ 32"
    using ins by (auto simp: insertable_def split: option.splits)
  have r: "list_rep M l k" using rep k by (simp add: mem_rep_def)
  obtain ys zs where s: "kl_items k = ys @ zs" "kl_items (kl_insert_end x k) = ys @ x # zs"
      "hd (map ListItem zs @ [ListEnd l]) = pxIndex (list_at M l)"
      "last (ListEnd l # map ListItem ys) = pxPrevious (node_at M (pxIndex (list_at M l)))"
    using previous_of_index [OF r, of x] by metis
  have ni: "pxIndex (list_at M l) \<noteq> ListItem x" using index_not_free [OF rep k free] .
  have "x \<notin> set ys" using rep_free [OF rep free k] s(1) by simp
  then have nl: "pxPrevious (node_at M (pxIndex (list_at M l))) \<noteq> ListItem x"
    unfolding s(4) [symmetric] by (cases ys rule: rev_cases) auto
  have "mem_rep (vListInsertEnd l x M) (put_container x (Some l) (put_list l (k\<lparr>kl_items := ys @ x # zs\<rparr>) A))"
    by (rule insert_rep [OF rep k free len s(1) refl refl])
      (use ni nl in \<open>simp_all add: s(3,4) vListInsertEnd_def Let_def link_simps del: last.simps\<close>)
  then show ?thesis using k s(2) by (simp add: kl_insert_end_def)
qed

lemma max_delay: "v \<le> portMAX_DELAY" "portMAX_DELAY \<le> v \<longleftrightarrow> v = portMAX_DELAY"
proof -
  have m: "portMAX_DELAY = - 1" by (simp add: portMAX_DELAY_def)
  show "v \<le> portMAX_DELAY" unfolding m by (rule word_order.extremum)
  then show "portMAX_DELAY \<le> v \<longleftrightarrow> v = portMAX_DELAY" by auto
qed

lemma insert_after_finds:
  assumes lk: "linked M (n # map ListItem xs @ [ListEnd l])" and "xItemValue (node_at M (ListEnd l)) = portMAX_DELAY" and "v \<noteq> portMAX_DELAY"
  shows "insert_after M v n =
    Some (last (n # map ListItem (takeWhile (\<lambda>y. xItemValue (node_at M (ListItem y)) \<le> v) xs)))"
  using lk
proof (induction xs arbitrary: n)
  case Nil
  then have "pxNext (node_at M n) = ListEnd l" by (simp add: linked_def)
  moreover have "\<not> portMAX_DELAY \<le> v" using assms(3) by (simp add: max_delay)
  ultimately show ?case using assms(2) by (subst insert_after.simps) simp
next
  case (Cons x xs)
  then have "pxNext (node_at M n) = ListItem x" "linked M (ListItem x # map ListItem xs @ [ListEnd l])" by (simp_all add: linked_def)
  then show ?case using Cons.IH [of "ListItem x"] by (subst insert_after.simps) simp
qed

lemma vListInsert_rep:
  assumes rep: "mem_rep M A" and ins: "insertable l x A"
  shows "\<exists>M'. vListInsert l x M = Some M' \<and>
    mem_rep M' (put_container x (Some l) (put_list l (kl_insert (la_value A) x (the (la_lists A l))) A))"
proof -
  obtain k where k: "la_lists A l = Some k" and free: "la_container A x = None" and len: "length (kl_items k) + 1 < 2 ^ 32"
    using ins by (auto simp: insertable_def split: option.splits)
  have r: "list_rep M l k" using rep k by (simp add: mem_rep_def)
  have lk: "linked M (ListEnd l # map ListItem (kl_items k) @ [ListEnd l])" and mx: "xItemValue (node_at M (ListEnd l)) = portMAX_DELAY"
    using r by (simp_all add: list_rep_def ring_of_def)
  have val: "xItemValue (node_at M (ListItem y)) = la_value A y" for y using rep by (simp add: mem_rep_def)
  define ys where "ys = takeWhile (\<lambda>y. la_value A y \<le> la_value A x) (kl_items k)"
  define zs where "zs = dropWhile (\<lambda>y. la_value A y \<le> la_value A x) (kl_items k)"
  have s: "kl_items k = ys @ zs" by (simp add: ys_def zs_def)
  let ?us = "ListEnd l # map ListItem ys" and ?vs = "map ListItem zs @ [ListEnd l]"
  have two: "linked M (?us @ ?vs)" using lk s by simp
  have ends: "pxNext (node_at M (last ?us)) = hd ?vs" "pxPrevious (node_at M (hd ?vs)) = last ?us"
    using two linked_append [of ?us ?vs M] by auto
  have it: "(if la_value A x = portMAX_DELAY then Some (pxPrevious (node_at M (ListEnd l))) else insert_after M (la_value A x) (ListEnd l)) =
      Some (last ?us)"
  proof (cases "la_value A x = portMAX_DELAY")
    case True
    then have "zs = []" by (simp add: zs_def dropWhile_eq_Nil_conv max_delay)
    then show ?thesis using True ends(2) by simp
  next
    case False
    then show ?thesis using insert_after_finds [OF lk mx, of "la_value A x"] by (simp add: val ys_def)
  qed
  have x: "x \<notin> set ys" "x \<notin> set zs" using rep_free [OF rep free k] s by auto
  have n1: "last ?us \<noteq> ListItem x" using x(1) by (cases ys rule: rev_cases) auto
  have n2: "hd ?vs \<noteq> ListItem x" using x(2) by (cases zs) auto
  let ?M' = "upd_list l (\<lambda>r. r\<lparr>uxNumberOfItems := uxNumberOfItems r + 1\<rparr>) (set_pxContainer x (Some l) (set_pxNext (last ?us) (ListItem x)
    (set_pxPrevious (ListItem x) (last ?us) (set_pxPrevious (hd ?vs) (ListItem x) (set_pxNext (ListItem x) (hd ?vs) M)))))"
  have run: "vListInsert l x M = Some ?M'"
    unfolding vListInsert_def Let_def val it option.case ends(1) by (simp add: link_simps)
  have "mem_rep ?M' (put_container x (Some l) (put_list l (k\<lparr>kl_items := ys @ x # zs\<rparr>) A))"
    by (rule insert_rep [OF rep k free len s refl refl])
      (use n1 n2 in \<open>simp_all add: link_simps del: last.simps\<close>)
  then show ?thesis using run k by (simp add: kl_insert_def ys_def zs_def)
qed

lemma remove_split:
  assumes "x \<in> set xs"
  shows "\<exists>zs. xs = before x xs @ x # zs \<and> remove1 x xs = before x xs @ zs"
proof -
  obtain zs where "from_on x xs = x # zs" using from_on_Cons [OF assms] by blast
  then have xs: "xs = before x xs @ x # zs" using before_from_on [of x xs] by simp
  have "remove1 x (before x xs @ x # zs) = before x xs @ zs"
    using before_not_in [of x xs] by (simp add: remove1_append)
  then show ?thesis using xs by metis
qed

lemma uxListRemove_rep:
  assumes rep: "mem_rep M A" and con: "la_container A x = Some l" and kdef: "k' = kl_remove x (the (la_lists A l))"
  shows "\<exists>M'. uxListRemove x M = Some (of_nat (length (kl_items k')), M') \<and> mem_rep M' (put_container x None (put_list l k' A))"
proof -
  obtain k where k: "la_lists A l = Some k" and x: "x \<in> set (kl_items k)" using con rep_container [OF rep, of x l] by auto
  have r: "list_rep M l k" using rep k by (simp add: mem_rep_def)
  have d: "distinct (kl_items k)" and lk: "linked M (ring_of l (kl_items k))" using r by (simp_all add: list_rep_def)
  define ys where "ys = before x (kl_items k)"
  obtain zs where s: "kl_items k = ys @ x # zs" "remove1 x (kl_items k) = ys @ zs" using remove_split [OF x] ys_def by blast
  let ?us = "ListEnd l # map ListItem ys" and ?vs = "map ListItem zs @ [ListEnd l]" and ?it = "ListItem x :: ('a, 'b) node"
  have c: "cut l (remove1 x (kl_items k)) ?us ?vs" using s(2) by (auto simp: cut_def)
  have two: "linked M (?us @ ?it # ?vs)" using lk s(1) by (simp add: ring_of_def)
  have ends: "pxNext (node_at M ?it) = hd ?vs" "pxPrevious (node_at M ?it) = last ?us"
    using two linked_append [of ?us "?it # ?vs" M] linked_append [of "[?it]" ?vs M] by auto
  have xn: "x \<notin> set ys" "x \<notin> set zs" using d s(1) by auto
  have n1: "last ?us \<noteq> ?it" using xn(1) by (cases ys rule: rev_cases) auto
  have n2: "hd ?vs \<noteq> ?it" using xn(2) by (cases zs) auto
  have pc: "pxContainer (node_at M ?it) = Some l" using rep con by (simp add: mem_rep_def)
  let ?M2 = "set_pxNext (last ?us) (hd ?vs) (set_pxPrevious (hd ?vs) (last ?us) M)"
  let ?M3 = "if pxIndex (list_at M l) = ?it then set_pxIndex l (last ?us) ?M2 else ?M2"
  let ?M' = "upd_list l (\<lambda>r. r\<lparr>uxNumberOfItems := uxNumberOfItems r - 1\<rparr>) (set_pxContainer x None ?M3)"
  have k': "kl_items k' = ys @ zs" using kdef k s(2) by (simp add: kl_remove_def)
  have num: "uxNumberOfItems (list_at ?M' l) = of_nat (length (kl_items k'))"
    using r s(1) k' by (simp add: list_rep_def link_simps)
  have run: "uxListRemove x M = Some (of_nat (length (kl_items k')), ?M')"
    unfolding num [symmetric] uxListRemove_def Let_def pc option.case ends
    using n1 n2 by (simp add: link_simps ends del: last.simps)
  have "linked ?M' (ring_of l (remove1 x (kl_items k)))"
    by (rule unlink_between [OF c d two]) (simp_all add: link_simps del: last.simps)
  moreover have "pxIndex (list_at ?M' l) = index_node l (kl_index k')"
    using r kdef k by (cases "kl_index k")
      (auto simp: list_rep_def kl_remove_def index_node_def link_simps last_map simp flip: ys_def)
  moreover have "set_option (kl_index k') \<subseteq> set (kl_items k')"
  proof (cases "kl_index k = Some x")
    case True
    then show ?thesis using kdef k k' by (auto simp: kl_remove_def simp flip: ys_def)
  next
    case False
    then show ?thesis using kdef k k' r s by (auto simp: kl_remove_def list_rep_def)
  qed
  ultimately have own: "list_rep ?M' l k'"
    using r d s k' num by (auto simp: list_rep_def link_simps)
  have other: "list_rep ?M' l' k''" if l': "la_lists A l' = Some k''" "l' \<noteq> l" for l' k''
  proof (rule list_rep_frame)
    show "list_rep M l' k''" using rep l' by (simp add: mem_rep_def)
    fix n assume n: "n \<in> set (ring_of l' (kl_items k''))"
    have "last ?us \<in> insert (ListEnd l) (ListItem ` set (kl_items k))" "hd ?vs \<in> insert (ListEnd l) (ListItem ` set (kl_items k))"
      by (cases ys rule: rev_cases; simp add: s(1)) (cases zs; simp add: s(1))
    then have "n \<noteq> last ?us" "n \<noteq> hd ?vs" using rep_other_list [OF rep k l'(1) _ n] l'(2) by auto
    then show "pxNext (node_at ?M' n) = pxNext (node_at M n) \<and> pxPrevious (node_at ?M' n) = pxPrevious (node_at M n) \<and>
        xItemValue (node_at ?M' n) = xItemValue (node_at M n)" by (simp add: link_simps del: last.simps)
  qed (use l' in \<open>simp add: link_simps\<close>)
  have alone: "x \<notin> set (kl_items k'')" if "la_lists A l' = Some k''" "l' \<noteq> l" for l' k''
    using that con rep_container [OF rep, of x l'] by auto
  have "mem_rep ?M' (put_container x None (put_list l k' A))"
    using rep own other alone k k' s(1) xn by (auto simp: mem_rep_def put_container_def put_list_def link_simps)
  then show ?thesis using run by blast
qed

lemma listGET_OWNER_OF_NEXT_ENTRY_rep:
  assumes rep: "mem_rep M A" and k: "la_lists A l = Some k" and ne: "kl_items k \<noteq> []"
  shows "\<exists>M'. listGET_OWNER_OF_NEXT_ENTRY l M = Some (la_owner A (the (kl_index (kl_next k))), M') \<and> mem_rep M' (put_list l (kl_next k) A)"
proof -
  have r: "list_rep M l k" using rep k by (simp add: mem_rep_def)
  have lk: "linked M (ring_of l (kl_items k))" using r by (simp add: list_rep_def)
  then have first: "pxNext (node_at M (ListEnd l)) = ListItem (hd (kl_items k))"
    using ne by (cases "kl_items k") (auto simp: linked_def ring_of_def)
  define x where "x = the (kl_index (kl_next k))"
  have x: "x \<in> set (kl_items k) \<and>
      (let n = pxNext (node_at M (pxIndex (list_at M l))) in (if n = ListEnd l then ListItem (hd (kl_items k)) else n) = ListItem x)"
  proof (cases "kl_index k")
    case None
    then have "pxIndex (list_at M l) = ListEnd l" using r by (simp add: list_rep_def index_node_def)
    then show ?thesis using first None ne by (simp add: x_def kl_next_def)
  next
    case (Some c)
    then have i: "pxIndex (list_at M l) = ListItem c" and c: "c \<in> set (kl_items k)" using r by (simp_all add: list_rep_def index_node_def)
    then obtain zs where z: "from_on c (kl_items k) = c # zs" using from_on_Cons by metis
    then have s: "kl_items k = before c (kl_items k) @ c # zs" using before_from_on [of c "kl_items k"] by simp
    have "ring_of l (kl_items k) = (ListEnd l # map ListItem (before c (kl_items k))) @ ([ListItem c] @ (map ListItem zs @ [ListEnd l]))"
      by (subst s) (simp add: ring_of_def)
    then have "linked M ((ListEnd l # map ListItem (before c (kl_items k))) @ ([ListItem c] @ (map ListItem zs @ [ListEnd l])))"
      using lk by simp
    then have "pxNext (node_at M (ListItem c)) = hd (map ListItem zs @ [ListEnd l])"
      by (subst (asm) linked_append) (simp_all add: linked_append del: append.simps append_assoc)
    moreover have "set zs \<subseteq> set (kl_items k)" by (subst s) auto
    ultimately show ?thesis using Some z i ne by (cases zs) (auto simp: x_def kl_next_def)
  qed
  let ?M1 = "set_pxIndex l (pxNext (node_at M (pxIndex (list_at M l)))) M"
  let ?M2 = "if pxIndex (list_at ?M1 l) = ListEnd l then set_pxIndex l (pxNext (node_at ?M1 (ListEnd l))) ?M1 else ?M1"
  have i: "pxIndex (list_at ?M2 l) = ListItem x" using x first by (auto simp: link_simps Let_def split: if_splits)
  have own: "pvOwner (node_at ?M2 (ListItem x)) = la_owner A x" using rep by (simp add: mem_rep_def link_simps)
  have run: "listGET_OWNER_OF_NEXT_ENTRY l M = Some (la_owner A x, ?M2)"
    unfolding listGET_OWNER_OF_NEXT_ENTRY_def Let_def i by (simp add: owner_of_def own)
  have same: "node_at ?M2 = node_at M" by (simp add: store_defs)
  have lists: "list_at ?M2 = (list_at M)(l := (list_at M l)\<lparr>pxIndex := ListItem x\<rparr>)"
    using i by (auto simp: link_simps)
  obtain M' where M': "listGET_OWNER_OF_NEXT_ENTRY l M = Some (la_owner A x, M')" "node_at M' = node_at M"
      "list_at M' = (list_at M)(l := (list_at M l)\<lparr>pxIndex := ListItem x\<rparr>)"
    using run same lists by blast
  have k': "kl_items (kl_next k) = kl_items k" "kl_index (kl_next k) = Some x" by (simp_all add: kl_next_def x_def)
  have own': "list_rep M' l (kl_next k)"
    using r x by (simp add: list_rep_def M' linked_def k' index_node_def)
  have "list_rep M' l' k''" if "la_lists A l' = Some k''" "l' \<noteq> l" for l' k''
    using rep that by (simp add: mem_rep_def list_rep_def M' linked_def)
  then have "mem_rep M' (put_list l (kl_next k) A)"
    using rep own' k by (auto simp: mem_rep_def put_list_def M' k')
  then show ?thesis using M'(1) x_def by blast
qed

lemma rep_same_links:
  assumes "mem_rep M A" and "\<And>n. pxNext (node_at M' n) = pxNext (node_at M n)" "\<And>n. pxPrevious (node_at M' n) = pxPrevious (node_at M n)"
    and "list_at M' = list_at M" and "\<And>l. xItemValue (node_at M' (ListEnd l)) = xItemValue (node_at M (ListEnd l))"
    and "la_lists A l = Some k"
  shows "list_rep M' l k"
  using assms by (simp add: mem_rep_def list_rep_def linked_def)

lemma set_data_rep:
  assumes "mem_rep M A"
  shows "mem_rep (listSET_LIST_ITEM_VALUE i v M) (A\<lparr>la_value := (la_value A)(i := v)\<rparr>)"
    and "mem_rep (listSET_LIST_ITEM_OWNER i w M) (A\<lparr>la_owner := (la_owner A)(i := w)\<rparr>)"
proof -
  have "list_rep (listSET_LIST_ITEM_VALUE i v M) l k" "list_rep (listSET_LIST_ITEM_OWNER i w M) l k" if "la_lists A l = Some k" for l k
    by (rule rep_same_links [OF assms _ _ _ _ that]; simp add: store_defs)+
  then show "mem_rep (listSET_LIST_ITEM_VALUE i v M) (A\<lparr>la_value := (la_value A)(i := v)\<rparr>)"
    and "mem_rep (listSET_LIST_ITEM_OWNER i w M) (A\<lparr>la_owner := (la_owner A)(i := w)\<rparr>)"
    using assms by (auto simp: mem_rep_def store_defs)
qed

lemma initialise_item_rep:
  assumes "mem_rep M A" and "la_container A i = None"
  shows "mem_rep (vListInitialiseItem i M) A"
proof -
  have "list_rep (vListInitialiseItem i M) l k" if "la_lists A l = Some k" for l k
    by (rule rep_same_links [OF assms(1) _ _ _ _ that]; simp add: vListInitialiseItem_def link_simps)
  then show ?thesis using assms by (auto simp: mem_rep_def vListInitialiseItem_def link_simps)
qed

lemma initialise_rep:
  assumes rep: "mem_rep M A" and e: "case la_lists A l of None \<Rightarrow> True | Some k \<Rightarrow> kl_items k = []"
  shows "mem_rep (vListInitialise l M) (put_list l \<lparr>kl_items = [], kl_index = None\<rparr> A)"
proof -
  let ?M = "vListInitialise l M"
  have node: "node_at ?M n = node_at M n" if "n \<noteq> ListEnd l" for n using that by (simp add: vListInitialise_def Let_def store_defs)
  have lst: "list_at ?M l' = list_at M l'" if "l' \<noteq> l" for l' using that by (simp add: vListInitialise_def Let_def store_defs)
  have "list_rep ?M l \<lparr>kl_items = [], kl_index = None\<rparr>"
    by (simp add: list_rep_def vListInitialise_def Let_def store_defs linked_def ring_of_def index_node_def)
  moreover have "list_rep ?M l' k" if l': "la_lists A l' = Some k" "l' \<noteq> l" for l' k
  proof (rule list_rep_frame)
    show "list_rep M l' k" using rep l'(1) by (simp add: mem_rep_def)
    show "pxNext (node_at ?M n) = pxNext (node_at M n) \<and> pxPrevious (node_at ?M n) = pxPrevious (node_at M n) \<and>
        xItemValue (node_at ?M n) = xItemValue (node_at M n)" if "n \<in> set (ring_of l' (kl_items k))" for n
      using node [of n] that l'(2) by (auto simp: ring_of_def)
  qed (rule lst [OF l'(2)])
  ultimately show ?thesis
    using rep e node by (auto simp: mem_rep_def put_list_def split: option.splits)
qed

lemma head_facts:
  assumes "mem_rep M A" and "la_lists A l = Some k"
  shows "pxNext (node_at M (ListEnd l)) = (case kl_items k of [] \<Rightarrow> ListEnd l | x # xs \<Rightarrow> ListItem x)"
    "xItemValue (node_at M (ListEnd l)) = portMAX_DELAY"
    "uxNumberOfItems (list_at M l) = of_nat (length (kl_items k))" "length (kl_items k) < 2 ^ 32"
proof -
  have r: "list_rep M l k" using assms by (simp add: mem_rep_def)
  then show "xItemValue (node_at M (ListEnd l)) = portMAX_DELAY" "uxNumberOfItems (list_at M l) = of_nat (length (kl_items k))"
    "length (kl_items k) < 2 ^ 32" by (simp_all add: list_rep_def)
  have "linked M (ring_of l (kl_items k))" using r by (simp add: list_rep_def)
  then show "pxNext (node_at M (ListEnd l)) = (case kl_items k of [] \<Rightarrow> ListEnd l | x # xs \<Rightarrow> ListItem x)"
    by (cases "kl_items k") (simp_all add: linked_def ring_of_def)
qed

lemma empty_iff: "mem_rep M A \<Longrightarrow> la_lists A l = Some k \<Longrightarrow> uxNumberOfItems (list_at M l) = 0 \<longleftrightarrow> kl_items k = []"
  using head_facts(3,4) [of M A l k] by (auto simp: word_of_nat_eq_0_iff dest: dvd_imp_le)

lemma step_refines:
  assumes rep: "mem_rep M A" and step: "abs_step op A = Some (r, A')"
  shows "\<exists>M'. mem_step op M = Some (r, M') \<and> mem_rep M' A'"
proof (cases op)
  case (Op_Initialise l)
  then show ?thesis using rep step initialise_rep [OF rep, of l]
    by (auto simp: abs_step_def mem_step_def split: if_splits)
next
  case (Op_InitialiseItem i)
  then show ?thesis using rep step initialise_item_rep [OF rep, of i] by (auto simp: abs_step_def mem_step_def split: if_splits)
next
  case (Op_InsertEnd l i)
  then show ?thesis using step vListInsertEnd_rep [OF rep, of l i] by (auto simp: abs_step_def mem_step_def split: if_splits)
next
  case (Op_Insert l i)
  then show ?thesis using step vListInsert_rep [OF rep, of l i] by (auto simp: abs_step_def mem_step_def split: if_splits)
next
  case (Op_Remove i)
  then obtain l where l: "la_container A i = Some l" using step by (auto simp: abs_step_def split: option.splits)
  show ?thesis using Op_Remove l step uxListRemove_rep [OF rep l refl] by (auto simp: abs_step_def mem_step_def Let_def)
next
  case (Op_NextOwner l)
  then obtain k where k: "la_lists A l = Some k" "kl_items k \<noteq> []" using step by (auto simp: abs_step_def split: option.splits if_splits)
  show ?thesis using Op_NextOwner k step listGET_OWNER_OF_NEXT_ENTRY_rep [OF rep k] by (auto simp: abs_step_def mem_step_def)
next
  case (Op_HeadOwner l)
  then obtain k x xs where k: "la_lists A l = Some k" "kl_items k = x # xs" using step by (auto simp: abs_step_def split: option.splits list.splits)
  show ?thesis using Op_HeadOwner k step rep head_facts(1) [OF rep k(1)]
    by (auto simp: abs_step_def mem_step_def listGET_OWNER_OF_HEAD_ENTRY_def owner_of_def mem_rep_def)
next
  case (Op_HeadValue l)
  then obtain k where k: "la_lists A l = Some k" using step by (auto simp: abs_step_def)
  show ?thesis using Op_HeadValue k step rep head_facts(1,2) [OF rep k]
    by (auto simp: abs_step_def mem_step_def listGET_ITEM_VALUE_OF_HEAD_ENTRY_def mem_rep_def split: list.splits)
qed (use rep step empty_iff [OF rep] head_facts(3) [OF rep] set_data_rep [OF rep] in \<open>auto simp: abs_step_def mem_step_def
  listGET_LIST_ITEM_VALUE_def listLIST_IS_EMPTY_def listCURRENT_LIST_LENGTH_def listLIST_ITEM_CONTAINER_def listIS_CONTAINED_WITHIN_def mem_rep_def\<close>)

section \<open>Programs of list operations\<close>

text \<open>
  A client of the lists is a program that calls operations one after the other, each call depending on the results so far. The contract
  that a client relies on is that its program runs on the memory as on the sequences.
\<close>

datatype ('l, 'i, 'r) list_prog = Return 'r | Call "('l, 'i) list_op" "'l list_result \<Rightarrow> ('l, 'i, 'r) list_prog"

primrec run_prog :: "(('l, 'i) list_op \<Rightarrow> 's \<Rightarrow> ('l list_result \<times> 's) option) \<Rightarrow> ('l, 'i, 'r) list_prog \<Rightarrow> 's \<Rightarrow> ('r \<times> 's) option" where
  "run_prog step (Return r) s = Some (r, s)"
| "run_prog step (Call op f) s = (case step op s of None \<Rightarrow> None | Some (x, s') \<Rightarrow> run_prog step (f x) s')"

locale list_simulation =
  fixes step_c :: "('l, 'i) list_op \<Rightarrow> 'c \<Rightarrow> ('l list_result \<times> 'c) option"
    and step_a :: "('l, 'i) list_op \<Rightarrow> 'a \<Rightarrow> ('l list_result \<times> 'a) option"
    and rep :: "'c \<Rightarrow> 'a \<Rightarrow> bool"
  assumes sim: "rep c a \<Longrightarrow> step_a op a = Some (r, a') \<Longrightarrow> \<exists>c'. step_c op c = Some (r, c') \<and> rep c' a'"
begin

lemma run_refines:
  "rep c a \<Longrightarrow> run_prog step_a p a = Some (r, a') \<Longrightarrow> \<exists>c'. run_prog step_c p c = Some (r, c') \<and> rep c' a'"
proof (induction p arbitrary: c a)
  case (Call op f)
  then obtain x a1 where a1: "step_a op a = Some (x, a1)" "run_prog step_a (f x) a1 = Some (r, a')"
    by (auto split: option.splits)
  then obtain c1 where c1: "step_c op c = Some (x, c1)" "rep c1 a1" using sim Call.prems(1) by blast
  then show ?case using Call.IH [OF _ c1(2) a1(2)] by auto
qed simp

end

interpretation kernel_list: list_simulation mem_step abs_step mem_rep
  by unfold_locales (rule step_refines)

definition no_lists :: "('l, 'i) list_mem \<Rightarrow> ('l, 'i) list_abs" where
  "no_lists M = \<lparr>la_lists = (\<lambda>_. None), la_value = (\<lambda>i. xItemValue (node_at M (ListItem i))), la_owner = (\<lambda>i. pvOwner (node_at M (ListItem i))),
     la_container = (\<lambda>_. None)\<rparr>"

lemma no_lists_rep: "\<forall>i. pxContainer (node_at M (ListItem i)) = None \<Longrightarrow> mem_rep M (no_lists M)"
  by (simp add: mem_rep_def no_lists_def)

text \<open>The items met by following \<open>pxNext\<close> from the end marker.\<close>

primrec forward_walk :: "('l, 'i) list_mem \<Rightarrow> nat \<Rightarrow> ('l, 'i) node \<Rightarrow> ('l, 'i) node list" where
  "forward_walk M 0 n = []"
| "forward_walk M (Suc j) n = pxNext (node_at M n) # forward_walk M j (pxNext (node_at M n))"

primrec backward_walk :: "('l, 'i) list_mem \<Rightarrow> nat \<Rightarrow> ('l, 'i) node \<Rightarrow> ('l, 'i) node list" where
  "backward_walk M 0 n = []"
| "backward_walk M (Suc j) n = pxPrevious (node_at M n) # backward_walk M j (pxPrevious (node_at M n))"

lemma forward_linked: "linked M (n # ns) \<Longrightarrow> forward_walk M (length ns) n = ns"
  by (induction ns arbitrary: n) (auto simp: linked_def)

lemma backward_linked: "linked M (ns @ [n]) \<Longrightarrow> backward_walk M (length ns) n = rev ns"
proof (induction ns arbitrary: n rule: rev_induct)
  case (snoc m ns)
  have "linked M (ns @ [m])" "pxPrevious (node_at M n) = m"
    using snoc.prems linked_append [of "ns @ [m]" "[n]" M] by (simp_all add: linked_def)
  then show ?case using snoc.IH by simp
qed simp

text \<open>
  Claim C14: the lists of the kernel implement sequences. On zeroed items, any program of the operations of the file and of the macros of its header
  that respects their contracts on sequences (initialised lists, items that are in no list when they are inserted and in one when they
  are removed, lists that are not empty when their next or first owner is taken) runs on the linked lists without an endless loop or a stray pointer and
  gives the same results; afterwards each list, followed forwards or backwards from its end marker, has the items of the sequence and its
  counter has their number.
\<close>

theorem kernel_lists_refine:
  assumes "\<forall>i. pxContainer (node_at M (ListItem i)) = None" and "run_prog abs_step p (no_lists M) = Some (r, A')"
  shows "\<exists>M'. run_prog mem_step p M = Some (r, M') \<and>
    (\<forall>l k. la_lists A' l = Some k \<longrightarrow>
       forward_walk M' (length (kl_items k) + 1) (ListEnd l) = map ListItem (kl_items k) @ [ListEnd l] \<and>
       backward_walk M' (length (kl_items k) + 1) (ListEnd l) = rev (map ListItem (kl_items k)) @ [ListEnd l] \<and>
       uxNumberOfItems (list_at M' l) = of_nat (length (kl_items k)) \<and>
       (\<forall>i. pxContainer (node_at M' (ListItem i)) = Some l \<longleftrightarrow> i \<in> set (kl_items k)))"
proof -
  obtain M' where M': "run_prog mem_step p M = Some (r, M')" "mem_rep M' A'"
    using kernel_list.run_refines [OF no_lists_rep [OF assms(1)] assms(2)] by blast
  have "forward_walk M' (length (kl_items k) + 1) (ListEnd l) = map ListItem (kl_items k) @ [ListEnd l] \<and>
       backward_walk M' (length (kl_items k) + 1) (ListEnd l) = rev (map ListItem (kl_items k)) @ [ListEnd l] \<and>
       uxNumberOfItems (list_at M' l) = of_nat (length (kl_items k)) \<and>
       (\<forall>i. pxContainer (node_at M' (ListItem i)) = Some l \<longleftrightarrow> i \<in> set (kl_items k))" if k: "la_lists A' l = Some k" for l k
  proof (intro conjI)
    have lk: "linked M' (ring_of l (kl_items k))" using M'(2) k by (simp add: mem_rep_def list_rep_def)
    then show "forward_walk M' (length (kl_items k) + 1) (ListEnd l) = map ListItem (kl_items k) @ [ListEnd l]"
      using forward_linked [of M' "ListEnd l" "map ListItem (kl_items k) @ [ListEnd l]"] by (simp add: ring_of_def)
    show "backward_walk M' (length (kl_items k) + 1) (ListEnd l) = rev (map ListItem (kl_items k)) @ [ListEnd l]"
      using lk backward_linked [of M' "ListEnd l # map ListItem (kl_items k)" "ListEnd l"] by (simp add: ring_of_def)
    show "uxNumberOfItems (list_at M' l) = of_nat (length (kl_items k))" by (rule head_facts(3) [OF M'(2) k])
    show "\<forall>i. pxContainer (node_at M' (ListItem i)) = Some l \<longleftrightarrow> i \<in> set (kl_items k)"
      using M'(2) k rep_container [OF M'(2)] by (simp add: mem_rep_def)
  qed
  then show ?thesis using M'(1) by blast
qed

definition zero_mem :: "(nat, nat) list_mem" where
  "zero_mem = \<lparr>node_at = (\<lambda>_. \<lparr>xItemValue = 0, pxNext = ListItem 0, pxPrevious = ListItem 0, pvOwner = 0, pxContainer = None\<rparr>),
     list_at = (\<lambda>_. \<lparr>uxNumberOfItems = 0, pxIndex = ListItem 0\<rparr>)\<rparr>"

definition example_prog :: "(nat, nat, nat list_result) list_prog" where
  "example_prog =
     Call (Op_Initialise 0) (\<lambda>_. Call (Op_SetValue 1 30) (\<lambda>_. Call (Op_SetValue 2 10) (\<lambda>_. Call (Op_Insert 0 1) (\<lambda>_. Call (Op_Insert 0 2) (\<lambda>_.
     Call (Op_InsertEnd 0 3) (\<lambda>_. Call (Op_Remove 1) Return))))))"

theorem kernel_lists_refine_witness:
  "\<exists>M'. run_prog mem_step example_prog zero_mem = Some (Num 2, M') \<and>
    (\<forall>l k. [0 \<mapsto> \<lparr>kl_items = [2, 3], kl_index = None\<rparr>] l = Some k \<longrightarrow>
       forward_walk M' (length (kl_items k) + 1) (ListEnd l) = map ListItem (kl_items k) @ [ListEnd l] \<and>
       backward_walk M' (length (kl_items k) + 1) (ListEnd l) = rev (map ListItem (kl_items k)) @ [ListEnd l] \<and>
       uxNumberOfItems (list_at M' l) = of_nat (length (kl_items k)) \<and>
       (\<forall>i. pxContainer (node_at M' (ListItem i)) = Some l \<longleftrightarrow> i \<in> set (kl_items k)))"
proof -
  have c: "\<forall>i. pxContainer (node_at zero_mem (ListItem i)) = None" by (simp add: zero_mem_def)
  have "\<exists>A'. run_prog abs_step example_prog (no_lists zero_mem) = Some (Num 2, A') \<and> la_lists A' = [0 \<mapsto> \<lparr>kl_items = [2, 3], kl_index = None\<rparr>]"
    by (simp add: example_prog_def abs_step_def no_lists_def zero_mem_def insertable_def put_list_def put_container_def
        kl_insert_def kl_insert_end_def kl_remove_def before_def Let_def fun_eq_iff)
  then obtain A' where A': "run_prog abs_step example_prog (no_lists zero_mem) = Some (Num 2, A')"
      "la_lists A' = [0 \<mapsto> \<lparr>kl_items = [2, 3], kl_index = None\<rparr>]" by blast
  show ?thesis using kernel_lists_refine [OF c A'(1)] unfolding A'(2) .
qed

end
