(* ===== verification/KernelTasks.thy ===== *)
theory KernelTasks
  imports KernelList "HOL-Library.Monad_Syntax"
begin

text \<open>
  The scheduler of the kernel, \<^verbatim>\<open>src/FreeRtos/kernel/tasks.c\<close>, for one core and the configuration of \<^verbatim>\<open>App/config/FreeRTOSConfig.h\<close>: lists of ready
  tasks for each priority, the two lists of delayed tasks between which the wrap-around of the tick counter switches, suspended tasks, and the
  tasks that interrupts made ready while the scheduler was suspended.

  The functions work on list objects through the operations of \<open>KernelList\<close> only, so the definitions take the meaning of an operation as
  their first argument: with \<open>mem_step\<close> they are the code over linked lists, with \<open>abs_step\<close> the same code over sequences. \<open>None\<close> is a failed assertion, a null
  pointer or an endless loop. A function runs in a critical section or with the scheduler suspended and is one step; where interrupts
  can come in between, what they do is an argument. A yield is the request of the interrupt in which the switch takes place.
\<close>

section \<open>State\<close>

datatype list_id =
  pxReadyTasksLists nat | xDelayedTaskList1 | xDelayedTaskList2 | xPendingReadyList | xSuspendedTaskList | xTasksWaitingTermination | event_list nat

datatype item = xStateListItem nat | xEventListItem nat

record TCB_t =
  uxPriority :: u32
  uxBasePriority :: u32
  uxMutexesHeld :: u32
  uxTCBNumber :: u32
  ulNotifiedValue :: u32
  ucNotifyState :: u8

record 's kernel =
  lists :: 's
  tcb :: "nat \<Rightarrow> TCB_t"
  pxCurrentTCB :: "nat option"
  pxDelayedTaskList :: list_id
  pxOverflowDelayedTaskList :: list_id
  uxNumberOfTasks :: u32
  xTickCount :: u32
  uxTopReadyPriority :: u32
  xSchedulerRunning :: bool
  xPendedTicks :: u32
  xYieldPending :: bool
  xNumOfOverflows :: u32
  uxTaskNumber :: u32
  xNextTaskUnblockTime :: u32
  uxSchedulerSuspended :: u32
  pendsv :: bool

definition configMAX_PRIORITIES :: u32 where "configMAX_PRIORITIES = 31"
definition taskEVENT_LIST_ITEM_VALUE_IN_USE :: u32 where "taskEVENT_LIST_ITEM_VALUE_IN_USE = 0x80000000"
definition taskNOT_WAITING_NOTIFICATION :: u8 where "taskNOT_WAITING_NOTIFICATION = 0"
definition taskWAITING_NOTIFICATION :: u8 where "taskWAITING_NOTIFICATION = 1"

type_synonym 's list_step = "(list_id, item) list_op \<Rightarrow> 's \<Rightarrow> (list_id list_result \<times> 's) option"

text \<open>A call of a list operation, and its result as a number, an owner, a truth value or a list.\<close>

definition list_call :: "'s list_step \<Rightarrow> (list_id, item) list_op \<Rightarrow> 's kernel \<Rightarrow> (list_id list_result \<times> 's kernel) option" where
  "list_call st op k = map_option (\<lambda>(r, s). (r, k\<lparr>lists := s\<rparr>)) (st op (lists k))"

definition list_do :: "'s list_step \<Rightarrow> (list_id, item) list_op \<Rightarrow> 's kernel \<Rightarrow> 's kernel option" where
  "list_do st op k = map_option snd (list_call st op k)"

definition list_num :: "'s list_step \<Rightarrow> (list_id, item) list_op \<Rightarrow> 's kernel \<Rightarrow> (u32 \<times> 's kernel) option" where
  "list_num st op k = Option.bind (list_call st op k) (\<lambda>(r, k'). case r of Num n \<Rightarrow> Some (n, k') | _ \<Rightarrow> None)"

definition list_owner :: "'s list_step \<Rightarrow> (list_id, item) list_op \<Rightarrow> 's kernel \<Rightarrow> (nat \<times> 's kernel) option" where
  "list_owner st op k = Option.bind (list_call st op k) (\<lambda>(r, k'). case r of Owner n \<Rightarrow> Some (n, k') | _ \<Rightarrow> None)"

definition list_truth :: "'s list_step \<Rightarrow> (list_id, item) list_op \<Rightarrow> 's kernel \<Rightarrow> (bool \<times> 's kernel) option" where
  "list_truth st op k = Option.bind (list_call st op k) (\<lambda>(r, k'). case r of Truth b \<Rightarrow> Some (b, k') | _ \<Rightarrow> None)"

definition list_place :: "'s list_step \<Rightarrow> (list_id, item) list_op \<Rightarrow> 's kernel \<Rightarrow> (list_id option \<times> 's kernel) option" where
  "list_place st op k = Option.bind (list_call st op k) (\<lambda>(r, k'). case r of Place l \<Rightarrow> Some (l, k') | _ \<Rightarrow> None)"

definition assert :: "bool \<Rightarrow> unit option" where
  "assert b = (if b then Some () else None)"

section \<open>Ready tasks\<close>

definition portRECORD_READY_PRIORITY :: "u32 \<Rightarrow> u32 \<Rightarrow> u32" where
  "portRECORD_READY_PRIORITY uxPrio uxReadyPriorities = uxReadyPriorities OR push_bit (unat uxPrio) 1"

definition portRESET_READY_PRIORITY :: "u32 \<Rightarrow> 's kernel \<Rightarrow> 's kernel" where
  "portRESET_READY_PRIORITY uxPrio k = k\<lparr>uxTopReadyPriority := uxTopReadyPriority k AND NOT (push_bit (unat uxPrio) 1)\<rparr>"

text \<open>The instruction that counts the zero bits above the highest one bit.\<close>

definition ucPortCountLeadingZeros :: "u32 \<Rightarrow> nat" where
  "ucPortCountLeadingZeros w = length (takeWhile (\<lambda>i. \<not> bit w i) (rev [0..<32]))"

definition portGET_HIGHEST_PRIORITY :: "u32 \<Rightarrow> u32" where
  "portGET_HIGHEST_PRIORITY uxReadyPriorities = 31 - of_nat (ucPortCountLeadingZeros uxReadyPriorities)"

definition taskRESET_READY_PRIORITY :: "'s list_step \<Rightarrow> u32 \<Rightarrow> 's kernel \<Rightarrow> 's kernel option" where
  "taskRESET_READY_PRIORITY st uxPrio k = do {
     (n, k) \<leftarrow> list_num st (Op_Length (pxReadyTasksLists (unat uxPrio))) k;
     Some (if n = 0 then portRESET_READY_PRIORITY uxPrio k else k)
   }"

definition prvAddTaskToReadyList :: "'s list_step \<Rightarrow> nat \<Rightarrow> 's kernel \<Rightarrow> 's kernel option" where
  "prvAddTaskToReadyList st pxTCB k =
     (let prio = uxPriority (tcb k pxTCB);
          k = k\<lparr>uxTopReadyPriority := portRECORD_READY_PRIORITY prio (uxTopReadyPriority k)\<rparr>
      in list_do st (Op_InsertEnd (pxReadyTasksLists (unat prio)) (xStateListItem pxTCB)) k)"

definition taskSELECT_HIGHEST_PRIORITY_TASK :: "'s list_step \<Rightarrow> 's kernel \<Rightarrow> 's kernel option" where
  "taskSELECT_HIGHEST_PRIORITY_TASK st k = do {
     let uxTopPriority = portGET_HIGHEST_PRIORITY (uxTopReadyPriority k);
     (n, k) \<leftarrow> list_num st (Op_Length (pxReadyTasksLists (unat uxTopPriority))) k;
     _ \<leftarrow> assert (n > 0);
     (t, k) \<leftarrow> list_owner st (Op_NextOwner (pxReadyTasksLists (unat uxTopPriority))) k;
     Some (k\<lparr>pxCurrentTCB := Some t\<rparr>)
   }"

definition vTaskSwitchContext :: "'s list_step \<Rightarrow> 's kernel \<Rightarrow> 's kernel option" where
  "vTaskSwitchContext st k =
     (if uxSchedulerSuspended k \<noteq> 0 then Some (k\<lparr>xYieldPending := True\<rparr>)
      else taskSELECT_HIGHEST_PRIORITY_TASK st (k\<lparr>xYieldPending := False\<rparr>))"

definition portYIELD :: "'s kernel \<Rightarrow> 's kernel" where
  "portYIELD k = k\<lparr>pendsv := True\<rparr>"

text \<open>The interrupt that switches.\<close>

definition xPortPendSVHandler :: "'s list_step \<Rightarrow> 's kernel \<Rightarrow> 's kernel option" where
  "xPortPendSVHandler st k = vTaskSwitchContext st (k\<lparr>pendsv := False\<rparr>)"

section \<open>Creation of tasks\<close>

definition prvInitialiseTaskLists :: "'s list_step \<Rightarrow> 's kernel \<Rightarrow> 's kernel option" where
  "prvInitialiseTaskLists st k =
     map_option (\<lambda>k. k\<lparr>pxDelayedTaskList := xDelayedTaskList1, pxOverflowDelayedTaskList := xDelayedTaskList2\<rparr>)
       (fold (\<lambda>l k. Option.bind k (list_do st (Op_Initialise l)))
          (map pxReadyTasksLists [0..<unat configMAX_PRIORITIES] @
           [xDelayedTaskList1, xDelayedTaskList2, xPendingReadyList, xTasksWaitingTermination, xSuspendedTaskList])
          (Some k))"

text \<open>The part of the initialisation of a task that concerns the scheduler; the control block was cleared before.\<close>

definition prvInitialiseNewTask :: "'s list_step \<Rightarrow> u32 \<Rightarrow> nat \<Rightarrow> 's kernel \<Rightarrow> 's kernel option" where
  "prvInitialiseNewTask st prio pxNewTCB k = do {
     _ \<leftarrow> assert (prio < configMAX_PRIORITIES);
     let k = k\<lparr>tcb := (tcb k)(pxNewTCB := \<lparr>uxPriority = prio, uxBasePriority = prio, uxMutexesHeld = 0, uxTCBNumber = 0, ulNotifiedValue = 0, ucNotifyState = 0\<rparr>)\<rparr>;
     k \<leftarrow> list_do st (Op_InitialiseItem (xStateListItem pxNewTCB)) k;
     k \<leftarrow> list_do st (Op_InitialiseItem (xEventListItem pxNewTCB)) k;
     k \<leftarrow> list_do st (Op_SetOwner (xStateListItem pxNewTCB) pxNewTCB) k;
     k \<leftarrow> list_do st (Op_SetValue (xEventListItem pxNewTCB) (configMAX_PRIORITIES - prio)) k;
     list_do st (Op_SetOwner (xEventListItem pxNewTCB) pxNewTCB) k
   }"

definition prvAddNewTaskToReadyList :: "'s list_step \<Rightarrow> nat \<Rightarrow> 's kernel \<Rightarrow> 's kernel option" where
  "prvAddNewTaskToReadyList st pxNewTCB k = do {
     let k = k\<lparr>uxNumberOfTasks := uxNumberOfTasks k + 1\<rparr>;
     k \<leftarrow> (case pxCurrentTCB k of
             None \<Rightarrow>
               (let k = k\<lparr>pxCurrentTCB := Some pxNewTCB\<rparr>
                in if uxNumberOfTasks k = 1 then prvInitialiseTaskLists st k else Some k)
           | Some cur \<Rightarrow>
               Some (if \<not> xSchedulerRunning k \<and> uxPriority (tcb k cur) \<le> uxPriority (tcb k pxNewTCB)
                     then k\<lparr>pxCurrentTCB := Some pxNewTCB\<rparr> else k));
     let k = k\<lparr>uxTaskNumber := uxTaskNumber k + 1\<rparr>;
     let k = k\<lparr>tcb := (tcb k)(pxNewTCB := (tcb k pxNewTCB)\<lparr>uxTCBNumber := uxTaskNumber k\<rparr>)\<rparr>;
     k \<leftarrow> prvAddTaskToReadyList st pxNewTCB k;
     if xSchedulerRunning k
     then do { cur \<leftarrow> pxCurrentTCB k; Some (if uxPriority (tcb k cur) < uxPriority (tcb k pxNewTCB) then portYIELD k else k) }
     else Some k
   }"

text \<open>
  The creation of a task whose memory could be allocated; without memory \<open>xTaskCreate\<close> returns an error and changes nothing, which is not modelled.
\<close>

definition xTaskCreate :: "'s list_step \<Rightarrow> u32 \<Rightarrow> nat \<Rightarrow> 's kernel \<Rightarrow> 's kernel option" where
  "xTaskCreate st prio pxNewTCB k = Option.bind (prvInitialiseNewTask st prio pxNewTCB k) (prvAddNewTaskToReadyList st pxNewTCB)"

definition configTIMER_TASK_PRIORITY :: u32 where "configTIMER_TASK_PRIORITY = 2"

text \<open>The start up to the point where the port starts the first task: the idle task, the task of the timers, the clock.\<close>

definition vTaskStartScheduler :: "'s list_step \<Rightarrow> nat \<Rightarrow> nat \<Rightarrow> 's kernel \<Rightarrow> 's kernel option" where
  "vTaskStartScheduler st idle timer k = do {
     k \<leftarrow> xTaskCreate st 0 idle k;
     k \<leftarrow> xTaskCreate st configTIMER_TASK_PRIORITY timer k;
     Some (k\<lparr>xNextTaskUnblockTime := portMAX_DELAY, xSchedulerRunning := True, xTickCount := 0\<rparr>)
   }"

section \<open>Delayed tasks and the tick\<close>

definition prvResetNextTaskUnblockTime :: "'s list_step \<Rightarrow> 's kernel \<Rightarrow> 's kernel option" where
  "prvResetNextTaskUnblockTime st k = do {
     (e, k) \<leftarrow> list_truth st (Op_IsEmpty (pxDelayedTaskList k)) k;
     if e then Some (k\<lparr>xNextTaskUnblockTime := portMAX_DELAY\<rparr>)
     else do {
       (v, k) \<leftarrow> list_num st (Op_HeadValue (pxDelayedTaskList k)) k;
       Some (k\<lparr>xNextTaskUnblockTime := v\<rparr>)
     }
   }"

definition taskSWITCH_DELAYED_LISTS :: "'s list_step \<Rightarrow> 's kernel \<Rightarrow> 's kernel option" where
  "taskSWITCH_DELAYED_LISTS st k = do {
     (e, k) \<leftarrow> list_truth st (Op_IsEmpty (pxDelayedTaskList k)) k;
     _ \<leftarrow> assert e;
     prvResetNextTaskUnblockTime st
       (k\<lparr>pxDelayedTaskList := pxOverflowDelayedTaskList k, pxOverflowDelayedTaskList := pxDelayedTaskList k,
          xNumOfOverflows := xNumOfOverflows k + 1\<rparr>)
   }"

definition prvAddCurrentTaskToDelayedList :: "'s list_step \<Rightarrow> u32 \<Rightarrow> bool \<Rightarrow> 's kernel \<Rightarrow> 's kernel option" where
  "prvAddCurrentTaskToDelayedList st xTicksToWait xCanBlockIndefinitely k = do {
     cur \<leftarrow> pxCurrentTCB k;
     (n, k) \<leftarrow> list_num st (Op_Remove (xStateListItem cur)) k;
     let k = (if n = 0 then portRESET_READY_PRIORITY (uxPriority (tcb k cur)) k else k);
     if xTicksToWait = portMAX_DELAY \<and> xCanBlockIndefinitely
     then list_do st (Op_InsertEnd xSuspendedTaskList (xStateListItem cur)) k
     else do {
       let xTimeToWake = xTickCount k + xTicksToWait;
       k \<leftarrow> list_do st (Op_SetValue (xStateListItem cur) xTimeToWake) k;
       if xTimeToWake < xTickCount k
       then list_do st (Op_Insert (pxOverflowDelayedTaskList k) (xStateListItem cur)) k
       else do {
         k \<leftarrow> list_do st (Op_Insert (pxDelayedTaskList k) (xStateListItem cur)) k;
         Some (if xTimeToWake < xNextTaskUnblockTime k then k\<lparr>xNextTaskUnblockTime := xTimeToWake\<rparr> else k)
       }
     }
   }"

text \<open>The loop of the tick over the delayed tasks; \<open>xSwitchRequired\<close> is carried along.\<close>

partial_function (option) wake_loop :: "'s list_step \<Rightarrow> u32 \<Rightarrow> bool \<Rightarrow> 's kernel \<Rightarrow> (bool \<times> 's kernel) option" where
  "wake_loop st xConstTickCount xSwitchRequired k = do {
     (e, k) \<leftarrow> list_truth st (Op_IsEmpty (pxDelayedTaskList k)) k;
     if e then Some (xSwitchRequired, k\<lparr>xNextTaskUnblockTime := portMAX_DELAY\<rparr>)
     else do {
       (t, k) \<leftarrow> list_owner st (Op_HeadOwner (pxDelayedTaskList k)) k;
       (v, k) \<leftarrow> list_num st (Op_GetValue (xStateListItem t)) k;
       if xConstTickCount < v then Some (xSwitchRequired, k\<lparr>xNextTaskUnblockTime := v\<rparr>)
       else do {
         k \<leftarrow> list_do st (Op_Remove (xStateListItem t)) k;
         (c, k) \<leftarrow> list_place st (Op_Container (xEventListItem t)) k;
         k \<leftarrow> (if c \<noteq> None then list_do st (Op_Remove (xEventListItem t)) k else Some k);
         k \<leftarrow> prvAddTaskToReadyList st t k;
         cur \<leftarrow> pxCurrentTCB k;
         wake_loop st xConstTickCount (xSwitchRequired \<or> uxPriority (tcb k t) > uxPriority (tcb k cur)) k
       }
     }
   }"

definition xTaskIncrementTick :: "'s list_step \<Rightarrow> 's kernel \<Rightarrow> (bool \<times> 's kernel) option" where
  "xTaskIncrementTick st k =
     (if uxSchedulerSuspended k = 0
      then do {
        let xConstTickCount = xTickCount k + 1;
        let k = k\<lparr>xTickCount := xConstTickCount\<rparr>;
        k \<leftarrow> (if xConstTickCount = 0 then taskSWITCH_DELAYED_LISTS st k else Some k);
        (sw, k) \<leftarrow> (if xConstTickCount \<ge> xNextTaskUnblockTime k then wake_loop st xConstTickCount False k else Some (False, k));
        cur \<leftarrow> pxCurrentTCB k;
        (n, k) \<leftarrow> list_num st (Op_Length (pxReadyTasksLists (unat (uxPriority (tcb k cur))))) k;
        Some (sw \<or> n > 1 \<or> xYieldPending k, k)
      }
      else Some (False, k\<lparr>xPendedTicks := xPendedTicks k + 1\<rparr>))"

definition xPortSysTickHandler :: "'s list_step \<Rightarrow> 's kernel \<Rightarrow> 's kernel option" where
  "xPortSysTickHandler st k = do { (sw, k) \<leftarrow> xTaskIncrementTick st k; Some (if sw then k\<lparr>pendsv := True\<rparr> else k) }"

definition xTaskGetTickCount :: "'s kernel \<Rightarrow> u32" where
  "xTaskGetTickCount k = xTickCount k"

section \<open>Suspending and resuming the scheduler\<close>

definition vTaskSuspendAll :: "'s kernel \<Rightarrow> 's kernel" where
  "vTaskSuspendAll k = k\<lparr>uxSchedulerSuspended := uxSchedulerSuspended k + 1\<rparr>"

text \<open>The loop over the tasks that were made ready meanwhile, with the last of them.\<close>

partial_function (option) pending_loop :: "'s list_step \<Rightarrow> nat option \<Rightarrow> 's kernel \<Rightarrow> (nat option \<times> 's kernel) option" where
  "pending_loop st pxTCB k = do {
     (e, k) \<leftarrow> list_truth st (Op_IsEmpty xPendingReadyList) k;
     if e then Some (pxTCB, k)
     else do {
       (t, k) \<leftarrow> list_owner st (Op_HeadOwner xPendingReadyList) k;
       k \<leftarrow> list_do st (Op_Remove (xEventListItem t)) k;
       k \<leftarrow> list_do st (Op_Remove (xStateListItem t)) k;
       k \<leftarrow> prvAddTaskToReadyList st t k;
       cur \<leftarrow> pxCurrentTCB k;
       pending_loop st (Some t) (if uxPriority (tcb k t) > uxPriority (tcb k cur) then k\<lparr>xYieldPending := True\<rparr> else k)
     }
   }"

primrec pended_ticks :: "'s list_step \<Rightarrow> nat \<Rightarrow> 's kernel \<Rightarrow> 's kernel option" where
  "pended_ticks st 0 k = Some k"
| "pended_ticks st (Suc n) k = do {
     (sw, k) \<leftarrow> xTaskIncrementTick st k;
     pended_ticks st n (if sw then k\<lparr>xYieldPending := True\<rparr> else k)
   }"

definition xTaskResumeAll :: "'s list_step \<Rightarrow> 's kernel \<Rightarrow> (bool \<times> 's kernel) option" where
  "xTaskResumeAll st k = do {
     _ \<leftarrow> assert (uxSchedulerSuspended k \<noteq> 0);
     let k = k\<lparr>uxSchedulerSuspended := uxSchedulerSuspended k - 1\<rparr>;
     if uxSchedulerSuspended k = 0 \<and> uxNumberOfTasks k > 0
     then do {
       (pxTCB, k) \<leftarrow> pending_loop st None k;
       k \<leftarrow> (if pxTCB \<noteq> None then prvResetNextTaskUnblockTime st k else Some k);
       k \<leftarrow> (if xPendedTicks k > 0
             then map_option (\<lambda>k. k\<lparr>xPendedTicks := 0\<rparr>) (pended_ticks st (unat (xPendedTicks k)) k) else Some k);
       Some (if xYieldPending k then (True, portYIELD k) else (False, k))
     }
     else Some (False, k)
   }"

definition xTaskCatchUpTicks :: "'s list_step \<Rightarrow> u32 \<Rightarrow> 's kernel \<Rightarrow> (bool \<times> 's kernel) option" where
  "xTaskCatchUpTicks st xTicksToCatchUp k = do {
     _ \<leftarrow> assert (uxSchedulerSuspended k = 0);
     let k = vTaskSuspendAll k;
     xTaskResumeAll st (k\<lparr>xPendedTicks := xPendedTicks k + xTicksToCatchUp\<rparr>)
   }"

section \<open>Delays\<close>

text \<open>The argument \<open>irq\<close> is what the interrupts do while the scheduler is suspended, after the task has been moved to the delayed tasks.\<close>

definition vTaskDelay :: "'s list_step \<Rightarrow> ('s kernel \<Rightarrow> 's kernel option) \<Rightarrow> u32 \<Rightarrow> 's kernel \<Rightarrow> 's kernel option" where
  "vTaskDelay st irq xTicksToDelay k = do {
     (xAlreadyYielded, k) \<leftarrow>
       (if xTicksToDelay > 0
        then do {
          let k = vTaskSuspendAll k;
          _ \<leftarrow> assert (uxSchedulerSuspended k = 1);
          k \<leftarrow> prvAddCurrentTaskToDelayedList st xTicksToDelay False k;
          k \<leftarrow> irq k;
          xTaskResumeAll st k
        }
        else Some (False, k));
     Some (if \<not> xAlreadyYielded then portYIELD k else k)
   }"

definition should_delay :: "u32 \<Rightarrow> u32 \<Rightarrow> u32 \<Rightarrow> bool" where
  "should_delay xConstTickCount previous xTimeToWake =
     (if xConstTickCount < previous then xTimeToWake < previous \<and> xTimeToWake > xConstTickCount
      else xTimeToWake < previous \<or> xTimeToWake > xConstTickCount)"

definition xTaskDelayUntil ::
  "'s list_step \<Rightarrow> ('s kernel \<Rightarrow> 's kernel option) \<Rightarrow> u32 \<Rightarrow> u32 \<Rightarrow> 's kernel \<Rightarrow> (bool \<times> u32 \<times> 's kernel) option" where
  "xTaskDelayUntil st irq pxPreviousWakeTime xTimeIncrement k = do {
     _ \<leftarrow> assert (xTimeIncrement > 0);
     let k = vTaskSuspendAll k;
     _ \<leftarrow> assert (uxSchedulerSuspended k = 1);
     let xConstTickCount = xTickCount k;
     let xTimeToWake = pxPreviousWakeTime + xTimeIncrement;
     let xShouldDelay = should_delay xConstTickCount pxPreviousWakeTime xTimeToWake;
     k \<leftarrow> (if xShouldDelay then prvAddCurrentTaskToDelayedList st (xTimeToWake - xConstTickCount) False k else Some k);
     k \<leftarrow> irq k;
     (xAlreadyYielded, k) \<leftarrow> xTaskResumeAll st k;
     Some (xShouldDelay, xTimeToWake, if \<not> xAlreadyYielded then portYIELD k else k)
   }"

section \<open>Waiting for events\<close>

definition vTaskPlaceOnEventList :: "'s list_step \<Rightarrow> list_id \<Rightarrow> u32 \<Rightarrow> 's kernel \<Rightarrow> 's kernel option" where
  "vTaskPlaceOnEventList st pxEventList xTicksToWait k = do {
     cur \<leftarrow> pxCurrentTCB k;
     k \<leftarrow> list_do st (Op_Insert pxEventList (xEventListItem cur)) k;
     prvAddCurrentTaskToDelayedList st xTicksToWait True k
   }"

definition remove_from_event_list :: "'s list_step \<Rightarrow> list_id \<Rightarrow> 's kernel \<Rightarrow> (bool \<times> 's kernel) option" where
  "remove_from_event_list st pxEventList k = do {
     (t, k) \<leftarrow> list_owner st (Op_HeadOwner pxEventList) k;
     k \<leftarrow> list_do st (Op_Remove (xEventListItem t)) k;
     k \<leftarrow> (if uxSchedulerSuspended k = 0
           then do { k \<leftarrow> list_do st (Op_Remove (xStateListItem t)) k; prvAddTaskToReadyList st t k }
           else list_do st (Op_InsertEnd xPendingReadyList (xEventListItem t)) k);
     cur \<leftarrow> pxCurrentTCB k;
     Some (if uxPriority (tcb k t) > uxPriority (tcb k cur) then (True, k\<lparr>xYieldPending := True\<rparr>) else (False, k))
   }"

definition vTaskMissedYield :: "'s kernel \<Rightarrow> 's kernel" where
  "vTaskMissedYield k = k\<lparr>xYieldPending := True\<rparr>"

record TimeOut_t =
  xOverflowCount :: u32
  xTimeOnEntering :: u32

definition vTaskInternalSetTimeOutState :: "'s kernel \<Rightarrow> TimeOut_t" where
  "vTaskInternalSetTimeOutState k = \<lparr>xOverflowCount = xNumOfOverflows k, xTimeOnEntering = xTickCount k\<rparr>"

definition vTaskSetTimeOutState :: "'s kernel \<Rightarrow> TimeOut_t" where
  "vTaskSetTimeOutState k = \<lparr>xOverflowCount = xNumOfOverflows k, xTimeOnEntering = xTickCount k\<rparr>"

text \<open>The result, the new state of the time-out and the ticks that are left.\<close>

definition xTaskCheckForTimeOut :: "'s kernel \<Rightarrow> TimeOut_t \<Rightarrow> u32 \<Rightarrow> bool \<times> TimeOut_t \<times> u32" where
  "xTaskCheckForTimeOut k pxTimeOut pxTicksToWait =
     (let xConstTickCount = xTickCount k;
          xElapsedTime = xConstTickCount - xTimeOnEntering pxTimeOut
      in if pxTicksToWait = portMAX_DELAY then (False, pxTimeOut, pxTicksToWait)
         else if xNumOfOverflows k \<noteq> xOverflowCount pxTimeOut \<and> xConstTickCount \<ge> xTimeOnEntering pxTimeOut then (True, pxTimeOut, 0)
         else if xElapsedTime < pxTicksToWait then (False, vTaskInternalSetTimeOutState k, pxTicksToWait - xElapsedTime)
         else (True, pxTimeOut, 0))"

end
