(* ===== verification/KernelRefine.thy ===== *)
theory KernelRefine
  imports KernelTasks
begin

text \<open>
  The scheduler over linked lists refines the scheduler over sequences: whenever a function of \<open>KernelTasks\<close> has a result on sequences, it has the
  same result on linked lists that represent them. Everything that is proved about the scheduler on sequences holds of the code by this.
\<close>

section \<open>Relating the two levels\<close>

type_synonym mem_kernel = "(list_id, item) list_mem kernel"
type_synonym seq_kernel = "(list_id, item) list_abs kernel"

definition conc :: "(list_id, item) list_mem \<Rightarrow> seq_kernel \<Rightarrow> mem_kernel" where
  "conc M k = \<lparr>lists = M, tcb = tcb k, pxCurrentTCB = pxCurrentTCB k, pxDelayedTaskList = pxDelayedTaskList k,
     pxOverflowDelayedTaskList = pxOverflowDelayedTaskList k, uxNumberOfTasks = uxNumberOfTasks k, xTickCount = xTickCount k,
     uxTopReadyPriority = uxTopReadyPriority k, xSchedulerRunning = xSchedulerRunning k, xPendedTicks = xPendedTicks k,
     xYieldPending = xYieldPending k, xNumOfOverflows = xNumOfOverflows k, uxTaskNumber = uxTaskNumber k,
     xNextTaskUnblockTime = xNextTaskUnblockTime k, uxSchedulerSuspended = uxSchedulerSuspended k, pendsv = pendsv k\<rparr>"

definition krel :: "mem_kernel \<Rightarrow> seq_kernel \<Rightarrow> bool" where
  "krel kc k \<longleftrightarrow> (\<exists>M. kc = conc M k \<and> mem_rep M (lists k))"

definition refines :: "('c \<Rightarrow> 'a \<Rightarrow> bool) \<Rightarrow> 'c option \<Rightarrow> 'a option \<Rightarrow> bool" where
  "refines R x y \<longleftrightarrow> (\<forall>v. y = Some v \<longrightarrow> (\<exists>w. x = Some w \<and> R w v))"

abbreviation krel2 :: "'r \<times> mem_kernel \<Rightarrow> 'r \<times> seq_kernel \<Rightarrow> bool" where
  "krel2 \<equiv> rel_prod (=) krel"

lemma conc_simps [simp]:
  "lists (conc M k) = M" "tcb (conc M k) = tcb k" "pxCurrentTCB (conc M k) = pxCurrentTCB k"
  "pxDelayedTaskList (conc M k) = pxDelayedTaskList k" "pxOverflowDelayedTaskList (conc M k) = pxOverflowDelayedTaskList k"
  "uxNumberOfTasks (conc M k) = uxNumberOfTasks k" "xTickCount (conc M k) = xTickCount k"
  "uxTopReadyPriority (conc M k) = uxTopReadyPriority k" "xSchedulerRunning (conc M k) = xSchedulerRunning k"
  "xPendedTicks (conc M k) = xPendedTicks k" "xYieldPending (conc M k) = xYieldPending k" "xNumOfOverflows (conc M k) = xNumOfOverflows k"
  "uxTaskNumber (conc M k) = uxTaskNumber k" "xNextTaskUnblockTime (conc M k) = xNextTaskUnblockTime k"
  "uxSchedulerSuspended (conc M k) = uxSchedulerSuspended k" "pendsv (conc M k) = pendsv k"
  by (simp_all add: conc_def)

lemma conc_update [simp]:
  "(conc M k)\<lparr>lists := M'\<rparr> = conc M' k" "(conc M k)\<lparr>tcb := a\<rparr> = conc M (k\<lparr>tcb := a\<rparr>)"
  "(conc M k)\<lparr>pxCurrentTCB := b\<rparr> = conc M (k\<lparr>pxCurrentTCB := b\<rparr>)"
  "(conc M k)\<lparr>pxDelayedTaskList := c\<rparr> = conc M (k\<lparr>pxDelayedTaskList := c\<rparr>)"
  "(conc M k)\<lparr>pxOverflowDelayedTaskList := c\<rparr> = conc M (k\<lparr>pxOverflowDelayedTaskList := c\<rparr>)"
  "(conc M k)\<lparr>uxNumberOfTasks := n\<rparr> = conc M (k\<lparr>uxNumberOfTasks := n\<rparr>)" "(conc M k)\<lparr>xTickCount := n\<rparr> = conc M (k\<lparr>xTickCount := n\<rparr>)"
  "(conc M k)\<lparr>uxTopReadyPriority := n\<rparr> = conc M (k\<lparr>uxTopReadyPriority := n\<rparr>)"
  "(conc M k)\<lparr>xSchedulerRunning := d\<rparr> = conc M (k\<lparr>xSchedulerRunning := d\<rparr>)" "(conc M k)\<lparr>xPendedTicks := n\<rparr> = conc M (k\<lparr>xPendedTicks := n\<rparr>)"
  "(conc M k)\<lparr>xYieldPending := d\<rparr> = conc M (k\<lparr>xYieldPending := d\<rparr>)" "(conc M k)\<lparr>xNumOfOverflows := n\<rparr> = conc M (k\<lparr>xNumOfOverflows := n\<rparr>)"
  "(conc M k)\<lparr>uxTaskNumber := n\<rparr> = conc M (k\<lparr>uxTaskNumber := n\<rparr>)"
  "(conc M k)\<lparr>xNextTaskUnblockTime := n\<rparr> = conc M (k\<lparr>xNextTaskUnblockTime := n\<rparr>)"
  "(conc M k)\<lparr>uxSchedulerSuspended := n\<rparr> = conc M (k\<lparr>uxSchedulerSuspended := n\<rparr>)" "(conc M k)\<lparr>pendsv := d\<rparr> = conc M (k\<lparr>pendsv := d\<rparr>)"
  by (simp_all add: conc_def)

lemma conc_if [simp]: "(if b then conc M k else conc M k') = conc M (if b then k else k')"
  by simp

section \<open>Rules\<close>

lemma conc_lists: "conc M (k\<lparr>lists := A\<rparr>) = conc M k"
  by (simp add: conc_def)

lemma krelI [simp]: "mem_rep M (lists k) \<Longrightarrow> krel (conc M k) k"
  by (auto simp: krel_def)

lemma refines_Some: "R w v \<Longrightarrow> refines R (Some w) (Some v)"
  by (simp add: refines_def)

lemma refines_None: "refines R x None"
  by (simp add: refines_def)

lemma refines_if: "(b \<Longrightarrow> refines R x y) \<Longrightarrow> (\<not> b \<Longrightarrow> refines R x' y') \<Longrightarrow> refines R (if b then x else x') (if b then y else y')"
  by simp

lemma refines_bind:
  assumes "refines krel x y" and "\<And>M v. mem_rep M (lists v) \<Longrightarrow> refines S (f (conc M v)) (g v)"
  shows "refines S (Option.bind x f) (Option.bind y g)"
  using assms by (cases y) (fastforce simp: refines_def krel_def)+

lemma refines_bind2:
  assumes "refines krel2 x y" and "\<And>a M v. mem_rep M (lists v) \<Longrightarrow> refines S (f (a, conc M v)) (g (a, v))"
  shows "refines S (Option.bind x f) (Option.bind y g)"
  using assms by (cases y) (fastforce simp: refines_def krel_def rel_prod_sel)+

lemma refines_bind_same:
  assumes "\<And>a. refines S (f a) (g a)"
  shows "refines S (Option.bind x f) (Option.bind x g)"
  using assms by (cases x) (simp_all add: refines_None)

lemma refines_map:
  assumes "refines krel x y" and "\<And>M v. mem_rep M (lists v) \<Longrightarrow> R (f (conc M v)) (g v)"
  shows "refines R (map_option f x) (map_option g y)"
  using assms by (cases y) (fastforce simp: refines_def krel_def)+

lemma refines_call: "mem_rep M (lists k) \<Longrightarrow> refines krel2 (list_call mem_step op (conc M k)) (list_call abs_step op k)"
proof (cases "abs_step op (lists k)")
  case (Some rA)
  assume rep: "mem_rep M (lists k)"
  obtain r A where rA: "rA = (r, A)" by (cases rA)
  obtain M' where "mem_step op M = Some (r, M')" "mem_rep M' A" using step_refines [OF rep, of op r A] Some rA by auto
  then show ?thesis using Some rA krelI [of M' "k\<lparr>lists := A\<rparr>"] by (simp add: list_call_def refines_def conc_lists)
qed (simp add: list_call_def refines_None)

lemma refines_ops:
  assumes "mem_rep M (lists k)"
  shows "refines krel (list_do mem_step op (conc M k)) (list_do abs_step op k)"
    "refines krel2 (list_num mem_step op (conc M k)) (list_num abs_step op k)"
    "refines krel2 (list_owner mem_step op (conc M k)) (list_owner abs_step op k)"
    "refines krel2 (list_truth mem_step op (conc M k)) (list_truth abs_step op k)"
    "refines krel2 (list_place mem_step op (conc M k)) (list_place abs_step op k)"
proof -
  show "refines krel (list_do mem_step op (conc M k)) (list_do abs_step op k)"
    using refines_call [OF assms, of op] unfolding list_do_def refines_def by (auto simp: rel_prod_sel)
qed (auto simp: list_num_def list_owner_def list_truth_def list_place_def refines_None intro!: refines_bind2 refines_call assms refines_Some
    split: list_result.splits)

lemmas refine_rules = refines_if refines_bind refines_bind2 refines_bind_same refines_map refines_Some refines_ops

section \<open>The functions\<close>

lemma prvAddTaskToReadyList_refines:
  "mem_rep M (lists k) \<Longrightarrow> refines krel (prvAddTaskToReadyList mem_step t (conc M k)) (prvAddTaskToReadyList abs_step t k)"
  by (simp add: prvAddTaskToReadyList_def Let_def refines_ops)

lemma portRESET_conc [simp]: "portRESET_READY_PRIORITY p (conc M k) = conc M (portRESET_READY_PRIORITY p k)"
  by (simp add: portRESET_READY_PRIORITY_def)

lemma lists_simps [simp]:
  "lists (portRESET_READY_PRIORITY p k) = lists k" "lists (portYIELD k) = lists k" "lists (vTaskSuspendAll k) = lists k"
  "lists (if b then k else k') = (if b then lists k else lists k')"
  by (simp_all add: portRESET_READY_PRIORITY_def portYIELD_def vTaskSuspendAll_def)

lemma yield_conc [simp]: "portYIELD (conc M k) = conc M (portYIELD k)" "vTaskSuspendAll (conc M k) = conc M (vTaskSuspendAll k)"
  by (simp_all add: portYIELD_def vTaskSuspendAll_def)

lemma vTaskSwitchContext_refines:
  "mem_rep M (lists k) \<Longrightarrow> refines krel (vTaskSwitchContext mem_step (conc M k)) (vTaskSwitchContext abs_step k)"
  by (auto simp: vTaskSwitchContext_def taskSELECT_HIGHEST_PRIORITY_TASK_def Let_def intro!: refine_rules)

lemma prvResetNextTaskUnblockTime_refines:
  "mem_rep M (lists k) \<Longrightarrow> refines krel (prvResetNextTaskUnblockTime mem_step (conc M k)) (prvResetNextTaskUnblockTime abs_step k)"
  by (auto simp: prvResetNextTaskUnblockTime_def Let_def intro!: refine_rules)

lemma taskSWITCH_DELAYED_LISTS_refines:
  "mem_rep M (lists k) \<Longrightarrow> refines krel (taskSWITCH_DELAYED_LISTS mem_step (conc M k)) (taskSWITCH_DELAYED_LISTS abs_step k)"
  by (auto simp: taskSWITCH_DELAYED_LISTS_def Let_def intro!: refine_rules prvResetNextTaskUnblockTime_refines)

lemma prvAddCurrentTaskToDelayedList_refines:
  "mem_rep M (lists k) \<Longrightarrow>
    refines krel (prvAddCurrentTaskToDelayedList mem_step n b (conc M k)) (prvAddCurrentTaskToDelayedList abs_step n b k)"
  by (auto simp: prvAddCurrentTaskToDelayedList_def Let_def intro!: refine_rules)

lemma refinesD: "refines R x y \<Longrightarrow> y = Some v \<Longrightarrow> \<exists>w. x = Some w \<and> R w v"
  by (simp add: refines_def)

lemma wake_loop_refines:
  assumes "mem_rep M (lists k)"
  shows "refines krel2 (wake_loop mem_step c sw (conc M k)) (wake_loop abs_step c sw k)"
proof -
  let ?P = "\<lambda>(st :: (list_id, item) list_abs list_step) c sw k y. st = abs_step \<longrightarrow> (\<forall>M. mem_rep M (lists k) \<longrightarrow> (\<exists>w. wake_loop mem_step c sw (conc M k) = Some w \<and> krel2 w y))"
  have "?P abs_step c sw k y" if "wake_loop abs_step c sw k = Some y" for y
  proof (rule wake_loop.raw_induct [where P = ?P, OF _ that], goal_cases)
    case (1 f st c sw k y)
    show ?case
    proof (intro impI allI)
      fix M assume st: "st = abs_step" and rep: "mem_rep M (lists k)"
      have rec: "refines krel2 (wake_loop mem_step c' sw' (conc M' k')) (f abs_step c' sw' k')" if "mem_rep M' (lists k')" for c' sw' M' k'
        using 1(1) [of abs_step c' sw' k'] that by (auto simp: refines_def)
      show "\<exists>w. wake_loop mem_step c sw (conc M k) = Some w \<and> krel2 w y"
        using rep by (intro refinesD [OF _ 1(2)], subst wake_loop.simps, unfold st)
          (auto intro!: refine_rules prvAddTaskToReadyList_refines rec)
    qed
  qed
  then show ?thesis using assms unfolding refines_def by blast
qed

lemma pending_loop_refines:
  assumes "mem_rep M (lists k)"
  shows "refines krel2 (pending_loop mem_step t (conc M k)) (pending_loop abs_step t k)"
proof -
  let ?P = "\<lambda>(st :: (list_id, item) list_abs list_step) t k y. st = abs_step \<longrightarrow> (\<forall>M. mem_rep M (lists k) \<longrightarrow> (\<exists>w. pending_loop mem_step t (conc M k) = Some w \<and> krel2 w y))"
  have "?P abs_step t k y" if "pending_loop abs_step t k = Some y" for y
  proof (rule pending_loop.raw_induct [where P = ?P, OF _ that], goal_cases)
    case (1 f st t k y)
    show ?case
    proof (intro impI allI)
      fix M assume st: "st = abs_step" and rep: "mem_rep M (lists k)"
      have rec: "refines krel2 (pending_loop mem_step t' (conc M' k')) (f abs_step t' k')" if "mem_rep M' (lists k')" for t' M' k'
        using 1(1) [of abs_step t' k'] that by (auto simp: refines_def)
      show "\<exists>w. pending_loop mem_step t (conc M k) = Some w \<and> krel2 w y"
        using rep by (intro refinesD [OF _ 1(2)], subst pending_loop.simps, unfold st)
          (auto intro!: refine_rules prvAddTaskToReadyList_refines rec)
    qed
  qed
  then show ?thesis using assms unfolding refines_def by blast
qed

lemma xTaskIncrementTick_refines:
  "mem_rep M (lists k) \<Longrightarrow> refines krel2 (xTaskIncrementTick mem_step (conc M k)) (xTaskIncrementTick abs_step k)"
  by (auto simp: xTaskIncrementTick_def Let_def intro!: refine_rules taskSWITCH_DELAYED_LISTS_refines wake_loop_refines)

lemma pended_ticks_refines:
  "mem_rep M (lists k) \<Longrightarrow> refines krel (pended_ticks mem_step n (conc M k)) (pended_ticks abs_step n k)"
  by (induction n arbitrary: M k) (auto intro!: refine_rules xTaskIncrementTick_refines)

lemma xTaskResumeAll_refines:
  "mem_rep M (lists k) \<Longrightarrow> refines krel2 (xTaskResumeAll mem_step (conc M k)) (xTaskResumeAll abs_step k)"
  by (auto simp: xTaskResumeAll_def Let_def
      intro!: refine_rules pending_loop_refines prvResetNextTaskUnblockTime_refines pended_ticks_refines)

lemma vTaskPlaceOnEventList_refines:
  "mem_rep M (lists k) \<Longrightarrow> refines krel (vTaskPlaceOnEventList mem_step e n (conc M k)) (vTaskPlaceOnEventList abs_step e n k)"
  by (auto simp: vTaskPlaceOnEventList_def intro!: refine_rules prvAddCurrentTaskToDelayedList_refines)

lemma remove_from_event_list_refines:
  "mem_rep M (lists k) \<Longrightarrow> refines krel2 (remove_from_event_list mem_step e (conc M k)) (remove_from_event_list abs_step e k)"
  by (auto simp: remove_from_event_list_def intro!: refine_rules prvAddTaskToReadyList_refines)

lemma prvInitialiseTaskLists_refines:
  "mem_rep M (lists k) \<Longrightarrow> refines krel (prvInitialiseTaskLists mem_step (conc M k)) (prvInitialiseTaskLists abs_step k)"
proof -
  have init: "refines krel (fold (\<lambda>l k. Option.bind k (list_do mem_step (Op_Initialise l))) ls x) (fold (\<lambda>l k. Option.bind k (list_do abs_step (Op_Initialise l))) ls y)"
    if "refines krel x y" for ls x y
    using that
  proof (induction ls arbitrary: x y)
    case (Cons l ls)
    show ?case using Cons.prems unfolding fold_simps by (intro Cons.IH refines_bind refines_ops)
  qed simp
  assume rep: "mem_rep M (lists k)"
  show "refines krel (prvInitialiseTaskLists mem_step (conc M k)) (prvInitialiseTaskLists abs_step k)"
    unfolding prvInitialiseTaskLists_def
    by (rule refines_map, rule init, rule refines_Some, rule krelI [OF rep]) simp
qed

lemma prvInitialiseNewTask_refines:
  "mem_rep M (lists k) \<Longrightarrow> refines krel (prvInitialiseNewTask mem_step p t (conc M k)) (prvInitialiseNewTask abs_step p t k)"
  by (auto simp: prvInitialiseNewTask_def Let_def intro!: refine_rules)

lemma prvAddNewTaskToReadyList_refines:
  "mem_rep M (lists k) \<Longrightarrow> refines krel (prvAddNewTaskToReadyList mem_step t (conc M k)) (prvAddNewTaskToReadyList abs_step t k)"
  by (cases "pxCurrentTCB k")
    (auto simp: prvAddNewTaskToReadyList_def Let_def intro!: refine_rules prvAddTaskToReadyList_refines prvInitialiseTaskLists_refines)

lemma xTaskCreate_refines:
  "mem_rep M (lists k) \<Longrightarrow> refines krel (xTaskCreate mem_step p t (conc M k)) (xTaskCreate abs_step p t k)"
  unfolding xTaskCreate_def by (intro refines_bind prvInitialiseNewTask_refines prvAddNewTaskToReadyList_refines)

lemma vTaskStartScheduler_refines:
  "mem_rep M (lists k) \<Longrightarrow> refines krel (vTaskStartScheduler mem_step i j (conc M k)) (vTaskStartScheduler abs_step i j k)"
  by (auto simp: vTaskStartScheduler_def intro!: refine_rules xTaskCreate_refines)

lemma vTaskDelay_refines:
  assumes "\<And>M k. mem_rep M (lists k) \<Longrightarrow> refines krel (irq_c (conc M k)) (irq k)" and "mem_rep M (lists k)"
  shows "refines krel (vTaskDelay mem_step irq_c n (conc M k)) (vTaskDelay abs_step irq n k)"
  using assms(2) by (auto simp: vTaskDelay_def Let_def
      intro!: refine_rules prvAddCurrentTaskToDelayedList_refines xTaskResumeAll_refines assms(1))

lemma xTaskDelayUntil_refines:
  assumes "\<And>M k. mem_rep M (lists k) \<Longrightarrow> refines krel (irq_c (conc M k)) (irq k)" and "mem_rep M (lists k)"
  shows "refines (rel_prod (=) krel2) (xTaskDelayUntil mem_step irq_c p n (conc M k)) (xTaskDelayUntil abs_step irq p n k)"
  using assms(2) by (auto simp: xTaskDelayUntil_def Let_def
      intro!: refine_rules prvAddCurrentTaskToDelayedList_refines xTaskResumeAll_refines assms(1))

section \<open>Histories of the scheduler\<close>

text \<open>
  What happens to the scheduler is a sequence of events. A task that delays itself or waits for an event suspends the scheduler, moves
  itself and resumes the scheduler; interrupts can come in between, so \<open>Sleep\<close> and \<open>Wait\<close> are only the first part and \<open>Resume\<close> the second, with
  the yield that ends both functions when \<open>xTaskResumeAll\<close> has not yielded already. \<open>Lock\<close> and \<open>Unlock\<close> are the calls of \<open>vTaskSuspendAll\<close> and
  \<open>xTaskResumeAll\<close> alone, as \<open>pvPortMalloc\<close> and \<open>vPortFree\<close> have them around their work: there the only switch is the one that \<open>xTaskResumeAll\<close> requests itself.
\<close>

datatype sched_event = Tick | Switch | Sleep u32 | Wait nat u32 | Signal nat | Lock | Resume | Unlock | Create nat u32

definition sched_step :: "'s list_step \<Rightarrow> sched_event \<Rightarrow> 's kernel \<Rightarrow> 's kernel option" where
  "sched_step st ev k =
     (case ev of
        Tick \<Rightarrow> xPortSysTickHandler st k
      | Switch \<Rightarrow> xPortPendSVHandler st k
      | Sleep n \<Rightarrow> prvAddCurrentTaskToDelayedList st n False (vTaskSuspendAll k)
      | Wait e n \<Rightarrow> vTaskPlaceOnEventList st (event_list e) n (vTaskSuspendAll k)
      | Signal e \<Rightarrow> map_option (\<lambda>(woken, k). if woken then portYIELD k else k) (remove_from_event_list st (event_list e) k)
      | Lock \<Rightarrow> Some (vTaskSuspendAll k)
      | Resume \<Rightarrow> map_option (\<lambda>(yielded, k). if yielded then k else portYIELD k) (xTaskResumeAll st k)
      | Unlock \<Rightarrow> map_option snd (xTaskResumeAll st k)
      | Create t p \<Rightarrow> xTaskCreate st p t k)"

fun sched_run :: "'s list_step \<Rightarrow> sched_event list \<Rightarrow> 's kernel \<Rightarrow> 's kernel option" where
  "sched_run st [] k = Some k"
| "sched_run st (ev # evs) k = Option.bind (sched_step st ev k) (sched_run st evs)"

lemma refines_map2:
  assumes "refines krel2 x y" and "\<And>a M v. mem_rep M (lists v) \<Longrightarrow> R (f (a, conc M v)) (g (a, v))"
  shows "refines R (map_option f x) (map_option g y)"
  using assms by (cases y) (fastforce simp: refines_def krel_def rel_prod_sel)+

lemma sched_step_refines:
  assumes "mem_rep M (lists k)"
  shows "refines krel (sched_step mem_step ev (conc M k)) (sched_step abs_step ev k)"
proof (cases ev)
  case Tick
  then show ?thesis using assms
    by (auto simp: sched_step_def xPortSysTickHandler_def intro!: refine_rules xTaskIncrementTick_refines)
next
  case Switch
  then show ?thesis using vTaskSwitchContext_refines [of M "k\<lparr>pendsv := False\<rparr>"] assms by (simp add: sched_step_def xPortPendSVHandler_def)
next
  case (Signal e)
  then show ?thesis using assms by (auto simp: sched_step_def intro!: refines_map2 remove_from_event_list_refines)
next
  case Resume
  then show ?thesis using assms by (auto simp: sched_step_def intro!: refines_map2 xTaskResumeAll_refines)
next
  case Unlock
  then show ?thesis using assms by (auto simp: sched_step_def intro!: refines_map2 xTaskResumeAll_refines)
next
  case (Create t p)
  then show ?thesis using assms
    by (simp add: sched_step_def xTaskCreate_refines)
qed (use assms in \<open>auto simp: sched_step_def intro!: refines_Some prvAddCurrentTaskToDelayedList_refines vTaskPlaceOnEventList_refines\<close>)

lemma sched_run_refines:
  "mem_rep M (lists k) \<Longrightarrow> refines krel (sched_run mem_step evs (conc M k)) (sched_run abs_step evs k)"
  by (induction evs arbitrary: M k) (auto intro!: refines_Some refines_bind sched_step_refines)

end
