(* ===== verification/KernelSched.thy ===== *)
theory KernelSched
  imports KernelRefine
begin

text \<open>
  What the scheduler promises, proved on sequences: the invariant of its lists, which tasks a tick wakes, that delays are exact across the wrap-around of the
  tick counter, and which task runs.
\<close>

section \<open>Sequences of items\<close>

definition seq_items :: "('l, 'i) list_abs \<Rightarrow> 'l \<Rightarrow> 'i list" where
  "seq_items A l = (case la_lists A l of None \<Rightarrow> [] | Some q \<Rightarrow> kl_items q)"

definition seq_wf :: "('l, 'i) list_abs \<Rightarrow> bool" where
  "seq_wf A \<longleftrightarrow>
     (\<forall>l q. la_lists A l = Some q \<longrightarrow> distinct (kl_items q) \<and> set_option (kl_index q) \<subseteq> set (kl_items q)) \<and>
     (\<forall>i l. la_container A i = Some l \<longleftrightarrow> i \<in> set (seq_items A l))"

lemma container_iff: "seq_wf A \<Longrightarrow> la_container A i = Some l \<longleftrightarrow> i \<in> set (seq_items A l)"
  by (simp add: seq_wf_def)

lemma seq_distinct: "seq_wf A \<Longrightarrow> distinct (seq_items A l)"
  by (simp add: seq_wf_def seq_items_def split: option.splits)

text \<open>The change of one list and of the place of one item.\<close>

definition replaced :: "'l \<Rightarrow> 'i list \<Rightarrow> 'i \<Rightarrow> 'l option \<Rightarrow> ('l, 'i) list_abs \<Rightarrow> ('l, 'i) list_abs \<Rightarrow> bool" where
  "replaced l xs i c A A' \<longleftrightarrow>
     seq_wf A' \<and> seq_items A' = (seq_items A)(l := xs) \<and> la_container A' = (la_container A)(i := c) \<and>
     la_value A' = la_value A \<and> la_owner A' = la_owner A \<and> dom (la_lists A') = dom (la_lists A)"

lemma put_replaced:
  assumes "seq_wf A" and "la_lists A l = Some q" and "distinct (kl_items q')" and "set_option (kl_index q') \<subseteq> set (kl_items q')"
    and "\<And>j. j \<noteq> i \<Longrightarrow> j \<in> set (kl_items q') \<longleftrightarrow> j \<in> set (kl_items q)"
    and "c = Some l \<and> i \<in> set (kl_items q') \<and> la_container A i = None \<or> c = None \<and> i \<notin> set (kl_items q') \<and> la_container A i = Some l"
  shows "replaced l (kl_items q') i c A (put_container i c (put_list l q' A))"
proof -
  have items: "seq_items (put_container i c (put_list l q' A)) = (seq_items A)(l := kl_items q')"
    by (simp add: fun_eq_iff seq_items_def put_container_def put_list_def)
  have il: "seq_items A l = kl_items q" using assms(2) by (simp add: seq_items_def)
  have "((la_container A)(i := c)) j = Some l' \<longleftrightarrow> j \<in> set (((seq_items A)(l := kl_items q')) l')" for j l'
  proof (cases "j = i")
    case True
    have "i \<notin> set (seq_items A l')" if "l' \<noteq> l" using assms(6) container_iff [OF assms(1), of i l'] that by auto
    then show ?thesis using True assms(6) by auto
  next
    case False
    then show ?thesis using assms(5) container_iff [OF assms(1), of j] il by simp
  qed
  then have "seq_wf (put_container i c (put_list l q' A))"
    using assms(1,3,4) unfolding seq_wf_def items by (auto simp: put_container_def put_list_def)
  then show ?thesis
    using assms(2) items by (auto simp: replaced_def put_container_def put_list_def)
qed

lemma remove_seq:
  assumes wf: "seq_wf A" and c: "la_container A i = Some l"
  shows "\<exists>A'. abs_step (Op_Remove i) A = Some (Num (of_nat (length (seq_items A l) - 1)), A') \<and>
    replaced l (remove1 i (seq_items A l)) i None A A'"
proof -
  have i: "i \<in> set (seq_items A l)" using c container_iff [OF wf] by blast
  then obtain q where q: "la_lists A l = Some q" by (cases "la_lists A l") (auto simp: seq_items_def)
  have d: "distinct (kl_items q)" and x: "set_option (kl_index q) \<subseteq> set (kl_items q)" using wf q by (auto simp: seq_wf_def)
  let ?q = "kl_remove i q"
  have "set_option (kl_index ?q) \<subseteq> set (kl_items ?q)"
  proof (cases "kl_index q = Some i")
    case True
    have "y \<in> set (remove1 i (kl_items q))" if "y \<in> set (before i (kl_items q))" for y
      using set_takeWhileD [OF that [unfolded before_def]] d by simp
    then show ?thesis using True by (auto simp: kl_remove_def)
  next
    case False
    then show ?thesis using x d by (auto simp: kl_remove_def)
  qed
  then have "replaced l (kl_items ?q) i None A (put_container i None (put_list l ?q A))"
    using d i q c by (intro put_replaced [OF wf q]) (auto simp: kl_remove_def seq_items_def)
  then show ?thesis using c q i by (simp add: abs_step_def Let_def kl_remove_def seq_items_def length_remove1)
qed

lemma insert_end_seq:
  assumes wf: "seq_wf A" and c: "la_container A i = None" and l: "l \<in> dom (la_lists A)" and len: "length (seq_items A l) + 1 < 2 ^ 32"
  shows "\<exists>A' ys zs. abs_step (Op_InsertEnd l i) A = Some (Nothing, A') \<and> seq_items A l = ys @ zs \<and> replaced l (ys @ i # zs) i (Some l) A A'"
proof -
  obtain q where q: "la_lists A l = Some q" using l by auto
  have d: "distinct (kl_items q)" and x: "set_option (kl_index q) \<subseteq> set (kl_items q)" using wf q by (auto simp: seq_wf_def)
  have i: "i \<notin> set (kl_items q)" using c container_iff [OF wf, of i l] q by (simp add: seq_items_def)
  obtain ys zs where s: "kl_items q = ys @ zs" "kl_items (kl_insert_end i q) = ys @ i # zs"
  proof (cases "kl_index q")
    case None
    then show ?thesis using that [of "kl_items q" "[]"] by (simp add: kl_insert_end_def)
  next
    case (Some c)
    then show ?thesis using that [of "before c (kl_items q)" "from_on c (kl_items q)"] by (simp add: kl_insert_end_def before_from_on)
  qed
  have "replaced l (kl_items (kl_insert_end i q)) i (Some l) A (put_container i (Some l) (put_list l (kl_insert_end i q) A))"
    using d x i s c q by (intro put_replaced [OF wf q]) (auto simp: kl_insert_end_def)
  moreover have "insertable l i A" using c q len by (simp add: insertable_def seq_items_def)
  ultimately show ?thesis using s q by (auto simp: abs_step_def seq_items_def)
qed

lemma insert_seq:
  assumes wf: "seq_wf A" and c: "la_container A i = None" and l: "l \<in> dom (la_lists A)" and len: "length (seq_items A l) + 1 < 2 ^ 32"
  shows "\<exists>A'. abs_step (Op_Insert l i) A = Some (Nothing, A') \<and>
    replaced l (takeWhile (\<lambda>j. la_value A j \<le> la_value A i) (seq_items A l) @ i #
      dropWhile (\<lambda>j. la_value A j \<le> la_value A i) (seq_items A l)) i (Some l) A A'"
proof -
  obtain q where q: "la_lists A l = Some q" using l by auto
  have d: "distinct (kl_items q)" and x: "set_option (kl_index q) \<subseteq> set (kl_items q)" using wf q by (auto simp: seq_wf_def)
  have i: "i \<notin> set (kl_items q)" using c container_iff [OF wf, of i l] q by (simp add: seq_items_def)
  let ?P = "\<lambda>j. la_value A j \<le> la_value A i"
  have s: "set (takeWhile ?P (kl_items q)) \<union> set (dropWhile ?P (kl_items q)) = set (kl_items q)"
    by (metis set_append takeWhile_dropWhile_id)
  have dd: "distinct (takeWhile ?P (kl_items q))" "distinct (dropWhile ?P (kl_items q))"
      "set (takeWhile ?P (kl_items q)) \<inter> set (dropWhile ?P (kl_items q)) = {}"
    using d by (metis distinct_append takeWhile_dropWhile_id)+
  have "replaced l (kl_items (kl_insert (la_value A) i q)) i (Some l) A (put_container i (Some l) (put_list l (kl_insert (la_value A) i q) A))"
    using d dd x i s c q by (intro put_replaced [OF wf q]) (auto simp: kl_insert_def)
  moreover have "insertable l i A" using c q len by (simp add: insertable_def seq_items_def)
  ultimately show ?thesis using q by (simp add: abs_step_def seq_items_def kl_insert_def)
qed

lemma sorted_insert:
  assumes "sorted (map f xs)"
  shows "sorted (map f (takeWhile (\<lambda>j. f j \<le> f i) xs @ i # dropWhile (\<lambda>j. f j \<le> f i) xs))"
proof -
  define ys where "ys = takeWhile (\<lambda>j. f j \<le> f i) xs"
  define zs where "zs = dropWhile (\<lambda>j. f j \<le> f i) xs"
  have xs: "xs = ys @ zs" by (simp add: ys_def zs_def)
  have s: "sorted (map f (ys @ zs))" using assms unfolding xs .
  have low: "\<forall>y\<in>set ys. f y \<le> f i" unfolding ys_def by (blast dest: set_takeWhileD)
  have "\<forall>y\<in>set zs. f i \<le> f y"
  proof (cases zs)
    case (Cons z zs')
    then have "\<not> f z \<le> f i" using hd_dropWhile [of "\<lambda>j. f j \<le> f i" xs] by (simp flip: zs_def)
    then show ?thesis using s unfolding Cons by (simp add: sorted_append) force
  qed simp
  then have "sorted (map f (ys @ i # zs))" using s low by (simp add: sorted_append)
  then show ?thesis unfolding ys_def zs_def .
qed

lemma sorted_remove1:
  assumes "sorted (map f xs)"
  shows "sorted (map f (remove1 i xs))"
  using assms
proof (induction xs)
  case (Cons x xs)
  then show ?case using set_remove1_subset [of i xs] by auto
qed simp

section \<open>The invariant\<close>

abbreviation places :: "seq_kernel \<Rightarrow> item \<Rightarrow> list_id option" where "places k \<equiv> la_container (lists k)"
abbreviation wake_time :: "seq_kernel \<Rightarrow> nat \<Rightarrow> u32" where "wake_time k t \<equiv> la_value (lists k) (xStateListItem t)"
abbreviation prio :: "seq_kernel \<Rightarrow> nat \<Rightarrow> nat" where "prio k t \<equiv> unat (uxPriority (tcb k t))"

definition is_ready :: "seq_kernel \<Rightarrow> nat \<Rightarrow> bool" where
  "is_ready k t \<longleftrightarrow> places k (xStateListItem t) = Some (pxReadyTasksLists (prio k t))"

definition is_delayed :: "seq_kernel \<Rightarrow> nat \<Rightarrow> bool" where
  "is_delayed k t \<longleftrightarrow> places k (xStateListItem t) \<in> {Some xDelayedTaskList1, Some xDelayedTaskList2}"

text \<open>
  Where the two items of a task can be: a ready task is in the list of its priority and waits for nothing; a task that is not ready is
  delayed or suspended, and its event item is free, in the list of an event or among the tasks that are ready as soon as the scheduler resumes.
\<close>

definition task_place :: "seq_kernel \<Rightarrow> nat \<Rightarrow> bool" where
  "task_place k t \<longleftrightarrow>
     is_ready k t \<and> places k (xEventListItem t) = None \<or>
     (is_delayed k t \<or> places k (xStateListItem t) = Some xSuspendedTaskList) \<and>
     (places k (xEventListItem t) \<in> {None, Some xPendingReadyList} \<or> (\<exists>e. places k (xEventListItem t) = Some (event_list e)))"

definition kernel_list :: "list_id \<Rightarrow> bool" where
  "kernel_list l \<longleftrightarrow> (case l of pxReadyTasksLists p \<Rightarrow> p < 31 | _ \<Rightarrow> True)"

definition lists_ok :: "nat set \<Rightarrow> seq_kernel \<Rightarrow> bool" where
  "lists_ok T k \<longleftrightarrow>
     seq_wf (lists k) \<and> (\<forall>l. kernel_list l \<longrightarrow> l \<in> dom (la_lists (lists k))) \<and> finite T \<and> card T < 2 ^ 30 \<and>
     (\<forall>t. t \<notin> T \<longrightarrow> places k (xStateListItem t) = None \<and> places k (xEventListItem t) = None) \<and>
     (\<forall>t\<in>T. la_owner (lists k) (xStateListItem t) = t \<and> la_owner (lists k) (xEventListItem t) = t \<and> prio k t < 31)"

definition bits_ok :: "seq_kernel \<Rightarrow> bool" where
  "bits_ok k \<longleftrightarrow> (\<forall>p. bit (uxTopReadyPriority k) p \<longleftrightarrow> (\<exists>t. places k (xStateListItem t) = Some (pxReadyTasksLists p)))"

definition delayed_ok :: "seq_kernel \<Rightarrow> bool" where
  "delayed_ok k \<longleftrightarrow>
     (pxDelayedTaskList k = xDelayedTaskList1 \<and> pxOverflowDelayedTaskList k = xDelayedTaskList2 \<or>
      pxDelayedTaskList k = xDelayedTaskList2 \<and> pxOverflowDelayedTaskList k = xDelayedTaskList1) \<and>
     sorted (map (la_value (lists k)) (seq_items (lists k) (pxDelayedTaskList k))) \<and>
     sorted (map (la_value (lists k)) (seq_items (lists k) (pxOverflowDelayedTaskList k)))"

definition times_ok :: "seq_kernel \<Rightarrow> bool" where
  "times_ok k \<longleftrightarrow>
     (\<forall>t. places k (xStateListItem t) = Some (pxDelayedTaskList k) \<longrightarrow> xTickCount k < wake_time k t \<and> xNextTaskUnblockTime k \<le> wake_time k t) \<and>
     (\<forall>t. places k (xStateListItem t) = Some (pxOverflowDelayedTaskList k) \<longrightarrow> wake_time k t < xTickCount k)"

definition core_ok :: "nat set \<Rightarrow> seq_kernel \<Rightarrow> bool" where
  "core_ok T k \<longleftrightarrow>
     lists_ok T k \<and> (\<forall>t\<in>T. task_place k t) \<and> bits_ok k \<and> delayed_ok k \<and> (\<exists>c\<in>T. pxCurrentTCB k = Some c) \<and> uxNumberOfTasks k > 0"

definition resumed_ok :: "seq_kernel \<Rightarrow> bool" where
  "resumed_ok k \<longleftrightarrow>
     (uxSchedulerSuspended k = 0 \<longrightarrow> xPendedTicks k = 0 \<and> (\<forall>t. places k (xEventListItem t) \<noteq> Some xPendingReadyList))"

definition sched_ok :: "nat set \<Rightarrow> seq_kernel \<Rightarrow> bool" where
  "sched_ok T k \<longleftrightarrow> core_ok T k \<and> times_ok k \<and> resumed_ok k"

lemma core_okD:
  assumes "core_ok T k"
  shows "seq_wf (lists k)" "\<And>l. kernel_list l \<Longrightarrow> l \<in> dom (la_lists (lists k))" "finite T" "card T < 2 ^ 30"
    "\<And>t. t \<notin> T \<Longrightarrow> places k (xStateListItem t) = None" "\<And>t. t \<notin> T \<Longrightarrow> places k (xEventListItem t) = None"
    "\<And>t. t \<in> T \<Longrightarrow> la_owner (lists k) (xStateListItem t) = t" "\<And>t. t \<in> T \<Longrightarrow> la_owner (lists k) (xEventListItem t) = t"
    "\<And>t. t \<in> T \<Longrightarrow> prio k t < 31" "\<And>t. t \<in> T \<Longrightarrow> task_place k t" "bits_ok k" "delayed_ok k" "\<exists>c\<in>T. pxCurrentTCB k = Some c"
    "uxNumberOfTasks k > 0"
  using assms by (auto simp: core_ok_def lists_ok_def)

text \<open>There are at most two items for each task, so that every insertion has room.\<close>

lemma lists_okD:
  assumes "lists_ok T k"
  shows "seq_wf (lists k)" "\<And>l. kernel_list l \<Longrightarrow> l \<in> dom (la_lists (lists k))" "finite T" "card T < 2 ^ 30"
    "\<And>t. t \<notin> T \<Longrightarrow> places k (xStateListItem t) = None" "\<And>t. t \<notin> T \<Longrightarrow> places k (xEventListItem t) = None"
    "\<And>t. t \<in> T \<Longrightarrow> la_owner (lists k) (xStateListItem t) = t" "\<And>t. t \<in> T \<Longrightarrow> la_owner (lists k) (xEventListItem t) = t"
    "\<And>t. t \<in> T \<Longrightarrow> prio k t < 31"
  using assms by (auto simp: lists_ok_def)

lemma lists_ok_update:
  assumes "lists_ok T k" and "seq_wf (lists k')" and "la_owner (lists k') = la_owner (lists k)" and "dom (la_lists (lists k')) = dom (la_lists (lists k))"
    and "tcb k' = tcb k" and "\<And>t. t \<notin> T \<Longrightarrow> places k' (xStateListItem t) = None" "\<And>t. t \<notin> T \<Longrightarrow> places k' (xEventListItem t) = None"
  shows "lists_ok T k'"
  using assms by (simp add: lists_ok_def)

lemma core_lists: "core_ok T k \<Longrightarrow> lists_ok T k"
  by (simp add: core_ok_def)

lemma seq_length:
  assumes "lists_ok T k"
  shows "length (seq_items (lists k) l) + 1 < 2 ^ 32"
proof -
  note D = lists_okD [OF assms]
  have "set (seq_items (lists k) l) \<subseteq> xStateListItem ` T \<union> xEventListItem ` T"
  proof
    fix i assume "i \<in> set (seq_items (lists k) l)"
    then have i: "places k i = Some l" using container_iff [OF D(1)] by blast
    then show "i \<in> xStateListItem ` T \<union> xEventListItem ` T"
    proof (cases i)
      case (xStateListItem t)
      then have "t \<in> T" using i D(5) [of t] by (cases "t \<in> T") auto
      then show ?thesis using xStateListItem by blast
    next
      case (xEventListItem t)
      then have "t \<in> T" using i D(6) [of t] by (cases "t \<in> T") auto
      then show ?thesis using xEventListItem by blast
    qed
  qed
  then have "card (set (seq_items (lists k) l)) \<le> card (xStateListItem ` T \<union> xEventListItem ` T)"
    using D(3) by (intro card_mono) auto
  also have "\<dots> \<le> card (xStateListItem ` T) + card (xEventListItem ` T)" by (rule card_Un_le)
  also have "\<dots> \<le> card T + card T" using D(3) by (intro add_mono card_image_le) auto
  finally show ?thesis using D(4) distinct_card [OF seq_distinct [OF D(1), of l]] by simp
qed

section \<open>List operations of the kernel\<close>

lemma call_results:
  "abs_step op (lists k) = Some (r, A) \<Longrightarrow> list_do abs_step op k = Some (k\<lparr>lists := A\<rparr>)"
  "abs_step op (lists k) = Some (Num n, A) \<Longrightarrow> list_num abs_step op k = Some (n, k\<lparr>lists := A\<rparr>)"
  "abs_step op (lists k) = Some (Owner t, A) \<Longrightarrow> list_owner abs_step op k = Some (t, k\<lparr>lists := A\<rparr>)"
  by (simp_all add: list_do_def list_num_def list_owner_def list_call_def)

lemma read_results:
  "l \<in> dom (la_lists (lists k)) \<Longrightarrow> list_truth abs_step (Op_IsEmpty l) k = Some (seq_items (lists k) l = [], k)"
  "l \<in> dom (la_lists (lists k)) \<Longrightarrow> list_num abs_step (Op_Length l) k = Some (of_nat (length (seq_items (lists k) l)), k)"
  "seq_items (lists k) l = x # xs \<Longrightarrow> list_owner abs_step (Op_HeadOwner l) k = Some (la_owner (lists k) x, k)"
  "seq_items (lists k) l = x # xs \<Longrightarrow> list_num abs_step (Op_HeadValue l) k = Some (la_value (lists k) x, k)"
  "list_num abs_step (Op_GetValue i) k = Some (la_value (lists k) i, k)"
  "list_place abs_step (Op_Container i) k = Some (places k i, k)"
  by (auto simp: list_truth_def list_num_def list_owner_def list_place_def list_call_def abs_step_def seq_items_def split: option.splits)

section \<open>Making a task ready\<close>

text \<open>Both items of a task have been taken out of their lists.\<close>

definition detached :: "nat \<Rightarrow> seq_kernel \<Rightarrow> seq_kernel \<Rightarrow> bool" where
  "detached t k k' \<longleftrightarrow>
     k' = k\<lparr>lists := lists k'\<rparr> \<and> seq_wf (lists k') \<and>
     la_container (lists k') = (places k)(xStateListItem t := None, xEventListItem t := None) \<and>
     la_value (lists k') = la_value (lists k) \<and> la_owner (lists k') = la_owner (lists k) \<and> dom (la_lists (lists k')) = dom (la_lists (lists k)) \<and>
     (\<forall>l\<in>{xDelayedTaskList1, xDelayedTaskList2}. seq_items (lists k') l = remove1 (xStateListItem t) (seq_items (lists k) l)) \<and>
     (\<forall>p. pxReadyTasksLists p \<noteq> the (places k (xStateListItem t)) \<longrightarrow> seq_items (lists k') (pxReadyTasksLists p) = seq_items (lists k) (pxReadyTasksLists p))"

definition readied :: "nat set \<Rightarrow> nat \<Rightarrow> seq_kernel \<Rightarrow> seq_kernel \<Rightarrow> bool" where
  "readied T t k k' \<longleftrightarrow>
     core_ok T k' \<and> k' = k\<lparr>lists := lists k', uxTopReadyPriority := uxTopReadyPriority k'\<rparr> \<and>
     places k' = (places k)(xStateListItem t := Some (pxReadyTasksLists (prio k t)), xEventListItem t := None) \<and>
     la_value (lists k') = la_value (lists k) \<and>
     (\<forall>l\<in>{xDelayedTaskList1, xDelayedTaskList2}. seq_items (lists k') l = remove1 (xStateListItem t) (seq_items (lists k) l))"

lemma not_in_other: "seq_wf A \<Longrightarrow> la_container A i \<noteq> Some l \<Longrightarrow> remove1 i (seq_items A l) = seq_items A l"
  using container_iff [of A i l] by (simp add: remove1_idem)

lemma event_place:
  assumes "core_ok T k"
  shows "places k (xEventListItem t) \<notin> {Some xDelayedTaskList1, Some xDelayedTaskList2, Some (pxReadyTasksLists p)}"
  using core_okD(6,10) [OF assms, of t] by (cases "t \<in> T") (auto simp: task_place_def)

lemma detach_state_event:
  assumes ok: "core_ok T k" and t: "places k (xStateListItem t) = Some l"
  shows "\<exists>k1 k2. list_do abs_step (Op_Remove (xStateListItem t)) k = Some k1 \<and> places k1 (xEventListItem t) = places k (xEventListItem t) \<and>
    (if places k (xEventListItem t) \<noteq> None then list_do abs_step (Op_Remove (xEventListItem t)) k1 else Some k1) = Some k2 \<and> detached t k k2"
proof -
  note D = core_okD [OF ok]
  obtain A1 where A1: "abs_step (Op_Remove (xStateListItem t)) (lists k) = Some (Num (of_nat (length (seq_items (lists k) l) - 1)), A1)"
      "replaced l (remove1 (xStateListItem t) (seq_items (lists k) l)) (xStateListItem t) None (lists k) A1"
    using remove_seq [OF D(1) t] by blast
  have k1: "list_do abs_step (Op_Remove (xStateListItem t)) k = Some (k\<lparr>lists := A1\<rparr>)" using A1(1) by (rule call_results)
  note r1 = A1(2) [unfolded replaced_def]
  have items: "seq_items A1 l' = remove1 (xStateListItem t) (seq_items (lists k) l')" for l'
    using r1 t not_in_other [OF D(1), of "xStateListItem t" l'] by auto
  show ?thesis
  proof (cases "places k (xEventListItem t)")
    case None
    have "detached t k (k\<lparr>lists := A1\<rparr>)" using r1 items None t by (auto simp: detached_def)
    then show ?thesis using k1 r1 None by auto
  next
    case (Some le)
    have c: "la_container A1 (xEventListItem t) = Some le" using r1 Some by simp
    obtain A2 where A2: "abs_step (Op_Remove (xEventListItem t)) A1 = Some (Num (of_nat (length (seq_items A1 le) - 1)), A2)"
        "replaced le (remove1 (xEventListItem t) (seq_items A1 le)) (xEventListItem t) None A1 A2"
      using remove_seq [OF _ c] r1 by blast
    note r2 = A2(2) [unfolded replaced_def]
    have le: "le \<notin> {xDelayedTaskList1, xDelayedTaskList2}" "\<And>p. le \<noteq> pxReadyTasksLists p" using event_place [OF ok, of t] Some by auto
    have "detached t k (k\<lparr>lists := A2\<rparr>)" using r1 r2 items le t by (auto simp: detached_def)
    moreover have "list_do abs_step (Op_Remove (xEventListItem t)) (k\<lparr>lists := A1\<rparr>) = Some (k\<lparr>lists := A2\<rparr>)"
      using A2(1) call_results(1) [of "Op_Remove (xEventListItem t)" "k\<lparr>lists := A1\<rparr>"] by simp
    ultimately show ?thesis using k1 r1 Some by auto
  qed
qed

lemma detach_event_state:
  assumes ok: "core_ok T k" and t: "places k (xStateListItem t) = Some l" and e: "places k (xEventListItem t) = Some le"
  shows "\<exists>k1 k2. list_do abs_step (Op_Remove (xEventListItem t)) k = Some k1 \<and> k1 = k\<lparr>lists := lists k1\<rparr> \<and>
    replaced le (remove1 (xEventListItem t) (seq_items (lists k) le)) (xEventListItem t) None (lists k) (lists k1) \<and>
    list_do abs_step (Op_Remove (xStateListItem t)) k1 = Some k2 \<and> detached t k k2"
proof -
  note D = core_okD [OF ok]
  obtain A1 where A1: "abs_step (Op_Remove (xEventListItem t)) (lists k) = Some (Num (of_nat (length (seq_items (lists k) le) - 1)), A1)"
      "replaced le (remove1 (xEventListItem t) (seq_items (lists k) le)) (xEventListItem t) None (lists k) A1"
    using remove_seq [OF D(1) e] by blast
  have k1: "list_do abs_step (Op_Remove (xEventListItem t)) k = Some (k\<lparr>lists := A1\<rparr>)" using A1(1) by (rule call_results)
  note r1 = A1(2) [unfolded replaced_def]
  have c: "la_container A1 (xStateListItem t) = Some l" using r1 t by simp
  obtain A2 where A2: "abs_step (Op_Remove (xStateListItem t)) A1 = Some (Num (of_nat (length (seq_items A1 l) - 1)), A2)"
      "replaced l (remove1 (xStateListItem t) (seq_items A1 l)) (xStateListItem t) None A1 A2"
    using remove_seq [OF _ c] r1 by blast
  note r2 = A2(2) [unfolded replaced_def]
  have le: "le \<notin> {xDelayedTaskList1, xDelayedTaskList2}" "\<And>p. le \<noteq> pxReadyTasksLists p" using event_place [OF ok, of t] e by auto
  have "seq_items A2 l' = remove1 (xStateListItem t) (seq_items (lists k) l')" if "l' \<in> {xDelayedTaskList1, xDelayedTaskList2}" for l'
    using that r1 r2 le t not_in_other [OF D(1), of "xStateListItem t" l'] by auto
  then have "detached t k (k\<lparr>lists := A2\<rparr>)" using r1 r2 le t by (auto simp: detached_def)
  moreover have "list_do abs_step (Op_Remove (xStateListItem t)) (k\<lparr>lists := A1\<rparr>) = Some (k\<lparr>lists := A2\<rparr>)"
    using A2(1) call_results(1) [of "Op_Remove (xStateListItem t)" "k\<lparr>lists := A1\<rparr>"] by simp
  ultimately show ?thesis using k1 A1(2) by (intro exI [of _ "k\<lparr>lists := A1\<rparr>"] exI [of _ "k\<lparr>lists := A2\<rparr>"]) simp
qed

lemma bit_record: "bit (portRECORD_READY_PRIORITY p w) n \<longleftrightarrow> bit w n \<or> n = unat p \<and> n < 32"
  by (auto simp: portRECORD_READY_PRIORITY_def bit_or_iff bit_exp_iff)

lemma bit_reset: "bit (uxTopReadyPriority (portRESET_READY_PRIORITY p k)) n \<longleftrightarrow> bit (uxTopReadyPriority k) n \<and> n \<noteq> unat p"
  by (auto simp: portRESET_READY_PRIORITY_def bit_and_iff bit_not_iff bit_exp_iff dest: bit_imp_le_length)

lemma not_ready_place:
  assumes "core_ok T k" and "t \<in> T" and "\<not> is_ready k t"
  shows "places k (xStateListItem t) \<in> {Some xDelayedTaskList1, Some xDelayedTaskList2, Some xSuspendedTaskList}"
  using core_okD(10) [OF assms(1,2)] assms(3) by (auto simp: task_place_def is_delayed_def)

lemma delayed_cases:
  "core_ok T k \<Longrightarrow> pxDelayedTaskList k = xDelayedTaskList1 \<and> pxOverflowDelayedTaskList k = xDelayedTaskList2 \<or>
     pxDelayedTaskList k = xDelayedTaskList2 \<and> pxOverflowDelayedTaskList k = xDelayedTaskList1"
  by (auto simp: core_ok_def delayed_ok_def)

lemma add_ready:
  assumes ok: "core_ok T k" and t: "t \<in> T" and nr: "\<not> is_ready k t" and det: "detached t k k2"
  shows "\<exists>k'. prvAddTaskToReadyList abs_step t k2 = Some k' \<and> readied T t k k'"
proof -
  note D = core_okD [OF ok] and d = det [unfolded detached_def]
  let ?p = "uxPriority (tcb k t)" and ?l = "pxReadyTasksLists (prio k t)"
  let ?k2 = "k2\<lparr>uxTopReadyPriority := portRECORD_READY_PRIORITY ?p (uxTopReadyPriority k2)\<rparr>"
  obtain A where k2: "k2 = k\<lparr>lists := A\<rparr>" using d by blast
  have pl: "places k (xStateListItem t) \<in> {Some xDelayedTaskList1, Some xDelayedTaskList2, Some xSuspendedTaskList}"
    by (rule not_ready_place [OF ok t nr])
  have kl: "?l \<in> dom (la_lists A)" using D(2) [of ?l] D(9) [OF t] d k2 by (auto simp: kernel_list_def)
  have same: "seq_items A ?l = seq_items (lists k) ?l" using d k2 pl by auto
  obtain A' ys zs where A': "abs_step (Op_InsertEnd ?l (xStateListItem t)) A = Some (Nothing, A')"
      "replaced ?l (ys @ xStateListItem t # zs) (xStateListItem t) (Some ?l) A A'"
    using insert_end_seq [of A "xStateListItem t" ?l] d k2 kl same seq_length [OF core_lists [OF ok], of ?l] by auto
  note r = A'(2) [unfolded replaced_def]
  let ?k' = "k\<lparr>lists := A', uxTopReadyPriority := portRECORD_READY_PRIORITY ?p (uxTopReadyPriority k)\<rparr>"
  have run: "prvAddTaskToReadyList abs_step t k2 = Some ?k'"
    using A'(1) by (simp add: prvAddTaskToReadyList_def Let_def k2 call_results(1))
  have places: "places ?k' = (places k)(xStateListItem t := Some ?l, xEventListItem t := None)" using r d k2 by (auto simp: fun_eq_iff)
  have items: "\<forall>l\<in>{xDelayedTaskList1, xDelayedTaskList2}. seq_items A' l = remove1 (xStateListItem t) (seq_items (lists k) l)"
    using r d k2 by auto
  have lo: "lists_ok T ?k'" using D(2-9) r d k2 t places by (auto simp: lists_ok_def)
  have tp: "\<forall>u\<in>T. task_place ?k' u"
  proof
    fix u assume "u \<in> T"
    then show "task_place ?k' u"
      using D(10) [of u] places by (cases "u = t") (simp_all add: task_place_def is_ready_def is_delayed_def)
  qed
  have "bit (uxTopReadyPriority ?k') p \<longleftrightarrow> (\<exists>u. places ?k' (xStateListItem u) = Some (pxReadyTasksLists p))" for p
  proof -
    have "(\<exists>u. places ?k' (xStateListItem u) = Some (pxReadyTasksLists p)) \<longleftrightarrow>
        p = prio k t \<or> (\<exists>u. places k (xStateListItem u) = Some (pxReadyTasksLists p))"
    proof -
      have "places ?k' (xStateListItem u) = Some (pxReadyTasksLists p) \<longleftrightarrow>
          u = t \<and> p = prio k t \<or> places k (xStateListItem u) = Some (pxReadyTasksLists p)" for u
        unfolding places using pl by (cases "u = t") auto
      then show ?thesis by auto
    qed
    then show ?thesis using D(11) D(9) [OF t] by (simp add: bits_ok_def bit_record) auto
  qed
  then have bo: "bits_ok ?k'" by (simp add: bits_ok_def)
  have "delayed_ok ?k'"
    using D(12) items r d k2 sorted_remove1 by (auto simp: delayed_ok_def)
  then have "core_ok T ?k'" using lo tp bo D(13,14) by (simp add: core_ok_def)
  then show ?thesis using run places items r d k2 by (auto simp: readied_def)
qed

lemma wake_task:
  assumes ok: "core_ok T k" and t: "t \<in> T" and nr: "\<not> is_ready k t"
  shows "\<exists>k1 k2 k'. list_do abs_step (Op_Remove (xStateListItem t)) k = Some k1 \<and> places k1 (xEventListItem t) = places k (xEventListItem t) \<and>
    (if places k (xEventListItem t) \<noteq> None then list_do abs_step (Op_Remove (xEventListItem t)) k1 else Some k1) = Some k2 \<and>
    prvAddTaskToReadyList abs_step t k2 = Some k' \<and> readied T t k k'"
proof -
  obtain l where "places k (xStateListItem t) = Some l" using not_ready_place [OF assms] by auto
  then show ?thesis using detach_state_event [OF ok] add_ready [OF ok t nr] by metis
qed

lemma readied_simps:
  assumes "readied T t k k'"
  shows "core_ok T k'" "tcb k' = tcb k" "pxCurrentTCB k' = pxCurrentTCB k" "xTickCount k' = xTickCount k"
    "pxDelayedTaskList k' = pxDelayedTaskList k" "pxOverflowDelayedTaskList k' = pxOverflowDelayedTaskList k"
    "uxSchedulerSuspended k' = uxSchedulerSuspended k" "xPendedTicks k' = xPendedTicks k" "xYieldPending k' = xYieldPending k"
    "pendsv k' = pendsv k" "xNextTaskUnblockTime k' = xNextTaskUnblockTime k" "xNumOfOverflows k' = xNumOfOverflows k"
    "uxNumberOfTasks k' = uxNumberOfTasks k" "xSchedulerRunning k' = xSchedulerRunning k"
    "places k' = (places k)(xStateListItem t := Some (pxReadyTasksLists (prio k t)), xEventListItem t := None)"
    "la_value (lists k') = la_value (lists k)"
proof -
  have k': "k' = k\<lparr>lists := lists k', uxTopReadyPriority := uxTopReadyPriority k'\<rparr>" using assms by (simp add: readied_def)
  show "tcb k' = tcb k" by (subst k') simp
  show "pxCurrentTCB k' = pxCurrentTCB k" by (subst k') simp
  show "xTickCount k' = xTickCount k" by (subst k') simp
  show "pxDelayedTaskList k' = pxDelayedTaskList k" by (subst k') simp
  show "pxOverflowDelayedTaskList k' = pxOverflowDelayedTaskList k" by (subst k') simp
  show "uxSchedulerSuspended k' = uxSchedulerSuspended k" by (subst k') simp
  show "xPendedTicks k' = xPendedTicks k" by (subst k') simp
  show "xYieldPending k' = xYieldPending k" by (subst k') simp
  show "pendsv k' = pendsv k" by (subst k') simp
  show "xNextTaskUnblockTime k' = xNextTaskUnblockTime k" by (subst k') simp
  show "xNumOfOverflows k' = xNumOfOverflows k" by (subst k') simp
  show "uxNumberOfTasks k' = uxNumberOfTasks k" by (subst k') simp
  show "xSchedulerRunning k' = xSchedulerRunning k" by (subst k') simp
qed (use assms in \<open>auto simp: readied_def\<close>)

section \<open>The tick\<close>

lemmas core_defs = core_ok_def lists_ok_def bits_ok_def delayed_ok_def task_place_def is_ready_def is_delayed_def

lemma core_other_fields [simp]:
  "core_ok T (k\<lparr>xNextTaskUnblockTime := v\<rparr>) = core_ok T k" "core_ok T (k\<lparr>xYieldPending := b\<rparr>) = core_ok T k"
  "core_ok T (k\<lparr>xPendedTicks := v\<rparr>) = core_ok T k" "core_ok T (k\<lparr>uxSchedulerSuspended := v\<rparr>) = core_ok T k"
  "core_ok T (k\<lparr>pendsv := b\<rparr>) = core_ok T k" "core_ok T (k\<lparr>xNumOfOverflows := v\<rparr>) = core_ok T k" "core_ok T (k\<lparr>xTickCount := v\<rparr>) = core_ok T k"
  by (simp_all add: core_defs)

definition due :: "u32 \<Rightarrow> seq_kernel \<Rightarrow> nat \<Rightarrow> bool" where
  "due c k t \<longleftrightarrow> places k (xStateListItem t) = Some (pxDelayedTaskList k) \<and> wake_time k t = c"

text \<open>The places of all items after the tasks of a set have been made ready.\<close>

definition ready_places :: "(nat \<Rightarrow> bool) \<Rightarrow> seq_kernel \<Rightarrow> item \<Rightarrow> list_id option" where
  "ready_places W k i =
     (case i of
        xStateListItem t \<Rightarrow> if W t then Some (pxReadyTasksLists (prio k t)) else places k i
      | xEventListItem t \<Rightarrow> if W t then None else places k i)"

definition woken :: "(nat \<Rightarrow> bool) \<Rightarrow> seq_kernel \<Rightarrow> seq_kernel \<Rightarrow> bool" where
  "woken W k k' \<longleftrightarrow>
     places k' = ready_places W k \<and> la_value (lists k') = la_value (lists k) \<and>
     k' = k\<lparr>lists := lists k', uxTopReadyPriority := uxTopReadyPriority k', xNextTaskUnblockTime := xNextTaskUnblockTime k'\<rparr>"

definition outranks :: "seq_kernel \<Rightarrow> (nat \<Rightarrow> bool) \<Rightarrow> bool" where
  "outranks k W \<longleftrightarrow> (\<exists>t cur. W t \<and> pxCurrentTCB k = Some cur \<and> uxPriority (tcb k t) > uxPriority (tcb k cur))"

lemma woken_frame:
  "k1 = k\<lparr>lists := a, uxTopReadyPriority := b\<rparr> \<Longrightarrow> k2 = k1\<lparr>lists := c, uxTopReadyPriority := d, xNextTaskUnblockTime := e\<rparr> \<Longrightarrow>
    k2 = k\<lparr>lists := c, uxTopReadyPriority := d, xNextTaskUnblockTime := e\<rparr>"
  by simp

lemma delayed_item:
  assumes ok: "core_ok T k" and i: "places k i = Some (pxDelayedTaskList k)"
  shows "\<exists>t\<in>T. i = xStateListItem t"
proof (cases i)
  case (xStateListItem t)
  then show ?thesis using i core_okD(5) [OF ok, of t] by (cases "t \<in> T") auto
next
  case (xEventListItem t)
  then show ?thesis using i event_place [OF ok, of t] delayed_cases [OF ok] by auto
qed

lemma delayed_dom:
  assumes "core_ok T k"
  shows "pxDelayedTaskList k \<in> dom (la_lists (lists k))" "pxOverflowDelayedTaskList k \<in> dom (la_lists (lists k))"
proof -
  have "kernel_list (pxDelayedTaskList k)" "kernel_list (pxOverflowDelayedTaskList k)"
    using core_okD(12) [OF assms] by (auto simp: delayed_ok_def kernel_list_def)
  then show "pxDelayedTaskList k \<in> dom (la_lists (lists k))" "pxOverflowDelayedTaskList k \<in> dom (la_lists (lists k))"
    using core_okD(2) [OF assms] by blast+
qed

lemma wake_loop_spec:
  assumes "core_ok T k" and "\<forall>t. places k (xStateListItem t) = Some (pxDelayedTaskList k) \<longrightarrow> c \<le> wake_time k t"
  shows "\<exists>sw' k'. wake_loop abs_step c sw k = Some (sw', k') \<and> core_ok T k' \<and> woken (due c k) k k' \<and> (sw' \<longleftrightarrow> sw \<or> outranks k (due c k)) \<and>
    (\<forall>t. places k' (xStateListItem t) = Some (pxDelayedTaskList k) \<longrightarrow> c < wake_time k t \<and> xNextTaskUnblockTime k' \<le> wake_time k t)"
  using assms
proof (induction "length (seq_items (lists k) (pxDelayedTaskList k))" arbitrary: k sw)
  case 0
  note D = core_okD [OF 0(2)]
  have dom: "pxDelayedTaskList k \<in> dom (la_lists (lists k))" by (rule delayed_dom [OF 0(2)])
  have none: "places k i \<noteq> Some (pxDelayedTaskList k)" for i using 0(1) container_iff [OF D(1), of i] by simp
  have "woken (due c k) k (k\<lparr>xNextTaskUnblockTime := portMAX_DELAY\<rparr>)"
    using none by (auto simp: woken_def ready_places_def due_def fun_eq_iff split: item.splits)
  moreover have "wake_loop abs_step c sw k = Some (sw, k\<lparr>xNextTaskUnblockTime := portMAX_DELAY\<rparr>)"
    using 0(1) dom by (subst wake_loop.simps) (simp add: read_results)
  moreover have "\<not> outranks k (due c k)" using none by (simp add: outranks_def due_def)
  ultimately show ?case using 0(2) none by simp
next
  case (Suc n)
  note ok = Suc.prems(1) and D = core_okD [OF Suc.prems(1)]
  have dom: "pxDelayedTaskList k \<in> dom (la_lists (lists k))" by (rule delayed_dom [OF ok])
  obtain i xs where items: "seq_items (lists k) (pxDelayedTaskList k) = i # xs" using Suc.hyps(2) by (cases "seq_items (lists k) (pxDelayedTaskList k)") auto
  then have pi: "places k i = Some (pxDelayedTaskList k)" using container_iff [OF D(1), of i] by simp
  then obtain t where t: "t \<in> T" "i = xStateListItem t" using delayed_item [OF ok] by blast
  have own: "la_owner (lists k) i = t" using D(7) t by simp
  have le: "c \<le> wake_time k t" using Suc.prems(2) pi t by simp
  have "sorted (map (la_value (lists k)) (i # xs))" using D(12) items by (simp add: delayed_ok_def)
  then have low: "wake_time k t \<le> wake_time k u" if "places k (xStateListItem u) = Some (pxDelayedTaskList k)" for u
    using that container_iff [OF D(1), of "xStateListItem u"] items t by auto
  show ?case
  proof (cases "c < wake_time k t")
    case True
    then have nd: "\<not> due c k u" for u using low [of u] by (auto simp: due_def)
    have "wake_loop abs_step c sw k = Some (sw, k\<lparr>xNextTaskUnblockTime := wake_time k t\<rparr>)"
      using True items t own dom by (subst wake_loop.simps) (simp add: read_results)
    moreover have "woken (due c k) k (k\<lparr>xNextTaskUnblockTime := wake_time k t\<rparr>)"
      using nd by (auto simp: woken_def ready_places_def fun_eq_iff split: item.splits)
    moreover have "\<not> outranks k (due c k)" using nd by (simp add: outranks_def)
    moreover have "\<forall>u. places k (xStateListItem u) = Some (pxDelayedTaskList k) \<longrightarrow> c < wake_time k u \<and> wake_time k t \<le> wake_time k u"
      using low less_le_trans [OF True] by blast
    ultimately show ?thesis using ok by simp
  next
    case False
    then have eq: "wake_time k t = c" using le by simp
    have nr: "\<not> is_ready k t" using pi t delayed_cases [OF ok] by (auto simp: is_ready_def)
    obtain k1 k2 k4 where k: "list_do abs_step (Op_Remove (xStateListItem t)) k = Some k1" "places k1 (xEventListItem t) = places k (xEventListItem t)"
        "(if places k (xEventListItem t) \<noteq> None then list_do abs_step (Op_Remove (xEventListItem t)) k1 else Some k1) = Some k2"
        "prvAddTaskToReadyList abs_step t k2 = Some k4" "readied T t k k4"
      using wake_task [OF ok t(1) nr] by blast
    note r = readied_simps [OF k(5)]
    obtain cur where cur: "pxCurrentTCB k = Some cur" using D(13) by blast
    let ?sw = "sw \<or> uxPriority (tcb k t) > uxPriority (tcb k cur)"
    have run: "wake_loop abs_step c sw k = wake_loop abs_step c ?sw k4"
      using items t own dom False k cur r(2,3) by (subst wake_loop.simps) (simp add: read_results)
    have items4: "seq_items (lists k4) (pxDelayedTaskList k4) = xs"
      using k(5) r(5) items t delayed_cases [OF ok] by (auto simp: readied_def)
    have due4: "due c k4 u \<longleftrightarrow> due c k u \<and> u \<noteq> t" for u using r(5,15,16) delayed_cases [OF ok] by (auto simp: due_def)
    have duet: "due c k t" using pi t eq by (simp add: due_def)
    have "n = length (seq_items (lists k4) (pxDelayedTaskList k4))" using Suc.hyps(2) items items4 by simp
    moreover have "\<forall>u. places k4 (xStateListItem u) = Some (pxDelayedTaskList k4) \<longrightarrow> c \<le> wake_time k4 u"
      using Suc.prems(2) r(5,15,16) delayed_cases [OF ok] by auto
    ultimately obtain sw' k' where IH: "wake_loop abs_step c ?sw k4 = Some (sw', k')" "core_ok T k'" "woken (due c k4) k4 k'"
        "sw' \<longleftrightarrow> ?sw \<or> outranks k4 (due c k4)"
        "\<forall>u. places k' (xStateListItem u) = Some (pxDelayedTaskList k4) \<longrightarrow> c < wake_time k4 u \<and> xNextTaskUnblockTime k' \<le> wake_time k4 u"
      using Suc.hyps(1) r(1) by blast
    have pl: "ready_places (due c k4) k4 = ready_places (due c k) k"
      using duet r(2,15) due4 by (auto simp: ready_places_def fun_eq_iff split: item.splits)
    have k4: "k4 = k\<lparr>lists := lists k4, uxTopReadyPriority := uxTopReadyPriority k4\<rparr>" using k(5) by (simp add: readied_def)
    have k': "k' = k4\<lparr>lists := lists k', uxTopReadyPriority := uxTopReadyPriority k', xNextTaskUnblockTime := xNextTaskUnblockTime k'\<rparr>"
      using IH(3) by (simp add: woken_def)
    have "woken (due c k) k k'" using IH(3) pl r(16) woken_frame [OF k4 k'] unfolding woken_def by simp
    moreover have "?sw \<or> outranks k4 (due c k4) \<longleftrightarrow> sw \<or> outranks k (due c k)"
      using duet due4 cur r(2,3) by (auto simp: outranks_def)
    ultimately show ?thesis using IH run r(5,16) by auto
  qed
qed

lemma reset_next_spec:
  assumes ok: "core_ok T k"
  shows "\<exists>v. prvResetNextTaskUnblockTime abs_step k = Some (k\<lparr>xNextTaskUnblockTime := v\<rparr>) \<and>
    (\<forall>t. places k (xStateListItem t) = Some (pxDelayedTaskList k) \<longrightarrow> v \<le> wake_time k t)"
proof -
  note D = core_okD [OF ok]
  show ?thesis
  proof (cases "seq_items (lists k) (pxDelayedTaskList k)")
    case Nil
    then have "prvResetNextTaskUnblockTime abs_step k = Some (k\<lparr>xNextTaskUnblockTime := portMAX_DELAY\<rparr>)"
      using delayed_dom(1) [OF ok] by (simp add: prvResetNextTaskUnblockTime_def read_results)
    moreover have "\<forall>t. places k (xStateListItem t) \<noteq> Some (pxDelayedTaskList k)" using Nil container_iff [OF D(1)] by simp
    ultimately show ?thesis by (intro exI [of _ portMAX_DELAY]) simp
  next
    case (Cons i xs)
    then have "prvResetNextTaskUnblockTime abs_step k = Some (k\<lparr>xNextTaskUnblockTime := la_value (lists k) i\<rparr>)"
      using delayed_dom(1) [OF ok] by (simp add: prvResetNextTaskUnblockTime_def read_results)
    moreover have "\<forall>t. places k (xStateListItem t) = Some (pxDelayedTaskList k) \<longrightarrow> la_value (lists k) i \<le> wake_time k t"
      using D(12) Cons container_iff [OF D(1)] by (auto simp: delayed_ok_def)
    ultimately show ?thesis by blast
  qed
qed

text \<open>The tasks whose delay ends with the next tick.\<close>

definition expires :: "seq_kernel \<Rightarrow> nat \<Rightarrow> bool" where
  "expires k t \<longleftrightarrow> is_delayed k t \<and> wake_time k t = xTickCount k + 1"

definition ticked :: "seq_kernel \<Rightarrow> seq_kernel \<Rightarrow> bool" where
  "ticked k k' \<longleftrightarrow>
     places k' = ready_places (expires k) k \<and> la_value (lists k') = la_value (lists k) \<and> xTickCount k' = xTickCount k + 1 \<and>
     tcb k' = tcb k \<and> pxCurrentTCB k' = pxCurrentTCB k \<and> uxNumberOfTasks k' = uxNumberOfTasks k \<and> xSchedulerRunning k' = xSchedulerRunning k \<and>
     xPendedTicks k' = xPendedTicks k \<and> xYieldPending k' = xYieldPending k \<and> uxSchedulerSuspended k' = uxSchedulerSuspended k \<and> pendsv k' = pendsv k \<and>
     xNumOfOverflows k' = (if xTickCount k + 1 = 0 then xNumOfOverflows k + 1 else xNumOfOverflows k)"

lemma woken_ticked:
  assumes "woken W k1 k'" and "W = expires k" and "lists k1 = lists k" "tcb k1 = tcb k" "xTickCount k1 = xTickCount k + 1"
    "pxCurrentTCB k1 = pxCurrentTCB k" "uxNumberOfTasks k1 = uxNumberOfTasks k" "xSchedulerRunning k1 = xSchedulerRunning k"
    "xPendedTicks k1 = xPendedTicks k" "xYieldPending k1 = xYieldPending k" "uxSchedulerSuspended k1 = uxSchedulerSuspended k" "pendsv k1 = pendsv k"
    "xNumOfOverflows k1 = (if xTickCount k + 1 = 0 then xNumOfOverflows k + 1 else xNumOfOverflows k)"
  shows "ticked k k'"
proof -
  obtain A b n where k': "k' = k1\<lparr>lists := A, uxTopReadyPriority := b, xNextTaskUnblockTime := n\<rparr>" using assms(1) by (auto simp: woken_def)
  have "ready_places W k1 = ready_places (expires k) k" using assms(2-4) by (simp add: ready_places_def fun_eq_iff split: item.splits)
  then show ?thesis using assms k' by (simp add: ticked_def woken_def)
qed

text \<open>The lists when the loop of the tick is reached, and what the loop, or its omission, makes of them.\<close>

lemma tick_wakes:
  assumes ok: "core_ok T k1" and c: "c = xTickCount k1"
    and low: "\<forall>t. places k1 (xStateListItem t) = Some (pxDelayedTaskList k1) \<longrightarrow> c \<le> wake_time k1 t \<and> xNextTaskUnblockTime k1 \<le> wake_time k1 t"
    and ovf: "\<forall>t. places k1 (xStateListItem t) = Some (pxOverflowDelayedTaskList k1) \<longrightarrow> wake_time k1 t < c"
  shows "\<exists>sw k'. (if c \<ge> xNextTaskUnblockTime k1 then wake_loop abs_step c False k1 else Some (False, k1)) = Some (sw, k') \<and>
    core_ok T k' \<and> times_ok k' \<and> woken (due c k1) k1 k' \<and> (sw \<longleftrightarrow> outranks k1 (due c k1))"
proof (cases "c \<ge> xNextTaskUnblockTime k1")
  case True
  obtain sw k' where w: "wake_loop abs_step c False k1 = Some (sw, k')" "core_ok T k'" "woken (due c k1) k1 k'" "sw \<longleftrightarrow> False \<or> outranks k1 (due c k1)"
      "\<forall>t. places k' (xStateListItem t) = Some (pxDelayedTaskList k1) \<longrightarrow> c < wake_time k1 t \<and> xNextTaskUnblockTime k' \<le> wake_time k1 t"
    using wake_loop_spec [OF ok, of c False] low by blast
  obtain A b n where k': "k' = k1\<lparr>lists := A, uxTopReadyPriority := b, xNextTaskUnblockTime := n\<rparr>" using w(3) by (auto simp: woken_def)
  have pl: "places k' = ready_places (due c k1) k1" "la_value (lists k') = la_value (lists k1)" using w(3) by (auto simp: woken_def)
  have "places k1 (xStateListItem t) = Some (pxOverflowDelayedTaskList k1)" if "places k' (xStateListItem t) = Some (pxOverflowDelayedTaskList k1)" for t
    using that pl(1) delayed_cases [OF ok] by (auto simp: ready_places_def split: if_splits)
  then have "times_ok k'" using w(5) ovf pl(2) c k' by (simp add: times_ok_def)
  then show ?thesis using True w by auto
next
  case False
  then have nd: "\<not> due c k1 t" for t using low by (fastforce simp: due_def)
  have "c < wake_time k1 t" if "places k1 (xStateListItem t) = Some (pxDelayedTaskList k1)" for t using False low that by fastforce
  then have "times_ok k1" using low ovf c by (simp add: times_ok_def)
  moreover have "woken (due c k1) k1 k1" using nd by (simp add: woken_def ready_places_def fun_eq_iff split: item.splits)
  moreover have "\<not> outranks k1 (due c k1)" using nd by (simp add: outranks_def)
  ultimately show ?thesis using False ok by (intro exI [of _ False] exI [of _ k1]) simp
qed

lemma switch_lists_spec:
  assumes ok: "core_ok T k" and e: "\<forall>t. places k (xStateListItem t) \<noteq> Some (pxDelayedTaskList k)"
  shows "\<exists>v. taskSWITCH_DELAYED_LISTS abs_step k =
      Some (k\<lparr>pxDelayedTaskList := pxOverflowDelayedTaskList k, pxOverflowDelayedTaskList := pxDelayedTaskList k,
        xNumOfOverflows := xNumOfOverflows k + 1, xNextTaskUnblockTime := v\<rparr>) \<and>
    core_ok T (k\<lparr>pxDelayedTaskList := pxOverflowDelayedTaskList k, pxOverflowDelayedTaskList := pxDelayedTaskList k\<rparr>) \<and>
    (\<forall>t. places k (xStateListItem t) = Some (pxOverflowDelayedTaskList k) \<longrightarrow> v \<le> wake_time k t)"
proof -
  note D = core_okD [OF ok]
  let ?k = "k\<lparr>pxDelayedTaskList := pxOverflowDelayedTaskList k, pxOverflowDelayedTaskList := pxDelayedTaskList k\<rparr>"
  have ok': "core_ok T ?k" using ok delayed_cases [OF ok] by (auto simp: core_defs)
  have "core_ok T (?k\<lparr>xNumOfOverflows := xNumOfOverflows k + 1\<rparr>)" using ok' by simp
  then obtain v where v: "prvResetNextTaskUnblockTime abs_step (?k\<lparr>xNumOfOverflows := xNumOfOverflows k + 1\<rparr>) =
      Some (?k\<lparr>xNumOfOverflows := xNumOfOverflows k + 1, xNextTaskUnblockTime := v\<rparr>)"
      "\<forall>t. places k (xStateListItem t) = Some (pxOverflowDelayedTaskList k) \<longrightarrow> v \<le> wake_time k t"
    using reset_next_spec by fastforce
  have "seq_items (lists k) (pxDelayedTaskList k) = []"
  proof (cases "seq_items (lists k) (pxDelayedTaskList k)")
    case (Cons i xs)
    then have "places k i = Some (pxDelayedTaskList k)" using container_iff [OF D(1), of i] by simp
    then show ?thesis using delayed_item [OF ok] e by blast
  qed
  then have "taskSWITCH_DELAYED_LISTS abs_step k = prvResetNextTaskUnblockTime abs_step (?k\<lparr>xNumOfOverflows := xNumOfOverflows k + 1\<rparr>)"
    using delayed_dom(1) [OF ok] by (simp add: taskSWITCH_DELAYED_LISTS_def read_results assert_def)
  then show ?thesis using v ok' by auto
qed

lemma ready_list_dom:
  assumes "core_ok T k" and "t \<in> T"
  shows "pxReadyTasksLists (prio k t) \<in> dom (la_lists (lists k))"
  using core_okD(9) [OF assms] by (intro core_okD(2) [OF assms(1)]) (simp add: kernel_list_def)

lemma wrap_tick:
  assumes "x + 1 = 0"
  shows "\<not> x < (y :: u32)"
proof -
  have "x = - 1" using assms by (simp add: eq_neg_iff_add_eq_0)
  then show ?thesis using word_order.extremum [of y] by simp
qed

lemma tick_order:
  assumes "x + 1 \<noteq> 0"
  shows "x < (y :: u32) \<longleftrightarrow> x + 1 \<le> y"
  using unatSuc [of x] assms by (auto simp: word_less_nat_alt word_le_nat_alt add.commute)

lemma tick_spec:
  assumes ok: "core_ok T k" and tm: "times_ok k" and s: "uxSchedulerSuspended k = 0"
  shows "\<exists>sw k'. xTaskIncrementTick abs_step k = Some (sw, k') \<and> core_ok T k' \<and> times_ok k' \<and> ticked k k' \<and>
    (outranks k (expires k) \<or> xYieldPending k \<longrightarrow> sw)"
proof -
  note D = core_okD [OF ok]
  obtain cur where cur: "pxCurrentTCB k = Some cur" "cur \<in> T" using D(13) by blast
  define c where "c = xTickCount k + 1"
  have "\<exists>k1. (if c = 0 then taskSWITCH_DELAYED_LISTS abs_step (k\<lparr>xTickCount := c\<rparr>) else Some (k\<lparr>xTickCount := c\<rparr>)) = Some k1 \<and>
      core_ok T k1 \<and> due c k1 = expires k \<and>
      (\<forall>t. places k1 (xStateListItem t) = Some (pxDelayedTaskList k1) \<longrightarrow> c \<le> wake_time k1 t \<and> xNextTaskUnblockTime k1 \<le> wake_time k1 t) \<and>
      (\<forall>t. places k1 (xStateListItem t) = Some (pxOverflowDelayedTaskList k1) \<longrightarrow> wake_time k1 t < c) \<and>
      (\<exists>d e n v. k1 = k\<lparr>xTickCount := c, pxDelayedTaskList := d, pxOverflowDelayedTaskList := e, xNumOfOverflows := n, xNextTaskUnblockTime := v\<rparr> \<and>
        n = (if c = 0 then xNumOfOverflows k + 1 else xNumOfOverflows k))"
  proof (cases "c = 0")
    case False
    let ?k1 = "k\<lparr>xTickCount := c\<rparr>"
    have lt: "xTickCount k < c" using tick_order [of "xTickCount k" c] False by (simp add: c_def)
    have "due c ?k1 = expires k"
      using tm lt delayed_cases [OF ok] by (fastforce simp: fun_eq_iff due_def expires_def is_delayed_def times_ok_def c_def)
    moreover have "\<forall>t. places k (xStateListItem t) = Some (pxDelayedTaskList k) \<longrightarrow> c \<le> wake_time k t \<and> xNextTaskUnblockTime k \<le> wake_time k t"
      using tm False tick_order [of "xTickCount k"] by (simp add: times_ok_def c_def)
    moreover have "\<forall>t. places k (xStateListItem t) = Some (pxOverflowDelayedTaskList k) \<longrightarrow> wake_time k t < c"
      using tm lt less_trans by (fastforce simp: times_ok_def)
    moreover have "\<exists>d e n v. ?k1 = k\<lparr>xTickCount := c, pxDelayedTaskList := d, pxOverflowDelayedTaskList := e, xNumOfOverflows := n, xNextTaskUnblockTime := v\<rparr> \<and>
        n = (if c = 0 then xNumOfOverflows k + 1 else xNumOfOverflows k)"
      by (rule exI [of _ "pxDelayedTaskList k"], rule exI [of _ "pxOverflowDelayedTaskList k"], rule exI [of _ "xNumOfOverflows k"],
          rule exI [of _ "xNextTaskUnblockTime k"]) (simp add: False)
    ultimately show ?thesis using False ok by (intro exI [of _ ?k1] conjI) simp_all
  next
    case True
    have e: "places k (xStateListItem t) \<noteq> Some (pxDelayedTaskList k)" for t
      using tm wrap_tick [of "xTickCount k"] True by (auto simp: times_ok_def c_def)
    obtain v where v: "taskSWITCH_DELAYED_LISTS abs_step (k\<lparr>xTickCount := c\<rparr>) =
        Some (k\<lparr>xTickCount := c, pxDelayedTaskList := pxOverflowDelayedTaskList k, pxOverflowDelayedTaskList := pxDelayedTaskList k,
          xNumOfOverflows := xNumOfOverflows k + 1, xNextTaskUnblockTime := v\<rparr>)"
        "core_ok T (k\<lparr>xTickCount := c, pxDelayedTaskList := pxOverflowDelayedTaskList k, pxOverflowDelayedTaskList := pxDelayedTaskList k\<rparr>)"
        "\<forall>t. places k (xStateListItem t) = Some (pxOverflowDelayedTaskList k) \<longrightarrow> v \<le> wake_time k t"
      using switch_lists_spec [of T "k\<lparr>xTickCount := c\<rparr>"] ok e by auto
    let ?k1 = "k\<lparr>xTickCount := c, pxDelayedTaskList := pxOverflowDelayedTaskList k, pxOverflowDelayedTaskList := pxDelayedTaskList k,
      xNumOfOverflows := xNumOfOverflows k + 1, xNextTaskUnblockTime := v\<rparr>"
    have "due c ?k1 = expires k"
      using e delayed_cases [OF ok] by (fastforce simp: fun_eq_iff due_def expires_def is_delayed_def c_def)
    moreover have "core_ok T ?k1" using v(2) by simp
    ultimately show ?thesis using v True e by (intro exI [of _ ?k1] conjI) auto
  qed
  then obtain k1 where k1: "(if c = 0 then taskSWITCH_DELAYED_LISTS abs_step (k\<lparr>xTickCount := c\<rparr>) else Some (k\<lparr>xTickCount := c\<rparr>)) = Some k1"
      "core_ok T k1" "due c k1 = expires k"
      "\<forall>t. places k1 (xStateListItem t) = Some (pxDelayedTaskList k1) \<longrightarrow> c \<le> wake_time k1 t \<and> xNextTaskUnblockTime k1 \<le> wake_time k1 t"
      "\<forall>t. places k1 (xStateListItem t) = Some (pxOverflowDelayedTaskList k1) \<longrightarrow> wake_time k1 t < c"
      "\<exists>d e n v. k1 = k\<lparr>xTickCount := c, pxDelayedTaskList := d, pxOverflowDelayedTaskList := e, xNumOfOverflows := n, xNextTaskUnblockTime := v\<rparr> \<and>
        n = (if c = 0 then xNumOfOverflows k + 1 else xNumOfOverflows k)" by blast
  have same: "lists k1 = lists k" "tcb k1 = tcb k" "pxCurrentTCB k1 = pxCurrentTCB k" "c = xTickCount k1" using k1(6) by auto
  obtain sw k' where w: "(if c \<ge> xNextTaskUnblockTime k1 then wake_loop abs_step c False k1 else Some (False, k1)) = Some (sw, k')"
      "core_ok T k'" "times_ok k'" "woken (due c k1) k1 k'" "sw \<longleftrightarrow> outranks k1 (due c k1)"
    using tick_wakes [OF k1(2) same(4) k1(4,5)] by blast
  have tk: "ticked k k'" using k1(6) by (intro woken_ticked [OF w(4) k1(3)]) (auto simp: c_def)
  then have cur': "pxCurrentTCB k' = Some cur" "tcb k' = tcb k" "xYieldPending k' = xYieldPending k" using cur by (auto simp: ticked_def)
  have "xTaskIncrementTick abs_step k =
      Some (sw \<or> of_nat (length (seq_items (lists k') (pxReadyTasksLists (prio k' cur)))) > (1 :: u32) \<or> xYieldPending k', k')"
    using s k1(1) w(1) cur' ready_list_dom [OF w(2) cur(2)]
    by (simp add: xTaskIncrementTick_def Let_def c_def [symmetric] read_results)
  moreover have "outranks k1 (due c k1) \<longleftrightarrow> outranks k (expires k)" using same k1(3) by (simp add: outranks_def)
  ultimately show ?thesis using w(2,3,5) tk cur'(3) by auto
qed

section \<open>Blocking the running task\<close>

text \<open>
  The running task is ready; its event item may already be in the list of the event that it is going to wait for, or among the tasks that are ready as
  soon as the scheduler resumes, when the event has come first.
\<close>

definition core_except :: "nat set \<Rightarrow> nat \<Rightarrow> seq_kernel \<Rightarrow> bool" where
  "core_except T c k \<longleftrightarrow>
     lists_ok T k \<and> (\<forall>t\<in>T - {c}. task_place k t) \<and> is_ready k c \<and> c \<in> T \<and>
     (places k (xEventListItem c) \<in> {None, Some xPendingReadyList} \<or> (\<exists>e. places k (xEventListItem c) = Some (event_list e))) \<and>
     bits_ok k \<and> delayed_ok k \<and> pxCurrentTCB k = Some c \<and> uxNumberOfTasks k > 0"

lemma core_exceptD:
  assumes "core_except T c k"
  shows "lists_ok T k" "\<And>t. t \<in> T \<Longrightarrow> t \<noteq> c \<Longrightarrow> task_place k t" "is_ready k c" "c \<in> T"
    "places k (xEventListItem c) \<in> {None, Some xPendingReadyList} \<or> (\<exists>e. places k (xEventListItem c) = Some (event_list e))"
    "bits_ok k" "delayed_ok k" "pxCurrentTCB k = Some c" "uxNumberOfTasks k > 0"
  using assms by (auto simp: core_except_def)

lemma core_except: "core_ok T k \<Longrightarrow> pxCurrentTCB k = Some c \<Longrightarrow> is_ready k c \<Longrightarrow> core_except T c k"
  by (auto simp: core_ok_def core_except_def task_place_def is_delayed_def is_ready_def)

lemma ready_items:
  assumes "core_except T c k" and "i \<in> set (seq_items (lists k) (pxReadyTasksLists p))"
  shows "\<exists>t\<in>T. i = xStateListItem t"
proof (cases i)
  case (xStateListItem t)
  then show ?thesis
    using assms(2) container_iff [of "lists k" i] lists_okD(1,5) [OF core_exceptD(1) [OF assms(1)]] by (cases "t \<in> T") auto
next
  case (xEventListItem t)
  then have "places k (xEventListItem t) = Some (pxReadyTasksLists p)"
    using assms(2) container_iff [of "lists k" i] lists_okD(1) [OF core_exceptD(1) [OF assms(1)]] by simp
  then show ?thesis
    using core_exceptD(2) [OF assms(1), of t] core_exceptD(5) [OF assms(1)] lists_okD(6) [OF core_exceptD(1) [OF assms(1)], of t]
    by (cases "t = c"; cases "t \<in> T") (auto simp: task_place_def)
qed

text \<open>The ready lists after the running task has left them.\<close>

definition without_current :: "nat \<Rightarrow> seq_kernel \<Rightarrow> seq_kernel \<Rightarrow> bool" where
  "without_current c k k' \<longleftrightarrow>
     k' = k\<lparr>lists := lists k', uxTopReadyPriority := uxTopReadyPriority k'\<rparr> \<and>
     replaced (pxReadyTasksLists (prio k c)) (remove1 (xStateListItem c) (seq_items (lists k) (pxReadyTasksLists (prio k c))))
       (xStateListItem c) None (lists k) (lists k') \<and> bits_ok k'"

lemma leave_ready:
  assumes ex: "core_except T c k"
  shows "\<exists>n k1. list_num abs_step (Op_Remove (xStateListItem c)) k = Some (n, k1) \<and> tcb k1 = tcb k \<and>
    without_current c k (if n = 0 then portRESET_READY_PRIORITY (uxPriority (tcb k c)) k1 else k1)"
proof -
  note E = core_exceptD [OF ex] and L = lists_okD [OF core_exceptD(1) [OF ex]]
  let ?l = "pxReadyTasksLists (prio k c)"
  define xs where "xs = seq_items (lists k) ?l"
  have pl: "places k (xStateListItem c) = Some ?l" using E(3) by (simp add: is_ready_def)
  obtain A1 where A1: "abs_step (Op_Remove (xStateListItem c)) (lists k) = Some (Num (of_nat (length xs - 1)), A1)"
      "replaced ?l (remove1 (xStateListItem c) xs) (xStateListItem c) None (lists k) A1"
    using remove_seq [OF L(1) pl] xs_def by blast
  note r = A1(2) [unfolded replaced_def]
  let ?n = "of_nat (length xs - 1) :: u32" and ?k1 = "k\<lparr>lists := A1\<rparr>"
  let ?k' = "if ?n = 0 then portRESET_READY_PRIORITY (uxPriority (tcb k c)) ?k1 else ?k1"
  have c: "xStateListItem c \<in> set xs" using pl container_iff [OF L(1)] xs_def by blast
  have d: "distinct xs" using seq_distinct [OF L(1)] xs_def by blast
  have "length xs < 2 ^ 32" using seq_length [OF E(1), of ?l] by (simp add: xs_def)
  then have "?n = 0 \<longleftrightarrow> length xs - 1 = 0" by (auto simp: word_of_nat_eq_0_iff dest: dvd_imp_le)
  also have "\<dots> \<longleftrightarrow> set xs = {xStateListItem c}"
  proof -
    have "length xs - 1 = 0 \<longleftrightarrow> card (set xs) = 1"
      using distinct_card [OF d] length_pos_if_in_set [OF c] by arith
    then show ?thesis using c by (auto simp: card_1_singleton_iff)
  qed
  finally have n0: "?n = 0 \<longleftrightarrow> set xs = {xStateListItem c}" .
  have others: "(\<exists>t. t \<noteq> c \<and> places k (xStateListItem t) = Some ?l) \<longleftrightarrow> ?n \<noteq> 0"
  proof -
    have "(\<exists>t. t \<noteq> c \<and> places k (xStateListItem t) = Some ?l) \<longleftrightarrow> (\<exists>i\<in>set xs. i \<noteq> xStateListItem c)"
      using ready_items [OF ex] container_iff [OF L(1)] xs_def by blast
    then show ?thesis using n0 c by auto
  qed
  have pl': "places ?k' (xStateListItem t) = (if t = c then None else places k (xStateListItem t))" for t
    using r by (simp add: portRESET_READY_PRIORITY_def)
  have "bit (uxTopReadyPriority ?k') p \<longleftrightarrow> (\<exists>t. places ?k' (xStateListItem t) = Some (pxReadyTasksLists p))" for p
  proof (cases "p = prio k c")
    case True
    have "bit (uxTopReadyPriority ?k') p \<longleftrightarrow> ?n \<noteq> 0" using E(6) pl True by (auto simp: bits_ok_def bit_reset)
    then show ?thesis using others True unfolding pl' by auto
  next
    case False
    have "bit (uxTopReadyPriority ?k') p \<longleftrightarrow> bit (uxTopReadyPriority k) p" using False by (simp add: bit_reset)
    moreover have "places k (xStateListItem t) = Some (pxReadyTasksLists p) \<Longrightarrow> t \<noteq> c" for t using pl False by auto
    ultimately show ?thesis using E(6) unfolding pl' by (auto simp: bits_ok_def)
  qed
  then have "without_current c k ?k'"
    using A1(2) xs_def by (simp add: without_current_def bits_ok_def portRESET_READY_PRIORITY_def)
  then show ?thesis using call_results(2) [OF A1(1)] by auto
qed

lemma blocked_core:
  assumes ex: "core_except T c k" and wc: "without_current c k k1" and l: "l \<in> {xDelayedTaskList1, xDelayedTaskList2, xSuspendedTaskList}"
    and k2: "k2 = k1\<lparr>lists := A\<rparr>" "seq_wf A" "la_owner A = la_owner (lists k1)" "dom (la_lists A) = dom (la_lists (lists k1))"
      "la_container A = (places k1)(xStateListItem c := Some l)"
    and srt: "sorted (map (la_value A) (seq_items A (pxDelayedTaskList k)))" "sorted (map (la_value A) (seq_items A (pxOverflowDelayedTaskList k)))"
  shows "core_ok T k2"
proof -
  note E = core_exceptD [OF ex] and L = lists_okD [OF core_exceptD(1) [OF ex]]
  obtain A1 b where k1: "k1 = k\<lparr>lists := A1, uxTopReadyPriority := b\<rparr>" using wc unfolding without_current_def by metis
  have w: "la_container A1 = (places k)(xStateListItem c := None)" "la_owner A1 = la_owner (lists k)" "dom (la_lists A1) = dom (la_lists (lists k))"
      "bits_ok k1"
    using wc k1 by (simp_all add: without_current_def replaced_def)
  have pl: "la_container A = (places k)(xStateListItem c := Some l)" using k2(5) w(1) k1 by (simp add: fun_eq_iff)
  have "lists_ok T k2"
  proof (rule lists_ok_update [OF E(1)])
    show "places k2 (xStateListItem t) = None" "places k2 (xEventListItem t) = None" if "t \<notin> T" for t
      using that E(4) L(5,6) [OF that] pl k2(1) by (cases "t = c"; simp)+
  qed (use k1 k2 w(2,3) in simp_all)
  moreover have "task_place k2 t" if "t \<in> T" for t
  proof -
    have same: "places k2 = (places k)(xStateListItem c := Some l)" "tcb k2 = tcb k" using pl k1 k2(1) by simp_all
    show ?thesis
    proof (cases "t = c")
      case True
      then show ?thesis using E(5) l by (auto simp: task_place_def is_delayed_def same)
    next
      case False
      then show ?thesis using E(2) [OF that] by (simp add: task_place_def is_ready_def is_delayed_def same)
    qed
  qed
  moreover have "bits_ok k2"
  proof -
    have "places k2 (xStateListItem t) = Some (pxReadyTasksLists p) \<longleftrightarrow> places k1 (xStateListItem t) = Some (pxReadyTasksLists p)" for t p
      using k2(1,5) l w(1) k1 by (cases "t = c") auto
    then show ?thesis using w(4) k2(1) by (simp add: bits_ok_def)
  qed
  moreover have "delayed_ok k2" using E(7) srt k1 k2(1) by (simp add: delayed_ok_def)
  ultimately show ?thesis using E(4,8,9) k1 k2(1) by (simp add: core_ok_def)
qed

lemma except_dom:
  assumes "core_except T c k"
  shows "pxDelayedTaskList k \<in> dom (la_lists (lists k))" "pxOverflowDelayedTaskList k \<in> dom (la_lists (lists k))"
    "xSuspendedTaskList \<in> dom (la_lists (lists k))"
proof -
  have "kernel_list (pxDelayedTaskList k)" "kernel_list (pxOverflowDelayedTaskList k)" "kernel_list xSuspendedTaskList"
    using core_exceptD(7) [OF assms] by (auto simp: delayed_ok_def kernel_list_def)
  then show "pxDelayedTaskList k \<in> dom (la_lists (lists k))" "pxOverflowDelayedTaskList k \<in> dom (la_lists (lists k))"
    "xSuspendedTaskList \<in> dom (la_lists (lists k))"
    using lists_okD(2) [OF core_exceptD(1) [OF assms]] by blast+
qed

text \<open>Insertion of the running task into one of the lists of delayed tasks.\<close>

lemma insert_delayed:
  assumes ex: "core_except T c k" and wc: "without_current c k k1" and l: "l \<in> {pxDelayedTaskList k, pxOverflowDelayedTaskList k}"
  shows "\<exists>k2. Option.bind (list_do abs_step (Op_SetValue (xStateListItem c) v) k1) (list_do abs_step (Op_Insert l (xStateListItem c))) = Some k2 \<and>
    core_ok T k2 \<and> k2 = k\<lparr>lists := lists k2, uxTopReadyPriority := uxTopReadyPriority k2\<rparr> \<and>
    places k2 = (places k)(xStateListItem c := Some l) \<and> la_value (lists k2) = (la_value (lists k))(xStateListItem c := v)"
proof -
  note E = core_exceptD [OF ex] and L = lists_okD [OF core_exceptD(1) [OF ex]] and w = wc [unfolded without_current_def replaced_def]
  obtain A1 b where k1: "k1 = k\<lparr>lists := A1, uxTopReadyPriority := b\<rparr>" using wc unfolding without_current_def by metis
  define A2 where "A2 = A1\<lparr>la_value := (la_value A1)(xStateListItem c := v)\<rparr>"
  have a2: "la_lists A2 = la_lists A1" "la_container A2 = la_container A1" "la_owner A2 = la_owner A1" "seq_items A2 = seq_items A1"
    "la_value A2 = (la_value (lists k))(xStateListItem c := v)"
    using w k1 by (simp_all add: A2_def seq_items_def fun_eq_iff)
  have "seq_wf A1" using w k1 by simp
  then have wf2: "seq_wf A2" by (simp add: seq_wf_def seq_items_def A2_def)
  have l2: "l \<in> {xDelayedTaskList1, xDelayedTaskList2}" using l E(7) by (auto simp: delayed_ok_def)
  have items: "seq_items A1 x = seq_items (lists k) x" if "x \<in> {pxDelayedTaskList k, pxOverflowDelayedTaskList k}" for x
    using w k1 that E(7) by (auto simp: delayed_ok_def)
  have dom: "l \<in> dom (la_lists A2)" using except_dom [OF ex] l w k1 a2 by auto
  obtain A3 where A3: "abs_step (Op_Insert l (xStateListItem c)) A2 = Some (Nothing, A3)"
      "replaced l (takeWhile (\<lambda>j. la_value A2 j \<le> la_value A2 (xStateListItem c)) (seq_items A2 l) @ xStateListItem c #
         dropWhile (\<lambda>j. la_value A2 j \<le> la_value A2 (xStateListItem c)) (seq_items A2 l)) (xStateListItem c) (Some l) A2 A3"
    using insert_seq [OF wf2 _ dom, of "xStateListItem c"] w k1 a2 items [OF l] seq_length [OF E(1), of l] by auto
  note r = A3(2) [unfolded replaced_def]
  have nc: "xStateListItem c \<notin> set (seq_items A2 x)" for x using container_iff [OF wf2, of "xStateListItem c" x] a2 w k1 by auto
  have srt2: "sorted (map (la_value A2) (seq_items A2 x))" if x: "x \<in> {pxDelayedTaskList k, pxOverflowDelayedTaskList k}" for x
  proof -
    have "map (la_value A2) (seq_items A2 x) = map (la_value (lists k)) (seq_items (lists k) x)"
      using nc [of x] items [OF x] a2 by (auto intro!: map_cong)
    then show ?thesis using E(7) x by (auto simp: delayed_ok_def)
  qed
  have srt: "sorted (map (la_value A3) (seq_items A3 x))" if x: "x \<in> {pxDelayedTaskList k, pxOverflowDelayedTaskList k}" for x
    using r srt2 [OF x] sorted_insert [OF srt2 [OF x], of "xStateListItem c"] by (cases "x = l") auto
  let ?k2 = "k1\<lparr>lists := A3\<rparr>"
  have ok: "core_ok T ?k2"
    using r a2 w k1 srt l2 by (intro blocked_core [OF ex wc _ refl]) auto
  have s: "abs_step (Op_SetValue (xStateListItem c) v) A1 = Some (Nothing, A2)" by (simp add: abs_step_def A2_def)
  have "list_do abs_step (Op_SetValue (xStateListItem c) v) k1 = Some (k1\<lparr>lists := A2\<rparr>)"
    using s k1 call_results(1) [of "Op_SetValue (xStateListItem c) v" k1] by simp
  moreover have "list_do abs_step (Op_Insert l (xStateListItem c)) (k1\<lparr>lists := A2\<rparr>) = Some ?k2"
    using A3(1) call_results(1) [of "Op_Insert l (xStateListItem c)" "k1\<lparr>lists := A2\<rparr>"] by simp
  ultimately show ?thesis using ok r a2 w k1 by (intro exI [of _ ?k2]) (auto simp: fun_eq_iff)
qed

end
