(* ===== verification/KernelDelay.thy ===== *)
theory KernelDelay
  imports KernelSched
begin

text \<open>
  Blocking, resuming and switching: the specifications of the remaining functions of the scheduler, the invariant over all histories, exact delays
  and the choice of the running task.
\<close>

section \<open>Blocking\<close>

definition blocked_in :: "nat \<Rightarrow> list_id \<Rightarrow> (item \<Rightarrow> u32) \<Rightarrow> seq_kernel \<Rightarrow> seq_kernel \<Rightarrow> bool" where
  "blocked_in c l vals k k' \<longleftrightarrow>
     places k' = (places k)(xStateListItem c := Some l) \<and> la_value (lists k') = vals \<and>
     k' = k\<lparr>lists := lists k', uxTopReadyPriority := uxTopReadyPriority k', xNextTaskUnblockTime := xNextTaskUnblockTime k'\<rparr>"

lemma block_delayed:
  assumes ex: "core_except T c k" and tm: "times_ok k" and n: "n \<noteq> 0" and nb: "\<not> (n = portMAX_DELAY \<and> b)"
  shows "\<exists>l k'. prvAddCurrentTaskToDelayedList abs_step n b k = Some k' \<and> core_ok T k' \<and> times_ok k' \<and>
    l \<in> {pxDelayedTaskList k, pxOverflowDelayedTaskList k} \<and>
    blocked_in c l ((la_value (lists k))(xStateListItem c := xTickCount k + n)) k k'"
proof -
  note E = core_exceptD [OF ex]
  let ?v = "xTickCount k + n"
  obtain m k0 where k0: "list_num abs_step (Op_Remove (xStateListItem c)) k = Some (m, k0)" "tcb k0 = tcb k"
      "without_current c k (if m = 0 then portRESET_READY_PRIORITY (uxPriority (tcb k c)) k0 else k0)"
    using leave_ready [OF ex] by blast
  let ?k1 = "if m = 0 then portRESET_READY_PRIORITY (uxPriority (tcb k c)) k0 else k0"
  obtain A1 b1 where k1: "?k1 = k\<lparr>lists := A1, uxTopReadyPriority := b1\<rparr>" using k0(3) unfolding without_current_def by metis
  define l where "l = (if ?v < xTickCount k then pxOverflowDelayedTaskList k else pxDelayedTaskList k)"
  have l: "l \<in> {pxDelayedTaskList k, pxOverflowDelayedTaskList k}" by (simp add: l_def)
  obtain k2 where k2: "Option.bind (list_do abs_step (Op_SetValue (xStateListItem c) ?v) ?k1) (list_do abs_step (Op_Insert l (xStateListItem c))) = Some k2"
      "core_ok T k2" "k2 = k\<lparr>lists := lists k2, uxTopReadyPriority := uxTopReadyPriority k2\<rparr>"
      "places k2 = (places k)(xStateListItem c := Some l)" "la_value (lists k2) = (la_value (lists k))(xStateListItem c := ?v)"
    using insert_delayed [OF ex k0(3) l, of ?v] by blast
  obtain A2 b2 where k2': "k2 = k\<lparr>lists := A2, uxTopReadyPriority := b2\<rparr>" using k2(3) by metis
  let ?k3 = "if \<not> ?v < xTickCount k \<and> ?v < xNextTaskUnblockTime k then k2\<lparr>xNextTaskUnblockTime := ?v\<rparr> else k2"
  have run: "prvAddCurrentTaskToDelayedList abs_step n b k = Some ?k3"
  proof -
    obtain kv where kv: "list_do abs_step (Op_SetValue (xStateListItem c) ?v) ?k1 = Some kv" "list_do abs_step (Op_Insert l (xStateListItem c)) kv = Some k2"
      using k2(1) by (auto simp: bind_eq_Some_conv)
    have same: "xTickCount kv = xTickCount k" "pxDelayedTaskList kv = pxDelayedTaskList k" "pxOverflowDelayedTaskList kv = pxOverflowDelayedTaskList k"
      using kv(1) k1 by (auto simp: list_do_def list_call_def)
    have "xTickCount ?k1 = xTickCount k" using k1 by simp
    moreover have "xNextTaskUnblockTime k2 = xNextTaskUnblockTime k" using k2' by simp
    ultimately show ?thesis
      using E(8) k0(1,2) nb kv same by (auto simp: prvAddCurrentTaskToDelayedList_def Let_def l_def)
  qed
  have tms: "times_ok ?k3"
  proof -
    have o: "pxDelayedTaskList k \<noteq> pxOverflowDelayedTaskList k" using E(7) by (auto simp: delayed_ok_def)
    have lt: "xTickCount k < ?v" if "\<not> ?v < xTickCount k" unfolding order_less_le using that n by (simp add: not_less)
    show ?thesis
    proof (cases "?v < xTickCount k")
      case True
      then show ?thesis using tm o k2(4,5) k2' by (auto simp: times_ok_def l_def)
    next
      case False
      then show ?thesis using tm o k2(4,5) k2' lt [OF False] by (auto simp: times_ok_def l_def)
    qed
  qed
  have "blocked_in c l ((la_value (lists k))(xStateListItem c := ?v)) k ?k3"
    using k2(4,5) k2' by (simp add: blocked_in_def)
  then show ?thesis using run tms k2(2) l by (intro exI [of _ l] exI [of _ ?k3]) simp
qed

lemma block_for_ever:
  assumes ex: "core_except T c k" and tm: "times_ok k"
  shows "\<exists>k'. prvAddCurrentTaskToDelayedList abs_step portMAX_DELAY True k = Some k' \<and> core_ok T k' \<and> times_ok k' \<and>
    blocked_in c xSuspendedTaskList (la_value (lists k)) k k'"
proof -
  note E = core_exceptD [OF ex]
  obtain m k0 where k0: "list_num abs_step (Op_Remove (xStateListItem c)) k = Some (m, k0)" "tcb k0 = tcb k"
      "without_current c k (if m = 0 then portRESET_READY_PRIORITY (uxPriority (tcb k c)) k0 else k0)"
    using leave_ready [OF ex] by blast
  let ?k1 = "if m = 0 then portRESET_READY_PRIORITY (uxPriority (tcb k c)) k0 else k0"
  obtain A1 b1 where k1: "?k1 = k\<lparr>lists := A1, uxTopReadyPriority := b1\<rparr>" using k0(3) unfolding without_current_def by metis
  have w: "seq_wf A1" "la_container A1 = (places k)(xStateListItem c := None)" "la_owner A1 = la_owner (lists k)" "la_value A1 = la_value (lists k)"
      "dom (la_lists A1) = dom (la_lists (lists k))"
      "seq_items A1 = (seq_items (lists k))(pxReadyTasksLists (prio k c) :=
         remove1 (xStateListItem c) (seq_items (lists k) (pxReadyTasksLists (prio k c))))"
    using k0(3) unfolding k1 by (simp_all add: without_current_def replaced_def)
  obtain A2 ys zs where A2: "abs_step (Op_InsertEnd xSuspendedTaskList (xStateListItem c)) A1 = Some (Nothing, A2)"
      "replaced xSuspendedTaskList (ys @ xStateListItem c # zs) (xStateListItem c) (Some xSuspendedTaskList) A1 A2"
    using insert_end_seq [OF w(1), of "xStateListItem c" xSuspendedTaskList] w except_dom(3) [OF ex] seq_length [OF E(1), of xSuspendedTaskList] by auto
  note r = A2(2) [unfolded replaced_def]
  let ?k2 = "?k1\<lparr>lists := A2\<rparr>"
  have names: "xSuspendedTaskList \<notin> {pxDelayedTaskList k, pxOverflowDelayedTaskList k}" "pxReadyTasksLists p \<notin> {pxDelayedTaskList k, pxOverflowDelayedTaskList k}" for p
    using E(7) by (auto simp: delayed_ok_def)
  have ok: "core_ok T ?k2"
    by (rule blocked_core [OF ex k0(3) _ refl]) (use r w k1 names E(7) in \<open>auto simp: delayed_ok_def\<close>)
  have "list_do abs_step (Op_InsertEnd xSuspendedTaskList (xStateListItem c)) ?k1 = Some ?k2"
    using A2(1) k1 call_results(1) [of "Op_InsertEnd xSuspendedTaskList (xStateListItem c)" ?k1] by simp
  then have run: "prvAddCurrentTaskToDelayedList abs_step portMAX_DELAY True k = Some ?k2"
    using E(8) k0(1,2) by (cases "m = 0") (simp_all add: prvAddCurrentTaskToDelayedList_def Let_def)
  have k2: "?k2 = k\<lparr>lists := A2, uxTopReadyPriority := b1\<rparr>" using k1 by simp
  have "places ?k2 = (places k)(xStateListItem c := Some xSuspendedTaskList)" "la_value (lists ?k2) = la_value (lists k)" using r w by auto
  moreover have "times_ok ?k2" using tm r w names unfolding k2 by (auto simp: times_ok_def)
  ultimately show ?thesis using run ok k2 by (intro exI [of _ ?k2]) (simp add: blocked_in_def)
qed

text \<open>Both cases, for a task that delays itself and for one that waits for an event.\<close>

lemma block_spec:
  assumes ex: "core_except T c k" and tm: "times_ok k" and n: "n \<noteq> 0"
  shows "\<exists>l vals k'. prvAddCurrentTaskToDelayedList abs_step n b k = Some k' \<and> core_ok T k' \<and> times_ok k' \<and> blocked_in c l vals k k' \<and>
    (if n = portMAX_DELAY \<and> b then l = xSuspendedTaskList \<and> vals = la_value (lists k)
     else l \<in> {xDelayedTaskList1, xDelayedTaskList2} \<and> vals = (la_value (lists k))(xStateListItem c := xTickCount k + n))"
proof (cases "n = portMAX_DELAY \<and> b")
  case True
  then show ?thesis using block_for_ever [OF ex tm] by auto
next
  case False
  have "{pxDelayedTaskList k, pxOverflowDelayedTaskList k} = {xDelayedTaskList1, xDelayedTaskList2}"
    using core_exceptD(7) [OF ex] by (auto simp: delayed_ok_def)
  then show ?thesis using block_delayed [OF ex tm n False] False by (metis (no_types, lifting))
qed

lemma insert_event:
  assumes ok: "core_ok T k" and c: "pxCurrentTCB k = Some c" "is_ready k c"
  shows "\<exists>A. list_do abs_step (Op_Insert (event_list e) (xEventListItem c)) k = Some (k\<lparr>lists := A\<rparr>) \<and> core_except T c (k\<lparr>lists := A\<rparr>) \<and>
    la_container A = (places k)(xEventListItem c := Some (event_list e)) \<and> la_value A = la_value (lists k)"
proof -
  note D = core_okD [OF ok]
  have cT: "c \<in> T" using D(13) c(1) by auto
  have free: "places k (xEventListItem c) = None" using D(10) [OF cT] c(2) by (auto simp: task_place_def is_ready_def is_delayed_def)
  have dom: "event_list e \<in> dom (la_lists (lists k))" by (rule D(2)) (simp add: kernel_list_def)
  obtain A where A: "abs_step (Op_Insert (event_list e) (xEventListItem c)) (lists k) = Some (Nothing, A)"
      "replaced (event_list e) (takeWhile (\<lambda>j. la_value (lists k) j \<le> la_value (lists k) (xEventListItem c)) (seq_items (lists k) (event_list e)) @
         xEventListItem c # dropWhile (\<lambda>j. la_value (lists k) j \<le> la_value (lists k) (xEventListItem c)) (seq_items (lists k) (event_list e)))
        (xEventListItem c) (Some (event_list e)) (lists k) A"
    using insert_seq [OF D(1) free dom seq_length [OF core_lists [OF ok]]] by blast
  note r = A(2) [unfolded replaced_def]
  let ?k = "k\<lparr>lists := A\<rparr>"
  have pl: "places ?k = (places k)(xEventListItem c := Some (event_list e))" using r by simp
  have "lists_ok T ?k"
    by (rule lists_ok_update [OF core_lists [OF ok]]) (use r D(5,6) cT in auto)
  moreover have "task_place ?k t" if "t \<in> T" "t \<noteq> c" for t
    using D(10) [OF that(1)] that(2) pl by (simp add: task_place_def is_ready_def is_delayed_def)
  moreover have "bits_ok ?k" using D(11) pl by (simp add: bits_ok_def)
  moreover have "delayed_ok ?k" using D(12) r by (auto simp: delayed_ok_def)
  ultimately have "core_except T c ?k" using c cT D(14) pl by (simp add: core_except_def is_ready_def)
  then show ?thesis using call_results(1) [OF A(1)] r by auto
qed

lemma wait_spec:
  assumes ok: "core_ok T k" and tm: "times_ok k" and c: "pxCurrentTCB k = Some c" "is_ready k c" and n: "n \<noteq> 0"
  shows "\<exists>k' l. vTaskPlaceOnEventList abs_step (event_list e) n k = Some k' \<and> core_ok T k' \<and> times_ok k' \<and>
    places k' = (places k)(xEventListItem c := Some (event_list e), xStateListItem c := Some l) \<and>
    (\<forall>t. t \<noteq> c \<longrightarrow> wake_time k' t = wake_time k t) \<and> l \<in> {xDelayedTaskList1, xDelayedTaskList2, xSuspendedTaskList} \<and>
    k' = k\<lparr>lists := lists k', uxTopReadyPriority := uxTopReadyPriority k', xNextTaskUnblockTime := xNextTaskUnblockTime k'\<rparr>"
proof -
  obtain A where A: "list_do abs_step (Op_Insert (event_list e) (xEventListItem c)) k = Some (k\<lparr>lists := A\<rparr>)" "core_except T c (k\<lparr>lists := A\<rparr>)"
      "la_container A = (places k)(xEventListItem c := Some (event_list e))" "la_value A = la_value (lists k)"
    using insert_event [OF ok c] by blast
  have "times_ok (k\<lparr>lists := A\<rparr>)" using tm A(3,4) by (simp add: times_ok_def)
  then obtain l vals k' where k': "prvAddCurrentTaskToDelayedList abs_step n True (k\<lparr>lists := A\<rparr>) = Some k'" "core_ok T k'" "times_ok k'"
      "blocked_in c l vals (k\<lparr>lists := A\<rparr>) k'"
      "if n = portMAX_DELAY \<and> True then l = xSuspendedTaskList \<and> vals = la_value (lists (k\<lparr>lists := A\<rparr>))
       else l \<in> {xDelayedTaskList1, xDelayedTaskList2} \<and>
         vals = (la_value (lists (k\<lparr>lists := A\<rparr>)))(xStateListItem c := xTickCount (k\<lparr>lists := A\<rparr>) + n)"
    using block_spec [OF A(2) _ n, of True] by blast
  have l: "l \<in> {xDelayedTaskList1, xDelayedTaskList2, xSuspendedTaskList}" using k'(5) by (auto split: if_splits)
  have run: "vTaskPlaceOnEventList abs_step (event_list e) n k = Some k'" using c(1) A(1) k'(1) by (simp add: vTaskPlaceOnEventList_def)
  have k: "places k' = (places k)(xEventListItem c := Some (event_list e), xStateListItem c := Some l)"
      "k' = k\<lparr>lists := lists k', uxTopReadyPriority := uxTopReadyPriority k', xNextTaskUnblockTime := xNextTaskUnblockTime k'\<rparr>"
    using k'(4) A(3) by (simp_all add: blocked_in_def)
  have v: "\<forall>t. t \<noteq> c \<longrightarrow> wake_time k' t = wake_time k t" using k'(4,5) A(4) by (auto simp: blocked_in_def split: if_splits)
  show ?thesis using run k'(2,3) l v k by blast
qed

section \<open>Resuming the scheduler\<close>

definition pending :: "seq_kernel \<Rightarrow> nat \<Rightarrow> bool" where
  "pending k t \<longleftrightarrow> places k (xEventListItem t) = Some xPendingReadyList"

lemma pending_item:
  assumes ok: "core_ok T k" and i: "places k i = Some xPendingReadyList"
  shows "\<exists>t\<in>T. i = xEventListItem t"
proof (cases i)
  case (xStateListItem t)
  then show ?thesis using i core_okD(5,10) [OF ok, of t] by (cases "t \<in> T") (auto simp: task_place_def is_ready_def is_delayed_def)
next
  case (xEventListItem t)
  then show ?thesis using i core_okD(6) [OF ok, of t] by (cases "t \<in> T") auto
qed

lemma pending_list_dom: "core_ok T k \<Longrightarrow> xPendingReadyList \<in> dom (la_lists (lists k))"
  by (rule core_okD(2)) (simp_all add: kernel_list_def)

lemma event_not_ready: "core_ok T k \<Longrightarrow> t \<in> T \<Longrightarrow> places k (xEventListItem t) \<noteq> None \<Longrightarrow> \<not> is_ready k t"
  using core_okD(10) [of T k t] by (auto simp: task_place_def is_ready_def is_delayed_def)

lemma signalled_task:
  assumes ok: "core_ok T k" and t: "t \<in> T" and e: "places k (xEventListItem t) = Some le"
  shows "\<exists>k1 k2 k'. list_do abs_step (Op_Remove (xEventListItem t)) k = Some k1 \<and> k1 = k\<lparr>lists := lists k1\<rparr> \<and>
    replaced le (remove1 (xEventListItem t) (seq_items (lists k) le)) (xEventListItem t) None (lists k) (lists k1) \<and>
    list_do abs_step (Op_Remove (xStateListItem t)) k1 = Some k2 \<and> prvAddTaskToReadyList abs_step t k2 = Some k' \<and> readied T t k k'"
proof -
  have nr: "\<not> is_ready k t" using event_not_ready [OF ok t] e by simp
  obtain l where l: "places k (xStateListItem t) = Some l" using not_ready_place [OF ok t nr] by auto
  obtain k1 k2 where d: "list_do abs_step (Op_Remove (xEventListItem t)) k = Some k1" "k1 = k\<lparr>lists := lists k1\<rparr>"
      "replaced le (remove1 (xEventListItem t) (seq_items (lists k) le)) (xEventListItem t) None (lists k) (lists k1)"
      "list_do abs_step (Op_Remove (xStateListItem t)) k1 = Some k2" "detached t k k2"
    using detach_event_state [OF ok l e] by blast
  then show ?thesis using add_ready [OF ok t nr d(5)] by blast
qed

definition resumed :: "(nat \<Rightarrow> bool) \<Rightarrow> seq_kernel \<Rightarrow> seq_kernel \<Rightarrow> bool" where
  "resumed W k k' \<longleftrightarrow>
     places k' = ready_places W k \<and> la_value (lists k') = la_value (lists k) \<and>
     k' = k\<lparr>lists := lists k', uxTopReadyPriority := uxTopReadyPriority k', xYieldPending := xYieldPending k'\<rparr> \<and>
     (xYieldPending k' \<longleftrightarrow> xYieldPending k \<or> outranks k W)"

lemma resumed_frame:
  "k1 = k\<lparr>lists := a, uxTopReadyPriority := b\<rparr> \<Longrightarrow> k2 = k1\<lparr>xYieldPending := f\<rparr> \<Longrightarrow>
    k3 = k2\<lparr>lists := c, uxTopReadyPriority := d, xYieldPending := e\<rparr> \<Longrightarrow>
    k3 = k\<lparr>lists := c, uxTopReadyPriority := d, xYieldPending := e\<rparr>"
  by simp

lemma pending_set:
  assumes "core_ok T k"
  shows "length (seq_items (lists k) xPendingReadyList) = card {i. places k i = Some xPendingReadyList}"
proof -
  have "{i. places k i = Some xPendingReadyList} = set (seq_items (lists k) xPendingReadyList)"
    using container_iff [OF core_okD(1) [OF assms]] by auto
  then show ?thesis using distinct_card [OF seq_distinct [OF core_okD(1) [OF assms]]] by simp
qed

lemma pending_loop_spec:
  assumes "core_ok T k"
  shows "\<exists>r k'. pending_loop abs_step r0 k = Some (r, k') \<and> core_ok T k' \<and> resumed (pending k) k k' \<and> (r = None \<longrightarrow> r0 = None)"
  using assms
proof (induction "length (seq_items (lists k) xPendingReadyList)" arbitrary: k r0)
  case 0
  have e: "seq_items (lists k) xPendingReadyList = []" using 0(1) by simp
  then have none: "\<not> pending k t" for t using container_iff [OF core_okD(1) [OF 0(2)], of "xEventListItem t" xPendingReadyList] by (simp add: pending_def)
  have "resumed (pending k) k k"
    using none by (simp add: resumed_def ready_places_def outranks_def fun_eq_iff split: item.splits)
  moreover have "pending_loop abs_step r0 k = Some (r0, k)"
    using e pending_list_dom [OF 0(2)] by (subst pending_loop.simps) (simp add: read_results)
  ultimately show ?case using 0(2) by blast
next
  case (Suc n)
  note ok = Suc.prems and D = core_okD [OF Suc.prems]
  obtain i xs where items: "seq_items (lists k) xPendingReadyList = i # xs" using Suc.hyps(2) by (cases "seq_items (lists k) xPendingReadyList") auto
  then have pi: "places k i = Some xPendingReadyList" using container_iff [OF D(1), of i] by simp
  then obtain t where t: "t \<in> T" "i = xEventListItem t" using pending_item [OF ok] by blast
  obtain k1 k2 k3 where k: "list_do abs_step (Op_Remove (xEventListItem t)) k = Some k1"
      "list_do abs_step (Op_Remove (xStateListItem t)) k1 = Some k2" "prvAddTaskToReadyList abs_step t k2 = Some k3" "readied T t k k3"
    using signalled_task [OF ok t(1)] pi t(2) by blast
  note r = readied_simps [OF k(4)]
  obtain cur where cur: "pxCurrentTCB k = Some cur" using D(13) by blast
  let ?k4 = "if uxPriority (tcb k t) > uxPriority (tcb k cur) then k3\<lparr>xYieldPending := True\<rparr> else k3"
  have k4: "?k4 = k3\<lparr>xYieldPending := xYieldPending k \<or> uxPriority (tcb k t) > uxPriority (tcb k cur)\<rparr>" using r(9) by simp
  have own: "la_owner (lists k) i = t" using D(8) t by simp
  have run: "pending_loop abs_step r0 k = pending_loop abs_step (Some t) ?k4"
    using items pending_list_dom [OF ok] own k cur r(2,3) by (subst pending_loop.simps) (simp add: read_results)
  have ok4: "core_ok T ?k4" unfolding k4 using r(1) by simp
  have "{j. places ?k4 j = Some xPendingReadyList} = {j. places k j = Some xPendingReadyList} - {i}"
    unfolding k4 using r(15) t(2) pending_item [OF ok, of "xStateListItem t"] by auto
  moreover have "finite {j. places k j = Some xPendingReadyList}"
    using container_iff [OF D(1)] by simp
  ultimately have "n = length (seq_items (lists ?k4) xPendingReadyList)"
    unfolding pending_set [OF ok4] using Suc.hyps(2) pi by (simp add: pending_set [OF ok])
  then obtain rr k' where IH: "pending_loop abs_step (Some t) ?k4 = Some (rr, k')" "core_ok T k'" "resumed (pending ?k4) ?k4 k'" "rr = None \<longrightarrow> Some t = None"
    using Suc.hyps(1) [OF _ ok4] by blast
  have pend4: "pending ?k4 u \<longleftrightarrow> pending k u \<and> u \<noteq> t" for u unfolding k4 using r(15) by (auto simp: pending_def)
  have pt: "pending k t" using pi t by (simp add: pending_def)
  have "ready_places (pending ?k4) ?k4 = ready_places (pending k) k"
    unfolding fun_eq_iff ready_places_def pend4 unfolding k4 using r(2,15) pt by (auto split: item.splits)
  moreover have "xYieldPending ?k4 \<or> outranks ?k4 (pending ?k4) \<longleftrightarrow> xYieldPending k \<or> outranks k (pending k)"
    unfolding outranks_def pend4 unfolding k4 using r(2,3) cur pt by auto
  moreover have "k3 = k\<lparr>lists := lists k3, uxTopReadyPriority := uxTopReadyPriority k3\<rparr>" using k(4) by (simp add: readied_def)
  moreover have "la_value (lists ?k4) = la_value (lists k)" unfolding k4 using r(16) by simp
  ultimately have "resumed (pending k) k k'" using IH(3) resumed_frame [OF _ k4] unfolding resumed_def by metis
  then show ?case using run IH by auto
qed

text \<open>The tasks whose delay ends within the next \<open>n\<close> ticks.\<close>

definition within :: "nat \<Rightarrow> seq_kernel \<Rightarrow> nat \<Rightarrow> bool" where
  "within n k t \<longleftrightarrow> is_delayed k t \<and> unat (wake_time k t - xTickCount k) \<le> n"

definition ticks_done :: "nat \<Rightarrow> seq_kernel \<Rightarrow> seq_kernel \<Rightarrow> bool" where
  "ticks_done n k k' \<longleftrightarrow>
     places k' = ready_places (within n k) k \<and> la_value (lists k') = la_value (lists k) \<and> xTickCount k' = xTickCount k + of_nat n \<and>
     tcb k' = tcb k \<and> pxCurrentTCB k' = pxCurrentTCB k \<and> uxNumberOfTasks k' = uxNumberOfTasks k \<and> xSchedulerRunning k' = xSchedulerRunning k \<and>
     xPendedTicks k' = xPendedTicks k \<and> uxSchedulerSuspended k' = uxSchedulerSuspended k \<and> pendsv k' = pendsv k \<and>
     (xYieldPending k \<or> outranks k (within n k) \<longrightarrow> xYieldPending k')"

lemma remaining_pos:
  assumes "core_ok T k" and "times_ok k" and "is_delayed k t"
  shows "wake_time k t - xTickCount k \<noteq> 0"
proof -
  have "places k (xStateListItem t) \<in> {Some (pxDelayedTaskList k), Some (pxOverflowDelayedTaskList k)}"
    using assms(3) delayed_cases [OF assms(1)] by (auto simp: is_delayed_def)
  then show ?thesis using assms(2) by (auto simp: times_ok_def)
qed

lemma expires_remaining: "expires k t \<longleftrightarrow> is_delayed k t \<and> wake_time k t - xTickCount k = 1"
  by (auto simp: expires_def diff_eq_eq add.commute)

lemma delayed_after:
  assumes "places k' = ready_places W k"
  shows "is_delayed k' t \<longleftrightarrow> is_delayed k t \<and> \<not> W t"
  using assms by (auto simp: is_delayed_def ready_places_def)

lemma unat_minus_one': "x \<noteq> 0 \<Longrightarrow> unat (x - 1 :: u32) = unat x - 1"
  using unat_diff_le [of 1 x] by (simp add: word_le_nat_alt Suc_le_eq unat_gt_0)

lemma within_Suc:
  assumes ok: "core_ok T k" and tm: "times_ok k" and tk: "ticked k k1"
  shows "within (Suc n) k t \<longleftrightarrow> expires k t \<or> within n k1 t"
proof -
  have d1: "is_delayed k1 t \<longleftrightarrow> is_delayed k t \<and> \<not> expires k t" using tk by (intro delayed_after) (simp add: ticked_def)
  let ?r = "wake_time k t - xTickCount k"
  have r1: "wake_time k1 t - xTickCount k1 = ?r - 1" using tk by (simp add: ticked_def algebra_simps)
  show ?thesis
  proof (cases "is_delayed k t")
    case True
    then have r: "?r \<noteq> 0" by (rule remaining_pos [OF ok tm])
    have "unat ?r \<le> Suc n \<longleftrightarrow> ?r = 1 \<or> unat (?r - 1) \<le> n"
      using unat_minus_one' [OF r] by (cases "?r = 1") auto
    then show ?thesis using True d1 r1 by (auto simp: within_def expires_remaining)
  qed (use d1 in \<open>auto simp: within_def expires_def\<close>)
qed

lemma ready_places_Suc:
  assumes "places k1 = ready_places V k" and "tcb k1 = tcb k" and "\<And>t. W t \<longleftrightarrow> V t \<or> U t"
  shows "ready_places U k1 = ready_places W k"
  using assms by (auto simp: ready_places_def fun_eq_iff split: item.splits)

lemma pended_ticks_spec:
  assumes "core_ok T k" and "times_ok k" and "uxSchedulerSuspended k = 0"
  shows "\<exists>k'. pended_ticks abs_step n k = Some k' \<and> core_ok T k' \<and> times_ok k' \<and> ticks_done n k k'"
  using assms
proof (induction n arbitrary: k)
  case 0
  have "\<not> within 0 k t" for t using remaining_pos [OF 0(1,2), of t] by (auto simp: within_def unat_eq_0)
  then have "ticks_done 0 k k" by (simp add: ticks_done_def ready_places_def outranks_def fun_eq_iff split: item.splits)
  then show ?case using 0 by auto
next
  case (Suc n)
  obtain sw k1 where k1: "xTaskIncrementTick abs_step k = Some (sw, k1)" "core_ok T k1" "times_ok k1" "ticked k k1"
      "outranks k (expires k) \<or> xYieldPending k \<longrightarrow> sw"
    using tick_spec [OF Suc.prems] by blast
  let ?k2 = "if sw then k1\<lparr>xYieldPending := True\<rparr> else k1"
  obtain y where k2: "?k2 = k1\<lparr>xYieldPending := y\<rparr>" "xYieldPending k1 \<or> sw \<longrightarrow> y" using that [of "sw \<or> xYieldPending k1"] by (cases sw) simp_all
  have s2: "uxSchedulerSuspended ?k2 = 0" "times_ok ?k2" "core_ok T ?k2" unfolding k2(1) using k1 Suc.prems(3) by (auto simp: ticked_def times_ok_def)
  obtain k' where k': "pended_ticks abs_step n ?k2 = Some k'" "core_ok T k'" "times_ok k'" "ticks_done n ?k2 k'"
    using Suc.IH [OF s2(3,2,1)] by blast
  have w: "within n ?k2 = within n k1" unfolding k2(1) by (simp add: within_def is_delayed_def fun_eq_iff)
  have step: "within (Suc n) k t \<longleftrightarrow> expires k t \<or> within n k1 t" for t by (rule within_Suc [OF Suc.prems(1,2) k1(4)])
  have pl: "ready_places (within n k1) k1 = ready_places (within (Suc n) k) k"
    using k1(4) by (intro ready_places_Suc [where V = "expires k"] step) (simp_all add: ticked_def)
  have pl2: "ready_places (within n ?k2) ?k2 = ready_places (within n k1) k1"
    unfolding w by (simp add: ready_places_def fun_eq_iff split: item.splits)
  have o: "outranks k (within (Suc n) k) \<longleftrightarrow> outranks k (expires k) \<or> outranks ?k2 (within n ?k2)"
    unfolding w unfolding k2(1) using k1(4) step by (auto simp: outranks_def ticked_def)
  have y: "xYieldPending ?k2 = y" using k2(1) by simp
  have "xYieldPending k \<or> outranks k (within (Suc n) k) \<longrightarrow> xYieldPending k'"
    using k'(4) o k1(5) k2(2) unfolding ticks_done_def y by auto
  then have "ticks_done (Suc n) k k'"
    using k'(4) k1(4) pl pl2 unfolding ticks_done_def k2(1) ticked_def by (simp add: algebra_simps)
  then show ?case using k1(1) k' by auto
qed

definition resumed_all :: "seq_kernel \<Rightarrow> bool \<Rightarrow> seq_kernel \<Rightarrow> bool" where
  "resumed_all k yielded k' \<longleftrightarrow>
     places k' = ready_places (\<lambda>t. pending k t \<or> within (unat (xPendedTicks k)) k t) k \<and> la_value (lists k') = la_value (lists k) \<and>
     xTickCount k' = xTickCount k + xPendedTicks k \<and> xPendedTicks k' = 0 \<and> uxSchedulerSuspended k' = 0 \<and>
     tcb k' = tcb k \<and> pxCurrentTCB k' = pxCurrentTCB k \<and> uxNumberOfTasks k' = uxNumberOfTasks k \<and> xSchedulerRunning k' = xSchedulerRunning k \<and>
     (xYieldPending k \<or> outranks k (\<lambda>t. pending k t \<or> within (unat (xPendedTicks k)) k t) \<longrightarrow> yielded) \<and> (yielded \<longleftrightarrow> xYieldPending k') \<and>
     pendsv k' = (pendsv k \<or> yielded)"

lemma times_resumed:
  assumes ok: "core_ok T k" and tm: "times_ok k" and r: "resumed W k k'"
  shows "times_ok k'"
proof -
  obtain A b y where k': "k' = k\<lparr>lists := A, uxTopReadyPriority := b, xYieldPending := y\<rparr>" using r unfolding resumed_def by metis
  have "places k (xStateListItem t) = Some l" if "places k' (xStateListItem t) = Some l" "l \<in> {pxDelayedTaskList k, pxOverflowDelayedTaskList k}" for t l
    using that r delayed_cases [OF ok] by (auto simp: resumed_def ready_places_def split: if_splits)
  then show ?thesis using tm r k' by (auto simp: times_ok_def resumed_def)
qed

lemma ready_not_pending:
  assumes "places k' = ready_places W k" and "\<And>t. pending k t \<longrightarrow> W t"
  shows "places k' (xEventListItem t) \<noteq> Some xPendingReadyList"
  using assms(2) [of t] by (auto simp: assms(1) ready_places_def pending_def)

lemma resume_last:
  assumes ok: "core_ok T k" and tm: "times_ok k" and s: "uxSchedulerSuspended k = 1"
  shows "\<exists>yielded k'. xTaskResumeAll abs_step k = Some (yielded, k') \<and> sched_ok T k' \<and> resumed_all k yielded k'"
proof -
  let ?k0 = "k\<lparr>uxSchedulerSuspended := 0\<rparr>"
  have ok0: "core_ok T ?k0" using ok by simp
  have tm0: "times_ok ?k0" using tm by (simp add: times_ok_def)
  obtain r k1 where k1: "pending_loop abs_step None ?k0 = Some (r, k1)" "core_ok T k1" "resumed (pending ?k0) ?k0 k1"
    using pending_loop_spec [OF ok0] by blast
  have tm1: "times_ok k1" by (rule times_resumed [OF ok0 tm0 k1(3)])
  have pd: "pending ?k0 = pending k" by (simp add: pending_def fun_eq_iff)
  have f1: "places k1 = ready_places (pending k) ?k0" "la_value (lists k1) = la_value (lists k)" "xYieldPending k1 \<longleftrightarrow> xYieldPending k \<or> outranks k (pending k)"
      "k1 = ?k0\<lparr>lists := lists k1, uxTopReadyPriority := uxTopReadyPriority k1, xYieldPending := xYieldPending k1\<rparr>"
  proof -
    note R = k1(3) [unfolded pd resumed_def]
    show "places k1 = ready_places (pending k) ?k0" "k1 = ?k0\<lparr>lists := lists k1, uxTopReadyPriority := uxTopReadyPriority k1, xYieldPending := xYieldPending k1\<rparr>"
      using R by blast+
    have "la_value (lists k1) = la_value (lists ?k0)" "xYieldPending k1 \<longleftrightarrow> xYieldPending ?k0 \<or> outranks ?k0 (pending k)" using R by blast+
    then show "la_value (lists k1) = la_value (lists k)" "xYieldPending k1 \<longleftrightarrow> xYieldPending k \<or> outranks k (pending k)" by (simp_all add: outranks_def)
  qed
  obtain A1 b1 y1 where k1': "k1 = ?k0\<lparr>lists := A1, uxTopReadyPriority := b1, xYieldPending := y1\<rparr>" using f1(4) by metis
  have rp: "ready_places W ?k0 = ready_places W k" for W by (simp add: ready_places_def fun_eq_iff split: item.splits)
  obtain v where v: "prvResetNextTaskUnblockTime abs_step k1 = Some (k1\<lparr>xNextTaskUnblockTime := v\<rparr>)"
      "\<forall>t. places k1 (xStateListItem t) = Some (pxDelayedTaskList k1) \<longrightarrow> v \<le> wake_time k1 t"
    using reset_next_spec [OF k1(2)] by blast
  define k2 where "k2 = (if r \<noteq> None then k1\<lparr>xNextTaskUnblockTime := v\<rparr> else k1)"
  obtain n2 where k2': "k2 = k1\<lparr>xNextTaskUnblockTime := n2\<rparr>"
    using that [of "if r \<noteq> None then v else xNextTaskUnblockTime k1"] by (cases r) (simp_all add: k2_def)
  have ok2: "core_ok T k2" using k1(2) by (simp add: k2')
  have tm2: "times_ok k2" using tm1 v(2) by (auto simp: k2_def times_ok_def)
  have s2: "uxSchedulerSuspended k2 = 0" "xPendedTicks k2 = xPendedTicks k" using k1' k2' by simp_all
  obtain k3 where k3: "pended_ticks abs_step (unat (xPendedTicks k)) k2 = Some k3" "core_ok T k3" "times_ok k3" "ticks_done (unat (xPendedTicks k)) k2 k3"
    using pended_ticks_spec [OF ok2 tm2 s2(1)] by blast
  let ?n = "unat (xPendedTicks k)"
  have run: "xTaskResumeAll abs_step k =
      Some (let k4 = k3\<lparr>xPendedTicks := 0\<rparr> in if xYieldPending k4 then (True, portYIELD k4) else (False, k4))"
  proof -
    have "uxNumberOfTasks k > 0" by (rule core_okD(14) [OF ok])
    then have "xTaskResumeAll abs_step k = Option.bind
        (if xPendedTicks k2 > 0 then map_option (\<lambda>k. k\<lparr>xPendedTicks := 0\<rparr>) (pended_ticks abs_step (unat (xPendedTicks k2)) k2) else Some k2)
        (\<lambda>k. Some (if xYieldPending k then (True, portYIELD k) else (False, k)))"
      using s k1(1) v(1) by (simp add: xTaskResumeAll_def assert_def Let_def k2_def split: if_splits)
    then show ?thesis
    proof (cases "xPendedTicks k = 0")
      case True
      then have z: "k3 = k2" "k2\<lparr>xPendedTicks := 0\<rparr> = k2" using k3(1) s2(2) by simp_all
      show ?thesis unfolding Let_def z using \<open>xTaskResumeAll abs_step k = _\<close> s2(2) True by simp
    next
      case False
      then have "xPendedTicks k2 > 0" using s2(2) by (simp add: word_neq_0_conv)
      then show ?thesis using \<open>xTaskResumeAll abs_step k = _\<close> k3(1) s2(2) by (simp add: Let_def)
    qed
  qed
  let ?W = "\<lambda>t. pending k t \<or> within ?n k t"
  have f2: "places k2 = ready_places (pending k) k" "tcb k2 = tcb k" "la_value (lists k2) = la_value (lists k)" "pxCurrentTCB k2 = pxCurrentTCB k"
      "xTickCount k2 = xTickCount k" "xYieldPending k2 \<longleftrightarrow> xYieldPending k \<or> outranks k (pending k)"
    using f1 k1' k2' rp by simp_all
  have W: "?W t \<longleftrightarrow> pending k t \<or> within ?n k2 t" for t
    using delayed_after [OF f2(1), of t] f2(3,5) by (auto simp: within_def)
  have pl: "places k3 = ready_places ?W k"
    using k3(4) ready_places_Suc [OF f2(1,2) W] by (simp add: ticks_done_def)
  have "outranks k ?W \<longrightarrow> outranks k (pending k) \<or> outranks k2 (within ?n k2)"
    unfolding outranks_def W using f2(2,4) by auto
  then have y: "xYieldPending k \<or> outranks k ?W \<longrightarrow> xYieldPending k3" using k3(4) f2(6) by (auto simp: ticks_done_def)
  have f3: "la_value (lists k3) = la_value (lists k)" "xTickCount k3 = xTickCount k + xPendedTicks k" "tcb k3 = tcb k" "pxCurrentTCB k3 = pxCurrentTCB k"
      "uxNumberOfTasks k3 = uxNumberOfTasks k" "xSchedulerRunning k3 = xSchedulerRunning k" "uxSchedulerSuspended k3 = 0" "pendsv k3 = pendsv k"
    using k3(4) f2 k1' k2' by (simp_all add: ticks_done_def)
  let ?k5 = "k3\<lparr>xPendedTicks := 0, pendsv := pendsv k \<or> xYieldPending k3\<rparr>"
  have run': "xTaskResumeAll abs_step k = Some (xYieldPending k3, ?k5)"
    using run f3(8) by (cases "xYieldPending k3") (simp_all add: Let_def portYIELD_def)
  have "places ?k5 (xEventListItem t) \<noteq> Some xPendingReadyList" for t
    by (rule ready_not_pending [of _ ?W k]) (simp_all add: pl)
  then have "sched_ok T ?k5" using k3(2,3) by (simp add: sched_ok_def resumed_ok_def times_ok_def)
  moreover have "resumed_all k (xYieldPending k3) ?k5" using pl y f3 by (simp add: resumed_all_def)
  ultimately show ?thesis using run' by blast
qed

lemma resume_nested:
  assumes "uxSchedulerSuspended k \<notin> {0, 1}"
  shows "xTaskResumeAll abs_step k = Some (False, k\<lparr>uxSchedulerSuspended := uxSchedulerSuspended k - 1\<rparr>)"
  using assms by (simp add: xTaskResumeAll_def assert_def Let_def)

end
