(* ===== verification/KernelRun.thy ===== *)
theory KernelRun
  imports KernelDelay
begin

text \<open>
  Histories of the scheduler: every event that respects the contracts has a result and keeps the invariant; what follows for delays, for the
  choice of the running task, for time slicing and for time-outs; and the same for the code over linked lists.
\<close>

section \<open>Signalling\<close>

lemma event_item:
  assumes ok: "core_ok T k" and i: "places k i = Some (event_list e)"
  shows "\<exists>t\<in>T. i = xEventListItem t"
proof (cases i)
  case (xStateListItem t)
  then show ?thesis using i core_okD(5,10) [OF ok, of t] by (cases "t \<in> T") (auto simp: task_place_def is_ready_def is_delayed_def)
next
  case (xEventListItem t)
  then show ?thesis using i core_okD(6) [OF ok, of t] by (cases "t \<in> T") auto
qed

lemma move_to_pending:
  assumes ok: "core_ok T k" and t: "t \<in> T" and e: "places k (xEventListItem t) = Some (event_list e)"
    and k1: "k1 = k\<lparr>lists := A1\<rparr>" "replaced (event_list e) xs (xEventListItem t) None (lists k) A1"
  shows "\<exists>A. list_do abs_step (Op_InsertEnd xPendingReadyList (xEventListItem t)) k1 = Some (k\<lparr>lists := A\<rparr>) \<and> core_ok T (k\<lparr>lists := A\<rparr>) \<and>
    la_container A = (places k)(xEventListItem t := Some xPendingReadyList) \<and> la_value A = la_value (lists k)"
proof -
  note D = core_okD [OF ok] and r1 = k1(2) [unfolded replaced_def]
  have same: "seq_items A1 xPendingReadyList = seq_items (lists k) xPendingReadyList" using r1 by simp
  obtain A ys zs where A: "abs_step (Op_InsertEnd xPendingReadyList (xEventListItem t)) A1 = Some (Nothing, A)"
      "replaced xPendingReadyList (ys @ xEventListItem t # zs) (xEventListItem t) (Some xPendingReadyList) A1 A"
    using insert_end_seq [of A1 "xEventListItem t" xPendingReadyList] r1 same pending_list_dom [OF ok] seq_length [OF core_lists [OF ok], of xPendingReadyList]
    by auto
  note r = A(2) [unfolded replaced_def]
  let ?k = "k\<lparr>lists := A\<rparr>"
  have pl: "places ?k = (places k)(xEventListItem t := Some xPendingReadyList)" using r r1 by simp
  have "lists_ok T ?k"
    by (rule lists_ok_update [OF core_lists [OF ok]]) (use r r1 D(5,6) t in auto)
  moreover have "task_place ?k u" if u: "u \<in> T" for u
  proof (cases "u = t")
    case True
    have "\<not> is_ready k t" using event_not_ready [OF ok t] e by simp
    then show ?thesis using not_ready_place [OF ok t] True pl by (auto simp: task_place_def is_delayed_def)
  next
    case False
    then show ?thesis using D(10) [OF u] pl by (simp add: task_place_def is_ready_def is_delayed_def)
  qed
  moreover have "bits_ok ?k" using D(11) pl by (simp add: bits_ok_def)
  moreover have "delayed_ok ?k" using D(12) r r1 by (auto simp: delayed_ok_def)
  ultimately have "core_ok T ?k" using D(13,14) by (simp add: core_ok_def)
  then show ?thesis using call_results(1) [of "Op_InsertEnd xPendingReadyList (xEventListItem t)" k1] A(1) k1(1) pl r r1 by auto
qed

text \<open>The first task that waits for the event is made ready, at once or on the resumption of the scheduler.\<close>

lemma signal_spec:
  assumes ok: "core_ok T k" and ne: "seq_items (lists k) (event_list e) \<noteq> []"
  shows "\<exists>t w k'. t \<in> T \<and> hd (seq_items (lists k) (event_list e)) = xEventListItem t \<and> places k (xEventListItem t) = Some (event_list e) \<and>
    remove_from_event_list abs_step (event_list e) k = Some (w, k') \<and> core_ok T k' \<and> la_value (lists k') = la_value (lists k) \<and>
    (w \<longleftrightarrow> outranks k (\<lambda>u. u = t)) \<and>
    places k' = (if uxSchedulerSuspended k = 0 then ready_places (\<lambda>u. u = t) k else (places k)(xEventListItem t := Some xPendingReadyList)) \<and>
    k' = k\<lparr>lists := lists k', uxTopReadyPriority := uxTopReadyPriority k', xYieldPending := xYieldPending k \<or> w\<rparr>"
proof -
  note D = core_okD [OF ok]
  obtain i xs where items: "seq_items (lists k) (event_list e) = i # xs" using ne by (cases "seq_items (lists k) (event_list e)") auto
  then have pi: "places k i = Some (event_list e)" using container_iff [OF D(1), of i] by simp
  then obtain t where t: "t \<in> T" "i = xEventListItem t" using event_item [OF ok] by blast
  have own: "la_owner (lists k) i = t" using D(8) t by simp
  obtain cur where cur: "pxCurrentTCB k = Some cur" using D(13) by blast
  obtain k1 k2 k3 where k: "list_do abs_step (Op_Remove (xEventListItem t)) k = Some k1" "k1 = k\<lparr>lists := lists k1\<rparr>"
      "replaced (event_list e) (remove1 (xEventListItem t) (seq_items (lists k) (event_list e))) (xEventListItem t) None (lists k) (lists k1)"
      "list_do abs_step (Op_Remove (xStateListItem t)) k1 = Some k2" "prvAddTaskToReadyList abs_step t k2 = Some k3" "readied T t k k3"
    using signalled_task [OF ok t(1)] pi t(2) by blast
  note r = readied_simps [OF k(6)]
  let ?w = "uxPriority (tcb k t) > uxPriority (tcb k cur)"
  have w: "?w \<longleftrightarrow> outranks k (\<lambda>u. u = t)" using cur by (simp add: outranks_def)
  have s1: "uxSchedulerSuspended k1 = uxSchedulerSuspended k" by (subst k(2)) simp
  show ?thesis
  proof (cases "uxSchedulerSuspended k = 0")
    case True
    let ?k' = "k3\<lparr>xYieldPending := xYieldPending k \<or> ?w\<rparr>"
    have "remove_from_event_list abs_step (event_list e) k = Some (?w, ?k')"
      using items own t k(1,4,5) s1 True cur r(2,3,9) by (cases ?w) (simp_all add: remove_from_event_list_def read_results)
    moreover have "k3 = k\<lparr>lists := lists k3, uxTopReadyPriority := uxTopReadyPriority k3\<rparr>" using k(6) by (simp add: readied_def)
    then have "?k' = k\<lparr>lists := lists ?k', uxTopReadyPriority := uxTopReadyPriority ?k', xYieldPending := xYieldPending k \<or> ?w\<rparr>"
      by (metis (no_types, lifting) kernel.select_convs(1,8) kernel.surjective kernel.update_convs(1,8,11))
    moreover have "places ?k' = ready_places (\<lambda>u. u = t) k" using r(15) by (auto simp: ready_places_def fun_eq_iff split: item.splits)
    then have "places ?k' = (if uxSchedulerSuspended k = 0 then ready_places (\<lambda>u. u = t) k else (places k)(xEventListItem t := Some xPendingReadyList))"
      using True by simp
    moreover have "core_ok T ?k'" "la_value (lists ?k') = la_value (lists k)" using r(1,16) by simp_all
    moreover have "hd (seq_items (lists k) (event_list e)) = xEventListItem t" "places k (xEventListItem t) = Some (event_list e)" using items t pi by simp_all
    ultimately show ?thesis using t(1) w by blast
  next
    case False
    obtain A where A: "list_do abs_step (Op_InsertEnd xPendingReadyList (xEventListItem t)) k1 = Some (k\<lparr>lists := A\<rparr>)" "core_ok T (k\<lparr>lists := A\<rparr>)"
        "la_container A = (places k)(xEventListItem t := Some xPendingReadyList)" "la_value A = la_value (lists k)"
      using move_to_pending [OF ok t(1) _ k(2,3)] pi t(2) by blast
    let ?k' = "k\<lparr>lists := A, xYieldPending := xYieldPending k \<or> ?w\<rparr>"
    have "remove_from_event_list abs_step (event_list e) k = Some (?w, ?k')"
      using items own t k(1) s1 False cur A(1) by (cases ?w) (simp_all add: remove_from_event_list_def read_results)
    then show ?thesis using t items pi A(2-4) w False by (intro exI [of _ t] exI [of _ ?w] exI [of _ ?k']) simp
  qed
qed

section \<open>Switching\<close>

lemma highest_bit:
  assumes "bit w m"
  shows "bit w (unat (portGET_HIGHEST_PRIORITY w))" "\<And>n. bit w n \<Longrightarrow> n \<le> unat (portGET_HIGHEST_PRIORITY w)"
proof -
  let ?P = "\<lambda>i. \<not> bit w i" and ?xs = "rev [0..<32] :: nat list"
  define z where "z = length (takeWhile ?P ?xs)"
  have nth: "?xs ! j = 31 - j" if "j < 32" for j using that by (simp add: rev_nth)
  have "m < 32" using bit_imp_le_length [OF assms] by simp
  have z: "z < 32"
  proof (rule ccontr)
    assume "\<not> z < 32"
    then have "takeWhile ?P ?xs = ?xs" using takeWhile_eq_take [of ?P ?xs] by (simp add: z_def)
    then show False using \<open>m < 32\<close> assms by auto
  qed
  have "\<not> ?P (?xs ! z)" using nth_length_takeWhile [of ?P ?xs] z by (simp add: z_def)
  then have b: "bit w (31 - z)" using nth [OF z] by simp
  have u: "unat (portGET_HIGHEST_PRIORITY w) = 31 - z"
  proof -
    have uz: "unat (of_nat z :: u32) = z" using z by (intro word_of_nat_eq_nat_iff) simp
    then have "(of_nat z :: u32) \<le> 31" using z by (simp add: word_le_nat_alt)
    then have "unat (31 - of_nat z :: u32) = 31 - z" using unat_diff_le [of "of_nat z" "31 :: u32"] uz by simp
    then show ?thesis by (simp add: portGET_HIGHEST_PRIORITY_def ucPortCountLeadingZeros_def flip: z_def)
  qed
  show "bit w (unat (portGET_HIGHEST_PRIORITY w))" using b u by simp
  fix n assume n: "bit w n"
  then have n32: "n < 32" using bit_imp_le_length by fastforce
  show "n \<le> unat (portGET_HIGHEST_PRIORITY w)"
  proof (rule ccontr)
    assume "\<not> n \<le> unat (portGET_HIGHEST_PRIORITY w)"
    then have lt: "31 - n < z" using u z n32 by simp
    then have "takeWhile ?P ?xs ! (31 - n) = n" using nth [of "31 - n"] n32 by (simp add: takeWhile_nth z_def)
    then have "n \<in> set (takeWhile ?P ?xs)" using nth_mem [of "31 - n" "takeWhile ?P ?xs"] lt z_def by simp
    then show False using n by (auto dest: set_takeWhileD)
  qed
qed

lemma next_seq:
  assumes wf: "seq_wf A" and ne: "seq_items A l \<noteq> []"
  shows "\<exists>x A'. abs_step (Op_NextOwner l) A = Some (Owner (la_owner A x), A') \<and> x \<in> set (seq_items A l) \<and> seq_wf A' \<and>
    seq_items A' = seq_items A \<and> la_container A' = la_container A \<and> la_value A' = la_value A \<and> la_owner A' = la_owner A \<and>
    dom (la_lists A') = dom (la_lists A) \<and>
    (\<exists>q. la_lists A l = Some q \<and> la_lists A' l = Some (kl_next q) \<and> kl_index (kl_next q) = Some x)"
proof -
  obtain q where q: "la_lists A l = Some q" "kl_items q \<noteq> []" using ne by (cases "la_lists A l") (auto simp: seq_items_def)
  have "set_option (kl_index q) \<subseteq> set (kl_items q)" "distinct (kl_items q)" using wf q by (auto simp: seq_wf_def)
  let ?x = "the (kl_index (kl_next q))"
  have fo: "set (from_on c (kl_items q)) \<subseteq> set (kl_items q)" for c unfolding from_on_def by (auto dest: set_dropWhileD)
  have x: "?x \<in> set (kl_items q)"
  proof (cases "kl_index q")
    case None
    then show ?thesis using q(2) by (simp add: kl_next_def)
  next
    case (Some c)
    then show ?thesis using q(2) fo [of c] by (auto simp: kl_next_def split: list.splits)
  qed
  have k': "kl_items (kl_next q) = kl_items q" "kl_index (kl_next q) = Some ?x" by (simp_all add: kl_next_def)
  let ?A = "put_list l (kl_next q) A"
  have items: "seq_items ?A = seq_items A" using q k' by (auto simp: seq_items_def put_list_def fun_eq_iff)
  have "seq_wf ?A" unfolding seq_wf_def items
  proof (intro conjI allI impI)
    fix l' q' assume "la_lists ?A l' = Some q'"
    then show "distinct (kl_items q')" "set_option (kl_index q') \<subseteq> set (kl_items q')"
      using wf x k' q by (auto simp: put_list_def seq_wf_def split: if_splits)
  next
    show "la_container ?A i = Some l' \<longleftrightarrow> i \<in> set (seq_items A l')" for i l' using container_iff [OF wf] by (simp add: put_list_def)
  qed
  moreover have "abs_step (Op_NextOwner l) A = Some (Owner (la_owner A ?x), ?A)" using q by (simp add: abs_step_def)
  ultimately show ?thesis using x q items k'(2) by (intro exI [of _ ?x] exI [of _ ?A]) (auto simp: put_list_def seq_items_def)
qed

lemma ready_item_place:
  assumes ok: "core_ok T k" and i: "places k i = Some (pxReadyTasksLists p)"
  shows "\<exists>t\<in>T. i = xStateListItem t \<and> p = prio k t \<and> is_ready k t"
proof (cases i)
  case (xStateListItem t)
  then show ?thesis using i core_okD(5,10) [OF ok, of t] by (cases "t \<in> T") (auto simp: task_place_def is_ready_def is_delayed_def)
next
  case (xEventListItem t)
  then show ?thesis using i event_place [OF ok, of t p] by simp
qed

definition runs_highest :: "seq_kernel \<Rightarrow> bool" where
  "runs_highest k \<longleftrightarrow> (\<exists>c. pxCurrentTCB k = Some c \<and> is_ready k c \<and> (\<forall>t. is_ready k t \<longrightarrow> prio k t \<le> prio k c))"

lemma switch_spec:
  assumes ok: "core_ok T k" and s: "uxSchedulerSuspended k = 0" and rd: "is_ready k u"
  shows "\<exists>k'. vTaskSwitchContext abs_step k = Some k' \<and> core_ok T k' \<and> runs_highest k' \<and> places k' = places k \<and> la_value (lists k') = la_value (lists k) \<and>
    k' = k\<lparr>lists := lists k', xYieldPending := False, pxCurrentTCB := pxCurrentTCB k'\<rparr> \<and>
    (\<exists>p q t. p = unat (portGET_HIGHEST_PRIORITY (uxTopReadyPriority k)) \<and> la_lists (lists k) (pxReadyTasksLists p) = Some q \<and>
       la_lists (lists k') (pxReadyTasksLists p) = Some (kl_next q) \<and> kl_index (kl_next q) = Some (xStateListItem t) \<and> pxCurrentTCB k' = Some t)"
proof -
  note D = core_okD [OF ok]
  let ?p = "unat (portGET_HIGHEST_PRIORITY (uxTopReadyPriority k))" and ?l = "pxReadyTasksLists (unat (portGET_HIGHEST_PRIORITY (uxTopReadyPriority k)))"
  have bits: "bit (uxTopReadyPriority k) p \<longleftrightarrow> (\<exists>t. places k (xStateListItem t) = Some (pxReadyTasksLists p))" for p using D(11) by (simp add: bits_ok_def)
  have "bit (uxTopReadyPriority k) (prio k u)" using rd bits by (auto simp: is_ready_def)
  note hb = highest_bit [OF this]
  obtain t0 where t0: "places k (xStateListItem t0) = Some ?l" using hb(1) bits by blast
  have i0: "xStateListItem t0 \<in> set (seq_items (lists k) ?l)" using t0 container_iff [OF D(1)] by blast
  then have ne: "seq_items (lists k) ?l \<noteq> []" by auto
  have dom: "?l \<in> dom (la_lists (lists k))" using ne by (cases "la_lists (lists k) ?l") (auto simp: seq_items_def)
  obtain x A where A: "abs_step (Op_NextOwner ?l) (lists k) = Some (Owner (la_owner (lists k) x), A)" "x \<in> set (seq_items (lists k) ?l)" "seq_wf A"
      "seq_items A = seq_items (lists k)" "la_container A = places k" "la_value A = la_value (lists k)" "la_owner A = la_owner (lists k)"
      "dom (la_lists A) = dom (la_lists (lists k))"
      "\<exists>q. la_lists (lists k) ?l = Some q \<and> la_lists A ?l = Some (kl_next q) \<and> kl_index (kl_next q) = Some x"
    using next_seq [OF D(1) ne] by blast
  obtain t where t: "t \<in> T" "x = xStateListItem t" "?p = prio k t" "is_ready k t"
    using ready_item_place [OF ok] A(2) container_iff [OF D(1), of x ?l] by blast
  let ?k' = "k\<lparr>lists := A, xYieldPending := False, pxCurrentTCB := Some t\<rparr>"
  have own: "la_owner (lists k) x = t" using D(7) t by simp
  have "length (seq_items (lists k) ?l) < 2 ^ 32" using seq_length [OF core_lists [OF ok], of ?l] by simp
  then have len: "(of_nat (length (seq_items (lists k) ?l)) :: u32) > 0" using ne
    by (simp add: word_less_nat_alt take_bit_eq_mod unsigned_of_nat)
  have run: "vTaskSwitchContext abs_step k = Some ?k'"
  proof -
    have "list_num abs_step (Op_Length ?l) (k\<lparr>xYieldPending := False\<rparr>) = Some (of_nat (length (seq_items (lists k) ?l)), k\<lparr>xYieldPending := False\<rparr>)"
      using read_results(2) [of ?l "k\<lparr>xYieldPending := False\<rparr>"] dom by simp
    moreover have "list_owner abs_step (Op_NextOwner ?l) (k\<lparr>xYieldPending := False\<rparr>) = Some (t, k\<lparr>xYieldPending := False, lists := A\<rparr>)"
      using call_results(3) [of "Op_NextOwner ?l" "k\<lparr>xYieldPending := False\<rparr>" t A] A(1) own by simp
    ultimately show ?thesis using s len by (simp add: vTaskSwitchContext_def taskSELECT_HIGHEST_PRIORITY_TASK_def Let_def assert_def)
  qed
  have ok': "core_ok T ?k'"
    using ok t(1) A(3-8) by (simp add: core_defs)
  have "prio k v \<le> ?p" if "is_ready k v" for v using that hb(2) bits by (auto simp: is_ready_def)
  then have "runs_highest ?k'" using t A(5) by (simp add: runs_highest_def is_ready_def)
  moreover obtain q where "la_lists (lists k) ?l = Some q" "la_lists (lists ?k') ?l = Some (kl_next q)" "kl_index (kl_next q) = Some (xStateListItem t)"
    using A(9) t(2) by auto
  ultimately show ?thesis using run ok' A(5,6) by (intro exI [of _ ?k']) auto
qed

section \<open>Creating tasks\<close>

text \<open>The control block and the items of a new task.\<close>

lemma initialise_task:
  assumes "places k (xStateListItem t) = None" "places k (xEventListItem t) = None" and p: "p < configMAX_PRIORITIES"
  shows "\<exists>A b. prvInitialiseNewTask abs_step p t k = Some (k\<lparr>lists := A, tcb := (tcb k)(t := b)\<rparr>) \<and> uxPriority b = p \<and>
    la_lists A = la_lists (lists k) \<and> la_container A = places k \<and>
    la_owner A = (la_owner (lists k))(xStateListItem t := t, xEventListItem t := t) \<and>
    la_value A = (la_value (lists k))(xEventListItem t := configMAX_PRIORITIES - p)"
proof -
  let ?b = "\<lparr>uxPriority = p, uxBasePriority = p, uxMutexesHeld = 0, uxTCBNumber = 0, ulNotifiedValue = 0, ucNotifyState = 0\<rparr>"
  let ?A = "(lists k)\<lparr>la_owner := (la_owner (lists k))(xStateListItem t := t, xEventListItem t := t),
    la_value := (la_value (lists k))(xEventListItem t := configMAX_PRIORITIES - p)\<rparr>"
  have "prvInitialiseNewTask abs_step p t k = Some (k\<lparr>lists := ?A, tcb := (tcb k)(t := ?b)\<rparr>)"
    using assms by (simp add: prvInitialiseNewTask_def assert_def Let_def list_do_def list_call_def abs_step_def)
  then show ?thesis by (intro exI [of _ ?A] exI [of _ ?b]) simp
qed

lemma add_new_ready:
  assumes wf: "seq_wf (lists k)" and c: "places k (xStateListItem t) = None" and p: "prio k t < 31"
    and dom: "pxReadyTasksLists (prio k t) \<in> dom (la_lists (lists k))" and len: "length (seq_items (lists k) (pxReadyTasksLists (prio k t))) + 1 < 2 ^ 32"
    and bits: "bits_ok k"
  shows "\<exists>A b. prvAddTaskToReadyList abs_step t k = Some (k\<lparr>lists := A, uxTopReadyPriority := b\<rparr>) \<and> seq_wf A \<and>
    la_container A = (places k)(xStateListItem t := Some (pxReadyTasksLists (prio k t))) \<and> la_value A = la_value (lists k) \<and>
    la_owner A = la_owner (lists k) \<and> dom (la_lists A) = dom (la_lists (lists k)) \<and>
    (\<forall>l. l \<noteq> pxReadyTasksLists (prio k t) \<longrightarrow> seq_items A l = seq_items (lists k) l) \<and> bits_ok (k\<lparr>lists := A, uxTopReadyPriority := b\<rparr>)"
proof -
  let ?l = "pxReadyTasksLists (prio k t)"
  obtain A ys zs where A: "abs_step (Op_InsertEnd ?l (xStateListItem t)) (lists k) = Some (Nothing, A)"
      "replaced ?l (ys @ xStateListItem t # zs) (xStateListItem t) (Some ?l) (lists k) A"
    using insert_end_seq [OF wf c dom len] by blast
  note r = A(2) [unfolded replaced_def]
  let ?b = "portRECORD_READY_PRIORITY (uxPriority (tcb k t)) (uxTopReadyPriority k)"
  let ?k' = "k\<lparr>lists := A, uxTopReadyPriority := ?b\<rparr>"
  have "places ?k' (xStateListItem u) = Some (pxReadyTasksLists q) \<longleftrightarrow>
      u = t \<and> q = prio k t \<or> places k (xStateListItem u) = Some (pxReadyTasksLists q)" for u q
    using r c by (cases "u = t") auto
  then have "(\<exists>u. places ?k' (xStateListItem u) = Some (pxReadyTasksLists q)) \<longleftrightarrow>
      q = prio k t \<or> (\<exists>u. places k (xStateListItem u) = Some (pxReadyTasksLists q))" for q by auto
  then have bo: "bits_ok ?k'" using bits p by (auto simp: bits_ok_def bit_record)
  have "prvAddTaskToReadyList abs_step t k = Some ?k'"
    using A(1) by (simp add: prvAddTaskToReadyList_def Let_def call_results(1))
  then show ?thesis using r bo by (intro exI [of _ A] exI [of _ ?b]) simp
qed

lemma create_spec:
  assumes ok: "core_ok T k" and t: "t \<notin> T" and p: "p < configMAX_PRIORITIES" and room: "card T + 1 < 2 ^ 30" "uxNumberOfTasks k + 1 \<noteq> 0"
    and cur: "pxCurrentTCB k = Some cur"
  shows "\<exists>k'. xTaskCreate abs_step p t k = Some k' \<and> core_ok (insert t T) k' \<and>
    places k' = (places k)(xStateListItem t := Some (pxReadyTasksLists (unat p))) \<and> (\<forall>u. wake_time k' u = wake_time k u) \<and>
    (\<forall>u. u \<noteq> t \<longrightarrow> tcb k' u = tcb k u) \<and> uxPriority (tcb k' t) = p \<and>
    k' = k\<lparr>lists := lists k', tcb := tcb k', uxTopReadyPriority := uxTopReadyPriority k', uxNumberOfTasks := uxNumberOfTasks k + 1,
      uxTaskNumber := uxTaskNumber k',
      pxCurrentTCB := Some (if \<not> xSchedulerRunning k \<and> uxPriority (tcb k cur) \<le> p then t else cur),
      pendsv := pendsv k \<or> xSchedulerRunning k \<and> uxPriority (tcb k cur) < p\<rparr>"
proof -
  note D = core_okD [OF ok]
  have p31: "unat p < 31" using p by (simp add: configMAX_PRIORITIES_def word_less_nat_alt)
  have curT: "cur \<in> T" "cur \<noteq> t" using D(13) cur t by auto
  obtain A1 b1 where A1: "prvInitialiseNewTask abs_step p t k = Some (k\<lparr>lists := A1, tcb := (tcb k)(t := b1)\<rparr>)" "uxPriority b1 = p"
      "la_lists A1 = la_lists (lists k)" "la_container A1 = places k"
      "la_owner A1 = (la_owner (lists k))(xStateListItem t := t, xEventListItem t := t)"
      "la_value A1 = (la_value (lists k))(xEventListItem t := configMAX_PRIORITIES - p)"
    using initialise_task [OF D(5,6) [OF t] p] by blast
  have items1: "seq_items A1 = seq_items (lists k)" using A1(3) by (simp add: seq_items_def fun_eq_iff)
  have wf1: "seq_wf A1" using D(1) A1(3,4) items1 by (simp add: seq_wf_def)
  let ?cur = "Some (if \<not> xSchedulerRunning k \<and> uxPriority (tcb k cur) \<le> p then t else cur)"
  let ?b2 = "b1\<lparr>uxTCBNumber := uxTaskNumber k + 1\<rparr>"
  let ?k2 = "k\<lparr>lists := A1, tcb := (tcb k)(t := ?b2), uxNumberOfTasks := uxNumberOfTasks k + 1, pxCurrentTCB := ?cur, uxTaskNumber := uxTaskNumber k + 1\<rparr>"
  have pk2: "prio ?k2 t = unat p" using A1(2) by simp
  have dom: "pxReadyTasksLists (prio ?k2 t) \<in> dom (la_lists (lists ?k2))"
    unfolding pk2 using D(2) [of "pxReadyTasksLists (unat p)"] p31 A1(3) by (simp add: kernel_list_def)
  have len: "length (seq_items (lists ?k2) (pxReadyTasksLists (prio ?k2 t))) + 1 < 2 ^ 32"
    using items1 seq_length [OF core_lists [OF ok]] by simp
  have bits: "bits_ok ?k2" using D(11) A1(4) by (simp add: bits_ok_def)
  have "places ?k2 (xStateListItem t) = None" "prio ?k2 t < 31" "seq_wf (lists ?k2)" using D(5) [OF t] A1(4) p31 pk2 wf1 by simp_all
  then obtain A b where A: "prvAddTaskToReadyList abs_step t ?k2 = Some (?k2\<lparr>lists := A, uxTopReadyPriority := b\<rparr>)" "seq_wf A"
      "la_container A = (places k)(xStateListItem t := Some (pxReadyTasksLists (unat p)))" "la_value A = la_value A1" "la_owner A = la_owner A1"
      "dom (la_lists A) = dom (la_lists (lists k))"
      "\<forall>l. l \<noteq> pxReadyTasksLists (unat p) \<longrightarrow> seq_items A l = seq_items (lists k) l" "bits_ok (?k2\<lparr>lists := A, uxTopReadyPriority := b\<rparr>)"
    using add_new_ready [of ?k2 t, OF _ _ _ dom len bits] A1(3,4) items1 pk2 by auto
  let ?k' = "?k2\<lparr>lists := A, uxTopReadyPriority := b, pendsv := pendsv k \<or> xSchedulerRunning k \<and> uxPriority (tcb k cur) < p\<rparr>"
  let ?k1 = "k\<lparr>lists := A1, tcb := (tcb k)(t := b1), uxNumberOfTasks := uxNumberOfTasks k + 1\<rparr>"
  have "prvAddNewTaskToReadyList abs_step t (k\<lparr>lists := A1, tcb := (tcb k)(t := b1)\<rparr>) = Some ?k'"
  proof -
    have c1: "(if \<not> xSchedulerRunning ?k1 \<and> uxPriority (tcb ?k1 cur) \<le> uxPriority (tcb ?k1 t) then ?k1\<lparr>pxCurrentTCB := Some t\<rparr> else ?k1) =
        ?k1\<lparr>pxCurrentTCB := ?cur\<rparr>"
      using cur curT(2) A1(2) by simp
    have c2: "?k1\<lparr>pxCurrentTCB := ?cur, uxTaskNumber := uxTaskNumber k + 1, tcb := (tcb k)(t := ?b2)\<rparr> = ?k2" by simp
    have c3: "prvAddTaskToReadyList abs_step t (?k1\<lparr>pxCurrentTCB := ?cur, uxTaskNumber := uxTaskNumber k + 1, tcb := (tcb k)(t := ?b2)\<rparr>) =
        Some (?k2\<lparr>lists := A, uxTopReadyPriority := b\<rparr>)" unfolding c2 by (rule A(1))
    have "prvAddNewTaskToReadyList abs_step t (k\<lparr>lists := A1, tcb := (tcb k)(t := b1)\<rparr>) =
        (let k = ?k2\<lparr>lists := A, uxTopReadyPriority := b\<rparr> in
         if xSchedulerRunning k
         then Option.bind (pxCurrentTCB k) (\<lambda>cur. Some (if uxPriority (tcb k cur) < uxPriority (tcb k t) then portYIELD k else k)) else Some k)"
      using cur c1 c3 by (simp add: prvAddNewTaskToReadyList_def Let_def)
    then show ?thesis using curT(2) A1(2) by (simp add: Let_def portYIELD_def)
  qed
  then have run: "xTaskCreate abs_step p t k = Some ?k'" using A1(1) by (simp add: xTaskCreate_def)
  have pl: "places ?k' = (places k)(xStateListItem t := Some (pxReadyTasksLists (unat p)))" using A(3) by simp
  have "lists_ok (insert t T) ?k'"
    using D(2-9) t room p31 A(2,5,6) A1(2,5) pl by (auto simp: lists_ok_def)
  moreover have "task_place ?k' u" if "u \<in> insert t T" for u
  proof (cases "u = t")
    case True
    then show ?thesis using pl D(6) [OF t] A1(2) by (simp add: task_place_def is_ready_def)
  next
    case False
    then show ?thesis using that D(10) [of u] pl by (simp add: task_place_def is_ready_def is_delayed_def)
  qed
  moreover have "bits_ok ?k'" using A(8) by (simp add: bits_ok_def)
  moreover have "delayed_ok ?k'"
  proof -
    have "map (la_value A) (seq_items A l) = map (la_value (lists k)) (seq_items (lists k) l)" if l: "l \<in> {xDelayedTaskList1, xDelayedTaskList2}" for l
    proof -
      have "xEventListItem t \<notin> set (seq_items (lists k) l)" using D(6) [OF t] container_iff [OF D(1)] by (metis option.distinct(1))
      then show ?thesis using A(4,7) A1(6) l by (auto intro!: map_cong)
    qed
    then show ?thesis using D(12) by (auto simp: delayed_ok_def)
  qed
  moreover have "uxNumberOfTasks ?k' > 0" using room(2) by (simp add: word_neq_0_conv)
  moreover have "\<exists>c\<in>insert t T. pxCurrentTCB ?k' = Some c" using curT by simp
  ultimately have "core_ok (insert t T) ?k'" by (simp add: core_ok_def)
  moreover have "wake_time ?k' u = wake_time k u" for u using A(4) A1(6) by simp
  moreover have "\<forall>u. u \<noteq> t \<longrightarrow> tcb ?k' u = tcb k u" "uxPriority (tcb ?k' t) = p" using A1(2) by simp_all
  ultimately show ?thesis using run pl by (intro exI [of _ ?k']) simp
qed

end
