(* ===== verification/KernelHistory.thy ===== *)
theory KernelHistory
  imports KernelRun
begin

text \<open>
  The invariant over the histories of the scheduler and what it gives: the running task has the highest priority, delays end with the right tick
  across the wrap-around of the counter, tasks of one priority take turns, time-outs are exact; and all this of the code over linked lists.
\<close>

section \<open>Events\<close>

text \<open>
  When an event can happen. Only the running task sleeps or waits, and only while the scheduler is not suspended; the idle task \<open>i\<close> never does. The counters of
  suspensions, of pended ticks and of tasks do not overflow. A signal finds a task that waits. A task that has moved itself out of the ready tasks goes on with the
  resumption that yields, so that a call of \<open>xTaskResumeAll\<close> alone finds the running task ready.
\<close>

definition current_blocked :: "seq_kernel \<Rightarrow> bool" where
  "current_blocked k \<longleftrightarrow> (case pxCurrentTCB k of None \<Rightarrow> False | Some c \<Rightarrow> \<not> is_ready k c)"

definition legal :: "nat \<Rightarrow> nat set \<Rightarrow> sched_event \<Rightarrow> seq_kernel \<Rightarrow> bool" where
  "legal i T ev k \<longleftrightarrow>
     (case ev of
        Tick \<Rightarrow> uxSchedulerSuspended k \<noteq> 0 \<longrightarrow> xPendedTicks k + 1 \<noteq> 0
      | Switch \<Rightarrow> pendsv k
      | Sleep n \<Rightarrow> n \<noteq> 0 \<and> uxSchedulerSuspended k = 0 \<and> (case pxCurrentTCB k of None \<Rightarrow> False | Some c \<Rightarrow> is_ready k c \<and> c \<noteq> i)
      | Wait e n \<Rightarrow> n \<noteq> 0 \<and> uxSchedulerSuspended k = 0 \<and> (case pxCurrentTCB k of None \<Rightarrow> False | Some c \<Rightarrow> is_ready k c \<and> c \<noteq> i)
      | Signal e \<Rightarrow> seq_items (lists k) (event_list e) \<noteq> []
      | Lock \<Rightarrow> uxSchedulerSuspended k + 1 \<noteq> 0
      | Resume \<Rightarrow> uxSchedulerSuspended k \<noteq> 0
      | Unlock \<Rightarrow> uxSchedulerSuspended k \<noteq> 0 \<and> xSchedulerRunning k \<and> \<not> current_blocked k
      | Create t p \<Rightarrow> t \<notin> T \<and> p < configMAX_PRIORITIES \<and> card T + 1 < 2 ^ 30 \<and> uxNumberOfTasks k + 1 \<noteq> 0)"

definition tasks_after :: "nat set \<Rightarrow> sched_event \<Rightarrow> nat set" where
  "tasks_after T ev = (case ev of Create t p \<Rightarrow> insert t T | _ \<Rightarrow> T)"

text \<open>
  The running task has the highest priority of all ready tasks, unless a switch is requested. While the scheduler is suspended the request can also be the one that
  \<open>xTaskResumeAll\<close> will make, or the running task has blocked itself and is about to yield.
\<close>

definition dispatch_ok :: "seq_kernel \<Rightarrow> bool" where
  "dispatch_ok k \<longleftrightarrow> pendsv k \<or>
     (if uxSchedulerSuspended k = 0 then \<not> xYieldPending k \<and> runs_highest k
      else xSchedulerRunning k \<longrightarrow> xYieldPending k \<or> current_blocked k \<or> runs_highest k)"

definition kernel_inv :: "nat \<Rightarrow> nat set \<Rightarrow> seq_kernel \<Rightarrow> bool" where
  "kernel_inv i T k \<longleftrightarrow> sched_ok T k \<and> dispatch_ok k \<and> is_ready k i"

lemma ready_after:
  assumes "places k' = ready_places W k" and "tcb k' = tcb k"
  shows "is_ready k' t \<longleftrightarrow> is_ready k t \<or> W t"
  using assms by (auto simp: is_ready_def ready_places_def)

lemma highest_after:
  assumes "runs_highest k" and "places k' = ready_places W k" and "tcb k' = tcb k" and "pxCurrentTCB k' = pxCurrentTCB k" and "\<not> outranks k W"
  shows "runs_highest k'"
proof -
  obtain c where c: "pxCurrentTCB k = Some c" "is_ready k c" "\<forall>t. is_ready k t \<longrightarrow> prio k t \<le> prio k c" using assms(1) by (auto simp: runs_highest_def)
  have "prio k t \<le> prio k c" if "W t" for t using assms(5) c(1) that by (auto simp: outranks_def word_less_nat_alt not_less)
  then show ?thesis using c ready_after [OF assms(2,3)] assms(3,4) by (auto simp: runs_highest_def)
qed

lemma times_subset:
  assumes "times_ok k" and "\<And>t l. places k' (xStateListItem t) = Some l \<Longrightarrow> l \<in> {pxDelayedTaskList k, pxOverflowDelayedTaskList k} \<Longrightarrow>
      places k (xStateListItem t) = Some l"
    and "\<And>t. wake_time k' t = wake_time k t" and "xTickCount k' = xTickCount k" "pxDelayedTaskList k' = pxDelayedTaskList k"
      "pxOverflowDelayedTaskList k' = pxOverflowDelayedTaskList k" "xNextTaskUnblockTime k' = xNextTaskUnblockTime k"
  shows "times_ok k'"
  using assms unfolding times_ok_def by auto

text \<open>
  How an event moves a task that waits for no event and does not block itself: the clock advances by the ticks that the event accounts for, the others
  are pended, and the task becomes ready if its time is reached.
\<close>

definition advance :: "sched_event \<Rightarrow> seq_kernel \<Rightarrow> nat" where
  "advance ev k =
     (case ev of
        Tick \<Rightarrow> if uxSchedulerSuspended k = 0 then 1 else 0
      | Resume \<Rightarrow> if uxSchedulerSuspended k = 1 then unat (xPendedTicks k) else 0
      | Unlock \<Rightarrow> if uxSchedulerSuspended k = 1 then unat (xPendedTicks k) else 0
      | _ \<Rightarrow> 0)"

definition blocks :: "sched_event \<Rightarrow> seq_kernel \<Rightarrow> nat \<Rightarrow> bool" where
  "blocks ev k t \<longleftrightarrow> (case ev of Sleep n \<Rightarrow> pxCurrentTCB k = Some t | Wait e n \<Rightarrow> pxCurrentTCB k = Some t | _ \<Rightarrow> False)"

definition follows :: "sched_event \<Rightarrow> nat set \<Rightarrow> seq_kernel \<Rightarrow> seq_kernel \<Rightarrow> bool" where
  "follows ev T k k' \<longleftrightarrow>
     xTickCount k' = xTickCount k + of_nat (advance ev k) \<and>
     unat (xPendedTicks k') + advance ev k = unat (xPendedTicks k) + (if ev = Tick then 1 else 0) \<and>
     (\<forall>t\<in>T. \<not> blocks ev k t \<longrightarrow> places k (xEventListItem t) = None \<longrightarrow>
        wake_time k' t = wake_time k t \<and> prio k' t = prio k t \<and> places k' (xEventListItem t) = None \<and>
        places k' (xStateListItem t) =
          (if within (advance ev k) k t then Some (pxReadyTasksLists (prio k t)) else places k (xStateListItem t)))"

lemma within_0: "core_ok T k \<Longrightarrow> times_ok k \<Longrightarrow> \<not> within 0 k t"
  using remaining_pos by (auto simp: within_def unat_eq_0)

lemma within_1: "core_ok T k \<Longrightarrow> times_ok k \<Longrightarrow> within 1 k t \<longleftrightarrow> expires k t"
proof -
  have "unat (x :: u32) \<le> 1 \<longleftrightarrow> x = 0 \<or> x = 1" for x by (simp add: le_Suc_eq word_unat_eq_iff)
  then show "core_ok T k \<Longrightarrow> times_ok k \<Longrightarrow> within 1 k t \<longleftrightarrow> expires k t"
    using remaining_pos [of T k t] by (auto simp: within_def expires_remaining)
qed

lemma follows_ready:
  assumes "places k' = ready_places W k" and "la_value (lists k') = la_value (lists k)" and "tcb k' = tcb k"
    and "xTickCount k' = xTickCount k + of_nat (advance ev k)"
    and "unat (xPendedTicks k') + advance ev k = unat (xPendedTicks k) + (if ev = Tick then 1 else 0)"
    and "\<And>t. t \<in> T \<Longrightarrow> places k (xEventListItem t) = None \<Longrightarrow> W t \<longleftrightarrow> within (advance ev k) k t"
  shows "follows ev T k k'"
  using assms by (auto simp: follows_def ready_places_def)

lemma follows_same:
  assumes "core_ok T k" "times_ok k" and "advance ev k = 0" and "xTickCount k' = xTickCount k" and "unat (xPendedTicks k') = unat (xPendedTicks k) + (if ev = Tick then 1 else 0)"
    and "\<And>t. t \<in> T \<Longrightarrow> \<not> blocks ev k t \<Longrightarrow> places k (xEventListItem t) = None \<Longrightarrow>
      wake_time k' t = wake_time k t \<and> prio k' t = prio k t \<and> places k' (xEventListItem t) = None \<and> places k' (xStateListItem t) = places k (xStateListItem t)"
  shows "follows ev T k k'"
  using assms within_0 [OF assms(1,2)] by (simp add: follows_def)

lemma follows_yield: "follows ev T k (k'\<lparr>pendsv := b\<rparr>) \<longleftrightarrow> follows ev T k k'"
  by (simp add: follows_def)

lemma current_blocked_iff: "current_blocked k \<longleftrightarrow> (\<exists>c. pxCurrentTCB k = Some c \<and> \<not> is_ready k c)"
  by (auto simp: current_blocked_def split: option.splits)

lemmas dispatch_defs = is_ready_def runs_highest_def current_blocked_iff

lemma yield_frame: "(if w then k\<lparr>pendsv := True\<rparr> else k) = k\<lparr>pendsv := pendsv k \<or> w\<rparr>"
  by (cases k) simp

lemma inv_tick:
  assumes inv: "kernel_inv i T k" and l: "uxSchedulerSuspended k \<noteq> 0 \<longrightarrow> xPendedTicks k + 1 \<noteq> 0"
  shows "\<exists>k'. sched_step abs_step Tick k = Some k' \<and> kernel_inv i T k' \<and> follows Tick T k k'"
proof (cases "uxSchedulerSuspended k = 0")
  case True
  have ok: "core_ok T k" "times_ok k" "resumed_ok k" using inv by (auto simp: kernel_inv_def sched_ok_def)
  obtain sw k1 where k1: "xTaskIncrementTick abs_step k = Some (sw, k1)" "core_ok T k1" "times_ok k1" "ticked k k1"
      "outranks k (expires k) \<or> xYieldPending k \<longrightarrow> sw"
    using tick_spec [OF ok(1,2) True] by blast
  note tk = k1(4) [unfolded ticked_def]
  define b where "b = (pendsv k1 \<or> sw)"
  have pl: "places k1 = ready_places (expires k) k" and pt: "xPendedTicks k1 = xPendedTicks k" "uxSchedulerSuspended k1 = uxSchedulerSuspended k" using tk by blast+
  have "\<not> pending k t" for t using ok(3) True by (simp add: resumed_ok_def pending_def)
  then have np: "places k1 (xEventListItem t) \<noteq> Some xPendingReadyList" for t using ready_not_pending [OF pl] by blast
  have "resumed_ok k1" using np pt ok(3) True by (simp add: resumed_ok_def)
  then have "sched_ok T k1" using k1(2,3) by (simp add: sched_ok_def)
  then have "sched_ok T (k1\<lparr>pendsv := b\<rparr>)" by (simp add: sched_ok_def times_ok_def resumed_ok_def)
  moreover have "dispatch_ok (k1\<lparr>pendsv := b\<rparr>)"
  proof (cases "sw \<or> pendsv k \<or> xYieldPending k")
    case False
    then have "runs_highest k" using inv True by (simp add: kernel_inv_def dispatch_ok_def)
    then have "runs_highest k1" using tk k1(5) False by (intro highest_after [of k k1 "expires k"]) simp_all
    then show ?thesis using False tk by (simp add: dispatch_ok_def runs_highest_def is_ready_def)
  qed (use tk b_def k1(5) in \<open>auto simp: dispatch_ok_def\<close>)
  moreover have "is_ready (k1\<lparr>pendsv := b\<rparr>) i"
    using inv ready_after [of k1 "expires k" k i] tk by (simp add: kernel_inv_def is_ready_def)
  moreover have "sched_step abs_step Tick k = Some (k1\<lparr>pendsv := b\<rparr>)"
    using k1(1) by (simp add: sched_step_def xPortSysTickHandler_def yield_frame b_def)
  moreover have "follows Tick T k k1"
    using tk True within_1 [OF ok(1,2)] by (intro follows_ready [OF pl]) (simp_all add: advance_def)
  ultimately show ?thesis unfolding kernel_inv_def follows_yield [symmetric, of Tick T k k1 b] by blast
next
  case False
  then have "sched_step abs_step Tick k = Some (k\<lparr>xPendedTicks := xPendedTicks k + 1\<rparr>)"
    by (simp add: sched_step_def xPortSysTickHandler_def xTaskIncrementTick_def)
  moreover have "kernel_inv i T (k\<lparr>xPendedTicks := xPendedTicks k + 1\<rparr>)"
    using inv False by (simp add: kernel_inv_def sched_ok_def times_ok_def resumed_ok_def dispatch_ok_def dispatch_defs)
  moreover have "follows Tick T k (k\<lparr>xPendedTicks := xPendedTicks k + 1\<rparr>)"
    using inv False l unatSuc [of "xPendedTicks k"]
    by (intro follows_same) (simp_all add: kernel_inv_def sched_ok_def advance_def add.commute)
  ultimately show ?thesis by blast
qed

lemma inv_switch:
  assumes inv: "kernel_inv i T k"
  shows "\<exists>k'. sched_step abs_step Switch k = Some k' \<and> kernel_inv i T k' \<and> follows Switch T k k' \<and> (uxSchedulerSuspended k = 0 \<longrightarrow> runs_highest k')"
proof (cases "uxSchedulerSuspended k = 0")
  case True
  let ?k = "k\<lparr>pendsv := False\<rparr>"
  have ok: "core_ok T ?k" "times_ok k" "resumed_ok k" "is_ready ?k i" using inv by (simp_all add: kernel_inv_def sched_ok_def is_ready_def)
  obtain k' where k': "vTaskSwitchContext abs_step ?k = Some k'" "core_ok T k'" "runs_highest k'" "places k' = places ?k" "la_value (lists k') = la_value (lists ?k)"
      "k' = ?k\<lparr>lists := lists k', xYieldPending := False, pxCurrentTCB := pxCurrentTCB k'\<rparr>"
    using switch_spec [OF ok(1) _ ok(4)] True by auto
  obtain A c where k'': "k' = ?k\<lparr>lists := A, xYieldPending := False, pxCurrentTCB := c\<rparr>" using k'(6) by metis
  have "times_ok k'" using ok(2) k'(4,5) k'' by (simp add: times_ok_def)
  moreover have "resumed_ok k'" using ok(3) k'(4) k'' by (simp add: resumed_ok_def)
  moreover have "is_ready k' i" using ok(4) k'(4) k'' by (simp add: is_ready_def)
  moreover have "\<not> xYieldPending k'" using k'' by simp
  ultimately have "kernel_inv i T k'" using k'(2,3) by (simp add: kernel_inv_def sched_ok_def dispatch_ok_def)
  moreover have "follows Switch T k k'" using ok(1,2) k'(4,5) k'' by (intro follows_same) (simp_all add: advance_def)
  ultimately show ?thesis using k'(1,3) by (simp add: sched_step_def xPortPendSVHandler_def)
next
  case False
  have "kernel_inv i T (k\<lparr>pendsv := False, xYieldPending := True\<rparr>)"
    using inv False by (simp add: kernel_inv_def sched_ok_def times_ok_def resumed_ok_def dispatch_ok_def is_ready_def)
  moreover have "follows Switch T k (k\<lparr>pendsv := False, xYieldPending := True\<rparr>)"
    using inv by (intro follows_same) (simp_all add: kernel_inv_def sched_ok_def advance_def)
  ultimately show ?thesis using False by (simp add: sched_step_def xPortPendSVHandler_def vTaskSwitchContext_def)
qed

lemma suspended_inv:
  assumes "core_ok T k" and "times_ok k" and "uxSchedulerSuspended k \<noteq> 0" and "is_ready k i" and "dispatch_ok k"
  shows "kernel_inv i T k"
  using assms by (simp add: kernel_inv_def sched_ok_def resumed_ok_def)

lemma blocked_dispatch: "uxSchedulerSuspended k \<noteq> 0 \<Longrightarrow> pxCurrentTCB k = Some c \<Longrightarrow> \<not> is_ready k c \<Longrightarrow> dispatch_ok k"
  by (simp add: dispatch_ok_def current_blocked_iff)

lemma ready_elsewhere:
  assumes "is_ready k i" and "i \<noteq> c" and "places k' = (places k)(xStateListItem c := l)" and "tcb k' = tcb k"
  shows "is_ready k' i"
  using assms by (simp add: is_ready_def)

lemma suspend_one:
  assumes inv: "kernel_inv i T k" and s: "uxSchedulerSuspended k = 0"
  shows "core_ok T (vTaskSuspendAll k)" "times_ok (vTaskSuspendAll k)" "is_ready (vTaskSuspendAll k) t \<longleftrightarrow> is_ready k t"
    "uxSchedulerSuspended (vTaskSuspendAll k) \<noteq> 0" "pxCurrentTCB (vTaskSuspendAll k) = pxCurrentTCB k"
    "is_ready (vTaskSuspendAll k) i" "xTickCount (vTaskSuspendAll k) = xTickCount k" "lists (vTaskSuspendAll k) = lists k"
  using assms by (simp_all add: kernel_inv_def sched_ok_def times_ok_def is_ready_def vTaskSuspendAll_def)

lemma inv_sleep:
  assumes inv: "kernel_inv i T k" and n: "n \<noteq> 0" and s: "uxSchedulerSuspended k = 0" and c: "pxCurrentTCB k = Some c" "is_ready k c" "c \<noteq> i"
  shows "\<exists>k'. sched_step abs_step (Sleep n) k = Some k' \<and> kernel_inv i T k' \<and> follows (Sleep n) T k k' \<and>
    is_delayed k' c \<and> wake_time k' c = xTickCount k + n \<and> places k' (xEventListItem c) = None \<and> uxSchedulerSuspended k' = 1"
proof -
  let ?k = "vTaskSuspendAll k"
  note S = suspend_one [OF inv s]
  have "core_except T c ?k" using S c by (intro core_except) simp_all
  then obtain l vals k' where k': "prvAddCurrentTaskToDelayedList abs_step n False ?k = Some k'" "core_ok T k'" "times_ok k'" "blocked_in c l vals ?k k'"
      "l \<in> {xDelayedTaskList1, xDelayedTaskList2}" "vals = (la_value (lists ?k))(xStateListItem c := xTickCount ?k + n)"
    using block_spec [of T c ?k n False] S(2) n by auto
  obtain A b v where f: "k' = ?k\<lparr>lists := A, uxTopReadyPriority := b, xNextTaskUnblockTime := v\<rparr>" using k'(4) unfolding blocked_in_def by metis
  have pl: "places k' = (places ?k)(xStateListItem c := Some l)" using k'(4) by (simp add: blocked_in_def)
  have "is_ready k' i" using ready_elsewhere [OF S(6) c(3) [symmetric] pl] f by simp
  moreover have s': "uxSchedulerSuspended k' \<noteq> 0" using S(4) f by simp
  moreover have "dispatch_ok k'" using s' c(1) k'(5) pl f by (intro blocked_dispatch [of k' c]) (auto simp: is_ready_def vTaskSuspendAll_def)
  ultimately have "kernel_inv i T k'" by (intro suspended_inv [OF k'(2,3)])
  moreover have fr: "la_value (lists k') = (la_value (lists k))(xStateListItem c := xTickCount k + n)" "places k' = (places k)(xStateListItem c := Some l)"
      "tcb k' = tcb k" "xTickCount k' = xTickCount k" "xPendedTicks k' = xPendedTicks k"
    using k'(4,6) pl f by (simp_all add: blocked_in_def vTaskSuspendAll_def)
  have ok: "core_ok T k" "times_ok k" using inv by (auto simp: kernel_inv_def sched_ok_def)
  have "follows (Sleep n) T k k'" using fr c(1) by (intro follows_same [OF ok]) (auto simp: advance_def blocks_def)
  moreover have "is_delayed k' c" "wake_time k' c = xTickCount k + n" using k'(5) fr by (auto simp: is_delayed_def)
  moreover have "places k' (xEventListItem c) = None"
    using core_okD(10) [OF ok(1), of c] core_okD(13) [OF ok(1)] c fr(2) by (auto simp: task_place_def is_delayed_def is_ready_def)
  moreover have "uxSchedulerSuspended k' = 1" using s f by (simp add: vTaskSuspendAll_def)
  ultimately show ?thesis using k'(1) by (simp add: sched_step_def)
qed

lemma inv_wait:
  assumes inv: "kernel_inv i T k" and n: "n \<noteq> 0" and s: "uxSchedulerSuspended k = 0" and c: "pxCurrentTCB k = Some c" "is_ready k c" "c \<noteq> i"
  shows "\<exists>k'. sched_step abs_step (Wait e n) k = Some k' \<and> kernel_inv i T k' \<and> follows (Wait e n) T k k'"
proof -
  let ?k = "vTaskSuspendAll k"
  note S = suspend_one [OF inv s]
  obtain k' l where k': "vTaskPlaceOnEventList abs_step (event_list e) n ?k = Some k'" "core_ok T k'" "times_ok k'"
      "places k' = (places ?k)(xEventListItem c := Some (event_list e), xStateListItem c := Some l)"
      "k' = ?k\<lparr>lists := lists k', uxTopReadyPriority := uxTopReadyPriority k', xNextTaskUnblockTime := xNextTaskUnblockTime k'\<rparr>"
      "\<And>t. t \<noteq> c \<Longrightarrow> wake_time k' t = wake_time ?k t" "l \<in> {xDelayedTaskList1, xDelayedTaskList2, xSuspendedTaskList}"
    using wait_spec [OF S(1,2), of c n e] S(5) c S(3) n by auto
  obtain A b v where f: "k' = ?k\<lparr>lists := A, uxTopReadyPriority := b, xNextTaskUnblockTime := v\<rparr>" using k'(5) by metis
  have "is_ready k' i" using S(6) c(3) k'(4) f by (simp add: is_ready_def)
  moreover have s': "uxSchedulerSuspended k' \<noteq> 0" using S(4) f by simp
  moreover have "dispatch_ok k'" using s' c(1) k'(4,7) f by (intro blocked_dispatch [of k' c]) (auto simp: is_ready_def vTaskSuspendAll_def)
  ultimately have "kernel_inv i T k'" by (intro suspended_inv [OF k'(2,3)])
  moreover have fr: "places k' = (places k)(xEventListItem c := Some (event_list e), xStateListItem c := Some l)"
      "tcb k' = tcb k" "xTickCount k' = xTickCount k" "xPendedTicks k' = xPendedTicks k" "\<And>t. t \<noteq> c \<Longrightarrow> wake_time k' t = wake_time k t"
    using k'(4,6) f by (simp_all add: vTaskSuspendAll_def)
  have ok: "core_ok T k" "times_ok k" using inv by (auto simp: kernel_inv_def sched_ok_def)
  have "follows (Wait e n) T k k'" using fr c(1) by (intro follows_same [OF ok]) (auto simp: advance_def blocks_def)
  ultimately show ?thesis using k'(1) by (simp add: sched_step_def)
qed

lemma yield_inv: "kernel_inv i T k \<Longrightarrow> kernel_inv i T (k\<lparr>pendsv := pendsv k \<or> b\<rparr>)"
  by (auto simp: kernel_inv_def sched_ok_def times_ok_def resumed_ok_def dispatch_ok_def dispatch_defs)

lemma event_moved_times:
  assumes ok: "core_ok T k" and tm: "times_ok k" and pl: "places k' = (if b then ready_places W k else (places k)(xEventListItem t := l))"
    and v: "la_value (lists k') = la_value (lists k)"
    and f: "k' = k\<lparr>lists := A, uxTopReadyPriority := u, xYieldPending := y\<rparr>"
  shows "times_ok k'"
proof (rule times_subset [OF tm])
  show "places k (xStateListItem t) = Some l"
    if "places k' (xStateListItem t) = Some l" "l \<in> {pxDelayedTaskList k, pxOverflowDelayedTaskList k}" for t l
    using that pl delayed_cases [OF ok] by (auto simp: ready_places_def split: if_splits)
qed (use v f in simp_all)

text \<open>A task has become ready while the scheduler was not suspended; a switch is requested if the task has a higher priority than the running one.\<close>

lemma inv_readied:
  assumes inv: "kernel_inv i T k" and s: "uxSchedulerSuspended k = 0" and ok': "core_ok T k'" and v: "la_value (lists k') = la_value (lists k)"
    and pl: "places k' = ready_places (\<lambda>u. u = t) k" and f: "k' = k\<lparr>lists := A, uxTopReadyPriority := b, xYieldPending := y\<rparr>"
    and w: "outranks k (\<lambda>u. u = t) \<longrightarrow> w" and y: "y \<longrightarrow> xYieldPending k \<or> w"
  shows "kernel_inv i T (k'\<lparr>pendsv := pendsv k' \<or> w\<rparr>)"
proof -
  let ?k = "k'\<lparr>pendsv := pendsv k' \<or> w\<rparr>"
  have ok: "core_ok T k" "times_ok k" "resumed_ok k" "is_ready k i" using inv by (auto simp: kernel_inv_def sched_ok_def)
  have tm: "times_ok k'" by (rule event_moved_times [OF ok(1,2) _ v f, where b = True and t = t and l = None]) (simp add: pl)
  have "\<not> pending k u" for u using ok(3) s by (simp add: resumed_ok_def pending_def)
  then have "resumed_ok k'" using ready_not_pending [OF pl] ok(3) s f by (simp add: resumed_ok_def)
  moreover have "is_ready k' i" using ready_after [OF pl] ok(4) f by simp
  moreover have "dispatch_ok ?k"
  proof (cases "w \<or> pendsv k")
    case False
    then have "runs_highest k" "\<not> xYieldPending k" using inv s by (simp_all add: kernel_inv_def dispatch_ok_def)
    then have "runs_highest k'" using False w f by (intro highest_after [OF _ pl]) simp_all
    then show ?thesis using False s f y \<open>\<not> xYieldPending k\<close> by (simp add: dispatch_ok_def runs_highest_def is_ready_def)
  qed (use f in \<open>auto simp: dispatch_ok_def\<close>)
  ultimately show ?thesis using ok' tm by (simp add: kernel_inv_def sched_ok_def times_ok_def resumed_ok_def is_ready_def)
qed

lemma inv_signal:
  assumes inv: "kernel_inv i T k" and ne: "seq_items (lists k) (event_list e) \<noteq> []"
  shows "\<exists>k'. sched_step abs_step (Signal e) k = Some k' \<and> kernel_inv i T k' \<and> follows (Signal e) T k k'"
proof -
  have ok: "core_ok T k" "times_ok k" "resumed_ok k" "is_ready k i" using inv by (auto simp: kernel_inv_def sched_ok_def)
  let ?W = "\<lambda>t u. u = t"
  obtain t w k' where k': "places k (xEventListItem t) = Some (event_list e)"
      "remove_from_event_list abs_step (event_list e) k = Some (w, k')" "core_ok T k'" "la_value (lists k') = la_value (lists k)" "w \<longleftrightarrow> outranks k (?W t)"
      "places k' = (if uxSchedulerSuspended k = 0 then ready_places (?W t) k else (places k)(xEventListItem t := Some xPendingReadyList))"
      "k' = k\<lparr>lists := lists k', uxTopReadyPriority := uxTopReadyPriority k', xYieldPending := xYieldPending k \<or> w\<rparr>"
    using signal_spec [OF ok(1) ne] by blast
  obtain A b where f: "k' = k\<lparr>lists := A, uxTopReadyPriority := b, xYieldPending := xYieldPending k \<or> w\<rparr>" using k'(7) by metis
  have tm: "times_ok k'" by (rule event_moved_times [OF ok(1,2) k'(6,4) f])
  let ?k = "k'\<lparr>pendsv := pendsv k' \<or> w\<rparr>"
  have "kernel_inv i T ?k"
  proof (cases "uxSchedulerSuspended k = 0")
    case True
    then show ?thesis using k'(5,6) by (intro inv_readied [OF inv True k'(3,4) _ f, of t]) simp_all
  next
    case False
    then have rd: "is_ready k' t \<longleftrightarrow> is_ready k t" for t using k'(6) f by (simp add: is_ready_def)
    then have "dispatch_ok k'" using inv False f by (auto simp: kernel_inv_def dispatch_ok_def current_blocked_iff runs_highest_def)
    then have "kernel_inv i T k'" using suspended_inv [OF k'(3) tm] rd ok(4) False f by simp
    then show ?thesis by (rule yield_inv)
  qed
  moreover have "sched_step abs_step (Signal e) k = Some (k'\<lparr>pendsv := pendsv k' \<or> w\<rparr>)"
    using k'(2) by (simp add: sched_step_def portYIELD_def yield_frame)
  moreover have "follows (Signal e) T k k'"
    using k'(1,4,6) f by (intro follows_same [OF ok(1,2)]) (auto simp: advance_def ready_places_def)
  ultimately show ?thesis unfolding follows_yield [symmetric, of "Signal e" T k k' "pendsv k' \<or> w"] by blast
qed

text \<open>
  The resumption of the scheduler: every task that became ready meanwhile is in the list of its priority. \<open>xTaskResumeAll\<close> requests the switch that is due, if the
  running task is still ready; the caller that has blocked itself yields.
\<close>

lemma resume_all:
  assumes inv: "kernel_inv i T k" and s: "uxSchedulerSuspended k \<noteq> 0"
  shows "\<exists>y k'. xTaskResumeAll abs_step k = Some (y, k') \<and> sched_ok T k' \<and> is_ready k' i \<and> (uxSchedulerSuspended k' \<noteq> 0 \<or> y \<longrightarrow> dispatch_ok k') \<and>
    (xSchedulerRunning k \<and> \<not> current_blocked k \<longrightarrow> dispatch_ok k') \<and> follows Resume T k k' \<and> uxSchedulerSuspended k' = uxSchedulerSuspended k - 1"
proof (cases "uxSchedulerSuspended k = 1")
  case True
  have ok: "core_ok T k" "times_ok k" "is_ready k i" using inv by (auto simp: kernel_inv_def sched_ok_def)
  let ?W = "\<lambda>t. pending k t \<or> within (unat (xPendedTicks k)) k t"
  obtain y k' where k': "xTaskResumeAll abs_step k = Some (y, k')" "sched_ok T k'" "resumed_all k y k'" using resume_last [OF ok(1,2) True] by blast
  note R = k'(3) [unfolded resumed_all_def]
  have "is_ready k' i" using ready_after [of k' ?W k i] R ok(3) by simp
  moreover have "dispatch_ok k'" if "xSchedulerRunning k" "\<not> current_blocked k"
  proof (cases "pendsv k \<or> xYieldPending k \<or> outranks k ?W")
    case False
    then have "runs_highest k" using inv True that by (auto simp: kernel_inv_def dispatch_ok_def)
    then have "runs_highest k'" using R False by (intro highest_after [of k k' ?W]) simp_all
    then show ?thesis using R by (cases y) (auto simp: dispatch_ok_def)
  qed (use R in \<open>auto simp: dispatch_ok_def\<close>)
  moreover have "follows Resume T k k'" using R True by (intro follows_ready [where W = ?W]) (auto simp: advance_def pending_def)
  ultimately show ?thesis using k'(1,2) R True by (auto simp: dispatch_ok_def)
next
  case False
  let ?k = "k\<lparr>uxSchedulerSuspended := uxSchedulerSuspended k - 1\<rparr>"
  have ok: "core_ok T k" "times_ok k" "is_ready k i" "dispatch_ok k" using inv by (auto simp: kernel_inv_def sched_ok_def)
  have "core_ok T ?k" "times_ok ?k" "is_ready ?k i" "uxSchedulerSuspended ?k \<noteq> 0"
    using ok(1-3) False by (simp_all add: times_ok_def is_ready_def)
  moreover have "dispatch_ok ?k" using ok(4) s False by (simp add: dispatch_ok_def dispatch_defs)
  ultimately have "kernel_inv i T ?k" by (intro suspended_inv)
  moreover have "follows Resume T k ?k" using False by (intro follows_same [OF ok(1,2)]) (simp_all add: advance_def)
  ultimately show ?thesis using resume_nested [of k] s False by (intro exI [of _ False] exI [of _ ?k]) (simp add: kernel_inv_def)
qed

lemma inv_resume:
  assumes inv: "kernel_inv i T k" and s: "uxSchedulerSuspended k \<noteq> 0"
  shows "\<exists>k'. sched_step abs_step Resume k = Some k' \<and> kernel_inv i T k' \<and> follows Resume T k k' \<and>
    uxSchedulerSuspended k' = uxSchedulerSuspended k - 1"
proof -
  have yield: "(if y then k' else portYIELD k') = k'\<lparr>pendsv := pendsv k' \<or> \<not> y\<rparr>" for y k'
    using yield_frame [of "\<not> y" k'] by (simp add: portYIELD_def)
  obtain y k' where k': "xTaskResumeAll abs_step k = Some (y, k')" "sched_ok T k'" "is_ready k' i" "uxSchedulerSuspended k' \<noteq> 0 \<or> y \<longrightarrow> dispatch_ok k'"
      "follows Resume T k k'" "uxSchedulerSuspended k' = uxSchedulerSuspended k - 1"
    using resume_all [OF inv s] by blast
  have "kernel_inv i T (k'\<lparr>pendsv := pendsv k' \<or> \<not> y\<rparr>)"
    using k'(2-4) by (cases y) (auto simp: kernel_inv_def sched_ok_def times_ok_def resumed_ok_def dispatch_ok_def dispatch_defs)
  moreover have "sched_step abs_step Resume k = Some (k'\<lparr>pendsv := pendsv k' \<or> \<not> y\<rparr>)" using k'(1) by (simp add: sched_step_def yield)
  moreover have "uxSchedulerSuspended (k'\<lparr>pendsv := pendsv k' \<or> \<not> y\<rparr>) = uxSchedulerSuspended k - 1" using k'(6) by simp
  ultimately show ?thesis using k'(5) unfolding follows_yield [symmetric, of Resume T k k' "pendsv k' \<or> \<not> y"] by blast
qed

lemma inv_unlock:
  assumes inv: "kernel_inv i T k" and s: "uxSchedulerSuspended k \<noteq> 0" and c: "xSchedulerRunning k" "\<not> current_blocked k"
  shows "\<exists>k'. sched_step abs_step Unlock k = Some k' \<and> kernel_inv i T k' \<and> follows Unlock T k k' \<and>
    uxSchedulerSuspended k' = uxSchedulerSuspended k - 1"
proof -
  obtain y k' where k': "xTaskResumeAll abs_step k = Some (y, k')" "sched_ok T k'" "is_ready k' i" "dispatch_ok k'"
      "follows Resume T k k'" "uxSchedulerSuspended k' = uxSchedulerSuspended k - 1"
    using resume_all [OF inv s] c by blast
  moreover have "follows Unlock T k k'" using k'(5) by (simp add: follows_def advance_def blocks_def)
  ultimately show ?thesis by (simp add: sched_step_def kernel_inv_def)
qed

lemma inv_create:
  assumes inv: "kernel_inv i T k" and t: "t \<notin> T" and p: "p < configMAX_PRIORITIES" and room: "card T + 1 < 2 ^ 30" "uxNumberOfTasks k + 1 \<noteq> 0"
  shows "\<exists>k'. xTaskCreate abs_step p t k = Some k' \<and> kernel_inv i (insert t T) k' \<and> follows (Create t p) T k k' \<and> is_ready k' t \<and>
    uxPriority (tcb k' t) = p \<and> uxNumberOfTasks k' = uxNumberOfTasks k + 1 \<and> xSchedulerRunning k' = xSchedulerRunning k \<and> (xSchedulerRunning k \<or> pendsv k' = pendsv k) \<and>
    xYieldPending k' = xYieldPending k \<and> uxSchedulerSuspended k' = uxSchedulerSuspended k"
proof -
  have ok: "core_ok T k" "times_ok k" "resumed_ok k" "is_ready k i" "dispatch_ok k" using inv by (auto simp: kernel_inv_def sched_ok_def)
  obtain cur where cur: "pxCurrentTCB k = Some cur" "cur \<in> T" using core_okD(13) [OF ok(1)] by blast
  let ?cur = "if \<not> xSchedulerRunning k \<and> uxPriority (tcb k cur) \<le> p then t else cur"
  obtain k' where k': "xTaskCreate abs_step p t k = Some k'" "core_ok (insert t T) k'"
      "places k' = (places k)(xStateListItem t := Some (pxReadyTasksLists (unat p)))" "\<And>u. wake_time k' u = wake_time k u"
      "\<And>u. u \<noteq> t \<Longrightarrow> tcb k' u = tcb k u" "uxPriority (tcb k' t) = p"
      "k' = k\<lparr>lists := lists k', tcb := tcb k', uxTopReadyPriority := uxTopReadyPriority k', uxNumberOfTasks := uxNumberOfTasks k + 1,
        uxTaskNumber := uxTaskNumber k', pxCurrentTCB := Some ?cur, pendsv := pendsv k \<or> xSchedulerRunning k \<and> uxPriority (tcb k cur) < p\<rparr>"
    using create_spec [OF ok(1) t p room cur(1)] by blast
  obtain A B b m where f: "k' = k\<lparr>lists := A, tcb := B, uxTopReadyPriority := b, uxNumberOfTasks := uxNumberOfTasks k + 1, uxTaskNumber := m, pxCurrentTCB := Some ?cur,
      pendsv := pendsv k \<or> xSchedulerRunning k \<and> uxPriority (tcb k cur) < p\<rparr>" by (rule that [OF k'(7)])
  have none: "places k (xStateListItem t) = None" using core_okD(5) [OF ok(1) t] .
  have rd: "is_ready k' u \<longleftrightarrow> u = t \<or> is_ready k u" for u
    using k'(3,5,6) none by (cases "u = t") (simp_all add: is_ready_def)
  have tm: "times_ok k'"
    by (rule times_subset [OF ok(2)]) (use k'(3,4) f delayed_cases [OF ok(1)] in \<open>auto split: if_splits\<close>)
  have "dispatch_ok k'"
  proof (cases "runs_highest k \<and> \<not> (xSchedulerRunning k \<and> uxPriority (tcb k cur) < p)")
    case True
    then have c: "is_ready k cur" "\<And>u. is_ready k u \<Longrightarrow> prio k u \<le> prio k cur"
      using cur(1) by (auto simp: runs_highest_def)
    have pr: "prio k' u = (if u = t then unat p else prio k u)" for u using k'(5,6) by simp
    have "cur \<noteq> t" using cur(2) t by blast
    have le: "prio k cur \<le> prio k' ?cur" "unat p \<le> prio k' ?cur"
      using True \<open>cur \<noteq> t\<close> unfolding pr by (auto simp: word_le_nat_alt word_less_nat_alt not_less not_le)
    have "prio k' u \<le> prio k' ?cur" if "is_ready k' u" for u
    proof (cases "u = t")
      case True
      then show ?thesis using le(2) pr [of u] by (simp only: if_True simp_thms)
    next
      case False
      then show ?thesis using that rd [of u] pr [of u] order_trans [OF c(2) le(1), of u] by (simp only: if_False simp_thms)
    qed
    moreover have "is_ready k' ?cur" using rd c(1) by simp
    moreover have "pxCurrentTCB k' = Some ?cur" using f by simp
    ultimately have "runs_highest k'" unfolding runs_highest_def by blast
    then show ?thesis using ok(5) f by (auto simp: dispatch_ok_def)
  next
    case False
    show ?thesis
    proof (cases "pendsv k'")
      case False
      then have "?cur = cur" "\<not> runs_highest k" if "xSchedulerRunning k" using f that \<open>\<not> (runs_highest k \<and> _)\<close> by auto
      moreover have "is_ready k' cur \<longleftrightarrow> is_ready k cur" using rd cur(2) t by auto
      ultimately show ?thesis using ok(5) False f cur(1) \<open>\<not> (runs_highest k \<and> _)\<close> by (auto simp: dispatch_ok_def current_blocked_iff split: if_splits)
    qed (simp add: dispatch_ok_def)
  qed
  moreover have "resumed_ok k'" using ok(3) k'(3) f by (simp add: resumed_ok_def)
  ultimately have "kernel_inv i (insert t T) k'" using k'(2) tm rd ok(4) by (auto simp: kernel_inv_def sched_ok_def)
  moreover have "follows (Create t p) T k k'"
  proof (rule follows_same [OF ok(1,2)])
    fix u assume "u \<in> T"
    then have "u \<noteq> t" using t by blast
    then show "wake_time k' u = wake_time k u \<and> prio k' u = prio k u \<and> places k' (xEventListItem u) = None \<and>
        places k' (xStateListItem u) = places k (xStateListItem u)" if "places k (xEventListItem u) = None"
      using that k'(3-5) by simp
  qed (use f in \<open>simp_all add: advance_def\<close>)
  moreover have "is_ready k' t" using rd by blast
  ultimately show ?thesis using k'(1,6) f by (intro exI [of _ k']) auto
qed

text \<open>Every event has a result and keeps the invariant.\<close>

lemma event_inv:
  assumes inv: "kernel_inv i T k" and l: "legal i T ev k"
  shows "\<exists>k'. sched_step abs_step ev k = Some k' \<and> kernel_inv i (tasks_after T ev) k' \<and> follows ev T k k'"
proof (cases ev)
  case Tick
  then show ?thesis using inv_tick [OF inv] l by (simp add: legal_def tasks_after_def)
next
  case Switch
  then show ?thesis using inv_switch [OF inv] by (auto simp: tasks_after_def)
next
  case (Sleep n)
  then show ?thesis using inv_sleep [OF inv] l by (fastforce simp: legal_def tasks_after_def split: option.splits)
next
  case (Wait e n)
  then show ?thesis using inv_wait [OF inv] l by (auto simp: legal_def tasks_after_def split: option.splits)
next
  case (Signal e)
  then show ?thesis using inv_signal [OF inv] l by (simp add: legal_def tasks_after_def)
next
  case Lock
  have "kernel_inv i T (vTaskSuspendAll k)"
    using inv l Lock by (intro suspended_inv) (auto simp: kernel_inv_def sched_ok_def times_ok_def vTaskSuspendAll_def legal_def dispatch_ok_def dispatch_defs split: if_splits)
  moreover have "follows Lock T k (vTaskSuspendAll k)"
    using inv by (intro follows_same) (simp_all add: kernel_inv_def sched_ok_def advance_def vTaskSuspendAll_def)
  ultimately show ?thesis using Lock by (simp add: sched_step_def tasks_after_def)
next
  case Resume
  then show ?thesis using inv_resume [OF inv] l by (auto simp: legal_def tasks_after_def)
next
  case Unlock
  then show ?thesis using inv_unlock [OF inv] l by (auto simp: legal_def tasks_after_def)
next
  case (Create t p)
  then show ?thesis using inv_create [OF inv, of t p] l by (auto simp: legal_def tasks_after_def sched_step_def)
qed

end
