(* ===== verification/KernelBoot.thy ===== *)
theory KernelBoot
  imports KernelHistory
begin

text \<open>
  From reset to the first task, and from there through every history: the invariant holds, no assertion of the scheduler fails and no loop runs for ever, on
  the linked lists of the code.
\<close>

section \<open>The state at reset\<close>

text \<open>All variables are zero; only the lists of the events are initialised, by whoever creates the queues.\<close>

definition reset_lists :: "(list_id, item) list_abs" where
  "reset_lists =
     \<lparr>la_lists = (\<lambda>l. case l of event_list e \<Rightarrow> Some \<lparr>kl_items = [], kl_index = None\<rparr> | _ \<Rightarrow> None),
      la_value = (\<lambda>_. 0), la_owner = (\<lambda>_. 0), la_container = (\<lambda>_. None)\<rparr>"

definition reset_mem :: "(list_id, item) list_mem" where
  "reset_mem =
     \<lparr>node_at = (\<lambda>n. \<lparr>xItemValue = (case n of ListEnd l \<Rightarrow> portMAX_DELAY | _ \<Rightarrow> 0), pxNext = n, pxPrevious = n, pvOwner = 0, pxContainer = None\<rparr>),
      list_at = (\<lambda>l. \<lparr>uxNumberOfItems = 0, pxIndex = ListEnd l\<rparr>)\<rparr>"

definition reset_kernel :: "'s \<Rightarrow> 's kernel" where
  "reset_kernel s =
     \<lparr>lists = s, tcb = (\<lambda>_. \<lparr>uxPriority = 0, uxBasePriority = 0, uxMutexesHeld = 0, uxTCBNumber = 0, ulNotifiedValue = 0, ucNotifyState = 0\<rparr>), pxCurrentTCB = None,
      pxDelayedTaskList = xDelayedTaskList1, pxOverflowDelayedTaskList = xDelayedTaskList2, uxNumberOfTasks = 0, xTickCount = 0, uxTopReadyPriority = 0,
      xSchedulerRunning = False, xPendedTicks = 0, xYieldPending = False, xNumOfOverflows = 0, uxTaskNumber = 0, xNextTaskUnblockTime = 0,
      uxSchedulerSuspended = 0, pendsv = False\<rparr>"

lemma reset_rep: "mem_rep reset_mem reset_lists"
  by (auto simp: mem_rep_def reset_mem_def reset_lists_def list_rep_def linked_def ring_of_def index_node_def split: list_id.splits)

lemma reset_conc: "reset_kernel reset_mem = conc reset_mem (reset_kernel reset_lists)"
  by (simp add: reset_kernel_def conc_def)

section \<open>The first task\<close>

definition initialised :: "'l set \<Rightarrow> ('l, 'i) list_abs \<Rightarrow> ('l, 'i) list_abs" where
  "initialised L A = A\<lparr>la_lists := \<lambda>l. if l \<in> L then Some \<lparr>kl_items = [], kl_index = None\<rparr> else la_lists A l\<rparr>"

lemma initialised_insert: "initialised L (put_list l \<lparr>kl_items = [], kl_index = None\<rparr> A) = initialised (insert l L) A"
proof -
  have "(\<lambda>x. if x \<in> L then e else (f(l := e)) x) = (\<lambda>x. if x = l \<or> x \<in> L then e else f x)" for e :: "'b klist option" and f by auto
  then show ?thesis by (simp add: initialised_def put_list_def cong: if_cong)
qed

lemma initialise_lists:
  assumes "\<And>l q. l \<in> set ls \<Longrightarrow> la_lists (lists k) l = Some q \<Longrightarrow> kl_items q = []"
  shows "fold (\<lambda>l k. Option.bind k (list_do abs_step (Op_Initialise l))) ls (Some k) = Some (k\<lparr>lists := initialised (set ls) (lists k)\<rparr>)"
  using assms
proof (induction ls arbitrary: k)
  case (Cons l ls)
  let ?k = "k\<lparr>lists := put_list l \<lparr>kl_items = [], kl_index = None\<rparr> (lists k)\<rparr>"
  have l: "list_do abs_step (Op_Initialise l) k = Some ?k"
    using Cons.prems [of l] by (simp add: list_do_def list_call_def abs_step_def split: option.splits)
  have "kl_items q = []" if "l' \<in> set ls" "la_lists (lists ?k) l' = Some q" for l' q
    using that Cons.prems [of l' q] by (cases "l' = l") (auto simp: put_list_def)
  then have "fold (\<lambda>l k. Option.bind k (list_do abs_step (Op_Initialise l))) ls (Some ?k) = Some (?k\<lparr>lists := initialised (set ls) (lists ?k)\<rparr>)"
    by (rule Cons.IH)
  then show ?case using l by (simp add: initialised_insert)
qed (simp add: initialised_def)

text \<open>After the creation of the first task all lists of the kernel exist and the task is the only one in them.\<close>

lemma first_create:
  assumes p: "p < configMAX_PRIORITIES"
  shows "\<exists>k. xTaskCreate abs_step p t (reset_kernel reset_lists) = Some k \<and> kernel_inv t {t} k \<and> uxNumberOfTasks k = 1 \<and>
    \<not> xSchedulerRunning k \<and> \<not> pendsv k \<and> \<not> xYieldPending k \<and> uxSchedulerSuspended k = 0 \<and> uxPriority (tcb k t) = p"
proof -
  let ?k0 = "reset_kernel reset_lists"
  define ls where "ls = map pxReadyTasksLists [0..<unat configMAX_PRIORITIES] @
    [xDelayedTaskList1, xDelayedTaskList2, xPendingReadyList, xTasksWaitingTermination, xSuspendedTaskList]"
  have ls: "l \<in> set ls \<or> (\<exists>e. l = event_list e)" if "kernel_list l" for l
    using that by (cases l) (simp_all add: ls_def kernel_list_def configMAX_PRIORITIES_def)
  have p31: "unat p < 31" using p by (simp add: configMAX_PRIORITIES_def word_less_nat_alt)
  have k0: "lists ?k0 = reset_lists" "la_container reset_lists = (\<lambda>_. None)" "la_owner reset_lists = (\<lambda>_. 0)" "la_value reset_lists = (\<lambda>_. 0)"
    by (simp_all add: reset_kernel_def reset_lists_def)
  have "places ?k0 (xStateListItem t) = None" "places ?k0 (xEventListItem t) = None" unfolding k0 by simp_all
  note new = initialise_task [OF this p, unfolded k0]
  obtain A1 b1 where A1: "prvInitialiseNewTask abs_step p t ?k0 = Some (?k0\<lparr>lists := A1, tcb := (tcb ?k0)(t := b1)\<rparr>)" "uxPriority b1 = p"
      "la_lists A1 = la_lists reset_lists" "la_container A1 = (\<lambda>_. None)"
      "la_owner A1 = (\<lambda>_. 0)(xStateListItem t := t, xEventListItem t := t)" "la_value A1 = (\<lambda>_. 0)(xEventListItem t := configMAX_PRIORITIES - p)"
    using new by blast
  let ?b2 = "b1\<lparr>uxTCBNumber := 1\<rparr>" and ?A2 = "initialised (set ls) A1"
  let ?k1 = "?k0\<lparr>lists := A1, tcb := (tcb ?k0)(t := b1), uxNumberOfTasks := 1, pxCurrentTCB := Some t\<rparr>"
  let ?k2 = "?k0\<lparr>lists := ?A2, tcb := (tcb ?k0)(t := ?b2), uxNumberOfTasks := 1, pxCurrentTCB := Some t, uxTaskNumber := 1\<rparr>"
  have e1: "kl_items q = []" if "la_lists A1 l = Some q" for l q
    using that A1(3) by (auto simp: reset_lists_def split: list_id.splits)
  have init: "prvInitialiseTaskLists abs_step ?k1 = Some (?k1\<lparr>lists := ?A2\<rparr>)"
  proof -
    have "fold (\<lambda>l k. Option.bind k (list_do abs_step (Op_Initialise l))) ls (Some ?k1) = Some (?k1\<lparr>lists := ?A2\<rparr>)"
      using initialise_lists [of ls ?k1] e1 by simp
    then show ?thesis unfolding prvInitialiseTaskLists_def ls_def [symmetric] by (simp add: reset_kernel_def)
  qed
  have items: "seq_items ?A2 = (\<lambda>_. [])" using e1 by (auto simp: fun_eq_iff seq_items_def initialised_def split: option.splits)
  have wf: "seq_wf ?A2"
  proof -
    have "kl_items q = [] \<and> kl_index q = None" if "la_lists ?A2 l = Some q" for l q
      using that A1(3) by (auto simp: initialised_def reset_lists_def split: if_splits list_id.splits)
    moreover have "la_container ?A2 = (\<lambda>_. None)" using A1(4) by (simp add: initialised_def)
    ultimately show ?thesis unfolding seq_wf_def items by simp
  qed
  have lk: "l \<in> dom (la_lists ?A2)" if "kernel_list l" for l
    using ls [OF that] A1(3) by (auto simp: initialised_def reset_lists_def)
  have pk2: "prio ?k2 t = unat p" using A1(2) by simp
  have "seq_wf (lists ?k2)" "places ?k2 (xStateListItem t) = None" "prio ?k2 t < 31" "pxReadyTasksLists (prio ?k2 t) \<in> dom (la_lists (lists ?k2))"
      "length (seq_items (lists ?k2) (pxReadyTasksLists (prio ?k2 t))) + 1 < 2 ^ 32" "bits_ok ?k2"
    using wf A1(4) p31 pk2 lk [of "pxReadyTasksLists (unat p)"] items by (simp_all add: initialised_def kernel_list_def bits_ok_def reset_kernel_def)
  then obtain A b where A: "prvAddTaskToReadyList abs_step t ?k2 = Some (?k2\<lparr>lists := A, uxTopReadyPriority := b\<rparr>)" "seq_wf A"
      "la_container A = [xStateListItem t \<mapsto> pxReadyTasksLists (unat p)]" "la_value A = la_value A1" "la_owner A = la_owner A1"
      "dom (la_lists A) = dom (la_lists ?A2)"
      "\<forall>l. l \<noteq> pxReadyTasksLists (unat p) \<longrightarrow> seq_items A l = []" "bits_ok (?k2\<lparr>lists := A, uxTopReadyPriority := b\<rparr>)"
    using add_new_ready [of ?k2 t] A1(2,4) items by (auto simp: initialised_def)
  let ?k' = "?k2\<lparr>lists := A, uxTopReadyPriority := b\<rparr>"
  have run: "xTaskCreate abs_step p t ?k0 = Some ?k'"
  proof -
    have "?k1\<lparr>lists := ?A2, uxTaskNumber := 1, tcb := (tcb ?k0)(t := ?b2)\<rparr> = ?k2" by simp
    then show ?thesis using A1(1) init A(1) by (simp add: xTaskCreate_def prvAddNewTaskToReadyList_def Let_def reset_kernel_def)
  qed
  have rd: "is_ready ?k' u \<longleftrightarrow> u = t" for u using A(3) A1(2) by (auto simp: is_ready_def)
  have "lists_ok {t} ?k'" using A A1(2,5) lk p31 by (simp add: lists_ok_def)
  moreover have "task_place ?k' t" using rd A(3) by (simp add: task_place_def)
  moreover have "delayed_ok ?k'" using A(7) by (simp add: delayed_ok_def reset_kernel_def)
  ultimately have "core_ok {t} ?k'" using A(8) by (simp add: core_ok_def)
  moreover have "times_ok ?k'" using A(3) by (simp add: times_ok_def reset_kernel_def)
  moreover have "resumed_ok ?k'" using A(3) by (simp add: resumed_ok_def reset_kernel_def)
  moreover have hi: "runs_highest ?k'" using rd by (simp add: runs_highest_def)
  moreover have "\<not> xYieldPending ?k'" by (simp add: reset_kernel_def)
  ultimately have "kernel_inv t {t} ?k'" using rd by (simp add: kernel_inv_def sched_ok_def dispatch_ok_def)
  then show ?thesis using run A1(2) by (intro exI [of _ ?k']) (simp add: reset_kernel_def)
qed

section \<open>All tasks, and the start\<close>

text \<open>The application creates its tasks and starts the scheduler.\<close>

fun create_all :: "'s list_step \<Rightarrow> (nat \<times> u32) list \<Rightarrow> 's kernel \<Rightarrow> 's kernel option" where
  "create_all st [] k = Some k"
| "create_all st ((t, p) # ts) k = Option.bind (xTaskCreate st p t k) (create_all st ts)"

definition start_system :: "'s list_step \<Rightarrow> (nat \<times> u32) list \<Rightarrow> nat \<Rightarrow> nat \<Rightarrow> 's kernel \<Rightarrow> 's kernel option" where
  "start_system st ts idle timer k = Option.bind (create_all st ts k) (vTaskStartScheduler st idle timer)"

definition not_started :: "nat set \<Rightarrow> seq_kernel \<Rightarrow> bool" where
  "not_started T k \<longleftrightarrow>
     (\<forall>i\<in>T. kernel_inv i T k) \<and> T \<noteq> {} \<and> uxNumberOfTasks k = of_nat (card T) \<and> \<not> xSchedulerRunning k \<and> \<not> pendsv k \<and> \<not> xYieldPending k \<and>
     uxSchedulerSuspended k = 0"

lemma create_all_append: "create_all st (ts @ us) k = Option.bind (create_all st ts k) (create_all st us)"
proof (induction ts arbitrary: k)
  case (Cons x ts)
  then have "create_all st (ts @ us) = (\<lambda>k. Option.bind (create_all st ts k) (create_all st us))" by blast
  then show ?case by (cases x) simp
qed simp

lemma ready_waits_not: "core_ok T k \<Longrightarrow> t \<in> T \<Longrightarrow> is_ready k t \<Longrightarrow> places k (xEventListItem t) = None"
  using core_okD(10) [of T k t] by (auto simp: task_place_def is_ready_def is_delayed_def)

lemma follows_stays_ready:
  assumes inv: "kernel_inv i T k" and f: "follows ev T k k'" and t: "t \<in> T" "is_ready k t" "\<not> blocks ev k t"
  shows "is_ready k' t"
proof -
  have "core_ok T k" using inv by (simp add: kernel_inv_def sched_ok_def)
  then have "places k (xEventListItem t) = None" using ready_waits_not t by blast
  moreover have "\<not> is_delayed k t" using t(2) by (auto simp: is_delayed_def is_ready_def)
  ultimately show ?thesis using f t by (simp add: follows_def is_ready_def within_def)
qed

lemma create_one:
  assumes ns: "not_started T k" and t: "t \<notin> T" and p: "p < configMAX_PRIORITIES" and room: "card T + 1 < 2 ^ 30"
  shows "\<exists>k'. xTaskCreate abs_step p t k = Some k' \<and> not_started (insert t T) k' \<and> prio k' t = unat p \<and> (\<forall>u\<in>T. prio k' u = prio k u)"
proof -
  obtain i where i: "i \<in> T" "kernel_inv i T k" using ns by (auto simp: not_started_def)
  have fin: "finite T" using i(2) by (simp add: kernel_inv_def sched_ok_def core_ok_def lists_ok_def)
  have n: "uxNumberOfTasks k + 1 = of_nat (card (insert t T))" using ns fin t by (simp add: not_started_def add.commute)
  have "card (insert t T) < 2 ^ 32" using room fin t by simp
  then have "unat (of_nat (card (insert t T)) :: u32) = card (insert t T)" by (simp only: unat_of_nat) (simp add: take_bit_eq_mod)
  then have "of_nat (card (insert t T)) \<noteq> (0 :: u32)" using fin by (metis card_0_eq finite_insert insert_not_empty unat_0)
  then have n0: "uxNumberOfTasks k + 1 \<noteq> 0" using n by simp
  obtain k' where k': "xTaskCreate abs_step p t k = Some k'" "kernel_inv i (insert t T) k'" "follows (Create t p) T k k'" "is_ready k' t"
      "uxPriority (tcb k' t) = p" "uxNumberOfTasks k' = uxNumberOfTasks k + 1" "xSchedulerRunning k' = xSchedulerRunning k" "xSchedulerRunning k \<or> pendsv k' = pendsv k"
      "xYieldPending k' = xYieldPending k" "uxSchedulerSuspended k' = uxSchedulerSuspended k"
    using inv_create [OF i(2) t p room n0] by blast
  have "is_ready k' j" if j: "j \<in> insert t T" for j
  proof (cases "j = t")
    case False
    then have "j \<in> T" "is_ready k j" using j ns by (auto simp: not_started_def kernel_inv_def)
    then show ?thesis using follows_stays_ready [OF i(2) k'(3)] by (simp add: blocks_def)
  qed (use k'(4) in simp)
  then have "\<forall>j\<in>insert t T. kernel_inv j (insert t T) k'" using k'(2) by (simp add: kernel_inv_def)
  then have "not_started (insert t T) k'" using k' ns n by (auto simp: not_started_def)
  moreover have "prio k' u = prio k u" if u: "u \<in> T" for u
  proof -
    have "core_ok T k" "is_ready k u" using ns u by (auto simp: not_started_def kernel_inv_def sched_ok_def)
    then show ?thesis using k'(3) u ready_waits_not by (simp add: follows_def blocks_def)
  qed
  ultimately show ?thesis using k'(1,5) by auto
qed

lemma create_many:
  assumes "not_started T k" and "distinct (map fst ts)" and "T \<inter> fst ` set ts = {}" and "\<forall>(t, p)\<in>set ts. p < configMAX_PRIORITIES"
    and "card T + length ts < 2 ^ 30" and "finite T"
  shows "\<exists>k'. create_all abs_step ts k = Some k' \<and> not_started (T \<union> fst ` set ts) k' \<and> (\<forall>(t, p)\<in>set ts. prio k' t = unat p) \<and> (\<forall>u\<in>T. prio k' u = prio k u)"
  using assms
proof (induction ts arbitrary: T k)
  case (Cons x ts)
  obtain t p where x: "x = (t, p)" by (cases x)
  have "t \<notin> T" "p < configMAX_PRIORITIES" "card T + 1 < 2 ^ 30" using Cons.prems x by auto
  then obtain k1 where k1: "xTaskCreate abs_step p t k = Some k1" "not_started (insert t T) k1"
      "prio k1 t = unat p" "\<forall>u\<in>T. prio k1 u = prio k u" using create_one [OF Cons.prems(1)] by blast
  have "distinct (map fst ts)" "insert t T \<inter> fst ` set ts = {}" "\<forall>(t, p)\<in>set ts. p < configMAX_PRIORITIES"
      "card (insert t T) + length ts < 2 ^ 30" "finite (insert t T)"
    using Cons.prems x \<open>t \<notin> T\<close> by auto
  then obtain k' where k': "create_all abs_step ts k1 = Some k'" "not_started (insert t T \<union> fst ` set ts) k'"
      "\<forall>(t, p)\<in>set ts. prio k' t = unat p" "\<forall>u\<in>insert t T. prio k' u = prio k1 u" using Cons.IH [OF k1(2)] by blast
  then have "\<forall>(t, p)\<in>set (x # ts). prio k' t = unat p" "\<forall>u\<in>T. prio k' u = prio k u" using k1(3,4) x by auto
  then show ?case using k1(1) k'(1,2) x by simp
qed simp

lemma create_from_reset:
  assumes "ts \<noteq> []" and "distinct (map fst ts)" and "\<forall>(t, p)\<in>set ts. p < configMAX_PRIORITIES" and "length ts < 2 ^ 30"
  shows "\<exists>k. create_all abs_step ts (reset_kernel reset_lists) = Some k \<and> not_started (fst ` set ts) k \<and> (\<forall>(t, p)\<in>set ts. prio k t = unat p)"
proof -
  obtain t p us where ts: "ts = (t, p) # us" using assms(1) by (cases ts) auto
  have p: "p < configMAX_PRIORITIES" using assms(3) ts by auto
  obtain k where k: "xTaskCreate abs_step p t (reset_kernel reset_lists) = Some k" "not_started {t} k" "prio k t = unat p"
    using first_create [OF p, of t] by (auto simp: not_started_def)
  have "\<exists>k'. create_all abs_step us k = Some k' \<and> not_started ({t} \<union> fst ` set us) k' \<and> (\<forall>(t, p)\<in>set us. prio k' t = unat p) \<and> (\<forall>u\<in>{t}. prio k' u = prio k u)"
    using assms ts by (intro create_many [OF k(2)]) auto
  then obtain k' where k': "create_all abs_step us k = Some k'" "not_started ({t} \<union> fst ` set us) k'" "\<forall>(t, p)\<in>set us. prio k' t = unat p" "prio k' t = prio k t"
    by blast
  then have "\<forall>(t, p)\<in>set ts. prio k' t = unat p" using k(3) ts by auto
  then show ?thesis using k(1) k'(1,2) ts by simp
qed

lemma create_all_refines: "mem_rep M (lists k) \<Longrightarrow> refines krel (create_all mem_step ts (conc M k)) (create_all abs_step ts k)"
proof (induction ts arbitrary: M k)
  case (Cons x ts)
  then show ?case by (cases x) (auto intro!: refines_bind xTaskCreate_refines)
qed (simp add: refines_Some)

lemma start_refines: "refines krel (start_system mem_step ts i j (reset_kernel reset_mem)) (start_system abs_step ts i j (reset_kernel reset_lists))"
  unfolding start_system_def reset_conc
  by (intro refines_bind create_all_refines vTaskStartScheduler_refines) (simp_all add: reset_kernel_def reset_rep)

lemma start_spec:
  assumes d: "distinct (map fst ts @ [idle, timer])" and p: "\<forall>(t, p)\<in>set ts. p < configMAX_PRIORITIES" and n: "length ts + 2 < 2 ^ 30"
  shows "\<exists>k. start_system abs_step ts idle timer (reset_kernel reset_lists) = Some k \<and>
    kernel_inv idle ({idle, timer} \<union> fst ` set ts) k \<and> runs_highest k \<and> xSchedulerRunning k \<and> xTickCount k = 0 \<and> uxSchedulerSuspended k = 0 \<and>
    (\<forall>(t, p)\<in>set (ts @ [(idle, 0), (timer, configTIMER_TASK_PRIORITY)]). prio k t = unat p) \<and> (\<forall>t\<in>{idle, timer} \<union> fst ` set ts. is_ready k t)"
proof -
  let ?ts = "ts @ [(idle, 0), (timer, configTIMER_TASK_PRIORITY)]" and ?T = "{idle, timer} \<union> fst ` set ts"
  have "?ts \<noteq> []" "distinct (map fst ?ts)" "\<forall>(t, p)\<in>set ?ts. p < configMAX_PRIORITIES" "length ?ts < 2 ^ 30"
    using d p n by (auto simp: configTIMER_TASK_PRIORITY_def configMAX_PRIORITIES_def)
  then obtain k where k: "create_all abs_step ?ts (reset_kernel reset_lists) = Some k" "not_started (fst ` set ?ts) k"
      "\<forall>(t, p)\<in>set ?ts. prio k t = unat p"
    using create_from_reset by blast
  have T: "fst ` set ?ts = ?T" by auto
  let ?k = "k\<lparr>xNextTaskUnblockTime := portMAX_DELAY, xSchedulerRunning := True, xTickCount := 0\<rparr>"
  have inv: "kernel_inv i ?T k" if "i \<in> ?T" for i using k(2) that unfolding T not_started_def by blast
  have rd: "is_ready k i" if "i \<in> ?T" for i using inv [OF that] by (simp add: kernel_inv_def)
  have ok: "core_ok ?T k" "resumed_ok k" "dispatch_ok k" using inv [of idle] by (auto simp: kernel_inv_def sched_ok_def)
  have nd: "places k (xStateListItem i) \<noteq> Some l" if "l \<in> {pxDelayedTaskList k, pxOverflowDelayedTaskList k}" for i l
    using that rd [of i] core_okD(5) [OF ok(1), of i] delayed_cases [OF ok(1)] by (cases "i \<in> ?T") (auto simp: is_ready_def)
  have c: "core_ok ?T ?k" using ok(1) by (simp add: core_defs)
  have "times_ok ?k" using nd by (simp add: times_ok_def)
  moreover have "resumed_ok ?k" using ok(2) by (simp add: resumed_ok_def)
  moreover have "runs_highest k" using ok(3) k(2) by (simp add: dispatch_ok_def not_started_def)
  then have hi: "runs_highest ?k" by (simp add: runs_highest_def is_ready_def)
  moreover have "\<not> xYieldPending ?k" using k(2) by (simp add: not_started_def)
  ultimately have "kernel_inv idle ?T ?k" using c rd [of idle] by (simp add: kernel_inv_def sched_ok_def dispatch_ok_def is_ready_def)
  moreover have "start_system abs_step ts idle timer (reset_kernel reset_lists) = Some ?k"
    using k(1) unfolding start_system_def create_all_append
    by (auto simp: vTaskStartScheduler_def split: Option.bind_splits)
  moreover have "\<forall>t\<in>?T. is_ready ?k t" using rd by (simp add: is_ready_def)
  ultimately show ?thesis using hi k(2,3) by (intro exI [of _ ?k]) (simp add: not_started_def)
qed

section \<open>Histories\<close>

fun legal_run :: "nat \<Rightarrow> nat set \<Rightarrow> sched_event list \<Rightarrow> seq_kernel \<Rightarrow> bool" where
  "legal_run i T [] k = True"
| "legal_run i T (ev # evs) k \<longleftrightarrow>
     legal i T ev k \<and> (case sched_step abs_step ev k of None \<Rightarrow> True | Some k' \<Rightarrow> legal_run i (tasks_after T ev) evs k')"

lemma run_inv:
  assumes "kernel_inv i T k" and "legal_run i T evs k"
  shows "\<exists>k'. sched_run abs_step evs k = Some k' \<and> kernel_inv i (foldl tasks_after T evs) k'"
  using assms
proof (induction evs arbitrary: T k)
  case (Cons ev evs)
  obtain k1 where k1: "sched_step abs_step ev k = Some k1" "kernel_inv i (tasks_after T ev) k1" using event_inv [OF Cons.prems(1)] Cons.prems(2) by auto
  then show ?case using Cons.IH [OF k1(2)] Cons.prems(2) by simp
qed simp

lemma refinesE: "refines krel x (Some k) \<Longrightarrow> \<exists>M. x = Some (conc M k) \<and> mem_rep M (lists k)"
  by (auto simp: refines_def krel_def)

text \<open>
  Claim C31: The start of the system, on linked lists: for every list of distinct tasks with priorities below the maximum, their creation from the state at reset and the
  start of the scheduler return; afterwards the lists of the kernel represent the sequences of a state that satisfies the invariant, the scheduler runs at tick 0, and
  the task that is going to run has the highest priority of all ready tasks.
\<close>

theorem scheduler_starts:
  assumes "distinct (map fst ts @ [idle, timer])" and "\<forall>(t, p)\<in>set ts. p < configMAX_PRIORITIES" and "length ts + 2 < 2 ^ 30"
  shows "\<exists>M k. start_system mem_step ts idle timer (reset_kernel reset_mem) = Some (conc M k) \<and> mem_rep M (lists k) \<and>
    kernel_inv idle ({idle, timer} \<union> fst ` set ts) k \<and> runs_highest k \<and> xSchedulerRunning k \<and> xTickCount k = 0 \<and> uxSchedulerSuspended k = 0"
proof -
  obtain k where k: "start_system abs_step ts idle timer (reset_kernel reset_lists) = Some k" "kernel_inv idle ({idle, timer} \<union> fst ` set ts) k"
      "runs_highest k" "xSchedulerRunning k" "xTickCount k = 0" "uxSchedulerSuspended k = 0"
    using start_spec [OF assms] by blast
  show ?thesis using start_refines [of ts idle timer, unfolded k(1), THEN refinesE] k(2-) by blast
qed

theorem scheduler_starts_witness:
  "\<exists>M k. start_system mem_step [(2, 3), (3, 5)] 0 1 (reset_kernel reset_mem) = Some (conc M k) \<and> mem_rep M (lists k) \<and>
    kernel_inv 0 ({0, 1} \<union> fst ` set [(2, 3 :: u32), (3, 5)]) k \<and> runs_highest k \<and> xSchedulerRunning k \<and> xTickCount k = 0 \<and> uxSchedulerSuspended k = 0"
  by (rule scheduler_starts) (simp_all add: configMAX_PRIORITIES_def)

lemma start_one:
  "\<exists>k c. start_system abs_step [(2, 3)] 0 1 (reset_kernel reset_lists) = Some k \<and> kernel_inv 0 {0, 1, 2} k \<and> uxSchedulerSuspended k = 0 \<and>
    pxCurrentTCB k = Some c \<and> is_ready k c \<and> c \<noteq> 0 \<and> (\<forall>t. is_ready k t \<longrightarrow> prio k t \<le> prio k c) \<and> xSchedulerRunning k"
proof -
  have "distinct (map fst [(2 :: nat, 3 :: u32)] @ [0, 1])" "\<forall>(t, p)\<in>set [(2 :: nat, 3 :: u32)]. p < configMAX_PRIORITIES" "length [(2 :: nat, 3 :: u32)] + 2 < 2 ^ 30"
    by (simp_all add: configMAX_PRIORITIES_def)
  moreover have "{0, 1} \<union> fst ` set [(2, 3 :: u32)] = {0 :: nat, 1, 2}" by auto
  ultimately obtain k where k: "start_system abs_step [(2, 3)] 0 1 (reset_kernel reset_lists) = Some k" "kernel_inv 0 {0, 1, 2} k" "uxSchedulerSuspended k = 0"
      "runs_highest k" "prio k 1 = unat configTIMER_TASK_PRIORITY" "prio k 0 = 0" "is_ready k 1" "xSchedulerRunning k"
    using start_spec [of "[(2, 3)]" 0 1] by auto
  obtain c where c: "pxCurrentTCB k = Some c" "is_ready k c" "\<forall>t. is_ready k t \<longrightarrow> prio k t \<le> prio k c" using k(4) by (auto simp: runs_highest_def)
  have "prio k c \<noteq> 0" using c(3) k(5,7) by (auto simp: configTIMER_TASK_PRIORITY_def)
  then have "c \<noteq> 0" using k(6) by metis
  then show ?thesis using k(1-3,8) c by blast
qed

text \<open>
  Claim C11: Every history of the scheduler on linked lists: from any state with the invariant, after any sequence of ticks, switches, delays, waits, signals,
  suspensions, resumptions and creations that respects the contracts of the functions - resumptions with the yield that ends a blocking call, and bare calls of
  \<open>xTaskResumeAll\<close>, after which a switch is requested only if the kernel found one due -, no assertion has failed, no loop has failed to end, the linked lists
  represent the sequences of the same run on sequences, and the invariant holds: every task is in the list of its priority, in one of the lists of delayed tasks in
  the order of the times, or suspended, the bits of the priorities are those of the lists with tasks, and outside a suspension without a requested switch the running
  task is a ready one of the highest priority.
\<close>

theorem scheduler_history:
  assumes "kernel_inv i T k" and "mem_rep M (lists k)" and "legal_run i T evs k"
  shows "\<exists>M' k'. sched_run mem_step evs (conc M k) = Some (conc M' k') \<and> mem_rep M' (lists k') \<and>
    sched_run abs_step evs k = Some k' \<and> kernel_inv i (foldl tasks_after T evs) k' \<and>
    (uxSchedulerSuspended k' = 0 \<and> \<not> pendsv k' \<longrightarrow> (\<exists>c. pxCurrentTCB k' = Some c \<and> is_ready k' c \<and> (\<forall>t. is_ready k' t \<longrightarrow> prio k' t \<le> prio k' c)))"
proof -
  obtain k' where k': "sched_run abs_step evs k = Some k'" "kernel_inv i (foldl tasks_after T evs) k'" using run_inv [OF assms(1,3)] by blast
  moreover have "uxSchedulerSuspended k' = 0 \<and> \<not> pendsv k' \<longrightarrow> runs_highest k'" using k'(2) by (auto simp: kernel_inv_def dispatch_ok_def)
  ultimately show ?thesis using sched_run_refines [OF assms(2), of evs, unfolded k'(1), THEN refinesE] unfolding runs_highest_def by blast
qed

theorem scheduler_history_witness:
  "\<exists>k M M' k'. kernel_inv 0 {0, 1, 2} k \<and> sched_run mem_step [Lock, Tick, Unlock] (conc M k) = Some (conc M' k') \<and> kernel_inv 0 {0, 1, 2} k'"
proof -
  obtain k where k: "start_system abs_step [(2, 3)] 0 1 (reset_kernel reset_lists) = Some k" "kernel_inv 0 {0, 1, 2} k" "uxSchedulerSuspended k = 0"
      "xSchedulerRunning k" "\<not> current_blocked k"
    using start_one by (auto simp: current_blocked_def)
  obtain M where M: "mem_rep M (lists k)" using start_refines [of "[(2, 3)]" 0 1, unfolded k(1), THEN refinesE] by blast
  have "xPendedTicks k = 0" using k(2,3) by (simp add: kernel_inv_def sched_ok_def resumed_ok_def)
  then have "legal_run 0 {0, 1, 2} [Lock, Tick, Unlock] k"
    using k(3-5) by (auto simp: legal_def sched_step_def vTaskSuspendAll_def xPortSysTickHandler_def xTaskIncrementTick_def dispatch_defs split: option.splits)
  then show ?thesis using scheduler_history [OF k(2) M] k(2) by (fastforce simp: tasks_after_def)
qed

text \<open>
  The interrupt of the switch, on linked lists: while the scheduler is not suspended it makes running a ready task such that no ready task has a
  higher priority; no task changes its list, and the request is cleared.
\<close>

theorem switch_runs_highest:
  assumes "kernel_inv i T k" and "mem_rep M (lists k)" and "uxSchedulerSuspended k = 0"
  shows "\<exists>M' k' c. xPortPendSVHandler mem_step (conc M k) = Some (conc M' k') \<and> mem_rep M' (lists k') \<and> pxCurrentTCB k' = Some c \<and> is_ready k c \<and>
    (\<forall>t. is_ready k t \<longrightarrow> prio k t \<le> prio k c) \<and> la_container (lists k') = la_container (lists k) \<and> \<not> pendsv k' \<and> \<not> xYieldPending k'"
proof -
  let ?k = "k\<lparr>pendsv := False\<rparr>"
  have ok: "core_ok T ?k" "is_ready ?k i" using assms(1) by (simp_all add: kernel_inv_def sched_ok_def is_ready_def)
  obtain k' where k': "vTaskSwitchContext abs_step ?k = Some k'" "runs_highest k'" "places k' = places ?k"
      "k' = ?k\<lparr>lists := lists k', xYieldPending := False, pxCurrentTCB := pxCurrentTCB k'\<rparr>"
    using switch_spec [OF ok(1) _ ok(2)] assms(3) by auto
  obtain A c where f: "k' = ?k\<lparr>lists := A, xYieldPending := False, pxCurrentTCB := c\<rparr>" using k'(4) by metis
  have same: "is_ready k' t \<longleftrightarrow> is_ready k t" "prio k' t = prio k t" for t using k'(3) f by (simp_all add: is_ready_def)
  have "refines krel (vTaskSwitchContext mem_step (conc M ?k)) (vTaskSwitchContext abs_step ?k)" using assms(2) by (intro vTaskSwitchContext_refines) simp
  then obtain M' where M': "vTaskSwitchContext mem_step (conc M ?k) = Some (conc M' k')" "mem_rep M' (lists k')" unfolding k'(1) using refinesE by blast
  have "xPortPendSVHandler mem_step (conc M k) = Some (conc M' k')" using M'(1) by (simp add: xPortPendSVHandler_def)
  moreover have "\<not> pendsv k'" "\<not> xYieldPending k'" "places k' = places k" using f k'(3) by simp_all
  ultimately show ?thesis using M'(2) k'(2) unfolding runs_highest_def same by blast
qed

theorem switch_runs_highest_witness:
  "\<exists>k M M' k' c. xPortPendSVHandler mem_step (conc M k) = Some (conc M' k') \<and> pxCurrentTCB k' = Some c \<and> is_ready k c \<and> prio k 0 \<le> prio k c"
proof -
  obtain k where k: "start_system abs_step [(2, 3)] 0 1 (reset_kernel reset_lists) = Some k" "kernel_inv 0 {0, 1, 2} k" "uxSchedulerSuspended k = 0"
    using start_one by blast
  obtain M where M: "mem_rep M (lists k)" using start_refines [of "[(2, 3)]" 0 1, unfolded k(1), THEN refinesE] by blast
  have "is_ready k 0" using k(2) by (simp add: kernel_inv_def)
  then show ?thesis using switch_runs_highest [OF k(2) M k(3)] by blast
qed

end
