(* ===== verification/KernelTiming.thy ===== *)
theory KernelTiming
  imports KernelBoot
begin

text \<open>
  Time in the scheduler: delays end with the right tick across the wrap-around of the counter and the suspension of the scheduler, time-outs are exact
  across a wrap-around, and the tasks of the highest priority take turns.
\<close>

section \<open>Delays\<close>

text \<open>The task does not block itself again.\<close>

fun undisturbed :: "nat \<Rightarrow> sched_event list \<Rightarrow> seq_kernel \<Rightarrow> bool" where
  "undisturbed c [] k = True"
| "undisturbed c (ev # evs) k \<longleftrightarrow>
     \<not> blocks ev k c \<and> (case sched_step abs_step ev k of None \<Rightarrow> True | Some k' \<Rightarrow> undisturbed c evs k')"

fun ticks_in :: "sched_event list \<Rightarrow> nat" where
  "ticks_in [] = 0"
| "ticks_in (ev # evs) = (if ev = Tick then 1 else 0) + ticks_in evs"

text \<open>Of \<open>m\<close> ticks since the start at \<open>t0\<close> the clock has seen \<open>e\<close>; the others are pended.\<close>

definition timed :: "nat \<Rightarrow> u32 \<Rightarrow> u32 \<Rightarrow> nat \<Rightarrow> nat set \<Rightarrow> seq_kernel \<Rightarrow> bool" where
  "timed c t0 n m T k \<longleftrightarrow>
     c \<in> T \<and> places k (xEventListItem c) = None \<and>
     (\<exists>e. xTickCount k = t0 + of_nat e \<and> m = e + unat (xPendedTicks k) \<and>
        (is_delayed k c \<and> wake_time k c = t0 + n \<and> e < unat n \<or> is_ready k c \<and> unat n \<le> e))"

lemma unat_lt32: "unat (x :: u32) < 2 ^ 32"
proof -
  have "unat x < 2 ^ LENGTH(32)" by (rule unsigned_less)
  then show ?thesis by simp
qed

lemma remaining:
  assumes "e < unat (n :: u32)"
  shows "unat (t0 + n - (t0 + of_nat e)) = unat n - e"
proof -
  have e: "unat (of_nat e :: u32) = e" using assms unat_lt32 [of n] by (intro unat_of_nat32) simp
  have "of_nat e \<le> n" using assms e by (simp add: word_le_nat_alt)
  from unat_diff_le [OF this] have "unat (n - of_nat e) = unat n - e" unfolding e .
  then show ?thesis by simp
qed

lemma timed_step:
  assumes inv: "kernel_inv i T k" and f: "follows ev T k k'" and tm: "timed c t0 n m T k" and b: "\<not> blocks ev k c"
  shows "timed c t0 n ((if ev = Tick then 1 else 0) + m) (tasks_after T ev) k'"
proof -
  obtain e where e: "xTickCount k = t0 + of_nat e" "m = e + unat (xPendedTicks k)"
      "is_delayed k c \<and> wake_time k c = t0 + n \<and> e < unat n \<or> is_ready k c \<and> unat n \<le> e"
    and c: "c \<in> T" "places k (xEventListItem c) = None" using tm by (auto simp: timed_def)
  let ?d = "advance ev k"
  have w: "wake_time k' c = wake_time k c" "prio k' c = prio k c" "places k' (xEventListItem c) = None"
      "places k' (xStateListItem c) = (if within ?d k c then Some (pxReadyTasksLists (prio k c)) else places k (xStateListItem c))"
    using f c b by (simp_all add: follows_def)
  have "xTickCount k' = t0 + of_nat (e + ?d)" "(if ev = Tick then 1 else 0) + m = (e + ?d) + unat (xPendedTicks k')"
    using f e(1,2) by (simp_all add: follows_def)
  moreover have "is_delayed k' c \<and> wake_time k' c = t0 + n \<and> e + ?d < unat n \<or> is_ready k' c \<and> unat n \<le> e + ?d"
  proof (cases "is_delayed k c")
    case True
    then have d: "wake_time k c = t0 + n" "e < unat n" using e(3) by (auto simp: is_delayed_def is_ready_def)
    have "within ?d k c \<longleftrightarrow> unat n \<le> e + ?d" using True d remaining [OF d(2), of t0] e(1) by (auto simp: within_def)
    then show ?thesis using True w d by (cases "within ?d k c") (simp_all add: is_ready_def is_delayed_def)
  next
    case False
    then have "is_ready k c" "unat n \<le> e" "\<not> within ?d k c" using e(3) by (auto simp: within_def)
    then show ?thesis using w by (simp add: is_ready_def)
  qed
  moreover have "c \<in> tasks_after T ev" using c(1) by (cases ev) (simp_all add: tasks_after_def)
  ultimately show ?thesis unfolding timed_def using w(3) by blast
qed

lemma timed_run:
  assumes "kernel_inv i T k" and "legal_run i T evs k" and "timed c t0 n m T k" and "undisturbed c evs k"
  shows "\<exists>k'. sched_run abs_step evs k = Some k' \<and> kernel_inv i (foldl tasks_after T evs) k' \<and> timed c t0 n (ticks_in evs + m) (foldl tasks_after T evs) k'"
  using assms
proof (induction evs arbitrary: T k m)
  case (Cons ev evs)
  obtain k1 where k1: "sched_step abs_step ev k = Some k1" "kernel_inv i (tasks_after T ev) k1" "follows ev T k k1"
    using event_inv [OF Cons.prems(1)] Cons.prems(2) by auto
  have "timed c t0 n ((if ev = Tick then 1 else 0) + m) (tasks_after T ev) k1"
    using timed_step [OF Cons.prems(1) k1(3) Cons.prems(3)] Cons.prems(4) by simp
  then show ?case using Cons.IH [OF k1(2), of "(if ev = Tick then 1 else 0) + m"] Cons.prems(2,4) k1(1) by (simp add: add.assoc add.left_commute)
qed simp

lemma sleep_timed:
  assumes inv: "kernel_inv i T k" and l: "legal i T (Sleep n) k" and c: "pxCurrentTCB k = Some c"
  shows "\<exists>k1. sched_step abs_step (Sleep n) k = Some k1 \<and> kernel_inv i T k1 \<and> timed c (xTickCount k) n 0 T k1 \<and>
    uxSchedulerSuspended k1 = 1 \<and> xPendedTicks k1 = 0"
proof -
  have n: "n \<noteq> 0" "uxSchedulerSuspended k = 0" "is_ready k c" "c \<noteq> i" using l c by (auto simp: legal_def)
  obtain k1 where k1: "sched_step abs_step (Sleep n) k = Some k1" "kernel_inv i T k1" "follows (Sleep n) T k k1" "is_delayed k1 c"
      "wake_time k1 c = xTickCount k + n" "places k1 (xEventListItem c) = None" "uxSchedulerSuspended k1 = 1"
    using inv_sleep [OF inv n(1,2) c n(3,4)] by blast
  have "xPendedTicks k = 0" using inv n(2) by (simp add: kernel_inv_def sched_ok_def resumed_ok_def)
  then have p: "xTickCount k1 = xTickCount k" "xPendedTicks k1 = 0" using k1(3) by (simp_all add: follows_def advance_def unat_eq_0)
  have "c \<in> T" using inv c core_okD(13) [of T k] by (auto simp: kernel_inv_def sched_ok_def)
  then have "timed c (xTickCount k) n 0 T k1"
    unfolding timed_def using k1(4-6) p n(1) by (intro conjI exI [of _ 0]) (simp_all add: unat_gt_0)
  then show ?thesis using k1(1,2,7) p(2) by blast
qed

text \<open>
  Claim C12: A delay lasts exactly as long as asked for, on linked lists. The running task delays itself by \<open>n\<close> ticks, and any legal history follows, with suspensions
  of the scheduler, ticks that are pended and a wrap-around of the tick counter at any point, in which the task does not block itself again. As long as fewer than \<open>n\<close>
  ticks have occurred the task is delayed and not ready; once \<open>n\<close> have occurred it is ready whenever the scheduler is not suspended.
\<close>

theorem delay_exact:
  assumes "kernel_inv i T k" and "mem_rep M (lists k)" and "legal_run i T (Sleep n # evs) k" and "pxCurrentTCB k = Some c"
    and "\<forall>k1. sched_step abs_step (Sleep n) k = Some k1 \<longrightarrow> undisturbed c evs k1"
  shows "\<exists>M' k'. sched_run mem_step (Sleep n # evs) (conc M k) = Some (conc M' k') \<and> mem_rep M' (lists k') \<and>
    (ticks_in evs < unat n \<longrightarrow> is_delayed k' c \<and> \<not> is_ready k' c) \<and>
    (unat n \<le> ticks_in evs \<and> uxSchedulerSuspended k' = 0 \<longrightarrow> is_ready k' c)"
proof -
  obtain k1 where k1: "sched_step abs_step (Sleep n) k = Some k1" "kernel_inv i T k1" "timed c (xTickCount k) n 0 T k1"
    using sleep_timed [OF assms(1) _ assms(4)] assms(3) by auto
  have "legal_run i T evs k1" "undisturbed c evs k1" using assms(3,5) k1(1) by (auto simp: tasks_after_def)
  then obtain k' where k': "sched_run abs_step evs k1 = Some k'" "kernel_inv i (foldl tasks_after T evs) k'"
      "timed c (xTickCount k) n (ticks_in evs) (foldl tasks_after T evs) k'"
    using timed_run [OF k1(2) _ k1(3)] by auto
  have "sched_run abs_step (Sleep n # evs) k = Some k'" using k1(1) k'(1) by simp
  then obtain M' where M': "sched_run mem_step (Sleep n # evs) (conc M k) = Some (conc M' k')" "mem_rep M' (lists k')"
    using sched_run_refines [OF assms(2), of "Sleep n # evs"] refinesE by metis
  obtain e where e: "ticks_in evs = e + unat (xPendedTicks k')" "is_delayed k' c \<and> e < unat n \<or> is_ready k' c \<and> unat n \<le> e"
    using k'(3) by (auto simp: timed_def)
  have "\<not> (is_delayed k' c \<and> is_ready k' c)" by (auto simp: is_delayed_def is_ready_def)
  moreover have "uxSchedulerSuspended k' = 0 \<longrightarrow> xPendedTicks k' = 0" using k'(2) by (simp add: kernel_inv_def sched_ok_def resumed_ok_def)
  ultimately have "(ticks_in evs < unat n \<longrightarrow> is_delayed k' c \<and> \<not> is_ready k' c) \<and> (unat n \<le> ticks_in evs \<and> uxSchedulerSuspended k' = 0 \<longrightarrow> is_ready k' c)"
    using e by auto
  then show ?thesis using M' by blast
qed

theorem delay_exact_witness:
  "\<exists>k c M M' k'. kernel_inv 0 {0, 1, 2} k \<and> pxCurrentTCB k = Some c \<and>
    sched_run mem_step [Sleep 2, Tick, Tick, Resume] (conc M k) = Some (conc M' k') \<and> is_ready k' c"
proof -
  obtain k c where k: "start_system abs_step [(2, 3)] 0 1 (reset_kernel reset_lists) = Some k" "kernel_inv 0 {0, 1, 2} k" "uxSchedulerSuspended k = 0"
      "pxCurrentTCB k = Some c" "is_ready k c" "c \<noteq> 0"
    using start_one by blast
  obtain M where M: "mem_rep M (lists k)" using start_refines [of "[(2, 3)]" 0 1, unfolded k(1), THEN refinesE] by blast
  have l: "legal 0 {0, 1, 2} (Sleep 2) k" using k by (simp add: legal_def)
  obtain k1 where k1: "sched_step abs_step (Sleep 2) k = Some k1" "kernel_inv 0 {0, 1, 2} k1" "uxSchedulerSuspended k1 = 1" "xPendedTicks k1 = 0"
    using sleep_timed [OF k(2) l k(4)] by blast
  let ?k3 = "k1\<lparr>xPendedTicks := 2\<rparr>"
  have t1: "sched_step abs_step Tick k1 = Some (k1\<lparr>xPendedTicks := 1\<rparr>)" "sched_step abs_step Tick (k1\<lparr>xPendedTicks := 1\<rparr>) = Some ?k3"
    using k1(3,4) by (simp_all add: sched_step_def xPortSysTickHandler_def xTaskIncrementTick_def)
  have "kernel_inv 0 {0, 1, 2} ?k3" using k1(2,3) by (simp add: kernel_inv_def sched_ok_def times_ok_def resumed_ok_def dispatch_ok_def dispatch_defs)
  then obtain k4 where k4: "sched_step abs_step Resume ?k3 = Some k4" "uxSchedulerSuspended k4 = 0" using inv_resume [of 0 "{0, 1, 2}" ?k3] k1(3) by auto
  have run: "legal_run 0 {0, 1, 2} [Sleep 2, Tick, Tick, Resume] k"
    using l k1 t1 k4(1) by (simp add: tasks_after_def) (simp add: legal_def)
  have und: "\<forall>k1. sched_step abs_step (Sleep 2) k = Some k1 \<longrightarrow> undisturbed c [Tick, Tick, Resume] k1" using k1(1) t1 k4(1) by (simp add: blocks_def)
  obtain M' k' where k': "sched_run mem_step [Sleep 2, Tick, Tick, Resume] (conc M k) = Some (conc M' k')"
      "uxSchedulerSuspended k' = 0 \<longrightarrow> is_ready k' c"
    using delay_exact [OF k(2) M run k(4) und] by auto
  have "sched_run abs_step [Sleep 2, Tick, Tick, Resume] k = Some k4" using k1(1) t1 k4(1) by simp
  then obtain M4 where "sched_run mem_step [Sleep 2, Tick, Tick, Resume] (conc M k) = Some (conc M4 k4)"
    using sched_run_refines [OF M, of "[Sleep 2, Tick, Tick, Resume]"] refinesE by metis
  then have "uxSchedulerSuspended k' = 0" using k'(1) k4(2) conc_simps by (metis option.inject)
  then show ?thesis using k'  k(2,4) by blast
qed

section \<open>Delays as the tasks call them\<close>

text \<open>A delay is a sleep, what the interrupts do before the scheduler is resumed, and the resumption.\<close>

lemma sched_run_append: "sched_run st (as @ bs) k = Option.bind (sched_run st as k) (sched_run st bs)"
proof (induction as arbitrary: k)
  case (Cons a as)
  then have "sched_run st (as @ bs) = (\<lambda>k. Option.bind (sched_run st as k) (sched_run st bs))" by blast
  then show ?case by simp
qed simp

lemma sched_run_one: "sched_run st [ev] = sched_step st ev"
proof
  show "sched_run st [ev] k = sched_step st ev k" for k by (cases "sched_step st ev k") simp_all
qed

lemma resume_yields:
  "Option.bind (xTaskResumeAll st k) (\<lambda>(y, k). Some (if \<not> y then portYIELD k else k)) = sched_step st Resume k"
  by (cases "xTaskResumeAll st k") (auto simp: sched_step_def)

lemma run_resume: "sched_run st (evs @ [Resume]) = (\<lambda>k. Option.bind (sched_run st evs k) (sched_step st Resume))"
  by (rule ext) (simp only: sched_run_append sched_run_one)

lemma vTaskDelay_events:
  assumes "n \<noteq> 0" and "uxSchedulerSuspended k = 0"
  shows "vTaskDelay st (sched_run st evs) n k = sched_run st (Sleep n # evs @ [Resume]) k"
proof -
  have "n > 0" using assms(1) by (simp add: word_neq_0_conv)
  moreover have "uxSchedulerSuspended (vTaskSuspendAll k) = 1" using assms(2) by (simp add: vTaskSuspendAll_def)
  ultimately show ?thesis
    by (simp add: vTaskDelay_def Let_def assert_def run_resume sched_step_def [of st "Sleep n"] resume_yields)
qed

text \<open>The comparison with two cases for a wrap-around asks whether the increment is still ahead.\<close>

lemma should_delay_iff: "should_delay now prev (prev + inc) \<longleftrightarrow> now - prev < inc"
proof -
  define e where "e = now - prev"
  have now: "now = prev + e" by (simp add: e_def)
  have w: "unat (prev + x) = (if unat prev + unat x < 2 ^ 32 then unat prev + unat x else unat prev + unat x - 2 ^ 32)" for x
    using unat_lt32 [of prev] unat_lt32 [of x] by (simp add: unat_word_ariths mod_if)
  show ?thesis
    unfolding should_delay_def e_def [symmetric] unfolding now word_less_nat_alt w using unat_lt32 [of e] unat_lt32 [of inc] unat_lt32 [of prev] by auto
qed

text \<open>
  A periodic delay, on linked lists or sequences alike. With the ticks since the previous wake-up time below the increment the function reports a delay and is
  the sleep for exactly the ticks that remain; otherwise it reports none and only suspends and resumes the scheduler. The next wake-up time is
  the previous one plus the increment in both cases, with no drift, across a wrap-around of the tick counter. The argument of the function is what interrupts do in between.
\<close>

theorem delay_until_periodic:
  assumes "inc \<noteq> 0" and "uxSchedulerSuspended k = 0"
  shows "xTaskDelayUntil st (sched_run st evs) prev inc k =
    map_option (\<lambda>k'. (xTickCount k - prev < inc, prev + inc, k'))
      (sched_run st ((if xTickCount k - prev < inc then Sleep (inc - (xTickCount k - prev)) else Lock) # evs @ [Resume]) k)"
proof -
  let ?late = "xTickCount k - prev < inc"
  have fin: "Option.bind (sched_run st evs k) (\<lambda>k. Option.bind (xTaskResumeAll st k) (\<lambda>(y, k). Some (b, v, if \<not> y then portYIELD k else k))) =
      map_option (\<lambda>k'. (b, v, k')) (sched_run st (evs @ [Resume]) k)" for b and v :: u32 and k
  proof -
    have "Option.bind (xTaskResumeAll st k) (\<lambda>(y, k). Some (b, v, if \<not> y then portYIELD k else k)) = map_option (\<lambda>k'. (b, v, k')) (sched_step st Resume k)" for k
      unfolding resume_yields [symmetric] by (cases "xTaskResumeAll st k") (auto split: prod.splits)
    then show ?thesis by (simp add: run_resume map_option_bind o_def)
  qed
  have "inc > 0" using assms(1) by (simp add: word_neq_0_conv)
  moreover have "uxSchedulerSuspended (vTaskSuspendAll k) = 1" "xTickCount (vTaskSuspendAll k) = xTickCount k" using assms(2) by (simp_all add: vTaskSuspendAll_def)
  ultimately have "xTaskDelayUntil st (sched_run st evs) prev inc k =
      Option.bind (if ?late then prvAddCurrentTaskToDelayedList st (prev + inc - xTickCount k) False (vTaskSuspendAll k) else Some (vTaskSuspendAll k))
        (\<lambda>k'. Option.bind (sched_run st evs k') (\<lambda>k. Option.bind (xTaskResumeAll st k) (\<lambda>(y, k). Some (?late, prev + inc, if \<not> y then portYIELD k else k))))"
    by (simp add: xTaskDelayUntil_def Let_def assert_def should_delay_iff)
  moreover have time: "prev + inc - xTickCount k = inc - (xTickCount k - prev)" by simp
  ultimately show ?thesis unfolding fin time by (simp add: sched_step_def map_option_bind o_def)
qed

theorem delay_until_periodic_witness:
  "\<exists>k :: (list_id, item) list_mem kernel. uxSchedulerSuspended k = 0 \<and>
    xTaskDelayUntil mem_step (sched_run mem_step [Tick]) (xTickCount k - 3) 10 k =
      map_option (\<lambda>k'. (True, xTickCount k - 3 + 10, k')) (sched_run mem_step [Sleep 7, Tick, Resume] k)"
proof -
  let ?k = "reset_kernel reset_mem"
  have "uxSchedulerSuspended ?k = 0" by (simp add: reset_kernel_def)
  moreover have "(10 :: u32) \<noteq> 0" by simp
  ultimately show ?thesis using delay_until_periodic [of 10 ?k mem_step "[Tick]" "xTickCount ?k - 3"] by (intro exI [of _ ?k]) simp
qed

section \<open>Time-outs\<close>

text \<open>After \<open>m\<close> ticks the clock has advanced by \<open>m\<close>, and the count of the wrap-arounds by the number of them.\<close>

lemma wraps_Suc:
  "(if t + 1 = (0 :: u32) then 1 else 0) + (unat (t + 1) + n) div 2 ^ 32 = (unat t + Suc n) div 2 ^ 32"
proof (cases "t + 1 = 0")
  case True
  then have "t = - 1" by (simp add: eq_neg_iff_add_eq_0)
  then have "unat t = 2 ^ 32 - 1" by (simp add: unsigned_minus_1_eq_mask mask_eq_exp_minus_1)
  then have "unat t + Suc n = 2 ^ 32 + n" by simp
  moreover have "(2 ^ 32 + n) div 2 ^ 32 = 1 + n div (2 ^ 32 :: nat)" by (simp add: div_add_self1)
  ultimately show ?thesis using True by (simp only: if_True unat_0 add_0 refl)
next
  case False
  then show ?thesis using unatSuc [of t] by (simp add: add.commute)
qed

lemma clock_spec:
  assumes "core_ok T k" and "times_ok k" and "uxSchedulerSuspended k = 0"
  shows "\<exists>k'. pended_ticks abs_step m k = Some k' \<and> xTickCount k' = xTickCount k + of_nat m \<and>
    xNumOfOverflows k' = xNumOfOverflows k + of_nat ((unat (xTickCount k) + m) div 2 ^ 32)"
  using assms
proof (induction m arbitrary: k)
  case 0
  have "unat (xTickCount k) div 2 ^ 32 = 0" using unat_lt32 [of "xTickCount k"] by simp
  then show ?case by simp
next
  case (Suc m)
  obtain sw k1 where k1: "xTaskIncrementTick abs_step k = Some (sw, k1)" "core_ok T k1" "times_ok k1" "ticked k k1"
    using tick_spec [OF Suc.prems] by blast
  let ?k1 = "if sw then k1\<lparr>xYieldPending := True\<rparr> else k1"
  note tk = k1(4) [unfolded ticked_def]
  have f: "xTickCount ?k1 = xTickCount k + 1" "xNumOfOverflows ?k1 = xNumOfOverflows k + (if xTickCount k + 1 = 0 then 1 else 0)" "uxSchedulerSuspended ?k1 = 0"
    using tk Suc.prems(3) by simp_all
  have "core_ok T ?k1" "times_ok ?k1" using k1(2,3) by (simp_all add: times_ok_def)
  then obtain k' where k': "pended_ticks abs_step m ?k1 = Some k'" "xTickCount k' = xTickCount ?k1 + of_nat m"
      "xNumOfOverflows k' = xNumOfOverflows ?k1 + of_nat ((unat (xTickCount ?k1) + m) div 2 ^ 32)"
    using Suc.IH [of ?k1] f(3) by blast
  have "pended_ticks abs_step (Suc m) k = Some k'" using k1(1) k'(1) by simp
  moreover have "xTickCount k' = xTickCount k + of_nat (Suc m)" using k'(2) f(1) by (simp add: add.assoc)
  moreover have "xNumOfOverflows k' = xNumOfOverflows k + of_nat ((unat (xTickCount k) + Suc m) div 2 ^ 32)"
    unfolding k'(3) f(1,2) wraps_Suc [symmetric] by (simp add: add.assoc)
  ultimately show ?case by blast
qed

text \<open>
  Claim C32: Time-outs are exact, on linked lists: a task that notes the time and asks again after \<open>m\<close> ticks is told that a time-out of \<open>n\<close> ticks has expired if and only
  if \<open>n \<le> m\<close>; otherwise \<open>n - m\<close> ticks are left and the time is noted anew. This holds across a wrap-around of the tick counter, up to the second one.
\<close>

theorem timeout_exact:
  assumes "kernel_inv i T k" and "mem_rep M (lists k)" and "uxSchedulerSuspended k = 0" and n: "n \<noteq> portMAX_DELAY" and m: "unat (xTickCount k) + m < 2 * 2 ^ 32"
  shows "\<exists>M' k'. pended_ticks mem_step m (conc M k) = Some (conc M' k') \<and> xTickCount k' = xTickCount k + of_nat m \<and>
    xTaskCheckForTimeOut (conc M' k') (vTaskSetTimeOutState (conc M k)) n =
      (if unat n \<le> m then (True, vTaskSetTimeOutState (conc M k), 0) else (False, vTaskInternalSetTimeOutState (conc M' k'), n - of_nat m))"
proof -
  have ok: "core_ok T k" "times_ok k" using assms(1) by (auto simp: kernel_inv_def sched_ok_def)
  obtain k' where k': "pended_ticks abs_step m k = Some k'" "xTickCount k' = xTickCount k + of_nat m"
      "xNumOfOverflows k' = xNumOfOverflows k + of_nat ((unat (xTickCount k) + m) div 2 ^ 32)"
    using clock_spec [OF ok assms(3)] by blast
  obtain M' where M': "pended_ticks mem_step m (conc M k) = Some (conc M' k')"
    using pended_ticks_refines [OF assms(2), of m, unfolded k'(1), THEN refinesE] by blast
  let ?t = "unat (xTickCount k)" and ?q = "(unat (xTickCount k) + m) div 2 ^ 32"
  have "?q < 2" using m by (intro less_mult_imp_div_less) simp
  then have q: "?q = 0 \<or> ?q = 1" by linarith
  have tick: "unat (xTickCount k') = (?t + m) mod 2 ^ 32" unfolding k'(2) by (simp add: unat_word_ariths unat_of_nat take_bit_eq_mod mod_add_right_eq)
  have ov: "xNumOfOverflows k' \<noteq> xNumOfOverflows k \<longleftrightarrow> ?q = 1" unfolding k'(3) using q by auto
  have late: "xNumOfOverflows k' \<noteq> xNumOfOverflows k \<and> xTickCount k' \<ge> xTickCount k \<longleftrightarrow> 2 ^ 32 \<le> m"
  proof -
    have "xTickCount k' \<ge> xTickCount k \<longleftrightarrow> ?t \<le> (?t + m) mod 2 ^ 32" by (simp add: word_le_nat_alt tick)
    moreover have e: "?t + m = ?q * 2 ^ 32 + (?t + m) mod 2 ^ 32" by (simp only: div_mult_mod_eq)
    moreover have "(?q = 1 \<and> ?t \<le> (?t + m) mod 2 ^ 32) \<longleftrightarrow> 2 ^ 32 \<le> m"
    proof (cases "?q = 1")
      case True
      have "?t + m = 2 ^ 32 + (?t + m) mod 2 ^ 32" using e unfolding True by simp
      then show ?thesis using True by linarith
    next
      case False
      then show ?thesis using q div_le_mono [of "2 ^ 32" "?t + m" "2 ^ 32"] by auto
    qed
    ultimately show ?thesis using ov by blast
  qed
  have el: "xTickCount k' - xTickCount k = of_nat m" using k'(2) by simp
  have "xTaskCheckForTimeOut (conc M' k') (vTaskSetTimeOutState (conc M k)) n =
      (if unat n \<le> m then (True, vTaskSetTimeOutState (conc M k), 0) else (False, vTaskInternalSetTimeOutState (conc M' k'), n - of_nat m))"
  proof (cases "2 ^ 32 \<le> m")
    case True
    then have "unat n \<le> m" using unat_lt32 [of n] by simp
    then show ?thesis using True late n by (simp add: xTaskCheckForTimeOut_def vTaskSetTimeOutState_def Let_def)
  next
    case False
    then have "of_nat m < n \<longleftrightarrow> \<not> unat n \<le> m" using unat_of_nat32 [of m] by (auto simp: word_less_nat_alt not_le)
    then show ?thesis using False late n el by (auto simp: xTaskCheckForTimeOut_def vTaskSetTimeOutState_def Let_def)
  qed
  then show ?thesis using M' k'(2) by blast
qed

theorem timeout_exact_witness:
  "\<exists>k M M' k'. pended_ticks mem_step 3 (conc M k) = Some (conc M' k') \<and>
    xTaskCheckForTimeOut (conc M' k') (vTaskSetTimeOutState (conc M k)) 5 = (False, vTaskInternalSetTimeOutState (conc M' k'), 2)"
proof -
  obtain k where k: "start_system abs_step [(2, 3)] 0 1 (reset_kernel reset_lists) = Some k" "kernel_inv 0 {0, 1, 2} k" "uxSchedulerSuspended k = 0"
    using start_one by blast
  obtain M where M: "mem_rep M (lists k)" using start_refines [of "[(2, 3)]" 0 1, unfolded k(1), THEN refinesE] by blast
  have "(5 :: u32) \<noteq> portMAX_DELAY" "unat (xTickCount k) + 3 < 2 * 2 ^ 32" using unat_lt32 [of "xTickCount k"] by (simp_all add: portMAX_DELAY_def)
  from timeout_exact [OF k(2) M k(3) this] show ?thesis by auto
qed

section \<open>Time slices\<close>

text \<open>The index of a list walks around its items.\<close>

lemma from_on_nth:
  assumes "distinct xs" and "j < length xs"
  shows "from_on (xs ! j) xs = drop j xs"
  using assms
proof (induction xs arbitrary: j)
  case (Cons x xs)
  then show ?case by (cases j) (auto simp: from_on_def)
qed simp

lemma kl_next_nth:
  assumes "kl_items q = xs" and "distinct xs" and "j < length xs" and "kl_index q = Some (xs ! j)"
  shows "kl_index (kl_next q) = Some (xs ! (Suc j mod length xs))"
proof -
  have d: "from_on (xs ! j) xs = xs ! j # drop (Suc j) xs" using from_on_nth [OF assms(2,3)] Cons_nth_drop_Suc [OF assms(3)] by simp
  show ?thesis
  proof (cases "Suc j < length xs")
    case True
    then have "drop (Suc j) xs = xs ! Suc j # drop (Suc (Suc j)) xs" by (simp add: Cons_nth_drop_Suc)
    then show ?thesis using True assms(1,4) d by (simp add: kl_next_def)
  next
    case False
    then have "Suc j = length xs" using assms(3) by simp
    moreover have "xs \<noteq> []" using assms(3) by auto
    ultimately show ?thesis using assms(1,3,4) d by (simp add: kl_next_def hd_conv_nth)
  qed
qed

text \<open>A number of switches with nothing in between.\<close>

primrec switches :: "'s list_step \<Rightarrow> nat \<Rightarrow> 's kernel \<Rightarrow> 's kernel option" where
  "switches st 0 k = Some k"
| "switches st (Suc m) k = Option.bind (xPortPendSVHandler st k) (switches st m)"

lemma switches_refine: "mem_rep M (lists k) \<Longrightarrow> refines krel (switches mem_step m (conc M k)) (switches abs_step m k)"
proof (induction m arbitrary: M k)
  case (Suc m)
  have "refines krel (xPortPendSVHandler mem_step (conc M k)) (xPortPendSVHandler abs_step k)"
    using sched_step_refines [OF Suc.prems, of Switch] by (simp add: sched_step_def)
  then show ?case by (auto intro!: refines_bind Suc.IH)
qed (simp add: refines_Some)

definition turn :: "item list \<Rightarrow> nat \<Rightarrow> seq_kernel \<Rightarrow> bool" where
  "turn xs j k \<longleftrightarrow>
     (\<exists>t. la_lists (lists k) (pxReadyTasksLists (unat (portGET_HIGHEST_PRIORITY (uxTopReadyPriority k)))) = Some \<lparr>kl_items = xs, kl_index = Some (xs ! j)\<rparr> \<and>
       j < length xs \<and> xs ! j = xStateListItem t \<and> pxCurrentTCB k = Some t)"

definition switchable :: "nat \<Rightarrow> nat set \<Rightarrow> seq_kernel \<Rightarrow> bool" where
  "switchable i T k \<longleftrightarrow> core_ok T k \<and> uxSchedulerSuspended k = 0 \<and> is_ready k i"

lemma switch_turn:
  assumes sw: "switchable i T k" and xs: "xs = seq_items (lists k) (pxReadyTasksLists (unat (portGET_HIGHEST_PRIORITY (uxTopReadyPriority k))))"
  shows "\<exists>j k'. xPortPendSVHandler abs_step k = Some k' \<and> switchable i T k' \<and> turn xs j k' \<and> (\<forall>j0. turn xs j0 k \<longrightarrow> j = Suc j0 mod length xs) \<and>
    uxTopReadyPriority k' = uxTopReadyPriority k"
proof -
  let ?k = "k\<lparr>pendsv := False\<rparr>" and ?l = "pxReadyTasksLists (unat (portGET_HIGHEST_PRIORITY (uxTopReadyPriority k)))"
  have ok: "core_ok T ?k" "uxSchedulerSuspended ?k = 0" "is_ready ?k i" using sw by (simp_all add: switchable_def is_ready_def)
  obtain k' q t where k': "vTaskSwitchContext abs_step ?k = Some k'" "core_ok T k'" "places k' = places ?k"
      "k' = ?k\<lparr>lists := lists k', xYieldPending := False, pxCurrentTCB := pxCurrentTCB k'\<rparr>"
      "la_lists (lists k) ?l = Some q" "la_lists (lists k') ?l = Some (kl_next q)" "kl_index (kl_next q) = Some (xStateListItem t)" "pxCurrentTCB k' = Some t"
    using switch_spec [OF ok] by auto
  obtain A c where f: "k' = ?k\<lparr>lists := A, xYieldPending := False, pxCurrentTCB := c\<rparr>" using k'(4) by metis
  have q: "kl_items q = xs" "kl_items (kl_next q) = xs" using k'(5) xs by (simp_all add: seq_items_def kl_next_def)
  have d: "distinct xs" using seq_distinct core_okD(1) [OF ok(1)] xs by fastforce
  have "xStateListItem t \<in> set xs" using core_okD(1) [OF k'(2)] k'(6,7) q(2) by (fastforce simp: seq_wf_def)
  then obtain j where j: "j < length xs" "xs ! j = xStateListItem t" by (auto simp: in_set_conv_nth)
  have "kl_next q = \<lparr>kl_items = xs, kl_index = Some (xs ! j)\<rparr>" using q(2) k'(7) j(2) by (cases "kl_next q") simp
  then have "turn xs j k'" using k'(6,8) j f by (simp add: turn_def)
  moreover have "j = Suc j0 mod length xs" if "turn xs j0 k" for j0
  proof -
    have "kl_index q = Some (xs ! j0)" "j0 < length xs" using that k'(5) by (auto simp: turn_def)
    then have "xs ! j = xs ! (Suc j0 mod length xs)" using kl_next_nth [OF q(1) d] k'(7) j(2) by simp
    moreover have "Suc j0 mod length xs < length xs" using j(1) by (intro mod_less_divisor) linarith
    ultimately show ?thesis using d j(1) nth_eq_iff_index_eq by blast
  qed
  moreover have "switchable i T k'" using k'(2,3) ok f by (simp add: switchable_def is_ready_def)
  ultimately show ?thesis using k'(1) f by (intro exI [of _ j] exI [of _ k']) (simp add: xPortPendSVHandler_def)
qed

lemma turn_items: "turn xs j k \<Longrightarrow> xs = seq_items (lists k) (pxReadyTasksLists (unat (portGET_HIGHEST_PRIORITY (uxTopReadyPriority k))))"
  by (auto simp: turn_def seq_items_def)

lemma turns:
  assumes "switchable i T k" and "turn xs j k"
  shows "\<exists>k'. switches abs_step m k = Some k' \<and> turn xs ((j + m) mod length xs) k'"
  using assms
proof (induction m arbitrary: j k)
  case 0
  then have "j < length xs" by (auto simp: turn_def)
  then show ?case using 0 by simp
next
  case (Suc m)
  obtain k1 where k1: "xPortPendSVHandler abs_step k = Some k1" "switchable i T k1" "turn xs (Suc j mod length xs) k1"
    using switch_turn [OF Suc.prems(1) turn_items [OF Suc.prems(2)]] Suc.prems(2) by blast
  then show ?case using Suc.IH [OF k1(2,3)] by (simp add: mod_add_left_eq)
qed

text \<open>
  The tasks of the highest priority take turns, on linked lists: among the ready tasks of the highest priority every one comes to run within as many
  switches as there are tasks in its list.
\<close>

theorem time_slicing:
  assumes "kernel_inv i T k" and "mem_rep M (lists k)" and s: "uxSchedulerSuspended k = 0" and c: "is_ready k c" "\<forall>t. is_ready k t \<longrightarrow> prio k t \<le> prio k c"
  shows "\<exists>m M' k'. 0 < m \<and> m \<le> length (seq_items (lists k) (pxReadyTasksLists (prio k c))) \<and>
    switches mem_step m (conc M k) = Some (conc M' k') \<and> pxCurrentTCB k' = Some c"
proof -
  let ?p = "unat (portGET_HIGHEST_PRIORITY (uxTopReadyPriority k))"
  have ok: "core_ok T k" and sw: "switchable i T k" using assms(1) s by (simp_all add: kernel_inv_def sched_ok_def switchable_def)
  note D = core_okD [OF ok]
  have bits: "bit (uxTopReadyPriority k) p \<longleftrightarrow> (\<exists>t. places k (xStateListItem t) = Some (pxReadyTasksLists p))" for p using D(11) by (simp add: bits_ok_def)
  have "bit (uxTopReadyPriority k) (prio k c)" using c(1) bits by (auto simp: is_ready_def)
  note hb = highest_bit [OF this]
  obtain t where t: "places k (xStateListItem t) = Some (pxReadyTasksLists ?p)" using hb(1) bits by blast
  then have "?p = prio k t" "is_ready k t" using ready_item_place [OF ok t] by auto
  then have p: "?p = prio k c" using c hb(2) [of "prio k c"] bits [of "prio k c"] by (auto simp: is_ready_def intro!: antisym)
  define xs where "xs = seq_items (lists k) (pxReadyTasksLists ?p)"
  have "xStateListItem c \<in> set xs" using c(1) container_iff [OF D(1)] p by (simp add: xs_def is_ready_def)
  then obtain j where j: "j < length xs" "xs ! j = xStateListItem c" by (auto simp: in_set_conv_nth)
  obtain j0 k1 where k1: "xPortPendSVHandler abs_step k = Some k1" "switchable i T k1" "turn xs j0 k1"
    using switch_turn [OF sw xs_def] by blast
  have j0: "j0 < length xs" using k1(3) by (auto simp: turn_def)
  define m where "m = (j + length xs - j0) mod length xs"
  have m: "m < length xs" unfolding m_def using j(1) by (intro mod_less_divisor) linarith
  have "(j0 + m) mod length xs = j" unfolding m_def mod_add_right_eq using j(1) j0 by simp
  note m = m this
  obtain k' where k': "switches abs_step m k1 = Some k'" "turn xs j k'" using turns [OF k1(2,3), of m] m(2) by auto
  have cur: "pxCurrentTCB k' = Some c" using k'(2) j(2) by (auto simp: turn_def)
  have "switches abs_step (Suc m) k = Some k'" using k1(1) k'(1) by simp
  then obtain M' where "switches mem_step (Suc m) (conc M k) = Some (conc M' k')" using switches_refine [OF assms(2), of "Suc m"] refinesE by metis
  then show ?thesis using cur m(1) p unfolding xs_def by (intro exI [of _ "Suc m"]) auto
qed

theorem time_slicing_witness:
  "\<exists>k c m M M' k'. kernel_inv 0 {0, 1, 2} k \<and> 0 < m \<and> switches mem_step m (conc M k) = Some (conc M' k') \<and> pxCurrentTCB k' = Some c \<and> is_ready k c"
proof -
  obtain k c where k: "start_system abs_step [(2, 3)] 0 1 (reset_kernel reset_lists) = Some k" "kernel_inv 0 {0, 1, 2} k" "uxSchedulerSuspended k = 0"
      "is_ready k c" "\<forall>t. is_ready k t \<longrightarrow> prio k t \<le> prio k c"
    using start_one by blast
  obtain M where M: "mem_rep M (lists k)" using start_refines [of "[(2, 3)]" 0 1, unfolded k(1), THEN refinesE] by blast
  show ?thesis using time_slicing [OF k(2) M k(3-5)] k(2,4) by blast
qed

end
