(* ===== verification/EnetDma.thy ===== *)
theory EnetDma
  imports KernelQueue Fmc
begin

text \<open>
  The rings of DMA descriptors of the Ethernet controller, from
  \<^verbatim>\<open>src/Firmware/GD32H7xx_standard_peripheral/Source/gd32h7xx_enet.c\<close> as the Ethernet interface uses it: five receive and five
  transmit descriptors in chain mode, each with a buffer of 1524 bytes.

  A descriptor pointer is an offset in bytes from the start of its table, a buffer address an offset into the flat array of the
  five buffers. The controller's side of the protocol is written down here as well: it owns a descriptor while the bit DAV is set, stores a
  received frame or sends the frame of a transmit descriptor, clears the bit and goes on to the next descriptor; when it meets a
  descriptor it does not own it sets a status flag and suspends itself until a poll register is written.
\<close>

section \<open>Bits\<close>

definition BITS :: "nat \<Rightarrow> nat \<Rightarrow> u32" where "BITS start stop = push_bit start (- 1) AND drop_bit (31 - stop) (- 1)"
definition GET_BITS :: "u32 \<Rightarrow> nat \<Rightarrow> nat \<Rightarrow> u32" where "GET_BITS regval start stop = drop_bit start (regval AND BITS start stop)"

definition ENET_RDES0_DAV :: u32 where "ENET_RDES0_DAV = BIT 31"
definition ENET_RDES0_FRMT :: u32 where "ENET_RDES0_FRMT = BIT 5"
definition ENET_RDES0_LDES :: u32 where "ENET_RDES0_LDES = BIT 8"
definition ENET_RDES0_FDES :: u32 where "ENET_RDES0_FDES = BIT 9"
definition ENET_RDES0_ERRS :: u32 where "ENET_RDES0_ERRS = BIT 15"
definition GET_RDES0_FRML :: "u32 \<Rightarrow> u32" where "GET_RDES0_FRML regval = GET_BITS regval 16 29"
definition ENET_RDES1_RCHM :: u32 where "ENET_RDES1_RCHM = BIT 14"
definition ENET_RDES1_RERM :: u32 where "ENET_RDES1_RERM = BIT 15"
definition ENET_RDES1_DINTC :: u32 where "ENET_RDES1_DINTC = BIT 31"
definition ENET_TDES0_TCHM :: u32 where "ENET_TDES0_TCHM = BIT 20"
definition ENET_TDES0_TERM :: u32 where "ENET_TDES0_TERM = BIT 21"
definition ENET_TDES0_CM :: u32 where "ENET_TDES0_CM = BITS 22 23"
definition ENET_TDES0_FSG :: u32 where "ENET_TDES0_FSG = BIT 28"
definition ENET_TDES0_LSG :: u32 where "ENET_TDES0_LSG = BIT 29"
definition ENET_TDES0_DAV :: u32 where "ENET_TDES0_DAV = BIT 31"
definition ENET_CHECKSUM_TCPUDPICMP_FULL :: u32 where "ENET_CHECKSUM_TCPUDPICMP_FULL = BITS 22 23 AND push_bit 22 3"
definition ENET_MAC_CFG_REN :: u32 where "ENET_MAC_CFG_REN = BIT 2"
definition ENET_MAC_CFG_TEN :: u32 where "ENET_MAC_CFG_TEN = BIT 3"
definition ENET_MAC_CFG_TFCD :: u32 where "ENET_MAC_CFG_TFCD = BIT 25"
definition ENET_DMA_STAT_TBU :: u32 where "ENET_DMA_STAT_TBU = BIT 2"
definition ENET_DMA_STAT_TU :: u32 where "ENET_DMA_STAT_TU = BIT 5"
definition ENET_DMA_STAT_RS :: u32 where "ENET_DMA_STAT_RS = BIT 6"
definition ENET_DMA_STAT_RBU :: u32 where "ENET_DMA_STAT_RBU = BIT 7"
definition ENET_DMA_STAT_NI :: u32 where "ENET_DMA_STAT_NI = BIT 16"
definition ENET_DMA_CTL_SRE :: u32 where "ENET_DMA_CTL_SRE = BIT 1"
definition ENET_DMA_CTL_STE :: u32 where "ENET_DMA_CTL_STE = BIT 13"
definition GET_DMA_BCTL_DPSL :: "u32 \<Rightarrow> u32" where "GET_DMA_BCTL_DPSL regval = GET_BITS regval 2 6"

lemmas enet_bits = ENET_RDES0_DAV_def ENET_RDES0_FRMT_def ENET_RDES0_LDES_def ENET_RDES0_FDES_def ENET_RDES0_ERRS_def
  ENET_RDES1_RCHM_def ENET_RDES1_RERM_def ENET_RDES1_DINTC_def ENET_TDES0_TCHM_def ENET_TDES0_TERM_def ENET_TDES0_FSG_def
  ENET_TDES0_LSG_def ENET_TDES0_DAV_def ENET_MAC_CFG_TFCD_def ENET_MAC_CFG_REN_def ENET_MAC_CFG_TEN_def
  ENET_DMA_STAT_TBU_def ENET_DMA_STAT_TU_def ENET_DMA_STAT_RS_def ENET_DMA_STAT_RBU_def ENET_DMA_STAT_NI_def
  ENET_DMA_CTL_SRE_def ENET_DMA_CTL_STE_def

definition ENET_RXBUF_NUM :: nat where "ENET_RXBUF_NUM = 5"
definition ENET_TXBUF_NUM :: nat where "ENET_TXBUF_NUM = 5"
definition ENET_MAX_FRAME_SIZE :: nat where "ENET_MAX_FRAME_SIZE = 1524"
definition ENET_RXBUF_SIZE :: nat where "ENET_RXBUF_SIZE = ENET_MAX_FRAME_SIZE"
definition ENET_TXBUF_SIZE :: nat where "ENET_TXBUF_SIZE = ENET_MAX_FRAME_SIZE"
definition ETH_DMADESC_SIZE :: nat where "ETH_DMADESC_SIZE = 16"

lemmas enet_sizes = ENET_RXBUF_NUM_def ENET_TXBUF_NUM_def ENET_MAX_FRAME_SIZE_def ENET_RXBUF_SIZE_def ENET_TXBUF_SIZE_def
  ETH_DMADESC_SIZE_def

section \<open>State\<close>

record enet_descriptors_struct =
  status :: u32
  control_buffer_size :: u32
  buffer1_addr :: nat
  buffer2_next_desc_addr :: nat

text \<open>The tables, buffers and pointers of the driver, the registers, and what the controller keeps for itself.\<close>

record enet =
  rxdesc_tab :: "enet_descriptors_struct list"
  txdesc_tab :: "enet_descriptors_struct list"
  rx_buff :: "u8 list"
  tx_buff :: "u8 list"
  dma_current_rxdesc :: nat
  dma_current_txdesc :: nat
  ENET_MAC_CFG :: u32
  ENET_DMA_CTL :: u32
  ENET_DMA_STAT :: u32
  ENET_DMA_BCTL :: u32
  ENET_DMA_RDTADDR :: nat
  ENET_DMA_TDTADDR :: nat
  hw_rx :: nat
  hw_tx :: nat
  rx_suspended :: bool
  tx_suspended :: bool
  wire :: "u8 list list"

datatype ErrStatus = ERROR | SUCCESS

text \<open>Registers whose bits are cleared by writing ones, and the two poll registers.\<close>

definition write_DMA_STAT :: "u32 \<Rightarrow> enet \<Rightarrow> enet" where
  "write_DMA_STAT v s = s\<lparr>ENET_DMA_STAT := ENET_DMA_STAT s AND NOT v\<rparr>"

definition write_DMA_RPEN :: "enet \<Rightarrow> enet" where "write_DMA_RPEN s = s\<lparr>rx_suspended := False\<rparr>"
definition write_DMA_TPEN :: "enet \<Rightarrow> enet" where "write_DMA_TPEN s = s\<lparr>tx_suspended := False\<rparr>"

definition deref :: "enet_descriptors_struct list \<Rightarrow> nat \<Rightarrow> enet_descriptors_struct option" where
  "deref tab p = (if p mod ETH_DMADESC_SIZE = 0 \<and> p div ETH_DMADESC_SIZE < length tab then Some (tab ! (p div ETH_DMADESC_SIZE)) else None)"

definition put_desc :: "nat \<Rightarrow> enet_descriptors_struct \<Rightarrow> enet_descriptors_struct list \<Rightarrow> enet_descriptors_struct list" where
  "put_desc p d tab = tab[p div ETH_DMADESC_SIZE := d]"

section \<open>The driver\<close>

datatype enet_dmadirection_enum = ENET_DMA_TX | ENET_DMA_RX

definition chain_desc :: "u32 \<Rightarrow> u32 \<Rightarrow> nat \<Rightarrow> nat \<Rightarrow> nat \<Rightarrow> enet_descriptors_struct" where
  "chain_desc desc_status desc_bufsize maxsize count num =
     \<lparr>status = desc_status, control_buffer_size = desc_bufsize, buffer1_addr = num * maxsize,
      buffer2_next_desc_addr = (if num < count - 1 then (num + 1) * ETH_DMADESC_SIZE else 0)\<rparr>"

definition enet_descriptors_chain_init :: "enet_dmadirection_enum \<Rightarrow> enet \<Rightarrow> enet" where
  "enet_descriptors_chain_init direction s =
     (if direction = ENET_DMA_TX
      then s\<lparr>ENET_DMA_TDTADDR := 0, hw_tx := 0, dma_current_txdesc := 0,
             txdesc_tab := map (chain_desc ENET_TDES0_TCHM 0 ENET_TXBUF_SIZE ENET_TXBUF_NUM) [0..<ENET_TXBUF_NUM]\<rparr>
      else s\<lparr>ENET_DMA_RDTADDR := 0, hw_rx := 0, dma_current_rxdesc := 0,
             rxdesc_tab := map (chain_desc ENET_RDES0_DAV (ENET_RDES1_RCHM OR word_of_nat ENET_RXBUF_SIZE) ENET_RXBUF_SIZE ENET_RXBUF_NUM)
                             [0..<ENET_RXBUF_NUM]\<rparr>)"

text \<open>A received frame's length without its checksum, as three functions of the driver compute it; here the one for a descriptor.\<close>

datatype enet_descstate_enum = RXDESC_BUFFER_1_SIZE | RXDESC_BUFFER_2_SIZE | RXDESC_FRAME_LENGTH | RXDESC_BUFFER_1_ADDR
  | TXDESC_BUFFER_1_ADDR | TXDESC_COLLISION_COUNT

definition rx_frame_length :: "u32 \<Rightarrow> u32 \<Rightarrow> u32" where
  "rx_frame_length mac_cfg st =
     (let reval = GET_RDES0_FRML st
      in if reval > 4
         then (let r = reval - 4
               in if mac_cfg AND ENET_MAC_CFG_TFCD \<noteq> 0 \<and> st AND ENET_RDES0_FRMT \<noteq> 0 then r + 4 else r)
         else 0)"

definition enet_desc_information_get :: "enet_descriptors_struct \<Rightarrow> enet_descstate_enum \<Rightarrow> enet \<Rightarrow> u32" where
  "enet_desc_information_get desc info_get s =
     (case info_get of
        RXDESC_BUFFER_1_SIZE \<Rightarrow> GET_BITS (control_buffer_size desc) 0 12
      | RXDESC_BUFFER_2_SIZE \<Rightarrow> GET_BITS (control_buffer_size desc) 16 28
      | RXDESC_FRAME_LENGTH \<Rightarrow> rx_frame_length (ENET_MAC_CFG s) (status desc)
      | RXDESC_BUFFER_1_ADDR \<Rightarrow> word_of_nat (buffer1_addr desc)
      | TXDESC_BUFFER_1_ADDR \<Rightarrow> word_of_nat (buffer1_addr desc)
      | TXDESC_COLLISION_COUNT \<Rightarrow> GET_BITS (status desc) 3 6)"

definition enet_rx_desc_immediate_receive_complete_interrupt :: "enet_descriptors_struct \<Rightarrow> enet_descriptors_struct" where
  "enet_rx_desc_immediate_receive_complete_interrupt desc =
     desc\<lparr>control_buffer_size := control_buffer_size desc AND NOT ENET_RDES1_DINTC\<rparr>"

definition enet_transmit_checksum_config :: "u32 \<Rightarrow> enet_descriptors_struct \<Rightarrow> enet_descriptors_struct" where
  "enet_transmit_checksum_config checksum desc = desc\<lparr>status := status desc AND NOT ENET_TDES0_CM OR checksum\<rparr>"

text \<open>
  Handing a receive descriptor back. With a buffer the frame is copied first; \<open>None\<close> stands for the null buffer. The result holds the
  bytes copied.
\<close>

definition next_rxdesc :: "enet_descriptors_struct \<Rightarrow> enet \<Rightarrow> nat" where
  "next_rxdesc d s =
     (if control_buffer_size d AND ENET_RDES1_RCHM \<noteq> 0 then buffer2_next_desc_addr d
      else if control_buffer_size d AND ENET_RDES1_RERM \<noteq> 0 then ENET_DMA_RDTADDR s
      else dma_current_rxdesc s + ETH_DMADESC_SIZE + unat (GET_DMA_BCTL_DPSL (ENET_DMA_BCTL s)))"

definition release_rxdesc :: "enet_descriptors_struct \<Rightarrow> enet \<Rightarrow> enet" where
  "release_rxdesc d s =
     (let s1 = s\<lparr>rxdesc_tab := put_desc (dma_current_rxdesc s) (d\<lparr>status := ENET_RDES0_DAV\<rparr>) (rxdesc_tab s)\<rparr>;
          s2 = (if ENET_DMA_STAT s1 AND ENET_DMA_STAT_RBU \<noteq> 0 then write_DMA_RPEN (write_DMA_STAT ENET_DMA_STAT_RBU s1) else s1)
      in s2\<lparr>dma_current_rxdesc := next_rxdesc d s2\<rparr>)"

definition enet_frame_receive :: "u32 option \<Rightarrow> enet \<Rightarrow> (ErrStatus \<times> u8 list \<times> enet) option" where
  "enet_frame_receive buffer s =
     (case deref (rxdesc_tab s) (dma_current_rxdesc s) of
        None \<Rightarrow> None
      | Some d \<Rightarrow>
          if status d AND ENET_RDES0_DAV \<noteq> 0 then Some (ERROR, [], s)
          else (case buffer of
                  None \<Rightarrow> Some (SUCCESS, [], release_rxdesc d s)
                | Some bufsize \<Rightarrow>
                    if status d AND ENET_RDES0_ERRS = 0 \<and> status d AND ENET_RDES0_LDES \<noteq> 0 \<and> status d AND ENET_RDES0_FDES \<noteq> 0
                    then (let size0 = GET_RDES0_FRML (status d) - 4;
                              size = (if ENET_MAC_CFG s AND ENET_MAC_CFG_TFCD \<noteq> 0 \<and> status d AND ENET_RDES0_FRMT \<noteq> 0
                                      then size0 + 4 else size0)
                          in if size > bufsize then Some (ERROR, [], s)
                             else if buffer1_addr d + unat size \<le> length (rx_buff s)
                             then Some (SUCCESS, seg (buffer1_addr d) (unat size) (rx_buff s), release_rxdesc d s)
                             else None)
                    else Some (ERROR, [], s)))"

text \<open>Handing a frame to the controller.\<close>

definition next_txdesc :: "enet_descriptors_struct \<Rightarrow> enet \<Rightarrow> nat" where
  "next_txdesc d s =
     (if status d AND ENET_TDES0_TCHM \<noteq> 0 then buffer2_next_desc_addr d
      else if status d AND ENET_TDES0_TERM \<noteq> 0 then ENET_DMA_TDTADDR s
      else dma_current_txdesc s + ETH_DMADESC_SIZE + unat (GET_DMA_BCTL_DPSL (ENET_DMA_BCTL s)))"

definition enet_frame_transmit :: "u8 list option \<Rightarrow> u32 \<Rightarrow> enet \<Rightarrow> (ErrStatus \<times> enet) option" where
  "enet_frame_transmit buffer frame_len s =
     (case deref (txdesc_tab s) (dma_current_txdesc s) of
        None \<Rightarrow> None
      | Some d \<Rightarrow>
          if status d AND ENET_TDES0_DAV \<noteq> 0 then Some (ERROR, s)
          else if unat frame_len > ENET_MAX_FRAME_SIZE then Some (ERROR, s)
          else (let s1 = (case buffer of None \<Rightarrow> s
                          | Some bs \<Rightarrow> s\<lparr>tx_buff := store_at (buffer1_addr d) (take (unat frame_len) bs) (tx_buff s)\<rparr>);
                    d1 = d\<lparr>control_buffer_size := frame_len,
                           status := status d OR (ENET_TDES0_LSG OR ENET_TDES0_FSG) OR ENET_TDES0_DAV\<rparr>;
                    s2 = s1\<lparr>txdesc_tab := put_desc (dma_current_txdesc s) d1 (txdesc_tab s)\<rparr>;
                    dma_tbu_flag = ENET_DMA_STAT s2 AND ENET_DMA_STAT_TBU;
                    dma_tu_flag = ENET_DMA_STAT s2 AND ENET_DMA_STAT_TU;
                    s3 = (if dma_tbu_flag \<noteq> 0 \<or> dma_tu_flag \<noteq> 0
                          then write_DMA_TPEN (write_DMA_STAT (dma_tbu_flag OR dma_tu_flag) s2) else s2)
                in Some (SUCCESS, s3\<lparr>dma_current_txdesc := next_txdesc d1 s3\<rparr>)))"

text \<open>Enabling; the transmitter's queue is flushed in between, with a bounded wait.\<close>

definition enet_tx_enable :: "enet \<Rightarrow> enet" where
  "enet_tx_enable s = s\<lparr>ENET_MAC_CFG := ENET_MAC_CFG s OR ENET_MAC_CFG_TEN, ENET_DMA_CTL := ENET_DMA_CTL s OR ENET_DMA_CTL_STE\<rparr>"

definition enet_rx_enable :: "enet \<Rightarrow> enet" where
  "enet_rx_enable s = s\<lparr>ENET_MAC_CFG := ENET_MAC_CFG s OR ENET_MAC_CFG_REN, ENET_DMA_CTL := ENET_DMA_CTL s OR ENET_DMA_CTL_SRE\<rparr>"

definition enet_enable :: "enet \<Rightarrow> enet" where
  "enet_enable s = enet_rx_enable (enet_tx_enable s)"

section \<open>The controller\<close>

text \<open>
  A frame \<open>f\<close> arrives with the checksum \<open>fcs\<close>; \<open>ty\<close> says that it has a type field instead of a length field, and then the checksum is
  dropped if the controller is configured so.
\<close>

definition stored_bytes :: "u32 \<Rightarrow> bool \<Rightarrow> u8 list \<Rightarrow> u8 list \<Rightarrow> u8 list" where
  "stored_bytes mac_cfg ty f fcs = (if mac_cfg AND ENET_MAC_CFG_TFCD \<noteq> 0 \<and> ty then f else f @ fcs)"

definition frame_status :: "bool \<Rightarrow> nat \<Rightarrow> u32" where
  "frame_status ty n =
     push_bit 16 (word_of_nat n) OR ENET_RDES0_FDES OR ENET_RDES0_LDES OR (if ty then ENET_RDES0_FRMT else 0)"

definition rx_dma :: "bool \<Rightarrow> u8 list \<Rightarrow> u8 list \<Rightarrow> enet \<Rightarrow> bool \<times> enet" where
  "rx_dma ty f fcs s =
     (case deref (rxdesc_tab s) (hw_rx s) of
        None \<Rightarrow> (False, s)
      | Some d \<Rightarrow>
          if ENET_DMA_CTL s AND ENET_DMA_CTL_SRE = 0 \<or> rx_suspended s then (False, s)
          else if status d AND ENET_RDES0_DAV = 0
          then (False, s\<lparr>rx_suspended := True, ENET_DMA_STAT := ENET_DMA_STAT s OR ENET_DMA_STAT_RBU\<rparr>)
          else (let bytes = stored_bytes (ENET_MAC_CFG s) ty f fcs
                in (True, s\<lparr>rx_buff := store_at (buffer1_addr d) bytes (rx_buff s),
                            rxdesc_tab := put_desc (hw_rx s) (d\<lparr>status := frame_status ty (length bytes)\<rparr>) (rxdesc_tab s),
                            hw_rx := buffer2_next_desc_addr d,
                            ENET_DMA_STAT := (if control_buffer_size d AND ENET_RDES1_DINTC = 0
                                              then ENET_DMA_STAT s OR ENET_DMA_STAT_RS OR ENET_DMA_STAT_NI
                                              else ENET_DMA_STAT s)\<rparr>)))"

text \<open>
  The transmission puts the bytes of the buffer on the line. The check sums of the IP packets that the hardware can write into them on the way, with the bits
  \<open>TDES0_CM\<close> of the descriptor, are not modelled: a frame on the line is the frame of the stack up to its check sums.
\<close>

definition tx_dma :: "enet \<Rightarrow> enet" where
  "tx_dma s =
     (case deref (txdesc_tab s) (hw_tx s) of
        None \<Rightarrow> s
      | Some d \<Rightarrow>
          if ENET_DMA_CTL s AND ENET_DMA_CTL_STE = 0 \<or> tx_suspended s then s
          else if status d AND ENET_TDES0_DAV = 0
          then s\<lparr>tx_suspended := True, ENET_DMA_STAT := ENET_DMA_STAT s OR ENET_DMA_STAT_TBU\<rparr>
          else s\<lparr>wire := wire s @ [seg (buffer1_addr d) (unat (GET_BITS (control_buffer_size d) 0 12)) (tx_buff s)],
                 txdesc_tab := put_desc (hw_tx s) (d\<lparr>status := status d AND NOT ENET_TDES0_DAV\<rparr>) (txdesc_tab s),
                 hw_tx := buffer2_next_desc_addr d\<rparr>)"

section \<open>Rings whose slots change their owner\<close>

text \<open>
  \<open>ring_holds n slot i fs\<close>: from slot \<open>i\<close> on, the slots hold the elements of \<open>fs\<close>, and all other slots hold nothing. One side fills
  the slot behind the last element, the other empties slot \<open>i\<close>.
\<close>

definition ring_holds :: "nat \<Rightarrow> (nat \<Rightarrow> 'a option) \<Rightarrow> nat \<Rightarrow> 'a list \<Rightarrow> bool" where
  "ring_holds n slot i fs \<longleftrightarrow> i < n \<and> length fs \<le> n \<and>
     (\<forall>k<n. slot ((i + k) mod n) = (if k < length fs then Some (fs ! k) else None))"

lemma ring_holds_head:
  assumes "ring_holds n slot i fs"
  shows "slot i = (if fs = [] then None else Some (hd fs))"
proof -
  have "slot ((i + 0) mod n) = (if 0 < length fs then Some (fs ! 0) else None)"
    using assms unfolding ring_holds_def by (metis gr_zeroI less_zeroE)
  then show ?thesis using assms by (auto simp: ring_holds_def hd_conv_nth)
qed

lemma ring_holds_free:
  assumes "ring_holds n slot i fs"
  shows "slot ((i + length fs) mod n) = (if length fs < n then None else Some (hd fs))"
proof (cases "length fs < n")
  case True
  then show ?thesis using assms unfolding ring_holds_def by (metis less_irrefl)
next
  case False
  then have "length fs = n" "(i + length fs) mod n = i" using assms by (auto simp: ring_holds_def)
  then show ?thesis using ring_holds_head [OF assms] assms by (auto simp: ring_holds_def)
qed

lemma ring_index_eq:
  assumes "i < n" and "j < n" and "k < (n :: nat)"
  shows "(i + j) mod n = (i + k) mod n \<longleftrightarrow> j = k"
  using assms by (simp add: ring_advance split: if_splits) auto

lemma ring_holds_push:
  assumes "ring_holds n slot i fs" and "length fs < n"
    and "\<And>j. j < n \<Longrightarrow> slot' j = (if j = (i + length fs) mod n then Some f else slot j)"
  shows "ring_holds n slot' i (fs @ [f])"
  unfolding ring_holds_def
proof (intro conjI allI impI)
  show "i < n" "length (fs @ [f]) \<le> n" using assms by (auto simp: ring_holds_def)
  fix k assume k: "k < n"
  have "slot' ((i + k) mod n) = (if k = length fs then Some f else slot ((i + k) mod n))"
    using assms(3) [of "(i + k) mod n"] k assms(2) \<open>i < n\<close> by (simp add: ring_index_eq)
  then show "slot' ((i + k) mod n) = (if k < length (fs @ [f]) then Some ((fs @ [f]) ! k) else None)"
    using assms(1) k by (auto simp: ring_holds_def nth_append)
qed

lemma ring_holds_pop:
  assumes "ring_holds n slot i (f # fs)"
    and "\<And>j. j < n \<Longrightarrow> slot' j = (if j = i then None else slot j)"
  shows "ring_holds n slot' ((i + 1) mod n) fs"
  unfolding ring_holds_def
proof (intro conjI allI impI)
  have i: "i < n" "Suc (length fs) \<le> n" using assms by (auto simp: ring_holds_def)
  then show "(i + 1) mod n < n" "length fs \<le> n" by auto
  fix k assume k: "k < n"
  have e: "((i + 1) mod n + k) mod n = (i + Suc k) mod n" by (simp add: mod_add_left_eq)
  show "slot' (((i + 1) mod n + k) mod n) = (if k < length fs then Some (fs ! k) else None)"
  proof (cases "Suc k < n")
    case True
    then have "(i + Suc k) mod n \<noteq> i"
      using ring_index_eq [of i n "Suc k" 0] i by auto
    moreover have "slot ((i + Suc k) mod n) = (if Suc k < length (f # fs) then Some ((f # fs) ! Suc k) else None)"
      using assms(1) True unfolding ring_holds_def by blast
    ultimately show ?thesis using assms(2) [of "(i + Suc k) mod n"] i e by simp
  next
    case False
    then have "(i + Suc k) mod n = i" using k i by (metis Suc_lessI mod_add_self2 mod_less)
    then show ?thesis using assms(2) [of i] i e False k by simp
  qed
qed

lemma ring_holds_cong:
  assumes "ring_holds n slot i fs" and "\<And>j. j < n \<Longrightarrow> slot' j = slot j"
  shows "ring_holds n slot' i fs"
  using assms by (auto simp: ring_holds_def)

end
