(* ===== verification/EnetRegs.thy ===== *)
theory EnetRegs
  imports EnetDma
begin

text \<open>
  The registers of the Ethernet controller that its initialisation uses, with the fields and settings of \<^verbatim>\<open>gd32h7xx_enet.h\<close>, and the structure
  of the parameters that are configured less often. The registers extend the record of the descriptor rings; the transceiver behind the management
  interface is a parameter.
\<close>

section \<open>Fields and settings\<close>

definition ENET_MAC_CFG_DFC :: u32 where "ENET_MAC_CFG_DFC = BIT 4"
definition ENET_MAC_CFG_BOL :: u32 where "ENET_MAC_CFG_BOL = BITS 5 6"
definition ENET_MAC_CFG_APCD :: u32 where "ENET_MAC_CFG_APCD = BIT 7"
definition ENET_MAC_CFG_RTD :: u32 where "ENET_MAC_CFG_RTD = BIT 9"
definition ENET_MAC_CFG_IPFCO :: u32 where "ENET_MAC_CFG_IPFCO = BIT 10"
definition ENET_MAC_CFG_DPM :: u32 where "ENET_MAC_CFG_DPM = BIT 11"
definition ENET_MAC_CFG_LBM :: u32 where "ENET_MAC_CFG_LBM = BIT 12"
definition ENET_MAC_CFG_ROD :: u32 where "ENET_MAC_CFG_ROD = BIT 13"
definition ENET_MAC_CFG_SPD :: u32 where "ENET_MAC_CFG_SPD = BIT 14"
definition ENET_MAC_CFG_CSD :: u32 where "ENET_MAC_CFG_CSD = BIT 16"
definition ENET_MAC_CFG_IGBS :: u32 where "ENET_MAC_CFG_IGBS = BITS 17 19"
definition ENET_MAC_CFG_JBD :: u32 where "ENET_MAC_CFG_JBD = BIT 22"
definition ENET_MAC_CFG_WDD :: u32 where "ENET_MAC_CFG_WDD = BIT 23"
definition ENET_MAC_FRMF_HUF :: u32 where "ENET_MAC_FRMF_HUF = BIT 1"
definition ENET_MAC_FRMF_HMF :: u32 where "ENET_MAC_FRMF_HMF = BIT 2"
definition ENET_MAC_FRMF_DAIFLT :: u32 where "ENET_MAC_FRMF_DAIFLT = BIT 3"
definition ENET_MAC_FRMF_MFD :: u32 where "ENET_MAC_FRMF_MFD = BIT 4"
definition ENET_MAC_FRMF_PCFRM :: u32 where "ENET_MAC_FRMF_PCFRM = BITS 6 7"
definition ENET_MAC_FRMF_SAIFLT :: u32 where "ENET_MAC_FRMF_SAIFLT = BIT 8"
definition ENET_MAC_FRMF_SAFLT :: u32 where "ENET_MAC_FRMF_SAFLT = BIT 9"
definition ENET_MAC_FRMF_HPFLT :: u32 where "ENET_MAC_FRMF_HPFLT = BIT 10"
definition ENET_MAC_PHY_CTL_PB :: u32 where "ENET_MAC_PHY_CTL_PB = BIT 0"
definition ENET_MAC_PHY_CTL_PW :: u32 where "ENET_MAC_PHY_CTL_PW = BIT 1"
definition ENET_MAC_PHY_CTL_CLR :: u32 where "ENET_MAC_PHY_CTL_CLR = BITS 2 4"
definition ENET_MAC_PHY_CTL_PR :: u32 where "ENET_MAC_PHY_CTL_PR = BITS 6 10"
definition ENET_MAC_PHY_CTL_PA :: u32 where "ENET_MAC_PHY_CTL_PA = BITS 11 15"
definition ENET_MAC_FCTL_TFCEN :: u32 where "ENET_MAC_FCTL_TFCEN = BIT 1"
definition ENET_MAC_FCTL_RFCEN :: u32 where "ENET_MAC_FCTL_RFCEN = BIT 2"
definition ENET_MAC_FCTL_UPFDT :: u32 where "ENET_MAC_FCTL_UPFDT = BIT 3"
definition ENET_MAC_FCTL_PLTS :: u32 where "ENET_MAC_FCTL_PLTS = BITS 4 5"
definition ENET_MAC_FCTL_DZQP :: u32 where "ENET_MAC_FCTL_DZQP = BIT 7"
definition ENET_MAC_FCTL_PTM :: u32 where "ENET_MAC_FCTL_PTM = BITS 16 31"
definition ENET_MAC_VLT_VLTI :: u32 where "ENET_MAC_VLT_VLTI = BITS 0 15"
definition ENET_MAC_VLT_VLTC :: u32 where "ENET_MAC_VLT_VLTC = BIT 16"
definition ENET_MAC_INTMSK_WUMIM :: u32 where "ENET_MAC_INTMSK_WUMIM = BIT 3"
definition ENET_MAC_INTMSK_TMSTIM :: u32 where "ENET_MAC_INTMSK_TMSTIM = BIT 9"
definition ENET_MAC_FCTH_RFA :: u32 where "ENET_MAC_FCTH_RFA = BITS 0 2"
definition ENET_MAC_FCTH_RFD :: u32 where "ENET_MAC_FCTH_RFD = BITS 4 6"
definition ENET_MSC_RINTMSK_RFCEIM :: u32 where "ENET_MSC_RINTMSK_RFCEIM = BIT 5"
definition ENET_MSC_RINTMSK_RFAEIM :: u32 where "ENET_MSC_RINTMSK_RFAEIM = BIT 6"
definition ENET_MSC_RINTMSK_RGUFIM :: u32 where "ENET_MSC_RINTMSK_RGUFIM = BIT 17"
definition ENET_MSC_TINTMSK_TGFSCIM :: u32 where "ENET_MSC_TINTMSK_TGFSCIM = BIT 14"
definition ENET_MSC_TINTMSK_TGFMSCIM :: u32 where "ENET_MSC_TINTMSK_TGFMSCIM = BIT 15"
definition ENET_MSC_TINTMSK_TGFIM :: u32 where "ENET_MSC_TINTMSK_TGFIM = BIT 21"
definition ENET_DMA_BCTL_SWR :: u32 where "ENET_DMA_BCTL_SWR = BIT 0"
definition ENET_DMA_BCTL_DAB :: u32 where "ENET_DMA_BCTL_DAB = BIT 1"
definition ENET_DMA_BCTL_DFM :: u32 where "ENET_DMA_BCTL_DFM = BIT 7"
definition ENET_DMA_BCTL_PGBL :: u32 where "ENET_DMA_BCTL_PGBL = BITS 8 13"
definition ENET_DMA_BCTL_RTPR :: u32 where "ENET_DMA_BCTL_RTPR = BITS 14 15"
definition ENET_DMA_BCTL_FB :: u32 where "ENET_DMA_BCTL_FB = BIT 16"
definition ENET_DMA_BCTL_RXDP :: u32 where "ENET_DMA_BCTL_RXDP = BITS 17 22"
definition ENET_DMA_BCTL_UIP :: u32 where "ENET_DMA_BCTL_UIP = BIT 23"
definition ENET_DMA_BCTL_FPBL :: u32 where "ENET_DMA_BCTL_FPBL = BIT 24"
definition ENET_DMA_BCTL_AA :: u32 where "ENET_DMA_BCTL_AA = BIT 25"
definition ENET_DMA_BCTL_MB :: u32 where "ENET_DMA_BCTL_MB = BIT 26"
definition ENET_DMA_CTL_OSF :: u32 where "ENET_DMA_CTL_OSF = BIT 2"
definition ENET_DMA_CTL_RTHC :: u32 where "ENET_DMA_CTL_RTHC = BITS 3 4"
definition ENET_DMA_CTL_FUF :: u32 where "ENET_DMA_CTL_FUF = BIT 6"
definition ENET_DMA_CTL_FERF :: u32 where "ENET_DMA_CTL_FERF = BIT 7"
definition ENET_DMA_CTL_TTHC :: u32 where "ENET_DMA_CTL_TTHC = BITS 14 16"
definition ENET_DMA_CTL_TSFD :: u32 where "ENET_DMA_CTL_TSFD = BIT 21"
definition ENET_DMA_CTL_DAFRF :: u32 where "ENET_DMA_CTL_DAFRF = BIT 24"
definition ENET_DMA_CTL_RSFD :: u32 where "ENET_DMA_CTL_RSFD = BIT 25"
definition ENET_DMA_CTL_DTCERFD :: u32 where "ENET_DMA_CTL_DTCERFD = BIT 26"
definition ENET_DMA_INTEN_RIE :: u32 where "ENET_DMA_INTEN_RIE = BIT 6"
definition ENET_DMA_INTEN_NIE :: u32 where "ENET_DMA_INTEN_NIE = BIT 16"
definition MAC_CFG_BOL :: "u32 \<Rightarrow> u32" where "MAC_CFG_BOL regval = BITS 5 6 AND push_bit 5 regval"
definition ENET_BACKOFFLIMIT_10 :: u32 where "ENET_BACKOFFLIMIT_10 = MAC_CFG_BOL 0"
definition MAC_CFG_IGBS :: "u32 \<Rightarrow> u32" where "MAC_CFG_IGBS regval = BITS 17 19 AND push_bit 17 regval"
definition ENET_INTERFRAMEGAP_96BIT :: u32 where "ENET_INTERFRAMEGAP_96BIT = MAC_CFG_IGBS 0"
definition ENET_TYPEFRAME_CRC_DROP_DISABLE :: u32 where "ENET_TYPEFRAME_CRC_DROP_DISABLE = 0x00000000"
definition ENET_WATCHDOG_ENABLE :: u32 where "ENET_WATCHDOG_ENABLE = 0x00000000"
definition ENET_JABBER_ENABLE :: u32 where "ENET_JABBER_ENABLE = 0x00000000"
definition ENET_CARRIERSENSE_DISABLE :: u32 where "ENET_CARRIERSENSE_DISABLE = ENET_MAC_CFG_CSD"
definition ENET_SPEEDMODE_10M :: u32 where "ENET_SPEEDMODE_10M = 0x00000000"
definition ENET_SPEEDMODE_100M :: u32 where "ENET_SPEEDMODE_100M = ENET_MAC_CFG_SPD"
definition ENET_RECEIVEOWN_ENABLE :: u32 where "ENET_RECEIVEOWN_ENABLE = 0x00000000"
definition ENET_LOOPBACKMODE_DISABLE :: u32 where "ENET_LOOPBACKMODE_DISABLE = 0x00000000"
definition ENET_MODE_FULLDUPLEX :: u32 where "ENET_MODE_FULLDUPLEX = ENET_MAC_CFG_DPM"
definition ENET_MODE_HALFDUPLEX :: u32 where "ENET_MODE_HALFDUPLEX = 0x00000000"
definition ENET_CHECKSUMOFFLOAD_ENABLE :: u32 where "ENET_CHECKSUMOFFLOAD_ENABLE = ENET_MAC_CFG_IPFCO"
definition ENET_CHECKSUMOFFLOAD_DISABLE :: u32 where "ENET_CHECKSUMOFFLOAD_DISABLE = 0x00000000"
definition ENET_RETRYTRANSMISSION_ENABLE :: u32 where "ENET_RETRYTRANSMISSION_ENABLE = 0x00000000"
definition ENET_AUTO_PADCRC_DROP_DISABLE :: u32 where "ENET_AUTO_PADCRC_DROP_DISABLE = 0x00000000"
definition ENET_DEFERRALCHECK_DISABLE :: u32 where "ENET_DEFERRALCHECK_DISABLE = 0x00000000"
definition MAC_FRMF_PCFRM :: "u32 \<Rightarrow> u32" where "MAC_FRMF_PCFRM regval = BITS 6 7 AND push_bit 6 regval"
definition ENET_PCFRM_PREVENT_ALL :: u32 where "ENET_PCFRM_PREVENT_ALL = MAC_FRMF_PCFRM 0"
definition ENET_RX_FILTER_ENABLE :: u32 where "ENET_RX_FILTER_ENABLE = 0x00000000"
definition ENET_SRC_FILTER_DISABLE :: u32 where "ENET_SRC_FILTER_DISABLE = 0x00000000"
definition ENET_BROADCASTFRAMES_ENABLE :: u32 where "ENET_BROADCASTFRAMES_ENABLE = 0x00000000"
definition ENET_DEST_FILTER_INVERSE_DISABLE :: u32 where "ENET_DEST_FILTER_INVERSE_DISABLE = 0x00000000"
definition ENET_PROMISCUOUS_DISABLE :: u32 where "ENET_PROMISCUOUS_DISABLE = 0x00000000"
definition ENET_MULTICAST_FILTER_PERFECT :: u32 where "ENET_MULTICAST_FILTER_PERFECT = 0x00000000"
definition ENET_UNICAST_FILTER_PERFECT :: u32 where "ENET_UNICAST_FILTER_PERFECT = 0x00000000"
definition MAC_PHY_CTL_CLR :: "u32 \<Rightarrow> u32" where "MAC_PHY_CTL_CLR regval = BITS 2 4 AND push_bit 2 regval"
definition ENET_MDC_HCLK_DIV42 :: u32 where "ENET_MDC_HCLK_DIV42 = MAC_PHY_CTL_CLR 0"
definition ENET_MDC_HCLK_DIV62 :: u32 where "ENET_MDC_HCLK_DIV62 = MAC_PHY_CTL_CLR 1"
definition ENET_MDC_HCLK_DIV16 :: u32 where "ENET_MDC_HCLK_DIV16 = MAC_PHY_CTL_CLR 2"
definition ENET_MDC_HCLK_DIV26 :: u32 where "ENET_MDC_HCLK_DIV26 = MAC_PHY_CTL_CLR 3"
definition ENET_MDC_HCLK_DIV102 :: u32 where "ENET_MDC_HCLK_DIV102 = MAC_PHY_CTL_CLR 4"
definition ENET_MDC_HCLK_DIV124 :: u32 where "ENET_MDC_HCLK_DIV124 = MAC_PHY_CTL_CLR 5"
definition ENET_MDC_HCLK_DIV142 :: u32 where "ENET_MDC_HCLK_DIV142 = MAC_PHY_CTL_CLR 6"
definition ENET_MDC_HCLK_DIV162 :: u32 where "ENET_MDC_HCLK_DIV162 = MAC_PHY_CTL_CLR 7"
definition MAC_PHY_CTL_PR :: "u32 \<Rightarrow> u32" where "MAC_PHY_CTL_PR regval = BITS 6 10 AND push_bit 6 regval"
definition MAC_PHY_CTL_PA :: "u32 \<Rightarrow> u32" where "MAC_PHY_CTL_PA regval = BITS 11 15 AND push_bit 11 regval"
definition MAC_FCTL_PLTS :: "u32 \<Rightarrow> u32" where "MAC_FCTL_PLTS regval = BITS 4 5 AND push_bit 4 regval"
definition ENET_PAUSETIME_MINUS4 :: u32 where "ENET_PAUSETIME_MINUS4 = MAC_FCTL_PLTS 0"
definition ENET_ZERO_QUANTA_PAUSE_DISABLE :: u32 where "ENET_ZERO_QUANTA_PAUSE_DISABLE = ENET_MAC_FCTL_DZQP"
definition ENET_UNIQUE_PAUSEDETECT :: u32 where "ENET_UNIQUE_PAUSEDETECT = 0x00000000"
definition ENET_RX_FLOWCONTROL_DISABLE :: u32 where "ENET_RX_FLOWCONTROL_DISABLE = 0x00000000"
definition ENET_TX_FLOWCONTROL_DISABLE :: u32 where "ENET_TX_FLOWCONTROL_DISABLE = 0x00000000"
definition MAC_FCTL_PTM :: "u32 \<Rightarrow> u32" where "MAC_FCTL_PTM regval = BITS 16 31 AND push_bit 16 regval"
definition MAC_VLT_VLTI :: "u32 \<Rightarrow> u32" where "MAC_VLT_VLTI regval = BITS 0 15 AND push_bit 0 regval"
definition ENET_VLANTAGCOMPARISON_16BIT :: u32 where "ENET_VLANTAGCOMPARISON_16BIT = 0x00000000"
definition ENET_ENHANCED_DESCRIPTOR :: u32 where "ENET_ENHANCED_DESCRIPTOR = ENET_DMA_BCTL_DFM"
definition ENET_NORMAL_DESCRIPTOR :: u32 where "ENET_NORMAL_DESCRIPTOR = 0x00000000"
definition DMA_BCTL_PGBL :: "u32 \<Rightarrow> u32" where "DMA_BCTL_PGBL regval = BITS 8 13 AND push_bit 8 regval"
definition ENET_PGBL_32BEAT :: u32 where "ENET_PGBL_32BEAT = DMA_BCTL_PGBL 32"
definition DMA_BCTL_RTPR :: "u32 \<Rightarrow> u32" where "DMA_BCTL_RTPR regval = BITS 14 15 AND push_bit 14 regval"
definition ENET_ARBITRATION_RXTX_2_1 :: u32 where "ENET_ARBITRATION_RXTX_2_1 = DMA_BCTL_RTPR 1"
definition ENET_FIXED_BURST_ENABLE :: u32 where "ENET_FIXED_BURST_ENABLE = ENET_DMA_BCTL_FB"
definition DMA_BCTL_RXDP :: "u32 \<Rightarrow> u32" where "DMA_BCTL_RXDP regval = BITS 17 22 AND push_bit 17 regval"
definition ENET_RXDP_32BEAT :: u32 where "ENET_RXDP_32BEAT = DMA_BCTL_RXDP 32"
definition ENET_RXTX_DIFFERENT_PGBL :: u32 where "ENET_RXTX_DIFFERENT_PGBL = ENET_DMA_BCTL_UIP"
definition ENET_ADDRESS_ALIGN_ENABLE :: u32 where "ENET_ADDRESS_ALIGN_ENABLE = ENET_DMA_BCTL_AA"
definition ENET_MIXED_BURST_DISABLE :: u32 where "ENET_MIXED_BURST_DISABLE = 0x00000000"
definition DMA_CTL_RTHC :: "u32 \<Rightarrow> u32" where "DMA_CTL_RTHC regval = BITS 3 4 AND push_bit 3 regval"
definition ENET_RX_THRESHOLD_64BYTES :: u32 where "ENET_RX_THRESHOLD_64BYTES = DMA_CTL_RTHC 0"
definition DMA_CTL_TTHC :: "u32 \<Rightarrow> u32" where "DMA_CTL_TTHC regval = BITS 14 16 AND push_bit 14 regval"
definition ENET_TX_THRESHOLD_64BYTES :: u32 where "ENET_TX_THRESHOLD_64BYTES = DMA_CTL_TTHC 0"
definition ENET_TCPIP_CKSUMERROR_DROP :: u32 where "ENET_TCPIP_CKSUMERROR_DROP = 0x00000000"
definition ENET_RX_MODE_STOREFORWARD :: u32 where "ENET_RX_MODE_STOREFORWARD = ENET_DMA_CTL_RSFD"
definition ENET_FLUSH_RXFRAME_ENABLE :: u32 where "ENET_FLUSH_RXFRAME_ENABLE = 0x00000000"
definition ENET_TX_MODE_STOREFORWARD :: u32 where "ENET_TX_MODE_STOREFORWARD = ENET_DMA_CTL_TSFD"
definition ENET_SECONDFRAME_OPT_DISABLE :: u32 where "ENET_SECONDFRAME_OPT_DISABLE = 0x00000000"
definition MAC_CFG_MASK :: u32 where "MAC_CFG_MASK = 0xFD30810F"
definition MAC_FCTL_MASK :: u32 where "MAC_FCTL_MASK = 0x0000FF41"
definition DMA_CTL_MASK :: u32 where "DMA_CTL_MASK = 0xF8DE3F23"
definition DMA_BCTL_MASK :: u32 where "DMA_BCTL_MASK = 0xF800007D"
definition ENET_DELAY_TO :: u32 where "ENET_DELAY_TO = 0x0004FFFF"
definition PHY_ADDRESS :: u16 where "PHY_ADDRESS = 0"
definition PHY_READ_TO :: u32 where "PHY_READ_TO = 0x0004FFFF"
definition PHY_RESETDELAY :: u32 where "PHY_RESETDELAY = 0x008FFFFF"
definition PHY_CONFIGDELAY :: u32 where "PHY_CONFIGDELAY = 0x00FFFFFF"
definition PHY_REG_BCR :: u16 where "PHY_REG_BCR = 0"
definition PHY_REG_BSR :: u16 where "PHY_REG_BSR = 1"
definition PHY_RESET :: u16 where "PHY_RESET = 0x8000"
definition PHY_AUTONEGOTIATION :: u16 where "PHY_AUTONEGOTIATION = 0x1000"
definition PHY_AUTONEGO_COMPLETE :: u16 where "PHY_AUTONEGO_COMPLETE = 0x0020"
definition PHY_LINKED_STATUS :: u16 where "PHY_LINKED_STATUS = 0x0004"
definition PHY_SR :: u16 where "PHY_SR = 31"
definition PHY_SPEED_STATUS :: u16 where "PHY_SPEED_STATUS = 0x0004"
definition PHY_DUPLEX_STATUS :: u16 where "PHY_DUPLEX_STATUS = 0x0010"

definition ENET_RANGE :: "u32 \<Rightarrow> u32 \<Rightarrow> u32 \<Rightarrow> bool" where "ENET_RANGE hclk n m \<longleftrightarrow> hclk \<ge> n \<and> hclk < m"

lemmas mac_cfg_fields = ENET_MAC_CFG_DFC_def ENET_MAC_CFG_BOL_def ENET_MAC_CFG_APCD_def ENET_MAC_CFG_RTD_def ENET_MAC_CFG_IPFCO_def ENET_MAC_CFG_DPM_def
  ENET_MAC_CFG_LBM_def ENET_MAC_CFG_ROD_def ENET_MAC_CFG_SPD_def ENET_MAC_CFG_CSD_def ENET_MAC_CFG_IGBS_def ENET_MAC_CFG_JBD_def ENET_MAC_CFG_WDD_def ENET_MAC_CFG_TFCD_def
lemmas phy_ctl_fields = ENET_MAC_PHY_CTL_PB_def ENET_MAC_PHY_CTL_PW_def ENET_MAC_PHY_CTL_CLR_def ENET_MAC_PHY_CTL_PR_def ENET_MAC_PHY_CTL_PA_def
  MAC_PHY_CTL_PR_def MAC_PHY_CTL_PA_def
lemmas media_settings = ENET_SPEEDMODE_10M_def ENET_SPEEDMODE_100M_def ENET_MODE_FULLDUPLEX_def ENET_MODE_HALFDUPLEX_def
lemmas bctl_settings = ENET_DMA_BCTL_SWR_def ENET_ADDRESS_ALIGN_ENABLE_def ENET_DMA_BCTL_AA_def ENET_ARBITRATION_RXTX_2_1_def DMA_BCTL_RTPR_def
  ENET_RXDP_32BEAT_def DMA_BCTL_RXDP_def ENET_PGBL_32BEAT_def DMA_BCTL_PGBL_def ENET_RXTX_DIFFERENT_PGBL_def ENET_DMA_BCTL_UIP_def
  ENET_FIXED_BURST_ENABLE_def ENET_DMA_BCTL_FB_def ENET_MIXED_BURST_DISABLE_def ENET_NORMAL_DESCRIPTOR_def
lemmas phy_values = PHY_ADDRESS_def PHY_REG_BCR_def PHY_REG_BSR_def PHY_SR_def PHY_RESET_def PHY_AUTONEGOTIATION_def PHY_AUTONEGO_COMPLETE_def
  PHY_LINKED_STATUS_def PHY_SPEED_STATUS_def PHY_DUPLEX_STATUS_def

section \<open>State\<close>

record enet_initpara_struct =
  option_enable :: u32
  forward_frame :: u32
  dmabus_mode :: u32
  dma_maxburst :: u32
  dma_arbitration :: u32
  store_forward_mode :: u32
  dma_function :: u32
  vlan_config :: u32
  flow_control :: u32
  hashtable_high :: u32
  hashtable_low :: u32
  framesfilter_mode :: u32
  halfduplex_param :: u32
  timer_config :: u32
  interframegap :: u32

record 'p enet_mac = enet +
  ENET_MAC_FRMF :: u32
  ENET_MAC_HLH :: u32
  ENET_MAC_HLL :: u32
  ENET_MAC_PHY_CTL :: u32
  ENET_MAC_PHY_DATA :: u32
  ENET_MAC_FCTL :: u32
  ENET_MAC_VLT :: u32
  ENET_MAC_INTMSK :: u32
  ENET_MAC_FCTH :: u32
  ENET_MSC_RINTMSK :: u32
  ENET_MSC_TINTMSK :: u32
  ENET_DMA_INTEN :: u32
  enet_initpara :: enet_initpara_struct
  transceiver :: 'p

text \<open>Options, modes and settings of the initialisation.\<close>

datatype enet_option_enum = FORWARD_OPTION | DMABUS_OPTION | DMA_MAXBURST_OPTION | DMA_ARBITRATION_OPTION | STORE_OPTION | DMA_OPTION | VLAN_OPTION
  | FLOWCTL_OPTION | HASHH_OPTION | HASHL_OPTION | FILTER_OPTION | HALFDUPLEX_OPTION | TIMER_OPTION | INTERFRAMEGAP_OPTION

fun option_bit :: "enet_option_enum \<Rightarrow> u32" where
  "option_bit FORWARD_OPTION = BIT 0" | "option_bit DMABUS_OPTION = BIT 1" | "option_bit DMA_MAXBURST_OPTION = BIT 2"
| "option_bit DMA_ARBITRATION_OPTION = BIT 3" | "option_bit STORE_OPTION = BIT 4" | "option_bit DMA_OPTION = BIT 5" | "option_bit VLAN_OPTION = BIT 6"
| "option_bit FLOWCTL_OPTION = BIT 7" | "option_bit HASHH_OPTION = BIT 8" | "option_bit HASHL_OPTION = BIT 9" | "option_bit FILTER_OPTION = BIT 10"
| "option_bit HALFDUPLEX_OPTION = BIT 11" | "option_bit TIMER_OPTION = BIT 12" | "option_bit INTERFRAMEGAP_OPTION = BIT 13"

datatype enet_mediamode_enum = ENET_AUTO_NEGOTIATION | ENET_100M_FULLDUPLEX | ENET_100M_HALFDUPLEX | ENET_10M_FULLDUPLEX | ENET_10M_HALFDUPLEX | ENET_LOOPBACKMODE

fun mediamode_value :: "enet_mediamode_enum \<Rightarrow> u32" where
  "mediamode_value ENET_AUTO_NEGOTIATION = 1"
| "mediamode_value ENET_100M_FULLDUPLEX = ENET_MAC_CFG_SPD OR ENET_MAC_CFG_DPM"
| "mediamode_value ENET_100M_HALFDUPLEX = ENET_MAC_CFG_SPD"
| "mediamode_value ENET_10M_FULLDUPLEX = ENET_MAC_CFG_DPM"
| "mediamode_value ENET_10M_HALFDUPLEX = 0"
| "mediamode_value ENET_LOOPBACKMODE = ENET_MAC_CFG_LBM OR ENET_MAC_CFG_DPM"

definition ENET_AUTOCHECKSUM_DROP_FAILFRAMES :: u32 where "ENET_AUTOCHECKSUM_DROP_FAILFRAMES = ENET_MAC_CFG_IPFCO"
definition ENET_BROADCAST_FRAMES_PASS :: u32 where "ENET_BROADCAST_FRAMES_PASS = 0"

end
