(* ===== verification/EnetRing.thy ===== *)
theory EnetRing
  imports EnetDma
begin

text \<open>
  What the two rings of descriptors hold: the frames stored by the controller and not yet taken by the driver, and the frames handed
  over by the driver and not yet on the wire. Each operation of the driver and each step of the controller is shown to act
  on these two lists.
\<close>

section \<open>Bits of a descriptor\<close>

lemma bit_BIT [simp]: "bit (BIT n) k \<longleftrightarrow> k = n \<and> n < 32"
  by (auto simp: BIT_def bit_simps)

lemma and_BIT [simp]: "n < 32 \<Longrightarrow> w AND BIT n = 0 \<longleftrightarrow> \<not> bit w n"
proof -
  assume n: "n < 32"
  have "w AND BIT n = (if bit w n then BIT n else 0)" by (rule bit_eqI) (auto simp: bit_simps)
  moreover have "BIT n \<noteq> 0" using n bit_BIT [of n n] by (metis bit_0_eq bot_apply bot_bool_def)
  ultimately show ?thesis by simp
qed

lemma bit_BITS: "b < 32 \<Longrightarrow> bit (BITS a b) k \<longleftrightarrow> a \<le> k \<and> k \<le> b"
  by (auto simp: BITS_def bit_simps)

lemma frame_status_bits:
  assumes "n < 2 ^ 14"
  shows "GET_RDES0_FRML (frame_status ty n) = word_of_nat n" and "\<not> bit (frame_status ty n) 31" and "bit (frame_status ty n) 5 = ty"
proof -
  have high: "\<not> bit (word_of_nat n :: u32) k" if "14 \<le> k" for k
  proof -
    have "n < 2 ^ k" using assms that by (meson less_le_trans one_le_numeral power_increasing)
    then have "\<not> bit n k" by (simp add: bit_iff_odd)
    then show ?thesis by (simp add: bit_simps)
  qed
  show "GET_RDES0_FRML (frame_status ty n) = word_of_nat n"
  proof (rule bit_eqI)
    fix k assume "possible_bit TYPE(u32) k"
    then show "bit (GET_RDES0_FRML (frame_status ty n)) k = bit (word_of_nat n :: u32) k"
      using high [of k] by (cases "14 \<le> k") (auto simp: GET_RDES0_FRML_def GET_BITS_def frame_status_def enet_bits bit_simps bit_BITS simp del: bit_of_nat_iff_bit)
  qed
  show "\<not> bit (frame_status ty n) 31" using high [of 15]
    by (auto simp: frame_status_def enet_bits bit_simps simp del: bit_of_nat_iff_bit)
  show "bit (frame_status ty n) 5 = ty" by (auto simp: frame_status_def enet_bits bit_simps)
qed

lemma rx_frame_length_DAV [simp]: "rx_frame_length cfg ENET_RDES0_DAV = 0"
proof -
  have "GET_RDES0_FRML ENET_RDES0_DAV = 0"
    by (rule bit_eqI) (auto simp: GET_RDES0_FRML_def GET_BITS_def enet_bits bit_simps bit_BITS)
  then show ?thesis by (simp add: rx_frame_length_def)
qed

text \<open>Frames of the sizes the controller delivers whole: a header at least, and with the checksum no more than a buffer holds.\<close>

definition frame_ok :: "u8 list \<Rightarrow> u8 list \<Rightarrow> bool" where
  "frame_ok f fcs \<longleftrightarrow> 14 \<le> length f \<and> length f + 4 \<le> ENET_MAX_FRAME_SIZE \<and> length fcs = 4"

lemma rx_frame_length_status:
  assumes "4 < n" and "n < 2 ^ 14"
  shows "unat (rx_frame_length cfg (frame_status ty n)) = (if bit cfg 25 \<and> ty then n else n - 4)"
proof -
  have u: "unat (word_of_nat n :: u32) = n" by (rule word_of_nat_eq_nat_iff) (use assms in simp)
  have "(word_of_nat n :: u32) > 4" using assms by (simp add: word_less_nat_alt u)
  then show ?thesis
    using assms unat_diff_le [of 4 "word_of_nat n :: u32"] u
    by (simp add: rx_frame_length_def frame_status_bits [OF assms(2)] enet_bits Let_def word_le_nat_alt)
qed

lemma rx_frame_length_stored:
  assumes "frame_ok f fcs"
  shows "unat (rx_frame_length cfg (frame_status ty (length (stored_bytes cfg ty f fcs)))) = length f"
proof -
  have "4 < length (stored_bytes cfg ty f fcs)" "length (stored_bytes cfg ty f fcs) < 2 ^ 14"
    using assms by (auto simp: frame_ok_def stored_bytes_def enet_sizes)
  from rx_frame_length_status [OF this, of cfg ty] show ?thesis
    using assms by (simp add: stored_bytes_def frame_ok_def enet_bits split: if_splits)
qed

section \<open>The two halves\<close>

text \<open>What the receiving and the transmitting half share is the status register, and they use different bits of it.\<close>

definition same_rx :: "enet \<Rightarrow> enet \<Rightarrow> bool" where
  "same_rx s s' \<longleftrightarrow> rxdesc_tab s' = rxdesc_tab s \<and> rx_buff s' = rx_buff s \<and> ENET_MAC_CFG s' = ENET_MAC_CFG s \<and>
     dma_current_rxdesc s' = dma_current_rxdesc s \<and> hw_rx s' = hw_rx s \<and> ENET_DMA_CTL s' = ENET_DMA_CTL s \<and>
     rx_suspended s' = rx_suspended s \<and> bit (ENET_DMA_STAT s') 6 = bit (ENET_DMA_STAT s) 6 \<and> bit (ENET_DMA_STAT s') 7 = bit (ENET_DMA_STAT s) 7"

definition same_tx :: "enet \<Rightarrow> enet \<Rightarrow> bool" where
  "same_tx s s' \<longleftrightarrow> txdesc_tab s' = txdesc_tab s \<and> tx_buff s' = tx_buff s \<and> dma_current_txdesc s' = dma_current_txdesc s \<and>
     hw_tx s' = hw_tx s \<and> ENET_DMA_CTL s' = ENET_DMA_CTL s \<and> tx_suspended s' = tx_suspended s \<and>
     bit (ENET_DMA_STAT s') 2 = bit (ENET_DMA_STAT s) 2 \<and> wire s' = wire s"

lemma same_rx_trans [trans]: "same_rx a b \<Longrightarrow> same_rx b c \<Longrightarrow> same_rx a c"
  by (simp add: same_rx_def)

lemma same_tx_trans [trans]: "same_tx a b \<Longrightarrow> same_tx b c \<Longrightarrow> same_tx a c"
  by (simp add: same_tx_def)

lemma same_refl [simp]: "same_rx s s" "same_tx s s"
  by (simp_all add: same_rx_def same_tx_def)

section \<open>The receive ring\<close>

definition desc_chained :: "nat \<Rightarrow> enet_descriptors_struct \<Rightarrow> bool" where
  "desc_chained j d \<longleftrightarrow> buffer1_addr d = j * ENET_MAX_FRAME_SIZE \<and> buffer2_next_desc_addr d = ((j + 1) mod 5) * ETH_DMADESC_SIZE"

definition rx_desc_ok :: "u32 \<Rightarrow> nat \<Rightarrow> enet_descriptors_struct \<Rightarrow> bool" where
  "rx_desc_ok cfg j d \<longleftrightarrow> desc_chained j d \<and> bit (control_buffer_size d) 14 \<and> \<not> bit (control_buffer_size d) 31 \<and>
     (if bit (status d) 31 then status d = ENET_RDES0_DAV
      else 0 < unat (rx_frame_length cfg (status d)) \<and> unat (rx_frame_length cfg (status d)) \<le> ENET_MAX_FRAME_SIZE)"

definition rx_slot :: "enet \<Rightarrow> nat \<Rightarrow> u8 list option" where
  "rx_slot s j =
     (let d = rxdesc_tab s ! j
      in if bit (status d) 31 then None
         else Some (seg (buffer1_addr d) (unat (rx_frame_length (ENET_MAC_CFG s) (status d))) (rx_buff s)))"

definition rx_ring :: "enet \<Rightarrow> nat \<Rightarrow> u8 list list \<Rightarrow> bool" where
  "rx_ring s i fs \<longleftrightarrow>
     length (rxdesc_tab s) = 5 \<and> length (rx_buff s) = 5 * ENET_MAX_FRAME_SIZE \<and>
     (\<forall>j<5. rx_desc_ok (ENET_MAC_CFG s) j (rxdesc_tab s ! j)) \<and>
     dma_current_rxdesc s = i * ETH_DMADESC_SIZE \<and> hw_rx s = ((i + length fs) mod 5) * ETH_DMADESC_SIZE \<and>
     bit (ENET_DMA_CTL s) 1 \<and> rx_suspended s = bit (ENET_DMA_STAT s) 7 \<and> (rx_suspended s \<longrightarrow> length fs = 5) \<and>
     ring_holds 5 (rx_slot s) i fs"

lemma deref_index [simp]: "j < length tab \<Longrightarrow> deref tab (j * ETH_DMADESC_SIZE) = Some (tab ! j)"
  by (simp add: deref_def ETH_DMADESC_SIZE_def)

lemma put_desc_index [simp]: "put_desc (j * ETH_DMADESC_SIZE) d tab = tab[j := d]"
  by (simp add: put_desc_def ETH_DMADESC_SIZE_def)

lemma rx_slot_frame [simp]:
  "rx_slot (s\<lparr>rx_suspended := a\<rparr>) = rx_slot s" "rx_slot (s\<lparr>ENET_DMA_STAT := b\<rparr>) = rx_slot s"
  by (simp_all add: rx_slot_def fun_eq_iff Let_def)

lemma rx_ring_same: "same_rx s s' \<Longrightarrow> rx_ring s i fs \<Longrightarrow> rx_ring s' i fs"
proof -
  assume a: "same_rx s s'" "rx_ring s i fs"
  then have "rx_slot s' = rx_slot s" by (simp add: same_rx_def rx_slot_def fun_eq_iff Let_def)
  with a show ?thesis by (simp add: same_rx_def rx_ring_def)
qed

lemma rx_ring_bound: "rx_ring s i fs \<Longrightarrow> i < 5 \<and> length fs \<le> 5"
  by (auto simp: rx_ring_def ring_holds_def)

text \<open>A frame arrives.\<close>

lemma rx_dma_stores:
  assumes r: "rx_ring s i fs" and f: "frame_ok f fcs" and n: "length fs < 5"
  shows "\<exists>s'. rx_dma ty f fcs s = (True, s') \<and> rx_ring s' i (fs @ [f]) \<and> bit (ENET_DMA_STAT s') 6 \<and> same_tx s s'"
proof -
  let ?j = "(i + length fs) mod 5"
  let ?d = "rxdesc_tab s ! ?j"
  let ?bytes = "stored_bytes (ENET_MAC_CFG s) ty f fcs"
  let ?s' = "snd (rx_dma ty f fcs s)"
  have h: "ring_holds 5 (rx_slot s) i fs" and j: "?j < 5" and i: "i < 5" using r rx_ring_bound [OF r] by (simp_all add: rx_ring_def)
  have ok: "rx_desc_ok (ENET_MAC_CFG s) ?j ?d" using r j unfolding rx_ring_def by blast
  have dav: "bit (status ?d) 31" using ring_holds_free [OF h] n by (auto simp: rx_slot_def Let_def split: if_splits)
  have len: "length ?bytes \<le> 1524" and p: "length ?bytes < 2 ^ 14"
    using f by (auto simp: frame_ok_def stored_bytes_def enet_sizes)
  have b: "buffer1_addr ?d = ?j * 1524" using ok by (simp add: rx_desc_ok_def desc_chained_def enet_sizes)
  have fit: "?j * 1524 + length ?bytes \<le> length (rx_buff s)" using r len j by (simp add: rx_ring_def enet_sizes)
  have susp: "\<not> rx_suspended s" using r n by (auto simp: rx_ring_def)
  have eq: "rx_dma ty f fcs s = (True, s\<lparr>rx_buff := store_at (?j * 1524) ?bytes (rx_buff s),
      rxdesc_tab := (rxdesc_tab s)[?j := ?d\<lparr>status := frame_status ty (length ?bytes)\<rparr>],
      hw_rx := ((?j + 1) mod 5) * ETH_DMADESC_SIZE,
      ENET_DMA_STAT := ENET_DMA_STAT s OR ENET_DMA_STAT_RS OR ENET_DMA_STAT_NI\<rparr>)"
  proof -
    have "deref (rxdesc_tab s) (hw_rx s) = Some ?d" "hw_rx s = ?j * ETH_DMADESC_SIZE" "bit (ENET_DMA_CTL s) 1"
      using r j by (auto simp: rx_ring_def)
    moreover have "buffer2_next_desc_addr ?d = ((?j + 1) mod 5) * ETH_DMADESC_SIZE" "\<not> bit (control_buffer_size ?d) 31"
      using ok by (auto simp: rx_desc_ok_def desc_chained_def)
    ultimately show ?thesis
      using dav susp b by (simp only: rx_dma_def enet_bits and_BIT put_desc_index Let_def) simp
  qed
  have other: "rx_slot ?s' k = rx_slot s k" if "k < 5" "k \<noteq> ?j" for k
  proof (cases "bit (status (rxdesc_tab s ! k)) 31")
    case False
    let ?l = "unat (rx_frame_length (ENET_MAC_CFG s) (status (rxdesc_tab s ! k)))"
    have "rx_desc_ok (ENET_MAC_CFG s) k (rxdesc_tab s ! k)" using r that unfolding rx_ring_def by blast
    then have k: "buffer1_addr (rxdesc_tab s ! k) = k * 1524" "?l \<le> 1524"
      using False by (auto simp: rx_desc_ok_def desc_chained_def enet_sizes)
    have "seg (k * 1524) ?l (store_at (?j * 1524) ?bytes (rx_buff s)) = seg (k * 1524) ?l (rx_buff s)"
    proof (rule seg_store_at_other [OF fit])
      show "k * 1524 + ?l \<le> length (rx_buff s)" using r that k by (simp add: rx_ring_def enet_sizes)
      have "k < ?j \<or> ?j < k" using that by linarith
      then show "k * 1524 + ?l \<le> ?j * 1524 \<or> ?j * 1524 + length ?bytes \<le> k * 1524" using k len by auto
    qed
    then show ?thesis using that k r by (simp add: eq rx_slot_def Let_def rx_ring_def)
  qed (use that r in \<open>simp add: eq rx_slot_def Let_def rx_ring_def\<close>)
  have same: "rx_slot ?s' ?j = Some f"
  proof -
    have "seg (?j * 1524) (length f) (store_at (?j * 1524) ?bytes (rx_buff s)) = take (length f) ?bytes"
      using fit by (simp add: seg_def store_at_def stored_bytes_def)
    then show ?thesis
      using j r b f by (simp add: eq rx_slot_def Let_def frame_status_bits [OF p] rx_frame_length_stored [OF f] rx_ring_def)
        (simp add: stored_bytes_def)
  qed
  have "ring_holds 5 (rx_slot ?s') i (fs @ [f])"
    by (rule ring_holds_push [OF h n]) (use other same in auto)
  moreover have "rx_desc_ok (ENET_MAC_CFG s) k (rxdesc_tab ?s' ! k)" if "k < 5" for k
    using r that ok f frame_status_bits(2) [OF p, of ty] rx_frame_length_stored [OF f, of "ENET_MAC_CFG s" ty]
    by (cases "k = ?j") (auto simp: eq rx_ring_def rx_desc_ok_def desc_chained_def frame_ok_def)
  moreover have "((i + length fs) mod 5 + 1) mod 5 = (i + length (fs @ [f])) mod 5" by (simp add: mod_simps)
  ultimately have "rx_ring ?s' i (fs @ [f])"
    using r fit susp by (auto simp: eq rx_ring_def enet_bits bit_simps)
  then show ?thesis by (auto simp: eq enet_bits bit_simps same_tx_def)
qed

lemma rx_dma_full:
  assumes r: "rx_ring s i fs" and n: "length fs = 5"
  shows "\<exists>s'. rx_dma ty f fcs s = (False, s') \<and> rx_ring s' i fs \<and> same_tx s s' \<and>
           bit (ENET_DMA_STAT s') 6 = bit (ENET_DMA_STAT s) 6"
proof -
  let ?j = "(i + length fs) mod 5"
  have h: "ring_holds 5 (rx_slot s) i fs" using r by (simp add: rx_ring_def)
  have dav: "\<not> bit (status (rxdesc_tab s ! ?j)) 31"
    using ring_holds_free [OF h] n by (auto simp: rx_slot_def Let_def split: if_splits)
  have eq: "rx_dma ty f fcs s = (False, if rx_suspended s then s
      else s\<lparr>rx_suspended := True, ENET_DMA_STAT := ENET_DMA_STAT s OR ENET_DMA_STAT_RBU\<rparr>)"
    using r dav by (simp add: rx_dma_def rx_ring_def enet_bits)
  show ?thesis using r n by (auto simp: eq rx_ring_def enet_bits bit_simps same_tx_def)
qed

text \<open>The driver hands a descriptor back.\<close>

lemma frame_receive_busy:
  assumes "rx_ring s i []"
  shows "enet_frame_receive b s = Some (ERROR, [], s)"
proof -
  have "ring_holds 5 (rx_slot s) i []" using assms by (simp add: rx_ring_def)
  from ring_holds_head [OF this] have "bit (status (rxdesc_tab s ! i)) 31"
    by (auto simp: rx_slot_def Let_def split: if_splits)
  then show ?thesis using assms rx_ring_bound [OF assms] by (simp add: enet_frame_receive_def rx_ring_def enet_bits)
qed

lemma frame_receive_pops:
  assumes r: "rx_ring s i (f # fs)"
  shows "\<exists>s'. enet_frame_receive None s = Some (SUCCESS, [], s') \<and> rx_ring s' ((i + 1) mod 5) fs \<and> same_tx s s' \<and>
           bit (ENET_DMA_STAT s') 6 = bit (ENET_DMA_STAT s) 6"
proof -
  let ?d = "rxdesc_tab s ! i"
  have i: "i < 5" using rx_ring_bound [OF r] by simp
  have h: "ring_holds 5 (rx_slot s) i (f # fs)" using r by (simp add: rx_ring_def)
  have dav: "\<not> bit (status ?d) 31" using ring_holds_head [OF h] by (auto simp: rx_slot_def Let_def split: if_splits)
  have ok: "rx_desc_ok (ENET_MAC_CFG s) i ?d" using r i unfolding rx_ring_def by blast
  let ?s' = "release_rxdesc ?d s"
  have eq: "?s' = (if rx_suspended s then s\<lparr>rxdesc_tab := (rxdesc_tab s)[i := ?d\<lparr>status := ENET_RDES0_DAV\<rparr>], rx_suspended := False,
        ENET_DMA_STAT := ENET_DMA_STAT s AND NOT ENET_DMA_STAT_RBU, dma_current_rxdesc := ((i + 1) mod 5) * ETH_DMADESC_SIZE\<rparr>
      else s\<lparr>rxdesc_tab := (rxdesc_tab s)[i := ?d\<lparr>status := ENET_RDES0_DAV\<rparr>], dma_current_rxdesc := ((i + 1) mod 5) * ETH_DMADESC_SIZE\<rparr>)"
    using r ok by (auto simp: release_rxdesc_def rx_ring_def next_rxdesc_def write_DMA_RPEN_def write_DMA_STAT_def Let_def
        rx_desc_ok_def desc_chained_def enet_bits)
  have dv: "bit ENET_RDES0_DAV 31" by (simp add: enet_bits)
  have slots: "rx_slot ?s' j = (if j = i then None else rx_slot s j)" if "j < 5" for j
    using that r i dv by (cases "j = i") (simp_all add: eq rx_slot_def Let_def rx_ring_def)
  have "ring_holds 5 (rx_slot ?s') ((i + 1) mod 5) fs"
    by (rule ring_holds_pop [OF h slots])
  moreover have "rx_desc_ok (ENET_MAC_CFG s) k (rxdesc_tab ?s' ! k)" if "k < 5" for k
    using r that ok dv by (cases "k = i") (auto simp: eq rx_ring_def rx_desc_ok_def desc_chained_def)
  moreover have "((i + 1) mod 5 + length fs) mod 5 = (i + length (f # fs)) mod 5" by (simp add: mod_simps)
  ultimately have "rx_ring ?s' ((i + 1) mod 5) fs"
    using r by (auto simp: eq rx_ring_def enet_bits bit_simps)
  moreover have "enet_frame_receive None s = Some (SUCCESS, [], ?s')"
    using r i dav by (simp add: enet_frame_receive_def rx_ring_def enet_bits)
  ultimately show ?thesis by (auto simp: eq enet_bits bit_simps same_tx_def)
qed

section \<open>The transmit ring\<close>

definition tx_desc_ok :: "nat \<Rightarrow> enet_descriptors_struct \<Rightarrow> bool" where
  "tx_desc_ok j d \<longleftrightarrow> desc_chained j d \<and> bit (status d) 20 \<and>
     (bit (status d) 31 \<longrightarrow> unat (GET_BITS (control_buffer_size d) 0 12) \<le> ENET_MAX_FRAME_SIZE)"

definition tx_slot :: "enet \<Rightarrow> nat \<Rightarrow> u8 list option" where
  "tx_slot s j =
     (let d = txdesc_tab s ! j
      in if bit (status d) 31 then Some (seg (buffer1_addr d) (unat (GET_BITS (control_buffer_size d) 0 12)) (tx_buff s)) else None)"

definition tx_ring :: "enet \<Rightarrow> nat \<Rightarrow> u8 list list \<Rightarrow> bool" where
  "tx_ring s i fs \<longleftrightarrow>
     length (txdesc_tab s) = 5 \<and> length (tx_buff s) = 5 * ENET_MAX_FRAME_SIZE \<and>
     (\<forall>j<5. tx_desc_ok j (txdesc_tab s ! j)) \<and>
     hw_tx s = i * ETH_DMADESC_SIZE \<and> dma_current_txdesc s = ((i + length fs) mod 5) * ETH_DMADESC_SIZE \<and>
     bit (ENET_DMA_CTL s) 13 \<and> (tx_suspended s \<longrightarrow> bit (ENET_DMA_STAT s) 2 \<and> fs = []) \<and>
     ring_holds 5 (tx_slot s) i fs"

lemma tx_ring_same: "same_tx s s' \<Longrightarrow> tx_ring s i fs \<Longrightarrow> tx_ring s' i fs"
proof -
  assume a: "same_tx s s'" "tx_ring s i fs"
  then have "tx_slot s' = tx_slot s" by (simp add: same_tx_def tx_slot_def fun_eq_iff Let_def)
  with a show ?thesis by (simp add: same_tx_def tx_ring_def)
qed

lemma tx_ring_bound: "tx_ring s i fs \<Longrightarrow> i < 5 \<and> length fs \<le> 5"
  by (auto simp: tx_ring_def ring_holds_def)

lemma tx_slot_frame [simp]:
  "tx_slot (s\<lparr>tx_suspended := a\<rparr>) = tx_slot s" "tx_slot (s\<lparr>ENET_DMA_STAT := b\<rparr>) = tx_slot s"
  "tx_slot (s\<lparr>dma_current_txdesc := c\<rparr>) = tx_slot s"
  by (simp_all add: tx_slot_def fun_eq_iff Let_def)

lemma GET_BITS_low:
  assumes "unat w < 2 ^ 13"
  shows "GET_BITS w 0 12 = w"
proof (rule bit_eqI)
  fix k assume "possible_bit TYPE(u32) k"
  have "\<not> bit w k" if "13 \<le> k"
  proof -
    have "unat w < 2 ^ k" using assms that by (meson less_le_trans one_le_numeral power_increasing)
    then have "\<not> bit (unat w) k" by (simp add: bit_iff_odd)
    then show ?thesis by (simp add: bit_unsigned_iff)
  qed
  then show "bit (GET_BITS w 0 12) k = bit w k" by (cases "13 \<le> k") (auto simp: GET_BITS_def bit_simps bit_BITS)
qed

text \<open>The controller sends a frame, or finds nothing to send.\<close>

lemma tx_dma_idle:
  assumes "tx_ring s i []"
  shows "tx_ring (tx_dma s) i [] \<and> wire (tx_dma s) = wire s"
proof -
  have "ring_holds 5 (tx_slot s) i []" using assms by (simp add: tx_ring_def)
  from ring_holds_head [OF this] have "\<not> bit (status (txdesc_tab s ! i)) 31"
    by (auto simp: tx_slot_def Let_def split: if_splits)
  then have "tx_dma s = (if tx_suspended s then s
      else s\<lparr>tx_suspended := True, ENET_DMA_STAT := ENET_DMA_STAT s OR ENET_DMA_STAT_TBU\<rparr>)"
    using assms tx_ring_bound [OF assms] by (simp add: tx_dma_def tx_ring_def enet_bits)
  then show ?thesis using assms by (auto simp: tx_ring_def enet_bits bit_simps)
qed

lemma tx_dma_sends:
  assumes r: "tx_ring s i (f # fs)"
  shows "tx_ring (tx_dma s) ((i + 1) mod 5) fs \<and> wire (tx_dma s) = wire s @ [f]"
proof -
  let ?d = "txdesc_tab s ! i"
  have i: "i < 5" using tx_ring_bound [OF r] by simp
  have h: "ring_holds 5 (tx_slot s) i (f # fs)" using r by (simp add: tx_ring_def)
  have head: "bit (status ?d) 31" "seg (buffer1_addr ?d) (unat (GET_BITS (control_buffer_size ?d) 0 12)) (tx_buff s) = f"
    using ring_holds_head [OF h] by (auto simp: tx_slot_def Let_def split: if_splits)
  have ok: "tx_desc_ok i ?d" using r i unfolding tx_ring_def by blast
  let ?s' = "tx_dma s"
  have eq: "?s' = s\<lparr>wire := wire s @ [f], txdesc_tab := (txdesc_tab s)[i := ?d\<lparr>status := status ?d AND NOT ENET_TDES0_DAV\<rparr>],
      hw_tx := ((i + 1) mod 5) * ETH_DMADESC_SIZE\<rparr>"
    using r i head ok by (auto simp: tx_dma_def tx_ring_def tx_desc_ok_def desc_chained_def enet_bits)
  have b: "\<not> bit (status ?d AND NOT ENET_TDES0_DAV) 31" "bit (status ?d AND NOT ENET_TDES0_DAV) 20"
    using ok by (auto simp: enet_bits bit_simps tx_desc_ok_def)
  have slots: "tx_slot ?s' j = (if j = i then None else tx_slot s j)" if "j < 5" for j
    using that r i b by (cases "j = i") (simp_all add: eq tx_slot_def Let_def tx_ring_def)
  have "ring_holds 5 (tx_slot ?s') ((i + 1) mod 5) fs" by (rule ring_holds_pop [OF h slots])
  moreover have "tx_desc_ok k (txdesc_tab ?s' ! k)" if "k < 5" for k
    using r that ok b by (cases "k = i") (auto simp: eq tx_ring_def tx_desc_ok_def desc_chained_def)
  moreover have "((i + 1) mod 5 + length fs) mod 5 = (i + length (f # fs)) mod 5" by (simp add: mod_simps)
  ultimately show ?thesis using r by (auto simp: eq tx_ring_def)
qed

lemma tx_dma_same_rx: "same_rx s (tx_dma s)"
  by (auto simp: same_rx_def tx_dma_def enet_bits bit_simps split: option.splits)

text \<open>The driver writes into the buffer of its current descriptor, and hands it over.\<close>

lemma tx_current:
  assumes "tx_ring s i fs" and "length fs < 5"
  obtains d where "deref (txdesc_tab s) (dma_current_txdesc s) = Some d" and "\<not> bit (status d) 31" and "bit (status d) 20"
    and "d = txdesc_tab s ! ((i + length fs) mod 5)"
    and "buffer1_addr d = ((i + length fs) mod 5) * 1524" and "buffer2_next_desc_addr d = (((i + length fs) mod 5 + 1) mod 5) * ETH_DMADESC_SIZE"
proof -
  let ?j = "(i + length fs) mod 5"
  have j: "?j < 5" by simp
  have "ring_holds 5 (tx_slot s) i fs" using assms by (simp add: tx_ring_def)
  from ring_holds_free [OF this] have "\<not> bit (status (txdesc_tab s ! ?j)) 31"
    using assms(2) by (auto simp: tx_slot_def Let_def split: if_splits)
  moreover have "tx_desc_ok ?j (txdesc_tab s ! ?j)" using assms(1) j unfolding tx_ring_def by blast
  moreover have "deref (txdesc_tab s) (dma_current_txdesc s) = Some (txdesc_tab s ! ?j)"
    using assms(1) by (simp add: tx_ring_def)
  ultimately show thesis
    by (intro that [of "txdesc_tab s ! ?j"]) (auto simp: tx_desc_ok_def desc_chained_def enet_sizes)
qed

lemma tx_store:
  assumes r: "tx_ring s i fs" and n: "length fs < 5" and fit: "ofs + length bs \<le> 1524"
  shows "tx_ring (s\<lparr>tx_buff := store_at (((i + length fs) mod 5) * 1524 + ofs) bs (tx_buff s)\<rparr>) i fs"
proof -
  let ?j = "(i + length fs) mod 5"
  let ?s' = "s\<lparr>tx_buff := store_at (?j * 1524 + ofs) bs (tx_buff s)\<rparr>"
  have l: "length (tx_buff s) = 7620" using r by (simp add: tx_ring_def enet_sizes)
  have j: "?j < 5" by simp
  have room: "?j * 1524 + ofs + length bs \<le> length (tx_buff s)" using l fit j by linarith
  obtain d where d: "\<not> bit (status d) 31" "d = txdesc_tab s ! ?j" by (rule tx_current [OF r n])
  have "tx_slot ?s' k = tx_slot s k" if k: "k < 5" for k
  proof (cases "bit (status (txdesc_tab s ! k)) 31")
    case True
    let ?l = "unat (GET_BITS (control_buffer_size (txdesc_tab s ! k)) 0 12)"
    have "tx_desc_ok k (txdesc_tab s ! k)" using r k unfolding tx_ring_def by blast
    then have b: "buffer1_addr (txdesc_tab s ! k) = k * 1524" "?l \<le> 1524"
      using True by (auto simp: tx_desc_ok_def desc_chained_def enet_sizes)
    have "k \<noteq> ?j" using True d by blast
    then have "k < ?j \<or> ?j < k" by linarith
    then have "k * 1524 + ?l \<le> ?j * 1524 + ofs \<or> ?j * 1524 + ofs + length bs \<le> k * 1524" using b fit by auto
    then have "seg (k * 1524) ?l (store_at (?j * 1524 + ofs) bs (tx_buff s)) = seg (k * 1524) ?l (tx_buff s)"
      using seg_store_at_other [OF room, of "k * 1524" ?l] b k l by simp
    then show ?thesis using True b by (simp add: tx_slot_def Let_def)
  qed (simp add: tx_slot_def Let_def)
  moreover have "ring_holds 5 (tx_slot s) i fs" using r by (simp add: tx_ring_def)
  ultimately have "ring_holds 5 (tx_slot ?s') i fs" using ring_holds_cong by blast
  then show ?thesis using r room by (simp add: tx_ring_def)
qed

lemma transmit_result:
  assumes "deref (txdesc_tab s) (dma_current_txdesc s) = Some d" and "\<not> bit (status d) 31" and "bit (status d) 20"
    and "unat frame_len \<le> 1524"
  shows "\<exists>stat. (\<forall>k. k \<noteq> 2 \<and> k \<noteq> 5 \<longrightarrow> bit stat k = bit (ENET_DMA_STAT s) k) \<and> enet_frame_transmit None frame_len s = Some (SUCCESS, s\<lparr>
     txdesc_tab := put_desc (dma_current_txdesc s)
       (d\<lparr>control_buffer_size := frame_len, status := status d OR (ENET_TDES0_LSG OR ENET_TDES0_FSG) OR ENET_TDES0_DAV\<rparr>) (txdesc_tab s),
     tx_suspended := (\<not> (bit (ENET_DMA_STAT s) 2 \<or> bit (ENET_DMA_STAT s) 5) \<and> tx_suspended s), ENET_DMA_STAT := stat,
     dma_current_txdesc := buffer2_next_desc_addr d\<rparr>)"
proof -
  have t: "bit (status d OR (ENET_TDES0_LSG OR ENET_TDES0_FSG) OR ENET_TDES0_DAV) 20" using assms(3) by (simp add: bit_simps)
  have dav: "status d AND ENET_TDES0_DAV = 0" using assms(2) by (simp add: ENET_TDES0_DAV_def)
  show ?thesis
  proof (cases "bit (ENET_DMA_STAT s) 2 \<or> bit (ENET_DMA_STAT s) 5")
    case True
    then have "(ENET_DMA_STAT s AND ENET_DMA_STAT_TBU \<noteq> 0 \<or> ENET_DMA_STAT s AND ENET_DMA_STAT_TU \<noteq> 0) = True"
      by (simp add: ENET_DMA_STAT_TBU_def ENET_DMA_STAT_TU_def)
    moreover let ?st = "ENET_DMA_STAT s AND NOT (ENET_DMA_STAT s AND ENET_DMA_STAT_TBU OR ENET_DMA_STAT s AND ENET_DMA_STAT_TU)"
    have "\<forall>k. k \<noteq> 2 \<and> k \<noteq> 5 \<longrightarrow> bit ?st k = bit (ENET_DMA_STAT s) k"
      by (auto simp: bit_simps enet_bits dest: bit_imp_le_length)
    ultimately show ?thesis
      using assms(1,4) dav t True
      by (intro exI [of _ ?st] conjI, blast)
         (simp add: enet_frame_transmit_def enet_sizes Let_def write_DMA_TPEN_def write_DMA_STAT_def next_txdesc_def
          ENET_TDES0_TCHM_def del: bit.conj_disj_distrib)
  next
    case False
    then show ?thesis
      using assms(1,4) dav t
      by (intro exI [of _ "ENET_DMA_STAT s"]) (simp add: enet_frame_transmit_def enet_sizes Let_def next_txdesc_def
          ENET_DMA_STAT_TBU_def ENET_DMA_STAT_TU_def ENET_TDES0_TCHM_def)
  qed
qed

lemma frame_transmit_pushes:
  assumes r: "tx_ring s i fs" and n: "length fs < 5" and len: "unat frame_len \<le> 1524"
  shows "\<exists>s'. enet_frame_transmit None frame_len s = Some (SUCCESS, s') \<and> wire s' = wire s \<and> same_rx s s' \<and>
           tx_ring s' i (fs @ [seg (((i + length fs) mod 5) * 1524) (unat frame_len) (tx_buff s)])"
proof -
  let ?j = "(i + length fs) mod 5"
  let ?f = "seg (?j * 1524) (unat frame_len) (tx_buff s)"
  obtain d where d: "deref (txdesc_tab s) (dma_current_txdesc s) = Some d" "\<not> bit (status d) 31" "bit (status d) 20"
      "d = txdesc_tab s ! ?j" "buffer1_addr d = ?j * 1524" "buffer2_next_desc_addr d = ((?j + 1) mod 5) * ETH_DMADESC_SIZE"
    by (rule tx_current [OF r n])
  let ?d1 = "d\<lparr>control_buffer_size := frame_len, status := status d OR (ENET_TDES0_LSG OR ENET_TDES0_FSG) OR ENET_TDES0_DAV\<rparr>"
  let ?tab = "(txdesc_tab s)[?j := ?d1]"
  let ?sus = "\<not> (bit (ENET_DMA_STAT s) 2 \<or> bit (ENET_DMA_STAT s) 5) \<and> tx_suspended s"
  have cur: "dma_current_txdesc s = ?j * ETH_DMADESC_SIZE" using r by (simp add: tx_ring_def)
  have st: "bit (status ?d1) 31" "bit (status ?d1) 20" using d(3) by (auto simp: enet_bits bit_simps)
  have gb: "GET_BITS frame_len 0 12 = frame_len" by (rule GET_BITS_low) (use len in simp)
  have sus: "\<not> ?sus" using r by (auto simp: tx_ring_def)
  obtain stat where b: "\<forall>k. k \<noteq> 2 \<and> k \<noteq> 5 \<longrightarrow> bit stat k = bit (ENET_DMA_STAT s) k"
    and e: "enet_frame_transmit None frame_len s = Some (SUCCESS, s\<lparr>txdesc_tab := ?tab, tx_suspended := ?sus,
      ENET_DMA_STAT := stat, dma_current_txdesc := ((?j + 1) mod 5) * ETH_DMADESC_SIZE\<rparr>)"
    using transmit_result [OF d(1-3) len] unfolding cur put_desc_index d(6) by blast
  let ?s' = "s\<lparr>txdesc_tab := ?tab, tx_suspended := ?sus, ENET_DMA_STAT := stat, dma_current_txdesc := ((?j + 1) mod 5) * ETH_DMADESC_SIZE\<rparr>"
  have h: "ring_holds 5 (tx_slot s) i fs" and l: "length (txdesc_tab s) = 5" using r by (simp_all add: tx_ring_def)
  have slots: "tx_slot ?s' k = (if k = ?j then Some ?f else tx_slot s k)" if "k < 5" for k
    using that l st d(5) gb by (cases "k = ?j") (simp_all add: tx_slot_def Let_def)
  have "ring_holds 5 (tx_slot ?s') i (fs @ [?f])" by (rule ring_holds_push [OF h n slots])
  moreover have "tx_desc_ok k (?tab ! k)" if "k < 5" for k
  proof (cases "k = ?j")
    case True
    then show ?thesis using l st d(5,6) len gb that by (simp add: tx_desc_ok_def desc_chained_def enet_sizes)
  next
    case False
    then show ?thesis using r that by (simp add: tx_ring_def)
  qed
  moreover have "(?j + 1) mod 5 = (i + length (fs @ [?f])) mod 5" by (simp add: mod_simps)
  ultimately have "tx_ring ?s' i (fs @ [?f])" using r sus unfolding tx_ring_def by simp
  then show ?thesis using e b by (intro exI [of _ ?s']) (simp add: same_rx_def)
qed

end
