(* ===== verification/EnetInit.thy ===== *)
theory EnetInit
  imports EnetRegs EnetRing
begin

text \<open>
  The initialisation of the Ethernet controller and of its transceiver, from \<^verbatim>\<open>gd32h7xx_enet.c\<close> and \<^verbatim>\<open>Driver/phy/bsp_lan8720a_rtos.c\<close>: access to the
  transceiver's registers over the management interface, reset, negotiation of the link, settings of the registers, and the set-up that the program calls.

  The argument \<open>env\<close> is what the controller and the transceiver do between two reads of a register that the code polls; \<open>delay\<close> is what a delay does to the
  transceiver, \<open>bus_reset\<close> the reset of the peripheral over the bus, \<open>hclk\<close> the frequency of the bus clock.
\<close>

section \<open>The management interface\<close>

fun reg_poll :: "('s \<Rightarrow> 's) \<Rightarrow> ('s \<Rightarrow> bool) \<Rightarrow> nat \<Rightarrow> 's \<Rightarrow> 's" where
  "reg_poll env busy 0 s = s"
| "reg_poll env busy (Suc n) s = (let s1 = env s in if busy s1 then reg_poll env busy n s1 else s1)"

datatype enet_phydirection_enum = ENET_PHY_READ | ENET_PHY_WRITE

fun phydirection_value :: "enet_phydirection_enum \<Rightarrow> u32" where
  "phydirection_value ENET_PHY_READ = 0"
| "phydirection_value ENET_PHY_WRITE = ENET_MAC_PHY_CTL_PW"

definition smi_busy :: "'p enet_mac \<Rightarrow> bool" where "smi_busy s \<longleftrightarrow> ENET_MAC_PHY_CTL s AND ENET_MAC_PHY_CTL_PB \<noteq> 0"

definition enet_phy_write_read ::
  "('p enet_mac \<Rightarrow> 'p enet_mac) \<Rightarrow> enet_phydirection_enum \<Rightarrow> u16 \<Rightarrow> u16 \<Rightarrow> u16 \<Rightarrow> 'p enet_mac \<Rightarrow> ErrStatus \<times> u16 \<times> 'p enet_mac" where
  "enet_phy_write_read env direction phy_address phy_reg value s =
     (let reg = ENET_MAC_PHY_CTL s AND NOT (ENET_MAC_PHY_CTL_PB OR ENET_MAC_PHY_CTL_PW OR ENET_MAC_PHY_CTL_PR OR ENET_MAC_PHY_CTL_PA);
          reg = reg OR (phydirection_value direction OR MAC_PHY_CTL_PR (ucast phy_reg) OR MAC_PHY_CTL_PA (ucast phy_address) OR ENET_MAC_PHY_CTL_PB);
          s1 = (if direction = ENET_PHY_WRITE then s\<lparr>ENET_MAC_PHY_DATA := ucast value\<rparr> else s);
          s2 = reg_poll env smi_busy (unat ENET_DELAY_TO) (s1\<lparr>ENET_MAC_PHY_CTL := reg\<rparr>);
          s3 = env s2
      in (if smi_busy s3 then ERROR else SUCCESS,
          if direction = ENET_PHY_READ then ucast (ENET_MAC_PHY_DATA s3) else value, s3))"

fun mdc_divider :: "u32 \<Rightarrow> u32 option" where
  "mdc_divider ahbclk =
     (if ENET_RANGE ahbclk 20000000 35000000 then Some ENET_MDC_HCLK_DIV16
      else if ENET_RANGE ahbclk 35000000 60000000 then Some ENET_MDC_HCLK_DIV26
      else if ENET_RANGE ahbclk 60000000 100000000 then Some ENET_MDC_HCLK_DIV42
      else if ENET_RANGE ahbclk 100000000 150000000 then Some ENET_MDC_HCLK_DIV62
      else if ENET_RANGE ahbclk 150000000 250000000 then Some ENET_MDC_HCLK_DIV102
      else if ENET_RANGE ahbclk 250000000 300000000 then Some ENET_MDC_HCLK_DIV124
      else if ENET_RANGE ahbclk 300000000 350000000 then Some ENET_MDC_HCLK_DIV142
      else if ENET_RANGE ahbclk 350000000 400000000 \<or> 400000000 = ahbclk then Some ENET_MDC_HCLK_DIV162
      else None)"

declare mdc_divider.simps [simp del]

definition enet_phy_config ::
  "('p enet_mac \<Rightarrow> 'p enet_mac) \<Rightarrow> (u32 \<Rightarrow> 'p \<Rightarrow> 'p) \<Rightarrow> u32 \<Rightarrow> 'p enet_mac \<Rightarrow> ErrStatus \<times> 'p enet_mac" where
  "enet_phy_config env delay ahbclk s =
     (case mdc_divider ahbclk of
        None \<Rightarrow> (ERROR, s)
      | Some divider \<Rightarrow>
          (let s1 = s\<lparr>ENET_MAC_PHY_CTL := ENET_MAC_PHY_CTL s AND NOT ENET_MAC_PHY_CTL_CLR OR divider\<rparr>;
               (r1, v1, s2) = enet_phy_write_read env ENET_PHY_WRITE PHY_ADDRESS PHY_REG_BCR PHY_RESET s1
           in if r1 = ERROR then (ERROR, s2)
              else (let s3 = s2\<lparr>transceiver := delay ENET_DELAY_TO (transceiver s2)\<rparr>;
                        (r2, v2, s4) = enet_phy_write_read env ENET_PHY_READ PHY_ADDRESS PHY_REG_BCR v1 s3
                    in if r2 = ERROR then (ERROR, s4) else (if v2 AND PHY_RESET = 0 then SUCCESS else ERROR, s4))))"

section \<open>The registers\<close>

definition enet_initpara_reset :: "'p enet_mac \<Rightarrow> 'p enet_mac" where
  "enet_initpara_reset s = s\<lparr>enet_initpara :=
     \<lparr>option_enable = 0, forward_frame = 0, dmabus_mode = 0, dma_maxburst = 0, dma_arbitration = 0, store_forward_mode = 0, dma_function = 0, vlan_config = 0,
      flow_control = 0, hashtable_high = 0, hashtable_low = 0, framesfilter_mode = 0, halfduplex_param = 0, timer_config = 0, interframegap = 0\<rparr>\<rparr>"

definition enet_deinit :: "('p enet_mac \<Rightarrow> 'p enet_mac) \<Rightarrow> 'p enet_mac \<Rightarrow> 'p enet_mac" where
  "enet_deinit bus_reset s = enet_initpara_reset (bus_reset s)"

fun set_parameter :: "enet_option_enum \<Rightarrow> u32 \<Rightarrow> enet_initpara_struct \<Rightarrow> enet_initpara_struct" where
  "set_parameter FORWARD_OPTION para i = i\<lparr>forward_frame := para\<rparr>"
| "set_parameter DMABUS_OPTION para i = i\<lparr>dmabus_mode := para\<rparr>"
| "set_parameter DMA_MAXBURST_OPTION para i = i\<lparr>dma_maxburst := para\<rparr>"
| "set_parameter DMA_ARBITRATION_OPTION para i = i\<lparr>dma_arbitration := para\<rparr>"
| "set_parameter STORE_OPTION para i = i\<lparr>store_forward_mode := para\<rparr>"
| "set_parameter DMA_OPTION para i = i\<lparr>dma_function := para AND NOT ENET_ENHANCED_DESCRIPTOR\<rparr>"
| "set_parameter VLAN_OPTION para i = i\<lparr>vlan_config := para\<rparr>"
| "set_parameter FLOWCTL_OPTION para i = i\<lparr>flow_control := para\<rparr>"
| "set_parameter HASHH_OPTION para i = i\<lparr>hashtable_high := para\<rparr>"
| "set_parameter HASHL_OPTION para i = i\<lparr>hashtable_low := para\<rparr>"
| "set_parameter FILTER_OPTION para i = i\<lparr>framesfilter_mode := para\<rparr>"
| "set_parameter HALFDUPLEX_OPTION para i = i\<lparr>halfduplex_param := para\<rparr>"
| "set_parameter TIMER_OPTION para i = i\<lparr>timer_config := para\<rparr>"
| "set_parameter INTERFRAMEGAP_OPTION para i = i\<lparr>interframegap := para\<rparr>"

definition enet_initpara_config :: "enet_option_enum \<Rightarrow> u32 \<Rightarrow> 'p enet_mac \<Rightarrow> 'p enet_mac" where
  "enet_initpara_config option para s =
     (let i = enet_initpara s in s\<lparr>enet_initpara := set_parameter option para (i\<lparr>option_enable := option_enable i OR option_bit option\<rparr>)\<rparr>)"

definition enet_default_init :: "'p enet_mac \<Rightarrow> 'p enet_mac" where
  "enet_default_init s = s\<lparr>
     ENET_MAC_CFG := ENET_MAC_CFG s AND MAC_CFG_MASK OR (ENET_WATCHDOG_ENABLE OR ENET_JABBER_ENABLE OR ENET_INTERFRAMEGAP_96BIT
       OR ENET_SPEEDMODE_10M OR ENET_MODE_HALFDUPLEX OR ENET_LOOPBACKMODE_DISABLE OR ENET_CARRIERSENSE_DISABLE OR ENET_RECEIVEOWN_ENABLE
       OR ENET_RETRYTRANSMISSION_ENABLE OR ENET_BACKOFFLIMIT_10 OR ENET_DEFERRALCHECK_DISABLE OR ENET_TYPEFRAME_CRC_DROP_DISABLE
       OR ENET_AUTO_PADCRC_DROP_DISABLE OR ENET_CHECKSUMOFFLOAD_DISABLE),
     ENET_MAC_FRMF := ENET_SRC_FILTER_DISABLE OR ENET_DEST_FILTER_INVERSE_DISABLE OR ENET_MULTICAST_FILTER_PERFECT OR ENET_UNICAST_FILTER_PERFECT
       OR ENET_PCFRM_PREVENT_ALL OR ENET_BROADCASTFRAMES_ENABLE OR ENET_PROMISCUOUS_DISABLE OR ENET_RX_FILTER_ENABLE,
     ENET_MAC_HLH := 0, ENET_MAC_HLL := 0,
     ENET_MAC_FCTL := ENET_MAC_FCTL s AND MAC_FCTL_MASK OR (MAC_FCTL_PTM 0 OR ENET_ZERO_QUANTA_PAUSE_DISABLE OR ENET_PAUSETIME_MINUS4
       OR ENET_UNIQUE_PAUSEDETECT OR ENET_RX_FLOWCONTROL_DISABLE OR ENET_TX_FLOWCONTROL_DISABLE),
     ENET_MAC_VLT := ENET_VLANTAGCOMPARISON_16BIT OR MAC_VLT_VLTI 0,
     ENET_MAC_INTMSK := ENET_MAC_INTMSK s OR (ENET_MAC_INTMSK_TMSTIM OR ENET_MAC_INTMSK_WUMIM),
     ENET_MSC_RINTMSK := ENET_MSC_RINTMSK s OR (ENET_MSC_RINTMSK_RFAEIM OR ENET_MSC_RINTMSK_RFCEIM OR ENET_MSC_RINTMSK_RGUFIM),
     ENET_MSC_TINTMSK := ENET_MSC_TINTMSK s OR (ENET_MSC_TINTMSK_TGFIM OR ENET_MSC_TINTMSK_TGFMSCIM OR ENET_MSC_TINTMSK_TGFSCIM),
     ENET_DMA_CTL := ENET_DMA_CTL s AND DMA_CTL_MASK OR (ENET_TCPIP_CKSUMERROR_DROP OR ENET_RX_MODE_STOREFORWARD OR ENET_FLUSH_RXFRAME_ENABLE
       OR ENET_TX_MODE_STOREFORWARD OR ENET_TX_THRESHOLD_64BYTES OR ENET_RX_THRESHOLD_64BYTES OR ENET_SECONDFRAME_OPT_DISABLE),
     ENET_DMA_BCTL := ENET_ADDRESS_ALIGN_ENABLE OR ENET_ARBITRATION_RXTX_2_1 OR ENET_RXDP_32BEAT OR ENET_PGBL_32BEAT OR ENET_RXTX_DIFFERENT_PGBL
       OR ENET_FIXED_BURST_ENABLE OR ENET_MIXED_BURST_DISABLE OR ENET_NORMAL_DESCRIPTOR\<rparr>"

text \<open>The options: a field of a register is cleared and set, if the option has been chosen.\<close>

definition field_set :: "u32 \<Rightarrow> u32 \<Rightarrow> u32 \<Rightarrow> u32" where "field_set m v reg = reg AND NOT m OR v"

definition forward_settings :: "enet_initpara_struct \<Rightarrow> 'p enet_mac \<Rightarrow> 'p enet_mac" where
  "forward_settings i s =
     (let m = ENET_MAC_CFG_TFCD OR ENET_MAC_CFG_APCD; d = ENET_DMA_CTL_FERF OR ENET_DMA_CTL_FUF
      in s\<lparr>ENET_MAC_CFG := field_set m (forward_frame i AND m) (ENET_MAC_CFG s),
           ENET_DMA_CTL := field_set d (drop_bit 2 (forward_frame i AND push_bit 2 d)) (ENET_DMA_CTL s)\<rparr>)"

definition dma_settings :: "enet_initpara_struct \<Rightarrow> 'p enet_mac \<Rightarrow> 'p enet_mac" where
  "dma_settings i s =
     (let m = ENET_DMA_CTL_DAFRF OR ENET_DMA_CTL_OSF
      in s\<lparr>ENET_DMA_CTL := field_set m (dma_function i AND m) (ENET_DMA_CTL s),
           ENET_DMA_BCTL := field_set ENET_DMA_BCTL_DFM (dma_function i AND ENET_DMA_BCTL_DFM) (ENET_DMA_BCTL s)\<rparr>)"

definition flow_settings :: "enet_initpara_struct \<Rightarrow> 'p enet_mac \<Rightarrow> 'p enet_mac" where
  "flow_settings i s =
     (let m = ENET_MAC_FCTL_PTM OR ENET_MAC_FCTL_DZQP OR ENET_MAC_FCTL_PLTS OR ENET_MAC_FCTL_UPFDT OR ENET_MAC_FCTL_RFCEN OR ENET_MAC_FCTL_TFCEN;
          h = ENET_MAC_FCTH_RFA OR ENET_MAC_FCTH_RFD
      in s\<lparr>ENET_MAC_FCTL := field_set m (flow_control i AND m) (ENET_MAC_FCTL s),
           ENET_MAC_FCTH := field_set h (drop_bit 8 (flow_control i AND push_bit 8 h)) (ENET_MAC_FCTH s)\<rparr>)"

fun option_setting :: "enet_option_enum \<Rightarrow> enet_initpara_struct \<Rightarrow> 'p enet_mac \<Rightarrow> 'p enet_mac" where
  "option_setting FORWARD_OPTION i s = forward_settings i s"
| "option_setting DMABUS_OPTION i s = s\<lparr>ENET_DMA_BCTL :=
     field_set (ENET_DMA_BCTL_AA OR ENET_DMA_BCTL_FB OR ENET_DMA_BCTL_FPBL OR ENET_DMA_BCTL_MB) (dmabus_mode i) (ENET_DMA_BCTL s)\<rparr>"
| "option_setting DMA_MAXBURST_OPTION i s = s\<lparr>ENET_DMA_BCTL :=
     field_set (ENET_DMA_BCTL_RXDP OR ENET_DMA_BCTL_PGBL OR ENET_DMA_BCTL_UIP) (dma_maxburst i) (ENET_DMA_BCTL s)\<rparr>"
| "option_setting DMA_ARBITRATION_OPTION i s = s\<lparr>ENET_DMA_BCTL := field_set (ENET_DMA_BCTL_RTPR OR ENET_DMA_BCTL_DAB) (dma_arbitration i) (ENET_DMA_BCTL s)\<rparr>"
| "option_setting STORE_OPTION i s = s\<lparr>ENET_DMA_CTL :=
     field_set (ENET_DMA_CTL_RSFD OR ENET_DMA_CTL_TSFD OR ENET_DMA_CTL_RTHC OR ENET_DMA_CTL_TTHC) (store_forward_mode i) (ENET_DMA_CTL s)\<rparr>"
| "option_setting DMA_OPTION i s = dma_settings i s"
| "option_setting VLAN_OPTION i s = s\<lparr>ENET_MAC_VLT := field_set (ENET_MAC_VLT_VLTI OR ENET_MAC_VLT_VLTC) (vlan_config i) (ENET_MAC_VLT s)\<rparr>"
| "option_setting FLOWCTL_OPTION i s = flow_settings i s"
| "option_setting HASHH_OPTION i s = s\<lparr>ENET_MAC_HLH := hashtable_high i\<rparr>"
| "option_setting HASHL_OPTION i s = s\<lparr>ENET_MAC_HLL := hashtable_low i\<rparr>"
| "option_setting FILTER_OPTION i s = s\<lparr>ENET_MAC_FRMF :=
     field_set (ENET_MAC_FRMF_SAFLT OR ENET_MAC_FRMF_SAIFLT OR ENET_MAC_FRMF_DAIFLT OR ENET_MAC_FRMF_HMF OR ENET_MAC_FRMF_HPFLT OR ENET_MAC_FRMF_MFD
       OR ENET_MAC_FRMF_HUF OR ENET_MAC_FRMF_PCFRM) (framesfilter_mode i) (ENET_MAC_FRMF s)\<rparr>"
| "option_setting HALFDUPLEX_OPTION i s = s\<lparr>ENET_MAC_CFG :=
     field_set (ENET_MAC_CFG_CSD OR ENET_MAC_CFG_ROD OR ENET_MAC_CFG_RTD OR ENET_MAC_CFG_BOL OR ENET_MAC_CFG_DFC) (halfduplex_param i) (ENET_MAC_CFG s)\<rparr>"
| "option_setting TIMER_OPTION i s = s\<lparr>ENET_MAC_CFG := field_set (ENET_MAC_CFG_WDD OR ENET_MAC_CFG_JBD) (timer_config i) (ENET_MAC_CFG s)\<rparr>"
| "option_setting INTERFRAMEGAP_OPTION i s = s\<lparr>ENET_MAC_CFG := field_set ENET_MAC_CFG_IGBS (interframegap i) (ENET_MAC_CFG s)\<rparr>"

definition with_option :: "enet_option_enum \<Rightarrow> 'p enet_mac \<Rightarrow> 'p enet_mac" where
  "with_option option s = (if option_enable (enet_initpara s) AND option_bit option \<noteq> 0 then option_setting option (enet_initpara s) s else s)"

definition enet_options :: "'p enet_mac \<Rightarrow> 'p enet_mac" where
  "enet_options = fold with_option
     [FORWARD_OPTION, DMABUS_OPTION, DMA_MAXBURST_OPTION, DMA_ARBITRATION_OPTION, STORE_OPTION, DMA_OPTION, VLAN_OPTION, FLOWCTL_OPTION, HASHH_OPTION,
      HASHL_OPTION, FILTER_OPTION, HALFDUPLEX_OPTION, TIMER_OPTION, INTERFRAMEGAP_OPTION]"

section \<open>Initialisation\<close>

text \<open>Waiting for a bit of the status register; the second argument bounds the turns, of which there are at most as many as the time-out allows.\<close>

fun phy_wait :: "('p enet_mac \<Rightarrow> 'p enet_mac) \<Rightarrow> nat \<Rightarrow> u16 \<Rightarrow> u32 \<Rightarrow> 'p enet_mac \<Rightarrow> u32 \<times> 'p enet_mac" where
  "phy_wait env 0 bits timeout s = (timeout, s)"
| "phy_wait env (Suc n) bits timeout s =
     (let (r, v, s1) = enet_phy_write_read env ENET_PHY_READ PHY_ADDRESS PHY_REG_BSR 0 s
      in if v AND bits = 0 \<and> timeout + 1 < PHY_READ_TO then phy_wait env n bits (timeout + 1) s1 else (timeout + 1, s1))"

definition negotiated_mode :: "u16 \<Rightarrow> u32" where
  "negotiated_mode phy_value =
     (if phy_value AND PHY_DUPLEX_STATUS \<noteq> 0 then ENET_MODE_FULLDUPLEX else ENET_MODE_HALFDUPLEX) OR
     (if phy_value AND PHY_SPEED_STATUS \<noteq> 0 then ENET_SPEEDMODE_10M else ENET_SPEEDMODE_100M)"

text \<open>The result \<open>None\<close> is the early return with an error.\<close>

definition auto_negotiate :: "('p enet_mac \<Rightarrow> 'p enet_mac) \<Rightarrow> 'p enet_mac \<Rightarrow> u32 option \<times> 'p enet_mac" where
  "auto_negotiate env s =
     (let (t1, s1) = phy_wait env (unat PHY_READ_TO) PHY_LINKED_STATUS 0 s
      in if t1 = PHY_READ_TO then (None, s1)
         else (let (r, v, s2) = enet_phy_write_read env ENET_PHY_WRITE PHY_ADDRESS PHY_REG_BCR PHY_AUTONEGOTIATION s1
               in if r = ERROR then (None, s2)
                  else (let (t2, s3) = phy_wait env (unat PHY_READ_TO) PHY_AUTONEGO_COMPLETE 0 s2
                        in if t2 = PHY_READ_TO then (None, s3)
                           else (let (r', v', s4) = enet_phy_write_read env ENET_PHY_READ PHY_ADDRESS PHY_SR 0 s3 in (Some (negotiated_mode v'), s4)))))"

definition fixed_mode :: "('p enet_mac \<Rightarrow> 'p enet_mac) \<Rightarrow> (u32 \<Rightarrow> 'p \<Rightarrow> 'p) \<Rightarrow> u32 \<Rightarrow> 'p enet_mac \<Rightarrow> u32 option \<times> 'p enet_mac" where
  "fixed_mode env delay media_temp s =
     (let phy_value = ucast (drop_bit 3 (media_temp AND ENET_MAC_CFG_DPM)) OR ucast (drop_bit 1 (media_temp AND ENET_MAC_CFG_SPD));
          (r, v, s1) = enet_phy_write_read env ENET_PHY_WRITE PHY_ADDRESS PHY_REG_BCR phy_value s
      in if r = ERROR then (None, s1) else (Some media_temp, s1\<lparr>transceiver := delay PHY_CONFIGDELAY (transceiver s1)\<rparr>))"

definition mac_settings :: "u32 \<Rightarrow> u32 \<Rightarrow> u32 \<Rightarrow> 'p enet_mac \<Rightarrow> 'p enet_mac" where
  "mac_settings media_temp checksum recept s =
     (let s1 = s\<lparr>ENET_MAC_CFG := field_set (ENET_MAC_CFG_SPD OR ENET_MAC_CFG_DPM OR ENET_MAC_CFG_LBM) media_temp (ENET_MAC_CFG s)\<rparr>;
          s2 = (if checksum AND ENET_CHECKSUMOFFLOAD_ENABLE \<noteq> 0
                then s1\<lparr>ENET_MAC_CFG := ENET_MAC_CFG s1 OR ENET_CHECKSUMOFFLOAD_ENABLE,
                        ENET_DMA_CTL := field_set ENET_DMA_CTL_DTCERFD (checksum AND ENET_DMA_CTL_DTCERFD) (ENET_DMA_CTL s1)\<rparr>
                else s1)
      in enet_options (s2\<lparr>ENET_MAC_FRMF := ENET_MAC_FRMF s2 OR recept\<rparr>))"

definition enet_init ::
  "('p enet_mac \<Rightarrow> 'p enet_mac) \<Rightarrow> (u32 \<Rightarrow> 'p \<Rightarrow> 'p) \<Rightarrow> u32 \<Rightarrow> enet_mediamode_enum \<Rightarrow> u32 \<Rightarrow> u32 \<Rightarrow> 'p enet_mac \<Rightarrow> ErrStatus \<times> 'p enet_mac" where
  "enet_init env delay hclk mediamode checksum recept s =
     (let (r, s1) = (case enet_phy_config env delay hclk s of
            (SUCCESS, s0) \<Rightarrow> (SUCCESS, s0)
          | (ERROR, s0) \<Rightarrow> enet_phy_config env delay hclk (s0\<lparr>transceiver := delay PHY_RESETDELAY (transceiver s0)\<rparr>))
      in if r = ERROR then (ERROR, s1)
         else (case (if mediamode = ENET_AUTO_NEGOTIATION then auto_negotiate env (enet_default_init s1)
                     else fixed_mode env delay (mediamode_value mediamode) (enet_default_init s1)) of
                 (None, s2) \<Rightarrow> (ERROR, s2)
               | (Some media_temp, s2) \<Rightarrow> (SUCCESS, mac_settings media_temp checksum recept s2)))"

definition enet_software_reset :: "('p enet_mac \<Rightarrow> 'p enet_mac) \<Rightarrow> 'p enet_mac \<Rightarrow> ErrStatus \<times> 'p enet_mac" where
  "enet_software_reset env s =
     (let busy = (\<lambda>s. ENET_DMA_BCTL s AND ENET_DMA_BCTL_SWR \<noteq> 0);
          s1 = env (reg_poll env busy (unat ENET_DELAY_TO) (s\<lparr>ENET_DMA_BCTL := ENET_DMA_BCTL s OR ENET_DMA_BCTL_SWR\<rparr>))
      in (if busy s1 then ERROR else SUCCESS, s1))"

text \<open>An interrupt of the register of the DMA interrupts, given by its bit.\<close>

definition enet_interrupt_enable :: "nat \<Rightarrow> 'p enet_mac \<Rightarrow> 'p enet_mac" where
  "enet_interrupt_enable n s = s\<lparr>ENET_DMA_INTEN := ENET_DMA_INTEN s OR BIT n\<rparr>"

section \<open>The set-up of the program\<close>

text \<open>Every failure ends in an endless loop.\<close>

definition enet_mac_dma_config ::
  "('p enet_mac \<Rightarrow> 'p enet_mac) \<Rightarrow> (u32 \<Rightarrow> 'p \<Rightarrow> 'p) \<Rightarrow> ('p enet_mac \<Rightarrow> 'p enet_mac) \<Rightarrow> u32 \<Rightarrow> 'p enet_mac \<Rightarrow> (ErrStatus \<times> 'p enet_mac) option" where
  "enet_mac_dma_config env delay bus_reset hclk s =
     (case enet_software_reset env (enet_deinit bus_reset s) of
        (ERROR, s1) \<Rightarrow> None
      | (SUCCESS, s1) \<Rightarrow> Some (enet_init env delay hclk ENET_AUTO_NEGOTIATION ENET_AUTOCHECKSUM_DROP_FAILFRAMES ENET_BROADCAST_FRAMES_PASS s1))"

definition enet_system_setup ::
  "('p enet_mac \<Rightarrow> 'p enet_mac) \<Rightarrow> (u32 \<Rightarrow> 'p \<Rightarrow> 'p) \<Rightarrow> ('p enet_mac \<Rightarrow> 'p enet_mac) \<Rightarrow> u32 \<Rightarrow> 'p enet_mac \<Rightarrow> 'p enet_mac option" where
  "enet_system_setup env delay bus_reset hclk s =
     (case enet_mac_dma_config env delay bus_reset hclk s of
        Some (SUCCESS, s1) \<Rightarrow> Some (enet_interrupt_enable 6 (enet_interrupt_enable 16 s1))
      | _ \<Rightarrow> None)"

text \<open>Queries of the transceiver.\<close>

definition LAN8720_PHYID1 :: u16 where "LAN8720_PHYID1 = 2"
definition LAN8720_PHYID2 :: u16 where "LAN8720_PHYID2 = 3"
definition LAN8720_BMSR :: u16 where "LAN8720_BMSR = 1"
definition LAN8720_PSCSR :: u16 where "LAN8720_PSCSR = 31"
definition LAN8720_ID1 :: u16 where "LAN8720_ID1 = 0x7"
definition LAN8720_ID2 :: u16 where "LAN8720_ID2 = 0xc0f"

definition lan8720_check_id :: "('p enet_mac \<Rightarrow> 'p enet_mac) \<Rightarrow> 'p enet_mac \<Rightarrow> bool \<times> 'p enet_mac" where
  "lan8720_check_id env s =
     (let (r1, id1, s1) = enet_phy_write_read env ENET_PHY_READ PHY_ADDRESS LAN8720_PHYID1 0 s;
          (r2, id2, s2) = enet_phy_write_read env ENET_PHY_READ PHY_ADDRESS LAN8720_PHYID2 0 s1
      in (id1 = LAN8720_ID1 \<and> drop_bit 4 id2 = LAN8720_ID2, s2))"

definition lan8720_get_phystatus :: "('p enet_mac \<Rightarrow> 'p enet_mac) \<Rightarrow> 'p enet_mac \<Rightarrow> u16 \<times> 'p enet_mac" where
  "lan8720_get_phystatus env s =
     (let (r, phyreg, s1) = enet_phy_write_read env ENET_PHY_READ PHY_ADDRESS LAN8720_PSCSR 0 s in (if r = SUCCESS then phyreg else 0, s1))"

definition lan8720_get_connectionstate :: "('p enet_mac \<Rightarrow> 'p enet_mac) \<Rightarrow> 'p enet_mac \<Rightarrow> u16 \<times> 'p enet_mac" where
  "lan8720_get_connectionstate env s =
     (let (r, v, s1) = enet_phy_write_read env ENET_PHY_READ PHY_ADDRESS LAN8720_BMSR 0 s
      in (if r = SUCCESS then drop_bit 2 (v AND PHY_LINKED_STATUS) else 0, s1))"

end
