(* ===== verification/KernelSemaphore.thy ===== *)
theory KernelSemaphore
  imports KernelQueue
begin

text \<open>
  Binary and counting semaphores, from \<^verbatim>\<open>src/FreeRtos/kernel/queue.c\<close> and \<^verbatim>\<open>include/semphr.h\<close>. A semaphore is a queue
  whose items have no bytes, so that only the count of its items matters: giving is sending to the back without
  waiting, taking has a function of its own, and giving from an interrupt too. The branches for mutexes are in another
  theory; here the head pointer of the queue is never the null pointer that marks a mutex.

  The Ethernet interface and the system layer of the network stack use such semaphores.
\<close>

section \<open>Operations\<close>

definition semSEMAPHORE_QUEUE_ITEM_LENGTH :: u32 where "semSEMAPHORE_QUEUE_ITEM_LENGTH = 0"
definition semGIVE_BLOCK_TIME :: u32 where "semGIVE_BLOCK_TIME = 0"

text \<open>Giving never waits, so nothing happens to the queue during the call.\<close>

definition xSemaphoreGive :: "Queue_t \<times> scheduler \<Rightarrow> (bool \<times> Queue_t \<times> scheduler) option" where
  "xSemaphoreGive qk = xQueueGenericSend [] [] semGIVE_BLOCK_TIME queueSEND_TO_BACK qk"

text \<open>
  Creation; \<open>block\<close> is what the heap returned. The count of a binary semaphore made by the macro starts at 1, of one
  made by the function at 0.
\<close>

definition xSemaphoreCreateBinary :: "u8 list option \<Rightarrow> Queue_t option option" where
  "xSemaphoreCreateBinary block = xQueueGenericCreate 1 semSEMAPHORE_QUEUE_ITEM_LENGTH block"

definition vSemaphoreCreateBinary :: "u8 list option \<Rightarrow> scheduler \<Rightarrow> (Queue_t option \<times> scheduler) option" where
  "vSemaphoreCreateBinary block k =
     (case xQueueGenericCreate 1 semSEMAPHORE_QUEUE_ITEM_LENGTH block of
        None \<Rightarrow> None
      | Some None \<Rightarrow> Some (None, k)
      | Some (Some q) \<Rightarrow> map_option (\<lambda>(r, q', k'). (Some q', k')) (xSemaphoreGive (q, k)))"

definition xQueueCreateCountingSemaphore :: "u32 \<Rightarrow> u32 \<Rightarrow> u8 list option \<Rightarrow> Queue_t option option" where
  "xQueueCreateCountingSemaphore uxMaxCount uxInitialCount block =
     (if uxMaxCount \<noteq> 0 \<and> uxInitialCount \<le> uxMaxCount
      then (case xQueueGenericCreate uxMaxCount semSEMAPHORE_QUEUE_ITEM_LENGTH block of
              None \<Rightarrow> None
            | Some None \<Rightarrow> Some None
            | Some (Some q) \<Rightarrow> Some (Some (q\<lparr>uxMessagesWaiting := uxInitialCount\<rparr>)))
      else None)"

definition take_attempt :: "Queue_t \<times> scheduler \<Rightarrow> (Queue_t \<times> scheduler) option" where
  "take_attempt qk =
     (let (q, k) = qk
      in if uxMessagesWaiting q > 0 then Some (unblock_sender (q\<lparr>uxMessagesWaiting := uxMessagesWaiting q - 1\<rparr>, k))
         else None)"

text \<open>As for the queues, each element of \<open>waits\<close> is what happens during one wait that ends before the time limit.\<close>

fun semaphore_take_loop ::
  "(Queue_t \<times> scheduler \<Rightarrow> Queue_t \<times> scheduler) list \<Rightarrow> u32 \<Rightarrow> Queue_t \<times> scheduler \<Rightarrow> (bool \<times> Queue_t \<times> scheduler) option" where
  "semaphore_take_loop waits xTicksToWait qk =
     (case take_attempt qk of
        Some qk' \<Rightarrow> Some (True, qk')
      | None \<Rightarrow>
          if xTicksToWait = 0 then Some (False, qk)
          else (case waits of
                  [] \<Rightarrow> if xTicksToWait = portMAX_DELAY then None else Some (False, qk)
                | w # ws \<Rightarrow> semaphore_take_loop ws xTicksToWait (w qk)))"

declare semaphore_take_loop.simps [simp del]

definition xQueueSemaphoreTake ::
  "(Queue_t \<times> scheduler \<Rightarrow> Queue_t \<times> scheduler) list \<Rightarrow> u32 \<Rightarrow> Queue_t \<times> scheduler \<Rightarrow> (bool \<times> Queue_t \<times> scheduler) option" where
  "xQueueSemaphoreTake waits xTicksToWait qk =
     (if uxItemSize (fst qk) \<noteq> 0 then None else semaphore_take_loop waits xTicksToWait qk)"

text \<open>
  Giving from an interrupt. The result says whether the semaphore was given, and whether a task of a higher priority
  than the interrupted one was woken (what is written through the second parameter).
\<close>

definition xQueueGiveFromISR :: "Queue_t \<times> scheduler \<Rightarrow> (bool \<times> bool \<times> Queue_t \<times> scheduler) option" where
  "xQueueGiveFromISR qk =
     (let (q, k) = qk
      in if uxItemSize q \<noteq> 0 then None
         else if uxMessagesWaiting q < uxLength q
         then (let lock = cTxLock q; q1 = q\<lparr>uxMessagesWaiting := uxMessagesWaiting q + 1\<rparr>
               in if lock = queueUNLOCKED
                  then (if xTasksWaitingToReceive q1 \<noteq> []
                        then (let (higher, ts, k') = xTaskRemoveFromEventList (xTasksWaitingToReceive q1) k
                              in Some (True, higher, q1\<lparr>xTasksWaitingToReceive := ts\<rparr>, k'))
                        else Some (True, False, q1, k))
                  else map_option (\<lambda>qk'. (True, False, qk')) (prvIncrementQueueTxLock lock (q1, k)))
         else Some (False, False, qk))"

section \<open>What a semaphore promises\<close>

definition sem_ok :: "Queue_t \<times> scheduler \<Rightarrow> bool" where
  "sem_ok qk \<longleftrightarrow> uxItemSize (fst qk) = 0 \<and> uxMessagesWaiting (fst qk) \<le> uxLength (fst qk) \<and> 0 < uxLength (fst qk)"

definition sem_count :: "Queue_t \<times> scheduler \<Rightarrow> nat" where "sem_count qk = q_count (fst qk)"
definition sem_max :: "Queue_t \<times> scheduler \<Rightarrow> nat" where "sem_max qk = q_len (fst qk)"

lemmas sem_abs = sem_ok_def sem_count_def sem_max_def

lemma sem_count_le: "sem_ok qk \<Longrightarrow> sem_count qk \<le> sem_max qk"
  by (simp add: sem_abs word_le_nat_alt)

lemma unat_minus_1: "0 < (w :: u32) \<Longrightarrow> unat (w - 1) = unat w - 1"
  by (simp add: unat_diff_le word_le_nat_alt word_less_nat_alt)

lemma unblock_sender_frame:
  "uxMessagesWaiting (fst (unblock_sender (q, k))) = uxMessagesWaiting q"
  "uxLength (fst (unblock_sender (q, k))) = uxLength q"
  "uxItemSize (fst (unblock_sender (q, k))) = uxItemSize q"
  "cTxLock (fst (unblock_sender (q, k))) = cTxLock q"
  by (simp_all add: unblock_sender_def xTaskRemoveFromEventList_def split: list.splits)

lemma unblock_receiver_frame:
  "uxMessagesWaiting (fst (unblock_receiver (q, k))) = uxMessagesWaiting q"
  "uxLength (fst (unblock_receiver (q, k))) = uxLength q"
  "uxItemSize (fst (unblock_receiver (q, k))) = uxItemSize q"
  "cTxLock (fst (unblock_receiver (q, k))) = cTxLock q"
  by (simp_all add: unblock_receiver_def xTaskRemoveFromEventList_def split: list.splits)

lemma take_attempt_spec:
  assumes "sem_ok qk"
  shows "case take_attempt qk of
           None \<Rightarrow> sem_count qk = 0
         | Some qk' \<Rightarrow> sem_ok qk' \<and> sem_max qk' = sem_max qk \<and> sem_count qk = Suc (sem_count qk') \<and> cTxLock (fst qk') = cTxLock (fst qk)"
proof (cases qk)
  case (Pair q k)
  show ?thesis
  proof (cases "uxMessagesWaiting q > 0")
    case True
    then have "unat (uxMessagesWaiting q) = Suc (unat (uxMessagesWaiting q - 1))"
      using unat_minus_1 [OF True] by (simp add: word_less_nat_alt)
    moreover have "uxMessagesWaiting q - 1 \<le> uxLength q"
      using assms Pair unat_minus_1 [OF True] by (auto simp: sem_abs word_le_nat_alt)
    ultimately show ?thesis
      using assms Pair True by (simp add: take_attempt_def sem_abs unblock_sender_frame)
  next
    case False
    then show ?thesis
      using Pair by (simp add: take_attempt_def sem_abs word_less_nat_alt)
  qed
qed

lemma take_no_wait:
  assumes "sem_ok qk"
  shows "xQueueSemaphoreTake ws 0 qk =
           Some (case take_attempt qk of None \<Rightarrow> (False, qk) | Some qk' \<Rightarrow> (True, qk'))"
  using assms by (simp add: xQueueSemaphoreTake_def semaphore_take_loop.simps sem_ok_def split: option.splits)

text \<open>Taking with a positive count never waits; with a limit it always returns.\<close>

lemma take_available:
  assumes "sem_ok qk" and "0 < sem_count qk"
  obtains qk' where "xQueueSemaphoreTake ws t qk = Some (True, qk')" and "sem_ok qk'"
    and "sem_count qk' = sem_count qk - 1" and "sem_max qk' = sem_max qk" and "cTxLock (fst qk') = cTxLock (fst qk)"
proof -
  from take_attempt_spec [OF assms(1)] assms(2) obtain qk' where
    a: "take_attempt qk = Some qk'" "sem_ok qk'" "sem_max qk' = sem_max qk" "sem_count qk = Suc (sem_count qk')"
       "cTxLock (fst qk') = cTxLock (fst qk)"
    by (auto split: option.splits)
  then have "xQueueSemaphoreTake ws t qk = Some (True, qk')"
    using assms(1) by (simp add: xQueueSemaphoreTake_def semaphore_take_loop.simps sem_ok_def)
  then show thesis using a by (intro that [of qk']) auto
qed

lemma give_spec:
  assumes "sem_ok qk"
  shows "\<exists>qk'. xSemaphoreGive qk = Some (sem_count qk < sem_max qk, qk') \<and> sem_ok qk' \<and> sem_max qk' = sem_max qk \<and>
           sem_count qk' = min (sem_max qk) (Suc (sem_count qk)) \<and> cTxLock (fst qk') = cTxLock (fst qk)"
proof (cases qk)
  case (Pair q k)
  show ?thesis
  proof (cases "uxMessagesWaiting q < uxLength q")
    case True
    then have "unat (uxMessagesWaiting q + 1) = Suc (unat (uxMessagesWaiting q))"
      by (simp add: unat_succ_less)
    with True assms Pair show ?thesis
      by (simp add: xSemaphoreGive_def xQueueGenericSend.simps send_attempt_def prvCopyDataToQueue_def sem_abs
          unblock_receiver_frame word_less_nat_alt word_le_nat_alt semGIVE_BLOCK_TIME_def)
  next
    case False
    with assms Pair show ?thesis
      by (simp add: xSemaphoreGive_def xQueueGenericSend.simps send_attempt_def sem_abs semGIVE_BLOCK_TIME_def
          word_less_nat_alt word_le_nat_alt min_def)
  qed
qed

lemma give_from_isr_spec:
  assumes "sem_ok qk" and "cTxLock (fst qk) = queueUNLOCKED"
  shows "\<exists>w qk'. xQueueGiveFromISR qk = Some (sem_count qk < sem_max qk, w, qk') \<and> sem_ok qk' \<and> sem_max qk' = sem_max qk \<and>
           sem_count qk' = min (sem_max qk) (Suc (sem_count qk)) \<and> cTxLock (fst qk') = queueUNLOCKED"
proof (cases qk)
  case (Pair q k)
  show ?thesis
  proof (cases "uxMessagesWaiting q < uxLength q")
    case True
    then have "unat (uxMessagesWaiting q + 1) = Suc (unat (uxMessagesWaiting q))"
      by (simp add: unat_succ_less)
    with True assms Pair show ?thesis
      by (cases "xTasksWaitingToReceive q")
         (auto simp: xQueueGiveFromISR_def sem_abs xTaskRemoveFromEventList_def word_less_nat_alt word_le_nat_alt)
  next
    case False
    with assms Pair show ?thesis
      by (auto simp: xQueueGiveFromISR_def sem_abs word_less_nat_alt word_le_nat_alt min_def)
  qed
qed

text \<open>A new semaphore; the block only matters for its address.\<close>

lemma semaphore_created:
  assumes "0 < n"
  shows "\<exists>q. xQueueGenericCreate n semSEMAPHORE_QUEUE_ITEM_LENGTH (Some block) = Some (Some q) \<and> sem_ok (q, k) \<and>
           sem_count (q, k) = 0 \<and> sem_max (q, k) = unat n \<and> cTxLock q = queueUNLOCKED \<and> xTasksWaitingToReceive q = []"
proof -
  have "n \<ge> 1" using assms by (simp add: word_le_nat_alt word_less_nat_alt)
  moreover have "(- 1 :: u32) div n \<ge> 0" by simp
  moreover have "- 1 - sizeof_Queue_t \<ge> n * 0" by simp
  ultimately show ?thesis
    using assms
    by (simp add: xQueueGenericCreate_def semSEMAPHORE_QUEUE_ITEM_LENGTH_def prvInitialiseNewQueue_def xQueueGenericReset_def
        sem_abs)
qed

lemma binary_created:
  "\<exists>q k'. vSemaphoreCreateBinary (Some block) k = Some (Some q, k') \<and> sem_ok (q, k') \<and> sem_count (q, k') = 1 \<and>
     sem_max (q, k') = 1 \<and> cTxLock q = queueUNLOCKED"
proof -
  obtain q where q: "xQueueGenericCreate 1 semSEMAPHORE_QUEUE_ITEM_LENGTH (Some block) = Some (Some q)"
      "sem_ok (q, k)" "sem_count (q, k) = 0" "sem_max (q, k) = 1" "cTxLock q = queueUNLOCKED"
    using semaphore_created [of 1 block k] by auto
  from give_spec [OF q(2)] q(3-5) obtain qk' where
    g: "xSemaphoreGive (q, k) = Some (True, qk')" "sem_ok qk'" "sem_max qk' = 1" "sem_count qk' = 1" "cTxLock (fst qk') = queueUNLOCKED"
    by auto
  show ?thesis
    using q(1) g by (cases qk') (simp add: vSemaphoreCreateBinary_def)
qed

section \<open>Binary semaphores\<close>

text \<open>An unlocked binary semaphore with count \<open>n\<close>.\<close>

definition binary_sem :: "nat \<Rightarrow> Queue_t \<Rightarrow> bool" where
  "binary_sem n q \<longleftrightarrow> uxItemSize q = 0 \<and> uxLength q = 1 \<and> q_count q = n \<and> n \<le> 1 \<and> cTxLock q = queueUNLOCKED"

lemma binary_sem_iff:
  "binary_sem n q \<longleftrightarrow> sem_ok (q, k) \<and> sem_max (q, k) = 1 \<and> sem_count (q, k) = n \<and> cTxLock q = queueUNLOCKED"
proof -
  have "uxLength q = 1 \<longleftrightarrow> unat (uxLength q) = 1" by (metis unat_1 word_unat_eq_iff)
  then show ?thesis by (auto simp: binary_sem_def sem_abs word_le_nat_alt word_less_nat_alt)
qed

lemma binary_take_1:
  assumes "binary_sem 1 q"
  shows "\<exists>q' k'. xQueueSemaphoreTake ws t (q, k) = Some (True, q', k') \<and> binary_sem 0 q'"
proof -
  have s: "sem_ok (q, k)" "sem_max (q, k) = 1" "sem_count (q, k) = 1" "cTxLock q = queueUNLOCKED"
    using assms binary_sem_iff [of 1 q k] by blast+
  then have "0 < sem_count (q, k)" by simp
  with s(1) obtain qk' where "xQueueSemaphoreTake ws t (q, k) = Some (True, qk')" "sem_ok qk'" "sem_count qk' = sem_count (q, k) - 1"
      "sem_max qk' = sem_max (q, k)" "cTxLock (fst qk') = cTxLock (fst (q, k))"
    by (rule take_available)
  then show ?thesis using s binary_sem_iff [of 0 "fst qk'" "snd qk'"] by (cases qk') auto
qed

lemma binary_take_0:
  assumes "binary_sem 0 q" and "t \<noteq> portMAX_DELAY"
  shows "xQueueSemaphoreTake [] t (q, k) = Some (False, q, k)"
  using assms by (simp add: binary_sem_def xQueueSemaphoreTake_def semaphore_take_loop.simps take_attempt_def word_less_nat_alt)

lemma binary_give:
  assumes "binary_sem n q"
  shows "\<exists>q' k'. xSemaphoreGive (q, k) = Some (n = 0, q', k') \<and> binary_sem 1 q'"
proof -
  have "sem_ok (q, k)" "sem_max (q, k) = 1" "sem_count (q, k) = n" "n \<le> 1" "cTxLock q = queueUNLOCKED"
    using assms binary_sem_iff [of n q k] by (auto simp: binary_sem_def)
  moreover from give_spec [OF this(1)] obtain q' k' where
    "xSemaphoreGive (q, k) = Some (sem_count (q, k) < sem_max (q, k), q', k')" "sem_ok (q', k')" "sem_max (q', k') = sem_max (q, k)"
    "sem_count (q', k') = min (sem_max (q, k)) (Suc (sem_count (q, k)))" "cTxLock q' = cTxLock q"
    by auto
  ultimately show ?thesis by (auto simp: binary_sem_iff [of _ q' k'])
qed

lemma binary_give_isr:
  assumes "binary_sem n q"
  shows "\<exists>w q' k'. xQueueGiveFromISR (q, k) = Some (n = 0, w, q', k') \<and> binary_sem 1 q'"
proof -
  have s: "sem_ok (q, k)" "sem_max (q, k) = 1" "sem_count (q, k) = n" "n \<le> 1" "cTxLock (fst (q, k)) = queueUNLOCKED"
    using assms binary_sem_iff [of n q k] by (auto simp: binary_sem_def)
  from give_from_isr_spec [OF s(1,5)] obtain w q' k' where
    "xQueueGiveFromISR (q, k) = Some (sem_count (q, k) < sem_max (q, k), w, q', k')" "sem_ok (q', k')" "sem_max (q', k') = sem_max (q, k)"
    "sem_count (q', k') = min (sem_max (q, k)) (Suc (sem_count (q, k)))" "cTxLock q' = queueUNLOCKED"
    by auto
  with s show ?thesis by (auto simp: binary_sem_iff [of _ q' k'])
qed

lemma binary_new: "\<exists>q k'. vSemaphoreCreateBinary (Some block) k = Some (Some q, k') \<and> binary_sem 1 q"
  using binary_created [of block k] binary_sem_iff [of 1] by blast

end
