(* ===== verification/EthernetIf.thy ===== *)
theory EthernetIf
  imports EnetRing KernelSemaphore OtaServer
begin

text \<open>
  The network interface of the controller, from \<^verbatim>\<open>src/Lib/lwip_2_2_1/contrib/ports/GD32H7xx/FreeRTOS/ethernetif.c\<close>, and the
  interrupt handler in \<^verbatim>\<open>src/App/gd32h7xx_it.c\<close> that wakes its task: initialisation, output of a chain of packet buffers, input of one frame,
  and the task that passes received frames to the network stack.

  The controller works in parallel. What it does while the driver is inside a function is a parameter: the frames that
  arrive during \<open>low_level_input\<close> between reading the length and handing the descriptor back, and the steps of the transmitter during the busy wait of
  \<open>low_level_output\<close>. A packet buffer is the list of the payloads of its chain. The network stack appears as the result of its input function,
  its allocator as the list of the segment lengths it gives for a frame, or \<open>None\<close>.
\<close>

section \<open>State\<close>

record netif =
  hwaddr :: "u8 list"
  hwaddr_len :: u8
  mtu :: u16
  flags :: u8
  netif_name :: string

record ethernetif =
  eth :: enet
  low_netif :: "netif option"
  g_rx_semaphore :: "Queue_t option"
  s_tx_semaphore :: "Queue_t option"
  eth_kernel :: scheduler
  eth_tasks :: "(string \<times> nat \<times> nat) list"
  ENET_MAC_ADDR0H :: u32
  ENET_MAC_ADDR0L :: u32

definition ETHARP_HWADDR_LEN :: u8 where "ETHARP_HWADDR_LEN = 6"
definition NETIF_FLAG_BROADCAST :: u8 where "NETIF_FLAG_BROADCAST = 0x02"
definition NETIF_FLAG_LINK_UP :: u8 where "NETIF_FLAG_LINK_UP = 0x04"
definition NETIF_FLAG_ETHARP :: u8 where "NETIF_FLAG_ETHARP = 0x08"
definition MAC_ADDR :: "u8 list" where "MAC_ADDR = [4, 0xA, 0xD, 0xE, 0xD, 6]"
definition ETHERNETIF_INPUT_TASK_STACK_SIZE :: nat where "ETHERNETIF_INPUT_TASK_STACK_SIZE = 350"
definition ETHERNETIF_INPUT_TASK_PRIO :: nat where "ETHERNETIF_INPUT_TASK_PRIO = 31 - 1"
definition LOWLEVEL_OUTPUT_WAITING_TIME :: u32 where "LOWLEVEL_OUTPUT_WAITING_TIME = 250"
definition LOWLEVEL_INPUT_WAITING_TIME :: u32 where "LOWLEVEL_INPUT_WAITING_TIME = 100"

section \<open>Initialisation\<close>

definition enet_mac_address_set :: "u8 list \<Rightarrow> ethernetif \<Rightarrow> ethernetif" where
  "enet_mac_address_set paddr s =
     s\<lparr>ENET_MAC_ADDR0H := push_bit 8 (ucast (paddr ! 5)) OR ucast (paddr ! 4),
       ENET_MAC_ADDR0L := push_bit 24 (ucast (paddr ! 3)) OR push_bit 16 (ucast (paddr ! 2)) OR push_bit 8 (ucast (paddr ! 1)) OR ucast (paddr ! 0)\<rparr>"

definition ENET_GET_MACADDR :: "ethernetif \<Rightarrow> nat \<Rightarrow> u8" where
  "ENET_GET_MACADDR s n = ucast (drop_bit (8 * (n mod 4)) (if n div 4 = 0 then ENET_MAC_ADDR0L s else ENET_MAC_ADDR0H s) AND 0xFF)"

definition enet_mac_address_get :: "ethernetif \<Rightarrow> nat \<Rightarrow> u8 list option" where
  "enet_mac_address_get s bufsize = (if bufsize < 6 then None else Some (map (ENET_GET_MACADDR s) [0..<6]))"

definition low_level_netif :: "netif \<Rightarrow> netif" where
  "low_level_netif n = n\<lparr>hwaddr_len := ETHARP_HWADDR_LEN, hwaddr := MAC_ADDR, mtu := 1500,
     flags := NETIF_FLAG_BROADCAST OR NETIF_FLAG_ETHARP OR NETIF_FLAG_LINK_UP\<rparr>"

text \<open>The semaphore of the receiver is created with the count 1 and taken at once.\<close>

definition create_rx_semaphore :: "u8 list option \<Rightarrow> ethernetif \<Rightarrow> ethernetif option" where
  "create_rx_semaphore block s =
     (case g_rx_semaphore s of
        Some q \<Rightarrow> Some s
      | None \<Rightarrow>
          (case vSemaphoreCreateBinary block (eth_kernel s) of
             Some (Some q, k) \<Rightarrow>
               (case xQueueSemaphoreTake [] 0 (q, k) of
                  None \<Rightarrow> None
                | Some (r, q', k') \<Rightarrow> Some (s\<lparr>g_rx_semaphore := Some q', eth_kernel := k'\<rparr>))
           | _ \<Rightarrow> None))"

definition enet_prepare :: "enet \<Rightarrow> enet" where
  "enet_prepare e =
     (let e1 = enet_descriptors_chain_init ENET_DMA_RX (enet_descriptors_chain_init ENET_DMA_TX e);
          e2 = e1\<lparr>rxdesc_tab := map enet_rx_desc_immediate_receive_complete_interrupt (rxdesc_tab e1)\<rparr>
      in e2\<lparr>txdesc_tab := map (enet_transmit_checksum_config ENET_CHECKSUM_TCPUDPICMP_FULL) (txdesc_tab e2)\<rparr>)"

definition low_level_init :: "u8 list option \<Rightarrow> netif \<Rightarrow> ethernetif \<Rightarrow> (netif \<times> ethernetif) option" where
  "low_level_init block n s =
     (let n1 = low_level_netif n
      in case create_rx_semaphore block (s\<lparr>low_netif := Some n1\<rparr>) of
           None \<Rightarrow> None
         | Some s1 \<Rightarrow>
             (let s2 = enet_mac_address_set (hwaddr n1) s1;
                  s3 = s2\<lparr>eth := enet_prepare (eth s2),
                          eth_tasks := eth_tasks s2 @ [(''ETHERNETIF_INPUT'', ETHERNETIF_INPUT_TASK_STACK_SIZE, ETHERNETIF_INPUT_TASK_PRIO)]\<rparr>
              in Some (n1, s3\<lparr>eth := enet_enable (eth s3)\<rparr>)))"

definition ethernetif_init :: "u8 list option \<Rightarrow> netif \<Rightarrow> ethernetif \<Rightarrow> (int \<times> netif \<times> ethernetif) option" where
  "ethernetif_init block n s =
     (case low_level_init block (n\<lparr>netif_name := ''GD''\<rparr>) s of None \<Rightarrow> None | Some (n', s') \<Rightarrow> Some (ERR_OK, n', s'))"

section \<open>Output\<close>

text \<open>
  The busy wait for the current descriptor; \<open>steps\<close> bounds the number of steps of the transmitter in it. The copy of the chain goes
  ahead of any check of its length.
\<close>

fun tx_wait :: "nat \<Rightarrow> enet \<Rightarrow> enet option" where
  "tx_wait steps e =
     (case deref (txdesc_tab e) (dma_current_txdesc e) of
        None \<Rightarrow> None
      | Some d \<Rightarrow>
          if status d AND ENET_TDES0_DAV \<noteq> 0
          then (case steps of 0 \<Rightarrow> None | Suc n \<Rightarrow> tx_wait n (tx_dma e))
          else Some e)"

declare tx_wait.simps [simp del]

fun copy_chain :: "u8 list list \<Rightarrow> nat \<Rightarrow> u16 \<Rightarrow> u8 list \<Rightarrow> (u16 \<times> u8 list) option" where
  "copy_chain [] buffer framelength mem = Some (framelength, mem)"
| "copy_chain (q # qs) buffer framelength mem =
     (if buffer + unat framelength + length q \<le> length mem
      then copy_chain qs buffer (framelength + word_of_nat (length q)) (store_at (buffer + unat framelength) q mem) else None)"

definition output_frame :: "nat \<Rightarrow> u8 list list \<Rightarrow> enet \<Rightarrow> (ErrStatus \<times> enet) option" where
  "output_frame steps p e =
     (case tx_wait steps e of
        None \<Rightarrow> None
      | Some e1 \<Rightarrow>
          (case deref (txdesc_tab e1) (dma_current_txdesc e1) of
             None \<Rightarrow> None
           | Some d \<Rightarrow>
               (case copy_chain p (unat (enet_desc_information_get d TXDESC_BUFFER_1_ADDR e1)) 0 (tx_buff e1) of
                  None \<Rightarrow> None
                | Some (framelength, mem) \<Rightarrow> enet_frame_transmit None (ucast framelength) (e1\<lparr>tx_buff := mem\<rparr>))))"

text \<open>Any outcome other than success ends in an endless loop.\<close>

definition low_level_output ::
  "u8 list option \<Rightarrow> (Queue_t \<times> scheduler \<Rightarrow> Queue_t \<times> scheduler) list \<Rightarrow> nat \<Rightarrow> u8 list list \<Rightarrow> ethernetif \<Rightarrow> (int \<times> ethernetif) option" where
  "low_level_output block waits steps p s =
     (case (case s_tx_semaphore s of Some q \<Rightarrow> Some (Some q, eth_kernel s) | None \<Rightarrow> vSemaphoreCreateBinary block (eth_kernel s)) of
        Some (Some q, k) \<Rightarrow>
          (case xQueueSemaphoreTake waits LOWLEVEL_OUTPUT_WAITING_TIME (q, k) of
             Some (True, q1, k1) \<Rightarrow>
               (case output_frame steps p (eth s) of
                  Some (reval, e) \<Rightarrow>
                    (case xSemaphoreGive (q1, k1) of
                       Some (r, q2, k2) \<Rightarrow>
                         if reval = SUCCESS then Some (ERR_OK, s\<lparr>eth := e, s_tx_semaphore := Some q2, eth_kernel := k2\<rparr>) else None
                     | None \<Rightarrow> None)
                | None \<Rightarrow> None)
           | _ \<Rightarrow> None)
      | _ \<Rightarrow> None)"

section \<open>Input\<close>

text \<open>Frames on the line: whether they have a type field, their bytes, their checksum.\<close>

type_synonym line_frame = "bool \<times> u8 list \<times> u8 list"

definition arrive :: "line_frame \<Rightarrow> enet \<Rightarrow> enet" where
  "arrive lf e = (case lf of (ty, f, fcs) \<Rightarrow> snd (rx_dma ty f fcs e))"

fun fill_chain :: "nat list \<Rightarrow> nat \<Rightarrow> nat \<Rightarrow> u8 list \<Rightarrow> u8 list list option" where
  "fill_chain [] buffer l mem = Some []"
| "fill_chain (n # ns) buffer l mem =
     (if buffer + l + n \<le> length mem then map_option ((#) (seg (buffer + l) n mem)) (fill_chain ns buffer (l + n) mem) else None)"

text \<open>
  \<open>inside\<close> are the frames that arrive during the call, when the length has been read. The allocator is only asked for a positive
  length. The inner \<open>None\<close> of the result is the returned null pointer.
\<close>

definition low_level_input :: "(nat \<Rightarrow> nat list option) \<Rightarrow> line_frame list \<Rightarrow> enet \<Rightarrow> (u8 list list option \<times> enet) option" where
  "low_level_input pbuf_alloc inside e =
     (case deref (rxdesc_tab e) (dma_current_rxdesc e) of
        None \<Rightarrow> None
      | Some d \<Rightarrow>
          (let len = (ucast (enet_desc_information_get d RXDESC_FRAME_LENGTH e) :: u16);
               buffer = unat (enet_desc_information_get d RXDESC_BUFFER_1_ADDR e);
               p = (if len > 0 then pbuf_alloc (unat len) else None);
               e1 = fold arrive inside e
           in case (case p of None \<Rightarrow> Some None | Some ns \<Rightarrow> map_option Some (fill_chain ns buffer 0 (rx_buff e1))) of
                None \<Rightarrow> None
              | Some q \<Rightarrow> (case enet_frame_receive None e1 of None \<Rightarrow> None | Some (r, bs, e2) \<Rightarrow> Some (q, e2))))"

text \<open>The interrupt handler; it returns whether it asked for a switch of tasks.\<close>

definition enet_interrupt_flag_clear :: "nat \<Rightarrow> enet \<Rightarrow> enet" where
  "enet_interrupt_flag_clear n e = write_DMA_STAT (BIT n) e"

definition ENET0_IRQHandler :: "ethernetif \<Rightarrow> ethernetif option" where
  "ENET0_IRQHandler s =
     (case (if ENET_DMA_STAT (eth s) AND ENET_DMA_STAT_RS \<noteq> 0
            then (case g_rx_semaphore s of
                    None \<Rightarrow> None
                  | Some q \<Rightarrow> map_option (\<lambda>(r, woken, q', k'). (woken, s\<lparr>g_rx_semaphore := Some q', eth_kernel := k'\<rparr>))
                                (xQueueGiveFromISR (q, eth_kernel s)))
            else Some (False, s)) of
        None \<Rightarrow> None
      | Some (woken, s1) \<Rightarrow>
          (let s2 = s1\<lparr>eth := enet_interrupt_flag_clear 16 (enet_interrupt_flag_clear 6 (eth s1))\<rparr>
           in Some (if woken then s2\<lparr>eth_kernel := request_yield (eth_kernel s2)\<rparr> else s2)))"

text \<open>
  What the controller, the interrupt and the transmitter do between two steps of the task.
\<close>

datatype line_event = Frame_in line_frame | Interrupt | Frame_out

fun line_step :: "line_event \<Rightarrow> ethernetif \<Rightarrow> ethernetif option" where
  "line_step (Frame_in lf) s = Some (s\<lparr>eth := arrive lf (eth s)\<rparr>)"
| "line_step Interrupt s = ENET0_IRQHandler s"
| "line_step Frame_out s = Some (s\<lparr>eth := tx_dma (eth s)\<rparr>)"

fun line_steps :: "line_event list \<Rightarrow> ethernetif \<Rightarrow> ethernetif option" where
  "line_steps [] s = Some s"
| "line_steps (ev # evs) s = (case line_step ev s of None \<Rightarrow> None | Some s' \<Rightarrow> line_steps evs s')"

text \<open>
  One pass of the loop at the label \<open>TRY_GET_NEXT_FRAME\<close>: the allocator, the frames that arrive inside, the events behind
  the protected section, and whether the stack's input function returns \<open>ERR_OK\<close>. The loop returns the packets passed to the stack with that result; a
  list of passes that ends too early stands for a loop that has not ended yet.
\<close>

record input_pass =
  pass_alloc :: "nat \<Rightarrow> nat list option"
  pass_inside :: "line_frame list"
  pass_behind :: "line_event list"
  pass_ok :: bool

fun try_get_next_frame :: "input_pass list \<Rightarrow> ethernetif \<Rightarrow> ((u8 list list \<times> bool) list \<times> ethernetif) option" where
  "try_get_next_frame [] s = None"
| "try_get_next_frame (x # xs) s =
     (case low_level_input (pass_alloc x) (pass_inside x) (eth s) of
        None \<Rightarrow> None
      | Some (p, e) \<Rightarrow>
          (case line_steps (pass_behind x) (s\<lparr>eth := e\<rparr>) of
             None \<Rightarrow> None
           | Some s1 \<Rightarrow>
               (case p of
                  None \<Rightarrow> Some ([], s1)
                | Some q \<Rightarrow>
                    if \<not> pass_ok x then Some ([(q, False)], s1)
                    else map_option (apfst ((#) (q, True))) (try_get_next_frame xs s1))))"

text \<open>One turn of the task's endless loop; without the semaphore the wait ends by its limit and nothing is done.\<close>

definition ethernetif_input :: "input_pass list \<Rightarrow> ethernetif \<Rightarrow> ((u8 list list \<times> bool) list \<times> ethernetif) option" where
  "ethernetif_input xs s =
     (case g_rx_semaphore s of
        None \<Rightarrow> None
      | Some q \<Rightarrow>
          (case xQueueSemaphoreTake [] LOWLEVEL_INPUT_WAITING_TIME (q, eth_kernel s) of
             None \<Rightarrow> None
           | Some (r, q', k') \<Rightarrow>
               (let s1 = s\<lparr>g_rx_semaphore := Some q', eth_kernel := k'\<rparr>
                in if r then try_get_next_frame xs s1 else Some ([], s1))))"

end
