(* ===== verification/EthernetTraffic.thy ===== *)
theory EthernetTraffic
  imports EthernetIf
begin

text \<open>
  What the network interface does to frames, as two queues of at most five frames: an abstract machine with the received frames
  that wait, the frames that wait for the line, the frames sent, the pending interrupt and the semaphore. Every history of frames, interrupts, turns of the
  task and calls of the output function gives on the descriptors, buffers and registers what it gives on this machine.
\<close>

section \<open>The functions on the rings\<close>

definition line_ok :: "line_frame \<Rightarrow> bool" where
  "line_ok lf = frame_ok (fst (snd lf)) (snd (snd lf))"

definition fifo_in :: "line_frame \<Rightarrow> u8 list list \<Rightarrow> u8 list list" where
  "fifo_in lf fs = (if length fs < 5 then fs @ [fst (snd lf)] else fs)"

lemma arrive_ring:
  assumes "rx_ring e i fs" and "line_ok lf"
  shows "rx_ring (arrive lf e) i (fifo_in lf fs) \<and> same_tx e (arrive lf e) \<and>
    bit (ENET_DMA_STAT (arrive lf e)) 6 = (bit (ENET_DMA_STAT e) 6 \<or> length fs < 5)"
proof (cases lf)
  case (fields ty f fcs)
  show ?thesis
  proof (cases "length fs < 5")
    case True
    have "frame_ok f fcs" using assms(2) fields by (simp add: line_ok_def)
    from rx_dma_stores [OF assms(1) this True, of ty] show ?thesis
      using fields True by (auto simp: arrive_def fifo_in_def)
  next
    case False
    then have "length fs = 5" using rx_ring_bound [OF assms(1)] by simp
    from rx_dma_full [OF assms(1) this, of ty f fcs] show ?thesis
      using fields False by (auto simp: arrive_def fifo_in_def)
  qed
qed

lemma arrivals_ring:
  assumes "rx_ring e i fs" and "\<forall>lf\<in>set lfs. line_ok lf"
  shows "rx_ring (fold arrive lfs e) i (fold fifo_in lfs fs) \<and> same_tx e (fold arrive lfs e) \<and>
    bit (ENET_DMA_STAT (fold arrive lfs e)) 6 = (bit (ENET_DMA_STAT e) 6 \<or> length fs < 5 \<and> lfs \<noteq> [])"
  using assms
proof (induction lfs arbitrary: e fs)
  case Nil
  then show ?case by simp
next
  case (Cons lf lfs)
  have a: "rx_ring (arrive lf e) i (fifo_in lf fs)" "same_tx e (arrive lf e)"
    "bit (ENET_DMA_STAT (arrive lf e)) 6 = (bit (ENET_DMA_STAT e) 6 \<or> length fs < 5)"
    using arrive_ring [OF Cons.prems(1)] Cons.prems(2) by auto
  have "length (fifo_in lf fs) < 5 \<Longrightarrow> length fs < 5" by (auto simp: fifo_in_def split: if_splits)
  then show ?case
    using Cons.IH [OF a(1)] Cons.prems(2) a same_tx_trans by auto
qed

lemma fold_fifo_in: "\<exists>gs. fold fifo_in lfs fs = fs @ gs"
proof (induction lfs arbitrary: fs)
  case (Cons lf lfs)
  obtain gs where "fold fifo_in lfs (fifo_in lf fs) = fifo_in lf fs @ gs" using Cons.IH by blast
  moreover have "\<exists>hs. fifo_in lf fs = fs @ hs" by (simp add: fifo_in_def)
  ultimately show ?case by auto
qed simp

lemma rx_head:
  assumes r: "rx_ring e i (f # fs)"
  obtains d where "deref (rxdesc_tab e) (dma_current_rxdesc e) = Some d" and "buffer1_addr d = i * 1524"
    and "unat (rx_frame_length (ENET_MAC_CFG e) (status d)) = length f" and "0 < length f" and "length f \<le> 1524"
    and "seg (i * 1524) (length f) (rx_buff e) = f" and "i * 1524 + length f \<le> length (rx_buff e)"
proof -
  let ?d = "rxdesc_tab e ! i"
  let ?n = "unat (rx_frame_length (ENET_MAC_CFG e) (status ?d))"
  have i: "i < 5" using rx_ring_bound [OF r] by simp
  have "ring_holds 5 (rx_slot e) i (f # fs)" using r by (simp add: rx_ring_def)
  from ring_holds_head [OF this] have s: "\<not> bit (status ?d) 31" "seg (buffer1_addr ?d) ?n (rx_buff e) = f"
    by (auto simp: rx_slot_def Let_def split: if_splits)
  have "rx_desc_ok (ENET_MAC_CFG e) i ?d" using r i unfolding rx_ring_def by blast
  then have b: "buffer1_addr ?d = i * 1524" "0 < ?n" "?n \<le> 1524" using s(1) by (simp_all add: rx_desc_ok_def desc_chained_def enet_sizes)
  have l: "i * 1524 + ?n \<le> length (rx_buff e)" using r i b(3) by (simp add: rx_ring_def enet_sizes)
  then have n: "?n = length f" using s(2) b(1) by (metis length_seg)
  have "deref (rxdesc_tab e) (dma_current_rxdesc e) = Some ?d" using r i by (simp add: rx_ring_def)
  then show thesis using that [of ?d] b l n s(2) by simp
qed

lemma rx_none:
  assumes r: "rx_ring e i []"
  shows "\<exists>d. deref (rxdesc_tab e) (dma_current_rxdesc e) = Some d \<and> status d = ENET_RDES0_DAV"
proof -
  have i: "i < 5" using rx_ring_bound [OF r] by simp
  have "ring_holds 5 (rx_slot e) i []" using r by (simp add: rx_ring_def)
  from ring_holds_head [OF this] have "bit (status (rxdesc_tab e ! i)) 31" by (auto simp: rx_slot_def Let_def split: if_splits)
  moreover have "rx_desc_ok (ENET_MAC_CFG e) i (rxdesc_tab e ! i)" using r i unfolding rx_ring_def by blast
  ultimately show ?thesis using r i by (simp add: rx_desc_ok_def rx_ring_def)
qed

lemma seg_add: "seg a (m + n) xs = seg a m xs @ seg (a + m) n xs"
  by (simp add: seg_def take_add add.commute)

lemma fill_chain_concat:
  "buffer + l + sum_list ns \<le> length mem \<Longrightarrow>
   \<exists>p. fill_chain ns buffer l mem = Some p \<and> map length p = ns \<and> concat p = seg (buffer + l) (sum_list ns) mem"
proof (induction ns arbitrary: l)
  case Nil
  then show ?case by (simp add: seg_def)
next
  case (Cons n ns)
  have "buffer + (l + n) + sum_list ns \<le> length mem" using Cons.prems by simp
  from Cons.IH [OF this] obtain p where
    "fill_chain ns buffer (l + n) mem = Some p" "map length p = ns" "concat p = seg (buffer + (l + n)) (sum_list ns) mem"
    by auto
  then show ?case using Cons.prems by (simp add: seg_add [of _ n] add.assoc)
qed

text \<open>An allocator gives segments for exactly the length asked for, or nothing.\<close>

definition alloc_ok :: "(nat \<Rightarrow> nat list option) \<Rightarrow> bool" where
  "alloc_ok alloc \<longleftrightarrow> (\<forall>n ns. alloc n = Some ns \<longrightarrow> sum_list ns = n)"

definition fifo_got :: "(nat \<Rightarrow> nat list option) \<Rightarrow> u8 list list \<Rightarrow> u8 list option" where
  "fifo_got alloc fs = (case fs of [] \<Rightarrow> None | f # _ \<Rightarrow> if alloc (length f) = None then None else Some f)"

lemma release_spec:
  assumes "rx_ring e i fs"
  shows "\<exists>r bs e' i'. enet_frame_receive None e = Some (r, bs, e') \<and> rx_ring e' i' (tl fs) \<and> same_tx e e' \<and>
    bit (ENET_DMA_STAT e') 6 = bit (ENET_DMA_STAT e) 6"
proof (cases fs)
  case Nil
  then show ?thesis using frame_receive_busy assms by auto
next
  case (Cons f gs)
  then show ?thesis using frame_receive_pops [of e i f gs] assms by auto
qed

lemma low_level_input_spec:
  assumes r: "rx_ring e i fs" and ok: "\<forall>lf\<in>set inside. line_ok lf" and a: "alloc_ok alloc"
  shows "\<exists>q e' i'. low_level_input alloc inside e = Some (q, e') \<and> rx_ring e' i' (tl (fold fifo_in inside fs)) \<and> same_tx e e' \<and>
    bit (ENET_DMA_STAT e') 6 = (bit (ENET_DMA_STAT e) 6 \<or> length fs < 5 \<and> inside \<noteq> []) \<and>
    map_option concat q = fifo_got alloc fs"
proof -
  let ?e1 = "fold arrive inside e"
  have e1: "rx_ring ?e1 i (fold fifo_in inside fs)" "same_tx e ?e1"
    "bit (ENET_DMA_STAT ?e1) 6 = (bit (ENET_DMA_STAT e) 6 \<or> length fs < 5 \<and> inside \<noteq> [])"
    using arrivals_ring [OF r ok] by auto
  obtain rr bs e' i' where rel: "enet_frame_receive None ?e1 = Some (rr, bs, e')" "rx_ring e' i' (tl (fold fifo_in inside fs))"
      "same_tx ?e1 e'" "bit (ENET_DMA_STAT e') 6 = bit (ENET_DMA_STAT ?e1) 6"
    using release_spec [OF e1(1)] by blast
  have t: "same_tx e e'" using e1(2) rel(3) by (rule same_tx_trans)
  show ?thesis
  proof (cases fs)
    case Nil
    then obtain d where "deref (rxdesc_tab e) (dma_current_rxdesc e) = Some d" "status d = ENET_RDES0_DAV" using rx_none r by blast
    then have "low_level_input alloc inside e = Some (None, e')"
      using rel(1) by (simp add: low_level_input_def enet_desc_information_get_def Let_def)
    then show ?thesis using rel t e1(3) Nil by (auto simp: fifo_got_def)
  next
    case (Cons f gs)
    obtain hs where hs: "fold fifo_in inside fs = f # hs" using fold_fifo_in [of inside fs] Cons by auto
    obtain d where d: "deref (rxdesc_tab e) (dma_current_rxdesc e) = Some d" "buffer1_addr d = i * 1524"
        "unat (rx_frame_length (ENET_MAC_CFG e) (status d)) = length f" "0 < length f" "length f \<le> 1524"
      using r Cons by (auto elim: rx_head)
    have b: "seg (i * 1524) (length f) (rx_buff ?e1) = f" "i * 1524 + length f \<le> length (rx_buff ?e1)"
      using e1(1) hs by (auto elim: rx_head)
    have i: "i < 5" using rx_ring_bound [OF r] by simp
    have len: "unat (ucast (rx_frame_length (ENET_MAC_CFG e) (status d)) :: u16) = length f"
      using d(3,5) by (simp add: unsigned_ucast_eq take_bit_nat_eq_self)
    then have pos: "(ucast (rx_frame_length (ENET_MAC_CFG e) (status d)) :: u16) > 0" using d(4) by (simp add: word_less_nat_alt)
    have buf: "unat (word_of_nat (i * 1524) :: u32) = i * 1524" by (rule word_of_nat_eq_nat_iff) (use i in simp)
    show ?thesis
    proof (cases "alloc (length f)")
      case None
      then have "low_level_input alloc inside e = Some (None, e')"
        using rel(1) d(1) len pos by (simp add: low_level_input_def enet_desc_information_get_def Let_def)
      then show ?thesis using rel t e1(3) Cons None by (auto simp: fifo_got_def)
    next
      case (Some ns)
      then have "sum_list ns = length f" using a by (simp add: alloc_ok_def)
      then obtain p where p: "fill_chain ns (i * 1524) 0 (rx_buff ?e1) = Some p" "concat p = f"
        using fill_chain_concat [of "i * 1524" 0 ns "rx_buff ?e1"] b by auto
      have "low_level_input alloc inside e = Some (Some p, e')"
        using rel(1) d(1,2) len pos buf Some p by (simp add: low_level_input_def enet_desc_information_get_def Let_def)
      then show ?thesis using rel t e1(3) Cons Some p(2) by (auto simp: fifo_got_def)
    qed
  qed
qed

lemma tx_wait_room:
  assumes "tx_ring e j ws" and "length ws < 5"
  shows "tx_wait n e = Some e"
proof -
  obtain d where "deref (txdesc_tab e) (dma_current_txdesc e) = Some d" "\<not> bit (status d) 31" by (rule tx_current [OF assms])
  then show ?thesis by (simp add: tx_wait.simps enet_bits)
qed

lemma tx_wait_full:
  assumes r: "tx_ring e j ws" and n: "length ws = 5"
  shows "tx_wait (Suc n) e = Some (tx_dma e)"
proof -
  obtain w vs where ws: "ws = w # vs" using n by (cases ws) auto
  have h: "ring_holds 5 (tx_slot e) j ws" and j: "j < 5" using r tx_ring_bound [OF r] by (simp_all add: tx_ring_def)
  from ring_holds_head [OF h] ws have "bit (status (txdesc_tab e ! j)) 31"
    by (auto simp: tx_slot_def Let_def split: if_splits)
  moreover have "deref (txdesc_tab e) (dma_current_txdesc e) = Some (txdesc_tab e ! j)" using r n j by (simp add: tx_ring_def)
  moreover have "tx_wait n (tx_dma e) = Some (tx_dma e)"
    using tx_wait_room [of "tx_dma e"] tx_dma_sends [of e j w vs] r ws n by auto
  ultimately show ?thesis by (simp add: tx_wait.simps [of "Suc n"] enet_bits)
qed

lemma copy_chain_spec:
  assumes "tx_ring e i ws" and "length ws < 5" and "unat fl + length (concat p) \<le> 1524"
  shows "\<exists>fl' mem. copy_chain p (((i + length ws) mod 5) * 1524) fl (tx_buff e) = Some (fl', mem) \<and>
    unat fl' = unat fl + length (concat p) \<and> tx_ring (e\<lparr>tx_buff := mem\<rparr>) i ws \<and>
    seg (((i + length ws) mod 5) * 1524) (unat fl') mem = seg (((i + length ws) mod 5) * 1524) (unat fl) (tx_buff e) @ concat p"
  using assms
proof (induction p arbitrary: e fl)
  case Nil
  then show ?case by simp
next
  case (Cons q qs)
  let ?b = "((i + length ws) mod 5) * 1524"
  let ?mem = "store_at (?b + unat fl) q (tx_buff e)"
  let ?fl = "fl + word_of_nat (length q)"
  have l: "length (tx_buff e) = 7620" using Cons.prems(1) by (simp add: tx_ring_def enet_sizes)
  have "(i + length ws) mod 5 < 5" by simp
  then have room: "?b + unat fl + length q \<le> length (tx_buff e)" using l Cons.prems(3) by (simp add: algebra_simps)
  have q: "unat (word_of_nat (length q) :: u16) = length q" by (rule word_of_nat_eq_nat_iff) (use Cons.prems(3) in simp)
  then have fl: "unat ?fl = unat fl + length q" using Cons.prems(3) by (subst unat_add_small) auto
  have ring: "tx_ring (e\<lparr>tx_buff := ?mem\<rparr>) i ws" by (rule tx_store [OF Cons.prems(1,2)]) (use Cons.prems(3) in simp)
  have s: "seg ?b (unat fl + length q) ?mem = seg ?b (unat fl) (tx_buff e) @ q"
    using room by (simp add: seg_add seg_store_at_same seg_store_at_other)
  obtain fl' mem where r: "copy_chain qs ?b ?fl ?mem = Some (fl', mem)" "unat fl' = unat ?fl + length (concat qs)"
      "tx_ring (e\<lparr>tx_buff := ?mem, tx_buff := mem\<rparr>) i ws" "seg ?b (unat fl') mem = seg ?b (unat ?fl) ?mem @ concat qs"
    using Cons.IH [OF ring Cons.prems(2), of ?fl] Cons.prems(3) fl by auto
  then show ?case using room fl s by simp
qed

lemma output_frame_room:
  assumes r: "tx_ring e j ws" and n: "length ws < 5" and p: "length (concat p) \<le> 1524"
  shows "\<exists>e'. output_frame steps p e = Some (SUCCESS, e') \<and> same_rx e e' \<and> tx_ring e' j (ws @ [concat p]) \<and> wire e' = wire e"
proof -
  let ?b = "((j + length ws) mod 5) * 1524"
  obtain d where d: "deref (txdesc_tab e) (dma_current_txdesc e) = Some d" "buffer1_addr d = ?b" by (rule tx_current [OF r n])
  have "(j + length ws) mod 5 < 5" by simp
  then have b: "unat (word_of_nat ?b :: u32) = ?b" by (intro word_of_nat_eq_nat_iff) simp
  obtain fl mem where c: "copy_chain p ?b 0 (tx_buff e) = Some (fl, mem)" "unat fl = length (concat p)"
      "tx_ring (e\<lparr>tx_buff := mem\<rparr>) j ws" "seg ?b (unat fl) mem = concat p"
    using copy_chain_spec [OF r n, of 0 p] p by (auto simp: seg_def)
  have u: "unat (ucast fl :: u32) = unat fl" by (simp add: unsigned_ucast_eq take_bit_nat_eq_self unsigned_less [of fl, THEN order.strict_trans])
  then obtain e' where "enet_frame_transmit None (ucast fl) (e\<lparr>tx_buff := mem\<rparr>) = Some (SUCCESS, e')" "wire e' = wire e"
      "same_rx (e\<lparr>tx_buff := mem\<rparr>) e'" "tx_ring e' j (ws @ [concat p])"
    using frame_transmit_pushes [OF c(3) n, of "ucast fl"] c(2,4) p by auto
  then show ?thesis
    using tx_wait_room [OF r n] d b c(1)
    by (simp add: output_frame_def enet_desc_information_get_def same_rx_def)
qed

lemma output_frame_full:
  assumes r: "tx_ring e j (w # ws)" and n: "length ws = 4" and p: "length (concat p) \<le> 1524"
  shows "\<exists>e' j'. output_frame (Suc steps) p e = Some (SUCCESS, e') \<and> same_rx e e' \<and> tx_ring e' j' (ws @ [concat p]) \<and> wire e' = wire e @ [w]"
proof -
  let ?e1 = "tx_dma e"
  have e1: "tx_ring ?e1 ((j + 1) mod 5) ws" "wire ?e1 = wire e @ [w]" using tx_dma_sends [OF r] by auto
  have "length ws < 5" using n by simp
  from output_frame_room [OF e1(1) this p] obtain e' where
    e': "output_frame (Suc steps) p ?e1 = Some (SUCCESS, e')" "same_rx ?e1 e'" "tx_ring e' ((j + 1) mod 5) (ws @ [concat p])" "wire e' = wire ?e1"
    by blast
  have "tx_wait (Suc steps) e = Some ?e1" by (rule tx_wait_full [OF r]) (simp add: n)
  moreover have "tx_wait (Suc steps) ?e1 = Some ?e1" by (rule tx_wait_room [OF e1(1)]) (simp add: n)
  ultimately have "output_frame (Suc steps) p e = output_frame (Suc steps) p ?e1" by (simp add: output_frame_def)
  then show ?thesis using e' e1(2) tx_dma_same_rx [of e] same_rx_trans by metis
qed

end
