(* ===== verification/EthernetRefine.thy ===== *)
theory EthernetRefine
  imports EthernetTraffic
begin

text \<open>
  The network interface as a whole: the abstract machine, the refinement of every history, and what follows for received and
  sent frames.
\<close>

section \<open>The abstract machine\<close>

record traffic =
  rxq :: "u8 list list"
  txq :: "u8 list list"
  sent :: "u8 list list"
  irq_due :: bool
  sem_up :: bool

fun fifo_line :: "line_event \<Rightarrow> traffic \<Rightarrow> traffic" where
  "fifo_line (Frame_in lf) t = t\<lparr>rxq := fifo_in lf (rxq t), irq_due := irq_due t \<or> length (rxq t) < 5\<rparr>"
| "fifo_line Interrupt t = t\<lparr>sem_up := sem_up t \<or> irq_due t, irq_due := False\<rparr>"
| "fifo_line Frame_out t = t\<lparr>txq := tl (txq t), sent := sent t @ take 1 (txq t)\<rparr>"

definition fifo_take :: "line_frame list \<Rightarrow> traffic \<Rightarrow> traffic" where
  "fifo_take inside t = t\<lparr>rxq := tl (fold fifo_in inside (rxq t)), irq_due := irq_due t \<or> length (rxq t) < 5 \<and> inside \<noteq> []\<rparr>"

fun fifo_passes :: "input_pass list \<Rightarrow> traffic \<Rightarrow> ((u8 list \<times> bool) list \<times> traffic) option" where
  "fifo_passes [] t = None"
| "fifo_passes (x # xs) t =
     (let t1 = fold fifo_line (pass_behind x) (fifo_take (pass_inside x) t)
      in case fifo_got (pass_alloc x) (rxq t) of
           None \<Rightarrow> Some ([], t1)
         | Some f \<Rightarrow> if \<not> pass_ok x then Some ([(f, False)], t1) else map_option (apfst ((#) (f, True))) (fifo_passes xs t1))"

definition fifo_output :: "u8 list \<Rightarrow> traffic \<Rightarrow> traffic" where
  "fifo_output f t =
     (if length (txq t) < 5 then t\<lparr>txq := txq t @ [f]\<rparr> else t\<lparr>txq := tl (txq t) @ [f], sent := sent t @ [hd (txq t)]\<rparr>)"

text \<open>Histories: events on the line, turns of the task, and calls of the output function.\<close>

datatype eth_op = Line line_event | Turn "input_pass list" | Output "u8 list list"

fun eth_step :: "eth_op \<Rightarrow> ethernetif \<Rightarrow> ((u8 list list \<times> bool) list \<times> ethernetif) option" where
  "eth_step (Line ev) s = map_option (Pair []) (line_step ev s)"
| "eth_step (Turn xs) s = ethernetif_input xs s"
| "eth_step (Output p) s = map_option (\<lambda>(err, s'). ([], s')) (low_level_output (Some []) [] 1 p s)"

fun fifo_step :: "eth_op \<Rightarrow> traffic \<Rightarrow> ((u8 list \<times> bool) list \<times> traffic) option" where
  "fifo_step (Line ev) t = Some ([], fifo_line ev t)"
| "fifo_step (Turn xs) t = (if sem_up t then fifo_passes xs (t\<lparr>sem_up := False\<rparr>) else Some ([], t))"
| "fifo_step (Output p) t = Some ([], fifo_output (concat p) t)"

fun eth_run :: "eth_op list \<Rightarrow> ethernetif \<Rightarrow> ((u8 list list \<times> bool) list \<times> ethernetif) option" where
  "eth_run [] s = Some ([], s)"
| "eth_run (x # xs) s = (case eth_step x s of None \<Rightarrow> None | Some (out, s') \<Rightarrow> map_option (apfst ((@) out)) (eth_run xs s'))"

fun traffic_run :: "eth_op list \<Rightarrow> traffic \<Rightarrow> ((u8 list \<times> bool) list \<times> traffic) option" where
  "traffic_run [] t = Some ([], t)"
| "traffic_run (x # xs) t = (case fifo_step x t of None \<Rightarrow> None | Some (out, t') \<Rightarrow> map_option (apfst ((@) out)) (traffic_run xs t'))"

section \<open>Refinement\<close>

definition traffic_rel :: "ethernetif \<Rightarrow> traffic \<Rightarrow> bool" where
  "traffic_rel s t \<longleftrightarrow>
     (\<exists>i. rx_ring (eth s) i (rxq t)) \<and> (\<exists>j. tx_ring (eth s) j (txq t)) \<and> wire (eth s) = sent t \<and>
     irq_due t = bit (ENET_DMA_STAT (eth s)) 6 \<and>
     (\<exists>q. g_rx_semaphore s = Some q \<and> binary_sem (if sem_up t then 1 else 0) q) \<and>
     (\<forall>q. s_tx_semaphore s = Some q \<longrightarrow> binary_sem 1 q)"

fun line_event_ok :: "line_event \<Rightarrow> bool" where
  "line_event_ok (Frame_in lf) = line_ok lf"
| "line_event_ok _ = True"

definition pass_fine :: "input_pass \<Rightarrow> bool" where
  "pass_fine x \<longleftrightarrow> alloc_ok (pass_alloc x) \<and> (\<forall>lf\<in>set (pass_inside x). line_ok lf) \<and> (\<forall>ev\<in>set (pass_behind x). line_event_ok ev)"

fun op_fine :: "eth_op \<Rightarrow> bool" where
  "op_fine (Line ev) = line_event_ok ev"
| "op_fine (Turn xs) = (\<forall>x\<in>set xs. pass_fine x)"
| "op_fine (Output p) = (length (concat p) \<le> 1524)"

lemma irq_rel:
  assumes "traffic_rel s t"
  shows "\<exists>s'. ENET0_IRQHandler s = Some s' \<and> traffic_rel s' (fifo_line Interrupt t)"
proof -
  obtain i j q where r: "rx_ring (eth s) i (rxq t)" "tx_ring (eth s) j (txq t)" "wire (eth s) = sent t"
      "irq_due t = bit (ENET_DMA_STAT (eth s)) 6" "g_rx_semaphore s = Some q" "binary_sem (if sem_up t then 1 else 0) q"
      "\<forall>q. s_tx_semaphore s = Some q \<longrightarrow> binary_sem 1 q"
    using assms unfolding traffic_rel_def by blast
  let ?e = "enet_interrupt_flag_clear 16 (enet_interrupt_flag_clear 6 (eth s))"
  have bits: "\<not> bit (ENET_DMA_STAT ?e) 6" "bit (ENET_DMA_STAT ?e) 7 = bit (ENET_DMA_STAT (eth s)) 7"
      "bit (ENET_DMA_STAT ?e) 2 = bit (ENET_DMA_STAT (eth s)) 2"
    by (simp_all add: enet_interrupt_flag_clear_def write_DMA_STAT_def bit_simps)
  have slot: "rx_slot ?e = rx_slot (eth s)" by (simp add: enet_interrupt_flag_clear_def write_DMA_STAT_def)
  have rings: "rx_ring ?e i (rxq t)" "tx_ring ?e j (txq t)" "wire ?e = sent t"
  proof -
    show "rx_ring ?e i (rxq t)"
      using r(1) bits(2) slot by (simp add: rx_ring_def) (simp add: enet_interrupt_flag_clear_def write_DMA_STAT_def)
    show "tx_ring ?e j (txq t)"
      by (rule tx_ring_same [OF _ r(2)]) (use bits(3) in \<open>simp add: same_tx_def, simp add: enet_interrupt_flag_clear_def write_DMA_STAT_def\<close>)
    show "wire ?e = sent t" using r(3) by (simp add: enet_interrupt_flag_clear_def write_DMA_STAT_def)
  qed
  show ?thesis
  proof (cases "bit (ENET_DMA_STAT (eth s)) 6")
    case True
    obtain w q' k' where g: "xQueueGiveFromISR (q, eth_kernel s) = Some ((if sem_up t then 1 else 0) = (0::nat), w, q', k')" "binary_sem 1 q'"
      using binary_give_isr [OF r(6), of "eth_kernel s"] by blast
    show ?thesis
      using True g rings bits(1) r by (auto simp: ENET0_IRQHandler_def enet_bits Let_def traffic_rel_def)
  next
    case False
    then show ?thesis
      using rings bits(1) r by (auto simp: ENET0_IRQHandler_def enet_bits Let_def traffic_rel_def)
  qed
qed

lemma line_step_rel:
  assumes "traffic_rel s t" and "line_event_ok ev"
  shows "\<exists>s'. line_step ev s = Some s' \<and> traffic_rel s' (fifo_line ev t)"
proof (cases ev)
  case (Frame_in lf)
  obtain i j where r: "rx_ring (eth s) i (rxq t)" "tx_ring (eth s) j (txq t)" using assms(1) unfolding traffic_rel_def by blast
  have a: "rx_ring (arrive lf (eth s)) i (fifo_in lf (rxq t))" "same_tx (eth s) (arrive lf (eth s))"
      "bit (ENET_DMA_STAT (arrive lf (eth s))) 6 = (bit (ENET_DMA_STAT (eth s)) 6 \<or> length (rxq t) < 5)"
    using arrive_ring [OF r(1), of lf] assms(2) Frame_in by auto
  have "tx_ring (arrive lf (eth s)) j (txq t)" "wire (arrive lf (eth s)) = wire (eth s)"
    using tx_ring_same [OF a(2) r(2)] a(2) by (auto simp: same_tx_def)
  then show ?thesis using assms(1) a Frame_in by (auto simp: traffic_rel_def)
next
  case Interrupt
  then show ?thesis using irq_rel [OF assms(1)] by simp
next
  case Frame_out
  obtain i j where r: "rx_ring (eth s) i (rxq t)" "tx_ring (eth s) j (txq t)" using assms(1) unfolding traffic_rel_def by blast
  have rx: "rx_ring (tx_dma (eth s)) i (rxq t)" "bit (ENET_DMA_STAT (tx_dma (eth s))) 6 = bit (ENET_DMA_STAT (eth s)) 6"
    using rx_ring_same [OF tx_dma_same_rx r(1)] tx_dma_same_rx [of "eth s"] by (auto simp: same_rx_def)
  have "\<exists>j'. tx_ring (tx_dma (eth s)) j' (tl (txq t)) \<and> wire (tx_dma (eth s)) = wire (eth s) @ take 1 (txq t)"
  proof (cases "txq t")
    case Nil
    then show ?thesis using tx_dma_idle [of "eth s" j] r(2) by auto
  next
    case (Cons w ws)
    then show ?thesis using tx_dma_sends [of "eth s" j w ws] r(2) by auto
  qed
  then show ?thesis using assms(1) rx Frame_out by (auto simp: traffic_rel_def)
qed

lemma line_steps_rel:
  assumes "traffic_rel s t" and "\<forall>ev\<in>set evs. line_event_ok ev"
  shows "\<exists>s'. line_steps evs s = Some s' \<and> traffic_rel s' (fold fifo_line evs t)"
  using assms
proof (induction evs arbitrary: s t)
  case Nil
  then show ?case by simp
next
  case (Cons ev evs)
  then obtain s1 where "line_step ev s = Some s1" "traffic_rel s1 (fifo_line ev t)" using line_step_rel [of s t ev] by auto
  then show ?case using Cons.IH [of s1] Cons.prems(2) by simp
qed

lemma input_rel:
  assumes rel: "traffic_rel s t" and a: "alloc_ok alloc" and ok: "\<forall>lf\<in>set inside. line_ok lf"
  shows "\<exists>q e. low_level_input alloc inside (eth s) = Some (q, e) \<and> traffic_rel (s\<lparr>eth := e\<rparr>) (fifo_take inside t) \<and>
    map_option concat q = fifo_got alloc (rxq t)"
proof -
  obtain i j where r: "rx_ring (eth s) i (rxq t)" "tx_ring (eth s) j (txq t)" using rel unfolding traffic_rel_def by blast
  obtain q e i' where e: "low_level_input alloc inside (eth s) = Some (q, e)" "rx_ring e i' (tl (fold fifo_in inside (rxq t)))"
      "same_tx (eth s) e" "bit (ENET_DMA_STAT e) 6 = (bit (ENET_DMA_STAT (eth s)) 6 \<or> length (rxq t) < 5 \<and> inside \<noteq> [])"
      "map_option concat q = fifo_got alloc (rxq t)"
    using low_level_input_spec [OF r(1) ok a] by blast
  have "tx_ring e j (txq t)" "wire e = wire (eth s)" using tx_ring_same [OF e(3) r(2)] e(3) by (auto simp: same_tx_def)
  then show ?thesis using rel e by (auto simp: traffic_rel_def fifo_take_def)
qed

definition packets :: "((u8 list list \<times> bool) list \<times> ethernetif) option \<Rightarrow> ((u8 list \<times> bool) list \<times> traffic) option \<Rightarrow> bool" where
  "packets a b \<longleftrightarrow>
     (case b of None \<Rightarrow> a = None
      | Some (out, t) \<Rightarrow> (\<exists>out' s. a = Some (out', s) \<and> map (apfst concat) out' = out \<and> traffic_rel s t))"

lemma passes_rel:
  assumes "traffic_rel s t" and "\<forall>x\<in>set xs. pass_fine x"
  shows "packets (try_get_next_frame xs s) (fifo_passes xs t)"
  using assms
proof (induction xs arbitrary: s t)
  case Nil
  then show ?case by (simp add: packets_def)
next
  case (Cons x xs)
  have x: "alloc_ok (pass_alloc x)" "\<forall>lf\<in>set (pass_inside x). line_ok lf" "\<forall>ev\<in>set (pass_behind x). line_event_ok ev"
    using Cons.prems(2) by (auto simp: pass_fine_def)
  obtain q e where e: "low_level_input (pass_alloc x) (pass_inside x) (eth s) = Some (q, e)"
      "traffic_rel (s\<lparr>eth := e\<rparr>) (fifo_take (pass_inside x) t)" "map_option concat q = fifo_got (pass_alloc x) (rxq t)"
    using input_rel [OF Cons.prems(1) x(1,2)] by blast
  let ?t1 = "fold fifo_line (pass_behind x) (fifo_take (pass_inside x) t)"
  obtain s1 where s1: "line_steps (pass_behind x) (s\<lparr>eth := e\<rparr>) = Some s1" "traffic_rel s1 ?t1"
    using line_steps_rel [OF e(2) x(3)] by blast
  have ih: "packets (try_get_next_frame xs s1) (fifo_passes xs ?t1)" using Cons.IH [OF s1(2)] Cons.prems(2) by simp
  show ?case
  proof (cases q)
    case None
    then have "fifo_got (pass_alloc x) (rxq t) = None" using e(3) by simp
    then show ?thesis using None e(1) s1 by (simp add: packets_def Let_def)
  next
    case (Some p)
    then have g: "fifo_got (pass_alloc x) (rxq t) = Some (concat p)" using e(3) by simp
    show ?thesis
    proof (cases "pass_ok x")
      case True
      then show ?thesis using Some e(1) s1(1) g ih by (cases "fifo_passes xs ?t1") (auto simp: packets_def Let_def)
    next
      case False
      then show ?thesis using Some e(1) s1 g by (auto simp: packets_def Let_def)
    qed
  qed
qed

lemma turn_rel:
  assumes rel: "traffic_rel s t" and xs: "\<forall>x\<in>set xs. pass_fine x"
  shows "packets (ethernetif_input xs s) (fifo_step (Turn xs) t)"
proof -
  obtain q where q: "g_rx_semaphore s = Some q" "binary_sem (if sem_up t then 1 else 0) q" using rel unfolding traffic_rel_def by blast
  show ?thesis
  proof (cases "sem_up t")
    case True
    then obtain q' k' where k: "xQueueSemaphoreTake [] LOWLEVEL_INPUT_WAITING_TIME (q, eth_kernel s) = Some (True, q', k')" "binary_sem 0 q'"
      using q(2) binary_take_1 [of q "[]" LOWLEVEL_INPUT_WAITING_TIME "eth_kernel s"] by auto
    let ?s1 = "s\<lparr>g_rx_semaphore := Some q', eth_kernel := k'\<rparr>"
    have "traffic_rel ?s1 (t\<lparr>sem_up := False\<rparr>)" using rel k(2) by (auto simp: traffic_rel_def)
    then have "packets (try_get_next_frame xs ?s1) (fifo_passes xs (t\<lparr>sem_up := False\<rparr>))" using passes_rel xs by blast
    then show ?thesis using True q(1) k(1) by (simp add: ethernetif_input_def Let_def)
  next
    case False
    have "LOWLEVEL_INPUT_WAITING_TIME \<noteq> portMAX_DELAY" by (simp add: LOWLEVEL_INPUT_WAITING_TIME_def portMAX_DELAY_def)
    then have "xQueueSemaphoreTake [] LOWLEVEL_INPUT_WAITING_TIME (q, eth_kernel s) = Some (False, q, eth_kernel s)"
      using q(2) False binary_take_0 by simp
    moreover have "traffic_rel (s\<lparr>g_rx_semaphore := Some q\<rparr>) t" using rel q(1) by (simp add: traffic_rel_def)
    ultimately show ?thesis using False q(1) by (simp add: ethernetif_input_def packets_def Let_def)
  qed
qed

lemma output_rel:
  assumes rel: "traffic_rel s t" and p: "length (concat p) \<le> 1524"
  shows "\<exists>s'. low_level_output (Some block) waits (Suc steps) p s = Some (ERR_OK, s') \<and> traffic_rel s' (fifo_output (concat p) t)"
proof -
  obtain i j where r: "rx_ring (eth s) i (rxq t)" "tx_ring (eth s) j (txq t)" using rel unfolding traffic_rel_def by blast
  obtain q k where q: "(case s_tx_semaphore s of Some q \<Rightarrow> Some (Some q, eth_kernel s) | None \<Rightarrow> vSemaphoreCreateBinary (Some block) (eth_kernel s)) = Some (Some q, k)"
      "binary_sem 1 q"
  proof (cases "s_tx_semaphore s")
    case None
    then show thesis using that binary_new [of block "eth_kernel s"] by auto
  next
    case (Some q)
    then show thesis using that [of q "eth_kernel s"] rel by (simp add: traffic_rel_def)
  qed
  obtain q1 k1 where t1: "xQueueSemaphoreTake waits LOWLEVEL_OUTPUT_WAITING_TIME (q, k) = Some (True, q1, k1)" "binary_sem 0 q1"
    using binary_take_1 [OF q(2)] by blast
  obtain rr q2 k2 where t2: "xSemaphoreGive (q1, k1) = Some (rr, q2, k2)" "binary_sem 1 q2" using binary_give [OF t1(2)] by blast
  have "\<exists>e j'. output_frame (Suc steps) p (eth s) = Some (SUCCESS, e) \<and> same_rx (eth s) e \<and> tx_ring e j' (txq (fifo_output (concat p) t)) \<and>
      wire e = sent (fifo_output (concat p) t)"
  proof (cases "length (txq t) < 5")
    case True
    then show ?thesis using output_frame_room [OF r(2) True p, of "Suc steps"] rel by (auto simp: fifo_output_def traffic_rel_def)
  next
    case False
    then have "length (txq t) = 5" using tx_ring_bound [OF r(2)] by simp
    then obtain w ws where ws: "txq t = w # ws" "length ws = 4" by (cases "txq t") auto
    then show ?thesis using output_frame_full [of "eth s" j w ws p] r(2) p rel by (auto simp: fifo_output_def traffic_rel_def)
  qed
  then obtain e j' where e: "output_frame (Suc steps) p (eth s) = Some (SUCCESS, e)" "same_rx (eth s) e"
      "tx_ring e j' (txq (fifo_output (concat p) t))" "wire e = sent (fifo_output (concat p) t)" by blast
  have "rx_ring e i (rxq t)" "bit (ENET_DMA_STAT e) 6 = bit (ENET_DMA_STAT (eth s)) 6"
    using rx_ring_same [OF e(2) r(1)] e(2) by (auto simp: same_rx_def)
  moreover have "rxq (fifo_output (concat p) t) = rxq t" "irq_due (fifo_output (concat p) t) = irq_due t" "sem_up (fifo_output (concat p) t) = sem_up t"
    by (simp_all add: fifo_output_def)
  ultimately have "traffic_rel (s\<lparr>eth := e, s_tx_semaphore := Some q2, eth_kernel := k2\<rparr>) (fifo_output (concat p) t)"
    using rel e(3,4) t2(2) by (auto simp: traffic_rel_def)
  then show ?thesis using q(1) t1(1) t2(1) e(1) by (simp add: low_level_output_def)
qed

lemma step_rel:
  assumes "traffic_rel s t" and "op_fine x"
  shows "packets (eth_step x s) (fifo_step x t)"
proof (cases x)
  case (Line ev)
  then show ?thesis using line_step_rel [of s t ev] assms by (auto simp: packets_def)
next
  case (Turn xs)
  then show ?thesis using turn_rel [of s t xs] assms by simp
next
  case (Output p)
  then show ?thesis using output_rel [of s t p "[]" "[]" 0] assms by (auto simp: packets_def)
qed

lemma run_rel:
  assumes "traffic_rel s t" and "\<forall>x\<in>set h. op_fine x"
  shows "packets (eth_run h s) (traffic_run h t)"
  using assms
proof (induction h arbitrary: s t)
  case Nil
  then show ?case by (simp add: packets_def)
next
  case (Cons x xs)
  have p: "packets (eth_step x s) (fifo_step x t)" using step_rel Cons.prems by simp
  show ?case
  proof (cases "fifo_step x t")
    case None
    then show ?thesis using p by (simp add: packets_def)
  next
    case (Some r)
    then obtain out t1 where f: "fifo_step x t = Some (out, t1)" by (cases r) auto
    then obtain out' s1 where s1: "eth_step x s = Some (out', s1)" "map (apfst concat) out' = out" "traffic_rel s1 t1"
      using p by (auto simp: packets_def)
    have "packets (eth_run xs s1) (traffic_run xs t1)" using Cons.IH [OF s1(3)] Cons.prems(2) by simp
    then show ?thesis using f s1 by (cases "traffic_run xs t1") (auto simp: packets_def)
  qed
qed

end
