(* ===== verification/EthernetService.thy ===== *)
theory EthernetService
  imports EthernetRefine
begin

text \<open>
  What the rest of the firmware can rely on: after initialisation the interface behaves as its two queues; reception
  never stalls for good; frames are sent whole and in order. Two limits of the code are stated as well: a frame that arrives at the wrong moment is lost, and
  a packet that is too long stops the caller for ever.
\<close>

section \<open>After initialisation\<close>

definition enet_reset :: "enet \<Rightarrow> bool" where
  "enet_reset e \<longleftrightarrow> length (rx_buff e) = 5 * ENET_MAX_FRAME_SIZE \<and> length (tx_buff e) = 5 * ENET_MAX_FRAME_SIZE \<and>
     \<not> rx_suspended e \<and> \<not> tx_suspended e \<and> \<not> bit (ENET_DMA_STAT e) 6 \<and> \<not> bit (ENET_DMA_STAT e) 7"

definition quiet :: "u8 list list \<Rightarrow> traffic" where
  "quiet ws = \<lparr>rxq = [], txq = [], sent = ws, irq_due = False, sem_up = False\<rparr>"

lemma less_5: "j < 5 \<longleftrightarrow> j = 0 \<or> j = 1 \<or> j = 2 \<or> j = 3 \<or> j = (4 :: nat)"
  by auto

lemma prepared_rx:
  assumes "j < 5"
  shows "rxdesc_tab (enet_enable (enet_prepare e)) ! j =
    \<lparr>status = ENET_RDES0_DAV, control_buffer_size = (ENET_RDES1_RCHM OR 1524) AND NOT ENET_RDES1_DINTC,
     buffer1_addr = j * ENET_MAX_FRAME_SIZE, buffer2_next_desc_addr = ((j + 1) mod 5) * ETH_DMADESC_SIZE\<rparr>"
  using assms
  by (auto simp: less_5 enet_enable_def enet_rx_enable_def enet_tx_enable_def enet_prepare_def Let_def enet_descriptors_chain_init_def
      chain_desc_def enet_rx_desc_immediate_receive_complete_interrupt_def enet_sizes upt_rec)

lemma prepared_tx:
  assumes "j < 5"
  shows "txdesc_tab (enet_enable (enet_prepare e)) ! j =
    \<lparr>status = ENET_TDES0_TCHM AND NOT ENET_TDES0_CM OR ENET_CHECKSUM_TCPUDPICMP_FULL, control_buffer_size = 0,
     buffer1_addr = j * ENET_MAX_FRAME_SIZE, buffer2_next_desc_addr = ((j + 1) mod 5) * ETH_DMADESC_SIZE\<rparr>"
  using assms
  by (auto simp: less_5 enet_enable_def enet_rx_enable_def enet_tx_enable_def enet_prepare_def Let_def enet_descriptors_chain_init_def
      chain_desc_def enet_transmit_checksum_config_def enet_sizes upt_rec)

lemma prepared_other:
  "length (rxdesc_tab (enet_enable (enet_prepare e))) = 5" "length (txdesc_tab (enet_enable (enet_prepare e))) = 5"
  "rx_buff (enet_enable (enet_prepare e)) = rx_buff e" "tx_buff (enet_enable (enet_prepare e)) = tx_buff e"
  "dma_current_rxdesc (enet_enable (enet_prepare e)) = 0" "dma_current_txdesc (enet_enable (enet_prepare e)) = 0"
  "hw_rx (enet_enable (enet_prepare e)) = 0" "hw_tx (enet_enable (enet_prepare e)) = 0"
  "bit (ENET_DMA_CTL (enet_enable (enet_prepare e))) 1" "bit (ENET_DMA_CTL (enet_enable (enet_prepare e))) 13"
  "ENET_DMA_STAT (enet_enable (enet_prepare e)) = ENET_DMA_STAT e" "wire (enet_enable (enet_prepare e)) = wire e"
  "rx_suspended (enet_enable (enet_prepare e)) = rx_suspended e" "tx_suspended (enet_enable (enet_prepare e)) = tx_suspended e"
  by (simp_all add: enet_enable_def enet_rx_enable_def enet_tx_enable_def enet_prepare_def Let_def enet_descriptors_chain_init_def
      enet_sizes enet_bits bit_simps)

lemma prepared_rings:
  assumes "enet_reset e"
  shows "rx_ring (enet_enable (enet_prepare e)) 0 []" and "tx_ring (enet_enable (enet_prepare e)) 0 []"
proof -
  let ?e = "enet_enable (enet_prepare e)"
  have "bit ENET_RDES0_DAV 31" by (simp add: enet_bits)
  moreover have "bit ((ENET_RDES1_RCHM OR 1524) AND NOT ENET_RDES1_DINTC) 14" "\<not> bit ((ENET_RDES1_RCHM OR 1524) AND NOT ENET_RDES1_DINTC) 31"
    by (simp_all add: enet_bits bit_simps)
  ultimately have "rx_desc_ok (ENET_MAC_CFG ?e) j (rxdesc_tab ?e ! j) \<and> rx_slot ?e j = None" if "j < 5" for j
    using that by (simp add: prepared_rx rx_desc_ok_def desc_chained_def rx_slot_def)
  then show "rx_ring ?e 0 []"
    using assms prepared_other(9) [of e] by (simp add: rx_ring_def prepared_other enet_reset_def ring_holds_def)
  have "bit (ENET_TDES0_TCHM AND NOT ENET_TDES0_CM OR ENET_CHECKSUM_TCPUDPICMP_FULL) 20"
    "\<not> bit (ENET_TDES0_TCHM AND NOT ENET_TDES0_CM OR ENET_CHECKSUM_TCPUDPICMP_FULL) 31"
    by (simp_all add: enet_bits ENET_TDES0_CM_def ENET_CHECKSUM_TCPUDPICMP_FULL_def bit_simps bit_BITS)
  then have "tx_desc_ok j (txdesc_tab ?e ! j) \<and> tx_slot ?e j = None" if "j < 5" for j
    using that by (simp add: prepared_tx tx_desc_ok_def desc_chained_def tx_slot_def)
  then show "tx_ring ?e 0 []"
    using assms by (simp add: tx_ring_def prepared_other enet_reset_def ring_holds_def)
qed

lemma initialised:
  assumes "enet_reset (eth s)" and "g_rx_semaphore s = None" and "s_tx_semaphore s = None"
  shows "\<exists>n' s'. ethernetif_init (Some block) n s = Some (ERR_OK, n', s') \<and> traffic_rel s' (quiet (wire (eth s)))"
proof -
  obtain q k where q: "vSemaphoreCreateBinary (Some block) (eth_kernel s) = Some (Some q, k)" "binary_sem 1 q"
    using binary_new by blast
  obtain q' k' where t: "xQueueSemaphoreTake [] 0 (q, k) = Some (True, q', k')" "binary_sem 0 q'" using binary_take_1 [OF q(2)] by blast
  show ?thesis
    using assms q t prepared_rings [OF assms(1)]
    by (auto simp: ethernetif_init_def low_level_init_def create_rx_semaphore_def enet_mac_address_set_def Let_def
        traffic_rel_def quiet_def prepared_other enet_reset_def)
qed

text \<open>The address registers hold the address that was written.\<close>

lemma mac_address_roundtrip:
  assumes "length a = 6"
  shows "enet_mac_address_get (enet_mac_address_set a s) 6 = Some a"
proof -
  obtain a0 a1 a2 a3 a4 a5 where a: "a = [a0, a1, a2, a3, a4, a5]"
    using assms by (auto simp: length_Suc_conv eval_nat_numeral)
  have m: "(0xFF :: u32) = mask 8" by (simp add: mask_eq_exp_minus_1)
  show ?thesis
    by (simp add: enet_mac_address_get_def enet_mac_address_set_def ENET_GET_MACADDR_def a upt_rec)
       (intro conjI bit_eqI; auto simp: bit_simps m dest: bit_imp_le_length)
qed

section \<open>Reception never stalls\<close>

text \<open>The frames that wait in the ring of the receiver.\<close>

definition rx_pending :: "enet \<Rightarrow> u8 list list" where
  "rx_pending e =
     map the (takeWhile (\<lambda>x. x \<noteq> None) (map (\<lambda>k. rx_slot e ((dma_current_rxdesc e div ETH_DMADESC_SIZE + k) mod 5)) [0..<5]))"

lemma rx_pending_ring:
  assumes "rx_ring e i fs"
  shows "rx_pending e = fs"
proof -
  have h: "i < 5" "length fs \<le> 5" "\<And>k. k < 5 \<Longrightarrow> rx_slot e ((i + k) mod 5) = (if k < length fs then Some (fs ! k) else None)"
    using assms unfolding rx_ring_def ring_holds_def by blast+
  have "map (\<lambda>k. rx_slot e ((i + k) mod 5)) [0..<5] = map Some fs @ replicate (5 - length fs) None"
    by (rule nth_equalityI) (use h(2,3) in \<open>auto simp: nth_append\<close>)
  moreover have "takeWhile (\<lambda>x. x \<noteq> None) (map Some fs @ replicate m None) = map Some fs" for m
    by (subst takeWhile_append2) (auto simp: takeWhile_eq_Nil_iff)
  moreover have "dma_current_rxdesc e div ETH_DMADESC_SIZE = i" using assms by (simp add: rx_ring_def enet_sizes)
  ultimately show ?thesis by (simp add: rx_pending_def comp_def)
qed

lemma rel_pending: "traffic_rel s t \<Longrightarrow> rx_pending (eth s) = rxq t"
  using rx_pending_ring by (auto simp: traffic_rel_def)

lemma rel_wire: "traffic_rel s t \<Longrightarrow> wire (eth s) = sent t"
  by (simp add: traffic_rel_def)

text \<open>On the abstract machine: a full queue always has an interrupt or the semaphore due.\<close>

definition awake :: "traffic \<Rightarrow> bool" where
  "awake t \<longleftrightarrow> length (rxq t) \<le> 5 \<and> (length (rxq t) = 5 \<longrightarrow> irq_due t \<or> sem_up t)"

lemma fifo_in_length: "length fs \<le> 5 \<Longrightarrow> length (fifo_in lf fs) \<le> 5"
  by (simp add: fifo_in_def)

lemma fold_fifo_in_length: "length fs \<le> 5 \<Longrightarrow> length (fold fifo_in lfs fs) \<le> 5"
  by (induction lfs arbitrary: fs) (simp_all add: fifo_in_length)

lemma awake_line: "awake t \<Longrightarrow> awake (fifo_line ev t)"
  by (cases ev) (auto simp: awake_def fifo_in_def)

lemma awake_lines: "awake t \<Longrightarrow> awake (fold fifo_line evs t)"
  by (induction evs arbitrary: t) (simp_all add: awake_line)

lemma awake_take: "length (rxq t) \<le> 5 \<Longrightarrow> awake (fifo_take inside t)"
  using fold_fifo_in_length [of "rxq t" inside] by (auto simp: awake_def fifo_take_def)

lemma awake_passes: "length (rxq t) \<le> 5 \<Longrightarrow> fifo_passes xs t = Some (out, t') \<Longrightarrow> awake t'"
proof (induction xs arbitrary: t out)
  case (Cons x xs)
  have a: "awake (fold fifo_line (pass_behind x) (fifo_take (pass_inside x) t))"
    by (intro awake_lines awake_take Cons.prems(1))
  then have "length (rxq (fold fifo_line (pass_behind x) (fifo_take (pass_inside x) t))) \<le> 5" by (simp add: awake_def)
  with a Cons show ?case by (auto simp: Let_def split: option.splits if_splits)
qed simp

lemma awake_step: "awake t \<Longrightarrow> fifo_step x t = Some (out, t') \<Longrightarrow> awake t'"
proof (cases x)
  case (Turn xs)
  assume a: "awake t" "fifo_step x t = Some (out, t')"
  have "length (rxq (t\<lparr>sem_up := False\<rparr>)) \<le> 5" using a(1) by (simp add: awake_def)
  from awake_passes [OF this] show ?thesis using a Turn by (auto split: if_splits)
qed (auto simp: awake_line, auto simp: awake_def fifo_output_def)

lemma awake_run: "awake t \<Longrightarrow> traffic_run h t = Some (out, t') \<Longrightarrow> awake t'"
proof (induction h arbitrary: t out)
  case (Cons x xs)
  obtain out1 t1 out2 where "fifo_step x t = Some (out1, t1)" "traffic_run xs t1 = Some (out2, t')"
    using Cons.prems(2) by (auto split: option.splits)
  then show ?case using Cons.IH [of t1] awake_step Cons.prems(1) by blast
qed simp

text \<open>Passes that get memory and a stack that accepts packets, with no further frames meanwhile.\<close>

definition good_pass :: "(nat \<Rightarrow> nat list option) \<Rightarrow> input_pass" where
  "good_pass alloc = \<lparr>pass_alloc = alloc, pass_inside = [], pass_behind = [], pass_ok = True\<rparr>"

definition plenty :: "(nat \<Rightarrow> nat list option) \<Rightarrow> bool" where
  "plenty alloc \<longleftrightarrow> alloc_ok alloc \<and> (\<forall>n. alloc n \<noteq> None)"

lemma good_passes:
  assumes "plenty alloc" and "length (rxq t) \<le> n"
  shows "fifo_passes (replicate (Suc n) (good_pass alloc)) t = Some (map (\<lambda>f. (f, True)) (rxq t), t\<lparr>rxq := []\<rparr>)"
  using assms(2)
proof (induction n arbitrary: t)
  case 0
  then show ?case by (simp add: good_pass_def fifo_take_def fifo_got_def)
next
  case (Suc n)
  show ?case
  proof (cases "rxq t")
    case Nil
    then show ?thesis by (simp add: good_pass_def fifo_take_def fifo_got_def)
  next
    case (Cons f fs)
    have "fifo_passes (replicate (Suc n) (good_pass alloc)) (t\<lparr>rxq := fs\<rparr>) = Some (map (\<lambda>f. (f, True)) fs, t\<lparr>rxq := []\<rparr>)"
      using Suc.IH [of "t\<lparr>rxq := fs\<rparr>"] Suc.prems Cons by simp
    then show ?thesis
      using Cons assms(1) by (simp add: good_pass_def fifo_take_def fifo_got_def plenty_def)
  qed
qed

lemma wake_up:
  assumes "awake t" and "plenty alloc"
  shows "traffic_run [Line (Frame_in lf), Line Interrupt, Turn (replicate 6 (good_pass alloc))] t =
    Some (map (\<lambda>f. (f, True)) (fifo_in lf (rxq t)), t\<lparr>rxq := [], irq_due := False, sem_up := False\<rparr>)"
proof -
  let ?t1 = "fifo_line Interrupt (fifo_line (Frame_in lf) t)"
  have s: "sem_up ?t1" using assms(1) by (auto simp: awake_def)
  have l: "length (rxq (?t1\<lparr>sem_up := False\<rparr>)) \<le> 5" using assms(1) fifo_in_length by (simp add: awake_def)
  have "fifo_passes (replicate 6 (good_pass alloc)) (?t1\<lparr>sem_up := False\<rparr>) =
      Some (map (\<lambda>f. (f, True)) (fifo_in lf (rxq t)), t\<lparr>rxq := [], irq_due := False, sem_up := False\<rparr>)"
    using good_passes [OF assms(2) l] by (simp add: numeral_eq_Suc)
  then show ?thesis using s by simp
qed

section \<open>Frames to send\<close>

fun outputs :: "eth_op list \<Rightarrow> u8 list list" where
  "outputs [] = []"
| "outputs (Output p # h) = concat p # outputs h"
| "outputs (x # h) = outputs h"

definition line_out :: "traffic \<Rightarrow> u8 list list" where "line_out t = sent t @ txq t"

lemma line_out_line: "line_out (fifo_line ev t) = line_out t \<and> (length (txq t) \<le> 5 \<longrightarrow> length (txq (fifo_line ev t)) \<le> 5)"
  by (cases ev; cases "txq t") (auto simp: line_out_def)

lemma line_out_lines: "line_out (fold fifo_line evs t) = line_out t \<and> (length (txq t) \<le> 5 \<longrightarrow> length (txq (fold fifo_line evs t)) \<le> 5)"
proof (induction evs arbitrary: t)
  case (Cons ev evs)
  then show ?case using line_out_line [of ev t] by auto
qed simp

lemma line_out_passes:
  "fifo_passes xs t = Some (out, t') \<Longrightarrow> length (txq t) \<le> 5 \<Longrightarrow> line_out t' = line_out t \<and> length (txq t') \<le> 5"
proof (induction xs arbitrary: t out)
  case (Cons x xs)
  let ?t1 = "fold fifo_line (pass_behind x) (fifo_take (pass_inside x) t)"
  have "line_out ?t1 = line_out t \<and> length (txq ?t1) \<le> 5"
    using line_out_lines [of "pass_behind x" "fifo_take (pass_inside x) t"] Cons.prems(2) by (simp add: fifo_take_def line_out_def)
  then show ?case using Cons.prems(1) Cons.IH [of ?t1] by (auto simp: Let_def split: option.splits if_splits)
qed simp

lemma line_out_run:
  "traffic_run h t = Some (out, t') \<Longrightarrow> length (txq t) \<le> 5 \<Longrightarrow> line_out t' = line_out t @ outputs h \<and> length (txq t') \<le> 5"
proof (induction h arbitrary: t out)
  case (Cons x xs)
  obtain out1 t1 out2 where s: "fifo_step x t = Some (out1, t1)" "traffic_run xs t1 = Some (out2, t')"
    using Cons.prems(1) by (auto split: option.splits)
  have "line_out t1 = line_out t @ outputs [x] \<and> length (txq t1) \<le> 5"
  proof (cases x)
    case (Line ev)
    then show ?thesis using s(1) line_out_line [of ev t] Cons.prems(2) by auto
  next
    case (Turn ys)
    then show ?thesis
      using s(1) line_out_passes [of ys "t\<lparr>sem_up := False\<rparr>" out1 t1] Cons.prems(2) by (auto simp: line_out_def split: if_splits)
  next
    case (Output p)
    then show ?thesis using s(1) Cons.prems(2) by (cases "txq t") (auto simp: fifo_output_def line_out_def)
  qed
  moreover have "outputs (x # xs) = outputs [x] @ outputs xs" by (cases x) auto
  ultimately show ?case using Cons.IH [OF s(2)] by simp
qed simp

lemma drain:
  "length (txq t) \<le> n \<Longrightarrow> traffic_run (replicate n (Line Frame_out)) t = Some ([], t\<lparr>txq := [], sent := line_out t\<rparr>)"
proof (induction n arbitrary: t)
  case (Suc n)
  have "length (txq (fifo_line Frame_out t)) \<le> n" using Suc.prems by (cases "txq t") auto
  from Suc.IH [OF this] show ?case by (cases "txq t") (auto simp: line_out_def)
qed (simp add: line_out_def)

text \<open>A chain that does not fit into a buffer.\<close>

lemma copy_chain_length:
  assumes "copy_chain p b fl mem = Some (fl', mem')" and "length mem < 2 ^ 16"
  shows "unat fl' = unat fl + length (concat p) \<and> length mem' = length mem"
  using assms
proof (induction p arbitrary: fl mem)
  case (Cons q qs)
  have room: "b + unat fl + length q \<le> length mem" using Cons.prems(1) by (auto split: if_splits)
  have "unat (word_of_nat (length q) :: u16) = length q" by (rule word_of_nat_eq_nat_iff) (use room Cons.prems(2) in simp)
  then have "unat (fl + word_of_nat (length q)) = unat fl + length q" using room Cons.prems(2) by (subst unat_add_small) auto
  then show ?case using Cons.IH [of "fl + word_of_nat (length q)" "store_at (b + unat fl) q mem"] Cons.prems room by simp
qed simp

lemma tx_wait_buff: "tx_wait n e = Some e' \<Longrightarrow> tx_buff e' = tx_buff e"
proof (induction n arbitrary: e)
  case 0
  then show ?case by (auto simp: tx_wait.simps [of 0] split: option.splits if_splits)
next
  case (Suc n)
  have "tx_buff (tx_dma e) = tx_buff e" by (auto simp: tx_dma_def split: option.splits)
  then show ?case using Suc by (auto simp: tx_wait.simps [of "Suc n"] split: option.splits if_splits)
qed

lemma output_frame_long:
  assumes "1524 < length (concat p)" and "length (tx_buff e) = 5 * ENET_MAX_FRAME_SIZE" and "output_frame steps p e = Some (r, e')"
  shows "r = ERROR"
proof -
  obtain e1 d fl mem where o: "tx_wait steps e = Some e1" "copy_chain p (unat (enet_desc_information_get d TXDESC_BUFFER_1_ADDR e1)) 0 (tx_buff e1) = Some (fl, mem)"
      "enet_frame_transmit None (ucast fl) (e1\<lparr>tx_buff := mem\<rparr>) = Some (r, e')"
    using assms(3) by (auto simp: output_frame_def split: option.splits)
  have "unat fl = length (concat p)"
    using copy_chain_length [OF o(2)] tx_wait_buff [OF o(1)] assms(2) by (simp add: enet_sizes)
  moreover have "unat (ucast fl :: u32) = unat fl"
    by (simp add: unsigned_ucast_eq take_bit_nat_eq_self unsigned_less [of fl, THEN order.strict_trans])
  ultimately show ?thesis
    using o(3) assms(1) by (auto simp: enet_frame_transmit_def enet_sizes split: option.splits if_splits)
qed

section \<open>Properties\<close>

lemma run_from_init:
  assumes "enet_reset (eth s)" and "g_rx_semaphore s = None" and "s_tx_semaphore s = None" and "\<forall>x\<in>set h. op_fine x"
    and "ethernetif_init (Some block) n s = Some (ERR_OK, n', s0)" and "eth_run h s0 = Some (out, s1)"
  obtains t out' where "traffic_run h (quiet (wire (eth s))) = Some (out', t)" and "traffic_rel s1 t"
proof -
  have "traffic_rel s0 (quiet (wire (eth s)))" using initialised [OF assms(1-3), of block n] assms(5) by auto
  then have "packets (eth_run h s0) (traffic_run h (quiet (wire (eth s))))" using run_rel assms(4) by blast
  then show thesis using that assms(6) by (auto simp: packets_def split: option.splits)
qed

text \<open>A state before initialisation, for the examples.\<close>

definition enet_blank :: enet where
  "enet_blank = \<lparr>rxdesc_tab = [], txdesc_tab = [], rx_buff = replicate 7620 0, tx_buff = replicate 7620 0, dma_current_rxdesc = 0,
     dma_current_txdesc = 0, ENET_MAC_CFG = 0, ENET_DMA_CTL = 0, ENET_DMA_STAT = 0, ENET_DMA_BCTL = 0, ENET_DMA_RDTADDR = 0,
     ENET_DMA_TDTADDR = 0, hw_rx = 0, hw_tx = 0, rx_suspended = False, tx_suspended = False, wire = []\<rparr>"

definition ethernetif_blank :: ethernetif where
  "ethernetif_blank = \<lparr>eth = enet_blank, low_netif = None, g_rx_semaphore = None, s_tx_semaphore = None, eth_kernel = scheduler_sample,
     eth_tasks = [], ENET_MAC_ADDR0H = 0, ENET_MAC_ADDR0L = 0\<rparr>"

definition netif_blank :: netif where
  "netif_blank = \<lparr>hwaddr = [], hwaddr_len = 0, mtu = 0, flags = 0, netif_name = []\<rparr>"

lemma blank_reset [simp]:
  "enet_reset (eth ethernetif_blank)" "g_rx_semaphore ethernetif_blank = None" "s_tx_semaphore ethernetif_blank = None"
  "wire (eth ethernetif_blank) = []" "length (tx_buff (eth ethernetif_blank)) = 7620"
  by (simp_all add: enet_reset_def ethernetif_blank_def enet_blank_def enet_sizes)

definition one_segment :: "nat \<Rightarrow> nat list option" where "one_segment n = Some [n]"

lemma plenty_one_segment [simp]: "plenty one_segment" "alloc_ok one_segment"
  by (simp_all add: plenty_def alloc_ok_def one_segment_def)

definition ping :: line_frame where "ping = (True, replicate 60 7, [1, 2, 3, 4])"

lemma ping_ok [simp]: "line_ok ping" "fst (snd ping) = replicate 60 7"
  by (simp_all add: ping_def line_ok_def frame_ok_def enet_sizes)

lemma good_pass_fine [simp]: "plenty alloc \<Longrightarrow> pass_fine (good_pass alloc)"
  by (simp add: pass_fine_def good_pass_def plenty_def)

text \<open>
  Claim C10: After initialisation, every history of received frames, interrupts, turns of the input task, packets to send and frames sent by the
  controller has on the descriptor rings, the buffers, the registers and the semaphores exactly the effect it has on two queues of at most five frames:
  the same packets reach the network stack, byte for byte and in the same order, the same frames wait, and the same frames go out.
\<close>

theorem ethernet_refines_fifos:
  assumes "enet_reset (eth s)" and "g_rx_semaphore s = None" and "s_tx_semaphore s = None" and "\<forall>x\<in>set h. op_fine x"
  shows "\<exists>n' s0. ethernetif_init (Some block) n s = Some (ERR_OK, n', s0) \<and>
    (case traffic_run h (quiet (wire (eth s))) of
       None \<Rightarrow> eth_run h s0 = None
     | Some (out, t) \<Rightarrow> \<exists>out' s1. eth_run h s0 = Some (out', s1) \<and> map (apfst concat) out' = out \<and>
         rx_pending (eth s1) = rxq t \<and> wire (eth s1) = sent t)"
proof -
  obtain n' s0 where i: "ethernetif_init (Some block) n s = Some (ERR_OK, n', s0)" "traffic_rel s0 (quiet (wire (eth s)))"
    using initialised [OF assms(1-3)] by blast
  have "packets (eth_run h s0) (traffic_run h (quiet (wire (eth s))))" using run_rel [OF i(2) assms(4)] .
  then show ?thesis
    using i(1) by (auto simp: packets_def dest: rel_pending rel_wire split: option.splits)
qed

theorem ethernet_refines_fifos_witness:
  "\<exists>n' s0 out' s1. ethernetif_init (Some []) netif_blank ethernetif_blank = Some (ERR_OK, n', s0) \<and>
     eth_run [Line (Frame_in ping), Line Interrupt, Output [[1, 2], [3]], Turn (replicate 6 (good_pass one_segment)), Line Frame_out] s0 = Some (out', s1) \<and>
     map (apfst concat) out' = [(replicate 60 7, True)] \<and> wire (eth s1) = [[1, 2, 3]]"
proof -
  let ?h = "[Line (Frame_in ping), Line Interrupt, Output [[1, 2], [3]], Turn (replicate 6 (good_pass one_segment)), Line Frame_out]"
  have "\<forall>x\<in>set ?h. op_fine x" by simp
  moreover have "fifo_passes (replicate 6 (good_pass one_segment)) t = Some (map (\<lambda>f. (f, True)) (rxq t), t\<lparr>rxq := []\<rparr>)"
    if "length (rxq t) \<le> 5" for t
    using good_passes [OF plenty_one_segment(1) that] by (simp add: numeral_eq_Suc)
  then have "traffic_run ?h (quiet (wire (eth ethernetif_blank))) = Some ([(replicate 60 7, True)],
      \<lparr>rxq = [], txq = [], sent = [[1, 2, 3]], irq_due = False, sem_up = False\<rparr>)"
    by (simp add: quiet_def fifo_in_def fifo_output_def)
  ultimately show ?thesis
    using ethernet_refines_fifos [OF blank_reset(1-3), of ?h "[]" netif_blank] by (auto simp del: eth_run.simps)
qed

text \<open>
  Claim C19: Reception never stalls for good. Whatever happened since initialisation - memory that ran out, packets the stack refused, a
  ring that ran full - the next frame makes the task, once the interrupt has been served and memory is there, pass on every waiting frame in order, and that
  frame too if a descriptor was free for it; nothing is left waiting.
\<close>

theorem ethernet_rx_resumes:
  assumes "enet_reset (eth s)" and "g_rx_semaphore s = None" and "s_tx_semaphore s = None" and "\<forall>x\<in>set h. op_fine x"
    and "ethernetif_init (Some block) n s = Some (ERR_OK, n', s0)" and "eth_run h s0 = Some (out, s1)"
    and "line_ok lf" and "plenty alloc"
  shows "\<exists>out' s2. eth_run [Line (Frame_in lf), Line Interrupt, Turn (replicate 6 (good_pass alloc))] s1 = Some (out', s2) \<and>
    map (apfst concat) out' = map (\<lambda>f. (f, True)) (fifo_in lf (rx_pending (eth s1))) \<and> rx_pending (eth s2) = []"
proof -
  obtain t outa where t: "traffic_run h (quiet (wire (eth s))) = Some (outa, t)" "traffic_rel s1 t"
    by (rule run_from_init [OF assms(1-6)])
  have "awake (quiet (wire (eth s)))" by (simp add: awake_def quiet_def)
  then have "awake t" using awake_run t(1) by blast
  moreover have "packets (eth_run [Line (Frame_in lf), Line Interrupt, Turn (replicate 6 (good_pass alloc))] s1)
      (traffic_run [Line (Frame_in lf), Line Interrupt, Turn (replicate 6 (good_pass alloc))] t)"
    by (rule run_rel [OF t(2)]) (use assms(7,8) in simp)
  ultimately show ?thesis
    unfolding wake_up [OF \<open>awake t\<close> assms(8)] using rel_pending [OF t(2)] rel_pending by (fastforce simp: packets_def)
qed

theorem ethernet_rx_resumes_witness:
  "\<exists>n' s0 out' s2. ethernetif_init (Some []) netif_blank ethernetif_blank = Some (ERR_OK, n', s0) \<and>
     eth_run [Line (Frame_in ping), Line Interrupt, Turn (replicate 6 (good_pass one_segment))] s0 = Some (out', s2) \<and>
     map (apfst concat) out' = [(replicate 60 7, True)] \<and> rx_pending (eth s2) = []"
proof -
  obtain n' s0 where i: "ethernetif_init (Some []) netif_blank ethernetif_blank = Some (ERR_OK, n', s0)"
      "traffic_rel s0 (quiet (wire (eth ethernetif_blank)))"
    using initialised [OF blank_reset(1-3)] by blast
  have "rx_pending (eth s0) = []" using rel_pending [OF i(2)] by (simp add: quiet_def)
  then show ?thesis
    using ethernet_rx_resumes [OF blank_reset(1-3) _ i(1), of "[]" "[]" s0 ping one_segment] i(1) by (simp add: fifo_in_def)
qed

text \<open>
  Claim C33: Packets are sent whole, once and in order. In every history after initialisation the frames on the wire followed by at most five waiting frames are
  the packets given to the output function, each the concatenation of its chain; five steps of the transmitter later all of them are on the wire.
\<close>

theorem ethernet_tx_in_order:
  assumes "enet_reset (eth s)" and "g_rx_semaphore s = None" and "s_tx_semaphore s = None" and "\<forall>x\<in>set h. op_fine x"
    and "ethernetif_init (Some block) n s = Some (ERR_OK, n', s0)" and "eth_run h s0 = Some (out, s1)"
  shows "(\<exists>ws. length ws \<le> 5 \<and> wire (eth s1) @ ws = wire (eth s) @ outputs h) \<and>
    (\<exists>s2. eth_run (replicate 5 (Line Frame_out)) s1 = Some ([], s2) \<and> wire (eth s2) = wire (eth s) @ outputs h)"
proof -
  obtain t outa where t: "traffic_run h (quiet (wire (eth s))) = Some (outa, t)" "traffic_rel s1 t"
    by (rule run_from_init [OF assms(1-6)])
  have l: "line_out t = wire (eth s) @ outputs h" "length (txq t) \<le> 5"
    using line_out_run [OF t(1)] by (simp_all add: quiet_def line_out_def)
  have "packets (eth_run (replicate 5 (Line Frame_out)) s1) (traffic_run (replicate 5 (Line Frame_out)) t)"
    by (rule run_rel [OF t(2)]) simp
  then have "\<exists>s2. eth_run (replicate 5 (Line Frame_out)) s1 = Some ([], s2) \<and> wire (eth s2) = line_out t"
    unfolding drain [OF l(2)] by (auto simp: packets_def traffic_rel_def)
  moreover have "wire (eth s1) @ txq t = line_out t" using t(2) by (simp add: traffic_rel_def line_out_def)
  ultimately show ?thesis using l by auto
qed

theorem ethernet_tx_in_order_witness:
  "\<exists>n' s0 out s1 s2. ethernetif_init (Some []) netif_blank ethernetif_blank = Some (ERR_OK, n', s0) \<and>
     eth_run [Output [[1, 2], [3]], Output [[4]]] s0 = Some (out, s1) \<and>
     eth_run (replicate 5 (Line Frame_out)) s1 = Some ([], s2) \<and> wire (eth s2) = [[1, 2, 3], [4]]"
proof -
  let ?h = "[Output [[1, 2], [3]], Output [[4]]]"
  obtain n' s0 where i: "ethernetif_init (Some []) netif_blank ethernetif_blank = Some (ERR_OK, n', s0)"
      "traffic_rel s0 (quiet (wire (eth ethernetif_blank)))"
    using initialised [OF blank_reset(1-3)] by blast
  have f: "\<forall>x\<in>set ?h. op_fine x" by simp
  obtain out s1 where r: "eth_run ?h s0 = Some (out, s1)"
    using run_rel [OF i(2) f] by (auto simp: packets_def)
  show ?thesis using ethernet_tx_in_order [OF blank_reset(1-3) f i(1) r] i(1) r by auto
qed

text \<open>
  Claim C34: The ownership of the current receive descriptor is only checked after its length has been read. If the ring is empty and a frame arrives between the two,
  the input function finds no frame, but hands the descriptor with the new frame back to the controller: the frame is lost, although the ring was
  empty. The same frame a moment earlier would wait in the ring.
\<close>

theorem ethernet_race_loses_frame:
  assumes "rx_ring e i []" and "line_ok lf" and "alloc_ok alloc"
  shows "(\<exists>e'. low_level_input alloc [lf] e = Some (None, e') \<and> rx_pending e' = []) \<and> rx_pending (arrive lf e) = [fst (snd lf)]"
proof -
  have "\<forall>lf'\<in>set [lf]. line_ok lf'" using assms(2) by simp
  from low_level_input_spec [OF assms(1) this assms(3)] have "\<exists>e'. low_level_input alloc [lf] e = Some (None, e') \<and> rx_pending e' = []"
    using rx_pending_ring by (auto simp: fifo_got_def fifo_in_def)
  moreover have "rx_pending (arrive lf e) = [fst (snd lf)]"
    using arrive_ring [OF assms(1,2)] rx_pending_ring by (auto simp: fifo_in_def)
  ultimately show ?thesis by simp
qed

theorem ethernet_race_loses_frame_witness:
  "(\<exists>e'. low_level_input one_segment [ping] (enet_enable (enet_prepare enet_blank)) = Some (None, e') \<and> rx_pending e' = []) \<and>
     rx_pending (arrive ping (enet_enable (enet_prepare enet_blank))) = [replicate 60 7]"
proof -
  have "enet_reset enet_blank" using blank_reset(1) by (simp add: ethernetif_blank_def)
  then show ?thesis using ethernet_race_loses_frame [OF prepared_rings(1) ping_ok(1) plenty_one_segment(2)] by simp
qed

text \<open>
  The output function returns only for packets that fit into a buffer. For a longer one it never returns, whatever the semaphore and the
  transmitter do - the chain is copied before its length is checked, and every error ends in an endless loop instead of the error code the comment
  announces.
\<close>

theorem output_too_long_hangs:
  assumes "ENET_MAX_FRAME_SIZE < length (concat p)" and "length (tx_buff (eth s)) = 5 * ENET_MAX_FRAME_SIZE"
  shows "low_level_output block waits steps p s = None"
proof -
  have "1524 < length (concat p)" using assms(1) by (simp add: enet_sizes)
  then have "r = ERROR" if "output_frame steps p (eth s) = Some (r, e)" for r e using output_frame_long assms(2) that by blast
  then show ?thesis
    by (auto simp: low_level_output_def split: option.splits bool.splits)
qed

theorem output_too_long_hangs_witness:
  "low_level_output (Some []) [] 1 [replicate 1000 1, replicate 525 2] ethernetif_blank = None"
  by (rule output_too_long_hangs) (simp_all add: enet_sizes)

end
