(* ===== verification/EthernetSetup.thy ===== *)
theory EthernetSetup
  imports EnetInit EthernetService
begin

text \<open>
  What the set-up of the Ethernet interface does, for every controller and transceiver that answer in time. The transceiver is its read and write operations,
  \<open>rd\<close> and \<open>wr\<close>, over the address and the number of a register; \<open>link_setup\<close> is the conversation with it, free of the management interface and its polling. The
  set-up refines it: it returns exactly if the conversation succeeds, with the mode of the link in the registers.
\<close>

section \<open>Hardware that answers\<close>

text \<open>The management interface, once it has carried out the access in its control register.\<close>

definition smi_done ::
  "(u32 \<Rightarrow> u32 \<Rightarrow> 'p \<Rightarrow> u16 \<times> 'p) \<Rightarrow> (u32 \<Rightarrow> u32 \<Rightarrow> u16 \<Rightarrow> 'p \<Rightarrow> 'p) \<Rightarrow> 'p enet_mac \<Rightarrow> 'p enet_mac" where
  "smi_done rd wr s =
     (let ctl = ENET_MAC_PHY_CTL s; address = GET_BITS ctl 11 15; reg = GET_BITS ctl 6 10; idle = ctl AND NOT ENET_MAC_PHY_CTL_PB
      in if bit ctl 1
         then s\<lparr>ENET_MAC_PHY_CTL := idle, transceiver := wr address reg (ucast (ENET_MAC_PHY_DATA s)) (transceiver s)\<rparr>
         else (let (v, p) = rd address reg (transceiver s) in s\<lparr>ENET_MAC_PHY_CTL := idle, ENET_MAC_PHY_DATA := ucast v, transceiver := p\<rparr>))"

definition completes :: "('s \<Rightarrow> 's) \<Rightarrow> ('s \<Rightarrow> bool) \<Rightarrow> 's \<Rightarrow> 's \<Rightarrow> bool" where
  "completes env busy s r \<longleftrightarrow> (\<exists>k < unat ENET_DELAY_TO. (\<forall>j. 0 < j \<and> j \<le> k \<longrightarrow> busy ((env ^^ j) s)) \<and> (env ^^ Suc k) s = r)"

definition resetting :: "'p enet_mac \<Rightarrow> bool" where "resetting s \<longleftrightarrow> ENET_DMA_BCTL s AND ENET_DMA_BCTL_SWR \<noteq> 0"

text \<open>An idle controller stays as it is; an access and a reset complete before the time-out. A reset keeps the variables of the program.\<close>

definition responsive ::
  "('p enet_mac \<Rightarrow> 'p enet_mac) \<Rightarrow> (u32 \<Rightarrow> u32 \<Rightarrow> 'p \<Rightarrow> u16 \<times> 'p) \<Rightarrow> (u32 \<Rightarrow> u32 \<Rightarrow> u16 \<Rightarrow> 'p \<Rightarrow> 'p) \<Rightarrow> ('p enet_mac \<Rightarrow> 'p enet_mac) \<Rightarrow> bool" where
  "responsive env rd wr core_reset \<longleftrightarrow>
     (\<forall>s. \<not> resetting s \<and> \<not> smi_busy s \<longrightarrow> env s = s) \<and>
     (\<forall>s. \<not> resetting s \<and> smi_busy s \<longrightarrow> completes env smi_busy s (smi_done rd wr s)) \<and>
     (\<forall>s. resetting s \<longrightarrow> completes env resetting s (core_reset s)) \<and>
     (\<forall>s. \<not> resetting (core_reset s) \<and> \<not> smi_busy (core_reset s) \<and> enet_initpara (core_reset s) = enet_initpara s)"

lemma reg_poll_done:
  assumes "\<forall>j. 0 < j \<and> j \<le> k \<longrightarrow> busy ((env ^^ j) s)" and "\<not> busy ((env ^^ Suc k) s)" and "k < n"
  shows "reg_poll env busy n s = (env ^^ Suc k) s"
  using assms
proof (induction n arbitrary: s k)
  case 0
  then show ?case by simp
next
  case (Suc n)
  show ?case
  proof (cases k)
    case 0
    then show ?thesis using Suc.prems by simp
  next
    case (Suc k')
    have "busy ((env ^^ 1) s)" using Suc.prems(1) Suc by (metis Suc_le_mono One_nat_def le0 zero_less_one)
    then have "busy (env s)" by simp
    moreover have "reg_poll env busy n (env s) = (env ^^ Suc k') (env s)"
    proof (rule Suc.IH)
      show "\<forall>j. 0 < j \<and> j \<le> k' \<longrightarrow> busy ((env ^^ j) (env s))"
      proof (intro allI impI)
        fix j assume "0 < j \<and> j \<le> k'"
        then have "busy ((env ^^ Suc j) s)" using Suc.prems(1) Suc by (meson Suc_le_mono zero_less_Suc)
        then show "busy ((env ^^ j) (env s))" by (simp add: funpow_swap1)
      qed
      show "\<not> busy ((env ^^ Suc k') (env s))" using Suc.prems(2) Suc by (simp add: funpow_swap1)
      show "k' < n" using Suc.prems(3) Suc by simp
    qed
    ultimately show ?thesis using Suc by (simp add: funpow_swap1)
  qed
qed

lemma reg_poll_completes:
  assumes "completes env busy s r" and "\<not> busy r"
  shows "reg_poll env busy (unat ENET_DELAY_TO) s = r"
  using assms reg_poll_done [of _ busy env s "unat ENET_DELAY_TO"] by (auto simp: completes_def simp del: funpow.simps)

section \<open>Accesses to the transceiver\<close>

text \<open>An access changes the registers of the management interface and the transceiver.\<close>

definition smi_update :: "u32 \<Rightarrow> u32 \<Rightarrow> 'p \<Rightarrow> 'p enet_mac \<Rightarrow> 'p enet_mac" where
  "smi_update c d p s = s\<lparr>ENET_MAC_PHY_CTL := c, ENET_MAC_PHY_DATA := d, transceiver := p\<rparr>"

lemma smi_update_simps [simp]:
  "transceiver (smi_update c d p s) = p" "smi_update c d p (smi_update c' d' p' s) = smi_update c d p s"
  "resetting (smi_update c d p s) = resetting s" "enet_initpara (smi_update c d p s) = enet_initpara s"
  "(smi_update c d p s)\<lparr>transceiver := p'\<rparr> = smi_update c d p' s"
  "(smi_update c d p s)\<lparr>ENET_MAC_PHY_CTL := c'\<rparr> = smi_update c' d p s"
  "(smi_update c d p s)\<lparr>ENET_MAC_PHY_DATA := d'\<rparr> = smi_update c d' p s"
  "ENET_MAC_PHY_CTL (smi_update c d p s) = c" "ENET_MAC_PHY_DATA (smi_update c d p s) = d"
  by (simp_all add: smi_update_def resetting_def)

lemma smi_update_self: "\<exists>c d. s = smi_update c d (transceiver s) s"
  by (rule exI [of _ "ENET_MAC_PHY_CTL s"], rule exI [of _ "ENET_MAC_PHY_DATA s"]) (simp add: smi_update_def)

text \<open>The control register of an access.\<close>

definition smi_command :: "enet_phydirection_enum \<Rightarrow> u16 \<Rightarrow> u16 \<Rightarrow> u32 \<Rightarrow> u32" where
  "smi_command direction phy_address phy_reg reg =
     reg AND NOT (ENET_MAC_PHY_CTL_PB OR ENET_MAC_PHY_CTL_PW OR ENET_MAC_PHY_CTL_PR OR ENET_MAC_PHY_CTL_PA) OR
     (phydirection_value direction OR MAC_PHY_CTL_PR (ucast phy_reg) OR MAC_PHY_CTL_PA (ucast phy_address) OR ENET_MAC_PHY_CTL_PB)"

lemma small_bits:
  assumes "w < 32" and "bit (w :: u16) k"
  shows "k < 5"
proof (rule ccontr)
  assume "\<not> k < 5"
  then have "(2 :: nat) ^ 5 \<le> 2 ^ k" by (intro power_increasing) simp_all
  then have "unat w < 2 ^ k" using assms(1) by (simp add: word_less_nat_alt)
  then have "\<not> bit (unat w) k" by (simp add: bit_iff_odd)
  then show False using assms(2) by (simp add: bit_unsigned_iff)
qed

lemma smi_command_fields:
  assumes "phy_address < 32" and "phy_reg < 32"
  shows "GET_BITS (smi_command direction phy_address phy_reg reg) 6 10 = ucast phy_reg"
    and "GET_BITS (smi_command direction phy_address phy_reg reg) 11 15 = ucast phy_address"
    and "bit (smi_command direction phy_address phy_reg reg) 0"
    and "bit (smi_command direction phy_address phy_reg reg) 1 \<longleftrightarrow> direction = ENET_PHY_WRITE"
proof -
  have d: "bit (phydirection_value direction) k \<longleftrightarrow> k = 1 \<and> direction = ENET_PHY_WRITE" for k
    by (cases direction) (auto simp: phy_ctl_fields)
  show "GET_BITS (smi_command direction phy_address phy_reg reg) 6 10 = ucast phy_reg"
  proof (rule bit_eqI)
    fix k assume "possible_bit TYPE(u32) k"
    show "bit (GET_BITS (smi_command direction phy_address phy_reg reg) 6 10) k = bit (ucast phy_reg :: u32) k"
      using small_bits [OF assms(2), of k]
      by (cases "k < 5") (auto simp: GET_BITS_def smi_command_def phy_ctl_fields d bit_simps bit_BITS)
  qed
  show "GET_BITS (smi_command direction phy_address phy_reg reg) 11 15 = ucast phy_address"
  proof (rule bit_eqI)
    fix k assume "possible_bit TYPE(u32) k"
    show "bit (GET_BITS (smi_command direction phy_address phy_reg reg) 11 15) k = bit (ucast phy_address :: u32) k"
      using small_bits [OF assms(1), of k]
      by (cases "k < 5") (auto simp: GET_BITS_def smi_command_def phy_ctl_fields d bit_simps bit_BITS)
  qed
  show "bit (smi_command direction phy_address phy_reg reg) 0" by (simp add: smi_command_def phy_ctl_fields bit_simps)
  show "bit (smi_command direction phy_address phy_reg reg) 1 \<longleftrightarrow> direction = ENET_PHY_WRITE"
    by (simp add: smi_command_def phy_ctl_fields d bit_simps bit_BITS)
qed

lemma ucast_up_down [simp]: "(ucast (ucast (v :: u16) :: u32) :: u16) = v"
  by (rule bit_eqI) (auto simp: bit_simps)

lemma smi_done_idle [simp]: "\<not> smi_busy (smi_done rd wr s)"
  by (auto simp: smi_done_def smi_busy_def phy_ctl_fields Let_def bit_simps split: prod.splits)

lemma smi_done_resetting [simp]: "resetting (smi_done rd wr s) = resetting s"
  by (auto simp: smi_done_def resetting_def Let_def split: prod.splits)

lemma access_done:
  assumes "responsive env rd wr core_reset" and "\<not> resetting s" and "smi_busy s"
  shows "env (reg_poll env smi_busy (unat ENET_DELAY_TO) s) = smi_done rd wr s"
proof -
  have "completes env smi_busy s (smi_done rd wr s)" using assms by (simp add: responsive_def)
  then have "reg_poll env smi_busy (unat ENET_DELAY_TO) s = smi_done rd wr s" by (rule reg_poll_completes) simp
  then show ?thesis using assms by (simp add: responsive_def)
qed

lemma command_busy: "phy_address < 32 \<Longrightarrow> phy_reg < 32 \<Longrightarrow> smi_busy (smi_update (smi_command direction phy_address phy_reg reg) d p s)"
  using smi_command_fields(3) by (simp add: smi_busy_def phy_ctl_fields)

lemma phy_access:
  assumes "responsive env rd wr core_reset" and "\<not> resetting s" and "phy_address < 32" and "phy_reg < 32"
  shows "enet_phy_write_read env direction phy_address phy_reg v s =
    (let c = smi_command direction phy_address phy_reg (ENET_MAC_PHY_CTL s);
         s' = smi_done rd wr (smi_update c (if direction = ENET_PHY_WRITE then ucast v else ENET_MAC_PHY_DATA s) (transceiver s) s)
     in (SUCCESS, if direction = ENET_PHY_READ then ucast (ENET_MAC_PHY_DATA s') else v, s'))"
proof -
  let ?c = "smi_command direction phy_address phy_reg (ENET_MAC_PHY_CTL s)"
  let ?s = "smi_update ?c (if direction = ENET_PHY_WRITE then ucast v else ENET_MAC_PHY_DATA s) (transceiver s) s"
  have start: "(if direction = ENET_PHY_WRITE then s\<lparr>ENET_MAC_PHY_DATA := ucast v\<rparr> else s)\<lparr>ENET_MAC_PHY_CTL := ?c\<rparr> = ?s"
    by (simp add: smi_update_def)
  have "env (reg_poll env smi_busy (unat ENET_DELAY_TO) ?s) = smi_done rd wr ?s"
    by (rule access_done [OF assms(1)]) (simp_all add: assms command_busy)
  then show ?thesis
    unfolding enet_phy_write_read_def Let_def smi_command_def [symmetric] start by (cases direction) simp_all
qed

lemma phy_write:
  assumes "responsive env rd wr core_reset" and "\<not> resetting s" and "phy_address < 32" and "phy_reg < 32"
  shows "\<exists>c d. enet_phy_write_read env ENET_PHY_WRITE phy_address phy_reg v s =
    (SUCCESS, v, smi_update c d (wr (ucast phy_address) (ucast phy_reg) v (transceiver s)) s)"
proof -
  let ?c = "smi_command ENET_PHY_WRITE phy_address phy_reg (ENET_MAC_PHY_CTL s)"
  have "smi_done rd wr (smi_update ?c (ucast v) (transceiver s) s) =
      smi_update (?c AND NOT ENET_MAC_PHY_CTL_PB) (ucast v) (wr (ucast phy_address) (ucast phy_reg) v (transceiver s)) s"
    using smi_command_fields [OF assms(3,4), of ENET_PHY_WRITE] by (simp add: smi_done_def Let_def)
  then show ?thesis using phy_access [OF assms, of ENET_PHY_WRITE v] by (auto simp: Let_def)
qed

lemma phy_read:
  assumes "responsive env rd wr core_reset" and "\<not> resetting s" and "phy_address < 32" and "phy_reg < 32"
    and "rd (ucast phy_address) (ucast phy_reg) (transceiver s) = (w, p)"
  shows "\<exists>c d. enet_phy_write_read env ENET_PHY_READ phy_address phy_reg v s = (SUCCESS, w, smi_update c d p s)"
proof -
  let ?c = "smi_command ENET_PHY_READ phy_address phy_reg (ENET_MAC_PHY_CTL s)"
  have "smi_done rd wr (smi_update ?c (ENET_MAC_PHY_DATA s) (transceiver s) s) = smi_update (?c AND NOT ENET_MAC_PHY_CTL_PB) (ucast w) p s"
    using smi_command_fields [OF assms(3,4), of ENET_PHY_READ] assms(5) by (simp add: smi_done_def Let_def)
  then show ?thesis using phy_access [OF assms(1-4), of ENET_PHY_READ v] by (auto simp: Let_def)
qed

text \<open>The queries of the transceiver.\<close>

lemma lan8720_check_id_spec:
  assumes "responsive env rd wr core_reset" and "\<not> resetting s" and "rd 0 2 (transceiver s) = (id1, p1)" and "rd 0 3 p1 = (id2, p2)"
  shows "\<exists>c d. lan8720_check_id env s = (id1 = LAN8720_ID1 \<and> drop_bit 4 id2 = LAN8720_ID2, smi_update c d p2 s)"
proof -
  obtain c d where r1: "enet_phy_write_read env ENET_PHY_READ PHY_ADDRESS LAN8720_PHYID1 0 s = (SUCCESS, id1, smi_update c d p1 s)"
    using phy_read [OF assms(1,2), of PHY_ADDRESS LAN8720_PHYID1 id1 p1 0] assms(3) by (auto simp: phy_values LAN8720_PHYID1_def)
  obtain c' d' where "enet_phy_write_read env ENET_PHY_READ PHY_ADDRESS LAN8720_PHYID2 0 (smi_update c d p1 s) = (SUCCESS, id2, smi_update c' d' p2 s)"
    using phy_read [OF assms(1), of "smi_update c d p1 s" PHY_ADDRESS LAN8720_PHYID2 id2 p2 0] assms(2,4) by (auto simp: phy_values LAN8720_PHYID2_def)
  then show ?thesis using r1 by (auto simp: lan8720_check_id_def)
qed

lemma lan8720_status_spec:
  assumes "responsive env rd wr core_reset" and "\<not> resetting s"
  shows "rd 0 31 (transceiver s) = (v, p) \<Longrightarrow> \<exists>c d. lan8720_get_phystatus env s = (v, smi_update c d p s)"
    and "rd 0 1 (transceiver s) = (v, p) \<Longrightarrow> \<exists>c d. lan8720_get_connectionstate env s = (if bit v 2 then 1 else 0, smi_update c d p s)"
proof -
  assume "rd 0 31 (transceiver s) = (v, p)"
  then show "\<exists>c d. lan8720_get_phystatus env s = (v, smi_update c d p s)"
    using phy_read [OF assms, of PHY_ADDRESS LAN8720_PSCSR v p 0] by (auto simp: phy_values LAN8720_PSCSR_def lan8720_get_phystatus_def) blast
next
  assume r: "rd 0 1 (transceiver s) = (v, p)"
  have "drop_bit 2 (v AND PHY_LINKED_STATUS) = (if bit v 2 then 1 else 0)"
    by (intro bit_eqI) (auto simp: phy_values bit_simps bit_1_iff numeral_2_eq_2 intro!: gr0I)
  then show "\<exists>c d. lan8720_get_connectionstate env s = (if bit v 2 then 1 else 0, smi_update c d p s)"
    using r phy_read [OF assms, of PHY_ADDRESS LAN8720_BMSR v p 0] by (auto simp: phy_values LAN8720_BMSR_def lan8720_get_connectionstate_def) blast+
qed

section \<open>The conversation with the transceiver\<close>

fun link_wait :: "(u32 \<Rightarrow> u32 \<Rightarrow> 'p \<Rightarrow> u16 \<times> 'p) \<Rightarrow> u16 \<Rightarrow> nat \<Rightarrow> 'p \<Rightarrow> 'p option" where
  "link_wait rd bits 0 p = None"
| "link_wait rd bits (Suc n) p = (let (v, p1) = rd 0 1 p in if v AND bits \<noteq> 0 then Some p1 else link_wait rd bits n p1)"

definition link_reset ::
  "(u32 \<Rightarrow> u32 \<Rightarrow> 'p \<Rightarrow> u16 \<times> 'p) \<Rightarrow> (u32 \<Rightarrow> u32 \<Rightarrow> u16 \<Rightarrow> 'p \<Rightarrow> 'p) \<Rightarrow> (u32 \<Rightarrow> 'p \<Rightarrow> 'p) \<Rightarrow> 'p \<Rightarrow> bool \<times> 'p" where
  "link_reset rd wr delay p = (let (v, p1) = rd 0 0 (delay ENET_DELAY_TO (wr 0 0 PHY_RESET p)) in (v AND PHY_RESET = 0, p1))"

definition link_tries :: nat where "link_tries = unat PHY_READ_TO - 1"

definition link_negotiate ::
  "(u32 \<Rightarrow> u32 \<Rightarrow> 'p \<Rightarrow> u16 \<times> 'p) \<Rightarrow> (u32 \<Rightarrow> u32 \<Rightarrow> u16 \<Rightarrow> 'p \<Rightarrow> 'p) \<Rightarrow> 'p \<Rightarrow> (u16 \<times> 'p) option" where
  "link_negotiate rd wr p =
     (case link_wait rd PHY_LINKED_STATUS link_tries p of
        None \<Rightarrow> None
      | Some p1 \<Rightarrow> map_option (rd 0 31) (link_wait rd PHY_AUTONEGO_COMPLETE link_tries (wr 0 0 PHY_AUTONEGOTIATION p1)))"

definition link_setup ::
  "(u32 \<Rightarrow> u32 \<Rightarrow> 'p \<Rightarrow> u16 \<times> 'p) \<Rightarrow> (u32 \<Rightarrow> u32 \<Rightarrow> u16 \<Rightarrow> 'p \<Rightarrow> 'p) \<Rightarrow> (u32 \<Rightarrow> 'p \<Rightarrow> 'p) \<Rightarrow> 'p \<Rightarrow> (u16 \<times> 'p) option" where
  "link_setup rd wr delay p =
     (let (ok, p1) = link_reset rd wr delay p
      in if ok then link_negotiate rd wr p1
         else (let (ok', p2) = link_reset rd wr delay (delay PHY_RESETDELAY p1) in if ok' then link_negotiate rd wr p2 else None))"

lemma phy_wait_link:
  assumes "responsive env rd wr core_reset" and "\<not> resetting s" and "unat t + n = unat PHY_READ_TO" and "0 < n"
  shows "case link_wait rd bits (n - 1) (transceiver s) of
      None \<Rightarrow> \<exists>s'. phy_wait env n bits t s = (PHY_READ_TO, s')
    | Some p \<Rightarrow> \<exists>t' c d. phy_wait env n bits t s = (t', smi_update c d p s) \<and> t' \<noteq> PHY_READ_TO"
  using assms
proof (induction n arbitrary: s t)
  case 0
  then show ?case by simp
next
  case (Suc m)
  obtain w p where rd: "rd 0 1 (transceiver s) = (w, p)" by fastforce
  then obtain c d where r: "enet_phy_write_read env ENET_PHY_READ PHY_ADDRESS PHY_REG_BSR 0 s = (SUCCESS, w, smi_update c d p s)"
    using phy_read [OF Suc.prems(1,2), of PHY_ADDRESS PHY_REG_BSR w p 0] by (auto simp: phy_values)
  have u: "unat (t + 1) = Suc (unat t)" using Suc.prems(3) unat_succ_less [of t PHY_READ_TO] by (simp add: word_less_nat_alt)
  show ?case
  proof (cases "m = 0")
    case True
    then have "t + 1 = PHY_READ_TO" using Suc.prems(3) u by (intro word_unat_eq_iff [THEN iffD2]) simp
    then show ?thesis using r True by simp
  next
    case False
    then have lt: "t + 1 < PHY_READ_TO" and neq: "t + 1 \<noteq> PHY_READ_TO" using Suc.prems(3) u by (auto simp: word_less_nat_alt)
    obtain m' where m: "m = Suc m'" using False by (cases m) auto
    show ?thesis
    proof (cases "w AND bits = 0")
      case True
      have "phy_wait env (Suc m) bits t s = phy_wait env m bits (t + 1) (smi_update c d p s)" using r True lt by simp
      then show ?thesis using Suc.IH [OF Suc.prems(1), of "smi_update c d p s" "t + 1"] Suc.prems(2,3) u m rd True by (auto split: option.splits)
    next
      case False
      then show ?thesis using r rd m neq by auto
    qed
  qed
qed

lemma phy_config_link:
  assumes "responsive env rd wr core_reset" and "\<not> resetting s" and "mdc_divider hclk = Some m" and "link_reset rd wr delay (transceiver s) = (ok, p)"
  shows "\<exists>c d. enet_phy_config env delay hclk s = (if ok then SUCCESS else ERROR, smi_update c d p s)"
proof -
  define s1 where "s1 = s\<lparr>ENET_MAC_PHY_CTL := ENET_MAC_PHY_CTL s AND NOT ENET_MAC_PHY_CTL_CLR OR m\<rparr>"
  have s1: "\<not> resetting s1" "transceiver s1 = transceiver s" using assms(2) by (simp_all add: resetting_def s1_def)
  obtain c d where w: "enet_phy_write_read env ENET_PHY_WRITE PHY_ADDRESS PHY_REG_BCR PHY_RESET s1 =
      (SUCCESS, PHY_RESET, smi_update c d (wr 0 0 PHY_RESET (transceiver s)) s1)"
    using phy_write [OF assms(1) s1(1), of PHY_ADDRESS PHY_REG_BCR PHY_RESET] s1(2) by (auto simp: phy_values)
  let ?s3 = "smi_update c d (delay ENET_DELAY_TO (wr 0 0 PHY_RESET (transceiver s))) s1"
  obtain v where v: "rd 0 0 (transceiver ?s3) = (v, p)" "ok = (v AND PHY_RESET = 0)"
    using assms(4) by (auto simp: link_reset_def split: prod.splits)
  have s3: "\<not> resetting ?s3" using s1 by simp
  obtain c' d' where r: "enet_phy_write_read env ENET_PHY_READ PHY_ADDRESS PHY_REG_BCR PHY_RESET ?s3 = (SUCCESS, v, smi_update c' d' p ?s3)"
    using phy_read [OF assms(1) s3, of PHY_ADDRESS PHY_REG_BCR v p PHY_RESET] v(1) by (auto simp: phy_values)
  have "smi_update c' d' p s1 = smi_update c' d' p s" by (simp add: smi_update_def s1_def)
  then have "enet_phy_config env delay hclk s = (if ok then SUCCESS else ERROR, smi_update c' d' p s)"
    using w r v(2) by (simp add: enet_phy_config_def assms(3) Let_def s1_def [symmetric])
  then show ?thesis by blast
qed

lemma auto_negotiate_link:
  assumes "responsive env rd wr core_reset" and "\<not> resetting s"
  shows "case link_negotiate rd wr (transceiver s) of
      None \<Rightarrow> \<exists>s'. auto_negotiate env s = (None, s')
    | Some (v, p) \<Rightarrow> \<exists>c d. auto_negotiate env s = (Some (negotiated_mode v), smi_update c d p s)"
proof -
  have pos: "0 < unat PHY_READ_TO" by (simp add: PHY_READ_TO_def)
  have wait: "case link_wait rd bits link_tries (transceiver s) of
      None \<Rightarrow> \<exists>s'. phy_wait env (unat PHY_READ_TO) bits 0 s = (PHY_READ_TO, s')
    | Some p \<Rightarrow> \<exists>t' c d. phy_wait env (unat PHY_READ_TO) bits 0 s = (t', smi_update c d p s) \<and> t' \<noteq> PHY_READ_TO"
    if "\<not> resetting s" for bits s
    using phy_wait_link [OF assms(1) that, of 0 "unat PHY_READ_TO" bits] pos unfolding link_tries_def by simp
  show ?thesis
  proof (cases "link_wait rd PHY_LINKED_STATUS link_tries (transceiver s)")
    case None
    then show ?thesis using wait [OF assms(2), of PHY_LINKED_STATUS] by (auto simp: link_negotiate_def auto_negotiate_def)
  next
    case (Some p1)
    then obtain t1 c1 d1 where w1: "phy_wait env (unat PHY_READ_TO) PHY_LINKED_STATUS 0 s = (t1, smi_update c1 d1 p1 s)" "t1 \<noteq> PHY_READ_TO"
      using wait [OF assms(2), of PHY_LINKED_STATUS] by auto
    let ?p2 = "wr 0 0 PHY_AUTONEGOTIATION p1"
    obtain c2 d2 where w2: "enet_phy_write_read env ENET_PHY_WRITE PHY_ADDRESS PHY_REG_BCR PHY_AUTONEGOTIATION (smi_update c1 d1 p1 s) =
        (SUCCESS, PHY_AUTONEGOTIATION, smi_update c2 d2 ?p2 s)"
      using phy_write [OF assms(1), of "smi_update c1 d1 p1 s" PHY_ADDRESS PHY_REG_BCR PHY_AUTONEGOTIATION] assms(2) by (auto simp: phy_values)
    have s2: "\<not> resetting (smi_update c2 d2 ?p2 s)" using assms(2) by simp
    show ?thesis
    proof (cases "link_wait rd PHY_AUTONEGO_COMPLETE link_tries ?p2")
      case None
      then show ?thesis using wait [OF s2, of PHY_AUTONEGO_COMPLETE] w1 w2 Some by (auto simp: link_negotiate_def auto_negotiate_def)
    next
      case (Some p3)
      then obtain t3 c3 d3 where w3: "phy_wait env (unat PHY_READ_TO) PHY_AUTONEGO_COMPLETE 0 (smi_update c2 d2 ?p2 s) = (t3, smi_update c3 d3 p3 s)"
          "t3 \<noteq> PHY_READ_TO"
        using wait [OF s2, of PHY_AUTONEGO_COMPLETE] by auto
      obtain v p4 where v: "rd 0 31 p3 = (v, p4)" by fastforce
      then obtain c4 d4 where "enet_phy_write_read env ENET_PHY_READ PHY_ADDRESS PHY_SR 0 (smi_update c3 d3 p3 s) = (SUCCESS, v, smi_update c4 d4 p4 s)"
        using phy_read [OF assms(1), of "smi_update c3 d3 p3 s" PHY_ADDRESS PHY_SR v p4 0] assms(2) by (auto simp: phy_values)
      then show ?thesis using w1 w2 w3 v Some \<open>link_wait rd PHY_LINKED_STATUS link_tries (transceiver s) = Some p1\<close>
        by (auto simp: link_negotiate_def auto_negotiate_def)
    qed
  qed
qed

section \<open>The set-up\<close>

lemma default_init_simps [simp]:
  "enet_default_init (smi_update c d p s) = smi_update c d p (enet_default_init s)"
  "transceiver (enet_default_init s) = transceiver s" "enet_initpara (enet_default_init s) = enet_initpara s"
  by (simp_all add: enet_default_init_def smi_update_def)

lemma default_init_resetting [simp]: "\<not> resetting (enet_default_init s)"
  by (simp add: enet_default_init_def resetting_def bctl_settings bit_simps bit_BITS)

lemma init_negotiates:
  assumes "responsive env rd wr core_reset"
  shows "case link_negotiate rd wr p of
      None \<Rightarrow> \<exists>s'. auto_negotiate env (enet_default_init (smi_update c d p s)) = (None, s')
    | Some (v, p') \<Rightarrow> \<exists>c' d'. auto_negotiate env (enet_default_init (smi_update c d p s)) = (Some (negotiated_mode v), smi_update c' d' p' (enet_default_init s))"
  using auto_negotiate_link [OF assms, of "enet_default_init (smi_update c d p s)"] by (auto split: option.splits)

lemma init_link:
  assumes "responsive env rd wr core_reset" and "\<not> resetting s" and "mdc_divider hclk = Some m"
  shows "case link_setup rd wr delay (transceiver s) of
      None \<Rightarrow> \<exists>s'. enet_init env delay hclk ENET_AUTO_NEGOTIATION checksum recept s = (ERROR, s')
    | Some (v, p) \<Rightarrow> \<exists>c d. enet_init env delay hclk ENET_AUTO_NEGOTIATION checksum recept s =
        (SUCCESS, mac_settings (negotiated_mode v) checksum recept (smi_update c d p (enet_default_init s)))"
proof -
  obtain ok p1 where l1: "link_reset rd wr delay (transceiver s) = (ok, p1)" by fastforce
  obtain c1 d1 where e1: "enet_phy_config env delay hclk s = (if ok then SUCCESS else ERROR, smi_update c1 d1 p1 s)"
    using phy_config_link [OF assms l1] by blast
  show ?thesis
  proof (cases ok)
    case True
    then show ?thesis using e1 l1 init_negotiates [OF assms(1), where p = p1 and c = c1 and d = d1 and s = s]
      by (auto simp: enet_init_def link_setup_def split: option.splits) blast
  next
    case False
    let ?s = "smi_update c1 d1 (delay PHY_RESETDELAY p1) s"
    obtain ok2 p2 where l2: "link_reset rd wr delay (transceiver ?s) = (ok2, p2)" by fastforce
    have "\<not> resetting ?s" using assms(2) by simp
    then obtain c2 d2 where "enet_phy_config env delay hclk ?s = (if ok2 then SUCCESS else ERROR, smi_update c2 d2 p2 ?s)"
      using phy_config_link [OF assms(1) _ assms(3) l2] by blast
    then show ?thesis using False e1 l1 l2 init_negotiates [OF assms(1), where p = p2 and c = c2 and d = d2 and s = s]
      by (auto simp: enet_init_def link_setup_def split: option.splits) blast
  qed
qed

definition after_reset :: "('p enet_mac \<Rightarrow> 'p enet_mac) \<Rightarrow> ('p enet_mac \<Rightarrow> 'p enet_mac) \<Rightarrow> 'p enet_mac \<Rightarrow> 'p enet_mac" where
  "after_reset core_reset bus_reset s =
     (let s1 = enet_deinit bus_reset s in core_reset (s1\<lparr>ENET_DMA_BCTL := ENET_DMA_BCTL s1 OR ENET_DMA_BCTL_SWR\<rparr>))"

lemma BIT_nonzero [simp]: "n < 32 \<Longrightarrow> BIT n \<noteq> 0"
  using and_BIT [of n "BIT n"] by auto

lemma software_reset_done:
  assumes "responsive env rd wr core_reset"
  shows "enet_software_reset env (enet_deinit bus_reset s) = (SUCCESS, after_reset core_reset bus_reset s)"
proof -
  let ?s = "(enet_deinit bus_reset s)\<lparr>ENET_DMA_BCTL := ENET_DMA_BCTL (enet_deinit bus_reset s) OR ENET_DMA_BCTL_SWR\<rparr>"
  have "resetting ?s" by (simp add: resetting_def ENET_DMA_BCTL_SWR_def bit_simps)
  then have "completes env resetting ?s (core_reset ?s)" using assms by (simp add: responsive_def)
  moreover have idle: "\<not> resetting (core_reset ?s)" "\<not> smi_busy (core_reset ?s)" using assms by (simp_all add: responsive_def)
  ultimately have "reg_poll env resetting (unat ENET_DELAY_TO) ?s = core_reset ?s" by (intro reg_poll_completes) simp_all
  moreover have "env (core_reset ?s) = core_reset ?s" using assms idle by (simp add: responsive_def)
  ultimately show ?thesis using idle
    by (simp add: enet_software_reset_def after_reset_def Let_def resetting_def [abs_def, symmetric] del: enet_mac.update_convs)
qed

lemma after_reset_simps:
  assumes "responsive env rd wr core_reset"
  shows "\<not> resetting (after_reset core_reset bus_reset s)" and "option_enable (enet_initpara (after_reset core_reset bus_reset s)) = 0"
  using assms by (simp_all add: responsive_def after_reset_def enet_deinit_def enet_initpara_reset_def Let_def)

lemma options_none: "option_enable (enet_initpara s) = 0 \<Longrightarrow> enet_options s = s"
  by (simp add: enet_options_def with_option_def)

text \<open>An option takes effect, alone, if it has been configured.\<close>

lemma option_setting_keeps [simp]: "enet_initpara (option_setting opt i s) = enet_initpara s"
  by (cases opt) (simp_all add: forward_settings_def dma_settings_def flow_settings_def Let_def)

lemma set_parameter_enable [simp]: "option_enable (set_parameter opt para i) = option_enable i"
  by (cases opt) simp_all

lemma option_configured:
  assumes "option_enable (enet_initpara s) = 0"
  shows "enet_options (enet_initpara_config opt para s) =
    option_setting opt (enet_initpara (enet_initpara_config opt para s)) (enet_initpara_config opt para s)"
proof -
  define s1 where "s1 = enet_initpara_config opt para s"
  have "option_enable (enet_initpara s1) = option_bit opt" using assms by (simp add: s1_def enet_initpara_config_def Let_def)
  then show ?thesis
    unfolding s1_def [symmetric] by (cases opt) (simp_all add: enet_options_def with_option_def del: option_setting.simps)
qed

text \<open>The registers hold the mode of the link.\<close>

lemma word16_bit: "v AND PHY_DUPLEX_STATUS = 0 \<longleftrightarrow> \<not> bit v 4" "v AND PHY_SPEED_STATUS = 0 \<longleftrightarrow> \<not> bit v 2"
  using and_exp_eq_0_iff_not_bit [of v 4] and_exp_eq_0_iff_not_bit [of v 2] by (simp_all add: phy_values)

lemma negotiated_bits:
  "bit (negotiated_mode v) 11 \<longleftrightarrow> bit v 4" "bit (negotiated_mode v) 14 \<longleftrightarrow> \<not> bit v 2" "k \<noteq> 11 \<Longrightarrow> k \<noteq> 14 \<Longrightarrow> \<not> bit (negotiated_mode v) k"
  by (auto simp: negotiated_mode_def word16_bit media_settings mac_cfg_fields bit_simps)

lemma mac_settings_mode:
  fixes s :: "'p enet_mac" and v :: u16 and recept :: u32
  assumes "option_enable (enet_initpara s) = 0"
  defines "s' \<equiv> mac_settings (negotiated_mode v) ENET_AUTOCHECKSUM_DROP_FAILFRAMES recept s"
  shows "transceiver s' = transceiver s" and "bit (ENET_MAC_CFG s') 11 \<longleftrightarrow> bit v 4" and "bit (ENET_MAC_CFG s') 14 \<longleftrightarrow> \<not> bit v 2"
    and "\<not> bit (ENET_MAC_CFG s') 12" and "bit (ENET_MAC_CFG s') 10"
    and "k < 32 \<Longrightarrow> k \<notin> {10, 11, 12, 14} \<Longrightarrow> bit (ENET_MAC_CFG s') k = bit (ENET_MAC_CFG s) k"
  unfolding s'_def using assms(1)
  by (auto simp: mac_settings_def field_set_def options_none Let_def ENET_CHECKSUMOFFLOAD_ENABLE_def ENET_AUTOCHECKSUM_DROP_FAILFRAMES_def
      negotiated_bits mac_cfg_fields bit_simps)

lemma divider_exists: "20000000 \<le> hclk \<Longrightarrow> hclk \<le> 400000000 \<Longrightarrow> \<exists>m. mdc_divider hclk = Some m"
  by (auto simp: mdc_divider.simps ENET_RANGE_def)

lemma setup_link:
  assumes "responsive env rd wr core_reset" and "20000000 \<le> hclk" and "hclk \<le> 400000000"
  shows "case link_setup rd wr delay (transceiver (after_reset core_reset bus_reset s)) of
      None \<Rightarrow> enet_system_setup env delay bus_reset hclk s = None
    | Some (v, p) \<Rightarrow> \<exists>c d. enet_system_setup env delay bus_reset hclk s = Some (enet_interrupt_enable 6 (enet_interrupt_enable 16
        (mac_settings (negotiated_mode v) ENET_AUTOCHECKSUM_DROP_FAILFRAMES ENET_BROADCAST_FRAMES_PASS (smi_update c d p (enet_default_init (after_reset core_reset bus_reset s))))))"
proof -
  obtain m where m: "mdc_divider hclk = Some m" using divider_exists assms(2,3) by blast
  show ?thesis
    using init_link [OF assms(1) after_reset_simps(1) [OF assms(1), of bus_reset s] m, where delay = delay
        and checksum = ENET_AUTOCHECKSUM_DROP_FAILFRAMES and recept = ENET_BROADCAST_FRAMES_PASS]
    by (auto simp: enet_system_setup_def enet_mac_dma_config_def software_reset_done [OF assms(1)] split: option.splits) blast
qed

text \<open>What the ring of descriptors needs of the controller is left alone.\<close>

lemma setup_keeps_rings:
  assumes "option_enable (enet_initpara s) = 0"
  shows "enet_reset (enet.truncate (enet_interrupt_enable i (enet_interrupt_enable j (mac_settings mode checksum recept (smi_update c d p (enet_default_init s)))))) =
    enet_reset (enet.truncate s)"
    and "wire (enet_interrupt_enable i (enet_interrupt_enable j (mac_settings mode checksum recept (smi_update c d p (enet_default_init s))))) = wire s"
  using assms
  by (simp_all add: enet_reset_def enet.truncate_def enet_interrupt_enable_def mac_settings_def options_none smi_update_def enet_default_init_def Let_def)

text \<open>Waiting fails exactly if no read shows the bits.\<close>

definition bsr_reads :: "(u32 \<Rightarrow> u32 \<Rightarrow> 'p \<Rightarrow> u16 \<times> 'p) \<Rightarrow> nat \<Rightarrow> 'p \<Rightarrow> 'p" where "bsr_reads rd n = (\<lambda>p. snd (rd 0 1 p)) ^^ n"

definition bsr_value :: "(u32 \<Rightarrow> u32 \<Rightarrow> 'p \<Rightarrow> u16 \<times> 'p) \<Rightarrow> nat \<Rightarrow> 'p \<Rightarrow> u16" where "bsr_value rd n p = fst (rd 0 1 (bsr_reads rd n p))"

lemma link_wait_None: "link_wait rd bits n p = None \<longleftrightarrow> (\<forall>k<n. bsr_value rd k p AND bits = 0)"
proof (induction n arbitrary: p)
  case 0
  then show ?case by simp
next
  case (Suc n)
  obtain v p1 where r: "rd 0 1 p = (v, p1)" by fastforce
  have "bsr_value rd 0 p = v" "bsr_value rd (Suc k) p = bsr_value rd k p1" for k
    using r by (simp_all add: bsr_value_def bsr_reads_def funpow_Suc_right del: funpow.simps(2))
  then show ?case using r Suc.IH [of p1] by (simp add: All_less_Suc2)
qed

lemma link_wait_now: "0 < n \<Longrightarrow> rd 0 1 p = (v, p1) \<Longrightarrow> v AND bits \<noteq> 0 \<Longrightarrow> link_wait rd bits n p = Some p1"
  by (cases n) simp_all

text \<open>The interface starts on the controller that the set-up leaves, with empty queues.\<close>

lemma ethernet_starts:
  assumes "responsive env rd wr core_reset" and "20000000 \<le> hclk" and "hclk \<le> 400000000"
    and "enet_reset (enet.truncate (after_reset core_reset bus_reset s))" and "enet_system_setup env delay bus_reset hclk s = Some s'"
    and "eth i = enet.truncate s'" and "g_rx_semaphore i = None" and "s_tx_semaphore i = None"
  shows "\<exists>n' i'. ethernetif_init (Some block) n i = Some (ERR_OK, n', i') \<and> traffic_rel i' (quiet (wire (after_reset core_reset bus_reset s)))"
proof -
  let ?r = "after_reset core_reset bus_reset s"
  obtain v p c d where s': "s' = enet_interrupt_enable 6 (enet_interrupt_enable 16
      (mac_settings (negotiated_mode v) ENET_AUTOCHECKSUM_DROP_FAILFRAMES ENET_BROADCAST_FRAMES_PASS (smi_update c d p (enet_default_init ?r))))"
    using setup_link [OF assms(1-3), where delay = delay and bus_reset = bus_reset and s = s] assms(5) by (auto split: option.splits)
  have "enet_reset (enet.truncate s')" "wire s' = wire ?r"
    unfolding s' using assms(4) by (simp_all add: setup_keeps_rings [OF after_reset_simps(2) [OF assms(1)]])
  moreover have "wire (enet.truncate s') = wire s'" by (simp add: enet.truncate_def)
  ultimately show ?thesis using initialised [of i block n] assms(6-8) by simp
qed

section \<open>A simulated board\<close>

text \<open>A transceiver that answers at once, whose link is up after the given number of reads of the status register, at 100 Mbit/s and full duplex.\<close>

definition board_rd :: "nat \<Rightarrow> u32 \<Rightarrow> u32 \<Rightarrow> nat \<Rightarrow> u16 \<times> nat" where
  "board_rd up address reg p = (if reg = 1 then (if p < up then 0 else 0x24, Suc p) else if reg = 31 then (0x18, p) else (0, p))"

definition board_wr :: "u32 \<Rightarrow> u32 \<Rightarrow> u16 \<Rightarrow> nat \<Rightarrow> nat" where "board_wr address reg v p = p"

definition board_reset :: "nat enet_mac \<Rightarrow> nat enet_mac" where
  "board_reset s = s\<lparr>ENET_DMA_BCTL := ENET_DMA_BCTL s AND NOT ENET_DMA_BCTL_SWR, ENET_MAC_PHY_CTL := 0\<rparr>"

definition board :: "nat \<Rightarrow> nat enet_mac \<Rightarrow> nat enet_mac" where
  "board up s = (if resetting s then board_reset s else if smi_busy s then smi_done (board_rd up) board_wr s else s)"

definition board_delay :: "u32 \<Rightarrow> nat \<Rightarrow> nat" where "board_delay n p = p"

definition board_blank :: "nat enet_mac" where
  "board_blank = enet.extend enet_blank
     \<lparr>ENET_MAC_FRMF = 0, ENET_MAC_HLH = 0, ENET_MAC_HLL = 0, ENET_MAC_PHY_CTL = 0, ENET_MAC_PHY_DATA = 0, ENET_MAC_FCTL = 0, ENET_MAC_VLT = 0,
      ENET_MAC_INTMSK = 0, ENET_MAC_FCTH = 0, ENET_MSC_RINTMSK = 0, ENET_MSC_TINTMSK = 0, ENET_DMA_INTEN = 0,
      enet_initpara = \<lparr>option_enable = 0, forward_frame = 0, dmabus_mode = 0, dma_maxburst = 0, dma_arbitration = 0, store_forward_mode = 0,
        dma_function = 0, vlan_config = 0, flow_control = 0, hashtable_high = 0, hashtable_low = 0, framesfilter_mode = 0, halfduplex_param = 0,
        timer_config = 0, interframegap = 0\<rparr>, transceiver = 0\<rparr>"

lemma responsive_board: "responsive (board up) (board_rd up) board_wr board_reset"
proof -
  have "completes (board up) smi_busy s (smi_done (board_rd up) board_wr s)" if "\<not> resetting s" "smi_busy s" for s
    using that by (auto simp: completes_def board_def ENET_DELAY_TO_def intro: exI [of _ 0])
  moreover have "completes (board up) resetting s (board_reset s)" if "resetting s" for s
    using that by (auto simp: completes_def board_def ENET_DELAY_TO_def intro: exI [of _ 0])
  moreover have "\<not> resetting (board_reset s)" "\<not> smi_busy (board_reset s)" for s
    by (simp_all add: resetting_def smi_busy_def board_reset_def phy_ctl_fields ENET_DMA_BCTL_SWR_def bit_simps)
  ultimately show ?thesis by (simp add: responsive_def board_def board_reset_def)
qed

lemma board_starts: "transceiver (after_reset board_reset (\<lambda>s. s) board_blank) = 0"
  by (simp add: after_reset_def board_reset_def enet_deinit_def enet_initpara_reset_def board_blank_def enet.extend_def Let_def)

lemma board_value: "bsr_value (board_rd up) k p = (if p + k < up then 0 else 0x24)"
proof -
  have "bsr_reads (board_rd up) k p = p + k" by (induction k) (simp_all add: bsr_reads_def board_rd_def)
  then show ?thesis by (simp add: bsr_value_def board_rd_def)
qed

section \<open>Properties\<close>

text \<open>
  Claim C38: With hardware that answers in time and a bus clock that the management interface supports, the set-up of the Ethernet interface returns exactly if
  the conversation with the transceiver succeeds: a reset, of two tries, that the transceiver completes, a link and a negotiation that one of the
  reads before the time-out reports. It then leaves the controller in the negotiated mode: full duplex if bit 4 of the transceiver's status is set,
  100 Mbit/s unless bit 2 is, no loop-back, checksums by hardware, and reception and summary interrupts enabled.
\<close>

theorem ethernet_setup_negotiates:
  assumes "responsive env rd wr core_reset" and "20000000 \<le> hclk" and "hclk \<le> 400000000"
  shows "case link_setup rd wr delay (transceiver (after_reset core_reset bus_reset s)) of
      None \<Rightarrow> enet_system_setup env delay bus_reset hclk s = None
    | Some (v, p) \<Rightarrow> \<exists>s'. enet_system_setup env delay bus_reset hclk s = Some s' \<and> transceiver s' = p \<and>
        (bit (ENET_MAC_CFG s') 11 \<longleftrightarrow> bit v 4) \<and> (bit (ENET_MAC_CFG s') 14 \<longleftrightarrow> \<not> bit v 2) \<and> \<not> bit (ENET_MAC_CFG s') 12 \<and> bit (ENET_MAC_CFG s') 10 \<and>
        bit (ENET_DMA_INTEN s') 6 \<and> bit (ENET_DMA_INTEN s') 16"
proof (cases "link_setup rd wr delay (transceiver (after_reset core_reset bus_reset s))")
  case None
  then show ?thesis using setup_link [OF assms, where delay = delay and bus_reset = bus_reset and s = s] by simp
next
  case (Some vp)
  obtain v p where vp: "vp = (v, p)" by fastforce
  then obtain c d where s': "enet_system_setup env delay bus_reset hclk s = Some (enet_interrupt_enable 6 (enet_interrupt_enable 16
      (mac_settings (negotiated_mode v) ENET_AUTOCHECKSUM_DROP_FAILFRAMES ENET_BROADCAST_FRAMES_PASS
        (smi_update c d p (enet_default_init (after_reset core_reset bus_reset s))))))"
    using setup_link [OF assms, where delay = delay and bus_reset = bus_reset and s = s] Some by auto
  have "option_enable (enet_initpara (smi_update c d p (enet_default_init (after_reset core_reset bus_reset s)))) = 0"
    using after_reset_simps(2) [OF assms(1)] by simp
  from mac_settings_mode(1-5) [OF this, of v ENET_BROADCAST_FRAMES_PASS] show ?thesis
    unfolding Some vp by (simp add: s' enet_interrupt_enable_def bit_simps)
qed

theorem ethernet_setup_negotiates_witness:
  "\<exists>s'. enet_system_setup (board 0) board_delay (\<lambda>s. s) 300000000 board_blank = Some s' \<and> transceiver s' = 2 \<and>
     bit (ENET_MAC_CFG s') 11 \<and> bit (ENET_MAC_CFG s') 14 \<and> bit (ENET_DMA_INTEN s') 6"
proof -
  have pos: "0 < link_tries" by (simp add: link_tries_def PHY_READ_TO_def)
  have w1: "link_wait (board_rd 0) PHY_LINKED_STATUS link_tries 0 = Some 1"
    by (rule link_wait_now [OF pos, where v = 36]) (simp_all add: board_rd_def phy_values)
  have w2: "link_wait (board_rd 0) PHY_AUTONEGO_COMPLETE link_tries 1 = Some 2"
    by (rule link_wait_now [OF pos, where v = 36]) (simp_all add: board_rd_def phy_values)
  have "link_setup (board_rd 0) board_wr board_delay 0 = Some (0x18, 2)"
    using w1 w2 by (simp add: link_setup_def link_reset_def link_negotiate_def board_rd_def board_wr_def board_delay_def)
  then show ?thesis
    using ethernet_setup_negotiates [OF responsive_board, of 300000000 0 board_delay "\<lambda>s. s" board_blank] by (auto simp: board_starts)
qed

text \<open>
  Claim C39: If no read of the status register but the last one before the time-out reports the link, the set-up never returns: it takes the read that brings the
  count to the time-out for a failure, whatever the read shows, and answers a failure with an endless loop. The interface is not started later
  either: a board without its cable at power-up stays in the set-up.
\<close>

theorem ethernet_setup_hangs:
  assumes "responsive env rd wr core_reset" and "20000000 \<le> hclk" and "hclk \<le> 400000000"
    and "link_reset rd wr delay (transceiver (after_reset core_reset bus_reset s)) = (True, p)"
    and "\<forall>k < unat PHY_READ_TO - 1. bsr_value rd k p AND PHY_LINKED_STATUS = 0"
  shows "enet_system_setup env delay bus_reset hclk s = None"
proof -
  have "link_wait rd PHY_LINKED_STATUS link_tries p = None" using assms(5) unfolding link_wait_None link_tries_def .
  then have "link_setup rd wr delay (transceiver (after_reset core_reset bus_reset s)) = None"
    using assms(4) by (simp add: link_setup_def link_negotiate_def)
  then show ?thesis using setup_link [OF assms(1-3), where delay = delay and bus_reset = bus_reset and s = s] by simp
qed

theorem ethernet_setup_hangs_witness:
  "bsr_value (board_rd 327678) (unat PHY_READ_TO - 1) 0 AND PHY_LINKED_STATUS \<noteq> 0 \<and>
   enet_system_setup (board 327678) board_delay (\<lambda>s. s) 300000000 board_blank = None"
proof
  have to: "unat PHY_READ_TO - 1 = 327678" by (simp add: PHY_READ_TO_def)
  show "bsr_value (board_rd 327678) (unat PHY_READ_TO - 1) 0 AND PHY_LINKED_STATUS \<noteq> 0" unfolding to board_value by (simp add: phy_values)
  have "link_reset (board_rd 327678) board_wr board_delay 0 = (True, 0)" by (simp add: link_reset_def board_rd_def board_wr_def board_delay_def)
  moreover have "\<forall>k < unat PHY_READ_TO - 1. bsr_value (board_rd 327678) k 0 AND PHY_LINKED_STATUS = 0" unfolding to board_value by simp
  ultimately show "enet_system_setup (board 327678) board_delay (\<lambda>s. s) 300000000 board_blank = None"
    using ethernet_setup_hangs [OF responsive_board, of 300000000 327678 board_delay "\<lambda>s. s" board_blank 0] by (simp add: board_starts)
qed

end
