(* ===== verification/SysArch.thy ===== *)
theory SysArch
  imports KernelSemaphore OtaServer
begin

text \<open>
  The system layer of the network stack, from \<^verbatim>\<open>src/Lib/lwip_2_2_1/contrib/ports/GD32H7xx/FreeRTOS/sys_arch.c\<close>: mailboxes as
  queues of pointers, semaphores as binary semaphores, and the clock. The assertions of the stack expand to nothing in this
  port (\<^verbatim>\<open>arch/cc.h\<close>), so a failed one has no effect. A pointer is its 32-bit value, the null pointer 0.

  As for the kernel's queues, a function that may wait takes the list of what others do during its waits; \<open>None\<close> means that it never returns.
\<close>

section \<open>Constants\<close>

definition ERR_MEM :: int where "ERR_MEM = -1"
definition ERR_NEED_SCHED :: int where "ERR_NEED_SCHED = 123"
definition SYS_ARCH_TIMEOUT :: u32 where "SYS_ARCH_TIMEOUT = 0xffffffff"
definition SYS_MBOX_EMPTY :: u32 where "SYS_MBOX_EMPTY = SYS_ARCH_TIMEOUT"
definition portTICK_PERIOD_MS :: u32 where "portTICK_PERIOD_MS = 1000 div 1000"

section \<open>Clock\<close>

definition sys_now :: "u32 \<Rightarrow> u32" where "sys_now xTickCount = xTickCount * portTICK_PERIOD_MS"
definition sys_jiffies :: "u32 \<Rightarrow> u32" where "sys_jiffies xTickCount = xTickCount"

section \<open>Mailboxes\<close>

type_synonym mailbox = "Queue_t \<times> scheduler"
type_synonym others = "(mailbox \<Rightarrow> mailbox) list"

definition sizeof_pointer :: u32 where "sizeof_pointer = 4"

definition sys_mbox_new :: "u32 \<Rightarrow> u8 list option \<Rightarrow> (int \<times> Queue_t option) option" where
  "sys_mbox_new len block =
     (case xQueueGenericCreate len sizeof_pointer block of
        None \<Rightarrow> None
      | Some None \<Rightarrow> Some (ERR_MEM, None)
      | Some (Some mbx) \<Rightarrow> Some (ERR_OK, Some mbx))"

definition sys_mbox_post :: "others \<Rightarrow> u32 \<Rightarrow> mailbox \<Rightarrow> mailbox option" where
  "sys_mbox_post waits msg mbox =
     map_option snd (xQueueGenericSend waits (le_bytes 4 msg) portMAX_DELAY queueSEND_TO_BACK mbox)"

definition sys_mbox_trypost :: "u32 \<Rightarrow> mailbox \<Rightarrow> (int \<times> mailbox) option" where
  "sys_mbox_trypost msg mbox =
     (case xQueueGenericSend [] (le_bytes 4 msg) 0 queueSEND_TO_BACK mbox of
        None \<Rightarrow> None
      | Some (ret, mbox') \<Rightarrow> Some (if ret then ERR_OK else ERR_MEM, mbox'))"

text \<open>Whether the post woke a task of a higher priority is what the queue reports through its last parameter.\<close>

definition sys_mbox_trypost_fromisr :: "u32 \<Rightarrow> mailbox \<Rightarrow> (int \<times> mailbox) option" where
  "sys_mbox_trypost_fromisr msg mbox =
     (case xQueueGenericSendFromISR (le_bytes 4 msg) queueSEND_TO_BACK (fst mbox, (snd mbox)\<lparr>yield_requested := False\<rparr>) of
        None \<Rightarrow> None
      | Some (ret, q, k) \<Rightarrow>
          (let woken = yield_requested k; mbox' = (q, k\<lparr>yield_requested := woken \<or> yield_requested (snd mbox)\<rparr>)
           in Some (if ret then (if woken then ERR_NEED_SCHED else ERR_OK) else ERR_MEM, mbox')))"

text \<open>Fetching returns the code and what is stored through the message pointer.\<close>

definition sys_arch_mbox_fetch :: "others \<Rightarrow> u32 \<Rightarrow> mailbox \<Rightarrow> (u32 \<times> u32 \<times> mailbox) option" where
  "sys_arch_mbox_fetch waits timeout_ms mbox =
     (case xQueueReceive waits (if timeout_ms = 0 then portMAX_DELAY else timeout_ms div portTICK_PERIOD_MS) mbox of
        None \<Rightarrow> None
      | Some (Some bs, mbox') \<Rightarrow> Some (1, le_word bs, mbox')
      | Some (None, mbox') \<Rightarrow> Some (if timeout_ms = 0 then 1 else SYS_ARCH_TIMEOUT, 0, mbox'))"

definition sys_arch_mbox_tryfetch :: "mailbox \<Rightarrow> (u32 \<times> u32 \<times> mailbox) option" where
  "sys_arch_mbox_tryfetch mbox =
     (case xQueueReceive [] 0 mbox of
        None \<Rightarrow> None
      | Some (Some bs, mbox') \<Rightarrow> Some (1, le_word bs, mbox')
      | Some (None, mbox') \<Rightarrow> Some (SYS_MBOX_EMPTY, 0, mbox'))"

section \<open>Semaphores\<close>

definition sys_sem_new :: "u8 \<Rightarrow> u8 list option \<Rightarrow> scheduler \<Rightarrow> (int \<times> Queue_t option \<times> scheduler) option" where
  "sys_sem_new initial_count block k =
     (case xSemaphoreCreateBinary block of
        None \<Rightarrow> None
      | Some None \<Rightarrow> Some (ERR_MEM, None, k)
      | Some (Some q) \<Rightarrow>
          if initial_count = 1
          then map_option (\<lambda>(ret, q', k'). (ERR_OK, Some q', k')) (xSemaphoreGive (q, k))
          else Some (ERR_OK, Some q, k))"

definition sys_sem_signal :: "mailbox \<Rightarrow> mailbox option" where
  "sys_sem_signal sem = map_option snd (xSemaphoreGive sem)"

definition sys_arch_sem_wait :: "others \<Rightarrow> u32 \<Rightarrow> mailbox \<Rightarrow> (u32 \<times> mailbox) option" where
  "sys_arch_sem_wait waits timeout_ms sem =
     (if timeout_ms = 0
      then map_option (\<lambda>(ret, sem'). (1, sem')) (xQueueSemaphoreTake waits portMAX_DELAY sem)
      else (case xQueueSemaphoreTake waits (timeout_ms div portTICK_PERIOD_MS) sem of
              None \<Rightarrow> None
            | Some (ret, sem') \<Rightarrow> Some (if ret then 1 else SYS_ARCH_TIMEOUT, sem')))"

section \<open>A mailbox as a list of pointers\<close>

definition mbox_ok :: "mailbox \<Rightarrow> bool" where "mbox_ok mbox \<longleftrightarrow> queue_ok mbox \<and> item_size mbox = 4"
definition messages :: "mailbox \<Rightarrow> u32 list" where "messages mbox = map le_word (items_of mbox)"

lemma pointer_bytes [simp]: "le_word (le_bytes 4 msg) = (msg :: u32)"
  by (rule le_word_le_bytes) simp

lemma accepts_back: "accepts queueSEND_TO_BACK mbox \<longleftrightarrow> length (messages mbox) < capacity_of mbox"
  by (simp add: accepts_def messages_def)

lemma send_full:
  assumes "mbox_ok mbox" and "\<not> length (messages mbox) < capacity_of mbox"
  shows "send_attempt (le_bytes 4 msg) queueSEND_TO_BACK mbox = None"
  using assms send_attempt_spec(1) [of mbox "le_bytes 4 msg" queueSEND_TO_BACK]
  by (simp add: mbox_ok_def accepts_back valid_position_def)

lemma send_room:
  assumes "mbox_ok mbox" and "length (messages mbox) < capacity_of mbox"
  shows "\<exists>mbox'. send_attempt (le_bytes 4 msg) queueSEND_TO_BACK mbox = Some mbox' \<and> mbox_ok mbox' \<and>
    capacity_of mbox' = capacity_of mbox \<and> messages mbox' = messages mbox @ [msg]"
proof -
  have "\<exists>mbox'. send_attempt (le_bytes 4 msg) queueSEND_TO_BACK mbox = Some mbox' \<and>
       queue_ok mbox' \<and> item_size mbox' = item_size mbox \<and> capacity_of mbox' = capacity_of mbox \<and>
       items_of mbox' = put_item queueSEND_TO_BACK (le_bytes 4 msg) (items_of mbox)"
    by (rule send_attempt_spec(2)) (use assms in \<open>simp_all add: mbox_ok_def accepts_back valid_position_def\<close>)
  then show ?thesis using assms(1) by (auto simp: mbox_ok_def messages_def put_item_def)
qed

lemma receive_empty: "mbox_ok mbox \<Longrightarrow> receive_attempt mbox = None \<longleftrightarrow> messages mbox = []"
  using receive_attempt_spec(1) by (simp add: mbox_ok_def messages_def)

lemma receive_message:
  assumes "mbox_ok mbox" and "messages mbox = msg # ms"
  shows "\<exists>bs mbox'. receive_attempt mbox = Some (bs, mbox') \<and> le_word bs = msg \<and> mbox_ok mbox' \<and>
    capacity_of mbox' = capacity_of mbox \<and> messages mbox' = ms"
proof -
  have "receive_attempt mbox \<noteq> None" using receive_empty [OF assms(1)] assms(2) by simp
  then obtain bs mbox' where r: "receive_attempt mbox = Some (bs, mbox')" by auto
  then show ?thesis
    using receive_attempt_spec(2) [of mbox bs mbox'] assms by (auto simp: mbox_ok_def messages_def)
qed

text \<open>The operations against the list, without anything else happening meanwhile.\<close>

datatype mbox_op = Mb_post u32 | Mb_trypost u32 | Mb_trypost_isr u32 | Mb_fetch u32 | Mb_tryfetch
datatype mbox_result = Posted | Code int | Fetched u32 u32

fun mbox_step :: "mbox_op \<Rightarrow> mailbox \<Rightarrow> (mbox_result \<times> mailbox) option" where
  "mbox_step (Mb_post msg) mbox = map_option (Pair Posted) (sys_mbox_post [] msg mbox)"
| "mbox_step (Mb_trypost msg) mbox = map_option (apfst Code) (sys_mbox_trypost msg mbox)"
| "mbox_step (Mb_trypost_isr msg) mbox =
     map_option (apfst (\<lambda>err. Code (if err = ERR_NEED_SCHED then ERR_OK else err))) (sys_mbox_trypost_fromisr msg mbox)"
| "mbox_step (Mb_fetch t) mbox = map_option (\<lambda>(code, msg, mbox'). (Fetched code msg, mbox')) (sys_arch_mbox_fetch [] t mbox)"
| "mbox_step Mb_tryfetch mbox = map_option (\<lambda>(code, msg, mbox'). (Fetched code msg, mbox')) (sys_arch_mbox_tryfetch mbox)"

fun pointer_step :: "nat \<Rightarrow> mbox_op \<Rightarrow> u32 list \<Rightarrow> (mbox_result \<times> u32 list) option" where
  "pointer_step n (Mb_post msg) ms = (if length ms < n then Some (Posted, ms @ [msg]) else None)"
| "pointer_step n (Mb_trypost msg) ms = Some (if length ms < n then (Code ERR_OK, ms @ [msg]) else (Code ERR_MEM, ms))"
| "pointer_step n (Mb_trypost_isr msg) ms = Some (if length ms < n then (Code ERR_OK, ms @ [msg]) else (Code ERR_MEM, ms))"
| "pointer_step n (Mb_fetch t) ms =
     (case ms of msg # rest \<Rightarrow> Some (Fetched 1 msg, rest)
      | [] \<Rightarrow> if t = 0 \<or> t = portMAX_DELAY then None else Some (Fetched SYS_ARCH_TIMEOUT 0, []))"
| "pointer_step n Mb_tryfetch ms =
     Some (case ms of msg # rest \<Rightarrow> (Fetched 1 msg, rest) | [] \<Rightarrow> (Fetched SYS_MBOX_EMPTY 0, []))"

definition mbox_sim :: "(mbox_result \<times> mailbox) option \<Rightarrow> (mbox_result \<times> u32 list) option \<Rightarrow> nat \<Rightarrow> bool" where
  "mbox_sim a b n \<longleftrightarrow>
     (case b of None \<Rightarrow> a = None
      | Some (r, ms) \<Rightarrow> (\<exists>mbox. a = Some (r, mbox) \<and> mbox_ok mbox \<and> capacity_of mbox = n \<and> messages mbox = ms))"

lemma tick_ms [simp]: "t div portTICK_PERIOD_MS = t"
  by (simp add: portTICK_PERIOD_MS_def)

lemma mbox_fetch_step:
  assumes "mbox_ok mbox"
  shows "mbox_sim (mbox_step (Mb_fetch t) mbox) (pointer_step (capacity_of mbox) (Mb_fetch t) (messages mbox)) (capacity_of mbox)"
    and "mbox_sim (mbox_step Mb_tryfetch mbox) (pointer_step (capacity_of mbox) Mb_tryfetch (messages mbox)) (capacity_of mbox)"
proof -
  have "mbox_sim (mbox_step (Mb_fetch t) mbox) (pointer_step (capacity_of mbox) (Mb_fetch t) (messages mbox)) (capacity_of mbox) \<and>
    mbox_sim (mbox_step Mb_tryfetch mbox) (pointer_step (capacity_of mbox) Mb_tryfetch (messages mbox)) (capacity_of mbox)"
  proof (cases "messages mbox")
    case Nil
    then have "receive_attempt mbox = None" using receive_empty assms by simp
    then show ?thesis
      using Nil assms by (simp add: mbox_sim_def sys_arch_mbox_fetch_def sys_arch_mbox_tryfetch_def xQueueReceive_no_wait portMAX_DELAY_def)
  next
    case (Cons msg ms)
    then show ?thesis
      using receive_message [OF assms Cons]
      by (auto simp: mbox_sim_def sys_arch_mbox_fetch_def sys_arch_mbox_tryfetch_def xQueueReceive_no_wait)
  qed
  then show "mbox_sim (mbox_step (Mb_fetch t) mbox) (pointer_step (capacity_of mbox) (Mb_fetch t) (messages mbox)) (capacity_of mbox)"
    and "mbox_sim (mbox_step Mb_tryfetch mbox) (pointer_step (capacity_of mbox) Mb_tryfetch (messages mbox)) (capacity_of mbox)" by blast+
qed

lemma mbox_post_step:
  assumes "mbox_ok mbox"
  shows "mbox_sim (mbox_step (Mb_post msg) mbox) (pointer_step (capacity_of mbox) (Mb_post msg) (messages mbox)) (capacity_of mbox)"
    and "mbox_sim (mbox_step (Mb_trypost msg) mbox) (pointer_step (capacity_of mbox) (Mb_trypost msg) (messages mbox)) (capacity_of mbox)"
proof -
  have "mbox_sim (mbox_step (Mb_post msg) mbox) (pointer_step (capacity_of mbox) (Mb_post msg) (messages mbox)) (capacity_of mbox) \<and>
    mbox_sim (mbox_step (Mb_trypost msg) mbox) (pointer_step (capacity_of mbox) (Mb_trypost msg) (messages mbox)) (capacity_of mbox)"
  proof (cases "length (messages mbox) < capacity_of mbox")
    case True
    then show ?thesis
      using send_room [OF assms True, of msg]
      by (auto simp: mbox_sim_def sys_mbox_post_def sys_mbox_trypost_def xQueueGenericSend_no_wait)
  next
    case False
    have "portMAX_DELAY \<noteq> (0 :: u32)" by (simp add: portMAX_DELAY_def)
    then show ?thesis
      using False send_full [OF assms False, of msg] assms
      by (simp add: mbox_sim_def sys_mbox_post_def sys_mbox_trypost_def xQueueGenericSend_no_wait)
  qed
  then show "mbox_sim (mbox_step (Mb_post msg) mbox) (pointer_step (capacity_of mbox) (Mb_post msg) (messages mbox)) (capacity_of mbox)"
    and "mbox_sim (mbox_step (Mb_trypost msg) mbox) (pointer_step (capacity_of mbox) (Mb_trypost msg) (messages mbox)) (capacity_of mbox)" by blast+
qed

lemma mbox_isr_step:
  assumes "mbox_ok mbox"
  shows "mbox_sim (mbox_step (Mb_trypost_isr msg) mbox) (pointer_step (capacity_of mbox) (Mb_trypost_isr msg) (messages mbox)) (capacity_of mbox)"
proof -
  let ?m = "(fst mbox, (snd mbox)\<lparr>yield_requested := False\<rparr>)"
  have m: "queue_ok ?m" "item_size ?m = 4" "items_of ?m = items_of mbox" "capacity_of ?m = capacity_of mbox"
    using assms by (cases mbox; simp add: mbox_ok_def queue_abs)+
  obtain qk where s: "xQueueGenericSendFromISR (le_bytes 4 msg) queueSEND_TO_BACK ?m = Some (accepts queueSEND_TO_BACK ?m, qk)"
      "queue_ok qk" "item_size qk = item_size ?m" "capacity_of qk = capacity_of ?m"
      "items_of qk = (if accepts queueSEND_TO_BACK ?m then put_item queueSEND_TO_BACK (le_bytes 4 msg) (items_of ?m) else items_of ?m)"
    by (rule xQueueGenericSendFromISR_spec [of ?m "le_bytes 4 msg" queueSEND_TO_BACK]) (use m in \<open>simp_all add: valid_position_def\<close>)
  obtain q k where qk: "qk = (q, k)" by fastforce
  let ?r = "(q, k\<lparr>yield_requested := yield_requested k \<or> yield_requested (snd mbox)\<rparr>)"
  have r: "queue_ok ?r" "item_size ?r = 4" "capacity_of ?r = capacity_of mbox" "items_of ?r = items_of qk"
    using s m qk by (simp_all add: queue_abs)
  have n: "ERR_MEM \<noteq> ERR_NEED_SCHED" "ERR_OK \<noteq> ERR_NEED_SCHED" by (simp_all add: ERR_NEED_SCHED_def ERR_MEM_def ERR_OK_def)
  have a: "accepts queueSEND_TO_BACK ?m = (length (messages mbox) < capacity_of mbox)" using m by (simp add: accepts_def messages_def)
  show ?thesis
    using s(1,5) r n m(3) by (auto simp: mbox_sim_def sys_mbox_trypost_fromisr_def qk a mbox_ok_def messages_def put_item_def Let_def)
qed

lemma mbox_step_sim:
  assumes "mbox_ok mbox"
  shows "mbox_sim (mbox_step op mbox) (pointer_step (capacity_of mbox) op (messages mbox)) (capacity_of mbox)"
  using mbox_fetch_step [OF assms] mbox_post_step [OF assms] mbox_isr_step [OF assms] by (cases op) (simp_all del: mbox_step.simps pointer_step.simps)

fun mbox_run :: "mbox_op list \<Rightarrow> mailbox \<Rightarrow> (mbox_result list \<times> mailbox) option" where
  "mbox_run [] mbox = Some ([], mbox)"
| "mbox_run (op # ops) mbox =
     (case mbox_step op mbox of None \<Rightarrow> None | Some (r, mbox') \<Rightarrow> map_option (apfst ((#) r)) (mbox_run ops mbox'))"

fun pointer_run :: "nat \<Rightarrow> mbox_op list \<Rightarrow> u32 list \<Rightarrow> (mbox_result list \<times> u32 list) option" where
  "pointer_run n [] ms = Some ([], ms)"
| "pointer_run n (op # ops) ms =
     (case pointer_step n op ms of None \<Rightarrow> None | Some (r, ms') \<Rightarrow> map_option (apfst ((#) r)) (pointer_run n ops ms'))"

lemma mbox_run_sim:
  assumes "mbox_ok mbox"
  shows "map_option (apsnd messages) (mbox_run ops mbox) = pointer_run (capacity_of mbox) ops (messages mbox)"
  using assms
proof (induction ops arbitrary: mbox)
  case Nil
  then show ?case by simp
next
  case (Cons op ops)
  note s = mbox_step_sim [OF Cons.prems, of op]
  show ?case
  proof (cases "pointer_step (capacity_of mbox) op (messages mbox)")
    case None
    then show ?thesis using s by (simp add: mbox_sim_def)
  next
    case (Some p)
    then obtain r ms where p: "pointer_step (capacity_of mbox) op (messages mbox) = Some (r, ms)" by (cases p) auto
    then obtain mbox' where m: "mbox_step op mbox = Some (r, mbox')" "mbox_ok mbox'" "capacity_of mbox' = capacity_of mbox" "messages mbox' = ms"
      using s by (auto simp: mbox_sim_def)
    then show ?thesis
      using Cons.IH [OF m(2)] p by (cases "mbox_run ops mbox'"; cases "pointer_run (capacity_of mbox) ops ms") auto
  qed
qed

lemma mbox_created:
  assumes "0 < len" and "unat len \<le> 1000" and "length block = unat len * 4"
  shows "\<exists>q. sys_mbox_new len (Some block) = Some (ERR_OK, Some q) \<and>
    (\<forall>k. unat (uxCurrentNumberOfTasks k) \<le> 127 \<longrightarrow> mbox_ok (q, k) \<and> capacity_of (q, k) = unat len \<and> messages (q, k) = [])"
proof -
  have "\<exists>q. xQueueGenericCreate len sizeof_pointer (Some block) = Some (Some q) \<and> queue_wf q \<and> queue_items q = [] \<and>
    uxLength q = len \<and> uxItemSize q = sizeof_pointer \<and> xTasksWaitingToReceive q = [] \<and> xTasksWaitingToSend q = [] \<and>
    cTxLock q = queueUNLOCKED \<and> cRxLock q = queueUNLOCKED"
    by (rule xQueueGenericCreate_ok) (use assms in \<open>simp_all add: sizeof_pointer_def\<close>)
  then show ?thesis
    by (auto simp: sys_mbox_new_def mbox_ok_def messages_def queue_abs sizeof_pointer_def)
qed

text \<open>The contract of an item queue, for posting without waiting and fetching without waiting.\<close>

definition mbox_try :: "u32 \<Rightarrow> mailbox \<Rightarrow> bool \<times> mailbox" where
  "mbox_try msg mbox = (case sys_mbox_trypost msg mbox of None \<Rightarrow> (False, mbox) | Some (err, mbox') \<Rightarrow> (err = ERR_OK, mbox'))"

definition mbox_get :: "mailbox \<Rightarrow> u32 option \<times> mailbox" where
  "mbox_get mbox =
     (case sys_arch_mbox_tryfetch mbox of None \<Rightarrow> (None, mbox) | Some (code, msg, mbox') \<Rightarrow> (if code = 1 then Some msg else None, mbox'))"

interpretation mbox: item_queue mbox_ok "\<lambda>_ _. True" messages capacity_of mbox_try mbox_get
proof (unfold_locales, goal_cases)
  case (1 mbox msg ok mbox')
  have "ERR_OK \<noteq> ERR_MEM" by (simp add: ERR_OK_def ERR_MEM_def)
  then show ?case
    using mbox_step_sim [OF 1(1), of "Mb_trypost msg"] 1(3)
    by (cases "sys_mbox_trypost msg mbox") (auto simp: mbox_sim_def mbox_try_def split: if_splits)
next
  case (2 mbox r mbox')
  have "SYS_MBOX_EMPTY \<noteq> 1" by (simp add: SYS_MBOX_EMPTY_def SYS_ARCH_TIMEOUT_def)
  then show ?case
    using mbox_step_sim [OF 2(1), of Mb_tryfetch] 2(2)
    by (cases "sys_arch_mbox_tryfetch mbox"; cases "messages mbox") (auto simp: mbox_sim_def mbox_get_def split: if_splits)
qed

section \<open>A semaphore as a flag\<close>

text \<open>
  A signal is kept until someone waits, a second one adds nothing; a waiting task returns when it is signalled; without a signal a wait with
  a limit times out, and one without a limit never returns.
\<close>

lemma sem_created:
  assumes "c = 0 \<or> c = 1"
  shows "\<exists>q k'. sys_sem_new c (Some block) k = Some (ERR_OK, Some q, k') \<and> binary_sem (unat c) q"
proof -
  obtain q where q: "xQueueGenericCreate 1 semSEMAPHORE_QUEUE_ITEM_LENGTH (Some block) = Some (Some q)" "binary_sem 0 q"
    using semaphore_created [of 1 block k] binary_sem_iff [of 0 _ k] by auto
  show ?thesis
    using assms q binary_give [OF q(2), of k] by (auto simp: sys_sem_new_def xSemaphoreCreateBinary_def)
qed

lemma sem_signalled:
  assumes "binary_sem n q"
  shows "\<exists>q1 k1. sys_sem_signal (q, k) = Some (q1, k1) \<and> (\<exists>q2 k2. sys_arch_sem_wait waits t (q1, k1) = Some (1, q2, k2) \<and> binary_sem 0 q2)"
proof -
  obtain r q1 k1 where g: "xSemaphoreGive (q, k) = Some (r, q1, k1)" "binary_sem 1 q1" using binary_give [OF assms] by blast
  obtain q2 k2 where "xQueueSemaphoreTake waits (if t = 0 then portMAX_DELAY else t) (q1, k1) = Some (True, q2, k2)" "binary_sem 0 q2"
    using binary_take_1 [OF g(2)] by blast
  then show ?thesis using g(1) by (auto simp: sys_sem_signal_def sys_arch_sem_wait_def split: if_splits)
qed

lemma sem_wait_ends:
  assumes "binary_sem 0 q"
  shows "sys_arch_sem_wait [] t (q, k) = (if t = 0 \<or> t = portMAX_DELAY then None else Some (SYS_ARCH_TIMEOUT, q, k))"
    and "\<exists>q' k'. sys_arch_sem_wait [\<lambda>m. the (sys_sem_signal m)] t (q, k) = Some (1, q', k') \<and> binary_sem 0 q'"
proof -
  have e: "take_attempt (q, k) = None" "uxItemSize q = 0" using assms by (simp_all add: binary_sem_def take_attempt_def word_less_nat_alt)
  then show "sys_arch_sem_wait [] t (q, k) = (if t = 0 \<or> t = portMAX_DELAY then None else Some (SYS_ARCH_TIMEOUT, q, k))"
    by (simp add: sys_arch_sem_wait_def xQueueSemaphoreTake_def semaphore_take_loop.simps portMAX_DELAY_def)
  obtain r q1 k1 where g: "xSemaphoreGive (q, k) = Some (r, q1, k1)" "binary_sem 1 q1" using binary_give [OF assms] by blast
  obtain q2 k2 where q2: "take_attempt (q1, k1) = Some (q2, k2)" "binary_sem 0 q2"
    using binary_take_1 [OF g(2), of "[]" 0 k1] g(2)
    by (auto simp: xQueueSemaphoreTake_def semaphore_take_loop.simps binary_sem_def split: option.splits)
  have "t \<noteq> 0 \<Longrightarrow> t \<noteq> (0 :: u32)" "portMAX_DELAY \<noteq> (0 :: u32)" by (simp_all add: portMAX_DELAY_def)
  then have "semaphore_take_loop [\<lambda>m. the (sys_sem_signal m)] t' (q, k) = Some (True, q2, k2)" if "t' \<noteq> 0" for t'
    using that e(1) g(1) q2(1) by (simp add: semaphore_take_loop.simps [of "_ # _"] semaphore_take_loop.simps [of "[]"] sys_sem_signal_def)
  then show "\<exists>q' k'. sys_arch_sem_wait [\<lambda>m. the (sys_sem_signal m)] t (q, k) = Some (1, q', k') \<and> binary_sem 0 q'"
    using e(2) q2(2) by (simp add: sys_arch_sem_wait_def xQueueSemaphoreTake_def portMAX_DELAY_def)
qed

section \<open>Properties\<close>

text \<open>
  Claim C20: A mailbox of the network stack is a bounded list of pointers. Any sequence of posts, attempts to post from tasks and interrupts and fetches gives the
  results it gives on a list of at most as many pointers as the mailbox was created for, and blocks where that list is full or empty.
\<close>

theorem mailbox_refines_list:
  assumes "0 < len" and "unat len \<le> 1000" and "length block = unat len * 4" and "unat (uxCurrentNumberOfTasks k) \<le> 127"
  shows "\<exists>q. sys_mbox_new len (Some block) = Some (ERR_OK, Some q) \<and>
    map_option (apsnd messages) (mbox_run ops (q, k)) = pointer_run (unat len) ops []"
proof -
  obtain q where q: "sys_mbox_new len (Some block) = Some (ERR_OK, Some q)" "mbox_ok (q, k)" "capacity_of (q, k) = unat len" "messages (q, k) = []"
    using mbox_created [OF assms(1-3)] assms(4) by blast
  then show ?thesis using mbox_run_sim [OF q(2), of ops] by simp
qed

theorem mailbox_refines_list_witness:
  "\<exists>q. sys_mbox_new 2 (Some (replicate 8 0)) = Some (ERR_OK, Some q) \<and>
     map_option (apsnd messages) (mbox_run [Mb_trypost 5, Mb_post 6, Mb_trypost 7, Mb_tryfetch, Mb_trypost_isr 8, Mb_fetch 0] (q, scheduler_sample)) =
       Some ([Code ERR_OK, Posted, Code ERR_MEM, Fetched 1 5, Code ERR_OK, Fetched 1 6], [8])"
  using mailbox_refines_list [of 2 "replicate 8 0" scheduler_sample "[Mb_trypost 5, Mb_post 6, Mb_trypost 7, Mb_tryfetch, Mb_trypost_isr 8, Mb_fetch 0]"]
  by (simp add: scheduler_sample_def)

text \<open>
  Waiting ends and keeps the order. A task that posts to a full mailbox returns as soon as another task fetches, and its message goes behind those already
  there; a task that fetches from an empty mailbox returns the message another task posts meanwhile.
\<close>

theorem mailbox_waits_end:
  assumes "mbox_ok mbox" and "0 < capacity_of mbox"
  shows "(length (messages mbox) = capacity_of mbox \<longrightarrow>
      (\<exists>mbox'. sys_mbox_post [\<lambda>m. snd (mbox_get m)] msg mbox = Some mbox' \<and> messages mbox' = tl (messages mbox) @ [msg])) \<and>
    (messages mbox = [] \<longrightarrow>
      (\<exists>mbox'. sys_arch_mbox_fetch [\<lambda>m. snd (mbox_try msg m)] t mbox = Some (1, msg, mbox') \<and> messages mbox' = []))"
proof (intro conjI impI)
  assume full: "length (messages mbox) = capacity_of mbox"
  obtain r mb where g: "mbox_get mbox = (r, mb)" by (cases "mbox_get mbox") blast
  obtain m0 ms where ms: "messages mbox = m0 # ms" using full assms(2) by (cases "messages mbox") auto
  have "mbox_ok mb" "capacity_of mb = capacity_of mbox" "messages mb = ms"
    using mbox.take_law [OF assms(1) g] ms by (auto split: option.splits)
  moreover have "length ms < capacity_of mbox" using full ms by simp
  ultimately obtain mb' where "send_attempt (le_bytes 4 msg) queueSEND_TO_BACK mb = Some mb'" "messages mb' = ms @ [msg]"
    using send_room [of mb msg] by auto
  moreover have "send_attempt (le_bytes 4 msg) queueSEND_TO_BACK mbox = None" using send_full [OF assms(1)] full by simp
  moreover have "portMAX_DELAY \<noteq> (0 :: u32)" by (simp add: portMAX_DELAY_def)
  ultimately show "\<exists>mbox'. sys_mbox_post [\<lambda>m. snd (mbox_get m)] msg mbox = Some mbox' \<and> messages mbox' = tl (messages mbox) @ [msg]"
    using g ms by (simp add: sys_mbox_post_def xQueueGenericSend.simps [of "_ # _"] xQueueGenericSend_no_wait)
next
  assume empty: "messages mbox = []"
  obtain r mb where p: "mbox_try msg mbox = (r, mb)" by (cases "mbox_try msg mbox") blast
  have "mbox_ok mb" "messages mb = [msg]" using mbox.post_law [OF assms(1) _ p] assms(2) empty by auto
  then obtain bs mb' where "receive_attempt mb = Some (bs, mb')" "le_word bs = msg" "messages mb' = []"
    using receive_message by blast
  moreover have "receive_attempt mbox = None" using receive_empty [OF assms(1)] empty by simp
  moreover have "portMAX_DELAY \<noteq> (0 :: u32)" by (simp add: portMAX_DELAY_def)
  ultimately show "\<exists>mbox'. sys_arch_mbox_fetch [\<lambda>m. snd (mbox_try msg m)] t mbox = Some (1, msg, mbox') \<and> messages mbox' = []"
    using p by (cases mb') (simp add: sys_arch_mbox_fetch_def xQueueReceive.simps [of "_ # _"] xQueueReceive_no_wait)
qed

theorem mailbox_waits_end_witness:
  "\<exists>q mbox'. sys_mbox_new 1 (Some [0, 0, 0, 0]) = Some (ERR_OK, Some q) \<and>
     sys_arch_mbox_fetch [\<lambda>m. snd (mbox_try 9 m)] 0 (q, scheduler_sample) = Some (1, 9, mbox')"
proof -
  obtain q where q: "sys_mbox_new 1 (Some [0, 0, 0, 0]) = Some (ERR_OK, Some q)" "mbox_ok (q, scheduler_sample)"
      "capacity_of (q, scheduler_sample) = 1" "messages (q, scheduler_sample) = []"
    using mbox_created [of 1 "[0, 0, 0, 0]"] by (auto simp: scheduler_sample_def)
  then show ?thesis using mailbox_waits_end [OF q(2), of 9 0] by auto
qed

end
