(* ===== verification/KernelMutex.thy ===== *)
theory KernelMutex
  imports KernelBoot
begin

text \<open>
  Mutexes and priority inheritance, from \<^verbatim>\<open>src/FreeRtos/kernel/tasks.c\<close> and \<^verbatim>\<open>queue.c\<close>, on the model of the scheduler: a task that blocks on a
  mutex lends its priority to the holder, which moves to the list of ready tasks of that priority; giving the last mutex back, or the time-out of the
  waiting task, ends the loan. Recursive mutexes count the calls of their holder.

  A mutex is a queue with items of no bytes, one place, a holder and a counter. Nobody ever waits for giving one back, so
  that only the list of the tasks that wait for it matters; this list is an event list of the scheduler.
\<close>

section \<open>Priorities\<close>

definition set_priority :: "nat \<Rightarrow> u32 \<Rightarrow> 's kernel \<Rightarrow> 's kernel" where
  "set_priority t p k = k\<lparr>tcb := (tcb k)(t := (tcb k t)\<lparr>uxPriority := p\<rparr>)\<rparr>"

definition pvTaskIncrementMutexHeldCount :: "'s kernel \<Rightarrow> nat option \<times> 's kernel" where
  "pvTaskIncrementMutexHeldCount k =
     (case pxCurrentTCB k of
        None \<Rightarrow> (None, k)
      | Some cur \<Rightarrow> (Some cur, k\<lparr>tcb := (tcb k)(cur := (tcb k cur)\<lparr>uxMutexesHeld := uxMutexesHeld (tcb k cur) + 1\<rparr>)\<rparr>))"

definition xTaskPriorityInherit :: "'s list_step \<Rightarrow> nat option \<Rightarrow> 's kernel \<Rightarrow> (bool \<times> 's kernel) option" where
  "xTaskPriorityInherit st pxMutexHolder k =
     (case pxMutexHolder of
        None \<Rightarrow> Some (False, k)
      | Some h \<Rightarrow> do {
          cur \<leftarrow> pxCurrentTCB k;
          if uxPriority (tcb k h) < uxPriority (tcb k cur)
          then do {
            (v, k) \<leftarrow> list_num st (Op_GetValue (xEventListItem h)) k;
            k \<leftarrow> (if v AND taskEVENT_LIST_ITEM_VALUE_IN_USE = 0
                  then list_do st (Op_SetValue (xEventListItem h) (configMAX_PRIORITIES - uxPriority (tcb k cur))) k else Some k);
            (c, k) \<leftarrow> list_place st (Op_Container (xStateListItem h)) k;
            k \<leftarrow> (if c = Some (pxReadyTasksLists (unat (uxPriority (tcb k h))))
                  then do {
                    (n, k) \<leftarrow> list_num st (Op_Remove (xStateListItem h)) k;
                    let k = (if n = 0 then portRESET_READY_PRIORITY (uxPriority (tcb k h)) k else k);
                    prvAddTaskToReadyList st h (set_priority h (uxPriority (tcb k cur)) k)
                  }
                  else Some (set_priority h (uxPriority (tcb k cur)) k));
            Some (True, k)
          }
          else Some (uxBasePriority (tcb k h) < uxPriority (tcb k cur), k)
        })"

definition xTaskPriorityDisinherit :: "'s list_step \<Rightarrow> nat option \<Rightarrow> 's kernel \<Rightarrow> (bool \<times> 's kernel) option" where
  "xTaskPriorityDisinherit st pxMutexHolder k =
     (case pxMutexHolder of
        None \<Rightarrow> Some (False, k)
      | Some t \<Rightarrow> do {
          _ \<leftarrow> assert (pxCurrentTCB k = Some t);
          _ \<leftarrow> assert (uxMutexesHeld (tcb k t) \<noteq> 0);
          let k = k\<lparr>tcb := (tcb k)(t := (tcb k t)\<lparr>uxMutexesHeld := uxMutexesHeld (tcb k t) - 1\<rparr>)\<rparr>;
          if uxPriority (tcb k t) \<noteq> uxBasePriority (tcb k t) \<and> uxMutexesHeld (tcb k t) = 0
          then do {
            (n, k) \<leftarrow> list_num st (Op_Remove (xStateListItem t)) k;
            let k = (if n = 0 then portRESET_READY_PRIORITY (uxPriority (tcb k t)) k else k);
            let k = set_priority t (uxBasePriority (tcb k t)) k;
            k \<leftarrow> list_do st (Op_SetValue (xEventListItem t) (configMAX_PRIORITIES - uxPriority (tcb k t))) k;
            k \<leftarrow> prvAddTaskToReadyList st t k;
            Some (True, k)
          }
          else Some (False, k)
        })"

text \<open>The bit that is cleared below is that of the new priority.\<close>

definition vTaskPriorityDisinheritAfterTimeout :: "'s list_step \<Rightarrow> nat option \<Rightarrow> u32 \<Rightarrow> 's kernel \<Rightarrow> 's kernel option" where
  "vTaskPriorityDisinheritAfterTimeout st pxMutexHolder uxHighestPriorityWaitingTask k =
     (case pxMutexHolder of
        None \<Rightarrow> Some k
      | Some t \<Rightarrow> do {
          _ \<leftarrow> assert (uxMutexesHeld (tcb k t) \<noteq> 0);
          let uxPriorityToUse = (if uxBasePriority (tcb k t) < uxHighestPriorityWaitingTask then uxHighestPriorityWaitingTask
                                 else uxBasePriority (tcb k t));
          if uxPriority (tcb k t) \<noteq> uxPriorityToUse \<and> uxMutexesHeld (tcb k t) = 1
          then do {
            _ \<leftarrow> assert (pxCurrentTCB k \<noteq> Some t);
            let uxPriorityUsedOnEntry = uxPriority (tcb k t);
            let k = set_priority t uxPriorityToUse k;
            (v, k) \<leftarrow> list_num st (Op_GetValue (xEventListItem t)) k;
            k \<leftarrow> (if v AND taskEVENT_LIST_ITEM_VALUE_IN_USE = 0
                  then list_do st (Op_SetValue (xEventListItem t) (configMAX_PRIORITIES - uxPriorityToUse)) k else Some k);
            (c, k) \<leftarrow> list_place st (Op_Container (xStateListItem t)) k;
            if c = Some (pxReadyTasksLists (unat uxPriorityUsedOnEntry))
            then do {
              (n, k) \<leftarrow> list_num st (Op_Remove (xStateListItem t)) k;
              let k = (if n = 0 then portRESET_READY_PRIORITY (uxPriority (tcb k t)) k else k);
              prvAddTaskToReadyList st t k
            }
            else Some k
          }
          else Some k
        })"

section \<open>Mutexes\<close>

record Mutex_t =
  mx_count :: u32
  xMutexHolder :: "nat option"
  uxRecursiveCallCount :: u32
  mx_waiting :: nat

text \<open>Taking, up to the point where the task would block.\<close>

definition mutex_take_attempt :: "Mutex_t \<times> 's kernel \<Rightarrow> (Mutex_t \<times> 's kernel) option" where
  "mutex_take_attempt mk =
     (let (m, k) = mk
      in if mx_count m > 0
         then (let (h, k') = pvTaskIncrementMutexHeldCount k in Some (m\<lparr>mx_count := mx_count m - 1, xMutexHolder := h\<rparr>, k'))
         else None)"

text \<open>
  Blocking, with the scheduler suspended: the priority is lent and the task put into the list of the waiting tasks; the result says whether a time-out
  has to take the priority back.
\<close>

definition mutex_block :: "'s list_step \<Rightarrow> u32 \<Rightarrow> Mutex_t \<Rightarrow> 's kernel \<Rightarrow> (bool \<times> 's kernel) option" where
  "mutex_block st xTicksToWait m k = do {
     (xInheritanceOccurred, k) \<leftarrow> xTaskPriorityInherit st (xMutexHolder m) k;
     k \<leftarrow> vTaskPlaceOnEventList st (event_list (mx_waiting m)) xTicksToWait k;
     Some (xInheritanceOccurred, k)
   }"

definition prvGetDisinheritPriorityAfterTimeout :: "'s list_step \<Rightarrow> Mutex_t \<Rightarrow> 's kernel \<Rightarrow> (u32 \<times> 's kernel) option" where
  "prvGetDisinheritPriorityAfterTimeout st m k = do {
     (n, k) \<leftarrow> list_num st (Op_Length (event_list (mx_waiting m))) k;
     if n > 0
     then do {
       (v, k) \<leftarrow> list_num st (Op_HeadValue (event_list (mx_waiting m))) k;
       Some (configMAX_PRIORITIES - v, k)
     }
     else Some (0, k)
   }"

definition mutex_timed_out :: "'s list_step \<Rightarrow> bool \<Rightarrow> Mutex_t \<Rightarrow> 's kernel \<Rightarrow> 's kernel option" where
  "mutex_timed_out st xInheritanceOccurred m k =
     (if xInheritanceOccurred
      then do {
        (p, k) \<leftarrow> prvGetDisinheritPriorityAfterTimeout st m k;
        vTaskPriorityDisinheritAfterTimeout st (xMutexHolder m) p k
      }
      else Some k)"

text \<open>Giving, which is sending to the queue without waiting.\<close>

definition mutex_give :: "'s list_step \<Rightarrow> Mutex_t \<times> 's kernel \<Rightarrow> (bool \<times> Mutex_t \<times> 's kernel) option" where
  "mutex_give st mk =
     (let (m, k) = mk
      in if mx_count m < 1
         then do {
           (xYieldRequired, k) \<leftarrow> xTaskPriorityDisinherit st (xMutexHolder m) k;
           let m = m\<lparr>xMutexHolder := None, mx_count := mx_count m + 1\<rparr>;
           (e, k) \<leftarrow> list_truth st (Op_IsEmpty (event_list (mx_waiting m))) k;
           if \<not> e
           then do {
             (woken, k) \<leftarrow> remove_from_event_list st (event_list (mx_waiting m)) k;
             Some (True, m, if woken then portYIELD k else k)
           }
           else Some (True, m, if xYieldRequired then portYIELD k else k)
         }
         else Some (False, m, k))"

text \<open>A new mutex: the queue is created empty, then given once.\<close>

definition prvInitialiseMutex :: "'s list_step \<Rightarrow> Mutex_t \<times> 's kernel \<Rightarrow> (Mutex_t \<times> 's kernel) option" where
  "prvInitialiseMutex st mk =
     (let (m, k) = mk in map_option snd (mutex_give st (m\<lparr>xMutexHolder := None, uxRecursiveCallCount := 0\<rparr>, k)))"

definition xQueueCreateMutex :: "'s list_step \<Rightarrow> nat \<Rightarrow> 's kernel \<Rightarrow> (Mutex_t \<times> 's kernel) option" where
  "xQueueCreateMutex st e k = do {
     k \<leftarrow> list_do st (Op_Initialise (event_list e)) k;
     prvInitialiseMutex st (\<lparr>mx_count = 0, xMutexHolder = None, uxRecursiveCallCount = 0, mx_waiting = e\<rparr>, k)
   }"

text \<open>The recursive functions. Taking does not wait here: the result is \<open>None\<close> where the task has to block.\<close>

definition xQueueTakeMutexRecursive :: "Mutex_t \<times> 's kernel \<Rightarrow> (Mutex_t \<times> 's kernel) option" where
  "xQueueTakeMutexRecursive mk =
     (let (m, k) = mk
      in if pxCurrentTCB k \<noteq> None \<and> xMutexHolder m = pxCurrentTCB k
         then Some (m\<lparr>uxRecursiveCallCount := uxRecursiveCallCount m + 1\<rparr>, k)
         else map_option (\<lambda>(m, k). (m\<lparr>uxRecursiveCallCount := uxRecursiveCallCount m + 1\<rparr>, k)) (mutex_take_attempt mk))"

definition xQueueGiveMutexRecursive :: "'s list_step \<Rightarrow> Mutex_t \<times> 's kernel \<Rightarrow> (bool \<times> Mutex_t \<times> 's kernel) option" where
  "xQueueGiveMutexRecursive st mk =
     (let (m, k) = mk
      in if pxCurrentTCB k \<noteq> None \<and> xMutexHolder m = pxCurrentTCB k
         then (let m1 = m\<lparr>uxRecursiveCallCount := uxRecursiveCallCount m - 1\<rparr>
               in if uxRecursiveCallCount m1 = 0 then map_option (\<lambda>(r, mk'). (True, mk')) (mutex_give st (m1, k))
                  else Some (True, m1, k))
         else Some (False, m, k))"

section \<open>Moving a ready task to another priority\<close>

lemma list_num_lists:
  assumes "list_num st op k = Some (n, k1)"
  obtains A where "st op (lists k) = Some (Num n, A)" and "k1 = k\<lparr>lists := A\<rparr>"
  using assms by (auto simp: list_num_def list_call_def split: list_result.splits bind_splits)

lemma enter_ready:
  assumes lo: "lists_ok T k" and tp: "\<And>t. t \<in> T \<Longrightarrow> t \<noteq> h \<Longrightarrow> task_place k t" and h: "h \<in> T"
    and free: "places k (xStateListItem h) = None" "places k (xEventListItem h) = None"
    and bo: "bits_ok k" and del: "delayed_ok k" and cur: "\<exists>c\<in>T. pxCurrentTCB k = Some c" and num: "uxNumberOfTasks k > 0"
  shows "\<exists>A b. prvAddTaskToReadyList abs_step h k = Some (k\<lparr>lists := A, uxTopReadyPriority := b\<rparr>) \<and>
    core_ok T (k\<lparr>lists := A, uxTopReadyPriority := b\<rparr>) \<and>
    la_container A = (places k)(xStateListItem h := Some (pxReadyTasksLists (prio k h))) \<and> la_value A = la_value (lists k) \<and>
    (\<forall>e. seq_items A (event_list e) = seq_items (lists k) (event_list e))"
proof -
  note D = lists_okD [OF lo]
  let ?p = "uxPriority (tcb k h)" and ?l = "pxReadyTasksLists (prio k h)"
  have kl: "?l \<in> dom (la_lists (lists k))" using D(2) [of ?l] D(9) [OF h] by (simp add: kernel_list_def)
  obtain A ys zs where A: "abs_step (Op_InsertEnd ?l (xStateListItem h)) (lists k) = Some (Nothing, A)"
      "replaced ?l (ys @ xStateListItem h # zs) (xStateListItem h) (Some ?l) (lists k) A"
    using insert_end_seq [of "lists k" "xStateListItem h" ?l] D(1) kl free seq_length [OF lo, of ?l] by auto
  note r = A(2) [unfolded replaced_def]
  let ?b = "portRECORD_READY_PRIORITY ?p (uxTopReadyPriority k)"
  let ?k' = "k\<lparr>lists := A, uxTopReadyPriority := ?b\<rparr>"
  have run: "prvAddTaskToReadyList abs_step h k = Some ?k'"
    using A(1) by (simp add: prvAddTaskToReadyList_def Let_def call_results(1))
  have pl: "places ?k' = (places k)(xStateListItem h := Some ?l)" using r by simp
  have "lists_ok T ?k'" using D(2-9) r h by (auto simp: lists_ok_def)
  moreover have "\<forall>t\<in>T. task_place ?k' t"
  proof
    fix t assume "t \<in> T"
    then show "task_place ?k' t"
      using tp [of t] pl free by (cases "t = h") (simp_all add: task_place_def is_ready_def is_delayed_def)
  qed
  moreover have "bits_ok ?k'"
  proof -
    have "(\<exists>t. places ?k' (xStateListItem t) = Some (pxReadyTasksLists p)) \<longleftrightarrow>
        p = prio k h \<or> (\<exists>t. places k (xStateListItem t) = Some (pxReadyTasksLists p))" for p
    proof -
      have "places ?k' (xStateListItem t) = Some (pxReadyTasksLists p) \<longleftrightarrow>
          t = h \<and> p = prio k h \<or> places k (xStateListItem t) = Some (pxReadyTasksLists p)" for t
        unfolding pl using free by (cases "t = h") auto
      then show ?thesis by auto
    qed
    then show ?thesis using bo D(9) [OF h] by (auto simp: bits_ok_def bit_record)
  qed
  moreover have "delayed_ok ?k'" using del r by (auto simp: delayed_ok_def)
  ultimately have "core_ok T ?k'" using cur num by (simp add: core_ok_def)
  then show ?thesis using run r by (intro exI [of _ A] exI [of _ ?b]) simp
qed

lemma leave_ready_task:
  assumes ok: "core_ok T k" and h: "h \<in> T" and rd: "is_ready k h"
  obtains n A b where "list_num abs_step (Op_Remove (xStateListItem h)) k = Some (n, k\<lparr>lists := A\<rparr>)"
    and "(if n = 0 then portRESET_READY_PRIORITY (uxPriority (tcb k h)) (k\<lparr>lists := A\<rparr>) else k\<lparr>lists := A\<rparr>) = k\<lparr>lists := A, uxTopReadyPriority := b\<rparr>"
    and "replaced (pxReadyTasksLists (prio k h)) (remove1 (xStateListItem h) (seq_items (lists k) (pxReadyTasksLists (prio k h))))
       (xStateListItem h) None (lists k) A" and "bits_ok (k\<lparr>lists := A, uxTopReadyPriority := b\<rparr>)"
proof -
  let ?k = "k\<lparr>pxCurrentTCB := Some h\<rparr>"
  have "core_ok T ?k" using ok h by (simp add: core_defs)
  then have "core_except T h ?k" by (rule core_except) (use rd in \<open>simp_all add: is_ready_def\<close>)
  from leave_ready [OF this] obtain n k1 where k1: "list_num abs_step (Op_Remove (xStateListItem h)) ?k = Some (n, k1)"
      "without_current h ?k (if n = 0 then portRESET_READY_PRIORITY (uxPriority (tcb ?k h)) k1 else k1)" by auto
  obtain A where A: "abs_step (Op_Remove (xStateListItem h)) (lists k) = Some (Num n, A)" "k1 = ?k\<lparr>lists := A\<rparr>"
    using list_num_lists [OF k1(1)] by auto
  let ?b = "if n = 0 then uxTopReadyPriority (portRESET_READY_PRIORITY (uxPriority (tcb k h)) k) else uxTopReadyPriority k"
  have e: "(if n = 0 then portRESET_READY_PRIORITY (uxPriority (tcb k h)) (k\<lparr>lists := A\<rparr>) else k\<lparr>lists := A\<rparr>) = k\<lparr>lists := A, uxTopReadyPriority := ?b\<rparr>"
    by (simp add: portRESET_READY_PRIORITY_def)
  have w: "(if n = 0 then portRESET_READY_PRIORITY (uxPriority (tcb ?k h)) k1 else k1) = ?k\<lparr>lists := A, uxTopReadyPriority := ?b\<rparr>"
    using A(2) by (simp add: portRESET_READY_PRIORITY_def)
  have "bits_ok (k\<lparr>lists := A, uxTopReadyPriority := ?b\<rparr>)" using k1(2) unfolding w by (simp add: without_current_def bits_ok_def)
  moreover have "replaced (pxReadyTasksLists (prio k h)) (remove1 (xStateListItem h) (seq_items (lists k) (pxReadyTasksLists (prio k h))))
       (xStateListItem h) None (lists k) A" using k1(2) unfolding w by (simp add: without_current_def)
  ultimately show thesis using that call_results(2) [OF A(1)] e by blast
qed

text \<open>The value of an event item matters neither for the lists of delayed tasks nor for the places.\<close>

abbreviation revalue :: "item \<Rightarrow> u32 \<Rightarrow> (list_id, item) list_abs \<Rightarrow> (list_id, item) list_abs" where
  "revalue i v A \<equiv> A\<lparr>la_value := (la_value A)(i := v)\<rparr>"

lemma value_lists [simp]:
  "seq_items (A\<lparr>la_value := f\<rparr>) = seq_items A" "seq_wf (A\<lparr>la_value := f\<rparr>) = seq_wf A"
  by (simp_all add: seq_items_def seq_wf_def fun_eq_iff)

lemma set_value_do: "list_do abs_step (Op_SetValue i v) k = Some (k\<lparr>lists := revalue i v (lists k)\<rparr>)"
  by (simp add: list_do_def list_call_def abs_step_def)

lemma delayed_revalue:
  assumes "delayed_ok k" and "seq_wf (lists k)" and "la_container (lists k) (xEventListItem h) \<notin> {Some xDelayedTaskList1, Some xDelayedTaskList2}"
  shows "delayed_ok (k\<lparr>lists := revalue (xEventListItem h) v (lists k)\<rparr>)"
proof -
  have n: "xEventListItem h \<notin> set (seq_items (lists k) l)" if "l \<in> {xDelayedTaskList1, xDelayedTaskList2}" for l
    using assms(2,3) that container_iff [OF assms(2), of "xEventListItem h" l] by auto
  from n [of xDelayedTaskList1] n [of xDelayedTaskList2] show ?thesis using assms(1) by (auto simp: delayed_ok_def)
qed

lemma event_not_delayed:
  assumes "core_ok T k"
  shows "la_container (lists k) (xEventListItem h) \<notin> {Some xDelayedTaskList1, Some xDelayedTaskList2}"
  using core_okD(10) [OF assms, of h] core_okD(6) [OF assms, of h] by (cases "h \<in> T") (auto simp: task_place_def)

lemma core_revalue:
  assumes "core_ok T k"
  shows "core_ok T (k\<lparr>lists := revalue (xEventListItem h) v (lists k)\<rparr>)"
  using assms delayed_revalue [OF core_okD(12,1) [OF assms] event_not_delayed [OF assms], of h v]
  by (simp add: core_ok_def lists_ok_def bits_ok_def task_place_def is_ready_def is_delayed_def)

text \<open>A ready task changes its priority, and a task that is not ready.\<close>

lemma set_priority_simps [simp]:
  "lists (set_priority t p k) = lists k" "pxCurrentTCB (set_priority t p k) = pxCurrentTCB k"
  "uxTopReadyPriority (set_priority t p k) = uxTopReadyPriority k" "uxNumberOfTasks (set_priority t p k) = uxNumberOfTasks k"
  "pxDelayedTaskList (set_priority t p k) = pxDelayedTaskList k" "pxOverflowDelayedTaskList (set_priority t p k) = pxOverflowDelayedTaskList k"
  "uxPriority (tcb (set_priority t p k) u) = (if u = t then p else uxPriority (tcb k u))"
  "uxBasePriority (tcb (set_priority t p k) u) = uxBasePriority (tcb k u)" "uxMutexesHeld (tcb (set_priority t p k) u) = uxMutexesHeld (tcb k u)"
  "set_priority t p (k\<lparr>lists := A\<rparr>) = (set_priority t p k)\<lparr>lists := A\<rparr>"
  "set_priority t p (k\<lparr>uxTopReadyPriority := b\<rparr>) = (set_priority t p k)\<lparr>uxTopReadyPriority := b\<rparr>"
  by (simp_all add: set_priority_def)

lemma replaced_moved:
  assumes ok: "core_ok T k" and h: "h \<in> T" and rd: "is_ready k h" and p: "unat p < 31"
    and r: "replaced (pxReadyTasksLists (prio k h)) xs (xStateListItem h) None (lists k) A" and bo: "bits_ok (k\<lparr>lists := A, uxTopReadyPriority := b\<rparr>)"
  shows "\<exists>A' b'. prvAddTaskToReadyList abs_step h (set_priority h p (k\<lparr>lists := revalue (xEventListItem h) v A, uxTopReadyPriority := b\<rparr>)) =
        Some (set_priority h p (k\<lparr>lists := A', uxTopReadyPriority := b'\<rparr>)) \<and> core_ok T (set_priority h p (k\<lparr>lists := A', uxTopReadyPriority := b'\<rparr>)) \<and>
      la_container A' = (places k)(xStateListItem h := Some (pxReadyTasksLists (unat p))) \<and>
      la_value A' = (la_value (lists k))(xEventListItem h := v) \<and>
      (\<forall>e. seq_items A' (event_list e) = seq_items (lists k) (event_list e))"
proof -
  note D = core_okD [OF ok] and r = r [unfolded replaced_def]
  let ?k = "set_priority h p (k\<lparr>lists := revalue (xEventListItem h) v A, uxTopReadyPriority := b\<rparr>)"
  have ev: "places k (xEventListItem h) = None" using D(10) [OF h] rd by (auto simp: task_place_def is_ready_def is_delayed_def)
  have "delayed_ok (k\<lparr>lists := A\<rparr>)" using D(12) r by (auto simp: delayed_ok_def)
  from delayed_revalue [OF this, of h v] have del: "delayed_ok ?k" using r ev by (simp add: delayed_ok_def)
  have lo: "lists_ok T ?k" using D(2-9) r p by (auto simp: lists_ok_def)
  have tp: "task_place ?k t" if "t \<in> T" "t \<noteq> h" for t
    using D(10) [OF that(1)] that r by (simp add: task_place_def is_ready_def is_delayed_def)
  have "bits_ok ?k" using bo by (simp add: bits_ok_def)
  from enter_ready [OF lo tp h _ _ this del] obtain A' b' where
    e: "prvAddTaskToReadyList abs_step h ?k = Some (?k\<lparr>lists := A', uxTopReadyPriority := b'\<rparr>)" "core_ok T (?k\<lparr>lists := A', uxTopReadyPriority := b'\<rparr>)"
      "la_container A' = (places ?k)(xStateListItem h := Some (pxReadyTasksLists (prio ?k h)))" "la_value A' = la_value (lists ?k)"
      "\<And>e. seq_items A' (event_list e) = seq_items (lists ?k) (event_list e)"
    using r ev D(13,14) by auto
  then show ?thesis using r by (intro exI [of _ A'] exI [of _ b']) (simp add: fun_upd_twist)
qed

lemma core_set_priority:
  assumes "core_ok T k" and "h \<in> T" and "\<not> is_ready k h" and "unat p < 31"
  shows "core_ok T (set_priority h p k)"
proof -
  have "task_place (set_priority h p k) t" if "t \<in> T" for t
    using core_okD(10) [OF assms(1) that] assms(3) by (cases "t = h") (auto simp: task_place_def is_ready_def is_delayed_def)
  then show ?thesis
    using assms(1,4) by (auto simp: core_ok_def lists_ok_def bits_ok_def delayed_ok_def)
qed

text \<open>A task has got another priority; if it was ready, it is in the list of that priority now.\<close>

text \<open>The value of the event item of a task says its priority, so that the tasks that wait for an event are in the order of their priorities.\<close>

definition event_value_ok :: "seq_kernel \<Rightarrow> nat \<Rightarrow> bool" where
  "event_value_ok k t \<longleftrightarrow> la_value (lists k) (xEventListItem t) = configMAX_PRIORITIES - uxPriority (tcb k t)"

lemma event_value_free:
  assumes "unat p < 31"
  shows "(configMAX_PRIORITIES - p) AND taskEVENT_LIST_ITEM_VALUE_IN_USE = 0"
proof -
  have "p \<le> 31" using assms by (simp add: word_le_nat_alt)
  then have "unat (31 - p) < 2 ^ 5" by (simp add: unat_sub)
  then have "take_bit 5 (31 - p) = 31 - p" by (simp add: word_unat_eq_iff unsigned_take_bit_eq take_bit_nat_eq_self)
  then have "(31 - p) AND 0x80000000 = take_bit 5 (31 - p) AND (0x80000000 :: u32)" by simp
  also have "\<dots> = (31 - p) AND take_bit 5 0x80000000" by (simp add: take_bit_eq_mask and.assoc and.commute and.left_commute)
  also have "\<dots> = 0" by simp
  finally show ?thesis by (simp add: configMAX_PRIORITIES_def taskEVENT_LIST_ITEM_VALUE_IN_USE_def)
qed

lemma event_value_set:
  assumes "event_value_ok k h" and "core_ok T k" and "h \<in> T"
  shows "(if la_value (lists k) (xEventListItem h) AND taskEVENT_LIST_ITEM_VALUE_IN_USE = 0 then v else la_value (lists k) (xEventListItem h)) = v"
  using assms event_value_free [OF core_okD(9) [OF assms(2,3)]] by (simp add: event_value_ok_def)

definition repriorised :: "nat \<Rightarrow> u32 \<Rightarrow> seq_kernel \<Rightarrow> seq_kernel \<Rightarrow> bool" where
  "repriorised h p k k' \<longleftrightarrow>
     (\<exists>A b. k' = set_priority h p (k\<lparr>lists := A, uxTopReadyPriority := b\<rparr>) \<and>
        la_container A = (if is_ready k h then (places k)(xStateListItem h := Some (pxReadyTasksLists (unat p))) else places k) \<and>
        (\<forall>t. la_value A (xStateListItem t) = la_value (lists k) (xStateListItem t)) \<and>
        (\<forall>t. t \<noteq> h \<longrightarrow> la_value A (xEventListItem t) = la_value (lists k) (xEventListItem t)) \<and>
        (event_value_ok k h \<longrightarrow> la_value A (xEventListItem h) = configMAX_PRIORITIES - p) \<and>
        (\<forall>e. seq_items A (event_list e) = seq_items (lists k) (event_list e)))"

lemma repriorised_frame:
  assumes "repriorised h p k k'"
  shows "uxPriority (tcb k' t) = (if t = h then p else uxPriority (tcb k t))" "uxBasePriority (tcb k' t) = uxBasePriority (tcb k t)"
    "uxMutexesHeld (tcb k' t) = uxMutexesHeld (tcb k t)" "pxCurrentTCB k' = pxCurrentTCB k" "uxSchedulerSuspended k' = uxSchedulerSuspended k"
    "pendsv k' = pendsv k" "xYieldPending k' = xYieldPending k" "xTickCount k' = xTickCount k" "xPendedTicks k' = xPendedTicks k"
    "places k' (xEventListItem t) = places k (xEventListItem t)" "seq_items (lists k') (event_list e) = seq_items (lists k) (event_list e)" "xSchedulerRunning k' = xSchedulerRunning k"
  using assms by (auto simp: repriorised_def set_priority_def)

lemma repriorised_values: "repriorised h p k k' \<Longrightarrow> event_value_ok k t \<Longrightarrow> event_value_ok k' t"
  by (cases "t = h") (auto simp: repriorised_def event_value_ok_def)

lemma repriorised_event_value: "repriorised h p k k' \<Longrightarrow> t \<noteq> h \<Longrightarrow> la_value (lists k') (xEventListItem t) = la_value (lists k) (xEventListItem t)"
  by (auto simp: repriorised_def)

lemma repriorised_ready:
  assumes "core_ok T k" and "h \<in> T" and "repriorised h p k k'"
  shows "is_ready k' t \<longleftrightarrow> is_ready k t"
proof -
  have "places k (xStateListItem h) \<noteq> Some (pxReadyTasksLists q)" if "\<not> is_ready k h" for q
    using core_okD(10) [OF assms(1,2)] that by (auto simp: task_place_def is_delayed_def)
  then show ?thesis using assms(3) by (cases "t = h") (auto simp: repriorised_def is_ready_def split: if_splits)
qed

lemma repriorised_times:
  assumes "core_ok T k" and "times_ok k" and "repriorised h p k k'"
  shows "times_ok k'"
proof -
  obtain A b where f: "k' = set_priority h p (k\<lparr>lists := A, uxTopReadyPriority := b\<rparr>)" and
      A: "la_container A = (if is_ready k h then (places k)(xStateListItem h := Some (pxReadyTasksLists (unat p))) else places k)"
        "\<And>t. la_value A (xStateListItem t) = la_value (lists k) (xStateListItem t)"
    using assms(3) by (auto simp: repriorised_def)
  show ?thesis
  proof (rule times_subset [OF assms(2)])
    show "places k (xStateListItem t) = Some l"
      if "places k' (xStateListItem t) = Some l" "l \<in> {pxDelayedTaskList k, pxOverflowDelayedTaskList k}" for t l
      using that A(1) f delayed_cases [OF assms(1)] by (auto split: if_splits)
  qed (use A(2) f in \<open>simp_all add: set_priority_def\<close>)
qed

lemma repriorisedI:
  assumes "k' = set_priority h p (k\<lparr>lists := A, uxTopReadyPriority := b\<rparr>)"
    and "la_container A = (if is_ready k h then (places k)(xStateListItem h := Some (pxReadyTasksLists (unat p))) else places k)"
    and "la_value A = (la_value (lists k))(xEventListItem h := v)" and "\<And>e. seq_items A (event_list e) = seq_items (lists k) (event_list e)"
    and "event_value_ok k h \<Longrightarrow> v = configMAX_PRIORITIES - p"
  shows "repriorised h p k k'"
  unfolding repriorised_def by (rule exI [of _ A], rule exI [of _ b]) (use assms in simp)

lemma repriorised_refl: "repriorised h (uxPriority (tcb k h)) k k"
proof (rule repriorisedI [where A = "lists k" and b = "uxTopReadyPriority k" and v = "la_value (lists k) (xEventListItem h)"])
  show "places k = (if is_ready k h then (places k)(xStateListItem h := Some (pxReadyTasksLists (prio k h))) else places k)"
    by (simp add: is_ready_def fun_upd_idem)
qed (simp_all add: set_priority_def event_value_ok_def)

lemma lists_before_top: "k\<lparr>uxTopReadyPriority := b, lists := A\<rparr> = k\<lparr>lists := A, uxTopReadyPriority := b\<rparr>"
  by simp

lemma prio_bound: "core_ok T k \<Longrightarrow> t \<in> T \<Longrightarrow> unat (uxPriority (tcb k t)) < 31"
  by (rule core_okD(9))

lemma inherit_spec:
  assumes ok: "core_ok T k" and c: "pxCurrentTCB k = Some c" and h: "h \<in> T"
  shows "\<exists>b k'. xTaskPriorityInherit abs_step (Some h) k = Some (b, k') \<and> core_ok T k' \<and>
    (b \<longleftrightarrow> uxPriority (tcb k h) < uxPriority (tcb k c) \<or> uxBasePriority (tcb k h) < uxPriority (tcb k c)) \<and>
    repriorised h (max (uxPriority (tcb k h)) (uxPriority (tcb k c))) k k'"
proof (cases "uxPriority (tcb k h) < uxPriority (tcb k c)")
  case True
  let ?p = "uxPriority (tcb k c)"
  have cT: "c \<in> T" using core_okD(13) [OF ok] c by auto
  have p: "unat ?p < 31" by (rule prio_bound [OF ok cT])
  define v where "v = (if la_value (lists k) (xEventListItem h) AND taskEVENT_LIST_ITEM_VALUE_IN_USE = 0
    then configMAX_PRIORITIES - ?p else la_value (lists k) (xEventListItem h))"
  let ?k = "k\<lparr>lists := revalue (xEventListItem h) v (lists k)\<rparr>"
  have ok': "core_ok T ?k" by (rule core_revalue [OF ok])
  have vs: "(if la_value (lists k) (xEventListItem h) AND taskEVENT_LIST_ITEM_VALUE_IN_USE = 0
      then list_do abs_step (Op_SetValue (xEventListItem h) (configMAX_PRIORITIES - uxPriority (tcb k c))) k else Some k) = Some ?k"
    by (simp add: v_def set_value_do)
  have m: "max (uxPriority (tcb k h)) ?p = ?p" using True by (rule max_absorb2 [OF less_imp_le])
  show ?thesis
  proof (cases "is_ready k h")
    case rd: True
    then have rd': "is_ready ?k h" by (simp add: is_ready_def)
    obtain n A b where L: "list_num abs_step (Op_Remove (xStateListItem h)) ?k = Some (n, ?k\<lparr>lists := A\<rparr>)"
        "(if n = 0 then portRESET_READY_PRIORITY (uxPriority (tcb ?k h)) (?k\<lparr>lists := A\<rparr>) else ?k\<lparr>lists := A\<rparr>) = ?k\<lparr>lists := A, uxTopReadyPriority := b\<rparr>"
        "replaced (pxReadyTasksLists (prio ?k h)) (remove1 (xStateListItem h) (seq_items (lists ?k) (pxReadyTasksLists (prio ?k h))))
           (xStateListItem h) None (lists ?k) A" "bits_ok (?k\<lparr>lists := A, uxTopReadyPriority := b\<rparr>)"
      by (rule leave_ready_task [OF ok' h rd'])
    have same: "revalue (xEventListItem h) v A = A" using L(3) by (simp add: replaced_def)
    obtain A' b' where M: "prvAddTaskToReadyList abs_step h (set_priority h ?p (?k\<lparr>lists := A, uxTopReadyPriority := b\<rparr>)) =
        Some (set_priority h ?p (?k\<lparr>lists := A', uxTopReadyPriority := b'\<rparr>))" "core_ok T (set_priority h ?p (?k\<lparr>lists := A', uxTopReadyPriority := b'\<rparr>))"
        "la_container A' = (places ?k)(xStateListItem h := Some (pxReadyTasksLists (unat ?p)))" "la_value A' = (la_value (lists ?k))(xEventListItem h := v)"
        "\<And>e. seq_items A' (event_list e) = seq_items (lists ?k) (event_list e)"
      using replaced_moved [OF ok' h rd' p L(3,4), of v] unfolding same by blast
    have L2: "(if n = 0 then portRESET_READY_PRIORITY (uxPriority (tcb k h)) (k\<lparr>lists := A\<rparr>) else k\<lparr>lists := A\<rparr>) = k\<lparr>lists := A, uxTopReadyPriority := b\<rparr>"
      using L(2) by (simp split: if_splits)
    have "xTaskPriorityInherit abs_step (Some h) k = Some (True, set_priority h ?p (?k\<lparr>lists := A', uxTopReadyPriority := b'\<rparr>))"
      using c True rd L(1) M(1) by (simp add: xTaskPriorityInherit_def read_results is_ready_def Let_def vs L2 cong: if_cong split del: if_split)
    moreover have "repriorised h ?p k (set_priority h ?p (?k\<lparr>lists := A', uxTopReadyPriority := b'\<rparr>))"
      using M(3-5) rd event_value_set [OF _ ok h] by (intro repriorisedI [where v = v and A = A' and b = b']) (simp_all add: v_def)
    ultimately show ?thesis using M(2) True unfolding m by blast
  next
    case False
    then have "\<not> is_ready ?k h" by (simp add: is_ready_def)
    then have "core_ok T (set_priority h ?p ?k)" by (rule core_set_priority [OF ok' h _ p])
    moreover have "xTaskPriorityInherit abs_step (Some h) k = Some (True, set_priority h ?p ?k)"
      using c True False by (simp add: xTaskPriorityInherit_def read_results is_ready_def vs split del: if_split)
    moreover have "repriorised h ?p k (set_priority h ?p ?k)"
      using False event_value_set [OF _ ok h]
      by (intro repriorisedI [where v = v and A = "revalue (xEventListItem h) v (lists k)" and b = "uxTopReadyPriority k"]) (simp_all add: v_def)
    ultimately show ?thesis using True unfolding m by blast
  qed
next
  case False
  then have "repriorised h (max (uxPriority (tcb k h)) (uxPriority (tcb k c))) k k"
    using repriorised_refl [of h k] by (simp add: max_def)
  then show ?thesis using ok c False by (simp add: xTaskPriorityInherit_def)
qed

lemma core_tcb_other:
  assumes "core_ok T k" and "\<And>t. uxPriority (f t) = uxPriority (tcb k t)"
  shows "core_ok T (k\<lparr>tcb := f\<rparr>)"
  using assms by (simp add: core_defs)

lemma disinherit_spec:
  assumes ok: "core_ok T k" and t: "pxCurrentTCB k = Some t" "is_ready k t" and held: "uxMutexesHeld (tcb k t) \<noteq> 0"
    and base: "unat (uxBasePriority (tcb k t)) < 31"
  shows "\<exists>k'. xTaskPriorityDisinherit abs_step (Some t) k =
      Some (uxPriority (tcb k t) \<noteq> uxBasePriority (tcb k t) \<and> uxMutexesHeld (tcb k t) = 1, k') \<and> core_ok T k' \<and>
    repriorised t (if uxMutexesHeld (tcb k t) = 1 then uxBasePriority (tcb k t) else uxPriority (tcb k t))
      (k\<lparr>tcb := (tcb k)(t := (tcb k t)\<lparr>uxMutexesHeld := uxMutexesHeld (tcb k t) - 1\<rparr>)\<rparr>) k'"
proof -
  let ?k = "k\<lparr>tcb := (tcb k)(t := (tcb k t)\<lparr>uxMutexesHeld := uxMutexesHeld (tcb k t) - 1\<rparr>)\<rparr>" and ?p = "uxBasePriority (tcb k t)"
  have tT: "t \<in> T" using core_okD(13) [OF ok] t(1) by auto
  have ok': "core_ok T ?k" by (rule core_tcb_other [OF ok]) simp
  have rd: "is_ready ?k t" using t(2) by (simp add: is_ready_def)
  show ?thesis
  proof (cases "uxPriority (tcb k t) \<noteq> ?p \<and> uxMutexesHeld (tcb k t) = 1")
    case True
    obtain n A b where L: "list_num abs_step (Op_Remove (xStateListItem t)) ?k = Some (n, ?k\<lparr>lists := A\<rparr>)"
        "(if n = 0 then portRESET_READY_PRIORITY (uxPriority (tcb ?k t)) (?k\<lparr>lists := A\<rparr>) else ?k\<lparr>lists := A\<rparr>) = ?k\<lparr>lists := A, uxTopReadyPriority := b\<rparr>"
        "replaced (pxReadyTasksLists (prio ?k t)) (remove1 (xStateListItem t) (seq_items (lists ?k) (pxReadyTasksLists (prio ?k t))))
           (xStateListItem t) None (lists ?k) A" "bits_ok (?k\<lparr>lists := A, uxTopReadyPriority := b\<rparr>)"
      by (rule leave_ready_task [OF ok' tT rd])
    obtain A' b' where M: "prvAddTaskToReadyList abs_step t (set_priority t ?p (?k\<lparr>lists := revalue (xEventListItem t) (configMAX_PRIORITIES - ?p) A, uxTopReadyPriority := b\<rparr>)) =
        Some (set_priority t ?p (?k\<lparr>lists := A', uxTopReadyPriority := b'\<rparr>))" "core_ok T (set_priority t ?p (?k\<lparr>lists := A', uxTopReadyPriority := b'\<rparr>))"
        "la_container A' = (places ?k)(xStateListItem t := Some (pxReadyTasksLists (unat ?p)))"
        "la_value A' = (la_value (lists ?k))(xEventListItem t := configMAX_PRIORITIES - ?p)"
        "\<And>e. seq_items A' (event_list e) = seq_items (lists ?k) (event_list e)"
      using replaced_moved [OF ok' tT rd base L(3,4), of "configMAX_PRIORITIES - ?p"] by blast
    have z: "uxMutexesHeld (tcb k t) - 1 = 0" using True by simp
    have L2: "(if n = 0 then portRESET_READY_PRIORITY (uxPriority (tcb k t)) (?k\<lparr>lists := A\<rparr>) else ?k\<lparr>lists := A\<rparr>) = ?k\<lparr>lists := A, uxTopReadyPriority := b\<rparr>"
      using L(2) by (simp split: if_splits)
    have "xTaskPriorityDisinherit abs_step (Some t) k = Some (True, set_priority t ?p (?k\<lparr>lists := A', uxTopReadyPriority := b'\<rparr>))"
      using True t(1) M(1)
      by (simp add: xTaskPriorityDisinherit_def assert_def Let_def L(1) [unfolded z] L2 [unfolded z] set_value_do lists_before_top cong: if_cong split del: if_split)
    moreover have "repriorised t ?p ?k (set_priority t ?p (?k\<lparr>lists := A', uxTopReadyPriority := b'\<rparr>))"
      using M(3-5) rd by (intro repriorisedI [where v = "configMAX_PRIORITIES - ?p" and A = A' and b = b']) simp_all
    ultimately show ?thesis using M(2) True by simp
  next
    case False
    have "xTaskPriorityDisinherit abs_step (Some t) k = Some (False, ?k)"
      using False t(1) held by (auto simp: xTaskPriorityDisinherit_def assert_def Let_def)
    moreover have "repriorised t (uxPriority (tcb k t)) ?k ?k" using repriorised_refl [of t ?k] by simp
    ultimately show ?thesis using ok' False by auto
  qed
qed

section \<open>Blocking on a mutex\<close>

lemma mutex_block_spec:
  assumes inv: "kernel_inv i T k" and s: "uxSchedulerSuspended k = 0" and c: "pxCurrentTCB k = Some c" "is_ready k c" "c \<noteq> i"
    and h: "xMutexHolder m = Some h" "h \<in> T" "h \<noteq> c" and n: "n \<noteq> 0"
  shows "\<exists>b k'. mutex_block abs_step n m (vTaskSuspendAll k) = Some (b, k') \<and> kernel_inv i T k' \<and>
    (b \<longleftrightarrow> uxPriority (tcb k h) < uxPriority (tcb k c) \<or> uxBasePriority (tcb k h) < uxPriority (tcb k c)) \<and>
    (\<forall>t. uxPriority (tcb k' t) = (if t = h then max (uxPriority (tcb k h)) (uxPriority (tcb k c)) else uxPriority (tcb k t))) \<and>
    (\<forall>t. is_ready k' t \<longleftrightarrow> is_ready k t \<and> t \<noteq> c) \<and> uxSchedulerSuspended k' = 1 \<and>
    places k' (xEventListItem c) = Some (event_list (mx_waiting m)) \<and> (\<forall>t. t \<noteq> c \<longrightarrow> places k' (xEventListItem t) = places k (xEventListItem t))"
proof -
  let ?k = "vTaskSuspendAll k"
  note S = suspend_one [OF inv s]
  have tc: "tcb ?k = tcb k" "lists ?k = lists k" "uxSchedulerSuspended ?k = 1" using s by (simp_all add: vTaskSuspendAll_def)
  obtain b k1 where k1: "xTaskPriorityInherit abs_step (Some h) ?k = Some (b, k1)" "core_ok T k1"
      "b \<longleftrightarrow> uxPriority (tcb ?k h) < uxPriority (tcb ?k c) \<or> uxBasePriority (tcb ?k h) < uxPriority (tcb ?k c)"
      "repriorised h (max (uxPriority (tcb ?k h)) (uxPriority (tcb ?k c))) ?k k1"
    using inherit_spec [OF S(1) _ h(2), of c] S(5) c(1) by auto
  note R = repriorised_frame [OF k1(4)]
  have rd: "is_ready k1 t \<longleftrightarrow> is_ready k t" for t using repriorised_ready [OF S(1) h(2) k1(4)] S(3) by simp
  obtain k' l where k': "vTaskPlaceOnEventList abs_step (event_list (mx_waiting m)) n k1 = Some k'" "core_ok T k'" "times_ok k'"
      "places k' = (places k1)(xEventListItem c := Some (event_list (mx_waiting m)), xStateListItem c := Some l)"
      "l \<in> {xDelayedTaskList1, xDelayedTaskList2, xSuspendedTaskList}"
      "k' = k1\<lparr>lists := lists k', uxTopReadyPriority := uxTopReadyPriority k', xNextTaskUnblockTime := xNextTaskUnblockTime k'\<rparr>"
    using wait_spec [OF k1(2) repriorised_times [OF S(1,2) k1(4)] _ _ n, of c "mx_waiting m"] c(1,2) rd R(4) S(5) by auto
  obtain A u v where f: "k' = k1\<lparr>lists := A, uxTopReadyPriority := u, xNextTaskUnblockTime := v\<rparr>" using k'(6) by metis
  have tc': "tcb k' = tcb k1" "uxSchedulerSuspended k' = 1" using f R(5) tc(3) by simp_all
  have rd': "is_ready k' t \<longleftrightarrow> is_ready k t \<and> t \<noteq> c" for t
    using rd [of t] k'(4,5) tc'(1) by (auto simp: is_ready_def)
  have "is_ready k' i" using rd' S(6) S(3) c(3) by blast
  moreover have "dispatch_ok k'" using rd' tc'(2) f R(4) S(5) c(1) by (intro blocked_dispatch [of k' c]) simp_all
  ultimately have "kernel_inv i T k'" using tc'(2) by (intro suspended_inv [OF k'(2,3)]) simp_all
  moreover have "mutex_block abs_step n m ?k = Some (b, k')" using k1(1) k'(1) h(1) by (simp add: mutex_block_def)
  moreover have "places k' (xEventListItem t) = (if t = c then Some (event_list (mx_waiting m)) else places k (xEventListItem t))" for t
    using k'(4) R(10) tc(2) by simp
  ultimately show ?thesis using k1(3) rd' tc' R(1) unfolding tc by (intro exI [of _ b] exI [of _ k']) simp
qed

section \<open>Giving a mutex\<close>

text \<open>The priority of the running task after the call, and the first task that waits.\<close>

definition priority_given :: "nat \<Rightarrow> seq_kernel \<Rightarrow> u32" where
  "priority_given c k = (if uxMutexesHeld (tcb k c) = 1 then uxBasePriority (tcb k c) else uxPriority (tcb k c))"

definition first_waiting :: "Mutex_t \<Rightarrow> seq_kernel \<Rightarrow> nat \<Rightarrow> bool" where
  "first_waiting m k t \<longleftrightarrow> seq_items (lists k) (event_list (mx_waiting m)) \<noteq> [] \<and> hd (seq_items (lists k) (event_list (mx_waiting m))) = xEventListItem t"

definition give_yields :: "Mutex_t \<Rightarrow> nat \<Rightarrow> seq_kernel \<Rightarrow> bool" where
  "give_yields m c k \<longleftrightarrow>
     (if seq_items (lists k) (event_list (mx_waiting m)) = [] then priority_given c k \<noteq> uxPriority (tcb k c)
      else \<exists>t. first_waiting m k t \<and> priority_given c k < uxPriority (tcb k t))"

lemma sched_ok_tcb:
  assumes "sched_ok T k" and "core_ok T (k\<lparr>tcb := f\<rparr>)"
  shows "sched_ok T (k\<lparr>tcb := f\<rparr>)"
  using assms by (simp add: sched_ok_def times_ok_def resumed_ok_def)

lemma repriorised_resumed:
  assumes "resumed_ok k" and "repriorised h p k k'"
  shows "resumed_ok k'"
  using assms repriorised_frame [OF assms(2)] by (simp add: resumed_ok_def)

lemma waiting_not_ready:
  assumes "core_ok T k" and "first_waiting m k t"
  shows "t \<in> T" "\<not> is_ready k t" "places k (xEventListItem t) = Some (event_list (mx_waiting m))"
proof -
  show "places k (xEventListItem t) = Some (event_list (mx_waiting m))"
    using assms(2) container_iff [OF core_okD(1) [OF assms(1)]] by (metis first_waiting_def hd_in_set)
  then show t: "t \<in> T" using core_okD(6) [OF assms(1), of t] by (cases "t \<in> T") auto
  show "\<not> is_ready k t" by (rule event_not_ready [OF assms(1) t]) (use \<open>places k (xEventListItem t) = _\<close> in simp)
qed

lemma mutex_give_spec:
  assumes ok: "sched_ok T k" and s: "uxSchedulerSuspended k = 0" and c: "pxCurrentTCB k = Some c" "is_ready k c"
    and m: "xMutexHolder m = Some c" "mx_count m = 0" and held: "uxMutexesHeld (tcb k c) \<noteq> 0" and base: "unat (uxBasePriority (tcb k c)) < 31"
  shows "\<exists>k'. mutex_give abs_step (m, k) = Some (True, m\<lparr>xMutexHolder := None, mx_count := 1\<rparr>, k') \<and> sched_ok T k' \<and>
    (\<forall>t. uxPriority (tcb k' t) = (if t = c then priority_given c k else uxPriority (tcb k t))) \<and>
    (\<forall>t. is_ready k' t \<longleftrightarrow> is_ready k t \<or> first_waiting m k t) \<and> pxCurrentTCB k' = Some c \<and> uxSchedulerSuspended k' = 0 \<and>
    (pendsv k' \<longleftrightarrow> pendsv k \<or> give_yields m c k) \<and> (xYieldPending k' \<longrightarrow> xYieldPending k \<or> pendsv k')"
proof -
  let ?k = "k\<lparr>tcb := (tcb k)(c := (tcb k c)\<lparr>uxMutexesHeld := uxMutexesHeld (tcb k c) - 1\<rparr>)\<rparr>" and ?l = "event_list (mx_waiting m)"
  have core: "core_ok T k" "times_ok k" "resumed_ok k" using ok by (simp_all add: sched_ok_def)
  have cT: "c \<in> T" using core_okD(13) [OF core(1)] c(1) by auto
  obtain k1 where k1: "xTaskPriorityDisinherit abs_step (Some c) k = Some (uxPriority (tcb k c) \<noteq> uxBasePriority (tcb k c) \<and> uxMutexesHeld (tcb k c) = 1, k1)"
      "core_ok T k1" "repriorised c (priority_given c k) ?k k1"
    using disinherit_spec [OF core(1) c held base] unfolding priority_given_def by blast
  have core': "core_ok T ?k" by (rule core_tcb_other [OF core(1)]) simp
  have sk: "times_ok ?k" "resumed_ok ?k" using core(2,3) by (simp_all add: times_ok_def resumed_ok_def)
  note R = repriorised_frame [OF k1(3)] and tm = repriorised_times [OF core' sk(1) k1(3)] and rs = repriorised_resumed [OF sk(2) k1(3)]
  have pr: "uxPriority (tcb k1 t) = (if t = c then priority_given c k else uxPriority (tcb k t))" for t using R(1) by simp
  have "is_ready ?k t \<longleftrightarrow> is_ready k t" for t by (simp add: is_ready_def)
  then have rd: "is_ready k1 t \<longleftrightarrow> is_ready k t" for t using repriorised_ready [OF core' cT k1(3)] by simp
  have items: "seq_items (lists k1) ?l = seq_items (lists k) ?l" using R(11) by simp
  have dom: "?l \<in> dom (la_lists (lists k1))" by (rule core_okD(2) [OF k1(2)]) (simp add: kernel_list_def)
  show ?thesis
  proof (cases "seq_items (lists k) ?l = []")
    case True
    let ?k' = "if priority_given c k \<noteq> uxPriority (tcb k c) then portYIELD k1 else k1"
    have "mutex_give abs_step (m, k) = Some (True, m\<lparr>xMutexHolder := None, mx_count := 1\<rparr>, ?k')"
      using m k1(1) read_results(1) [OF dom] True items by (auto simp: mutex_give_def Let_def priority_given_def)
    moreover have "?k' = k1\<lparr>pendsv := pendsv k1 \<or> priority_given c k \<noteq> uxPriority (tcb k c)\<rparr>" by (simp add: portYIELD_def)
    moreover have "sched_ok T (k1\<lparr>pendsv := b\<rparr>)" for b using k1(2) tm rs by (simp add: sched_ok_def times_ok_def resumed_ok_def)
    ultimately show ?thesis
      using True rd pr R(4-7) c(1) s by (auto simp: give_yields_def first_waiting_def is_ready_def)
  next
    case False
    then have ne: "seq_items (lists k1) ?l \<noteq> []" using items by simp
    obtain t w k2 where k2: "hd (seq_items (lists k1) ?l) = xEventListItem t" "remove_from_event_list abs_step ?l k1 = Some (w, k2)"
        "core_ok T k2" "la_value (lists k2) = la_value (lists k1)" "w \<longleftrightarrow> outranks k1 (\<lambda>u. u = t)"
        "places k2 = (if uxSchedulerSuspended k1 = 0 then ready_places (\<lambda>u. u = t) k1 else (places k1)(xEventListItem t := Some xPendingReadyList))"
        "k2 = k1\<lparr>lists := lists k2, uxTopReadyPriority := uxTopReadyPriority k2, xYieldPending := xYieldPending k1 \<or> w\<rparr>"
      using signal_spec [OF k1(2) ne] by blast
    obtain A b where f: "k2 = k1\<lparr>lists := A, uxTopReadyPriority := b, xYieldPending := xYieldPending k1 \<or> w\<rparr>" using k2(7) by metis
    have pl: "places k2 = ready_places (\<lambda>u. u = t) k1" using k2(6) R(5) s by simp
    have fw: "first_waiting m k u \<longleftrightarrow> u = t" for u using False items k2(1) by (auto simp: first_waiting_def)
    have rd2: "is_ready k2 u \<longleftrightarrow> is_ready k u \<or> first_waiting m k u" for u using ready_after [OF pl] f rd fw by simp
    have tc: "t \<noteq> c" using waiting_not_ready(2) [OF core(1)] fw c(2) by blast
    have w: "w \<longleftrightarrow> give_yields m c k" using k2(5) False fw pr [of c] pr [of t] tc R(4) c(1) by (auto simp: give_yields_def outranks_def)
    have "resumed_ok k2" using ready_not_pending [OF pl] rs f by (auto simp: resumed_ok_def pending_def)
    moreover have "times_ok k2" by (rule event_moved_times [OF k1(2) tm k2(6,4) f])
    ultimately have "sched_ok T (k2\<lparr>pendsv := x\<rparr>)" for x using k2(3) by (simp add: sched_ok_def times_ok_def resumed_ok_def)
    moreover have "mutex_give abs_step (m, k) = Some (True, m\<lparr>xMutexHolder := None, mx_count := 1\<rparr>, k2\<lparr>pendsv := pendsv k2 \<or> w\<rparr>)"
      using m k1(1) read_results(1) [OF dom] False items k2(2) by (simp add: mutex_give_def Let_def portYIELD_def yield_frame)
    ultimately show ?thesis using rd2 pr R(4-7) c(1) s f w by (auto simp: is_ready_def)
  qed
qed

section \<open>The time-out of a waiting task\<close>

definition waiting_priority :: "Mutex_t \<Rightarrow> seq_kernel \<Rightarrow> u32" where
  "waiting_priority m k =
     (case seq_items (lists k) (event_list (mx_waiting m)) of [] \<Rightarrow> 0 | i # is \<Rightarrow> configMAX_PRIORITIES - la_value (lists k) i)"

lemma of_nat32_zero: "m < 2 ^ 32 \<Longrightarrow> (of_nat m :: u32) = 0 \<longleftrightarrow> m = 0"
  by (auto simp: word_of_nat_eq_0_iff dest: dvd_imp_le)

lemma singleton_list: "distinct xs \<Longrightarrow> set xs = {x} \<Longrightarrow> xs = [x]"
  by (cases xs; cases "tl xs") auto

lemma waiting_priority_spec:
  assumes "core_ok T k"
  shows "prvGetDisinheritPriorityAfterTimeout abs_step m k = Some (waiting_priority m k, k)"
proof -
  let ?l = "event_list (mx_waiting m)"
  have dom: "?l \<in> dom (la_lists (lists k))" by (rule core_okD(2) [OF assms]) (simp add: kernel_list_def)
  have "of_nat (length (seq_items (lists k) ?l)) = (0 :: u32) \<longleftrightarrow> seq_items (lists k) ?l = []"
    using seq_length [OF core_lists [OF assms], of ?l] by (subst of_nat32_zero) simp_all
  then show ?thesis
    using read_results(2) [OF dom] by (cases "seq_items (lists k) ?l") (simp_all add: prvGetDisinheritPriorityAfterTimeout_def waiting_priority_def read_results(4) word_neq_0_conv)
qed

lemma remove_count:
  assumes ok: "core_ok T k" and h: "h \<in> T" "is_ready k h" and L: "list_num abs_step (Op_Remove (xStateListItem h)) k = Some (n, k1)"
  shows "n = 0 \<longleftrightarrow> (\<forall>u. is_ready k u \<longrightarrow> prio k u = prio k h \<longrightarrow> u = h)"
proof -
  note D = core_okD [OF ok]
  let ?l = "pxReadyTasksLists (prio k h)"
  have pl: "places k (xStateListItem h) = Some ?l" using h(2) by (simp add: is_ready_def)
  obtain A where "abs_step (Op_Remove (xStateListItem h)) (lists k) = Some (Num (of_nat (length (seq_items (lists k) ?l) - 1)), A)"
    using remove_seq [OF D(1) pl] by blast
  then have n: "n = of_nat (length (seq_items (lists k) ?l) - 1)" using list_num_lists [OF L] by auto
  have mem: "xStateListItem h \<in> set (seq_items (lists k) ?l)" using pl container_iff [OF D(1)] by blast
  have "n = 0 \<longleftrightarrow> length (seq_items (lists k) ?l) - 1 = 0"
    unfolding n using seq_length [OF core_lists [OF ok], of ?l] by (intro of_nat32_zero) simp
  also have "\<dots> \<longleftrightarrow> length (seq_items (lists k) ?l) = 1" using length_pos_if_in_set [OF mem] by arith
  also have "\<dots> \<longleftrightarrow> seq_items (lists k) ?l = [xStateListItem h]" using mem by (auto simp: length_Suc_conv)
  also have "\<dots> \<longleftrightarrow> (\<forall>u. is_ready k u \<longrightarrow> prio k u = prio k h \<longrightarrow> u = h)"
  proof
    assume one: "seq_items (lists k) ?l = [xStateListItem h]"
    show "\<forall>u. is_ready k u \<longrightarrow> prio k u = prio k h \<longrightarrow> u = h"
    proof (intro allI impI)
      fix u assume "is_ready k u" "prio k u = prio k h"
      then have "places k (xStateListItem u) = Some ?l" by (simp add: is_ready_def)
      then have "xStateListItem u \<in> set (seq_items (lists k) ?l)" using container_iff [OF D(1)] by blast
      then show "u = h" using one by simp
    qed
  next
    assume alone: "\<forall>u. is_ready k u \<longrightarrow> prio k u = prio k h \<longrightarrow> u = h"
    have "x = xStateListItem h" if x: "x \<in> set (seq_items (lists k) ?l)" for x
    proof -
      obtain u where u: "x = xStateListItem u" "is_ready k u" "prio k u = prio k h" using ready_item_place [OF ok, of x] x container_iff [OF D(1)] by metis
      then show ?thesis using alone by blast
    qed
    then have "set (seq_items (lists k) ?l) = {xStateListItem h}" using mem by blast
    then show "seq_items (lists k) ?l = [xStateListItem h]" using seq_distinct [OF D(1), of ?l] by (intro singleton_list)
  qed
  finally show ?thesis .
qed

lemma list_num_set_priority:
  assumes "list_num abs_step op k = Some (n, k\<lparr>lists := A\<rparr>)"
  shows "list_num abs_step op (set_priority t p k) = Some (n, (set_priority t p k)\<lparr>lists := A\<rparr>)"
proof -
  obtain A' where A': "abs_step op (lists k) = Some (Num n, A')" "k\<lparr>lists := A\<rparr> = k\<lparr>lists := A'\<rparr>" using list_num_lists [OF assms] by blast
  then have "A' = A" by (metis kernel.select_convs kernel.surjective kernel.update_convs(1))
  then show ?thesis using A'(1) call_results(2) [of op "set_priority t p k" n A] by simp
qed

lemma reset_set_priority: "portRESET_READY_PRIORITY q (set_priority t p k) = set_priority t p (portRESET_READY_PRIORITY q k)"
  by (simp add: portRESET_READY_PRIORITY_def)

lemma if_less_max: "(if a < b then b else a) = max a (b :: u32)"
  by (auto simp: max_def)

lemma timeout_steps:
  assumes ok: "core_ok T k" and h: "h \<in> T" "pxCurrentTCB k \<noteq> Some h" and held: "uxMutexesHeld (tcb k h) = 1" and rd: "is_ready k h"
    and p: "p = max (uxBasePriority (tcb k h)) w" "p \<noteq> uxPriority (tcb k h)"
  obtains v and n :: u32 and A b where
    "event_value_ok k h \<longrightarrow> v = configMAX_PRIORITIES - p" "core_ok T (k\<lparr>lists := revalue (xEventListItem h) v (lists k)\<rparr>)"
    "replaced (pxReadyTasksLists (prio k h)) (remove1 (xStateListItem h) (seq_items (lists k) (pxReadyTasksLists (prio k h)))) (xStateListItem h) None
       (revalue (xEventListItem h) v (lists k)) A"
    "bits_ok (k\<lparr>lists := A, uxTopReadyPriority := b\<rparr>)" "n \<noteq> 0 \<longrightarrow> b = uxTopReadyPriority k"
    "n = 0 \<longleftrightarrow> (\<forall>u. is_ready k u \<longrightarrow> prio k u = prio k h \<longrightarrow> u = h)"
    "vTaskPriorityDisinheritAfterTimeout abs_step (Some h) w k =
       prvAddTaskToReadyList abs_step h (let k1 = set_priority h p (k\<lparr>lists := A\<rparr>) in if n = 0 then portRESET_READY_PRIORITY p k1 else k1)"
proof -
  define v where "v = (if la_value (lists k) (xEventListItem h) AND taskEVENT_LIST_ITEM_VALUE_IN_USE = 0
    then configMAX_PRIORITIES - p else la_value (lists k) (xEventListItem h))"
  let ?k = "k\<lparr>lists := revalue (xEventListItem h) v (lists k)\<rparr>"
  have ok': "core_ok T ?k" by (rule core_revalue [OF ok])
  have rd': "is_ready ?k h" using rd by (simp add: is_ready_def)
  obtain n A b where L: "list_num abs_step (Op_Remove (xStateListItem h)) ?k = Some (n, ?k\<lparr>lists := A\<rparr>)"
      "(if n = 0 then portRESET_READY_PRIORITY (uxPriority (tcb ?k h)) (?k\<lparr>lists := A\<rparr>) else ?k\<lparr>lists := A\<rparr>) = ?k\<lparr>lists := A, uxTopReadyPriority := b\<rparr>"
      "replaced (pxReadyTasksLists (prio ?k h)) (remove1 (xStateListItem h) (seq_items (lists ?k) (pxReadyTasksLists (prio ?k h))))
         (xStateListItem h) None (lists ?k) A" "bits_ok (?k\<lparr>lists := A, uxTopReadyPriority := b\<rparr>)"
    by (rule leave_ready_task [OF ok' h(1) rd'])
  have b: "n \<noteq> 0 \<longrightarrow> b = uxTopReadyPriority k" using arg_cong [OF L(2), of uxTopReadyPriority] by (simp split: if_splits)
  have n: "n = 0 \<longleftrightarrow> (\<forall>u. is_ready k u \<longrightarrow> prio k u = prio k h \<longrightarrow> u = h)"
    using remove_count [OF ok' h(1) rd' L(1)] by (simp add: is_ready_def)
  have pu: "(if uxBasePriority (tcb k h) < w then w else uxBasePriority (tcb k h)) = p" using p(1) by (simp only: if_less_max)
  have vs: "(if la_value (lists k) (xEventListItem h) AND taskEVENT_LIST_ITEM_VALUE_IN_USE = 0
      then list_do abs_step (Op_SetValue (xEventListItem h) (configMAX_PRIORITIES - p)) (set_priority h p k) else Some (set_priority h p k)) = Some (set_priority h p ?k)"
    by (simp add: v_def set_value_do)
  have L1: "list_num abs_step (Op_Remove (xStateListItem h)) (set_priority h p ?k) = Some (n, set_priority h p (k\<lparr>lists := A\<rparr>))"
    using list_num_set_priority [OF L(1)] by simp
  have run: "vTaskPriorityDisinheritAfterTimeout abs_step (Some h) w k =
      prvAddTaskToReadyList abs_step h (let k1 = set_priority h p (k\<lparr>lists := A\<rparr>) in if n = 0 then portRESET_READY_PRIORITY p k1 else k1)"
    using p(2) held h(2) rd vs L1
    by (simp add: vTaskPriorityDisinheritAfterTimeout_def assert_def Let_def pu read_results is_ready_def cong: if_cong split del: if_split)
  have vp: "event_value_ok k h \<longrightarrow> v = configMAX_PRIORITIES - p" using event_value_set [OF _ ok h(1)] by (simp add: v_def)
  show thesis by (rule that [OF vp ok' _ _ b n run]) (use L(3,4) in simp_all)
qed

lemma timeout_spec:
  assumes ok: "core_ok T k" and h: "h \<in> T" "pxCurrentTCB k \<noteq> Some h" and held: "uxMutexesHeld (tcb k h) \<noteq> 0"
    and p: "p = max (uxBasePriority (tcb k h)) w" "unat p < 31"
    and shared: "uxMutexesHeld (tcb k h) = 1 \<Longrightarrow> p \<noteq> uxPriority (tcb k h) \<Longrightarrow> is_ready k h \<Longrightarrow> \<exists>u. u \<noteq> h \<and> is_ready k u \<and> prio k u = prio k h"
  shows "\<exists>k'. vTaskPriorityDisinheritAfterTimeout abs_step (Some h) w k = Some k' \<and> core_ok T k' \<and>
    repriorised h (if uxMutexesHeld (tcb k h) = 1 then p else uxPriority (tcb k h)) k k'"
proof (cases "uxMutexesHeld (tcb k h) = 1 \<and> p \<noteq> uxPriority (tcb k h)")
  case False
  have "(if uxBasePriority (tcb k h) < w then w else uxBasePriority (tcb k h)) = p" using p(1) by (simp only: if_less_max)
  then have "vTaskPriorityDisinheritAfterTimeout abs_step (Some h) w k = Some k"
    using False held by (auto simp: vTaskPriorityDisinheritAfterTimeout_def assert_def Let_def)
  then show ?thesis using ok False repriorised_refl [of h k] by auto
next
  case True
  show ?thesis
  proof (cases "is_ready k h")
    case rd: True
    obtain v and n :: u32 and A b where V: "event_value_ok k h \<longrightarrow> v = configMAX_PRIORITIES - p" and S: "core_ok T (k\<lparr>lists := revalue (xEventListItem h) v (lists k)\<rparr>)" (is "core_ok T ?k")
        "replaced (pxReadyTasksLists (prio k h)) (remove1 (xStateListItem h) (seq_items (lists k) (pxReadyTasksLists (prio k h)))) (xStateListItem h) None
           (revalue (xEventListItem h) v (lists k)) A"
        "bits_ok (k\<lparr>lists := A, uxTopReadyPriority := b\<rparr>)" "n \<noteq> 0 \<longrightarrow> b = uxTopReadyPriority k"
        "n = 0 \<longleftrightarrow> (\<forall>u. is_ready k u \<longrightarrow> prio k u = prio k h \<longrightarrow> u = h)"
        "vTaskPriorityDisinheritAfterTimeout abs_step (Some h) w k =
           prvAddTaskToReadyList abs_step h (let k1 = set_priority h p (k\<lparr>lists := A\<rparr>) in if n = 0 then portRESET_READY_PRIORITY p k1 else k1)"
      by (rule timeout_steps [OF ok h conjunct1 [OF True] rd p(1) conjunct2 [OF True]])
    have n: "n \<noteq> 0" using S(5) shared [OF conjunct1 [OF True] conjunct2 [OF True] rd] by blast
    have rd': "is_ready ?k h" using rd by (simp add: is_ready_def)
    have same: "revalue (xEventListItem h) v A = A" using S(2) by (simp add: replaced_def)
    have top: "k\<lparr>lists := A, uxTopReadyPriority := b\<rparr> = k\<lparr>lists := A\<rparr>" using S(4) n by simp
    obtain A' b' where M: "prvAddTaskToReadyList abs_step h (set_priority h p (?k\<lparr>lists := A, uxTopReadyPriority := b\<rparr>)) =
        Some (set_priority h p (?k\<lparr>lists := A', uxTopReadyPriority := b'\<rparr>))" "core_ok T (set_priority h p (?k\<lparr>lists := A', uxTopReadyPriority := b'\<rparr>))"
        "la_container A' = (places ?k)(xStateListItem h := Some (pxReadyTasksLists (unat p)))" "la_value A' = (la_value (lists ?k))(xEventListItem h := v)"
        "\<And>e. seq_items A' (event_list e) = seq_items (lists ?k) (event_list e)"
      using replaced_moved [OF S(1) h(1) rd' p(2), of "remove1 (xStateListItem h) (seq_items (lists k) (pxReadyTasksLists (prio k h)))" A b v] S(2,3)
      unfolding same by auto
    have "vTaskPriorityDisinheritAfterTimeout abs_step (Some h) w k = Some (set_priority h p (k\<lparr>lists := A', uxTopReadyPriority := b'\<rparr>))"
      using S(6) n M(1) top by (simp add: Let_def)
    moreover have "repriorised h p k (set_priority h p (k\<lparr>lists := A', uxTopReadyPriority := b'\<rparr>))"
      using M(3-5) rd V by (intro repriorisedI [where v = v and A = A' and b = b']) simp_all
    ultimately show ?thesis using M(2) True by simp
  next
    case False
    define v where "v = (if la_value (lists k) (xEventListItem h) AND taskEVENT_LIST_ITEM_VALUE_IN_USE = 0
      then configMAX_PRIORITIES - p else la_value (lists k) (xEventListItem h))"
    let ?k = "k\<lparr>lists := revalue (xEventListItem h) v (lists k)\<rparr>"
    have vs: "(if la_value (lists k) (xEventListItem h) AND taskEVENT_LIST_ITEM_VALUE_IN_USE = 0
        then list_do abs_step (Op_SetValue (xEventListItem h) (configMAX_PRIORITIES - p)) (set_priority h p k) else Some (set_priority h p k)) = Some (set_priority h p ?k)"
      by (simp add: v_def set_value_do)
    have pu: "(if uxBasePriority (tcb k h) < w then w else uxBasePriority (tcb k h)) = p" using p(1) by (simp only: if_less_max)
    have "vTaskPriorityDisinheritAfterTimeout abs_step (Some h) w k = Some (set_priority h p ?k)"
      using not_sym [OF conjunct2 [OF True]] conjunct1 [OF True] h(2) False vs
      by (simp add: vTaskPriorityDisinheritAfterTimeout_def assert_def Let_def pu read_results is_ready_def split del: if_split)
    moreover have "core_ok T (set_priority h p ?k)"
      using False by (intro core_set_priority [OF core_revalue [OF ok] h(1) _ p(2)]) (simp add: is_ready_def)
    moreover have "repriorised h p k (set_priority h p ?k)"
      using False event_value_set [OF _ ok h(1)]
      by (intro repriorisedI [where v = v and A = "revalue (xEventListItem h) v (lists k)" and b = "uxTopReadyPriority k"]) (simp_all add: v_def)
    ultimately show ?thesis using True by simp
  qed
qed

end
