(* ===== verification/KernelInherit.thy ===== *)
theory KernelInherit
  imports KernelMutex
begin

text \<open>
  The end of a loan, on linked lists: giving the mutex back restores the holder's priority and hands the processor on, and the two situations in which the kernel
  does not: a loan ended together with a waiting task of a low priority, and a time-out that leaves a bit of an empty list.
\<close>

section \<open>The functions on linked lists\<close>

lemma set_priority_conc [simp]: "set_priority t p (conc M k) = conc M (set_priority t p k)"
  by (simp add: set_priority_def conc_def)

lemma xTaskPriorityInherit_refines:
  "mem_rep M (lists k) \<Longrightarrow> refines krel2 (xTaskPriorityInherit mem_step h (conc M k)) (xTaskPriorityInherit abs_step h k)"
  by (auto simp: xTaskPriorityInherit_def Let_def intro!: refine_rules prvAddTaskToReadyList_refines split: option.splits)

lemma mutex_block_refines:
  "mem_rep M (lists k) \<Longrightarrow> refines krel2 (mutex_block mem_step n m (conc M k)) (mutex_block abs_step n m k)"
  by (auto simp: mutex_block_def intro!: refine_rules xTaskPriorityInherit_refines vTaskPlaceOnEventList_refines)

abbreviation krel3 :: "'a \<times> 'b \<times> mem_kernel \<Rightarrow> 'a \<times> 'b \<times> seq_kernel \<Rightarrow> bool" where
  "krel3 \<equiv> rel_prod (=) (rel_prod (=) krel)"

lemma xTaskPriorityDisinherit_refines:
  "mem_rep M (lists k) \<Longrightarrow> refines krel2 (xTaskPriorityDisinherit mem_step h (conc M k)) (xTaskPriorityDisinherit abs_step h k)"
  by (auto simp: xTaskPriorityDisinherit_def Let_def intro!: refine_rules prvAddTaskToReadyList_refines split: option.splits)

lemma mutex_give_refines:
  "mem_rep M (lists k) \<Longrightarrow> refines krel3 (mutex_give mem_step (m, conc M k)) (mutex_give abs_step (m, k))"
  by (auto simp: mutex_give_def Let_def intro!: refine_rules xTaskPriorityDisinherit_refines remove_from_event_list_refines split: if_splits)

lemma timeout_refines:
  "mem_rep M (lists k) \<Longrightarrow>
    refines krel (vTaskPriorityDisinheritAfterTimeout mem_step h p (conc M k)) (vTaskPriorityDisinheritAfterTimeout abs_step h p k)"
  by (auto simp: vTaskPriorityDisinheritAfterTimeout_def Let_def intro!: refine_rules prvAddTaskToReadyList_refines split: option.splits)

lemma mutex_timed_out_refines:
  "mem_rep M (lists k) \<Longrightarrow> refines krel (mutex_timed_out mem_step b m (conc M k)) (mutex_timed_out abs_step b m k)"
  by (auto simp: mutex_timed_out_def prvGetDisinheritPriorityAfterTimeout_def intro!: refine_rules timeout_refines)

lemma refines3E: "refines krel3 x (Some (a, b, k)) \<Longrightarrow> \<exists>M. x = Some (a, b, conc M k) \<and> mem_rep M (lists k)"
  by (auto simp: refines_def krel_def)

lemma refines2E: "refines krel2 x (Some (a, k)) \<Longrightarrow> \<exists>M. x = Some (a, conc M k) \<and> mem_rep M (lists k)"
  by (auto simp: refines_def krel_def)

section \<open>Giving back\<close>

text \<open>
  Claim C35: Giving a mutex back, on linked lists: the call succeeds and the mutex is free; the running task has its own priority again if this was its last mutex, and
  keeps the borrowed one otherwise; the first of the waiting tasks is ready; and a switch is requested if this task has a higher priority than the running one now
  has, or, when nobody waits, if the loan has ended. The lists of the scheduler are in order in every case. The running task then has the highest priority
  or a switch is requested, so that the whole invariant holds, provided that the call requests a switch, or the priority of the running task has not dropped, or no
  other ready task is above it; without this proviso a switch can be lost, see \<open>mutex_give_loses_switch\<close>.
\<close>

theorem mutex_give_hands_over:
  assumes "kernel_inv i T k" and "mem_rep M (lists k)" and "uxSchedulerSuspended k = 0" and "pxCurrentTCB k = Some c" and "is_ready k c"
    and "xMutexHolder m = Some c" and "mx_count m = 0" and "uxMutexesHeld (tcb k c) \<noteq> 0" and "unat (uxBasePriority (tcb k c)) < 31"
  shows "\<exists>M' k'. mutex_give mem_step (m, conc M k) = Some (True, m\<lparr>xMutexHolder := None, mx_count := 1\<rparr>, conc M' k') \<and> mem_rep M' (lists k') \<and>
    sched_ok T k' \<and> (\<forall>t. uxPriority (tcb k' t) = (if t = c then priority_given c k else uxPriority (tcb k t))) \<and>
    (\<forall>t. is_ready k' t \<longleftrightarrow> is_ready k t \<or> first_waiting m k t) \<and> (pendsv k' \<longleftrightarrow> pendsv k \<or> give_yields m c k) \<and>
    (give_yields m c k \<or> uxPriority (tcb k c) \<le> priority_given c k \<or> (\<forall>t. is_ready k t \<and> t \<noteq> c \<longrightarrow> uxPriority (tcb k t) \<le> priority_given c k) \<longrightarrow>
       kernel_inv i T k')"
proof -
  have ok: "sched_ok T k" "dispatch_ok k" "is_ready k i" using assms(1) by (simp_all add: kernel_inv_def)
  obtain k' where k': "mutex_give abs_step (m, k) = Some (True, m\<lparr>xMutexHolder := None, mx_count := 1\<rparr>, k')" "sched_ok T k'"
      "\<forall>t. uxPriority (tcb k' t) = (if t = c then priority_given c k else uxPriority (tcb k t))"
      "\<forall>t. is_ready k' t \<longleftrightarrow> is_ready k t \<or> first_waiting m k t" "pxCurrentTCB k' = Some c" "uxSchedulerSuspended k' = 0"
      "pendsv k' \<longleftrightarrow> pendsv k \<or> give_yields m c k" "xYieldPending k' \<longrightarrow> xYieldPending k \<or> pendsv k'"
    using mutex_give_spec [OF ok(1) assms(3-9)] by blast
  have "dispatch_ok k'" if h: "give_yields m c k \<or> uxPriority (tcb k c) \<le> priority_given c k \<or> (\<forall>t. is_ready k t \<and> t \<noteq> c \<longrightarrow> uxPriority (tcb k t) \<le> priority_given c k)"
  proof (cases "pendsv k'")
    case False
    then have no: "\<not> pendsv k" "\<not> give_yields m c k" using k'(7) by auto
    then have hi: "runs_highest k" "\<not> xYieldPending k" using ok(2) assms(3) by (simp_all add: dispatch_ok_def)
    have "uxPriority (tcb k t) \<le> priority_given c k" if "is_ready k t" "t \<noteq> c" for t
    proof -
      have "uxPriority (tcb k t) \<le> uxPriority (tcb k c)" using hi(1) assms(4) that(1) by (auto simp: runs_highest_def word_le_nat_alt)
      then show ?thesis using h no(2) that by (meson order_trans)
    qed
    moreover have "uxPriority (tcb k t) \<le> priority_given c k" if "first_waiting m k t" for t
      using no(2) that by (auto simp: give_yields_def first_waiting_def not_less)
    ultimately have "uxPriority (tcb k' t) \<le> uxPriority (tcb k' c)" if "is_ready k' t" for t using k'(3,4) that by auto
    then have "runs_highest k'" using k'(4,5) assms(5) by (simp add: runs_highest_def word_le_nat_alt)
    then show ?thesis using k'(6,8) hi(2) False by (simp add: dispatch_ok_def)
  qed (simp add: dispatch_ok_def)
  then have "give_yields m c k \<or> uxPriority (tcb k c) \<le> priority_given c k \<or> (\<forall>t. is_ready k t \<and> t \<noteq> c \<longrightarrow> uxPriority (tcb k t) \<le> priority_given c k) \<longrightarrow> kernel_inv i T k'"
    using k'(2,4) ok(3) by (simp add: kernel_inv_def)
  then show ?thesis using refines3E [OF mutex_give_refines [OF assms(2), of m, unfolded k'(1)]] k'(2-4,7) by blast
qed

text \<open>
  Claim C36: A switch is lost. When the last mutex is given back and the first of the waiting tasks has no higher priority than the holder's own, no switch is requested,
  although the priority of the running task has dropped and another ready task has a higher one: this task stays ready and does not run.
\<close>

theorem mutex_give_loses_switch:
  assumes "kernel_inv i T k" and "mem_rep M (lists k)" and "uxSchedulerSuspended k = 0" and "\<not> pendsv k" and "pxCurrentTCB k = Some c" and "is_ready k c"
    and "xMutexHolder m = Some c" and "mx_count m = 0" and "uxMutexesHeld (tcb k c) = 1" and "uxBasePriority (tcb k c) < uxPriority (tcb k c)"
    and "first_waiting m k t" and "uxPriority (tcb k t) \<le> uxBasePriority (tcb k c)"
    and "is_ready k u" and "u \<noteq> c" and "uxBasePriority (tcb k c) < uxPriority (tcb k u)"
  shows "\<exists>M' k'. mutex_give mem_step (m, conc M k) = Some (True, m\<lparr>xMutexHolder := None, mx_count := 1\<rparr>, conc M' k') \<and> mem_rep M' (lists k') \<and>
    \<not> pendsv k' \<and> uxSchedulerSuspended k' = 0 \<and> pxCurrentTCB k' = Some c \<and> is_ready k' u \<and> prio k' c < prio k' u"
proof -
  have ok: "sched_ok T k" "core_ok T k" using assms(1) by (simp_all add: kernel_inv_def sched_ok_def)
  have "c \<in> T" using core_okD(13) [OF ok(2)] assms(5) by auto
  then have base: "unat (uxBasePriority (tcb k c)) < 31" using core_okD(9) [OF ok(2), of c] assms(10) by (simp add: word_less_nat_alt)
  have held: "uxMutexesHeld (tcb k c) \<noteq> 0" using assms(9) by simp
  obtain k' where k': "mutex_give abs_step (m, k) = Some (True, m\<lparr>xMutexHolder := None, mx_count := 1\<rparr>, k')" "sched_ok T k'"
      "\<forall>t. uxPriority (tcb k' t) = (if t = c then priority_given c k else uxPriority (tcb k t))"
      "\<forall>t. is_ready k' t \<longleftrightarrow> is_ready k t \<or> first_waiting m k t" "pxCurrentTCB k' = Some c" "uxSchedulerSuspended k' = 0"
      "pendsv k' \<longleftrightarrow> pendsv k \<or> give_yields m c k"
    using mutex_give_spec [OF ok(1) assms(3,5-8) held base] by blast
  have p: "priority_given c k = uxBasePriority (tcb k c)" using assms(9) by (simp add: priority_given_def)
  have "\<not> give_yields m c k" using assms(11,12) p by (auto simp: give_yields_def first_waiting_def)
  then have "\<not> pendsv k'" "is_ready k' u" "prio k' c < prio k' u"
    using k'(3,4,7) assms(4,13-15) p by (simp_all add: word_less_nat_alt)
  then show ?thesis using refines3E [OF mutex_give_refines [OF assms(2), of m, unfolded k'(1)]] k'(5,6) by blast
qed

section \<open>The end of a loan by a time-out\<close>

text \<open>
  The end of a loan that keeps the invariant: the priority of the holder changes only if another ready task has the priority that the holder had borrowed, as the
  task whose wait has just ended.
\<close>

lemma timed_out_inv:
  assumes "kernel_inv i T k" and "xMutexHolder m = Some h" and "h \<in> T" and "pxCurrentTCB k \<noteq> Some h" and "uxMutexesHeld (tcb k h) \<noteq> 0"
    and p: "p = max (uxBasePriority (tcb k h)) (waiting_priority m k)" "p \<le> uxPriority (tcb k h)"
    and "uxMutexesHeld (tcb k h) = 1 \<and> p \<noteq> uxPriority (tcb k h) \<and> is_ready k h \<longrightarrow> (\<exists>u. u \<noteq> h \<and> is_ready k u \<and> prio k u = prio k h)"
  shows "\<exists>k'. mutex_timed_out abs_step True m k = Some k' \<and> kernel_inv i T k' \<and>
    repriorised h (if uxMutexesHeld (tcb k h) = 1 then p else uxPriority (tcb k h)) k k'"
proof -
  let ?p = "if uxMutexesHeld (tcb k h) = 1 then p else uxPriority (tcb k h)"
  have ok: "core_ok T k" "times_ok k" "resumed_ok k" "dispatch_ok k" "is_ready k i" using assms(1) by (simp_all add: kernel_inv_def sched_ok_def)
  have p31: "unat p < 31" using p(2) core_okD(9) [OF ok(1) assms(3)] by (simp only: word_le_nat_alt)
  obtain k' where k': "vTaskPriorityDisinheritAfterTimeout abs_step (Some h) (waiting_priority m k) k = Some k'" "core_ok T k'" "repriorised h ?p k k'"
    using timeout_spec [OF ok(1) assms(3-5) p(1) p31] assms(8) by blast
  note R = repriorised_frame [OF k'(3)] and rd = repriorised_ready [OF ok(1) assms(3) k'(3)]
  have run: "mutex_timed_out abs_step True m k = Some k'" using k'(1) assms(2) waiting_priority_spec [OF ok(1), of m] by (simp add: mutex_timed_out_def)
  have "prio k' h \<le> prio k h" using R(1) [of h] p(2) by (simp add: word_le_nat_alt)
  then have le: "prio k' t \<le> prio k t" for t using R(1) [of t] by (cases "t = h") simp_all
  have "runs_highest k'" if hi: "runs_highest k"
  proof -
    obtain c where c: "pxCurrentTCB k = Some c" "is_ready k c" "\<forall>t. is_ready k t \<longrightarrow> prio k t \<le> prio k c" using hi unfolding runs_highest_def by blast
    have same: "prio k' c = prio k c" using R(1) [of c] c(1) assms(4) by auto
    have "prio k' t \<le> prio k' c" if t: "is_ready k' t" for t
    proof -
      have "prio k t \<le> prio k c" using c(3) t rd [of t] by blast
      then show ?thesis using le [of t] same by linarith
    qed
    then show ?thesis using c(1,2) rd [of c] R(4) unfolding runs_highest_def by simp
  qed
  then have "dispatch_ok k'" using ok(4) R(4-7,12) rd by (auto simp: dispatch_ok_def current_blocked_iff)
  then have "kernel_inv i T k'"
    using k'(2) repriorised_times [OF ok(1,2) k'(3)] repriorised_resumed [OF ok(3) k'(3)] rd ok(5) by (simp add: kernel_inv_def sched_ok_def)
  then show ?thesis using run k'(3) by blast
qed

text \<open>
  Claim C37: The time-out of a waiting task can leave a bit of an empty list. When the holder is the only ready task of the priority it has borrowed, ending the loan
  clears the bit of its new priority instead of the one it had: the list of the old priority is empty and still marked. As soon as no higher priority is marked, the
  next switch of tasks fails its assertion.
\<close>

theorem mutex_timeout_stale_bit:
  assumes "kernel_inv i T k" and "mem_rep M (lists k)" and "h \<in> T" and "pxCurrentTCB k \<noteq> Some h" and "is_ready k h" and "uxMutexesHeld (tcb k h) = 1"
    and "max (uxBasePriority (tcb k h)) w < uxPriority (tcb k h)" and "\<forall>u. is_ready k u \<and> prio k u = prio k h \<longrightarrow> u = h"
  shows "\<exists>M' k'. vTaskPriorityDisinheritAfterTimeout mem_step (Some h) w (conc M k) = Some (conc M' k') \<and> mem_rep M' (lists k') \<and>
    bit (uxTopReadyPriority k') (prio k h) \<and> seq_items (lists k') (pxReadyTasksLists (prio k h)) = [] \<and>
    (\<forall>k''. uxSchedulerSuspended k'' = 0 \<and> unat (portGET_HIGHEST_PRIORITY (uxTopReadyPriority k'')) = prio k h \<and>
       seq_items (lists k'') (pxReadyTasksLists (prio k h)) = [] \<longrightarrow> vTaskSwitchContext abs_step k'' = None)"
proof -
  let ?p = "max (uxBasePriority (tcb k h)) w" and ?old = "pxReadyTasksLists (prio k h)"
  have ok: "core_ok T k" using assms(1) by (simp add: kernel_inv_def sched_ok_def)
  have less: "unat ?p < prio k h" using assms(7) by (simp only: word_less_nat_alt)
  have ne: "?p \<noteq> uxPriority (tcb k h)" by (rule less_imp_neq [OF assms(7)])
  obtain v and n :: u32 and A b where S: "core_ok T (k\<lparr>lists := revalue (xEventListItem h) v (lists k)\<rparr>)" (is "core_ok T ?k")
      "replaced ?old (remove1 (xStateListItem h) (seq_items (lists k) ?old)) (xStateListItem h) None (revalue (xEventListItem h) v (lists k)) A"
      "n = 0 \<longleftrightarrow> (\<forall>u. is_ready k u \<longrightarrow> prio k u = prio k h \<longrightarrow> u = h)"
      "vTaskPriorityDisinheritAfterTimeout abs_step (Some h) w k =
         prvAddTaskToReadyList abs_step h (let k1 = set_priority h ?p (k\<lparr>lists := A\<rparr>) in if n = 0 then portRESET_READY_PRIORITY ?p k1 else k1)"
    by (rule timeout_steps [OF ok assms(3,4,6,5) refl ne])
  note r = S(2) [unfolded replaced_def]
  have n: "n = 0" using S(3) assms(8) by blast
  have one: "set (seq_items (lists k) ?old) \<subseteq> {xStateListItem h}"
  proof
    fix x assume "x \<in> set (seq_items (lists k) ?old)"
    then have "places k x = Some ?old" using container_iff [OF core_okD(1) [OF ok]] by blast
    from ready_item_place [OF ok this] obtain u where "x = xStateListItem u" "is_ready k u" "prio k u = prio k h" by auto
    then show "x \<in> {xStateListItem h}" using assms(8) by blast
  qed
  have "set (remove1 (xStateListItem h) (seq_items (lists k) ?old)) = set (seq_items (lists k) ?old) - {xStateListItem h}"
    by (rule set_remove1_eq [OF seq_distinct [OF core_okD(1) [OF ok]]])
  then have "set (remove1 (xStateListItem h) (seq_items (lists k) ?old)) = {}" using one by (simp only: Diff_eq_empty_iff)
  then have empty: "seq_items A ?old = []" using conjunct1 [OF conjunct2 [OF r]] by simp
  let ?k1 = "set_priority h ?p (k\<lparr>lists := A\<rparr>)" and ?l = "pxReadyTasksLists (unat ?p)"
  have lo: "lists_ok T (?k\<lparr>lists := A\<rparr>)"
    using r core_okD(5,6) [OF ok] by (intro lists_ok_update [OF core_lists [OF S(1)]]) auto
  have "unat ?p < 31" using less core_okD(9) [OF ok assms(3)] by linarith
  then have dom: "?l \<in> dom (la_lists A)" using lists_okD(2) [OF lo, of ?l] by (simp add: kernel_list_def)
  obtain A' ys zs where A': "abs_step (Op_InsertEnd ?l (xStateListItem h)) A = Some (Nothing, A')" "replaced ?l (ys @ xStateListItem h # zs) (xStateListItem h) (Some ?l) A A'"
    using insert_end_seq [of A "xStateListItem h" ?l] r dom seq_length [OF lo, of ?l] by auto
  let ?top = "portRECORD_READY_PRIORITY ?p (uxTopReadyPriority (portRESET_READY_PRIORITY ?p k))"
  let ?k' = "?k1\<lparr>lists := A', uxTopReadyPriority := ?top\<rparr>"
  have run: "vTaskPriorityDisinheritAfterTimeout abs_step (Some h) w k = Some ?k'"
    using S(4) n A'(1) by (simp add: prvAddTaskToReadyList_def Let_def call_results(1) portRESET_READY_PRIORITY_def)
  have "bit (uxTopReadyPriority k) (prio k h)" using core_okD(11) [OF ok] assms(5) by (auto simp: bits_ok_def is_ready_def)
  then have "bit (uxTopReadyPriority ?k') (prio k h)" using less by (simp add: bit_record bit_reset)
  moreover have "seq_items (lists ?k') ?old = []" using A'(2) empty less by (simp add: replaced_def)
  moreover have "vTaskSwitchContext abs_step k'' = None"
    if "uxSchedulerSuspended k'' = 0" "unat (portGET_HIGHEST_PRIORITY (uxTopReadyPriority k'')) = prio k h" "seq_items (lists k'') ?old = []" for k''
  proof -
    have "list_num abs_step (Op_Length ?old) k = Some (n, k1) \<Longrightarrow> n = of_nat (length (seq_items (lists k) ?old))" for k k1 n
      by (auto simp: list_num_def list_call_def abs_step_def seq_items_def split: option.splits)
    then show ?thesis
      using that by (auto simp: vTaskSwitchContext_def taskSELECT_HIGHEST_PRIORITY_TASK_def assert_def Let_def split: Option.bind_splits) fastforce
  qed
  ultimately show ?thesis using refinesE [OF timeout_refines [OF assms(2), of "Some h" w, unfolded run]] by blast
qed

section \<open>Instances\<close>

text \<open>Four tasks, all ready, the one of priority 7 running; and the state in which this one waits for an event and the one of priority 5 runs.\<close>

lemma inv_tcb:
  assumes "kernel_inv i T k" and "\<And>t. uxPriority (f t) = uxPriority (tcb k t)"
  shows "kernel_inv i T (k\<lparr>tcb := f\<rparr>)" "is_ready (k\<lparr>tcb := f\<rparr>) t \<longleftrightarrow> is_ready k t"
proof -
  have "core_ok T (k\<lparr>tcb := f\<rparr>)" using core_tcb_other [of T k f] assms by (simp add: kernel_inv_def sched_ok_def)
  then show "kernel_inv i T (k\<lparr>tcb := f\<rparr>)"
    using assms by (auto simp: kernel_inv_def sched_ok_def times_ok_def resumed_ok_def dispatch_ok_def dispatch_defs)
  show "is_ready (k\<lparr>tcb := f\<rparr>) t \<longleftrightarrow> is_ready k t" using assms(2) by (simp add: is_ready_def)
qed

lemma scene_ready:
  obtains k M where "kernel_inv 0 {0, 1, 2, 3} k" and "mem_rep M (lists k)" and "uxSchedulerSuspended k = 0" and "pxCurrentTCB k = Some 3"
    and "\<And>t. is_ready k t \<longleftrightarrow> t \<in> {0, 1, 2, 3}"
    and "uxPriority (tcb k 0) = 0" "uxPriority (tcb k 1) = 2" "uxPriority (tcb k 2) = 5" "uxPriority (tcb k 3) = 7"
    and "start_system abs_step [(2, 5), (3, 7)] 0 1 (reset_kernel reset_lists) = Some k"
proof -
  let ?ts = "[(2 :: nat, 5 :: u32), (3, 7)]"
  have h: "distinct (map fst ?ts @ [0, 1])" "\<forall>(t, p)\<in>set ?ts. p < configMAX_PRIORITIES" "length ?ts + 2 < 2 ^ 30"
    by (simp_all add: configMAX_PRIORITIES_def)
  have T: "{0, 1} \<union> fst ` set ?ts = {0 :: nat, 1, 2, 3}" by auto
  obtain k where k: "start_system abs_step ?ts 0 1 (reset_kernel reset_lists) = Some k" "kernel_inv 0 {0, 1, 2, 3} k" "runs_highest k" "uxSchedulerSuspended k = 0"
      "\<forall>(t, p)\<in>set (?ts @ [(0, 0), (1, configTIMER_TASK_PRIORITY)]). prio k t = unat p" "\<forall>t\<in>{0, 1, 2, 3}. is_ready k t"
    using start_spec [OF h] unfolding T by blast
  obtain M where M: "mem_rep M (lists k)" using start_refines [of ?ts 0 1, unfolded k(1), THEN refinesE] by blast
  have core: "core_ok {0, 1, 2, 3} k" using k(2) by (simp add: kernel_inv_def sched_ok_def)
  have pr: "prio k 0 = 0" "prio k 1 = 2" "prio k 2 = 5" "prio k 3 = 7" using k(5) by (simp_all add: configTIMER_TASK_PRIORITY_def)
  have u: "uxPriority (tcb k 0) = 0" "uxPriority (tcb k 1) = 2" "uxPriority (tcb k 2) = 5" "uxPriority (tcb k 3) = 7"
    using pr by (simp_all add: word_unat_eq_iff)
  have rd: "is_ready k t \<longleftrightarrow> t \<in> {0, 1, 2, 3}" for t
    using k(6) core_okD(5) [OF core, of t] by (cases "t \<in> {0, 1, 2, 3}") (auto simp: is_ready_def)
  obtain c where c: "pxCurrentTCB k = Some c" "is_ready k c" "\<forall>t. is_ready k t \<longrightarrow> prio k t \<le> prio k c" using k(3) by (auto simp: runs_highest_def)
  have "7 \<le> prio k c" using c(3) rd [of 3] pr(4) by force
  moreover have "c \<in> {0, 1, 2, 3}" using c(2) rd by blast
  ultimately have "c = 3" using pr by (elim insertE emptyE) simp_all
  then have "pxCurrentTCB k = Some 3" using c(1) by simp
  then show thesis by (rule that [OF k(2) M k(4) _ rd u k(1)])
qed

theorem mutex_timeout_stale_bit_witness:
  "\<exists>M k M' k'. vTaskPriorityDisinheritAfterTimeout mem_step (Some 2) 0 (conc M k) = Some (conc M' k') \<and>
     bit (uxTopReadyPriority k') 5 \<and> seq_items (lists k') (pxReadyTasksLists 5) = []"
proof -
  obtain k M where k: "kernel_inv 0 {0, 1, 2, 3} k" "mem_rep M (lists k)" "pxCurrentTCB k = Some 3" "\<And>t. is_ready k t \<longleftrightarrow> t \<in> {0, 1, 2, 3}"
      "uxPriority (tcb k 0) = 0" "uxPriority (tcb k 1) = 2" "uxPriority (tcb k 2) = 5" "uxPriority (tcb k 3) = 7"
    by (rule scene_ready) (blast intro: that)
  let ?f = "(tcb k)(2 := (tcb k 2)\<lparr>uxMutexesHeld := 1, uxBasePriority := 1\<rparr>)"
  have same: "uxPriority (?f t) = uxPriority (tcb k t)" for t by simp
  have i: "kernel_inv 0 {0, 1, 2, 3} (k\<lparr>tcb := ?f\<rparr>)" "\<And>t. is_ready (k\<lparr>tcb := ?f\<rparr>) t \<longleftrightarrow> t \<in> {0, 1, 2, 3}"
    using inv_tcb [where f = ?f, OF k(1) same] k(4) by simp_all
  have alone: "\<forall>u. is_ready (k\<lparr>tcb := ?f\<rparr>) u \<and> prio (k\<lparr>tcb := ?f\<rparr>) u = prio (k\<lparr>tcb := ?f\<rparr>) 2 \<longrightarrow> u = 2"
  proof (intro allI impI, elim conjE)
    fix u assume "is_ready (k\<lparr>tcb := ?f\<rparr>) u" and pu: "prio (k\<lparr>tcb := ?f\<rparr>) u = prio (k\<lparr>tcb := ?f\<rparr>) 2"
    then have "u \<in> {0, 1, 2, 3}" using i(2) by blast
    then show "u = 2" using pu k(5-8) by (elim insertE emptyE) simp_all
  qed
  have "max 1 (0 :: u32) < 5" by simp
  then show ?thesis using mutex_timeout_stale_bit [OF i(1) _ _ _ _ _ _ alone, of M 0] k(2,3,7) i(2) by fastforce
qed

lemma scene_waiting:
  obtains k M where "kernel_inv 0 {0, 1, 2, 3} k" and "mem_rep M (lists k)" and "uxSchedulerSuspended k = 0" and "\<not> pendsv k" and "pxCurrentTCB k = Some 2"
    and "\<And>t. is_ready k t \<longleftrightarrow> t \<in> {0, 1, 2}" and "seq_items (lists k) (event_list 0) = [xEventListItem 3]"
    and "uxPriority (tcb k 1) = 2" "uxPriority (tcb k 2) = 5" "uxPriority (tcb k 3) = 1" "uxBasePriority (tcb k 2) = 1" "uxMutexesHeld (tcb k 2) = 1"
proof -
  obtain k M where k: "kernel_inv 0 {0, 1, 2, 3} k" "mem_rep M (lists k)" "uxSchedulerSuspended k = 0" "pxCurrentTCB k = Some 3"
      "\<And>t. is_ready k t \<longleftrightarrow> t \<in> {0, 1, 2, 3}" "uxPriority (tcb k 0) = 0" "uxPriority (tcb k 1) = 2" "uxPriority (tcb k 2) = 5"
    by (rule scene_ready) (blast intro: that)
  have ok: "core_ok {0, 1, 2, 3} k" "times_ok k" "resumed_ok k" using k(1) by (simp_all add: kernel_inv_def sched_ok_def)
  have r3: "is_ready k 3" using k(5) by simp
  obtain k1 l where k1: "vTaskPlaceOnEventList abs_step (event_list 0) 10 k = Some k1" "core_ok {0, 1, 2, 3} k1" "times_ok k1"
      "places k1 = (places k)(xEventListItem 3 := Some (event_list 0), xStateListItem 3 := Some l)" "l \<in> {xDelayedTaskList1, xDelayedTaskList2, xSuspendedTaskList}"
      "k1 = k\<lparr>lists := lists k1, uxTopReadyPriority := uxTopReadyPriority k1, xNextTaskUnblockTime := xNextTaskUnblockTime k1\<rparr>"
    using wait_spec [OF ok(1,2) k(4) r3, of 10 0] by auto
  obtain A u v where f: "k1 = k\<lparr>lists := A, uxTopReadyPriority := u, xNextTaskUnblockTime := v\<rparr>" using k1(6) by metis
  obtain M1 where M1: "mem_rep M1 (lists k1)" using refinesE [OF vTaskPlaceOnEventList_refines [OF k(2), of "event_list 0" 10, unfolded k1(1)]] by blast
  have rd: "is_ready k1 t \<longleftrightarrow> t \<in> {0, 1, 2}" for t
  proof (cases "t = 3")
    case True
    then show ?thesis using k1(4,5) by (auto simp: is_ready_def)
  next
    case False
    then have "is_ready k1 t \<longleftrightarrow> is_ready k t" using k1(4) f by (simp add: is_ready_def)
    then show ?thesis using k(5) False by simp
  qed
  have "places k1 (xEventListItem 3) = Some (event_list 0)" using k1(4) by simp
  then have "xEventListItem 3 \<in> set (seq_items (lists k1) (event_list 0))" using container_iff [OF core_okD(1) [OF k1(2)]] by blast
  moreover have "x = xEventListItem 3" if x: "x \<in> set (seq_items (lists k1) (event_list 0))" for x
  proof (rule ccontr)
    assume "x \<noteq> xEventListItem 3"
    moreover have "places k1 x = Some (event_list 0)" using x container_iff [OF core_okD(1) [OF k1(2)]] by blast
    ultimately have px: "places k x = Some (event_list 0)" using k1(4,5) by (auto split: if_splits)
    show False
    proof (cases x)
      case (xStateListItem t)
      then show False using px k(5) [of t] core_okD(5) [OF ok(1), of t] by (cases "t \<in> {0, 1, 2, 3}") (auto simp: is_ready_def)
    next
      case (xEventListItem t)
      then have "t \<in> {0, 1, 2, 3}" using px core_okD(6) [OF ok(1), of t] by (cases "t \<in> {0, 1, 2, 3}") auto
      then show False using ready_waits_not [OF ok(1), of t] k(5) px xEventListItem by simp
    qed
  qed
  ultimately have "set (seq_items (lists k1) (event_list 0)) = {xEventListItem 3}" by blast
  then have items: "seq_items (lists k1) (event_list 0) = [xEventListItem 3]" by (rule singleton_list [OF seq_distinct [OF core_okD(1) [OF k1(2)]]])
  let ?k = "(set_priority 3 1 k1)\<lparr>pxCurrentTCB := Some 2, pendsv := False, xYieldPending := False\<rparr>"
  let ?f = "(tcb ?k)(2 := (tcb ?k 2)\<lparr>uxMutexesHeld := 1, uxBasePriority := 1\<rparr>)"
  have "core_ok {0, 1, 2, 3} (set_priority 3 1 k1)" using rd by (intro core_set_priority [OF k1(2)]) simp_all
  then have core: "core_ok {0, 1, 2, 3} ?k" by (simp add: core_defs)
  have rdk: "is_ready ?k t \<longleftrightarrow> t \<in> {0, 1, 2}" for t
    using rd [of t] k1(4,5) by (cases "t = 3") (auto simp: is_ready_def)
  have pr: "uxPriority (tcb ?k 0) = 0" "uxPriority (tcb ?k 1) = 2" "uxPriority (tcb ?k 2) = 5" using k(6-8) f by simp_all
  have "prio ?k t \<le> prio ?k 2" if "is_ready ?k t" for t
  proof -
    have "t \<in> {0, 1, 2}" using that rdk by blast
    then show ?thesis using pr by (elim insertE emptyE) simp_all
  qed
  then have hi: "runs_highest ?k" using rdk [of 2] by (simp add: runs_highest_def)
  have "times_ok ?k" using k1(3) by (simp add: times_ok_def set_priority_def)
  moreover have "resumed_ok ?k"
  proof -
    have "places k1 (xEventListItem t) \<noteq> Some xPendingReadyList" for t using ok(3) k(3) k1(4) by (auto simp: resumed_ok_def)
    then show ?thesis using ok(3) f k(3) by (simp add: resumed_ok_def set_priority_def)
  qed
  ultimately have inv: "kernel_inv 0 {0, 1, 2, 3} ?k" using core hi rdk [of 0] by (simp add: kernel_inv_def sched_ok_def dispatch_ok_def)
  have same: "uxPriority (?f t) = uxPriority (tcb ?k t)" for t by simp
  show thesis
    by (rule that [of "?k\<lparr>tcb := ?f\<rparr>" M1]) (use inv_tcb [where f = ?f, OF inv same] rdk M1 items pr k(3) f in \<open>simp_all add: set_priority_def\<close>)
qed

theorem mutex_give_loses_switch_witness:
  "\<exists>M k M' k'. mutex_give mem_step (\<lparr>mx_count = 0, xMutexHolder = Some 2, uxRecursiveCallCount = 0, mx_waiting = 0\<rparr>, conc M k) =
     Some (True, \<lparr>mx_count = 1, xMutexHolder = None, uxRecursiveCallCount = 0, mx_waiting = 0\<rparr>, conc M' k') \<and>
     \<not> pendsv k' \<and> pxCurrentTCB k' = Some 2 \<and> is_ready k' 1 \<and> prio k' 2 < prio k' 1"
proof -
  obtain k M where k: "kernel_inv 0 {0, 1, 2, 3} k" "mem_rep M (lists k)" "uxSchedulerSuspended k = 0" "\<not> pendsv k" "pxCurrentTCB k = Some 2"
      "\<And>t. is_ready k t \<longleftrightarrow> t \<in> {0, 1, 2}" "seq_items (lists k) (event_list 0) = [xEventListItem 3]"
      "uxPriority (tcb k 1) = 2" "uxPriority (tcb k 2) = 5" "uxPriority (tcb k 3) = 1" "uxBasePriority (tcb k 2) = 1" "uxMutexesHeld (tcb k 2) = 1"
    by (rule scene_waiting) (blast intro: that)
  let ?m = "\<lparr>mx_count = 0, xMutexHolder = Some 2, uxRecursiveCallCount = 0, mx_waiting = 0\<rparr>"
  have "first_waiting ?m k 3" using k(7) by (simp add: first_waiting_def)
  from mutex_give_loses_switch [OF k(1-5) _ _ _ _ _ this, of 1] show ?thesis using k(6,8-12) by auto
qed

text \<open>The holder of priority 0 has borrowed the priority 5; a task of priority 1 waits.\<close>

theorem mutex_give_hands_over_witness:
  "\<exists>M k M' k'. mutex_give mem_step (\<lparr>mx_count = 0, xMutexHolder = Some 2, uxRecursiveCallCount = 0, mx_waiting = 0\<rparr>, conc M k) =
     Some (True, \<lparr>mx_count = 1, xMutexHolder = None, uxRecursiveCallCount = 0, mx_waiting = 0\<rparr>, conc M' k') \<and> uxPriority (tcb k 2) = 5 \<and> \<not> is_ready k 3 \<and>
     kernel_inv 0 {0, 1, 2, 3} k' \<and> uxPriority (tcb k' 2) = 0 \<and> is_ready k' 3 \<and> pendsv k'"
proof -
  obtain k M where k: "kernel_inv 0 {0, 1, 2, 3} k" "mem_rep M (lists k)" "uxSchedulerSuspended k = 0" "\<not> pendsv k" "pxCurrentTCB k = Some 2"
      "\<And>t. is_ready k t \<longleftrightarrow> t \<in> {0, 1, 2}" "seq_items (lists k) (event_list 0) = [xEventListItem 3]"
      "uxPriority (tcb k 1) = 2" "uxPriority (tcb k 2) = 5" "uxPriority (tcb k 3) = 1" "uxBasePriority (tcb k 2) = 1" "uxMutexesHeld (tcb k 2) = 1"
    by (rule scene_waiting) (blast intro: that)
  let ?m = "\<lparr>mx_count = 0, xMutexHolder = Some 2, uxRecursiveCallCount = 0, mx_waiting = 0\<rparr>" and ?f = "(tcb k)(2 := (tcb k 2)\<lparr>uxBasePriority := 0\<rparr>)"
  define k0 where "k0 = k\<lparr>tcb := ?f\<rparr>"
  have p: "uxPriority (?f t) = uxPriority (tcb k t)" for t by simp
  have inv: "kernel_inv 0 {0, 1, 2, 3} k0" "\<And>t. is_ready k0 t \<longleftrightarrow> t \<in> {0, 1, 2}" using inv_tcb [where f = ?f, OF k(1) p] k(6) by (simp_all add: k0_def)
  have s: "mem_rep M (lists k0)" "uxSchedulerSuspended k0 = 0" "pxCurrentTCB k0 = Some 2" "is_ready k0 2" "uxMutexesHeld (tcb k0 2) \<noteq> 0"
      "unat (uxBasePriority (tcb k0 2)) < 31" "priority_given 2 k0 = 0" "first_waiting ?m k0 3" "uxPriority (tcb k0 2) = 5" "\<not> is_ready k0 3"
    using k(2,3,5,7,9,12) inv(2) by (simp_all add: k0_def priority_given_def first_waiting_def)
  have "uxPriority (tcb k0 3) = 1" using k(10) by (simp add: k0_def)
  then have y: "give_yields ?m 2 k0" using s(7,8) by (auto simp: give_yields_def first_waiting_def)
  have m: "xMutexHolder ?m = Some 2" "mx_count ?m = 0" by simp_all
  from mutex_give_hands_over [OF inv(1) s(1-4) m s(5,6)] obtain M' k' where
    g: "mutex_give mem_step (?m, conc M k0) = Some (True, ?m\<lparr>xMutexHolder := None, mx_count := 1\<rparr>, conc M' k')" "kernel_inv 0 {0, 1, 2, 3} k'"
      "\<forall>t. uxPriority (tcb k' t) = (if t = 2 then priority_given 2 k0 else uxPriority (tcb k0 t))"
      "\<forall>t. is_ready k' t \<longleftrightarrow> is_ready k0 t \<or> first_waiting ?m k0 t" "pendsv k'"
    using y by blast
  have "uxPriority (tcb k' 2) = 0" "is_ready k' 3" using g(3,4) s(7,8) by simp_all
  then show ?thesis using g(1,2,5) s(9,10) by (intro exI [of _ M] exI [of _ k0] exI [of _ M'] exI [of _ k']) simp
qed

section \<open>Recursive mutexes\<close>

text \<open>As many gives as takes by the running task lead back to where they began, and only the last of them frees the mutex.\<close>

fun take_times :: "nat \<Rightarrow> Mutex_t \<times> 's kernel \<Rightarrow> (Mutex_t \<times> 's kernel) option" where
  "take_times 0 mk = Some mk"
| "take_times (Suc n) mk = Option.bind (xQueueTakeMutexRecursive mk) (take_times n)"

fun give_times :: "'s list_step \<Rightarrow> nat \<Rightarrow> Mutex_t \<times> 's kernel \<Rightarrow> (Mutex_t \<times> 's kernel) option" where
  "give_times st 0 mk = Some mk"
| "give_times st (Suc n) mk = Option.bind (xQueueGiveMutexRecursive st mk) (\<lambda>(r, mk). give_times st n mk)"

lemma take_nested:
  assumes "pxCurrentTCB k = Some c" and "xMutexHolder m = Some c"
  shows "take_times n (m, k) = Some (m\<lparr>uxRecursiveCallCount := uxRecursiveCallCount m + of_nat n\<rparr>, k)"
  using assms by (induction n arbitrary: m) (simp_all add: xQueueTakeMutexRecursive_def add_ac)

lemma give_nested:
  assumes "pxCurrentTCB k = Some c" and "xMutexHolder m = Some c" and "n < unat (uxRecursiveCallCount m)"
  shows "give_times st n (m, k) = Some (m\<lparr>uxRecursiveCallCount := uxRecursiveCallCount m - of_nat n\<rparr>, k)"
  using assms
proof (induction n arbitrary: m)
  case (Suc n)
  have "uxRecursiveCallCount m \<noteq> 0" using Suc.prems(3) by auto
  then have u: "unat (uxRecursiveCallCount m - 1) = unat (uxRecursiveCallCount m) - 1" by (rule unat_minus_one')
  then have "uxRecursiveCallCount m - 1 \<noteq> 0" using Suc.prems(3) by (auto simp flip: unat_eq_zero)
  then show ?case using Suc.IH [of "m\<lparr>uxRecursiveCallCount := uxRecursiveCallCount m - 1\<rparr>"] Suc.prems u
    by (simp add: xQueueGiveMutexRecursive_def Let_def algebra_simps)
qed simp

lemma recursive_mutex_roundtrip:
  assumes "core_ok T k" and "pxCurrentTCB k = Some c" and "uxBasePriority (tcb k c) = uxPriority (tcb k c)" and "uxMutexesHeld (tcb k c) + 1 \<noteq> 0"
    and m: "mx_count m = 1" "xMutexHolder m = None" "uxRecursiveCallCount m = 0" and e: "seq_items (lists k) (event_list (mx_waiting m)) = []"
    and n: "n < 2 ^ 32 - 1"
  shows "\<exists>k1. take_times (Suc n) (m, k) = Some (m\<lparr>mx_count := 0, xMutexHolder := Some c, uxRecursiveCallCount := of_nat (Suc n)\<rparr>, k1) \<and>
    give_times abs_step n (m\<lparr>mx_count := 0, xMutexHolder := Some c, uxRecursiveCallCount := of_nat (Suc n)\<rparr>, k1) =
      Some (m\<lparr>mx_count := 0, xMutexHolder := Some c, uxRecursiveCallCount := 1\<rparr>, k1) \<and>
    xQueueGiveMutexRecursive abs_step (m\<lparr>mx_count := 0, xMutexHolder := Some c, uxRecursiveCallCount := 1\<rparr>, k1) = Some (True, m, k)"
proof -
  let ?k1 = "k\<lparr>tcb := (tcb k)(c := (tcb k c)\<lparr>uxMutexesHeld := uxMutexesHeld (tcb k c) + 1\<rparr>)\<rparr>"
  let ?m = "\<lambda>r. m\<lparr>mx_count := 0, xMutexHolder := Some c, uxRecursiveCallCount := r\<rparr>"
  have "xQueueTakeMutexRecursive (m, k) = Some (?m 1, ?k1)"
    using assms(2) m by (simp add: xQueueTakeMutexRecursive_def mutex_take_attempt_def pvTaskIncrementMutexHeldCount_def)
  then have t: "take_times (Suc n) (m, k) = Some (?m (of_nat (Suc n)), ?k1)"
    using take_nested [of ?k1 c "?m 1" n] assms(2) by simp
  have "unat (of_nat (Suc n) :: u32) = Suc n" using n by (intro unat_of_nat32) simp
  then have g: "give_times abs_step n (?m (of_nat (Suc n)), ?k1) = Some (?m 1, ?k1)"
    using give_nested [of ?k1 c "?m (of_nat (Suc n))" n abs_step] assms(2) by simp
  have dom: "event_list (mx_waiting m) \<in> dom (la_lists (lists k))" using core_okD(2) [OF assms(1), of "event_list (mx_waiting m)"] by (simp add: kernel_list_def)
  have mm: "m\<lparr>uxRecursiveCallCount := 0, xMutexHolder := None, mx_count := 1\<rparr> = m" using m by (cases m) simp
  have "xQueueGiveMutexRecursive abs_step (?m 1, ?k1) = Some (True, m, k)"
    using assms(2-4) m e read_results(1) [OF dom] mm
    by (simp add: xQueueGiveMutexRecursive_def mutex_give_def xTaskPriorityDisinherit_def assert_def Let_def)
  then show ?thesis using t g by blast
qed

end
