(* ===== verification/KernelOrder.thy ===== *)
theory KernelOrder
  imports KernelInherit
begin

text \<open>
  The tasks that wait for an event are in the order of their priorities. The functions of the scheduler only take tasks out of the list of an event, or put one in
  at its place, and they leave the values of the event items alone; so the head of the list is a waiting task of the highest priority, which is what the end of a loan
  relies on.
\<close>

section \<open>What is kept\<close>

text \<open>
  The list of the event \<open>e\<close> is in the order of its values and holds event items of tasks of \<open>S\<close> only; the tasks of \<open>T\<close> have the control blocks \<open>f\<close>, and the
  values of their event items say their priorities.
\<close>

definition waiting_ok :: "nat \<Rightarrow> nat set \<Rightarrow> nat set \<Rightarrow> (nat \<Rightarrow> TCB_t) \<Rightarrow> seq_kernel \<Rightarrow> bool" where
  "waiting_ok e S T f k \<longleftrightarrow>
     seq_wf (lists k) \<and> sorted (map (la_value (lists k)) (seq_items (lists k) (event_list e))) \<and>
     set (seq_items (lists k) (event_list e)) \<subseteq> xEventListItem ` S \<and>
     pxDelayedTaskList k \<noteq> event_list e \<and> pxOverflowDelayedTaskList k \<noteq> event_list e \<and>
     (\<forall>t\<in>T. tcb k t = f t \<and> event_value_ok k t)"

text \<open>The operations on lists that keep this.\<close>

definition harmless :: "nat \<Rightarrow> nat set \<Rightarrow> nat set \<Rightarrow> (list_id, item) list_op \<Rightarrow> bool" where
  "harmless e S T op \<longleftrightarrow>
     (case op of
        Op_InsertEnd l i \<Rightarrow> l \<noteq> event_list e
      | Op_Insert l i \<Rightarrow> l = event_list e \<longrightarrow> i \<in> xEventListItem ` S
      | Op_SetValue i v \<Rightarrow> i \<notin> xEventListItem ` (S \<union> T)
      | _ \<Rightarrow> True)"

lemma initialise_wf:
  assumes "seq_wf A" and "case la_lists A l of None \<Rightarrow> True | Some q \<Rightarrow> kl_items q = []"
  shows "seq_wf (put_list l \<lparr>kl_items = [], kl_index = None\<rparr> A)" "seq_items (put_list l \<lparr>kl_items = [], kl_index = None\<rparr> A) = seq_items A"
proof -
  show same: "seq_items (put_list l \<lparr>kl_items = [], kl_index = None\<rparr> A) = seq_items A"
    using assms(2) by (auto simp: fun_eq_iff seq_items_def put_list_def split: option.splits)
  show "seq_wf (put_list l \<lparr>kl_items = [], kl_index = None\<rparr> A)"
    using assms(1) unfolding seq_wf_def same by (simp add: put_list_def)
qed

text \<open>Every operation keeps the form of the sequences; what it does to the list of the event.\<close>

lemma harmless_step:
  assumes wf: "seq_wf A" and so: "sorted (map (la_value A) (seq_items A (event_list e)))"
    and sub: "set (seq_items A (event_list e)) \<subseteq> xEventListItem ` S" and step: "abs_step op A = Some (r, A')" and ok: "harmless e S T op"
  shows "seq_wf A' \<and> sorted (map (la_value A') (seq_items A' (event_list e))) \<and> set (seq_items A' (event_list e)) \<subseteq> xEventListItem ` S \<and>
    (\<forall>t\<in>T. la_value A' (xEventListItem t) = la_value A (xEventListItem t))"
proof (cases op)
  case (Op_Initialise l)
  then have emp: "case la_lists A l of None \<Rightarrow> True | Some q \<Rightarrow> kl_items q = []" and A': "A' = put_list l \<lparr>kl_items = [], kl_index = None\<rparr> A"
    using step by (auto simp: abs_step_def split: if_splits)
  show ?thesis using initialise_wf [OF wf emp] so sub unfolding A' by (simp add: put_list_def)
next
  case (Op_InsertEnd l i)
  then have "insertable l i A" using step by (simp add: abs_step_def split: if_splits)
  then have "la_container A i = None" "l \<in> dom (la_lists A)" "length (seq_items A l) + 1 < 2 ^ 32"
    by (auto simp: insertable_def seq_items_def split: option.splits)
  from insert_end_seq [OF wf this] obtain ys zs where "replaced l (ys @ i # zs) i (Some l) A A'" using step Op_InsertEnd by auto
  then show ?thesis using so sub ok Op_InsertEnd by (simp add: replaced_def harmless_def)
next
  case (Op_Insert l i)
  then have "insertable l i A" using step by (simp add: abs_step_def split: if_splits)
  then have "la_container A i = None" "l \<in> dom (la_lists A)" "length (seq_items A l) + 1 < 2 ^ 32"
    by (auto simp: insertable_def seq_items_def split: option.splits)
  from insert_seq [OF wf this] have r: "replaced l (takeWhile (\<lambda>j. la_value A j \<le> la_value A i) (seq_items A l) @ i #
      dropWhile (\<lambda>j. la_value A j \<le> la_value A i) (seq_items A l)) i (Some l) A A'"
    using step Op_Insert by auto
  show ?thesis
  proof (cases "l = event_list e")
    case True
    have "i \<in> xEventListItem ` S" using ok Op_Insert True by (simp add: harmless_def)
    moreover have "set (takeWhile P xs) \<union> set (dropWhile P xs) = set xs" for P and xs :: "item list" by (metis set_append takeWhile_dropWhile_id)
    ultimately show ?thesis using r sorted_insert [OF so, of i] sub True by (simp add: replaced_def)
  next
    case False
    then show ?thesis using r so sub by (simp add: replaced_def)
  qed
next
  case (Op_Remove i)
  then obtain l where l: "la_container A i = Some l" using step by (auto simp: abs_step_def split: option.splits)
  then have "replaced l (remove1 i (seq_items A l)) i None A A'" using remove_seq [OF wf l] step Op_Remove by auto
  then show ?thesis using so sub sorted_remove1 [OF so, of i] set_remove1_subset [of i "seq_items A (event_list e)"]
    by (cases "l = event_list e") (auto simp: replaced_def)
next
  case (Op_SetValue i v)
  then have A': "A' = A\<lparr>la_value := (la_value A)(i := v)\<rparr>" using step by (simp add: abs_step_def)
  have "i \<notin> set (seq_items A (event_list e))" "i \<notin> xEventListItem ` T" using ok Op_SetValue sub by (auto simp: harmless_def)
  then have "map ((la_value A)(i := v)) (seq_items A (event_list e)) = map (la_value A) (seq_items A (event_list e))" by (simp add: map_fun_upd)
  then have "sorted (map (la_value A') (seq_items A (event_list e)))" using so unfolding A' by (simp del: map_fun_upd map_eq_conv)
  then show ?thesis using wf sub \<open>i \<notin> xEventListItem ` T\<close> unfolding A' by auto
next
  case (Op_NextOwner l)
  then have ne: "seq_items A l \<noteq> []" using step by (auto simp: abs_step_def seq_items_def split: option.splits if_splits)
  from next_seq [OF wf ne] show ?thesis using so sub step Op_NextOwner by auto
next
  case (Op_SetOwner i v)
  then have "A' = A\<lparr>la_owner := (la_owner A)(i := v)\<rparr>" using step by (simp add: abs_step_def)
  then show ?thesis using wf so sub by (simp add: seq_wf_def seq_items_def)
next
  case (Op_HeadOwner l)
  then have "A' = A" using step by (auto simp: abs_step_def split: option.splits list.splits)
  then show ?thesis using wf so sub by simp
qed (use step wf so sub in \<open>auto simp: abs_step_def split: if_splits\<close>)

section \<open>Rules\<close>

definition keeps :: "('a \<Rightarrow> bool) \<Rightarrow> 'a option \<Rightarrow> bool" where
  "keeps Q x \<longleftrightarrow> (\<forall>v. x = Some v \<longrightarrow> Q v)"

definition on_state :: "(seq_kernel \<Rightarrow> bool) \<Rightarrow> 'r \<times> seq_kernel \<Rightarrow> bool" where
  "on_state P v \<longleftrightarrow> P (snd v)"

lemma on_state_pair [simp]: "on_state P (a, k) \<longleftrightarrow> P k"
  by (simp add: on_state_def)

lemma keepsD: "keeps Q x \<Longrightarrow> x = Some v \<Longrightarrow> Q v"
  by (simp add: keeps_def)

lemma keeps_Some: "Q v \<Longrightarrow> keeps Q (Some v)"
  by (simp add: keeps_def)

lemma keeps_if: "(b \<Longrightarrow> keeps Q x) \<Longrightarrow> (\<not> b \<Longrightarrow> keeps Q y) \<Longrightarrow> keeps Q (if b then x else y)"
  by simp

lemma keeps_bind:
  "keeps P x \<Longrightarrow> (\<And>k. P k \<Longrightarrow> keeps P (g k)) \<Longrightarrow> keeps P (Option.bind x g)"
  "keeps P x \<Longrightarrow> (\<And>k. P k \<Longrightarrow> keeps (on_state P) (h k)) \<Longrightarrow> keeps (on_state P) (Option.bind x h)"
  by (cases x; simp add: keeps_def)+

lemma keeps_bind2:
  "keeps (on_state P) y \<Longrightarrow> (\<And>a k. P k \<Longrightarrow> keeps P (g (a, k))) \<Longrightarrow> keeps P (Option.bind y g)"
  "keeps (on_state P) y \<Longrightarrow> (\<And>a k. P k \<Longrightarrow> keeps (on_state P) (h (a, k))) \<Longrightarrow> keeps (on_state P) (Option.bind y h)"
  by (cases y; force simp: keeps_def)+

lemma keeps_guard: "(\<And>u :: unit. keeps Q (g u)) \<Longrightarrow> keeps Q (Option.bind x g)"
  by (cases x) (simp_all add: keeps_def)

lemma keeps_task: "(\<And>t :: nat. keeps Q (g t)) \<Longrightarrow> keeps Q (Option.bind x g)"
  by (cases x) (simp_all add: keeps_def)

lemma keeps_map: "keeps P x \<Longrightarrow> (\<And>k. P k \<Longrightarrow> P (g k)) \<Longrightarrow> keeps P (map_option g x)"
  by (cases x) (simp_all add: keeps_def)

lemma keeps_map2: "keeps (on_state P) x \<Longrightarrow> (\<And>a k. P k \<Longrightarrow> P (g (a, k))) \<Longrightarrow> keeps P (map_option g x)"
  by (cases x) (auto simp: keeps_def)

lemma waiting_ok_frame [simp]:
  "waiting_ok e S T f (k\<lparr>pxCurrentTCB := c\<rparr>) = waiting_ok e S T f k" "waiting_ok e S T f (k\<lparr>uxNumberOfTasks := n\<rparr>) = waiting_ok e S T f k"
  "waiting_ok e S T f (k\<lparr>xTickCount := n\<rparr>) = waiting_ok e S T f k" "waiting_ok e S T f (k\<lparr>uxTopReadyPriority := n\<rparr>) = waiting_ok e S T f k"
  "waiting_ok e S T f (k\<lparr>xSchedulerRunning := b\<rparr>) = waiting_ok e S T f k" "waiting_ok e S T f (k\<lparr>xPendedTicks := n\<rparr>) = waiting_ok e S T f k"
  "waiting_ok e S T f (k\<lparr>xYieldPending := b\<rparr>) = waiting_ok e S T f k" "waiting_ok e S T f (k\<lparr>xNumOfOverflows := n\<rparr>) = waiting_ok e S T f k"
  "waiting_ok e S T f (k\<lparr>uxTaskNumber := n\<rparr>) = waiting_ok e S T f k" "waiting_ok e S T f (k\<lparr>xNextTaskUnblockTime := n\<rparr>) = waiting_ok e S T f k"
  "waiting_ok e S T f (k\<lparr>uxSchedulerSuspended := n\<rparr>) = waiting_ok e S T f k" "waiting_ok e S T f (k\<lparr>pendsv := b\<rparr>) = waiting_ok e S T f k"
  "waiting_ok e S T f (portYIELD k) = waiting_ok e S T f k" "waiting_ok e S T f (vTaskSuspendAll k) = waiting_ok e S T f k"
  "waiting_ok e S T f (portRESET_READY_PRIORITY p k) = waiting_ok e S T f k"
  by (simp_all add: waiting_ok_def event_value_ok_def portYIELD_def vTaskSuspendAll_def portRESET_READY_PRIORITY_def)

lemma waiting_ok_if [simp]: "waiting_ok e S T f k \<Longrightarrow> waiting_ok e S T f k' \<Longrightarrow> waiting_ok e S T f (if b then k else k')"
  by simp

lemma keeps_call: "waiting_ok e S T f k \<Longrightarrow> harmless e S T op \<Longrightarrow> keeps (on_state (waiting_ok e S T f)) (list_call abs_step op k)"
proof (cases "abs_step op (lists k)")
  case (Some v)
  assume ok: "waiting_ok e S T f k" and h: "harmless e S T op"
  obtain r A where v: "v = (r, A)" by (cases v)
  have "seq_wf A \<and> sorted (map (la_value A) (seq_items A (event_list e))) \<and> set (seq_items A (event_list e)) \<subseteq> xEventListItem ` S \<and>
      (\<forall>t\<in>T. la_value A (xEventListItem t) = la_value (lists k) (xEventListItem t))"
    using ok Some h unfolding v by (intro harmless_step [where A = "lists k" and op = op and r = r]) (simp_all add: waiting_ok_def)
  then show ?thesis using ok Some v by (simp add: list_call_def keeps_def waiting_ok_def event_value_ok_def)
qed (simp add: list_call_def keeps_def)

lemma keeps_ops:
  assumes "waiting_ok e S T f k" and "harmless e S T op"
  shows "keeps (waiting_ok e S T f) (list_do abs_step op k)" "keeps (on_state (waiting_ok e S T f)) (list_num abs_step op k)"
    "keeps (on_state (waiting_ok e S T f)) (list_owner abs_step op k)" "keeps (on_state (waiting_ok e S T f)) (list_truth abs_step op k)"
    "keeps (on_state (waiting_ok e S T f)) (list_place abs_step op k)"
  using keeps_call [OF assms] unfolding list_do_def list_num_def list_owner_def list_truth_def list_place_def
  by (cases "list_call abs_step op k"; auto simp: keeps_def split: list_result.splits)+

lemma delayed_lists_differ:
  "waiting_ok e S T f k \<Longrightarrow> pxDelayedTaskList k \<noteq> event_list e" "waiting_ok e S T f k \<Longrightarrow> pxOverflowDelayedTaskList k \<noteq> event_list e"
  by (simp_all add: waiting_ok_def)

lemmas keep_rules = keeps_Some keeps_if keeps_bind keeps_bind2 keeps_guard keeps_task keeps_map keeps_map2 keeps_ops

section \<open>The functions of the scheduler\<close>

lemma prvAddTaskToReadyList_keeps: "waiting_ok e S T f k \<Longrightarrow> keeps (waiting_ok e S T f) (prvAddTaskToReadyList abs_step t k)"
  by (simp add: prvAddTaskToReadyList_def Let_def keeps_ops harmless_def)

lemma vTaskSwitchContext_keeps: "waiting_ok e S T f k \<Longrightarrow> keeps (waiting_ok e S T f) (vTaskSwitchContext abs_step k)"
  by (auto simp: vTaskSwitchContext_def taskSELECT_HIGHEST_PRIORITY_TASK_def Let_def harmless_def intro!: keep_rules)

lemma prvResetNextTaskUnblockTime_keeps: "waiting_ok e S T f k \<Longrightarrow> keeps (waiting_ok e S T f) (prvResetNextTaskUnblockTime abs_step k)"
  by (auto simp: prvResetNextTaskUnblockTime_def Let_def harmless_def intro!: keep_rules)

lemma taskSWITCH_DELAYED_LISTS_keeps: "waiting_ok e S T f k \<Longrightarrow> keeps (waiting_ok e S T f) (taskSWITCH_DELAYED_LISTS abs_step k)"
  unfolding taskSWITCH_DELAYED_LISTS_def
  by (auto simp: Let_def harmless_def waiting_ok_def event_value_ok_def intro!: keep_rules prvResetNextTaskUnblockTime_keeps)

lemma prvAddCurrentTaskToDelayedList_keeps:
  "waiting_ok e S T f k \<Longrightarrow> keeps (waiting_ok e S T f) (prvAddCurrentTaskToDelayedList abs_step n b k)"
  by (auto simp: prvAddCurrentTaskToDelayedList_def Let_def harmless_def delayed_lists_differ image_iff intro!: keep_rules)

lemma wake_loop_keeps:
  assumes "waiting_ok e S T f k"
  shows "keeps (on_state (waiting_ok e S T f)) (wake_loop abs_step c sw k)"
proof -
  let ?P = "\<lambda>(st :: (list_id, item) list_abs list_step) c sw k y. st = abs_step \<longrightarrow> waiting_ok e S T f k \<longrightarrow> on_state (waiting_ok e S T f) y"
  have "?P abs_step c sw k y" if "wake_loop abs_step c sw k = Some y" for y
  proof (rule wake_loop.raw_induct [where P = ?P, OF _ that], goal_cases)
    case (1 g st c sw k y)
    show ?case
    proof (intro impI)
      assume st: "st = abs_step" and ok: "waiting_ok e S T f k"
      have rec: "keeps (on_state (waiting_ok e S T f)) (g abs_step c' sw' k')" if "waiting_ok e S T f k'" for c' sw' k'
        using 1(1) [of abs_step c' sw' k'] that by (auto simp: keeps_def)
      show "on_state (waiting_ok e S T f) y"
        by (rule keepsD [OF _ 1(2)]) (use ok st in \<open>auto simp: harmless_def intro!: keep_rules prvAddTaskToReadyList_keeps rec\<close>)
    qed
  qed
  then show ?thesis using assms unfolding keeps_def by blast
qed

lemma pending_loop_keeps:
  assumes "waiting_ok e S T f k"
  shows "keeps (on_state (waiting_ok e S T f)) (pending_loop abs_step t k)"
proof -
  let ?P = "\<lambda>(st :: (list_id, item) list_abs list_step) t k y. st = abs_step \<longrightarrow> waiting_ok e S T f k \<longrightarrow> on_state (waiting_ok e S T f) y"
  have "?P abs_step t k y" if "pending_loop abs_step t k = Some y" for y
  proof (rule pending_loop.raw_induct [where P = ?P, OF _ that], goal_cases)
    case (1 g st t k y)
    show ?case
    proof (intro impI)
      assume st: "st = abs_step" and ok: "waiting_ok e S T f k"
      have rec: "keeps (on_state (waiting_ok e S T f)) (g abs_step t' k')" if "waiting_ok e S T f k'" for t' k'
        using 1(1) [of abs_step t' k'] that by (auto simp: keeps_def)
      show "on_state (waiting_ok e S T f) y"
        by (rule keepsD [OF _ 1(2)]) (use ok st in \<open>auto simp: harmless_def intro!: keep_rules prvAddTaskToReadyList_keeps rec\<close>)
    qed
  qed
  then show ?thesis using assms unfolding keeps_def by blast
qed

lemma xTaskIncrementTick_keeps: "waiting_ok e S T f k \<Longrightarrow> keeps (on_state (waiting_ok e S T f)) (xTaskIncrementTick abs_step k)"
  by (auto simp: xTaskIncrementTick_def Let_def harmless_def intro!: keep_rules taskSWITCH_DELAYED_LISTS_keeps wake_loop_keeps)

lemma pended_ticks_keeps: "waiting_ok e S T f k \<Longrightarrow> keeps (waiting_ok e S T f) (pended_ticks abs_step n k)"
  by (induction n arbitrary: k) (auto intro!: keep_rules xTaskIncrementTick_keeps)

lemma xTaskResumeAll_keeps: "waiting_ok e S T f k \<Longrightarrow> keeps (on_state (waiting_ok e S T f)) (xTaskResumeAll abs_step k)"
  by (auto simp: xTaskResumeAll_def Let_def intro!: keep_rules pending_loop_keeps prvResetNextTaskUnblockTime_keeps pended_ticks_keeps)

lemma vTaskPlaceOnEventList_keeps:
  assumes "waiting_ok e S T f k" and "e' = e \<longrightarrow> (\<forall>t. pxCurrentTCB k = Some t \<longrightarrow> t \<in> S)"
  shows "keeps (waiting_ok e S T f) (vTaskPlaceOnEventList abs_step (event_list e') n k)"
  using assms by (cases "pxCurrentTCB k")
    (auto simp: vTaskPlaceOnEventList_def keeps_def [of _ None] harmless_def intro!: keeps_bind keeps_ops prvAddCurrentTaskToDelayedList_keeps)

lemma remove_from_event_list_keeps: "waiting_ok e S T f k \<Longrightarrow> keeps (on_state (waiting_ok e S T f)) (remove_from_event_list abs_step l k)"
  by (auto simp: remove_from_event_list_def harmless_def intro!: keep_rules prvAddTaskToReadyList_keeps)

section \<open>New tasks\<close>

lemma new_task_keeps:
  assumes ok: "waiting_ok e S T f k" and t: "t \<notin> S" "t \<notin> T" and run: "prvInitialiseNewTask abs_step p t k = Some k'"
  shows "\<exists>b. uxPriority b = p \<and> waiting_ok e S (insert t T) (f(t := b)) k'"
proof -
  have free: "places k (xStateListItem t) = None" "places k (xEventListItem t) = None" "p < configMAX_PRIORITIES"
    using run by (auto simp: prvInitialiseNewTask_def Let_def assert_def list_do_def list_call_def abs_step_def split: if_splits Option.bind_splits)
  from initialise_task [OF this] obtain A b where k': "k' = k\<lparr>lists := A, tcb := (tcb k)(t := b)\<rparr>" "uxPriority b = p" "la_lists A = la_lists (lists k)"
      "la_container A = places k" "la_value A = (la_value (lists k))(xEventListItem t := configMAX_PRIORITIES - p)"
    using run by auto
  have items: "seq_items A = seq_items (lists k)" using k'(3) by (simp add: fun_eq_iff seq_items_def)
  have "xEventListItem t \<notin> set (seq_items (lists k) (event_list e))" using ok t(1) by (auto simp: waiting_ok_def)
  then have "map (la_value A) (seq_items A (event_list e)) = map (la_value (lists k)) (seq_items (lists k) (event_list e))" unfolding items k'(5) by simp
  moreover have "seq_wf A" using ok k'(3,4) unfolding waiting_ok_def seq_wf_def items by simp
  moreover have "\<forall>u\<in>insert t T. tcb k' u = (f(t := b)) u \<and> event_value_ok k' u"
    using ok t(2) k' by (auto simp: waiting_ok_def event_value_ok_def)
  ultimately have "waiting_ok e S (insert t T) (f(t := b)) k'"
    using ok k'(1) items unfolding waiting_ok_def by (simp del: map_eq_conv)
  then show ?thesis using k'(2) by blast
qed

lemma prvInitialiseTaskLists_keeps: "waiting_ok e S T f k \<Longrightarrow> keeps (waiting_ok e S T f) (prvInitialiseTaskLists abs_step k)"
proof -
  have init: "keeps (waiting_ok e S T f) (fold (\<lambda>l k. Option.bind k (list_do abs_step (Op_Initialise l))) ls x)" if "keeps (waiting_ok e S T f) x" for ls x
    using that
  proof (induction ls arbitrary: x)
    case (Cons l ls)
    have "keeps (waiting_ok e S T f) (Option.bind x (list_do abs_step (Op_Initialise l)))"
      using Cons.prems by (intro keeps_bind keeps_ops) (simp_all add: harmless_def)
    then show ?case using Cons.IH by simp
  qed simp
  show "waiting_ok e S T f k \<Longrightarrow> keeps (waiting_ok e S T f) (prvInitialiseTaskLists abs_step k)"
    unfolding prvInitialiseTaskLists_def by (intro keeps_map init keeps_Some) (simp_all add: waiting_ok_def event_value_ok_def)
qed

lemma number_keeps:
  assumes "waiting_ok e S T f k" and "t \<in> T"
  shows "waiting_ok e S T (f(t := (f t)\<lparr>uxTCBNumber := n\<rparr>)) (k\<lparr>tcb := (tcb k)(t := (tcb k t)\<lparr>uxTCBNumber := n\<rparr>)\<rparr>)"
  using assms by (auto simp: waiting_ok_def event_value_ok_def)

lemma add_new_task_keeps:
  assumes ok: "waiting_ok e S T f k" and t: "t \<in> T" and run: "prvAddNewTaskToReadyList abs_step t k = Some k'"
  shows "\<exists>n. waiting_ok e S T (f(t := (f t)\<lparr>uxTCBNumber := n\<rparr>)) k'"
proof -
  let ?k1 = "k\<lparr>uxNumberOfTasks := uxNumberOfTasks k + 1\<rparr>"
  define x where "x = (case pxCurrentTCB ?k1 of
      None \<Rightarrow> (let k = ?k1\<lparr>pxCurrentTCB := Some t\<rparr> in if uxNumberOfTasks k = 1 then prvInitialiseTaskLists abs_step k else Some k)
    | Some cur \<Rightarrow> Some (if \<not> xSchedulerRunning ?k1 \<and> uxPriority (tcb ?k1 cur) \<le> uxPriority (tcb ?k1 t) then ?k1\<lparr>pxCurrentTCB := Some t\<rparr> else ?k1))"
  have "keeps (waiting_ok e S T f) x"
    using ok by (cases "pxCurrentTCB ?k1") (auto simp: x_def Let_def intro!: keeps_Some prvInitialiseTaskLists_keeps)
  moreover obtain k2 where k2: "x = Some k2" using run by (cases x) (auto simp: prvAddNewTaskToReadyList_def Let_def x_def cong: option.case_cong)
  ultimately have ok2: "waiting_ok e S T f k2" by (rule keepsD)
  let ?k3 = "k2\<lparr>uxTaskNumber := uxTaskNumber k2 + 1\<rparr>"
  let ?k4 = "?k3\<lparr>tcb := (tcb ?k3)(t := (tcb ?k3 t)\<lparr>uxTCBNumber := uxTaskNumber ?k3\<rparr>)\<rparr>" and ?f = "f(t := (f t)\<lparr>uxTCBNumber := uxTaskNumber ?k3\<rparr>)"
  have ok4: "waiting_ok e S T ?f ?k4" using ok2 t by (intro number_keeps) simp_all
  have "Option.bind (prvAddTaskToReadyList abs_step t ?k4) (\<lambda>k. if xSchedulerRunning k
      then do { cur \<leftarrow> pxCurrentTCB k; Some (if uxPriority (tcb k cur) < uxPriority (tcb k t) then portYIELD k else k) } else Some k) = Some k'"
    using run k2 unfolding prvAddNewTaskToReadyList_def x_def by (simp add: Let_def)
  moreover have "keeps (waiting_ok e S T ?f) (Option.bind (prvAddTaskToReadyList abs_step t ?k4) (\<lambda>k. if xSchedulerRunning k
      then do { cur \<leftarrow> pxCurrentTCB k; Some (if uxPriority (tcb k cur) < uxPriority (tcb k t) then portYIELD k else k) } else Some k))"
    using prvAddTaskToReadyList_keeps [OF ok4, of t] by (auto intro!: keep_rules)
  ultimately show ?thesis by (blast dest: keepsD)
qed

lemma create_keeps:
  assumes "waiting_ok e S T f k" and "t \<notin> S" "t \<notin> T" and "xTaskCreate abs_step p t k = Some k'"
  shows "\<exists>f'. (\<forall>u\<in>T. f' u = f u) \<and> waiting_ok e S (insert t T) f' k'"
proof -
  obtain k1 where k1: "prvInitialiseNewTask abs_step p t k = Some k1" "prvAddNewTaskToReadyList abs_step t k1 = Some k'"
    using assms(4) by (auto simp: xTaskCreate_def split: Option.bind_splits)
  obtain b where "waiting_ok e S (insert t T) (f(t := b)) k1" using new_task_keeps [OF assms(1-3) k1(1)] by blast
  from add_new_task_keeps [OF this _ k1(2)] obtain n where "waiting_ok e S (insert t T) ((f(t := b))(t := ((f(t := b)) t)\<lparr>uxTCBNumber := n\<rparr>)) k'" by auto
  moreover have "\<forall>u\<in>T. ((f(t := b))(t := ((f(t := b)) t)\<lparr>uxTCBNumber := n\<rparr>)) u = f u" using assms(3) by auto
  ultimately show ?thesis by blast
qed

section \<open>Events and the start\<close>

lemma event_keeps:
  assumes ok: "waiting_ok e S T f k" and l: "legal i T ev k" and S: "S \<subseteq> T" and w: "\<And>n. ev \<noteq> Wait e n" and run: "sched_step abs_step ev k = Some k'"
  shows "\<exists>f'. (\<forall>u\<in>T. f' u = f u) \<and> waiting_ok e S (tasks_after T ev) f' k'"
proof (cases "\<exists>t p. ev = Create t p")
  case True
  then show ?thesis using create_keeps [OF ok] l S run by (fastforce simp: legal_def sched_step_def tasks_after_def)
next
  case False
  have "keeps (waiting_ok e S T f) (sched_step abs_step ev k)"
  proof (cases ev)
    case (Wait e' n)
    then show ?thesis using ok w by (auto simp: sched_step_def intro!: vTaskPlaceOnEventList_keeps)
  qed (use ok False in \<open>auto simp: sched_step_def xPortSysTickHandler_def xPortPendSVHandler_def intro!: keep_rules xTaskIncrementTick_keeps
      vTaskSwitchContext_keeps prvAddCurrentTaskToDelayedList_keeps remove_from_event_list_keeps xTaskResumeAll_keeps\<close>)
  then have "waiting_ok e S T f k'" using run by (rule keepsD)
  moreover have "tasks_after T ev = T" using False by (simp add: tasks_after_def split: sched_event.splits)
  ultimately show ?thesis by auto
qed

lemma create_all_keeps:
  assumes "waiting_ok e {} T f k" and "distinct (map fst ts)" and "fst ` set ts \<inter> T = {}" and "create_all abs_step ts k = Some k'"
  shows "\<exists>f'. waiting_ok e {} (T \<union> fst ` set ts) f' k'"
  using assms
proof (induction ts arbitrary: T f k)
  case (Cons a ts)
  obtain t p where a: "a = (t, p)" by (cases a)
  obtain k1 where k1: "xTaskCreate abs_step p t k = Some k1" "create_all abs_step ts k1 = Some k'"
    using Cons.prems(4) a by (auto split: Option.bind_splits)
  obtain f1 where "waiting_ok e {} (insert t T) f1 k1" using create_keeps [OF Cons.prems(1) _ _ k1(1)] Cons.prems(3) a by auto
  moreover have "distinct (map fst ts)" "fst ` set ts \<inter> insert t T = {}" using Cons.prems(2,3) a by auto
  ultimately show ?case using Cons.IH [of "insert t T" f1 k1] k1(2) a by simp
qed auto

text \<open>After the start nobody waits, and the values say the priorities.\<close>

lemma start_waiting:
  assumes "distinct (map fst ts @ [idle, timer])" and "start_system abs_step ts idle timer (reset_kernel reset_lists) = Some k"
  shows "\<exists>f. waiting_ok e {} ({idle, timer} \<union> fst ` set ts) f k"
proof -
  let ?ts = "ts @ [(idle, 0), (timer, configTIMER_TASK_PRIORITY)]"
  have "waiting_ok e {} {} f (reset_kernel reset_lists)" for f
    by (auto simp: waiting_ok_def reset_kernel_def reset_lists_def seq_wf_def seq_items_def split: list_id.splits)
  moreover have "distinct (map fst ?ts)" using assms(1) by auto
  moreover obtain k1 where k1: "create_all abs_step ?ts (reset_kernel reset_lists) = Some k1"
      "k = k1\<lparr>xNextTaskUnblockTime := portMAX_DELAY, xSchedulerRunning := True, xTickCount := 0\<rparr>"
    using assms(2) unfolding start_system_def create_all_append by (auto simp: vTaskStartScheduler_def split: Option.bind_splits)
  ultimately obtain f where "waiting_ok e {} ({} \<union> fst ` set ?ts) f k1" using create_all_keeps [where ts = ?ts and T = "{}"] by blast
  moreover have "{} \<union> fst ` set ?ts = {idle, timer} \<union> fst ` set ts" by auto
  ultimately show ?thesis using k1(2) by auto
qed

end
