(* ===== verification/KernelInversion.thy ===== *)
theory KernelInversion
  imports KernelOrder
begin

text \<open>
  Priority inheritance prevents inversion, on linked lists: from the moment a task takes a mutex until it gives it back, whatever tasks block on the mutex and whatever
  waits for it time out meanwhile, the holder has at least the priority of every task that waits, and so has the task that runs.
\<close>

section \<open>Histories with a mutex\<close>

text \<open>
  The events of the scheduler, and what other tasks do with the mutex while it is held: \<open>Block\<close> is the part of \<open>xQueueSemaphoreTake\<close> that suspends the scheduler, lends
  the priority and puts the running task into the list of the waiting ones, before it resumes the scheduler and yields, and \<open>Expire\<close> is the end of a wait by a time-out,
  with the flag that the task has kept from its \<open>Block\<close>.
\<close>

datatype mutex_event = Sched sched_event | Block u32 | Expire bool

definition mutex_step :: "'s list_step \<Rightarrow> Mutex_t \<Rightarrow> mutex_event \<Rightarrow> 's kernel \<Rightarrow> 's kernel option" where
  "mutex_step st m ev k =
     (case ev of
        Sched e \<Rightarrow> sched_step st e k
      | Block n \<Rightarrow> map_option snd (mutex_block st n m (vTaskSuspendAll k))
      | Expire b \<Rightarrow> mutex_timed_out st b m k)"

fun mutex_run :: "'s list_step \<Rightarrow> Mutex_t \<Rightarrow> mutex_event list \<Rightarrow> 's kernel \<Rightarrow> 's kernel option" where
  "mutex_run st m [] k = Some k"
| "mutex_run st m (ev # evs) k = Option.bind (mutex_step st m ev k) (mutex_run st m evs)"

definition mutex_tasks :: "nat set \<Rightarrow> mutex_event \<Rightarrow> nat set" where
  "mutex_tasks T ev = (case ev of Sched e \<Rightarrow> tasks_after T e | _ \<Rightarrow> T)"

text \<open>
  When an event can happen while \<open>h\<close> holds the mutex. The holder does not block itself. A task waits for the mutex only by \<open>Block\<close>, and only another task than the holder.
  A time-out that takes a priority back finds another ready task of that priority, as the one whose wait has ended is: where there is none, the bit of an empty list
  stays set, see \<open>mutex_timeout_stale_bit\<close>.
\<close>

definition legal_mutex :: "nat \<Rightarrow> nat set \<Rightarrow> Mutex_t \<Rightarrow> nat \<Rightarrow> mutex_event \<Rightarrow> seq_kernel \<Rightarrow> bool" where
  "legal_mutex i T m h ev k \<longleftrightarrow>
     (case ev of
        Sched e \<Rightarrow> legal i T e k \<and> \<not> blocks e k h \<and> (case e of Wait l n \<Rightarrow> l \<noteq> mx_waiting m | _ \<Rightarrow> True)
      | Block n \<Rightarrow> n \<noteq> 0 \<and> uxSchedulerSuspended k = 0 \<and> (case pxCurrentTCB k of None \<Rightarrow> False | Some c \<Rightarrow> is_ready k c \<and> c \<noteq> i \<and> c \<noteq> h)
      | Expire b \<Rightarrow> pxCurrentTCB k \<noteq> Some h \<and>
          (b \<and> uxMutexesHeld (tcb k h) = 1 \<and> max (uxBasePriority (tcb k h)) (waiting_priority m k) \<noteq> uxPriority (tcb k h) \<longrightarrow>
             (\<exists>u\<in>T. u \<noteq> h \<and> is_ready k u \<and> uxPriority (tcb k u) = uxPriority (tcb k h))))"

fun legal_mutex_run :: "nat \<Rightarrow> nat set \<Rightarrow> Mutex_t \<Rightarrow> nat \<Rightarrow> mutex_event list \<Rightarrow> seq_kernel \<Rightarrow> bool" where
  "legal_mutex_run i T m h [] k = True"
| "legal_mutex_run i T m h (ev # evs) k \<longleftrightarrow>
     legal_mutex i T m h ev k \<and> (case mutex_step abs_step m ev k of None \<Rightarrow> True | Some k' \<Rightarrow> legal_mutex_run i (mutex_tasks T ev) m h evs k')"

section \<open>The invariant of the holder\<close>

definition waits_for :: "Mutex_t \<Rightarrow> seq_kernel \<Rightarrow> nat \<Rightarrow> bool" where
  "waits_for m k t \<longleftrightarrow> places k (xEventListItem t) = Some (event_list (mx_waiting m))"

text \<open>The waiting tasks are in the order of their priorities.\<close>

definition in_order :: "Mutex_t \<Rightarrow> nat set \<Rightarrow> seq_kernel \<Rightarrow> bool" where
  "in_order m T k \<longleftrightarrow> sorted (map (la_value (lists k)) (seq_items (lists k) (event_list (mx_waiting m)))) \<and> (\<forall>t\<in>T. event_value_ok k t)"

definition holder_ok :: "Mutex_t \<Rightarrow> nat \<Rightarrow> nat set \<Rightarrow> seq_kernel \<Rightarrow> bool" where
  "holder_ok m h T k \<longleftrightarrow>
     h \<in> T \<and> is_ready k h \<and> uxMutexesHeld (tcb k h) \<noteq> 0 \<and> uxBasePriority (tcb k h) \<le> uxPriority (tcb k h) \<and> in_order m T k \<and>
     (\<forall>t. waits_for m k t \<longrightarrow> uxPriority (tcb k t) \<le> uxPriority (tcb k h))"

lemma event_items:
  assumes "core_ok T k" and "i \<in> set (seq_items (lists k) (event_list e))"
  shows "\<exists>t\<in>T. i = xEventListItem t \<and> places k (xEventListItem t) = Some (event_list e)"
proof -
  have pl: "places k i = Some (event_list e)" using assms container_iff [OF core_okD(1) [OF assms(1)]] by blast
  show ?thesis
  proof (cases i)
    case (xStateListItem t)
    then have "t \<in> T" using pl core_okD(5) [OF assms(1), of t] by (cases "t \<in> T") auto
    then show ?thesis using core_okD(10) [OF assms(1), of t] pl xStateListItem by (auto simp: task_place_def is_ready_def is_delayed_def)
  next
    case (xEventListItem t)
    then have "t \<in> T" using pl core_okD(6) [OF assms(1), of t] by (cases "t \<in> T") auto
    then show ?thesis using pl xEventListItem by blast
  qed
qed

lemma waiting_okI:
  assumes "core_ok T k" and "in_order m T k"
  shows "waiting_ok (mx_waiting m) {t. waits_for m k t} T (tcb k) k"
proof -
  have "set (seq_items (lists k) (event_list (mx_waiting m))) \<subseteq> xEventListItem ` {t. waits_for m k t}"
    using event_items [OF assms(1)] by (fastforce simp: waits_for_def)
  then show ?thesis using assms core_okD(1) [OF assms(1)] delayed_cases [OF assms(1)] by (auto simp: waiting_ok_def in_order_def)
qed

lemma waits_in: "core_ok T k \<Longrightarrow> waits_for m k t \<Longrightarrow> t \<in> T"
  using core_okD(6) [of T k t] by (cases "t \<in> T") (auto simp: waits_for_def)

lemma waiting_okD:
  assumes "waiting_ok (mx_waiting m) S T f k" and "waits_for m k t"
  shows "t \<in> S"
proof -
  have "xEventListItem t \<in> set (seq_items (lists k) (event_list (mx_waiting m)))"
    using assms container_iff [of "lists k"] by (simp add: waiting_ok_def waits_for_def)
  then show ?thesis using assms(1) by (auto simp: waiting_ok_def)
qed

text \<open>The head of the list is a task of the highest priority of those that wait.\<close>

lemma value_priority: "unat p < 31 \<Longrightarrow> unat q < 31 \<Longrightarrow> configMAX_PRIORITIES - p \<le> configMAX_PRIORITIES - q \<Longrightarrow> q \<le> (p :: u32)"
  by (simp add: configMAX_PRIORITIES_def word_le_nat_alt unat_sub)

lemma waiting_highest:
  assumes ok: "core_ok T k" and o: "in_order m T k" and t: "waits_for m k t"
  shows "uxPriority (tcb k t) \<le> waiting_priority m k"
proof -
  let ?l = "seq_items (lists k) (event_list (mx_waiting m))"
  have mem: "xEventListItem t \<in> set ?l" using t container_iff [OF core_okD(1) [OF ok]] by (simp add: waits_for_def)
  then obtain x xs where l: "?l = x # xs" by (cases ?l) auto
  then obtain u where u: "u \<in> T" "x = xEventListItem u" using event_items [OF ok, of x "mx_waiting m"] by auto
  have tT: "t \<in> T" by (rule waits_in [OF ok t])
  have v: "la_value (lists k) (xEventListItem s) = configMAX_PRIORITIES - uxPriority (tcb k s)" if "s \<in> T" for s
    using o that by (simp add: in_order_def event_value_ok_def)
  have "la_value (lists k) x \<le> la_value (lists k) (xEventListItem t)" using o mem l by (auto simp: in_order_def)
  then have "configMAX_PRIORITIES - uxPriority (tcb k u) \<le> configMAX_PRIORITIES - uxPriority (tcb k t)" unfolding u(2) v [OF tT] v [OF u(1)] .
  then have "uxPriority (tcb k t) \<le> uxPriority (tcb k u)" by (rule value_priority [OF core_okD(9) [OF ok u(1)] core_okD(9) [OF ok tT]])
  then show ?thesis unfolding waiting_priority_def l u(2) list.case v [OF u(1)] by simp
qed

lemma waiting_below:
  assumes ok: "core_ok T k" and h: "holder_ok m h T k"
  shows "max (uxBasePriority (tcb k h)) (waiting_priority m k) \<le> uxPriority (tcb k h)"
proof -
  have "waiting_priority m k \<le> uxPriority (tcb k h)"
  proof (cases "seq_items (lists k) (event_list (mx_waiting m))")
    case (Cons x xs)
    then obtain u where u: "u \<in> T" "x = xEventListItem u" "waits_for m k u" using event_items [OF ok, of x "mx_waiting m"] by (auto simp: waits_for_def)
    have "la_value (lists k) x = configMAX_PRIORITIES - uxPriority (tcb k u)" using h u(1,2) by (simp add: holder_ok_def in_order_def event_value_ok_def)
    then show ?thesis using h u(3) Cons by (simp add: waiting_priority_def holder_ok_def)
  qed (simp add: waiting_priority_def)
  then show ?thesis using h by (simp add: holder_ok_def)
qed

section \<open>Every event keeps it\<close>

lemma holder_sched:
  assumes inv: "kernel_inv i T k" and h: "holder_ok m h T k" and l: "legal_mutex i T m h (Sched ev) k"
  shows "\<exists>k'. sched_step abs_step ev k = Some k' \<and> kernel_inv i (tasks_after T ev) k' \<and> holder_ok m h (tasks_after T ev) k'"
proof -
  have ok: "core_ok T k" "times_ok k" using inv by (auto simp: kernel_inv_def sched_ok_def)
  note H = h [unfolded holder_ok_def]
  have leg: "legal i T ev k" "\<not> blocks ev k h" "\<And>n. ev \<noteq> Wait (mx_waiting m) n" using l by (auto simp: legal_mutex_def)
  obtain k' where k': "sched_step abs_step ev k = Some k'" "kernel_inv i (tasks_after T ev) k'" "follows ev T k k'" using event_inv [OF inv leg(1)] by blast
  have S: "{t. waits_for m k t} \<subseteq> T" using waits_in [OF ok(1)] by blast
  obtain f where f: "\<forall>u\<in>T. f u = tcb k u" "waiting_ok (mx_waiting m) {t. waits_for m k t} (tasks_after T ev) f k'"
    using event_keeps [OF waiting_okI [OF ok(1)] leg(1) S leg(3) k'(1)] H by blast
  have sub: "T \<subseteq> tasks_after T ev" by (auto simp: tasks_after_def split: sched_event.splits)
  have tcb: "tcb k' u = tcb k u" if "u \<in> T" for u using f that sub by (auto simp: waiting_ok_def)
  have "\<not> within (advance ev k) k h" using H by (simp add: within_def is_ready_def is_delayed_def)
  then have rd: "is_ready k' h"
    using k'(3) leg(2) H ready_waits_not [OF ok(1), of h] by (auto simp: follows_def is_ready_def)
  have "uxPriority (tcb k' t) \<le> uxPriority (tcb k' h)" if "waits_for m k' t" for t
  proof -
    have "waits_for m k t" using waiting_okD [OF f(2) that] by simp
    then show ?thesis using H waits_in [OF ok(1)] tcb by simp
  qed
  then have "holder_ok m h (tasks_after T ev) k'"
    using H rd tcb sub f(2) unfolding holder_ok_def in_order_def waiting_ok_def by auto
  then show ?thesis using k' by blast
qed

lemma repriorised_order:
  assumes ok: "core_ok T k" and o: "in_order m T k" and r: "repriorised h p k k'" and h: "\<not> waits_for m k h"
  shows "in_order m T k'" "waits_for m k' t \<longleftrightarrow> waits_for m k t"
proof -
  let ?l = "seq_items (lists k) (event_list (mx_waiting m))"
  have "la_value (lists k') x = la_value (lists k) x" if x: "x \<in> set ?l" for x
  proof -
    obtain u where u: "x = xEventListItem u" "waits_for m k u" using event_items [OF ok x] by (auto simp: waits_for_def)
    then have "u \<noteq> h" using h by blast
    then show ?thesis using repriorised_event_value [OF r] u(1) by simp
  qed
  then have "map (la_value (lists k')) ?l = map (la_value (lists k)) ?l" by simp
  then show "in_order m T k'"
    using o repriorised_frame(11) [OF r] repriorised_values [OF r] unfolding in_order_def by (simp del: map_eq_conv)
  show "waits_for m k' t \<longleftrightarrow> waits_for m k t" using repriorised_frame(10) [OF r] by (simp add: waits_for_def)
qed

lemma ready_no_wait: "core_ok T k \<Longrightarrow> t \<in> T \<Longrightarrow> is_ready k t \<Longrightarrow> \<not> waits_for m k t"
  using ready_waits_not [of T k t] by (simp add: waits_for_def)

lemma holder_block:
  assumes inv: "kernel_inv i T k" and h: "holder_ok m h T k" and m: "xMutexHolder m = Some h" and l: "legal_mutex i T m h (Block n) k"
  shows "\<exists>k'. mutex_step abs_step m (Block n) k = Some k' \<and> kernel_inv i T k' \<and> holder_ok m h T k'"
proof -
  obtain c where c: "pxCurrentTCB k = Some c" "is_ready k c" "c \<noteq> i" "c \<noteq> h" and s: "uxSchedulerSuspended k = 0" "n \<noteq> 0"
    using l by (auto simp: legal_mutex_def split: option.splits)
  note H = h [unfolded holder_ok_def]
  let ?k = "vTaskSuspendAll k"
  have ok: "core_ok T ?k" using suspend_one(1) [OF inv s(1)] .
  have same: "tcb ?k = tcb k" "lists ?k = lists k" "pxCurrentTCB ?k = Some c" using c(1) by (simp_all add: vTaskSuspendAll_def)
  have hT: "h \<in> T" "h \<noteq> c" using H c(4) by auto
  obtain b k' where k': "mutex_block abs_step n m ?k = Some (b, k')" "kernel_inv i T k'"
      "\<forall>t. uxPriority (tcb k' t) = (if t = h then max (uxPriority (tcb k h)) (uxPriority (tcb k c)) else uxPriority (tcb k t))"
      "\<forall>t. is_ready k' t \<longleftrightarrow> is_ready k t \<and> t \<noteq> c" "\<forall>t. t \<noteq> c \<longrightarrow> places k' (xEventListItem t) = places k (xEventListItem t)"
    using mutex_block_spec [OF inv s(1) c(1-3) m hT s(2)] by blast
  obtain b1 k1 where k1: "xTaskPriorityInherit abs_step (Some h) ?k = Some (b1, k1)" "core_ok T k1"
      "repriorised h (max (uxPriority (tcb ?k h)) (uxPriority (tcb ?k c))) ?k k1"
    using inherit_spec [OF ok same(3) hT(1)] by blast
  have run: "vTaskPlaceOnEventList abs_step (event_list (mx_waiting m)) n k1 = Some k'" using k'(1) k1(1) m by (auto simp: mutex_block_def split: Option.bind_splits)
  have "in_order m T ?k" using H same by (simp add: in_order_def event_value_ok_def)
  moreover have nw: "\<not> waits_for m ?k h" using ready_no_wait [OF ok hT(1)] H by (simp add: is_ready_def same)
  ultimately have o1: "in_order m T k1" by (rule repriorised_order(1) [OF ok _ k1(3)])
  have "waiting_ok (mx_waiting m) (insert c {t. waits_for m k1 t}) T (tcb k1) k1"
    using waiting_okI [OF k1(2) o1] by (auto simp: waiting_ok_def)
  moreover have "pxCurrentTCB k1 = Some c" using repriorised_frame(4) [OF k1(3)] same(3) by simp
  ultimately have w: "waiting_ok (mx_waiting m) (insert c {t. waits_for m k1 t}) T (tcb k1) k'"
    by (intro keepsD [OF vTaskPlaceOnEventList_keeps run]) simp_all
  have tcb: "uxBasePriority (tcb k' h) = uxBasePriority (tcb k h)" "uxMutexesHeld (tcb k' h) = uxMutexesHeld (tcb k h)"
    using w hT(1) repriorised_frame(2,3) [OF k1(3), of h] same(1) by (simp_all add: waiting_ok_def)
  have "uxPriority (tcb k' t) \<le> uxPriority (tcb k' h)" if "waits_for m k' t" for t
  proof (cases "t = c")
    case False
    then have "waits_for m k t" using that k'(5) by (simp add: waits_for_def)
    then show ?thesis using H k'(3) by (auto simp: le_max_iff_disj)
  qed (use k'(3) c(4) in simp)
  moreover have "uxBasePriority (tcb k' h) \<le> uxPriority (tcb k' h)" using H k'(3) tcb(1) by (simp add: le_max_iff_disj)
  moreover have "in_order m T k'" using w by (simp add: waiting_ok_def in_order_def)
  ultimately have "holder_ok m h T k'" using H tcb(2) k'(4) hT by (simp add: holder_ok_def)
  then show ?thesis using k'(1,2) by (simp add: mutex_step_def)
qed

lemma holder_expire:
  assumes inv: "kernel_inv i T k" and h: "holder_ok m h T k" and m: "xMutexHolder m = Some h" and l: "legal_mutex i T m h (Expire b) k"
  shows "\<exists>k'. mutex_step abs_step m (Expire b) k = Some k' \<and> kernel_inv i T k' \<and> holder_ok m h T k'"
proof (cases b)
  case True
  have ok: "core_ok T k" using inv by (auto simp: kernel_inv_def sched_ok_def)
  note H = h [unfolded holder_ok_def]
  define p where "p = max (uxBasePriority (tcb k h)) (waiting_priority m k)"
  let ?p = "if uxMutexesHeld (tcb k h) = 1 then p else uxPriority (tcb k h)"
  have below: "p \<le> uxPriority (tcb k h)" unfolding p_def by (rule waiting_below [OF ok h])
  have "uxMutexesHeld (tcb k h) = 1 \<and> p \<noteq> uxPriority (tcb k h) \<and> is_ready k h \<longrightarrow> (\<exists>u. u \<noteq> h \<and> is_ready k u \<and> prio k u = prio k h)"
    using l True unfolding p_def by (auto simp: legal_mutex_def)
  moreover have "pxCurrentTCB k \<noteq> Some h" using l by (simp add: legal_mutex_def)
  ultimately obtain k' where k': "mutex_timed_out abs_step True m k = Some k'" "kernel_inv i T k'" "repriorised h ?p k k'"
    using timed_out_inv [OF inv m _ _ _ p_def below] H by blast
  have nw: "\<not> waits_for m k h" using ready_no_wait [OF ok] H by simp
  note O = repriorised_order [OF ok _ k'(3) nw] and R = repriorised_frame [OF k'(3)]
  have top: "q \<le> ?p" if "q \<le> p" for q using that below by (auto intro: order_trans)
  have "uxPriority (tcb k' t) \<le> uxPriority (tcb k' h)" if t: "waits_for m k' t" for t
  proof -
    have wt: "waits_for m k t" using O(2) [of t] H t by simp
    then have "uxPriority (tcb k t) \<le> p" using waiting_highest [OF ok _ wt] H by (simp add: p_def le_max_iff_disj)
    moreover have "t \<noteq> h" using wt nw by blast
    ultimately show ?thesis using R(1) [of t] R(1) [of h] top by simp
  qed
  moreover have "uxBasePriority (tcb k' h) \<le> uxPriority (tcb k' h)" using R(1) [of h] R(2) [of h] top [of "uxBasePriority (tcb k h)"] by (simp add: p_def)
  ultimately have "holder_ok m h T k'"
    using H O(1) R(3) [of h] repriorised_ready [OF ok _ k'(3)] by (simp add: holder_ok_def)
  then show ?thesis using k'(1,2) True by (simp add: mutex_step_def)
qed (use inv h in \<open>simp add: mutex_step_def mutex_timed_out_def\<close>)

lemma holder_step:
  assumes "kernel_inv i T k" and "holder_ok m h T k" and "xMutexHolder m = Some h" and "legal_mutex i T m h ev k"
  shows "\<exists>k'. mutex_step abs_step m ev k = Some k' \<and> kernel_inv i (mutex_tasks T ev) k' \<and> holder_ok m h (mutex_tasks T ev) k'"
proof (cases ev)
  case (Sched e)
  then show ?thesis using holder_sched [OF assms(1,2)] assms(4) by (simp add: mutex_step_def mutex_tasks_def)
next
  case (Block n)
  then show ?thesis using holder_block [OF assms(1-3)] assms(4) by (simp add: mutex_tasks_def)
next
  case (Expire b)
  then show ?thesis using holder_expire [OF assms(1-3)] assms(4) by (simp add: mutex_tasks_def)
qed

lemma holder_run:
  assumes "kernel_inv i T k" and "holder_ok m h T k" and "xMutexHolder m = Some h" and "legal_mutex_run i T m h evs k"
  shows "\<exists>k'. mutex_run abs_step m evs k = Some k' \<and> kernel_inv i (foldl mutex_tasks T evs) k' \<and> holder_ok m h (foldl mutex_tasks T evs) k'"
  using assms
proof (induction evs arbitrary: T k)
  case (Cons ev evs)
  obtain k1 where k1: "mutex_step abs_step m ev k = Some k1" "kernel_inv i (mutex_tasks T ev) k1" "holder_ok m h (mutex_tasks T ev) k1"
    using holder_step [OF Cons.prems(1-3)] Cons.prems(4) by auto
  then show ?case using Cons.IH [OF k1(2,3)] Cons.prems(3,4) by simp
qed simp

lemma mutex_run_refines: "mem_rep M (lists k) \<Longrightarrow> refines krel (mutex_run mem_step m evs (conc M k)) (mutex_run abs_step m evs k)"
proof (induction evs arbitrary: M k)
  case (Cons ev evs)
  have "refines krel (mutex_step mem_step m ev (conc M k)) (mutex_step abs_step m ev k)"
  proof (cases ev)
    case (Block n)
    then show ?thesis using mutex_block_refines [of M "vTaskSuspendAll k" n m] Cons.prems
      by (auto simp: mutex_step_def intro!: refines_map2)
  qed (use Cons.prems in \<open>simp_all add: mutex_step_def sched_step_refines mutex_timed_out_refines\<close>)
  then show ?case using Cons.IH by (auto intro!: refines_bind)
qed (simp add: refines_Some)

section \<open>No inversion\<close>

text \<open>
  Claim C13: Priority inheritance prevents inversion. A task takes a mutex that is free; nobody waits for it with a higher priority than the task has, and the list of the
  waiting tasks is in order. Then in every history until the task gives the mutex back, in which the task does not block itself - ticks, switches, delays, signals,
  suspensions and new tasks as in the histories of the scheduler, other tasks that block on the mutex and lend their priorities, waits that time out and take them
  back -, every call returns, the invariant of the scheduler holds, the holder has at least the priority of every task that waits for the mutex, and whenever
  the scheduler is not suspended and no switch is requested the task that runs has at least the priority of every task that waits. A time-out in the situation of
  \<open>mutex_timeout_stale_bit\<close> is not part of these histories, nor are operations on other mutexes. On linked lists.
\<close>

theorem mutex_no_inversion:
  assumes "kernel_inv i T k" and "mem_rep M (lists k)" and "pxCurrentTCB k = Some h" and "is_ready k h" and "in_order m T k"
    and "uxBasePriority (tcb k h) \<le> uxPriority (tcb k h)" and "uxMutexesHeld (tcb k h) + 1 \<noteq> 0"
    and "\<forall>t. waits_for m k t \<longrightarrow> uxPriority (tcb k t) \<le> uxPriority (tcb k h)"
    and "mutex_take_attempt (m, k) = Some (m1, k1)" and "legal_mutex_run i T m1 h evs k1"
  shows "mutex_take_attempt (m, conc M k) = Some (m1, conc M k1) \<and> xMutexHolder m1 = Some h \<and>
    (\<exists>M2 k2. mutex_run mem_step m1 evs (conc M k1) = Some (conc M2 k2) \<and> mem_rep M2 (lists k2) \<and> kernel_inv i (foldl mutex_tasks T evs) k2 \<and>
       (\<forall>t. waits_for m k2 t \<longrightarrow> prio k2 t \<le> prio k2 h) \<and>
       (uxSchedulerSuspended k2 = 0 \<and> \<not> pendsv k2 \<longrightarrow> (\<exists>r. pxCurrentTCB k2 = Some r \<and> (\<forall>t. waits_for m k2 t \<longrightarrow> prio k2 t \<le> prio k2 r))))"
proof -
  let ?f = "(tcb k)(h := (tcb k h)\<lparr>uxMutexesHeld := uxMutexesHeld (tcb k h) + 1\<rparr>)"
  have take: "k1 = k\<lparr>tcb := ?f\<rparr>" "m1 = m\<lparr>mx_count := mx_count m - 1, xMutexHolder := Some h\<rparr>" "mx_count m > 0"
    using assms(3,9) by (auto simp: mutex_take_attempt_def pvTaskIncrementMutexHeldCount_def split: if_splits)
  have take': "mutex_take_attempt (m, conc M k) = Some (m1, conc M k1)"
    using assms(3) take by (simp add: mutex_take_attempt_def pvTaskIncrementMutexHeldCount_def)
  have same: "waits_for m1 k' t \<longleftrightarrow> waits_for m k' t" for k' t using take(2) by (simp add: waits_for_def)
  have p: "uxPriority (?f t) = uxPriority (tcb k t)" for t by simp
  have ok: "core_ok T k" using assms(1) by (simp add: kernel_inv_def sched_ok_def)
  have inv: "kernel_inv i T k1" "\<And>t. is_ready k1 t \<longleftrightarrow> is_ready k t" using inv_tcb [where f = ?f, OF assms(1) p] take(1) by simp_all
  have "h \<in> T" using core_okD(13) [OF ok] assms(3) by auto
  moreover have "in_order m1 T k1" using assms(5) take by (simp add: in_order_def event_value_ok_def)
  ultimately have "holder_ok m1 h T k1"
    using assms(4,6-8) inv(2) same take(1) by (simp add: holder_ok_def waits_for_def)
  then obtain k2 where k2: "mutex_run abs_step m1 evs k1 = Some k2" "kernel_inv i (foldl mutex_tasks T evs) k2" "holder_ok m1 h (foldl mutex_tasks T evs) k2"
    using holder_run [OF inv(1) _ _ assms(10)] take(2) by auto
  have le: "prio k2 t \<le> prio k2 h" if "waits_for m k2 t" for t using k2(3) that by (simp add: holder_ok_def same word_le_nat_alt)
  have "\<exists>r. pxCurrentTCB k2 = Some r \<and> (\<forall>t. waits_for m k2 t \<longrightarrow> prio k2 t \<le> prio k2 r)" if "uxSchedulerSuspended k2 = 0 \<and> \<not> pendsv k2"
  proof -
    have "runs_highest k2" "is_ready k2 h" using k2(2,3) that by (simp_all add: kernel_inv_def dispatch_ok_def holder_ok_def)
    then obtain r where r: "pxCurrentTCB k2 = Some r" "prio k2 h \<le> prio k2 r" unfolding runs_highest_def by blast
    then show ?thesis using le order_trans by blast
  qed
  moreover have "mem_rep M (lists k1)" using assms(2) take(1) by simp
  ultimately show ?thesis
    using refinesE [OF mutex_run_refines [of M k1 m1 evs, unfolded k2(1)]] take take' k2(2) le by simp blast
qed

lemma requested_inv:
  assumes "kernel_inv i T k" and "c \<in> T"
  shows "kernel_inv i T (k\<lparr>pxCurrentTCB := Some c, pendsv := True\<rparr>)"
proof -
  have "core_ok T (k\<lparr>pxCurrentTCB := Some c\<rparr>)" using assms by (simp add: kernel_inv_def sched_ok_def core_defs)
  then show ?thesis using assms(1) by (simp add: kernel_inv_def sched_ok_def times_ok_def resumed_ok_def dispatch_ok_def is_ready_def)
qed

text \<open>Four ready tasks; the one of priority 5 runs, and the switch to the one of priority 7 is requested.\<close>

lemma scene_taking:
  fixes m :: Mutex_t
  obtains k M where "kernel_inv 0 {0, 1, 2, 3} k" and "mem_rep M (lists k)" and "uxSchedulerSuspended k = 0" and "pendsv k" and "pxCurrentTCB k = Some 2"
    and "\<And>t. is_ready k t \<longleftrightarrow> t \<in> {0, 1, 2, 3}" and "uxPriority (tcb k 0) = 0" "uxPriority (tcb k 1) = 2" "uxPriority (tcb k 2) = 5" "uxPriority (tcb k 3) = 7"
    and "uxBasePriority (tcb k 2) = 5" "uxMutexesHeld (tcb k 2) = 0" and "in_order m {0, 1, 2, 3} k" and "\<And>t. \<not> waits_for m k t"
proof -
  obtain k0 M where k0: "kernel_inv 0 {0, 1, 2, 3} k0" "mem_rep M (lists k0)" "uxSchedulerSuspended k0 = 0" "\<And>t. is_ready k0 t \<longleftrightarrow> t \<in> {0, 1, 2, 3}"
      "uxPriority (tcb k0 0) = 0" "uxPriority (tcb k0 1) = 2" "uxPriority (tcb k0 2) = 5" "uxPriority (tcb k0 3) = 7"
      "start_system abs_step [(2, 5), (3, 7)] 0 1 (reset_kernel reset_lists) = Some k0"
    by (rule scene_ready) (blast intro: that)
  let ?T = "{0, 1, 2, 3} :: nat set" and ?f = "(tcb k0)(2 := (tcb k0 2)\<lparr>uxMutexesHeld := 0, uxBasePriority := 5\<rparr>)"
  define k where "k = k0\<lparr>tcb := ?f, pxCurrentTCB := Some 2, pendsv := True\<rparr>"
  have p: "uxPriority (?f t) = uxPriority (tcb k0 t)" for t by simp
  have inv0: "kernel_inv 0 ?T (k0\<lparr>tcb := ?f\<rparr>)" "\<And>t. is_ready (k0\<lparr>tcb := ?f\<rparr>) t \<longleftrightarrow> t \<in> ?T" using inv_tcb [where f = ?f, OF k0(1) p] k0(4) by simp_all
  have rd: "is_ready k t \<longleftrightarrow> t \<in> ?T" for t using inv0(2) [of t] by (auto simp: k_def is_ready_def split: if_splits)
  have inv: "kernel_inv 0 ?T k" using requested_inv [OF inv0(1), of 2] by (simp add: k_def)
  obtain f0 where w: "waiting_ok (mx_waiting m) {} ({0, 1} \<union> fst ` set [(2 :: nat, 5 :: u32), (3, 7)]) f0 k0"
    using start_waiting [OF _ k0(9), of "mx_waiting m"] by auto
  have "in_order m ?T k" using w by (simp add: waiting_ok_def in_order_def event_value_ok_def k_def)
  moreover have "\<not> waits_for m k t" for t
    using ready_no_wait [of ?T k t m] waits_in [of ?T k m t] inv rd [of t] by (auto simp: kernel_inv_def sched_ok_def)
  ultimately show thesis by (intro that [OF inv _ _ _ _ rd]) (use k0(2,3,5-8) in \<open>simp_all add: k_def\<close>)
qed

theorem mutex_no_inversion_witness:
  "\<exists>m k k1 M M2 k2. mutex_take_attempt (m, conc M k) = Some (m\<lparr>mx_count := 0, xMutexHolder := Some 2\<rparr>, conc M k1) \<and>
     mutex_run mem_step (m\<lparr>mx_count := 0, xMutexHolder := Some 2\<rparr>) [Sched Switch, Block 10, Sched Resume] (conc M k1) = Some (conc M2 k2) \<and>
     (\<forall>t. waits_for m k2 t \<longrightarrow> prio k2 t \<le> prio k2 2)"
proof -
  let ?m = "\<lparr>mx_count = 1, xMutexHolder = None, uxRecursiveCallCount = 0, mx_waiting = 0\<rparr>" and ?T = "{0, 1, 2, 3} :: nat set"
  obtain k M where k: "kernel_inv 0 ?T k" "mem_rep M (lists k)" "uxSchedulerSuspended k = 0" "pendsv k" "pxCurrentTCB k = Some 2"
      "\<And>t. is_ready k t \<longleftrightarrow> t \<in> ?T" "uxPriority (tcb k 0) = 0" "uxPriority (tcb k 1) = 2" "uxPriority (tcb k 2) = 5" "uxPriority (tcb k 3) = 7"
      "uxBasePriority (tcb k 2) = 5" "uxMutexesHeld (tcb k 2) = 0" "in_order ?m ?T k" "\<And>t. \<not> waits_for ?m k t"
    by (rule scene_taking [of ?m]) (blast intro: that)
  let ?f = "(tcb k)(2 := (tcb k 2)\<lparr>uxMutexesHeld := 1\<rparr>)"
  define k1 where "k1 = k\<lparr>tcb := ?f\<rparr>"
  let ?m1 = "?m\<lparr>mx_count := 0, xMutexHolder := Some 2\<rparr>"
  have p: "uxPriority (?f t) = uxPriority (tcb k t)" for t by simp
  have inv1: "kernel_inv 0 ?T k1" "\<And>t. is_ready k1 t \<longleftrightarrow> t \<in> ?T" using inv_tcb [where f = ?f, OF k(1) p] k(6) by (simp_all add: k1_def)
  have take: "mutex_take_attempt (?m, k) = Some (?m1, k1)"
    using k(5,12) by (simp add: mutex_take_attempt_def pvTaskIncrementMutexHeldCount_def k1_def)
  moreover have "legal_mutex_run 0 ?T ?m1 2 [Sched Switch, Block 10, Sched Resume] k1"
  proof -
    let ?k = "k1\<lparr>pendsv := False\<rparr>"
    have "core_ok ?T ?k" "is_ready ?k 0" "uxSchedulerSuspended ?k = 0" using inv1(1) k(3) by (simp_all add: kernel_inv_def sched_ok_def is_ready_def k1_def)
    then obtain k2 where k2: "vTaskSwitchContext abs_step ?k = Some k2" "runs_highest k2" "places k2 = places ?k"
        "k2 = ?k\<lparr>lists := lists k2, xYieldPending := False, pxCurrentTCB := pxCurrentTCB k2\<rparr>"
      using switch_spec [of ?T ?k 0] by blast
    obtain A d where f2: "k2 = ?k\<lparr>lists := A, xYieldPending := False, pxCurrentTCB := d\<rparr>" using k2(4) by metis
    have run: "sched_step abs_step Switch k1 = Some k2" using k2(1) by (simp add: sched_step_def xPortPendSVHandler_def)
    have rd2: "is_ready k2 t \<longleftrightarrow> t \<in> ?T" for t using inv1(2) [of t] k2(3) f2 by (simp add: is_ready_def)
    have pr: "prio k2 0 = 0" "prio k2 1 = 2" "prio k2 2 = 5" "prio k2 3 = 7" using k(7-10) f2 by (simp_all add: k1_def)
    obtain c where c: "pxCurrentTCB k2 = Some c" "is_ready k2 c" "\<forall>t. is_ready k2 t \<longrightarrow> prio k2 t \<le> prio k2 c" using k2(2) by (auto simp: runs_highest_def)
    have "7 \<le> prio k2 c" using c(3) rd2 [of 3] pr(4) by force
    moreover have "c \<in> ?T" using c(2) rd2 by blast
    ultimately have c3: "c = 3" using pr by (elim insertE emptyE) simp_all
    have inv2: "kernel_inv 0 ?T k2" using inv_switch [OF inv1(1)] run by auto
    have s2: "uxSchedulerSuspended k2 = 0" using k(3) f2 by (simp add: k1_def)
    have blk: "\<exists>b k3. mutex_block abs_step 10 ?m1 (vTaskSuspendAll k2) = Some (b, k3) \<and> uxSchedulerSuspended k3 = 1"
      using mutex_block_spec [OF inv2 s2 c(1,2), of ?m1 2 10] c3 by auto
    have "pendsv k1" using k(4) by (simp add: k1_def)
    then show ?thesis using run blk c(1,2) c3 s2
      by (auto simp: legal_mutex_def mutex_step_def legal_def blocks_def mutex_tasks_def tasks_after_def split: option.splits)
  qed
  moreover have "uxBasePriority (tcb k 2) \<le> uxPriority (tcb k 2)" "uxMutexesHeld (tcb k 2) + 1 \<noteq> 0" "is_ready k 2"
    using k(6,9,11,12) by simp_all
  ultimately have "mutex_take_attempt (?m, conc M k) = Some (?m1, conc M k1) \<and> xMutexHolder ?m1 = Some 2 \<and>
    (\<exists>M2 k2. mutex_run mem_step ?m1 [Sched Switch, Block 10, Sched Resume] (conc M k1) = Some (conc M2 k2) \<and> mem_rep M2 (lists k2) \<and>
       kernel_inv 0 (foldl mutex_tasks ?T [Sched Switch, Block 10, Sched Resume]) k2 \<and> (\<forall>t. waits_for ?m k2 t \<longrightarrow> prio k2 t \<le> prio k2 2) \<and>
       (uxSchedulerSuspended k2 = 0 \<and> \<not> pendsv k2 \<longrightarrow> (\<exists>r. pxCurrentTCB k2 = Some r \<and> (\<forall>t. waits_for ?m k2 t \<longrightarrow> prio k2 t \<le> prio k2 r))))"
    using k(14) by (intro mutex_no_inversion [OF k(1,2,5) _ k(13) _ _ _ take]) simp_all
  then show ?thesis by blast
qed

end
