(* ===== verification/Spec2Isabelle.thy ===== *)
theory Spec2Isabelle
  imports OtaBehaviour PowerInterface SystemBoot RingRace ModuleCan TcpClient KernelTiming EthernetSetup SysArch KernelInversion
begin

text \<open>
  A verification library for the firmware of \<^verbatim>\<open>src/\<close>, a template for GD32H759 boards that runs FreeRTOS and lwIP: it updates itself
  over TCP, talks to power converter modules over CAN with the YFY protocol, and has a command line on a serial console.

  \<^bold>\<open>The parts and how they interact.\<close>

  \<^item> \<^emph>\<open>Firmware update.\<close> The callbacks of the network stack put received bytes into a stream buffer of the kernel; the task of the
    update server takes them out, reads a header, collects sectors, writes them to the secondary slot of the flash, checks the checksum,
    answers and restarts. Sources: \<^verbatim>\<open>App/tcp/ota_server.c\<close>, \<^verbatim>\<open>App/ota/ota_flash.c\<close>,
    \<^verbatim>\<open>gd32h7xx_fmc.c\<close>, \<^verbatim>\<open>FreeRtos/kernel/stream_buffer.c\<close>.
  \<^item> \<^emph>\<open>Power converters.\<close> The YFY library decodes frames into tables of measurements, tracks which modules are
    online, offers getters and senders of commands; the power interface selects it. Sources: \<^verbatim>\<open>Lib/converter\<close>.
  \<^item> \<^emph>\<open>CAN driver.\<close> The interrupt handler passes frames through a queue of the kernel to a task, which puts records of twelve bytes
    into a ring; a second task sends the records of another ring. Sources: \<^verbatim>\<open>Driver/can\<close>, \<^verbatim>\<open>gd32h7xx_can.c\<close>,
    \<^verbatim>\<open>FreeRtos/kernel/queue.c\<close>.
  \<^item> \<^emph>\<open>Console and command line.\<close> The console driver moves bytes between two rings and the serial line by DMA; the command line task reads
    characters from the receive ring, runs the command interpreter on each line and prints to the transmit ring. Sources:
    \<^verbatim>\<open>Driver/usart\<close>, \<^verbatim>\<open>Lib/cli\<close>.
  \<^item> \<^emph>\<open>TCP client.\<close> A task that connects to a server, sends numbered messages and reconnects after errors, and callbacks that log what the
    server sends. Source: \<^verbatim>\<open>App/tcp/tcp_client.c\<close>.
  \<^item> \<^emph>\<open>Ethernet.\<close> The controller moves frames between the line and two rings of descriptors. Its interrupt gives a semaphore; the input task takes frames
    out of the ring and passes them to the network stack, whose output function puts frames into the other ring. Before that, the set-up resets the controller and
    lets the transceiver negotiate the link. The stack's threads talk through mailboxes that are queues of the kernel. Sources: \<^verbatim>\<open>contrib/ports/GD32H7xx/FreeRTOS/ethernetif.c\<close>, \<^verbatim>\<open>sys_arch.c\<close>,
    \<^verbatim>\<open>gd32h7xx_enet.c\<close>, \<^verbatim>\<open>App/gd32h7xx_it.c\<close>, \<^verbatim>\<open>Driver/phy/bsp_lan8720a_rtos.c\<close>.
  \<^item> \<^emph>\<open>Heap.\<close> Every object that is created at run time comes from the allocator of the kernel,
    \<^verbatim>\<open>FreeRtos/kernel/portable/MemMang/heap_4.c\<close>.
  \<^item> \<^emph>\<open>Scheduler.\<close> All tasks run under the scheduler of the kernel, which keeps them in linked lists by priority and by wake-up time. Sources:
    \<^verbatim>\<open>FreeRtos/kernel/tasks.c\<close>, \<^verbatim>\<open>FreeRtos/kernel/list.c\<close>.
  \<^item> \<^emph>\<open>Ring buffer.\<close> The generated functions of \<^verbatim>\<open>Lib/ring_buffer/ring_buffer.h\<close>, with their two
    mutexes, used by the CAN driver and the console.

  \<^bold>\<open>The theories.\<close>

  \<^item> \<open>Prelude\<close>: word types, little-endian byte strings (\<open>le_word\<close>, \<open>le_bytes\<close>), array stores (\<open>store_at\<close>, \<open>seg\<close>), list
    lemmas and the collections of simplification rules. \<open>ByteFifo\<close>: the contracts of byte queues as locales with
    their client lemmas, one for the ring, which takes a block whole or not at all, and one for the stream buffer, which takes what fits.
  \<^item> \<open>RingBuffer\<close>: the record \<open>ring_buff_t\<close> and all generated functions. A ready ring
    implements a bounded byte queue; writes are all-or-nothing, reads oldest first; the representation invariant over the whole interface, in every state
    of the mutexes. \<open>RingRace\<close>: a writer and a reader inside the same ring, turn by turn and access by access.
  \<^item> \<open>YfyFrame\<close>, \<open>YfyData\<close>, \<open>YfyDecode\<close>, \<open>YfyParse\<close>: the identifier macros, the data
    records and decoding tables of \<^verbatim>\<open>yfy_data.c\<close>, the decoder and the bookkeeping of online modules. Which element a frame reaches and
    that nothing else changes; the exact frames for which the decoder leaves its arrays; round trips of the identifier.
    \<open>YfyInterface\<close>, \<open>YfyCommands\<close>: getters and senders of \<^verbatim>\<open>yfy_interface.c\<close>. \<open>PowerInterface\<close>: \<^verbatim>\<open>power_interface.c\<close>.
  \<^item> \<open>Fmc\<close>: the functions of the flash controller the update uses, over a device that is a parameter. \<open>Crc32\<close>: the checksum and
    its equivalence with bit-serial polynomial division. \<open>OtaFlash\<close>, \<open>OtaSlot\<close>: erase, write and checksum of \<^verbatim>\<open>ota_flash.c\<close>.
    \<open>StreamBuffer\<close>: stream and message buffers. \<open>OtaServer\<close>: callbacks and task of the update server. \<open>OtaUpdate\<close>,
    \<open>OtaInstall\<close>, \<open>OtaBehaviour\<close>: the invariant of a running update, soundness and completeness of an update, replies
    and deviations.
  \<^item> \<open>KernelQueue\<close>: the queues of the kernel as bounded lists of items, and the queue lock. The locale \<open>item_queue\<close> is what the CAN
    driver relies on. \<open>ModuleCan\<close>: byte order, interrupt handler and tasks of the CAN driver; reception in order, transmission of every record.
  \<^item> \<open>ConsoleUsart\<close>: the console driver with its DMA channels. \<open>CliParse\<close>, \<open>CliCommands\<close>: parsing and the
    command list of \<^verbatim>\<open>FreeRTOS_CLI.c\<close>; the locale \<open>cli_app\<close> states what the interpreter demands of the commands. \<open>CliTask\<close>:
    the commands of the firmware, the interpretation of that locale, and the task.
  \<^item> \<open>Heap4\<close>: the allocator over a memory of link structures. \<open>HeapBlocks\<close>: its representation invariant, a tiling of the array by
    blocks whose free ones are linked in the order of their addresses and never adjacent. \<open>HeapAlloc\<close>: histories of allocations and releases; the locale
    \<open>allocator\<close> is what clients rely on. \<open>SystemBoot\<close>: the command line built on the heap.
  \<^item> \<open>TcpClient\<close>: the callbacks and the task of the TCP client over a network stack that is a parameter.
  \<^item> \<open>KernelSemaphore\<close>: binary and counting semaphores as queues of items without bytes. \<open>EnetDma\<close>: descriptors, receive and transmit functions of the Ethernet
    controller's driver and what the controller does to the rings; \<open>EnetRing\<close>: a ring as a queue of frames. \<open>EthernetIf\<close>: initialisation, output, input task and
    interrupt handler of the interface. \<open>EthernetTraffic\<close>, \<open>EthernetRefine\<close>, \<open>EthernetService\<close>: the interface implements two bounded queues of frames,
    in every history, and what follows for reception and transmission. \<open>EnetRegs\<close>, \<open>EnetInit\<close>: registers, resets, access to the transceiver, negotiation
    and options of the controller's driver and the set-up of \<^verbatim>\<open>Driver/phy\<close>. \<open>EthernetSetup\<close>: the set-up implements a conversation with the transceiver, for
    all hardware that answers in time; when it never returns. \<open>SysArch\<close>: mailboxes and semaphores of the network stack's system layer; a mailbox
    is the second interpretation of \<open>item_queue\<close>.
  \<^item> \<open>KernelList\<close>: list objects and items with their pointers; the locale \<open>list_simulation\<close> relates any implementation of the operations to sequences, and the
    linked lists interpret it. \<open>KernelTasks\<close>: the scheduler, with the meaning of the list operations as an argument, so that one text is the code over linked lists and
    the same code over sequences. \<open>KernelRefine\<close>: the first implements the second. \<open>KernelSched\<close>, \<open>KernelDelay\<close>, \<open>KernelRun\<close>: the invariant and
    what each function does. \<open>KernelHistory\<close>, \<open>KernelBoot\<close>: every event keeps the invariant, from reset on; a bare
    \<open>xTaskResumeAll\<close> is an event of its own beside the one that ends a blocking call with a yield. \<open>KernelTiming\<close>: delays, time-outs, time slices.
    \<open>KernelMutex\<close>: mutexes on the scheduler's lists, with the loans of priorities, and what each function does. \<open>KernelInherit\<close>: the end of loans, and the two
    cases in which the kernel goes wrong; recursive mutexes. \<open>KernelOrder\<close>: the scheduler keeps the tasks that wait for an event in the order of their priorities.
    \<open>KernelInversion\<close>: no inversion from taking a mutex to giving it back, whoever blocks on it and whichever waits time out.

  \<^bold>\<open>Conventions.\<close> A struct is a record with the members of the source, file-scope objects of a component are members of its
  state record; machine integers are words of their width. A function that changes state returns the new
  state. The result \<open>None\<close> stands for what C leaves undefined (an access outside an array), a failed
  assertion or a loop that never ends; a theorem that a call returns states \<open>Some\<close>. Null pointers are \<open>None\<close> of an option type. The
  network stack, the flash array behind the controller, the CAN controller, the callbacks of the application and the kernel's
  figures (time, task states) are parameters or parts of a world record, with what is assumed of them as named
  hypotheses, each satisfied by a concrete instance in the witnesses. Interleavings are inductive relations, or lists of events, over the steps of
  tasks, interrupt handlers and hardware; a step of a task is one turn of its loop or one kernel call, as a whole. For the queues of the kernel this is no
  restriction, since their calls work in critical sections or with the scheduler suspended; a stream buffer has one writer and one reader, which the kernel's design
  allows to overlap, and here they do not. For the rings it is a restriction of the theorems on the CAN driver and the console: a
  writer and a reader take different mutexes and can preempt each other inside a call. \<open>RingRace\<close> has the ring in
  smaller steps, and shows down to which size of step it is safe and how the code as it is loses bytes.

  \<^bold>\<open>Loops.\<close> Loops over arrays and lists are structural recursions or have a measure; the
  loops that depend on the environment (the wait for the CAN mailbox, the dialogue of a command, the search in the command list) are
  partial functions into options, and their termination is proved (\<open>wait_transmitted_sends\<close>, \<open>cli_refines_lookup\<close>); so are the loops of the
  scheduler over its lists (\<open>wake_loop_spec\<close>, \<open>pending_loop_spec\<close>). The
  waiting loops of the flash driver and of the Ethernet driver carry their counters of the source. A blocking kernel call takes the list of states that the kernel presents it with
  on each wake-up.

  \<^bold>\<open>Not modelled.\<close> Settings of pins, clocks and timings (\<^verbatim>\<open>Driver/net\<close>, the
  \<open>hw_init\<close> functions) have no logic that a model could be wrong about; lwIP, the peripheral library beyond the functions named above,
  the deletion, suspension and notification of tasks, timers, event groups and queue sets are vendored code
  that the program only calls. The failure of the allocation in \<open>xTaskCreate\<close>, the blocking part of the queue functions (its pieces are
  modelled with the lock and the scheduler), the check sums that the Ethernet controller inserts, and operations on a second mutex while one is held are left out. The contexts of tasks are not modelled: which task runs is the scheduler's variable \<open>pxCurrentTCB\<close>.
\<close>

end
